(* ===== verification/Prelude.thy ===== *)
theory Prelude
  imports Main "HOL-Library.Word"
begin

text \<open>
  Shared vocabulary of the development: the machine-integer types of the C sources, the
  truncations a C assignment performs, the result type of a fallible operation, the bytes a
  reallocation leaves behind, and the generic list, word and map lemmas the component
  theories use. The named collections \<open>cint\<close> and \<open>wf_intro\<close> gather the rewrites
  for in-range integers and the well-formedness introduction rules of the components.
\<close>

unbundle bit_operations_syntax

named_theorems cint \<open>C integer conversions that are the identity on in-range values\<close>
named_theorems wf_intro \<open>introduction rules for the invariants of the components\<close>

section \<open>Types\<close>

text \<open>Addresses and sizes are 64-bit (an LP64 host); bytes and the fixed-width integers of
  \<open>stdint.h\<close> keep their width.\<close>

type_synonym byte = "8 word"
type_synonym u16 = "16 word"
type_synonym u32 = "32 word"
type_synonym u64 = "64 word"
type_synonym addr = "64 word"

text \<open>Errors are values: \<open>Inl\<close> carries the way the C code leaves the normal path.\<close>

type_synonym ('e, 'a) result = "'e + 'a"

text \<open>Sequencing: the error of the first part, or the second part on its value.\<close>

definition rbind :: "('e, 'a) result \<Rightarrow> ('a \<Rightarrow> ('e, 'b) result) \<Rightarrow> ('e, 'b) result" where
  "rbind m f = (case m of Inl e \<Rightarrow> Inl e | Inr x \<Rightarrow> f x)"

lemma rbind_simps [simp]: "rbind (Inl e) f = Inl e" "rbind (Inr x) f = f x"
  by (simp_all add: rbind_def)

lemma rbind_eq_Inr: "rbind m f = Inr y \<longleftrightarrow> (\<exists>x. m = Inr x \<and> f x = Inr y)"
  by (cases m) simp_all

lemma rbind_eq_Inl: "rbind m f = Inl e \<longleftrightarrow> m = Inl e \<or> (\<exists>x. m = Inr x \<and> f x = Inl e)"
  by (cases m) simp_all

lemma rbind_cong [fundef_cong]:
  "m = m' \<Longrightarrow> (\<And>x. m' = Inr x \<Longrightarrow> f x = f' x) \<Longrightarrow> rbind m f = rbind m' f'"
  by (cases m') simp_all

text \<open>\<open>opt_or e m\<close>: the value of an option, or the error \<open>e\<close>.\<close>

definition opt_or :: "'e \<Rightarrow> 'a option \<Rightarrow> ('e, 'a) result" where
  "opt_or e m = (case m of None \<Rightarrow> Inl e | Some x \<Rightarrow> Inr x)"

lemma opt_or_simps [simp]: "opt_or e None = Inl e" "opt_or e (Some x) = Inr x"
  by (simp_all add: opt_or_def)

section \<open>C integer conversions\<close>

text \<open>Storing a mathematical integer into a C \<open>int\<close>, \<open>long long\<close>, \<open>unsigned int\<close> or
  \<open>size_t\<close>: two's complement truncation.\<close>

definition to_i32 :: "int \<Rightarrow> int" where
  "to_i32 x = signed_take_bit 31 x"

definition to_i64 :: "int \<Rightarrow> int" where
  "to_i64 x = signed_take_bit 63 x"

definition to_u32 :: "int \<Rightarrow> int" where
  "to_u32 x = take_bit 32 x"

definition to_u64 :: "int \<Rightarrow> int" where
  "to_u64 x = take_bit 64 x"

lemma to_i32_id [cint]: "- 2147483648 \<le> x \<Longrightarrow> x < 2147483648 \<Longrightarrow> to_i32 x = x"
  by (simp add: to_i32_def signed_take_bit_int_eq_self)

lemma to_i64_id [cint]:
  "- 9223372036854775808 \<le> x \<Longrightarrow> x < 9223372036854775808 \<Longrightarrow> to_i64 x = x"
  by (simp add: to_i64_def signed_take_bit_int_eq_self)

lemma to_u32_id [cint]: "0 \<le> x \<Longrightarrow> x < 4294967296 \<Longrightarrow> to_u32 x = x"
  by (simp add: to_u32_def take_bit_int_eq_self)

lemma to_u64_id [cint]: "0 \<le> x \<Longrightarrow> x < 18446744073709551616 \<Longrightarrow> to_u64 x = x"
  by (simp add: to_u64_def take_bit_int_eq_self)

lemma to_u64_range: "0 \<le> to_u64 x" "to_u64 x < 18446744073709551616"
  using take_bit_nonnegative [of 64 x] take_bit_int_less_exp [of 64 x]
  by (simp_all add: to_u64_def)

lemma to_u32_range: "0 \<le> to_u32 x" "to_u32 x < 4294967296"
  using take_bit_nonnegative [of 32 x] take_bit_int_less_exp [of 32 x]
  by (simp_all add: to_u32_def)

section \<open>Reallocated memory\<close>

text \<open>
  \<open>zrealloc\<close> keeps the old contents up to the smaller size; what the added bytes hold is
  indeterminate, so every operation that grows a buffer takes the content \<open>g\<close> of the added
  bytes as an argument and the theorems hold for every \<open>g\<close>.
\<close>

definition realloc_buf :: "(nat \<Rightarrow> 'a) \<Rightarrow> 'a list \<Rightarrow> nat \<Rightarrow> 'a list" where
  "realloc_buf g xs n = take n xs @ map g [length xs..<n]"

lemma length_realloc_buf [simp]: "length (realloc_buf g xs n) = n"
  by (simp add: realloc_buf_def)

lemma take_realloc_buf [simp]: "k \<le> n \<Longrightarrow> k \<le> length xs \<Longrightarrow> take k (realloc_buf g xs n) = take k xs"
  by (simp add: realloc_buf_def)

lemma nth_realloc_buf: "i < n \<Longrightarrow> i < length xs \<Longrightarrow> realloc_buf g xs n ! i = xs ! i"
  by (simp add: realloc_buf_def nth_append)

text \<open>\<open>memcpy(dst+off, src, length src)\<close> on a buffer that is large enough; the guard is part of
  the operations that use it.\<close>

definition write_at :: "'a list \<Rightarrow> nat \<Rightarrow> 'a list \<Rightarrow> 'a list" where
  "write_at buf off src = take off buf @ src @ drop (off + length src) buf"

lemma length_write_at [simp]:
  "off + length src \<le> length buf \<Longrightarrow> length (write_at buf off src) = length buf"
  by (simp add: write_at_def)

lemma take_write_at_exact [simp]:
  "off \<le> length buf \<Longrightarrow> k = off + length src \<Longrightarrow> take k (write_at buf off src) = take off buf @ src"
  by (simp add: write_at_def)

lemma take_write_at_before [simp]:
  "k \<le> off \<Longrightarrow> off \<le> length buf \<Longrightarrow> take k (write_at buf off src) = take k buf"
  by (simp add: write_at_def min_absorb1)

lemma nth_write_at_before: "i < off \<Longrightarrow> off \<le> length buf \<Longrightarrow> write_at buf off src ! i = buf ! i"
  by (simp add: write_at_def nth_append)

lemma nth_write_at_inside:
  "off \<le> i \<Longrightarrow> i < off + length src \<Longrightarrow> off \<le> length buf \<Longrightarrow>
     write_at buf off src ! i = src ! (i - off)"
  by (auto simp: write_at_def nth_append)

lemma nth_write_at_after:
  "off + length src \<le> i \<Longrightarrow> i < length buf \<Longrightarrow> write_at buf off src ! i = buf ! i"
  by (auto simp: write_at_def nth_append)

section \<open>Lists and words\<close>

lemma take_Suc_list_update [simp]:
  "k \<le> i \<Longrightarrow> take k (xs[i := v]) = take k xs"
  by (rule take_update_cancel)

lemma takeWhile_stop: "\<forall>x\<in>set xs. f x \<Longrightarrow> \<not> f y \<Longrightarrow> takeWhile f (xs @ y # ys) = xs"
  by (induction xs) auto

text \<open>A \<open>for\<close> loop that rewrites the first \<open>n\<close> cells in place is a map over them.\<close>

lemma fold_update_map:
  "n \<le> length b \<Longrightarrow> fold (\<lambda>j b. b[j := f (b ! j)]) [0..<n] b = map f (take n b) @ drop n b"
proof (induction n)
  case (Suc n)
  then show ?case
    by (simp add: nth_append list_update_append take_Suc_conv_app_nth Cons_nth_drop_Suc [symmetric])
qed simp

text \<open>Masking with \<open>2 ^ k - 1\<close> is the remainder modulo \<open>2 ^ k\<close>.\<close>

lemma and_mask_nat: "(n::nat) AND (2 ^ k - 1) = n mod 2 ^ k"
  by (metis mask_eq_exp_minus_1 take_bit_eq_mask take_bit_eq_mod)

section \<open>Characters\<close>

text \<open>
  Text is a list of \<open>char\<close> (bytes). \<open>uchar\<close> and \<open>schar\<close> read a byte as C's \<open>unsigned char\<close>
  and (signed, as on x86) \<open>char\<close>, \<open>mkchar\<close> stores one; the classification functions are those of the C locale.
\<close>

abbreviation NUL :: char where
  "NUL \<equiv> CHR 0x00"

definition uchar :: "char \<Rightarrow> int" where
  "uchar c = int (of_char c)"

definition mkchar :: "int \<Rightarrow> char" where
  "mkchar n = char_of (nat n)"

definition schar :: "char \<Rightarrow> int" where
  "schar c = (if uchar c < 128 then uchar c else uchar c - 256)"

definition isdigit :: "char \<Rightarrow> bool" where
  "isdigit c \<longleftrightarrow> 48 \<le> uchar c \<and> uchar c \<le> 57"

definition isspace :: "char \<Rightarrow> bool" where
  "isspace c \<longleftrightarrow> c = CHR '' '' \<or> (9 \<le> uchar c \<and> uchar c \<le> 13)"

definition isprint :: "char \<Rightarrow> bool" where
  "isprint c \<longleftrightarrow> 32 \<le> uchar c \<and> uchar c \<le> 126"

definition tolower :: "char \<Rightarrow> char" where
  "tolower c = (if 65 \<le> uchar c \<and> uchar c \<le> 90 then mkchar (uchar c + 32) else c)"

definition toupper :: "char \<Rightarrow> char" where
  "toupper c = (if 97 \<le> uchar c \<and> uchar c \<le> 122 then mkchar (uchar c - 32) else c)"

text \<open>The C string in a buffer: the bytes before the first NUL.\<close>

definition cstr :: "char list \<Rightarrow> char list" where
  "cstr xs = takeWhile (\<lambda>c. c \<noteq> NUL) xs"

definition strcasecmp_eq :: "char list \<Rightarrow> char list \<Rightarrow> bool" where
  "strcasecmp_eq xs ys \<longleftrightarrow> map tolower xs = map tolower ys"

lemma uchar_range [simp]: "0 \<le> uchar c" "uchar c < 256" "uchar c \<le> 255"
proof -
  have "(of_char c :: nat) < 256" by simp
  then show "0 \<le> uchar c" "uchar c < 256" "uchar c \<le> 255"
    unfolding uchar_def by linarith+
qed

lemma uchar_inject [simp]: "uchar c = uchar d \<longleftrightarrow> c = d"
  by (simp add: uchar_def)

lemma uchar_mkchar [simp]: "0 \<le> n \<Longrightarrow> n < 256 \<Longrightarrow> uchar (mkchar n) = n"
  by (simp add: uchar_def mkchar_def)

lemma mkchar_uchar [simp]: "mkchar (uchar c) = c"
  by (simp add: uchar_def mkchar_def)

lemma NUL_iff: "c = NUL \<longleftrightarrow> uchar c = 0"
  using uchar_inject [of c NUL] by (simp add: uchar_def)

lemma cstr_id: "NUL \<notin> set xs \<Longrightarrow> cstr xs = xs"
  by (auto simp: cstr_def takeWhile_eq_all_conv)

lemma cstr_term [simp]: "NUL \<notin> set xs \<Longrightarrow> cstr (xs @ NUL # ys) = xs"
  by (induction xs) (auto simp: cstr_def)

section \<open>Little-endian integers in byte buffers\<close>

text \<open>
  The host is little-endian, as the conversions \<open>memrev64ifbe\<close> and their kin then do nothing.
  \<open>le_bytes n v\<close> are the \<open>n\<close> bytes an \<open>n\<close>-byte integer variable with value \<open>v\<close> occupies,
  \<open>le_val\<close> is the unsigned and \<open>le_sval\<close> the signed reading; \<open>blk k c j\<close> is the \<open>j\<close>-th cell
  of an array of \<open>k\<close>-byte cells.
\<close>

fun le_bytes :: "nat \<Rightarrow> int \<Rightarrow> byte list" where
  "le_bytes 0 v = []"
| "le_bytes (Suc n) v = word_of_int v # le_bytes n (v div 256)"

fun le_val :: "byte list \<Rightarrow> int" where
  "le_val [] = 0"
| "le_val (b # bs) = uint b + 256 * le_val bs"

definition le_sval :: "nat \<Rightarrow> byte list \<Rightarrow> int" where
  "le_sval n bs = signed_take_bit (8 * n - 1) (le_val bs)"

definition blk :: "nat \<Rightarrow> 'a list \<Rightarrow> nat \<Rightarrow> 'a list" where
  "blk k c j = take k (drop (j * k) c)"

lemma length_le_bytes [simp]: "length (le_bytes n v) = n"
  by (induction n arbitrary: v) auto

lemma uint_byte_of_int: "uint (word_of_int v :: byte) = v mod 256"
  by (simp add: uint_word_of_int)

lemma le_val_le_bytes: "le_val (le_bytes n v) = v mod 256 ^ n"
proof (induction n arbitrary: v)
  case (Suc n)
  have "v mod (256 * 256 ^ n) = 256 * (v div 256 mod 256 ^ n) + v mod 256"
    by (rule zmod_zmult2_eq) simp
  then show ?case using Suc by (simp add: uint_byte_of_int)
qed simp

lemma le_val_range: "0 \<le> le_val bs" "le_val bs < 256 ^ length bs"
proof -
  have "0 \<le> le_val bs \<and> le_val bs < 256 ^ length bs"
  proof (induction bs)
    case (Cons b bs)
    have "0 \<le> uint b" "uint b < 256" using uint_bounded [of b] by simp_all
    with Cons show ?case by simp
  qed simp
  then show "0 \<le> le_val bs" "le_val bs < 256 ^ length bs" by auto
qed

lemma le_bytes_le_val [simp]: "length bs = n \<Longrightarrow> le_bytes n (le_val bs) = bs"
proof (induction bs arbitrary: n)
  case (Cons b bs)
  have b: "0 \<le> uint b" "uint b < 256" using uint_bounded [of b] by simp_all
  have "word_of_int (uint b + 256 * le_val bs) = b"
  proof -
    have "(uint b + 256 * le_val bs) mod 256 = uint b" using b by simp
    then have "uint (word_of_int (uint b + 256 * le_val bs) :: byte) = uint b"
      by (simp only: uint_byte_of_int)
    then show ?thesis by (simp only: word_uint_eq_iff)
  qed
  moreover have "(uint b + 256 * le_val bs) div 256 = le_val bs" using b by simp
  ultimately show ?case using Cons by (cases n) auto
qed simp

lemma le_sval_le_bytes:
  assumes "0 < n" and "- (2 ^ (8 * n - 1)) \<le> v" and "v < 2 ^ (8 * n - 1)"
  shows "le_sval n (le_bytes n v) = v"
proof -
  obtain m where m: "8 * n = Suc m" using assms(1) by (cases n) auto
  have "(256::int) ^ n = 2 ^ (8 * n)" by (simp add: power_mult)
  then have "le_val (le_bytes n v) = take_bit (Suc m) v"
    by (simp add: le_val_le_bytes take_bit_eq_mod m)
  then show ?thesis
    using assms m by (simp add: le_sval_def signed_take_bit_take_bit signed_take_bit_int_eq_self)
qed

lemma length_blk: "(j + 1) * k \<le> length c \<Longrightarrow> length (blk k c j) = k"
  by (auto simp: blk_def)

lemma blk_write_at:
  assumes "length src = k" and "(i + 1) * k \<le> length c"
  shows "blk k (write_at c (i * k) src) j = (if i = j then src else blk k c j)"
proof -
  consider "i = j" | "j < i" | "i < j" by linarith
  then show ?thesis
  proof cases
    case 1
    with assms show ?thesis by (simp add: blk_def write_at_def)
  next
    case 2
    then have "(j + 1) * k \<le> i * k" by (intro mult_le_mono1) simp
    with assms 2 show ?thesis by (simp add: blk_def write_at_def take_drop)
  next
    case 3
    then have "(i + 1) * k \<le> j * k" by (intro mult_le_mono1) simp
    with assms 3 show ?thesis by (simp add: blk_def write_at_def)
  qed
qed

end
