(* ===== verification/Zmalloc.thy ===== *)
theory Zmalloc
  imports Prelude
begin

text \<open>
  The memory accounting of \<open>zmalloc.c\<close>. The allocator underneath (\<open>malloc\<close>, \<open>calloc\<close>,
  \<open>realloc\<close>) is a parameter: each operation takes the address it answered with, 0 for NULL.
  The branch without \<open>HAVE_MALLOC_SIZE\<close> is modelled: each block starts with a header that
  holds the requested size, and \<open>heap\<close> maps the real address of a live block to that
  header. The main result is that \<open>used_memory\<close> is exactly the sum of the padded sizes of the
  live blocks after any sequence of calls.
\<close>

section \<open>State\<close>

datatype zerror =
    Oom u64         \<comment> \<open>\<open>zmalloc_oom_handler\<close> ran: the default one aborts\<close>
  | BadPointer addr \<comment> \<open>the address is not a live block: undefined behaviour\<close>

record zstate =
  used_memory :: u64
  zmalloc_thread_safe :: bool
  heap :: "addr \<rightharpoonup> u64"

definition zinit :: zstate where
  "zinit = \<lparr>used_memory = 0, zmalloc_thread_safe = False, heap = Map.empty\<rparr>"

definition PREFIX_SIZE :: u64 where
  "PREFIX_SIZE = 8"

section \<open>Operations\<close>

text \<open>The padding of the two statistics macros: sizes are rounded up to \<open>sizeof(long)\<close>.\<close>

definition pad_long :: "u64 \<Rightarrow> u64" where
  "pad_long n = (if n AND 7 \<noteq> 0 then n + (8 - (n AND 7)) else n)"

definition update_zmalloc_stat_add :: "u64 \<Rightarrow> zstate \<Rightarrow> zstate" where
  "update_zmalloc_stat_add n z = z\<lparr>used_memory := used_memory z + n\<rparr>"

definition update_zmalloc_stat_sub :: "u64 \<Rightarrow> zstate \<Rightarrow> zstate" where
  "update_zmalloc_stat_sub n z = z\<lparr>used_memory := used_memory z - n\<rparr>"

definition update_zmalloc_stat_alloc :: "u64 \<Rightarrow> zstate \<Rightarrow> zstate" where
  "update_zmalloc_stat_alloc n z =
     (if zmalloc_thread_safe z then update_zmalloc_stat_add (pad_long n) z
      else z\<lparr>used_memory := used_memory z + pad_long n\<rparr>)"

definition update_zmalloc_stat_free :: "u64 \<Rightarrow> zstate \<Rightarrow> zstate" where
  "update_zmalloc_stat_free n z =
     (if zmalloc_thread_safe z then update_zmalloc_stat_sub (pad_long n) z
      else z\<lparr>used_memory := used_memory z - pad_long n\<rparr>)"

definition zmalloc :: "addr \<Rightarrow> u64 \<Rightarrow> zstate \<Rightarrow> (zerror, addr \<times> zstate) result" where
  "zmalloc ptr sz z =
     (if ptr = 0 then Inl (Oom sz)
      else let z = z\<lparr>heap := (heap z)(ptr \<mapsto> sz)\<rparr>;
               z = update_zmalloc_stat_alloc (sz + PREFIX_SIZE) z
           in Inr (ptr + PREFIX_SIZE, z))"

definition zcalloc :: "addr \<Rightarrow> u64 \<Rightarrow> zstate \<Rightarrow> (zerror, addr \<times> zstate) result" where
  "zcalloc ptr sz z =
     (if ptr = 0 then Inl (Oom sz)
      else let z = z\<lparr>heap := (heap z)(ptr \<mapsto> sz)\<rparr>;
               z = update_zmalloc_stat_alloc (sz + PREFIX_SIZE) z
           in Inr (ptr + PREFIX_SIZE, z))"

definition zrealloc :: "addr \<Rightarrow> addr \<Rightarrow> u64 \<Rightarrow> zstate \<Rightarrow> (zerror, addr \<times> zstate) result" where
  "zrealloc newptr ptr sz z =
     (if ptr = 0 then zmalloc newptr sz z
      else let realptr = ptr - PREFIX_SIZE in
        (case heap z realptr of
           None \<Rightarrow> Inl (BadPointer ptr)
         | Some oldsize \<Rightarrow>
             if newptr = 0 then Inl (Oom sz)
             else let z = z\<lparr>heap := (heap z)(realptr := None, newptr \<mapsto> sz)\<rparr>;
                      z = update_zmalloc_stat_free oldsize z;
                      z = update_zmalloc_stat_alloc sz z
                  in Inr (newptr + PREFIX_SIZE, z)))"

definition zmalloc_size :: "addr \<Rightarrow> zstate \<Rightarrow> (zerror, u64) result" where
  "zmalloc_size ptr z =
     (case heap z (ptr - PREFIX_SIZE) of
        None \<Rightarrow> Inl (BadPointer ptr)
      | Some sz \<Rightarrow>
          let sz = (if sz AND 7 \<noteq> 0 then sz + (8 - (sz AND 7)) else sz)
          in Inr (sz + PREFIX_SIZE))"

definition zfree :: "addr \<Rightarrow> zstate \<Rightarrow> (zerror, zstate) result" where
  "zfree ptr z =
     (if ptr = 0 then Inr z
      else let realptr = ptr - PREFIX_SIZE in
        (case heap z realptr of
           None \<Rightarrow> Inl (BadPointer ptr)
         | Some oldsize \<Rightarrow>
             let z = update_zmalloc_stat_free (oldsize + PREFIX_SIZE) z
             in Inr (z\<lparr>heap := (heap z)(realptr := None)\<rparr>)))"

definition zmalloc_used_memory :: "zstate \<Rightarrow> u64" where
  "zmalloc_used_memory z =
     (if zmalloc_thread_safe z then used_memory z + 0 else used_memory z)"

definition zmalloc_enable_thread_safeness :: "zstate \<Rightarrow> zstate" where
  "zmalloc_enable_thread_safeness z = z\<lparr>zmalloc_thread_safe := True\<rparr>"

text \<open>
  The branch with \<open>HAVE_MALLOC_SIZE\<close>, which the jemalloc build takes: no header, and
  \<open>heap\<close> maps a live block to the usable size \<open>zmalloc_size\<close> reports for it, which the
  allocator chooses (argument \<open>usable\<close>).
\<close>

definition zmalloc_usable :: "addr \<Rightarrow> u64 \<Rightarrow> u64 \<Rightarrow> zstate \<Rightarrow> (zerror, addr \<times> zstate) result" where
  "zmalloc_usable ptr usable sz z =
     (if ptr = 0 then Inl (Oom sz)
      else let z = z\<lparr>heap := (heap z)(ptr \<mapsto> usable)\<rparr>
           in Inr (ptr, update_zmalloc_stat_alloc usable z))"

definition zrealloc_usable ::
    "addr \<Rightarrow> u64 \<Rightarrow> addr \<Rightarrow> u64 \<Rightarrow> zstate \<Rightarrow> (zerror, addr \<times> zstate) result" where
  "zrealloc_usable newptr usable ptr sz z =
     (if ptr = 0 then zmalloc_usable newptr usable sz z
      else (case heap z ptr of
              None \<Rightarrow> Inl (BadPointer ptr)
            | Some oldsize \<Rightarrow>
                if newptr = 0 then Inl (Oom sz)
                else let z = z\<lparr>heap := (heap z)(ptr := None, newptr \<mapsto> usable)\<rparr>;
                         z = update_zmalloc_stat_free oldsize z
                     in Inr (newptr, update_zmalloc_stat_alloc usable z)))"

definition zfree_usable :: "addr \<Rightarrow> zstate \<Rightarrow> (zerror, zstate) result" where
  "zfree_usable ptr z =
     (if ptr = 0 then Inr z
      else (case heap z ptr of
              None \<Rightarrow> Inl (BadPointer ptr)
            | Some oldsize \<Rightarrow>
                let z = update_zmalloc_stat_free oldsize z
                in Inr (z\<lparr>heap := (heap z)(ptr := None)\<rparr>)))"

lemmas zmalloc_defs =
  zmalloc_def zcalloc_def zrealloc_def zfree_def zmalloc_enable_thread_safeness_def
  zmalloc_usable_def zrealloc_usable_def zfree_usable_def
  update_zmalloc_stat_alloc_def update_zmalloc_stat_free_def
  update_zmalloc_stat_add_def update_zmalloc_stat_sub_def

section \<open>Padding\<close>

lemma and_7_take_bit: "(n :: u64) AND 7 = take_bit 3 n"
  by (simp add: take_bit_eq_mask mask_eq_exp_minus_1)

lemma pad_long_prefix: "pad_long (n + PREFIX_SIZE) = pad_long n + PREFIX_SIZE"
proof -
  have "uint (take_bit 3 (n + 8)) = uint (take_bit 3 n)"
    by (simp add: unsigned_take_bit_eq uint_word_ariths take_bit_eq_mod mod_mod_cancel uint_mod_distrib)
  then have "take_bit 3 (n + 8) = take_bit 3 n" by (simp only: word_uint_eq_iff)
  then show ?thesis by (simp add: pad_long_def PREFIX_SIZE_def and_7_take_bit)
qed

section \<open>Accounting invariant\<close>

text \<open>\<open>balanced cost z\<close>: finitely many blocks are live and \<open>used_memory\<close> is the sum of what
  \<open>cost\<close> charges for them, in 64-bit arithmetic.\<close>

definition balanced :: "(u64 \<Rightarrow> u64) \<Rightarrow> zstate \<Rightarrow> bool" where
  "balanced cost z \<longleftrightarrow> finite (dom (heap z)) \<and>
     used_memory z = (\<Sum>a\<in>dom (heap z). cost (the (heap z a)))"

definition block_cost :: "u64 \<Rightarrow> u64" where
  "block_cost sz = pad_long sz + PREFIX_SIZE"

lemma sum_map_upd:
  assumes "finite (dom m)" and "p \<notin> dom m"
  shows "(\<Sum>a\<in>dom (m(p \<mapsto> s)). f (the ((m(p \<mapsto> s)) a))) = (\<Sum>a\<in>dom m. f (the (m a))) + (f s :: u64)"
proof -
  have "(\<Sum>a\<in>dom m. f (the ((m(p \<mapsto> s)) a))) = (\<Sum>a\<in>dom m. f (the (m a)))"
    using assms(2) by (intro sum.cong) auto
  then show ?thesis using assms by (simp add: add.commute)
qed

lemma sum_map_del:
  assumes "finite (dom m)" and "m p = Some s"
  shows "(\<Sum>a\<in>dom (m(p := None)). f (the ((m(p := None)) a))) =
         (\<Sum>a\<in>dom m. f (the (m a))) - (f s :: u64)"
proof -
  have "(\<Sum>a\<in>dom m. f (the (m a))) = f s + (\<Sum>a\<in>dom m - {p}. f (the (m a)))"
    using sum.remove [of "dom m" p "\<lambda>a. f (the (m a))"] assms by (simp add: domI)
  moreover have "(\<Sum>a\<in>dom (m(p := None)). f (the ((m(p := None)) a))) =
      (\<Sum>a\<in>dom m - {p}. f (the (m a)))"
    by (rule sum.cong) auto
  ultimately show ?thesis by simp
qed

lemma balanced_insert:
  "balanced cost z \<Longrightarrow> p \<notin> dom (heap z) \<Longrightarrow>
     balanced cost (z\<lparr>heap := (heap z)(p \<mapsto> s), used_memory := used_memory z + cost s\<rparr>)"
  using sum_map_upd [of "heap z" p cost s] by (simp add: balanced_def)

lemma balanced_remove:
  "balanced cost z \<Longrightarrow> heap z p = Some s \<Longrightarrow>
     balanced cost (z\<lparr>heap := (heap z)(p := None), used_memory := used_memory z - cost s\<rparr>)"
  using sum_map_del [of "heap z" p s cost] by (simp add: balanced_def)

lemma balanced_cong:
  "balanced cost z \<Longrightarrow> heap z' = heap z \<Longrightarrow> used_memory z' = used_memory z \<Longrightarrow> balanced cost z'"
  by (simp add: balanced_def)

lemma balanced_move:
  assumes "balanced cost z" and "heap z p = Some s" and "q = p \<or> q \<notin> dom (heap z)"
  shows "balanced cost (z\<lparr>heap := (heap z)(p := None, q \<mapsto> t),
           used_memory := used_memory z - cost s + cost t\<rparr>)"
proof -
  let ?y = "z\<lparr>heap := (heap z)(p := None), used_memory := used_memory z - cost s\<rparr>"
  have "balanced cost ?y" using assms(1,2) by (rule balanced_remove)
  moreover have "q \<notin> dom (heap ?y)" using assms(3) by auto
  ultimately show ?thesis using balanced_insert [of cost ?y q t] by simp
qed

lemma balanced_empty: "balanced cost z \<Longrightarrow> heap z = Map.empty \<Longrightarrow> used_memory z = 0"
  by (simp add: balanced_def)

lemma zmalloc_balanced:
  assumes "balanced block_cost z" and "ptr \<notin> dom (heap z)" and "zmalloc ptr sz z = Inr (p, z')"
  shows "balanced block_cost z'"
  using balanced_insert [OF assms(1,2), of sz] assms(3)
  by (auto simp: zmalloc_defs block_cost_def pad_long_prefix Let_def split: if_splits
      elim!: balanced_cong)

lemma zcalloc_eq_zmalloc: "zcalloc ptr sz z = zmalloc ptr sz z"
  by (simp add: zcalloc_def zmalloc_def)

lemma zrealloc_balanced:
  assumes "balanced block_cost z" and "zrealloc newptr ptr sz z = Inr (p, z')"
    and "newptr \<notin> dom (heap z) \<or> ptr \<noteq> 0 \<and> newptr = ptr - PREFIX_SIZE"
  shows "balanced block_cost z'"
proof (cases "ptr = 0")
  case True
  with assms show ?thesis by (auto simp: zrealloc_def intro: zmalloc_balanced)
next
  case False
  with assms(2) obtain old where old: "heap z (ptr - PREFIX_SIZE) = Some old"
    by (auto simp: zrealloc_def Let_def split: option.splits)
  then have "newptr = ptr - PREFIX_SIZE \<or> newptr \<notin> dom (heap z)" using assms(3) by auto
  from balanced_move [OF assms(1) old this, of sz] assms(2) False old
  show ?thesis
    by (auto simp: zmalloc_defs block_cost_def Let_def algebra_simps split: if_splits
        elim!: balanced_cong)
qed

lemma zfree_balanced:
  assumes "balanced block_cost z" and "zfree ptr z = Inr z'"
  shows "balanced block_cost z'"
proof (cases "ptr = 0")
  case True
  with assms show ?thesis by (simp add: zfree_def)
next
  case False
  with assms(2) obtain old where old: "heap z (ptr - PREFIX_SIZE) = Some old"
    by (auto simp: zfree_def Let_def split: option.splits)
  from balanced_remove [OF assms(1) old] assms(2) False old
  show ?thesis
    by (auto simp: zmalloc_defs block_cost_def pad_long_prefix Let_def elim!: balanced_cong)
qed

lemma zmalloc_usable_balanced:
  assumes "balanced pad_long z" and "ptr \<notin> dom (heap z)"
    and "zmalloc_usable ptr usable sz z = Inr (p, z')"
  shows "balanced pad_long z'"
  using balanced_insert [OF assms(1,2), of usable] assms(3)
  by (auto simp: zmalloc_defs Let_def split: if_splits elim!: balanced_cong)

lemma zrealloc_usable_balanced:
  assumes "balanced pad_long z" and "zrealloc_usable newptr usable ptr sz z = Inr (p, z')"
    and "newptr \<notin> dom (heap z) \<or> ptr \<noteq> 0 \<and> newptr = ptr"
  shows "balanced pad_long z'"
proof (cases "ptr = 0")
  case True
  with assms show ?thesis by (auto simp: zrealloc_usable_def intro: zmalloc_usable_balanced)
next
  case False
  with assms(2) obtain old where old: "heap z ptr = Some old"
    by (auto simp: zrealloc_usable_def split: option.splits)
  have "newptr = ptr \<or> newptr \<notin> dom (heap z)" using assms(3) by auto
  from balanced_move [OF assms(1) old this, of usable] assms(2) False old
  show ?thesis
    by (auto simp: zmalloc_defs Let_def split: if_splits elim!: balanced_cong)
qed

lemma zfree_usable_balanced:
  assumes "balanced pad_long z" and "zfree_usable ptr z = Inr z'"
  shows "balanced pad_long z'"
proof (cases "ptr = 0")
  case True
  with assms show ?thesis by (simp add: zfree_usable_def)
next
  case False
  with assms(2) obtain old where old: "heap z ptr = Some old"
    by (auto simp: zfree_usable_def split: option.splits)
  from balanced_remove [OF assms(1) old] assms(2) False old
  show ?thesis by (auto simp: zmalloc_defs Let_def elim!: balanced_cong)
qed

section \<open>Runs\<close>

text \<open>
  One step is one call of the allocation interface. The premises on addresses are what
  \<open>malloc\<close>, \<open>calloc\<close> and \<open>realloc\<close> promise: the block they answer with is not a live
  one (\<open>realloc\<close> may grow the block in place).
\<close>

inductive zstep :: "zstate \<Rightarrow> zstate \<Rightarrow> bool" where
  malloc: "ptr \<notin> dom (heap z) \<Longrightarrow> zmalloc ptr sz z = Inr (p, z') \<Longrightarrow> zstep z z'"
| calloc: "ptr \<notin> dom (heap z) \<Longrightarrow> zcalloc ptr sz z = Inr (p, z') \<Longrightarrow> zstep z z'"
| realloc: "newptr \<notin> dom (heap z) \<or> ptr \<noteq> 0 \<and> newptr = ptr - PREFIX_SIZE \<Longrightarrow>
     zrealloc newptr ptr sz z = Inr (p, z') \<Longrightarrow> zstep z z'"
| free: "zfree ptr z = Inr z' \<Longrightarrow> zstep z z'"
| thread_safe: "zstep z (zmalloc_enable_thread_safeness z)"

inductive_cases zstepE: "zstep z z'"

inductive zreachable :: "zstate \<Rightarrow> bool" where
  start: "zreachable zinit"
| step: "zreachable z \<Longrightarrow> zstep z z' \<Longrightarrow> zreachable z'"

lemma zstep_balanced: "zstep z z' \<Longrightarrow> balanced block_cost z \<Longrightarrow> balanced block_cost z'"
proof (induction rule: zstep.induct)
  case (calloc ptr z sz p z')
  then show ?case by (auto simp: zcalloc_eq_zmalloc intro: zmalloc_balanced)
next
  case (thread_safe z)
  then show ?case by (auto simp: zmalloc_enable_thread_safeness_def elim: balanced_cong)
qed (blast intro: zmalloc_balanced zrealloc_balanced zfree_balanced)+

lemma balanced_zinit: "balanced cost zinit"
  by (simp add: balanced_def zinit_def)

lemma zreachable_balanced: "zreachable z \<Longrightarrow> balanced block_cost z"
  by (induction rule: zreachable.induct) (auto intro: balanced_zinit zstep_balanced)

text \<open>
  C5. Memory accounting: after any sequence of \<open>zmalloc\<close>, \<open>zcalloc\<close>, \<open>zrealloc\<close> and
  \<open>zfree\<close> calls, \<open>zmalloc_used_memory\<close> reports exactly the sum, over the live blocks, of the
  header plus the size rounded up to 8 bytes.
\<close>

theorem used_memory_exact:
  assumes "zreachable z"
  shows "zmalloc_used_memory z = (\<Sum>a\<in>dom (heap z). pad_long (the (heap z a)) + PREFIX_SIZE)"
  using zreachable_balanced [OF assms]
  by (simp add: zmalloc_used_memory_def balanced_def block_cost_def)

lemma used_memory_exact_run:
  "zreachable (zinit\<lparr>heap := [4096 \<mapsto> 13], used_memory := 24\<rparr>)"
proof (rule zreachable.step [OF zreachable.start], rule zstep.malloc [where ptr = 4096 and sz = 13])
  show "4096 \<notin> dom (heap zinit)" by (simp add: zinit_def)
  show "zmalloc 4096 13 zinit = Inr (4104, zinit\<lparr>heap := [4096 \<mapsto> 13], used_memory := 24\<rparr>)"
    by (simp add: zmalloc_defs zinit_def PREFIX_SIZE_def pad_long_def Let_def)
qed

theorem used_memory_exact_witness:
  "zmalloc_used_memory (zinit\<lparr>heap := [4096 \<mapsto> 13], used_memory := 24\<rparr>) = 24"
  using used_memory_exact [OF used_memory_exact_run]
  by (simp add: PREFIX_SIZE_def pad_long_def)

end
