(* ===== verification/Memory_Aggregator.thy ===== *)
theory Memory_Aggregator
  imports Prelude
begin

text \<open>
  The page aggregator of \<open>memory_aggregator.c\<close>, the allocator this project adds to Redis so
  that hash table entries share DRAM rows. The pool is a linked list of \<open>page_state\<close> structs
  on an explicit store: \<open>nodes\<close> maps a live struct to its fields, and an access through NULL or
  through a freed struct is an error value. What the operating system answers (\<open>mmap\<close>,
  \<open>rand\<close>) is consumed from scripts in the state; \<open>malloc\<close> hands out the struct number
  \<open>fresh\<close>, never used before.

  The lemmas show what the aggregator promises while pages have room, and two defects of the
  path that replaces a full page.
\<close>

section \<open>State\<close>

datatype agg_error =
    ExitProcess int        \<comment> \<open>\<open>exit\<close> with this status\<close>
  | NullDeref              \<comment> \<open>access through a NULL \<open>page_state\<close> pointer\<close>
  | DanglingDeref nat      \<comment> \<open>access through a freed \<open>page_state\<close>\<close>
  | DivideByZero           \<comment> \<open>\<open>rand() % 0\<close>\<close>
  | NoMoreInput            \<comment> \<open>the script of operating system answers is used up\<close>

type_synonym node = nat

record page_state =
  p_page :: addr
  current_offset :: int
  prev :: "node option"
  next_page :: "node option"

record agg =
  page_pool :: "node option"
  free_page_count :: int
  page_pool_size :: int
  nodes :: "node \<rightharpoonup> page_state"
  fresh :: node
  mmap_answers :: "addr list"
  rand_answers :: "int list"

definition PAGE_SIZE :: int where
  "PAGE_SIZE = 4096"

text \<open>The initial globals: an empty pool of target size 20.\<close>

definition agg_init :: "addr list \<Rightarrow> int list \<Rightarrow> agg" where
  "agg_init mm rs = \<lparr>page_pool = None, free_page_count = 0, page_pool_size = 20,
     nodes = Map.empty, fresh = 0, mmap_answers = mm, rand_answers = rs\<rparr>"

text \<open>Reading the struct a pointer refers to.\<close>

definition deref :: "agg \<Rightarrow> node option \<Rightarrow> (agg_error, page_state) result" where
  "deref a p = (case p of None \<Rightarrow> Inl NullDeref | Some x \<Rightarrow> opt_or (DanglingDeref x) (nodes a x))"

section \<open>Operations\<close>

definition set_page_pool_size :: "int \<Rightarrow> agg \<Rightarrow> agg" where
  "set_page_pool_size num_requests a =
     a\<lparr>page_pool_size := - ((- (num_requests * 24)) div PAGE_SIZE)\<rparr>"

text \<open>\<open>alloc_page\<close>: -1 when \<open>mmap\<close> fails, -2 when the page is not aligned, 0 otherwise.\<close>

definition alloc_page :: "agg \<Rightarrow> (agg_error, int \<times> agg) result" where
  "alloc_page a =
     (case mmap_answers a of
        [] \<Rightarrow> Inl NoMoreInput
      | p # ps \<Rightarrow>
          let a = a\<lparr>mmap_answers := ps\<rparr> in
          if p = - 1 then Inr (- 1, a)
          else if p AND (4096 - 1) \<noteq> 0 then Inr (- 2, a)
          else
            let new_page = fresh a;
                new = \<lparr>p_page = p, current_offset = 0, prev = None, next_page = page_pool a\<rparr>;
                a = a\<lparr>fresh := Suc new_page, nodes := (nodes a)(new_page \<mapsto> new)\<rparr>
            in rbind (case page_pool a of
                        None \<Rightarrow> Inr a
                      | Some h \<Rightarrow> rbind (deref a (Some h))
                          (\<lambda>hd. Inr (a\<lparr>nodes := (nodes a)(h \<mapsto> hd\<lparr>prev := Some new_page\<rparr>)\<rparr>)))
                 (\<lambda>a. rbind (deref a (Some new_page))
                   (\<lambda>nd. Inr (0, a\<lparr>nodes := (nodes a)(new_page \<mapsto> nd\<lparr>prev := page_pool a\<rparr>),
                                   page_pool := Some new_page,
                                   free_page_count := to_i32 (free_page_count a + 1)\<rparr>))))"

definition remove_page :: "node option \<Rightarrow> agg \<Rightarrow> (agg_error, agg) result" where
  "remove_page x a =
     rbind (deref a x)
       (\<lambda>nd. rbind (case prev nd of
                      None \<Rightarrow> Inr (a\<lparr>page_pool := next_page nd\<rparr>)
                    | Some q \<Rightarrow> rbind (deref a (Some q))
                        (\<lambda>qd. Inr (a\<lparr>nodes := (nodes a)(q \<mapsto> qd\<lparr>next_page := next_page nd\<rparr>)\<rparr>)))
               (\<lambda>a. Inr (a\<lparr>nodes := (nodes a)(the x := None)\<rparr>)))"

text \<open>The page selection loop of the three allocation functions: \<open>n\<close> is \<open>page_i - i\<close>.\<close>

fun select_page :: "agg \<Rightarrow> nat \<Rightarrow> node option \<Rightarrow> (agg_error, node option) result" where
  "select_page a 0 page_sel = Inr page_sel"
| "select_page a (Suc n) page_sel =
     rbind (deref a page_sel)
       (\<lambda>nd. if next_page nd \<noteq> None then select_page a n (next_page nd) else Inr page_sel)"

text \<open>
  The common body of \<open>alloc_entry_random\<close>, \<open>alloc_entry\<close> and \<open>alloc_entry_skip\<close>, which the
  source repeats three times; the last adds a \<open>local_offset\<close>. The comparison with
  \<open>PAGE_SIZE\<close> is made in \<open>size_t\<close>. When the page is full the base address \<open>page\<close> of the
  removed page is kept, as in the source.
\<close>

definition alloc_entry_body :: "int \<Rightarrow> int \<Rightarrow> int \<Rightarrow> agg \<Rightarrow> (agg_error, addr \<times> agg) result" where
  "alloc_entry_body local_offset sz page_i a =
     (if page_i \<ge> free_page_count a then Inl (ExitProcess (- 1))
      else rbind (if page_i \<ge> 0
                  then rbind (select_page a (nat page_i) (page_pool a))
                         (\<lambda>s. if s = None then Inl (ExitProcess (- 1)) else Inr s)
                  else Inr (page_pool a))
        (\<lambda>page_sel. rbind (deref a page_sel)
        (\<lambda>nd. let page = p_page nd; offset = current_offset nd in
          rbind (if to_u64 (offset + sz) > PAGE_SIZE
                 then rbind (remove_page page_sel a)
                        (\<lambda>a. rbind (alloc_page a)
                        (\<lambda>(_, a). rbind (deref a (page_pool a))
                        (\<lambda>nd. Inr (page_pool a, current_offset nd, a))))
                 else Inr (page_sel, offset, a))
          (\<lambda>(page_sel, offset, a). rbind (deref a page_sel)
          (\<lambda>nd. Inr (page + of_int offset,
                     a\<lparr>nodes := (nodes a)(the page_sel \<mapsto>
                          nd\<lparr>current_offset := to_i32 (offset + sz + local_offset)\<rparr>)\<rparr>))))))"

definition alloc_entry :: "int \<Rightarrow> int \<Rightarrow> agg \<Rightarrow> (agg_error, addr \<times> agg) result" where
  "alloc_entry sz page_i a = alloc_entry_body 0 sz page_i a"

definition alloc_entry_skip :: "int \<Rightarrow> int \<Rightarrow> agg \<Rightarrow> (agg_error, addr \<times> agg) result" where
  "alloc_entry_skip sz page_i a = (let local_offset = 0 in alloc_entry_body local_offset sz page_i a)"

definition alloc_entry_random :: "int \<Rightarrow> agg \<Rightarrow> (agg_error, addr \<times> agg) result" where
  "alloc_entry_random sz a =
     (case rand_answers a of
        [] \<Rightarrow> Inl NoMoreInput
      | r # rs \<Rightarrow>
          if page_pool_size a = 0 then Inl DivideByZero
          else let page_i = r mod \<bar>page_pool_size a\<bar>
               in alloc_entry_body 0 sz page_i (a\<lparr>rand_answers := rs\<rparr>))"

lemma alloc_page_consumes:
  assumes "alloc_page a = Inr (r, a')"
  shows "length (mmap_answers a') < length (mmap_answers a)"
  using assms
  by (auto simp: alloc_page_def Let_def rbind_eq_Inr split: list.splits if_splits option.splits)

text \<open>\<open>init_page_pool\<close>: the loop retries an unaligned page and exits on a failed one.\<close>

function init_page_pool_loop :: "int \<Rightarrow> agg \<Rightarrow> (agg_error, agg) result" where
  "init_page_pool_loop i a =
     (if i < page_pool_size a
      then (case alloc_page a of
              Inl e \<Rightarrow> Inl e
            | Inr (ret, a') \<Rightarrow>
                if ret = - 1 then Inl (ExitProcess (- 1))
                else if ret = - 2 then init_page_pool_loop i a'
                else init_page_pool_loop (i + 1) a')
      else Inr a)"
  by pat_completeness auto
termination
  by (relation "measure (\<lambda>(i, a). length (mmap_answers a))") (auto dest: alloc_page_consumes)

declare init_page_pool_loop.simps [simp del]

definition init_page_pool :: "agg \<Rightarrow> (agg_error, agg) result" where
  "init_page_pool a = init_page_pool_loop 0 a"

section \<open>The pool as a list of pages\<close>

text \<open>\<open>chain m p xs\<close>: following \<open>next\<close> from \<open>p\<close> visits exactly the live structs \<open>xs\<close>.\<close>

fun chain :: "(node \<rightharpoonup> page_state) \<Rightarrow> node option \<Rightarrow> node list \<Rightarrow> bool" where
  "chain m p [] \<longleftrightarrow> p = None"
| "chain m p (x # xs) \<longleftrightarrow> p = Some x \<and> (\<exists>nd. m x = Some nd \<and> chain m (next_page nd) xs)"

definition page_of :: "agg \<Rightarrow> node \<Rightarrow> addr" where
  "page_of a x = p_page (the (nodes a x))"

definition offset_of :: "agg \<Rightarrow> node \<Rightarrow> int" where
  "offset_of a x = current_offset (the (nodes a x))"

definition pool_ok :: "agg \<Rightarrow> node list \<Rightarrow> bool" where
  "pool_ok a xs \<longleftrightarrow>
     chain (nodes a) (page_pool a) xs \<and> distinct xs \<and>
     free_page_count a = int (length xs) \<and> length xs < 2147483648 \<and>
     (\<forall>x\<in>set xs. x < fresh a \<and> 0 \<le> offset_of a x \<and> offset_of a x \<le> PAGE_SIZE)"

definition aligned_page :: "addr \<Rightarrow> bool" where
  "aligned_page p \<longleftrightarrow> p \<noteq> - 1 \<and> p AND (4096 - 1) = 0"

lemma deref_Some [simp]: "nodes a x = Some nd \<Longrightarrow> deref a (Some x) = Inr nd"
  by (simp add: deref_def)

lemma deref_freed [simp]: "nodes a x = None \<Longrightarrow> deref a (Some x) = Inl (DanglingDeref x)"
  by (simp add: deref_def)

lemma chain_live: "chain m p xs \<Longrightarrow> x \<in> set xs \<Longrightarrow> \<exists>nd. m x = Some nd"
  by (induction xs arbitrary: p) auto

lemma chain_upd_notin: "y \<notin> set xs \<Longrightarrow> chain (m(y := v)) p xs = chain m p xs"
  by (induction xs arbitrary: p) auto

lemma chain_upd_same_next:
  "m y = Some nd \<Longrightarrow> next_page nd' = next_page nd \<Longrightarrow> chain (m(y \<mapsto> nd')) p xs = chain m p xs"
  by (induction xs arbitrary: p) auto

lemma select_page_chain:
  "chain (nodes a) p xs \<Longrightarrow> n < length xs \<Longrightarrow> select_page a n p = Inr (Some (xs ! n))"
proof (induction n arbitrary: p xs)
  case 0
  then show ?case by (cases xs) auto
next
  case (Suc n)
  then obtain x ys nd where xs: "xs = x # ys" "p = Some x" "nodes a x = Some nd"
      "chain (nodes a) (next_page nd) ys" and n: "n < length ys"
    by (cases xs) auto
  then have "next_page nd \<noteq> None" by (cases ys) auto
  with Suc.IH [OF xs(4) n] xs show ?case by simp
qed

lemma pool_ok_live: "pool_ok a xs \<Longrightarrow> x \<in> set xs \<Longrightarrow> \<exists>nd. nodes a x = Some nd"
  by (auto simp: pool_ok_def dest: chain_live)

lemma pool_ok_empty: "pool_ok (agg_init mm rs) []"
  by (simp add: pool_ok_def agg_init_def)

section \<open>Building the pool\<close>

lemma alloc_page_aligned:
  assumes ok: "pool_ok a xs" and mm: "mmap_answers a = p # ps" and al: "aligned_page p"
    and len: "length xs + 1 < 2147483648"
  obtains a' where "alloc_page a = Inr (0, a')" "pool_ok a' (fresh a # xs)"
    "page_of a' (fresh a) = p" "offset_of a' (fresh a) = 0"
    "\<And>x. x \<in> set xs \<Longrightarrow> page_of a' x = page_of a x \<and> offset_of a' x = offset_of a x"
    "mmap_answers a' = ps" "rand_answers a' = rand_answers a"
    "page_pool_size a' = page_pool_size a"
proof -
  have fr: "fresh a \<notin> set xs" and ch: "chain (nodes a) (page_pool a) xs"
    using ok by (auto simp: pool_ok_def)
  have i32: "to_i32 (1 + int (length xs)) = 1 + int (length xs)"
    using len by (simp add: cint)
  have c0: "\<And>v. chain ((nodes a)(fresh a \<mapsto> v)) (page_pool a) xs"
    using ch fr by (simp add: chain_upd_notin)
  show thesis
  proof (cases xs)
    case Nil
    with ch have "page_pool a = None" by simp
    then show thesis
      using ok mm al Nil i32 that
      by (auto simp: alloc_page_def aligned_page_def pool_ok_def page_of_def offset_of_def
          PAGE_SIZE_def Let_def add.commute)
  next
    case (Cons h ys)
    with ch obtain hd where h: "page_pool a = Some h" "nodes a h = Some hd" "h \<noteq> fresh a"
      using fr by auto
    let ?nd = "\<lparr>p_page = p, current_offset = 0, prev = Some h, next_page = Some h\<rparr>"
    let ?m = "(nodes a)(fresh a \<mapsto> ?nd, h \<mapsto> hd\<lparr>prev := Some (fresh a)\<rparr>)"
    let ?a = "a\<lparr>mmap_answers := ps, fresh := Suc (fresh a), nodes := ?m,
        page_pool := Some (fresh a), free_page_count := free_page_count a + 1\<rparr>"
    have "chain ?m (Some h) xs"
      using c0 [of ?nd] h by (subst chain_upd_same_next [where nd = hd]) auto
    with h have "chain ?m (Some (fresh a)) (fresh a # xs)" by simp
    then have "pool_ok ?a (fresh a # xs)"
      using ok len fr h by (auto simp: pool_ok_def offset_of_def PAGE_SIZE_def)
    moreover have "alloc_page a = Inr (0, ?a)"
      using mm al h i32 ok
      by (auto simp: alloc_page_def aligned_page_def pool_ok_def Let_def add.commute fun_upd_twist)
    moreover have "\<And>x. x \<in> set xs \<Longrightarrow> page_of ?a x = page_of a x \<and> offset_of ?a x = offset_of a x"
      using fr h by (auto simp: page_of_def offset_of_def)
    ultimately show thesis using h that by (simp add: page_of_def offset_of_def)
  qed
qed

lemma alloc_page_unaligned:
  "mmap_answers a = p # ps \<Longrightarrow> p \<noteq> - 1 \<Longrightarrow> \<not> aligned_page p \<Longrightarrow>
     alloc_page a = Inr (- 2, a\<lparr>mmap_answers := ps\<rparr>)"
  by (simp add: alloc_page_def aligned_page_def Let_def)

text \<open>What the loop of \<open>init_page_pool\<close> adds in front of the pages \<open>xs\<close> already there.\<close>

definition pool_grown :: "agg \<Rightarrow> node list \<Rightarrow> agg \<Rightarrow> node list \<Rightarrow> addr list \<Rightarrow> bool" where
  "pool_grown a xs a' ys ps \<longleftrightarrow>
     pool_ok a' (ys @ xs) \<and> map (page_of a') ys = ps \<and> (\<forall>y\<in>set ys. offset_of a' y = 0) \<and>
     (\<forall>x\<in>set xs. page_of a' x = page_of a x \<and> offset_of a' x = offset_of a x) \<and>
     rand_answers a' = rand_answers a \<and> page_pool_size a' = page_pool_size a"

lemma init_page_pool_loop_grows:
  assumes "pool_ok a xs" and "- 1 \<notin> set (mmap_answers a)"
    and "k = nat (page_pool_size a - i)" and "k \<le> length (filter aligned_page (mmap_answers a))"
    and "length xs + k < 2147483648"
  shows "\<exists>a' ys. init_page_pool_loop i a = Inr a' \<and>
           pool_grown a xs a' ys (rev (take k (filter aligned_page (mmap_answers a))))"
  using assms
proof (induction "mmap_answers a" arbitrary: a xs i k)
  case Nil
  then have "\<not> i < page_pool_size a" by auto
  with Nil show ?case
    by (auto simp: init_page_pool_loop.simps [of i a] pool_grown_def intro!: exI [of _ "[]"])
next
  case (Cons p ps)
  note mm = Cons.hyps(2) [symmetric]
  show ?case
  proof (cases "i < page_pool_size a")
    case False
    with Cons.prems show ?thesis
      by (auto simp: init_page_pool_loop.simps [of i a] pool_grown_def intro!: exI [of _ "[]"])
  next
    case less: True
    show ?thesis
    proof (cases "aligned_page p")
      case False
      let ?a = "a\<lparr>mmap_answers := ps\<rparr>"
      have un: "alloc_page a = Inr (- 2, ?a)"
        using Cons.prems(2) False mm by (intro alloc_page_unaligned) auto
      have "pool_ok ?a xs" using Cons.prems(1) by (simp add: pool_ok_def offset_of_def)
      with Cons.hyps(1) [of ?a xs k i] Cons.prems(2-5) mm False
      obtain a' ys where "init_page_pool_loop i ?a = Inr a'"
        "pool_grown ?a xs a' ys (rev (take k (filter aligned_page ps)))" by auto
      with un less mm False show ?thesis
        by (auto simp: init_page_pool_loop.simps [of i a] pool_grown_def page_of_def offset_of_def)
    next
      case True
      obtain j where j: "k = Suc j"
        using Cons.prems(3) less not0_implies_Suc [of k] by auto
      obtain a1 where a1: "alloc_page a = Inr (0, a1)" "pool_ok a1 (fresh a # xs)"
          "page_of a1 (fresh a) = p" "offset_of a1 (fresh a) = 0"
          "\<And>x. x \<in> set xs \<Longrightarrow> page_of a1 x = page_of a x \<and> offset_of a1 x = offset_of a x"
          "mmap_answers a1 = ps" "rand_answers a1 = rand_answers a"
          "page_pool_size a1 = page_pool_size a"
        using alloc_page_aligned [OF Cons.prems(1) mm True] Cons.prems(5) j by auto
      have jn: "j = nat (page_pool_size a1 - (i + 1))" using Cons.prems(3) j a1(8) by simp
      have "\<exists>a' ys. init_page_pool_loop (i + 1) a1 = Inr a' \<and>
          pool_grown a1 (fresh a # xs) a' ys (rev (take j (filter aligned_page ps)))"
        using Cons.hyps(1) [OF a1(6) [symmetric] a1(2) _ jn] Cons.prems a1(6) mm True j
        by simp
      then obtain a' ys where r: "init_page_pool_loop (i + 1) a1 = Inr a'"
          and g: "pool_grown a1 (fresh a # xs) a' ys (rev (take j (filter aligned_page ps)))"
        by blast
      from g a1 have "pool_grown a xs a' (ys @ [fresh a]) (rev (take j (filter aligned_page ps)) @ [p])"
        by (auto simp: pool_grown_def)
      with r a1(1) less j mm True show ?thesis
        by (auto simp: init_page_pool_loop.simps [of i a] intro!: exI [of _ "ys @ [fresh a]"])
    qed
  qed
qed

section \<open>Allocating while the page has room\<close>

lemma alloc_entry_body_room:
  assumes ok: "pool_ok a xs" and i: "0 \<le> i" "nat i < length xs" and x: "x = xs ! nat i"
    and nd: "nodes a x = Some nd" and sz: "0 \<le> sz" "offset_of a x + sz \<le> PAGE_SIZE"
  shows "alloc_entry_body 0 sz i a =
           Inr (page_of a x + of_int (offset_of a x),
                a\<lparr>nodes := (nodes a)(x \<mapsto> nd\<lparr>current_offset := offset_of a x + sz\<rparr>)\<rparr>)"
proof -
  have "select_page a (nat i) (page_pool a) = Inr (Some x)"
    using ok i(2) x by (auto simp: pool_ok_def intro: select_page_chain)
  moreover have "i < free_page_count a" using ok i by (simp add: pool_ok_def)
  moreover have "0 \<le> offset_of a x" using ok x i by (simp add: pool_ok_def)
  ultimately show ?thesis
    using nd i sz by (simp add: alloc_entry_body_def offset_of_def page_of_def PAGE_SIZE_def Let_def cint)
qed

lemma pool_ok_bump:
  assumes "pool_ok a xs" and "nodes a x = Some nd" and "0 \<le> v" "v \<le> PAGE_SIZE"
  shows "pool_ok (a\<lparr>nodes := (nodes a)(x \<mapsto> nd\<lparr>current_offset := v\<rparr>)\<rparr>) xs"
  using assms chain_upd_same_next [of "nodes a" x nd "nd\<lparr>current_offset := v\<rparr>"]
  by (auto simp: pool_ok_def offset_of_def)

text \<open>
  A run of allocations that all fit in the page they select, with the entries handed out so
  far, newest first. Any of the three allocation functions may make a step.
\<close>

definition fits :: "agg \<Rightarrow> node list \<Rightarrow> int \<Rightarrow> int \<Rightarrow> bool" where
  "fits a xs sz i \<longleftrightarrow>
     0 \<le> i \<and> nat i < length xs \<and> 0 < sz \<and> offset_of a (xs ! nat i) + sz \<le> PAGE_SIZE"

inductive alloc_run :: "node list \<Rightarrow> agg \<Rightarrow> agg \<Rightarrow> (addr \<times> int) list \<Rightarrow> bool"
  for xs :: "node list" and a\<^sub>0 :: agg where
  start: "alloc_run xs a\<^sub>0 a\<^sub>0 []"
| entry: "alloc_run xs a\<^sub>0 a es \<Longrightarrow> fits a xs sz i \<Longrightarrow> alloc_entry sz i a = Inr (p, a') \<Longrightarrow>
     alloc_run xs a\<^sub>0 a' ((p, sz) # es)"
| skip: "alloc_run xs a\<^sub>0 a es \<Longrightarrow> fits a xs sz i \<Longrightarrow> alloc_entry_skip sz i a = Inr (p, a') \<Longrightarrow>
     alloc_run xs a\<^sub>0 a' ((p, sz) # es)"
| random: "alloc_run xs a\<^sub>0 a es \<Longrightarrow> rand_answers a = r # rs \<Longrightarrow>
     fits a xs sz (r mod \<bar>page_pool_size a\<bar>) \<Longrightarrow> alloc_entry_random sz a = Inr (p, a') \<Longrightarrow>
     alloc_run xs a\<^sub>0 a' ((p, sz) # es)"

text \<open>Distinct pages do not overlap: \<open>mmap\<close> hands out disjoint, page aligned regions.\<close>

definition pages_disjoint :: "agg \<Rightarrow> node list \<Rightarrow> bool" where
  "pages_disjoint a xs \<longleftrightarrow>
     (\<forall>x\<in>set xs. uint (page_of a x) + PAGE_SIZE \<le> 2 ^ 64) \<and>
     (\<forall>x\<in>set xs. \<forall>y\<in>set xs. x \<noteq> y \<longrightarrow>
        uint (page_of a x) + PAGE_SIZE \<le> uint (page_of a y) \<or>
        uint (page_of a y) + PAGE_SIZE \<le> uint (page_of a x))"

definition disjoint_entries :: "addr \<times> int \<Rightarrow> addr \<times> int \<Rightarrow> bool" where
  "disjoint_entries e f \<longleftrightarrow>
     uint (fst e) + snd e \<le> uint (fst f) \<or> uint (fst f) + snd f \<le> uint (fst e)"

text \<open>An entry lies in the used part of some page of the pool.\<close>

definition entry_in_pool :: "agg \<Rightarrow> node list \<Rightarrow> addr \<times> int \<Rightarrow> bool" where
  "entry_in_pool a xs e \<longleftrightarrow> 0 < snd e \<and>
     (\<exists>x\<in>set xs. uint (page_of a x) \<le> uint (fst e) \<and>
        uint (fst e) + snd e \<le> uint (page_of a x) + offset_of a x)"

definition run_inv :: "node list \<Rightarrow> agg \<Rightarrow> (addr \<times> int) list \<Rightarrow> bool" where
  "run_inv xs a es \<longleftrightarrow> pool_ok a xs \<and> pages_disjoint a xs \<and>
     (\<forall>e\<in>set es. entry_in_pool a xs e) \<and> sorted_wrt disjoint_entries es"

lemma uint_page_plus:
  assumes "uint p + PAGE_SIZE \<le> 2 ^ 64" and "0 \<le> off" and "off < PAGE_SIZE"
  shows "uint (p + of_int off :: addr) = uint p + off"
proof -
  have "uint (of_int off :: addr) = off"
    using assms(2,3) by (simp add: uint_word_of_int PAGE_SIZE_def)
  then show ?thesis
    using assms by (simp add: uint_add_lem [THEN iffD1] PAGE_SIZE_def)
qed

text \<open>One allocation that fits keeps the run invariant.\<close>

lemma run_inv_step:
  assumes inv: "run_inv xs a es" and fit: "fits a xs sz i"
    and alloc: "alloc_entry_body 0 sz i a = Inr (p, a')"
  shows "run_inv xs a' ((p, sz) # es)"
proof -
  let ?x = "xs ! nat i"
  have ok: "pool_ok a xs" and dj: "pages_disjoint a xs" and x: "?x \<in> set xs"
    using inv fit by (auto simp: run_inv_def fits_def)
  obtain nd where nd: "nodes a ?x = Some nd" using pool_ok_live [OF ok x] by blast
  have off: "0 \<le> offset_of a ?x" "offset_of a ?x + sz \<le> PAGE_SIZE" "0 < sz"
    using ok x fit by (auto simp: pool_ok_def fits_def)
  have a': "a' = a\<lparr>nodes := (nodes a)(?x \<mapsto> nd\<lparr>current_offset := offset_of a ?x + sz\<rparr>)\<rparr>"
    and p: "p = page_of a ?x + of_int (offset_of a ?x)"
    using alloc_entry_body_room [OF ok _ _ refl nd, of sz] fit alloc by (auto simp: fits_def)
  have page: "\<And>y. page_of a' y = page_of a y"
    and offs: "\<And>y. offset_of a' y = (if y = ?x then offset_of a ?x + sz else offset_of a y)"
    using nd by (auto simp: a' page_of_def offset_of_def)
  have up: "uint p = uint (page_of a ?x) + offset_of a ?x"
    unfolding p using dj x off by (intro uint_page_plus) (auto simp: pages_disjoint_def)
  have new: "entry_in_pool a' xs (p, sz)"
    using x off up by (auto simp: entry_in_pool_def page offs intro!: bexI [of _ ?x])
  have old: "entry_in_pool a' xs e" if "entry_in_pool a xs e" for e
  proof -
    from that obtain y where "y \<in> set xs" "uint (page_of a y) \<le> uint (fst e)" "0 < snd e"
      "uint (fst e) + snd e \<le> uint (page_of a y) + offset_of a y"
      by (auto simp: entry_in_pool_def)
    then show ?thesis using off by (auto simp: entry_in_pool_def page offs intro!: bexI [of _ y])
  qed
  have sep: "disjoint_entries (p, sz) e" if "entry_in_pool a xs e" for e
  proof -
    from that obtain y where y: "y \<in> set xs" "uint (page_of a y) \<le> uint (fst e)"
      "uint (fst e) + snd e \<le> uint (page_of a y) + offset_of a y"
      by (auto simp: entry_in_pool_def)
    have "offset_of a y \<le> PAGE_SIZE" using ok y(1) by (auto simp: pool_ok_def)
    then show ?thesis
      using y up off dj x unfolding pages_disjoint_def disjoint_entries_def
      by (cases "y = ?x") fastforce+
  qed
  have "pool_ok a' xs" unfolding a' using ok nd off by (intro pool_ok_bump) auto
  then show ?thesis
    using inv new old sep dj by (auto simp: run_inv_def pages_disjoint_def page)
qed

lemma alloc_run_inv: "alloc_run xs a\<^sub>0 a es \<Longrightarrow> run_inv xs a\<^sub>0 [] \<Longrightarrow> run_inv xs a es"
proof (induction rule: alloc_run.induct)
  case (random a es r rs sz p a')
  let ?b = "a\<lparr>rand_answers := rs\<rparr>"
  have "run_inv xs ?b es"
    using random.IH random.prems
    by (auto simp: run_inv_def pool_ok_def pages_disjoint_def entry_in_pool_def page_of_def offset_of_def)
  moreover have "fits ?b xs sz (r mod \<bar>page_pool_size a\<bar>)"
    using random.hyps(3) by (simp add: fits_def offset_of_def)
  ultimately show ?case
    using random.hyps(2,4) by (auto simp: alloc_entry_random_def split: if_splits intro: run_inv_step)
qed (auto simp: alloc_entry_def alloc_entry_skip_def Let_def intro: run_inv_step)

section \<open>Back links\<close>

text \<open>
  The \<open>prev\<close> pointers \<open>alloc_page\<close> leaves behind: every page but the head points to the page
  before it, and the head points to the page \<^emph>\<open>after\<close> it (\<open>new_page->prev = page_pool\<close> reads
  the old head), where a doubly linked list would have NULL.
\<close>

definition prev_of :: "agg \<Rightarrow> node \<Rightarrow> node option" where
  "prev_of a x = prev (the (nodes a x))"

definition back_links :: "agg \<Rightarrow> node list \<Rightarrow> bool" where
  "back_links a xs \<longleftrightarrow>
     (\<forall>k. Suc k < length xs \<longrightarrow> prev_of a (xs ! Suc k) = Some (xs ! k)) \<and>
     (xs \<noteq> [] \<longrightarrow> prev_of a (hd xs) = (if tl xs = [] then None else Some (hd (tl xs))))"

lemma back_links_push:
  assumes bl: "back_links a xs" and dx: "distinct (x # xs)"
    and new: "prev_of a' x = (if xs = [] then None else Some (hd xs))"
    and hd: "xs \<noteq> [] \<Longrightarrow> prev_of a' (hd xs) = Some x"
    and rest: "\<And>y. y \<in> set (tl xs) \<Longrightarrow> prev_of a' y = prev_of a y"
  shows "back_links a' (x # xs)"
proof -
  have "prev_of a' (xs ! k) = Some ((x # xs) ! k)" if "k < length xs" for k
  proof (cases k)
    case 0
    with hd that show ?thesis by (cases xs) auto
  next
    case (Suc j)
    with that have "xs ! k \<in> set (tl xs)" by (cases xs) auto
    with rest bl Suc that show ?thesis by (simp add: back_links_def)
  qed
  then show ?thesis using new by (auto simp: back_links_def)
qed

lemma alloc_page_back_links:
  assumes ok: "pool_ok a xs" and bl: "back_links a xs" and al: "alloc_page a = Inr (0, a')"
  shows "back_links a' (fresh a # xs)"
proof (rule back_links_push [OF bl])
  have fr: "fresh a \<notin> set xs" using ok by (auto simp: pool_ok_def)
  then show "distinct (fresh a # xs)" using ok by (simp add: pool_ok_def)
  have ch: "chain (nodes a) (page_pool a) xs" using ok by (simp add: pool_ok_def)
  have head: "page_pool a = (if xs = [] then None else Some (hd xs))"
    using ch by (cases xs) auto
  note step = al [unfolded alloc_page_def Let_def, simplified]
  show "prev_of a' (fresh a) = (if xs = [] then None else Some (hd xs))"
    using step head
    by (auto simp: prev_of_def rbind_eq_Inr split: list.splits if_splits option.splits)
  show "prev_of a' (hd xs) = Some (fresh a)" if "xs \<noteq> []"
  proof -
    have "hd xs \<noteq> fresh a" using fr that by (metis hd_in_set)
    then show ?thesis using step head that
      by (auto simp: prev_of_def rbind_eq_Inr split: list.splits if_splits)
  qed
  show "prev_of a' y = prev_of a y" if "y \<in> set (tl xs)" for y
  proof -
    have "y \<noteq> fresh a" "y \<noteq> hd xs" "xs \<noteq> []"
      using fr that ok by (cases xs; auto simp: pool_ok_def)+
    then show ?thesis using step head
      by (auto simp: prev_of_def rbind_eq_Inr split: list.splits if_splits option.splits)
  qed
qed

lemma init_page_pool_loop_back_links:
  "init_page_pool_loop i a = Inr a' \<Longrightarrow> pool_ok a xs \<Longrightarrow> back_links a xs \<Longrightarrow>
     length xs + length (mmap_answers a) < 2147483648 \<Longrightarrow>
     \<exists>ys. pool_ok a' ys \<and> back_links a' ys"
proof (induction i a arbitrary: xs rule: init_page_pool_loop.induct)
  case (1 i a)
  show ?case
  proof (cases "i < page_pool_size a")
    case False
    with 1 show ?thesis by (auto simp: init_page_pool_loop.simps [of i a])
  next
    case True
    with "1.prems"(1) obtain ret b where al: "alloc_page a = Inr (ret, b)" "ret \<noteq> - 1"
      and go: "init_page_pool_loop (if ret = - 2 then i else i + 1) b = Inr a'"
      by (auto simp: init_page_pool_loop.simps [of i a] split: sum.splits if_splits)
    then obtain p ps where mm: "mmap_answers a = p # ps" "p \<noteq> - 1"
      by (auto simp: alloc_page_def Let_def split: list.splits if_splits)
    show ?thesis
    proof (cases "aligned_page p")
      case False
      then have r: "ret = - 2" "b = a\<lparr>mmap_answers := ps\<rparr>"
        using alloc_page_unaligned [OF mm] al(1) by auto
      then have "pool_ok b xs" "back_links b xs"
        using "1.prems"(2,3) by (simp_all add: pool_ok_def offset_of_def back_links_def prev_of_def)
      then show ?thesis
        using "1.IH"(1) [OF True al(1) refl] go r mm "1.prems"(4) by auto
    next
      case al_p: True
      have len: "length xs + 1 < 2147483648" using "1.prems"(4) mm(1) by simp
      obtain c where c: "alloc_page a = Inr (0, c)" "pool_ok c (fresh a # xs)" "mmap_answers c = ps"
        using alloc_page_aligned [OF "1.prems"(2) mm(1) al_p len] by metis
      then have r: "ret = 0" "b = c" using al(1) by auto
      have "back_links c (fresh a # xs)"
        using alloc_page_back_links [OF "1.prems"(2,3) c(1)] .
      then show ?thesis
        using "1.IH"(2) [OF True al(1) refl, of "fresh a # xs"] go r c mm "1.prems"(4) by auto
    qed
  qed
qed

lemma chain_unique: "chain m p xs \<Longrightarrow> chain m p ys \<Longrightarrow> xs = ys"
proof (induction xs arbitrary: p ys)
  case Nil
  then show ?case by (cases ys) auto
next
  case (Cons x xs)
  then show ?case by (cases ys) auto
qed

section \<open>Replacing a full page\<close>

lemma select_page_pool_ok:
  "pool_ok a xs \<Longrightarrow> k < length xs \<Longrightarrow> select_page a k (page_pool a) = Inr (Some (xs ! k))"
  by (auto simp: pool_ok_def intro: select_page_chain)

lemma full_page_test:
  assumes "pool_ok a xs" and "k < length xs" and "0 < sz" "sz \<le> PAGE_SIZE"
    and "offset_of a (xs ! k) + sz > PAGE_SIZE"
  shows "to_u64 (offset_of a (xs ! k) + sz) > PAGE_SIZE"
proof -
  have "0 \<le> offset_of a (xs ! k)" "offset_of a (xs ! k) \<le> PAGE_SIZE"
    using assms(1,2) by (auto simp: pool_ok_def)
  with assms(3-5) show ?thesis by (simp add: PAGE_SIZE_def cint)
qed

lemma remove_page_inner:
  assumes "nodes a x = Some nd" and "prev_of a x = Some q" and "nodes a q = Some qd"
  shows "remove_page (Some x) a =
           Inr (a\<lparr>nodes := (nodes a)(q \<mapsto> qd\<lparr>next_page := next_page nd\<rparr>, x := None)\<rparr>)"
  using assms by (simp add: remove_page_def prev_of_def)

text \<open>
  C2. The pool \<open>init_page_pool\<close> builds: when \<open>mmap\<close> never fails and delivers enough aligned
  pages, the loop stops with a well-formed pool of exactly \<open>page_pool_size\<close> pages, newest first,
  all empty, whatever number of unaligned answers had to be retried.
\<close>

theorem init_page_pool_correct:
  assumes "- 1 \<notin> set mm" and "nat n \<le> length (filter aligned_page mm)" and "nat n < 2147483648"
  shows "\<exists>a ys. init_page_pool ((agg_init mm rs)\<lparr>page_pool_size := n\<rparr>) = Inr a \<and>
           pool_ok a ys \<and> length ys = nat n \<and>
           map (page_of a) ys = rev (take (nat n) (filter aligned_page mm)) \<and>
           (\<forall>y\<in>set ys. offset_of a y = 0)"
proof -
  let ?a = "(agg_init mm rs)\<lparr>page_pool_size := n\<rparr>"
  have "pool_ok ?a []" by (simp add: pool_ok_def agg_init_def)
  from init_page_pool_loop_grows [OF this, where i = 0 and k = "nat n"] assms
  obtain a ys where "init_page_pool_loop 0 ?a = Inr a"
    and g: "pool_grown ?a [] a ys (rev (take (nat n) (filter aligned_page mm)))"
    by (auto simp: agg_init_def)
  moreover from g have "length ys = nat n"
    using assms(2) by (auto simp: pool_grown_def dest: arg_cong [of _ _ length])
  ultimately show ?thesis by (auto simp: init_page_pool_def pool_grown_def)
qed

theorem init_page_pool_correct_witness:
  "\<exists>a ys. init_page_pool ((agg_init [4096, 5000, 8192] [])\<lparr>page_pool_size := 2\<rparr>) = Inr a \<and>
     length ys = 2 \<and> map (page_of a) ys = [8192, 4096]"
proof -
  have "filter aligned_page [4096, 5000, 8192] = [4096, 8192]"
    by (simp add: aligned_page_def)
  then show ?thesis
    using init_page_pool_correct [of "[4096, 5000, 8192]" 2 "[]"] by fastforce
qed

text \<open>
  C1. While the selected pages have room, entries never overlap: starting from a well-formed
  pool over disjoint pages, every sequence of \<open>alloc_entry\<close>, \<open>alloc_entry_skip\<close> and
  \<open>alloc_entry_random\<close> calls that fit returns pairwise disjoint byte ranges, each inside the
  used part of one page.
\<close>

theorem alloc_entries_disjoint:
  assumes "alloc_run xs a\<^sub>0 a es" and "pool_ok a\<^sub>0 xs" and "pages_disjoint a\<^sub>0 xs"
  shows "sorted_wrt disjoint_entries es \<and> (\<forall>e\<in>set es. entry_in_pool a xs e)"
  using alloc_run_inv [OF assms(1)] assms(2,3) by (simp add: run_inv_def)

text \<open>
  C3. Defect: when the selected page, not the head, is full, the new page is put into the pool
  but the address returned is the start of the \<^emph>\<open>removed\<close> page, the address of the first entry
  ever allocated there; the space reserved in the new page is lost.
\<close>

theorem full_page_returns_old_page:
  assumes ok: "pool_ok a xs" and bl: "back_links a xs" and k: "Suc k < length xs"
    and sz: "0 < sz" "sz \<le> PAGE_SIZE" and full: "offset_of a (xs ! Suc k) + sz > PAGE_SIZE"
    and mm: "mmap_answers a = q # ps" "aligned_page q"
  shows "\<exists>a'. alloc_entry sz (int (Suc k)) a = Inr (page_of a (xs ! Suc k), a') \<and>
           page_pool a' = Some (fresh a) \<and> page_of a' (fresh a) = q \<and> offset_of a' (fresh a) = sz"
proof -
  let ?x = "xs ! Suc k" and ?y = "xs ! k"
  obtain nd yd where live: "nodes a ?x = Some nd" "nodes a ?y = Some yd"
    using pool_ok_live [OF ok, of ?x] pool_ok_live [OF ok, of ?y] k by auto
  have xy: "?x \<noteq> ?y" and hx: "hd xs \<noteq> ?x" and pool: "page_pool a = Some (hd xs)"
    and fr: "fresh a \<notin> set xs"
    using ok k by (auto simp: pool_ok_def nth_eq_iff_index_eq hd_conv_nth; cases xs; auto)+
  obtain hdn where hdn: "nodes a (hd xs) = Some hdn" using pool_ok_live [OF ok, of "hd xs"] k by (cases xs) auto
  let ?b = "a\<lparr>nodes := (nodes a)(?y \<mapsto> yd\<lparr>next_page := next_page nd\<rparr>, ?x := None)\<rparr>"
  have rm: "remove_page (Some ?x) a = Inr ?b"
    using live bl k by (intro remove_page_inner) (auto simp: back_links_def)
  obtain hb where hb: "nodes ?b (hd xs) = Some hb" using hdn hx by (cases "hd xs = ?y") auto
  have "hd xs \<noteq> fresh a" using fr k by (cases xs) auto
  then obtain c where c: "alloc_page ?b = Inr (0, c)" "page_pool c = Some (fresh a)"
      "\<exists>nd. nodes c (fresh a) = Some nd \<and> p_page nd = q \<and> current_offset nd = 0"
    using mm pool hb hx by (auto simp: alloc_page_def aligned_page_def Let_def)
  show ?thesis
    using select_page_pool_ok [OF ok k] full_page_test [OF ok k sz full] rm c live sz ok k
    by (auto simp: alloc_entry_def alloc_entry_body_def Let_def offset_of_def page_of_def
        pool_ok_def PAGE_SIZE_def nat_add_distrib cint)
qed

text \<open>
  C4. Defect: in a pool of two or more pages, an allocation that finds the head page full
  follows the pool pointer to the page struct it has just freed, since \<open>remove_page\<close> takes the
  head for an inner page.
\<close>

theorem full_head_page_dangles:
  assumes ok: "pool_ok a xs" and bl: "back_links a xs" and k: "2 \<le> length xs"
    and sz: "0 < sz" "sz \<le> PAGE_SIZE" and full: "offset_of a (hd xs) + sz > PAGE_SIZE"
    and mm: "mmap_answers a \<noteq> []"
  shows "alloc_entry sz 0 a = Inl (DanglingDeref (hd xs))"
proof -
  obtain x y ys where xs: "xs = x # y # ys" using k by (cases xs rule: remdups_adj.cases) auto
  obtain nd yd where live: "nodes a x = Some nd" "nodes a y = Some yd"
    using pool_ok_live [OF ok, of x] pool_ok_live [OF ok, of y] xs by auto
  have pool: "page_pool a = Some x" and fr: "x \<noteq> fresh a" and cnt: "0 < free_page_count a"
    using ok xs by (auto simp: pool_ok_def)
  let ?b = "a\<lparr>nodes := (nodes a)(y \<mapsto> yd\<lparr>next_page := next_page nd\<rparr>, x := None)\<rparr>"
  have rm: "remove_page (Some x) a = Inr ?b"
    using live bl xs by (intro remove_page_inner) (auto simp: back_links_def)
  have "rbind (alloc_page ?b) (\<lambda>(r, c). rbind (deref c (page_pool c)) (f c)) = Inl (DanglingDeref x)" for f
    using mm pool fr by (auto simp: alloc_page_def Let_def split: list.splits)
  note dangle = this [unfolded case_prod_unfold, of "\<lambda>c nd. Inr (page_pool c, current_offset nd, c)"]
  show ?thesis
    using full_page_test [of a xs 0 sz] ok sz full xs rm live cnt pool dangle
    by (simp add: alloc_entry_def alloc_entry_body_def Let_def offset_of_def page_of_def case_prod_unfold)
qed

text \<open>A concrete pool of two pages, as two \<open>alloc_page\<close> calls leave it, and its instances.\<close>

definition two_pages :: "int \<Rightarrow> int \<Rightarrow> agg" where
  "two_pages off1 off0 = \<lparr>page_pool = Some 1, free_page_count = 2, page_pool_size = 2,
     nodes = [1 \<mapsto> \<lparr>p_page = 8192, current_offset = off1, prev = Some 0, next_page = Some 0\<rparr>,
              0 \<mapsto> \<lparr>p_page = 4096, current_offset = off0, prev = Some 1, next_page = None\<rparr>],
     fresh = 2, mmap_answers = [12288], rand_answers = [7]\<rparr>"

lemma two_pages_built:
  "init_page_pool ((agg_init [4096, 8192, 12288] [7])\<lparr>page_pool_size := 2\<rparr>) = Inr (two_pages 0 0)"
  by (simp add: init_page_pool_def agg_init_def two_pages_def init_page_pool_loop.simps
      alloc_page_def Let_def cint fun_upd_twist)

lemma two_pages_ok:
  "0 \<le> i \<Longrightarrow> i \<le> PAGE_SIZE \<Longrightarrow> 0 \<le> j \<Longrightarrow> j \<le> PAGE_SIZE \<Longrightarrow> pool_ok (two_pages i j) [1, 0]"
  by (simp add: pool_ok_def two_pages_def offset_of_def)

lemma two_pages_links: "back_links (two_pages i j) [1, 0]"
  by (simp add: back_links_def two_pages_def prev_of_def less_Suc_eq)

lemma two_pages_disjoint: "pages_disjoint (two_pages i j) [1, 0]"
  by (simp add: pages_disjoint_def two_pages_def page_of_def PAGE_SIZE_def)

lemma two_pages_run:
  "alloc_run [1, 0] (two_pages 0 0)
     ((two_pages 0 48)\<lparr>rand_answers := []\<rparr>) [(4120, 24), (4096, 24)]"
proof -
  have "alloc_run [1, 0] (two_pages 0 0) (two_pages 0 24) [(4096, 24)]"
  proof (rule alloc_run.entry [OF alloc_run.start])
    show "fits (two_pages 0 0) [1, 0] 24 1"
      by (simp add: fits_def two_pages_def offset_of_def PAGE_SIZE_def)
    show "alloc_entry 24 1 (two_pages 0 0) = Inr (4096, two_pages 0 24)"
      by (simp add: alloc_entry_def alloc_entry_body_def two_pages_def eval_nat_numeral
          PAGE_SIZE_def Let_def cint)
  qed
  then show ?thesis
  proof (rule alloc_run.random)
    show "rand_answers (two_pages 0 24) = 7 # []" by (simp add: two_pages_def)
    show "fits (two_pages 0 24) [1, 0] 24 (7 mod \<bar>page_pool_size (two_pages 0 24)\<bar>)"
      by (simp add: fits_def two_pages_def offset_of_def PAGE_SIZE_def)
    show "alloc_entry_random 24 (two_pages 0 24) = Inr (4120, (two_pages 0 48)\<lparr>rand_answers := []\<rparr>)"
      by (simp add: alloc_entry_random_def alloc_entry_body_def two_pages_def eval_nat_numeral
          PAGE_SIZE_def Let_def cint)
  qed
qed

theorem alloc_entries_disjoint_witness:
  "sorted_wrt disjoint_entries [(4120 :: addr, 24), (4096, 24)]"
  using alloc_entries_disjoint [OF two_pages_run] two_pages_ok [of 0 0] two_pages_disjoint
  by (simp add: PAGE_SIZE_def)

theorem full_page_returns_old_page_witness:
  "\<exists>a'. alloc_entry 24 1 (two_pages 0 4090) = Inr (4096, a') \<and>
     page_pool a' = Some 2 \<and> page_of a' 2 = 12288"
  using full_page_returns_old_page [of "two_pages 0 4090" "[1, 0]" 0 24 12288 "[]"]
    two_pages_ok [of 0 4090] two_pages_links
  by (auto simp: two_pages_def PAGE_SIZE_def offset_of_def page_of_def aligned_page_def)

theorem full_head_page_dangles_witness:
  "alloc_entry 24 0 (two_pages 4090 0) = Inl (DanglingDeref 1)"
  using full_head_page_dangles [of "two_pages 4090 0" "[1, 0]" 24]
    two_pages_ok [of 4090 0] two_pages_links
  by (simp add: two_pages_def PAGE_SIZE_def offset_of_def)

end
