(* ===== verification/Util.thy ===== *)
theory Util
  imports Prelude
begin

text \<open>
  \<open>util.c\<close>: the conversions between 64-bit integers and their decimal text, the parser of
  memory sizes, and the glob matcher behind \<open>KEYS\<close> and \<open>PSUBSCRIBE\<close>.
\<close>

section \<open>Integers and text\<close>

definition LLONG_MAX :: int where
  "LLONG_MAX = 9223372036854775807"

definition LLONG_MIN :: int where
  "LLONG_MIN = - 9223372036854775808"

definition ULLONG_MAX :: int where
  "ULLONG_MAX = 18446744073709551615"

text \<open>The \<open>do ... while(v)\<close> loop of \<open>ll2string\<close> and \<open>sdsfromlonglong\<close>, which fills the scratch
  buffer backwards; \<open>acc\<close> is the filled part.\<close>

function digits_loop :: "nat \<Rightarrow> char list \<Rightarrow> char list" where
  "digits_loop v acc =
     (let acc = mkchar (48 + int (v mod 10)) # acc; v = v div 10
      in if v = 0 then acc else digits_loop v acc)"
  by pat_completeness auto
termination
  by (relation "measure fst") auto

declare digits_loop.simps [simp del]

text \<open>The text both functions build before copying it out: \<open>v\<close> is the \<open>unsigned long long\<close>
  of the absolute value.\<close>

definition ll_text :: "int \<Rightarrow> char list" where
  "ll_text value =
     (let v = to_u64 (if value < 0 then - value else value);
          p = digits_loop (nat v) []
      in if value < 0 then CHR ''-'' # p else p)"

text \<open>\<open>ll2string s len value\<close>: the bytes written to \<open>s\<close> and the returned length.\<close>

definition ll2string :: "nat \<Rightarrow> int \<Rightarrow> char list \<times> nat" where
  "ll2string len value =
     (if len = 0 then ([], 0)
      else let p = ll_text value; l = length p;
               l = (if l + 1 > len then len - 1 else l)
           in (take l p @ [NUL], l))"

fun string2ll_loop :: "int \<Rightarrow> char list \<Rightarrow> (int \<times> char list) option" where
  "string2ll_loop v [] = Some (v, [])"
| "string2ll_loop v (c # p) =
     (if 48 \<le> schar c \<and> schar c \<le> 57
      then if v > ULLONG_MAX div 10 then None
           else let v = v * 10; d = schar c - 48
                in if v > ULLONG_MAX - d then None
                   else string2ll_loop (v + d) p
      else Some (v, c # p))"

text \<open>\<open>string2ll\<close>: \<open>Some v\<close> when the function returns 1 and stores \<open>v\<close>.\<close>

definition string2ll :: "char list \<Rightarrow> int option" where
  "string2ll s =
     (if s = [] then None
      else if s = ''0'' then Some 0
      else let negative = (hd s = CHR ''-'');
               p = (if negative then tl s else s)
           in if p = [] then None
              else if 49 \<le> schar (hd p) \<and> schar (hd p) \<le> 57
              then (case string2ll_loop (schar (hd p) - 48) (tl p) of
                      None \<Rightarrow> None
                    | Some (v, rest) \<Rightarrow>
                        if rest \<noteq> [] then None
                        else if negative
                        then if v > - (LLONG_MIN + 1) + 1 then None else Some (to_i64 (- v))
                        else if v > LLONG_MAX then None else Some (to_i64 v))
              else None)"

text \<open>\<open>long\<close> has 64 bits, so the range test of \<open>string2l\<close> is against the same bounds.\<close>

definition string2l :: "char list \<Rightarrow> int option" where
  "string2l s =
     (case string2ll s of
        None \<Rightarrow> None
      | Some llval \<Rightarrow> if llval < LLONG_MIN \<or> llval > LLONG_MAX then None else Some llval)"

section \<open>Memory sizes\<close>

text \<open>\<open>strtoll(buf,NULL,10)\<close> on an optional minus sign and digits: the value, saturated.\<close>

definition strtoll_digits :: "char list \<Rightarrow> int" where
  "strtoll_digits s =
     (let neg = (s \<noteq> [] \<and> hd s = CHR ''-'');
          ds = takeWhile isdigit (if neg then tl s else s);
          v = foldl (\<lambda>v c. v * 10 + (uchar c - 48)) 0 ds;
          v = (if neg then - v else v)
      in max LLONG_MIN (min LLONG_MAX v))"

text \<open>\<open>memtoll\<close> on a C string: the value and whether \<open>*err\<close> is 1. The product is stored in a
  \<open>long long\<close>.\<close>

definition memtoll :: "char list \<Rightarrow> int \<times> bool" where
  "memtoll p =
     (let sign = (if p \<noteq> [] \<and> hd p = CHR ''-'' then 1 else 0);
          digits = sign + length (takeWhile isdigit (drop sign p));
          u = drop digits p;
          (mul, err) =
            (if u = [] \<or> strcasecmp_eq u ''b'' then (1, False)
             else if strcasecmp_eq u ''k'' then (1000, False)
             else if strcasecmp_eq u ''kb'' then (1024, False)
             else if strcasecmp_eq u ''m'' then (1000 * 1000, False)
             else if strcasecmp_eq u ''mb'' then (1024 * 1024, False)
             else if strcasecmp_eq u ''g'' then (1000 * 1000 * 1000, False)
             else if strcasecmp_eq u ''gb'' then (1024 * 1024 * 1024, False)
             else (1, True))
      in if digits \<ge> 128 then (LLONG_MAX, True)
         else (to_i64 (strtoll_digits (take digits p) * mul), err))"

section \<open>Decimal text is canonical\<close>

lemma digits_loop_step: "v > 0 \<Longrightarrow> digits_loop (10 * v + d) acc = digits_loop v (mkchar (48 + int d) # acc)"
  if "d < 10" for v d :: nat
  using that by (subst digits_loop.simps) (simp add: Let_def)

lemma digits_loop_digit: "d < 10 \<Longrightarrow> digits_loop d acc = mkchar (48 + int d) # acc"
  by (subst digits_loop.simps) (simp add: Let_def)

text \<open>The value of a digit string, read left to right.\<close>

definition dec_value :: "int \<Rightarrow> char list \<Rightarrow> int" where
  "dec_value v ds = foldl (\<lambda>v c. v * 10 + (uchar c - 48)) v ds"

lemma dec_value_simps [simp]:
  "dec_value v [] = v" "dec_value v (c # cs) = dec_value (v * 10 + (uchar c - 48)) cs"
  by (simp_all add: dec_value_def)

lemma isdigit_schar: "48 \<le> schar c \<and> schar c \<le> 57 \<longleftrightarrow> isdigit c"
  unfolding schar_def isdigit_def using uchar_range(2) [of c] by presburger

lemma schar_digit: "isdigit c \<Longrightarrow> schar c = uchar c"
  by (auto simp: schar_def isdigit_def)

lemma dec_value_ge: "0 \<le> v \<Longrightarrow> \<forall>c\<in>set ds. isdigit c \<Longrightarrow> v \<le> dec_value v ds"
proof (induction ds arbitrary: v)
  case (Cons c ds)
  then have "0 \<le> uchar c - 48" by (auto simp: isdigit_def)
  with Cons.IH [of "v * 10 + (uchar c - 48)"] Cons.prems show ?case by simp
qed simp

lemma digits_loop_dec_value:
  assumes "0 < v" and "\<forall>c\<in>set ds. isdigit c"
  shows "digits_loop (nat (dec_value v ds)) acc = digits_loop (nat v) (ds @ acc)"
  using assms
proof (induction ds arbitrary: v)
  case (Cons c ds)
  let ?d = "nat (uchar c - 48)"
  have c: "48 \<le> uchar c" "?d < 10" "mkchar (48 + int ?d) = c"
    using Cons.prems(2) by (auto simp: isdigit_def)
  have "nat (v * 10 + (uchar c - 48)) = 10 * nat v + ?d"
    using c Cons.prems(1) by (simp add: nat_add_distrib nat_mult_distrib)
  then show ?case
    using Cons.IH [of "v * 10 + (uchar c - 48)"] Cons.prems c digits_loop_step [of ?d "nat v"]
    by simp
qed simp

lemma string2ll_loop_digit:
  "isdigit c \<Longrightarrow> string2ll_loop v (c # p) =
     (if v > ULLONG_MAX div 10 \<or> v * 10 > ULLONG_MAX - (uchar c - 48) then None
      else string2ll_loop (v * 10 + (uchar c - 48)) p)"
  using isdigit_schar [of c] schar_digit [of c] by (auto simp: Let_def)

lemma string2ll_loop_stop: "\<not> isdigit c \<Longrightarrow> string2ll_loop v (c # p) = Some (v, c # p)"
  using isdigit_schar [of c] by auto

declare string2ll_loop.simps(2) [simp del]

lemma string2ll_loop_Some:
  "string2ll_loop v p = Some (w, rest) \<Longrightarrow> 0 \<le> v \<Longrightarrow>
     \<exists>ds. p = ds @ rest \<and> (\<forall>c\<in>set ds. isdigit c) \<and> w = dec_value v ds"
proof (induction p arbitrary: v)
  case (Cons c p)
  show ?case
  proof (cases "isdigit c")
    case False
    with Cons.prems show ?thesis by (simp add: string2ll_loop_stop)
  next
    case True
    then have "0 \<le> v * 10 + (uchar c - 48)" using Cons.prems(2) by (simp add: isdigit_def)
    moreover have "string2ll_loop (v * 10 + (uchar c - 48)) p = Some (w, rest)"
      using Cons.prems True by (simp add: string2ll_loop_digit split: if_splits)
    ultimately obtain ds where
      "p = ds @ rest" "\<forall>c\<in>set ds. isdigit c" "w = dec_value (v * 10 + (uchar c - 48)) ds"
      using Cons.IH by blast
    with True show ?thesis by (intro exI [of _ "c # ds"]) auto
  qed
qed auto

lemma string2ll_loop_digits:
  "0 \<le> v \<Longrightarrow> \<forall>c\<in>set ds. isdigit c \<Longrightarrow> dec_value v ds \<le> ULLONG_MAX \<Longrightarrow>
     string2ll_loop v ds = Some (dec_value v ds, [])"
proof (induction ds arbitrary: v)
  case (Cons c ds)
  have c: "isdigit c" "0 \<le> uchar c - 48" using Cons.prems(2) by (auto simp: isdigit_def)
  have "v * 10 + (uchar c - 48) \<le> ULLONG_MAX"
    using dec_value_ge [of "v * 10 + (uchar c - 48)" ds] Cons.prems c by simp
  moreover from this have "\<not> v > ULLONG_MAX div 10"
    using c(2) by (simp add: ULLONG_MAX_def)
  ultimately show ?case
    using Cons.IH [of "v * 10 + (uchar c - 48)"] Cons.prems c by (simp add: string2ll_loop_digit)
qed simp

text \<open>Every positive number has exactly one digit string that does not start with 0.\<close>

lemma digits_loop_digits:
  "0 < v \<Longrightarrow> \<exists>c ds. digits_loop v acc = c # ds @ acc \<and> isdigit c \<and> uchar c \<noteq> 48 \<and>
     (\<forall>c\<in>set ds. isdigit c) \<and> dec_value (uchar c - 48) ds = int v"
proof (induction v acc rule: digits_loop.induct)
  case (1 v acc)
  let ?c = "mkchar (48 + int (v mod 10))"
  have c: "isdigit ?c" "uchar ?c = 48 + int (v mod 10)" by (auto simp: isdigit_def)
  show ?case
  proof (cases "v div 10 = 0")
    case True
    with 1 c show ?thesis
      by (auto simp: digits_loop.simps [of v acc] Let_def)
  next
    case False
    then obtain c ds where
      "digits_loop (v div 10) (?c # acc) = c # ds @ ?c # acc" "isdigit c" "uchar c \<noteq> 48"
      "\<forall>c\<in>set ds. isdigit c" "dec_value (uchar c - 48) ds = int (v div 10)"
      using "1.IH" [OF refl refl False] by auto
    moreover have "int (v div 10) * 10 + int (v mod 10) = int v"
      by (metis div_mult_mod_eq of_nat_add of_nat_mult of_nat_numeral)
    ultimately show ?thesis
      using False c
      by (auto simp: digits_loop.simps [of v acc] Let_def dec_value_def intro!: exI [of _ "ds @ [?c]"])
  qed
qed

lemma digits_loop_unique:
  assumes "isdigit c" and "uchar c \<noteq> 48" and "\<forall>c\<in>set ds. isdigit c"
  shows "digits_loop (nat (dec_value (uchar c - 48) ds)) [] = c # ds"
proof -
  have d: "0 < uchar c - 48" "nat (uchar c - 48) < 10" using assms(1,2) by (auto simp: isdigit_def)
  then have "mkchar (48 + int (nat (uchar c - 48))) = c" by simp
  then show ?thesis
    using digits_loop_dec_value [OF d(1) assms(3), of "[]"] digits_loop_digit [OF d(2), of ds] by simp
qed

definition is_ll :: "int \<Rightarrow> bool" where
  "is_ll v \<longleftrightarrow> LLONG_MIN \<le> v \<and> v \<le> LLONG_MAX"

lemmas ll_bounds = LLONG_MAX_def LLONG_MIN_def ULLONG_MAX_def is_ll_def

lemma mkchar_zero: "mkchar 48 = CHR ''0''"
  by (rule uchar_inject [THEN iffD1]) (simp add: uchar_def mkchar_def)

lemma ll_text_zero: "ll_text 0 = ''0''"
  by (simp add: ll_text_def to_u64_def digits_loop_digit [of 0, simplified] mkchar_zero)

lemma to_u64_abs: "is_ll v \<Longrightarrow> to_u64 (if v < 0 then - v else v) = \<bar>v\<bar>"
  by (auto simp: ll_bounds cint)

lemma string2ll_zero: "string2ll ''0'' = Some 0"
  by (simp add: string2ll_def)

text \<open>The shape of the text of a non-zero number.\<close>

lemma ll_text_nonzero:
  assumes "is_ll v" and "v \<noteq> 0"
  obtains c ds where "ll_text v = (if v < 0 then ''-'' else []) @ c # ds" "isdigit c"
    "uchar c \<noteq> 48" "\<forall>c\<in>set ds. isdigit c" "dec_value (uchar c - 48) ds = \<bar>v\<bar>"
proof -
  have "0 < nat \<bar>v\<bar>" using assms(2) by simp
  from digits_loop_digits [OF this, of "[]"] obtain c ds where
    "digits_loop (nat \<bar>v\<bar>) [] = c # ds" "isdigit c" "uchar c \<noteq> 48" "\<forall>c\<in>set ds. isdigit c"
    "dec_value (uchar c - 48) ds = int (nat \<bar>v\<bar>)" by auto
  then show thesis
    using that [of c ds] to_u64_abs [OF assms(1)]
    by (cases "v < 0") (simp_all add: ll_text_def Let_def)
qed

lemma digit_not_minus: "isdigit c \<Longrightarrow> c \<noteq> CHR ''-''"
  by (auto simp: isdigit_def uchar_def)

lemma first_digit_schar: "49 \<le> schar c \<and> schar c \<le> 57 \<longleftrightarrow> isdigit c \<and> uchar c \<noteq> 48"
  unfolding schar_def isdigit_def using uchar_range(2) [of c] by presburger

lemma string2ll_ll_text:
  assumes "is_ll v"
  shows "string2ll (ll_text v) = Some v"
proof (cases "v = 0")
  case True
  then show ?thesis by (simp add: ll_text_zero string2ll_zero)
next
  case False
  from ll_text_nonzero [OF assms this] obtain c ds where
    t: "ll_text v = (if v < 0 then ''-'' else []) @ c # ds" and c: "isdigit c" "uchar c \<noteq> 48"
    and ds: "\<forall>c\<in>set ds. isdigit c" "dec_value (uchar c - 48) ds = \<bar>v\<bar>" by blast
  have "\<bar>v\<bar> \<le> ULLONG_MAX" using assms by (simp add: ll_bounds abs_if)
  then have "string2ll_loop (uchar c - 48) ds = Some (\<bar>v\<bar>, [])"
    using string2ll_loop_digits [of "uchar c - 48" ds] c ds by (simp add: isdigit_def)
  moreover have "c # ds \<noteq> ''0''" using c by (auto simp: uchar_def)
  moreover have "schar c = uchar c" "c \<noteq> CHR ''-''" using c by (auto simp: schar_digit digit_not_minus)
  ultimately show ?thesis
    using t c assms first_digit_schar [of c]
    by (auto simp: string2ll_def Let_def ll_bounds cint)
qed

lemma string2ll_unfold:
  assumes "s \<noteq> []" and "s \<noteq> ''0''" and "(if hd s = CHR ''-'' then tl s else s) = c # p"
    and "isdigit c" and "uchar c \<noteq> 48"
  shows "string2ll s =
    (case string2ll_loop (uchar c - 48) p of
       None \<Rightarrow> None
     | Some (v, rest) \<Rightarrow>
         if rest \<noteq> [] then None
         else if hd s = CHR ''-''
         then if v > - (LLONG_MIN + 1) + 1 then None else Some (to_i64 (- v))
         else if v > LLONG_MAX then None else Some (to_i64 v))"
  using assms(1,2) first_digit_schar [of c] assms(4,5)
  unfolding string2ll_def Let_def assms(3) by (simp add: schar_digit)

lemma string2ll_canonical:
  assumes "string2ll s = Some v"
  shows "is_ll v \<and> s = ll_text v"
proof (cases "s = ''0''")
  case True
  with assms show ?thesis by (simp add: string2ll_zero ll_text_zero ll_bounds)
next
  case False
  let ?neg = "hd s = CHR ''-''" and ?p = "if hd s = CHR ''-'' then tl s else s"
  have s: "s \<noteq> []" using assms by (auto simp: string2ll_def)
  define q where "q = ?p"
  have "q \<noteq> [] \<and> 49 \<le> schar (hd q) \<and> schar (hd q) \<le> 57"
  proof (rule ccontr)
    assume "\<not> (q \<noteq> [] \<and> 49 \<le> schar (hd q) \<and> schar (hd q) \<le> 57)"
    then have "string2ll s = None"
      using False s unfolding string2ll_def Let_def q_def [symmetric] by auto
    with assms show False by simp
  qed
  then obtain c p where p: "?p = c # p" "isdigit c" "uchar c \<noteq> 48"
    unfolding q_def using first_digit_schar by (cases ?p) auto
  from assms obtain w where
    w: "string2ll_loop (uchar c - 48) p = Some (w, [])"
      "v = (if ?neg then to_i64 (- w) else to_i64 w)"
      "if ?neg then w \<le> 9223372036854775808 else w \<le> 9223372036854775807"
    unfolding string2ll_unfold [OF s False p] by (auto simp: ll_bounds split: option.splits if_splits)
  have d: "0 < uchar c - 48" using p by (auto simp: isdigit_def)
  from string2ll_loop_Some [OF w(1)] d have ds: "\<forall>c\<in>set p. isdigit c" "w = dec_value (uchar c - 48) p"
    by auto
  have pos: "0 < w" using dec_value_ge [of "uchar c - 48" p] d ds by simp
  have v: "v = (if ?neg then - w else w)" using w pos by (auto simp: cint)
  have ll: "is_ll v" using v w(3) pos by (auto simp: ll_bounds)
  have "digits_loop (nat \<bar>v\<bar>) [] = c # p"
    using digits_loop_unique [OF p(2,3) ds(1)] ds(2) v pos by simp
  then show ?thesis
    using ll to_u64_abs [OF ll] p(1) s v pos by (cases s) (auto simp: ll_text_def Let_def split: if_splits)
qed

lemma string2ll_iff: "string2ll s = Some v \<longleftrightarrow> is_ll v \<and> s = ll_text v"
  using string2ll_ll_text string2ll_canonical by auto

text \<open>
  C11. Integer parsing and printing are inverse: \<open>string2ll\<close> accepts a byte string exactly when
  it is the text \<open>ll2string\<close> prints for some 64-bit integer, and then returns that integer
  (no leading zeros, no plus sign, no spaces, overflow refused).
\<close>

theorem string2ll_iff_printed: "string2ll s = Some v \<longleftrightarrow> is_ll v \<and> s = ll_text v"
  by (rule string2ll_iff)

lemma digits_loop_length: "v < 10 ^ n \<Longrightarrow> 0 < n \<Longrightarrow> length (digits_loop v acc) \<le> n + length acc"
proof (induction n arbitrary: v acc)
  case (Suc n)
  show ?case
  proof (cases "v div 10 = 0")
    case True
    then show ?thesis by (simp add: digits_loop.simps [of v acc] Let_def)
  next
    case False
    with Suc.prems have "v div 10 < 10 ^ n" "0 < n"
      by (auto simp: less_mult_imp_div_less intro: Suc_lessI) (cases n; auto)
    from Suc.IH [OF this, of "mkchar (48 + int (v mod 10)) # acc"] False show ?thesis
      by (simp add: digits_loop.simps [of v acc] Let_def)
  qed
qed simp

lemma ll_text_length: "is_ll v \<Longrightarrow> length (ll_text v) \<le> 20"
proof -
  assume ll: "is_ll v"
  then have "nat \<bar>v\<bar> < 10 ^ 19" by (auto simp: ll_bounds)
  then have "length (digits_loop (nat \<bar>v\<bar>) []) \<le> 19"
    using digits_loop_length [of "nat \<bar>v\<bar>" 19 "[]"] by simp
  then show ?thesis using to_u64_abs [OF ll] by (cases "v < 0") (simp_all add: ll_text_def Let_def)
qed

text \<open>
  C12. \<open>ll2string\<close> writes the whole decimal text with its NUL terminator, and returns its length,
  for every 64-bit integer and every buffer of 21 bytes or more (20 bytes of text at most); the
  text is parsed back to the same integer.
\<close>

theorem ll2string_roundtrip:
  assumes "is_ll v" and "21 \<le> len"
  shows "\<exists>l. ll2string len v = (ll_text v @ [NUL], l) \<and> l \<le> 20 \<and>
           string2ll (take l (fst (ll2string len v))) = Some v"
proof -
  have "length (ll_text v) \<le> 20" using assms(1) by (rule ll_text_length)
  with assms show ?thesis by (auto simp: ll2string_def Let_def string2ll_ll_text)
qed

theorem ll2string_roundtrip_witness:
  "\<exists>l. ll2string 32 (- 9223372036854775808) = (ll_text (- 9223372036854775808) @ [NUL], l) \<and>
     string2ll (take l (fst (ll2string 32 (- 9223372036854775808)))) = Some (- 9223372036854775808)"
  using ll2string_roundtrip [of "- 9223372036854775808" 32] by (auto simp: ll_bounds)

section \<open>Glob-style matching\<close>

text \<open>
  \<open>stringmatchlen\<close> moves a pointer and a remaining length together over the pattern and over
  the string, so a position is the remaining length: \<open>at X r\<close> is the byte the pointer with
  \<open>r\<close> bytes left points to. With 0 bytes left it is the NUL terminator (both buffers are
  NUL-terminated strings), and with a negative count it lies outside the buffer.
\<close>

datatype match_error =
    ReadOutOfBounds   \<comment> \<open>a byte past the terminator is read\<close>
  | RunawayLength     \<comment> \<open>\<open>while(stringLen)\<close> counts down from a negative length\<close>

definition at :: "char list \<Rightarrow> int \<Rightarrow> (match_error, char) result" where
  "at X r = (if r < 0 then Inl ReadOutOfBounds
             else if r = 0 then Inr NUL
             else Inr (X ! (length X - nat r)))"

text \<open>\<open>while (pattern[1] == '*')\<close> and \<open>while(*pattern == '*')\<close>.\<close>

function skip_stars :: "char list \<Rightarrow> int \<Rightarrow> int" where
  "skip_stars P plen =
     (if 0 < plen \<and> at P (plen - 1) = Inr (CHR ''*'') then skip_stars P (plen - 1) else plen)"
  by pat_completeness auto
termination
  by (relation "measure (\<lambda>(P, plen). nat plen)") auto

function tail_stars :: "char list \<Rightarrow> int \<Rightarrow> int" where
  "tail_stars P plen =
     (if 0 < plen \<and> at P plen = Inr (CHR ''*'') then tail_stars P (plen - 1) else plen)"
  by pat_completeness auto
termination
  by (relation "measure (\<lambda>(P, plen). nat plen)") auto

text \<open>The test of a range \<open>c-e\<close> of a class, its ends in either order.\<close>

definition class_range :: "bool \<Rightarrow> char \<Rightarrow> char \<Rightarrow> char \<Rightarrow> bool" where
  "class_range nocase c e s =
     (let (lo, hi) = (if schar c > schar e then (e, c) else (c, e));
          (lo, hi, s) = (if nocase then (tolower lo, tolower hi, tolower s) else (lo, hi, s))
      in schar s \<ge> schar lo \<and> schar s \<le> schar hi)"

text \<open>
  One round of the loop over a character class, from the byte after \<open>[\<close> or \<open>[^\<close>: whether the
  loop goes on, the position and \<open>match\<close>. The string byte \<open>x\<close> is read when it is compared.
\<close>

definition class_step ::
    "char list \<Rightarrow> int \<Rightarrow> (match_error, char) result \<Rightarrow> bool \<Rightarrow> bool \<Rightarrow>
     (match_error, bool \<times> int \<times> bool) result"
where
  "class_step P plen x nocase m =
     rbind (at P plen) (\<lambda>c.
       if c = CHR 0x5C
       then rbind (at P (plen - 1)) (\<lambda>e. rbind x (\<lambda>s.
              Inr (True, plen - 2, if e = s then True else m)))
       else if c = CHR '']'' then Inr (False, plen, m)
       else if plen = 0 then Inr (False, plen + 1, m)
       else rbind (at P (plen - 1)) (\<lambda>d.
         if d = CHR ''-'' \<and> plen \<ge> 3
         then rbind (at P (plen - 2)) (\<lambda>e. rbind x (\<lambda>s.
                Inr (True, plen - 3, if class_range nocase c e s then True else m)))
         else rbind x (\<lambda>s.
                Inr (True, plen - 1,
                     if (if nocase then tolower c = tolower s else c = s) then True else m))))"

lemma at_nonneg: "at P r = Inr c \<Longrightarrow> 0 \<le> r"
  by (simp add: at_def split: if_splits)

lemma class_step_bounds:
  assumes "class_step P plen x nocase m = Inr (more, q, b)"
  shows "0 \<le> plen \<and> (if more then q < plen else q \<le> plen + 1)"
  using assms
  unfolding class_step_def rbind_eq_Inr
  by - (elim exE conjE, drule at_nonneg, auto simp: rbind_eq_Inr split: if_splits)

function match_class ::
    "char list \<Rightarrow> int \<Rightarrow> (match_error, char) result \<Rightarrow> bool \<Rightarrow> bool \<Rightarrow> (match_error, int \<times> bool) result"
where
  "match_class P plen x nocase m =
     (case class_step P plen x nocase m of
        Inl e \<Rightarrow> Inl e
      | Inr (more, q, m') \<Rightarrow> if more then match_class P q x nocase m' else Inr (q, m'))"
  by pat_completeness auto
termination
  by (relation "measure (\<lambda>(P, plen, x, nocase, m). nat (plen + 3))")
    (auto dest!: class_step_bounds)

declare skip_stars.simps [simp del] tail_stars.simps [simp del] match_class.simps [simp del]

text \<open>The loop \<open>while(stringLen)\<close> after a star, over the recursive call \<open>f\<close>.\<close>

fun star_loop :: "(int \<Rightarrow> (match_error, bool) result) \<Rightarrow> nat \<Rightarrow> (match_error, bool) result" where
  "star_loop f 0 = Inr False"
| "star_loop f (Suc n) = rbind (f (int (Suc n))) (\<lambda>b. if b then Inr True else star_loop f n)"

lemma skip_stars_le: "skip_stars P plen \<le> plen"
proof (induction P plen rule: skip_stars.induct)
  case (1 P plen)
  then show ?case by (subst skip_stars.simps) auto
qed

lemma match_class_le: "match_class P plen x nocase m = Inr (q, b) \<Longrightarrow> q \<le> plen + 1"
proof (induction P plen x nocase m rule: match_class.induct)
  case (1 P plen x nocase m)
  from "1.prems" obtain more q' m' where st: "class_step P plen x nocase m = Inr (more, q', m')"
    and go: "if more then match_class P q' x nocase m' = Inr (q, b) else q = q'"
    by (auto simp: match_class.simps [of P plen] split: sum.splits if_splits)
  from class_step_bounds [OF st] "1.IH" [OF st refl] go show ?case by (cases more) auto
qed

text \<open>
  The cases of the \<open>switch\<close> other than the star, for the pattern byte \<open>c\<close>: \<open>None\<close> is
  \<open>return 0\<close>, \<open>Some p\<close> consumes one string byte and leaves the pattern at position \<open>p\<close>.
\<close>

definition match_one ::
    "char list \<Rightarrow> int \<Rightarrow> char list \<Rightarrow> int \<Rightarrow> bool \<Rightarrow> char \<Rightarrow> (match_error, int option) result"
where
  "match_one P plen S slen nocase c =
     (if c = CHR ''?'' then Inr (if slen = 0 then None else Some plen)
      else if c = CHR ''[''
      then rbind (at P (plen - 1)) (\<lambda>n.
             let neg = (n = CHR ''^''); start = (if neg then plen - 2 else plen - 1) in
             rbind (match_class P start (at S slen) nocase False) (\<lambda>(q, m).
               Inr (if m \<noteq> neg then Some q else None)))
      else let p = (if c = CHR 0x5C \<and> plen \<ge> 2 then plen - 1 else plen) in
           rbind (at P p) (\<lambda>e. rbind (at S slen) (\<lambda>s.
             Inr (if (if nocase then tolower e = tolower s else e = s) then Some p else None))))"

lemma match_one_le: "match_one P plen S slen nocase c = Inr (Some p) \<Longrightarrow> p \<le> plen"
  by (auto simp: match_one_def rbind_eq_Inr Let_def dest!: match_class_le split: if_splits)

text \<open>
  \<open>stringmatchlen\<close>: after a consumed byte the pattern advances by one and, when the string is
  used up, only trailing stars may be left.
\<close>

function stringmatchlen :: "char list \<Rightarrow> int \<Rightarrow> char list \<Rightarrow> int \<Rightarrow> bool \<Rightarrow> (match_error, bool) result"
where
  "stringmatchlen P plen S slen nocase =
     (if plen = 0 then Inr (slen = 0)
      else rbind (at P plen) (\<lambda>c.
        if c = CHR ''*''
        then let plen' = skip_stars P plen in
             if plen' = 1 then Inr True
             else if slen < 0
             then rbind (stringmatchlen P (plen' - 1) S slen nocase)
                    (\<lambda>b. if b then Inr True else Inl RunawayLength)
             else star_loop (\<lambda>sl. stringmatchlen P (plen' - 1) S sl nocase) (nat slen)
        else rbind (match_one P plen S slen nocase c) (\<lambda>nxt.
          case nxt of
            None \<Rightarrow> Inr False
          | Some p \<Rightarrow>
              if slen - 1 = 0 then Inr (tail_stars P (p - 1) = 0)
              else stringmatchlen P (p - 1) S (slen - 1) nocase)))"
  by pat_completeness auto
termination
proof (relation "measure (\<lambda>(P, plen, S, slen, nocase). nat (plen + 1))", goal_cases)
  case (2 P plen S slen nocase c plen')
  then show ?case using skip_stars_le [of P plen] by (auto dest!: at_nonneg)
next
  case (3 P plen S slen nocase c plen' sl)
  then show ?case using skip_stars_le [of P plen] by (auto dest!: at_nonneg)
next
  case (4 P plen S slen nocase c nxt p)
  then show ?case using match_one_le [of P plen S slen nocase c p] by (auto dest!: at_nonneg)
qed auto

declare stringmatchlen.simps [simp del]

definition stringmatch :: "char list \<Rightarrow> char list \<Rightarrow> bool \<Rightarrow> (match_error, bool) result" where
  "stringmatch P S nocase = stringmatchlen P (int (length P)) S (int (length S)) nocase"

section \<open>The matcher against a reference definition\<close>

text \<open>Patterns without classes as token lists, and what they mean.\<close>

datatype gtok = Star | One | Lit char

fun parse_glob :: "char list \<Rightarrow> gtok list" where
  "parse_glob [] = []"
| "parse_glob (c # p) =
     (if c = CHR ''*'' then Star # parse_glob p
      else if c = CHR ''?'' then One # parse_glob p
      else if c = CHR 0x5C then (case p of [] \<Rightarrow> [Lit c] | e # q \<Rightarrow> Lit e # parse_glob q)
      else Lit c # parse_glob p)"

definition same_char :: "bool \<Rightarrow> char \<Rightarrow> char \<Rightarrow> bool" where
  "same_char nocase a b \<longleftrightarrow> (if nocase then tolower a = tolower b else a = b)"

fun glob :: "bool \<Rightarrow> gtok list \<Rightarrow> char list \<Rightarrow> bool" where
  "glob nocase [] s \<longleftrightarrow> s = []"
| "glob nocase (One # ts) s \<longleftrightarrow> s \<noteq> [] \<and> glob nocase ts (tl s)"
| "glob nocase (Lit c # ts) s \<longleftrightarrow> s \<noteq> [] \<and> same_char nocase c (hd s) \<and> glob nocase ts (tl s)"
| "glob nocase (Star # ts) s \<longleftrightarrow> (\<exists>k\<le>length s. glob nocase ts (drop k s))"

lemma at_suffix [simp]: "at (pre @ p) (int (length p)) = Inr (case p of [] \<Rightarrow> NUL | c # _ \<Rightarrow> c)"
  by (cases p) (auto simp: at_def nat_add_distrib)

lemma at_suffix_Cons: "at (pre @ c # p) (int (length p)) = Inr (case p of [] \<Rightarrow> NUL | c # _ \<Rightarrow> c)"
  using at_suffix [of "pre @ [c]" p] by simp

lemma skip_stars_suffix:
  "skip_stars (pre @ c # p) (int (length p) + 1) = int (length (dropWhile (\<lambda>c. c = CHR ''*'') p)) + 1"
proof (induction p arbitrary: pre c)
  case Nil
  then show ?case by (subst skip_stars.simps) (simp add: at_def)
next
  case (Cons d p)
  have "at (pre @ c # d # p) (int (length p) + 1) = Inr d"
    using at_suffix_Cons [of pre c "d # p"] by (simp add: add.commute)
  then show ?case
    using Cons.IH [of "pre @ [c]" d] by (subst skip_stars.simps) (auto simp: add.commute)
qed

lemma tail_stars_suffix:
  "tail_stars (pre @ p) (int (length p)) = int (length (dropWhile (\<lambda>c. c = CHR ''*'') p))"
proof (induction p arbitrary: pre)
  case Nil
  then show ?case by (subst tail_stars.simps) simp
next
  case (Cons c p)
  have "at (pre @ c # p) (int (length p) + 1) = Inr c"
    using at_suffix [of pre "c # p"] by (simp add: add.commute)
  then show ?case
    using Cons.IH [of "pre @ [c]"] by (subst tail_stars.simps) (auto simp: add.commute)
qed

lemma tolower_NUL: "tolower c = NUL \<longleftrightarrow> c = NUL"
  by (auto simp: tolower_def NUL_iff)

lemma same_char_NUL: "c \<noteq> NUL \<Longrightarrow> \<not> same_char nocase c NUL"
  using tolower_NUL [of c] tolower_NUL [of NUL] by (auto simp: same_char_def)

lemma parse_glob_stars:
  "parse_glob p = replicate (length (takeWhile (\<lambda>c. c = CHR ''*'') p)) Star @
     parse_glob (dropWhile (\<lambda>c. c = CHR ''*'') p)"
  by (induction p) auto

lemma glob_stars: "glob nocase (Star # replicate n Star @ ts) s \<longleftrightarrow> (\<exists>k\<le>length s. glob nocase ts (drop k s))"
proof (induction n arbitrary: s)
  case (Suc n)
  have "glob nocase (Star # replicate (Suc n) Star @ ts) s \<longleftrightarrow>
      (\<exists>k\<le>length s. glob nocase (Star # replicate n Star @ ts) (drop k s))"
    by simp
  also have "\<dots> \<longleftrightarrow> (\<exists>k\<le>length s. \<exists>j\<le>length (drop k s). glob nocase ts (drop j (drop k s)))"
    by (simp only: Suc.IH)
  also have "\<dots> \<longleftrightarrow> (\<exists>k\<le>length s. glob nocase ts (drop k s))"
    by (force simp: le_diff_conv2)
  finally show ?case .
qed simp

lemma glob_Nil: "glob nocase (parse_glob p) [] \<longleftrightarrow> dropWhile (\<lambda>c. c = CHR ''*'') p = []"
  by (induction p) (auto split: list.splits)

lemma star_loop_ex:
  assumes "\<And>k. 0 < k \<Longrightarrow> k \<le> n \<Longrightarrow> f (int k) = Inr (g k)"
  shows "star_loop f n = Inr (\<exists>k. 0 < k \<and> k \<le> n \<and> g k)"
  using assms
proof (induction n)
  case (Suc n)
  have "f (int (Suc n)) = Inr (g (Suc n))" by (rule Suc.prems) auto
  moreover have "star_loop f n = Inr (\<exists>k. 0 < k \<and> k \<le> n \<and> g k)" using Suc by simp
  ultimately show ?case by (auto simp: le_Suc_eq)
qed simp

text \<open>
  One round on a pattern that starts with neither a star nor a class: the literal byte it
  compares (if any) and what is left of the pattern.
\<close>

definition glob_lit :: "char \<Rightarrow> char list \<Rightarrow> char" where
  "glob_lit c p = (if c = CHR 0x5C \<and> p \<noteq> [] then hd p else c)"

definition glob_rest :: "char \<Rightarrow> char list \<Rightarrow> char list" where
  "glob_rest c p = (if c = CHR 0x5C \<and> p \<noteq> [] then tl p else p)"

definition glob_here :: "bool \<Rightarrow> char \<Rightarrow> char list \<Rightarrow> char \<Rightarrow> bool" where
  "glob_here nocase c p x \<longleftrightarrow> c = CHR ''?'' \<or> same_char nocase (glob_lit c p) x"

lemma glob_step:
  "c \<noteq> CHR ''*'' \<Longrightarrow> glob nocase (parse_glob (c # p)) s \<longleftrightarrow>
     s \<noteq> [] \<and> glob_here nocase c p (hd s) \<and> glob nocase (parse_glob (glob_rest c p)) (tl s)"
  by (cases p) (auto simp: glob_here_def glob_lit_def glob_rest_def)

lemma glob_lit_NUL: "NUL \<notin> set (c # p) \<Longrightarrow> \<not> same_char nocase (glob_lit c p) NUL"
  by (cases p) (auto simp: glob_lit_def same_char_NUL)

lemma match_one_plain:
  assumes "c \<noteq> CHR ''*''" and "c \<noteq> CHR ''[''" and "NUL \<notin> set (c # p)"
  shows "match_one (pre @ c # p) (int (length p) + 1) (qre @ s) (int (length s)) nocase c =
    Inr (if s \<noteq> [] \<and> glob_here nocase c p (hd s) then Some (int (length (glob_rest c p)) + 1) else None)"
proof -
  let ?plen = "if c = CHR 0x5C \<and> int (length p) + 1 \<ge> 2 then int (length p) + 1 - 1 else int (length p) + 1"
  have plen: "?plen = int (length (glob_rest c p)) + 1"
    by (cases p) (auto simp: glob_rest_def)
  have lit: "at (pre @ c # p) (int (length (glob_rest c p)) + 1) = Inr (glob_lit c p)"
    using at_suffix [of pre "c # p"] at_suffix_Cons [of pre c p]
    by (cases p) (auto simp: glob_rest_def glob_lit_def add.commute)
  have s: "at (qre @ s) (int (length s)) = Inr (if s = [] then NUL else hd s)"
    using at_suffix [of qre s] by (cases s) (simp_all del: at_suffix)
  show ?thesis
  proof (cases "c = CHR ''?''")
    case True
    then show ?thesis by (simp add: match_one_def glob_here_def glob_rest_def)
  next
    case False
    have "match_one (pre @ c # p) (int (length p) + 1) (qre @ s) (int (length s)) nocase c =
        Inr (if same_char nocase (glob_lit c p) (if s = [] then NUL else hd s)
             then Some (int (length (glob_rest c p)) + 1) else None)"
      unfolding match_one_def Let_def plen using False assms(2) lit s by (simp add: same_char_def)
    then show ?thesis
      using False glob_lit_NUL [OF assms(3)] by (simp add: glob_here_def)
  qed
qed

lemma stringmatchlen_step:
  assumes "c \<noteq> CHR ''*''" and "at P plen = Inr c" and "plen \<noteq> 0"
    and "match_one P plen S slen nocase c = Inr r"
  shows "stringmatchlen P plen S slen nocase =
    (case r of
       None \<Rightarrow> Inr False
     | Some p \<Rightarrow> if slen - 1 = 0 then Inr (tail_stars P (p - 1) = 0)
                 else stringmatchlen P (p - 1) S (slen - 1) nocase)"
  by (subst stringmatchlen.simps) (simp add: assms split: option.split)

lemma ex_suffix_flip:
  assumes "\<not> Q []"
  shows "(\<exists>k. 0 < k \<and> k \<le> length s \<and> Q (drop (length s - k) s)) \<longleftrightarrow> (\<exists>k\<le>length s. Q (drop k s))"
proof
  assume "\<exists>k\<le>length s. Q (drop k s)"
  then obtain k where k: "k \<le> length s" "Q (drop k s)" by blast
  with assms have "k \<noteq> length s" by auto
  with k show "\<exists>k. 0 < k \<and> k \<le> length s \<and> Q (drop (length s - k) s)"
    by (intro exI [of _ "length s - k"]) auto
qed (metis diff_le_self)

lemma glob_star_parse:
  "glob nocase (Star # parse_glob q) s \<longleftrightarrow>
     (\<exists>k\<le>length s. glob nocase (parse_glob (dropWhile (\<lambda>c. c = CHR ''*'') q)) (drop k s))"
  by (subst parse_glob_stars) (rule glob_stars)

text \<open>A leading star, given the recursive calls on what follows the run of stars.\<close>

lemma stringmatchlen_star:
  assumes d: "d = dropWhile (\<lambda>c. c = CHR ''*'') q"
    and rec: "\<And>k. k \<le> length s \<Longrightarrow>
      stringmatchlen (pre @ CHR ''*'' # q) (int (length d)) (qre @ s) (int k) nocase =
        Inr (glob nocase (parse_glob d) (drop (length s - k) s))"
  shows "stringmatchlen (pre @ CHR ''*'' # q) (int (length q) + 1) (qre @ s) (int (length s)) nocase =
    Inr (glob nocase (Star # parse_glob q) s)"
proof -
  let ?P = "pre @ CHR ''*'' # q"
  have atc: "at ?P (int (length q) + 1) = Inr (CHR ''*'')"
    using at_suffix [of pre "CHR ''*'' # q"] by (simp add: add.commute)
  have loop: "star_loop (\<lambda>sl. stringmatchlen ?P (int (length d)) (qre @ s) sl nocase) (length s) =
      Inr (\<exists>k. 0 < k \<and> k \<le> length s \<and> glob nocase (parse_glob d) (drop (length s - k) s))"
    using rec by (intro star_loop_ex) auto
  have flip: "d \<noteq> [] \<Longrightarrow> (\<exists>k. 0 < k \<and> k \<le> length s \<and> glob nocase (parse_glob d) (drop (length s - k) s)) \<longleftrightarrow>
      glob nocase (Star # parse_glob q) s"
    using ex_suffix_flip [of "glob nocase (parse_glob d)" s]
    unfolding glob_star_parse d by (simp add: glob_Nil)
  have all: "glob nocase (Star # parse_glob q) s" if "d = []"
  proof -
    have "glob nocase (parse_glob d) (drop (length s) s)" using that by simp
    then show ?thesis unfolding glob_star_parse d [symmetric] by blast
  qed
  have "stringmatchlen ?P (int (length q) + 1) (qre @ s) (int (length s)) nocase =
      (if d = [] then Inr True
       else star_loop (\<lambda>sl. stringmatchlen ?P (int (length d)) (qre @ s) sl nocase) (length s))"
    using skip_stars_suffix [of pre "CHR ''*''" q] atc
    by (subst stringmatchlen.simps) (simp add: Let_def flip: d)
  then show ?thesis using loop flip all by (simp del: glob.simps)
qed

lemma stringmatchlen_plain:
  assumes c: "c \<noteq> CHR ''*''" "c \<noteq> CHR ''[''" and nul: "NUL \<notin> set (c # q)"
    and rec: "\<And>pre p qre s. length p < length (c # q) \<Longrightarrow> set p \<subseteq> set q \<Longrightarrow>
      stringmatchlen (pre @ p) (int (length p)) (qre @ s) (int (length s)) nocase =
        Inr (glob nocase (parse_glob p) s)"
  shows "stringmatchlen (pre @ c # q) (int (length q) + 1) (qre @ s) (int (length s)) nocase =
    Inr (glob nocase (parse_glob (c # q)) s)"
proof -
  let ?P = "pre @ c # q" and ?p = "glob_rest c q"
  have atc: "at ?P (int (length q) + 1) = Inr c"
    using at_suffix [of pre "c # q"] by (simp add: add.commute)
  define pre' where "pre' = (if c = CHR 0x5C \<and> q \<noteq> [] then pre @ [c, hd q] else pre @ [c])"
  have P: "?P = pre' @ ?p" by (simp add: pre'_def glob_rest_def)
  have sub: "length ?p < length (c # q)" "set ?p \<subseteq> set q"
    by (auto simp: glob_rest_def dest: list.set_sel(2))
  note step = stringmatchlen_step [OF c(1) atc _ match_one_plain [OF c nul, of pre qre s nocase]]
  show ?thesis
  proof (cases s)
    case Nil
    then show ?thesis using step by (simp add: glob_step c del: parse_glob.simps)
  next
    case (Cons x t)
    have tail: "tail_stars ?P (int (length ?p)) = 0 \<longleftrightarrow> glob nocase (parse_glob ?p) []"
      using tail_stars_suffix [of pre' ?p] unfolding P [symmetric] by (simp add: glob_Nil)
    have rc: "stringmatchlen ?P (int (length ?p)) (qre @ s) (int (length t)) nocase =
        Inr (glob nocase (parse_glob ?p) t)"
      using rec [OF sub, of pre' "qre @ [x]" t] unfolding P [symmetric] Cons by simp
    show ?thesis
      using step tail rc Cons by (simp add: glob_step c del: parse_glob.simps)
  qed
qed

lemma stringmatchlen_glob:
  assumes "CHR ''['' \<notin> set p" and "NUL \<notin> set p"
  shows "stringmatchlen (pre @ p) (int (length p)) (qre @ s) (int (length s)) nocase =
           Inr (glob nocase (parse_glob p) s)"
  using assms
proof (induction "length p" arbitrary: pre p qre s rule: less_induct)
  case less
  show ?case
  proof (cases p)
    case Nil
    then show ?thesis by (subst stringmatchlen.simps) auto
  next
    case (Cons c q)
    show ?thesis
    proof (cases "c = CHR ''*''")
      case True
      let ?d = "dropWhile (\<lambda>c. c = CHR ''*'') q" and ?t = "takeWhile (\<lambda>c. c = CHR ''*'') q"
      have d: "length ?d < length p" "CHR ''['' \<notin> set ?d" "NUL \<notin> set ?d"
        using Cons less.prems length_dropWhile_le [of "\<lambda>c. c = CHR ''*''" q]
        by (auto dest: set_dropWhileD simp: less_Suc_eq_le)
      have "stringmatchlen (pre @ c # q) (int (length ?d)) (qre @ s) (int k) nocase =
          Inr (glob nocase (parse_glob ?d) (drop (length s - k) s))" if "k \<le> length s" for k
        using less.hyps [OF d, of "pre @ c # ?t" "qre @ take (length s - k) s" "drop (length s - k) s"] that
        by simp
      then show ?thesis
        using stringmatchlen_star [OF refl, of s pre q qre nocase] True Cons
        by (simp add: add.commute del: glob.simps)
    next
      case False
      have "stringmatchlen (pre @ c # q) (int (length q) + 1) (qre @ s) (int (length s)) nocase =
          Inr (glob nocase (parse_glob (c # q)) s)"
        using less.prems Cons False by (intro stringmatchlen_plain less.hyps) auto
      then show ?thesis using Cons by (simp add: add.commute del: parse_glob.simps)
    qed
  qed
qed

text \<open>
  C13. The glob matcher against its meaning: for a pattern without character classes,
  \<open>stringmatch\<close> returns, never reading outside the two strings, and says whether the string is
  in the language of the pattern (a star is any byte sequence, a question mark any byte, an
  escaped or plain byte itself, up to case when \<open>nocase\<close> is set).
\<close>

theorem stringmatch_glob:
  assumes "CHR ''['' \<notin> set P" and "NUL \<notin> set P"
  shows "stringmatch P S nocase = Inr (glob nocase (parse_glob P) S)"
  using stringmatchlen_glob [OF assms, of "[]" "[]" S nocase] by (simp add: stringmatch_def)

theorem stringmatch_glob_witness:
  "stringmatch ''h*l?'' ''hello!llo'' True = Inr (glob True (parse_glob ''h*l?'') ''hello!llo'')"
  by (rule stringmatch_glob) simp_all


end
