(* ===== verification/Sds.thy ===== *)
theory Sds
  imports Util "HOL-Library.Sublist"
begin

text \<open>
  \<open>sds.c\<close>: the dynamic strings. A string is its header with the buffer behind it: the two
  \<open>int\<close> fields and the allocated bytes. Every write is checked against the allocation, so that
  a result \<open>Inr\<close> is a proof of memory safety. Growing operations take the contents \<open>g\<close> of
  freshly allocated bytes as an argument. A pointer argument \<open>t\<close> is the memory it points to, and
  reading beyond it is an error too; overlapping arguments are not represented.
\<close>

section \<open>Header and memory accesses\<close>

record sdshdr =
  sh_len :: int
  sh_free :: int
  sh_buf :: "char list"

datatype sds_error =
    WriteOverflow     \<comment> \<open>a byte behind the allocation is written\<close>
  | ReadOverflow      \<comment> \<open>a byte behind a memory region is read\<close>
  | AssertFailed

definition SDS_MAX_PREALLOC :: int where
  "SDS_MAX_PREALLOC = 1024 * 1024"

abbreviation sizeof_sdshdr :: int where
  "sizeof_sdshdr \<equiv> 8"

text \<open>\<open>put sh off src\<close> stores the bytes \<open>src\<close> at \<open>sh->buf + off\<close>; \<open>region t n\<close> is what a read
  of \<open>n\<close> bytes at \<open>t\<close> gives; \<open>strlen\<close> needs a terminator in the region; \<open>buf_size n\<close> is the
  room for the buffer in a block of \<open>sizeof(struct sdshdr)+n+1\<close> bytes.\<close>

definition put :: "sdshdr \<Rightarrow> int \<Rightarrow> char list \<Rightarrow> (sds_error, sdshdr) result" where
  "put sh off src =
     (if 0 \<le> off \<and> off + int (length src) \<le> int (length (sh_buf sh))
      then Inr (sh\<lparr>sh_buf := write_at (sh_buf sh) (nat off) src\<rparr>)
      else Inl WriteOverflow)"

definition region :: "char list \<Rightarrow> int \<Rightarrow> (sds_error, char list) result" where
  "region t n = (if n \<le> int (length t) then Inr (take (nat n) t) else Inl ReadOverflow)"

definition strlen :: "char list \<Rightarrow> (sds_error, int) result" where
  "strlen t = (if NUL \<in> set t then Inr (int (length (cstr t))) else Inl ReadOverflow)"

definition buf_size :: "int \<Rightarrow> nat" where
  "buf_size n = nat (to_u64 (sizeof_sdshdr + n + 1) - sizeof_sdshdr)"

definition sdslen :: "sdshdr \<Rightarrow> int" where
  "sdslen s = to_u64 (sh_len s)"

definition sdsavail :: "sdshdr \<Rightarrow> int" where
  "sdsavail s = to_u64 (sh_free s)"

section \<open>Creation\<close>

definition sdsnewlen :: "(nat \<Rightarrow> char) \<Rightarrow> char list option \<Rightarrow> int \<Rightarrow> (sds_error, sdshdr) result" where
  "sdsnewlen g init initlen =
     (let n = buf_size initlen;
          sh = \<lparr>sh_len = to_i32 initlen, sh_free = 0,
                sh_buf = (case init of None \<Rightarrow> replicate n NUL | Some _ \<Rightarrow> map g [0..<n])\<rparr>
      in rbind (case init of
                  None \<Rightarrow> Inr sh
                | Some t \<Rightarrow> if initlen \<noteq> 0 then rbind (region t initlen) (put sh 0) else Inr sh)
           (\<lambda>sh. put sh initlen [NUL]))"

definition sdsempty :: "(nat \<Rightarrow> char) \<Rightarrow> (sds_error, sdshdr) result" where
  "sdsempty g = sdsnewlen g (Some [NUL]) 0"

definition sdsnew :: "(nat \<Rightarrow> char) \<Rightarrow> char list option \<Rightarrow> (sds_error, sdshdr) result" where
  "sdsnew g init =
     rbind (case init of None \<Rightarrow> Inr 0 | Some t \<Rightarrow> strlen t) (sdsnewlen g init)"

definition sdsdup :: "(nat \<Rightarrow> char) \<Rightarrow> sdshdr \<Rightarrow> (sds_error, sdshdr) result" where
  "sdsdup g s = sdsnewlen g (Some (sh_buf s)) (sdslen s)"

section \<open>Lengths\<close>

definition sdsupdatelen :: "sdshdr \<Rightarrow> (sds_error, sdshdr) result" where
  "sdsupdatelen sh =
     rbind (strlen (sh_buf sh)) (\<lambda>n.
       let reallen = to_i32 n in
       Inr (sh\<lparr>sh_free := to_i32 (sh_free sh + (sh_len sh - reallen)), sh_len := reallen\<rparr>))"

definition sdsclear :: "sdshdr \<Rightarrow> (sds_error, sdshdr) result" where
  "sdsclear sh = put (sh\<lparr>sh_free := to_i32 (sh_free sh + sh_len sh), sh_len := 0\<rparr>) 0 [NUL]"

definition sdsMakeRoomFor :: "(nat \<Rightarrow> char) \<Rightarrow> sdshdr \<Rightarrow> int \<Rightarrow> sdshdr" where
  "sdsMakeRoomFor g s addlen =
     (if sdsavail s \<ge> addlen then s
      else let len = sdslen s;
               newlen = to_u64 (len + addlen);
               newlen = (if newlen < SDS_MAX_PREALLOC then to_u64 (newlen * 2)
                         else to_u64 (newlen + SDS_MAX_PREALLOC))
           in s\<lparr>sh_buf := realloc_buf g (sh_buf s) (buf_size newlen),
                sh_free := to_i32 (to_u64 (newlen - len))\<rparr>)"

definition sdsRemoveFreeSpace :: "(nat \<Rightarrow> char) \<Rightarrow> sdshdr \<Rightarrow> sdshdr" where
  "sdsRemoveFreeSpace g sh =
     sh\<lparr>sh_buf := realloc_buf g (sh_buf sh) (buf_size (sh_len sh)), sh_free := 0\<rparr>"

definition sdsAllocSize :: "sdshdr \<Rightarrow> int" where
  "sdsAllocSize sh = to_u64 (sizeof_sdshdr + sh_len sh + sh_free sh + 1)"

definition sdsIncrLen :: "sdshdr \<Rightarrow> int \<Rightarrow> (sds_error, sdshdr) result" where
  "sdsIncrLen sh incr =
     (if \<not> sh_free sh \<ge> incr then Inl AssertFailed
      else let sh = sh\<lparr>sh_len := to_i32 (sh_len sh + incr), sh_free := to_i32 (sh_free sh - incr)\<rparr>
           in if \<not> sh_free sh \<ge> 0 then Inl AssertFailed
              else put sh (sh_len sh) [NUL])"

definition sdsgrowzero :: "(nat \<Rightarrow> char) \<Rightarrow> sdshdr \<Rightarrow> int \<Rightarrow> (sds_error, sdshdr) result" where
  "sdsgrowzero g s len =
     (let curlen = to_u64 (sh_len s) in
      if len \<le> curlen then Inr s
      else let s = sdsMakeRoomFor g s (len - curlen)
           in rbind (put s curlen (replicate (nat (len - curlen + 1)) NUL)) (\<lambda>sh.
                let totlen = to_u64 (sh_len sh + sh_free sh); sh = sh\<lparr>sh_len := to_i32 len\<rparr>
                in Inr (sh\<lparr>sh_free := to_i32 (totlen - sh_len sh)\<rparr>)))"

section \<open>Concatenation and copy\<close>

definition sdscatlen :: "(nat \<Rightarrow> char) \<Rightarrow> sdshdr \<Rightarrow> char list \<Rightarrow> int \<Rightarrow> (sds_error, sdshdr) result" where
  "sdscatlen g s t len =
     (let curlen = sdslen s; s = sdsMakeRoomFor g s len
      in rbind (region t len) (\<lambda>src. rbind (put s curlen src) (\<lambda>sh.
           put (sh\<lparr>sh_len := to_i32 (curlen + len), sh_free := to_i32 (sh_free sh - len)\<rparr>)
             (curlen + len) [NUL])))"

definition sdscat :: "(nat \<Rightarrow> char) \<Rightarrow> sdshdr \<Rightarrow> char list \<Rightarrow> (sds_error, sdshdr) result" where
  "sdscat g s t = rbind (strlen t) (sdscatlen g s t)"

definition sdscatsds :: "(nat \<Rightarrow> char) \<Rightarrow> sdshdr \<Rightarrow> sdshdr \<Rightarrow> (sds_error, sdshdr) result" where
  "sdscatsds g s t = sdscatlen g s (sh_buf t) (sdslen t)"

definition sdscpylen :: "(nat \<Rightarrow> char) \<Rightarrow> sdshdr \<Rightarrow> char list \<Rightarrow> int \<Rightarrow> (sds_error, sdshdr) result" where
  "sdscpylen g s t len =
     (let totlen = to_u64 (sh_free s + sh_len s);
          (s, totlen) =
            (if totlen < len
             then let s = sdsMakeRoomFor g s (to_u64 (len - sh_len s))
                  in (s, to_u64 (sh_free s + sh_len s))
             else (s, totlen))
      in rbind (region t len) (\<lambda>src. rbind (put s 0 src) (\<lambda>sh. rbind (put sh len [NUL]) (\<lambda>sh.
           Inr (sh\<lparr>sh_len := to_i32 len, sh_free := to_i32 (totlen - len)\<rparr>)))))"

definition sdscpy :: "(nat \<Rightarrow> char) \<Rightarrow> sdshdr \<Rightarrow> char list \<Rightarrow> (sds_error, sdshdr) result" where
  "sdscpy g s t = rbind (strlen t) (sdscpylen g s t)"

section \<open>The invariant\<close>

text \<open>
  A well-formed string: both fields are non-negative, the allocation has exactly
  \<open>len + free + 1\<close> bytes, the byte at \<open>len\<close> is the terminator, and the sum of the fields is an
  \<open>int\<close>. \<open>sds_str\<close> is the string it represents.
\<close>

definition sds_ok :: "sdshdr \<Rightarrow> bool" where
  "sds_ok s \<longleftrightarrow> 0 \<le> sh_len s \<and> 0 \<le> sh_free s \<and> sh_len s + sh_free s < 2147483648 \<and>
     int (length (sh_buf s)) = sh_len s + sh_free s + 1 \<and> sh_buf s ! nat (sh_len s) = NUL"

definition sds_str :: "sdshdr \<Rightarrow> char list" where
  "sds_str s = take (nat (sh_len s)) (sh_buf s)"

text \<open>The contract of an operation: it stays inside its memory and leaves a well-formed string
  with the given contents.\<close>

definition yields :: "(sds_error, sdshdr) result \<Rightarrow> char list \<Rightarrow> bool" where
  "yields r xs \<longleftrightarrow> (case r of Inl _ \<Rightarrow> False | Inr s \<Rightarrow> sds_ok s \<and> sds_str s = xs)"

lemma yields_iff: "yields r xs \<longleftrightarrow> (\<exists>s. r = Inr s \<and> sds_ok s \<and> sds_str s = xs)"
  by (auto simp: yields_def split: sum.splits)

text \<open>The canonical form of a well-formed string: contents, terminator, free space.\<close>

definition mk_sds :: "char list \<Rightarrow> char list \<Rightarrow> sdshdr" where
  "mk_sds xs fr = \<lparr>sh_len = int (length xs), sh_free = int (length fr), sh_buf = xs @ NUL # fr\<rparr>"

lemma mk_sds_sel [simp]:
  "sh_len (mk_sds xs fr) = int (length xs)" "sh_free (mk_sds xs fr) = int (length fr)"
  "sh_buf (mk_sds xs fr) = xs @ NUL # fr" "sds_str (mk_sds xs fr) = xs"
  by (simp_all add: mk_sds_def sds_str_def)

lemma mk_sds_inject [simp]: "mk_sds xs f = mk_sds ys h \<longleftrightarrow> xs = ys \<and> f = h"
  by (auto simp: mk_sds_def)

lemma sds_ok_mk [simp]: "sds_ok (mk_sds xs fr) \<longleftrightarrow> length xs + length fr < 2147483648"
  by (auto simp: sds_ok_def nth_append)

lemma sds_okE:
  assumes "sds_ok s"
  obtains xs fr where "s = mk_sds xs fr" "length xs + length fr < 2147483648" "xs = sds_str s"
proof -
  let ?n = "nat (sh_len s)"
  let ?xs = "take ?n (sh_buf s)" and ?fr = "drop (Suc ?n) (sh_buf s)"
  have n: "?n < length (sh_buf s)" "int ?n = sh_len s" using assms by (auto simp: sds_ok_def)
  have "sh_buf s = ?xs @ NUL # ?fr"
    using id_take_nth_drop [OF n(1)] assms by (simp add: sds_ok_def)
  moreover have "sh_free s = int (length ?fr)" "sh_len s = int (length ?xs)"
    using n assms by (auto simp: sds_ok_def)
  ultimately have "s = mk_sds ?xs ?fr" by (cases s) (simp add: mk_sds_def)
  moreover from this assms have "length ?xs + length ?fr < 2147483648" by (metis sds_ok_mk)
  ultimately show thesis using that by (simp add: sds_str_def)
qed

lemma yields_mk: "length xs + length fr < 2147483648 \<Longrightarrow> yields (Inr (mk_sds xs fr)) xs"
  by (simp add: yields_iff)

lemma yields_bind:
  assumes "yields r xs" and "\<And>s. sds_ok s \<Longrightarrow> sds_str s = xs \<Longrightarrow> yields (f s) ys"
  shows "yields (rbind r f) ys"
  using assms by (auto simp: yields_iff)

lemma buf_size_nat [simp]: "0 \<le> n \<Longrightarrow> n < 4294967296 \<Longrightarrow> buf_size n = nat n + 1"
  by (simp add: buf_size_def cint)

lemma region_nat [simp]: "n \<le> length t \<Longrightarrow> region t (int n) = Inr (take n t)"
  by (simp add: region_def)

lemma strlen_term [simp]: "NUL \<notin> set xs \<Longrightarrow> strlen (xs @ NUL # fr) = Inr (int (length xs))"
  by (simp add: strlen_def)

lemma sdslen_mk [simp]: "length xs < 2147483648 \<Longrightarrow> sdslen (mk_sds xs fr) = int (length xs)"
  by (simp add: sdslen_def cint)

lemma sdsavail_mk [simp]: "length fr < 2147483648 \<Longrightarrow> sdsavail (mk_sds xs fr) = int (length fr)"
  by (simp add: sdsavail_def cint)

text \<open>Room for \<open>addlen\<close> more bytes; the contents stay.\<close>

definition SDS_LIMIT :: int where
  "SDS_LIMIT = 2146435072"

lemma sdsMakeRoomFor_mk:
  assumes "length xs + length fr < 2147483648" and "0 \<le> addlen" and "int (length xs) + addlen < SDS_LIMIT"
  shows "\<exists>fr'. sdsMakeRoomFor g (mk_sds xs fr) addlen = mk_sds xs fr' \<and>
           addlen \<le> int (length fr') \<and> length xs + length fr' < 2147483648"
proof (cases "addlen \<le> int (length fr)")
  case True
  then show ?thesis using assms by (auto simp: sdsMakeRoomFor_def)
next
  case False
  let ?s = "mk_sds xs fr"
  define m where "m = int (length xs) + addlen"
  define n where "n = (if m < SDS_MAX_PREALLOC then m * 2 else m + SDS_MAX_PREALLOC)"
  define fr' where "fr' = fr @ map g [length (xs @ NUL # fr)..<nat n + 1]"
  have m: "0 \<le> m" "m < 2146435072" using assms False by (auto simp: SDS_LIMIT_def m_def)
  then have n: "m \<le> n" "n < 2147483648" by (auto simp: SDS_MAX_PREALLOC_def n_def)
  have nx: "length xs + length fr \<le> nat n" "length xs \<le> nat n"
    using False assms n unfolding m_def by linarith+
  have len: "int (length fr') = n - int (length xs)"
    using nx n m by (auto simp: fr'_def)
  have buf: "realloc_buf g (xs @ NUL # fr) (nat n + 1) = xs @ NUL # fr'"
    using nx by (auto simp: realloc_buf_def fr'_def take_Cons')
  have "sdsMakeRoomFor g ?s addlen =
      ?s\<lparr>sh_buf := realloc_buf g (sh_buf ?s) (buf_size n), sh_free := to_i32 (to_u64 (n - int (length xs)))\<rparr>"
    using False assms(1) m n unfolding sdsMakeRoomFor_def Let_def
    by (simp add: cint m_def [symmetric]) (auto simp: n_def SDS_MAX_PREALLOC_def cint)
  also have "\<dots> = mk_sds xs fr'"
    using n m nx len buf by (simp add: mk_sds_def cint)
  finally show ?thesis
    using len n nx by (intro exI [of _ fr']) (auto simp: m_def)
qed

section \<open>The operations meet their contract\<close>

lemma write_at_app: "n = length a \<Longrightarrow> write_at (a @ b) n src = a @ src @ drop (length src) b"
  by (simp add: write_at_def)

lemma put_app:
  "sh_buf sh = a @ b \<Longrightarrow> off = int (length a) \<Longrightarrow> length src \<le> length b \<Longrightarrow>
     put sh off src = Inr (sh\<lparr>sh_buf := a @ src @ drop (length src) b\<rparr>)"
  by (simp add: put_def write_at_app)

lemma sdsnewlen_Some:
  assumes "n \<le> length t" and "n < 2147483648"
  shows "sdsnewlen g (Some t) (int n) = Inr (mk_sds (take n t) [])"
proof -
  let ?sh = "\<lparr>sh_len = int n, sh_free = 0, sh_buf = map g [0..<n] @ [g n]\<rparr>"
  have len: "int n = int (length (take n t))" using assms by simp
  have 0: "sdsnewlen g (Some t) (int n) =
      rbind (if n \<noteq> 0 then put ?sh 0 (take n t) else Inr ?sh) (\<lambda>sh. put sh (int n) [NUL])"
    using assms by (simp add: sdsnewlen_def Let_def cint)
  have 1: "put ?sh 0 (take n t) = Inr (?sh\<lparr>sh_buf := take n t @ [g n]\<rparr>)"
    by (subst put_app [of ?sh "[]" "map g [0..<n] @ [g n]"]) (use assms in auto)
  have 2: "put (?sh\<lparr>sh_buf := take n t @ [g n]\<rparr>) (int n) [NUL] =
      Inr (?sh\<lparr>sh_buf := take n t @ [NUL]\<rparr>)"
    by (subst put_app [OF _ len]) auto
  show ?thesis
    using 0 1 2 assms by (cases "n = 0") (simp_all add: mk_sds_def)
qed

lemma sdsnewlen_None:
  assumes "n < 2147483648"
  shows "sdsnewlen g None (int n) = Inr (mk_sds (replicate n NUL) [])"
proof -
  let ?sh = "\<lparr>sh_len = int n, sh_free = 0, sh_buf = replicate n NUL @ [NUL]\<rparr>"
  have "sdsnewlen g None (int n) = put ?sh (int n) [NUL]"
    using assms by (simp add: sdsnewlen_def Let_def cint replicate_append_same)
  also have "\<dots> = Inr (?sh\<lparr>sh_buf := replicate n NUL @ [NUL]\<rparr>)"
    by (subst put_app [of ?sh "replicate n NUL"]) auto
  finally show ?thesis by (simp add: mk_sds_def)
qed

lemma sdsempty_ok: "sdsempty g = Inr (mk_sds [] [])"
  using sdsnewlen_Some [of 0 "[NUL]" g] by (simp add: sdsempty_def)

lemma sdscatlen_mk:
  assumes "length xs + length fr < 2147483648" and "n \<le> length t" and "int (length xs + n) < SDS_LIMIT"
  shows "\<exists>fr'. sdscatlen g (mk_sds xs fr) t (int n) = Inr (mk_sds (xs @ take n t) fr') \<and>
           length xs + n + length fr' < 2147483648"
proof -
  let ?src = "take n t"
  obtain f where f: "sdsMakeRoomFor g (mk_sds xs fr) (int n) = mk_sds xs f" "n \<le> length f"
    "length xs + length f < 2147483648"
    using sdsMakeRoomFor_mk [OF assms(1), of "int n" g] assms(3) by auto
  let ?s1 = "(mk_sds xs f)\<lparr>sh_buf := (xs @ ?src) @ drop n (NUL # f)\<rparr>"
  let ?s2 = "?s1\<lparr>sh_len := int (length xs + n), sh_free := int (length f) - int n\<rparr>"
  have 1: "put (mk_sds xs f) (int (length xs)) ?src = Inr ?s1"
    using put_app [of "mk_sds xs f" xs "NUL # f" _ ?src] f assms by simp
  have 2: "put ?s2 (int (length xs + n)) [NUL] = Inr (mk_sds (xs @ ?src) (drop n f))"
    using put_app [of ?s2 "xs @ ?src" "drop n (NUL # f)" _ "[NUL]"] f assms
    by (simp add: mk_sds_def of_nat_diff Suc_diff_le)
  have "sdscatlen g (mk_sds xs fr) t (int n) = Inr (mk_sds (xs @ ?src) (drop n f))"
    using f assms 1 2 by (simp add: sdscatlen_def Let_def cint)
  then show ?thesis using f by (intro exI [of _ "drop n f"]) simp
qed

lemma sdscatlen_ok:
  assumes "sds_ok s" and "n \<le> length t" and "int (length (sds_str s) + n) < SDS_LIMIT"
  shows "yields (sdscatlen g s t (int n)) (sds_str s @ take n t)"
proof -
  obtain xs fr where s: "s = mk_sds xs fr" "length xs + length fr < 2147483648"
    using assms(1) by (rule sds_okE)
  from sdscatlen_mk [OF s(2) assms(2), of g] assms(3) s(1) show ?thesis
    using assms(2) by (auto simp: yields_iff)
qed

lemma sdscpylen_ok:
  assumes "sds_ok s" and "n \<le> length t" and "int n < SDS_LIMIT"
  shows "yields (sdscpylen g s t (int n)) (take n t)"
proof -
  obtain xs fr where s: "s = mk_sds xs fr" "length xs + length fr < 2147483648"
    using assms(1) by (rule sds_okE)
  define tot where "tot = length fr + length xs"
  define s1 where "s1 = (if tot < n then sdsMakeRoomFor g s (to_u64 (int n - int (length xs))) else s)"
  have "\<exists>f. s1 = mk_sds xs f \<and> length xs + length f < 2147483648 \<and> n \<le> length xs + length f"
  proof (cases "tot < n")
    case True
    then have "to_u64 (int n - int (length xs)) = int n - int (length xs)"
      using assms(3) by (simp add: cint tot_def SDS_LIMIT_def)
    then show ?thesis
      using sdsMakeRoomFor_mk [OF s(2), of "int n - int (length xs)" g] True assms(3) s(1)
      by (auto simp: s1_def tot_def)
  qed (use s in \<open>auto simp: s1_def tot_def\<close>)
  then obtain f where f: "s1 = mk_sds xs f" "length xs + length f < 2147483648" "n \<le> length xs + length f"
    by blast
  have step: "sdscpylen g s t (int n) = rbind (put s1 0 (take n t)) (\<lambda>sh. rbind (put sh (int n) [NUL])
      (\<lambda>sh. Inr (sh\<lparr>sh_len := to_i32 (int n), sh_free := to_i32 (int (length f + length xs) - int n)\<rparr>)))"
    using f s assms(2,3) unfolding sdscpylen_def Let_def
    by (auto simp: cint s1_def tot_def SDS_LIMIT_def split: if_splits)
  define b where "b = drop n (xs @ NUL # f)"
  have b: "length b = length xs + length f + 1 - n" by (simp add: b_def)
  have 1: "put s1 0 (take n t) = Inr (s1\<lparr>sh_buf := take n t @ b\<rparr>)"
    using put_app [of s1 "[]" "xs @ NUL # f" 0 "take n t"] f assms by (simp add: b_def)
  have 2: "put (s1\<lparr>sh_buf := take n t @ b\<rparr>) (int n) [NUL] = Inr (s1\<lparr>sh_buf := take n t @ NUL # drop 1 b\<rparr>)"
    by (subst put_app [of _ "take n t" b]) (use b f assms in auto)
  have "sdscpylen g s t (int n) = Inr (mk_sds (take n t) (drop 1 b))"
    using step 1 2 f b assms by (simp add: mk_sds_def cint SDS_LIMIT_def of_nat_diff)
  then show ?thesis using f b assms by (simp add: yields_iff)
qed

lemma sdsclear_ok: "sds_ok s \<Longrightarrow> yields (sdsclear s) []"
proof (erule sds_okE)
  fix xs fr assume s: "s = mk_sds xs fr" "length xs + length fr < 2147483648"
  let ?s = "s\<lparr>sh_free := int (length fr + length xs), sh_len := 0\<rparr>"
  have "put ?s 0 [NUL] = Inr (mk_sds [] (drop 1 (xs @ NUL # fr)))"
    by (subst put_app [of _ "[]" "xs @ NUL # fr"]) (auto simp: s mk_sds_def)
  then show ?thesis using s by (simp add: sdsclear_def cint yields_iff add.commute)
qed

lemma sdsupdatelen_ok:
  assumes "sds_ok s"
  shows "yields (sdsupdatelen s) (cstr (sds_str s))"
proof -
  obtain xs fr where s: "s = mk_sds xs fr" "length xs + length fr < 2147483648"
    using assms by (rule sds_okE)
  have "\<exists>rest. xs @ NUL # fr = cstr xs @ NUL # rest \<and> length xs + length fr = length (cstr xs) + length rest"
  proof (cases "NUL \<in> set xs")
    case True
    then obtain ys zs where "xs = ys @ NUL # zs" "NUL \<notin> set ys" by (metis split_list_first)
    then show ?thesis by (intro exI [of _ "zs @ NUL # fr"]) auto
  qed (auto simp: cstr_id)
  then obtain rest where r: "xs @ NUL # fr = cstr xs @ NUL # rest"
    "length xs + length fr = length (cstr xs) + length rest" by blast
  have "NUL \<notin> set (cstr xs)" by (auto simp: cstr_def dest: set_takeWhileD)
  then have "strlen (sh_buf s) = Inr (int (length (cstr xs)))" using r by (simp add: s(1))
  moreover have "int (length fr) + (int (length xs) - int (length (cstr xs))) = int (length rest)"
    using r(2) by linarith
  ultimately have "sdsupdatelen s = Inr (mk_sds (cstr xs) rest)"
    using s r by (auto simp: sdsupdatelen_def Let_def cint mk_sds_def)
  then show ?thesis using s r(2) by (simp add: yields_iff)
qed

lemma sdsRemoveFreeSpace_mk:
  "length xs + length fr < 2147483648 \<Longrightarrow> sdsRemoveFreeSpace g (mk_sds xs fr) = mk_sds xs []"
  by (simp add: sdsRemoveFreeSpace_def mk_sds_def realloc_buf_def)

lemma sdsAllocSize_ok: "sds_ok s \<Longrightarrow> sdsAllocSize s = 8 + int (length (sh_buf s))"
  by (simp add: sdsAllocSize_def sds_ok_def cint)

text \<open>
  \<open>sdsIncrLen\<close>: growing takes bytes the caller wrote behind the string, shrinking cuts the tail;
  an increment beyond the free space fails the assertion, a cut of more than the whole string is a
  write before the buffer.
\<close>

lemma sdsIncrLen_ok:
  assumes "sds_ok s" and "- sh_len s \<le> incr" and "incr \<le> sh_free s"
  shows "yields (sdsIncrLen s incr) (take (nat (sh_len s + incr)) (sh_buf s))"
proof -
  obtain xs fr where s: "s = mk_sds xs fr" "length xs + length fr < 2147483648"
    using assms(1) by (rule sds_okE)
  let ?n = "nat (int (length xs) + incr)" and ?b = "xs @ NUL # fr"
  let ?s = "s\<lparr>sh_len := int ?n, sh_free := int (length fr) - incr\<rparr>"
  have n: "?n < length ?b" "int ?n = int (length xs) + incr" using assms s by auto
  have b: "sh_buf ?s = take ?n ?b @ drop ?n ?b" using s by (simp only: append_take_drop_id) simp
  have "put ?s (int ?n) [NUL] = Inr (mk_sds (take ?n ?b) (drop (Suc ?n) ?b))"
    by (subst put_app [OF b]) (use n s in \<open>auto simp: mk_sds_def of_nat_diff simp del: take_append drop_append\<close>)
  moreover have "sdsIncrLen s incr = put ?s (int ?n) [NUL]"
    using n assms s by (auto simp: sdsIncrLen_def Let_def cint)
  ultimately show ?thesis
    using n s by (auto simp: yields_iff simp del: take_append drop_append)
qed

lemma sdsIncrLen_assert: "sh_free s < incr \<Longrightarrow> sdsIncrLen s incr = Inl AssertFailed"
  by (simp add: sdsIncrLen_def)

lemma sdsIncrLen_underflow:
  "sds_ok s \<Longrightarrow> incr < - sh_len s \<Longrightarrow> - 1073741824 \<le> incr \<Longrightarrow> sh_free s < 1073741824 \<Longrightarrow>
     sdsIncrLen s incr = Inl WriteOverflow"
  by (auto simp: sdsIncrLen_def sds_ok_def put_def Let_def cint)

lemma sdsgrowzero_ok:
  assumes "sds_ok s" and "0 \<le> len" and "len < SDS_LIMIT"
  shows "yields (sdsgrowzero g s len) (sds_str s @ replicate (nat len - length (sds_str s)) NUL)"
proof -
  obtain xs fr where s: "s = mk_sds xs fr" "length xs + length fr < 2147483648"
    using assms(1) by (rule sds_okE)
  show ?thesis
  proof (cases "len \<le> int (length xs)")
    case True
    then show ?thesis using s by (simp add: sdsgrowzero_def cint yields_iff)
  next
    case False
    define k where "k = nat len - length xs"
    have k: "len = int (length xs + k)" using False by (simp add: k_def)
    obtain f where f: "sdsMakeRoomFor g s (int k) = mk_sds xs f" "k \<le> length f"
      "length xs + length f < 2147483648"
      using sdsMakeRoomFor_mk [OF s(2), of "int k" g] assms(3) k s(1) by auto
    have "put (mk_sds xs f) (int (length xs)) (replicate (k + 1) NUL) =
        Inr ((mk_sds xs f)\<lparr>sh_buf := xs @ replicate (k + 1) NUL @ drop k f\<rparr>)"
      by (subst put_app [of _ xs "NUL # f"]) (use f in auto)
    then have "sdsgrowzero g s len = Inr (mk_sds (xs @ replicate k NUL) (drop k f))"
      using False f s(1,2) assms k
      by (auto simp: sdsgrowzero_def Let_def cint SDS_LIMIT_def mk_sds_def of_nat_diff replicate_app_Cons_same
            nat_add_distrib)
    then show ?thesis using f s k by (auto simp: yields_iff)
  qed
qed

section \<open>Formatted output\<close>

text \<open>
  \<open>sdscatvprintf\<close> on the text the format produces (\<open>vsnprintf\<close> stores its first
  \<open>buflen - 1\<close> bytes and a terminator). The loop doubles \<open>buflen\<close>, which is \<open>16 * 2 ^ k\<close>,
  until the byte at \<open>buflen - 2\<close> is the NUL stored before the call or by it.
\<close>

function printf_buflen :: "char list \<Rightarrow> nat \<Rightarrow> nat" where
  "printf_buflen out k =
     (let buflen = 16 * 2 ^ k
      in if buflen - 2 < length out \<and> out ! (buflen - 2) \<noteq> NUL
         then printf_buflen out (k + 1) else buflen)"
  by pat_completeness auto
termination
proof (relation "measure (\<lambda>(out, k). length out + 2 - 16 * 2 ^ k)", goal_cases)
  case (2 out k buflen)
  define x where "x = (2::nat) ^ k"
  have "1 \<le> x" "16 * x - 2 < length out" "(2::nat) ^ (k + 1) = 2 * x" using 2 by (auto simp: x_def)
  then show ?case by (simp flip: x_def)
qed simp

definition sdscatvprintf :: "(nat \<Rightarrow> char) \<Rightarrow> sdshdr \<Rightarrow> char list \<Rightarrow> (sds_error, sdshdr) result" where
  "sdscatvprintf g s out = sdscat g s (take (printf_buflen out 0 - 1) out @ [NUL])"

definition sdscatprintf :: "(nat \<Rightarrow> char) \<Rightarrow> sdshdr \<Rightarrow> char list \<Rightarrow> (sds_error, sdshdr) result" where
  "sdscatprintf g s out = sdscatvprintf g s out"

declare printf_buflen.simps [simp del]

lemma printf_buflen_cstr: "cstr (take (printf_buflen out k - 1) out) = cstr out"
proof (induction out k rule: printf_buflen.induct)
  case (1 out k)
  let ?b = "16 * 2 ^ k :: nat"
  show ?case
  proof (cases "?b - 2 < length out \<and> out ! (?b - 2) \<noteq> NUL")
    case True
    then show ?thesis using 1 by (simp add: printf_buflen.simps [of out k])
  next
    case False
    have buf: "printf_buflen out k = ?b" using False by (auto simp: printf_buflen.simps [of out k])
    have ge: "Suc (?b - 2) = ?b - 1" using one_le_power [of "2::nat" k] by linarith
    show ?thesis
    proof (cases "?b - 2 < length out")
      case True
      have "out = take (?b - 2) out @ NUL # drop (?b - 1) out"
        using id_take_nth_drop [OF True] False True ge by simp
      moreover have "take (?b - 1) out = take (?b - 2) out @ [NUL]"
        using take_Suc_conv_app_nth [OF True] False True ge by simp
      moreover have "takeWhile p (xs @ NUL # ys) = takeWhile p (xs @ [NUL])"
        if "\<not> p NUL" for p xs ys using that by (induction xs) auto
      ultimately show ?thesis unfolding buf cstr_def by metis
    qed (use buf ge in simp)
  qed
qed

lemma sdscat_ok:
  assumes "sds_ok s" and "NUL \<in> set t" and "int (length (sds_str s) + length (cstr t)) < SDS_LIMIT"
  shows "yields (sdscat g s t) (sds_str s @ cstr t)"
proof -
  have "length (cstr t) \<le> length t" "take (length (cstr t)) t = cstr t"
    unfolding cstr_def by (rule length_takeWhile_le) (rule takeWhile_eq_take [symmetric])
  with assms sdscatlen_ok [of s "length (cstr t)" t g] show ?thesis
    by (simp add: sdscat_def strlen_def)
qed

lemma sdscatprintf_ok:
  assumes "sds_ok s" and "int (length (sds_str s) + length (cstr out)) < SDS_LIMIT"
  shows "yields (sdscatprintf g s out) (sds_str s @ cstr out)"
proof -
  have "cstr (xs @ [NUL]) = cstr xs" for xs by (induction xs) (auto simp: cstr_def)
  then show ?thesis
    using assms sdscat_ok [of s "take (printf_buflen out 0 - 1) out @ [NUL]" g]
    by (simp add: sdscatprintf_def sdscatvprintf_def printf_buflen_cstr [of _ 0, simplified])
qed

section \<open>Operations in place\<close>

text \<open>\<open>strchr(cset, c)\<close> is not NULL: the terminator of \<open>cset\<close> counts.\<close>

definition in_cset :: "char list \<Rightarrow> char \<Rightarrow> bool" where
  "in_cset cset c \<longleftrightarrow> c = NUL \<or> c \<in> set cset"

function trim_sp :: "char list \<Rightarrow> char list \<Rightarrow> int \<Rightarrow> int \<Rightarrow> int" where
  "trim_sp cset b sp e =
     (if sp \<le> e \<and> in_cset cset (b ! nat sp) then trim_sp cset b (sp + 1) e else sp)"
  by pat_completeness auto
termination
  by (relation "measure (\<lambda>(cset, b, sp, e). nat (e + 1 - sp))") auto

function trim_ep :: "char list \<Rightarrow> char list \<Rightarrow> int \<Rightarrow> int" where
  "trim_ep cset b ep =
     (if ep > 0 \<and> in_cset cset (b ! nat ep) then trim_ep cset b (ep - 1) else ep)"
  by pat_completeness auto
termination
  by (relation "measure (\<lambda>(cset, b, ep). nat ep)") auto

declare trim_sp.simps [simp del] trim_ep.simps [simp del]

definition sdstrim :: "sdshdr \<Rightarrow> char list \<Rightarrow> (sds_error, sdshdr) result" where
  "sdstrim sh cset =
     (let e = sdslen sh - 1;
          sp = trim_sp cset (sh_buf sh) 0 e;
          ep = trim_ep cset (sh_buf sh) e;
          len = (if sp > ep then 0 else (ep - sp) + 1)
      in rbind (if sp \<noteq> 0 then rbind (region (drop (nat sp) (sh_buf sh)) len) (put sh 0) else Inr sh) (\<lambda>sh.
         rbind (put sh len [NUL]) (\<lambda>sh.
           Inr (sh\<lparr>sh_free := to_i32 (sh_free sh + (sh_len sh - len)), sh_len := to_i32 len\<rparr>))))"

text \<open>The index arithmetic of \<open>sdsrange\<close>: the first byte and the length that are kept.\<close>

definition range_bounds :: "int \<Rightarrow> int \<Rightarrow> int \<Rightarrow> int \<times> int" where
  "range_bounds len start end =
     (let start = (if start < 0 then let t = to_i32 (len + start) in if t < 0 then 0 else t else start);
          end = (if end < 0 then let t = to_i32 (len + end) in if t < 0 then 0 else t else end);
          newlen = (if start > end then 0 else to_u64 (to_i32 ((end - start) + 1)))
      in if newlen \<noteq> 0
         then if start \<ge> to_i32 len then (start, 0)
              else if end \<ge> to_i32 len
              then let end = to_i32 (len - 1)
                   in (start, if start > end then 0 else to_u64 (to_i32 ((end - start) + 1)))
              else (start, newlen)
         else (0, newlen))"

definition sdsrange :: "sdshdr \<Rightarrow> int \<Rightarrow> int \<Rightarrow> (sds_error, sdshdr) result" where
  "sdsrange sh start end =
     (let len = sdslen sh in
      if len = 0 then Inr sh
      else let (start, newlen) = range_bounds len start end in
        rbind (if start \<noteq> 0 \<and> newlen \<noteq> 0
               then rbind (region (drop (nat start) (sh_buf sh)) newlen) (put sh 0) else Inr sh) (\<lambda>sh.
        rbind (put sh newlen [NUL]) (\<lambda>sh.
          Inr (sh\<lparr>sh_free := to_i32 (sh_free sh + (sh_len sh - newlen)), sh_len := to_i32 newlen\<rparr>))))"

definition sdstolower :: "sdshdr \<Rightarrow> sdshdr" where
  "sdstolower s = s\<lparr>sh_buf := fold (\<lambda>j b. b[j := tolower (b ! j)]) [0..<nat (to_i32 (sdslen s))] (sh_buf s)\<rparr>"

definition sdstoupper :: "sdshdr \<Rightarrow> sdshdr" where
  "sdstoupper s = s\<lparr>sh_buf := fold (\<lambda>j b. b[j := toupper (b ! j)]) [0..<nat (to_i32 (sdslen s))] (sh_buf s)\<rparr>"

text \<open>The inner loop of \<open>sdsmapchars\<close>: the first index whose \<open>from\<close> byte is the given one.\<close>

definition mapchar :: "char list \<Rightarrow> char list \<Rightarrow> nat \<Rightarrow> char \<Rightarrow> char" where
  "mapchar from to setlen c =
     (case find (\<lambda>i. c = from ! i) [0..<setlen] of None \<Rightarrow> c | Some i \<Rightarrow> to ! i)"

definition sdsmapchars :: "sdshdr \<Rightarrow> char list \<Rightarrow> char list \<Rightarrow> nat \<Rightarrow> sdshdr" where
  "sdsmapchars s from to setlen =
     s\<lparr>sh_buf := fold (\<lambda>j b. b[j := mapchar from to setlen (b ! j)]) [0..<nat (sdslen s)] (sh_buf s)\<rparr>"

text \<open>\<open>memcmp\<close>: the difference of the first bytes that differ.\<close>

fun memcmp :: "char list \<Rightarrow> char list \<Rightarrow> int" where
  "memcmp (a # xs) (b # ys) = (if a = b then memcmp xs ys else uchar a - uchar b)"
| "memcmp _ _ = 0"

definition sdscmp :: "sdshdr \<Rightarrow> sdshdr \<Rightarrow> int" where
  "sdscmp s1 s2 =
     (let l1 = sdslen s1; l2 = sdslen s2;
          minlen = (if l1 < l2 then l1 else l2);
          cmp = memcmp (take (nat minlen) (sh_buf s1)) (take (nat minlen) (sh_buf s2))
      in if cmp = 0 then to_i32 (l1 - l2) else cmp)"

text \<open>The common end of \<open>sdstrim\<close> and \<open>sdsrange\<close>: move \<open>k\<close> bytes from \<open>sp\<close> to the front and cut
  the string there.\<close>

lemma move_mk:
  assumes "sp + k \<le> length xs"
  shows "\<exists>b. rbind (region (drop sp (xs @ NUL # fr)) (int k)) (put (mk_sds xs fr) 0) =
      Inr ((mk_sds xs fr)\<lparr>sh_buf := b\<rparr>) \<and> length b = length xs + length fr + 1 \<and>
      take k b = take k (drop sp xs)"
proof -
  let ?src = "take k (drop sp (xs @ NUL # fr))"
  have src: "?src = take k (drop sp xs)" "length ?src = k" using assms by auto
  have "region (drop sp (xs @ NUL # fr)) (int k) = Inr ?src"
    using assms by (intro region_nat) simp
  moreover have "put (mk_sds xs fr) 0 ?src = Inr ((mk_sds xs fr)\<lparr>sh_buf := ?src @ drop k (xs @ NUL # fr)\<rparr>)"
    by (subst put_app [of _ "[]" "xs @ NUL # fr"]) (use src assms in auto)
  ultimately show ?thesis
    using assms src by (intro exI [of _ "?src @ drop k (xs @ NUL # fr)"]) auto
qed

lemma cut_mk:
  assumes "length xs + length fr < 2147483648" and "length b = length xs + length fr + 1"
    and "k \<le> length xs"
  shows "yields (rbind (put ((mk_sds xs fr)\<lparr>sh_buf := b\<rparr>) (int k) [NUL]) (\<lambda>sh.
           Inr (sh\<lparr>sh_free := to_i32 (sh_free sh + (sh_len sh - int k)), sh_len := to_i32 (int k)\<rparr>)))
         (take k b)"
proof -
  have "put ((mk_sds xs fr)\<lparr>sh_buf := b\<rparr>) (int k) [NUL] =
      Inr ((mk_sds xs fr)\<lparr>sh_buf := take k b @ NUL # drop (Suc k) b\<rparr>)"
    by (subst put_app [of _ "take k b" "drop k b"]) (use assms in auto)
  moreover have "(mk_sds xs fr)\<lparr>sh_buf := take k b @ NUL # drop (Suc k) b,
        sh_free := to_i32 (int (length fr) + (int (length xs) - int k)), sh_len := to_i32 (int k)\<rparr> =
      mk_sds (take k b) (drop (Suc k) b)"
    using assms by (simp add: mk_sds_def cint of_nat_diff)
  ultimately show ?thesis using assms by (simp add: yields_iff)
qed

lemma trim_sp_takeWhile:
  "0 \<le> sp \<Longrightarrow> sp \<le> int (length xs) \<Longrightarrow> trim_sp cset (xs @ r) sp (int (length xs) - 1) =
     sp + int (length (takeWhile (in_cset cset) (drop (nat sp) xs)))"
proof (induction "nat (int (length xs) - sp)" arbitrary: sp)
  case (Suc n)
  then have lt: "nat sp < length xs" by auto
  with Suc have "in_cset cset (xs ! nat sp) \<Longrightarrow> ?case"
    by (subst trim_sp.simps, subst Cons_nth_drop_Suc [OF lt, symmetric])
      (simp add: nth_append nat_add_distrib)
  moreover have "\<not> in_cset cset (xs ! nat sp) \<Longrightarrow> ?case"
    using lt by (subst trim_sp.simps, subst Cons_nth_drop_Suc [OF lt, symmetric]) (simp add: nth_append)
  ultimately show ?case by blast
qed (subst trim_sp.simps, simp)

lemma trim_ep_takeWhile:
  "n < length xs \<Longrightarrow> trim_ep cset (xs @ r) (int n) =
     int (n - length (takeWhile (in_cset cset) (rev (take (Suc n) xs))))"
proof (induction n)
  case 0
  then show ?case by (subst trim_ep.simps) simp
next
  case (Suc n)
  moreover have "nat (1 + int n) = Suc n" by simp
  ultimately show ?case
    by (subst trim_ep.simps) (simp add: nth_append take_Suc_conv_app_nth [of "Suc n"])
qed

text \<open>The string without its leading and trailing bytes in the set.\<close>

definition trimmed :: "char list \<Rightarrow> char list \<Rightarrow> char list" where
  "trimmed cset xs = rev (dropWhile (in_cset cset) (rev (dropWhile (in_cset cset) xs)))"

lemma trim_decomp:
  assumes "dropWhile f xs \<noteq> []"
  obtains a m z where "xs = a @ m @ z" "\<forall>x\<in>set a. f x" "\<forall>x\<in>set z. f x" "m \<noteq> []"
    "\<not> f (hd m)" "\<not> f (last m)" "m = rev (dropWhile f (rev (dropWhile f xs)))"
proof -
  let ?r = "dropWhile f xs"
  let ?m = "rev (dropWhile f (rev ?r))" and ?z = "rev (takeWhile f (rev ?r))"
  have r: "?r = ?m @ ?z" by (metis rev_append rev_rev_ident takeWhile_dropWhile_id)
  have hd: "\<not> f (hd ?r)" using assms by (rule hd_dropWhile)
  have m: "?m \<noteq> []"
  proof
    assume "?m = []"
    then have "\<forall>x\<in>set ?r. f x" by simp
    with hd assms show False by simp
  qed
  then have "\<not> f (last ?m)" by (metis hd_dropWhile last_rev rev_is_Nil_conv)
  moreover have "\<not> f (hd ?m)" using hd r m by (metis hd_append2)
  moreover have "xs = takeWhile f xs @ ?m @ ?z" using r by (metis takeWhile_dropWhile_id)
  moreover have "\<forall>x\<in>set (takeWhile f xs). f x" "\<forall>x\<in>set ?z. f x" by (auto dest: set_takeWhileD)
  ultimately show thesis using that m by blast
qed

lemma trim_bounds:
  fixes cset xs r
  defines "sp \<equiv> trim_sp cset (xs @ r) 0 (int (length xs) - 1)"
    and "ep \<equiv> trim_ep cset (xs @ r) (int (length xs) - 1)"
  defines "len \<equiv> if sp > ep then 0 else (ep - sp) + 1"
  shows "\<exists>i k. sp = int i \<and> len = int k \<and> i + k \<le> length xs \<and> take k (drop i xs) = trimmed cset xs"
proof -
  let ?f = "in_cset cset"
  have sp: "sp = int (length (takeWhile ?f xs))"
    using trim_sp_takeWhile [of 0 xs cset r] by (simp add: sp_def)
  show ?thesis
  proof (cases "dropWhile ?f xs = []")
    case True
    then have all: "takeWhile ?f xs = xs" by (metis append_Nil2 takeWhile_dropWhile_id)
    have "ep < sp"
    proof (cases xs rule: rev_cases)
      case Nil
      then show ?thesis by (simp add: ep_def sp trim_ep.simps)
    next
      case (snoc ys y)
      then have "ep = int (length ys - length (takeWhile ?f (rev xs)))"
        using trim_ep_takeWhile [of "length ys" xs cset r] by (simp add: ep_def)
      moreover have "sp = int (length ys) + 1" using sp all snoc by simp
      ultimately show ?thesis by linarith
    qed
    moreover have "trimmed cset xs = []" unfolding trimmed_def True by simp
    ultimately show ?thesis
      using sp all by (intro exI [of _ "length xs"] exI [of _ 0]) (simp add: len_def)
  next
    case False
    then obtain a m z where d: "xs = a @ m @ z" "\<forall>x\<in>set a. ?f x" "\<forall>x\<in>set z. ?f x" "m \<noteq> []"
      "\<not> ?f (hd m)" "\<not> ?f (last m)" "m = trimmed cset xs"
      unfolding trimmed_def by (rule trim_decomp)
    have tw: "takeWhile ?f xs = a"
      using d(1,2,4,5) by (cases m) (auto intro!: takeWhile_stop)
    have twr: "takeWhile ?f (rev xs) = rev z"
      using d(1,3,4,6) by (cases m rule: rev_cases) (auto intro!: takeWhile_stop)
    have "length xs - 1 < length xs" "int (length xs - 1) = int (length xs) - 1"
      using d(1,4) by (cases m; simp)+
    then have "ep = int (length xs - 1 - length z)"
      using trim_ep_takeWhile [of "length xs - 1" xs cset r] twr by (simp add: ep_def)
    then have "ep = int (length a) + int (length m) - 1"
      using d(1,4) by (cases m) auto
    moreover have "sp = int (length a)" using sp tw by simp
    moreover have "0 < length m" using d(4) by simp
    ultimately have "len = int (length m)" by (auto simp: len_def)
    moreover have "length a + length m \<le> length xs" "take (length m) (drop (length a) xs) = m"
      by (simp_all add: d(1))
    ultimately show ?thesis using \<open>sp = int (length a)\<close> d(7) by blast
  qed
qed

lemma sdstrim_ok:
  assumes "sds_ok s"
  shows "yields (sdstrim s cset) (trimmed cset (sds_str s))"
proof -
  obtain xs fr where s: "s = mk_sds xs fr" "length xs + length fr < 2147483648"
    using assms by (rule sds_okE)
  obtain i k where ik: "trim_sp cset (xs @ NUL # fr) 0 (int (length xs) - 1) = int i"
    "(if int i > trim_ep cset (xs @ NUL # fr) (int (length xs) - 1) then 0
      else (trim_ep cset (xs @ NUL # fr) (int (length xs) - 1) - int i) + 1) = int k"
    "i + k \<le> length xs" "take k (drop i xs) = trimmed cset xs"
    using trim_bounds [of cset xs "NUL # fr"] by metis
  obtain b where b: "(if int i \<noteq> 0 then rbind (region (drop i (xs @ NUL # fr)) (int k)) (put (mk_sds xs fr) 0)
        else Inr (mk_sds xs fr)) = Inr ((mk_sds xs fr)\<lparr>sh_buf := b\<rparr>)"
    "length b = length xs + length fr + 1" "take k b = take k (drop i xs)"
  proof (cases "i = 0")
    case True
    with that [of "xs @ NUL # fr"] ik(3) show ?thesis by (simp add: mk_sds_def)
  qed (use that move_mk [OF ik(3), of fr] in auto)
  have len: "sdslen (mk_sds xs fr) = int (length xs)" using s by simp
  show ?thesis
    using cut_mk [OF s(2) b(2), of k] ik(3,4) b(3)
    unfolding sdstrim_def Let_def s(1) len mk_sds_sel ik(1,2) nat_int b(1) rbind_simps by simp
qed

text \<open>The substring \<open>sdsrange\<close> keeps: negative positions count from the end, positions outside are
  clipped.\<close>

definition clip :: "int \<Rightarrow> int \<Rightarrow> int" where
  "clip n i = (if i < 0 then max 0 (n + i) else i)"

definition range_spec :: "char list \<Rightarrow> int \<Rightarrow> int \<Rightarrow> char list" where
  "range_spec xs start end =
     (let n = int (length xs) in
      if clip n start > clip n end then []
      else drop (nat (clip n start)) (take (nat (clip n end) + 1) xs))"

abbreviation is_int :: "int \<Rightarrow> bool" where
  "is_int x \<equiv> - 2147483648 \<le> x \<and> x < 2147483648"

lemma clip_range: "is_int i \<Longrightarrow> 0 < n \<Longrightarrow> n < 2147483648 \<Longrightarrow> 0 \<le> clip n i \<and> clip n i < 2147483648"
  by (auto simp: clip_def)

text \<open>The length \<open>(end-start)+1\<close> leaves the \<open>int\<close> range for the whole range only, and is not 0 then.\<close>

lemma wrapped_length:
  assumes "0 \<le> s" and "s \<le> e" and "e < 2147483648"
  shows "to_u64 (to_i32 (e - s + 1)) \<noteq> 0"
    and "e - s < 2147483647 \<Longrightarrow> to_u64 (to_i32 (e - s + 1)) = e - s + 1"
proof -
  have "e - s = 2147483647 \<Longrightarrow> to_u64 (to_i32 (e - s + 1)) \<noteq> 0"
    by (simp add: to_i32_def to_u64_def)
  moreover show "e - s < 2147483647 \<Longrightarrow> to_u64 (to_i32 (e - s + 1)) = e - s + 1"
    using assms by (simp add: cint)
  ultimately show "to_u64 (to_i32 (e - s + 1)) \<noteq> 0"
    using assms by (cases "e - s < 2147483647") auto
qed

lemma range_bounds_clip:
  assumes "is_int start" and "is_int end" and "0 < n" and "n < 2147483648"
  shows "range_bounds n start end =
    (let s = clip n start; e = clip n end in
     if s > e then (0, 0)
     else if s \<ge> n then (s, 0)
     else if e \<ge> n then (s, n - s)
     else (s, e - s + 1))"
proof -
  define s where "s = clip n start"
  define e where "e = clip n end"
  have s: "(if start < 0 then if to_i32 (n + start) < 0 then 0 else to_i32 (n + start) else start) = s"
    using assms by (auto simp: s_def clip_def Let_def cint)
  have e: "(if end < 0 then if to_i32 (n + end) < 0 then 0 else to_i32 (n + end) else end) = e"
    using assms by (auto simp: e_def clip_def Let_def cint)
  have r: "0 \<le> s" "s < 2147483648" "0 \<le> e" "e < 2147483648"
    using clip_range assms by (auto simp: s_def e_def)
  have i: "to_i32 n = n" "to_i32 (n - 1) = n - 1" using assms by (simp_all add: cint)
  have unf: "range_bounds n start end =
      (let newlen = (if s > e then 0 else to_u64 (to_i32 (e - s + 1)))
       in if newlen \<noteq> 0
          then if s \<ge> n then (s, 0)
               else if e \<ge> n then (s, if s > n - 1 then 0 else to_u64 (to_i32 (n - 1 - s + 1)))
               else (s, newlen)
          else (0, newlen))"
    unfolding range_bounds_def Let_def unfolding s e i by (rule refl)
  consider "s > e" | "s \<le> e" "s \<ge> n" | "s \<le> e" "s < n" "e \<ge> n" | "s \<le> e" "e < n" by linarith
  then show ?thesis
  proof cases
    case 3
    have "n - 1 < 2147483648" "n - 1 - s < 2147483647" "s \<le> n - 1" using 3 r assms(3,4) by auto
    with wrapped_length(2) [OF r(1), of "n - 1"] wrapped_length(1) [OF r(1) 3(1) r(4)] 3
    show ?thesis by (simp add: unf flip: s_def e_def)
  next
    case 4
    have "e - s < 2147483647" using 4 r assms(3,4) by auto
    with wrapped_length [OF r(1) 4(1) r(4)] 4 show ?thesis by (simp add: unf flip: s_def e_def)
  qed (use wrapped_length(1) [OF r(1) _ r(4)] in \<open>simp add: unf flip: s_def e_def\<close>)+
qed

lemma range_bounds_ok:
  assumes "is_int start" and "is_int end" and "xs \<noteq> []" and "length xs < 2147483648"
  shows "\<exists>i k. range_bounds (int (length xs)) start end = (int i, int k) \<and>
      (k \<noteq> 0 \<longrightarrow> i + k \<le> length xs) \<and> take k (drop i xs) = range_spec xs start end"
proof -
  let ?n = "int (length xs)"
  define i where "i = nat (clip ?n start)"
  define j where "j = nat (clip ?n end)"
  have n: "0 < ?n" "?n < 2147483648" using assms by auto
  have ij: "clip ?n start = int i" "clip ?n end = int j"
    using clip_range [OF assms(1) n] clip_range [OF assms(2) n] by (simp_all add: i_def j_def)
  have rb: "range_bounds ?n start end =
      (if i > j then (0, 0) else if i \<ge> length xs then (int i, 0)
       else if j \<ge> length xs then (int i, int (length xs - i)) else (int i, int (Suc j - i)))"
    using range_bounds_clip [OF assms(1,2) n] by (auto simp: ij Let_def of_nat_diff)
  have spec: "range_spec xs start end = (if i > j then [] else drop i (take (Suc j) xs))"
    by (auto simp: range_spec_def ij Let_def)
  consider "i > j" | "i \<le> j" "i \<ge> length xs" | "i < length xs" "j \<ge> length xs"
    | "i \<le> j" "j < length xs" by linarith
  then show ?thesis
  proof cases
    case 1
    then show ?thesis by (intro exI [of _ 0]) (simp add: rb spec)
  next
    case 2
    then show ?thesis by (intro exI [of _ i] exI [of _ "0::nat"] conjI) (simp_all add: rb spec)
  next
    case 3
    then show ?thesis by - (rule exI [of _ i], rule exI [of _ "length xs - i"], simp add: rb spec)
  next
    case 4
    then show ?thesis by - (rule exI [of _ i], rule exI [of _ "Suc j - i"], simp add: rb spec drop_take)
  qed
qed

lemma sdsrange_ok:
  assumes "sds_ok s" and "is_int start" and "is_int end"
  shows "yields (sdsrange s start end) (range_spec (sds_str s) start end)"
proof -
  obtain xs fr where s: "s = mk_sds xs fr" "length xs + length fr < 2147483648"
    using assms(1) by (rule sds_okE)
  show ?thesis
  proof (cases "xs = []")
    case True
    then show ?thesis using s by (simp add: sdsrange_def range_spec_def yields_iff)
  next
    case False
    then obtain i k where ik: "range_bounds (int (length xs)) start end = (int i, int k)"
      "k \<noteq> 0 \<longrightarrow> i + k \<le> length xs" "take k (drop i xs) = range_spec xs start end"
      using range_bounds_ok [OF assms(2,3) False] s(2) by auto
    obtain b where b: "(if int i \<noteq> 0 \<and> int k \<noteq> 0
          then rbind (region (drop i (xs @ NUL # fr)) (int k)) (put (mk_sds xs fr) 0)
          else Inr (mk_sds xs fr)) = Inr ((mk_sds xs fr)\<lparr>sh_buf := b\<rparr>)"
      "length b = length xs + length fr + 1" "take k b = take k (drop i xs)" "k \<le> length xs"
    proof (cases "i = 0 \<or> k = 0")
      case True
      with that [of "xs @ NUL # fr"] ik(2) show ?thesis by (cases "k = 0") (auto simp: mk_sds_def)
    next
      case False
      with ik(2) have "i + k \<le> length xs" by simp
      from move_mk [OF this, of fr] False this show ?thesis by (auto intro!: that)
    qed
    have len: "sdslen (mk_sds xs fr) = int (length xs)" using s by simp
    have "int (length xs) \<noteq> 0" using False by simp
    then show ?thesis
      using cut_mk [OF s(2) b(2,4)] ik(3) b(3)
      unfolding sdsrange_def Let_def s(1) len mk_sds_sel ik(1) prod.case nat_int b(1) rbind_simps
      by simp
  qed
qed

text \<open>The byte-wise rewriting operations.\<close>

lemma fold_update_mk:
  assumes "length xs = n"
  shows "(mk_sds xs fr)\<lparr>sh_buf := fold (\<lambda>j b. b[j := f (b ! j)]) [0..<n] (xs @ NUL # fr)\<rparr> =
    mk_sds (map f xs) fr"
  using assms by (simp add: fold_update_map mk_sds_def)

lemma sdsmap_mk:
  assumes "length xs + length fr < 2147483648"
  shows "sdstolower (mk_sds xs fr) = mk_sds (map tolower xs) fr"
    and "sdstoupper (mk_sds xs fr) = mk_sds (map toupper xs) fr"
    and "sdsmapchars (mk_sds xs fr) from to n = mk_sds (map (mapchar from to n) xs) fr"
  using assms fold_update_mk [OF refl, where xs = xs and fr = fr]
  by (simp_all add: sdstolower_def sdstoupper_def sdsmapchars_def cint)

text \<open>\<open>sdscmp\<close> is the lexicographic order on unsigned bytes.\<close>

abbreviation byte_less :: "(char \<times> char) set" where
  "byte_less \<equiv> {(a, b). uchar a < uchar b}"

lemma memcmp_lexord:
  assumes "length xs = length ys"
  shows "memcmp xs ys < 0 \<longleftrightarrow> (xs @ us, ys @ vs) \<in> lexord byte_less \<and> xs \<noteq> ys"
  using assms by (induction xs ys rule: list_induct2) auto

lemma memcmp_0: "length xs = length ys \<Longrightarrow> memcmp xs ys = 0 \<longleftrightarrow> xs = ys"
  by (induction xs ys rule: list_induct2) auto

lemma lexord_prefix:
  "us = [] \<or> vs = [] \<Longrightarrow> (xs @ us, xs @ vs) \<in> lexord byte_less \<longleftrightarrow> us = [] \<and> vs \<noteq> []"
  by (induction xs) (auto simp: neq_Nil_conv)

lemma sdscmp_law:
  assumes "sds_ok s" and "sds_ok t"
  shows "(sdscmp s t < 0 \<longleftrightarrow> (sds_str s, sds_str t) \<in> lexord byte_less) \<and>
    (sdscmp s t = 0 \<longleftrightarrow> sds_str s = sds_str t)"
proof -
  obtain xs fr where s: "s = mk_sds xs fr" "length xs + length fr < 2147483648"
    using assms(1) by (rule sds_okE)
  obtain ys gr where t: "t = mk_sds ys gr" "length ys + length gr < 2147483648"
    using assms(2) by (rule sds_okE)
  define n where "n = min (length xs) (length ys)"
  let ?a = "take n xs" and ?b = "take n ys" and ?us = "drop n xs" and ?vs = "drop n ys"
  have eq: "sdscmp s t = (if memcmp ?a ?b = 0 then int (length xs) - int (length ys) else memcmp ?a ?b)"
    using s t by (auto simp: sdscmp_def Let_def cint n_def min_def)
  have len: "length ?a = length ?b" by (simp add: n_def)
  have m: "memcmp ?a ?b < 0 \<longleftrightarrow> (xs, ys) \<in> lexord byte_less \<and> ?a \<noteq> ?b"
    using memcmp_lexord [OF len, of ?us ?vs] unfolding append_take_drop_id .
  have v: "?us = [] \<or> ?vs = []" by (auto simp: n_def)
  have "?us = [] \<and> ?vs \<noteq> [] \<longleftrightarrow> length xs < length ys" by (auto simp: n_def)
  with lexord_prefix [OF v, of ?b]
  have pre: "?a = ?b \<Longrightarrow> (xs, ys) \<in> lexord byte_less \<longleftrightarrow> length xs < length ys"
    by (metis append_take_drop_id)
  have 1: "sdscmp s t < 0 \<longleftrightarrow> (sds_str s, sds_str t) \<in> lexord byte_less"
    using m memcmp_0 [OF len] pre s t unfolding eq by auto
  have "xs = ys \<longleftrightarrow> ?a = ?b \<and> length xs = length ys"
    using n_def by (metis append_eq_conv_conj append_take_drop_id min.idem take_all_iff order_refl)
  then have "sdscmp s t = 0 \<longleftrightarrow> sds_str s = sds_str t"
    using memcmp_0 [OF len] s t unfolding eq by auto
  with 1 show ?thesis by simp
qed

text \<open>
  C10. \<open>sdscmp\<close> orders strings lexicographically by unsigned bytes, a proper prefix first, and returns 0
  for equal strings only (embedded NUL bytes take part in the comparison).
\<close>

theorem sdscmp_lexicographic:
  assumes "sds_ok s" and "sds_ok t"
  shows "(sdscmp s t < 0 \<longleftrightarrow> (sds_str s, sds_str t) \<in> lexord byte_less) \<and>
    (sdscmp s t = 0 \<longleftrightarrow> sds_str s = sds_str t)"
  using assms by (rule sdscmp_law)

theorem sdscmp_lexicographic_witness:
  "sdscmp (mk_sds [NUL, CHR ''a''] []) (mk_sds [NUL, CHR 0xFF] []) < 0 \<longleftrightarrow>
     ([NUL, CHR ''a''], [NUL, CHR 0xFF]) \<in> lexord byte_less"
  using sdscmp_lexicographic [of "mk_sds [NUL, CHR ''a''] []" "mk_sds [NUL, CHR 0xFF] []"] by simp


section \<open>Splitting on a separator\<close>

text \<open>
  The loop of \<open>sdssplitlen\<close> over the \<open>len\<close> bytes \<open>s\<close>, for a separator of \<open>m + 1\<close> bytes: the
  token array has \<open>slots\<close> cells, and storing a token behind them is a write overflow. The result
  is the start of the last token, the number of cells and the tokens so far.
\<close>

function split_loop ::
    "(nat \<Rightarrow> char) \<Rightarrow> char list \<Rightarrow> char list \<Rightarrow> nat \<Rightarrow> nat \<Rightarrow> nat \<Rightarrow> int \<Rightarrow> sdshdr list \<Rightarrow>
     (sds_error, nat \<times> int \<times> sdshdr list) result"
where
  "split_loop g s sep m j start slots tokens =
     (if j + m < length s
      then let elements = int (length tokens);
               slots = (if slots < elements + 2 then to_i32 (slots * 2) else slots)
           in if (m = 0 \<and> s ! j = sep ! 0) \<or> memcmp (take (m + 1) (drop j s)) sep = 0
              then if elements < slots
                   then rbind (sdsnewlen g (Some (drop start s)) (int j - int start)) (\<lambda>t.
                          split_loop g s sep m (j + m + 1) (j + m + 1) slots (tokens @ [t]))
                   else Inl WriteOverflow
              else split_loop g s sep m (j + 1) start slots tokens
      else Inr (start, slots, tokens))"
  by pat_completeness auto
termination
  by (relation "measure (\<lambda>(g, s, sep, m, j, start, slots, tokens). length s - j)") auto

declare split_loop.simps [simp del]

definition sdssplitlen ::
    "(nat \<Rightarrow> char) \<Rightarrow> char list \<Rightarrow> int \<Rightarrow> char list \<Rightarrow> int \<Rightarrow> (sds_error, sdshdr list option) result"
where
  "sdssplitlen g s len sep seplen =
     (if seplen < 1 \<or> len < 0 then Inr None
      else if len = 0 then Inr (Some [])
      else rbind (region s len) (\<lambda>s. rbind (region sep seplen) (\<lambda>sep.
           rbind (split_loop g s sep (nat seplen - 1) 0 0 5 []) (\<lambda>(start, slots, tokens).
             if int (length tokens) < slots
             then rbind (sdsnewlen g (Some (drop start s)) (len - int start)) (\<lambda>t.
                    Inr (Some (tokens @ [t])))
             else Inl WriteOverflow))))"

text \<open>The reference: cut at the leftmost occurrence, and go on behind it. \<open>acc\<close> is the token so far.\<close>

function split_ref :: "char list \<Rightarrow> nat \<Rightarrow> char list \<Rightarrow> char list \<Rightarrow> char list list" where
  "split_ref sep m acc s =
     (if length s \<le> m then [acc @ s]
      else if take (m + 1) s = sep then acc # split_ref sep m [] (drop (m + 1) s)
      else split_ref sep m (acc @ [hd s]) (tl s))"
  by pat_completeness auto
termination
  by (relation "measure (\<lambda>(sep, m, acc, s). length s)") auto

declare split_ref.simps [simp del]

lemma memcmp_eq_iff: "length sep = m + 1 \<Longrightarrow> j + m < length s \<Longrightarrow>
    (m = 0 \<and> s ! j = sep ! 0) \<or> memcmp (take (m + 1) (drop j s)) sep = 0 \<longleftrightarrow> take (m + 1) (drop j s) = sep"
  using memcmp_0 [of "take (m + 1) (drop j s)" sep]
  by (cases sep) (auto simp: Cons_nth_drop_Suc [symmetric])

text \<open>The loop cuts as the reference does, and the token array always has room for one more.\<close>

lemma split_loop_ref:
  assumes "length sep = m + 1" and "length s < 536870912" and "start \<le> j" and "j \<le> length s"
    and "int (length toks) < slots" and "slots \<le> 2 * int (length toks) + 5" and "length toks \<le> j"
  shows "\<exists>start' slots' ys. split_loop g s sep m j start slots toks =
      Inr (start', slots', toks @ map (\<lambda>y. mk_sds y []) ys) \<and> start' \<le> length s \<and>
      split_ref sep m (take (j - start) (drop start s)) (drop j s) = ys @ [drop start' s] \<and>
      int (length toks + length ys) < slots'"
  using assms(3-)
proof (induction "length s - j" arbitrary: j start slots toks rule: less_induct)
  case less
  let ?acc = "take (j - start) (drop start s)"
  show ?case
  proof (cases "j + m < length s")
    case False
    have "drop j s = drop (j - start) (drop start s)" using less.prems(1) by simp
    then have "?acc @ drop j s = drop start s" by (metis append_take_drop_id)
    moreover have "length s - j \<le> m" using False by linarith
    ultimately have "split_ref sep m ?acc (drop j s) = [drop start s]" by (subst split_ref.simps) simp
    with False less.prems show ?thesis
      by (intro exI [of _ start] exI [of _ slots] exI [of _ "[]"]) (simp add: split_loop.simps [of g s])
  next
    case True
    have gt: "\<not> length s - j \<le> m" using True by linarith
    define sl where "sl = (if slots < int (length toks) + 2 then to_i32 (slots * 2) else slots)"
    have sl: "int (length toks) + 1 < sl" "sl \<le> 2 * int (length toks) + 5"
      using less.prems(3-) assms(2) True by (auto simp: sl_def cint)
    have hit: "(m = 0 \<and> s ! j = sep ! 0) \<or> memcmp (take (m + 1) (drop j s)) sep = 0 \<longleftrightarrow>
        take (m + 1) (drop j s) = sep"
      using memcmp_eq_iff [OF assms(1) True] .
    show ?thesis
    proof (cases "take (m + 1) (drop j s) = sep")
      case True': True
      let ?t = "mk_sds ?acc []" and ?k = "j + m + 1"
      have dec: "length s - Suc (j + m) < length s - j" using True by linarith
      have new: "sdsnewlen g (Some (drop start s)) (int j - int start) = Inr ?t"
        using sdsnewlen_Some [of "j - start" "drop start s" g] less.prems(1,2) assms(2)
        by (simp add: of_nat_diff)
      have "split_loop g s sep m j start slots toks = split_loop g s sep m ?k ?k sl (toks @ [?t])"
        using True sl hit True' new
        by (subst split_loop.simps) (simp add: Let_def flip: sl_def)
      moreover obtain st' sl' ys where "split_loop g s sep m ?k ?k sl (toks @ [?t]) =
          Inr (st', sl', (toks @ [?t]) @ map (\<lambda>y. mk_sds y []) ys)" "st' \<le> length s"
        "split_ref sep m [] (drop ?k s) = ys @ [drop st' s]" "int (length (toks @ [?t]) + length ys) < sl'"
        using less.hyps [of ?k ?k "toks @ [?t]" sl] dec True sl less.prems(5) by auto
      moreover have "split_ref sep m ?acc (drop j s) = ?acc # split_ref sep m [] (drop ?k s)"
        using gt True' by (subst split_ref.simps) (simp add: add.commute add.left_commute)
      ultimately show ?thesis
        by (intro exI [of _ st'] exI [of _ sl'] exI [of _ "?acc # ys"]) simp
    next
      case False
      have "split_loop g s sep m j start slots toks = split_loop g s sep m (j + 1) start sl toks"
        using True hit False by (subst split_loop.simps) (auto simp: Let_def simp flip: sl_def)
      moreover have "?acc @ [hd (drop j s)] = take (j + 1 - start) (drop start s)"
        using less.prems(1) True by (simp add: hd_drop_conv_nth Suc_diff_le take_Suc_conv_app_nth)
      then have "split_ref sep m ?acc (drop j s) =
          split_ref sep m (take (j + 1 - start) (drop start s)) (drop (j + 1) s)"
        using gt False by (subst split_ref.simps) (simp add: drop_Suc tl_drop)
      ultimately show ?thesis
        using less.hyps [of "j + 1" start toks sl] True sl less.prems by simp
    qed
  qed
qed

fun join_with :: "char list \<Rightarrow> char list list \<Rightarrow> char list" where
  "join_with sep [] = []"
| "join_with sep [t] = t"
| "join_with sep (t # u # ts) = t @ sep @ join_with sep (u # ts)"

lemma split_ref_not_Nil [simp]: "split_ref sep m acc s \<noteq> []"
proof (induction sep m acc s rule: split_ref.induct)
  case (1 sep m acc s)
  then show ?case by (subst split_ref.simps) simp
qed

lemma join_with_Cons: "ts \<noteq> [] \<Longrightarrow> join_with sep (t # ts) = t @ sep @ join_with sep ts"
  by (cases ts) simp_all

lemma join_with_length: "t \<in> set ts \<Longrightarrow> length t \<le> length (join_with sep ts)"
  by (induction sep ts rule: join_with.induct) auto

lemma join_split_ref: "join_with sep (split_ref sep m acc s) = acc @ s"
proof (induction sep m acc s rule: split_ref.induct)
  case (1 sep m acc s)
  show ?case
  proof (cases "length s \<le> m")
    case False
    then have "[hd s] @ tl s = s" by (cases s) auto
    moreover have "take (m + 1) s = sep \<Longrightarrow> sep @ drop (m + 1) s = s" by (metis append_take_drop_id)
    ultimately show ?thesis using 1 False
      by (subst split_ref.simps) (auto simp: join_with_Cons)
  qed (simp add: split_ref.simps)
qed

text \<open>No occurrence of \<open>sep\<close> in \<open>xs\<close> starts before position \<open>n\<close>.\<close>

definition no_sep_before :: "char list \<Rightarrow> char list \<Rightarrow> nat \<Rightarrow> bool" where
  "no_sep_before sep xs n \<longleftrightarrow> (\<forall>i<n. take (length sep) (drop i xs) \<noteq> sep)"

lemma no_sep_sublist:
  assumes "no_sep_before sep (acc @ s) (length acc)" and "length s < length sep"
  shows "\<not> sublist sep (acc @ s)"
proof
  assume "sublist sep (acc @ s)"
  then obtain ps ss where e: "acc @ s = ps @ sep @ ss" by (auto simp: sublist_def)
  then have "length acc + length s = length ps + length sep + length ss" by (metis add.assoc length_append)
  then have "length ps < length acc" using assms(2) by linarith
  moreover have "take (length sep) (drop (length ps) (acc @ s)) = sep" unfolding e by simp
  ultimately show False using assms(1) by (auto simp: no_sep_before_def)
qed

lemma no_sep_take:
  assumes "no_sep_before sep (acc @ s) (length acc)" and "sep \<noteq> []"
  shows "\<not> sublist sep acc"
proof
  assume "sublist sep acc"
  then obtain ps ss where e: "acc = ps @ sep @ ss" by (auto simp: sublist_def)
  then have "length ps < length acc" "take (length sep) (drop (length ps) (acc @ s)) = sep"
    using assms(2) by auto
  then show False using assms(1) by (auto simp: no_sep_before_def)
qed

lemma split_ref_no_sep:
  "length sep = m + 1 \<Longrightarrow> no_sep_before sep (acc @ s) (length acc) \<Longrightarrow>
     t \<in> set (split_ref sep m acc s) \<Longrightarrow> \<not> sublist sep t"
proof (induction sep m acc s rule: split_ref.induct)
  case (1 sep m acc s)
  show ?case
  proof (cases "length s \<le> m")
    case True
    with 1 no_sep_sublist [of sep acc s] show ?thesis by (simp add: split_ref.simps [of sep m acc])
  next
    case False
    show ?thesis
    proof (cases "take (m + 1) s = sep")
      case True
      have "sep \<noteq> []" using "1.prems"(1) by auto
      moreover have "t = acc \<or> t \<in> set (split_ref sep m [] (drop (m + 1) s))"
        using "1.prems"(3) False True by (simp add: split_ref.simps [of sep m acc])
      moreover have "no_sep_before sep ([] @ drop (m + 1) s) (length [])" by (simp add: no_sep_before_def)
      ultimately show ?thesis
        using "1.IH"(1) [OF False True] "1.prems" no_sep_take by blast
    next
      case nt: False
      have s: "(acc @ [hd s]) @ tl s = acc @ s" using False by (cases s) auto
      have "no_sep_before sep (acc @ s) (length (acc @ [hd s]))"
        using "1.prems"(1,2) nt by (auto simp: no_sep_before_def less_Suc_eq)
      moreover have "t \<in> set (split_ref sep m (acc @ [hd s]) (tl s))"
        using "1.prems"(3) False nt by (simp add: split_ref.simps [of sep m acc])
      ultimately show ?thesis
        using "1.IH"(2) [OF False nt] "1.prems"(1) unfolding s by blast
    qed
  qed
qed

lemma sdssplitlen_law:
  assumes "s \<noteq> []" and "length s < 536870912" and "sep \<noteq> []" and "length sep < 2147483648"
  shows "\<exists>toks. sdssplitlen g s (int (length s)) sep (int (length sep)) = Inr (Some toks) \<and>
    (\<forall>t\<in>set toks. sds_ok t \<and> \<not> sublist sep (sds_str t)) \<and> join_with sep (map sds_str toks) = s"
proof -
  obtain m where m: "length sep = m + 1" using assms(3) by (cases sep) auto
  obtain st sl ys where l: "split_loop g s sep m 0 0 5 [] = Inr (st, sl, map (\<lambda>y. mk_sds y []) ys)"
    "st \<le> length s" "split_ref sep m [] s = ys @ [drop st s]" "int (length ys) < sl"
    using split_loop_ref [OF m assms(2), of 0 0 "[]" 5 g] by auto
  let ?ts = "ys @ [drop st s]"
  have "sdsnewlen g (Some (drop st s)) (int (length s) - int st) = Inr (mk_sds (drop st s) [])"
    using sdsnewlen_Some [of "length s - st" "drop st s" g] l(2) assms(2) by (simp add: of_nat_diff)
  then have res: "sdssplitlen g s (int (length s)) sep (int (length sep)) =
      Inr (Some (map (\<lambda>y. mk_sds y []) ?ts))"
    using assms(1) m l(1,4) by (simp add: sdssplitlen_def region_def flip: of_nat_Suc)
  have join: "join_with sep ?ts = s" using join_split_ref [of sep m "[]" s] l(3) by simp
  have none: "\<not> sublist sep t" if "t \<in> set ?ts" for t
    using split_ref_no_sep [OF m, of "[]" s t] that l(3) by (simp add: no_sep_before_def)
  have lens: "length t \<le> length s" if "t \<in> set ?ts" for t
    using join_with_length [OF that, of sep] join by simp
  show ?thesis
    using res join none lens assms(2)
    by (intro exI [of _ "map (\<lambda>y. mk_sds y []) ?ts"]) (fastforce simp: comp_def)
qed

text \<open>
  C8. \<open>sdssplitlen\<close> on a non-empty string (up to 512 MB, the limit of a value) and a non-empty
  separator: it succeeds, every store stays inside the token array, the tokens are well-formed
  strings that joined with the separator give the input back, and none of them contains the
  separator.
\<close>

theorem sdssplitlen_correct:
  assumes "s \<noteq> []" and "length s < 536870912" and "sep \<noteq> []" and "length sep < 2147483648"
  shows "\<exists>toks. sdssplitlen g s (int (length s)) sep (int (length sep)) = Inr (Some toks) \<and>
    (\<forall>t\<in>set toks. sds_ok t \<and> \<not> sublist sep (sds_str t)) \<and> join_with sep (map sds_str toks) = s"
  using assms by (rule sdssplitlen_law)

theorem sdssplitlen_correct_witness:
  "\<exists>toks. sdssplitlen (\<lambda>_. NUL) ''foo--bar-'' (int (length ''foo--bar-'')) ''--'' (int (length ''--'')) =
     Inr (Some toks) \<and> (\<forall>t\<in>set toks. sds_ok t \<and> \<not> sublist ''--'' (sds_str t)) \<and>
     join_with ''--'' (map sds_str toks) = ''foo--bar-''"
  by (rule sdssplitlen_correct) simp_all

section \<open>Quoted representation and argument splitting\<close>

definition sdsfromlonglong :: "(nat \<Rightarrow> char) \<Rightarrow> int \<Rightarrow> (sds_error, sdshdr) result" where
  "sdsfromlonglong g value = (let p = ll_text value in sdsnewlen g (Some p) (int (length p)))"

text \<open>The text of the format \<open>%02x\<close> for an \<open>unsigned char\<close>.\<close>

definition hex_digit :: "int \<Rightarrow> char" where
  "hex_digit d = mkchar (if d < 10 then 48 + d else 87 + d)"

definition fmt_02x :: "char \<Rightarrow> char list" where
  "fmt_02x c = [hex_digit (uchar c div 16), hex_digit (uchar c mod 16)]"

text \<open>The \<open>switch\<close> of \<open>sdscatrepr\<close> for one byte; \<open>0x07\<close> and \<open>0x08\<close> are the bell and the
  backspace.\<close>

definition sdscatrepr_char :: "(nat \<Rightarrow> char) \<Rightarrow> sdshdr \<Rightarrow> char \<Rightarrow> (sds_error, sdshdr) result" where
  "sdscatrepr_char g s c =
     (if c = CHR 0x5C \<or> c = CHR 0x22 then sdscatprintf g s [CHR 0x5C, c]
      else if c = CHR 0x0A then sdscatlen g s [CHR 0x5C, CHR ''n''] 2
      else if c = CHR 0x0D then sdscatlen g s [CHR 0x5C, CHR ''r''] 2
      else if c = CHR 0x09 then sdscatlen g s [CHR 0x5C, CHR ''t''] 2
      else if c = CHR 0x07 then sdscatlen g s [CHR 0x5C, CHR ''a''] 2
      else if c = CHR 0x08 then sdscatlen g s [CHR 0x5C, CHR ''b''] 2
      else if isprint c then sdscatprintf g s [c]
      else sdscatprintf g s ([CHR 0x5C, CHR ''x''] @ fmt_02x c))"

fun sdscatrepr_loop :: "(nat \<Rightarrow> char) \<Rightarrow> sdshdr \<Rightarrow> char list \<Rightarrow> (sds_error, sdshdr) result" where
  "sdscatrepr_loop g s [] = Inr s"
| "sdscatrepr_loop g s (c # p) = rbind (sdscatrepr_char g s c) (\<lambda>s. sdscatrepr_loop g s p)"

definition sdscatrepr :: "(nat \<Rightarrow> char) \<Rightarrow> sdshdr \<Rightarrow> char list \<Rightarrow> (sds_error, sdshdr) result" where
  "sdscatrepr g s p =
     rbind (sdscatlen g s [CHR 0x22] 1) (\<lambda>s.
     rbind (sdscatrepr_loop g s p) (\<lambda>s. sdscatlen g s [CHR 0x22] 1))"

definition is_hex_digit :: "char \<Rightarrow> bool" where
  "is_hex_digit c \<longleftrightarrow> (schar c \<ge> 48 \<and> schar c \<le> 57) \<or> (schar c \<ge> 97 \<and> schar c \<le> 102) \<or>
     (schar c \<ge> 65 \<and> schar c \<le> 70)"

definition hex_digit_to_int :: "char \<Rightarrow> int" where
  "hex_digit_to_int c =
     (case find (\<lambda>(a, v). c = a)
        [(CHR ''0'', 0), (CHR ''1'', 1), (CHR ''2'', 2), (CHR ''3'', 3), (CHR ''4'', 4),
         (CHR ''5'', 5), (CHR ''6'', 6), (CHR ''7'', 7), (CHR ''8'', 8), (CHR ''9'', 9),
         (CHR ''a'', 10), (CHR ''A'', 10), (CHR ''b'', 11), (CHR ''B'', 11), (CHR ''c'', 12),
         (CHR ''C'', 12), (CHR ''d'', 13), (CHR ''D'', 13), (CHR ''e'', 14), (CHR ''E'', 14),
         (CHR ''f'', 15), (CHR ''F'', 15)]
      of None \<Rightarrow> 0 | Some (a, v) \<Rightarrow> v)"

text \<open>
  \<open>sdssplitargs\<close> walks a C string; a pointer into it is the list of the bytes that are left, and
  \<open>peek\<close> reads the byte it points to. One round of the token loop decides on one of four
  actions: fail, finish the token, switch the quoting flags, or append a byte and leave the
  pointer at the last byte consumed (\<open>if (*p) p++\<close> follows).
\<close>

definition peek :: "char list \<Rightarrow> char" where
  "peek p = (case p of [] \<Rightarrow> NUL | c # _ \<Rightarrow> c)"

datatype args_action = Fail | Finish | Quote bool bool | Push char "char list"

definition inq_action :: "char list \<Rightarrow> args_action" where
  "inq_action p =
     (let c0 = peek p; c1 = peek (drop 1 p) in
      if c0 = CHR 0x5C \<and> c1 = CHR ''x'' \<and> is_hex_digit (peek (drop 2 p)) \<and> is_hex_digit (peek (drop 3 p))
      then Push (mkchar ((hex_digit_to_int (peek (drop 2 p)) * 16 + hex_digit_to_int (peek (drop 3 p))) mod 256))
             (drop 3 p)
      else if c0 = CHR 0x5C \<and> c1 \<noteq> NUL
      then Push (if c1 = CHR ''n'' then CHR 0x0A
                 else if c1 = CHR ''r'' then CHR 0x0D
                 else if c1 = CHR ''t'' then CHR 0x09
                 else if c1 = CHR ''b'' then CHR 0x08
                 else if c1 = CHR ''a'' then CHR 0x07
                 else c1) (drop 1 p)
      else if c0 = CHR 0x22 then (if c1 \<noteq> NUL \<and> \<not> isspace c1 then Fail else Finish)
      else if c0 = NUL then Fail
      else Push c0 p)"

definition insq_action :: "char list \<Rightarrow> args_action" where
  "insq_action p =
     (let c0 = peek p; c1 = peek (drop 1 p) in
      if c0 = CHR 0x5C \<and> c1 = CHR 0x27 then Push (CHR 0x27) (drop 1 p)
      else if c0 = CHR 0x27 then (if c1 \<noteq> NUL \<and> \<not> isspace c1 then Fail else Finish)
      else if c0 = NUL then Fail
      else Push c0 p)"

definition plain_action :: "char list \<Rightarrow> args_action" where
  "plain_action p =
     (let c0 = peek p in
      if c0 = CHR '' '' \<or> c0 = CHR 0x0A \<or> c0 = CHR 0x0D \<or> c0 = CHR 0x09 \<or> c0 = NUL then Finish
      else if c0 = CHR 0x22 then Quote True False
      else if c0 = CHR 0x27 then Quote False True
      else Push c0 p)"

definition args_step :: "bool \<Rightarrow> bool \<Rightarrow> char list \<Rightarrow> args_action" where
  "args_step inq insq p =
     (if inq then inq_action p else if insq then insq_action p else plain_action p)"

lemma peek_simps [simp]: "peek [] = NUL" "peek (c # p) = c"
  by (simp_all add: peek_def)

lemma args_step_Push: "args_step inq insq p = Push c q \<Longrightarrow> p \<noteq> [] \<and> length q \<le> length p"
  by (cases p) (auto simp: args_step_def inq_action_def insq_action_def plain_action_def Let_def split: if_splits)

lemma args_step_Quote: "args_step inq insq p = Quote i s \<Longrightarrow> p \<noteq> []"
  by (cases p) (auto simp: args_step_def inq_action_def insq_action_def plain_action_def Let_def split: if_splits)

function args_token ::
    "(nat \<Rightarrow> char) \<Rightarrow> bool \<Rightarrow> bool \<Rightarrow> sdshdr \<Rightarrow> char list \<Rightarrow> (sds_error, (sdshdr \<times> char list) option) result"
where
  "args_token g inq insq cur p =
     (case args_step inq insq p of
        Fail \<Rightarrow> Inr None
      | Finish \<Rightarrow> Inr (Some (cur, drop 1 p))
      | Quote i s \<Rightarrow> args_token g i s cur (drop 1 p)
      | Push c q \<Rightarrow> rbind (sdscatlen g cur [c] 1) (\<lambda>cur. args_token g inq insq cur (drop 1 q)))"
  by pat_completeness auto
termination
proof (relation "measure (\<lambda>(g, inq, insq, cur, p). length p)", goal_cases)
  case (2 g inq insq cur p i s)
  then show ?case using args_step_Quote [of inq insq p i s] by (cases p) auto
next
  case (3 g inq insq cur p c q cur')
  then show ?case using args_step_Push [of inq insq p c q] by (cases p) auto
qed simp

declare args_token.simps [simp del]

lemma args_token_shorter:
  "args_token g inq insq cur p = Inr (Some (cur', q)) \<Longrightarrow>
     length q \<le> length p \<and> (args_step inq insq p \<noteq> Finish \<or> p \<noteq> [] \<longrightarrow> length q < length p)"
proof (induction g inq insq cur p rule: args_token.induct)
  case (1 g inq insq cur p)
  show ?case
  proof (cases "args_step inq insq p")
    case Fail
    then show ?thesis using "1.prems" by (simp add: args_token.simps [of g inq])
  next
    case Finish
    then show ?thesis using "1.prems" by (cases p) (auto simp: args_token.simps [of g inq])
  next
    case (Quote i s)
    with "1.prems" have "args_token g i s cur (drop 1 p) = Inr (Some (cur', q))"
      by (simp add: args_token.simps [of g inq])
    with "1.IH"(1) [OF Quote] args_step_Quote [OF Quote] show ?thesis by (cases p) auto
  next
    case (Push c r)
    with "1.prems" obtain cur1 where "args_token g inq insq cur1 (drop 1 r) = Inr (Some (cur', q))"
      "sdscatlen g cur [c] 1 = Inr cur1"
      by (auto simp: args_token.simps [of g inq] rbind_eq_Inr)
    with "1.IH"(2) [OF Push] args_step_Push [OF Push] show ?thesis by (cases p) auto
  qed
qed

text \<open>The outer loop: \<open>vector\<close> holds the tokens so far; \<open>None\<close> is the \<open>NULL\<close> of the \<open>err\<close> label.\<close>

function args_loop ::
    "(nat \<Rightarrow> char) \<Rightarrow> sdshdr list \<Rightarrow> char list \<Rightarrow> (sds_error, sdshdr list option) result"
where
  "args_loop g vector p0 =
     (let p = dropWhile isspace p0 in
      if p \<noteq> []
      then rbind (sdsempty g) (\<lambda>current.
           rbind (args_token g False False current p) (\<lambda>r.
             case r of
               None \<Rightarrow> Inr None
             | Some (current, q) \<Rightarrow> args_loop g (vector @ [current]) q))
      else Inr (Some vector))"
  by pat_completeness auto
termination
proof (relation "measure (\<lambda>(g, vector, p). length p)", goal_cases)
  case (2 g vector p0 p cur0 r x cur q)
  then have "length q < length p" using args_token_shorter by blast
  also have "length p \<le> length p0" using 2 by (simp add: length_dropWhile_le)
  finally show ?case by simp
qed simp

declare args_loop.simps [simp del]

definition sdssplitargs :: "(nat \<Rightarrow> char) \<Rightarrow> char list \<Rightarrow> (sds_error, sdshdr list option) result" where
  "sdssplitargs g line = args_loop g [] (cstr line)"

section \<open>Appending through an interface\<close>

text \<open>
  What the clients of the string buffer rely on: an append operation for raw bytes and one for
  formatted text, both of which succeed below a limit and extend the contents at the end.
\<close>

datatype piece = Raw "char list" | Fmt "char list"

fun piece_text :: "piece \<Rightarrow> char list" where
  "piece_text (Raw t) = t"
| "piece_text (Fmt t) = t"

fun emit_piece :: "('b \<Rightarrow> char list \<Rightarrow> ('e, 'b) result) \<Rightarrow> ('b \<Rightarrow> char list \<Rightarrow> ('e, 'b) result) \<Rightarrow>
    'b \<Rightarrow> piece \<Rightarrow> ('e, 'b) result" where
  "emit_piece cat print b (Raw t) = cat b t"
| "emit_piece cat print b (Fmt t) = print b t"

fun emit :: "('b \<Rightarrow> char list \<Rightarrow> ('e, 'b) result) \<Rightarrow> ('b \<Rightarrow> char list \<Rightarrow> ('e, 'b) result) \<Rightarrow>
    'b \<Rightarrow> piece list \<Rightarrow> ('e, 'b) result" where
  "emit cat print b [] = Inr b"
| "emit cat print b (x # xs) = rbind (emit_piece cat print b x) (\<lambda>b. emit cat print b xs)"

definition printable :: "piece \<Rightarrow> bool" where
  "printable x \<longleftrightarrow> (case x of Raw _ \<Rightarrow> True | Fmt t \<Rightarrow> NUL \<notin> set t)"

locale strbuf =
  fixes cat :: "'b \<Rightarrow> char list \<Rightarrow> ('e, 'b) result"
    and print :: "'b \<Rightarrow> char list \<Rightarrow> ('e, 'b) result"
    and ok :: "'b \<Rightarrow> bool"
    and str :: "'b \<Rightarrow> char list"
    and limit :: int
  assumes cat_law: "ok b \<Longrightarrow> int (length (str b) + length t) < limit \<Longrightarrow>
      \<exists>b'. cat b t = Inr b' \<and> ok b' \<and> str b' = str b @ t"
    and print_law: "ok b \<Longrightarrow> NUL \<notin> set t \<Longrightarrow> int (length (str b) + length t) < limit \<Longrightarrow>
      \<exists>b'. print b t = Inr b' \<and> ok b' \<and> str b' = str b @ t"
begin

lemma emit_piece_law:
  assumes "ok b" and "printable x" and "int (length (str b) + length (piece_text x)) < limit"
  shows "\<exists>b'. emit_piece cat print b x = Inr b' \<and> ok b' \<and> str b' = str b @ piece_text x"
  using assms cat_law print_law by (cases x) (auto simp: printable_def)

lemma emit_law:
  assumes "ok b" and "\<forall>x\<in>set xs. printable x"
    and "int (length (str b) + length (concat (map piece_text xs))) < limit"
  shows "\<exists>b'. emit cat print b xs = Inr b' \<and> ok b' \<and> str b' = str b @ concat (map piece_text xs)"
  using assms
proof (induction xs arbitrary: b)
  case (Cons x xs)
  then obtain b1 where b1: "emit_piece cat print b x = Inr b1" "ok b1" "str b1 = str b @ piece_text x"
    using emit_piece_law [of b x] by auto
  with Cons.IH [of b1] Cons.prems show ?case by auto
qed simp

end

interpretation sds: strbuf "\<lambda>s t. sdscatlen g s t (int (length t))" "sdscatprintf g" sds_ok sds_str SDS_LIMIT
  for g
proof (unfold_locales, goal_cases)
  case (1 b t)
  then show ?case using sdscatlen_ok [of b "length t" t g] by (simp add: yields_iff)
next
  case (2 b t)
  then show ?case using sdscatprintf_ok [of b t g] by (simp add: yields_iff cstr_id)
qed

section \<open>The quoted representation is read back\<close>

definition repr_piece :: "char \<Rightarrow> piece" where
  "repr_piece c =
     (if c = CHR 0x5C \<or> c = CHR 0x22 then Fmt [CHR 0x5C, c]
      else if c = CHR 0x0A then Raw [CHR 0x5C, CHR ''n'']
      else if c = CHR 0x0D then Raw [CHR 0x5C, CHR ''r'']
      else if c = CHR 0x09 then Raw [CHR 0x5C, CHR ''t'']
      else if c = CHR 0x07 then Raw [CHR 0x5C, CHR ''a'']
      else if c = CHR 0x08 then Raw [CHR 0x5C, CHR ''b'']
      else if isprint c then Fmt [c]
      else Fmt ([CHR 0x5C, CHR ''x''] @ fmt_02x c))"

abbreviation repr_text :: "char \<Rightarrow> char list" where
  "repr_text c \<equiv> piece_text (repr_piece c)"

definition quoted :: "char list \<Rightarrow> char list" where
  "quoted p = CHR 0x22 # concat (map repr_text p) @ [CHR 0x22]"

lemma nibble_cases:
  assumes "0 \<le> d" and "d < (16::int)"
  shows "d = 0 \<or> d = 1 \<or> d = 2 \<or> d = 3 \<or> d = 4 \<or> d = 5 \<or> d = 6 \<or> d = 7 \<or> d = 8 \<or> d = 9 \<or>
    d = 10 \<or> d = 11 \<or> d = 12 \<or> d = 13 \<or> d = 14 \<or> d = 15"
  using assms by presburger

lemma uchar_nibbles:
  "0 \<le> uchar c div 16" "uchar c div 16 < 16" "0 \<le> uchar c mod 16" "uchar c mod 16 < 16"
  using uchar_range [of c] by presburger+

lemma hex_digit_read:
  assumes "0 \<le> d" and "d < 16"
  shows "is_hex_digit (hex_digit d) \<and> hex_digit_to_int (hex_digit d) = d \<and> hex_digit d \<noteq> NUL"
  using nibble_cases [OF assms]
  by (elim disjE; simp; code_simp)

lemma repr_piece_printable: "printable (repr_piece c)"
proof -
  have "NUL \<notin> set (fmt_02x c)" 
    using hex_digit_read [OF uchar_nibbles(1,2) [of c]] hex_digit_read [OF uchar_nibbles(3,4) [of c]]
    by (auto simp: fmt_02x_def)
  moreover have "isprint c \<Longrightarrow> c \<noteq> NUL" by (auto simp: isprint_def NUL_iff)
  ultimately show ?thesis by (auto simp: printable_def repr_piece_def)
qed

lemma sdscatrepr_char_emit:
  "sdscatrepr_char g s c = emit_piece (\<lambda>s t. sdscatlen g s t (int (length t))) (sdscatprintf g) s (repr_piece c)"
  by (simp add: sdscatrepr_char_def repr_piece_def)

lemma sdscatrepr_loop_emit:
  "sdscatrepr_loop g s p = emit (\<lambda>s t. sdscatlen g s t (int (length t))) (sdscatprintf g) s (map repr_piece p)"
  by (induction p arbitrary: s) (simp_all add: sdscatrepr_char_emit)

lemma emit_append: "emit cat print b (xs @ ys) = rbind (emit cat print b xs) (\<lambda>b. emit cat print b ys)"
  by (induction xs arbitrary: b) (auto simp: rbind_def split: sum.split)

lemma rbind_Inr [simp]: "rbind r Inr = r"
  by (cases r) simp_all

lemma sdscatrepr_emit:
  "sdscatrepr g s p = emit (\<lambda>s t. sdscatlen g s t (int (length t))) (sdscatprintf g) s
     (Raw [CHR 0x22] # map repr_piece p @ [Raw [CHR 0x22]])"
  by (simp add: sdscatrepr_def sdscatrepr_loop_emit emit_append)

lemma sdscatrepr_ok:
  assumes "sds_ok s" and "int (length (sds_str s) + length (quoted p)) < SDS_LIMIT"
  shows "yields (sdscatrepr g s p) (sds_str s @ quoted p)"
  using sds.emit_law [of s "Raw [CHR 0x22] # map repr_piece p @ [Raw [CHR 0x22]]" g] assms
    repr_piece_printable
  unfolding sdscatrepr_emit yields_iff by (auto simp: quoted_def printable_def comp_def)

text \<open>One byte of the representation is one round of the parser.\<close>

lemma inq_hex:
  "inq_action ([CHR 0x5C, CHR ''x''] @ fmt_02x c @ rest) = Push c (hex_digit (uchar c mod 16) # rest)"
  using hex_digit_read [OF uchar_nibbles(1,2) [of c]] hex_digit_read [OF uchar_nibbles(3,4) [of c]]
  by (simp add: inq_action_def fmt_02x_def Let_def)

lemma inq_repr: "\<exists>q. inq_action (repr_text c @ rest) = Push c q \<and> drop 1 q = rest"
proof (cases "c \<in> {CHR 0x5C, CHR 0x22, CHR 0x0A, CHR 0x0D, CHR 0x09, CHR 0x07, CHR 0x08}")
  case True
  then show ?thesis
    unfolding insert_iff empty_iff by (elim disjE; simp add: repr_piece_def inq_action_def Let_def)
next
  case False
  then have piece: "repr_piece c = (if isprint c then Fmt [c] else Fmt ([CHR 0x5C, CHR ''x''] @ fmt_02x c))"
    by (simp add: repr_piece_def)
  show ?thesis
  proof (cases "isprint c")
    case True
    then have "c \<noteq> NUL" by (auto simp: isprint_def NUL_iff)
    with True False show ?thesis by (simp add: piece inq_action_def Let_def)
  next
    case False
    then show ?thesis using inq_hex [of c rest] by (simp add: piece)
  qed
qed

definition args_end :: "char list \<Rightarrow> bool" where
  "args_end rest \<longleftrightarrow> rest = [] \<or> isspace (hd rest)"

lemma args_token_repr:
  assumes "args_end rest"
  shows "sds_ok cur \<Longrightarrow> int (length (sds_str cur) + length p) < SDS_LIMIT \<Longrightarrow>
    \<exists>cur'. args_token g True False cur (concat (map repr_text p) @ CHR 0x22 # rest) =
        Inr (Some (cur', rest)) \<and> sds_ok cur' \<and> sds_str cur' = sds_str cur @ p"
proof (induction p arbitrary: cur)
  case Nil
  have "args_step True False (CHR 0x22 # rest) = Finish"
    using assms by (cases rest) (auto simp: args_step_def inq_action_def args_end_def Let_def)
  then show ?case using Nil by (subst args_token.simps) simp
next
  case (Cons c p)
  let ?rest = "concat (map repr_text p) @ CHR 0x22 # rest"
  obtain q where q: "args_step True False (repr_text c @ ?rest) = Push c q" "drop 1 q = ?rest"
    using inq_repr [of c ?rest] by (auto simp: args_step_def)
  obtain cur1 where c1: "sdscatlen g cur [c] 1 = Inr cur1" "sds_ok cur1" "sds_str cur1 = sds_str cur @ [c]"
    using sds.cat_law [of cur "[c]" g] Cons.prems by auto
  have "args_token g True False cur (concat (map repr_text (c # p)) @ CHR 0x22 # rest) =
      args_token g True False cur1 ?rest"
    using q c1 by (subst args_token.simps) simp
  then show ?case using Cons.IH [of cur1] Cons.prems c1 by auto
qed

lemma quoted_no_NUL: "NUL \<notin> set (quoted p)"
proof -
  have "NUL \<notin> set (repr_text c)" for c
    using repr_piece_printable [of c] by (auto simp: repr_piece_def printable_def)
  then show ?thesis by (auto simp: quoted_def)
qed

lemma args_token_quoted:
  assumes "args_end rest" and "int (length p) < SDS_LIMIT"
  shows "\<exists>cur. args_token g False False (mk_sds [] []) (quoted p @ rest) = Inr (Some (cur, rest)) \<and>
    sds_ok cur \<and> sds_str cur = p"
proof -
  have "args_token g False False (mk_sds [] []) (quoted p @ rest) =
      args_token g True False (mk_sds [] []) (concat (map repr_text p) @ CHR 0x22 # rest)"
    by (subst args_token.simps) (simp add: quoted_def args_step_def plain_action_def Let_def)
  with args_token_repr [OF assms(1), of "mk_sds [] []" p g] assms(2) show ?thesis by auto
qed

lemma dropWhile_quoted: "dropWhile isspace (quoted p @ rest) = quoted p @ rest"
  by (simp add: quoted_def isspace_def uchar_def)

lemma args_loop_blank: "args_loop g vec (CHR '' '' # p) = args_loop g vec p"
proof -
  have "isspace (CHR '' '')" by (simp add: isspace_def)
  then show ?thesis by (subst (1 2) args_loop.simps) simp
qed

lemma args_loop_quoted:
  assumes "\<forall>p\<in>set args. int (length p) < SDS_LIMIT"
  shows "\<exists>toks. args_loop g vec (join_with '' '' (map quoted args)) = Inr (Some (vec @ toks)) \<and>
    map sds_str toks = args \<and> (\<forall>t\<in>set toks. sds_ok t)"
  using assms
proof (induction args arbitrary: vec)
  case Nil
  then show ?case by (subst args_loop.simps) simp
next
  case (Cons p args)
  define rest where "rest = (if args = [] then [] else CHR '' '' # join_with '' '' (map quoted args))"
  have line: "join_with '' '' (map quoted (p # args)) = quoted p @ rest"
    by (cases args) (simp_all add: rest_def)
  have "args_end rest" by (simp add: rest_def args_end_def isspace_def)
  then obtain cur where c: "args_token g False False (mk_sds [] []) (quoted p @ rest) = Inr (Some (cur, rest))"
    "sds_ok cur" "sds_str cur = p"
    using args_token_quoted [of rest p g] Cons.prems by auto
  have "args_loop g vec (quoted p @ rest) = args_loop g (vec @ [cur]) rest"
    using c by (subst args_loop.simps) (simp add: dropWhile_quoted sdsempty_ok, simp add: quoted_def)
  moreover have "args_loop g v rest = args_loop g v (join_with '' '' (map quoted args))" for v
    by (simp add: rest_def args_loop_blank)
  moreover obtain toks where
    "args_loop g (vec @ [cur]) (join_with '' '' (map quoted args)) = Inr (Some ((vec @ [cur]) @ toks))"
    "map sds_str toks = args" "\<forall>t\<in>set toks. sds_ok t"
    using Cons.IH [of "vec @ [cur]"] Cons.prems by auto
  ultimately show ?case
    using c line by (intro exI [of _ "cur # toks"]) simp
qed

lemma join_no_NUL: "\<forall>t\<in>set ts. NUL \<notin> set t \<Longrightarrow> NUL \<notin> set sep \<Longrightarrow> NUL \<notin> set (join_with sep ts)"
  by (induction sep ts rule: join_with.induct) auto

text \<open>
  C7. Quoting and splitting are inverse: \<open>sdscatrepr\<close> appends a quoted form of any byte string, and
  \<open>sdssplitargs\<close> reads a line of such quoted forms, separated by blanks, back to exactly the
  original strings, bytes such as NUL, quotes, backslashes and newlines included.
\<close>

theorem sdssplitargs_repr:
  assumes "\<forall>p\<in>set args. int (length p) < SDS_LIMIT"
  shows "(\<forall>p s. sds_ok s \<and> int (length (sds_str s) + length (quoted p)) < SDS_LIMIT \<longrightarrow>
            yields (sdscatrepr g s p) (sds_str s @ quoted p)) \<and>
    (\<exists>toks. sdssplitargs g (join_with '' '' (map quoted args) @ [NUL]) = Inr (Some toks) \<and>
            (\<forall>t\<in>set toks. sds_ok t) \<and> map sds_str toks = args)"
proof (intro conjI allI impI)
  fix p s
  assume "sds_ok s \<and> int (length (sds_str s) + length (quoted p)) < SDS_LIMIT"
  then show "yields (sdscatrepr g s p) (sds_str s @ quoted p)" by (intro sdscatrepr_ok) auto
next
  have "NUL \<notin> set (join_with '' '' (map quoted args))"
    using quoted_no_NUL by (intro join_no_NUL) auto
  then have "cstr (join_with '' '' (map quoted args) @ [NUL]) = join_with '' '' (map quoted args)" by simp
  with args_loop_quoted [OF assms, of g "[]"]
  show "\<exists>toks. sdssplitargs g (join_with '' '' (map quoted args) @ [NUL]) = Inr (Some toks) \<and>
            (\<forall>t\<in>set toks. sds_ok t) \<and> map sds_str toks = args"
    by (auto simp: sdssplitargs_def)
qed

theorem sdssplitargs_repr_witness:
  "\<exists>toks. sdssplitargs (\<lambda>_. NUL) (join_with '' '' (map quoted [[NUL, CHR 0x22], [], [CHR 0xFF]]) @ [NUL]) =
     Inr (Some toks) \<and> map sds_str toks = [[NUL, CHR 0x22], [], [CHR 0xFF]]"
  using sdssplitargs_repr [of "[[NUL, CHR 0x22], [], [CHR 0xFF]]" "\<lambda>_. NUL"]
  by (auto simp: SDS_LIMIT_def)

section \<open>Argument splitting is memory safe\<close>

lemma args_step_Push_shorter: "args_step inq insq p = Push c q \<Longrightarrow> length (drop 1 q) + 1 \<le> length p"
  using args_step_Push [of inq insq p c q] by (cases p) auto

lemma args_token_safe:
  "sds_ok cur \<Longrightarrow> int (length (sds_str cur) + length p) < SDS_LIMIT \<Longrightarrow>
     \<exists>r. args_token g inq insq cur p = Inr r \<and> (\<forall>cur' q. r = Some (cur', q) \<longrightarrow> sds_ok cur')"
proof (induction g inq insq cur p rule: args_token.induct)
  case (1 g inq insq cur p)
  show ?case
  proof (cases "args_step inq insq p")
    case (Quote i s)
    then show ?thesis using "1.IH"(1) [OF Quote] "1.prems" by (subst args_token.simps) simp
  next
    case (Push c q)
    have len: "length (drop 1 q) + 1 \<le> length p" using args_step_Push_shorter [OF Push] .
    with "1.prems" have "int (length (sds_str cur) + length [c]) < SDS_LIMIT" by simp
    from sds.cat_law [OF "1.prems"(1) this, of g] obtain cur1
      where c1: "sdscatlen g cur [c] 1 = Inr cur1" "sds_ok cur1" "sds_str cur1 = sds_str cur @ [c]" by auto
    show ?thesis
      using "1.IH"(2) [OF Push, of cur1] c1 len "1.prems" Push by (subst args_token.simps) simp
  qed (use "1.prems" in \<open>auto simp: args_token.simps [of g inq]\<close>)
qed

lemma args_loop_safe:
  "int (length p) < SDS_LIMIT \<Longrightarrow> \<forall>t\<in>set vec. sds_ok t \<Longrightarrow>
     \<exists>r. args_loop g vec p = Inr r \<and> (\<forall>toks. r = Some toks \<longrightarrow> (\<forall>t\<in>set toks. sds_ok t))"
proof (induction g vec p rule: args_loop.induct)
  case (1 g vec p)
  let ?p = "dropWhile isspace p"
  have lp: "length ?p \<le> length p" by (rule length_dropWhile_le)
  obtain r where r: "args_token g False False (mk_sds [] []) ?p = Inr r" "\<forall>cur' q. r = Some (cur', q) \<longrightarrow> sds_ok cur'"
    using args_token_safe [of "mk_sds [] []" ?p g False False] lp "1.prems" by auto
  show ?case
  proof (cases "?p = [] \<or> r = None")
    case True
    then show ?thesis
      using "1.prems" r by (subst args_loop.simps) (auto simp: Let_def sdsempty_ok)
  next
    case False
    then obtain cur q where q: "r = Some (cur, q)" by auto
    have "length q \<le> length ?p" using args_token_shorter r(1) q by blast
    with "1.IH" [OF refl _ sdsempty_ok _ q refl] r q False lp "1.prems" show ?thesis
      by (subst args_loop.simps) (auto simp: Let_def sdsempty_ok)
  qed
qed



section \<open>The strings as an abstract data type\<close>

text \<open>
  The operations of the API on one string, what each does to the byte sequence it stands for, and
  the range in which it is guaranteed (lengths below the limit, positions that fit an \<open>int\<close>).
\<close>

datatype sds_op =
    CatLen "char list" | Cat "char list" | CatSds sdshdr | CpyLen "char list" | Cpy "char list"
  | CatPrintf "char list" | CatRepr "char list" | GrowZero int | MakeRoom int | RemoveFree
  | Clear | UpdateLen | Trim "char list" | Range int int | Lower | Upper
  | MapChars "char list" "char list" nat

fun sds_apply :: "(nat \<Rightarrow> char) \<Rightarrow> sdshdr \<Rightarrow> sds_op \<Rightarrow> (sds_error, sdshdr) result" where
  "sds_apply g s (CatLen t) = sdscatlen g s t (int (length t))"
| "sds_apply g s (Cat t) = sdscat g s t"
| "sds_apply g s (CatSds t) = sdscatsds g s t"
| "sds_apply g s (CpyLen t) = sdscpylen g s t (int (length t))"
| "sds_apply g s (Cpy t) = sdscpy g s t"
| "sds_apply g s (CatPrintf t) = sdscatprintf g s t"
| "sds_apply g s (CatRepr p) = sdscatrepr g s p"
| "sds_apply g s (GrowZero n) = sdsgrowzero g s n"
| "sds_apply g s (MakeRoom n) = Inr (sdsMakeRoomFor g s n)"
| "sds_apply g s RemoveFree = Inr (sdsRemoveFreeSpace g s)"
| "sds_apply g s Clear = sdsclear s"
| "sds_apply g s UpdateLen = sdsupdatelen s"
| "sds_apply g s (Trim cset) = sdstrim s cset"
| "sds_apply g s (Range i j) = sdsrange s i j"
| "sds_apply g s Lower = Inr (sdstolower s)"
| "sds_apply g s Upper = Inr (sdstoupper s)"
| "sds_apply g s (MapChars from to n) = Inr (sdsmapchars s from to n)"

fun str_apply :: "char list \<Rightarrow> sds_op \<Rightarrow> char list" where
  "str_apply xs (CatLen t) = xs @ t"
| "str_apply xs (Cat t) = xs @ cstr t"
| "str_apply xs (CatSds t) = xs @ sds_str t"
| "str_apply xs (CpyLen t) = t"
| "str_apply xs (Cpy t) = cstr t"
| "str_apply xs (CatPrintf t) = xs @ cstr t"
| "str_apply xs (CatRepr p) = xs @ quoted p"
| "str_apply xs (GrowZero n) = xs @ replicate (nat n - length xs) NUL"
| "str_apply xs (MakeRoom n) = xs"
| "str_apply xs RemoveFree = xs"
| "str_apply xs Clear = []"
| "str_apply xs UpdateLen = cstr xs"
| "str_apply xs (Trim cset) = trimmed cset xs"
| "str_apply xs (Range i j) = range_spec xs i j"
| "str_apply xs Lower = map tolower xs"
| "str_apply xs Upper = map toupper xs"
| "str_apply xs (MapChars from to n) = map (mapchar from to n) xs"

fun op_fits :: "char list \<Rightarrow> sds_op \<Rightarrow> bool" where
  "op_fits xs (GrowZero n) = (0 \<le> n \<and> n < SDS_LIMIT)"
| "op_fits xs (MakeRoom n) = (0 \<le> n \<and> int (length xs) + n < SDS_LIMIT)"
| "op_fits xs (Range i j) = (is_int i \<and> is_int j)"
| "op_fits xs (CatSds t) = (sds_ok t \<and> int (length (xs @ sds_str t)) < SDS_LIMIT)"
| "op_fits xs (Cat t) = (NUL \<in> set t \<and> int (length (xs @ cstr t)) < SDS_LIMIT)"
| "op_fits xs (Cpy t) = (NUL \<in> set t \<and> int (length (cstr t)) < SDS_LIMIT)"
| "op_fits xs (CatLen t) = (int (length (xs @ t)) < SDS_LIMIT)"
| "op_fits xs (CpyLen t) = (int (length t) < SDS_LIMIT)"
| "op_fits xs (CatPrintf t) = (int (length (xs @ cstr t)) < SDS_LIMIT)"
| "op_fits xs (CatRepr p) = (int (length (xs @ quoted p)) < SDS_LIMIT)"
| "op_fits xs _ = True"

lemma sdscpy_ok:
  assumes "sds_ok s" and "NUL \<in> set t" and "int (length (cstr t)) < SDS_LIMIT"
  shows "yields (sdscpy g s t) (cstr t)"
proof -
  have "length (cstr t) \<le> length t" "take (length (cstr t)) t = cstr t"
    unfolding cstr_def by (rule length_takeWhile_le) (rule takeWhile_eq_take [symmetric])
  with assms sdscpylen_ok [of s "length (cstr t)" t g] show ?thesis
    by (simp add: sdscpy_def strlen_def)
qed

lemma sdscatsds_ok:
  assumes "sds_ok s" and "sds_ok t" and "int (length (sds_str s @ sds_str t)) < SDS_LIMIT"
  shows "yields (sdscatsds g s t) (sds_str s @ sds_str t)"
proof -
  obtain ys fr where t: "t = mk_sds ys fr" "length ys + length fr < 2147483648"
    using assms(2) by (rule sds_okE)
  then show ?thesis
    using sdscatlen_ok [OF assms(1), of "length ys" "ys @ NUL # fr" g] assms(3)
    by (simp add: sdscatsds_def)
qed

lemma sds_apply_refines:
  assumes "sds_ok s" and "op_fits (sds_str s) op"
  shows "yields (sds_apply g s op) (str_apply (sds_str s) op)"
proof -
  obtain xs fr where s: "s = mk_sds xs fr" "length xs + length fr < 2147483648"
    using assms(1) by (rule sds_okE)
  note inplace = sdsmap_mk [OF s(2)] sdsRemoveFreeSpace_mk [OF s(2)]
  have room: "0 \<le> n \<Longrightarrow> int (length xs) + n < SDS_LIMIT \<Longrightarrow> yields (Inr (sdsMakeRoomFor g s n)) xs" for n
    using sdsMakeRoomFor_mk [OF s(2), of n g] by (auto simp: yields_iff s(1))
  show ?thesis
    using assms s sdscatlen_ok [OF assms(1) order_refl] sdscpylen_ok [OF assms(1) order_refl]
      sdscat_ok [OF assms(1)] sdscatsds_ok [OF assms(1)] sdscpy_ok [OF assms(1)]
      sdscatprintf_ok [OF assms(1)] sdscatrepr_ok [OF assms(1)] sdsgrowzero_ok [OF assms(1)]
      sdsclear_ok [OF assms(1)] sdsupdatelen_ok [OF assms(1)] sdstrim_ok [OF assms(1)]
      sdsrange_ok [OF assms(1)] room
    by (cases op) (auto simp: inplace yields_mk)
qed

fun sds_run :: "(nat \<Rightarrow> char) \<Rightarrow> sdshdr \<Rightarrow> sds_op list \<Rightarrow> (sds_error, sdshdr) result" where
  "sds_run g s [] = Inr s"
| "sds_run g s (op # ops) = rbind (sds_apply g s op) (\<lambda>s. sds_run g s ops)"

fun ops_fit :: "char list \<Rightarrow> sds_op list \<Rightarrow> bool" where
  "ops_fit xs [] = True"
| "ops_fit xs (op # ops) = (op_fits xs op \<and> ops_fit (str_apply xs op) ops)"



end
