(* ===== verification/Intset.thy ===== *)
theory Intset
  imports Prelude
begin

text \<open>
  \<open>intset.c\<close>: sets of integers as one block of memory, a header and a sorted array whose cells
  have the width of the widest element. The array is modelled byte by byte; every access is
  checked against the allocation. \<open>g\<close> is the content of freshly allocated bytes.
\<close>

section \<open>Layout and cells\<close>

record intset =
  is_encoding :: int
  is_length :: int
  is_contents :: "byte list"

datatype is_error = OutOfBounds | DivisionByZero

definition INTSET_ENC_INT16 :: int where "INTSET_ENC_INT16 = 2"
definition INTSET_ENC_INT32 :: int where "INTSET_ENC_INT32 = 4"
definition INTSET_ENC_INT64 :: int where "INTSET_ENC_INT64 = 8"

lemmas intset_encs = INTSET_ENC_INT16_def INTSET_ENC_INT32_def INTSET_ENC_INT64_def

definition intsetValueEncoding :: "int \<Rightarrow> int" where
  "intsetValueEncoding v =
     (if v < - 2147483648 \<or> v > 2147483647 then INTSET_ENC_INT64
      else if v < - 32768 \<or> v > 32767 then INTSET_ENC_INT32
      else INTSET_ENC_INT16)"

text \<open>The cell width the three-way tests on an encoding select.\<close>

definition width :: "int \<Rightarrow> nat" where
  "width enc = (if enc = INTSET_ENC_INT64 then 8 else if enc = INTSET_ENC_INT32 then 4 else 2)"

definition intsetGetEncoded :: "intset \<Rightarrow> int \<Rightarrow> int \<Rightarrow> (is_error, int) result" where
  "intsetGetEncoded is pos enc =
     (let w = width enc in
      if 0 \<le> pos \<and> (pos + 1) * int w \<le> int (length (is_contents is))
      then Inr (le_sval w (blk w (is_contents is) (nat pos)))
      else Inl OutOfBounds)"

definition intsetGet0 :: "intset \<Rightarrow> int \<Rightarrow> (is_error, int) result" where
  "intsetGet0 is pos = intsetGetEncoded is pos (is_encoding is)"

definition intsetSet :: "intset \<Rightarrow> int \<Rightarrow> int \<Rightarrow> (is_error, intset) result" where
  "intsetSet is pos value =
     (let w = width (is_encoding is) in
      if 0 \<le> pos \<and> (pos + 1) * int w \<le> int (length (is_contents is))
      then Inr (is\<lparr>is_contents := write_at (is_contents is) (nat pos * w) (le_bytes w value)\<rparr>)
      else Inl OutOfBounds)"

section \<open>Operations\<close>

definition intsetNew :: intset where
  "intsetNew = \<lparr>is_encoding = INTSET_ENC_INT16, is_length = 0, is_contents = []\<rparr>"

definition intsetResize :: "(nat \<Rightarrow> byte) \<Rightarrow> intset \<Rightarrow> int \<Rightarrow> intset" where
  "intsetResize g is len =
     is\<lparr>is_contents := realloc_buf g (is_contents is) (nat (to_u32 (to_u32 len * is_encoding is)))\<rparr>"

text \<open>The binary search of \<open>intsetSearch\<close>: \<open>min\<close>, \<open>mid\<close> and \<open>cur\<close> when the loop ends.\<close>

function search_loop :: "intset \<Rightarrow> int \<Rightarrow> int \<Rightarrow> int \<Rightarrow> int \<Rightarrow> int \<Rightarrow> (is_error, int \<times> int \<times> int) result" where
  "search_loop is value mn mx mid cur =
     (if mx \<ge> mn
      then let mid = (mn + mx) div 2 in
           rbind (intsetGet0 is mid) (\<lambda>cur.
             if value > cur then search_loop is value (mid + 1) mx mid cur
             else if value < cur then search_loop is value mn (mid - 1) mid cur
             else Inr (mn, mid, cur))
      else Inr (mn, mid, cur))"
  by pat_completeness auto
termination
  by (relation "measure (\<lambda>(is, value, mn, mx, mid, cur). nat (mx - mn + 1))") auto

declare search_loop.simps [simp del]

text \<open>\<open>intsetSearch\<close>: the returned flag and the value stored in \<open>*pos\<close>.\<close>

definition intsetSearch :: "intset \<Rightarrow> int \<Rightarrow> (is_error, bool \<times> int) result" where
  "intsetSearch is value =
     (if is_length is = 0 then Inr (False, 0)
      else rbind (intsetGet0 is (is_length is - 1)) (\<lambda>last.
        if value > last then Inr (False, is_length is)
        else rbind (intsetGet0 is 0) (\<lambda>first.
          if value < first then Inr (False, 0)
          else rbind (search_loop is value 0 (is_length is - 1) (- 1) (- 1)) (\<lambda>(mn, mid, cur).
            if value = cur then Inr (True, mid) else Inr (False, mn)))))"

text \<open>The loop \<open>while(length--)\<close> of \<open>intsetUpgradeAndAdd\<close>.\<close>

fun upgrade_loop :: "intset \<Rightarrow> int \<Rightarrow> int \<Rightarrow> nat \<Rightarrow> (is_error, intset) result" where
  "upgrade_loop is curenc prepend 0 = Inr is"
| "upgrade_loop is curenc prepend (Suc i) =
     rbind (intsetGetEncoded is (int i) curenc) (\<lambda>v.
     rbind (intsetSet is (int i + prepend) v) (\<lambda>is. upgrade_loop is curenc prepend i))"

definition intsetUpgradeAndAdd :: "(nat \<Rightarrow> byte) \<Rightarrow> intset \<Rightarrow> int \<Rightarrow> (is_error, intset) result" where
  "intsetUpgradeAndAdd g is value =
     (let curenc = is_encoding is; newenc = intsetValueEncoding value; length = is_length is;
          prepend = (if value < 0 then 1 else 0);
          is = is\<lparr>is_encoding := newenc\<rparr>;
          is = intsetResize g is (is_length is + 1)
      in rbind (upgrade_loop is curenc prepend (nat length)) (\<lambda>is.
         rbind (if prepend = 1 then intsetSet is 0 value else intsetSet is (is_length is) value) (\<lambda>is.
           Inr (is\<lparr>is_length := to_u32 (is_length is + 1)\<rparr>))))"

definition intsetMoveTail :: "intset \<Rightarrow> int \<Rightarrow> int \<Rightarrow> (is_error, intset) result" where
  "intsetMoveTail is from to =
     (let w = int (width (is_encoding is));
          bytes = to_u32 (to_u32 (is_length is - from) * w);
          src = from * w; dst = to * w; c = is_contents is
      in if 0 \<le> src \<and> src + bytes \<le> int (length c) \<and> 0 \<le> dst \<and> dst + bytes \<le> int (length c)
         then Inr (is\<lparr>is_contents := write_at c (nat dst) (take (nat bytes) (drop (nat src) c))\<rparr>)
         else Inl OutOfBounds)"

text \<open>\<open>intsetAdd\<close> and \<open>intsetRemove\<close>: the set and \<open>*success\<close>.\<close>

definition intsetAdd :: "(nat \<Rightarrow> byte) \<Rightarrow> intset \<Rightarrow> int \<Rightarrow> (is_error, intset \<times> bool) result" where
  "intsetAdd g is value =
     (if intsetValueEncoding value > is_encoding is
      then rbind (intsetUpgradeAndAdd g is value) (\<lambda>is. Inr (is, True))
      else rbind (intsetSearch is value) (\<lambda>(found, pos).
        if found then Inr (is, False)
        else let is = intsetResize g is (is_length is + 1) in
          rbind (if pos < is_length is then intsetMoveTail is pos (pos + 1) else Inr is) (\<lambda>is.
          rbind (intsetSet is pos value) (\<lambda>is.
            Inr (is\<lparr>is_length := to_u32 (is_length is + 1)\<rparr>, True)))))"

definition intsetRemove :: "(nat \<Rightarrow> byte) \<Rightarrow> intset \<Rightarrow> int \<Rightarrow> (is_error, intset \<times> bool) result" where
  "intsetRemove g is value =
     (if intsetValueEncoding value \<le> is_encoding is
      then rbind (intsetSearch is value) (\<lambda>(found, pos).
        if found
        then let len = is_length is in
          rbind (if pos < to_u32 (len - 1) then intsetMoveTail is (pos + 1) pos else Inr is) (\<lambda>is.
            Inr ((intsetResize g is (len - 1))\<lparr>is_length := to_u32 (len - 1)\<rparr>, True))
        else Inr (is, False))
      else Inr (is, False))"

definition intsetFind :: "intset \<Rightarrow> int \<Rightarrow> (is_error, bool) result" where
  "intsetFind is value =
     (if intsetValueEncoding value \<le> is_encoding is
      then rbind (intsetSearch is value) (\<lambda>(found, pos). Inr found)
      else Inr False)"

text \<open>\<open>rnd\<close> is the value of \<open>rand()\<close>.\<close>

definition intsetRandom :: "intset \<Rightarrow> int \<Rightarrow> (is_error, int) result" where
  "intsetRandom is rnd =
     (if is_length is = 0 then Inl DivisionByZero else intsetGet0 is (rnd mod is_length is))"

definition intsetGet :: "intset \<Rightarrow> int \<Rightarrow> (is_error, int option) result" where
  "intsetGet is pos =
     (if pos < is_length is then rbind (intsetGet0 is pos) (\<lambda>v. Inr (Some v)) else Inr None)"

definition intsetLen :: "intset \<Rightarrow> int" where
  "intsetLen is = is_length is"

definition intsetBlobLen :: "intset \<Rightarrow> int" where
  "intsetBlobLen is = to_u64 (8 + to_u32 (is_length is * is_encoding is))"

section \<open>Arrays of cells\<close>

text \<open>\<open>arr w c xs\<close>: the bytes \<open>c\<close> are an array of \<open>w\<close>-byte cells that hold the integers \<open>xs\<close>.\<close>

definition arr :: "nat \<Rightarrow> byte list \<Rightarrow> int list \<Rightarrow> bool" where
  "arr w c xs \<longleftrightarrow> length c = length xs * w \<and> (\<forall>j<length xs. le_sval w (blk w c j) = xs ! j)"

definition fits :: "nat \<Rightarrow> int \<Rightarrow> bool" where
  "fits w v \<longleftrightarrow> 0 < w \<and> - (2 ^ (8 * w - 1)) \<le> v \<and> v < 2 ^ (8 * w - 1)"

lemma arr_length: "arr w c xs \<Longrightarrow> length c = length xs * w"
  by (simp add: arr_def)

lemma arr_nth: "arr w c xs \<Longrightarrow> j < length xs \<Longrightarrow> le_sval w (blk w c j) = xs ! j"
  by (simp add: arr_def)

lemma cell_bound: "0 \<le> pos \<Longrightarrow> pos < int n \<Longrightarrow> (pos + 1) * int w \<le> int (n * w)"
  using mult_right_mono [of "pos + 1" "int n" "int w"] by simp

lemma cell_bound_nat: "p < n \<Longrightarrow> (p + 1) * w \<le> n * (w::nat)"
  by (intro mult_le_mono1) simp

lemma cell_int: "(i + 1) * k \<le> n \<Longrightarrow> (int i + 1) * int k \<le> int n"
  by (metis of_nat_1 of_nat_add of_nat_le_iff of_nat_mult)

lemma get_arr:
  assumes "arr (width enc) (is_contents is) xs" and "0 \<le> pos" and "pos < int (length xs)"
  shows "intsetGetEncoded is pos enc = Inr (xs ! nat pos)"
  using assms cell_bound [OF assms(2,3), of "width enc"] arr_nth [OF assms(1), of "nat pos"]
  by (auto simp: intsetGetEncoded_def Let_def arr_length nat_less_iff)

lemma intsetSet_nat:
  "w = width (is_encoding is) \<Longrightarrow> (i + 1) * w \<le> length (is_contents is) \<Longrightarrow>
     intsetSet is (int i) v = Inr (is\<lparr>is_contents := write_at (is_contents is) (i * w) (le_bytes w v)\<rparr>)"
  using cell_int [of i w "length (is_contents is)"] by (simp add: intsetSet_def Let_def)

lemma write_cell:
  assumes "arr w c xs" and "p < length xs" and "fits w v"
  shows "arr w (write_at c (p * w) (le_bytes w v)) (xs[p := v])"
proof -
  have len: "(p + 1) * w \<le> length c" using assms cell_bound_nat arr_length by metis
  have "le_sval w (le_bytes w v) = v" using assms(3) by (simp add: fits_def le_sval_le_bytes)
  then show ?thesis
    using assms blk_write_at [OF length_le_bytes len, of v] len
    by (auto simp: arr_def nth_list_update)
qed

lemma set_arr:
  assumes "arr (width (is_encoding is)) (is_contents is) xs" and "0 \<le> pos" and "pos < int (length xs)"
    and "fits (width (is_encoding is)) v"
  shows "\<exists>c. intsetSet is pos v = Inr (is\<lparr>is_contents := c\<rparr>) \<and>
    arr (width (is_encoding is)) c (xs[nat pos := v])"
  using assms cell_bound [OF assms(2,3), of "width (is_encoding is)"] write_cell [OF assms(1) _ assms(4), of "nat pos"]
  by (auto simp: intsetSet_def Let_def arr_length nat_less_iff)

lemma blk_take: "(j + 1) * k \<le> n \<Longrightarrow> blk k (take n c) j = blk k c j"
  by (simp add: blk_def drop_take min_def le_diff_conv2)

lemma blk_append: "(j + 1) * k \<le> length a \<Longrightarrow> blk k (a @ b) j = blk k a j"
  by (simp add: blk_def)

lemma grow_arr:
  assumes "arr w c xs"
  shows "\<exists>y. arr w (realloc_buf g c ((length xs + 1) * w)) (xs @ [y])"
proof -
  let ?c = "realloc_buf g c ((length xs + 1) * w)"
  have "blk w ?c j = blk w c j" if "j < length xs" for j
    using cell_bound_nat [OF that, of w] assms by (simp add: realloc_buf_def arr_length blk_append)
  then show ?thesis
    using assms by (intro exI [of _ "le_sval w (blk w ?c (length xs))"])
      (auto simp: arr_def nth_append less_Suc_eq)
qed

lemma shrink_arr:
  assumes "arr w c (xs @ [y])"
  shows "arr w (realloc_buf g c (length xs * w)) xs"
proof -
  have "blk w (take (length xs * w) c) j = blk w c j" if "j < length xs" for j
    using cell_bound_nat [OF that, of w] by (simp add: blk_take)
  then show ?thesis using assms by (auto simp: arr_def realloc_buf_def nth_append)
qed

text \<open>Moving a run of cells moves the elements.\<close>

lemma nth_take_drop: "i < n \<Longrightarrow> m + i < length xs \<Longrightarrow> take n (drop m xs) ! i = xs ! (m + i)"
  by simp

lemma blk_move:
  assumes "(from + cnt) * w \<le> length c" and "(to + cnt) * w \<le> length c" and "(j + 1) * w \<le> length c"
  shows "blk w (write_at c (to * w) (take (cnt * w) (drop (from * w) c))) j =
    (if to \<le> j \<and> j < to + cnt then blk w c (j - to + from) else blk w c j)"
proof -
  let ?src = "take (cnt * w) (drop (from * w) c)"
  have src: "length ?src = cnt * w" using assms(1) by (simp add: add_mult_distrib)
  consider "j < to" | "to \<le> j" "j < to + cnt" | "to + cnt \<le> j" by linarith
  then show ?thesis
  proof cases
    case 1
    then have "(j + 1) * w \<le> to * w" "to * w \<le> length c"
      using cell_bound_nat assms(2) by (auto simp: add_mult_distrib)
    then show ?thesis using 1 by (simp add: write_at_def blk_append blk_take)
  next
    case 2
    have "blk w (write_at c (to * w) ?src) j = take w (drop ((j - to) * w) (?src @ drop (to * w + cnt * w) c))"
      using 2 assms(2) src by (simp add: blk_def write_at_def add_mult_distrib diff_mult_distrib)
    also have "\<dots> = take w (drop ((j - to) * w) ?src)"
    proof -
      have "(j - to + 1) * w \<le> cnt * w" using 2 by (intro mult_le_mono1) linarith
      then show ?thesis using src by simp
    qed
    also have "\<dots> = blk w c (j - to + from)"
    proof -
      have "(j - to + 1) * w \<le> cnt * w" using 2 by (intro mult_le_mono1) linarith
      then show ?thesis by (simp add: blk_def drop_take min_def add_mult_distrib add.commute le_diff_conv2)
    qed
    finally show ?thesis using 2 by simp
  next
    case 3
    then have "(to + cnt) * w \<le> j * w" by (intro mult_le_mono1)
    then show ?thesis
      using 3 assms(2) src by (simp add: blk_def write_at_def add_mult_distrib)
  qed
qed

lemma move_arr:
  assumes "arr w c xs" and "from + cnt \<le> length xs" and "to + cnt \<le> length xs"
  shows "arr w (write_at c (to * w) (take (cnt * w) (drop (from * w) c)))
    (write_at xs to (take cnt (drop from xs)))"
proof -
  let ?xs = "write_at xs to (take cnt (drop from xs))"
  have b: "(from + cnt) * w \<le> length c" "(to + cnt) * w \<le> length c"
    using assms by (auto simp: arr_length intro!: mult_le_mono1)
  have len: "length ?xs = length xs" using assms by simp
  have "?xs ! j = (if to \<le> j \<and> j < to + cnt then xs ! (j - to + from) else xs ! j)" if "j < length xs" for j
    using assms that nth_write_at_before [of j to xs] nth_write_at_after [of to "take cnt (drop from xs)" j xs]
      nth_write_at_inside [of to j "take cnt (drop from xs)" xs]
    by (auto simp: add.commute)
  moreover have "length (write_at c (to * w) (take (cnt * w) (drop (from * w) c))) = length c"
    using b by (intro length_write_at) (simp add: add_mult_distrib)
  ultimately show ?thesis
    using assms blk_move [OF b] cell_bound_nat by (auto simp: arr_def)
qed

section \<open>The invariant\<close>

text \<open>The elements in array order, and a well-formed set: one of the three encodings, an allocation of
  exactly the cells, strictly increasing elements, and a byte size that fits \<open>uint32_t\<close>.\<close>

definition vals :: "intset \<Rightarrow> int list" where
  "vals is = (let w = width (is_encoding is)
    in map (\<lambda>j. le_sval w (blk w (is_contents is) j)) [0..<nat (is_length is)])"

definition IS_LIMIT :: int where
  "IS_LIMIT = 536870912"

definition is_ok :: "intset \<Rightarrow> bool" where
  "is_ok is \<longleftrightarrow> is_encoding is \<in> {2, 4, 8} \<and> 0 \<le> is_length is \<and> is_length is < IS_LIMIT \<and>
     length (is_contents is) = nat (is_length is) * width (is_encoding is) \<and>
     sorted_wrt (<) (vals is)"

lemma width_enc: "enc \<in> {2, 4, 8} \<Longrightarrow> int (width enc) = enc"
  by (auto simp: width_def intset_encs)

lemma width_pos [simp]: "0 < width enc"
  by (simp add: width_def)

lemma is_ok_arr: "is_ok is \<Longrightarrow> arr (width (is_encoding is)) (is_contents is) (vals is)"
  by (simp add: is_ok_def arr_def vals_def Let_def)

lemma length_vals: "is_ok is \<Longrightarrow> int (length (vals is)) = is_length is"
  by (simp add: is_ok_def vals_def Let_def)

lemma is_okI:
  assumes "is_encoding is \<in> {2, 4, 8}" and "arr (width (is_encoding is)) (is_contents is) xs"
    and "is_length is = int (length xs)" and "sorted_wrt (<) xs" and "int (length xs) < IS_LIMIT"
  shows "is_ok is \<and> vals is = xs"
proof -
  have "vals is = xs" using assms(2,3) by (auto simp: vals_def arr_def Let_def intro: nth_equalityI)
  then show ?thesis using assms by (auto simp: is_ok_def arr_def)
qed

lemma le_sval_fits: "0 < w \<Longrightarrow> fits w (le_sval w bs)"
  by (simp add: fits_def le_sval_def signed_take_bit_int_greater_eq_minus_exp signed_take_bit_int_less_exp)

lemma vals_fit: "x \<in> set (vals is) \<Longrightarrow> fits (width (is_encoding is)) x"
  by (auto simp: vals_def Let_def le_sval_fits)

abbreviation is_i64 :: "int \<Rightarrow> bool" where
  "is_i64 v \<equiv> - 9223372036854775808 \<le> v \<and> v < 9223372036854775808"

lemma fits_iff: "enc \<in> {2, 4, 8} \<Longrightarrow> is_i64 v \<Longrightarrow> fits (width enc) v \<longleftrightarrow> intsetValueEncoding v \<le> enc"
  by (auto simp: fits_def width_def intset_encs intsetValueEncoding_def)

text \<open>A value of a wider encoding lies outside the range of the present ones.\<close>

lemma wider_value:
  assumes "fits (width enc) x" and "enc \<in> {2, 4, 8}" and "is_i64 v" and "intsetValueEncoding v > enc"
  shows "if v < 0 then v < x else x < v"
  using assms by (auto simp: fits_def width_def intset_encs intsetValueEncoding_def split: if_splits)

section \<open>Search\<close>

text \<open>Every element before position \<open>p\<close> is smaller, every other one larger than \<open>v\<close>.\<close>

definition splits_at :: "int list \<Rightarrow> int \<Rightarrow> int \<Rightarrow> bool" where
  "splits_at xs v p \<longleftrightarrow> 0 \<le> p \<and> p \<le> int (length xs) \<and>
     (\<forall>j<length xs. if int j < p then xs ! j < v else v < xs ! j)"

lemma search_loop_ok:
  assumes "arr (width (is_encoding is)) (is_contents is) xs" and "sorted_wrt (<) xs"
  shows "0 \<le> mn \<Longrightarrow> mx < int (length xs) \<Longrightarrow> mn \<le> mx + 1 \<Longrightarrow> mn \<le> mx \<or> cur \<noteq> v \<Longrightarrow>
    \<forall>j<length xs. (int j < mn \<longrightarrow> xs ! j < v) \<and> (mx < int j \<longrightarrow> v < xs ! j) \<Longrightarrow>
    \<exists>mn' mid' cur'. search_loop is v mn mx mid cur = Inr (mn', mid', cur') \<and>
      (if cur' = v then 0 \<le> mid' \<and> mid' < int (length xs) \<and> xs ! nat mid' = v else splits_at xs v mn')"
proof (induction "nat (mx - mn + 1)" arbitrary: mn mx mid cur rule: less_induct)
  case less
  show ?case
  proof (cases "mn \<le> mx")
    case False
    then have "mx + 1 = mn" "cur \<noteq> v" using less.prems by auto
    then show ?thesis
      using less.prems False by (subst search_loop.simps) (auto simp: splits_at_def)
  next
    case True
    define m where "m = (mn + mx) div 2"
    have m: "mn \<le> m" "m \<le> mx" "0 \<le> m" "m < int (length xs)"
      using True less.prems by (auto simp: m_def)
    have nm: "nat m < length xs" using m by linarith
    have get: "intsetGet0 is m = Inr (xs ! nat m)"
      unfolding intsetGet0_def using get_arr [OF assms(1) m(3,4)] .
    have step: "search_loop is v mn mx mid cur =
        (if v > xs ! nat m then search_loop is v (m + 1) mx m (xs ! nat m)
         else if v < xs ! nat m then search_loop is v mn (m - 1) m (xs ! nat m)
         else Inr (mn, m, xs ! nat m))"
      using True get by (subst search_loop.simps) (simp add: Let_def flip: m_def)
    have mono: "i < j \<Longrightarrow> j < length xs \<Longrightarrow> xs ! i < xs ! j" for i j
      using assms(2) by (simp add: sorted_wrt_iff_nth_less)
    consider "v > xs ! nat m" | "v < xs ! nat m" | "v = xs ! nat m" by linarith
    then show ?thesis
    proof cases
      case 1
      have "xs ! j < v" if "int j < m + 1" "j < length xs" for j
      proof (cases "j = nat m")
        case False
        with that m have "j < nat m" by linarith
        from mono [OF this nm] 1 show ?thesis by simp
      qed (use 1 in simp)
      moreover have "search_loop is v mn mx mid cur = search_loop is v (m + 1) mx m (xs ! nat m)"
        using step 1 by simp
      ultimately show ?thesis
        using less.hyps [of mx "m + 1" "xs ! nat m" m] less.prems m 1 True by auto
    next
      case 2
      have "v < xs ! j" if "m - 1 < int j" "j < length xs" for j
      proof (cases "j = nat m")
        case False
        with that m have "nat m < j" by linarith
        from mono [OF this that(2)] 2 show ?thesis by simp
      qed (use 2 in simp)
      moreover have "search_loop is v mn mx mid cur = search_loop is v mn (m - 1) m (xs ! nat m)"
        using step 2 by simp
      ultimately show ?thesis
        using less.hyps [of "m - 1" mn "xs ! nat m" m] less.prems m 2 True by auto
    next
      case 3
      then show ?thesis using m step by auto
    qed
  qed
qed

text \<open>The membership test and the insertion position.\<close>

definition found_at :: "int list \<Rightarrow> int \<Rightarrow> bool \<times> int \<Rightarrow> bool" where
  "found_at xs v r \<longleftrightarrow> (if fst r then 0 \<le> snd r \<and> snd r < int (length xs) \<and> xs ! nat (snd r) = v
     else splits_at xs v (snd r))"

lemma intsetSearch_ok:
  assumes "is_ok is"
  shows "\<exists>r. intsetSearch is v = Inr r \<and> found_at (vals is) v r"
proof (cases "is_length is = 0")
  case True
  then show ?thesis
    using length_vals [OF assms] by (simp add: intsetSearch_def found_at_def splits_at_def)
next
  case False
  let ?xs = "vals is" and ?n = "is_length is"
  note arr = is_ok_arr [OF assms] and n = length_vals [OF assms]
  have sorted: "sorted_wrt (<) ?xs" using assms by (simp add: is_ok_def)
  have pos: "0 < ?n" using False assms by (simp add: is_ok_def)
  have last: "intsetGet0 is (?n - 1) = Inr (?xs ! nat (?n - 1))"
    and first: "intsetGet0 is 0 = Inr (?xs ! 0)"
    unfolding intsetGet0_def using get_arr [OF arr] n pos by auto
  have mono: "i < j \<Longrightarrow> j < length ?xs \<Longrightarrow> ?xs ! i < ?xs ! j" for i j
    using sorted by (simp add: sorted_wrt_iff_nth_less)
  consider "v > ?xs ! nat (?n - 1)" | "v \<le> ?xs ! nat (?n - 1)" "v < ?xs ! 0"
    | "v \<le> ?xs ! nat (?n - 1)" "v \<ge> ?xs ! 0" by linarith
  then show ?thesis
  proof cases
    case 1
    have "?xs ! j < v" if "j < length ?xs" for j
    proof (cases "j = nat (?n - 1)")
      case False
      with that n have "j < nat (?n - 1)" "nat (?n - 1) < length ?xs" by linarith+
      from mono [OF this] 1 show ?thesis by simp
    qed (use 1 in simp)
    with 1 show ?thesis
      using False last n pos by (simp add: intsetSearch_def found_at_def splits_at_def)
  next
    case 2
    have "v < ?xs ! j" if "j < length ?xs" for j
      using mono [of 0 j] that 2 by (cases "j = 0") auto
    with 2 show ?thesis
      using False last first n pos by (simp add: intsetSearch_def found_at_def splits_at_def)
  next
    case 3
    have "\<forall>j<length ?xs. (int j < 0 \<longrightarrow> ?xs ! j < v) \<and> (?n - 1 < int j \<longrightarrow> v < ?xs ! j)" using n by auto
    then obtain mn mid cur where "search_loop is v 0 (?n - 1) (- 1) (- 1) = Inr (mn, mid, cur)"
      "if cur = v then 0 \<le> mid \<and> mid < int (length ?xs) \<and> ?xs ! nat mid = v else splits_at ?xs v mn"
      using search_loop_ok [OF arr sorted, of 0 "?n - 1" "- 1" v "- 1"] n pos by auto
    with 3 show ?thesis
      using False last first by (auto simp: intsetSearch_def found_at_def)
  qed
qed

section \<open>Insertion\<close>

lemma sorted_split_insert:
  assumes "sorted_wrt (<) xs" and "splits_at xs v (int p)"
  shows "sorted_wrt (<) (take p xs @ v # drop p xs)" and "v \<notin> set xs" and "p \<le> length xs"
proof -
  show p: "p \<le> length xs" using assms(2) by (simp add: splits_at_def)
  have "x < v" if "x \<in> set (take p xs)" for x
    using that assms(2) by (auto simp: splits_at_def in_set_conv_nth)
  moreover have "v < x" if "x \<in> set (drop p xs)" for x
  proof -
    from that obtain i where "i < length xs - p" "x = xs ! (p + i)" by (auto simp: in_set_conv_nth)
    then show ?thesis using assms(2) by (auto simp: splits_at_def)
  qed
  moreover from calculation have "x < y" if "x \<in> set (take p xs)" "y \<in> set (drop p xs)" for x y
    using that less_trans by blast
  ultimately show "sorted_wrt (<) (take p xs @ v # drop p xs)"
    using assms(1) by (auto simp: sorted_wrt_append sorted_wrt_take sorted_wrt_drop)
  show "v \<notin> set xs"
    using assms(2) by (auto simp: splits_at_def in_set_conv_nth split: if_splits)
qed

lemma resize_size:
  "enc \<in> {2, 4, 8} \<Longrightarrow> 0 \<le> len \<Longrightarrow> len < IS_LIMIT \<Longrightarrow> nat (to_u32 (to_u32 len * enc)) = nat len * width enc"
  by (auto simp: cint IS_LIMIT_def width_def intset_encs nat_mult_distrib)

lemma intsetMoveTail_arr:
  assumes "is_encoding is \<in> {2, 4, 8}" and "arr (width (is_encoding is)) (is_contents is) xs"
    and "is_length is = int n" and "int n < IS_LIMIT" and "from \<le> n" and "n \<le> length xs" and "to + (n - from) \<le> length xs"
  shows "\<exists>c. intsetMoveTail is (int from) (int to) = Inr (is\<lparr>is_contents := c\<rparr>) \<and>
    arr (width (is_encoding is)) c (write_at xs to (take (n - from) (drop from xs)))"
proof -
  let ?w = "width (is_encoding is)"
  have w: "?w \<le> 8" by (simp add: width_def)
  have len: "to_u32 (int n - int from) = int (n - from)"
    using assms(4,5) by (simp add: IS_LIMIT_def cint of_nat_diff)
  have "(n - from) * ?w \<le> n * 8" using w by (intro mult_le_mono) auto
  then have "(n - from) * ?w < 4294967296" using assms(4) by (simp add: IS_LIMIT_def)
  then have bytes: "to_u32 (int (n - from) * int ?w) = int ((n - from) * ?w)"
    by (metis of_nat_0_le_iff of_nat_less_numeral_iff of_nat_mult to_u32_id)
  have b: "(from + (n - from)) * ?w \<le> length (is_contents is)" "(to + (n - from)) * ?w \<le> length (is_contents is)"
    using assms(2,5-7) by (auto simp: arr_length intro!: mult_le_mono1)
  have "intsetMoveTail is (int from) (int to) =
      Inr (is\<lparr>is_contents := write_at (is_contents is) (to * ?w) (take ((n - from) * ?w) (drop (from * ?w) (is_contents is)))\<rparr>)"
    using b unfolding intsetMoveTail_def Let_def assms(3) len bytes
    by (simp add: add_mult_distrib flip: of_nat_mult of_nat_add)
  moreover have "arr ?w (write_at (is_contents is) (to * ?w) (take ((n - from) * ?w) (drop (from * ?w) (is_contents is))))
      (write_at xs to (take (n - from) (drop from xs)))"
    using assms by (intro move_arr) auto
  ultimately show ?thesis by blast
qed

text \<open>Insertion of a value that fits the encoding.\<close>

lemma insert_fitting:
  assumes "is_ok is" and "fits (width (is_encoding is)) v" and "is_length is + 1 < IS_LIMIT"
    and "splits_at (vals is) v (int p)"
  shows "\<exists>is'. (let is = intsetResize g is (is_length is + 1) in
      rbind (if int p < is_length is then intsetMoveTail is (int p) (int p + 1) else Inr is) (\<lambda>is.
      rbind (intsetSet is (int p) v) (\<lambda>is. Inr (is\<lparr>is_length := to_u32 (is_length is + 1)\<rparr>, True)))) =
      Inr (is', True) \<and> is_ok is' \<and> vals is' = take p (vals is) @ v # drop p (vals is)"
proof -
  let ?xs = "vals is" and ?n = "length (vals is)" and ?w = "width (is_encoding is)"
  note n = length_vals [OF assms(1)]
  have enc: "is_encoding is \<in> {2, 4, 8}" using assms(1) by (simp add: is_ok_def)
  have sorted: "sorted_wrt (<) ?xs" using assms(1) by (simp add: is_ok_def)
  have p: "p \<le> ?n" using assms(4) by (simp add: splits_at_def)
  have len1: "is_length is + 1 = int (?n + 1)" using n by simp
  define is1 where "is1 = intsetResize g is (is_length is + 1)"
  have size: "nat (to_u32 (to_u32 (is_length is + 1) * is_encoding is)) = (?n + 1) * ?w"
    using resize_size [OF enc, of "int (?n + 1)"] assms(3) unfolding len1 by (simp del: of_nat_add of_nat_Suc)
  obtain y where y: "arr ?w (is_contents is1) (?xs @ [y])"
    using grow_arr [OF is_ok_arr [OF assms(1)], of g] by (auto simp: is1_def intsetResize_def size)
  have is1: "is_encoding is1 = is_encoding is" "is_length is1 = int ?n"
    using n by (simp_all add: is1_def intsetResize_def)
  obtain c where c: "(if int p < is_length is1 then intsetMoveTail is1 (int p) (int p + 1) else Inr is1) =
      Inr (is1\<lparr>is_contents := c\<rparr>)" "arr ?w c (take p ?xs @ (if p < ?n then ?xs ! p else y) # drop p ?xs)"
  proof (cases "p < ?n")
    case True
    have "write_at (?xs @ [y]) (p + 1) (take (?n - p) (drop p (?xs @ [y]))) = take (p + 1) ?xs @ drop p ?xs"
      using True by (simp add: write_at_def)
    then show ?thesis
      using intsetMoveTail_arr [of is1 "?xs @ [y]" ?n p "p + 1"] enc y is1 True assms(3) n that
      by (auto simp: take_Suc_conv_app_nth add.commute)
  next
    case False
    then have "p = ?n" using p by simp
    with that [of "is_contents is1"] y is1 show ?thesis by simp
  qed
  let ?zs = "take p ?xs @ v # drop p ?xs"
  obtain d where d: "intsetSet (is1\<lparr>is_contents := c\<rparr>) (int p) v = Inr (is1\<lparr>is_contents := d\<rparr>)" "arr ?w d ?zs"
    using set_arr [of "is1\<lparr>is_contents := c\<rparr>" "take p ?xs @ (if p < ?n then ?xs ! p else y) # drop p ?xs" "int p" v] c(2) is1 assms(2) p
    by (auto simp: list_update_append)
  let ?is = "is1\<lparr>is_contents := d, is_length := to_u32 (is_length is1 + 1)\<rparr>"
  have "is_ok ?is \<and> vals ?is = ?zs"
  proof (rule is_okI)
    show "is_length ?is = int (length ?zs)"
      using is1 p assms(3) n by (simp add: cint IS_LIMIT_def)
  qed (use enc is1 d sorted_split_insert [OF sorted assms(4)] assms(3) n p in auto)
  then show ?thesis using c(1) d(1) by (simp add: Let_def flip: is1_def)
qed

section \<open>Upgrade\<close>

lemma blk_write_before:
  "(j + 1) * k \<le> off \<Longrightarrow> off \<le> length c \<Longrightarrow> blk k (write_at c off src) j = blk k c j"
  by (simp add: write_at_def blk_append blk_take)

text \<open>Back to front, no cell is overwritten before it is read: cells of the old width below \<open>i\<close> still
  hold the old values, cells of the new width from \<open>i + p\<close> on hold the copied ones.\<close>

lemma upgrade_loop_ok:
  assumes "width curenc \<le> w" and "w = width (is_encoding is)" and "p \<le> 1"
    and "\<forall>x\<in>set xs. fits w x"
  shows "length c = (length xs + 1) * w \<Longrightarrow> i \<le> length xs \<Longrightarrow>
    \<forall>j<i. le_sval (width curenc) (blk (width curenc) c j) = xs ! j \<Longrightarrow>
    \<forall>j<length xs. i \<le> j \<longrightarrow> le_sval w (blk w c (j + p)) = xs ! j \<Longrightarrow>
    \<exists>c'. upgrade_loop (is\<lparr>is_contents := c\<rparr>) curenc (int p) i = Inr (is\<lparr>is_contents := c'\<rparr>) \<and>
      length c' = length c \<and> (\<forall>j<length xs. le_sval w (blk w c' (j + p)) = xs ! j)"
proof (induction i arbitrary: c)
  case 0
  then show ?case by auto
next
  case (Suc i)
  let ?v = "width curenc" and ?x = "xs ! i"
  have i: "i < length xs" using Suc.prems(2) by simp
  have "(i + 1) * ?v \<le> (length xs + 1) * w" using i assms(1) by (intro mult_le_mono) auto
  then have "(int i + 1) * int ?v \<le> int (length c)" using Suc.prems(1) by (intro cell_int) simp
  then have get: "intsetGetEncoded (is\<lparr>is_contents := c\<rparr>) (int i) curenc = Inr ?x"
    using Suc.prems(3) by (simp add: intsetGetEncoded_def Let_def)
  let ?c = "write_at c ((i + p) * w) (le_bytes w ?x)"
  have "(i + p + 1) * w \<le> (length xs + 1) * w" using i assms(3) by (intro mult_le_mono1) simp
  then have b: "(i + p + 1) * w \<le> length c" using Suc.prems(1) by simp
  have set: "intsetSet (is\<lparr>is_contents := c\<rparr>) (int i + int p) ?x = Inr (is\<lparr>is_contents := ?c\<rparr>)"
    using intsetSet_nat [of w "is\<lparr>is_contents := c\<rparr>" "i + p" ?x] b assms(2) by simp
  have "fits w ?x" using assms(4) i by simp
  then have "le_sval w (le_bytes w ?x) = ?x" by (simp add: fits_def le_sval_le_bytes)
  then have new: "\<forall>j<length xs. i \<le> j \<longrightarrow> le_sval w (blk w ?c (j + p)) = xs ! j"
    using Suc.prems(4) blk_write_at [OF length_le_bytes b, of ?x] by (auto simp: Suc_le_eq le_less)
  have old: "\<forall>j<i. le_sval ?v (blk ?v ?c j) = xs ! j"
  proof (intro allI impI)
    fix j assume "j < i"
    then have "(j + 1) * ?v \<le> (i + p) * w" using assms(1) by (intro mult_le_mono) auto
    moreover have "(i + p) * w \<le> length c" using b by simp
    ultimately show "le_sval ?v (blk ?v ?c j) = xs ! j"
      using Suc.prems(3) \<open>j < i\<close> by (simp add: blk_write_before)
  qed
  have len: "length ?c = length c" using b by (intro length_write_at) simp
  from Suc.IH [of ?c] Suc.prems(1) i new old len
  show ?case by (auto simp: get set)
qed

lemma arr_of_cells:
  "length c = length ys * w \<Longrightarrow> (\<And>j. j < length ys \<Longrightarrow> le_sval w (blk w c j) = ys ! j) \<Longrightarrow> arr w c ys"
  by (simp add: arr_def)

lemma intsetUpgradeAndAdd_ok:
  assumes "is_ok is" and "is_i64 v" and "intsetValueEncoding v > is_encoding is"
    and "is_length is + 1 < IS_LIMIT"
  shows "\<exists>is'. intsetUpgradeAndAdd g is v = Inr is' \<and> is_ok is' \<and>
    vals is' = (if v < 0 then v # vals is else vals is @ [v])"
proof -
  let ?xs = "vals is" and ?n = "length (vals is)" and ?e = "intsetValueEncoding v"
  let ?w = "width ?e" and ?v = "width (is_encoding is)"
  define p where "p = (if v < 0 then 1 else 0 :: nat)"
  have p: "p \<le> 1" by (simp add: p_def)
  note n = length_vals [OF assms(1)] and arr = is_ok_arr [OF assms(1)]
  have enc: "is_encoding is \<in> {2, 4, 8}" "?e \<in> {2, 4, 8}"
    using assms(1) by (auto simp: is_ok_def intsetValueEncoding_def intset_encs)
  have vw: "?v \<le> ?w" using width_enc [OF enc(1)] width_enc [OF enc(2)] assms(3) by linarith
  have len1: "is_length is + 1 = int (?n + 1)" using n by simp
  have nn: "nat (is_length is) = ?n" using n by simp
  have fv: "fits ?w v" using fits_iff [OF enc(2) assms(2)] by simp
  have fx: "\<forall>x\<in>set ?xs. fits ?w x"
  proof
    fix x assume "x \<in> set ?xs"
    from vals_fit [OF this] show "fits ?w x"
      using enc vw assms(3) by (auto simp: fits_def width_def intset_encs split: if_splits)
  qed
  define c0 where "c0 = realloc_buf g (is_contents is) ((?n + 1) * ?w)"
  let ?is = "is\<lparr>is_encoding := ?e\<rparr>"
  have resize: "intsetResize g ?is (is_length is + 1) = ?is\<lparr>is_contents := c0\<rparr>"
    using resize_size [OF enc(2), of "int (?n + 1)"] assms(4)
    unfolding intsetResize_def len1 c0_def by (simp del: of_nat_add of_nat_Suc)
  have old: "\<forall>j<?n. le_sval ?v (blk ?v c0 j) = ?xs ! j"
  proof (intro allI impI)
    fix j assume j: "j < ?n"
    have "?n * ?v \<le> (?n + 1) * ?w" using vw by (intro mult_le_mono) auto
    then have "blk ?v c0 j = blk ?v (is_contents is) j"
      using cell_bound_nat [OF j, of ?v] arr by (simp add: c0_def realloc_buf_def arr_length blk_append)
    then show "le_sval ?v (blk ?v c0 j) = ?xs ! j" using arr_nth [OF arr j] by simp
  qed
  obtain c where c: "upgrade_loop (?is\<lparr>is_contents := c0\<rparr>) (is_encoding is) (int p) ?n = Inr (?is\<lparr>is_contents := c\<rparr>)"
    "length c = (?n + 1) * ?w" "\<forall>j<?n. le_sval ?w (blk ?w c (j + p)) = ?xs ! j"
    using upgrade_loop_ok [OF vw, of ?is p ?xs c0 ?n] p fx old by (auto simp: c0_def)
  let ?i = "if v < 0 then 0 else ?n" and ?ys = "if v < 0 then v # ?xs else ?xs @ [v]"
  let ?d = "write_at c (?i * ?w) (le_bytes ?w v)"
  have b: "(?i + 1) * ?w \<le> length c" using c(2) by (simp add: mult_le_mono1)
  have set: "intsetSet (?is\<lparr>is_contents := c\<rparr>) (int ?i) v = Inr (?is\<lparr>is_contents := ?d\<rparr>)"
    using intsetSet_nat [of ?w "?is\<lparr>is_contents := c\<rparr>" ?i v] b by simp
  have v: "le_sval ?w (le_bytes ?w v) = v" using fv by (simp add: fits_def le_sval_le_bytes)
  have cell: "le_sval ?w (blk ?w ?d j) = ?ys ! j" if j: "j < ?n + 1" for j
  proof (cases "?i = j")
    case True
    then show ?thesis
      using blk_write_at [OF length_le_bytes b, of v j] v by (cases "v < 0") (auto simp: nth_append)
  next
    case False
    then have d: "blk ?w ?d j = blk ?w c j" using blk_write_at [OF length_le_bytes b, of v j] by simp
    obtain k where k: "k < ?n" "j = k + p" "?ys ! j = ?xs ! k"
    proof (cases "v < 0")
      case True
      with False j that [of "j - 1"] show ?thesis by (auto simp: p_def)
    qed (use False j that [of j] in \<open>auto simp: p_def nth_append\<close>)
    with c(3) d show ?thesis by simp
  qed
  have arrd: "arr ?w ?d ?ys"
    using cell c(2) b by (intro arr_of_cells) (auto simp: add.commute)
  let ?r = "?is\<lparr>is_contents := ?d, is_length := to_u32 (is_length is + 1)\<rparr>"
  have "\<forall>x\<in>set ?xs. if v < 0 then v < x else x < v"
    using wider_value [OF vals_fit enc(1) assms(2,3)] by blast
  then have "sorted_wrt (<) ?ys" using assms(1) by (auto simp: is_ok_def sorted_wrt_append)
  moreover have "to_u32 (is_length is + 1) = int (?n + 1)"
    unfolding len1 using assms(4) len1 by (simp add: cint IS_LIMIT_def)
  ultimately have "is_ok ?r \<and> vals ?r = ?ys"
    using arrd enc assms(4) n by (intro is_okI) (auto simp: len1)
  moreover have "intsetUpgradeAndAdd g is v = Inr ?r"
    using c(1) resize set n nn by (cases "v < 0") (simp_all add: intsetUpgradeAndAdd_def Let_def p_def)
  ultimately show ?thesis by blast
qed

section \<open>The operations implement a set\<close>

definition elems :: "intset \<Rightarrow> int set" where
  "elems is = set (vals is)"

lemma found_at_mem:
  assumes "sorted_wrt (<) xs" and "found_at xs v (b, p)"
  shows "b \<longleftrightarrow> v \<in> set xs"
proof (cases b)
  case True
  then have "nat p < length xs" "xs ! nat p = v" using assms(2) by (auto simp: found_at_def)
  then show ?thesis using True nth_mem by blast
next
  case False
  then have "splits_at xs v p" "0 \<le> p" using assms(2) by (auto simp: found_at_def splits_at_def)
  then have "splits_at xs v (int (nat p))" by simp
  from sorted_split_insert(2) [OF assms(1) this] False show ?thesis by simp
qed

lemma intsetAdd_ok:
  assumes "is_ok is" and "is_i64 v" and "is_length is + 1 < IS_LIMIT"
  shows "\<exists>is'. intsetAdd g is v = Inr (is', v \<notin> elems is) \<and> is_ok is' \<and>
    elems is' = insert v (elems is) \<and> is_length is' \<le> is_length is + 1"
proof -
  let ?xs = "vals is"
  have enc: "is_encoding is \<in> {2, 4, 8}" and sorted: "sorted_wrt (<) ?xs" using assms(1) by (auto simp: is_ok_def)
  show ?thesis
  proof (cases "intsetValueEncoding v > is_encoding is")
    case True
    obtain is' where r: "intsetUpgradeAndAdd g is v = Inr is'" "is_ok is'"
      "vals is' = (if v < 0 then v # ?xs else ?xs @ [v])"
      using intsetUpgradeAndAdd_ok [OF assms(1,2) True assms(3), of g] by blast
    have "v \<notin> set ?xs"
      using wider_value [OF vals_fit enc assms(2) True, of v] by (auto split: if_splits)
    moreover have "is_length is' = is_length is + 1"
      using length_vals [OF r(2)] length_vals [OF assms(1)] r(3) by (auto split: if_splits)
    ultimately show ?thesis using r True by (auto simp: intsetAdd_def elems_def)
  next
    case False
    obtain b p where bp: "intsetSearch is v = Inr (b, p)" "found_at ?xs v (b, p)"
      using intsetSearch_ok [OF assms(1)] by (metis surj_pair)
    have mem: "b \<longleftrightarrow> v \<in> set ?xs" using found_at_mem [OF sorted bp(2)] .
    show ?thesis
    proof (cases b)
      case True
      then show ?thesis using False bp mem assms(1) by (auto simp: intsetAdd_def elems_def)
    next
      case nb: False
      then obtain q where q: "p = int q" and sp: "splits_at ?xs v (int q)"
        using bp(2) by (auto simp: found_at_def splits_at_def elim: nonneg_int_cases)
      have fv: "fits (width (is_encoding is)) v" using fits_iff [OF enc assms(2)] False by simp
      obtain is' where r: "intsetAdd g is v = Inr (is', True)" "is_ok is'"
        "vals is' = take q ?xs @ v # drop q ?xs"
        using insert_fitting [OF assms(1) fv assms(3) sp, of g] False nb bp(1)
        by (auto simp: intsetAdd_def q)
      have "set ?xs = set (take q ?xs) \<union> set (drop q ?xs)"
        by (metis append_take_drop_id set_append)
      moreover have "is_length is' = is_length is + 1"
        using length_vals [OF r(2)] length_vals [OF assms(1)] r(3) sp
        by (simp add: splits_at_def)
      ultimately show ?thesis using r mem nb by (auto simp: elems_def)
    qed
  qed
qed

lemma sorted_delete:
  fixes xs :: "int list"
  assumes "sorted_wrt (<) xs" and "p < length xs"
  shows "sorted_wrt (<) (take p xs @ drop (Suc p) xs)"
    and "set (take p xs @ drop (Suc p) xs) = set xs - {xs ! p}"
proof -
  have e: "xs = take p xs @ xs ! p # drop (Suc p) xs" using assms(2) by (rule id_take_nth_drop)
  have s: "sorted_wrt (<) (take p xs @ xs ! p # drop (Suc p) xs)" using assms(1) e by metis
  then show "sorted_wrt (<) (take p xs @ drop (Suc p) xs)" by (auto simp: sorted_wrt_append)
  have "distinct (take p xs @ xs ! p # drop (Suc p) xs)" using s by (auto simp: strict_sorted_iff simp del: distinct_append)
  then have "xs ! p \<notin> set (take p xs) \<union> set (drop (Suc p) xs)" by auto
  moreover have "set xs = set (take p xs) \<union> {xs ! p} \<union> set (drop (Suc p) xs)"
    by (subst e) auto
  ultimately show "set (take p xs @ drop (Suc p) xs) = set xs - {xs ! p}" by auto
qed

lemma delete_found:
  assumes "is_ok is" and "p < length (vals is)"
  shows "\<exists>is'. (let len = is_length is in
      rbind (if int p < to_u32 (len - 1) then intsetMoveTail is (int p + 1) (int p) else Inr is) (\<lambda>is.
        Inr ((intsetResize g is (len - 1))\<lparr>is_length := to_u32 (len - 1)\<rparr>, True))) = Inr (is', True) \<and>
    is_ok is' \<and> vals is' = take p (vals is) @ drop (Suc p) (vals is)"
proof -
  let ?xs = "vals is" and ?w = "width (is_encoding is)"
  have enc: "is_encoding is \<in> {2, 4, 8}" and sorted: "sorted_wrt (<) ?xs" and lim: "is_length is < IS_LIMIT"
    using assms(1) by (auto simp: is_ok_def)
  define n where "n = length ?xs - 1"
  have n: "is_length is = int (n + 1)" "length ?xs = n + 1"
    using length_vals [OF assms(1)] assms(2) by (auto simp: n_def)
  have len: "to_u32 (is_length is - 1) = int n" using n lim by (simp add: cint IS_LIMIT_def)
  let ?ys = "take p ?xs @ drop (Suc p) ?xs"
  have ys: "length ?ys = n" using assms(2) n by simp
  have "\<exists>c y. (if int p < int n then intsetMoveTail is (int p + 1) (int p) else Inr is) =
      Inr (is\<lparr>is_contents := c\<rparr>) \<and> arr ?w c (?ys @ [y])"
  proof (cases "p < n")
    case True
    have "write_at ?xs p (take (n + 1 - (p + 1)) (drop (p + 1) ?xs)) = ?ys @ [?xs ! n]"
      using True n by (simp add: write_at_def Cons_nth_drop_Suc [symmetric])
    then show ?thesis
      using intsetMoveTail_arr [OF enc is_ok_arr [OF assms(1)] n(1), of "p + 1" p] lim n True
      by (auto simp: add.commute)
  next
    case False
    then have "p = n" using assms(2) n by simp
    then have "?ys @ [?xs ! n] = ?xs" using n by (simp add: take_Suc_conv_app_nth [symmetric])
    with False is_ok_arr [OF assms(1)] show ?thesis
      by (intro exI [of _ "is_contents is"] exI [of _ "?xs ! n"]) simp
  qed
  then obtain c y where c: "(if int p < int n then intsetMoveTail is (int p + 1) (int p) else Inr is) =
      Inr (is\<lparr>is_contents := c\<rparr>)" "arr ?w c (?ys @ [y])" by blast
  let ?is = "is\<lparr>is_contents := realloc_buf g c (n * ?w), is_length := int n\<rparr>"
  have "(intsetResize g (is\<lparr>is_contents := c\<rparr>) (is_length is - 1))\<lparr>is_length := int n\<rparr> = ?is"
    using resize_size [OF enc, of "int n"] lim n by (simp add: intsetResize_def)
  moreover have "is_ok ?is \<and> vals ?is = ?ys"
  proof (rule is_okI)
    show "arr (width (is_encoding ?is)) (is_contents ?is) ?ys"
      using shrink_arr [OF c(2), of g] ys by simp
  qed (use enc ys sorted_delete(1) [OF sorted assms(2)] lim n in auto)
  ultimately show ?thesis using c(1) len by (simp add: Let_def)
qed

lemma intsetRemove_ok:
  assumes "is_ok is" and "is_i64 v"
  shows "\<exists>is'. intsetRemove g is v = Inr (is', v \<in> elems is) \<and> is_ok is' \<and>
    elems is' = elems is - {v} \<and> is_length is' \<le> is_length is"
proof -
  let ?xs = "vals is"
  have enc: "is_encoding is \<in> {2, 4, 8}" and sorted: "sorted_wrt (<) ?xs" using assms(1) by (auto simp: is_ok_def)
  show ?thesis
  proof (cases "intsetValueEncoding v \<le> is_encoding is")
    case False
    then have "v \<notin> set ?xs" using vals_fit [of v "is"] fits_iff [OF enc assms(2)] by blast
    then show ?thesis using False assms(1) by (auto simp: intsetRemove_def elems_def)
  next
    case True
    obtain b p where bp: "intsetSearch is v = Inr (b, p)" "found_at ?xs v (b, p)"
      using intsetSearch_ok [OF assms(1)] by (metis surj_pair)
    have mem: "b \<longleftrightarrow> v \<in> set ?xs" using found_at_mem [OF sorted bp(2)] .
    show ?thesis
    proof (cases b)
      case False
      then show ?thesis using True bp mem assms(1) by (auto simp: intsetRemove_def elems_def)
    next
      case b: True
      then obtain q where p: "q < length ?xs" "?xs ! q = v" "p = int q"
        using bp(2) by (auto simp: found_at_def elim: nonneg_int_cases)
      obtain is' where r: "intsetRemove g is v = Inr (is', True)" "is_ok is'"
        "vals is' = take q ?xs @ drop (Suc q) ?xs"
        using delete_found [OF assms(1) p(1), of g] True b bp(1) p(3) by (auto simp: intsetRemove_def)
      moreover have "is_length is' \<le> is_length is"
        using length_vals [OF r(2)] length_vals [OF assms(1)] r(3) p(1) by simp
      ultimately show ?thesis
        using sorted_delete(2) [OF sorted p(1)] p(2) mem b by (auto simp: elems_def)
    qed
  qed
qed

lemma intsetFind_ok:
  assumes "is_ok is" and "is_i64 v"
  shows "intsetFind is v = Inr (v \<in> elems is)"
proof -
  let ?xs = "vals is"
  have enc: "is_encoding is \<in> {2, 4, 8}" and sorted: "sorted_wrt (<) ?xs" using assms(1) by (auto simp: is_ok_def)
  obtain b p where bp: "intsetSearch is v = Inr (b, p)" "found_at ?xs v (b, p)"
    using intsetSearch_ok [OF assms(1)] by (metis surj_pair)
  then show ?thesis
    using found_at_mem [OF sorted bp(2)] vals_fit [of v "is"] fits_iff [OF enc assms(2)]
    by (auto simp: intsetFind_def elems_def)
qed

section \<open>A set interface\<close>

text \<open>
  What the set type of the server relies on. A state below the size limit accepts every insertion;
  each operation reports membership before the call.
\<close>

datatype set_op = SAdd int | SRem int | SIsMember int

locale int_set =
  fixes add :: "'s \<Rightarrow> int \<Rightarrow> ('e, 's \<times> bool) result"
    and rem :: "'s \<Rightarrow> int \<Rightarrow> ('e, 's \<times> bool) result"
    and mem :: "'s \<Rightarrow> int \<Rightarrow> ('e, bool) result"
    and ok :: "'s \<Rightarrow> bool"
    and els :: "'s \<Rightarrow> int set"
    and size :: "'s \<Rightarrow> int"
    and valid :: "int \<Rightarrow> bool"
    and limit :: int
  assumes add_law: "ok s \<Longrightarrow> valid v \<Longrightarrow> size s + 1 < limit \<Longrightarrow>
      \<exists>s'. add s v = Inr (s', v \<notin> els s) \<and> ok s' \<and> els s' = insert v (els s) \<and> size s' \<le> size s + 1"
    and rem_law: "ok s \<Longrightarrow> valid v \<Longrightarrow>
      \<exists>s'. rem s v = Inr (s', v \<in> els s) \<and> ok s' \<and> els s' = els s - {v} \<and> size s' \<le> size s"
    and mem_law: "ok s \<Longrightarrow> valid v \<Longrightarrow> mem s v = Inr (v \<in> els s)"

fun set_step :: "('s \<Rightarrow> int \<Rightarrow> ('e, 's \<times> bool) result) \<Rightarrow> ('s \<Rightarrow> int \<Rightarrow> ('e, 's \<times> bool) result) \<Rightarrow>
    ('s \<Rightarrow> int \<Rightarrow> ('e, bool) result) \<Rightarrow> 's \<Rightarrow> set_op \<Rightarrow> ('e, 's \<times> bool) result" where
  "set_step add rem mem s (SAdd v) = add s v"
| "set_step add rem mem s (SRem v) = rem s v"
| "set_step add rem mem s (SIsMember v) = rbind (mem s v) (\<lambda>b. Inr (s, b))"

fun set_run :: "('s \<Rightarrow> int \<Rightarrow> ('e, 's \<times> bool) result) \<Rightarrow> ('s \<Rightarrow> int \<Rightarrow> ('e, 's \<times> bool) result) \<Rightarrow>
    ('s \<Rightarrow> int \<Rightarrow> ('e, bool) result) \<Rightarrow> 's \<Rightarrow> set_op list \<Rightarrow> ('e, 's \<times> bool list) result" where
  "set_run add rem mem s [] = Inr (s, [])"
| "set_run add rem mem s (p # ps) =
     rbind (set_step add rem mem s p) (\<lambda>(s, b).
     rbind (set_run add rem mem s ps) (\<lambda>(s, bs). Inr (s, b # bs)))"

fun op_value :: "set_op \<Rightarrow> int" where
  "op_value (SAdd v) = v" | "op_value (SRem v) = v" | "op_value (SIsMember v) = v"

text \<open>The same operations on mathematical sets: the reply and the new set.\<close>

fun spec_step :: "int set \<Rightarrow> set_op \<Rightarrow> int set \<times> bool" where
  "spec_step A (SAdd v) = (insert v A, v \<notin> A)"
| "spec_step A (SRem v) = (A - {v}, v \<in> A)"
| "spec_step A (SIsMember v) = (A, v \<in> A)"

fun spec_run :: "int set \<Rightarrow> set_op list \<Rightarrow> int set \<times> bool list" where
  "spec_run A [] = (A, [])"
| "spec_run A (p # ps) = (let (A, b) = spec_step A p; (A, bs) = spec_run A ps in (A, b # bs))"

context int_set
begin

lemma set_step_law:
  assumes "ok s" and "valid (op_value p)" and "size s + 1 < limit"
  shows "\<exists>s'. set_step add rem mem s p = Inr (s', snd (spec_step (els s) p)) \<and> ok s' \<and>
    els s' = fst (spec_step (els s) p) \<and> size s' \<le> size s + 1"
  using assms add_law [of s] rem_law [of s] mem_law [of s]
  by (cases p) (force intro: order_trans)+

lemma set_run_law:
  assumes "ok s" and "\<forall>p\<in>set ps. valid (op_value p)" and "size s + int (length ps) < limit"
  shows "\<exists>s'. set_run add rem mem s ps = Inr (s', snd (spec_run (els s) ps)) \<and> ok s' \<and>
    els s' = fst (spec_run (els s) ps)"
  using assms
proof (induction ps arbitrary: s)
  case (Cons p ps)
  then obtain s1 where s1: "set_step add rem mem s p = Inr (s1, snd (spec_step (els s) p))" "ok s1"
    "els s1 = fst (spec_step (els s) p)" "size s1 \<le> size s + 1"
    using set_step_law [of s p] by auto
  obtain s2 where "set_run add rem mem s1 ps = Inr (s2, snd (spec_run (els s1) ps))" "ok s2"
    "els s2 = fst (spec_run (els s1) ps)"
    using Cons.IH [of s1] s1 Cons.prems by auto
  with s1 show ?case by (simp add: split_beta Let_def)
qed simp

end

interpretation intset: int_set "intsetAdd g" "intsetRemove g" intsetFind is_ok elems is_length is_i64 IS_LIMIT
  for g
  by unfold_locales (use intsetAdd_ok intsetRemove_ok intsetFind_ok in blast)+

lemma intsetNew_ok: "is_ok intsetNew" "elems intsetNew = {}" "is_length intsetNew = 0"
  by (auto simp: intsetNew_def is_ok_def elems_def vals_def IS_LIMIT_def intset_encs)

text \<open>
  C15. The integer set refines the mathematical set: starting from \<open>intsetNew\<close>, any sequence of insertions,
  deletions and membership tests on 64-bit integers (fewer than \<open>2 ^ 29\<close> of them) succeeds without an
  access outside the block, and every reply is the one of the set operation, through all encoding
  upgrades and whatever fresh memory contains.
\<close>

theorem intset_refines_set:
  assumes "\<forall>p\<in>set ps. is_i64 (op_value p)" and "int (length ps) < IS_LIMIT"
  shows "\<exists>s. set_run (intsetAdd g) (intsetRemove g) intsetFind intsetNew ps = Inr (s, snd (spec_run {} ps)) \<and>
    is_ok s \<and> elems s = fst (spec_run {} ps)"
  using intset.set_run_law [of intsetNew ps g] assms intsetNew_ok by simp

theorem intset_refines_set_witness:
  "\<exists>s. set_run (intsetAdd (\<lambda>_. 255)) (intsetRemove (\<lambda>_. 255)) intsetFind intsetNew
       [SAdd 5, SAdd (- 70000), SAdd 5, SRem 5, SIsMember (- 70000)] = Inr (s, [True, True, False, True, True])"
  using intset_refines_set [of "[SAdd 5, SAdd (- 70000), SAdd 5, SRem 5, SIsMember (- 70000)]" "\<lambda>_. 255"]
  by (auto simp: IS_LIMIT_def)

text \<open>
  C16. The set can be read back in order: \<open>intsetLen\<close> is the cardinality, \<open>intsetGet\<close> at position \<open>k\<close>
  gives the \<open>k\<close>-th smallest element and reports positions outside, \<open>intsetRandom\<close> gives an element
  for every random number, and \<open>intsetBlobLen\<close> is the size of the block (header and cells).
\<close>

theorem intset_enumerates:
  assumes "is_ok is"
  shows "intsetLen is = int (card (elems is)) \<and>
    (\<forall>k. 0 \<le> k \<longrightarrow> intsetGet is k = Inr (if k < intsetLen is then Some (sorted_list_of_set (elems is) ! nat k) else None)) \<and>
    (\<forall>r. 0 \<le> r \<longrightarrow> intsetLen is \<noteq> 0 \<longrightarrow> (\<exists>v\<in>elems is. intsetRandom is r = Inr v)) \<and>
    intsetBlobLen is = 8 + int (length (is_contents is))"
proof -
  let ?xs = "vals is"
  have d: "sorted ?xs" "distinct ?xs" using assms by (auto simp: is_ok_def strict_sorted_iff)
  have n: "int (length ?xs) = is_length is" using length_vals [OF assms] .
  have get: "intsetGet0 is k = Inr (?xs ! nat k)" if "0 \<le> k" "k < is_length is" for k
    unfolding intsetGet0_def using get_arr [OF is_ok_arr [OF assms] that(1)] that(2) n by simp
  have sl: "sorted_list_of_set (elems is) = ?xs"
    unfolding elems_def using sorted_list_of_set.idem_if_sorted_distinct [OF d] .
  have 1: "intsetLen is = int (card (elems is))"
    using distinct_card [OF d(2)] n by (simp add: intsetLen_def elems_def)
  have 2: "intsetGet is k = Inr (if k < intsetLen is then Some (sorted_list_of_set (elems is) ! nat k) else None)"
    if "0 \<le> k" for k
    using get [OF that] unfolding sl by (simp add: intsetGet_def intsetLen_def)
  have 3: "\<exists>v\<in>elems is. intsetRandom is r = Inr v" if "0 \<le> r" "intsetLen is \<noteq> 0" for r
  proof -
    have "0 < is_length is" using that assms by (auto simp: intsetLen_def is_ok_def)
    then have r: "0 \<le> r mod is_length is" "r mod is_length is < is_length is" by auto
    then have "nat (r mod is_length is) < length ?xs" using n by linarith
    then show ?thesis
      using get [OF r] \<open>0 < is_length is\<close> by (auto simp: intsetRandom_def elems_def)
  qed
  have 4: "intsetBlobLen is = 8 + int (length (is_contents is))"
    using assms by (auto simp: intsetBlobLen_def is_ok_def IS_LIMIT_def width_def intset_encs cint)
  show ?thesis using 1 2 3 4 by simp
qed

theorem intset_enumerates_witness:
  "intsetGet \<lparr>is_encoding = 2, is_length = 2, is_contents = [254, 255, 7, 0]\<rparr> 1 = Inr (Some 7)"
proof -
  let ?is = "\<lparr>is_encoding = 2, is_length = 2, is_contents = [254, 255, 7, 0]\<rparr>"
  have v: "vals ?is = [- 2, 7]" by code_simp
  have "is_ok ?is" unfolding is_ok_def v by (simp add: IS_LIMIT_def width_def intset_encs)
  from intset_enumerates [OF this] show ?thesis
    by (simp add: elems_def v intsetLen_def)
qed

end
