(* ===== verification/Dict.thy ===== *)
theory Dict
  imports Memory_Aggregator
begin

text \<open>
  \<open>dict.c\<close>: the hash tables with incremental rehashing behind every keyspace, and the hash
  functions. A bucket is the list of its entries in the order of the \<open>next\<close> links; an entry
  carries its address, which comes from \<open>alloc_entry_random\<close> of the memory aggregator, and
  an update through an entry pointer acts on every entry at that address. The state of a
  dictionary is extended by the process-wide data its operations use: the page pool, the flag
  \<open>dict_can_resize\<close>, and a log of the destructor and \<open>zfree\<close> calls. The \<open>dictType\<close> callbacks
  are an argument of the operations.
\<close>

section \<open>Data\<close>

record ('k, 'v) dictEntry =
  de_addr :: addr
  de_key :: 'k
  de_val :: "'v option"      \<comment> \<open>\<open>None\<close>: not stored yet\<close>

record ('k, 'v) dictType =
  hashFunction :: "'k \<Rightarrow> u32"
  keyDup :: "('k \<Rightarrow> 'k) option"
  valDup :: "('v \<Rightarrow> 'v) option"
  keyCompare :: "('k \<Rightarrow> 'k \<Rightarrow> bool) option"
  keyDestructor :: bool
  valDestructor :: bool

record ('k, 'v) dictht =
  table :: "('k, 'v) dictEntry list list option"    \<comment> \<open>\<open>None\<close>: NULL\<close>
  ht_size :: int
  sizemask :: int
  used :: int

datatype ('k, 'v) event =
    KeyDestroyed 'k | ValDestroyed "'v option" | EntryFreed addr | TableFreed

record ('k, 'v) dict =
  ht0 :: "('k, 'v) dictht"
  ht1 :: "('k, 'v) dictht"
  rehashidx :: int
  iterators :: int
  pool :: agg
  dict_can_resize :: bool
  events :: "('k, 'v) event list"

datatype dict_error =
    NullTable          \<comment> \<open>a NULL table is indexed\<close>
  | OutsideTable       \<comment> \<open>a bucket behind the table is read\<close>
  | NullEntry          \<comment> \<open>a NULL entry is dereferenced\<close>
  | FreedEntry addr    \<comment> \<open>the entry at this address is no longer linked in the tables\<close>
  | AssertRehashidx | AssertFingerprint
  | NoMoreRandom       \<comment> \<open>the script of \<open>random()\<close> answers is used up\<close>
  | ModuloZero
  | PoolError agg_error

definition DICT_HT_INITIAL_SIZE :: int where
  "DICT_HT_INITIAL_SIZE = 4"

definition dict_force_resize_ratio :: int where
  "dict_force_resize_ratio = 5"

text \<open>\<open>sizeof(dictEntry)\<close>: key, value and link.\<close>

definition sizeof_dictEntry :: int where
  "sizeof_dictEntry = 24"

section \<open>Macros of \<open>dict.h\<close>\<close>

definition dictCompareKeys :: "('k, 'v) dictType \<Rightarrow> 'k \<Rightarrow> 'k \<Rightarrow> bool" where
  "dictCompareKeys T key1 key2 = (case keyCompare T of Some f \<Rightarrow> f key1 key2 | None \<Rightarrow> key1 = key2)"

definition dictHashKey :: "('k, 'v) dictType \<Rightarrow> 'k \<Rightarrow> int" where
  "dictHashKey T key = uint (hashFunction T key)"

definition dictIsRehashing :: "('k, 'v) dict \<Rightarrow> bool" where
  "dictIsRehashing d \<longleftrightarrow> rehashidx d \<noteq> - 1"

definition dictSize :: "('k, 'v) dict \<Rightarrow> int" where
  "dictSize d = to_u64 (used (ht0 d) + used (ht1 d))"

definition dictSlots :: "('k, 'v) dict \<Rightarrow> int" where
  "dictSlots d = to_u64 (ht_size (ht0 d) + ht_size (ht1 d))"

definition dictFreeKey :: "('k, 'v) dictType \<Rightarrow> ('k, 'v) dictEntry \<Rightarrow> ('k, 'v) event list" where
  "dictFreeKey T e = (if keyDestructor T then [KeyDestroyed (de_key e)] else [])"

definition dictFreeVal :: "('k, 'v) dictType \<Rightarrow> ('k, 'v) dictEntry \<Rightarrow> ('k, 'v) event list" where
  "dictFreeVal T e = (if valDestructor T then [ValDestroyed (de_val e)] else [])"

text \<open>The key and value stored by \<open>dictSetKey\<close> and \<open>dictSetVal\<close>.\<close>

definition dup_key :: "('k, 'v) dictType \<Rightarrow> 'k \<Rightarrow> 'k" where
  "dup_key T key = (case keyDup T of Some f \<Rightarrow> f key | None \<Rightarrow> key)"

definition dup_val :: "('k, 'v) dictType \<Rightarrow> 'v \<Rightarrow> 'v" where
  "dup_val T val = (case valDup T of Some f \<Rightarrow> f val | None \<Rightarrow> val)"

text \<open>A store through an entry pointer: every entry at that address gets the value.\<close>

definition upd_table :: "(('k, 'v) dictEntry \<Rightarrow> ('k, 'v) dictEntry) \<Rightarrow> ('k, 'v) dictht \<Rightarrow> ('k, 'v) dictht" where
  "upd_table f ht = ht\<lparr>table := map_option (map (map f)) (table ht)\<rparr>"

definition dictSetVal :: "('k, 'v) dictType \<Rightarrow> addr \<Rightarrow> 'v \<Rightarrow> ('k, 'v) dict \<Rightarrow> ('k, 'v) dict" where
  "dictSetVal T a val d =
     (let f = (\<lambda>e. if de_addr e = a then e\<lparr>de_val := Some (dup_val T val)\<rparr> else e)
      in d\<lparr>ht0 := upd_table f (ht0 d), ht1 := upd_table f (ht1 d)\<rparr>)"

definition bucket :: "('k, 'v) dictht \<Rightarrow> int \<Rightarrow> (dict_error, ('k, 'v) dictEntry list) result" where
  "bucket ht i =
     (case table ht of
        None \<Rightarrow> Inl NullTable
      | Some bs \<Rightarrow> if 0 \<le> i \<and> i < int (length bs) then Inr (bs ! nat i) else Inl OutsideTable)"

definition set_bucket :: "('k, 'v) dictht \<Rightarrow> int \<Rightarrow> ('k, 'v) dictEntry list \<Rightarrow> ('k, 'v) dictht" where
  "set_bucket ht i c = ht\<lparr>table := map_option (\<lambda>bs. bs[nat i := c]) (table ht)\<rparr>"

section \<open>Creation and expansion\<close>

definition dictReset :: "('k, 'v) dictht" where
  "dictReset = \<lparr>table = None, ht_size = 0, sizemask = 0, used = 0\<rparr>"

text \<open>\<open>dictCreate\<close> and \<open>_dictInit\<close>, in a process with the given page pool and resize flag.\<close>

definition dictCreate :: "agg \<Rightarrow> bool \<Rightarrow> ('k, 'v) dict" where
  "dictCreate ag can_resize = \<lparr>ht0 = dictReset, ht1 = dictReset, rehashidx = - 1, iterators = 0,
     pool = ag, dict_can_resize = can_resize, events = []\<rparr>"

text \<open>\<open>_dictNextPower\<close>: the variable \<open>i\<close> is \<open>DICT_HT_INITIAL_SIZE * 2 ^ k\<close>.\<close>

function next_power_loop :: "int \<Rightarrow> nat \<Rightarrow> int" where
  "next_power_loop sz k =
     (let i = DICT_HT_INITIAL_SIZE * 2 ^ k in if i \<ge> sz then i else next_power_loop sz (k + 1))"
  by pat_completeness auto
termination
proof (relation "measure (\<lambda>(sz, k). nat (sz - 2 ^ k))", goal_cases)
  case (2 sz k i)
  define x where "x = (2::int) ^ k"
  have "1 \<le> x" "4 * x < sz" "(2::int) ^ (k + 1) = 2 * x" using 2 by (auto simp: x_def DICT_HT_INITIAL_SIZE_def)
  then show ?case by (simp flip: x_def)
qed simp

declare next_power_loop.simps [simp del]

definition LONG_MAX :: int where
  "LONG_MAX = 9223372036854775807"

definition dictNextPower :: "int \<Rightarrow> int" where
  "dictNextPower sz = (if sz \<ge> LONG_MAX then LONG_MAX else next_power_loop sz 0)"

text \<open>The functions that return \<open>DICT_OK\<close> or \<open>DICT_ERR\<close> give \<open>True\<close> for the first.\<close>

definition dictExpand :: "('k, 'v) dict \<Rightarrow> int \<Rightarrow> ('k, 'v) dict \<times> bool" where
  "dictExpand d sz =
     (let realsize = dictNextPower sz in
      if dictIsRehashing d \<or> used (ht0 d) > sz then (d, False)
      else let n = \<lparr>table = Some (replicate (nat realsize) []), ht_size = realsize,
                    sizemask = realsize - 1, used = 0\<rparr>
           in if table (ht0 d) = None then (d\<lparr>ht0 := n\<rparr>, True)
              else (d\<lparr>ht1 := n, rehashidx := 0\<rparr>, True))"

definition dictResize :: "('k, 'v) dict \<Rightarrow> ('k, 'v) dict \<times> bool" where
  "dictResize d =
     (if \<not> dict_can_resize d \<or> dictIsRehashing d then (d, False)
      else let minimal = to_i32 (used (ht0 d));
               minimal = (if minimal < DICT_HT_INITIAL_SIZE then DICT_HT_INITIAL_SIZE else minimal)
           in dictExpand d (to_u64 minimal))"

definition dictExpandIfNeeded :: "('k, 'v) dict \<Rightarrow> ('k, 'v) dict \<times> bool" where
  "dictExpandIfNeeded d =
     (if dictIsRehashing d then (d, True)
      else if ht_size (ht0 d) = 0 then dictExpand d DICT_HT_INITIAL_SIZE
      else if used (ht0 d) \<ge> ht_size (ht0 d) \<and>
              (dict_can_resize d \<or> used (ht0 d) div ht_size (ht0 d) > dict_force_resize_ratio)
      then dictExpand d (to_u64 ((if ht_size (ht0 d) > used (ht0 d) then ht_size (ht0 d) else used (ht0 d)) * 2))
      else (d, True))"

definition dictEnableResize :: "('k, 'v) dict \<Rightarrow> ('k, 'v) dict" where
  "dictEnableResize d = d\<lparr>dict_can_resize := True\<rparr>"

definition dictDisableResize :: "('k, 'v) dict \<Rightarrow> ('k, 'v) dict" where
  "dictDisableResize d = d\<lparr>dict_can_resize := False\<rparr>"

section \<open>Rehashing\<close>

text \<open>\<open>while(d->ht[0].table[d->rehashidx] == NULL) d->rehashidx++\<close>, which reads on until it finds a
  bucket.\<close>

fun skip_empty :: "('k, 'v) dictEntry list list \<Rightarrow> int \<Rightarrow> (dict_error, int) result" where
  "skip_empty [] i = Inl OutsideTable"
| "skip_empty (c # bs) i = (if c = [] then skip_empty bs (i + 1) else Inr i)"

text \<open>The loop that moves the entries of one bucket, in link order, to the front of their new buckets.\<close>

fun move_entries ::
    "('k, 'v) dictType \<Rightarrow> ('k, 'v) dictEntry list \<Rightarrow> ('k, 'v) dict \<Rightarrow> (dict_error, ('k, 'v) dict) result"
where
  "move_entries T [] d = Inr d"
| "move_entries T (de # nextde) d =
     (let h = dictHashKey T (de_key de) AND sizemask (ht1 d) in
      rbind (bucket (ht1 d) h) (\<lambda>c.
        move_entries T nextde
          (d\<lparr>ht1 := (set_bucket (ht1 d) h (de # c))\<lparr>used := to_u64 (used (ht1 d) + 1)\<rparr>,
             ht0 := (ht0 d)\<lparr>used := to_u64 (used (ht0 d) - 1)\<rparr>\<rparr>)))"

text \<open>One round of \<open>while(n--)\<close>: the state and whether the function returns 0 here.\<close>

definition rehash_round :: "('k, 'v) dictType \<Rightarrow> ('k, 'v) dict \<Rightarrow> (dict_error, ('k, 'v) dict \<times> bool) result" where
  "rehash_round T d =
     (if used (ht0 d) = 0
      then Inr (d\<lparr>ht0 := ht1 d, ht1 := dictReset, rehashidx := - 1, events := events d @ [TableFreed]\<rparr>, True)
      else if \<not> ht_size (ht0 d) > to_u32 (rehashidx d) then Inl AssertRehashidx
      else rbind (opt_or NullTable (table (ht0 d))) (\<lambda>bs.
           rbind (skip_empty (drop (nat (rehashidx d)) bs) (rehashidx d)) (\<lambda>i.
           rbind (bucket (ht0 d) i) (\<lambda>c.
           rbind (move_entries T c (d\<lparr>rehashidx := i\<rparr>)) (\<lambda>d.
             Inr (d\<lparr>ht0 := set_bucket (ht0 d) i [], rehashidx := i + 1\<rparr>, False))))))"

fun rehash_rounds :: "('k, 'v) dictType \<Rightarrow> nat \<Rightarrow> ('k, 'v) dict \<Rightarrow> (dict_error, ('k, 'v) dict \<times> bool) result" where
  "rehash_rounds T 0 d = Inr (d, True)"
| "rehash_rounds T (Suc n) d =
     rbind (rehash_round T d) (\<lambda>(d, stop). if stop then Inr (d, False) else rehash_rounds T n d)"

text \<open>\<open>dictRehash\<close>: the result is \<open>True\<close> when it returns 1. The count is not negative.\<close>

definition dictRehash :: "('k, 'v) dictType \<Rightarrow> ('k, 'v) dict \<Rightarrow> nat \<Rightarrow> (dict_error, ('k, 'v) dict \<times> bool) result" where
  "dictRehash T d n = (if \<not> dictIsRehashing d then Inr (d, False) else rehash_rounds T n d)"

text \<open>\<open>dictRehashMilliseconds\<close>: \<open>late\<close> is the sequence of outcomes of the time test.\<close>

fun dictRehashMilliseconds ::
    "('k, 'v) dictType \<Rightarrow> ('k, 'v) dict \<Rightarrow> bool list \<Rightarrow> (dict_error, ('k, 'v) dict \<times> int) result"
where
  "dictRehashMilliseconds T d [] = Inl NoMoreRandom"
| "dictRehashMilliseconds T d (late # ts) =
     rbind (dictRehash T d 100) (\<lambda>(d, more).
       if \<not> more then Inr (d, 0)
       else if late then Inr (d, 100)
       else rbind (dictRehashMilliseconds T d ts) (\<lambda>(d, n). Inr (d, n + 100)))"

definition dictRehashStep :: "('k, 'v) dictType \<Rightarrow> ('k, 'v) dict \<Rightarrow> (dict_error, ('k, 'v) dict) result" where
  "dictRehashStep T d =
     (if iterators d = 0 then rbind (dictRehash T d 1) (\<lambda>(d, more). Inr d) else Inr d)"

text \<open>\<open>if (dictIsRehashing(d)) _dictRehashStep(d)\<close>\<close>

definition rehash_if :: "('k, 'v) dictType \<Rightarrow> ('k, 'v) dict \<Rightarrow> (dict_error, ('k, 'v) dict) result" where
  "rehash_if T d = (if dictIsRehashing d then dictRehashStep T d else Inr d)"

section \<open>Lookup\<close>

text \<open>The loop \<open>for (table = 0; table <= 1; table++)\<close> over the two chains a key can be in.\<close>

definition scan_chain :: "('k, 'v) dictType \<Rightarrow> 'k \<Rightarrow> ('k, 'v) dictEntry list \<Rightarrow> ('k, 'v) dictEntry option" where
  "scan_chain T key c = find (\<lambda>he. dictCompareKeys T key (de_key he)) c"

definition scan_tables ::
    "('k, 'v) dictType \<Rightarrow> 'k \<Rightarrow> ('k, 'v) dict \<Rightarrow> (dict_error, ('k, 'v) dictEntry option) result"
where
  "scan_tables T key d =
     (let h = dictHashKey T key in
      rbind (bucket (ht0 d) (h AND sizemask (ht0 d))) (\<lambda>c.
        case scan_chain T key c of
          Some he \<Rightarrow> Inr (Some he)
        | None \<Rightarrow>
            if \<not> dictIsRehashing d then Inr None
            else rbind (bucket (ht1 d) (h AND sizemask (ht1 d))) (\<lambda>c. Inr (scan_chain T key c))))"

definition dictFind ::
    "('k, 'v) dictType \<Rightarrow> ('k, 'v) dict \<Rightarrow> 'k \<Rightarrow> (dict_error, ('k, 'v) dict \<times> ('k, 'v) dictEntry option) result"
where
  "dictFind T d key =
     (if ht_size (ht0 d) = 0 then Inr (d, None)
      else rbind (rehash_if T d) (\<lambda>d. rbind (scan_tables T key d) (\<lambda>he. Inr (d, he))))"

text \<open>\<open>dictFetchValue\<close>: \<open>None\<close> is NULL, \<open>Some v\<close> the value field of the entry found.\<close>

definition dictFetchValue ::
    "('k, 'v) dictType \<Rightarrow> ('k, 'v) dict \<Rightarrow> 'k \<Rightarrow> (dict_error, ('k, 'v) dict \<times> 'v option option) result"
where
  "dictFetchValue T d key = rbind (dictFind T d key) (\<lambda>(d, he). Inr (d, map_option de_val he))"

text \<open>\<open>_dictKeyIndex\<close>: \<open>None\<close> is -1.\<close>

definition dictKeyIndex ::
    "('k, 'v) dictType \<Rightarrow> ('k, 'v) dict \<Rightarrow> 'k \<Rightarrow> (dict_error, ('k, 'v) dict \<times> int option) result"
where
  "dictKeyIndex T d key =
     (let (d, ok) = dictExpandIfNeeded d in
      if \<not> ok then Inr (d, None)
      else rbind (scan_tables T key d) (\<lambda>he.
        case he of
          Some _ \<Rightarrow> Inr (d, None)
        | None \<Rightarrow> Inr (d, Some (dictHashKey T key AND
                     sizemask (if dictIsRehashing d then ht1 d else ht0 d)))))"

section \<open>Insertion\<close>

text \<open>\<open>dictAddRaw\<close>: the new entry, or \<open>None\<close> when the key exists.\<close>

definition dictAddRaw ::
    "('k, 'v) dictType \<Rightarrow> ('k, 'v) dict \<Rightarrow> 'k \<Rightarrow> (dict_error, ('k, 'v) dict \<times> ('k, 'v) dictEntry option) result"
where
  "dictAddRaw T d key =
     rbind (rehash_if T d) (\<lambda>d.
     rbind (dictKeyIndex T d key) (\<lambda>(d, index).
       case index of
         None \<Rightarrow> Inr (d, None)
       | Some index \<Rightarrow>
           let ht = (if dictIsRehashing d then ht1 d else ht0 d) in
           (case alloc_entry_random sizeof_dictEntry (pool d) of
              Inl e \<Rightarrow> Inl (PoolError e)
            | Inr (a, ag) \<Rightarrow>
                rbind (bucket ht index) (\<lambda>c.
                  let entry = \<lparr>de_addr = a, de_key = dup_key T key, de_val = None\<rparr>;
                      ht = (set_bucket ht index (entry # c))\<lparr>used := to_u64 (used ht + 1)\<rparr>;
                      d = d\<lparr>pool := ag\<rparr>;
                      d = (if dictIsRehashing d then d\<lparr>ht1 := ht\<rparr> else d\<lparr>ht0 := ht\<rparr>)
                  in Inr (d, Some entry)))))"

definition dictAdd ::
    "('k, 'v) dictType \<Rightarrow> ('k, 'v) dict \<Rightarrow> 'k \<Rightarrow> 'v \<Rightarrow> (dict_error, ('k, 'v) dict \<times> bool) result"
where
  "dictAdd T d key val =
     rbind (dictAddRaw T d key) (\<lambda>(d, entry).
       case entry of
         None \<Rightarrow> Inr (d, False)
       | Some e \<Rightarrow> Inr (dictSetVal T (de_addr e) val d, True))"

text \<open>\<open>dictReplace\<close>: \<open>True\<close> when the key was added.\<close>

definition dictReplace ::
    "('k, 'v) dictType \<Rightarrow> ('k, 'v) dict \<Rightarrow> 'k \<Rightarrow> 'v \<Rightarrow> (dict_error, ('k, 'v) dict \<times> bool) result"
where
  "dictReplace T d key val =
     rbind (dictAdd T d key val) (\<lambda>(d, added).
       if added then Inr (d, True)
       else rbind (dictFind T d key) (\<lambda>(d, entry).
         case entry of
           None \<Rightarrow> Inl NullEntry
         | Some auxentry \<Rightarrow>
             let d = dictSetVal T (de_addr auxentry) val d
             in Inr (d\<lparr>events := events d @ dictFreeVal T auxentry\<rparr>, False)))"

definition dictReplaceRaw ::
    "('k, 'v) dictType \<Rightarrow> ('k, 'v) dict \<Rightarrow> 'k \<Rightarrow> (dict_error, ('k, 'v) dict \<times> ('k, 'v) dictEntry option) result"
where
  "dictReplaceRaw T d key =
     rbind (dictFind T d key) (\<lambda>(d, entry).
       case entry of Some e \<Rightarrow> Inr (d, Some e) | None \<Rightarrow> dictAddRaw T d key)"

section \<open>Deletion\<close>

text \<open>Unlinking the first match of a chain.\<close>

fun unlink :: "('k, 'v) dictType \<Rightarrow> 'k \<Rightarrow> ('k, 'v) dictEntry list \<Rightarrow>
    (('k, 'v) dictEntry \<times> ('k, 'v) dictEntry list) option" where
  "unlink T key [] = None"
| "unlink T key (he # c) =
     (if dictCompareKeys T key (de_key he) then Some (he, c)
      else case unlink T key c of None \<Rightarrow> None | Some (x, c') \<Rightarrow> Some (x, he # c'))"

definition delete_events ::
    "('k, 'v) dictType \<Rightarrow> bool \<Rightarrow> ('k, 'v) dictEntry \<Rightarrow> ('k, 'v) event list" where
  "delete_events T nofree he =
     (if nofree then [] else dictFreeKey T he @ dictFreeVal T he) @ [EntryFreed (de_addr he)]"

definition dictGenericDelete ::
    "('k, 'v) dictType \<Rightarrow> ('k, 'v) dict \<Rightarrow> 'k \<Rightarrow> bool \<Rightarrow> (dict_error, ('k, 'v) dict \<times> bool) result"
where
  "dictGenericDelete T d key nofree =
     (if ht_size (ht0 d) = 0 then Inr (d, False)
      else rbind (rehash_if T d) (\<lambda>d.
        let h = dictHashKey T key; idx = h AND sizemask (ht0 d) in
        rbind (bucket (ht0 d) idx) (\<lambda>c.
          case unlink T key c of
            Some (he, c') \<Rightarrow>
              Inr (d\<lparr>ht0 := (set_bucket (ht0 d) idx c')\<lparr>used := to_u64 (used (ht0 d) - 1)\<rparr>,
                     events := events d @ delete_events T nofree he\<rparr>, True)
          | None \<Rightarrow>
              if \<not> dictIsRehashing d then Inr (d, False)
              else let idx = h AND sizemask (ht1 d) in
                rbind (bucket (ht1 d) idx) (\<lambda>c.
                  case unlink T key c of
                    Some (he, c') \<Rightarrow>
                      Inr (d\<lparr>ht1 := (set_bucket (ht1 d) idx c')\<lparr>used := to_u64 (used (ht1 d) - 1)\<rparr>,
                             events := events d @ delete_events T nofree he\<rparr>, True)
                  | None \<Rightarrow> Inr (d, False)))))"

definition dictDelete ::
    "('k, 'v) dictType \<Rightarrow> ('k, 'v) dict \<Rightarrow> 'k \<Rightarrow> (dict_error, ('k, 'v) dict \<times> bool) result" where
  "dictDelete T d key = dictGenericDelete T d key False"

definition dictDeleteNoFree ::
    "('k, 'v) dictType \<Rightarrow> ('k, 'v) dict \<Rightarrow> 'k \<Rightarrow> (dict_error, ('k, 'v) dict \<times> bool) result" where
  "dictDeleteNoFree T d key = dictGenericDelete T d key True"

text \<open>\<open>_dictClear\<close>: the calls it makes, bucket by bucket, while \<open>used\<close> is positive. The table
  itself is released and the header reset.\<close>

fun clear_buckets ::
    "('k, 'v) dictType \<Rightarrow> int \<Rightarrow> ('k, 'v) dictEntry list list \<Rightarrow> ('k, 'v) event list"
where
  "clear_buckets T n [] = []"
| "clear_buckets T n (c # bs) =
     (if n > 0
      then concat (map (delete_events T False) c) @ clear_buckets T (to_u64 (n - int (length c))) bs
      else [])"

definition dictClear :: "('k, 'v) dictType \<Rightarrow> ('k, 'v) dictht \<Rightarrow> ('k, 'v) event list \<times> ('k, 'v) dictht" where
  "dictClear T ht =
     ((case table ht of None \<Rightarrow> [] | Some bs \<Rightarrow> clear_buckets T (used ht) (take (nat (ht_size ht)) bs)) @ [TableFreed],
      dictReset)"

definition dictEmpty :: "('k, 'v) dictType \<Rightarrow> ('k, 'v) dict \<Rightarrow> ('k, 'v) dict" where
  "dictEmpty T d =
     (let (ev0, h0) = dictClear T (ht0 d); (ev1, h1) = dictClear T (ht1 d)
      in d\<lparr>ht0 := h0, ht1 := h1, rehashidx := - 1, iterators := 0, events := events d @ ev0 @ ev1\<rparr>)"

text \<open>\<open>dictRelease\<close>: the calls before the dictionary itself is freed.\<close>

definition dictRelease :: "('k, 'v) dictType \<Rightarrow> ('k, 'v) dict \<Rightarrow> ('k, 'v) event list" where
  "dictRelease T d = events d @ fst (dictClear T (ht0 d)) @ fst (dictClear T (ht1 d))"

section \<open>Iteration\<close>

text \<open>\<open>dictFingerprint\<close>: \<open>addr0\<close> and \<open>addr1\<close> are the addresses of the two tables.\<close>

definition fingerprint_step :: "u64 \<Rightarrow> u64 \<Rightarrow> u64" where
  "fingerprint_step hash x =
     (let hash = hash + x;
          hash = NOT hash + push_bit 21 hash;
          hash = hash XOR signed_drop_bit 24 hash;
          hash = (hash + push_bit 3 hash) + push_bit 8 hash;
          hash = hash XOR signed_drop_bit 14 hash;
          hash = (hash + push_bit 2 hash) + push_bit 4 hash;
          hash = hash XOR signed_drop_bit 28 hash
      in hash + push_bit 31 hash)"

definition dictFingerprint :: "u64 \<Rightarrow> u64 \<Rightarrow> ('k, 'v) dict \<Rightarrow> u64" where
  "dictFingerprint addr0 addr1 d =
     foldl fingerprint_step 0
       [addr0, word_of_int (ht_size (ht0 d)), word_of_int (used (ht0 d)),
        addr1, word_of_int (ht_size (ht1 d)), word_of_int (used (ht1 d))]"

text \<open>The entry pointers of an iterator are addresses; \<open>chain_at\<close> follows one in the tables as they are,
  to the rest of the chain from that entry on.\<close>

definition chains :: "('k, 'v) dictht \<Rightarrow> ('k, 'v) dictEntry list list" where
  "chains ht = (case table ht of None \<Rightarrow> [] | Some bs \<Rightarrow> bs)"

definition chain_from :: "addr \<Rightarrow> ('k, 'v) dictEntry list \<Rightarrow> ('k, 'v) dictEntry list" where
  "chain_from a c = dropWhile (\<lambda>e. de_addr e \<noteq> a) c"

definition chain_at :: "('k, 'v) dict \<Rightarrow> addr \<Rightarrow> (dict_error, ('k, 'v) dictEntry list) result" where
  "chain_at d a =
     opt_or (FreedEntry a) (find (\<lambda>c. c \<noteq> []) (map (chain_from a) (chains (ht0 d) @ chains (ht1 d))))"

record dictIterator =
  it_table :: int
  it_index :: int
  it_safe :: bool
  it_entry :: "addr option"
  it_next :: "addr option"
  it_fingerprint :: u64

definition dictGetIterator :: "dictIterator" where
  "dictGetIterator = \<lparr>it_table = 0, it_index = - 1, it_safe = False, it_entry = None, it_next = None,
     it_fingerprint = 0\<rparr>"

definition dictGetSafeIterator :: "dictIterator" where
  "dictGetSafeIterator = dictGetIterator\<lparr>it_safe := True\<rparr>"

text \<open>One round of \<open>while (1)\<close> in \<open>dictNext\<close>: the chain at the entry pointer it sets, or \<open>None\<close>
  for the \<open>break\<close>.\<close>

definition next_round ::
    "(('k, 'v) dict \<Rightarrow> u64) \<Rightarrow> dictIterator \<Rightarrow> ('k, 'v) dict \<Rightarrow>
     (dict_error, dictIterator \<times> ('k, 'v) dict \<times> ('k, 'v) dictEntry list option) result"
where
  "next_round fp it d =
     (case it_entry it of
        Some _ \<Rightarrow>
          (case it_next it of
             None \<Rightarrow> Inr (it, d, Some [])
           | Some a \<Rightarrow> rbind (chain_at d a) (\<lambda>c. Inr (it, d, Some c)))
      | None \<Rightarrow>
          let first = (it_index it = - 1 \<and> it_table it = 0);
              d = (if first \<and> it_safe it then d\<lparr>iterators := iterators d + 1\<rparr> else d);
              it = (if first \<and> \<not> it_safe it then it\<lparr>it_fingerprint := fp d\<rparr> else it);
              it = it\<lparr>it_index := it_index it + 1\<rparr>;
              ht = (if it_table it = 0 then ht0 d else ht1 d)
          in if it_index it \<ge> to_i32 (ht_size ht)
             then if dictIsRehashing d \<and> it_table it = 0
                  then rbind (bucket (ht1 d) 0) (\<lambda>c.
                         Inr (it\<lparr>it_table := 1, it_index := 0\<rparr>, d, Some c))
                  else Inr (it, d, None)
             else rbind (bucket ht (it_index it)) (\<lambda>c. Inr (it, d, Some c)))"

text \<open>The rounds until one gives an entry; a round that leaves the loop running moves the position,
  so as many rounds as there are positions left are enough.\<close>

fun dictNext_rounds ::
    "nat \<Rightarrow> (('k, 'v) dict \<Rightarrow> u64) \<Rightarrow> dictIterator \<Rightarrow> ('k, 'v) dict \<Rightarrow>
     (dict_error, dictIterator \<times> ('k, 'v) dict \<times> ('k, 'v) dictEntry option) result option"
where
  "dictNext_rounds 0 fp it d = None"
| "dictNext_rounds (Suc n) fp it d =
     (case next_round fp it d of
        Inl e \<Rightarrow> Some (Inl e)
      | Inr (it, d, None) \<Rightarrow> Some (Inr (it, d, None))
      | Inr (it, d, Some []) \<Rightarrow> dictNext_rounds n fp (it\<lparr>it_entry := None\<rparr>) d
      | Inr (it, d, Some (e # c)) \<Rightarrow> Some (Inr (it\<lparr>it_entry := Some (de_addr e), it_next := (case c of [] \<Rightarrow> None | e' # _ \<Rightarrow> Some (de_addr e'))\<rparr>, d, Some e)))"

definition dictReleaseIterator ::
    "(('k, 'v) dict \<Rightarrow> u64) \<Rightarrow> dictIterator \<Rightarrow> ('k, 'v) dict \<Rightarrow> (dict_error, ('k, 'v) dict) result"
where
  "dictReleaseIterator fp it d =
     (if \<not> (it_index it = - 1 \<and> it_table it = 0)
      then if it_safe it then Inr (d\<lparr>iterators := iterators d - 1\<rparr>)
           else if it_fingerprint it = fp d then Inr d else Inl AssertFingerprint
      else Inr d)"

section \<open>Random keys\<close>

text \<open>The two \<open>do ... while(he == NULL)\<close> loops over the answers of \<open>random()\<close>: the bucket and the
  remaining answers.\<close>

fun random_bucket :: "(int \<Rightarrow> (dict_error, ('k, 'v) dictEntry list) result) \<Rightarrow> int list \<Rightarrow>
    (dict_error, ('k, 'v) dictEntry list \<times> int list) result" where
  "random_bucket f [] = Inl NoMoreRandom"
| "random_bucket f (r # rs) = rbind (f r) (\<lambda>c. if c = [] then random_bucket f rs else Inr (c, rs))"

definition dictGetRandomKey ::
    "('k, 'v) dictType \<Rightarrow> ('k, 'v) dict \<Rightarrow> int list \<Rightarrow>
     (dict_error, ('k, 'v) dict \<times> ('k, 'v) dictEntry option) result"
where
  "dictGetRandomKey T d rnd =
     (if dictSize d = 0 then Inr (d, None)
      else rbind (rehash_if T d) (\<lambda>d.
        let pick = (if dictIsRehashing d
                    then (\<lambda>r. if dictSlots d = 0 then Inl ModuloZero
                              else let h = to_u32 (r mod dictSlots d)
                                   in if h \<ge> ht_size (ht0 d) then bucket (ht1 d) (h - ht_size (ht0 d))
                                      else bucket (ht0 d) h)
                    else (\<lambda>r. bucket (ht0 d) (to_u32 (r AND sizemask (ht0 d)))))
        in rbind (random_bucket pick rnd) (\<lambda>(c, rs).
             case rs of
               [] \<Rightarrow> Inl NoMoreRandom
             | r # _ \<Rightarrow> Inr (d, Some (c ! nat (r mod int (length c)))))))"

section \<open>Hash functions\<close>

definition dictIntHashFunction :: "u32 \<Rightarrow> u32" where
  "dictIntHashFunction key =
     (let key = key + NOT (push_bit 15 key);
          key = key XOR drop_bit 10 key;
          key = key + push_bit 3 key;
          key = key XOR drop_bit 6 key;
          key = key + NOT (push_bit 11 key);
          key = key XOR drop_bit 16 key
      in key)"

definition dictIdentityHashFunction :: "u32 \<Rightarrow> u32" where
  "dictIdentityHashFunction key = key"

text \<open>\<open>dictGenHashFunction\<close> (MurmurHash2) over bytes, with the seed as an argument.\<close>

definition murmur_m :: u32 where
  "murmur_m = 0x5bd1e995"

fun murmur_body :: "u32 \<Rightarrow> byte list \<Rightarrow> u32 \<times> byte list" where
  "murmur_body h (b0 # b1 # b2 # b3 # data) =
     (let k = word_of_int (le_val [b0, b1, b2, b3]);
          k = k * murmur_m;
          k = k XOR drop_bit 24 k;
          k = k * murmur_m
      in murmur_body ((h * murmur_m) XOR k) data)"
| "murmur_body h data = (h, data)"

definition murmur_tail :: "u32 \<Rightarrow> byte list \<Rightarrow> u32" where
  "murmur_tail h data =
     (let h = (if length data = 3 then h XOR push_bit 16 (ucast (data ! 2)) else h);
          h = (if length data \<ge> 2 then h XOR push_bit 8 (ucast (data ! 1)) else h)
      in if length data \<ge> 1 then (h XOR ucast (data ! 0)) * murmur_m else h)"

definition dictGenHashFunction :: "u32 \<Rightarrow> byte list \<Rightarrow> u32" where
  "dictGenHashFunction seed data =
     (let h = seed XOR word_of_nat (length data);
          (h, rest) = murmur_body h data;
          h = murmur_tail h rest;
          h = h XOR drop_bit 13 h;
          h = h * murmur_m
      in h XOR drop_bit 15 h)"

definition dictGenCaseHashFunction :: "u32 \<Rightarrow> char list \<Rightarrow> u32" where
  "dictGenCaseHashFunction seed buf =
     foldl (\<lambda>hash c. (push_bit 5 hash + hash) + word_of_int (uchar (tolower c))) seed buf"

end
