(* ===== verification/Dict_Map.thy ===== *)
theory Dict_Map
  imports Dict "HOL-Library.Multiset"
begin

text \<open>
  The dictionary is a finite map: the invariant of the two tables, what each operation of
  \<open>dict.c\<close> does to the set of entries, and the map interface the server relies on.
\<close>

section \<open>The invariant\<close>

text \<open>The callbacks: the comparison is an equivalence the hash respects, duplicated keys stay equal.\<close>

definition type_ok :: "('k, 'v) dictType \<Rightarrow> bool" where
  "type_ok T \<longleftrightarrow>
     (\<forall>a. dictCompareKeys T a a) \<and>
     (\<forall>a b. dictCompareKeys T a b \<longrightarrow> dictCompareKeys T b a) \<and>
     (\<forall>a b c. dictCompareKeys T a b \<longrightarrow> dictCompareKeys T b c \<longrightarrow> dictCompareKeys T a c) \<and>
     (\<forall>a b. dictCompareKeys T a b \<longrightarrow> hashFunction T a = hashFunction T b) \<and>
     (\<forall>a. dictCompareKeys T (dup_key T a) a)"

lemma type_okD:
  assumes "type_ok T"
  shows "dictCompareKeys T a a" "dictCompareKeys T a b \<longleftrightarrow> dictCompareKeys T b a"
    "dictCompareKeys T a b \<Longrightarrow> dictCompareKeys T b c \<Longrightarrow> dictCompareKeys T a c"
    "dictCompareKeys T a b \<Longrightarrow> dictHashKey T a = dictHashKey T b"
    "dictCompareKeys T (dup_key T a) a"
  using assms unfolding type_ok_def dictHashKey_def by metis+

text \<open>\<open>tab T ht k bs\<close>: an allocated table of \<open>2 ^ k\<close> buckets \<open>bs\<close>, its mask and its count, with
  every entry in the bucket its hash selects.\<close>

definition tab :: "('k, 'v) dictType \<Rightarrow> ('k, 'v) dictht \<Rightarrow> nat \<Rightarrow> ('k, 'v) dictEntry list list \<Rightarrow> bool" where
  "tab T ht k bs \<longleftrightarrow> table ht = Some bs \<and> 2 \<le> k \<and> k \<le> 31 \<and> ht_size ht = 2 ^ k \<and> sizemask ht = 2 ^ k - 1 \<and>
     length bs = 2 ^ k \<and> used ht = int (length (concat bs)) \<and>
     (\<forall>i<2 ^ k. \<forall>e\<in>set (bs ! i). nat (dictHashKey T (de_key e) mod 2 ^ k) = i)"

definition entries :: "('k, 'v) dict \<Rightarrow> ('k, 'v) dictEntry list" where
  "entries d = concat (chains (ht0 d)) @ concat (chains (ht1 d))"

text \<open>No two entries share an address or have equal keys.\<close>

definition uniq :: "('k, 'v) dictType \<Rightarrow> ('k, 'v) dictEntry list \<Rightarrow> bool" where
  "uniq T es \<longleftrightarrow> distinct (map de_addr es) \<and>
     (\<forall>e\<in>set es. \<forall>e'\<in>set es. dictCompareKeys T (de_key e) (de_key e') \<longrightarrow> e = e')"

definition DICT_LIMIT :: nat where
  "DICT_LIMIT = 1073741824"

definition dict_ok :: "('k, 'v) dictType \<Rightarrow> ('k, 'v) dict \<Rightarrow> bool" where
  "dict_ok T d \<longleftrightarrow>
     (if dictIsRehashing d
      then \<exists>k bs k' bs'. tab T (ht0 d) k bs \<and> tab T (ht1 d) k' bs' \<and>
             0 \<le> rehashidx d \<and> rehashidx d \<le> 2 ^ k \<and> (\<forall>i<nat (rehashidx d). bs ! i = [])
      else ht1 d = dictReset \<and> (ht0 d = dictReset \<or> (\<exists>k bs. tab T (ht0 d) k bs))) \<and>
     uniq T (entries d) \<and> length (entries d) < DICT_LIMIT"

section \<open>Buckets\<close>

lemma tab_chains: "tab T ht k bs \<Longrightarrow> chains ht = bs"
  by (simp add: tab_def chains_def)

lemma chains_reset [simp]: "chains dictReset = []"
  by (simp add: chains_def dictReset_def)

lemma and_mask_int: "(h::int) AND (2 ^ k - 1) = h mod 2 ^ k"
  by (metis mask_eq_exp_minus_1 take_bit_eq_mask take_bit_eq_mod)

definition slot :: "('k, 'v) dictType \<Rightarrow> 'k \<Rightarrow> nat \<Rightarrow> nat" where
  "slot T key k = nat (dictHashKey T key mod 2 ^ k)"

lemma slot_less: "slot T key k < 2 ^ k"
  by (simp add: slot_def nat_less_iff)

lemma slot_index: "tab T ht k bs \<Longrightarrow> dictHashKey T key AND sizemask ht = int (slot T key k)"
  by (simp add: tab_def slot_def and_mask_int)

lemma tab_bucket: "tab T ht k bs \<Longrightarrow> i < 2 ^ k \<Longrightarrow> bucket ht (int i) = Inr (bs ! i)"
  by (simp add: tab_def bucket_def)

lemma tab_place: "tab T ht k bs \<Longrightarrow> i < 2 ^ k \<Longrightarrow> e \<in> set (bs ! i) \<Longrightarrow> slot T (de_key e) k = i"
  by (simp add: tab_def slot_def)

lemma mset_concat_update:
  "i < length bs \<Longrightarrow> mset (concat (bs[i := c])) + mset (bs ! i) = mset (concat bs) + mset c"
proof (induction bs arbitrary: i)
  case (Cons b bs)
  then show ?case by (cases i) (simp_all add: ac_simps)
qed simp

lemma tab_update:
  assumes "tab T ht k bs" and "i < 2 ^ k" and "\<forall>e\<in>set c. slot T (de_key e) k = i"
    and "n = int (length (concat (bs[i := c])))"
  shows "tab T ((set_bucket ht (int i) c)\<lparr>used := n\<rparr>) k (bs[i := c])"
  using assms by (auto simp: tab_def set_bucket_def slot_def nth_list_update)

lemma length_concat_update:
  "i < length bs \<Longrightarrow> int (length (concat (bs[i := c]))) = int (length (concat bs)) + int (length c) - int (length (bs ! i))"
  using arg_cong [OF mset_concat_update [of i bs c], of size] by simp

text \<open>The entries of a table with a key equal to the given one are those of its bucket.\<close>

lemma tab_find:
  assumes "type_ok T" and "tab T ht k bs"
  shows "e \<in> set (concat bs) \<and> dictCompareKeys T key (de_key e) \<longleftrightarrow>
    e \<in> set (bs ! slot T key k) \<and> dictCompareKeys T key (de_key e)"
proof -
  have len: "length bs = 2 ^ k" using assms(2) by (simp add: tab_def)
  have "i = slot T key k" if "i < 2 ^ k" "e \<in> set (bs ! i)" "dictCompareKeys T key (de_key e)" for i
    using tab_place [OF assms(2) that(1,2)] type_okD(4) [OF assms(1) that(3)] by (simp add: slot_def)
  moreover have "e \<in> set (concat bs) \<longleftrightarrow> (\<exists>i<2 ^ k. e \<in> set (bs ! i))"
    unfolding len [symmetric] using set_conv_nth [of bs] by auto
  ultimately show ?thesis using slot_less [of T key k] by blast
qed

definition has_key :: "('k, 'v) dictType \<Rightarrow> 'k \<Rightarrow> ('k, 'v) dictEntry \<Rightarrow> bool" where
  "has_key T key e \<longleftrightarrow> dictCompareKeys T key (de_key e)"

text \<open>The entry of a key, and what unique keys say of it.\<close>

definition lookup :: "('k, 'v) dictType \<Rightarrow> ('k, 'v) dict \<Rightarrow> 'k \<Rightarrow> ('k, 'v) dictEntry option" where
  "lookup T d key = find (has_key T key) (entries d)"

lemma find_uniq:
  assumes "type_ok T" and "uniq T es" and "e \<in> set es" and "has_key T key e"
  shows "find (has_key T key) es = Some e"
proof -
  obtain x where x: "find (has_key T key) es = Some x" using assms(3,4) by (cases "find (has_key T key) es") (auto simp: find_None_iff)
  then have "x \<in> set es" "has_key T key x" by (auto simp: find_Some_iff)
  moreover from this assms have "dictCompareKeys T (de_key x) (de_key e)"
    unfolding has_key_def by (metis type_okD(2,3))
  ultimately have "x = e" using assms(2,3) by (auto simp: uniq_def)
  with x show ?thesis by simp
qed

lemma find_eq_iff:
  assumes "type_ok T" and "uniq T es"
  shows "find (has_key T key) es = Some e \<longleftrightarrow> e \<in> set es \<and> has_key T key e"
  using find_uniq [OF assms] by (auto simp: find_Some_iff)

lemma find_cong_set:
  assumes "type_ok T" and "uniq T es" and "uniq T es'" and "\<And>e. e \<in> set es \<and> has_key T key e \<longleftrightarrow> e \<in> set es' \<and> has_key T key e"
  shows "find (has_key T key) es = find (has_key T key) es'"
  using find_eq_iff [OF assms(1,2)] find_eq_iff [OF assms(1,3)] assms(4) by (metis not_Some_eq option.inject)

lemma uniq_mset: "mset es = mset es' \<Longrightarrow> uniq T es = uniq T es'"
  unfolding uniq_def by (metis mset_eq_imp_distinct_iff mset_map set_mset_mset)

lemma uniq_sub: "uniq T es \<Longrightarrow> mset es' \<subseteq># mset es \<Longrightarrow> uniq T es'"
proof -
  assume u: "uniq T es" and sub: "mset es' \<subseteq># mset es"
  then obtain zs where "mset es = mset (es' @ zs)" by (metis ex_mset mset_append subset_mset.le_iff_add)
  then have "uniq T (es' @ zs)" using u uniq_mset by blast
  then show ?thesis by (auto simp: uniq_def)
qed

section \<open>Rehashing keeps the entries\<close>

lemma entries_rehashing: "tab T (ht0 d) k bs \<Longrightarrow> tab T (ht1 d) k' bs' \<Longrightarrow> entries d = concat bs @ concat bs'"
  by (simp add: entries_def tab_chains)

text \<open>The step moves \<open>c\<close> from the count of the old table into the buckets of the new one.\<close>

lemma move_entries_ok:
  assumes "type_ok T"
  shows "tab T (ht1 d) k bs \<Longrightarrow> int (length c) \<le> used (ht0 d) \<Longrightarrow> used (ht0 d) < 4294967296 \<Longrightarrow>
      int (length (concat bs)) + int (length c) < 4294967296 \<Longrightarrow>
    \<exists>ht bs'. move_entries T c d = Inr (d\<lparr>ht1 := ht, ht0 := (ht0 d)\<lparr>used := used (ht0 d) - int (length c)\<rparr>\<rparr>) \<and>
      tab T ht k bs' \<and> mset (concat bs') = mset (concat bs) + mset c"
proof (induction c arbitrary: d bs)
  case Nil
  then show ?case by (intro exI [of _ "ht1 d"] exI [of _ bs]) simp
next
  case (Cons e c)
  let ?i = "slot T (de_key e) k" and ?ht = "ht1 d"
  let ?bs = "bs[?i := e # bs ! ?i]"
  let ?h1 = "(set_bucket ?ht (int ?i) (e # bs ! ?i))\<lparr>used := to_u64 (used ?ht + 1)\<rparr>"
  let ?h0 = "(ht0 d)\<lparr>used := to_u64 (used (ht0 d) - 1)\<rparr>"
  let ?d = "d\<lparr>ht1 := ?h1, ht0 := ?h0\<rparr>"
  have len: "?i < length bs" using slot_less Cons.prems(1) by (simp add: tab_def)
  have n: "to_u64 (used ?ht + 1) = int (length (concat ?bs))"
    using length_concat_update [OF len, of "e # bs ! ?i"] Cons.prems(1,4) by (simp add: tab_def cint)
  have t1: "tab T ?h1 k ?bs"
    using tab_place [OF Cons.prems(1) slot_less] n by (intro tab_update [OF Cons.prems(1) slot_less]) auto
  have m: "mset (concat ?bs) = add_mset e (mset (concat bs))"
    using mset_concat_update [OF len, of "e # bs ! ?i"] by simp
  have u0: "to_u64 (used (ht0 d) - 1) = used (ht0 d) - 1" using Cons.prems(2,3) by (simp add: cint)
  have "move_entries T (e # c) d = move_entries T c ?d"
    using slot_index [OF Cons.prems(1), of "de_key e"] tab_bucket [OF Cons.prems(1) slot_less [of T "de_key e" k]]
    by (simp add: Let_def)
  moreover have "\<exists>ht bs'. move_entries T c ?d =
      Inr (?d\<lparr>ht1 := ht, ht0 := (ht0 ?d)\<lparr>used := used (ht0 ?d) - int (length c)\<rparr>\<rparr>) \<and>
      tab T ht k bs' \<and> mset (concat bs') = mset (concat ?bs) + mset c"
  proof (rule Cons.IH)
    have "length (concat ?bs) = Suc (length (concat bs))" using arg_cong [OF m, of size] by simp
    then show "int (length (concat ?bs)) + int (length c) < 4294967296" using Cons.prems(4) by simp
  qed (use Cons.prems u0 t1 in auto)
  ultimately show ?case
    using m u0 by (auto simp: diff_diff_eq simp del: move_entries.simps)
qed

lemma skip_empty_ok:
  "\<exists>c\<in>set bs. c \<noteq> [] \<Longrightarrow> \<exists>j. skip_empty bs i = Inr (i + int j) \<and> j < length bs \<and> bs ! j \<noteq> [] \<and> (\<forall>l<j. bs ! l = [])"
proof (induction bs arbitrary: i)
  case (Cons c bs)
  show ?case
  proof (cases "c = []")
    case True
    then obtain j where "skip_empty bs (i + 1) = Inr (i + 1 + int j)" "j < length bs" "bs ! j \<noteq> []" "\<forall>l<j. bs ! l = []"
      using Cons.IH [of "i + 1"] Cons.prems by auto
    with True show ?thesis by (intro exI [of _ "Suc j"]) (auto simp: less_Suc_eq_0_disj)
  qed (auto intro!: exI [of _ 0])
qed simp

text \<open>What a step of rehashing may change: the distribution of the entries over the tables.\<close>

definition same_entries :: "('k, 'v) dict \<Rightarrow> ('k, 'v) dict \<Rightarrow> bool" where
  "same_entries d d' \<longleftrightarrow> mset (entries d') = mset (entries d) \<and> pool d' = pool d \<and>
     iterators d' = iterators d \<and> dict_can_resize d' = dict_can_resize d \<and>
     (ht_size (ht0 d) \<noteq> 0 \<longrightarrow> ht_size (ht0 d') \<noteq> 0)"

lemma same_entries_refl [simp]: "same_entries d d"
  by (simp add: same_entries_def)

lemma same_entries_trans: "same_entries a b \<Longrightarrow> same_entries b c \<Longrightarrow> same_entries a c"
  by (simp add: same_entries_def)

lemma same_entries_set: "same_entries d d' \<Longrightarrow> set (entries d') = set (entries d)"
  unfolding same_entries_def by (metis set_mset_mset)

lemma dict_ok_uniq: "dict_ok T d \<Longrightarrow> uniq T (entries d)"
  by (simp add: dict_ok_def)

lemma same_entries_uniq:
  assumes "same_entries d d'" and "dict_ok T d"
  shows "uniq T (entries d') \<and> length (entries d') < DICT_LIMIT"
proof -
  have "mset (entries d') = mset (entries d)" using assms(1) by (simp add: same_entries_def)
  then show ?thesis
    using assms(2) uniq_mset size_mset unfolding dict_ok_def by metis
qed

lemma lookup_same:
  assumes "type_ok T" and "dict_ok T d" and "same_entries d d'"
  shows "lookup T d' key = lookup T d key"
  unfolding lookup_def
  using assms same_entries_uniq same_entries_set dict_ok_uniq by (intro find_cong_set) blast+

lemma dict_ok_rehashingE:
  assumes "dict_ok T d" and "dictIsRehashing d"
  obtains k bs k' bs' r where "tab T (ht0 d) k bs" "tab T (ht1 d) k' bs'" "rehashidx d = int r" "r \<le> 2 ^ k"
    "\<forall>i<r. bs ! i = []" "entries d = concat bs @ concat bs'"
proof -
  from assms obtain k bs k' bs' where t: "tab T (ht0 d) k bs" "tab T (ht1 d) k' bs'"
    "0 \<le> rehashidx d" "rehashidx d \<le> 2 ^ k" "\<forall>i<nat (rehashidx d). bs ! i = []"
    unfolding dict_ok_def by auto
  then obtain r where "rehashidx d = int r" by (metis nonneg_int_cases)
  with t show thesis using that entries_rehashing [OF t(1,2)] by (auto simp: le_nat_iff)
qed

lemma dict_ok_rehashingI:
  assumes "tab T (ht0 d) k bs" and "tab T (ht1 d) k' bs'" and "rehashidx d = int r" and "r \<le> 2 ^ k"
    and "\<forall>i<r. bs ! i = []" and "uniq T (entries d)" and "length (entries d) < DICT_LIMIT"
  shows "dict_ok T d \<and> dictIsRehashing d"
proof -
  have "int r \<le> 2 ^ k" using assms(4) by (metis of_nat_le_iff of_nat_numeral of_nat_power)
  then have "\<exists>k bs k' bs'. tab T (ht0 d) k bs \<and> tab T (ht1 d) k' bs' \<and>
      0 \<le> rehashidx d \<and> rehashidx d \<le> 2 ^ k \<and> (\<forall>i<nat (rehashidx d). bs ! i = [])"
    using assms(1-3,5) by (metis nat_int of_nat_0_le_iff)
  then show ?thesis using assms(3,6,7) by (simp add: dict_ok_def dictIsRehashing_def)
qed

lemma concat_not_Nil_drop:
  assumes "concat bs \<noteq> []" and "\<forall>i<r. bs ! i = []"
  shows "\<exists>c\<in>set (drop r bs). c \<noteq> []"
proof -
  obtain i where i: "i < length bs" "bs ! i \<noteq> []" using assms(1) by (auto simp: in_set_conv_nth)
  then have "r \<le> i" using assms(2) by (meson not_le)
  then have "bs ! i \<in> set (drop r bs)" using i(1) by (auto simp: in_set_conv_nth intro!: exI [of _ "i - r"])
  with i show ?thesis by blast
qed

lemma rehash_round_end:
  assumes "dict_ok T d" and "dictIsRehashing d" and "used (ht0 d) = 0"
  shows "\<exists>d'. rehash_round T d = Inr (d', True) \<and> dict_ok T d' \<and> same_entries d d' \<and> \<not> dictIsRehashing d'"
proof -
  obtain k bs k' bs' r where t: "tab T (ht0 d) k bs" "tab T (ht1 d) k' bs'" "entries d = concat bs @ concat bs'"
    using dict_ok_rehashingE [OF assms(1,2)] by metis
  have "concat bs = []" using t(1) assms(3) by (simp add: tab_def)
  let ?d = "d\<lparr>ht0 := ht1 d, ht1 := dictReset, rehashidx := - 1, events := events d @ [TableFreed]\<rparr>"
  have e: "entries ?d = entries d" using t \<open>concat bs = []\<close> by (simp add: entries_def tab_chains)
  have "dict_ok T ?d"
    using assms(1) t(2) unfolding dict_ok_def e by (auto simp: dictIsRehashing_def)
  then show ?thesis
    using assms(3) e t(2) by (auto simp: rehash_round_def same_entries_def dictIsRehashing_def tab_def)
qed

lemma rehash_round_move:
  assumes "type_ok T" and "dict_ok T d" and "dictIsRehashing d" and "used (ht0 d) \<noteq> 0"
  shows "\<exists>d'. rehash_round T d = Inr (d', False) \<and> dict_ok T d' \<and> same_entries d d' \<and> dictIsRehashing d' \<and>
    rehashidx d < rehashidx d' \<and> ht_size (ht0 d') = ht_size (ht0 d)"
proof -
  obtain k bs k' bs' r where t: "tab T (ht0 d) k bs" "tab T (ht1 d) k' bs'" "rehashidx d = int r" "r \<le> 2 ^ k"
    "\<forall>i<r. bs ! i = []" "entries d = concat bs @ concat bs'"
    using dict_ok_rehashingE [OF assms(2,3)] by metis
  have lim: "length (concat bs) + length (concat bs') < DICT_LIMIT"
    using assms(2) t(6) by (simp add: dict_ok_def)
  have u0: "used (ht0 d) = int (length (concat bs))" "length bs = 2 ^ k" "table (ht0 d) = Some bs"
    "ht_size (ht0 d) = 2 ^ k" "k \<le> 31"
    using t(1) by (simp_all add: tab_def)
  have "concat bs \<noteq> []" using u0(1) assms(4) by auto
  from concat_not_Nil_drop [OF this t(5)] have ex: "\<exists>c\<in>set (drop r bs). c \<noteq> []" .
  then have "drop r bs \<noteq> []" by auto
  then have r: "r < 2 ^ k" using u0(2) by simp
  from skip_empty_ok [OF ex, of "int r"] obtain j where
    j: "skip_empty (drop r bs) (int r) = Inr (int (r + j))" "r + j < 2 ^ k" "\<forall>l<j. bs ! (r + l) = []"
    using u0(2) r by auto
  define i where "i = r + j"
  have i: "i < 2 ^ k" using j(2) by (simp add: i_def)
  have below: "\<forall>l<i. bs ! l = []"
  proof (intro allI impI)
    fix l assume "l < i"
    then show "bs ! l = []"
      using t(5) j(3) by (cases "l < r") (auto simp: i_def dest: spec [of _ "l - r"])
  qed
  let ?c = "bs ! i"
  have il: "i < length bs" using i u0(2) by simp
  have lc: "length ?c \<le> length (concat bs)" using length_concat_update [OF il, of "[]"] by simp
  let ?d1 = "d\<lparr>rehashidx := int i\<rparr>"
  obtain ht bs1 where mv: "move_entries T ?c ?d1 =
      Inr (?d1\<lparr>ht1 := ht, ht0 := (ht0 d)\<lparr>used := used (ht0 d) - int (length ?c)\<rparr>\<rparr>)"
    "tab T ht k' bs1" "mset (concat bs1) = mset (concat bs') + mset ?c"
    using move_entries_ok [OF assms(1), of ?d1 k' bs' ?c] t(2) lc u0(1) lim by (auto simp: DICT_LIMIT_def)
  let ?h0 = "(set_bucket (ht0 d) (int i) [])\<lparr>used := used (ht0 d) - int (length ?c)\<rparr>"
  let ?d2 = "d\<lparr>rehashidx := int i + 1, ht1 := ht, ht0 := ?h0\<rparr>"
  have t0: "tab T ?h0 k (bs[i := []])"
    using tab_update [OF t(1) i, of "[]"] length_concat_update [of i bs "[]"] i u0 by simp
  have m: "mset (concat (bs[i := []])) + mset ?c = mset (concat bs)"
    using mset_concat_update [of i bs "[]"] i u0(2) by simp
  have e: "entries ?d2 = concat (bs[i := []]) @ concat bs1"
    using entries_rehashing [of T ?d2] t0 mv(2) by simp
  have same: "same_entries d ?d2"
    using m mv(3) e t(6) u0(4) by (simp add: same_entries_def ac_simps set_bucket_def)
  have "rehash_round T d = Inr (?d2, False)"
  proof -
    have "(2::nat) ^ k \<le> 2 ^ 31" using u0(5) by (intro power_increasing) auto
    then have "r < 2147483648" using r by simp
    then have "to_u32 (int r) = int r" by (simp add: cint)
    moreover have "bucket (ht0 d) (int i) = Inr ?c" using tab_bucket [OF t(1) i] .
    ultimately show ?thesis
      using assms(4) t(3) u0 r j(1) mv(1)
      by (simp add: rehash_round_def i_def [symmetric] set_bucket_def)
  qed
  moreover have "\<forall>l<Suc i. bs[i := []] ! l = []" using below u0(2) i by (auto simp: nth_list_update less_Suc_eq)
  then have "dict_ok T ?d2 \<and> dictIsRehashing ?d2"
    using same_entries_uniq [OF same assms(2)] t0 mv(2) i
    by (intro dict_ok_rehashingI [where r = "Suc i"]) auto
  ultimately show ?thesis
    using same t(3) by (auto simp: i_def set_bucket_def)
qed

lemma rehash_round_ok:
  assumes "type_ok T" and "dict_ok T d" and "dictIsRehashing d"
  shows "\<exists>d' stop. rehash_round T d = Inr (d', stop) \<and> dict_ok T d' \<and> same_entries d d' \<and>
    (stop \<longleftrightarrow> \<not> dictIsRehashing d')"
  using rehash_round_end [OF assms(2,3)] rehash_round_move [OF assms] by (cases "used (ht0 d) = 0") auto

lemma rehash_rounds_ok:
  assumes "type_ok T"
  shows "dict_ok T d \<Longrightarrow> dictIsRehashing d \<Longrightarrow>
    \<exists>d' more. rehash_rounds T n d = Inr (d', more) \<and> dict_ok T d' \<and> same_entries d d' \<and>
      (more \<longleftrightarrow> dictIsRehashing d')"
proof (induction n arbitrary: d)
  case (Suc n)
  obtain d1 stop where 1: "rehash_round T d = Inr (d1, stop)" "dict_ok T d1" "same_entries d d1"
    "stop \<longleftrightarrow> \<not> dictIsRehashing d1"
    using rehash_round_ok [OF assms Suc.prems] by blast
  show ?case
  proof (cases stop)
    case True
    with 1 show ?thesis by auto
  next
    case False
    with 1 obtain d2 more where "rehash_rounds T n d1 = Inr (d2, more)" "dict_ok T d2" "same_entries d1 d2"
      "more \<longleftrightarrow> dictIsRehashing d2" using Suc.IH [of d1] by blast
    with 1 False show ?thesis using same_entries_trans by auto
  qed
qed simp

lemma dictRehash_ok:
  assumes "type_ok T" and "dict_ok T d"
  shows "\<exists>d' more. dictRehash T d n = Inr (d', more) \<and> dict_ok T d' \<and> same_entries d d' \<and>
    (more \<longleftrightarrow> dictIsRehashing d')"
  using rehash_rounds_ok [OF assms, of n] assms(2) by (cases "dictIsRehashing d") (auto simp: dictRehash_def)

lemma rehash_if_ok:
  assumes "type_ok T" and "dict_ok T d"
  shows "\<exists>d'. rehash_if T d = Inr d' \<and> dict_ok T d' \<and> same_entries d d' \<and>
    (dictIsRehashing d' \<longrightarrow> dictIsRehashing d)"
proof (cases "dictIsRehashing d \<and> iterators d = 0")
  case True
  with dictRehash_ok [OF assms, of 1] show ?thesis by (auto simp: rehash_if_def dictRehashStep_def)
next
  case False
  with assms show ?thesis by (auto simp: rehash_if_def dictRehashStep_def)
qed

text \<open>Enough rounds finish: every round that moves a bucket advances the index.\<close>

lemma rehash_rounds_finish:
  assumes "type_ok T"
  shows "dict_ok T d \<Longrightarrow> dictIsRehashing d \<Longrightarrow> ht_size (ht0 d) - rehashidx d < int n \<Longrightarrow>
    \<exists>d'. rehash_rounds T n d = Inr (d', False) \<and> dict_ok T d' \<and> same_entries d d' \<and> \<not> dictIsRehashing d'"
proof (induction n arbitrary: d)
  case 0
  then obtain k bs k' bs' r where t: "tab T (ht0 d) k bs" "rehashidx d = int r" "r \<le> 2 ^ k"
    by (metis dict_ok_rehashingE)
  then have "int r \<le> ht_size (ht0 d)" by (simp add: tab_def)
  with 0 t show ?case by simp
next
  case (Suc n)
  show ?case
  proof (cases "used (ht0 d) = 0")
    case True
    with rehash_round_end [OF Suc.prems(1,2)] show ?thesis by auto
  next
    case False
    obtain d1 where 1: "rehash_round T d = Inr (d1, False)" "dict_ok T d1" "same_entries d d1"
      "dictIsRehashing d1" "rehashidx d < rehashidx d1" "ht_size (ht0 d1) = ht_size (ht0 d)"
      using rehash_round_move [OF assms Suc.prems(1,2) False] by blast
    then obtain d2 where "rehash_rounds T n d1 = Inr (d2, False)" "dict_ok T d2" "same_entries d1 d2"
      "\<not> dictIsRehashing d2" using Suc.IH [of d1] Suc.prems(3) by auto
    with 1 show ?thesis using same_entries_trans by auto
  qed
qed

section \<open>Lookup\<close>

lemma scan_tab:
  assumes "type_ok T" and "tab T ht k bs" and "uniq T (concat bs)"
  shows "bucket ht (dictHashKey T key AND sizemask ht) = Inr (bs ! slot T key k) \<and>
    scan_chain T key (bs ! slot T key k) = find (has_key T key) (concat bs)"
proof
  show "bucket ht (dictHashKey T key AND sizemask ht) = Inr (bs ! slot T key k)"
    using tab_bucket [OF assms(2) slot_less] slot_index [OF assms(2)] by metis
  let ?c = "bs ! slot T key k"
  have s: "slot T key k < length bs" using slot_less assms(2) by (simp add: tab_def)
  have "mset ?c \<subseteq># mset (concat bs)" using s mset_concat_update [OF s, of "[]"]
    by (metis add.right_neutral mset.simps(1) mset_subset_eq_add_right)
  then have "uniq T ?c" using uniq_sub assms(3) by blast
  moreover have "scan_chain T key ?c = find (has_key T key) ?c"
    by (simp add: scan_chain_def has_key_def [abs_def])
  moreover have "find (has_key T key) ?c = find (has_key T key) (concat bs)"
    using calculation(1) assms(1,3) tab_find [OF assms(1,2), of _ key]
    by (intro find_cong_set) (auto simp: has_key_def)
  ultimately show "scan_chain T key ?c = find (has_key T key) (concat bs)" by simp
qed

lemma find_append: "find P (xs @ ys) = (case find P xs of None \<Rightarrow> find P ys | Some x \<Rightarrow> Some x)"
  by (induction xs) auto

text \<open>A dictionary whose first table exists; lookups in the two chains are lookups in all entries.\<close>

lemma scan_tables_ok:
  assumes "type_ok T" and "dict_ok T d" and "ht_size (ht0 d) \<noteq> 0"
  shows "scan_tables T key d = Inr (lookup T d key)"
proof (cases "dictIsRehashing d")
  case True
  obtain k bs k' bs' where t: "tab T (ht0 d) k bs" "tab T (ht1 d) k' bs'" "entries d = concat bs @ concat bs'"
    using dict_ok_rehashingE [OF assms(2) True] by metis
  have u: "uniq T (concat bs @ concat bs')" using dict_ok_uniq [OF assms(2)] t(3) by simp
  have "uniq T (concat bs)" "uniq T (concat bs')" by (auto intro!: uniq_sub [OF u])
  with scan_tab [OF assms(1) t(1), of key] scan_tab [OF assms(1) t(2), of key] True t(3) show ?thesis
    by (auto simp: scan_tables_def lookup_def find_append split: option.split)
next
  case False
  then obtain k bs where t: "tab T (ht0 d) k bs" "ht1 d = dictReset"
    using assms(2,3) by (auto simp: dict_ok_def dictReset_def)
  then have e: "entries d = concat bs" by (simp add: entries_def tab_chains)
  with scan_tab [OF assms(1) t(1), of key] dict_ok_uniq [OF assms(2)] False show ?thesis
    by (auto simp: scan_tables_def lookup_def split: option.split)
qed

lemma size_zero_empty: "dict_ok T d \<Longrightarrow> ht_size (ht0 d) = 0 \<Longrightarrow> entries d = [] \<and> \<not> dictIsRehashing d"
  by (auto simp: dict_ok_def entries_def tab_def dictReset_def chains_def split: if_splits)

lemma dictFind_ok:
  assumes "type_ok T" and "dict_ok T d"
  shows "\<exists>d'. dictFind T d key = Inr (d', lookup T d key) \<and> dict_ok T d' \<and> same_entries d d'"
proof (cases "ht_size (ht0 d) = 0")
  case True
  then show ?thesis
    using size_zero_empty [OF assms(2) True] assms(2) by (simp add: dictFind_def lookup_def)
next
  case False
  obtain d1 where 1: "rehash_if T d = Inr d1" "dict_ok T d1" "same_entries d d1"
    using rehash_if_ok [OF assms] by blast
  then have "ht_size (ht0 d1) \<noteq> 0" using False by (simp add: same_entries_def)
  with scan_tables_ok [OF assms(1) 1(2), of key] lookup_same [OF assms 1(3), of key] 1 False
  show ?thesis by (auto simp: dictFind_def)
qed

section \<open>Expansion\<close>

lemma next_power_loop_exp:
  "\<exists>j\<ge>k. next_power_loop sz k = 4 * 2 ^ j \<and> sz \<le> 4 * 2 ^ j \<and> (j = k \<or> 4 * 2 ^ (j - 1) < sz)"
proof (induction sz k rule: next_power_loop.induct)
  case (1 sz k)
  show ?case
  proof (cases "sz \<le> 4 * 2 ^ k")
    case True
    then show ?thesis
      by (intro exI [of _ k]) (simp add: next_power_loop.simps [of sz k] DICT_HT_INITIAL_SIZE_def)
  next
    case False
    then obtain j where "j \<ge> k + 1" "next_power_loop sz (k + 1) = 4 * 2 ^ j" "sz \<le> 4 * 2 ^ j"
      "j = k + 1 \<or> 4 * 2 ^ (j - 1) < sz"
      using 1 [OF refl] by (auto simp: DICT_HT_INITIAL_SIZE_def)
    with False show ?thesis
      by (intro exI [of _ j]) (auto simp: next_power_loop.simps [of sz k] DICT_HT_INITIAL_SIZE_def)
  qed
qed

text \<open>The least power of two, at least 4, that is not below the request.\<close>

lemma dictNextPower_exp:
  assumes "sz \<le> 2 ^ 31"
  shows "\<exists>k. dictNextPower sz = 2 ^ k \<and> 2 \<le> k \<and> k \<le> 31 \<and> sz \<le> 2 ^ k \<and> (k = 2 \<or> 2 ^ (k - 1) < sz)"
proof -
  obtain j where j: "next_power_loop sz 0 = 4 * 2 ^ j" "sz \<le> 4 * 2 ^ j" "j = 0 \<or> 4 * 2 ^ (j - 1) < sz"
    using next_power_loop_exp [of 0 sz] by auto
  have "j + 2 \<le> 31"
  proof (rule ccontr)
    assume a: "\<not> j + 2 \<le> 31"
    then have "(2::int) ^ 29 \<le> 2 ^ (j - 1)" by (intro power_increasing) auto
    then show False using j(3) a assms by auto
  qed
  moreover have "\<not> sz \<ge> LONG_MAX" using assms by (simp add: LONG_MAX_def)
  moreover have "j + 2 = 2 \<or> 2 ^ (j + 2 - 1) < sz" using j(3) by (cases j) auto
  ultimately show ?thesis
    using j by (intro exI [of _ "j + 2"]) (auto simp: dictNextPower_def power_add)
qed

lemma tab_new:
  assumes "2 \<le> k" and "k \<le> 31"
  shows "tab T \<lparr>table = Some (replicate (nat (2 ^ k)) []), ht_size = 2 ^ k, sizemask = 2 ^ k - 1, used = 0\<rparr> k
    (replicate (2 ^ k) [])"
  using assms by (simp add: tab_def nat_power_eq concat_replicate_trivial)

lemma dictExpand_ok:
  assumes "dict_ok T d" and "sz \<le> 2 ^ 31" and "\<not> dictIsRehashing d" and "used (ht0 d) \<le> sz"
  shows "\<exists>d'. dictExpand d sz = (d', True) \<and> dict_ok T d' \<and> same_entries d d' \<and> ht_size (ht0 d') \<noteq> 0 \<and>
    (dictIsRehashing d' \<longleftrightarrow> ht_size (ht0 d) \<noteq> 0) \<and> events d' = events d"
proof -
  obtain k where k: "dictNextPower sz = 2 ^ k" "2 \<le> k" "k \<le> 31"
    using dictNextPower_exp [OF assms(2)] by blast
  let ?n = "\<lparr>table = Some (replicate (nat (2 ^ k)) []), ht_size = 2 ^ k, sizemask = 2 ^ k - 1, used = 0\<rparr> :: ('a, 'b) dictht"
  let ?bs = "replicate (2 ^ k) [] :: ('a, 'b) dictEntry list list"
  have n: "tab T ?n k ?bs" using tab_new [OF k(2,3)] .
  have c: "chains ?n = ?bs" using tab_chains [OF n] .
  have h1: "ht1 d = dictReset" using assms(1,3) by (simp add: dict_ok_def)
  consider "ht0 d = dictReset" | k' bs' where "tab T (ht0 d) k' bs'"
    using assms(1,3) by (auto simp: dict_ok_def)
  then show ?thesis
  proof cases
    case 1
    let ?d = "d\<lparr>ht0 := ?n\<rparr>"
    have e: "entries ?d = entries d" using 1 h1 c by (simp add: entries_def concat_replicate_trivial)
    have "dict_ok T ?d" using assms(1,3) n h1 unfolding dict_ok_def e by (auto simp: dictIsRehashing_def)
    then show ?thesis
      using 1 assms(3,4) k e by (auto simp: dictExpand_def Let_def dictReset_def same_entries_def dictIsRehashing_def)
  next
    case 2
    let ?d = "d\<lparr>ht1 := ?n, rehashidx := 0\<rparr>"
    have e: "entries ?d = entries d" using h1 c by (simp add: entries_def concat_replicate_trivial)
    have "dict_ok T ?d \<and> dictIsRehashing ?d"
      using assms(1) n 2 e unfolding dict_ok_def [of T d]
      by (intro dict_ok_rehashingI [where r = 0]) auto
    moreover have "table (ht0 d) \<noteq> None" "ht_size (ht0 d) \<noteq> 0" using 2 by (auto simp: tab_def)
    ultimately show ?thesis
      using assms(3,4) k e by (auto simp: dictExpand_def Let_def same_entries_def)
  qed
qed

lemma dictExpandIfNeeded_ok:
  assumes "dict_ok T d"
  shows "\<exists>d'. dictExpandIfNeeded d = (d', True) \<and> dict_ok T d' \<and> same_entries d d' \<and> ht_size (ht0 d') \<noteq> 0"
proof -
  have lim: "used (ht0 d) < 1073741824" "0 \<le> used (ht0 d)"
    using assms by (auto simp: dict_ok_def tab_def dictReset_def entries_def chains_def DICT_LIMIT_def split: if_splits)
  consider "dictIsRehashing d" | "\<not> dictIsRehashing d" "ht_size (ht0 d) = 0"
    | "\<not> dictIsRehashing d" "ht_size (ht0 d) \<noteq> 0" by blast
  then show ?thesis
  proof cases
    case 1
    with assms show ?thesis
      by (auto simp: dictExpandIfNeeded_def tab_def elim!: dict_ok_rehashingE)
  next
    case 2
    then have "used (ht0 d) \<le> DICT_HT_INITIAL_SIZE"
      using assms by (auto simp: dict_ok_def dictReset_def tab_def DICT_HT_INITIAL_SIZE_def)
    with dictExpand_ok [OF assms _ 2(1), of DICT_HT_INITIAL_SIZE] 2 show ?thesis
      by (auto simp: dictExpandIfNeeded_def DICT_HT_INITIAL_SIZE_def)
  next
    case 3
    show ?thesis
    proof (cases "used (ht0 d) \<ge> ht_size (ht0 d) \<and>
        (dict_can_resize d \<or> used (ht0 d) div ht_size (ht0 d) > dict_force_resize_ratio)")
      case True
      then have "to_u64 ((if ht_size (ht0 d) > used (ht0 d) then ht_size (ht0 d) else used (ht0 d)) * 2) =
          used (ht0 d) * 2" using lim by (simp add: cint)
      then show ?thesis
        using dictExpand_ok [OF assms _ 3(1), of "used (ht0 d) * 2"] True 3 lim
        by (auto simp: dictExpandIfNeeded_def)
    next
      case False
      with 3 assms show ?thesis by (auto simp: dictExpandIfNeeded_def)
    qed
  qed
qed

section \<open>Insertion\<close>

text \<open>The table insertions go to, and the index of a key there.\<close>

definition target :: "('k, 'v) dict \<Rightarrow> ('k, 'v) dictht" where
  "target d = (if dictIsRehashing d then ht1 d else ht0 d)"

lemma dictKeyIndex_ok:
  assumes "type_ok T" and "dict_ok T d"
  shows "\<exists>d'. dictKeyIndex T d key = Inr (d', if lookup T d key = None
      then Some (dictHashKey T key AND sizemask (target d')) else None) \<and>
    dict_ok T d' \<and> same_entries d d' \<and> ht_size (ht0 d') \<noteq> 0"
proof -
  obtain d1 where 1: "dictExpandIfNeeded d = (d1, True)" "dict_ok T d1" "same_entries d d1" "ht_size (ht0 d1) \<noteq> 0"
    using dictExpandIfNeeded_ok [OF assms(2)] by blast
  with scan_tables_ok [OF assms(1) 1(2,4), of key] lookup_same [OF assms 1(3), of key] show ?thesis
    by (auto simp: dictKeyIndex_def target_def split: option.split)
qed

text \<open>Linking an entry in front of its chain.\<close>

definition link_entry :: "('k, 'v) dictType \<Rightarrow> ('k, 'v) dictEntry \<Rightarrow> ('k, 'v) dict \<Rightarrow> ('k, 'v) dict" where
  "link_entry T e d =
     (let ht = target d; i = dictHashKey T (de_key e) AND sizemask ht;
          ht = (set_bucket ht i (e # (chains ht ! nat i)))\<lparr>used := to_u64 (used ht + 1)\<rparr>
      in if dictIsRehashing d then d\<lparr>ht1 := ht\<rparr> else d\<lparr>ht0 := ht\<rparr>)"

lemma tab_link:
  fixes e :: "('k, 'v) dictEntry"
  assumes "tab T ht k bs" and "length (concat bs) < DICT_LIMIT"
  defines "i \<equiv> slot T (de_key e) k"
  shows "tab T ((set_bucket ht (int i) (e # bs ! i))\<lparr>used := to_u64 (used ht + 1)\<rparr>) k (bs[i := e # bs ! i]) \<and>
    mset (concat (bs[i := e # bs ! i])) = add_mset e (mset (concat bs))"
proof -
  have i: "i < length bs" "i < 2 ^ k" using slot_less assms(1) by (auto simp: tab_def i_def)
  have m: "mset (concat (bs[i := e # bs ! i])) = add_mset e (mset (concat bs))"
    using mset_concat_update [OF i(1), of "e # bs ! i"] by simp
  have "to_u64 (used ht + 1) = int (length (concat (bs[i := e # bs ! i])))"
    using length_concat_update [OF i(1), of "e # bs ! i"] assms(1,2) by (simp add: tab_def cint DICT_LIMIT_def)
  with tab_place [OF assms(1) i(2)] show ?thesis
    using m by (intro conjI tab_update [OF assms(1) i(2)]) (auto simp: i_def)
qed

lemma uniq_Cons:
  assumes "type_ok T" and "uniq T es" and "find (has_key T (de_key e)) es = None" and "de_addr e \<notin> de_addr ` set es"
  shows "uniq T (e # es)"
  using assms type_okD(2) [OF assms(1)] unfolding uniq_def find_None_iff has_key_def by auto

lemma lookup_cong_key:
  assumes "type_ok T" and "dictCompareKeys T key key'"
  shows "has_key T key = has_key T key'"
  using assms type_okD(2,3) [OF assms(1)] unfolding has_key_def by blast

lemma link_entry_ok:
  assumes "type_ok T" and "dict_ok T d" and "ht_size (ht0 d) \<noteq> 0" and "lookup T d (de_key e) = None"
    and "de_addr e \<notin> de_addr ` set (entries d)" and "length (entries d) + 1 < DICT_LIMIT"
  shows "dict_ok T (link_entry T e d) \<and> mset (entries (link_entry T e d)) = add_mset e (mset (entries d)) \<and>
    bucket (target d) (dictHashKey T (de_key e) AND sizemask (target d)) =
      Inr (chains (target d) ! nat (dictHashKey T (de_key e) AND sizemask (target d)))"
proof -
  have u: "uniq T (e # entries d)"
    using uniq_Cons [OF assms(1) dict_ok_uniq [OF assms(2)]] assms(4,5) by (simp add: lookup_def)
  have fin: "uniq T es \<and> length es < DICT_LIMIT" if "mset es = add_mset e (mset (entries d))" for es
  proof
    show "uniq T es" using u that uniq_mset [of "e # entries d" es T] by simp
    have "length es = Suc (length (entries d))" using arg_cong [OF that, of size] by simp
    then show "length es < DICT_LIMIT" using assms(6) by simp
  qed
  show ?thesis
  proof (cases "dictIsRehashing d")
    case True
    obtain k bs k' bs' r where t: "tab T (ht0 d) k bs" "tab T (ht1 d) k' bs'" "rehashidx d = int r" "r \<le> 2 ^ k"
      "\<forall>i<r. bs ! i = []" "entries d = concat bs @ concat bs'"
      using dict_ok_rehashingE [OF assms(2) True] by metis
    let ?i = "slot T (de_key e) k'" let ?bs = "bs'[?i := e # bs' ! ?i]"
    have l: "tab T ((set_bucket (ht1 d) (int ?i) (e # bs' ! ?i))\<lparr>used := to_u64 (used (ht1 d) + 1)\<rparr>) k' ?bs"
      "mset (concat ?bs) = add_mset e (mset (concat bs'))"
      using tab_link [OF t(2), of e] t(6) assms(6) by auto
    have d: "link_entry T e d = d\<lparr>ht1 := (set_bucket (ht1 d) (int ?i) (e # bs' ! ?i))\<lparr>used := to_u64 (used (ht1 d) + 1)\<rparr>\<rparr>"
      using True slot_index [OF t(2), of "de_key e"] tab_chains [OF t(2)] by (simp add: link_entry_def target_def Let_def)
    have e: "entries (link_entry T e d) = concat bs @ concat ?bs"
      using entries_rehashing [of T "link_entry T e d" k bs k' ?bs] t(1) l(1) by (simp add: d)
    then have m: "mset (entries (link_entry T e d)) = add_mset e (mset (entries d))" using l(2) t(6) by simp
    have "dict_ok T (link_entry T e d)"
      using dict_ok_rehashingI [of T "link_entry T e d" k bs k' ?bs r] t l fin [OF m] by (simp add: d)
    with m show ?thesis
      using True slot_index [OF t(2), of "de_key e"] tab_bucket [OF t(2) slot_less [of T "de_key e"]] tab_chains [OF t(2)]
      by (simp add: target_def)
  next
    case False
    then obtain k bs where t: "tab T (ht0 d) k bs" "ht1 d = dictReset"
      using assms(2,3) by (auto simp: dict_ok_def dictReset_def)
    have ent: "entries d = concat bs" using t by (simp add: entries_def tab_chains)
    let ?i = "slot T (de_key e) k" let ?bs = "bs[?i := e # bs ! ?i]"
    have l: "tab T ((set_bucket (ht0 d) (int ?i) (e # bs ! ?i))\<lparr>used := to_u64 (used (ht0 d) + 1)\<rparr>) k ?bs"
      "mset (concat ?bs) = add_mset e (mset (concat bs))"
      using tab_link [OF t(1), of e] ent assms(6) by auto
    have d: "link_entry T e d = d\<lparr>ht0 := (set_bucket (ht0 d) (int ?i) (e # bs ! ?i))\<lparr>used := to_u64 (used (ht0 d) + 1)\<rparr>\<rparr>"
      using False slot_index [OF t(1), of "de_key e"] tab_chains [OF t(1)] by (simp add: link_entry_def target_def Let_def)
    have m: "mset (entries (link_entry T e d)) = add_mset e (mset (entries d))"
      using l t(2) ent tab_chains [OF l(1)] by (simp add: d entries_def)
    have "\<not> dictIsRehashing (link_entry T e d)" using False by (simp add: d dictIsRehashing_def)
    then have "dict_ok T (link_entry T e d)"
      using fin [OF m] l(1) t(2) unfolding dict_ok_def by (auto simp: d)
    with m show ?thesis
      using False slot_index [OF t(1), of "de_key e"] tab_bucket [OF t(1) slot_less [of T "de_key e"]] tab_chains [OF t(1)]
      by (simp add: target_def)
  qed
qed

lemma entries_upd [simp]:
  "entries (d\<lparr>pool := x\<rparr>) = entries d" "entries (d\<lparr>events := es\<rparr>) = entries d"
  by (simp_all add: entries_def)

lemma dict_ok_upd [simp]:
  "dict_ok T (d\<lparr>pool := x\<rparr>) = dict_ok T d" "dict_ok T (d\<lparr>events := es\<rparr>) = dict_ok T d"
  by (simp_all add: dict_ok_def dictIsRehashing_def)

lemma lookup_upd [simp]:
  "lookup T (d\<lparr>pool := x\<rparr>) key = lookup T d key" "lookup T (d\<lparr>events := es\<rparr>) key = lookup T d key"
  by (simp_all add: lookup_def)

lemma target_pool [simp]: "target (d\<lparr>pool := x\<rparr>) = target d"
  by (simp add: target_def dictIsRehashing_def)

text \<open>The hypothesis on the page pool: it gives an address no entry of the dictionary has.\<close>

definition pool_gives :: "('k, 'v) dict \<Rightarrow> addr \<Rightarrow> agg \<Rightarrow> bool" where
  "pool_gives d a ag \<longleftrightarrow> alloc_entry_random sizeof_dictEntry (pool d) = Inr (a, ag) \<and>
     a \<notin> de_addr ` set (entries d)"

abbreviation new_entry :: "('k, 'v) dictType \<Rightarrow> addr \<Rightarrow> 'k \<Rightarrow> ('k, 'v) dictEntry" where
  "new_entry T a key \<equiv> \<lparr>de_addr = a, de_key = dup_key T key, de_val = None\<rparr>"

lemma dictAddRaw_exists:
  assumes "type_ok T" and "dict_ok T d" and "lookup T d key \<noteq> None"
  shows "\<exists>d'. dictAddRaw T d key = Inr (d', None) \<and> dict_ok T d' \<and> same_entries d d'"
proof -
  obtain d1 where 1: "rehash_if T d = Inr d1" "dict_ok T d1" "same_entries d d1"
    using rehash_if_ok [OF assms(1,2)] by blast
  obtain d2 where 2: "dictKeyIndex T d1 key = Inr (d2, None)" "dict_ok T d2" "same_entries d1 d2"
    using dictKeyIndex_ok [OF assms(1) 1(2), of key] lookup_same [OF assms(1,2) 1(3), of key] assms(3) by auto
  show ?thesis using 1 2 same_entries_trans by (auto simp: dictAddRaw_def)
qed

lemma dictAddRaw_new:
  assumes "type_ok T" and "dict_ok T d" and "lookup T d key = None" and "pool_gives d a ag"
    and "length (entries d) + 1 < DICT_LIMIT"
  shows "\<exists>d'. dictAddRaw T d key = Inr (d', Some (new_entry T a key)) \<and> dict_ok T d' \<and>
    mset (entries d') = add_mset (new_entry T a key) (mset (entries d)) \<and> pool d' = ag"
proof -
  let ?e = "new_entry T a key"
  obtain d1 where 1: "rehash_if T d = Inr d1" "dict_ok T d1" "same_entries d d1"
    using rehash_if_ok [OF assms(1,2)] by blast
  obtain d2 where 2: "dictKeyIndex T d1 key = Inr (d2, Some (dictHashKey T key AND sizemask (target d2)))"
    "dict_ok T d2" "same_entries d1 d2" "ht_size (ht0 d2) \<noteq> 0"
    using dictKeyIndex_ok [OF assms(1) 1(2), of key] lookup_same [OF assms(1,2) 1(3), of key] assms(3) by auto
  have same: "same_entries d d2" using same_entries_trans [OF 1(3) 2(3)] .
  have cmp: "dictCompareKeys T (dup_key T key) key" using type_okD(5) [OF assms(1)] .
  have h: "dictHashKey T (dup_key T key) = dictHashKey T key" using type_okD(4) [OF assms(1) cmp] .
  have lk: "lookup T d2 (de_key ?e) = None"
    using lookup_same [OF assms(1,2) same, of key] assms(3) lookup_cong_key [OF assms(1) cmp]
    by (simp add: lookup_def)
  have fresh: "de_addr ?e \<notin> de_addr ` set (entries d2)" and len: "length (entries d2) = length (entries d)"
    using assms(4) same_entries_set [OF same] same unfolding pool_gives_def same_entries_def
    by (auto dest: arg_cong [of _ _ size])
  let ?d = "d2\<lparr>pool := ag\<rparr>"
  note L = link_entry_ok [OF assms(1), of ?d ?e]
  have ok: "dict_ok T (link_entry T ?e ?d)" "mset (entries (link_entry T ?e ?d)) = add_mset ?e (mset (entries d))"
    "bucket (target d2) (dictHashKey T key AND sizemask (target d2)) =
      Inr (chains (target d2) ! nat (dictHashKey T key AND sizemask (target d2)))"
    using L 2(2,4) lk fresh len assms(5) same h by (simp_all add: same_entries_def)
  have pool: "alloc_entry_random sizeof_dictEntry (pool d2) = Inr (a, ag)"
    using assms(4) same by (simp add: pool_gives_def same_entries_def)
  have "dictAddRaw T d key = Inr (link_entry T ?e ?d, Some ?e)"
    using 1(1) 2(1) pool ok(3) h unfolding target_def dictAddRaw_def
    by (simp add: Let_def link_entry_def target_def dictIsRehashing_def)
  moreover have "pool (link_entry T ?e ?d) = ag" by (simp add: link_entry_def Let_def)
  ultimately show ?thesis using ok by blast
qed

text \<open>Storing a value through an entry pointer.\<close>

definition put_val :: "('k, 'v) dictType \<Rightarrow> addr \<Rightarrow> 'v \<Rightarrow> ('k, 'v) dictEntry \<Rightarrow> ('k, 'v) dictEntry" where
  "put_val T a val e = (if de_addr e = a then e\<lparr>de_val := Some (dup_val T val)\<rparr> else e)"

lemma put_val_sel [simp]: "de_addr (put_val T a v e) = de_addr e" "de_key (put_val T a v e) = de_key e"
  by (simp_all add: put_val_def)

lemma has_key_put_val [simp]: "has_key T key (put_val T a v e) = has_key T key e"
  by (simp add: has_key_def)

lemma tab_upd: "tab T ht k bs \<Longrightarrow> tab T (upd_table (put_val T a v) ht) k (map (map (put_val T a v)) bs)"
proof -
  have "length (concat (map (map f) bs)) = length (concat bs)" for f :: "('a, 'b) dictEntry \<Rightarrow> ('a, 'b) dictEntry" and bs
    by (induction bs) auto
  moreover assume "tab T ht k bs"
  ultimately show ?thesis by (auto simp: tab_def upd_table_def)
qed

lemma dictSetVal_put: "dictSetVal T a v d = d\<lparr>ht0 := upd_table (put_val T a v) (ht0 d), ht1 := upd_table (put_val T a v) (ht1 d)\<rparr>"
  by (simp add: dictSetVal_def put_val_def [abs_def] Let_def)

lemma entries_SetVal: "entries (dictSetVal T a v d) = map (put_val T a v) (entries d)"
  by (cases "table (ht0 d)"; cases "table (ht1 d)")
    (simp_all add: dictSetVal_put entries_def chains_def upd_table_def map_concat)

lemma dictSetVal_ok:
  assumes "dict_ok T d"
  shows "dict_ok T (dictSetVal T a v d)"
proof -
  let ?d = "dictSetVal T a v d"
  have u: "uniq T (entries ?d) \<and> length (entries ?d) < DICT_LIMIT"
    using assms unfolding entries_SetVal dict_ok_def uniq_def by (auto simp: comp_def)
  have r: "upd_table (put_val T a v) dictReset = dictReset" by (simp add: upd_table_def dictReset_def)
  show ?thesis
  proof (cases "dictIsRehashing d")
    case True
    obtain k bs k' bs' r where t: "tab T (ht0 d) k bs" "tab T (ht1 d) k' bs'" "rehashidx d = int r" "r \<le> 2 ^ k"
      "\<forall>i<r. bs ! i = []"
      using dict_ok_rehashingE [OF assms True] by metis
    have "\<forall>i<r. map (map (put_val T a v)) bs ! i = []" using t(1,4,5) by (simp add: tab_def)
    then show ?thesis
      using dict_ok_rehashingI [of T ?d k "map (map (put_val T a v)) bs" k' "map (map (put_val T a v)) bs'" r]
        tab_upd [OF t(1), of a v] tab_upd [OF t(2), of a v] t u by (simp add: dictSetVal_put)
  next
    case False
    then have "\<not> dictIsRehashing ?d" by (simp add: dictSetVal_put dictIsRehashing_def)
    moreover have "ht1 ?d = dictReset \<and> (ht0 ?d = dictReset \<or> (\<exists>k bs. tab T (ht0 ?d) k bs))"
      using assms False r tab_upd [of T "ht0 d" _ _ a v] unfolding dictSetVal_put dict_ok_def by auto
    ultimately show ?thesis using u by (simp add: dict_ok_def)
  qed
qed

lemma lookup_SetVal: "lookup T (dictSetVal T a v d) key = map_option (put_val T a v) (lookup T d key)"
proof -
  have "find (has_key T key) (map (put_val T a v) es) = map_option (put_val T a v) (find (has_key T key) es)" for es
    by (induction es) auto
  then show ?thesis by (simp add: lookup_def entries_SetVal)
qed

text \<open>The value stored for a key: \<open>None\<close> when the key is absent, \<open>Some None\<close> when its value field was
  never stored.\<close>

definition dval :: "('k, 'v) dictType \<Rightarrow> ('k, 'v) dict \<Rightarrow> 'k \<Rightarrow> 'v option option" where
  "dval T d key = map_option de_val (lookup T d key)"

lemma dval_same: "type_ok T \<Longrightarrow> dict_ok T d \<Longrightarrow> same_entries d d' \<Longrightarrow> dval T d' = dval T d"
  using lookup_same [of T d d'] by (simp add: dval_def fun_eq_iff)

lemma lookup_None_iff: "lookup T d key = None \<longleftrightarrow> dval T d key = None"
  by (simp add: dval_def)

lemma lookup_added:
  assumes "type_ok T" and "dict_ok T d'" and "mset (entries d') = add_mset e (mset (entries d))"
  shows "lookup T d' k = (if has_key T k e then Some e else lookup T d k)"
proof -
  have u: "uniq T (entries d')" using dict_ok_uniq [OF assms(2)] .
  then have u2: "uniq T (e # entries d)" using uniq_mset [of "e # entries d" "entries d'" T] assms(3) by simp
  have "find (has_key T k) (entries d') = find (has_key T k) (e # entries d)"
    using assms(3) by (intro find_cong_set [OF assms(1) u u2]) (metis mset.simps(2) set_mset_mset)
  then show ?thesis by (simp add: lookup_def)
qed

lemma dictAdd_ok:
  assumes "type_ok T" and "dict_ok T d" and "dval T d key = None \<Longrightarrow> pool_gives d a ag"
    and "length (entries d) + 1 < DICT_LIMIT"
  shows "\<exists>d'. dictAdd T d key val = Inr (d', dval T d key = None) \<and> dict_ok T d' \<and>
    (\<forall>k. dval T d' k = (if dval T d key = None \<and> dictCompareKeys T k key then Some (Some (dup_val T val)) else dval T d k)) \<and>
    (dval T d key \<noteq> None \<longrightarrow> same_entries d d')"
proof (cases "dval T d key = None")
  case False
  then have "lookup T d key \<noteq> None" by (simp add: lookup_None_iff)
  then obtain d' where d': "dictAddRaw T d key = Inr (d', None)" "dict_ok T d'" "same_entries d d'"
    using dictAddRaw_exists [OF assms(1,2), of key] by blast
  have "dval T d' = dval T d" using dval_same [OF assms(1,2) d'(3)] .
  with False d' show ?thesis by (auto simp: dictAdd_def)
next
  case True
  let ?e = "new_entry T a key"
  obtain d1 where 1: "dictAddRaw T d key = Inr (d1, Some ?e)" "dict_ok T d1"
    "mset (entries d1) = add_mset ?e (mset (entries d))"
    using dictAddRaw_new [OF assms(1,2) _ assms(3) [OF True] assms(4)] True by (auto simp: lookup_None_iff)
  let ?d = "dictSetVal T a val d1"
  have key: "has_key T k ?e \<longleftrightarrow> dictCompareKeys T k key" for k
    using type_okD(2,3,5) [OF assms(1)] unfolding has_key_def by (metis dictEntry.select_convs(2))
  have "put_val T a val x = x" if "lookup T d k = Some x" for k x
  proof -
    have "x \<in> set (entries d)" using that by (auto simp: lookup_def find_Some_iff)
    then show ?thesis using assms(3) [OF True] by (auto simp: put_val_def pool_gives_def)
  qed
  then have "map_option (put_val T a val) (lookup T d k) = lookup T d k" for k
    by (cases "lookup T d k") auto
  then have "dval T ?d k = (if dictCompareKeys T k key then Some (Some (dup_val T val)) else dval T d k)" for k
    using lookup_added [OF assms(1) 1(2,3), of k] key [of k]
    by (auto simp: dval_def lookup_SetVal put_val_def)
  then show ?thesis
    using 1(1) dictSetVal_ok [OF 1(2), of a val] True by (auto simp: dictAdd_def)
qed

text \<open>A store through the entry found for a key changes the value of that key only.\<close>

lemma dval_SetVal_found:
  assumes "type_ok T" and "dict_ok T d" and "lookup T d key = Some e"
  shows "dval T (dictSetVal T (de_addr e) val d) k =
    (if dictCompareKeys T k key then Some (Some (dup_val T val)) else dval T d k)"
proof -
  have e: "e \<in> set (entries d)" "has_key T key e"
    using assms(3) find_eq_iff [OF assms(1) dict_ok_uniq [OF assms(2)]] by (auto simp: lookup_def)
  have inj: "x = e" if "x \<in> set (entries d)" "de_addr x = de_addr e" for x
    using that e(1) dict_ok_uniq [OF assms(2)] by (auto simp: uniq_def distinct_map inj_on_def)
  show ?thesis
  proof (cases "dictCompareKeys T k key")
    case True
    then have "lookup T d k = Some e" using assms(3) lookup_cong_key [OF assms(1) True] by (simp add: lookup_def)
    with True show ?thesis by (simp add: dval_def lookup_SetVal put_val_def)
  next
    case False
    have "put_val T (de_addr e) val x = x" if "lookup T d k = Some x" for x
    proof -
      have x: "x \<in> set (entries d)" "has_key T k x" using that by (auto simp: lookup_def find_Some_iff)
      have "x \<noteq> e"
        using x(2) e(2) False type_okD(2,3) [OF assms(1)] unfolding has_key_def by metis
      then show ?thesis using inj x(1) by (auto simp: put_val_def)
    qed
    then have "map_option (put_val T (de_addr e) val) (lookup T d k) = lookup T d k"
      by (cases "lookup T d k") auto
    with False show ?thesis by (simp add: dval_def lookup_SetVal)
  qed
qed

lemma dictReplace_ok:
  assumes "type_ok T" and "dict_ok T d" and "dval T d key = None \<Longrightarrow> pool_gives d a ag"
    and "length (entries d) + 1 < DICT_LIMIT"
  shows "\<exists>d'. dictReplace T d key val = Inr (d', dval T d key = None) \<and> dict_ok T d' \<and>
    (\<forall>k. dval T d' k = (if dictCompareKeys T k key then Some (Some (dup_val T val)) else dval T d k))"
proof -
  obtain d1 where 1: "dictAdd T d key val = Inr (d1, dval T d key = None)" "dict_ok T d1"
    "\<forall>k. dval T d1 k = (if dval T d key = None \<and> dictCompareKeys T k key then Some (Some (dup_val T val)) else dval T d k)"
    using dictAdd_ok [OF assms, where val = val] by blast
  show ?thesis
  proof (cases "dval T d key = None")
    case True
    with 1 show ?thesis by (simp add: dictReplace_def)
  next
    case False
    then have same: "dval T d1 = dval T d" using 1(3) by auto
    then have "dval T d1 key \<noteq> None" using False by simp
    then obtain e where e: "lookup T d1 key = Some e" by (auto simp: dval_def)
    obtain d2 where 2: "dictFind T d1 key = Inr (d2, Some e)" "dict_ok T d2" "same_entries d1 d2"
      using dictFind_ok [OF assms(1) 1(2), of key] e by auto
    have l2: "lookup T d2 key = Some e" using lookup_same [OF assms(1) 1(2) 2(3)] e by simp
    have "dval T (dictSetVal T (de_addr e) val d2) k =
        (if dictCompareKeys T k key then Some (Some (dup_val T val)) else dval T d k)" for k
      using dval_SetVal_found [OF assms(1) 2(2) l2, of val k] dval_same [OF assms(1) 1(2) 2(3)] same by simp
    moreover have "dval T (x\<lparr>events := es\<rparr>) k = dval T x k" for x es k by (simp add: dval_def)
    ultimately show ?thesis
      using 1(1) 2(1) False dictSetVal_ok [OF 2(2)] by (simp add: dictReplace_def Let_def)
  qed
qed

section \<open>Deletion\<close>

lemma unlink_find:
  "unlink T key c = None \<longleftrightarrow> find (has_key T key) c = None"
  "unlink T key c = Some (e, c') \<Longrightarrow> find (has_key T key) c = Some e \<and> mset c = add_mset e (mset c')"
  by (induction c arbitrary: c') (auto simp: has_key_def split: option.splits if_splits)

lemma tab_unlink:
  assumes "tab T ht k bs" and "unlink T key (bs ! slot T key k) = Some (e, c')" and "length (concat bs) < DICT_LIMIT"
  defines "i \<equiv> slot T key k"
  shows "tab T ((set_bucket ht (int i) c')\<lparr>used := to_u64 (used ht - 1)\<rparr>) k (bs[i := c']) \<and>
    mset (concat bs) = add_mset e (mset (concat (bs[i := c'])))"
proof -
  have i: "i < length bs" "i < 2 ^ k" using slot_less assms(1) by (auto simp: tab_def i_def)
  have c: "mset (bs ! i) = add_mset e (mset c')" using unlink_find(2) [OF assms(2)] by (simp add: i_def)
  have m: "mset (concat bs) = add_mset e (mset (concat (bs[i := c'])))"
    using mset_concat_update [OF i(1), of c'] c by simp
  have "length (concat bs) = Suc (length (concat (bs[i := c'])))" using arg_cong [OF m, of size] by simp
  then have "to_u64 (used ht - 1) = int (length (concat (bs[i := c'])))"
    using assms(1,3) by (simp add: tab_def cint DICT_LIMIT_def)
  moreover have "set c' \<subseteq> set (bs ! i)" using c by (metis set_mset_mset set_mset_add_mset_insert subset_insertI)
  ultimately show ?thesis
    using m tab_place [OF assms(1) i(2)] by (intro conjI tab_update [OF assms(1) i(2)]) auto
qed

text \<open>What is left after the entry of a key is gone.\<close>

lemma lookup_removed:
  assumes "type_ok T" and "dict_ok T d" and "mset (entries d) = add_mset e (mset (entries d'))" and "has_key T key e"
  shows "uniq T (entries d') \<and> length (entries d') < DICT_LIMIT \<and>
    lookup T d' k = (if dictCompareKeys T k key then None else lookup T d k)"
proof -
  have u: "uniq T (e # entries d')"
    using dict_ok_uniq [OF assms(2)] uniq_mset [of "e # entries d'" "entries d" T] assms(3) by simp
  then have u': "uniq T (entries d')" by (auto simp: uniq_def)
  have len: "length (entries d') < DICT_LIMIT"
    using assms(2) arg_cong [OF assms(3), of size] by (simp add: dict_ok_def)
  have d: "lookup T d k = find (has_key T k) (e # entries d')"
    unfolding lookup_def using assms(3)
    by (intro find_cong_set [OF assms(1) dict_ok_uniq [OF assms(2)] u]) (metis mset.simps(2) set_mset_mset)
  have "lookup T d' k = None" if "dictCompareKeys T k key"
  proof -
    have "\<not> has_key T k x" if "x \<in> set (entries d')" for x
    proof
      assume "has_key T k x"
      then have "dictCompareKeys T (de_key e) (de_key x)"
        using assms(4) \<open>dictCompareKeys T k key\<close> type_okD(2,3) [OF assms(1)] unfolding has_key_def by metis
      then have "e = x" using u that by (auto simp: uniq_def)
      then show False using u that by (auto simp: uniq_def)
    qed
    then show ?thesis by (simp add: lookup_def find_None_iff)
  qed
  moreover have "lookup T d' k = lookup T d k" if "\<not> dictCompareKeys T k key"
  proof -
    have "\<not> has_key T k e"
      using that assms(4) type_okD(2,3) [OF assms(1)] unfolding has_key_def by metis
    then show ?thesis using d by (simp add: lookup_def)
  qed
  ultimately show ?thesis using u' len by simp
qed

text \<open>One deletion, on a dictionary after its rehashing step.\<close>

definition delete_body ::
    "('k, 'v) dictType \<Rightarrow> ('k, 'v) dict \<Rightarrow> 'k \<Rightarrow> bool \<Rightarrow> (dict_error, ('k, 'v) dict \<times> bool) result" where
  "delete_body T d key nofree =
     (let h = dictHashKey T key; idx = h AND sizemask (ht0 d) in
        rbind (bucket (ht0 d) idx) (\<lambda>c.
          case unlink T key c of
            Some (he, c') \<Rightarrow>
              Inr (d\<lparr>ht0 := (set_bucket (ht0 d) idx c')\<lparr>used := to_u64 (used (ht0 d) - 1)\<rparr>,
                     events := events d @ delete_events T nofree he\<rparr>, True)
          | None \<Rightarrow>
              if \<not> dictIsRehashing d then Inr (d, False)
              else let idx = h AND sizemask (ht1 d) in
                rbind (bucket (ht1 d) idx) (\<lambda>c.
                  case unlink T key c of
                    Some (he, c') \<Rightarrow>
                      Inr (d\<lparr>ht1 := (set_bucket (ht1 d) idx c')\<lparr>used := to_u64 (used (ht1 d) - 1)\<rparr>,
                             events := events d @ delete_events T nofree he\<rparr>, True)
                  | None \<Rightarrow> Inr (d, False))))"

lemma dictGenericDelete_body:
  "dictGenericDelete T d key nofree =
     (if ht_size (ht0 d) = 0 then Inr (d, False) else rbind (rehash_if T d) (\<lambda>d. delete_body T d key nofree))"
  by (simp add: dictGenericDelete_def delete_body_def)

lemma delete_body_ok:
  assumes "type_ok T" and "dict_ok T d" and "ht_size (ht0 d) \<noteq> 0"
  shows "\<exists>d'. delete_body T d key nofree = Inr (d', lookup T d key \<noteq> None) \<and> dict_ok T d' \<and>
    (case lookup T d key of None \<Rightarrow> d' = d
     | Some e \<Rightarrow> mset (entries d) = add_mset e (mset (entries d')) \<and> has_key T key e \<and>
         events d' = events d @ delete_events T nofree e)"
proof (cases "dictIsRehashing d")
  case True
  obtain k bs k' bs' r where t: "tab T (ht0 d) k bs" "tab T (ht1 d) k' bs'" "rehashidx d = int r" "r \<le> 2 ^ k"
    "\<forall>i<r. bs ! i = []" "entries d = concat bs @ concat bs'"
    using dict_ok_rehashingE [OF assms(2) True] by metis
  have u: "uniq T (concat bs @ concat bs')" using dict_ok_uniq [OF assms(2)] t(6) by simp
  have lim: "length (concat bs) < DICT_LIMIT" "length (concat bs') < DICT_LIMIT"
    using assms(2) t(6) by (auto simp: dict_ok_def)
  have s: "bucket (ht0 d) (int (slot T key k)) = Inr (bs ! slot T key k)"
    "bucket (ht1 d) (int (slot T key k')) = Inr (bs' ! slot T key k')"
    "find (has_key T key) (bs ! slot T key k) = find (has_key T key) (concat bs)"
    "find (has_key T key) (bs' ! slot T key k') = find (has_key T key) (concat bs')"
    using scan_tab [OF assms(1) t(1), of key] scan_tab [OF assms(1) t(2), of key] uniq_sub [OF u]
      slot_index [OF t(1), of key] slot_index [OF t(2), of key]
    by (auto simp: scan_chain_def has_key_def [abs_def])
  note idx = slot_index [OF t(1), of key] slot_index [OF t(2), of key]
  show ?thesis
  proof (cases "unlink T key (bs ! slot T key k)")
    case (Some p)
    then obtain e c' where p: "unlink T key (bs ! slot T key k) = Some (e, c')" by (cases p) auto
    let ?h = "(set_bucket (ht0 d) (int (slot T key k)) c')\<lparr>used := to_u64 (used (ht0 d) - 1)\<rparr>"
    let ?d = "d\<lparr>ht0 := ?h, events := events d @ delete_events T nofree e\<rparr>"
    have n: "tab T ?h k (bs[slot T key k := c'])"
      "mset (concat bs) = add_mset e (mset (concat (bs[slot T key k := c'])))"
      using tab_unlink [OF t(1) p lim(1)] by auto
    have l: "lookup T d key = Some e" using unlink_find(2) [OF p] s(3) t(6) by (simp add: lookup_def find_append)
    have m: "mset (entries d) = add_mset e (mset (entries ?d))"
      using n t(2,6) entries_rehashing [of T ?d k "bs[slot T key k := c']" k' bs'] by simp
    have hk: "has_key T key e" using l by (auto simp: lookup_def find_Some_iff)
    have "\<forall>i<r. bs[slot T key k := c'] ! i = []"
    proof (intro allI impI)
      fix i assume i: "i < r"
      have "slot T key k \<noteq> i" using i t(5) p by auto
      then show "bs[slot T key k := c'] ! i = []" using t(5) i by simp
    qed
    then have "dict_ok T ?d"
      using dict_ok_rehashingI [of T ?d k "bs[slot T key k := c']" k' bs' r] n(1) t(2-4)
        lookup_removed [OF assms(1,2) m hk, of key] by simp
    then show ?thesis
      using p s(1) l m hk by (intro exI [of _ ?d]) (simp add: delete_body_def Let_def idx)
  next
    case None
    then have f0: "find (has_key T key) (concat bs) = None" using unlink_find(1) s(3) by metis
    show ?thesis
    proof (cases "unlink T key (bs' ! slot T key k')")
      case None': None
      then have "lookup T d key = None"
        using unlink_find(1) [of T key "bs' ! slot T key k'"] s(4) f0 t(6) by (simp add: lookup_def find_append)
      then show ?thesis
        using None None' s(1,2) True assms(2) by (simp add: delete_body_def Let_def idx)
    next
      case (Some p)
      then obtain e c' where p: "unlink T key (bs' ! slot T key k') = Some (e, c')" by (cases p) auto
      let ?h = "(set_bucket (ht1 d) (int (slot T key k')) c')\<lparr>used := to_u64 (used (ht1 d) - 1)\<rparr>"
      let ?d = "d\<lparr>ht1 := ?h, events := events d @ delete_events T nofree e\<rparr>"
      have n: "tab T ?h k' (bs'[slot T key k' := c'])"
        "mset (concat bs') = add_mset e (mset (concat (bs'[slot T key k' := c'])))"
        using tab_unlink [OF t(2) p lim(2)] by auto
      have l: "lookup T d key = Some e"
        using unlink_find(2) [OF p] s(4) f0 t(6) by (simp add: lookup_def find_append)
      have m: "mset (entries d) = add_mset e (mset (entries ?d))"
        using n t(1,6) entries_rehashing [of T ?d k bs k' "bs'[slot T key k' := c']"] by simp
      have hk: "has_key T key e" using l by (auto simp: lookup_def find_Some_iff)
      have "dict_ok T ?d"
        using dict_ok_rehashingI [of T ?d k bs k' "bs'[slot T key k' := c']" r] n(1) t(1,3-5)
          lookup_removed [OF assms(1,2) m hk, of key] by simp
      then show ?thesis
        using None p s(1,2) l m hk True by (intro exI [of _ ?d]) (simp add: delete_body_def Let_def idx)
    qed
  qed
next
  case False
  then obtain k bs where t: "tab T (ht0 d) k bs" "ht1 d = dictReset"
    using assms(2,3) by (auto simp: dict_ok_def dictReset_def)
  have ent: "entries d = concat bs" using t by (simp add: entries_def tab_chains)
  have s: "bucket (ht0 d) (int (slot T key k)) = Inr (bs ! slot T key k)"
    "find (has_key T key) (bs ! slot T key k) = find (has_key T key) (concat bs)"
    using scan_tab [OF assms(1) t(1), of key] dict_ok_uniq [OF assms(2)] ent slot_index [OF t(1), of key]
    by (auto simp: scan_chain_def has_key_def [abs_def])
  note idx = slot_index [OF t(1), of key]
  show ?thesis
  proof (cases "unlink T key (bs ! slot T key k)")
    case None
    then have "lookup T d key = None"
      using unlink_find(1) [of T key "bs ! slot T key k"] s(2) ent by (simp add: lookup_def)
    then show ?thesis using None s(1) False assms(2) by (simp add: delete_body_def Let_def idx)
  next
    case (Some p)
    then obtain e c' where p: "unlink T key (bs ! slot T key k) = Some (e, c')" by (cases p) auto
    let ?h = "(set_bucket (ht0 d) (int (slot T key k)) c')\<lparr>used := to_u64 (used (ht0 d) - 1)\<rparr>"
    let ?d = "d\<lparr>ht0 := ?h, events := events d @ delete_events T nofree e\<rparr>"
    have n: "tab T ?h k (bs[slot T key k := c'])"
      "mset (concat bs) = add_mset e (mset (concat (bs[slot T key k := c'])))"
      using tab_unlink [OF t(1) p] assms(2) ent by (auto simp: dict_ok_def)
    have l: "lookup T d key = Some e" using unlink_find(2) [OF p] s(2) ent by (simp add: lookup_def)
    have m: "mset (entries d) = add_mset e (mset (entries ?d))"
      using n ent t(2) tab_chains [OF n(1)] by (simp add: entries_def)
    have hk: "has_key T key e" using l by (auto simp: lookup_def find_Some_iff)
    have "\<not> dictIsRehashing ?d" using False by (simp add: dictIsRehashing_def)
    then have "dict_ok T ?d"
      using n(1) t(2) lookup_removed [OF assms(1,2) m hk, of key] unfolding dict_ok_def by auto
    then show ?thesis
      using p s(1) l m hk by (intro exI [of _ ?d]) (simp add: delete_body_def Let_def idx)
  qed
qed

lemma dictGenericDelete_ok:
  assumes "type_ok T" and "dict_ok T d"
  shows "\<exists>d'. dictGenericDelete T d key nofree = Inr (d', dval T d key \<noteq> None) \<and> dict_ok T d' \<and>
    (\<forall>k. dval T d' k = (if dictCompareKeys T k key then None else dval T d k)) \<and>
    (\<forall>e. lookup T d key = Some e \<longrightarrow> EntryFreed (de_addr e) \<in> set (events d'))"
proof (cases "ht_size (ht0 d) = 0")
  case True
  then have "entries d = []" using size_zero_empty [OF assms(2)] by simp
  then have "lookup T d k = None" for k by (simp add: lookup_def)
  then show ?thesis using True assms(2) by (auto simp: dictGenericDelete_body dval_def)
next
  case False
  obtain d1 where 1: "rehash_if T d = Inr d1" "dict_ok T d1" "same_entries d d1"
    using rehash_if_ok [OF assms] by blast
  have sz: "ht_size (ht0 d1) \<noteq> 0" using 1(3) False by (simp add: same_entries_def)
  have lk: "lookup T d1 k = lookup T d k" for k using lookup_same [OF assms 1(3)] .
  obtain d2 where 2: "delete_body T d1 key nofree = Inr (d2, lookup T d1 key \<noteq> None)" "dict_ok T d2"
    "case lookup T d1 key of None \<Rightarrow> d2 = d1
     | Some e \<Rightarrow> mset (entries d1) = add_mset e (mset (entries d2)) \<and> has_key T key e \<and>
         events d2 = events d1 @ delete_events T nofree e"
    using delete_body_ok [OF assms(1) 1(2) sz, of key nofree] by blast
  have res: "dictGenericDelete T d key nofree = Inr (d2, dval T d key \<noteq> None)"
    using 1(1) 2(1) False lk by (simp add: dictGenericDelete_body dval_def)
  show ?thesis
  proof (cases "lookup T d key")
    case None
    have "lookup T d k = None" if "dictCompareKeys T k key" for k
      using None lookup_cong_key [OF assms(1) that] by (simp add: lookup_def)
    then show ?thesis using res 2 None lk by (auto simp: dval_def)
  next
    case (Some e)
    then have m: "mset (entries d1) = add_mset e (mset (entries d2))" "has_key T key e"
      "events d2 = events d1 @ delete_events T nofree e" using 2(3) lk by auto
    have "lookup T d2 k = (if dictCompareKeys T k key then None else lookup T d k)" for k
      using lookup_removed [OF assms(1) 1(2) m(1,2), of k] lk by simp
    then show ?thesis using res 2(2) m(3) Some by (auto simp: dval_def delete_events_def)
  qed
qed

lemma dictEmpty_ok: "dict_ok T (dictEmpty T d) \<and> entries (dictEmpty T d) = []"
  by (simp add: dictEmpty_def dictClear_def dict_ok_def dictIsRehashing_def entries_def uniq_def DICT_LIMIT_def)

lemma dictCreate_ok:
  fixes T :: "('k, 'v) dictType"
  shows "dict_ok T (dictCreate ag cr) \<and> entries (dictCreate ag cr :: ('k, 'v) dict) = []"
  by (simp add: dictCreate_def dict_ok_def dictIsRehashing_def entries_def uniq_def DICT_LIMIT_def)

lemma dictFetchValue_ok:
  assumes "type_ok T" and "dict_ok T d"
  shows "\<exists>d'. dictFetchValue T d key = Inr (d', dval T d key) \<and> dict_ok T d' \<and> same_entries d d'"
  using dictFind_ok [OF assms, of key] by (auto simp: dictFetchValue_def dval_def)

section \<open>A map interface\<close>

text \<open>
  The contract of a key-value map whose keys are compared by an equivalence \<open>eq\<close>. \<open>room\<close> says that an
  insertion can get memory; \<open>store\<close> is what the map keeps of a value.
\<close>

datatype ('k, 'v) map_op = MAdd 'k 'v | MReplace 'k 'v | MDelete 'k | MFetch 'k

datatype 'w map_reply = Flag bool | Value "'w option"

fun map_step :: "('s \<Rightarrow> 'k \<Rightarrow> 'v \<Rightarrow> ('e, 's \<times> bool) result) \<Rightarrow> ('s \<Rightarrow> 'k \<Rightarrow> 'v \<Rightarrow> ('e, 's \<times> bool) result) \<Rightarrow>
    ('s \<Rightarrow> 'k \<Rightarrow> ('e, 's \<times> bool) result) \<Rightarrow> ('s \<Rightarrow> 'k \<Rightarrow> ('e, 's \<times> 'w option) result) \<Rightarrow>
    's \<Rightarrow> ('k, 'v) map_op \<Rightarrow> ('e, 's \<times> 'w map_reply) result" where
  "map_step add rep del fetch s (MAdd k v) = rbind (add s k v) (\<lambda>(s, b). Inr (s, Flag b))"
| "map_step add rep del fetch s (MReplace k v) = rbind (rep s k v) (\<lambda>(s, b). Inr (s, Flag b))"
| "map_step add rep del fetch s (MDelete k) = rbind (del s k) (\<lambda>(s, b). Inr (s, Flag b))"
| "map_step add rep del fetch s (MFetch k) = rbind (fetch s k) (\<lambda>(s, w). Inr (s, Value w))"

fun map_spec :: "('k \<Rightarrow> 'k \<Rightarrow> bool) \<Rightarrow> ('v \<Rightarrow> 'w) \<Rightarrow> ('k \<Rightarrow> 'w option) \<Rightarrow> ('k, 'v) map_op \<Rightarrow>
    ('k \<Rightarrow> 'w option) \<times> 'w map_reply" where
  "map_spec eq store m (MAdd k v) =
     (if m k = None then (\<lambda>x. if eq x k then Some (store v) else m x, Flag True) else (m, Flag False))"
| "map_spec eq store m (MReplace k v) = (\<lambda>x. if eq x k then Some (store v) else m x, Flag (m k = None))"
| "map_spec eq store m (MDelete k) = (\<lambda>x. if eq x k then None else m x, Flag (m k \<noteq> None))"
| "map_spec eq store m (MFetch k) = (m, Value (m k))"

fun op_room :: "('s \<Rightarrow> bool) \<Rightarrow> 's \<Rightarrow> ('k, 'v) map_op \<Rightarrow> bool" where
  "op_room room s (MAdd k v) = room s"
| "op_room room s (MReplace k v) = room s"
| "op_room room s (MDelete k) = True"
| "op_room room s (MFetch k) = True"

text \<open>Sequences of calls, each insertion made in a state with room; the replies in order.\<close>

inductive map_runs :: "('s \<Rightarrow> 'o \<Rightarrow> ('e, 's \<times> 'r) result) \<Rightarrow> ('s \<Rightarrow> 'o \<Rightarrow> bool) \<Rightarrow> 's \<Rightarrow> 'o list \<Rightarrow> 's \<Rightarrow> 'r list \<Rightarrow> bool"
  for step room s
where
  map_runs_Nil: "map_runs step room s [] s []"
| map_runs_snoc: "map_runs step room s ops t rs \<Longrightarrow> room t opn \<Longrightarrow> step t opn = Inr (t', r) \<Longrightarrow>
     map_runs step room s (ops @ [opn]) t' (rs @ [r])"

inductive_simps map_runs_empty: "map_runs step room s [] t rs"
inductive_cases map_runsE: "map_runs step room s ops t rs"

definition spec_runs :: "('m \<Rightarrow> 'o \<Rightarrow> 'm \<times> 'r) \<Rightarrow> 'm \<Rightarrow> 'o list \<Rightarrow> 'm \<times> 'r list" where
  "spec_runs f m ops = foldl (\<lambda>(m, rs) opn. let (m, r) = f m opn in (m, rs @ [r])) (m, []) ops"

lemma spec_runs_simps [simp]:
  "spec_runs f m [] = (m, [])"
  "spec_runs f m (ops @ [opn]) =
     (fst (f (fst (spec_runs f m ops)) opn), snd (spec_runs f m ops) @ [snd (f (fst (spec_runs f m ops)) opn)])"
  by (simp_all add: spec_runs_def split_beta Let_def)

locale kv_map =
  fixes add :: "'s \<Rightarrow> 'k \<Rightarrow> 'v \<Rightarrow> ('e, 's \<times> bool) result"
    and rep :: "'s \<Rightarrow> 'k \<Rightarrow> 'v \<Rightarrow> ('e, 's \<times> bool) result"
    and del :: "'s \<Rightarrow> 'k \<Rightarrow> ('e, 's \<times> bool) result"
    and fetch :: "'s \<Rightarrow> 'k \<Rightarrow> ('e, 's \<times> 'w option) result"
    and ok :: "'s \<Rightarrow> bool"
    and room :: "'s \<Rightarrow> bool"
    and val :: "'s \<Rightarrow> 'k \<Rightarrow> 'w option"
    and eq :: "'k \<Rightarrow> 'k \<Rightarrow> bool"
    and store :: "'v \<Rightarrow> 'w"
  assumes add_law: "ok s \<Longrightarrow> room s \<Longrightarrow> \<exists>s'. add s k v = Inr (s', val s k = None) \<and> ok s' \<and>
      (\<forall>x. val s' x = (if val s k = None \<and> eq x k then Some (store v) else val s x))"
    and rep_law: "ok s \<Longrightarrow> room s \<Longrightarrow> \<exists>s'. rep s k v = Inr (s', val s k = None) \<and> ok s' \<and>
      (\<forall>x. val s' x = (if eq x k then Some (store v) else val s x))"
    and del_law: "ok s \<Longrightarrow> \<exists>s'. del s k = Inr (s', val s k \<noteq> None) \<and> ok s' \<and>
      (\<forall>x. val s' x = (if eq x k then None else val s x))"
    and fetch_law: "ok s \<Longrightarrow> \<exists>s'. fetch s k = Inr (s', val s k) \<and> ok s' \<and> val s' = val s"
begin

lemma map_step_law:
  assumes "ok s" and "op_room room s opn"
  shows "\<exists>s'. map_step add rep del fetch s opn = Inr (s', snd (map_spec eq store (val s) opn)) \<and> ok s' \<and>
    val s' = fst (map_spec eq store (val s) opn)"
proof (cases opn)
  case (MAdd k v)
  with add_law [OF assms(1), of k v] assms(2) show ?thesis by (fastforce simp: fun_eq_iff)
next
  case (MReplace k v)
  with rep_law [OF assms(1), of k v] assms(2) show ?thesis by (fastforce simp: fun_eq_iff)
next
  case (MDelete k)
  with del_law [OF assms(1), of k] show ?thesis by (fastforce simp: fun_eq_iff)
next
  case (MFetch k)
  with fetch_law [OF assms(1), of k] show ?thesis by fastforce
qed

lemma map_runs_law:
  assumes "map_runs (map_step add rep del fetch) (op_room room) s ops t rs" and "ok s"
  shows "ok t \<and> val t = fst (spec_runs (map_spec eq store) (val s) ops) \<and>
    rs = snd (spec_runs (map_spec eq store) (val s) ops)"
  using assms
proof (induction rule: map_runs.induct)
  case (map_runs_snoc ops t rs opn t' r)
  then have "ok t" by blast
  from map_step_law [OF this map_runs_snoc.hyps(2)] map_runs_snoc show ?case by auto
qed simp

end

section \<open>The dictionary is a map\<close>

definition dict_room :: "('k, 'v) dict \<Rightarrow> bool" where
  "dict_room d \<longleftrightarrow> (\<exists>a ag. pool_gives d a ag) \<and> length (entries d) + 1 < DICT_LIMIT"

interpretation dict: kv_map "dictAdd T" "dictReplace T" "dictDelete T" "dictFetchValue T"
    "\<lambda>d. type_ok T \<and> dict_ok T d" dict_room "dval T" "dictCompareKeys T" "\<lambda>v. Some (dup_val T v)"
  for T
proof (unfold_locales, goal_cases)
  case (1 s k v)
  then show ?case using dictAdd_ok [where T = T and d = s and key = k and val = v] unfolding dict_room_def by blast
next
  case (2 s k v)
  then show ?case using dictReplace_ok [where T = T and d = s and key = k and val = v] unfolding dict_room_def by blast
next
  case (3 s k)
  then show ?case using dictGenericDelete_ok [of T s k False] unfolding dictDelete_def by blast
next
  case (4 s k)
  then show ?case using dictFetchValue_ok [of T s k] dval_same [of T s] by blast
qed

abbreviation dict_step :: "('k, 'v) dictType \<Rightarrow> ('k, 'v) dict \<Rightarrow> ('k, 'v) map_op \<Rightarrow>
    (dict_error, ('k, 'v) dict \<times> 'v option map_reply) result" where
  "dict_step T \<equiv> map_step (dictAdd T) (dictReplace T) (dictDelete T) (dictFetchValue T)"

lemma dval_create: "dval T (dictCreate ag cr) = (\<lambda>_. None)"
  using dictCreate_ok [of T ag cr] by (simp add: dval_def lookup_def fun_eq_iff)



text \<open>A concrete type and pool: integer keys, the identity hash.\<close>

definition int_dict :: "(int, int) dictType" where
  "int_dict = \<lparr>hashFunction = word_of_int, keyDup = None, valDup = None, keyCompare = None,
     keyDestructor = True, valDestructor = True\<rparr>"

lemma int_dict_ok: "type_ok int_dict"
  by (simp add: type_ok_def dictCompareKeys_def int_dict_def dup_key_def)

lemma int_dict_room: "dict_room (dictCreate (two_pages 0 0) True :: (int, int) dict)"
proof -
  have "case alloc_entry_random sizeof_dictEntry (two_pages 0 0) of Inr (a, _) \<Rightarrow> a = 4096 | _ \<Rightarrow> False"
    by code_simp
  then obtain ag where "alloc_entry_random sizeof_dictEntry (two_pages 0 0) = Inr (4096, ag)"
    by (auto split: sum.splits)
  then have "pool_gives (dictCreate (two_pages 0 0) True :: (int, int) dict) 4096 ag"
    by (simp add: pool_gives_def dictCreate_def entries_def)
  then show ?thesis using dictCreate_ok [of int_dict "two_pages 0 0" True]
    by (auto simp: dict_room_def DICT_LIMIT_def)
qed

lemma int_dict_run:
  "\<exists>d rs. map_runs (dict_step int_dict) (op_room dict_room) (dictCreate (two_pages 0 0) True)
     [MAdd 1 10, MFetch 1, MDelete 1] d rs"
proof -
  let ?s = "dictCreate (two_pages 0 0) True :: (int, int) dict"
  obtain d1 r1 where 1: "dict_step int_dict ?s (MAdd 1 10) = Inr (d1, r1)" "dict_ok int_dict d1"
    using dict.map_step_law [of int_dict ?s "MAdd 1 10"] int_dict_ok int_dict_room
      dictCreate_ok [of int_dict "two_pages 0 0" True] by fastforce
  obtain d2 r2 where 2: "dict_step int_dict d1 (MFetch 1) = Inr (d2, r2)" "dict_ok int_dict d2"
    using dict.map_step_law [of int_dict d1 "MFetch 1"] int_dict_ok 1(2) by fastforce
  obtain d3 r3 where 3: "dict_step int_dict d2 (MDelete 1) = Inr (d3, r3)"
    using dict.map_step_law [of int_dict d2 "MDelete 1"] int_dict_ok 2(2) by fastforce
  let ?run = "map_runs (dict_step int_dict) (op_room dict_room) ?s"
  have "?run [] ?s []" by (rule map_runs_Nil)
  then have "?run [MAdd 1 10] d1 [r1]" using map_runs_snoc [of _ _ _ "[]" _ "[]"] int_dict_room 1(1) by fastforce
  then have "?run [MAdd 1 10, MFetch 1] d2 [r1, r2]"
    using map_runs_snoc [of _ _ _ "[MAdd 1 10]" _ "[r1]"] 2(1) by fastforce
  then have "?run [MAdd 1 10, MFetch 1, MDelete 1] d3 [r1, r2, r3]"
    using map_runs_snoc [of _ _ _ "[MAdd 1 10, MFetch 1]" _ "[r1, r2]"] 3 by fastforce
  then show ?thesis by blast
qed



end
