(* ===== verification/Dict_Props.thy ===== *)
theory Dict_Props
  imports Dict_Map
begin

text \<open>
  Further properties of the dictionary: rehashing ends, sizes stay in range, the integer hash loses
  nothing, the iterator visits every entry once, and random picks are entries of the table.
\<close>

section \<open>Rehashing ends\<close>

lemma rehashing_finishes:
  assumes "type_ok T" and "dict_ok T d" and "ht_size (ht0 d) - rehashidx d < int n"
  shows "\<exists>d'. dictRehash T d n = Inr (d', False) \<and> dict_ok T d' \<and> same_entries d d' \<and> \<not> dictIsRehashing d'"
  using rehash_rounds_finish [OF assms(1,2) _ assms(3)] assms(2)
  by (cases "dictIsRehashing d") (auto simp: dictRehash_def)

text \<open>
  C19. Rehashing ends: a \<open>dictRehash\<close> call with more rounds than the old table has buckets left empties it,
  returns 0 and leaves one table with the same entries, and every key still has its value.
\<close>

theorem dictRehash_finishes:
  assumes "type_ok T" and "dict_ok T d" and "ht_size (ht0 d) - rehashidx d < int n"
  shows "\<exists>d'. dictRehash T d n = Inr (d', False) \<and> dict_ok T d' \<and> \<not> dictIsRehashing d' \<and> ht1 d' = dictReset \<and>
    mset (entries d') = mset (entries d) \<and> dval T d' = dval T d"
proof -
  obtain d' where d': "dictRehash T d n = Inr (d', False)" "dict_ok T d'" "same_entries d d'" "\<not> dictIsRehashing d'"
    using rehashing_finishes [OF assms] by blast
  moreover have "ht1 d' = dictReset" using d'(2,4) by (simp add: dict_ok_def)
  moreover have "mset (entries d') = mset (entries d)" using d'(3) by (simp add: same_entries_def)
  moreover have "dval T d' = dval T d" using dval_same [OF assms(1,2) d'(3)] .
  ultimately show ?thesis by blast
qed

text \<open>A table of four buckets that is being moved to one of eight.\<close>

definition two_keys :: "(int, int) dict" where
  "two_keys = (dictCreate (two_pages 0 0) True)\<lparr>
     ht0 := \<lparr>table = Some [[], [\<lparr>de_addr = 4096, de_key = 5, de_val = Some 50\<rparr>], [], []],
             ht_size = 4, sizemask = 3, used = 1\<rparr>,
     ht1 := \<lparr>table = Some [[\<lparr>de_addr = 4120, de_key = 8, de_val = Some 80\<rparr>], [], [], [], [], [], [], []],
             ht_size = 8, sizemask = 7, used = 1\<rparr>,
     rehashidx := 1\<rparr>"

lemma two_keys_ok: "dict_ok int_dict two_keys"
proof -
  have "tab int_dict (ht0 two_keys) 2 [[], [\<lparr>de_addr = 4096, de_key = 5, de_val = Some 50\<rparr>], [], []]"
    by (auto simp: tab_def two_keys_def dictHashKey_def int_dict_def nth_Cons' split: if_splits)
  moreover have "tab int_dict (ht1 two_keys) 3 [[\<lparr>de_addr = 4120, de_key = 8, de_val = Some 80\<rparr>], [], [], [], [], [], [], []]"
    by (auto simp: tab_def two_keys_def dictHashKey_def int_dict_def nth_Cons' split: if_splits)
  moreover have "uniq int_dict (entries two_keys)"
    by (simp add: uniq_def entries_def chains_def two_keys_def dictCompareKeys_def int_dict_def)
  ultimately show ?thesis
    using dict_ok_rehashingI [of int_dict two_keys 2 _ 3 _ 1]
    by (simp add: two_keys_def entries_def chains_def DICT_LIMIT_def)
qed

theorem dictRehash_finishes_witness:
  "\<exists>d'. dictRehash int_dict two_keys 4 = Inr (d', False) \<and> \<not> dictIsRehashing d' \<and> dval int_dict d' 5 = Some (Some 50)"
proof -
  have "dval int_dict two_keys 5 = Some (Some 50)"
    by (simp add: dval_def lookup_def entries_def chains_def two_keys_def has_key_def dictCompareKeys_def int_dict_def)
  then show ?thesis
    using dictRehash_finishes [OF int_dict_ok two_keys_ok, of 4] by (auto simp: two_keys_def)
qed

section \<open>Sizes\<close>

text \<open>
  C22. Table sizes: for every request below \<open>LONG_MAX\<close>, \<open>_dictNextPower\<close> gives the least power of two that is
  at least 4 and at least the request, and it fits an \<open>unsigned long\<close>; from \<open>LONG_MAX\<close> on it gives
  \<open>LONG_MAX\<close>, which is not a power of two.
\<close>

theorem dictNextPower_least:
  "(sz < LONG_MAX \<longrightarrow> (\<exists>k. dictNextPower sz = 2 ^ k \<and> 2 \<le> k \<and> k \<le> 63 \<and> sz \<le> 2 ^ k \<and>
      (\<forall>j\<ge>2. sz \<le> 2 ^ j \<longrightarrow> k \<le> j))) \<and>
   (LONG_MAX \<le> sz \<longrightarrow> dictNextPower sz = LONG_MAX \<and> (\<forall>k. LONG_MAX \<noteq> 2 ^ k))"
proof (intro conjI impI)
  assume sz: "sz < LONG_MAX"
  obtain j where j: "next_power_loop sz 0 = 4 * 2 ^ j" "sz \<le> 4 * 2 ^ j" "j = 0 \<or> 4 * 2 ^ (j - 1) < sz"
    using next_power_loop_exp [of 0 sz] by auto
  have below: "j + 2 \<le> i" if "2 \<le> i" "sz \<le> 2 ^ i" for i
  proof (rule ccontr)
    assume a: "\<not> j + 2 \<le> i"
    then have "(2::int) ^ i \<le> 2 ^ (j + 1)" by (intro power_increasing) auto
    moreover have "(2::int) ^ (j + 1) = 4 * 2 ^ (j - 1)" using a that(1) by (cases j) auto
    ultimately show False using j(3) a that by auto
  qed
  have "j + 2 \<le> 63" using below [of 63] sz by (simp add: LONG_MAX_def)
  then show "\<exists>k. dictNextPower sz = 2 ^ k \<and> 2 \<le> k \<and> k \<le> 63 \<and> sz \<le> 2 ^ k \<and> (\<forall>j\<ge>2. sz \<le> 2 ^ j \<longrightarrow> k \<le> j)"
    using sz j below by (intro exI [of _ "j + 2"]) (auto simp: dictNextPower_def power_add)
next
  assume "LONG_MAX \<le> sz"
  then show "dictNextPower sz = LONG_MAX" by (simp add: dictNextPower_def)
next
  have odd: "odd LONG_MAX" "LONG_MAX \<noteq> 1" by (simp_all add: LONG_MAX_def)
  have "LONG_MAX \<noteq> 2 ^ k" for k using odd by (metis even_power dvd_refl power_0 gr0I)
  then show "\<forall>k. LONG_MAX \<noteq> 2 ^ k" by blast
qed

theorem dictNextPower_least_witness:
  "\<exists>k. dictNextPower 1000 = 2 ^ k \<and> k \<le> 10"
proof -
  obtain k where "dictNextPower 1000 = 2 ^ k" "\<forall>j\<ge>2. (1000::int) \<le> 2 ^ j \<longrightarrow> k \<le> j"
    using dictNextPower_least [of 1000] by (auto simp: LONG_MAX_def)
  then show ?thesis by auto
qed

section \<open>The integer hash\<close>

lemma xorshift_inj:
  fixes x y :: u32
  assumes "x XOR drop_bit n x = y XOR drop_bit n y" and "0 < n"
  shows "x = y"
proof -
  let ?z = "x XOR y"
  have "?z = drop_bit n ?z"
    using assms(1) by (metis (no_types) bit.xor_left_self drop_bit_xor xor.assoc xor.commute)
  then have "unat ?z = unat ?z div 2 ^ n" by (metis drop_bit_eq_div unat_drop_bit_eq)
  moreover have "unat ?z div 2 ^ n < unat ?z" if "0 < unat ?z"
    using that assms(2) one_less_power [of "2::nat" n] by (intro div_less_dividend) auto
  ultimately have "unat ?z = 0" by linarith
  then have "?z = 0" by (simp add: unat_eq_0)
  then show ?thesis by (metis bit.xor_self xor.assoc xor.right_neutral)
qed

lemma mult_inj: "c * d = 1 \<Longrightarrow> x * c = y * c \<Longrightarrow> x = (y :: u32)"
proof -
  assume cd: "c * d = 1" and eq: "x * c = y * c"
  have "x = x * c * d" by (simp only: mult.assoc cd mult_1_right)
  also have "\<dots> = y * c * d" by (simp only: eq)
  also have "\<dots> = y" by (simp only: mult.assoc cd mult_1_right)
  finally show "x = y" .
qed

lemma add_not_shift: "x + NOT (push_bit n x) = x * (1 - 2 ^ n) - (1 :: u32)"
  unfolding not_eq_complement push_bit_eq_mult
  by (simp only: right_diff_distrib mult_1_right) (simp only: diff_conv_add_uminus add.assoc)

lemma add_shift: "x + push_bit n x = x * (1 + 2 ^ n)" for x :: u32
  by (simp only: push_bit_eq_mult distrib_left mult_1_right)

text \<open>
  Thomas Wang's integer hash loses nothing: distinct keys have distinct 32-bit hashes, so integer keys
  collide only by the reduction to a table's size.
\<close>

theorem dictIntHashFunction_inj: "inj dictIntHashFunction"
proof (rule injI)
  fix x y :: u32
  define f where "f x = (x + NOT (push_bit 15 x)) XOR drop_bit 10 (x + NOT (push_bit 15 x))" for x :: u32
  define g where "g x = (x + push_bit 3 x) XOR drop_bit 6 (x + push_bit 3 x)" for x :: u32
  define h where "h x = (x + NOT (push_bit 11 x)) XOR drop_bit 16 (x + NOT (push_bit 11 x))" for x :: u32
  assume "dictIntHashFunction x = dictIntHashFunction y"
  then have "h (g (f x)) = h (g (f y))" by (simp add: dictIntHashFunction_def f_def g_def h_def Let_def)
  moreover have "x = y" if "h x = h y" for x y
    using xorshift_inj [OF that [unfolded h_def]] mult_inj [of "1 - 2 ^ 11" 4196353 x y] by (simp add: add_not_shift)
  moreover have "x = y" if "g x = g y" for x y
    using xorshift_inj [OF that [unfolded g_def]] mult_inj [of "1 + 2 ^ 3" 954437177 x y] by (simp add: add_shift)
  moreover have "x = y" if "f x = f y" for x y
    using xorshift_inj [OF that [unfolded f_def]] mult_inj [of "1 - 2 ^ 15" 1073774593 x y] by (simp add: add_not_shift)
  ultimately show "x = y" by blast
qed

section \<open>Iteration\<close>

text \<open>The client loop \<open>while((de = dictNext(di)) != NULL)\<close>, with \<open>n\<close> rounds for each call and at most
  \<open>m\<close> calls: the entries it saw, and the iterator and dictionary at the end.\<close>

fun dictVisit ::
    "nat \<Rightarrow> nat \<Rightarrow> (('k, 'v) dict \<Rightarrow> u64) \<Rightarrow> dictIterator \<Rightarrow> ('k, 'v) dict \<Rightarrow>
     (('k, 'v) dictEntry list \<times> dictIterator \<times> ('k, 'v) dict) option"
where
  "dictVisit n 0 fp it d = None"
| "dictVisit n (Suc m) fp it d =
     (case dictNext_rounds n fp it d of
        Some (Inr (it, d, Some e)) \<Rightarrow> map_option (\<lambda>(es, r). (e # es, r)) (dictVisit n m fp it d)
      | Some (Inr (it, d, None)) \<Rightarrow> Some ([], it, d)
      | _ \<Rightarrow> None)"

text \<open>All buckets in visiting order, and the position of an iterator in them.\<close>

definition all_chains :: "('k, 'v) dict \<Rightarrow> ('k, 'v) dictEntry list list" where
  "all_chains d = chains (ht0 d) @ chains (ht1 d)"

definition sized :: "('k, 'v) dict \<Rightarrow> bool" where
  "sized d \<longleftrightarrow> ht_size (ht0 d) = int (length (chains (ht0 d))) \<and> ht_size (ht1 d) = int (length (chains (ht1 d))) \<and>
     ht_size (ht0 d) < 2 ^ 31 \<and> ht_size (ht1 d) < 2 ^ 31 \<and> (dictIsRehashing d \<longleftrightarrow> chains (ht1 d) \<noteq> []) \<and>
     distinct (map de_addr (concat (all_chains d)))"

definition posn :: "(('k, 'v) dict \<Rightarrow> u64) \<Rightarrow> ('k, 'v) dict \<Rightarrow> dictIterator \<Rightarrow> nat \<Rightarrow> bool" where
  "posn fp d it g \<longleftrightarrow> \<not> it_safe it \<and> g \<le> length (all_chains d) \<and>
     ((it_table it = 0 \<and> it_index it = int g - 1 \<and> g \<le> length (chains (ht0 d))) \<or>
      (it_table it = 1 \<and> it_index it = int g - 1 - int (length (chains (ht0 d))) \<and> length (chains (ht0 d)) < g)) \<and>
     (g = 0 \<or> it_fingerprint it = fp d)"

definition at_chain :: "('k, 'v) dict \<Rightarrow> dictIterator \<Rightarrow> ('k, 'v) dictEntry list \<Rightarrow> bool" where
  "at_chain d it c \<longleftrightarrow> it_entry it \<noteq> None \<and>
     (case c of [] \<Rightarrow> it_next it = None
      | e # _ \<Rightarrow> it_next it = Some (de_addr e) \<and> (\<exists>b\<in>set (all_chains d). \<exists>p. b = p @ c))"

definition ready :: "(('k, 'v) dict \<Rightarrow> u64) \<Rightarrow> ('k, 'v) dict \<Rightarrow> dictIterator \<Rightarrow> ('k, 'v) dictEntry list \<Rightarrow> bool" where
  "ready fp d it es \<longleftrightarrow> (\<exists>g c. posn fp d it g \<and> at_chain d it c \<and> es = c @ concat (drop g (all_chains d)))"

definition finished :: "(('k, 'v) dict \<Rightarrow> u64) \<Rightarrow> ('k, 'v) dict \<Rightarrow> dictIterator \<Rightarrow> bool" where
  "finished fp d it \<longleftrightarrow> \<not> it_safe it \<and> it_fingerprint it = fp d"

text \<open>What a call of \<open>dictNext\<close> gives when the entries \<open>es\<close> are left.\<close>

fun gives ::
    "(('k, 'v) dict \<Rightarrow> u64) \<Rightarrow> ('k, 'v) dict \<Rightarrow> ('k, 'v) dictEntry list \<Rightarrow>
     (dict_error, dictIterator \<times> ('k, 'v) dict \<times> ('k, 'v) dictEntry option) result option \<Rightarrow> bool"
where
  "gives fp d [] r \<longleftrightarrow> (\<exists>it. r = Some (Inr (it, d, None)) \<and> finished fp d it \<and> 0 \<le> it_index it)"
| "gives fp d (e # es) r \<longleftrightarrow> (\<exists>it. r = Some (Inr (it, d, Some e)) \<and> ready fp d it es)"

lemma chain_from_hit:
  assumes "distinct (map de_addr (p @ e # c))"
  shows "chain_from (de_addr e) (p @ e # c) = e # c"
proof -
  have "\<forall>x\<in>set p. de_addr x \<noteq> de_addr e" using assms by (metis UnCI distinct_map inj_onD list.set_intros(1)
    distinct_append IntI empty_iff set_append)
  then show ?thesis by (simp add: chain_from_def)
qed

lemma chain_from_miss: "de_addr e \<notin> de_addr ` set b \<Longrightarrow> chain_from (de_addr e) b = []"
  by (simp add: chain_from_def dropWhile_eq_Nil_conv) (metis imageI)

lemma find_chain:
  assumes "distinct (map de_addr (concat bs))" and "b \<in> set bs" and "b = p @ e # c"
  shows "find (\<lambda>c. c \<noteq> []) (map (chain_from (de_addr e)) bs) = Some (e # c)"
  using assms
proof (induction bs)
  case (Cons b' bs)
  show ?case
  proof (cases "b' = b")
    case True
    have "distinct (map de_addr (p @ e # c))" using Cons.prems(1,3) True
      by (metis concat.simps(2) distinct_append map_append)
    then have "chain_from (de_addr e) b' = e # c" using Cons.prems(3) True chain_from_hit by metis
    then show ?thesis by simp
  next
    case False
    then have "b \<in> set bs" using Cons.prems(2) by auto
    moreover have "e \<in> set (concat bs)" using \<open>b \<in> set bs\<close> Cons.prems(3) by (auto intro!: bexI [of _ b])
    then have "de_addr e \<in> de_addr ` set (concat bs)" by (rule imageI)
    then have "de_addr e \<notin> de_addr ` set b'" using Cons.prems(1) by auto
    ultimately show ?thesis using Cons by (simp add: chain_from_miss)
  qed
qed simp

lemma chain_at_ready: "sized d \<Longrightarrow> at_chain d it (e # c) \<Longrightarrow> chain_at d (de_addr e) = Inr (e # c)"
  using find_chain [of "all_chains d"] by (fastforce simp: at_chain_def chain_at_def sized_def all_chains_def)

lemma bucket_chains: "i < length (chains ht) \<Longrightarrow> bucket ht (int i) = Inr (chains ht ! i)"
  by (auto simp: bucket_def chains_def split: option.splits)

lemma next_round_move:
  assumes "sized d" and "posn fp d it g" and "it_entry it = None" and "g < length (all_chains d)"
  shows "\<exists>it'. next_round fp it d = Inr (it', d, Some (all_chains d ! g)) \<and> posn fp d it' (g + 1)"
proof -
  let ?n0 = "length (chains (ht0 d))"
  have sz: "to_i32 (ht_size (ht0 d)) = int ?n0" "to_i32 (ht_size (ht1 d)) = int (length (chains (ht1 d)))"
    using assms(1) by (auto simp: sized_def cint)
  consider (t0) "it_table it = 0" "it_index it = int g - 1" "g < ?n0"
    | (over) "it_table it = 0" "it_index it = int g - 1" "g = ?n0"
    | (t1) "it_table it = 1" "it_index it = int g - 1 - int ?n0" "?n0 < g"
    using assms(2) le_neq_implies_less unfolding posn_def by blast
  then show ?thesis
  proof cases
    case t0
    then show ?thesis
      using assms sz bucket_chains [of g "ht0 d"]
      by (auto simp: next_round_def posn_def Let_def all_chains_def nth_append)
  next
    case over
    then have "0 < length (chains (ht1 d))" "dictIsRehashing d"
      using assms(1,4) by (auto simp: all_chains_def sized_def)
    then show ?thesis
      using over assms sz bucket_chains [of 0 "ht1 d"]
      by (auto simp: next_round_def posn_def Let_def all_chains_def nth_append Suc_le_eq)
  next
    case t1
    define i where "i = g - ?n0"
    have i: "g = ?n0 + i" "0 < i" "i < length (chains (ht1 d))" "it_index it = int i - 1"
      using t1 assms(4) by (auto simp: i_def all_chains_def)
    then show ?thesis
      using t1(1) assms sz(2) bucket_chains [OF i(3)]
      by (auto simp: next_round_def posn_def Let_def all_chains_def nth_append)
  qed
qed

lemma next_round_last:
  assumes "sized d" and "posn fp d it g" and "it_entry it = None" and "g = length (all_chains d)"
  shows "\<exists>it'. next_round fp it d = Inr (it', d, None) \<and> finished fp d it' \<and> 0 \<le> it_index it'"
proof -
  have "to_i32 (ht_size (ht0 d)) = int (length (chains (ht0 d)))" "to_i32 (ht_size (ht1 d)) = int (length (chains (ht1 d)))"
    using assms(1) by (auto simp: sized_def cint)
  then show ?thesis
    using assms by (auto simp: next_round_def posn_def Let_def all_chains_def sized_def finished_def)
qed

lemma rounds_from_gap:
  assumes "sized d"
  shows "posn fp d it g \<Longrightarrow> it_entry it = None \<Longrightarrow> length (all_chains d) - g < n \<Longrightarrow>
    gives fp d (concat (drop g (all_chains d))) (dictNext_rounds n fp it d)"
proof (induction n arbitrary: it g)
  case (Suc n)
  consider (last) "g = length (all_chains d)" | (more) "g < length (all_chains d)"
    using Suc.prems(1) le_neq_implies_less unfolding posn_def by blast
  then show ?case
  proof cases
    case last
    then show ?thesis using next_round_last [OF assms Suc.prems(1,2)] by auto
  next
    case more
    obtain it' where it': "next_round fp it d = Inr (it', d, Some (all_chains d ! g))" "posn fp d it' (g + 1)"
      using next_round_move [OF assms Suc.prems(1,2) more] by blast
    have dr: "drop g (all_chains d) = all_chains d ! g # drop (g + 1) (all_chains d)"
      using more by (simp add: Cons_nth_drop_Suc)
    show ?thesis
    proof (cases "all_chains d ! g")
      case Nil
      have "posn fp d (it'\<lparr>it_entry := None\<rparr>) (g + 1)" using it'(2) by (simp add: posn_def)
      from Suc.IH [OF this] Suc.prems(3) more it'(1) Nil dr show ?thesis by simp
    next
      case (Cons e c)
      define it2 where "it2 = it'\<lparr>it_entry := Some (de_addr e),
        it_next := (case c of [] \<Rightarrow> None | e' # _ \<Rightarrow> Some (de_addr e'))\<rparr>"
      have "all_chains d ! g \<in> set (all_chains d)" using more by simp
      then have "e # c \<in> set (all_chains d)" using Cons by simp
      then have "at_chain d it2 c"
        by (auto simp: at_chain_def it2_def split: list.split intro!: bexI [of _ "e # c"] exI [of _ "[e]"])
      moreover have "posn fp d it2 (g + 1)" using it'(2) by (simp add: posn_def it2_def)
      ultimately have "ready fp d it2 (c @ concat (drop (g + 1) (all_chains d)))" by (auto simp: ready_def)
      then show ?thesis using it'(1) Cons dr by (auto simp: it2_def)
    qed
  qed
qed simp

lemma rounds_from_entry:
  assumes "sized d" and "ready fp d it es" and "length (all_chains d) + 1 < n"
  shows "gives fp d es (dictNext_rounds n fp it d)"
proof -
  obtain g c where gc: "posn fp d it g" "at_chain d it c" "es = c @ concat (drop g (all_chains d))"
    using assms(2) by (auto simp: ready_def)
  obtain m where m: "n = Suc m" "length (all_chains d) - g < m" using assms(3) by (cases n) auto
  show ?thesis
  proof (cases c)
    case Nil
    have "posn fp d (it\<lparr>it_entry := None\<rparr>) g" using gc(1) by (simp add: posn_def)
    moreover have "next_round fp it d = Inr (it, d, Some [])"
      using gc(2) Nil by (auto simp: next_round_def at_chain_def)
    ultimately show ?thesis using rounds_from_gap [OF assms(1), of fp "it\<lparr>it_entry := None\<rparr>" g m] m gc(3) Nil by simp
  next
    case (Cons e c')
    define it2 where "it2 = it\<lparr>it_entry := Some (de_addr e),
      it_next := (case c' of [] \<Rightarrow> None | e' # _ \<Rightarrow> Some (de_addr e'))\<rparr>"
    have "next_round fp it d = Inr (it, d, Some (e # c'))"
      using gc(2) Cons chain_at_ready [OF assms(1), of it e c'] by (auto simp: next_round_def at_chain_def)
    then have "dictNext_rounds n fp it d = Some (Inr (it2, d, Some e))" by (simp add: m(1) it2_def)
    moreover have "at_chain d it2 c'" using gc(2) Cons
      by (auto simp: at_chain_def it2_def split: list.split) (metis append_Cons append_Nil append_assoc)+
    moreover have "posn fp d it2 g" using gc(1) by (simp add: posn_def it2_def)
    ultimately show ?thesis using gc(3) Cons by (auto simp: ready_def)
  qed
qed

lemma visit_ready:
  assumes "sized d" and "length (all_chains d) + 1 < n"
  shows "ready fp d it es \<Longrightarrow> length es < m \<Longrightarrow>
    \<exists>it'. dictVisit n m fp it d = Some (es, it', d) \<and> finished fp d it' \<and> 0 \<le> it_index it'"
proof (induction m arbitrary: it es)
  case (Suc m)
  note step = rounds_from_entry [OF assms(1) Suc.prems(1) assms(2)]
  show ?case
  proof (cases es)
    case Nil
    then show ?thesis using step by auto
  next
    case (Cons e es')
    then obtain it' where "dictNext_rounds n fp it d = Some (Inr (it', d, Some e))" "ready fp d it' es'"
      using step by auto
    with Suc.IH [of it' es'] Suc.prems(2) Cons show ?thesis by auto
  qed
qed simp

lemma dict_ok_sized:
  assumes "dict_ok T d" and "ht_size (ht0 d) < 2 ^ 31" and "ht_size (ht1 d) < 2 ^ 31"
  shows "sized d"
proof -
  have "distinct (map de_addr (concat (all_chains d)))"
    using dict_ok_uniq [OF assms(1)] by (simp add: uniq_def entries_def all_chains_def)
  with assms show ?thesis
    by (auto simp: sized_def dict_ok_def tab_def chains_def dictReset_def split: if_splits)
qed

text \<open>
  C20. Iteration is complete: on an unmodified dictionary (tables of fewer than \<open>2 ^ 31\<close> buckets, rehashing or
  not) a plain iterator returns every entry exactly once and then NULL, bucket by bucket through both tables,
  following only pointers to linked entries; releasing it finds the fingerprint unchanged.
\<close>

theorem dictNext_visits_all:
  assumes "dict_ok T d" and "ht_size (ht0 d) < 2 ^ 31" and "ht_size (ht1 d) < 2 ^ 31"
    and "nat (dictSlots d) + 1 < n" and "nat (dictSize d) < m"
  shows "\<exists>it. dictVisit n m fp dictGetIterator d = Some (entries d, it, d) \<and> distinct (entries d) \<and>
    dictReleaseIterator fp it d = Inr d"
proof -
  have s: "sized d" using dict_ok_sized [OF assms(1-3)] .
  have len: "dictSlots d = int (length (all_chains d))" "dictSize d = int (length (entries d))"
    using s assms(1) by (auto simp: dictSlots_def dictSize_def sized_def all_chains_def entries_def dict_ok_def tab_def
        dictReset_def chains_def DICT_LIMIT_def cint split: if_splits)
  have ent: "entries d = concat (all_chains d)" by (simp add: entries_def all_chains_def)
  have p: "posn fp d dictGetIterator 0" "it_entry dictGetIterator = None"
    by (simp_all add: posn_def dictGetIterator_def)
  obtain m' where m': "m = Suc m'" using assms(5) by (cases m) auto
  have g: "gives fp d (entries d) (dictNext_rounds n fp dictGetIterator d)"
    using rounds_from_gap [OF s p, of n] assms(4) len(1) by (simp add: ent)
  have "\<exists>it. dictVisit n m fp dictGetIterator d = Some (entries d, it, d) \<and> finished fp d it \<and> 0 \<le> it_index it"
  proof (cases "entries d")
    case Nil
    with g m' show ?thesis by auto
  next
    case (Cons e es)
    then obtain it where "dictNext_rounds n fp dictGetIterator d = Some (Inr (it, d, Some e))" "ready fp d it es"
      using g by auto
    with visit_ready [OF s, of n fp it es m'] assms(4,5) len m' Cons show ?thesis by auto
  qed
  moreover have "distinct (entries d)"
    using dict_ok_uniq [OF assms(1)] by (auto simp: uniq_def distinct_map)
  ultimately show ?thesis by (auto simp: dictReleaseIterator_def finished_def)
qed

theorem dictNext_visits_all_witness:
  "\<exists>it. dictVisit 14 3 (dictFingerprint 64 128) dictGetIterator two_keys =
     Some ([\<lparr>de_addr = 4096, de_key = 5, de_val = Some 50\<rparr>, \<lparr>de_addr = 4120, de_key = 8, de_val = Some 80\<rparr>], it, two_keys)"
proof -
  have "entries two_keys = [\<lparr>de_addr = 4096, de_key = 5, de_val = Some 50\<rparr>, \<lparr>de_addr = 4120, de_key = 8, de_val = Some 80\<rparr>]"
    by (simp add: entries_def chains_def two_keys_def)
  then show ?thesis
    using dictNext_visits_all [OF two_keys_ok, of 14 3 "dictFingerprint 64 128"]
    by (auto simp: two_keys_def dictSlots_def dictSize_def to_u64_def)
qed

section \<open>Random keys\<close>

text \<open>The bucket one answer of \<open>random()\<close> selects.\<close>

definition pick :: "('k, 'v) dict \<Rightarrow> int \<Rightarrow> (dict_error, ('k, 'v) dictEntry list) result" where
  "pick d = (if dictIsRehashing d
     then (\<lambda>r. if dictSlots d = 0 then Inl ModuloZero
               else let h = to_u32 (r mod dictSlots d)
                    in if h \<ge> ht_size (ht0 d) then bucket (ht1 d) (h - ht_size (ht0 d)) else bucket (ht0 d) h)
     else (\<lambda>r. bucket (ht0 d) (to_u32 (r AND sizemask (ht0 d)))))"

lemma dictGetRandomKey_pick:
  "dictGetRandomKey T d rnd =
     (if dictSize d = 0 then Inr (d, None)
      else rbind (rehash_if T d) (\<lambda>d. rbind (random_bucket (pick d) rnd) (\<lambda>(c, rs).
        case rs of [] \<Rightarrow> Inl NoMoreRandom | r # _ \<Rightarrow> Inr (d, Some (c ! nat (r mod int (length c)))))))"
  by (simp add: dictGetRandomKey_def pick_def Let_def)

lemma tab_exp_le: "tab T ht k bs \<Longrightarrow> (2::int) ^ k \<le> 2 ^ 31"
  using power_increasing [of k 31 "2::int"] by (simp add: tab_def)

lemma pick_bucket:
  assumes "dict_ok T d" and "entries d \<noteq> []" and "0 \<le> r"
  shows "pick d r = Inr (all_chains d ! nat (r mod int (length (all_chains d)))) \<and> all_chains d \<noteq> []"
proof (cases "dictIsRehashing d")
  case True
  then obtain k bs k' bs' where t: "tab T (ht0 d) k bs" "tab T (ht1 d) k' bs'"
    using dict_ok_rehashingE [OF assms(1)] by metis
  then have ac: "all_chains d = bs @ bs'" by (simp add: all_chains_def tab_chains)
  have len: "ht_size (ht0 d) = int (length bs)" "ht_size (ht1 d) = int (length bs')" "length bs > 0"
    using t by (auto simp: tab_def)
  have le: "int (length bs) + int (length bs') \<le> 4294967296"
    using t tab_exp_le [OF t(1)] tab_exp_le [OF t(2)] by (simp add: tab_def)
  then have sl: "dictSlots d = int (length (all_chains d))"
    by (simp add: dictSlots_def len ac cint)
  define h where "h = nat (r mod int (length (all_chains d)))"
  have pos: "0 < int (length (all_chains d))" using len(3) unfolding ac length_append by linarith
  have h: "r mod dictSlots d = int h" "h < length bs + length bs'"
    using pos_mod_sign [OF pos, of r] pos_mod_bound [OF pos, of r] by (auto simp: h_def sl ac)
  have "to_u32 (int h) = int h" using h(2) le by (intro to_u32_id) auto
  moreover have "bucket (ht1 d) (int h - int (length bs)) = Inr (bs' ! (h - length bs))" if "length bs \<le> h"
    using that h(2) tab_bucket [OF t(2), of "h - length bs"] t(2) by (simp add: tab_def of_nat_diff)
  moreover have "bucket (ht0 d) (int h) = Inr (bs ! h)" if "h < length bs"
    using that tab_bucket [OF t(1), of h] t(1) by (simp add: tab_def)
  moreover have "dictSlots d \<noteq> 0" using pos sl by simp
  ultimately show ?thesis
    using True len(3) h(1) unfolding h_def [symmetric] by (auto simp: pick_def Let_def len(1) ac nth_append)
next
  case False
  then obtain k bs where t: "tab T (ht0 d) k bs" "ht1 d = dictReset"
    using assms(1,2) by (auto simp: dict_ok_def entries_def)
  then have ac: "all_chains d = bs" "length bs = 2 ^ k" "0 < length bs" by (auto simp: all_chains_def tab_chains tab_def)
  have k: "(2::int) ^ k \<le> 2 ^ 31" using tab_exp_le [OF t(1)] .
  have m: "0 \<le> r mod 2 ^ k" "r mod 2 ^ k < 2 ^ k" by simp_all
  have "r mod 2 ^ k < 2 ^ 31" using m(2) k by (rule order.strict_trans2)
  then have "to_u32 (r mod 2 ^ k) = r mod 2 ^ k" using m(1) by (intro to_u32_id) auto
  then have "pick d r = bucket (ht0 d) (int (nat (r mod 2 ^ k)))"
    using False t(1) m by (simp add: pick_def tab_def and_mask_int)
  also have "\<dots> = Inr (bs ! nat (r mod 2 ^ k))"
    using m by (intro tab_bucket [OF t(1)]) (simp add: nat_less_iff)
  finally show ?thesis using ac by auto
qed

lemma random_bucket_picks:
  assumes "dict_ok T d" and "entries d \<noteq> []"
  shows "\<forall>r\<in>set rnd. 0 \<le> r \<Longrightarrow> random_bucket (pick d) rnd = Inl NoMoreRandom \<or>
    (\<exists>c rs. random_bucket (pick d) rnd = Inr (c, rs) \<and> c \<in> set (all_chains d) \<and> c \<noteq> [] \<and> set rs \<subseteq> set rnd)"
proof (induction rnd)
  case (Cons r rnd)
  then have r: "pick d r = Inr (all_chains d ! nat (r mod int (length (all_chains d))))" "all_chains d \<noteq> []"
    using pick_bucket [OF assms, of r] by auto
  define c where "c = all_chains d ! nat (r mod int (length (all_chains d)))"
  have "c \<in> set (all_chains d)" using r(2) unfolding c_def by (intro nth_mem) (simp add: nat_less_iff)
  moreover have "random_bucket (pick d) (r # rnd) = (if c = [] then random_bucket (pick d) rnd else Inr (c, rnd))"
    using r(1) by (simp add: c_def)
  ultimately show ?case using Cons by (cases "c = []") auto
qed simp

lemma nth_mod_in_set: "c \<noteq> [] \<Longrightarrow> c ! nat (r mod int (length c)) \<in> set c"
  by (intro nth_mem) (simp add: nat_less_iff)

lemma dictSize_entries: "dict_ok T d \<Longrightarrow> dictSize d = int (length (entries d))"
  by (auto simp: dictSize_def entries_def dict_ok_def tab_def dictReset_def chains_def DICT_LIMIT_def cint split: if_splits)

lemma reach_bucket:
  assumes "dict_ok T d" and "e \<in> set (entries d)"
  shows "\<exists>r1 r2 c. 0 \<le> r1 \<and> 0 \<le> r2 \<and> random_bucket (pick d) [r1, r2] = Inr (c, [r2]) \<and>
    c ! nat (r2 mod int (length c)) = e"
proof -
  have "e \<in> set (concat (all_chains d))" using assms(2) by (simp add: entries_def all_chains_def)
  then obtain c where "c \<in> set (all_chains d)" "e \<in> set c" by auto
  then obtain i j where ij: "i < length (all_chains d)" "j < length (all_chains d ! i)" "all_chains d ! i ! j = e"
    by (metis in_set_conv_nth)
  have "entries d \<noteq> []" using assms(2) by auto
  then have "pick d (int i) = Inr (all_chains d ! i)"
    using pick_bucket [OF assms(1), of "int i"] ij(1) by simp
  then show ?thesis using ij(2,3) by (intro exI [of _ "int i"] exI [of _ "int j"] exI [of _ "all_chains d ! i"]) auto
qed

text \<open>
  C21. Random picks: on a non-empty dictionary \<open>dictGetRandomKey\<close> returns an entry of the dictionary whatever
  \<open>random()\<close> answers, the two retry loops can only go on for want of an answer that hits a used bucket, and
  every entry can be the one returned.
\<close>

theorem dictGetRandomKey_picks:
  assumes "type_ok T" and "dict_ok T d" and "entries d \<noteq> []"
  shows "(\<forall>rnd. (\<forall>r\<in>set rnd. 0 \<le> r) \<longrightarrow> dictGetRandomKey T d rnd = Inl NoMoreRandom \<or>
      (\<exists>d' e. dictGetRandomKey T d rnd = Inr (d', Some e) \<and> e \<in> set (entries d) \<and> dict_ok T d' \<and> dval T d' = dval T d)) \<and>
    (\<forall>e\<in>set (entries d). \<exists>r1\<ge>0. \<exists>r2\<ge>0. \<exists>d'. dictGetRandomKey T d [r1, r2] = Inr (d', Some e))"
proof -
  obtain d1 where 1: "rehash_if T d = Inr d1" "dict_ok T d1" "same_entries d d1"
    using rehash_if_ok [OF assms(1,2)] by blast
  have e1: "set (entries d1) = set (entries d)" "entries d1 \<noteq> []"
    using 1(3) assms(3) by (auto simp: same_entries_def dest: mset_eq_setD)
  have v: "dval T d1 = dval T d" using dval_same [OF assms(1,2) 1(3)] .
  have sz: "dictSize d \<noteq> 0" using dictSize_entries [OF assms(2)] assms(3) by simp
  have "dictGetRandomKey T d rnd = Inl NoMoreRandom \<or>
      (\<exists>d' e. dictGetRandomKey T d rnd = Inr (d', Some e) \<and> e \<in> set (entries d) \<and> dict_ok T d' \<and> dval T d' = dval T d)"
    if rnd: "\<forall>r\<in>set rnd. 0 \<le> r" for rnd
  proof (cases "random_bucket (pick d1) rnd")
    case (Inl e)
    then show ?thesis using random_bucket_picks [OF 1(2) e1(2) rnd] 1(1) sz by (simp add: dictGetRandomKey_pick)
  next
    case (Inr p)
    then obtain c rs where c: "random_bucket (pick d1) rnd = Inr (c, rs)" "c \<in> set (all_chains d1)" "c \<noteq> []"
      using random_bucket_picks [OF 1(2) e1(2) rnd] by auto
    have "set c \<subseteq> set (entries d)" using c(2) e1(1) by (auto simp: entries_def all_chains_def)
    then have "c ! nat (r mod int (length c)) \<in> set (entries d)" for r using nth_mod_in_set [OF c(3)] by blast
    then show ?thesis using c(1) 1(1,2) sz v by (cases rs) (auto simp: dictGetRandomKey_pick)
  qed
  moreover have "\<exists>r1\<ge>0. \<exists>r2\<ge>0. \<exists>d'. dictGetRandomKey T d [r1, r2] = Inr (d', Some e)" if "e \<in> set (entries d)" for e
  proof -
    have "e \<in> set (entries d1)" using that e1(1) by simp
    from reach_bucket [OF 1(2) this] obtain r1 r2 c where r: "0 \<le> r1" "0 \<le> r2"
      "random_bucket (pick d1) [r1, r2] = Inr (c, [r2])" "c ! nat (r2 mod int (length c)) = e"
      by (elim exE conjE)
    then have "dictGetRandomKey T d [r1, r2] = Inr (d1, Some e)"
      using 1(1) sz by (simp add: dictGetRandomKey_pick del: random_bucket.simps)
    with r(1,2) show ?thesis by (intro exI conjI)
  qed
  ultimately show ?thesis by blast
qed

theorem dictGetRandomKey_picks_witness:
  "\<exists>r1\<ge>0. \<exists>r2\<ge>0. \<exists>d'. dictGetRandomKey int_dict two_keys [r1, r2] =
     Inr (d', Some \<lparr>de_addr = 4120, de_key = 8, de_val = Some 80\<rparr>)"
proof -
  have e: "entries two_keys = [\<lparr>de_addr = 4096, de_key = 5, de_val = Some 50\<rparr>, \<lparr>de_addr = 4120, de_key = 8, de_val = Some 80\<rparr>]"
    by (simp add: entries_def chains_def two_keys_def)
  then show ?thesis using dictGetRandomKey_picks [OF int_dict_ok two_keys_ok] by simp
qed

end
