(* ===== verification/Refine.thy ===== *)
theory Refine
  imports Prelude
begin

text \<open>
  The refinement interface of the containers: a concrete state simulates an abstract one, step by step and
  so along every sequence of operations whose preconditions hold in the abstract run.
\<close>

text \<open>The position a signed index denotes: negative ones count from the end.\<close>

definition pos :: "nat \<Rightarrow> int \<Rightarrow> int" where
  "pos n i = (if i < 0 then int n + i else i)"

definition in_range :: "'x list \<Rightarrow> int \<Rightarrow> bool" where
  "in_range xs i \<longleftrightarrow> 0 \<le> pos (length xs) i \<and> pos (length xs) i < int (length xs)"

fun run :: "('s \<Rightarrow> 'o \<Rightarrow> ('e, 's \<times> 'r) result) \<Rightarrow> 's \<Rightarrow> 'o list \<Rightarrow> ('e, 's \<times> 'r list) result" where
  "run step s [] = Inr (s, [])"
| "run step s (p # ps) = rbind (step s p) (\<lambda>(s, r). rbind (run step s ps) (\<lambda>(s, rs). Inr (s, r # rs)))"

fun spec_fold :: "('a \<Rightarrow> 'o \<Rightarrow> 'a \<times> 'r) \<Rightarrow> 'a \<Rightarrow> 'o list \<Rightarrow> 'a \<times> 'r list" where
  "spec_fold f a [] = (a, [])"
| "spec_fold f a (p # ps) = (let (a, r) = f a p; (a, rs) = spec_fold f a ps in (a, r # rs))"

fun admissible :: "('a \<Rightarrow> 'o \<Rightarrow> 'a \<times> 'r) \<Rightarrow> ('a \<Rightarrow> 'o \<Rightarrow> bool) \<Rightarrow> 'a \<Rightarrow> 'o list \<Rightarrow> bool" where
  "admissible f pre a [] = True"
| "admissible f pre a (p # ps) = (pre a p \<and> admissible f pre (fst (f a p)) ps)"

locale simulation =
  fixes step :: "'s \<Rightarrow> 'o \<Rightarrow> ('e, 's \<times> 'r) result"
    and repr :: "'s \<Rightarrow> 'a \<Rightarrow> bool"
    and spec :: "'a \<Rightarrow> 'o \<Rightarrow> 'a \<times> 'r"
    and pre :: "'a \<Rightarrow> 'o \<Rightarrow> bool"
  assumes step_law: "repr s a \<Longrightarrow> pre a p \<Longrightarrow> \<exists>s'. step s p = Inr (s', snd (spec a p)) \<and> repr s' (fst (spec a p))"
begin

lemma run_law:
  "repr s a \<Longrightarrow> admissible spec pre a ps \<Longrightarrow>
    \<exists>s'. run step s ps = Inr (s', snd (spec_fold spec a ps)) \<and> repr s' (fst (spec_fold spec a ps))"
proof (induction ps arbitrary: s a)
  case (Cons p ps)
  then obtain s1 where 1: "step s p = Inr (s1, snd (spec a p))" "repr s1 (fst (spec a p))"
    using step_law [of s a p] by auto
  with Cons.IH [OF 1(2)] Cons.prems(2) show ?case by (auto simp: split_beta Let_def)
qed simp

end

end
