(* ===== verification/Adlist.thy ===== *)
theory Adlist
  imports Refine
begin

text \<open>
  \<open>adlist.c\<close> and \<open>adlist.h\<close>: the generic doubly linked list. Nodes live in an explicit store; reading
  or writing through NULL or a released node is an error. An operation that allocates takes the answer of
  \<open>zmalloc\<close> as an argument, \<open>None\<close> for NULL. The \<open>free\<close> callback only has an effect outside the list,
  so its calls are logged in order.
\<close>

section \<open>Data\<close>

record 'v listNode =
  prev :: "addr option"
  nxt :: "addr option"
  nvalue :: 'v

record 'v dlist =
  head :: "addr option"
  dtail :: "addr option"
  dup :: "('v \<Rightarrow> 'v option) option"
  free :: bool                          \<comment> \<open>a \<open>free\<close> method is set\<close>
  match :: "('v \<Rightarrow> 'v \<Rightarrow> bool) option"
  len :: int

record listIter =
  it_nxt :: "addr option"
  direction :: int

record 'v world =
  nodes :: "addr \<Rightarrow> 'v listNode option"
  freed :: "'v list"

datatype ad_error =
    NullPointer
  | BadPointer addr     \<comment> \<open>no node at this address\<close>
  | OutOfFuel           \<comment> \<open>the loop has not ended in the rounds given\<close>

definition AL_START_HEAD :: int where "AL_START_HEAD = 0"
definition AL_START_TAIL :: int where "AL_START_TAIL = 1"

section \<open>The store\<close>

definition node :: "'v world \<Rightarrow> addr option \<Rightarrow> (ad_error, 'v listNode) result" where
  "node w p = (case p of None \<Rightarrow> Inl NullPointer | Some a \<Rightarrow> opt_or (BadPointer a) (nodes w a))"

definition put :: "'v world \<Rightarrow> addr \<Rightarrow> 'v listNode \<Rightarrow> 'v world" where
  "put w a n = w\<lparr>nodes := (nodes w)(a \<mapsto> n)\<rparr>"

text \<open>A store to a field of the node at \<open>p\<close>.\<close>

definition assign :: "'v world \<Rightarrow> addr option \<Rightarrow> ('v listNode \<Rightarrow> 'v listNode) \<Rightarrow> (ad_error, 'v world) result" where
  "assign w p f =
     (case p of None \<Rightarrow> Inl NullPointer
      | Some a \<Rightarrow> rbind (opt_or (BadPointer a) (nodes w a)) (\<lambda>n. Inr (put w a (f n))))"

definition release :: "'v world \<Rightarrow> addr option \<Rightarrow> (ad_error, 'v world) result" where
  "release w p =
     (case p of None \<Rightarrow> Inr w
      | Some a \<Rightarrow> if nodes w a = None then Inl (BadPointer a) else Inr (w\<lparr>nodes := (nodes w)(a := None)\<rparr>))"

definition call_free :: "'v dlist \<Rightarrow> 'v \<Rightarrow> 'v world \<Rightarrow> 'v world" where
  "call_free l v w = (if free l then w\<lparr>freed := freed w @ [v]\<rparr> else w)"

section \<open>Operations\<close>

definition listCreate :: "bool \<Rightarrow> 'v dlist option" where
  "listCreate malloc_ok =
     (if malloc_ok then Some \<lparr>head = None, dtail = None, dup = None, free = False, match = None, len = 0\<rparr> else None)"

text \<open>\<open>listRelease\<close>: the loop \<open>while(len--)\<close>.\<close>

fun release_loop :: "'v dlist \<Rightarrow> nat \<Rightarrow> addr option \<Rightarrow> 'v world \<Rightarrow> (ad_error, 'v world) result" where
  "release_loop l 0 current w = Inr w"
| "release_loop l (Suc n) current w =
     rbind (node w current) (\<lambda>c.
       rbind (release (call_free l (nvalue c) w) current) (\<lambda>w. release_loop l n (nxt c) w))"

definition listRelease :: "'v dlist \<Rightarrow> 'v world \<Rightarrow> (ad_error, 'v world) result" where
  "listRelease l w = release_loop l (nat (len l)) (head l) w"

text \<open>The result of an insertion: the list, the store and whether the list pointer (not NULL) is returned.\<close>

definition listAddNodeHead ::
    "'v dlist \<Rightarrow> 'v \<Rightarrow> addr option \<Rightarrow> 'v world \<Rightarrow> (ad_error, 'v dlist \<times> 'v world \<times> bool) result"
where
  "listAddNodeHead l v new w =
     (case new of None \<Rightarrow> Inr (l, w, False)
      | Some a \<Rightarrow>
          if len l = 0
          then Inr (l\<lparr>head := Some a, dtail := Some a, len := to_u64 (len l + 1)\<rparr>,
                    put w a \<lparr>prev = None, nxt = None, nvalue = v\<rparr>, True)
          else let w = put w a \<lparr>prev = None, nxt = head l, nvalue = v\<rparr>
               in rbind (assign w (head l) (prev_update (\<lambda>_. Some a))) (\<lambda>w.
                    Inr (l\<lparr>head := Some a, len := to_u64 (len l + 1)\<rparr>, w, True)))"

definition listAddNodeTail ::
    "'v dlist \<Rightarrow> 'v \<Rightarrow> addr option \<Rightarrow> 'v world \<Rightarrow> (ad_error, 'v dlist \<times> 'v world \<times> bool) result"
where
  "listAddNodeTail l v new w =
     (case new of None \<Rightarrow> Inr (l, w, False)
      | Some a \<Rightarrow>
          if len l = 0
          then Inr (l\<lparr>head := Some a, dtail := Some a, len := to_u64 (len l + 1)\<rparr>,
                    put w a \<lparr>prev = None, nxt = None, nvalue = v\<rparr>, True)
          else let w = put w a \<lparr>prev = dtail l, nxt = None, nvalue = v\<rparr>
               in rbind (assign w (dtail l) (nxt_update (\<lambda>_. Some a))) (\<lambda>w.
                    Inr (l\<lparr>dtail := Some a, len := to_u64 (len l + 1)\<rparr>, w, True)))"

definition listInsertNode ::
    "'v dlist \<Rightarrow> addr \<Rightarrow> 'v \<Rightarrow> bool \<Rightarrow> addr option \<Rightarrow> 'v world \<Rightarrow> (ad_error, 'v dlist \<times> 'v world \<times> bool) result"
where
  "listInsertNode l old_node v after new w =
     (case new of None \<Rightarrow> Inr (l, w, False)
      | Some a \<Rightarrow>
          rbind (node w (Some old_node)) (\<lambda>old.
          let n = (if after then \<lparr>prev = Some old_node, nxt = nxt old, nvalue = v\<rparr>
                   else \<lparr>prev = prev old, nxt = Some old_node, nvalue = v\<rparr>);
              l = (if after then if dtail l = Some old_node then l\<lparr>dtail := Some a\<rparr> else l
                   else if head l = Some old_node then l\<lparr>head := Some a\<rparr> else l);
              w = put w a n
          in rbind (if prev n \<noteq> None then assign w (prev n) (nxt_update (\<lambda>_. Some a)) else Inr w) (\<lambda>w.
             rbind (if nxt n \<noteq> None then assign w (nxt n) (prev_update (\<lambda>_. Some a)) else Inr w) (\<lambda>w.
               Inr (l\<lparr>len := to_u64 (len l + 1)\<rparr>, w, True)))))"

definition listDelNode :: "'v dlist \<Rightarrow> addr \<Rightarrow> 'v world \<Rightarrow> (ad_error, 'v dlist \<times> 'v world) result" where
  "listDelNode l a w =
     rbind (node w (Some a)) (\<lambda>n.
     rbind (case prev n of Some p \<Rightarrow> rbind (assign w (Some p) (nxt_update (\<lambda>_. nxt n))) (\<lambda>w. Inr (l, w))
            | None \<Rightarrow> Inr (l\<lparr>head := nxt n\<rparr>, w)) (\<lambda>(l, w).
     rbind (node w (Some a)) (\<lambda>n.
     rbind (case nxt n of Some p \<Rightarrow> rbind (assign w (Some p) (prev_update (\<lambda>_. prev n))) (\<lambda>w. Inr (l, w))
            | None \<Rightarrow> Inr (l\<lparr>dtail := prev n\<rparr>, w)) (\<lambda>(l, w).
     rbind (node w (Some a)) (\<lambda>n.
     rbind (release (call_free l (nvalue n) w) (Some a)) (\<lambda>w.
       Inr (l\<lparr>len := to_u64 (len l - 1)\<rparr>, w)))))))"

section \<open>Iteration\<close>

definition listGetIterator :: "'v dlist \<Rightarrow> int \<Rightarrow> listIter" where
  "listGetIterator l dir = \<lparr>it_nxt = (if dir = AL_START_HEAD then head l else dtail l), direction = dir\<rparr>"

definition listRewind :: "'v dlist \<Rightarrow> listIter" where
  "listRewind l = \<lparr>it_nxt = head l, direction = AL_START_HEAD\<rparr>"

definition listRewindTail :: "'v dlist \<Rightarrow> listIter" where
  "listRewindTail l = \<lparr>it_nxt = dtail l, direction = AL_START_TAIL\<rparr>"

definition listNext :: "listIter \<Rightarrow> 'v world \<Rightarrow> (ad_error, listIter \<times> addr option) result" where
  "listNext iter w =
     (case it_nxt iter of
        None \<Rightarrow> Inr (iter, None)
      | Some a \<Rightarrow> rbind (node w (Some a)) (\<lambda>c.
          Inr (iter\<lparr>it_nxt := (if direction iter = AL_START_HEAD then nxt c else prev c)\<rparr>, Some a)))"

text \<open>\<open>listDup\<close>: \<open>news\<close> are the answers of \<open>zmalloc\<close> for the nodes of the copy. The loops that follow the
  links are given a number of rounds.\<close>

fun dup_loop ::
    "nat \<Rightarrow> listIter \<Rightarrow> 'v dlist \<Rightarrow> addr option list \<Rightarrow> 'v world \<Rightarrow> (ad_error, 'v dlist option \<times> 'v world) result"
where
  "dup_loop 0 iter copy news w = Inl OutOfFuel"
| "dup_loop (Suc n) iter copy news w =
     rbind (listNext iter w) (\<lambda>(iter, p).
       case p of
         None \<Rightarrow> Inr (Some copy, w)
       | Some a \<Rightarrow>
           rbind (node w (Some a)) (\<lambda>nd.
             case (case dup copy of Some f \<Rightarrow> f (nvalue nd) | None \<Rightarrow> Some (nvalue nd)) of
               None \<Rightarrow> rbind (listRelease copy w) (\<lambda>w. Inr (None, w))
             | Some v \<Rightarrow>
                 rbind (listAddNodeTail copy v (case news of [] \<Rightarrow> None | x # _ \<Rightarrow> x) w) (\<lambda>(copy, w, ok).
                   if \<not> ok then rbind (listRelease copy w) (\<lambda>w. Inr (None, w))
                   else dup_loop n iter copy (drop 1 news) w)))"

definition listDup ::
    "nat \<Rightarrow> 'v dlist \<Rightarrow> bool \<Rightarrow> addr option list \<Rightarrow> 'v world \<Rightarrow> (ad_error, 'v dlist option \<times> 'v world) result"
where
  "listDup n orig malloc_ok news w =
     (case listCreate malloc_ok of
        None \<Rightarrow> Inr (None, w)
      | Some copy \<Rightarrow>
          dup_loop n (listGetIterator orig AL_START_HEAD)
            (copy\<lparr>dup := dup orig, free := free orig, match := match orig\<rparr>) news w)"

fun search_key_loop ::
    "nat \<Rightarrow> listIter \<Rightarrow> 'v dlist \<Rightarrow> 'v \<Rightarrow> 'v world \<Rightarrow> (ad_error, addr option) result"
where
  "search_key_loop 0 iter l key w = Inl OutOfFuel"
| "search_key_loop (Suc n) iter l key w =
     rbind (listNext iter w) (\<lambda>(iter, p).
       case p of
         None \<Rightarrow> Inr None
       | Some a \<Rightarrow>
           rbind (node w (Some a)) (\<lambda>nd.
             if (case match l of Some f \<Rightarrow> f (nvalue nd) key | None \<Rightarrow> key = nvalue nd) then Inr (Some a)
             else search_key_loop n iter l key w))"

definition listSearchKey :: "nat \<Rightarrow> 'v dlist \<Rightarrow> 'v \<Rightarrow> 'v world \<Rightarrow> (ad_error, addr option) result" where
  "listSearchKey n l key w = search_key_loop n (listGetIterator l AL_START_HEAD) l key w"

text \<open>\<open>while(index-- && n) n = n->next\<close>, and the same with \<open>prev\<close>.\<close>

fun index_loop :: "('v listNode \<Rightarrow> addr option) \<Rightarrow> nat \<Rightarrow> addr option \<Rightarrow> 'v world \<Rightarrow> (ad_error, addr option) result" where
  "index_loop step 0 n w = Inr n"
| "index_loop step (Suc i) n w =
     (if n = None then Inr None else rbind (node w n) (\<lambda>c. index_loop step i (step c) w))"

definition listIndex :: "'v dlist \<Rightarrow> int \<Rightarrow> 'v world \<Rightarrow> (ad_error, addr option) result" where
  "listIndex l index w =
     (if index < 0 then index_loop prev (nat (to_i64 (to_i64 (- index) - 1))) (dtail l) w
      else index_loop nxt (nat index) (head l) w)"

definition listRotate :: "'v dlist \<Rightarrow> 'v world \<Rightarrow> (ad_error, 'v dlist \<times> 'v world) result" where
  "listRotate l w =
     (let t = dtail l in
      if len l \<le> 1 then Inr (l, w)
      else rbind (node w t) (\<lambda>tn.
        let l = l\<lparr>dtail := prev tn\<rparr> in
        rbind (assign w (dtail l) (nxt_update (\<lambda>_. None))) (\<lambda>w.
        rbind (assign w (head l) (prev_update (\<lambda>_. t))) (\<lambda>w.
        rbind (assign w t (prev_update (\<lambda>_. None))) (\<lambda>w.
        rbind (assign w t (nxt_update (\<lambda>_. head l))) (\<lambda>w.
          Inr (l\<lparr>head := t\<rparr>, w)))))))"

section \<open>Lists in the store\<close>

text \<open>\<open>seg h p xs n\<close>: the store has the nodes \<open>xs\<close> (addresses and values) linked in order, after a node
  \<open>p\<close> and before a node \<open>n\<close>.\<close>

definition addrs :: "(addr \<times> 'v) list \<Rightarrow> addr set" where
  "addrs xs = set (map fst xs)"

definition apart :: "(addr \<times> 'v) list \<Rightarrow> bool" where
  "apart xs \<longleftrightarrow> distinct (map fst xs)"

lemma addrs_simps [simp]:
  "addrs [] = {}" "addrs ((a, v) # xs) = insert a (addrs xs)" "addrs (xs @ ys) = addrs xs \<union> addrs ys"
  by (simp_all add: addrs_def)

lemma apart_simps [simp]:
  "apart []" "apart ((a, v) # xs) \<longleftrightarrow> a \<notin> addrs xs \<and> apart xs"
  "apart (xs @ ys) \<longleftrightarrow> apart xs \<and> apart ys \<and> addrs xs \<inter> addrs ys = {}"
  by (auto simp: apart_def addrs_def)

definition first :: "(addr \<times> 'v) list \<Rightarrow> addr option \<Rightarrow> addr option" where
  "first xs n = (case xs of [] \<Rightarrow> n | x # _ \<Rightarrow> Some (fst x))"

definition lst :: "(addr \<times> 'v) list \<Rightarrow> addr option \<Rightarrow> addr option" where
  "lst xs p = (if xs = [] then p else Some (fst (last xs)))"

lemma first_simps [simp]: "first [] n = n" "first (x # xs) n = Some (fst x)" "first (xs @ ys) n = first xs (first ys n)"
  by (simp_all add: first_def split: list.split)

lemma lst_simps [simp]: "lst [] p = p" "lst (xs @ [x]) p = Some (fst x)" "lst (x # xs) p = lst xs (Some (fst x))"
  "lst (xs @ ys) p = lst ys (lst xs p)"
  by (simp_all add: lst_def)

lemma lst_mem: "lst xs p = Some a \<Longrightarrow> a \<in> addrs xs \<or> xs = [] \<and> p = Some a"
  by (auto simp: lst_def addrs_def split: if_splits)

lemma first_mem: "first xs n = Some a \<Longrightarrow> a \<in> addrs xs \<or> xs = [] \<and> n = Some a"
  by (auto simp: first_def addrs_def split: list.splits)

fun seg :: "(addr \<Rightarrow> 'v listNode option) \<Rightarrow> addr option \<Rightarrow> (addr \<times> 'v) list \<Rightarrow> addr option \<Rightarrow> bool" where
  "seg h p [] n = True"
| "seg h p ((a, v) # xs) n \<longleftrightarrow> h a = Some \<lparr>prev = p, nxt = first xs n, nvalue = v\<rparr> \<and> seg h (Some a) xs n"

lemma seg_append [simp]: "seg h p (xs @ ys) n \<longleftrightarrow> seg h p xs (first ys n) \<and> seg h (lst xs p) ys n"
proof (induction xs arbitrary: p)
  case (Cons x xs)
  then show ?case by (cases x) simp
qed simp

lemma seg_frame [simp]: "a \<notin> addrs xs \<Longrightarrow> seg (h(a := y)) p xs n = seg h p xs n"
  by (induction xs arbitrary: p) auto

lemma seg_cong: "(\<And>a. a \<in> addrs xs \<Longrightarrow> h a = h' a) \<Longrightarrow> seg h p xs n = seg h' p xs n"
  by (induction xs arbitrary: p) auto

lemma seg_mem: "seg h p xs n \<Longrightarrow> a \<in> addrs xs \<Longrightarrow> h a \<noteq> None"
  by (induction xs arbitrary: p) auto

definition LIST_LIMIT :: nat where
  "LIST_LIMIT = 9223372036854775808"

definition dl_ok :: "'v world \<Rightarrow> 'v dlist \<Rightarrow> (addr \<times> 'v) list \<Rightarrow> bool" where
  "dl_ok w l xs \<longleftrightarrow> apart xs \<and> seg (nodes w) None xs None \<and> head l = first xs None \<and>
     dtail l = lst xs None \<and> len l = int (length xs) \<and> length xs < LIST_LIMIT"

definition same_methods :: "'v dlist \<Rightarrow> 'v dlist \<Rightarrow> bool" where
  "same_methods l l' \<longleftrightarrow> dup l' = dup l \<and> free l' = free l \<and> match l' = match l"

definition frame :: "addr set \<Rightarrow> 'v world \<Rightarrow> 'v world \<Rightarrow> bool" where
  "frame A w w' \<longleftrightarrow> (\<forall>a. a \<notin> A \<longrightarrow> nodes w' a = nodes w a)"

lemma node_simps [simp]:
  "nodes w a = Some n \<Longrightarrow> node w (Some a) = Inr n"
  "nodes w a = Some n \<Longrightarrow> assign w (Some a) f = Inr (put w a (f n))"
  "nodes (put w a n) = (nodes w)(a \<mapsto> n)" "freed (put w a n) = freed w"
  "nodes (call_free l v w) = nodes w"
  by (simp_all add: node_def assign_def put_def call_free_def)

lemma len_add: "length xs + 1 < LIST_LIMIT \<Longrightarrow> to_u64 (int (length xs) + 1) = int (length xs) + 1"
  by (simp add: LIST_LIMIT_def cint)

lemma listAddNodeHead_ok:
  assumes "dl_ok w l xs" and "nodes w a = None" and "length xs + 1 < LIST_LIMIT"
  shows "\<exists>l' w'. listAddNodeHead l v (Some a) w = Inr (l', w', True) \<and> dl_ok w' l' ((a, v) # xs) \<and>
    same_methods l l' \<and> freed w' = freed w \<and> frame (insert a (addrs xs)) w w' \<and> dom (nodes w') = insert a (dom (nodes w))"
proof (cases xs)
  case Nil
  then show ?thesis
    using assms by (simp add: listAddNodeHead_def dl_ok_def same_methods_def frame_def to_u64_def)
next
  case (Cons y ys)
  obtain b u where y: "y = (b, u)" by (cases y)
  have "a \<notin> addrs xs" using seg_mem assms(1,2) unfolding dl_ok_def by metis
  then show ?thesis
    using assms Cons y len_add [OF assms(3)]
    by (auto simp: listAddNodeHead_def dl_ok_def same_methods_def frame_def Let_def)
qed

lemma listAddNodeTail_ok:
  assumes "dl_ok w l xs" and "nodes w a = None" and "length xs + 1 < LIST_LIMIT"
  shows "\<exists>l' w'. listAddNodeTail l v (Some a) w = Inr (l', w', True) \<and> dl_ok w' l' (xs @ [(a, v)]) \<and>
    same_methods l l' \<and> freed w' = freed w \<and> frame (insert a (addrs xs)) w w' \<and> dom (nodes w') = insert a (dom (nodes w))"
proof (cases xs rule: rev_cases)
  case Nil
  then show ?thesis
    using assms by (simp add: listAddNodeTail_def dl_ok_def same_methods_def frame_def to_u64_def)
next
  case (snoc ys y)
  obtain b u where y: "y = (b, u)" by (cases y)
  have "a \<notin> addrs xs" using seg_mem assms(1,2) unfolding dl_ok_def by metis
  then show ?thesis
    using assms snoc y len_add [OF assms(3)]
    by (auto simp: listAddNodeTail_def dl_ok_def same_methods_def frame_def Let_def)
qed

lemma listInsertNode_ok:
  assumes "dl_ok w l (xs @ (b, u) # ys)" and "nodes w a = None" and "length (xs @ (b, u) # ys) + 1 < LIST_LIMIT"
  shows "\<exists>l' w'. listInsertNode l b v after (Some a) w = Inr (l', w', True) \<and>
    dl_ok w' l' (if after then xs @ (b, u) # (a, v) # ys else xs @ (a, v) # (b, u) # ys) \<and>
    same_methods l l' \<and> freed w' = freed w \<and> dom (nodes w') = insert a (dom (nodes w))"
proof -
  have a: "a \<notin> addrs (xs @ (b, u) # ys)" using seg_mem assms(1,2) unfolding dl_ok_def by metis
  have n: "to_u64 (int (length xs) + (1 + int (length ys)) + 1) = int (length xs) + int (length ys) + 2"
    using assms(3) by (simp add: LIST_LIMIT_def cint)
  show ?thesis
  proof (cases after)
    case True
    show ?thesis
    proof (cases ys)
      case Nil
      then show ?thesis using True assms a n
        by (auto simp: listInsertNode_def dl_ok_def same_methods_def Let_def)
    next
      case (Cons y ys')
      obtain c z where y: "y = (c, z)" by (cases y)
      have "dtail l \<noteq> Some b" using assms(1) Cons y by (auto simp: dl_ok_def dest: lst_mem)
      then show ?thesis using True assms a n Cons y
        by (auto simp: listInsertNode_def dl_ok_def same_methods_def Let_def)
    qed
  next
    case False
    show ?thesis
    proof (cases xs rule: rev_cases)
      case Nil
      then show ?thesis using False assms a n
        by (auto simp: listInsertNode_def dl_ok_def same_methods_def Let_def)
    next
      case (snoc xs' x)
      obtain c z where x: "x = (c, z)" by (cases x)
      have "head l \<noteq> Some b" using assms(1) snoc x by (auto simp: dl_ok_def dest: first_mem)
      then show ?thesis using False assms a n snoc x
        by (auto simp: listInsertNode_def dl_ok_def same_methods_def Let_def)
    qed
  qed
qed

lemma listDelNode_ok:
  assumes "dl_ok w l (xs @ (a, v) # ys)"
  shows "\<exists>l' w'. listDelNode l a w = Inr (l', w') \<and> dl_ok w' l' (xs @ ys) \<and> same_methods l l' \<and>
    freed w' = (if free l then freed w @ [v] else freed w) \<and> dom (nodes w') = dom (nodes w) - {a} \<and>
    (\<forall>b. b \<notin> addrs (xs @ (a, v) # ys) \<longrightarrow> nodes w' b = nodes w b)"
proof -
  have n: "to_u64 (int (length xs) + (1 + int (length ys)) - 1) = int (length xs) + int (length ys)"
    using assms by (simp add: dl_ok_def LIST_LIMIT_def cint)
  obtain xs' c z where x: "xs = [] \<or> xs = xs' @ [(c, z)]" by (metis rev_exhaust surj_pair)
  obtain d u ys' where y: "ys = [] \<or> ys = (d, u) # ys'" by (metis list.exhaust surj_pair)
  show ?thesis
    using x y assms n by (elim disjE) (auto simp: listDelNode_def dl_ok_def same_methods_def release_def call_free_def put_def)
qed

lemma listRotate_ok:
  assumes "dl_ok w l xs"
  shows "\<exists>l' w'. listRotate l w = Inr (l', w') \<and>
    dl_ok w' l' (if length xs \<le> 1 then xs else last xs # butlast xs) \<and>
    same_methods l l' \<and> freed w' = freed w \<and> dom (nodes w') = dom (nodes w)"
proof (cases "length xs \<le> 1")
  case True
  then show ?thesis using assms by (simp add: listRotate_def dl_ok_def same_methods_def)
next
  case False
  then obtain ys x where xs: "xs = ys @ [x]" "ys \<noteq> []" by (cases xs rule: rev_cases) auto
  show ?thesis
  proof (cases "length ys = 1")
    case True
    then obtain y where y: "ys = [y]" by (auto simp: length_Suc_conv)
    obtain a v b u where "x = (a, v)" "y = (b, u)" by (cases x; cases y)
    then show ?thesis using assms xs y by (auto simp: listRotate_def dl_ok_def same_methods_def Let_def)
  next
    case False
    then obtain y zs z where y: "ys = y # zs @ [z]" using xs(2)
      by (metis One_nat_def append_butlast_last_id length_Cons list.exhaust list.size(3))
    obtain a v b u c t where "x = (a, v)" "y = (b, u)" "z = (c, t)" by (cases x; cases y; cases z)
    then show ?thesis using assms xs y
      by (auto simp: listRotate_def dl_ok_def same_methods_def Let_def butlast_append)
  qed
qed

lemma listRelease_loop_ok:
  "seg (nodes w) p xs None \<Longrightarrow> apart xs \<Longrightarrow>
    \<exists>w'. release_loop l (length xs) (first xs None) w = Inr w' \<and> dom (nodes w') = dom (nodes w) - addrs xs \<and>
      (\<forall>b. b \<notin> addrs xs \<longrightarrow> nodes w' b = nodes w b) \<and>
      freed w' = freed w @ (if free l then map snd xs else [])"
proof (induction xs arbitrary: p w)
  case (Cons x xs)
  obtain a v where x: "x = (a, v)" by (cases x)
  let ?w = "(call_free l v w)\<lparr>nodes := (nodes w)(a := None)\<rparr>"
  have "seg (nodes ?w) (Some a) xs None" "apart xs" using Cons.prems x by simp_all
  from Cons.IH [OF this] obtain w' where
    w': "release_loop l (length xs) (first xs None) ?w = Inr w'" "dom (nodes w') = dom (nodes ?w) - addrs xs"
      "\<forall>b. b \<notin> addrs xs \<longrightarrow> nodes w' b = nodes ?w b" "freed w' = freed ?w @ (if free l then map snd xs else [])"
    by blast
  have "release_loop l (length (x # xs)) (first (x # xs) None) w = Inr w'"
    using Cons.prems x w'(1) by (simp add: release_def)
  then show ?case using w'(2-4) x by (auto simp: call_free_def)
qed simp

lemma index_loop_next:
  "seg (nodes w) p xs None \<Longrightarrow>
    index_loop nxt i (first xs None) w = Inr (if i < length xs then Some (fst (xs ! i)) else None)"
proof (induction xs arbitrary: p i)
  case Nil
  then show ?case by (cases i) auto
next
  case (Cons x xs)
  then show ?case by (cases x; cases i) auto
qed

lemma index_loop_prev:
  "seg (nodes w) None xs n \<Longrightarrow>
    index_loop prev i (lst xs None) w = Inr (if i < length xs then Some (fst (rev xs ! i)) else None)"
proof (induction xs arbitrary: n i rule: rev_induct)
  case Nil
  then show ?case by (cases i) auto
next
  case (snoc x xs)
  then show ?case by (cases x; cases i) auto
qed

lemma listIndex_ok:
  assumes "dl_ok w l xs" and "- 9223372036854775808 < i"
  shows "listIndex l i w =
    Inr (if 0 \<le> pos (length xs) i \<and> pos (length xs) i < int (length xs) then Some (fst (xs ! nat (pos (length xs) i))) else None)"
proof (cases "i < 0")
  case True
  define k where "k = nat (- i - 1)"
  have k: "i = - int k - 1" using True by (simp add: k_def)
  have "to_i64 (to_i64 (- i) - 1) = int k" using assms(2) True by (simp add: cint k)
  moreover have "nat (int (length xs) + i) = length xs - Suc k" if "Suc k \<le> length xs"
    using that k by simp
  ultimately show ?thesis
    using True k assms index_loop_prev [of w xs None k]
    by (auto simp: listIndex_def dl_ok_def pos_def rev_nth)
next
  case False
  then show ?thesis using assms index_loop_next [of w None xs "nat i"]
    by (auto simp: listIndex_def dl_ok_def pos_def)
qed

section \<open>Sequences of list operations\<close>

text \<open>Operations of a client: insertions at the ends, insertion and deletion at an index (found with
  \<open>listIndex\<close>; nothing happens when it gives NULL), rotation. The reply is the node found, if any.\<close>

datatype 'v list_op =
    AddHead 'v addr | AddTail 'v addr | InsertAt int 'v bool addr | DelAt int | Rotate

fun list_step :: "'v dlist \<times> 'v world \<Rightarrow> 'v list_op \<Rightarrow> (ad_error, ('v dlist \<times> 'v world) \<times> addr option) result" where
  "list_step (l, w) (AddHead v a) = rbind (listAddNodeHead l v (Some a) w) (\<lambda>(l, w, ok). Inr ((l, w), None))"
| "list_step (l, w) (AddTail v a) = rbind (listAddNodeTail l v (Some a) w) (\<lambda>(l, w, ok). Inr ((l, w), None))"
| "list_step (l, w) (InsertAt i v after a) =
     rbind (listIndex l i w) (\<lambda>p. case p of None \<Rightarrow> Inr ((l, w), None)
       | Some b \<Rightarrow> rbind (listInsertNode l b v after (Some a) w) (\<lambda>(l, w, ok). Inr ((l, w), Some b)))"
| "list_step (l, w) (DelAt i) =
     rbind (listIndex l i w) (\<lambda>p. case p of None \<Rightarrow> Inr ((l, w), None)
       | Some b \<Rightarrow> rbind (listDelNode l b w) (\<lambda>(l, w). Inr ((l, w), Some b)))"
| "list_step (l, w) Rotate = rbind (listRotate l w) (\<lambda>(l, w). Inr ((l, w), None))"

fun list_spec :: "(addr \<times> 'v) list \<Rightarrow> 'v list_op \<Rightarrow> (addr \<times> 'v) list \<times> addr option" where
  "list_spec xs (AddHead v a) = ((a, v) # xs, None)"
| "list_spec xs (AddTail v a) = (xs @ [(a, v)], None)"
| "list_spec xs (InsertAt i v after a) =
     (if in_range xs i then
        let k = nat (pos (length xs) i); j = (if after then k + 1 else k)
        in (take j xs @ (a, v) # drop j xs, Some (fst (xs ! k)))
      else (xs, None))"
| "list_spec xs (DelAt i) =
     (if in_range xs i then let k = nat (pos (length xs) i) in (take k xs @ drop (k + 1) xs, Some (fst (xs ! k)))
      else (xs, None))"
| "list_spec xs Rotate = (if length xs \<le> 1 then xs else last xs # butlast xs, None)"

fun list_pre :: "(addr \<times> 'v) list \<Rightarrow> 'v list_op \<Rightarrow> bool" where
  "list_pre xs (AddHead v a) \<longleftrightarrow> a \<notin> addrs xs \<and> length xs + 1 < LIST_LIMIT"
| "list_pre xs (AddTail v a) \<longleftrightarrow> a \<notin> addrs xs \<and> length xs + 1 < LIST_LIMIT"
| "list_pre xs (InsertAt i v after a) \<longleftrightarrow> a \<notin> addrs xs \<and> length xs + 1 < LIST_LIMIT \<and> - 9223372036854775808 < i"
| "list_pre xs (DelAt i) \<longleftrightarrow> - 9223372036854775808 < i"
| "list_pre xs Rotate = True"

text \<open>The store holds exactly the nodes of the list.\<close>

definition list_repr :: "'v dlist \<times> 'v world \<Rightarrow> (addr \<times> 'v) list \<Rightarrow> bool" where
  "list_repr s xs \<longleftrightarrow> dl_ok (snd s) (fst s) xs \<and> dom (nodes (snd s)) = addrs xs"

lemma fresh_node: "list_repr (l, w) xs \<Longrightarrow> a \<notin> addrs xs \<Longrightarrow> nodes w a = None"
  by (auto simp: list_repr_def)

lemma split_at:
  assumes "k < length xs"
  obtains b u where "xs = take k xs @ (b, u) # drop (k + 1) xs" "xs ! k = (b, u)"
  using assms by (metis id_take_nth_drop Suc_eq_plus1 surj_pair)

lemma insert_step:
  assumes "list_repr (l, w) xs" and "list_pre xs (InsertAt i v after a)"
  shows "\<exists>s'. list_step (l, w) (InsertAt i v after a) = Inr (s', snd (list_spec xs (InsertAt i v after a))) \<and>
    list_repr s' (fst (list_spec xs (InsertAt i v after a)))"
proof (cases "in_range xs i")
  case True
  define k where "k = nat (pos (length xs) i)"
  have k: "k < length xs" using True by (auto simp: in_range_def k_def)
  obtain b u where x: "xs = take k xs @ (b, u) # drop (k + 1) xs" "xs ! k = (b, u)" using split_at [OF k] by blast
  have d: "dl_ok w l (take k xs @ (b, u) # drop (k + 1) xs)" "length (take k xs @ (b, u) # drop (k + 1) xs) + 1 < LIST_LIMIT"
    using assms x(1) by (simp_all add: list_repr_def)
  have ix: "listIndex l i w = Inr (Some b)"
    using listIndex_ok [of w l xs i] assms True x(2) by (simp add: list_repr_def in_range_def k_def)
  obtain l' w' where r: "listInsertNode l b v after (Some a) w = Inr (l', w', True)"
    "dl_ok w' l' (if after then take k xs @ (b, u) # (a, v) # drop (k + 1) xs else take k xs @ (a, v) # (b, u) # drop (k + 1) xs)"
    "dom (nodes w') = insert a (dom (nodes w))"
    using listInsertNode_ok [OF d(1) _ d(2), of a v after] fresh_node [OF assms(1), of a] assms(2) by auto
  have t: "take (Suc k) xs = take k xs @ [(b, u)]" "drop k xs = (b, u) # drop (Suc k) xs"
    using k x(2) Cons_nth_drop_Suc [of k xs] by (simp_all add: take_Suc_conv_app_nth)
  have "addrs xs = addrs (take k xs @ (b, u) # drop (k + 1) xs)" using x(1) by simp
  then show ?thesis
    using ix r True x(2) assms(1) by (cases after) (auto simp: list_repr_def Let_def t k_def [symmetric])
next
  case False
  then show ?thesis using assms listIndex_ok [of w l xs i] by (auto simp: list_repr_def in_range_def)
qed

lemma del_step:
  assumes "list_repr (l, w) xs" and "list_pre xs (DelAt i)"
  shows "\<exists>s'. list_step (l, w) (DelAt i) = Inr (s', snd (list_spec xs (DelAt i))) \<and> list_repr s' (fst (list_spec xs (DelAt i)))"
proof (cases "in_range xs i")
  case True
  define k where "k = nat (pos (length xs) i)"
  have k: "k < length xs" using True by (auto simp: in_range_def k_def)
  obtain b u where x: "xs = take k xs @ (b, u) # drop (k + 1) xs" "xs ! k = (b, u)" using split_at [OF k] by blast
  have d: "dl_ok w l (take k xs @ (b, u) # drop (k + 1) xs)" using assms x(1) by (simp add: list_repr_def)
  have ix: "listIndex l i w = Inr (Some b)"
    using listIndex_ok [of w l xs i] assms True x(2) by (simp add: list_repr_def in_range_def k_def)
  obtain l' w' where r: "listDelNode l b w = Inr (l', w')" "dl_ok w' l' (take k xs @ drop (k + 1) xs)"
    "dom (nodes w') = dom (nodes w) - {b}" using listDelNode_ok [OF d] by auto
  have "addrs xs = addrs (take k xs @ (b, u) # drop (k + 1) xs)" using x(1) by simp
  moreover have "b \<notin> addrs (take k xs) \<union> addrs (drop (k + 1) xs)" using d by (auto simp: dl_ok_def)
  ultimately show ?thesis
    using ix r True x(2) assms(1) by (auto simp: list_repr_def Let_def k_def [symmetric])
next
  case False
  then show ?thesis using assms listIndex_ok [of w l xs i] by (auto simp: list_repr_def in_range_def)
qed

lemma addrs_rotate: "xs \<noteq> [] \<Longrightarrow> addrs (last xs # butlast xs) = addrs xs"
  by (cases xs rule: rev_cases) (auto simp: addrs_def)

interpretation dll: simulation list_step list_repr list_spec list_pre
proof (unfold_locales, goal_cases)
  case (1 s xs p)
  obtain l w where s: "s = (l, w)" by (cases s)
  have ok: "dl_ok w l xs" "dom (nodes w) = addrs xs" using 1(1) s by (simp_all add: list_repr_def)
  show ?case
  proof (cases p)
    case (AddHead v a)
    then show ?thesis
      using listAddNodeHead_ok [OF ok(1), of a v] fresh_node [of l w xs a] 1 s ok(2) by (auto simp: list_repr_def)
  next
    case (AddTail v a)
    then show ?thesis
      using listAddNodeTail_ok [OF ok(1), of a v] fresh_node [of l w xs a] 1 s ok(2) by (auto simp: list_repr_def)
  next
    case (InsertAt i v after a)
    then show ?thesis using insert_step [of l w xs i v after a] 1 unfolding s by metis
  next
    case (DelAt i)
    then show ?thesis using del_step [of l w xs i] 1 unfolding s by metis
  next
    case Rotate
    define ys where "ys = (if length xs \<le> 1 then xs else last xs # butlast xs)"
    have "addrs ys = addrs xs" using addrs_rotate [of xs] by (cases "xs = []") (simp_all add: ys_def)
    with listRotate_ok [OF ok(1)] show ?thesis
      unfolding Rotate s list_step.simps list_spec.simps fst_conv snd_conv ys_def [symmetric]
      using ok(2) by (auto simp: list_repr_def)
  qed
qed

text \<open>
  C23. The doubly linked list refines a sequence: from an empty list, any sequence of insertions at either end or
  around an indexed node, deletions at an index and rotations (each new node at an unused address) runs without
  following a NULL or dangling pointer, gives the nodes the operations on sequences give, and leaves forward
  and backward links, head, tail and length consistent with the resulting sequence.
\<close>

theorem adlist_refines_sequence:
  assumes "listCreate True = Some l" and "admissible list_spec list_pre [] ops"
  shows "\<exists>l' w'. run list_step (l, \<lparr>nodes = Map.empty, freed = []\<rparr>) ops = Inr ((l', w'), snd (spec_fold list_spec [] ops)) \<and>
    dl_ok w' l' (fst (spec_fold list_spec [] ops)) \<and> dom (nodes w') = addrs (fst (spec_fold list_spec [] ops))"
proof -
  have "list_repr (l, \<lparr>nodes = Map.empty, freed = []\<rparr>) []"
    using assms(1) by (auto simp: list_repr_def dl_ok_def listCreate_def LIST_LIMIT_def)
  from dll.run_law [OF this assms(2)] show ?thesis by (auto simp: list_repr_def)
qed

definition empty_dlist :: "nat dlist" where
  "empty_dlist = \<lparr>head = None, dtail = None, dup = None, free = False, match = None, len = 0\<rparr>"

theorem adlist_refines_sequence_witness:
  "\<exists>l w. run list_step (empty_dlist, \<lparr>nodes = Map.empty, freed = []\<rparr>)
       [AddTail 10 64, AddHead 20 128, InsertAt (- 1) 30 False 192, Rotate, DelAt 1] =
     Inr ((l, w), [None, None, Some 64, None, Some 128]) \<and> dl_ok w l [(64, 10), (192, 30)]"
  using adlist_refines_sequence [of empty_dlist "[AddTail 10 64, AddHead 20 128, InsertAt (- 1) 30 False 192, Rotate, DelAt 1]"]
  by (auto simp: empty_dlist_def listCreate_def LIST_LIMIT_def in_range_def pos_def Let_def)

section \<open>Iteration with removal\<close>

text \<open>The client loop of \<open>listNext\<close> that removes the nodes satisfying \<open>P\<close> as it meets them; the values in the
  order it sees them.\<close>

fun purge ::
    "nat \<Rightarrow> ('v \<Rightarrow> bool) \<Rightarrow> listIter \<Rightarrow> 'v dlist \<Rightarrow> 'v world \<Rightarrow> (ad_error, 'v list \<times> 'v dlist \<times> 'v world) result"
where
  "purge 0 P iter l w = Inl OutOfFuel"
| "purge (Suc n) P iter l w =
     rbind (listNext iter w) (\<lambda>(iter, p).
       case p of
         None \<Rightarrow> Inr ([], l, w)
       | Some a \<Rightarrow>
           rbind (node w (Some a)) (\<lambda>nd.
           rbind (if P (nvalue nd) then listDelNode l a w else Inr (l, w)) (\<lambda>(l, w).
           rbind (purge n P iter l w) (\<lambda>(vs, s). Inr (nvalue nd # vs, s)))))"

lemma dl_ok_node: "dl_ok w l (xs @ (a, v) # ys) \<Longrightarrow> nodes w a = Some \<lparr>prev = lst xs None, nxt = first ys None, nvalue = v\<rparr>"
  by (simp add: dl_ok_def)

lemma purge_forward:
  "dl_ok w l (ys @ xs) \<Longrightarrow> it_nxt iter = first xs None \<Longrightarrow> direction iter = AL_START_HEAD \<Longrightarrow> length xs < n \<Longrightarrow>
    \<exists>l' w'. purge n P iter l w = Inr (map snd xs, l', w') \<and> dl_ok w' l' (ys @ filter (\<lambda>x. \<not> P (snd x)) xs)"
proof (induction xs arbitrary: ys iter l w n)
  case Nil
  then show ?case by (cases n) (auto simp: listNext_def)
next
  case (Cons x xs)
  obtain a v m where x: "x = (a, v)" "n = Suc m" using Cons.prems(4) by (cases x; cases n) auto
  note nd = dl_ok_node [OF Cons.prems(1) [unfolded x]]
  let ?it = "iter\<lparr>it_nxt := first xs None\<rparr>"
  have ln: "listNext iter w = Inr (?it, Some a)" using Cons.prems(2,3) nd x by (simp add: listNext_def)
  show ?case
  proof (cases "P v")
    case True
    obtain l' w' where d: "listDelNode l a w = Inr (l', w')" "dl_ok w' l' (ys @ xs)"
      using listDelNode_ok [OF Cons.prems(1) [unfolded x]] by blast
    then show ?thesis using Cons.IH [OF d(2), of ?it m] Cons.prems(3,4) ln nd x True by auto
  next
    case False
    have "dl_ok w l ((ys @ [x]) @ xs)" using Cons.prems(1) by simp
    from Cons.IH [OF this, of ?it m] show ?thesis using Cons.prems(3,4) ln nd x False by auto
  qed
qed

lemma purge_backward:
  "dl_ok w l (xs @ ys) \<Longrightarrow> it_nxt iter = lst xs None \<Longrightarrow> direction iter \<noteq> AL_START_HEAD \<Longrightarrow> length xs < n \<Longrightarrow>
    \<exists>l' w'. purge n P iter l w = Inr (map snd (rev xs), l', w') \<and> dl_ok w' l' (filter (\<lambda>x. \<not> P (snd x)) xs @ ys)"
proof (induction xs arbitrary: ys iter l w n rule: rev_induct)
  case Nil
  then show ?case by (cases n) (auto simp: listNext_def)
next
  case (snoc x xs)
  obtain a v m where x: "x = (a, v)" "n = Suc m" using snoc.prems(4) by (cases x; cases n) auto
  have ok: "dl_ok w l (xs @ (a, v) # ys)" using snoc.prems(1) x by simp
  note nd = dl_ok_node [OF ok]
  let ?it = "iter\<lparr>it_nxt := lst xs None\<rparr>"
  have ln: "listNext iter w = Inr (?it, Some a)" using snoc.prems(2,3) nd x by (simp add: listNext_def)
  show ?case
  proof (cases "P v")
    case True
    obtain l' w' where d: "listDelNode l a w = Inr (l', w')" "dl_ok w' l' (xs @ ys)"
      using listDelNode_ok [OF ok] by blast
    then show ?thesis using snoc.IH [OF d(2), of ?it m] snoc.prems(3,4) ln nd x True by auto
  next
    case False
    from snoc.IH [OF ok, of ?it m] show ?thesis using snoc.prems(3,4) ln nd x False by auto
  qed
qed

text \<open>
  C24. Removal while iterating: a loop over \<open>listNext\<close> that deletes the node it was just given whenever a test
  holds ends after one round per node, in both directions; it sees every value exactly once in list order
  (or in reverse), follows no dangling pointer, and the list keeps exactly the values that fail the test.
\<close>

theorem listNext_allows_removal:
  assumes "dl_ok w l xs" and "length xs < n"
  shows "\<exists>l1 w1 l2 w2.
    purge n P (listGetIterator l AL_START_HEAD) l w = Inr (map snd xs, l1, w1) \<and>
    dl_ok w1 l1 (filter (\<lambda>x. \<not> P (snd x)) xs) \<and>
    purge n P (listGetIterator l AL_START_TAIL) l w = Inr (rev (map snd xs), l2, w2) \<and>
    dl_ok w2 l2 (filter (\<lambda>x. \<not> P (snd x)) xs)"
proof -
  have "head l = first xs None" "dtail l = lst xs None" using assms(1) by (simp_all add: dl_ok_def)
  then show ?thesis
    using purge_forward [of w l "[]" xs "listGetIterator l AL_START_HEAD" n P]
      purge_backward [of w l xs "[]" "listGetIterator l AL_START_TAIL" n P] assms
    by (simp add: listGetIterator_def AL_START_HEAD_def AL_START_TAIL_def rev_map)
qed

definition three_nodes :: "nat world" where
  "three_nodes = \<lparr>nodes = [64 \<mapsto> \<lparr>prev = None, nxt = Some 128, nvalue = 1\<rparr>,
     128 \<mapsto> \<lparr>prev = Some 64, nxt = Some 192, nvalue = 2\<rparr>,
     192 \<mapsto> \<lparr>prev = Some 128, nxt = None, nvalue = 3\<rparr>], freed = []\<rparr>"

definition three_list :: "nat dlist" where
  "three_list = \<lparr>head = Some 64, dtail = Some 192, dup = None, free = True, match = None, len = 3\<rparr>"

lemma three_ok: "dl_ok three_nodes three_list [(64, 1), (128, 2), (192, 3)]"
  by (simp add: dl_ok_def three_nodes_def three_list_def LIST_LIMIT_def)

theorem listNext_allows_removal_witness:
  "\<exists>l w. purge 4 (\<lambda>v. v = 2) (listGetIterator three_list AL_START_HEAD) three_list three_nodes = Inr ([1, 2, 3], l, w) \<and>
     dl_ok w l [(64, 1), (192, 3)]"
  using listNext_allows_removal [OF three_ok, of 4 "\<lambda>v. v = 2"] by auto

section \<open>Searching\<close>

definition matches :: "'v dlist \<Rightarrow> 'v \<Rightarrow> 'v \<Rightarrow> bool" where
  "matches l key v = (case match l of Some f \<Rightarrow> f v key | None \<Rightarrow> key = v)"

lemma search_key_loop_ok:
  "seg (nodes w) p xs None \<Longrightarrow> it_nxt iter = first xs None \<Longrightarrow> direction iter = AL_START_HEAD \<Longrightarrow> length xs < n \<Longrightarrow>
    search_key_loop n iter l key w = Inr (map_option fst (find (\<lambda>x. matches l key (snd x)) xs))"
proof (induction xs arbitrary: p iter n)
  case Nil
  then show ?case by (cases n) (auto simp: listNext_def)
next
  case (Cons x xs)
  obtain a v m where x: "x = (a, v)" "n = Suc m" using Cons.prems(4) by (cases x; cases n) auto
  have "listNext iter w = Inr (iter\<lparr>it_nxt := first xs None\<rparr>, Some a)"
    using Cons.prems(1-3) x by (simp add: listNext_def)
  with Cons.IH [of "Some a" "iter\<lparr>it_nxt := first xs None\<rparr>" m] Cons.prems x show ?case
    by (auto simp flip: matches_def)
qed

text \<open>
  C26. Searching: \<open>listSearchKey\<close> returns the first node, from the head, whose value the \<open>match\<close> method accepts
  (or that is the key itself when there is no method), and NULL when there is none.
\<close>

theorem listSearchKey_first:
  assumes "dl_ok w l xs" and "length xs < n"
  shows "listSearchKey n l key w = Inr (map_option fst (find (\<lambda>x. matches l key (snd x)) xs))"
  using assms search_key_loop_ok [of w None xs "listGetIterator l AL_START_HEAD" n l key]
  by (simp add: listSearchKey_def listGetIterator_def dl_ok_def)

theorem listSearchKey_first_witness:
  "listSearchKey 4 three_list 2 three_nodes = Inr (Some 128) \<and> listSearchKey 4 three_list 9 three_nodes = Inr None"
  using listSearchKey_first [OF three_ok, of 4 2] listSearchKey_first [OF three_ok, of 4 9]
  by (simp add: matches_def three_list_def)

section \<open>Duplication\<close>

definition dup_value :: "'v dlist \<Rightarrow> 'v \<Rightarrow> 'v option" where
  "dup_value l v = (case dup l of Some f \<Rightarrow> f v | None \<Rightarrow> Some v)"

lemma listRelease_ok:
  assumes "dl_ok w l xs" and "\<forall>b. b \<notin> addrs xs \<longrightarrow> nodes w b = h b" and "\<forall>b\<in>addrs xs. h b = None"
  shows "\<exists>w'. listRelease l w = Inr w' \<and> nodes w' = h \<and> freed w' = freed w @ (if free l then map snd xs else [])"
proof -
  obtain w' where w': "listRelease l w = Inr w'" "dom (nodes w') = dom (nodes w) - addrs xs"
    "\<forall>b. b \<notin> addrs xs \<longrightarrow> nodes w' b = nodes w b" "freed w' = freed w @ (if free l then map snd xs else [])"
    using assms(1) listRelease_loop_ok [of w None xs l] by (auto simp: dl_ok_def listRelease_def)
  have "nodes w' b = h b" for b using w'(2,3) assms(2,3) by (cases "b \<in> addrs xs") auto
  then show ?thesis using w'(1,4) by auto
qed

definition dup_done ::
    "(addr \<Rightarrow> 'v listNode option) \<Rightarrow> (addr \<times> 'v) list \<Rightarrow> 'v dlist \<Rightarrow> (addr \<times> 'v) list \<Rightarrow> addr list \<Rightarrow>
     (ad_error, 'v dlist option \<times> 'v world) result \<Rightarrow> bool"
where
  "dup_done h xs l ys as r \<longleftrightarrow>
     (if \<exists>x\<in>set xs. dup_value l (snd x) = None then \<exists>w'. r = Inr (None, w') \<and> nodes w' = h
      else \<exists>c w'. r = Inr (Some c, w') \<and> dl_ok w' c (ys @ zip as (map (\<lambda>x. the (dup_value l (snd x))) xs)) \<and>
        same_methods l c \<and> (\<forall>b. b \<notin> addrs ys \<union> set as \<longrightarrow> nodes w' b = h b))"

lemma dup_done_cons:
  assumes "dup_value l v = Some v'" and "same_methods l c" and "dup_done h xs c (ys @ [(b, v')]) bs r"
  shows "dup_done h ((a, v) # xs) l ys (b # bs) r"
proof -
  have "dup_value c = dup_value l" using assms(2) by (simp add: dup_value_def same_methods_def fun_eq_iff)
  then show ?thesis
    using assms by (cases "\<exists>x\<in>set xs. dup_value l (snd x) = None") (fastforce simp: dup_done_def same_methods_def)+
qed

lemma dup_loop_ok:
  assumes "length xs < n" and "length as = length xs" and "distinct as" and "set as \<inter> (addrs xs \<union> addrs ys) = {}"
    and "addrs xs \<inter> addrs ys = {}" and "\<forall>a\<in>set as. h a = None" and "\<forall>b. b \<notin> addrs ys \<longrightarrow> nodes w b = h b"
    and "\<forall>b\<in>addrs ys. h b = None" and "seg h p xs None" and "dl_ok w copy ys"
    and "it_nxt iter = first xs None" and "direction iter = AL_START_HEAD" and "length ys + length xs < LIST_LIMIT"
  shows "dup_done h xs copy ys as (dup_loop n iter copy (map Some as) w)"
  using assms
proof (induction xs arbitrary: n as ys w p copy iter)
  case Nil
  then show ?case by (cases n) (auto simp: listNext_def same_methods_def dup_done_def)
next
  case (Cons x xs)
  obtain a v m where x: "x = (a, v)" "n = Suc m" using Cons.prems(1) by (cases x; cases n) auto
  obtain b bs where as: "as = b # bs" using Cons.prems(2) by (cases as) auto
  have nd: "nodes w a = Some \<lparr>prev = p, nxt = first xs None, nvalue = v\<rparr>"
    using Cons.prems(5,7,9) x by auto
  let ?it = "iter\<lparr>it_nxt := first xs None\<rparr>"
  have ln: "listNext iter w = Inr (?it, Some a)" using Cons.prems(11,12) nd x by (simp add: listNext_def)
  show ?case
  proof (cases "dup_value copy v")
    case None
    obtain w' where "listRelease copy w = Inr w'" "nodes w' = h"
      using listRelease_ok [OF Cons.prems(10,7,8)] by blast
    then have "dup_loop n iter copy (map Some as) w = Inr (None, w')" "nodes w' = h"
      using None ln nd x by (simp_all flip: dup_value_def)
    then show ?thesis using None x by (simp add: dup_done_def)
  next
    case (Some v')
    have "nodes w b = None" "length ys + 1 < LIST_LIMIT" using Cons.prems(4,6,7,13) as by auto
    from listAddNodeTail_ok [OF Cons.prems(10) this, of v'] obtain c w' where
      c: "listAddNodeTail copy v' (Some b) w = Inr (c, w', True)" "dl_ok w' c (ys @ [(b, v')])" "same_methods copy c"
        "frame (insert b (addrs ys)) w w'" by blast
    have n: "\<forall>d. d \<notin> addrs (ys @ [(b, v')]) \<longrightarrow> nodes w' d = h d" using c(4) Cons.prems(7) by (simp add: frame_def)
    have e: "\<forall>d\<in>addrs (ys @ [(b, v')]). h d = None" using Cons.prems(6,8) as by auto
    have d: "dup_done h xs c (ys @ [(b, v')]) bs (dup_loop m ?it c (map Some bs) w')"
      using Cons.prems as x c(2) by (intro Cons.IH [where p = "Some a"] n e) auto
    have "dup_loop n iter copy (map Some as) w = dup_loop m ?it c (map Some bs) w'"
      using ln nd x as c(1) Some by (simp flip: dup_value_def)
    then show ?thesis using dup_done_cons [OF Some c(3) d, of a] as x by simp
  qed
qed

text \<open>
  C25. Duplication: when the \<open>dup\<close> method succeeds on every value, \<open>listDup\<close> returns a list of the copies in the
  same order with the same methods, on fresh nodes, and every other node, so the original, is untouched. When
  it fails on some value, NULL is returned and the store is the one before the call: nothing leaks.
\<close>

theorem listDup_copies:
  assumes "dl_ok w l xs" and "length xs < n" and "length as = length xs" and "distinct as"
    and "\<forall>a\<in>set as. nodes w a = None"
  shows "\<exists>w'. (if \<exists>x\<in>set xs. dup_value l (snd x) = None
      then listDup n l True (map Some as) w = Inr (None, w') \<and> nodes w' = nodes w
      else \<exists>c. listDup n l True (map Some as) w = Inr (Some c, w') \<and>
        dl_ok w' c (zip as (map (\<lambda>x. the (dup_value l (snd x))) xs)) \<and> same_methods l c \<and> dl_ok w' l xs)"
proof -
  define copy where "copy = \<lparr>head = None, dtail = None, dup = dup l, free = free l, match = match l, len = 0\<rparr>"
  have dis: "set as \<inter> addrs xs = {}" using seg_mem [of "nodes w" None xs None] assms(1,5)
    unfolding dl_ok_def by blast
  have r: "listDup n l True (map Some as) w = dup_loop n (listGetIterator l AL_START_HEAD) copy (map Some as) w"
    by (simp add: listDup_def listCreate_def copy_def)
  have m: "dup_value copy = dup_value l" "\<And>c. same_methods copy c = same_methods l c"
    by (simp_all add: copy_def dup_value_def same_methods_def fun_eq_iff)
  have "dl_ok w copy []" by (simp add: copy_def dl_ok_def LIST_LIMIT_def)
  then have d: "dup_done (nodes w) xs copy [] as (listDup n l True (map Some as) w)"
    unfolding r using assms dis
    by (intro dup_loop_ok [where p = None]) (auto simp: dl_ok_def listGetIterator_def)
  have orig: "dl_ok w' l xs" if "\<forall>b. b \<notin> set as \<longrightarrow> nodes w' b = nodes w b" for w'
    using assms(1) seg_cong [of xs "nodes w'" "nodes w"] dis that by (auto simp: dl_ok_def)
  show ?thesis
  proof (cases "\<exists>x\<in>set xs. dup_value l (snd x) = None")
    case True
    then show ?thesis using d by (simp add: dup_done_def m)
  next
    case False
    then obtain c w' where "listDup n l True (map Some as) w = Inr (Some c, w')" "same_methods l c"
      "dl_ok w' c (zip as (map (\<lambda>x. the (dup_value l (snd x))) xs))" "\<forall>b. b \<notin> set as \<longrightarrow> nodes w' b = nodes w b"
      using d unfolding dup_done_def m if_not_P [OF False] by auto
    then show ?thesis using False orig [of w'] by auto
  qed
qed

theorem listDup_copies_witness:
  "\<exists>c w. listDup 4 three_list True [Some 256, Some 320, Some 384] three_nodes = Inr (Some c, w) \<and>
     dl_ok w c [(256, 1), (320, 2), (384, 3)] \<and> dl_ok w three_list [(64, 1), (128, 2), (192, 3)]"
  using listDup_copies [OF three_ok, of 4 "[256, 320, 384]"]
  by (auto simp: dup_value_def three_list_def three_nodes_def)

end
