(* ===== verification/Ziplist.thy ===== *)
theory Ziplist
  imports Util Refine
begin

text \<open>
  \<open>ziplist.c\<close>: the packed doubly linked list of strings and integers. A ziplist is its block of bytes, a
  pointer into it an offset, and every read, write and move is checked against the block. Lengths are
  unbounded naturals; the three header fields and the size passed to \<open>ziplistResize\<close> are truncated to their
  width. The host is little-endian, so the \<open>memrev\<close> and \<open>intrev\<close> conversions do nothing. A loop that
  follows the entries is given a number of rounds; the block's length is always enough.
\<close>

section \<open>Bytes\<close>

datatype zl_error =
    OutOfBlock      \<comment> \<open>a byte outside the block is read or written\<close>
  | AssertFailed
  | NoRounds        \<comment> \<open>the loop has not ended in the rounds given\<close>

definition bchar :: "byte \<Rightarrow> char" where
  "bchar b = mkchar (uint b)"

text \<open>\<open>p[0]\<close>, a field of \<open>n\<close> bytes, \<open>memcpy(p, bs, ...)\<close> and \<open>memmove\<close>.\<close>

definition rd :: "byte list \<Rightarrow> nat \<Rightarrow> (zl_error, nat) result" where
  "rd zl p = (if p < length zl then Inr (unat (zl ! p)) else Inl OutOfBlock)"

definition rdn :: "byte list \<Rightarrow> nat \<Rightarrow> nat \<Rightarrow> (zl_error, byte list) result" where
  "rdn zl p n = (if p + n \<le> length zl then Inr (take n (drop p zl)) else Inl OutOfBlock)"

definition wr :: "byte list \<Rightarrow> nat \<Rightarrow> byte list \<Rightarrow> (zl_error, byte list) result" where
  "wr zl p bs = (if p + length bs \<le> length zl then Inr (write_at zl p bs) else Inl OutOfBlock)"

definition memmove :: "byte list \<Rightarrow> nat \<Rightarrow> nat \<Rightarrow> nat \<Rightarrow> (zl_error, byte list) result" where
  "memmove zl dst src n = rbind (rdn zl src n) (wr zl dst)"

section \<open>Constants and header macros\<close>

definition ZIP_END :: nat where "ZIP_END = 255"
definition ZIP_BIGLEN :: nat where "ZIP_BIGLEN = 254"
definition ZIP_STR_MASK :: nat where "ZIP_STR_MASK = 192"
definition ZIP_STR_06B :: nat where "ZIP_STR_06B = 0"
definition ZIP_STR_14B :: nat where "ZIP_STR_14B = 64"
definition ZIP_STR_32B :: nat where "ZIP_STR_32B = 128"
definition ZIP_INT_16B :: nat where "ZIP_INT_16B = 192"
definition ZIP_INT_32B :: nat where "ZIP_INT_32B = 208"
definition ZIP_INT_64B :: nat where "ZIP_INT_64B = 224"
definition ZIP_INT_24B :: nat where "ZIP_INT_24B = 240"
definition ZIP_INT_8B :: nat where "ZIP_INT_8B = 254"
definition ZIP_INT_IMM_MIN :: nat where "ZIP_INT_IMM_MIN = 241"
definition ZIP_INT_IMM_MAX :: nat where "ZIP_INT_IMM_MAX = 253"
definition UINT16_MAX :: nat where "UINT16_MAX = 65535"
definition ZIPLIST_HEADER_SIZE :: nat where "ZIPLIST_HEADER_SIZE = 10"

lemmas zip_consts = ZIP_END_def ZIP_BIGLEN_def ZIP_STR_MASK_def ZIP_STR_06B_def ZIP_STR_14B_def ZIP_STR_32B_def
  ZIP_INT_16B_def ZIP_INT_32B_def ZIP_INT_64B_def ZIP_INT_24B_def ZIP_INT_8B_def ZIP_INT_IMM_MIN_def
  ZIP_INT_IMM_MAX_def UINT16_MAX_def ZIPLIST_HEADER_SIZE_def

definition ZIP_IS_STR :: "nat \<Rightarrow> bool" where
  "ZIP_IS_STR enc \<longleftrightarrow> enc AND ZIP_STR_MASK < ZIP_STR_MASK"

definition ZIPLIST_BYTES :: "byte list \<Rightarrow> (zl_error, nat) result" where
  "ZIPLIST_BYTES zl = rbind (rdn zl 0 4) (\<lambda>bs. Inr (nat (le_val bs)))"

definition ZIPLIST_TAIL_OFFSET :: "byte list \<Rightarrow> (zl_error, nat) result" where
  "ZIPLIST_TAIL_OFFSET zl = rbind (rdn zl 4 4) (\<lambda>bs. Inr (nat (le_val bs)))"

definition ZIPLIST_LENGTH :: "byte list \<Rightarrow> (zl_error, nat) result" where
  "ZIPLIST_LENGTH zl = rbind (rdn zl 8 2) (\<lambda>bs. Inr (nat (le_val bs)))"

definition set_tail :: "byte list \<Rightarrow> int \<Rightarrow> (zl_error, byte list) result" where
  "set_tail zl v = wr zl 4 (le_bytes 4 v)"

definition ZIPLIST_INCR_LENGTH :: "byte list \<Rightarrow> int \<Rightarrow> (zl_error, byte list) result" where
  "ZIPLIST_INCR_LENGTH zl incr =
     rbind (ZIPLIST_LENGTH zl) (\<lambda>n. if n < UINT16_MAX then wr zl 8 (le_bytes 2 (int n + incr)) else Inr zl)"

section \<open>Encoding and decoding entries\<close>

record zlentry =
  prevrawlensize :: nat
  prevrawlen :: nat
  lensize :: nat
  zlen :: nat
  headersize :: nat
  encoding :: nat
  zp :: nat

definition ZIP_ENTRY_ENCODING :: "nat \<Rightarrow> nat" where
  "ZIP_ENTRY_ENCODING b = (if b < ZIP_STR_MASK then b AND ZIP_STR_MASK else b)"

definition zipIntSize :: "nat \<Rightarrow> nat" where
  "zipIntSize enc =
     (if enc = ZIP_INT_8B then 1 else if enc = ZIP_INT_16B then 2 else if enc = ZIP_INT_24B then 3
      else if enc = ZIP_INT_32B then 4 else if enc = ZIP_INT_64B then 8 else 0)"

text \<open>The bytes \<open>zipEncodeLength\<close> writes; with a NULL pointer it returns only how many they are.\<close>

definition zipEncodeLength :: "nat \<Rightarrow> nat \<Rightarrow> byte list" where
  "zipEncodeLength enc rawlen =
     (if ZIP_IS_STR enc
      then if rawlen \<le> 63 then [of_nat (ZIP_STR_06B OR rawlen)]
           else if rawlen \<le> 16383
           then [of_nat (ZIP_STR_14B OR (drop_bit 8 rawlen AND 63)), of_nat (rawlen AND 255)]
           else [of_nat ZIP_STR_32B, of_nat (drop_bit 24 rawlen AND 255), of_nat (drop_bit 16 rawlen AND 255),
                 of_nat (drop_bit 8 rawlen AND 255), of_nat (rawlen AND 255)]
      else [of_nat enc])"

text \<open>\<open>ZIP_DECODE_LENGTH\<close>: the encoding, the size of the length field and the length.\<close>

definition ZIP_DECODE_LENGTH :: "byte list \<Rightarrow> nat \<Rightarrow> (zl_error, nat \<times> nat \<times> nat) result" where
  "ZIP_DECODE_LENGTH zl p =
     rbind (rd zl p) (\<lambda>b.
       let enc = ZIP_ENTRY_ENCODING b in
       if enc < ZIP_STR_MASK then
         if enc = ZIP_STR_06B then Inr (enc, 1, b AND 63)
         else if enc = ZIP_STR_14B then rbind (rd zl (p + 1)) (\<lambda>b1. Inr (enc, 2, push_bit 8 (b AND 63) OR b1))
         else if enc = ZIP_STR_32B then
           rbind (rd zl (p + 1)) (\<lambda>b1. rbind (rd zl (p + 2)) (\<lambda>b2. rbind (rd zl (p + 3)) (\<lambda>b3.
           rbind (rd zl (p + 4)) (\<lambda>b4.
             Inr (enc, 5, push_bit 24 b1 OR push_bit 16 b2 OR push_bit 8 b3 OR b4)))))
         else Inl AssertFailed
       else Inr (enc, 1, zipIntSize enc))"

definition zipPrevEncodeLengthForceLarge :: "nat \<Rightarrow> byte list" where
  "zipPrevEncodeLengthForceLarge l = of_nat ZIP_BIGLEN # le_bytes 4 (int l)"

definition zipPrevEncodeLength :: "nat \<Rightarrow> byte list" where
  "zipPrevEncodeLength l = (if l < ZIP_BIGLEN then [of_nat l] else of_nat ZIP_BIGLEN # le_bytes 4 (int l))"

definition ZIP_DECODE_PREVLENSIZE :: "byte list \<Rightarrow> nat \<Rightarrow> (zl_error, nat) result" where
  "ZIP_DECODE_PREVLENSIZE zl p = rbind (rd zl p) (\<lambda>b. Inr (if b < ZIP_BIGLEN then 1 else 5))"

definition ZIP_DECODE_PREVLEN :: "byte list \<Rightarrow> nat \<Rightarrow> (zl_error, nat \<times> nat) result" where
  "ZIP_DECODE_PREVLEN zl p =
     rbind (ZIP_DECODE_PREVLENSIZE zl p) (\<lambda>n.
       if n = 1 then rbind (rd zl p) (\<lambda>b. Inr (n, b))
       else rbind (rdn zl (p + 1) 4) (\<lambda>bs. Inr (n, nat (le_val bs))))"

definition zipPrevLenByteDiff :: "byte list \<Rightarrow> nat \<Rightarrow> nat \<Rightarrow> (zl_error, int) result" where
  "zipPrevLenByteDiff zl p l =
     rbind (ZIP_DECODE_PREVLENSIZE zl p) (\<lambda>n. Inr (int (length (zipPrevEncodeLength l)) - int n))"

definition zipRawEntryLength :: "byte list \<Rightarrow> nat \<Rightarrow> (zl_error, nat) result" where
  "zipRawEntryLength zl p =
     rbind (ZIP_DECODE_PREVLENSIZE zl p) (\<lambda>n.
     rbind (ZIP_DECODE_LENGTH zl (p + n)) (\<lambda>(enc, ls, l). Inr (n + ls + l)))"

definition zipEntry :: "byte list \<Rightarrow> nat \<Rightarrow> (zl_error, zlentry) result" where
  "zipEntry zl p =
     rbind (ZIP_DECODE_PREVLEN zl p) (\<lambda>(n, prevlen).
     rbind (ZIP_DECODE_LENGTH zl (p + n)) (\<lambda>(enc, ls, l).
       Inr \<lparr>prevrawlensize = n, prevrawlen = prevlen, lensize = ls, zlen = l, headersize = n + ls,
            encoding = enc, zp = p\<rparr>))"

text \<open>\<open>zipTryEncoding\<close>: the value and its encoding when the text is an integer.\<close>

definition zipTryEncoding :: "byte list \<Rightarrow> (int \<times> nat) option" where
  "zipTryEncoding entry =
     (if length entry \<ge> 32 \<or> length entry = 0 then None
      else case string2ll (map bchar entry) of
        None \<Rightarrow> None
      | Some value \<Rightarrow>
          Some (value,
            if value \<ge> 0 \<and> value \<le> 12 then ZIP_INT_IMM_MIN + nat value
            else if value \<ge> - 128 \<and> value \<le> 127 then ZIP_INT_8B
            else if value \<ge> - 32768 \<and> value \<le> 32767 then ZIP_INT_16B
            else if value \<ge> - 8388608 \<and> value \<le> 8388607 then ZIP_INT_24B
            else if value \<ge> - 2147483648 \<and> value \<le> 2147483647 then ZIP_INT_32B
            else ZIP_INT_64B))"

text \<open>The bytes \<open>zipSaveInteger\<close> stores.\<close>

definition zipSaveInteger :: "int \<Rightarrow> nat \<Rightarrow> (zl_error, byte list) result" where
  "zipSaveInteger value enc =
     (if enc = ZIP_INT_8B then Inr (le_bytes 1 value)
      else if enc = ZIP_INT_16B then Inr (le_bytes 2 value)
      else if enc = ZIP_INT_24B then Inr (drop 1 (le_bytes 4 (value * 256)))
      else if enc = ZIP_INT_32B then Inr (le_bytes 4 value)
      else if enc = ZIP_INT_64B then Inr (le_bytes 8 value)
      else if ZIP_INT_IMM_MIN \<le> enc \<and> enc \<le> ZIP_INT_IMM_MAX then Inr []
      else Inl AssertFailed)"

definition zipLoadInteger :: "byte list \<Rightarrow> nat \<Rightarrow> nat \<Rightarrow> (zl_error, int) result" where
  "zipLoadInteger zl p enc =
     (if enc = ZIP_INT_8B then rbind (rdn zl p 1) (\<lambda>bs. Inr (le_sval 1 bs))
      else if enc = ZIP_INT_16B then rbind (rdn zl p 2) (\<lambda>bs. Inr (le_sval 2 bs))
      else if enc = ZIP_INT_32B then rbind (rdn zl p 4) (\<lambda>bs. Inr (le_sval 4 bs))
      else if enc = ZIP_INT_24B then rbind (rdn zl p 3) (\<lambda>bs. Inr (le_sval 4 (0 # bs) div 256))
      else if enc = ZIP_INT_64B then rbind (rdn zl p 8) (\<lambda>bs. Inr (le_sval 8 bs))
      else if ZIP_INT_IMM_MIN \<le> enc \<and> enc \<le> ZIP_INT_IMM_MAX then Inr (int (enc AND 15) - 1)
      else Inl AssertFailed)"

section \<open>Creation, resizing, cascading updates\<close>

definition ziplistNew :: "byte list" where
  "ziplistNew = le_bytes 4 (int (ZIPLIST_HEADER_SIZE + 1)) @ le_bytes 4 (int ZIPLIST_HEADER_SIZE) @ le_bytes 2 0 @
     [of_nat ZIP_END]"

definition ziplistResize :: "(nat \<Rightarrow> byte) \<Rightarrow> byte list \<Rightarrow> int \<Rightarrow> (zl_error, byte list) result" where
  "ziplistResize g zl l =
     (let n = nat (to_u32 l); zl = realloc_buf g zl n in
      rbind (wr zl 0 (le_bytes 4 (int n))) (\<lambda>zl.
        if n = 0 then Inl OutOfBlock else wr zl (n - 1) [of_nat ZIP_END]))"

fun ziplistCascadeUpdate ::
    "(nat \<Rightarrow> byte) \<Rightarrow> nat \<Rightarrow> nat \<Rightarrow> byte list \<Rightarrow> nat \<Rightarrow> (zl_error, byte list) result"
where
  "ziplistCascadeUpdate g 0 curlen zl p = Inl NoRounds"
| "ziplistCascadeUpdate g (Suc n) curlen zl p =
     rbind (rd zl p) (\<lambda>b.
     if b = ZIP_END then Inr zl
     else rbind (zipEntry zl p) (\<lambda>cur.
       let rawlen = headersize cur + zlen cur; rawlensize = length (zipPrevEncodeLength rawlen) in
       rbind (rd zl (p + rawlen)) (\<lambda>b'.
       if b' = ZIP_END then Inr zl
       else rbind (zipEntry zl (p + rawlen)) (\<lambda>nxt.
         if prevrawlen nxt = rawlen then Inr zl
         else if prevrawlensize nxt < rawlensize then
           let extra = rawlensize - prevrawlensize nxt in
           rbind (ziplistResize g zl (int (curlen + extra))) (\<lambda>zl.
           let np = p + rawlen in
           rbind (ZIPLIST_TAIL_OFFSET zl) (\<lambda>t.
           rbind (if t \<noteq> np then set_tail zl (int (t + extra)) else Inr zl) (\<lambda>zl.
           rbind (memmove zl (np + rawlensize) (np + prevrawlensize nxt)
                    (nat (int curlen - int np - int (prevrawlensize nxt) - 1))) (\<lambda>zl.
           rbind (wr zl np (zipPrevEncodeLength rawlen)) (\<lambda>zl.
             ziplistCascadeUpdate g n (curlen + extra) zl (p + rawlen))))))
         else if prevrawlensize nxt > rawlensize
           then wr zl (p + rawlen) (zipPrevEncodeLengthForceLarge rawlen)
           else wr zl (p + rawlen) (zipPrevEncodeLength rawlen)))))"

text \<open>The whole function: the size is read once, and the rounds are those of the block's length.\<close>

definition cascade :: "(nat \<Rightarrow> byte) \<Rightarrow> byte list \<Rightarrow> nat \<Rightarrow> (zl_error, byte list) result" where
  "cascade g zl p = rbind (ZIPLIST_BYTES zl) (\<lambda>curlen. ziplistCascadeUpdate g (length zl) curlen zl p)"

section \<open>Deletion and insertion\<close>

fun advance :: "byte list \<Rightarrow> nat \<Rightarrow> nat \<Rightarrow> (zl_error, nat \<times> nat) result" where
  "advance zl 0 p = Inr (p, 0)"
| "advance zl (Suc i) p =
     rbind (rd zl p) (\<lambda>b.
       if b = ZIP_END then Inr (p, 0)
       else rbind (zipRawEntryLength zl p) (\<lambda>l. rbind (advance zl i (p + l)) (\<lambda>(q, d). Inr (q, d + 1))))"

definition ziplistDelete0 :: "(nat \<Rightarrow> byte) \<Rightarrow> byte list \<Rightarrow> nat \<Rightarrow> nat \<Rightarrow> (zl_error, byte list) result" where
  "ziplistDelete0 g zl p0 num =
     rbind (zipEntry zl p0) (\<lambda>first.
     rbind (advance zl num p0) (\<lambda>(p, deleted).
     let totlen = p - p0 in
     if totlen = 0 then Inr zl
     else
       rbind (rd zl p) (\<lambda>b.
       rbind (if b \<noteq> ZIP_END then
           rbind (zipPrevLenByteDiff zl p (prevrawlen first)) (\<lambda>nextdiff.
           let p = nat (int p - nextdiff) in
           rbind (wr zl p (zipPrevEncodeLength (prevrawlen first))) (\<lambda>zl.
           rbind (ZIPLIST_TAIL_OFFSET zl) (\<lambda>t.
           rbind (set_tail zl (int t - int totlen)) (\<lambda>zl.
           rbind (zipEntry zl p) (\<lambda>tail.
           rbind (rd zl (p + headersize tail + zlen tail)) (\<lambda>b'.
           rbind (if b' \<noteq> ZIP_END
                  then rbind (ZIPLIST_TAIL_OFFSET zl) (\<lambda>t. set_tail zl (int t + nextdiff)) else Inr zl) (\<lambda>zl.
           rbind (ZIPLIST_BYTES zl) (\<lambda>bytes.
           rbind (memmove zl p0 p (nat (int bytes - int p - 1))) (\<lambda>zl. Inr (nextdiff, zl))))))))))
         else rbind (set_tail zl (int p0 - int (prevrawlen first))) (\<lambda>zl. Inr (0, zl))) (\<lambda>(nextdiff, zl).
       rbind (ZIPLIST_BYTES zl) (\<lambda>bytes.
       rbind (ziplistResize g zl (int bytes - int totlen + nextdiff)) (\<lambda>zl.
       rbind (ZIPLIST_INCR_LENGTH zl (- int deleted)) (\<lambda>zl.
         if nextdiff \<noteq> 0 then cascade g zl p0 else Inr zl)))))))"

definition ziplistInsert0 :: "(nat \<Rightarrow> byte) \<Rightarrow> byte list \<Rightarrow> nat \<Rightarrow> byte list \<Rightarrow> (zl_error, byte list) result" where
  "ziplistInsert0 g zl p s =
     rbind (ZIPLIST_BYTES zl) (\<lambda>curlen.
     rbind (rd zl p) (\<lambda>b.
     rbind (if b \<noteq> ZIP_END then rbind (zipEntry zl p) (\<lambda>e. Inr (prevrawlen e))
            else rbind (ZIPLIST_TAIL_OFFSET zl) (\<lambda>ptail.
                 rbind (rd zl ptail) (\<lambda>t. if t \<noteq> ZIP_END then zipRawEntryLength zl ptail else Inr 0))) (\<lambda>prevlen.
     let slen = length s;
         try = zipTryEncoding s;
         enc = (case try of Some (v, enc) \<Rightarrow> enc | None \<Rightarrow> 0);
         reqlen = (case try of Some (v, enc) \<Rightarrow> zipIntSize enc | None \<Rightarrow> slen);
         reqlen = reqlen + length (zipPrevEncodeLength prevlen);
         reqlen = reqlen + length (zipEncodeLength enc slen)
     in
     rbind (if b \<noteq> ZIP_END then zipPrevLenByteDiff zl p reqlen else Inr 0) (\<lambda>nextdiff.
     rbind (ziplistResize g zl (int curlen + int reqlen + nextdiff)) (\<lambda>zl.
     rbind (rd zl p) (\<lambda>b.
     rbind (if b \<noteq> ZIP_END then
         rbind (memmove zl (p + reqlen) (nat (int p - nextdiff)) (nat (int curlen - int p - 1 + nextdiff))) (\<lambda>zl.
         rbind (wr zl (p + reqlen) (zipPrevEncodeLength reqlen)) (\<lambda>zl.
         rbind (ZIPLIST_TAIL_OFFSET zl) (\<lambda>t.
         rbind (set_tail zl (int (t + reqlen))) (\<lambda>zl.
         rbind (zipEntry zl (p + reqlen)) (\<lambda>tail.
         rbind (rd zl (p + reqlen + headersize tail + zlen tail)) (\<lambda>b'.
         if b' \<noteq> ZIP_END then rbind (ZIPLIST_TAIL_OFFSET zl) (\<lambda>t. set_tail zl (int t + nextdiff))
         else Inr zl))))))
       else set_tail zl (int p)) (\<lambda>zl.
     rbind (if nextdiff \<noteq> 0 then cascade g zl (p + reqlen) else Inr zl) (\<lambda>zl.
     rbind (wr zl p (zipPrevEncodeLength prevlen)) (\<lambda>zl.
     let p = p + length (zipPrevEncodeLength prevlen) in
     rbind (wr zl p (zipEncodeLength enc slen)) (\<lambda>zl.
     let p = p + length (zipEncodeLength enc slen) in
     rbind (if ZIP_IS_STR enc then Inr s
            else zipSaveInteger (case try of Some (v, e) \<Rightarrow> v | None \<Rightarrow> 123456789) enc) (\<lambda>bs.
     rbind (wr zl p bs) (\<lambda>zl. ZIPLIST_INCR_LENGTH zl 1))))))))))))"

section \<open>The interface\<close>

definition ZIPLIST_HEAD :: int where "ZIPLIST_HEAD = 0"
definition ZIPLIST_TAIL :: int where "ZIPLIST_TAIL = 1"

definition ziplistPush :: "(nat \<Rightarrow> byte) \<Rightarrow> byte list \<Rightarrow> byte list \<Rightarrow> int \<Rightarrow> (zl_error, byte list) result" where
  "ziplistPush g zl s dest =
     rbind (if dest = ZIPLIST_HEAD then Inr (int ZIPLIST_HEADER_SIZE)
            else rbind (ZIPLIST_BYTES zl) (\<lambda>n. Inr (int n - 1))) (\<lambda>p.
       ziplistInsert0 g zl (nat p) s)"

text \<open>The two loops of \<open>ziplistIndex\<close> also give the value of \<open>index\<close> they end with.\<close>

fun index_back :: "byte list \<Rightarrow> nat \<Rightarrow> zlentry \<Rightarrow> nat \<Rightarrow> (zl_error, nat \<times> int) result" where
  "index_back zl 0 entry p = (if prevrawlen entry > 0 then Inr (p, - 1) else Inr (p, 0))"
| "index_back zl (Suc i) entry p =
     (if prevrawlen entry > 0 then
        if p < prevrawlen entry then Inl OutOfBlock
        else rbind (zipEntry zl (p - prevrawlen entry)) (\<lambda>e. index_back zl i e (p - prevrawlen entry))
      else Inr (p, int (Suc i)))"

fun index_forward :: "byte list \<Rightarrow> nat \<Rightarrow> nat \<Rightarrow> (zl_error, nat \<times> int) result" where
  "index_forward zl 0 p = rbind (rd zl p) (\<lambda>b. if b = ZIP_END then Inr (p, 0) else Inr (p, - 1))"
| "index_forward zl (Suc i) p =
     rbind (rd zl p) (\<lambda>b.
       if b = ZIP_END then Inr (p, int (Suc i))
       else rbind (zipRawEntryLength zl p) (\<lambda>l. index_forward zl i (p + l)))"

definition ziplistIndex :: "byte list \<Rightarrow> int \<Rightarrow> (zl_error, nat option) result" where
  "ziplistIndex zl index =
     rbind (if index < 0 then
         let index = to_i32 (to_i32 (- index) - 1) in
         rbind (ZIPLIST_TAIL_OFFSET zl) (\<lambda>p. rbind (rd zl p) (\<lambda>b.
           if b \<noteq> ZIP_END then rbind (zipEntry zl p) (\<lambda>e. index_back zl (nat index) e p) else Inr (p, index)))
       else index_forward zl (nat index) ZIPLIST_HEADER_SIZE) (\<lambda>(p, index).
     rbind (rd zl p) (\<lambda>b. Inr (if b = ZIP_END \<or> index > 0 then None else Some p)))"

definition ziplistNext :: "byte list \<Rightarrow> nat \<Rightarrow> (zl_error, nat option) result" where
  "ziplistNext zl p =
     rbind (rd zl p) (\<lambda>b. if b = ZIP_END then Inr None
       else rbind (zipRawEntryLength zl p) (\<lambda>l. rbind (rd zl (p + l)) (\<lambda>b.
         Inr (if b = ZIP_END then None else Some (p + l)))))"

definition ziplistPrev :: "byte list \<Rightarrow> nat \<Rightarrow> (zl_error, nat option) result" where
  "ziplistPrev zl p =
     rbind (rd zl p) (\<lambda>b.
       if b = ZIP_END then
         rbind (ZIPLIST_TAIL_OFFSET zl) (\<lambda>p. rbind (rd zl p) (\<lambda>b. Inr (if b = ZIP_END then None else Some p)))
       else if p = ZIPLIST_HEADER_SIZE then Inr None
       else rbind (zipEntry zl p) (\<lambda>e.
         if prevrawlen e > 0 then if prevrawlen e \<le> p then Inr (Some (p - prevrawlen e)) else Inl OutOfBlock
         else Inl AssertFailed))"

datatype zval = ZStr "byte list" | ZInt int

text \<open>\<open>ziplistGet\<close>: \<open>None\<close> when it returns 0; the string is read where \<open>sstr\<close> points.\<close>

definition ziplistGet :: "byte list \<Rightarrow> nat option \<Rightarrow> (zl_error, zval option) result" where
  "ziplistGet zl p =
     (case p of None \<Rightarrow> Inr None
      | Some p \<Rightarrow> rbind (rd zl p) (\<lambda>b.
          if b = ZIP_END then Inr None
          else rbind (zipEntry zl p) (\<lambda>e.
            if ZIP_IS_STR (encoding e) then rbind (rdn zl (p + headersize e) (zlen e)) (\<lambda>bs. Inr (Some (ZStr bs)))
            else rbind (zipLoadInteger zl (p + headersize e) (encoding e)) (\<lambda>v. Inr (Some (ZInt v))))))"

definition ziplistInsert :: "(nat \<Rightarrow> byte) \<Rightarrow> byte list \<Rightarrow> nat \<Rightarrow> byte list \<Rightarrow> (zl_error, byte list) result" where
  "ziplistInsert g zl p s = ziplistInsert0 g zl p s"

definition ziplistDelete :: "(nat \<Rightarrow> byte) \<Rightarrow> byte list \<Rightarrow> nat \<Rightarrow> (zl_error, byte list \<times> nat) result" where
  "ziplistDelete g zl p = rbind (ziplistDelete0 g zl p 1) (\<lambda>zl. Inr (zl, p))"

definition ziplistDeleteRange :: "(nat \<Rightarrow> byte) \<Rightarrow> byte list \<Rightarrow> int \<Rightarrow> nat \<Rightarrow> (zl_error, byte list) result" where
  "ziplistDeleteRange g zl index num =
     rbind (ziplistIndex zl (to_i32 index)) (\<lambda>p. case p of None \<Rightarrow> Inr zl | Some p \<Rightarrow> ziplistDelete0 g zl p num)"

definition ziplistCompare :: "byte list \<Rightarrow> nat \<Rightarrow> byte list \<Rightarrow> (zl_error, bool) result" where
  "ziplistCompare zl p sstr =
     rbind (rd zl p) (\<lambda>b.
       if b = ZIP_END then Inr False
       else rbind (zipEntry zl p) (\<lambda>e.
         if ZIP_IS_STR (encoding e) then
           if zlen e = length sstr then rbind (rdn zl (p + headersize e) (zlen e)) (\<lambda>bs. Inr (bs = sstr))
           else Inr False
         else case zipTryEncoding sstr of
             Some (sval, senc) \<Rightarrow> rbind (zipLoadInteger zl (p + headersize e) (encoding e)) (\<lambda>v. Inr (v = sval))
           | None \<Rightarrow> Inr False))"

text \<open>The loop of \<open>ziplistFind\<close>. \<open>venc\<close> and \<open>vll\<close> cache the integer reading of the searched text: 0 when it
  was not tried yet, 255 when it has none.\<close>

fun find_loop :: "nat \<Rightarrow> byte list \<Rightarrow> nat \<Rightarrow> byte list \<Rightarrow> nat \<Rightarrow> nat \<Rightarrow> nat \<Rightarrow> int \<Rightarrow> (zl_error, nat option) result" where
  "find_loop 0 zl p vstr skip skipcnt venc vll = Inl NoRounds"
| "find_loop (Suc n) zl p vstr skip skipcnt venc vll =
     rbind (rd zl p) (\<lambda>b.
     if b = ZIP_END then Inr None
     else rbind (ZIP_DECODE_PREVLENSIZE zl p) (\<lambda>prevlensize.
       rbind (ZIP_DECODE_LENGTH zl (p + prevlensize)) (\<lambda>(enc, ls, l).
       let q = p + prevlensize + ls in
       if skipcnt = 0 then
         if ZIP_IS_STR enc then
           rbind (if l = length vstr then rbind (rdn zl q l) (\<lambda>bs. Inr (bs = vstr)) else Inr False) (\<lambda>eq.
             if eq then Inr (Some p) else find_loop n zl (q + l) vstr skip skip venc vll)
         else
           let (venc, vll) = (if venc = 0 then case zipTryEncoding vstr of None \<Rightarrow> (255, vll) | Some (v, e) \<Rightarrow> (e, v)
                              else (venc, vll)) in
           if venc = 0 then Inl AssertFailed
           else rbind (if venc \<noteq> 255 then rbind (zipLoadInteger zl q enc) (\<lambda>ll. Inr (ll = vll)) else Inr False) (\<lambda>eq.
             if eq then Inr (Some p) else find_loop n zl (q + l) vstr skip skip venc vll)
       else find_loop n zl (q + l) vstr skip (skipcnt - 1) venc vll)))"

definition ziplistFind :: "byte list \<Rightarrow> nat \<Rightarrow> byte list \<Rightarrow> nat \<Rightarrow> (zl_error, nat option) result" where
  "ziplistFind zl p vstr skip = find_loop (length zl) zl p vstr skip 0 0 0"

fun len_loop :: "nat \<Rightarrow> byte list \<Rightarrow> nat \<Rightarrow> (zl_error, nat) result" where
  "len_loop 0 zl p = Inl NoRounds"
| "len_loop (Suc n) zl p =
     rbind (rd zl p) (\<lambda>b.
       if b = ZIP_END then Inr 0
       else rbind (zipRawEntryLength zl p) (\<lambda>l. rbind (len_loop n zl (p + l)) (\<lambda>k. Inr (k + 1))))"

definition ziplistLen :: "byte list \<Rightarrow> (zl_error, byte list \<times> nat) result" where
  "ziplistLen zl =
     rbind (ZIPLIST_LENGTH zl) (\<lambda>n.
       if n < UINT16_MAX then Inr (zl, n)
       else rbind (len_loop (length zl) zl ZIPLIST_HEADER_SIZE) (\<lambda>l.
         rbind (if l < UINT16_MAX then wr zl 8 (le_bytes 2 (int l)) else Inr zl) (\<lambda>zl. Inr (zl, l))))"

definition ziplistBlobLen :: "byte list \<Rightarrow> (zl_error, nat) result" where
  "ziplistBlobLen zl = ZIPLIST_BYTES zl"

end
