(* ===== verification/Ziplist_Entry.thy ===== *)
theory Ziplist_Entry
  imports Ziplist
begin

text \<open>
  The entry format of a ziplist: what the encoders write the decoders read back, and how the readers behave
  on a block cut at any position. Integers survive in the smallest encoding that holds them.
\<close>

section \<open>Bytes\<close>

lemma unat_byte [simp]: "n < 256 \<Longrightarrow> unat (of_nat n :: byte) = n"
  by (simp add: unat_of_nat take_bit_nat_eq_self)

lemma unat_byte_less [simp]: "unat (b :: byte) < 256"
  by (rule order.strict_trans2 [OF unsigned_less]) simp

lemma rd_Cons [simp]: "rd (b # bs) 0 = Inr (unat b)" "rd (b # bs) (Suc k) = rd bs k" "rd [] k = Inl OutOfBlock"
  by (simp_all add: rd_def)

lemma rd_numeral [simp]: "rd (b # bs) (numeral k) = rd bs (pred_numeral k)"
  by (simp add: numeral_eq_Suc)

lemma rd_drop: "rd (drop p zl) k = rd zl (p + k)"
  by (simp add: rd_def add.commute less_diff_conv)

lemma rdn_drop: "p \<le> length zl \<Longrightarrow> rdn (drop p zl) k n = rdn zl (p + k) n"
  by (auto simp: rdn_def add.commute)

lemma rdn_exact [simp]: "rdn (bs @ xs) 0 (length bs) = Inr bs"
  by (simp add: rdn_def)

lemma rdn_exact' [simp]: "length bs = n \<Longrightarrow> rdn (bs @ xs) 0 n = Inr bs"
  by (auto simp: rdn_def)

lemma rdn_Suc [simp]: "rdn (b # bs) (Suc k) n = rdn bs k n"
  by (simp add: rdn_def)

lemma rdn_one [simp]: "rdn (b # bs) 0 (Suc 0) = Inr [b]"
  by (simp add: rdn_def)

lemma rdn_whole [simp]: "length bs = n \<Longrightarrow> rdn bs 0 n = Inr bs"
  by (auto simp: rdn_def)

section \<open>Encoding bytes\<close>

lemma and_push: "n AND push_bit k m = push_bit k (drop_bit k n AND (m::nat))"
  by (rule bit_eqI) (auto simp: bit_simps)

lemma and_192:
  assumes "n < 256"
  shows "n AND 192 = (if n < 64 then 0 else if n < 128 then 64 else if n < 192 then 128 else (192::nat))"
proof -
  have "n AND 192 = push_bit 6 (drop_bit 6 n AND 3)" using and_push [of n 6 3] by (simp add: push_bit_eq_mult)
  also have "\<dots> = n div 64 mod 4 * 64" using and_mask_nat [of "n div 64" 2] by (simp add: push_bit_eq_mult drop_bit_eq_div)
  finally show ?thesis using assms by auto
qed

lemma ZIP_IS_STR_iff: "n < 256 \<Longrightarrow> ZIP_IS_STR n \<longleftrightarrow> n < 192"
  by (simp add: ZIP_IS_STR_def ZIP_STR_MASK_def and_192)

lemma and_63: "n AND 63 = n mod (64::nat)"
  using and_mask_nat [of n 6] by simp

lemma and_255: "n AND 255 = n mod (256::nat)"
  using and_mask_nat [of n 8] by simp

lemma push_or: "b < 2 ^ n \<Longrightarrow> push_bit n a OR b = a * 2 ^ n + (b::nat)"
proof -
  assume b: "b < 2 ^ n"
  have "push_bit n a AND b = 0"
  proof (rule bit_eqI)
    fix m
    have "b = take_bit n b" using b by (simp add: take_bit_nat_eq_self)
    then show "bit (push_bit n a AND b) m \<longleftrightarrow> bit 0 m"
      by (metis bit_0_eq bit_and_iff bit_push_bit_iff_nat bit_take_bit_iff bot_apply bot_bool_def not_le)
  qed
  then show ?thesis by (simp add: disjunctive_add_eq_or [symmetric] push_bit_eq_mult)
qed

lemma or_64: "d < 64 \<Longrightarrow> 64 OR d = 64 + (d::nat)"
  using push_or [of d 6 1] by simp

text \<open>A string header is read back.\<close>

lemma decode_string_header:
  assumes "r < 2 ^ 32"
  shows "\<exists>enc. ZIP_DECODE_LENGTH (zipEncodeLength 0 r @ R) 0 = Inr (enc, length (zipEncodeLength 0 r), r) \<and> enc < 192"
proof -
  have str: "ZIP_IS_STR 0" by (simp add: ZIP_IS_STR_iff)
  consider "r \<le> 63" | "63 < r" "r \<le> 16383" | "16383 < r" by linarith
  then show ?thesis
  proof cases
    case 1
    then show ?thesis using str
      by (simp add: zipEncodeLength_def ZIP_DECODE_LENGTH_def ZIP_ENTRY_ENCODING_def zip_consts and_192 and_63)
  next
    case 2
    then have d: "r div 256 < 64" by simp
    have "r div 256 * 256 + r mod 256 = r" by simp
    then show ?thesis using 2 d str
      by (simp add: zipEncodeLength_def ZIP_DECODE_LENGTH_def ZIP_ENTRY_ENCODING_def zip_consts and_192 and_63 and_255
          drop_bit_eq_div or_64 push_or [of _ 8] del: of_nat_add)
  next
    case 3
    have b: "r div 16777216 < 256" using assms by simp
    have "r div 16777216 mod 256 * 16777216 + (r div 65536 mod 256 * 65536 + (r div 256 mod 256 * 256 + r mod 256)) = r"
    proof -
      have "r div 65536 = r div 16777216 * 256 + r div 65536 mod 256" "r div 256 = r div 65536 * 256 + r div 256 mod 256"
        "r = r div 256 * 256 + r mod 256" "r div 16777216 mod 256 = r div 16777216"
        using div_mult2_eq [of r 65536 256] div_mult2_eq [of r 256 256] b by simp_all
      then show ?thesis by linarith
    qed
    moreover have "r div 65536 mod 256 * 65536 + (r div 256 mod 256 * 256 + r mod 256) < 2 ^ 24"
      "r div 256 mod 256 * 256 + r mod 256 < 2 ^ 16" "r mod 256 < 2 ^ 8"
    proof -
      have "r div 65536 mod 256 \<le> 255" "r div 256 mod 256 \<le> 255" "r mod 256 \<le> 255" by simp_all
      then show "r div 65536 mod 256 * 65536 + (r div 256 mod 256 * 256 + r mod 256) < 2 ^ 24"
        "r div 256 mod 256 * 256 + r mod 256 < 2 ^ 16" "r mod 256 < 2 ^ 8" by simp_all
    qed
    ultimately show ?thesis using 3 str
      by (simp add: zipEncodeLength_def ZIP_DECODE_LENGTH_def ZIP_ENTRY_ENCODING_def zip_consts and_192 and_255
          drop_bit_eq_div push_or or.assoc)
  qed
qed

section \<open>Integers\<close>

lemma try_encoding_int:
  assumes "zipTryEncoding s = Some (v, enc)"
  shows "string2ll (map bchar s) = Some v \<and> is_ll v \<and> 192 \<le> enc \<and> enc < 255"
proof -
  have v: "string2ll (map bchar s) = Some v" and
    enc: "enc = (if v \<ge> 0 \<and> v \<le> 12 then ZIP_INT_IMM_MIN + nat v
            else if v \<ge> - 128 \<and> v \<le> 127 then ZIP_INT_8B
            else if v \<ge> - 32768 \<and> v \<le> 32767 then ZIP_INT_16B
            else if v \<ge> - 8388608 \<and> v \<le> 8388607 then ZIP_INT_24B
            else if v \<ge> - 2147483648 \<and> v \<le> 2147483647 then ZIP_INT_32B else ZIP_INT_64B)"
    using assms by (auto simp: zipTryEncoding_def split: if_splits option.splits)
  have "192 \<le> enc \<and> enc < 255" using enc by (auto simp: zip_consts split: if_splits)
  then show ?thesis using v string2ll_canonical by auto
qed

lemma le_sval_24:
  assumes "- 8388608 \<le> v" and "v \<le> 8388607"
  shows "le_sval 4 (0 # drop 1 (le_bytes 4 (v * 256))) div 256 = v"
proof -
  have "le_bytes 4 (v * 256) = word_of_int (v * 256) # le_bytes 3 v" by (simp add: numeral_eq_Suc)
  moreover have "(word_of_int (v * 256) :: byte) = 0"
    by (metis mod_mult_self2_is_0 uint_byte_of_int uint_0_iff)
  ultimately have "0 # drop 1 (le_bytes 4 (v * 256)) = le_bytes 4 (v * 256)" by simp
  then show ?thesis using le_sval_le_bytes [of 4 "v * 256"] assms by simp
qed

lemma imm_value: "k \<le> 12 \<Longrightarrow> int ((241 + k) AND 15) - 1 = int k"
proof -
  assume "k \<le> 12"
  then have "(241 + k) mod 16 = k + 1" by presburger
  then show ?thesis using and_mask_nat [of "241 + k" 4] by simp
qed

text \<open>The integer stored for a text is loaded back, and occupies the bytes its encoding says.\<close>

lemma save_load:
  assumes "zipTryEncoding s = Some (v, enc)"
  shows "\<exists>bs. zipSaveInteger v enc = Inr bs \<and> length bs = zipIntSize enc \<and> zipLoadInteger (bs @ R) 0 enc = Inr v"
proof -
  have ll: "- 9223372036854775808 \<le> v" "v < 9223372036854775808" using try_encoding_int [OF assms] by (auto simp: ll_bounds)
  have enc: "enc = (if v \<ge> 0 \<and> v \<le> 12 then ZIP_INT_IMM_MIN + nat v
            else if v \<ge> - 128 \<and> v \<le> 127 then ZIP_INT_8B
            else if v \<ge> - 32768 \<and> v \<le> 32767 then ZIP_INT_16B
            else if v \<ge> - 8388608 \<and> v \<le> 8388607 then ZIP_INT_24B
            else if v \<ge> - 2147483648 \<and> v \<le> 2147483647 then ZIP_INT_32B else ZIP_INT_64B)"
    using assms by (auto simp: zipTryEncoding_def split: if_splits option.splits)
  consider (imm) "0 \<le> v" "v \<le> 12" "enc = ZIP_INT_IMM_MIN + nat v" | (i8) "- 128 \<le> v" "v \<le> 127" "enc = ZIP_INT_8B"
    | (i16) "- 32768 \<le> v" "v \<le> 32767" "enc = ZIP_INT_16B" | (i24) "- 8388608 \<le> v" "v \<le> 8388607" "enc = ZIP_INT_24B"
    | (i32) "- 2147483648 \<le> v" "v \<le> 2147483647" "enc = ZIP_INT_32B" | (i64) "enc = ZIP_INT_64B"
    using enc by (auto split: if_splits)
  then show ?thesis
  proof cases
    case imm
    then show ?thesis using imm_value [of "nat v"]
      by (auto simp: zipSaveInteger_def zipLoadInteger_def zipIntSize_def zip_consts)
  next
    case i8
    then show ?thesis using le_sval_le_bytes [of 1 v] by (simp add: zipSaveInteger_def zipLoadInteger_def zipIntSize_def zip_consts)
  next
    case i16
    then show ?thesis using le_sval_le_bytes [of 2 v] by (simp add: zipSaveInteger_def zipLoadInteger_def zipIntSize_def zip_consts)
  next
    case i24
    then show ?thesis using le_sval_24 [of v] by (simp add: zipSaveInteger_def zipLoadInteger_def zipIntSize_def zip_consts)
  next
    case i32
    then show ?thesis using le_sval_le_bytes [of 4 v] by (simp add: zipSaveInteger_def zipLoadInteger_def zipIntSize_def zip_consts)
  next
    case i64
    then show ?thesis using le_sval_le_bytes [of 8 v] ll by (simp add: zipSaveInteger_def zipLoadInteger_def zipIntSize_def zip_consts)
  qed
qed

section \<open>Entries\<close>

text \<open>The payload of an entry for the text \<open>s\<close>: header and data. The value \<open>ziplistGet\<close> gives for it.\<close>

definition senc :: "byte list \<Rightarrow> nat" where
  "senc s = (case zipTryEncoding s of Some (v, enc) \<Rightarrow> enc | None \<Rightarrow> 0)"

definition sdata :: "byte list \<Rightarrow> byte list" where
  "sdata s = (case zipTryEncoding s of
      Some (v, enc) \<Rightarrow> (case zipSaveInteger v enc of Inr bs \<Rightarrow> bs | Inl _ \<Rightarrow> []) | None \<Rightarrow> s)"

definition payload :: "byte list \<Rightarrow> byte list" where
  "payload s = zipEncodeLength (senc s) (length s) @ sdata s"

definition zvalue :: "byte list \<Rightarrow> zval" where
  "zvalue s = (case zipTryEncoding s of Some (v, enc) \<Rightarrow> ZInt v | None \<Rightarrow> ZStr s)"

text \<open>The previous-length field, in five bytes or one.\<close>

definition prevfield :: "bool \<Rightarrow> nat \<Rightarrow> byte list" where
  "prevfield b q = (if b then of_nat ZIP_BIGLEN # le_bytes 4 (int q) else [of_nat q])"

lemma prevfield_simps [simp]:
  "length (prevfield b q) = (if b then 5 else 1)" "prevfield b q \<noteq> []"
  "zipPrevEncodeLengthForceLarge q = prevfield True q" "zipPrevEncodeLength q = prevfield (254 \<le> q) q"
  by (auto simp: prevfield_def zipPrevEncodeLengthForceLarge_def zipPrevEncodeLength_def zip_consts)

lemma decode_prevfield:
  assumes "\<not> b \<Longrightarrow> q < 254" and "q < 2 ^ 32"
  shows "ZIP_DECODE_PREVLEN (prevfield b q @ R) 0 = Inr (if b then 5 else 1, q)"
    "ZIP_DECODE_PREVLENSIZE (prevfield b q @ R) 0 = Inr (if b then 5 else 1)"
    "\<exists>x. rd (prevfield b q @ R) 0 = Inr x \<and> x \<noteq> ZIP_END"
proof -
  have "le_val (le_bytes 4 (int q)) = int q" using assms(2) by (simp add: le_val_le_bytes)
  then show "ZIP_DECODE_PREVLEN (prevfield b q @ R) 0 = Inr (if b then 5 else 1, q)"
    "ZIP_DECODE_PREVLENSIZE (prevfield b q @ R) 0 = Inr (if b then 5 else 1)"
    "\<exists>x. rd (prevfield b q @ R) 0 = Inr x \<and> x \<noteq> ZIP_END"
    using assms(1) by (cases b; auto simp: prevfield_def ZIP_DECODE_PREVLEN_def ZIP_DECODE_PREVLENSIZE_def zip_consts)+
qed

lemma sdata_int:
  assumes "zipTryEncoding s = Some (v, enc)"
  shows "senc s = enc" "length (sdata s) = zipIntSize enc" "zipSaveInteger v enc = Inr (sdata s)"
    "zipLoadInteger (sdata s @ R) 0 enc = Inr v" "zipEncodeLength enc l = [of_nat enc]" "\<not> ZIP_IS_STR enc"
proof -
  have "enc < 256" "192 \<le> enc" using try_encoding_int [OF assms] by auto
  then show "\<not> ZIP_IS_STR enc" "zipEncodeLength enc l = [of_nat enc]"
    by (simp_all add: ZIP_IS_STR_iff zipEncodeLength_def)
  show "senc s = enc" "length (sdata s) = zipIntSize enc" "zipSaveInteger v enc = Inr (sdata s)"
    "zipLoadInteger (sdata s @ R) 0 enc = Inr v"
    using save_load [OF assms, of R] assms by (auto simp: senc_def sdata_def)
qed

lemma sdata_str:
  assumes "zipTryEncoding s = None"
  shows "senc s = 0" "sdata s = s"
  using assms by (simp_all add: senc_def sdata_def)

text \<open>The header of a payload is read back: the encoding, the header's size and the data's length.\<close>

lemma decode_payload:
  assumes "length s < 2 ^ 32"
  shows "\<exists>enc. ZIP_DECODE_LENGTH (payload s @ R) 0 = Inr (enc, length (zipEncodeLength (senc s) (length s)), length (sdata s)) \<and>
    enc < 256 \<and> ZIP_IS_STR enc = ZIP_IS_STR (senc s) \<and> (\<not> ZIP_IS_STR (senc s) \<longrightarrow> enc = senc s)"
proof (cases "zipTryEncoding s")
  case None
  obtain enc where "ZIP_DECODE_LENGTH (zipEncodeLength 0 (length s) @ (sdata s @ R)) 0 =
      Inr (enc, length (zipEncodeLength 0 (length s)), length s)" "enc < 192"
    using decode_string_header [OF assms, of "sdata s @ R"] by blast
  then show ?thesis using sdata_str [OF None] by (auto simp: payload_def ZIP_IS_STR_iff)
next
  case (Some p)
  obtain v enc where p: "zipTryEncoding s = Some (v, enc)" using Some by (cases p) auto
  have e: "enc < 255" "192 \<le> enc" using try_encoding_int [OF p] by auto
  then show ?thesis
    using sdata_int [OF p]
    by (simp add: payload_def ZIP_DECODE_LENGTH_def ZIP_ENTRY_ENCODING_def ZIP_STR_MASK_def)
qed

end
