(* ===== verification/Ziplist_Layout.thy ===== *)
theory Ziplist_Layout
  imports Ziplist_Entry
begin

text \<open>
  The layout of a ziplist: header, entries, end byte. An abstract ziplist is the list of its texts, each with
  the width of its previous-length field. Reading entries, the header fields and resizing are described
  on such layouts, and the cascading update is shown to restore one.
\<close>

section \<open>Layouts\<close>

type_synonym ent = "bool \<times> byte list"

definition elen :: "ent \<Rightarrow> nat" where
  "elen e = (if fst e then 5 else 1) + length (payload (snd e))"

definition ebytes :: "nat \<Rightarrow> ent \<Rightarrow> byte list" where
  "ebytes q e = prevfield (fst e) q @ payload (snd e)"

fun layout :: "nat \<Rightarrow> ent list \<Rightarrow> byte list" where
  "layout q [] = []"
| "layout q (e # es) = ebytes q e @ layout (elen e) es"

fun wf :: "nat \<Rightarrow> ent list \<Rightarrow> bool" where
  "wf q [] = True"
| "wf q (e # es) \<longleftrightarrow> (\<not> fst e \<longrightarrow> q < 254) \<and> wf (elen e) es"

definition after :: "nat \<Rightarrow> ent list \<Rightarrow> nat" where
  "after q es = (if es = [] then q else elen (last es))"

definition total :: "ent list \<Rightarrow> nat" where
  "total es = sum_list (map elen es)"

text \<open>Where the last entry begins.\<close>

definition lastoff :: "ent list \<Rightarrow> nat" where
  "lastoff es = total (butlast es)"

lemma total_simps [simp]: "total [] = 0" "total (e # es) = elen e + total es" "total (xs @ ys) = total xs + total ys"
  by (simp_all add: total_def)

lemma length_ebytes [simp]: "length (ebytes q e) = elen e"
  by (simp add: ebytes_def elen_def)

lemma length_layout [simp]: "length (layout q es) = total es"
  by (induction es arbitrary: q) simp_all

lemma after_simps [simp]: "after q [] = q" "after q (e # es) = after (elen e) es" "after q (xs @ ys) = after (after q xs) ys"
  by (simp_all add: after_def)

lemma layout_append [simp]: "layout q (xs @ ys) = layout q xs @ layout (after q xs) ys"
  by (induction xs arbitrary: q) simp_all

lemma wf_append [simp]: "wf q (xs @ ys) \<longleftrightarrow> wf q xs \<and> wf (after q xs) ys"
  by (induction xs arbitrary: q) auto

lemma lastoff_simps [simp]:
  "lastoff [] = 0" "lastoff [e] = 0" "lastoff (xs @ [e]) = total xs" "lastoff (e # d # es) = elen e + lastoff (d # es)"
  by (simp_all add: lastoff_def)

lemma lastoff_append: "ys \<noteq> [] \<Longrightarrow> lastoff (xs @ ys) = total xs + lastoff ys"
  by (simp add: lastoff_def butlast_append)

lemma payload_ge: "1 \<le> length (payload s)"
  by (simp add: payload_def zipEncodeLength_def)

lemma elen_ge: "2 \<le> elen e"
  using payload_ge [of "snd e"] by (simp add: elen_def)

lemma length_le_total: "length es \<le> total es"
proof (induction es)
  case (Cons e es)
  then show ?case using elen_ge [of e] by simp
qed simp

lemma after_le: "es \<noteq> [] \<Longrightarrow> after q es \<le> total es"
  by (cases es rule: rev_cases) simp_all

lemma payload_length_str: "zipTryEncoding s = None \<Longrightarrow> length s \<le> length (payload s)"
  by (simp add: payload_def sdata_str)

lemma slen_less: "length (payload s) < 2 ^ 32 \<Longrightarrow> length s < 2 ^ 32"
  using payload_length_str [of s] by (cases "zipTryEncoding s") (auto simp: zipTryEncoding_def split: if_splits)

section \<open>Reading entries\<close>

definition entry_of :: "nat \<Rightarrow> nat \<Rightarrow> ent \<Rightarrow> zlentry \<Rightarrow> bool" where
  "entry_of p q e z \<longleftrightarrow> prevrawlensize z = (if fst e then 5 else 1) \<and> prevrawlen z = q \<and>
     headersize z + zlen z = elen e \<and> zlen z = length (sdata (snd e)) \<and> encoding z < 256 \<and>
     ZIP_IS_STR (encoding z) = ZIP_IS_STR (senc (snd e)) \<and>
     (\<not> ZIP_IS_STR (senc (snd e)) \<longrightarrow> encoding z = senc (snd e)) \<and> zp z = p"

lemma rd_at: "rd (A @ X) (length A + k) = rd X k"
  using rd_drop [of "length A" "A @ X" k] by simp

lemma rdn_at: "rdn (A @ X) (length A + k) n = rdn X k n"
  using rdn_drop [of "length A" "A @ X" k n] by simp

lemma decode_length_at: "ZIP_DECODE_LENGTH (A @ X) (length A + k) = ZIP_DECODE_LENGTH X k"
  unfolding ZIP_DECODE_LENGTH_def by (simp only: add.assoc rd_at)

lemma decode_prevlensize_at: "ZIP_DECODE_PREVLENSIZE (A @ X) (length A + k) = ZIP_DECODE_PREVLENSIZE X k"
  unfolding ZIP_DECODE_PREVLENSIZE_def by (simp only: rd_at)

lemma decode_prevlen_at: "ZIP_DECODE_PREVLEN (A @ X) (length A + k) = ZIP_DECODE_PREVLEN X k"
  unfolding ZIP_DECODE_PREVLEN_def by (simp only: add.assoc rd_at rdn_at decode_prevlensize_at)

lemma load_at: "zipLoadInteger (A @ X) (length A + k) enc = zipLoadInteger X k enc"
  unfolding zipLoadInteger_def by (simp only: rdn_at)

text \<open>An entry in the middle of a block.\<close>

definition entry_ok :: "nat \<Rightarrow> ent \<Rightarrow> bool" where
  "entry_ok q e \<longleftrightarrow> (\<not> fst e \<longrightarrow> q < 254) \<and> q < 2 ^ 32 \<and> elen e < 2 ^ 32"

lemma entry_field:
  assumes "entry_ok q e"
  shows "ZIP_DECODE_PREVLEN (A @ ebytes q e @ R) (length A) = Inr (if fst e then 5 else 1, q)"
    "ZIP_DECODE_PREVLENSIZE (A @ ebytes q e @ R) (length A) = Inr (if fst e then 5 else 1)"
  using decode_prevfield [of "fst e" q "payload (snd e) @ R"] assms decode_prevlen_at [of A _ 0]
    decode_prevlensize_at [of A _ 0] by (simp_all add: ebytes_def entry_ok_def)

lemma entry_not_end: "entry_ok q e \<Longrightarrow> \<exists>x. rd (A @ ebytes q e @ R) (length A) = Inr x \<and> x \<noteq> ZIP_END"
  using decode_prevfield(3) [of "fst e" q "payload (snd e) @ R"] rd_at [of A _ 0] by (simp add: ebytes_def entry_ok_def)

lemma entry_body:
  assumes "entry_ok q e"
  shows "\<exists>enc. ZIP_DECODE_LENGTH (A @ ebytes q e @ R) (length A + (if fst e then 5 else 1)) =
      Inr (enc, length (zipEncodeLength (senc (snd e)) (length (snd e))), length (sdata (snd e))) \<and>
    enc < 256 \<and> ZIP_IS_STR enc = ZIP_IS_STR (senc (snd e)) \<and> (\<not> ZIP_IS_STR (senc (snd e)) \<longrightarrow> enc = senc (snd e))"
proof -
  have "length (snd e) < 2 ^ 32" using slen_less [of "snd e"] assms by (simp add: elen_def entry_ok_def)
  from decode_payload [OF this, of R] show ?thesis
    using decode_length_at [of "A @ prevfield (fst e) q" "payload (snd e) @ R" 0] by (simp add: ebytes_def)
qed

lemma entry_read:
  assumes "entry_ok q e"
  shows "\<exists>z. zipEntry (A @ ebytes q e @ R) (length A) = Inr z \<and> entry_of (length A) q e z"
  using entry_body [OF assms, of A R] entry_field(1) [OF assms, of A R]
  by (auto simp: zipEntry_def entry_of_def elen_def payload_def)

lemma entry_raw_length: "entry_ok q e \<Longrightarrow> zipRawEntryLength (A @ ebytes q e @ R) (length A) = Inr (elen e)"
  using entry_body [of q e A R] entry_field(2) [of q e A R] by (auto simp: zipRawEntryLength_def elen_def payload_def)

lemma entry_byte_diff:
  "entry_ok q e \<Longrightarrow> zipPrevLenByteDiff (A @ ebytes q e @ R) (length A) l =
    Inr (int (if 254 \<le> l then 5 else 1) - int (if fst e then 5 else 1))"
  using entry_field(2) [of q e A R] by (simp add: zipPrevLenByteDiff_def)

section \<open>Header and moves\<close>

definition hdr :: "nat \<Rightarrow> nat \<Rightarrow> nat \<Rightarrow> byte list" where
  "hdr n t c = le_bytes 4 (int n) @ le_bytes 4 (int t) @ le_bytes 2 (int c)"

lemma length_hdr [simp]: "length (hdr n t c) = 10"
  by (simp add: hdr_def)

lemma hdr_read:
  "n < 2 ^ 32 \<Longrightarrow> ZIPLIST_BYTES (hdr n t c @ X) = Inr n"
  "t < 2 ^ 32 \<Longrightarrow> ZIPLIST_TAIL_OFFSET (hdr n t c @ X) = Inr t"
  "c < 2 ^ 16 \<Longrightarrow> ZIPLIST_LENGTH (hdr n t c @ X) = Inr c"
  by (simp_all add: ZIPLIST_BYTES_def ZIPLIST_TAIL_OFFSET_def ZIPLIST_LENGTH_def hdr_def rdn_def le_val_le_bytes)

lemma wr_mid: "length B = length B' \<Longrightarrow> wr (A @ B @ C) (length A) B' = Inr (A @ B' @ C)"
  by (simp add: wr_def write_at_def)

lemma set_tail_hdr [simp]: "set_tail (hdr n t c @ X) (int t') = Inr (hdr n t' c @ X)"
  using wr_mid [of "le_bytes 4 (int t)" "le_bytes 4 (int t')" "le_bytes 4 (int n)" "le_bytes 2 (int c) @ X"]
  by (simp add: set_tail_def hdr_def)

lemma le_bytes_mod: "le_bytes n (v mod 256 ^ n) = le_bytes n v"
  by (metis le_bytes_le_val le_val_le_bytes length_le_bytes)

lemma incr_length_hdr:
  assumes "c < 2 ^ 16"
  shows "ZIPLIST_INCR_LENGTH (hdr n t c @ X) i =
    Inr (if c < 65535 then hdr n t (nat ((int c + i) mod 2 ^ 16)) @ X else hdr n t c @ X)"
proof -
  have "le_bytes 2 (int c + i) = le_bytes 2 (int (nat ((int c + i) mod 2 ^ 16)))"
    using le_bytes_mod [of 2 "int c + i"] by simp
  then show ?thesis
    using assms hdr_read(3) [OF assms] wr_mid [of "le_bytes 2 (int c)" "le_bytes 2 (int c + i)" "le_bytes 4 (int n) @ le_bytes 4 (int t)" X]
    by (simp add: ZIPLIST_INCR_LENGTH_def hdr_def UINT16_MAX_def)
qed

lemma memmove_split:
  assumes "U @ S @ V = U' @ M @ V'" and "length M = length S"
  shows "memmove (U @ S @ V) (length U') (length U) (length S) = Inr (U' @ S @ V')"
proof -
  have "rdn (U @ S @ V) (length U) (length S) = Inr S" by (simp add: rdn_def)
  then have "memmove (U @ S @ V) (length U') (length U) (length S) = wr (U @ S @ V) (length U') S"
    by (simp only: memmove_def rbind_simps)
  then show ?thesis unfolding assms(1) using wr_mid [OF assms(2)] by simp
qed

text \<open>Resizing keeps what lies before the new last byte, which becomes the end byte.\<close>

lemma resize_hdr:
  assumes "10 + m < 2 ^ 32" and "1 \<le> m" and "l = int (10 + m)"
  shows "\<exists>Y. ziplistResize g (hdr n t c @ X) l = Inr (hdr (10 + m) t c @ Y @ [255]) \<and> length Y = m - 1 \<and>
    (\<forall>k. k \<le> m - 1 \<longrightarrow> k \<le> length X \<longrightarrow> take k Y = take k X)"
proof -
  define zl where "zl = realloc_buf g (hdr n t c @ X) (10 + m)"
  define Z where "Z = drop 10 zl"
  have len: "length zl = 10 + m" "length Z = m" by (simp_all add: zl_def Z_def)
  have "take 10 zl = hdr n t c" by (simp add: zl_def)
  then have zl: "zl = hdr n t c @ Z" by (metis Z_def append_take_drop_id)
  have tz: "take k Z = take k X" if "k \<le> m" "k \<le> length X" for k
    using that by (simp add: Z_def zl_def realloc_buf_def take_drop add.commute)
  have w0: "wr zl 0 (le_bytes 4 (int (10 + m))) = Inr (hdr (10 + m) t c @ Z)"
    using wr_mid [of "le_bytes 4 (int n)" "le_bytes 4 (int (10 + m))" "[]"] by (simp add: zl hdr_def)
  obtain Y z where Y: "Z = Y @ [z]" "length Y = m - 1"
    using len(2) assms(2) by (cases Z rule: rev_cases) auto
  have "wr (hdr (10 + m) t c @ Z) (10 + m - 1) [255] = Inr (hdr (10 + m) t c @ Y @ [255])"
    using wr_mid [of "[z]" "[255]" "hdr (10 + m) t c @ Y" "[]"] Y assms(2) by simp
  moreover have "nat (to_u32 l) = 10 + m" using assms by (simp add: cint)
  ultimately have "ziplistResize g (hdr n t c @ X) l = Inr (hdr (10 + m) t c @ Y @ [255])"
    using w0 by (simp add: ziplistResize_def Let_def zl_def [symmetric] ZIP_END_def)
  moreover have "take k Y = take k X" if "k \<le> m - 1" "k \<le> length X" for k
    using tz [of k] that Y assms(2) by simp
  ultimately show ?thesis using Y(2) by blast
qed

end
