(* ===== verification/Ziplist_Ops.thy ===== *)
theory Ziplist_Ops
  imports Ziplist_Layout
begin

text \<open>
  The operations that move bytes: making room for an entry, closing the gap of deleted ones, and the cascade
  that widens previous-length fields behind them. Each takes a layout to a layout.
\<close>

section \<open>Cascading updates\<close>

declare ziplistCascadeUpdate.simps(2) [simp del]

text \<open>The fields a cascade behind an entry of length \<open>q\<close> widens.\<close>

fun fixp :: "nat \<Rightarrow> ent list \<Rightarrow> ent list" where
  "fixp q [] = []"
| "fixp q (e # es) = (if fst e \<or> q < 254 then e # es else (True, snd e) # fixp (elen (True, snd e)) es)"

lemma fixp_snd [simp]: "map snd (fixp q es) = map snd es"
  by (induction q es rule: fixp.induct) auto

lemma length_fixp [simp]: "length (fixp q es) = length es"
  using fixp_snd [of q es] by (metis length_map)

lemma fixp_wf: "wf q0 es \<Longrightarrow> wf q (fixp q es)"
  by (induction q es arbitrary: q0 rule: fixp.induct) auto

lemma fixp_id: "wf q es \<Longrightarrow> fixp q es = es"
  by (cases es) auto

lemma total_fixp: "total (fixp q es) \<le> total es + 4 * length es"
proof (induction q es rule: fixp.induct)
  case (2 q e es)
  then show ?case by (auto simp: elen_def)
qed simp

lemma hd_fixp_Nil [simp]: "fixp q es = [] \<longleftrightarrow> es = []"
  by (cases es) auto

lemma lastoff_le: "lastoff es \<le> total es"
  by (cases es rule: rev_cases) simp_all

lemma grow_field:
  assumes "zl = hdr n t c @ P @ F @ W @ [255]" and "length F = 1" and "length B = 5"
    and "n = length zl" and "n + 4 < 2 ^ 32" and "t + 4 < 2 ^ 32" and "np = 10 + length P"
  shows "rbind (ziplistResize g zl (int (n + 4))) (\<lambda>zl.
      rbind (ZIPLIST_TAIL_OFFSET zl) (\<lambda>t.
      rbind (if t \<noteq> np then set_tail zl (int (t + 4)) else Inr zl) (\<lambda>zl.
      rbind (memmove zl (np + 5) (np + 1) (nat (int n - int np - int 1 - 1))) (\<lambda>zl.
      rbind (wr zl np B) k)))) =
    k (hdr (n + 4) (if t \<noteq> np then t + 4 else t) c @ P @ B @ W @ [255])"
proof -
  define m where "m = length P + 1 + length W + 1 + 4"
  have len0: "length zl = 11 + length P + 1 + length W" by (subst assms(1)) (simp add: assms(2))
  then have n: "n + 4 = 10 + m" using assms(4) by (simp add: m_def)
  obtain Y where Y: "ziplistResize g zl (int (10 + m)) = Inr (hdr (10 + m) t c @ Y @ [255])" "length Y = m - 1"
    "\<forall>k. k \<le> m - 1 \<longrightarrow> k \<le> length (P @ F @ W @ [255]) \<longrightarrow> take k Y = take k (P @ F @ W @ [255])"
    using resize_hdr [of m "int (10 + m)" g n t c "P @ F @ W @ [255]"] n assms(1,5) by (auto simp: m_def)
  define J where "J = drop (length P + 1 + length W + 1) Y"
  have "take (length P + 1 + length W + 1) Y = P @ F @ W @ [255]" using Y(3) assms(2) by (simp add: m_def)
  then have Y': "Y = P @ F @ W @ [255] @ J" by (metis J_def append.assoc append_take_drop_id)
  define t' where "t' = (if t \<noteq> np then t + 4 else t)"
  define h where "h = hdr (10 + m) t' c"
  define K where "K = take 5 (F @ W @ [255] @ J)"
  define M where "M = drop 5 (F @ W @ [255] @ J)"
  have KM: "F @ W @ [255] @ J = K @ M" unfolding K_def M_def by (rule append_take_drop_id [symmetric])
  have len: "length K = 5" "length M = length W" using Y(2) Y' assms(2) by (simp_all add: K_def M_def m_def)
  have "(h @ P @ F) @ W @ (([255] @ J) @ [255]) = (h @ P @ K) @ M @ [255]"
    using arg_cong [OF KM, of "\<lambda>x. h @ P @ x @ [255]"] by simp
  from memmove_split [OF this len(2)]
  have "memmove (h @ Y @ [255]) (np + 5) (np + 1) (length W) = Inr (h @ P @ K @ W @ [255])"
    unfolding Y' using len(1) assms(2,7) by (simp add: h_def)
  moreover have "wr (h @ P @ K @ W @ [255]) np B = Inr (h @ P @ B @ W @ [255])"
    using wr_mid [of K B "h @ P" "W @ [255]"] len(1) assms(3,7) by (simp add: h_def)
  moreover have "nat (int n - int np - int 1 - 1) = length W" using len0 assms(4,7) by simp
  ultimately show ?thesis
    using Y(1) assms(6) set_tail_hdr [of "10 + m" t c "Y @ [255]" "t + 4"] unfolding n
    by (cases "t = np") (simp_all add: hdr_read h_def t'_def)
qed

lemma cascade_step_eq:
  assumes "entry_of p q e cur" and "entry_of (p + elen e) q0 d nxt"
    and "zipEntry zl p = Inr cur" and "zipEntry zl (p + elen e) = Inr nxt"
    and "\<exists>x. rd zl p = Inr x \<and> x \<noteq> ZIP_END" and "\<exists>x. rd zl (p + elen e) = Inr x \<and> x \<noteq> ZIP_END"
  shows "ziplistCascadeUpdate g (Suc k) n zl p =
    (if q0 = elen e then Inr zl
     else if \<not> fst d \<and> 254 \<le> elen e then
       rbind (ziplistResize g zl (int (n + 4))) (\<lambda>zl.
       rbind (ZIPLIST_TAIL_OFFSET zl) (\<lambda>t.
       rbind (if t \<noteq> p + elen e then set_tail zl (int (t + 4)) else Inr zl) (\<lambda>zl.
       rbind (memmove zl (p + elen e + 5) (p + elen e + 1) (nat (int n - int (p + elen e) - int 1 - 1))) (\<lambda>zl.
       rbind (wr zl (p + elen e) (prevfield True (elen e))) (\<lambda>zl.
         ziplistCascadeUpdate g k (n + 4) zl (p + elen e))))))
     else wr zl (p + elen e) (prevfield (fst d) (elen e)))"
proof -
  have c: "headersize cur + zlen cur = elen e" "prevrawlen nxt = q0" "prevrawlensize nxt = (if fst d then 5 else 1)"
    using assms(1,2) by (simp_all add: entry_of_def)
  obtain x y where xy: "rd zl p = Inr x" "x \<noteq> ZIP_END" "rd zl (p + elen e) = Inr y" "y \<noteq> ZIP_END" using assms(5,6) by blast
  consider "q0 = elen e" | "q0 \<noteq> elen e" "fst d" | "q0 \<noteq> elen e" "\<not> fst d" "254 \<le> elen e"
    | "q0 \<noteq> elen e" "\<not> fst d" "elen e < 254" by linarith
  then show ?thesis
    unfolding ziplistCascadeUpdate.simps xy(1) rbind_simps assms(3) if_not_P [OF xy(2)] c Let_def xy(3) if_not_P [OF xy(4)] assms(4)
    by cases (simp_all cong: if_cong)
qed

lemma entry_ok_tail: "wf q (e # es) \<Longrightarrow> q < 2 ^ 32 \<Longrightarrow> total (e # es) < 2 ^ 32 \<Longrightarrow> entry_ok q e"
  by (simp add: entry_ok_def)

lemma cascade_ok:
  assumes "zl = hdr n t c @ A @ ebytes q e @ layout q0 es @ [255]" and "n = length zl"
    and "entry_ok q e" and "wf q0 es" and "q0 < 2 ^ 32"
    and "t = 10 + length A + lastoff (e # es)" and "n + 4 * length es < 2 ^ 32" and "length es < k"
  shows "ziplistCascadeUpdate g k n zl (10 + length A) =
    Inr (hdr (10 + length A + elen e + total (fixp (elen e) es) + 1) (10 + length A + lastoff (e # fixp (elen e) es)) c @
      A @ ebytes q e @ layout (elen e) (fixp (elen e) es) @ [255])"
  using assms
proof (induction es arbitrary: zl n t A q e q0 k)
  case Nil
  obtain k' where k: "k = Suc k'" using Nil.prems(8) by (cases k) auto
  let ?A = "hdr n t c @ A"
  have at: "zl = ?A @ ebytes q e @ [255]" using Nil.prems(1) by simp
  obtain cur where cur: "zipEntry zl (10 + length A) = Inr cur" "entry_of (10 + length A) q e cur"
    using entry_read [OF Nil.prems(3), of ?A "[255]"] at by auto
  have "rd zl (10 + length A + elen e) = Inr ZIP_END"
    using rd_at [of "?A @ ebytes q e" "[255]" 0] at by (simp add: ZIP_END_def add.assoc)
  moreover obtain x where "rd zl (10 + length A) = Inr x" "x \<noteq> ZIP_END"
    using entry_not_end [OF Nil.prems(3), of ?A "[255]"] at by auto
  moreover have n: "n = 11 + length A + elen e" unfolding Nil.prems(2) by (subst at) simp
  moreover have "headersize cur + zlen cur = elen e" using cur(2) by (simp add: entry_of_def)
  ultimately have "ziplistCascadeUpdate g k n zl (10 + length A) = Inr zl"
    unfolding k ziplistCascadeUpdate.simps by (simp add: cur(1) Let_def)
  then show ?case using n Nil.prems(6) at by (simp add: add.assoc)
next
  case (Cons d es)
  obtain k' where k: "k = Suc k'" using Cons.prems(8) by (cases k) auto
  let ?A = "hdr n t c @ A" and ?R = "layout (elen d) es @ [255]" and ?p = "10 + length A"
  have len: "n = 11 + length A + elen e + elen d + total es" unfolding Cons.prems(2) by (subst Cons.prems(1)) simp
  have dok: "entry_ok q0 d" using Cons.prems(4,5,7) len by (simp add: entry_ok_def)
  have at: "zl = ?A @ ebytes q e @ (ebytes q0 d @ ?R)" "zl = (?A @ ebytes q e) @ ebytes q0 d @ ?R"
    using Cons.prems(1) by simp_all
  obtain cur where cur: "zipEntry zl ?p = Inr cur" "entry_of ?p q e cur"
    using entry_read [OF Cons.prems(3), of ?A "ebytes q0 d @ ?R"] at(1) by auto
  obtain nxt where nxt: "zipEntry zl (?p + elen e) = Inr nxt" "entry_of (?p + elen e) q0 d nxt"
    using entry_read [OF dok, of "?A @ ebytes q e" ?R] at(2) by (auto simp: add.assoc)
  have ne: "\<exists>x. rd zl ?p = Inr x \<and> x \<noteq> ZIP_END" "\<exists>x. rd zl (?p + elen e) = Inr x \<and> x \<noteq> ZIP_END"
    using entry_not_end [OF Cons.prems(3), of ?A "ebytes q0 d @ ?R"] entry_not_end [OF dok, of "?A @ ebytes q e" ?R] at
    by (simp_all add: add.assoc)
  note step = cascade_step_eq [OF cur(2) nxt(2) cur(1) nxt(1) ne, of g k' n]
  show ?case
  proof (cases "\<not> fst d \<and> 254 \<le> elen e")
    case False
    then have fx: "fixp (elen e) (d # es) = d # es" by auto
    have eb: "ebytes x d = prevfield (fst d) x @ payload (snd d)" for x by (simp add: ebytes_def)
    have "wr zl (?p + elen e) (prevfield (fst d) (elen e)) =
        Inr ((?A @ ebytes q e) @ prevfield (fst d) (elen e) @ payload (snd d) @ ?R)"
      using wr_mid [of "prevfield (fst d) q0" "prevfield (fst d) (elen e)" "?A @ ebytes q e" "payload (snd d) @ ?R"] at(2)
      by (simp add: eb add.assoc)
    moreover have "zl = (?A @ ebytes q e) @ prevfield (fst d) (elen e) @ payload (snd d) @ ?R" if "q0 = elen e"
      using at(2) that by (simp add: eb)
    ultimately have "ziplistCascadeUpdate g k n zl ?p =
        Inr ((?A @ ebytes q e) @ prevfield (fst d) (elen e) @ payload (snd d) @ ?R)"
      unfolding k step using False by auto
    then show ?thesis using fx Cons.prems(6) len by (simp add: eb add.assoc)
  next
    case True
    then have q0: "q0 \<noteq> elen e" using Cons.prems(4) by auto
    have fx: "fixp (elen e) (d # es) = (True, snd d) # fixp (elen (True, snd d)) es" using True by auto
    have el: "elen (True, snd d) = elen d + 4" using True by (simp add: elen_def)
    let ?t = "if t \<noteq> ?p + elen e then t + 4 else t"
    let ?zl = "hdr (n + 4) ?t c @ (A @ ebytes q e) @ ebytes (elen e) (True, snd d) @ layout (elen d) es @ [255]"
    have "zl = hdr n t c @ (A @ ebytes q e) @ prevfield False q0 @ (payload (snd d) @ layout (elen d) es) @ [255]"
      using Cons.prems(1) True by (simp add: ebytes_def)
    then have g: "ziplistCascadeUpdate g k n zl ?p = ziplistCascadeUpdate g k' (n + 4)
        (hdr (n + 4) ?t c @ (A @ ebytes q e) @ prevfield True (elen e) @ (payload (snd d) @ layout (elen d) es) @ [255])
        (?p + elen e)"
      unfolding k step if_not_P [OF q0] if_P [OF True]
      by (rule grow_field [OF _ _ _ Cons.prems(2)]) (use Cons.prems(6,7) len lastoff_le [of "d # es"] in simp_all)
    have "t = ?p + elen e + lastoff (d # es)" using Cons.prems(6) by simp
    then have t: "?t = 10 + length (A @ ebytes q e) + lastoff ((True, snd d) # es)"
      using el elen_ge [of d] by (cases es) auto
    have "length ?zl = n + 4" using len by (simp add: el)
    moreover have "entry_ok (elen e) (True, snd d)" using Cons.prems(7) len el by (simp add: entry_ok_def)
    ultimately have "ziplistCascadeUpdate g k' (n + 4) ?zl (10 + length (A @ ebytes q e)) =
        Inr (hdr (10 + length (A @ ebytes q e) + elen (True, snd d) + total (fixp (elen (True, snd d)) es) + 1)
          (10 + length (A @ ebytes q e) + lastoff ((True, snd d) # fixp (elen (True, snd d)) es)) c @
          (A @ ebytes q e) @ ebytes (elen e) (True, snd d) @ layout (elen (True, snd d)) (fixp (elen (True, snd d)) es) @ [255])"
      using Cons.prems(4,7,8) len t k by (intro Cons.IH) auto
    then show ?thesis unfolding g fx by (simp add: add.assoc ebytes_def [of "elen e" "(True, snd d)"])
  qed
qed

section \<open>Making room\<close>

text \<open>The entries behind a change: the first gets the width its new previous length needs, the rest is
  what the cascade leaves.\<close>

fun rejoin :: "nat \<Rightarrow> ent list \<Rightarrow> ent list" where
  "rejoin q [] = []"
| "rejoin q (e # es) = (254 \<le> q, snd e) # fixp (elen (254 \<le> q, snd e)) es"

lemma rejoin_snd [simp]: "map snd (rejoin q es) = map snd es"
  by (cases es) auto

lemma length_rejoin [simp]: "length (rejoin q es) = length es"
  by (cases es) auto

lemma rejoin_Nil [simp]: "rejoin q es = [] \<longleftrightarrow> es = []"
  by (cases es) auto

lemma rejoin_wf: "wf q0 es \<Longrightarrow> wf q (rejoin q es)"
  by (cases es) (auto intro: fixp_wf)

lemma total_rejoin: "total (rejoin q es) \<le> total es + 4 * length es"
proof (cases es)
  case (Cons e es')
  have "elen (254 \<le> q, snd e) \<le> elen e + 4" by (simp add: elen_def)
  then show ?thesis using Cons total_fixp [of "elen (254 \<le> q, snd e)" es'] by simp
qed simp

lemma split_suffix: "k \<le> length xs \<Longrightarrow> \<exists>U K. xs = U @ K \<and> length K = k"
  by (metis append_take_drop_id diff_diff_cancel length_drop)

lemma split_prefix: "k \<le> length xs \<Longrightarrow> \<exists>U K. xs = U @ K \<and> length U = k"
  by (metis append_take_drop_id length_take min.absorb2)

text \<open>Resizing by \<open>r + nd\<close>, moving the tail and rewriting the previous-length field of the first moved entry.\<close>

lemma make_room:
  assumes "zl = hdr n t c @ P @ F @ W @ [255]" and "n = length zl" and "F \<noteq> []" and "length B \<le> 10 + length F"
    and "nd = int (length B) - int (length F)" and "0 \<le> int r + nd" and "int n + int r + nd < 2 ^ 32"
    and "p = 10 + length P" and "n' = nat (int n + int r + nd)" and "1 \<le> r"
  shows "\<exists>zl1 zl2 J. ziplistResize g zl (int n + int r + nd) = Inr zl1 \<and> rd zl1 p = rd zl p \<and>
    memmove zl1 (p + r) (nat (int p - nd)) (nat (int n - int p - 1 + nd)) = Inr zl2 \<and> length J = r \<and>
    wr zl2 (p + r) B = Inr (hdr n' t c @ P @ J @ B @ W @ [255])"
proof -
  have n: "n = 11 + length P + length F + length W" unfolding assms(2) by (subst assms(1)) simp
  define m where "m = n' - 10"
  have m: "int (10 + m) = int n + int r + nd" "1 \<le> m" "n' = 10 + m"
    using n assms(6,9) by (auto simp: m_def)
  obtain Y where Y: "ziplistResize g zl (int n + int r + nd) = Inr (hdr n' t c @ Y @ [255])" "length Y = m - 1"
    "\<forall>k. k \<le> m - 1 \<longrightarrow> k \<le> length (P @ F @ W @ [255]) \<longrightarrow> take k Y = take k (P @ F @ W @ [255])"
    using resize_hdr [of m "int n + int r + nd" g n t c "P @ F @ W @ [255]"] m assms(1,7) by auto
  define k where "k = length P + length F + length W"
  have "k \<le> m - 1" using m n assms(6) by (simp add: k_def)
  then have "take k Y = P @ F @ W" using Y(3) by (simp add: k_def)
  moreover define J0 where "J0 = drop k Y"
  ultimately have Y': "Y = P @ F @ W @ J0" by (metis append.assoc append_take_drop_id)
  have lenJ0: "int (length J0) = int r + nd" using Y(2) Y' m n by (simp add: k_def)
  let ?h = "hdr n' t c"
  obtain U K where UK: "?h @ P @ F = U @ K" "length K = length B"
    using split_suffix [of "length B" "?h @ P @ F"] assms(4) by auto
  have "length (?h @ P @ F) = length U + length K" unfolding UK(1) by simp
  then have lenU: "int (length U) = int p - nd" using UK(2) assms(5,8) by simp
  have "r \<le> length (F @ W @ J0)" using lenJ0 assms(3,5,6) by (cases B; cases F) auto
  then obtain J M where JM: "F @ W @ J0 = J @ M" "length J = r" using split_prefix by blast
  have "length (F @ W @ J0) = length J + length M" unfolding JM(1) by simp
  then have lenM: "length M = length (K @ W)" using JM(2) UK(2) lenJ0 assms(5) by simp
  have zl1: "?h @ Y @ [255] = U @ (K @ W) @ (J0 @ [255])"
    unfolding Y' using arg_cong [OF UK(1), of "\<lambda>x. x @ W @ J0 @ [255]"] by simp
  have "?h @ Y @ [255] = ?h @ P @ (F @ W @ J0) @ [255]" unfolding Y' by simp
  also have "\<dots> = (?h @ P @ J) @ M @ [255]" unfolding JM(1) by simp
  finally have "U @ (K @ W) @ (J0 @ [255]) = (?h @ P @ J) @ M @ [255]" unfolding zl1 .
  note mv = memmove_split [OF this lenM]
  have e1: "length (?h @ P @ J) = p + r" "length U = nat (int p - nd)" "length (K @ W) = nat (int n - int p - 1 + nd)"
    using JM(2) lenU UK(2) n assms(5,8) by simp_all
  have mm: "memmove (?h @ Y @ [255]) (p + r) (nat (int p - nd)) (nat (int n - int p - 1 + nd)) = Inr ((?h @ P @ J) @ (K @ W) @ [255])"
    using mv unfolding zl1 [symmetric] e1 .
  have "wr ((?h @ P @ J) @ (K @ W) @ [255]) (p + r) B = Inr (?h @ P @ J @ B @ W @ [255])"
    using wr_mid [of K B "?h @ P @ J" "W @ [255]"] UK(2) JM(2) assms(8) by (simp add: add.assoc)
  moreover have "rd (?h @ Y @ [255]) p = rd zl p"
    using rd_at [of "?h @ P" "F @ W @ J0 @ [255]" 0] rd_at [of "hdr n t c @ P" "F @ W @ [255]" 0] assms(1,3,8) Y'
    by (cases F) simp_all
  ultimately show ?thesis using Y(1) mm JM(2) by blast
qed

text \<open>Writing the new entry into the room made for it.\<close>

lemma write_entry:
  assumes "length J = (if b then 5 else 1) + length (payload s)" and "p = length A"
  shows "rbind (wr (A @ J @ R) p (prevfield b q)) (\<lambda>zl.
      rbind (wr zl (p + length (prevfield b q)) (zipEncodeLength (senc s) (length s))) (\<lambda>zl.
      rbind (wr zl (p + length (prevfield b q) + length (zipEncodeLength (senc s) (length s))) (sdata s)) k)) =
    k (A @ ebytes q (b, s) @ R)"
proof -
  let ?F = "prevfield b q" and ?H = "zipEncodeLength (senc s) (length s)" and ?D = "sdata s"
  have "length J = length ?F + (length ?H + length ?D)" using assms(1) by (simp add: payload_def)
  then obtain J1 J2 J3 where J: "J = J1 @ J2 @ J3" "length J1 = length ?F" "length J2 = length ?H" "length J3 = length ?D"
    using split_prefix [of "length ?F" J] split_prefix [of "length ?H"] by (metis add_left_cancel le_add1 length_append)
  have "wr (A @ J @ R) p ?F = Inr (A @ ?F @ J2 @ J3 @ R)"
    using wr_mid [OF J(2), of A "J2 @ J3 @ R"] J(1) assms(2) by simp
  moreover have "wr (A @ ?F @ J2 @ J3 @ R) (p + length ?F) ?H = Inr (A @ ?F @ ?H @ J3 @ R)"
    using wr_mid [OF J(3), of "A @ ?F" "J3 @ R"] assms(2) by simp
  moreover have "wr (A @ ?F @ ?H @ J3 @ R) (p + length ?F + length ?H) ?D = Inr (A @ ?F @ ?H @ ?D @ R)"
    using wr_mid [OF J(4), of "A @ ?F @ ?H" R] assms(2) by (simp add: add.assoc)
  ultimately show ?thesis by (simp add: ebytes_def payload_def del: prevfield_simps(1))
qed

definition prev_length :: "byte list \<Rightarrow> nat \<Rightarrow> nat \<Rightarrow> (zl_error, nat) result" where
  "prev_length zl p b =
     (if b \<noteq> ZIP_END then rbind (zipEntry zl p) (\<lambda>e. Inr (prevrawlen e))
      else rbind (ZIPLIST_TAIL_OFFSET zl) (\<lambda>ptail.
           rbind (rd zl ptail) (\<lambda>t. if t \<noteq> ZIP_END then zipRawEntryLength zl ptail else Inr 0)))"

definition shift_tail :: "byte list \<Rightarrow> nat \<Rightarrow> nat \<Rightarrow> nat \<Rightarrow> int \<Rightarrow> nat \<Rightarrow> (zl_error, byte list) result" where
  "shift_tail zl p r curlen nd b =
     (if b \<noteq> ZIP_END then
         rbind (memmove zl (p + r) (nat (int p - nd)) (nat (int curlen - int p - 1 + nd))) (\<lambda>zl.
         rbind (wr zl (p + r) (zipPrevEncodeLength r)) (\<lambda>zl.
         rbind (ZIPLIST_TAIL_OFFSET zl) (\<lambda>t.
         rbind (set_tail zl (int (t + r))) (\<lambda>zl.
         rbind (zipEntry zl (p + r)) (\<lambda>tail.
         rbind (rd zl (p + r + headersize tail + zlen tail)) (\<lambda>b'.
         if b' \<noteq> ZIP_END then rbind (ZIPLIST_TAIL_OFFSET zl) (\<lambda>t. set_tail zl (int t + nd)) else Inr zl))))))
       else set_tail zl (int p))"

lemma insert_data:
  "(if ZIP_IS_STR (senc s) then Inr s
    else zipSaveInteger (case zipTryEncoding s of Some (v, e) \<Rightarrow> v | None \<Rightarrow> 123456789) (senc s)) = Inr (sdata s)"
proof (cases "zipTryEncoding s")
  case None
  then show ?thesis using sdata_str [OF None] by (simp add: ZIP_IS_STR_iff)
next
  case (Some p)
  then obtain v e where "zipTryEncoding s = Some (v, e)" by (cases p) auto
  then show ?thesis using sdata_int [of s v e] by simp
qed

lemma insert_data_length:
  "(case zipTryEncoding s of Some (v, enc) \<Rightarrow> zipIntSize enc | None \<Rightarrow> length s) = length (sdata s)"
proof (cases "zipTryEncoding s")
  case (Some p)
  then obtain v e where "zipTryEncoding s = Some (v, e)" by (cases p) auto
  then show ?thesis using sdata_int(2) [of s v e] by simp
qed (simp add: sdata_str)

lemma insert_unfold:
  "ziplistInsert0 g zl p s =
     rbind (ZIPLIST_BYTES zl) (\<lambda>curlen. rbind (rd zl p) (\<lambda>b. rbind (prev_length zl p b) (\<lambda>q.
     let r = elen (254 \<le> q, s) in
     rbind (if b \<noteq> ZIP_END then zipPrevLenByteDiff zl p r else Inr 0) (\<lambda>nd.
     rbind (ziplistResize g zl (int curlen + int r + nd)) (\<lambda>zl. rbind (rd zl p) (\<lambda>b.
     rbind (shift_tail zl p r curlen nd b) (\<lambda>zl.
     rbind (if nd \<noteq> 0 then cascade g zl (p + r) else Inr zl) (\<lambda>zl.
     rbind (wr zl p (prevfield (254 \<le> q) q)) (\<lambda>zl.
     rbind (wr zl (p + length (prevfield (254 \<le> q) q)) (zipEncodeLength (senc s) (length s))) (\<lambda>zl.
     rbind (wr zl (p + length (prevfield (254 \<le> q) q) + length (zipEncodeLength (senc s) (length s))) (sdata s)) (\<lambda>zl.
       ZIPLIST_INCR_LENGTH zl 1)))))))))))"
proof -
  have r: "(case zipTryEncoding s of Some (v, enc) \<Rightarrow> zipIntSize enc | None \<Rightarrow> length s) + length (zipPrevEncodeLength q) +
      length (zipEncodeLength (senc s) (length s)) = elen (254 \<le> q, s)" for q
    by (simp add: insert_data_length elen_def payload_def)
  show ?thesis
    unfolding ziplistInsert0_def Let_def senc_def [symmetric] r
    unfolding insert_data rbind_simps prev_length_def shift_tail_def prevfield_simps(4) ..
qed

section \<open>Insertion\<close>

definition zl_ok :: "byte list \<Rightarrow> ent list \<Rightarrow> bool" where
  "zl_ok zl es \<longleftrightarrow> (\<exists>c. zl = hdr (11 + total es) (10 + lastoff es) c @ layout 0 es @ [255] \<and> c < 2 ^ 16 \<and>
     (c < 65535 \<longrightarrow> c = length es)) \<and> wf 0 es \<and> 11 + total es < 2 ^ 32"

lemma prev_length_end:
  assumes "zl = hdr n (10 + lastoff xs) c @ layout 0 xs @ [255]" and "wf 0 xs" and "11 + total xs < 2 ^ 32"
  shows "prev_length zl (10 + total xs) ZIP_END = Inr (after 0 xs)"
proof (cases xs rule: rev_cases)
  case Nil
  then show ?thesis using assms rd_at [of "hdr n 10 c" "[255]" 0]
    by (simp add: prev_length_def hdr_read ZIP_END_def)
next
  case (snoc ys y)
  have ok: "entry_ok (after 0 ys) y" using assms(2,3) snoc after_le [of ys 0] by (cases "ys = []") (auto simp: entry_ok_def)
  let ?A = "hdr n (10 + total ys) c @ layout 0 ys"
  have zl: "zl = ?A @ ebytes (after 0 ys) y @ [255]" using assms(1) snoc by simp
  obtain x where "rd zl (10 + total ys) = Inr x" "x \<noteq> ZIP_END" using entry_not_end [OF ok, of ?A "[255]"] zl by auto
  moreover have "zipRawEntryLength zl (10 + total ys) = Inr (elen y)" using entry_raw_length [OF ok, of ?A "[255]"] zl by simp
  moreover have "ZIPLIST_TAIL_OFFSET zl = Inr (10 + total ys)" using assms(1,3) snoc by (simp add: hdr_read)
  ultimately show ?thesis using snoc by (simp add: prev_length_def)
qed

lemma cascade_layout:
  assumes "entry_ok q e" and "wf (elen d) es" and "elen d < 2 ^ 32" and "nd = int (elen e) - int (elen d)"
    and "11 + length A + elen e + total es + 4 * length es < 2 ^ 32"
  shows "(if nd \<noteq> 0 then cascade g (hdr (11 + length A + elen e + total es) (10 + length A + lastoff (e # es)) c @ A @ ebytes q e @
        layout (elen d) es @ [255]) (10 + length A)
      else Inr (hdr (11 + length A + elen e + total es) (10 + length A + lastoff (e # es)) c @ A @ ebytes q e @ layout (elen d) es @ [255])) =
    Inr (hdr (11 + length A + elen e + total (fixp (elen e) es)) (10 + length A + lastoff (e # fixp (elen e) es)) c @
      A @ ebytes q e @ layout (elen e) (fixp (elen e) es) @ [255])"
proof (cases "nd = 0")
  case True
  then show ?thesis using assms(2,4) fixp_id [of "elen e" es] by simp
next
  case False
  let ?zl = "hdr (11 + length A + elen e + total es) (10 + length A + lastoff (e # es)) c @ A @ ebytes q e @ layout (elen d) es @ [255]"
  have len: "length ?zl = 11 + length A + elen e + total es" by simp
  have "length es < length ?zl" using length_le_total [of es] len by simp
  from cascade_ok [of ?zl, OF refl len [symmetric] assms(1-3) refl assms(5) this, of g] False show ?thesis
    using assms(5) by (simp add: cascade_def hdr_read add.assoc add.commute [of 1])
qed

lemma shift_tail_ok:
  assumes "zl = hdr n t c @ P @ ebytes q y @ layout (elen y) ys @ [255]" and "n = length zl"
    and "entry_ok q y" and "t = 10 + length P + lastoff (y # ys)" and "p = 10 + length P" and "2 \<le> r"
    and "nd = int (if 254 \<le> r then 5 else 1) - int (if fst y then 5 else 1)" and "0 \<le> int r + nd"
    and "int n + int r + 4 < 2 ^ 32" and "e = (254 \<le> r, snd y)" and "wf (elen y) ys"
  shows "\<exists>zl1 J. ziplistResize g zl (int n + int r + nd) = Inr zl1 \<and> rd zl1 p = rd zl p \<and> length J = r \<and>
    (\<forall>b. b \<noteq> ZIP_END \<longrightarrow> shift_tail zl1 p r n nd b =
      Inr (hdr (11 + length (P @ J) + elen e + total ys) (10 + length (P @ J) + lastoff (e # ys)) c @
        (P @ J) @ ebytes r e @ layout (elen y) ys @ [255]))"
proof -
  let ?F = "prevfield (fst y) q" and ?W = "payload (snd y) @ layout (elen y) ys" and ?B = "prevfield (254 \<le> r) r"
  have n: "n = 11 + length P + elen y + total ys" unfolding assms(2) by (subst assms(1)) simp
  have el: "int (elen e) = int (elen y) + nd" using assms(7,10) by (simp add: elen_def)
  have zl: "zl = hdr n t c @ P @ ?F @ ?W @ [255]" using assms(1) by (simp add: ebytes_def)
  have small: "int n + int r + nd < 2 ^ 32" "length ?B \<le> 10 + length ?F" "nd = int (length ?B) - int (length ?F)" "1 \<le> r"
    using assms(6,7,9) by simp_all
  define n' where "n' = nat (int n + int r + nd)"
  have n': "n' = 11 + (length P + r) + elen e + total ys" using n el assms(8) by (simp add: n'_def)
  from make_room [OF zl assms(2) prevfield_simps(2) small(2,3) assms(8) small(1) assms(5) n'_def small(4), of g]
  obtain zl1 zl2 J where zl1: "ziplistResize g zl (int n + int r + nd) = Inr zl1" "rd zl1 p = rd zl p"
    and zl2: "memmove zl1 (p + r) (nat (int p - nd)) (nat (int n - int p - 1 + nd)) = Inr zl2" "length J = r"
      "wr zl2 (p + r) ?B = Inr (hdr n' t c @ P @ J @ ?B @ ?W @ [255])" by blast
  define X where "X = (P @ J) @ ebytes r e @ layout (elen y) ys @ [255]"
  have X: "P @ J @ ?B @ ?W @ [255] = X" by (simp add: X_def ebytes_def assms(10))
  have "nd \<le> 4" using assms(7) by simp
  then have eok: "entry_ok r e" using assms(9,10) n el by (simp add: entry_ok_def)
  have pr: "p + r = length (hdr n' (t + r) c @ P @ J)" using assms(5) zl2(2) by simp
  have at: "hdr n' (t + r) c @ X = (hdr n' (t + r) c @ P @ J) @ ebytes r e @ layout (elen y) ys @ [255]" by (simp add: X_def)
  obtain z where z: "zipEntry (hdr n' (t + r) c @ X) (p + r) = Inr z" "headersize z + zlen z = elen e"
    using entry_read [OF eok, of "hdr n' (t + r) c @ P @ J" "layout (elen y) ys @ [255]"] unfolding at pr by (auto simp: entry_of_def)
  have rd': "rd (hdr n' (t + r) c @ X) (p + r + headersize z + zlen z) = rd (layout (elen y) ys @ [255]) 0"
    using rd_at [of "(hdr n' (t + r) c @ P @ J) @ ebytes r e" "layout (elen y) ys @ [255]" 0] z(2) unfolding at pr
    by (simp add: add.assoc)
  have tt: "t + r < 2 ^ 32" "t < 2 ^ 32" using assms(4,9) n lastoff_le [of "y # ys"] by simp_all
  have fin: "(if x \<noteq> ZIP_END then rbind (ZIPLIST_TAIL_OFFSET (hdr n' (t + r) c @ X)) (\<lambda>u. set_tail (hdr n' (t + r) c @ X) (int u + nd))
      else Inr (hdr n' (t + r) c @ X)) = Inr (hdr n' (10 + length (P @ J) + lastoff (e # ys)) c @ X)"
    if "rd (layout (elen y) ys @ [255]) 0 = Inr x" for x
  proof (cases ys)
    case Nil
    then show ?thesis using that assms(4) zl2(2) by (simp add: ZIP_END_def add.assoc)
  next
    case (Cons d ds)
    have "entry_ok (elen y) d" using assms(11) Cons n assms(9) by (simp add: entry_ok_def)
    then have "x \<noteq> ZIP_END" using entry_not_end [of "elen y" d "[]" "layout (elen d) ds @ [255]"] that Cons by auto
    moreover have "int (t + r) + nd = int (10 + length (P @ J) + lastoff (e # ys))"
      using assms(4) Cons el zl2(2) by simp
    ultimately show ?thesis using tt set_tail_hdr [of n' "t + r" c X "10 + length (P @ J) + lastoff (e # ys)"]
      by (simp add: hdr_read)
  qed
  have "\<exists>x. rd (layout (elen y) ys @ [255]) 0 = Inr x"
    by (cases "layout (elen y) ys") simp_all
  then obtain x where x: "rd (layout (elen y) ys @ [255]) 0 = Inr x" by blast
  have "shift_tail zl1 p r n nd b = Inr (hdr n' (10 + length (P @ J) + lastoff (e # ys)) c @ X)" if "b \<noteq> ZIP_END" for b
    using that zl2(1) zl2(3) [unfolded X] tt(2) z(1) rd' x fin [OF x] set_tail_hdr [of n' t c X "t + r"]
    by (simp add: shift_tail_def hdr_read)
  then show ?thesis using zl1 zl2(2) n' by (auto simp: X_def)
qed

text \<open>An insertion is safe unless it would narrow the next field by more bytes than the new entry needs.\<close>

definition room_kept :: "nat \<Rightarrow> ent list \<Rightarrow> bool" where
  "room_kept r ys \<longleftrightarrow> (case ys of [] \<Rightarrow> True | y # _ \<Rightarrow> \<not> fst y \<or> 4 \<le> r)"

lemma count_incr:
  assumes "c < 2 ^ 16" and "c < 65535 \<longrightarrow> c = k"
  shows "\<exists>c'. ZIPLIST_INCR_LENGTH (hdr n t c @ X) 1 = Inr (hdr n t c' @ X) \<and> c' < 2 ^ 16 \<and> (c' < 65535 \<longrightarrow> c' = k + 1)"
proof (cases "c < 65535")
  case True
  then have "nat ((int c + 1) mod 2 ^ 16) = c + 1" by simp
  then show ?thesis using True incr_length_hdr [OF assms(1), of n t X 1] assms(2) by auto
qed (use assms incr_length_hdr [OF assms(1), of n t X 1] in auto)

lemma insert_finish:
  assumes "length J = elen (254 \<le> q, s)" and "c < 2 ^ 16" and "c < 65535 \<longrightarrow> c = k" and "p = 10 + length P"
  shows "\<exists>c'. rbind (wr (hdr n t c @ (P @ J) @ R) p (prevfield (254 \<le> q) q)) (\<lambda>zl.
      rbind (wr zl (p + length (prevfield (254 \<le> q) q)) (zipEncodeLength (senc s) (length s))) (\<lambda>zl.
      rbind (wr zl (p + length (prevfield (254 \<le> q) q) + length (zipEncodeLength (senc s) (length s))) (sdata s)) (\<lambda>zl.
        ZIPLIST_INCR_LENGTH zl 1))) = Inr (hdr n t c' @ P @ ebytes q (254 \<le> q, s) @ R) \<and>
      c' < 2 ^ 16 \<and> (c' < 65535 \<longrightarrow> c' = k + 1)"
proof -
  obtain c' where c': "ZIPLIST_INCR_LENGTH (hdr n t c @ P @ ebytes q (254 \<le> q, s) @ R) 1 = Inr (hdr n t c' @ P @ ebytes q (254 \<le> q, s) @ R)"
    "c' < 2 ^ 16" "c' < 65535 \<longrightarrow> c' = k + 1" using count_incr [OF assms(2,3)] by blast
  have "length J = (if 254 \<le> q then 5 else 1) + length (payload s)" "p = length (hdr n t c @ P)"
    using assms(1,4) by (simp_all add: elen_def)
  from write_entry [OF this, of R q "\<lambda>zl. ZIPLIST_INCR_LENGTH zl 1"] c' show ?thesis by (intro exI [of _ c']) simp
qed

lemma insert_end_ok:
  assumes "zl_ok zl xs" and "11 + total xs + elen (254 \<le> after 0 xs, s) < 2 ^ 32"
  shows "\<exists>zl'. ziplistInsert0 g zl (10 + total xs) s = Inr zl' \<and> zl_ok zl' (xs @ [(254 \<le> after 0 xs, s)])"
proof -
  let ?P = "layout 0 xs" and ?q = "after 0 xs" and ?p = "10 + total xs"
  define r where "r = elen (254 \<le> ?q, s)"
  define n where "n = 11 + total xs"
  obtain c where zl: "zl = hdr n (10 + lastoff xs) c @ ?P @ [255]" "c < 2 ^ 16" "c < 65535 \<longrightarrow> c = length xs" "wf 0 xs"
    "11 + total xs < 2 ^ 32" using assms(1) by (auto simp: zl_ok_def n_def)
  have b: "rd zl ?p = Inr ZIP_END" using rd_at [of "hdr n (10 + lastoff xs) c @ ?P" "[255]" 0] zl(1) by (simp add: ZIP_END_def)
  have q: "prev_length zl ?p ZIP_END = Inr ?q" using prev_length_end [OF zl(1,4,5)] .
  have r2: "2 \<le> r" using elen_ge by (simp add: r_def)
  have s: "10 + (total xs + 1 + r) < 2 ^ 32" "1 \<le> total xs + 1 + r" "int n + int r + 0 = int (10 + (total xs + 1 + r))"
    using assms(2) by (simp_all add: r_def n_def)
  obtain Y where Y: "ziplistResize g zl (int n + int r + 0) = Inr (hdr (10 + (total xs + 1 + r)) (10 + lastoff xs) c @ Y @ [255])"
    "length Y = total xs + r" "\<forall>k. k \<le> total xs + r \<longrightarrow> k \<le> length (?P @ [255]) \<longrightarrow> take k Y = take k (?P @ [255])"
    using resize_hdr [OF s, of g n "10 + lastoff xs" c "?P @ [255]"] zl(1) by auto
  define J where "J = 255 # drop (total xs + 1) Y"
  have "take (total xs + 1) Y = ?P @ [255]" using Y(3) r2 by simp
  then have Y1: "Y = ?P @ J" using append_take_drop_id [of "total xs + 1" Y] by (simp add: J_def)
  then have Y': "Y = ?P @ J" "length J = r" using Y(2) by simp_all
  define zl1 where "zl1 = hdr (11 + total xs + r) (10 + lastoff xs) c @ (?P @ J) @ [255]"
  have rs: "ziplistResize g zl (int n + int r + 0) = Inr zl1" using Y(1) Y' by (simp add: zl1_def add.assoc)
  have b1: "rd zl1 ?p = Inr ZIP_END"
    using rd_at [of "hdr (11 + total xs + r) (10 + lastoff xs) c @ ?P" "J @ [255]" 0]
    by (simp add: zl1_def ZIP_END_def J_def)
  have st: "shift_tail zl1 ?p r n 0 ZIP_END = Inr (hdr (11 + total xs + r) ?p c @ (?P @ J) @ [255])"
    using set_tail_hdr [of "11 + total xs + r" "10 + lastoff xs" c "(?P @ J) @ [255]" ?p] by (simp add: shift_tail_def zl1_def)
  have p: "?p = 10 + length ?P" by simp
  obtain c' where c': "rbind (wr (hdr (11 + total xs + r) ?p c @ (?P @ J) @ [255]) ?p (prevfield (254 \<le> ?q) ?q)) (\<lambda>zl.
      rbind (wr zl (?p + length (prevfield (254 \<le> ?q) ?q)) (zipEncodeLength (senc s) (length s))) (\<lambda>zl.
      rbind (wr zl (?p + length (prevfield (254 \<le> ?q) ?q) + length (zipEncodeLength (senc s) (length s))) (sdata s)) (\<lambda>zl.
        ZIPLIST_INCR_LENGTH zl 1))) = Inr (hdr (11 + total xs + r) ?p c' @ ?P @ ebytes ?q (254 \<le> ?q, s) @ [255])"
      "c' < 2 ^ 16" "c' < 65535 \<longrightarrow> c' = length xs + 1"
    using insert_finish [OF Y'(2) [unfolded r_def] zl(2,3) p, of "11 + total xs + r" ?p "[255]"] by blast
  have bytes: "ZIPLIST_BYTES zl = Inr n" using zl(1,5) hdr_read(1) by (simp add: n_def)
  have "ziplistInsert0 g zl ?p s = Inr (hdr (11 + total xs + r) ?p c' @ ?P @ ebytes ?q (254 \<le> ?q, s) @ [255])"
    unfolding insert_unfold bytes rbind_simps b q Let_def r_def [symmetric] not_not if_not_P [OF not_not [THEN iffD2, OF refl]]
    using rs b1 st c'(1) by (simp del: prevfield_simps(1))
  moreover have "zl_ok (hdr (11 + total xs + r) ?p c' @ ?P @ ebytes ?q (254 \<le> ?q, s) @ [255]) (xs @ [(254 \<le> ?q, s)])"
    using zl(4) assms(2) c'(2,3) by (auto simp: zl_ok_def r_def add.assoc intro!: exI [of _ c'])
  ultimately show ?thesis by blast
qed

lemma insert_mid_ok:
  assumes "zl_ok zl (xs @ y # ys)" and "room_kept (elen (254 \<le> after 0 xs, s)) (y # ys)"
    and "11 + total (xs @ y # ys) + elen (254 \<le> after 0 xs, s) + 4 * (length ys + 1) < 2 ^ 32"
  shows "\<exists>zl'. ziplistInsert0 g zl (10 + total xs) s = Inr zl' \<and>
    zl_ok zl' (xs @ (254 \<le> after 0 xs, s) # rejoin (elen (254 \<le> after 0 xs, s)) (y # ys))"
proof -
  let ?P = "layout 0 xs" and ?q = "after 0 xs" and ?p = "10 + total xs"
  define r where "r = elen (254 \<le> ?q, s)"
  define n where "n = 11 + total (xs @ y # ys)"
  define t where "t = 10 + lastoff (xs @ y # ys)"
  define e where "e = (254 \<le> r, snd y)"
  define nd where "nd = int (if 254 \<le> r then 5 else 1) - int (if fst y then 5 else 1)"
  obtain c where zl: "zl = hdr n t c @ ?P @ ebytes ?q y @ layout (elen y) ys @ [255]" "c < 2 ^ 16"
    "c < 65535 \<longrightarrow> c = length (xs @ y # ys)" "wf 0 (xs @ y # ys)"
    using assms(1) by (auto simp: zl_ok_def n_def t_def)
  have lim: "n + r + 4 * (length ys + 1) < 2 ^ 32" using assms(3) by (simp add: n_def r_def)
  have yok: "entry_ok ?q y" "wf (elen y) ys" using zl(4) assms(3) after_le [of xs 0] by (cases "xs = []", auto simp: entry_ok_def)+
  have len: "n = length zl" unfolding zl(1) by (simp add: n_def)
  have t: "t = 10 + length ?P + lastoff (y # ys)" by (simp add: t_def lastoff_append)
  have r2: "2 \<le> r" using elen_ge by (simp add: r_def)
  have nn: "0 \<le> int r + nd" using assms(2) r2 by (auto simp: room_kept_def nd_def r_def split: if_splits)
  have el: "nd = int (elen e) - int (elen y)" by (simp add: nd_def e_def elen_def)
  have nd4: "nd \<le> 4" by (simp add: nd_def)
  have p: "?p = 10 + length ?P" by simp
  have small: "int n + int r + 4 < 2 ^ 32" using lim by simp
  from shift_tail_ok [OF zl(1) len yok(1) t p r2 nd_def nn small e_def yok(2), of g]
  obtain zl1 J where zl1: "ziplistResize g zl (int n + int r + nd) = Inr zl1" "rd zl1 ?p = rd zl ?p" "length J = r"
    "\<forall>b. b \<noteq> ZIP_END \<longrightarrow> shift_tail zl1 ?p r n nd b =
      Inr (hdr (11 + length (?P @ J) + elen e + total ys) (10 + length (?P @ J) + lastoff (e # ys)) c @
        (?P @ J) @ ebytes r e @ layout (elen y) ys @ [255])" by blast
  have eok: "entry_ok r e" using lim el nd4 by (simp add: entry_ok_def e_def n_def)
  have lim2: "11 + length (?P @ J) + elen e + total ys + 4 * length ys < 2 ^ 32"
    using lim el nd4 zl1(3) by (simp add: n_def)
  have ely: "elen y < 2 ^ 32" using lim by (simp add: n_def)
  define es where "es = e # fixp (elen e) ys"
  define N T where "N = 11 + total xs + r + total es" and "T = 10 + total xs + r + lastoff es"
  note ca = cascade_layout [OF eok yok(2) ely el lim2, of g c, folded es_def]
  obtain c' where c': "rbind (wr (hdr N T c @ (?P @ J) @ layout r es @ [255]) ?p (prevfield (254 \<le> ?q) ?q)) (\<lambda>zl.
      rbind (wr zl (?p + length (prevfield (254 \<le> ?q) ?q)) (zipEncodeLength (senc s) (length s))) (\<lambda>zl.
      rbind (wr zl (?p + length (prevfield (254 \<le> ?q) ?q) + length (zipEncodeLength (senc s) (length s))) (sdata s)) (\<lambda>zl.
        ZIPLIST_INCR_LENGTH zl 1))) = Inr (hdr N T c' @ ?P @ ebytes ?q (254 \<le> ?q, s) @ layout r es @ [255])"
      "c' < 2 ^ 16" "c' < 65535 \<longrightarrow> c' = length (xs @ y # ys) + 1"
    using insert_finish [OF zl1(3) [unfolded r_def] zl(2,3) p, of N T "layout r es @ [255]"] by blast
  obtain b where b: "rd zl ?p = Inr b" "b \<noteq> ZIP_END"
    using entry_not_end [OF yok(1), of "hdr n t c @ ?P" "layout (elen y) ys @ [255]"] zl(1) by auto
  obtain z where z: "zipEntry zl ?p = Inr z" "prevrawlen z = ?q"
    using entry_read [OF yok(1), of "hdr n t c @ ?P" "layout (elen y) ys @ [255]"] zl(1) by (auto simp: entry_of_def)
  have q: "prev_length zl ?p b = Inr ?q" using b z by (simp add: prev_length_def)
  have bd: "zipPrevLenByteDiff zl ?p r = Inr nd"
    using entry_byte_diff [OF yok(1), of "hdr n t c @ ?P" "layout (elen y) ys @ [255]" r] zl(1) by (simp add: nd_def)
  have bytes: "ZIPLIST_BYTES zl = Inr n" using zl(1) hdr_read(1) lim by simp
  have ca': "(if nd \<noteq> 0 then cascade g (hdr (11 + length (?P @ J) + elen e + total ys) (10 + length (?P @ J) + lastoff (e # ys)) c @
      (?P @ J) @ ebytes r e @ layout (elen y) ys @ [255]) (?p + r)
    else Inr (hdr (11 + length (?P @ J) + elen e + total ys) (10 + length (?P @ J) + lastoff (e # ys)) c @
      (?P @ J) @ ebytes r e @ layout (elen y) ys @ [255])) = Inr (hdr N T c @ (?P @ J) @ layout r es @ [255])"
  proof -
    have "?p + r = 10 + length (?P @ J)" "N = 11 + length (?P @ J) + elen e + total (fixp (elen e) ys)"
      "T = 10 + length (?P @ J) + lastoff es" "ebytes r e @ layout (elen e) (fixp (elen e) ys) @ [255] = layout r es @ [255]"
      using zl1(3) by (simp_all add: N_def T_def es_def)
    then show ?thesis using ca by (simp only:)
  qed
  have "ziplistInsert0 g zl ?p s = Inr (hdr N T c' @ ?P @ ebytes ?q (254 \<le> ?q, s) @ layout r es @ [255])"
    unfolding insert_unfold bytes rbind_simps b(1) q Let_def r_def [symmetric] if_P [OF b(2)] bd zl1(1,2)
      zl1(4) [rule_format, OF b(2)] ca' c'(1) ..
  moreover have "zl_ok (hdr N T c' @ ?P @ ebytes ?q (254 \<le> ?q, s) @ layout r es @ [255]) (xs @ (254 \<le> ?q, s) # es)"
  proof -
    have "wf r es" using rejoin_wf [of ?q "y # ys" r] zl(4) by (simp add: es_def e_def)
    moreover have "total es \<le> total (y # ys) + 4 * length (y # ys)"
      using total_rejoin [of r "y # ys"] by (simp add: es_def e_def)
    moreover have "lastoff (xs @ (254 \<le> ?q, s) # es) = total xs + r + lastoff es"
      using lastoff_append [of es "xs @ [(254 \<le> ?q, s)]"] by (simp add: es_def r_def)
    moreover have "length es = length ys + 1" by (simp add: es_def)
    ultimately show ?thesis
      using zl(4) lim c'(2,3) unfolding zl_ok_def
      by (intro conjI exI [of _ c']) (auto simp: N_def T_def r_def n_def add.assoc)
  qed
  moreover have "rejoin r (y # ys) = es" by (simp add: es_def e_def)
  ultimately show ?thesis by (auto simp: r_def)
qed

lemma insert_ok:
  assumes "zl_ok zl (xs @ ys)" and "room_kept (elen (254 \<le> after 0 xs, s)) ys"
    and "11 + total (xs @ ys) + elen (254 \<le> after 0 xs, s) + 4 * length ys < 2 ^ 32"
  shows "\<exists>zl'. ziplistInsert0 g zl (10 + total xs) s = Inr zl' \<and>
    zl_ok zl' (xs @ (254 \<le> after 0 xs, s) # rejoin (elen (254 \<le> after 0 xs, s)) ys)"
  using assms insert_end_ok [of zl xs s g] insert_mid_ok [of zl xs _ _ s g] by (cases ys) auto

section \<open>Deletion\<close>

lemma advance_ok:
  "wf q ds \<Longrightarrow> q < 2 ^ 32 \<Longrightarrow> total ds < 2 ^ 32 \<Longrightarrow> num = length ds \<or> R = [255] \<and> length ds \<le> num \<Longrightarrow>
    advance (A @ layout q ds @ R) num (length A) = Inr (length A + total ds, length ds)"
proof (induction ds arbitrary: q A num)
  case Nil
  then show ?case using rd_at [of A R 0] by (cases num) (auto simp: ZIP_END_def)
next
  case (Cons d ds)
  obtain k where k: "num = Suc k" using Cons.prems(4) by (cases num) auto
  have ok: "entry_ok q d" using Cons.prems by (simp add: entry_ok_def)
  obtain x where x: "rd (A @ ebytes q d @ layout (elen d) ds @ R) (length A) = Inr x" "x \<noteq> ZIP_END"
    using entry_not_end [OF ok] by blast
  have "advance ((A @ ebytes q d) @ layout (elen d) ds @ R) k (length (A @ ebytes q d)) =
      Inr (length (A @ ebytes q d) + total ds, length ds)"
    using Cons.prems k by (intro Cons.IH) auto
  then show ?case using x entry_raw_length [OF ok, of A "layout (elen d) ds @ R"] k by (simp add: add.assoc)
qed

lemma close_gap:
  assumes "zl = hdr n t c @ P @ D @ F @ W @ [255]" and "n = length zl" and "n < 2 ^ 32"
    and "nd = int (length B) - int (length F)" and "nd \<le> int (length D)" and "p = 10 + length P + length D"
    and "p' = nat (int p - nd)" and "n' = 11 + length P + length B + length W"
  shows "\<exists>D'. wr zl p' B = Inr (hdr n t c @ P @ D' @ B @ W @ [255]) \<and> p' = length (hdr n t c @ P @ D') \<and>
    (\<forall>t2. \<exists>V. memmove (hdr n t2 c @ P @ D' @ B @ W @ [255]) (10 + length P) p' (nat (int n - int p' - 1)) =
       Inr (hdr n t2 c @ P @ B @ W @ V) \<and>
     ziplistResize g (hdr n t2 c @ P @ B @ W @ V) (int n - int (length D) + nd) = Inr (hdr n' t2 c @ P @ B @ W @ [255]))"
proof -
  have n: "n = 11 + length P + length D + length F + length W" unfolding assms(2) by (subst assms(1)) simp
  have "length B \<le> length (D @ F)" using assms(4,5) by simp
  then obtain D' K where DK: "D @ F = D' @ K" "length K = length B" using split_suffix by blast
  have "length (D @ F) = length D' + length K" unfolding DK(1) by simp
  then have len: "int (length D') = int (length D) - nd" using DK(2) assms(4) by simp
  have p': "p' = 10 + length P + length D'" using len assms(5-7) by simp
  have zl: "zl = (hdr n t c @ P @ D') @ K @ W @ [255]"
    using assms(1) arg_cong [OF DK(1), of "\<lambda>x. hdr n t c @ P @ x @ W @ [255]"] by simp
  have w: "wr zl p' B = Inr (hdr n t c @ P @ D' @ B @ W @ [255])"
    using wr_mid [OF DK(2), of "hdr n t c @ P @ D'" "W @ [255]"] p' zl by (simp add: add.assoc)
  have m: "\<exists>V. memmove (hdr n t2 c @ P @ D' @ B @ W @ [255]) (10 + length P) p' (nat (int n - int p' - 1)) =
       Inr (hdr n t2 c @ P @ B @ W @ V) \<and>
     ziplistResize g (hdr n t2 c @ P @ B @ W @ V) (int n - int (length D) + nd) = Inr (hdr n' t2 c @ P @ B @ W @ [255])" for t2
  proof -
    have "length (B @ W) \<le> length (D' @ B @ W @ [255])" by simp
    then obtain M V where MV: "D' @ B @ W @ [255] = M @ V" "length M = length (B @ W)" using split_prefix by blast
    have "(hdr n t2 c @ P @ D') @ (B @ W) @ [255] = (hdr n t2 c @ P) @ M @ V"
      using arg_cong [OF MV(1), of "\<lambda>x. hdr n t2 c @ P @ x"] by simp
    from memmove_split [OF this MV(2)]
    have mm: "memmove (hdr n t2 c @ P @ D' @ B @ W @ [255]) (10 + length P) p' (nat (int n - int p' - 1)) =
       Inr (hdr n t2 c @ P @ B @ W @ V)"
    proof -
      have "nat (int n - int p' - 1) = length (B @ W)" using n p' len assms(4) by simp
      then show ?thesis using \<open>memmove _ _ _ _ = _\<close> p' by (simp add: add.assoc)
    qed
    define m where "m = n' - 10"
    have m: "10 + m = n'" "1 \<le> m" "int n - int (length D) + nd = int (10 + m)" "m - 1 = length (P @ B @ W)"
      using n assms(4,8) by (simp_all add: m_def)
    have "n' < 2 ^ 32" using assms(3-5,8) n by simp
    then obtain Y where Y: "ziplistResize g (hdr n t2 c @ P @ B @ W @ V) (int n - int (length D) + nd) = Inr (hdr n' t2 c @ Y @ [255])"
      "length Y = m - 1" "\<forall>k. k \<le> m - 1 \<longrightarrow> k \<le> length (P @ B @ W @ V) \<longrightarrow> take k Y = take k (P @ B @ W @ V)"
      using resize_hdr [of m "int n - int (length D) + nd" g n t2 c "P @ B @ W @ V"] m by auto
    have "take (m - 1) (P @ B @ W @ V) = P @ B @ W" unfolding m(4) by simp
    then have "Y = P @ B @ W" using Y(2,3) m(4) by (metis append.assoc le_add1 length_append order_refl take_all_iff)
    then show ?thesis using mm Y(1) by (intro exI [of _ V]) simp
  qed
  show ?thesis using w p' m by (intro exI [of _ D']) (simp add: add.assoc)
qed

lemma count_decr:
  assumes "c < 2 ^ 16" and "c < 65535 \<longrightarrow> c = k + d"
  shows "\<exists>c'. ZIPLIST_INCR_LENGTH (hdr n t c @ X) (- int d) = Inr (hdr n t c' @ X) \<and> c' < 2 ^ 16 \<and> (c' < 65535 \<longrightarrow> c' = k)"
proof (cases "c < 65535")
  case True
  then have "nat ((int c + - int d) mod 2 ^ 16) = k" using assms(2) by simp
  then show ?thesis using True incr_length_hdr [OF assms(1), of n t X "- int d"] assms by auto
qed (use assms incr_length_hdr [OF assms(1), of n t X "- int d"] in auto)

lemma delete_end_ok:
  assumes "zl_ok zl (xs @ ds)" and "ds \<noteq> []" and "length ds \<le> num"
  shows "\<exists>zl'. ziplistDelete0 g zl (10 + total xs) num = Inr zl' \<and> zl_ok zl' xs"
proof -
  let ?P = "layout 0 xs" and ?q = "after 0 xs" and ?p = "10 + total xs"
  define n where "n = 11 + total (xs @ ds)"
  define t where "t = 10 + lastoff (xs @ ds)"
  obtain c where zl: "zl = hdr n t c @ ?P @ layout ?q ds @ [255]" "c < 2 ^ 16"
    "c < 65535 \<longrightarrow> c = length xs + length ds" "wf 0 (xs @ ds)" "n < 2 ^ 32"
    using assms(1) by (auto simp: zl_ok_def n_def t_def)
  obtain d ds' where ds: "ds = d # ds'" using assms(2) by (cases ds) auto
  have q32: "?q < 2 ^ 32" using zl(5) after_le [of xs 0] by (cases "xs = []") (auto simp: n_def)
  have dok: "entry_ok ?q d" using zl(4,5) ds q32 by (simp add: entry_ok_def n_def)
  obtain z where z: "zipEntry zl ?p = Inr z" "prevrawlen z = ?q"
    using entry_read [OF dok, of "hdr n t c @ ?P" "layout (elen d) ds' @ [255]"] zl(1) ds by (auto simp: entry_of_def)
  have adv: "advance zl num ?p = Inr (?p + total ds, length ds)"
    using advance_ok [of ?q ds num "[255]" "hdr n t c @ ?P"] zl q32 assms(3) by (simp add: n_def)
  have tot: "total ds \<noteq> 0" using ds elen_ge [of d] by simp
  have b: "rd zl (?p + total ds) = Inr ZIP_END"
    using rd_at [of "hdr n t c @ ?P @ layout ?q ds" "[255]" 0] zl(1) by (simp add: ZIP_END_def add.assoc)
  have "int ?p - int ?q = int (10 + lastoff xs)"
    by (cases xs rule: rev_cases) simp_all
  then have st: "set_tail zl (int ?p - int ?q) = Inr (hdr n (10 + lastoff xs) c @ ?P @ layout ?q ds @ [255])"
    unfolding zl(1) by (simp only: set_tail_hdr)
  have s: "10 + (total xs + 1) < 2 ^ 32" "1 \<le> total xs + 1" "int n - int (total ds) + 0 = int (10 + (total xs + 1))"
    using zl(5) by (simp_all add: n_def)
  obtain Y where Y: "ziplistResize g (hdr n (10 + lastoff xs) c @ ?P @ layout ?q ds @ [255]) (int n - int (total ds) + 0) =
      Inr (hdr (10 + (total xs + 1)) (10 + lastoff xs) c @ Y @ [255])" "length Y = total xs"
    "\<forall>k. k \<le> total xs \<longrightarrow> k \<le> length (?P @ layout ?q ds @ [255]) \<longrightarrow> take k Y = take k (?P @ layout ?q ds @ [255])"
    using resize_hdr [OF s, of g n "10 + lastoff xs" c "?P @ layout ?q ds @ [255]"] by auto
  have "Y = ?P" using Y(3) [rule_format, of "total xs"] Y(2) by simp
  moreover have "10 + (total xs + 1) = 11 + total xs" by simp
  ultimately have rs: "ziplistResize g (hdr n (10 + lastoff xs) c @ ?P @ layout ?q ds @ [255]) (int n - int (total ds) + 0) =
      Inr (hdr (11 + total xs) (10 + lastoff xs) c @ ?P @ [255])" using Y(1) by (simp only:)
  obtain c' where c': "ZIPLIST_INCR_LENGTH (hdr (11 + total xs) (10 + lastoff xs) c @ ?P @ [255]) (- int (length ds)) =
      Inr (hdr (11 + total xs) (10 + lastoff xs) c' @ ?P @ [255])" "c' < 2 ^ 16" "c' < 65535 \<longrightarrow> c' = length xs"
    using count_decr [OF zl(2,3)] by blast
  have bytes: "ZIPLIST_BYTES (hdr n (10 + lastoff xs) c @ ?P @ layout ?q ds @ [255]) = Inr n" using zl(5) by (simp add: hdr_read)
  have diff: "?p + total ds - ?p = total ds" by simp
  have "ziplistDelete0 g zl ?p num = Inr (hdr (11 + total xs) (10 + lastoff xs) c' @ ?P @ [255])"
    unfolding ziplistDelete0_def z rbind_simps adv prod.case Let_def diff if_not_P [OF tot] b
    using st rs c'(1) bytes by simp
  moreover have "zl_ok (hdr (11 + total xs) (10 + lastoff xs) c' @ ?P @ [255]) xs"
    using zl(4,5) c'(2,3) by (auto simp: zl_ok_def n_def intro!: exI [of _ c'])
  ultimately show ?thesis by blast
qed

text \<open>What the branch of \<open>__ziplistDelete\<close> for a remaining tail does to the block.\<close>

definition pull_tail :: "byte list \<Rightarrow> nat \<Rightarrow> nat \<Rightarrow> nat \<Rightarrow> nat \<Rightarrow> (zl_error, int \<times> byte list) result" where
  "pull_tail zl p0 p totlen q =
     rbind (zipPrevLenByteDiff zl p q) (\<lambda>nextdiff.
     let p = nat (int p - nextdiff) in
     rbind (wr zl p (zipPrevEncodeLength q)) (\<lambda>zl.
     rbind (ZIPLIST_TAIL_OFFSET zl) (\<lambda>t.
     rbind (set_tail zl (int t - int totlen)) (\<lambda>zl.
     rbind (zipEntry zl p) (\<lambda>tail.
     rbind (rd zl (p + headersize tail + zlen tail)) (\<lambda>b'.
     rbind (if b' \<noteq> ZIP_END
            then rbind (ZIPLIST_TAIL_OFFSET zl) (\<lambda>t. set_tail zl (int t + nextdiff)) else Inr zl) (\<lambda>zl.
     rbind (ZIPLIST_BYTES zl) (\<lambda>bytes.
     rbind (memmove zl p0 p (nat (int bytes - int p - 1))) (\<lambda>zl. Inr (nextdiff, zl))))))))))"

lemma pull_tail_ok:
  assumes "zl = hdr n t c @ P @ D @ ebytes q0 y @ layout (elen y) ys @ [255]" and "n = length zl" and "n < 2 ^ 32"
    and "entry_ok q0 y" and "wf (elen y) ys" and "t = 10 + length P + length D + lastoff (y # ys)"
    and "nd = int (if 254 \<le> q then 5 else 1) - int (if fst y then 5 else 1)" and "nd \<le> int (length D)"
    and "q < 2 ^ 32" and "e = (254 \<le> q, snd y)" and "D \<noteq> []"
  shows "\<exists>V. pull_tail zl (10 + length P) (10 + length P + length D) (length D) q =
      Inr (nd, hdr n (10 + length P + lastoff (e # ys)) c @ P @ ebytes q e @ layout (elen y) ys @ V) \<and>
    ziplistResize g (hdr n (10 + length P + lastoff (e # ys)) c @ P @ ebytes q e @ layout (elen y) ys @ V) (int n - int (length D) + nd) =
      Inr (hdr (11 + length P + elen e + total ys) (10 + length P + lastoff (e # ys)) c @ P @ ebytes q e @ layout (elen y) ys @ [255])"
proof -
  let ?F = "prevfield (fst y) q0" and ?W = "payload (snd y) @ layout (elen y) ys" and ?B = "prevfield (254 \<le> q) q"
  let ?p = "10 + length P + length D"
  have n: "n = 11 + length P + length D + elen y + total ys" unfolding assms(2) by (subst assms(1)) simp
  have el: "int (elen e) = int (elen y) + nd" using assms(7,10) by (simp add: elen_def)
  have zl: "zl = hdr n t c @ P @ D @ ?F @ ?W @ [255]" using assms(1) by (simp add: ebytes_def)
  have nd: "nd = int (length ?B) - int (length ?F)" using assms(7) by simp
  define p' where "p' = nat (int ?p - nd)"
  have n': "11 + length P + elen e + total ys = 11 + length P + length ?B + length ?W" by (simp add: assms(10) elen_def)
  obtain D' where D': "wr zl p' ?B = Inr (hdr n t c @ P @ D' @ ?B @ ?W @ [255])" "p' = length (hdr n t c @ P @ D')"
    "\<forall>t2. \<exists>V. memmove (hdr n t2 c @ P @ D' @ ?B @ ?W @ [255]) (10 + length P) p' (nat (int n - int p' - 1)) =
       Inr (hdr n t2 c @ P @ ?B @ ?W @ V) \<and>
     ziplistResize g (hdr n t2 c @ P @ ?B @ ?W @ V) (int n - int (length D) + nd) =
       Inr (hdr (11 + length P + elen e + total ys) t2 c @ P @ ?B @ ?W @ [255])"
    using close_gap [OF zl assms(2,3) nd assms(8) refl p'_def n', of g] by blast
  have B: "?B @ ?W @ Z = ebytes q e @ layout (elen y) ys @ Z" for Z by (simp add: ebytes_def assms(10))
  define X where "X = P @ D' @ ebytes q e @ layout (elen y) ys @ [255]"
  have w: "wr zl p' ?B = Inr (hdr n t c @ X)" using D'(1) unfolding X_def B .
  have "nd \<le> 4" using assms(7) by simp
  then have eok: "entry_ok q e" using assms(3,8-10) n el by (simp add: entry_ok_def)
  define t1 where "t1 = t - length D"
  have t1: "int t - int (length D) = int t1" "t1 < 2 ^ 32" "t < 2 ^ 32"
    using assms(3,6) n lastoff_le [of "y # ys"] by (auto simp: t1_def)
  have pp: "p' = length (hdr n t1 c @ P @ D')" using D'(2) by simp
  have at: "hdr n t1 c @ X = (hdr n t1 c @ P @ D') @ ebytes q e @ layout (elen y) ys @ [255]" by (simp add: X_def)
  obtain z where z: "zipEntry (hdr n t1 c @ X) p' = Inr z" "headersize z + zlen z = elen e"
    using entry_read [OF eok, of "hdr n t1 c @ P @ D'" "layout (elen y) ys @ [255]"] unfolding at pp by (auto simp: entry_of_def)
  have rd': "rd (hdr n t1 c @ X) (p' + headersize z + zlen z) = rd (layout (elen y) ys @ [255]) 0"
    using rd_at [of "(hdr n t1 c @ P @ D') @ ebytes q e" "layout (elen y) ys @ [255]" 0] z(2) unfolding at pp
    by (simp add: add.assoc)
  define T where "T = 10 + length P + lastoff (e # ys)"
  have fin: "(if x \<noteq> ZIP_END then rbind (ZIPLIST_TAIL_OFFSET (hdr n t1 c @ X)) (\<lambda>u. set_tail (hdr n t1 c @ X) (int u + nd))
      else Inr (hdr n t1 c @ X)) = Inr (hdr n T c @ X)" if "rd (layout (elen y) ys @ [255]) 0 = Inr x" for x
  proof (cases ys)
    case Nil
    then show ?thesis using that assms(6) by (simp add: ZIP_END_def T_def t1_def)
  next
    case (Cons d ds)
    have "entry_ok (elen y) d" using assms(5) Cons n assms(3) by (simp add: entry_ok_def)
    then have "x \<noteq> ZIP_END" using entry_not_end [of "elen y" d "[]" "layout (elen d) ds @ [255]"] that Cons by auto
    moreover have "int t1 + nd = int T" using assms(6) Cons el by (simp add: T_def t1_def)
    ultimately show ?thesis using t1(2) set_tail_hdr [of n t1 c X T] by (simp add: hdr_read)
  qed
  have "\<exists>x. rd (layout (elen y) ys @ [255]) 0 = Inr x" by (cases "layout (elen y) ys") simp_all
  then obtain x where x: "rd (layout (elen y) ys @ [255]) 0 = Inr x" by blast
  obtain V where V: "memmove (hdr n T c @ X) (10 + length P) p' (nat (int n - int p' - 1)) =
       Inr (hdr n T c @ P @ ebytes q e @ layout (elen y) ys @ V)"
     "ziplistResize g (hdr n T c @ P @ ebytes q e @ layout (elen y) ys @ V) (int n - int (length D) + nd) =
       Inr (hdr (11 + length P + elen e + total ys) T c @ P @ ebytes q e @ layout (elen y) ys @ [255])"
    using D'(3) [rule_format, of T] unfolding X_def B by blast
  have bd: "zipPrevLenByteDiff zl ?p q = Inr nd"
    using entry_byte_diff [OF assms(4), of "hdr n t c @ P @ D" "layout (elen y) ys @ [255]" q] assms(1,7) by (simp add: add.assoc)
  have "pull_tail zl (10 + length P) ?p (length D) q = Inr (nd, hdr n T c @ P @ ebytes q e @ layout (elen y) ys @ V)"
    unfolding pull_tail_def bd rbind_simps Let_def p'_def [symmetric]
    using w t1 z(1) rd' x fin [OF x] V(1) assms(3) set_tail_hdr [of n t c X t1]
    by (simp add: hdr_read)
  then show ?thesis using V(2) by (auto simp: T_def)
qed

lemma delete_unfold:
  "ziplistDelete0 g zl p0 num =
     rbind (zipEntry zl p0) (\<lambda>first. rbind (advance zl num p0) (\<lambda>(p, deleted).
     if p - p0 = 0 then Inr zl
     else rbind (rd zl p) (\<lambda>b.
       rbind (if b \<noteq> ZIP_END then pull_tail zl p0 p (p - p0) (prevrawlen first)
         else rbind (set_tail zl (int p0 - int (prevrawlen first))) (\<lambda>zl. Inr (0, zl))) (\<lambda>(nextdiff, zl).
       rbind (ZIPLIST_BYTES zl) (\<lambda>bytes.
       rbind (ziplistResize g zl (int bytes - int (p - p0) + nextdiff)) (\<lambda>zl.
       rbind (ZIPLIST_INCR_LENGTH zl (- int deleted)) (\<lambda>zl.
         if nextdiff \<noteq> 0 then cascade g zl p0 else Inr zl)))))))"
  unfolding ziplistDelete0_def pull_tail_def Let_def ..

lemma delete_mid_ok:
  assumes "zl_ok zl (xs @ ds @ y # ys)" and "ds \<noteq> []" and "11 + total (xs @ ds @ y # ys) + 4 * (length ys + 1) < 2 ^ 32"
  shows "\<exists>zl'. ziplistDelete0 g zl (10 + total xs) (length ds) = Inr zl' \<and> zl_ok zl' (xs @ rejoin (after 0 xs) (y # ys))"
proof -
  let ?P = "layout 0 xs" and ?q = "after 0 xs" and ?p = "10 + total xs"
  define n where "n = 11 + total (xs @ ds @ y # ys)"
  define t where "t = 10 + lastoff (xs @ ds @ y # ys)"
  define D where "D = layout ?q ds"
  define q0 where "q0 = after ?q ds"
  define e where "e = (254 \<le> ?q, snd y)"
  define nd where "nd = int (if 254 \<le> ?q then 5 else 1) - int (if fst y then 5 else 1)"
  obtain c where zl: "zl = hdr n t c @ ?P @ D @ ebytes q0 y @ layout (elen y) ys @ [255]" "c < 2 ^ 16"
    "c < 65535 \<longrightarrow> c = length (xs @ y # ys) + length ds" "wf 0 (xs @ ds @ y # ys)"
  proof -
    from assms(1) obtain c where "zl = hdr n t c @ layout 0 (xs @ ds @ y # ys) @ [255]" "c < 2 ^ 16"
      "c < 65535 \<longrightarrow> c = length (xs @ ds @ y # ys)" "wf 0 (xs @ ds @ y # ys)"
      unfolding zl_ok_def n_def t_def by blast
    then show ?thesis by (intro that [of c]) (auto simp: D_def q0_def)
  qed
  have lim: "n + 4 * (length ys + 1) < 2 ^ 32" using assms(3) by (simp add: n_def)
  obtain d ds' where ds: "ds = d # ds'" using assms(2) by (cases ds) auto
  have q32: "?q < 2 ^ 32" using lim after_le [of xs 0] by (cases "xs = []") (auto simp: n_def)
  have q0': "q0 < 2 ^ 32" using lim after_le [OF assms(2), of ?q] by (simp add: q0_def n_def)
  have dok: "entry_ok ?q d" using zl(4) lim ds q32 by (simp add: entry_ok_def n_def)
  have yok: "entry_ok q0 y" "wf (elen y) ys" using zl(4) lim q0' by (simp_all add: entry_ok_def n_def q0_def)
  obtain z where z: "zipEntry zl ?p = Inr z" "prevrawlen z = ?q"
    using entry_read [OF dok, of "hdr n t c @ ?P" "layout (elen d) ds' @ ebytes q0 y @ layout (elen y) ys @ [255]"] zl(1) ds
    by (auto simp: entry_of_def D_def)
  have adv: "advance zl (length ds) ?p = Inr (?p + total ds, length ds)"
    using advance_ok [of ?q ds "length ds" "ebytes q0 y @ layout (elen y) ys @ [255]" "hdr n t c @ ?P"] zl(1,4) lim q32
    by (simp add: n_def D_def)
  have tot: "total ds \<noteq> 0" using ds elen_ge [of d] by simp
  have Dl: "length D = total ds" "D \<noteq> []" using tot by (auto simp: D_def dest: arg_cong [of _ "[]" length])
  obtain b where b: "rd zl (?p + total ds) = Inr b" "b \<noteq> ZIP_END"
    using entry_not_end [OF yok(1), of "hdr n t c @ ?P @ D" "layout (elen y) ys @ [255]"] zl(1) Dl(1) by (auto simp: add.assoc)
  have t: "t = 10 + length ?P + length D + lastoff (y # ys)" using lastoff_append [of "y # ys" "xs @ ds"] by (simp add: t_def Dl)
  have ndl: "nd \<le> int (length D)"
  proof (cases "254 \<le> ?q")
    case True
    then have "fst d" using zl(4) ds by auto
    then have "5 \<le> elen d" by (simp add: elen_def)
    then show ?thesis using ds Dl(1) by (simp add: nd_def)
  qed (simp add: nd_def)
  have len: "n = length zl" unfolding zl(1) by (simp add: n_def Dl)
  have n32: "n < 2 ^ 32" using lim by simp
  define T where "T = 10 + total xs + lastoff (e # ys)"
  obtain V where V: "pull_tail zl ?p (?p + total ds) (total ds) ?q = Inr (nd, hdr n T c @ ?P @ ebytes ?q e @ layout (elen y) ys @ V)"
    "ziplistResize g (hdr n T c @ ?P @ ebytes ?q e @ layout (elen y) ys @ V) (int n - int (total ds) + nd) =
      Inr (hdr (11 + total xs + elen e + total ys) T c @ ?P @ ebytes ?q e @ layout (elen y) ys @ [255])"
    using pull_tail_ok [OF zl(1) len n32 yok t nd_def ndl q32 e_def Dl(2), of g] by (auto simp: T_def Dl(1))
  obtain c' where c': "ZIPLIST_INCR_LENGTH (hdr (11 + total xs + elen e + total ys) T c @ ?P @ ebytes ?q e @ layout (elen y) ys @ [255]) (- int (length ds)) =
      Inr (hdr (11 + total xs + elen e + total ys) T c' @ ?P @ ebytes ?q e @ layout (elen y) ys @ [255])"
      "c' < 2 ^ 16" "c' < 65535 \<longrightarrow> c' = length (xs @ y # ys)"
    using count_decr [OF zl(2,3)] by blast
  have bytes: "ZIPLIST_BYTES (hdr n T c @ X) = Inr n" for X using n32 by (simp add: hdr_read)
  have el: "nd = int (elen e) - int (elen y)" by (simp add: nd_def e_def elen_def)
  have "nd \<le> 4" by (simp add: nd_def)
  then have lim2: "11 + length ?P + elen e + total ys + 4 * length ys < 2 ^ 32" using lim el by (simp add: n_def)
  have eok: "entry_ok ?q e" using lim2 q32 by (simp add: entry_ok_def e_def)
  have ely: "elen y < 2 ^ 32" using lim by (simp add: n_def)
  define es where "es = e # fixp (elen e) ys"
  have ca: "(if nd \<noteq> 0 then cascade g (hdr (11 + total xs + elen e + total ys) T c' @ ?P @ ebytes ?q e @ layout (elen y) ys @ [255]) ?p
      else Inr (hdr (11 + total xs + elen e + total ys) T c' @ ?P @ ebytes ?q e @ layout (elen y) ys @ [255])) =
    Inr (hdr (11 + total (xs @ es)) (10 + lastoff (xs @ es)) c' @ layout 0 (xs @ es) @ [255])"
  proof -
    have "11 + total xs + elen e + total (fixp (elen e) ys) = 11 + total (xs @ es)"
      "10 + total xs + lastoff es = 10 + lastoff (xs @ es)"
      "?P @ ebytes ?q e @ layout (elen e) (fixp (elen e) ys) @ [255] = layout 0 (xs @ es) @ [255]"
      using lastoff_append [of es xs] by (simp_all add: es_def)
    with cascade_layout [OF eok yok(2) ely el lim2, of g c', folded es_def] show ?thesis by (simp only: T_def length_layout)
  qed
  have diff: "?p + total ds - ?p = total ds" by simp
  have "ziplistDelete0 g zl ?p (length ds) = Inr (hdr (11 + total (xs @ es)) (10 + lastoff (xs @ es)) c' @ layout 0 (xs @ es) @ [255])"
    unfolding delete_unfold z rbind_simps adv prod.case diff if_not_P [OF tot] b(1) if_P [OF b(2)] V bytes c'(1) ca ..
  moreover have "zl_ok (hdr (11 + total (xs @ es)) (10 + lastoff (xs @ es)) c' @ layout 0 (xs @ es) @ [255]) (xs @ es)"
  proof -
    have "wf ?q es" using rejoin_wf [of q0 "y # ys" ?q] zl(4) by (simp add: es_def e_def q0_def)
    moreover have "total es \<le> total (y # ys) + 4 * length (y # ys)"
      using total_rejoin [of ?q "y # ys"] by (simp add: es_def e_def)
    moreover have "length es = length ys + 1" by (simp add: es_def)
    ultimately show ?thesis
      using zl(4) lim c'(2,3) unfolding zl_ok_def by (intro conjI exI [of _ c']) (auto simp: n_def)
  qed
  moreover have "rejoin ?q (y # ys) = es" by (simp add: es_def e_def)
  ultimately show ?thesis by auto
qed

lemma delete_ok:
  assumes "zl_ok zl (xs @ ds @ ys)" and "ds \<noteq> []" and "length ds = num \<or> ys = [] \<and> length ds \<le> num"
    and "11 + total (xs @ ds @ ys) + 4 * length ys < 2 ^ 32"
  shows "\<exists>zl'. ziplistDelete0 g zl (10 + total xs) num = Inr zl' \<and> zl_ok zl' (xs @ rejoin (after 0 xs) ys)"
  using assms delete_end_ok [of zl xs ds num g] delete_mid_ok [of zl xs ds _ _ g] by (cases ys) auto

end
