(* ===== verification/Ziplist_Map.thy ===== *)
theory Ziplist_Map
  imports Ziplist_Ops
begin

text \<open>
  A ziplist is a list of texts: navigation, lookup and length on well-formed blocks, the refinement of the
  operations on lists, and the one insertion the code gets wrong.
\<close>

section \<open>Navigation\<close>

lemma zl_split:
  assumes "zl_ok zl (xs @ e # ys)"
  obtains A R where "zl = A @ ebytes (after 0 xs) e @ R" "length A = 10 + total xs" "entry_ok (after 0 xs) e"
    "R = layout (elen e) ys @ [255]"
proof -
  obtain c where c: "zl = hdr (11 + total (xs @ e # ys)) (10 + lastoff (xs @ e # ys)) c @ layout 0 (xs @ e # ys) @ [255]"
    "wf 0 (xs @ e # ys)" "11 + total (xs @ e # ys) < 2 ^ 32" using assms unfolding zl_ok_def by blast
  have "entry_ok (after 0 xs) e" using c(2,3) after_le [of xs 0] by (cases "xs = []") (auto simp: entry_ok_def)
  with c(1) show thesis
    by (intro that [of "hdr (11 + total (xs @ e # ys)) (10 + lastoff (xs @ e # ys)) c @ layout 0 xs" "layout (elen e) ys @ [255]"]) simp_all
qed

lemma at_entry:
  assumes "zl_ok zl (xs @ e # ys)"
  shows "\<exists>x. rd zl (10 + total xs) = Inr x \<and> x \<noteq> ZIP_END"
    "\<exists>z. zipEntry zl (10 + total xs) = Inr z \<and> entry_of (10 + total xs) (after 0 xs) e z"
    "zipRawEntryLength zl (10 + total xs) = Inr (elen e)"
proof -
  obtain A R where A: "zl = A @ ebytes (after 0 xs) e @ R" "length A = 10 + total xs" "entry_ok (after 0 xs) e"
    using zl_split [OF assms] by blast
  then show "\<exists>x. rd zl (10 + total xs) = Inr x \<and> x \<noteq> ZIP_END"
    "\<exists>z. zipEntry zl (10 + total xs) = Inr z \<and> entry_of (10 + total xs) (after 0 xs) e z"
    "zipRawEntryLength zl (10 + total xs) = Inr (elen e)"
    using entry_not_end [OF A(3), of A R] entry_read [OF A(3), of A R] entry_raw_length [OF A(3), of A R] by simp_all
qed

lemma at_end: "zl_ok zl es \<Longrightarrow> rd zl (10 + total es) = Inr ZIP_END"
  using rd_at [of "hdr (11 + total es) (10 + lastoff es) c @ layout 0 es" "[255]" 0 for c] by (auto simp: zl_ok_def ZIP_END_def)

lemma tail_offset: "zl_ok zl es \<Longrightarrow> ZIPLIST_TAIL_OFFSET zl = Inr (10 + lastoff es)"
  using lastoff_le [of es] by (auto simp: zl_ok_def hdr_read)

lemma bytes_ok: "zl_ok zl es \<Longrightarrow> ZIPLIST_BYTES zl = Inr (11 + total es) \<and> length zl = 11 + total es"
  by (auto simp: zl_ok_def hdr_read)

lemma index_forward_ok:
  "zl_ok zl (xs @ ys) \<Longrightarrow> index_forward zl i (10 + total xs) =
    Inr (10 + total xs + total (take i ys), if i < length ys then - 1 else int (i - length ys))"
proof (induction i arbitrary: xs ys)
  case 0
  show ?case
  proof (cases ys)
    case Nil
    then show ?thesis using 0 at_end [of zl xs] by simp
  next
    case (Cons y ys')
    from at_entry(1) [OF 0 [unfolded Cons]] Cons show ?thesis by auto
  qed
next
  case (Suc i)
  show ?case
  proof (cases ys)
    case Nil
    then show ?thesis using Suc.prems at_end [of zl xs] by simp
  next
    case (Cons y ys')
    have "zl_ok zl ((xs @ [y]) @ ys')" using Suc.prems Cons by simp
    from Suc.IH [OF this] show ?thesis
      using at_entry(1,3) [OF Suc.prems [unfolded Cons]] Cons by (auto simp: add.assoc)
  qed
qed

lemma index_back_ok:
  "zl_ok zl (xs @ e # ys) \<Longrightarrow> entry_of (10 + total xs) (after 0 xs) e z \<Longrightarrow>
    \<exists>j. index_back zl i z (10 + total xs) = Inr (10 + total (take (length xs - i) xs), j) \<and> (j > 0 \<longleftrightarrow> length xs < i)"
proof (induction i arbitrary: xs e ys z)
  case 0
  then show ?case by (auto simp: entry_of_def)
next
  case (Suc i)
  show ?case
  proof (cases xs rule: rev_cases)
    case Nil
    then show ?thesis using Suc.prems by (simp add: entry_of_def)
  next
    case (snoc xs' x)
    have pl: "prevrawlen z = elen x" "0 < elen x" using Suc.prems(2) snoc elen_ge [of x] by (auto simp: entry_of_def)
    have "zl_ok zl (xs' @ x # e # ys)" using Suc.prems(1) snoc by simp
    moreover from at_entry(2) [OF this] obtain z' where
      z': "zipEntry zl (10 + total xs') = Inr z'" "entry_of (10 + total xs') (after 0 xs') x z'" by blast
    ultimately obtain j where "index_back zl i z' (10 + total xs') = Inr (10 + total (take (length xs' - i) xs'), j)"
      "j > 0 \<longleftrightarrow> length xs' < i" using Suc.IH [of xs' x "e # ys" z'] by blast
    then show ?thesis using pl z'(1) snoc by simp
  qed
qed

lemma split_nth: "k < length es \<Longrightarrow> es = take k es @ es ! k # drop (Suc k) es"
  by (simp add: id_take_nth_drop)

lemma ziplistIndex_ok:
  assumes "zl_ok zl es" and "- 2147483648 < i" and "i < 2147483648"
  shows "ziplistIndex zl i = Inr (if in_range es i then Some (10 + total (take (nat (pos (length es) i)) es)) else None)"
proof (cases "i < 0")
  case False
  show ?thesis
  proof (cases "nat i < length es")
    case True
    have "zl_ok zl (take (nat i) es @ es ! nat i # drop (Suc (nat i)) es)" using assms(1) split_nth [OF True] by simp
    from at_entry(1) [OF this] show ?thesis
      using index_forward_ok [of zl "[]" es "nat i"] assms(1) True False
      by (auto simp: ziplistIndex_def in_range_def pos_def ZIPLIST_HEADER_SIZE_def)
  next
    case F: False
    then show ?thesis
      using index_forward_ok [of zl "[]" es "nat i"] assms(1) at_end [of zl es] False
      by (auto simp: ziplistIndex_def in_range_def pos_def ZIPLIST_HEADER_SIZE_def)
  qed
next
  case True
  define k where "k = nat (- i - 1)"
  have k: "i = - int k - 1" using True by (simp add: k_def)
  have kk: "to_i32 (to_i32 (- i) - 1) = int k" using assms(2) True by (simp add: cint k)
  show ?thesis
  proof (cases es rule: rev_cases)
    case Nil
    then show ?thesis using assms(1) tail_offset [of zl es] at_end [of zl es] True kk k
      by (auto simp: ziplistIndex_def in_range_def pos_def)
  next
    case (snoc xs e)
    obtain z where z: "zipEntry zl (10 + total xs) = Inr z" "entry_of (10 + total xs) (after 0 xs) e z"
      using at_entry(2) [of zl xs e "[]"] assms(1) snoc by auto
    obtain b where b: "rd zl (10 + total xs) = Inr b" "b \<noteq> ZIP_END" using at_entry(1) [of zl xs e "[]"] assms(1) snoc by auto
    obtain j where j: "index_back zl k z (10 + total xs) = Inr (10 + total (take (length xs - k) xs), j)" "j > 0 \<longleftrightarrow> length xs < k"
      using index_back_ok [of zl xs e "[]" z k] assms(1) snoc z(2) by auto
    define m where "m = length xs - k"
    have "m < length es" using snoc by (simp add: m_def)
    then have "zl_ok zl (take m es @ es ! m # drop (Suc m) es)" using assms(1) split_nth by metis
    moreover have "take m es = take m xs" using snoc by (simp add: m_def)
    ultimately obtain b' where b': "rd zl (10 + total (take m xs)) = Inr b'" "b' \<noteq> ZIP_END"
      using at_entry(1) by metis
    have res: "ziplistIndex zl i = Inr (if j > 0 then None else Some (10 + total (take m xs)))"
      using True kk tail_offset [OF assms(1)] snoc b z(1) j(1) b' by (simp add: ziplistIndex_def m_def)
    have "in_range es i \<longleftrightarrow> \<not> j > 0" using j(2) snoc k True by (auto simp: in_range_def pos_def)
    moreover have "take (nat (pos (length es) i)) es = take m xs" if "\<not> j > 0"
    proof -
      have "pos (length es) i = int m" using that j(2) snoc k True by (simp add: pos_def m_def of_nat_diff)
      then show ?thesis using snoc by (simp add: m_def)
    qed
    ultimately show ?thesis using res by simp
  qed
qed

lemma len_loop_ok:
  "zl_ok zl (xs @ ys) \<Longrightarrow> length ys < n \<Longrightarrow> len_loop n zl (10 + total xs) = Inr (length ys)"
proof (induction ys arbitrary: xs n)
  case Nil
  then show ?case using at_end [of zl xs] by (cases n) auto
next
  case (Cons y ys)
  obtain m where m: "n = Suc m" using Cons.prems(2) by (cases n) auto
  have "zl_ok zl ((xs @ [y]) @ ys)" using Cons.prems(1) by simp
  from Cons.IH [OF this, of m] show ?case
    using at_entry(1,3) [OF Cons.prems(1)] Cons.prems(2) m by (auto simp: add.assoc)
qed

lemma ziplistLen_ok:
  assumes "zl_ok zl es"
  shows "\<exists>zl'. ziplistLen zl = Inr (zl', length es) \<and> zl_ok zl' es"
proof -
  obtain c where c: "zl = hdr (11 + total es) (10 + lastoff es) c @ layout 0 es @ [255]" "c < 2 ^ 16"
    "c < 65535 \<longrightarrow> c = length es" "wf 0 es" "11 + total es < 2 ^ 32" using assms unfolding zl_ok_def by blast
  have zc: "ZIPLIST_LENGTH zl = Inr c" using c(1,2) by (simp add: hdr_read)
  have ll: "len_loop (length zl) zl 10 = Inr (length es)"
    using len_loop_ok [of zl "[]" es "length zl"] assms bytes_ok [OF assms] length_le_total [of es] by simp
  show ?thesis
  proof (cases "c < 65535")
    case True
    then show ?thesis using zc c(3) assms by (simp add: ziplistLen_def UINT16_MAX_def)
  next
    case False
    let ?zl = "hdr (11 + total es) (10 + lastoff es) (length es) @ layout 0 es @ [255]"
    have "wr zl 8 (le_bytes 2 (int (length es))) = Inr ?zl"
      using wr_mid [of "le_bytes 2 (int c)" "le_bytes 2 (int (length es))" "le_bytes 4 (int (11 + total es)) @ le_bytes 4 (int (10 + lastoff es))"
          "layout 0 es @ [255]"] c(1) by (simp add: hdr_def)
    moreover have "zl_ok ?zl es" if "length es < 65535" using c(4,5) that by (auto simp: zl_ok_def intro!: exI [of _ "length es"])
    ultimately show ?thesis using False zc ll assms
      by (cases "length es < 65535") (simp_all add: ziplistLen_def UINT16_MAX_def ZIPLIST_HEADER_SIZE_def)
  qed
qed

section \<open>Comparing and searching\<close>

lemma bchar_eq: "bchar b = bchar c \<Longrightarrow> b = c"
proof -
  assume a: "bchar b = bchar c"
  have r: "uint (x::byte) < 256" for x using uint_bounded [of x] by simp
  have "uchar (bchar b) = uint b" "uchar (bchar c) = uint c" using r by (simp_all add: bchar_def)
  then have "uint b = uint c" using a by simp
  then show ?thesis by (simp add: word_uint_eq_iff)
qed

lemma map_bchar_eq: "map bchar s = map bchar t \<longleftrightarrow> s = t"
  by (metis inj_map_eq_map injI bchar_eq)

text \<open>Texts with the same integer reading are equal: each integer has one text.\<close>

lemma try_encoding_inj:
  assumes "zipTryEncoding s = Some (v, enc)" and "zipTryEncoding t = Some (v, enc')"
  shows "s = t"
proof -
  have "map bchar s = ll_text v" "map bchar t = ll_text v"
    using try_encoding_int [OF assms(1)] try_encoding_int [OF assms(2)] string2ll_canonical by auto
  then show ?thesis by (metis map_bchar_eq)
qed

text \<open>What reading the data of an entry gives, for the searches.\<close>

lemma entry_data:
  assumes "zl_ok zl (xs @ e # ys)" and "entry_of (10 + total xs) (after 0 xs) e z"
  shows "zipTryEncoding (snd e) = None \<Longrightarrow> ZIP_IS_STR (encoding z) \<and> zlen z = length (snd e) \<and>
      rdn zl (10 + total xs + headersize z) (length (snd e)) = Inr (snd e)"
    "zipTryEncoding (snd e) = Some (v, enc) \<Longrightarrow> \<not> ZIP_IS_STR (encoding z) \<and> encoding z = enc \<and>
      zipLoadInteger zl (10 + total xs + headersize z) enc = Inr v"
proof -
  obtain A R where A: "zl = A @ ebytes (after 0 xs) e @ R" "length A = 10 + total xs" using zl_split [OF assms(1)] by blast
  let ?H = "zipEncodeLength (senc (snd e)) (length (snd e))"
  define A' where "A' = A @ prevfield (fst e) (after 0 xs) @ ?H"
  have zl: "zl = A' @ sdata (snd e) @ R" using A(1) by (simp add: A'_def ebytes_def payload_def)
  have p: "10 + total xs + headersize z = length A'" using assms(2) A(2) by (simp add: entry_of_def A'_def elen_def payload_def)
  show "ZIP_IS_STR (encoding z) \<and> zlen z = length (snd e) \<and> rdn zl (10 + total xs + headersize z) (length (snd e)) = Inr (snd e)"
    if "zipTryEncoding (snd e) = None"
    using that assms(2) sdata_str [OF that] p zl rdn_at [of A' "snd e @ R" 0 "length (snd e)"]
    by (simp add: entry_of_def ZIP_IS_STR_iff)
  show "\<not> ZIP_IS_STR (encoding z) \<and> encoding z = enc \<and> zipLoadInteger zl (10 + total xs + headersize z) enc = Inr v"
    if ve: "zipTryEncoding (snd e) = Some (v, enc)"
    using ve assms(2) p zl sdata_int(1,6) [OF ve] sdata_int(4) [OF ve, of R] load_at [of A' "sdata (snd e) @ R" 0 enc]
    by (simp add: entry_of_def)
qed

lemma ziplistGet_ok:
  assumes "zl_ok zl (xs @ e # ys)"
  shows "ziplistGet zl (Some (10 + total xs)) = Inr (Some (zvalue (snd e)))"
proof -
  obtain z where z: "zipEntry zl (10 + total xs) = Inr z" "entry_of (10 + total xs) (after 0 xs) e z"
    using at_entry(2) [OF assms] by blast
  obtain b where b: "rd zl (10 + total xs) = Inr b" "b \<noteq> ZIP_END" using at_entry(1) [OF assms] by blast
  show ?thesis
  proof (cases "zipTryEncoding (snd e)")
    case None
    then show ?thesis using b z(1) entry_data(1) [OF assms z(2)] by (simp add: ziplistGet_def zvalue_def)
  next
    case (Some q)
    then obtain v enc where "zipTryEncoding (snd e) = Some (v, enc)" by (cases q) auto
    then show ?thesis using b z(1) entry_data(2) [OF assms z(2)] by (auto simp: ziplistGet_def zvalue_def)
  qed
qed

lemma ziplistCompare_ok:
  assumes "zl_ok zl (xs @ e # ys)"
  shows "ziplistCompare zl (10 + total xs) t = Inr (snd e = t)"
proof -
  obtain z where z: "zipEntry zl (10 + total xs) = Inr z" "entry_of (10 + total xs) (after 0 xs) e z"
    using at_entry(2) [OF assms] by blast
  obtain b where b: "rd zl (10 + total xs) = Inr b" "b \<noteq> ZIP_END" using at_entry(1) [OF assms] by blast
  show ?thesis
  proof (cases "zipTryEncoding (snd e)")
    case None
    then show ?thesis using b z(1) entry_data(1) [OF assms z(2)] by (auto simp: ziplistCompare_def)
  next
    case (Some q)
    then obtain v enc where ve: "zipTryEncoding (snd e) = Some (v, enc)" by (cases q) auto
    show ?thesis
    proof (cases "zipTryEncoding t")
      case None
      then show ?thesis using b z(1) entry_data(2) [OF assms z(2) ve] ve by (auto simp: ziplistCompare_def)
    next
      case (Some q')
      then obtain v' enc' where ve': "zipTryEncoding t = Some (v', enc')" by (cases q') auto
      have "v = v' \<longleftrightarrow> snd e = t" using try_encoding_inj [OF ve, of t] ve ve' by auto
      then show ?thesis using b z(1) entry_data(2) [OF assms z(2) ve] ve' by (auto simp: ziplistCompare_def)
    qed
  qed
qed

text \<open>The search on the list of texts: after skipping \<open>cnt\<close> of them, every \<open>(skip + 1)\<close>-th is compared.\<close>

fun search :: "nat \<Rightarrow> nat \<Rightarrow> byte list \<Rightarrow> byte list list \<Rightarrow> nat option" where
  "search skip cnt v [] = None"
| "search skip cnt v (t # ts) =
     (if cnt = 0 then if t = v then Some 0 else map_option Suc (search skip skip v ts)
      else map_option Suc (search skip (cnt - 1) v ts))"

definition cache_ok :: "byte list \<Rightarrow> nat \<Rightarrow> int \<Rightarrow> bool" where
  "cache_ok v venc vll \<longleftrightarrow> venc = 0 \<or> (venc = 255 \<and> zipTryEncoding v = None) \<or> zipTryEncoding v = Some (vll, venc)"

definition fill :: "byte list \<Rightarrow> nat \<Rightarrow> int \<Rightarrow> nat \<times> int" where
  "fill v venc vll = (if venc = 0 then case zipTryEncoding v of None \<Rightarrow> (255, vll) | Some (x, e) \<Rightarrow> (e, x) else (venc, vll))"

lemma fill_ok:
  assumes "cache_ok v venc vll" and "fill v venc vll = (e, x)"
  shows "e \<noteq> 0" "cache_ok v e x" "e = 255 \<longleftrightarrow> zipTryEncoding v = None" "e \<noteq> 255 \<Longrightarrow> zipTryEncoding v = Some (x, e)"
proof -
  have r: "192 \<le> b \<and> b < 255" if "zipTryEncoding v = Some (a, b)" for a b using try_encoding_int [OF that] by auto
  show "e \<noteq> 0" "cache_ok v e x" "e = 255 \<longleftrightarrow> zipTryEncoding v = None" "e \<noteq> 255 \<Longrightarrow> zipTryEncoding v = Some (x, e)"
    using assms r by (auto simp: fill_def cache_ok_def split: if_splits option.splits)
qed

lemma decode_at:
  assumes "zl_ok zl (xs @ e # ys)"
  shows "\<exists>z. entry_of (10 + total xs) (after 0 xs) e z \<and> ZIP_DECODE_PREVLENSIZE zl (10 + total xs) = Inr (prevrawlensize z) \<and>
    ZIP_DECODE_LENGTH zl (10 + total xs + prevrawlensize z) = Inr (encoding z, lensize z, zlen z) \<and>
    prevrawlensize z + lensize z = headersize z"
proof -
  obtain z where z: "zipEntry zl (10 + total xs) = Inr z" "entry_of (10 + total xs) (after 0 xs) e z"
    using at_entry(2) [OF assms] by blast
  show ?thesis
  proof (cases "ZIP_DECODE_PREVLENSIZE zl (10 + total xs)")
    case (Inl a)
    then show ?thesis using z(1) by (simp add: zipEntry_def ZIP_DECODE_PREVLEN_def)
  next
    case (Inr n)
    then show ?thesis using z
      by (auto simp: zipEntry_def ZIP_DECODE_PREVLEN_def rbind_eq_Inr split: if_splits prod.splits intro!: exI [of _ z])
  qed
qed

lemma find_step:
  assumes "zl_ok zl (xs @ e # ys)" and "cache_ok v venc vll"
  shows "\<exists>venc' vll'. cache_ok v venc' vll' \<and>
    find_loop (Suc n) zl (10 + total xs) v skip cnt venc vll =
      (if cnt = 0 \<and> snd e = v then Inr (Some (10 + total xs))
       else find_loop n zl (10 + total xs + elen e) v skip (if cnt = 0 then skip else cnt - 1) venc' vll')"
proof -
  obtain z where z: "entry_of (10 + total xs) (after 0 xs) e z" "ZIP_DECODE_PREVLENSIZE zl (10 + total xs) = Inr (prevrawlensize z)"
    "ZIP_DECODE_LENGTH zl (10 + total xs + prevrawlensize z) = Inr (encoding z, lensize z, zlen z)"
    "prevrawlensize z + lensize z = headersize z" using decode_at [OF assms(1)] by blast
  obtain b where b: "rd zl (10 + total xs) = Inr b" "b \<noteq> ZIP_END" using at_entry(1) [OF assms(1)] by blast
  have q: "10 + total xs + prevrawlensize z + lensize z = 10 + total xs + headersize z"
    "10 + total xs + headersize z + zlen z = 10 + total xs + elen e"
    using z(1,4) by (auto simp: entry_of_def)
  note unf = find_loop.simps(2) b(1) rbind_simps if_not_P [OF b(2)] z(2,3) prod.case Let_def q
  show ?thesis
  proof (cases "cnt = 0")
    case False
    then show ?thesis unfolding unf using assms(2) by auto
  next
    case cnt: True
    show ?thesis
    proof (cases "zipTryEncoding (snd e)")
      case None
      then show ?thesis unfolding unf using cnt assms(2) entry_data(1) [OF assms(1) z(1)]
        by (intro exI [of _ venc] exI [of _ vll]) auto
    next
      case (Some p)
      then obtain x enc where ve: "zipTryEncoding (snd e) = Some (x, enc)" by (cases p) auto
      obtain c y where f: "fill v venc vll = (c, y)" by (cases "fill v venc vll")
      note c = fill_ok [OF assms(2) f]
      have d: "\<not> ZIP_IS_STR (encoding z)" "zipLoadInteger zl (10 + total xs + headersize z) (encoding z) = Inr x"
        using entry_data(2) [OF assms(1) z(1) ve] by auto
      have "(x = y) = (snd e = v)" if "c \<noteq> 255"
        using c(4) [OF that] ve try_encoding_inj [OF ve, of v] by auto
      moreover have "snd e \<noteq> v" if "c = 255" using c(3) that ve by auto
      ultimately show ?thesis
        unfolding unf fill_def [symmetric] f prod.case using cnt c(1,2) d by (cases "c = 255") auto
    qed
  qed
qed

lemma find_loop_ok:
  "zl_ok zl (xs @ ys) \<Longrightarrow> cache_ok v venc vll \<Longrightarrow> length ys < n \<Longrightarrow>
    find_loop n zl (10 + total xs) v skip cnt venc vll =
      Inr (map_option (\<lambda>j. 10 + total (xs @ take j ys)) (search skip cnt v (map snd ys)))"
proof (induction ys arbitrary: xs n cnt venc vll)
  case Nil
  then show ?case using at_end [of zl xs] by (cases n) auto
next
  case (Cons y ys)
  obtain m where m: "n = Suc m" using Cons.prems(3) by (cases n) auto
  obtain venc' vll' where s: "cache_ok v venc' vll'" "find_loop n zl (10 + total xs) v skip cnt venc vll =
      (if cnt = 0 \<and> snd y = v then Inr (Some (10 + total xs))
       else find_loop m zl (10 + total xs + elen y) v skip (if cnt = 0 then skip else cnt - 1) venc' vll')"
    using find_step [OF Cons.prems(1,2), of m skip cnt] m by blast
  have "zl_ok zl ((xs @ [y]) @ ys)" using Cons.prems(1) by simp
  from Cons.IH [OF this s(1), of m "if cnt = 0 then skip else cnt - 1"] show ?case
    unfolding s(2) using Cons.prems(3) m by (auto simp: add.assoc option.map_comp comp_def)
qed

section \<open>Sequences of operations\<close>

datatype zop =
    ZPush "byte list" int | ZInsertAt int "byte list" | ZDeleteAt int | ZDeleteRange int nat | ZGetAt int | ZLength
  | ZFindText "byte list" nat

datatype zreply = ZDone | ZItem "zval option" | ZNum nat | ZAt "nat option"

text \<open>The client: entries are named by index. \<open>ZFindText\<close> searches from the head.\<close>

fun zl_step :: "(nat \<Rightarrow> byte) \<Rightarrow> byte list \<Rightarrow> zop \<Rightarrow> (zl_error, byte list \<times> zreply) result" where
  "zl_step g zl (ZPush s dest) = rbind (ziplistPush g zl s dest) (\<lambda>zl. Inr (zl, ZDone))"
| "zl_step g zl (ZInsertAt i s) =
     rbind (ziplistIndex zl i) (\<lambda>p. case p of None \<Rightarrow> Inr (zl, ZDone)
       | Some p \<Rightarrow> rbind (ziplistInsert g zl p s) (\<lambda>zl. Inr (zl, ZDone)))"
| "zl_step g zl (ZDeleteAt i) =
     rbind (ziplistIndex zl i) (\<lambda>p. case p of None \<Rightarrow> Inr (zl, ZDone)
       | Some p \<Rightarrow> rbind (ziplistDelete g zl p) (\<lambda>(zl, p). Inr (zl, ZDone)))"
| "zl_step g zl (ZDeleteRange i num) = rbind (ziplistDeleteRange g zl i num) (\<lambda>zl. Inr (zl, ZDone))"
| "zl_step g zl (ZGetAt i) = rbind (ziplistIndex zl i) (\<lambda>p. rbind (ziplistGet zl p) (\<lambda>v. Inr (zl, ZItem v)))"
| "zl_step g zl ZLength = rbind (ziplistLen zl) (\<lambda>(zl, n). Inr (zl, ZNum n))"
| "zl_step g zl (ZFindText v skip) = rbind (ziplistFind zl ZIPLIST_HEADER_SIZE v skip) (\<lambda>p. Inr (zl, ZAt p))"

text \<open>The same on the list of texts with their field widths.\<close>

definition ent_insert :: "nat \<Rightarrow> byte list \<Rightarrow> ent list \<Rightarrow> ent list" where
  "ent_insert k s es = (let b = (254 \<le> after 0 (take k es)) in take k es @ (b, s) # rejoin (elen (b, s)) (drop k es))"

definition ent_delete :: "nat \<Rightarrow> nat \<Rightarrow> ent list \<Rightarrow> ent list" where
  "ent_delete k num es = (if num = 0 then es else take k es @ rejoin (after 0 (take k es)) (drop (k + num) es))"

fun zspec :: "ent list \<Rightarrow> zop \<Rightarrow> ent list \<times> zreply" where
  "zspec es (ZPush s dest) = (ent_insert (if dest = 0 then 0 else length es) s es, ZDone)"
| "zspec es (ZInsertAt i s) = (if in_range es i then ent_insert (nat (pos (length es) i)) s es else es, ZDone)"
| "zspec es (ZDeleteAt i) = (if in_range es i then ent_delete (nat (pos (length es) i)) 1 es else es, ZDone)"
| "zspec es (ZDeleteRange i num) = (if in_range es i then ent_delete (nat (pos (length es) i)) num es else es, ZDone)"
| "zspec es (ZGetAt i) = (es, ZItem (if in_range es i then Some (zvalue (snd (es ! nat (pos (length es) i)))) else None))"
| "zspec es ZLength = (es, ZNum (length es))"
| "zspec es (ZFindText v skip) = (es, ZAt (map_option (\<lambda>j. 10 + total (take j es)) (search skip 0 v (map snd es))))"

text \<open>The index is a C \<open>int\<close> other than the least one, the block stays below 4 GB, and an insertion in front of a
  wide field needs at least the four bytes that narrowing it frees.\<close>

definition can_insert :: "nat \<Rightarrow> byte list \<Rightarrow> ent list \<Rightarrow> bool" where
  "can_insert k s es \<longleftrightarrow> room_kept (elen (254 \<le> after 0 (take k es), s)) (drop k es) \<and>
     16 + total es + length (payload s) + 4 * length es < 2 ^ 32"

fun zpre :: "ent list \<Rightarrow> zop \<Rightarrow> bool" where
  "zpre es (ZPush s dest) = can_insert (if dest = 0 then 0 else length es) s es"
| "zpre es (ZInsertAt i s) \<longleftrightarrow> - 2147483648 < i \<and> i < 2147483648 \<and> (in_range es i \<longrightarrow> can_insert (nat (pos (length es) i)) s es)"
| "zpre es (ZDeleteAt i) \<longleftrightarrow> - 2147483648 < i \<and> i < 2147483648 \<and> 11 + total es + 4 * length es < 2 ^ 32"
| "zpre es (ZDeleteRange i num) \<longleftrightarrow> - 2147483648 < i \<and> i < 2147483648 \<and> 11 + total es + 4 * length es < 2 ^ 32"
| "zpre es (ZGetAt i) \<longleftrightarrow> - 2147483648 < i \<and> i < 2147483648"
| "zpre es ZLength = True"
| "zpre es (ZFindText v skip) = True"

lemma elen_le: "elen (b, s) \<le> 5 + length (payload s)"
  by (simp add: elen_def)

lemma insert_at_ok:
  assumes "zl_ok zl es" and "can_insert k s es" and "k \<le> length es"
  shows "\<exists>zl'. ziplistInsert0 g zl (10 + total (take k es)) s = Inr zl' \<and> zl_ok zl' (ent_insert k s es)"
proof -
  have "11 + total (take k es @ drop k es) + elen (254 \<le> after 0 (take k es), s) + 4 * length (drop k es) < 2 ^ 32"
  proof -
    have "16 + total es + length (payload s) + 4 * length es < 2 ^ 32" using assms(2) by (simp add: can_insert_def)
    moreover have "4 * length (drop k es) \<le> 4 * length es" by simp
    ultimately show ?thesis
      using elen_le [of "254 \<le> after 0 (take k es)" s] unfolding append_take_drop_id by linarith
  qed
  then show ?thesis
    using insert_ok [of zl "take k es" "drop k es" s g] assms(1,2) by (simp add: can_insert_def ent_insert_def Let_def del: total_simps)
qed

lemma delete_at_ok:
  assumes "zl_ok zl es" and "k < length es" and "11 + total es + 4 * length es < 2 ^ 32"
  shows "\<exists>zl'. ziplistDelete0 g zl (10 + total (take k es)) num = Inr zl' \<and> zl_ok zl' (ent_delete k num es)"
proof (cases "num = 0")
  case True
  have "zl_ok zl (take k es @ es ! k # drop (Suc k) es)" using assms(1) split_nth [OF assms(2)] by simp
  then obtain z where "zipEntry zl (10 + total (take k es)) = Inr z" using at_entry(2) by blast
  then show ?thesis using True assms(1) by (simp add: ziplistDelete0_def ent_delete_def)
next
  case False
  have e: "es = take k es @ take num (drop k es) @ drop (k + num) es"
    by (metis add.commute append_take_drop_id drop_drop)
  have "11 + total (take k es @ take num (drop k es) @ drop (k + num) es) + 4 * length (drop (k + num) es) < 2 ^ 32"
    using assms(3) e by simp
  moreover have "take num (drop k es) \<noteq> []" using False assms(2) by simp
  moreover have "length (take num (drop k es)) = num \<or> drop (k + num) es = [] \<and> length (take num (drop k es)) \<le> num" by auto
  ultimately show ?thesis
    using delete_ok [of zl "take k es" "take num (drop k es)" "drop (k + num) es" num g] assms(1) e False
    by (simp add: ent_delete_def)
qed

lemma to_i32_index: "- 2147483648 < i \<Longrightarrow> i < 2147483648 \<Longrightarrow> to_i32 i = i"
  by (simp add: cint)

lemma range_nat: "in_range es i \<Longrightarrow> nat (pos (length es) i) < length es"
  by (auto simp: in_range_def)

lemma ziplist_step:
  assumes "zl_ok zl es" and "zpre es p"
  shows "\<exists>zl'. zl_step g zl p = Inr (zl', snd (zspec es p)) \<and> zl_ok zl' (fst (zspec es p))"
proof (cases p)
  case (ZPush s dest)
  define k where "k = (if dest = 0 then 0 else length es)"
  have "(if dest = ZIPLIST_HEAD then Inr (int ZIPLIST_HEADER_SIZE) else rbind (ZIPLIST_BYTES zl) (\<lambda>n. Inr (int n - 1))) =
      (Inr (int (10 + total (take k es))) :: (zl_error, int) result)"
    using bytes_ok [OF assms(1)] by (simp add: ZIPLIST_HEAD_def ZIPLIST_HEADER_SIZE_def k_def)
  then have "ziplistPush g zl s dest = ziplistInsert0 g zl (10 + total (take k es)) s"
    by (simp only: ziplistPush_def rbind_simps nat_int)
  moreover have "can_insert k s es" "k \<le> length es" using assms(2) ZPush by (simp_all add: k_def)
  from insert_at_ok [OF assms(1) this, of g] obtain zl' where
    "ziplistInsert0 g zl (10 + total (take k es)) s = Inr zl'" "zl_ok zl' (ent_insert k s es)" by blast
  ultimately show ?thesis using ZPush by (simp add: k_def)
next
  case (ZInsertAt i s)
  then show ?thesis
    using assms ziplistIndex_ok [of zl es i] insert_at_ok [of zl es "nat (pos (length es) i)" s g] range_nat [of es i]
    by (cases "in_range es i") (auto simp: ziplistInsert_def)
next
  case (ZDeleteAt i)
  then show ?thesis
    using assms ziplistIndex_ok [of zl es i] delete_at_ok [of zl es "nat (pos (length es) i)" g 1] range_nat [of es i]
    by (cases "in_range es i") (auto simp: ziplistDelete_def)
next
  case (ZDeleteRange i num)
  then show ?thesis
    using assms ziplistIndex_ok [of zl es i] delete_at_ok [of zl es "nat (pos (length es) i)" g num] range_nat [of es i]
    by (cases "in_range es i") (auto simp: ziplistDeleteRange_def to_i32_index)
next
  case (ZGetAt i)
  show ?thesis
  proof (cases "in_range es i")
    case True
    define k where "k = nat (pos (length es) i)"
    have "zl_ok zl (take k es @ es ! k # drop (Suc k) es)" using assms(1) split_nth [of k es] range_nat [OF True] by (simp add: k_def)
    from ziplistGet_ok [OF this] show ?thesis using ZGetAt True assms ziplistIndex_ok [of zl es i] by (simp add: k_def)
  next
    case False
    then show ?thesis using ZGetAt assms ziplistIndex_ok [of zl es i] by (simp add: ziplistGet_def)
  qed
next
  case ZLength
  then show ?thesis using ziplistLen_ok [OF assms(1)] by auto
next
  case (ZFindText v skip)
  have "length es < length zl" using bytes_ok [OF assms(1)] length_le_total [of es] by simp
  then show ?thesis
    using ZFindText assms(1) find_loop_ok [of zl "[]" es v 0 0 "length zl" skip 0]
    by (simp add: ziplistFind_def cache_ok_def ZIPLIST_HEADER_SIZE_def)
qed

interpretation ziplist: simulation "zl_step g" zl_ok zspec zpre for g
  by unfold_locales (rule ziplist_step)

lemma ziplistNew_ok: "zl_ok ziplistNew []"
  by (auto simp: zl_ok_def ziplistNew_def hdr_def zip_consts intro!: exI [of _ 0])

text \<open>The texts alone.\<close>

fun text_spec :: "byte list list \<Rightarrow> zop \<Rightarrow> byte list list" where
  "text_spec ts (ZPush s dest) = (if dest = 0 then s # ts else ts @ [s])"
| "text_spec ts (ZInsertAt i s) =
     (if in_range ts i then let k = nat (pos (length ts) i) in take k ts @ s # drop k ts else ts)"
| "text_spec ts (ZDeleteAt i) =
     (if in_range ts i then let k = nat (pos (length ts) i) in take k ts @ drop (k + 1) ts else ts)"
| "text_spec ts (ZDeleteRange i num) =
     (if in_range ts i then let k = nat (pos (length ts) i) in take k ts @ drop (k + num) ts else ts)"
| "text_spec ts _ = ts"

lemma map_take_drop: "map f (take k xs) @ map f (drop k xs) = map f xs"
  by (metis append_take_drop_id map_append)

lemma zspec_texts: "map snd (fst (zspec es p)) = text_spec (map snd es) p"
  by (cases p) (auto simp: map_take_drop ent_insert_def ent_delete_def Let_def in_range_def take_map drop_map)

lemma zspec_fold_texts: "map snd (fst (spec_fold zspec es ps)) = foldl text_spec (map snd es) ps"
  by (induction ps arbitrary: es) (auto simp: split_beta Let_def zspec_texts [symmetric])


lemma payload_simps:
  "payload [49] = [242]" "payload [120] = [1, 120]"
  "zipTryEncoding [49] = Some (1, 242)" "zipTryEncoding [120] = None"
  by code_simp+

lemma zvalue_examples: "zvalue [49] = ZInt 1" "zvalue [120] = ZStr [120]"
  by (simp_all add: zvalue_def payload_simps)


text \<open>
  C28. Values survive their encoding: reading back a text pushed into an empty ziplist gives the text itself, or,
  exactly when it is the decimal text (of fewer than 32 bytes) of a 64-bit integer, that integer, through
  all string and integer encodings.
\<close>

theorem ziplist_value_roundtrip:
  assumes "length (payload s) + 16 < 2 ^ 32"
  shows "\<exists>zl. ziplistPush g ziplistNew s dest = Inr zl \<and> ziplistGet zl (Some 10) = Inr (Some (zvalue s)) \<and>
    (case zvalue s of ZStr t \<Rightarrow> t = s \<and> (\<nexists>v. is_ll v \<and> map bchar s = ll_text v \<and> length s < 32)
     | ZInt v \<Rightarrow> is_ll v \<and> map bchar s = ll_text v)"
proof -
  have "can_insert 0 s []" using assms by (simp add: can_insert_def room_kept_def)
  then obtain zl where zl: "zl_step g ziplistNew (ZPush s dest) = Inr (zl, ZDone)" "zl_ok zl [(False, s)]"
    using ziplist.step_law [OF ziplistNew_ok, of "ZPush s dest" g] by (cases "dest = 0") (auto simp: ent_insert_def)
  have "ziplistPush g ziplistNew s dest = Inr zl"
    using zl(1) by (cases "ziplistPush g ziplistNew s dest") auto
  moreover have "ziplistGet zl (Some 10) = Inr (Some (zvalue s))" using ziplistGet_ok [of zl "[]" "(False, s)" "[]"] zl(2) by simp
  moreover have "case zvalue s of ZStr t \<Rightarrow> t = s \<and> (\<nexists>v. is_ll v \<and> map bchar s = ll_text v \<and> length s < 32)
     | ZInt v \<Rightarrow> is_ll v \<and> map bchar s = ll_text v"
  proof (cases "zipTryEncoding s")
    case None
    have "\<nexists>v. is_ll v \<and> map bchar s = ll_text v \<and> length s < 32"
    proof
      assume "\<exists>v. is_ll v \<and> map bchar s = ll_text v \<and> length s < 32"
      then obtain v where v: "is_ll v" "map bchar s = ll_text v" "length s < 32" by blast
      then have "string2ll (map bchar s) = Some v" using string2ll_ll_text by simp
      moreover have "s \<noteq> []" using calculation by (auto simp: string2ll_def)
      ultimately show False using None v(3) by (auto simp: zipTryEncoding_def)
    qed
    then show ?thesis using None by (simp add: zvalue_def)
  next
    case (Some p)
    then obtain v e where ve: "zipTryEncoding s = Some (v, e)" by (cases p) auto
    then show ?thesis using try_encoding_int [OF ve] string2ll_canonical [of "map bchar s" v] by (auto simp: zvalue_def)
  qed
  ultimately show ?thesis by blast
qed

theorem ziplist_value_roundtrip_witness:
  "\<exists>zl. ziplistPush (\<lambda>_. 0) ziplistNew [49] 0 = Inr zl \<and> ziplistGet zl (Some 10) = Inr (Some (ZInt 1))"
  using ziplist_value_roundtrip [of "[49]" "\<lambda>_. 0" 0] by (auto simp: payload_simps zvalue_examples)

section \<open>The insertion that loses bytes\<close>

text \<open>
  C29. Inserting in front of a wide back link can run off the block: when the link of the next entry is five bytes wide
  though the previous entry is short, as a cascade leaves it, and the new entry takes two bytes, the block is
  first shrunk by two bytes and then read up to its old end.
\<close>

theorem ziplistInsert_narrow_faults:
  assumes "zl_ok zl (xs @ (True, t) # ys)" and "after 0 xs < 254" and "length (payload s) = 1"
  shows "ziplistInsert g zl (10 + total xs) s = Inl OutOfBlock"
proof -
  let ?q = "after 0 xs" and ?p = "10 + total xs" and ?y = "(True, t)"
  define n where "n = 11 + total (xs @ ?y # ys)"
  define T where "T = 10 + lastoff (xs @ ?y # ys)"
  obtain c where zl: "zl = hdr n T c @ layout 0 (xs @ ?y # ys) @ [255]" "n < 2 ^ 32"
    using assms(1) unfolding zl_ok_def n_def T_def by blast
  have r: "elen (254 \<le> ?q, s) = 2" using assms(2,3) by (simp add: elen_def)
  have len: "length zl = n" using bytes_ok [OF assms(1)] by (simp add: n_def)
  have big: "?p + 7 \<le> n" using payload_ge [of t] by (simp add: n_def elen_def)
  obtain A R where A: "zl = A @ ebytes ?q ?y @ R" "length A = ?p" "entry_ok ?q ?y" using zl_split [OF assms(1)] by blast
  obtain b where b: "rd zl ?p = Inr b" "b \<noteq> ZIP_END" using at_entry(1) [OF assms(1)] by blast
  have q: "prev_length zl ?p b = Inr ?q" using b at_entry(2) [OF assms(1)] by (auto simp: prev_length_def entry_of_def)
  have bd: "zipPrevLenByteDiff zl ?p 2 = Inr (- 4)" using entry_byte_diff [OF A(3), of A R 2] A(1,2) by simp
  define m where "m = n - 12"
  have m: "10 + m < 2 ^ 32" "1 \<le> m" "int n + int 2 + - 4 = int (10 + m)" using big zl(2) by (simp_all add: m_def)
  obtain Y where Y: "ziplistResize g zl (int n + int 2 + - 4) = Inr (hdr (10 + m) T c @ Y @ [255])" "length Y = m - 1"
    "\<forall>k. k \<le> m - 1 \<longrightarrow> k \<le> length (layout 0 (xs @ ?y # ys) @ [255]) \<longrightarrow> take k Y = take k (layout 0 (xs @ ?y # ys) @ [255])"
    using resize_hdr [OF m, of g n T c "layout 0 (xs @ ?y # ys) @ [255]"] zl(1) by auto
  let ?zl = "hdr (10 + m) T c @ Y @ [255]"
  have "rd ?zl ?p = rd zl ?p"
  proof -
    have k: "total xs + 1 \<le> m - 1" using big by (simp add: m_def)
    moreover have "total xs + 1 \<le> length (layout 0 (xs @ ?y # ys) @ [255])" by simp
    ultimately have "take (total xs + 1) Y = take (total xs + 1) (layout 0 (xs @ ?y # ys) @ [255])" using Y(3) by blast
    then have "Y ! total xs = (layout 0 (xs @ ?y # ys) @ [255]) ! total xs"
      by (metis less_add_one nth_take)
    then show ?thesis using k Y(2) zl(1) len big by (simp add: rd_def nth_append)
  qed
  moreover have "memmove ?zl (?p + 2) (nat (int ?p - - 4)) (nat (int n - int ?p - 1 + - 4)) = Inl OutOfBlock"
  proof -
    have e: "nat (int ?p - - 4) + nat (int n - int ?p - 1 + - 4) = n - 1" "length ?zl = n - 2" using big Y(2) m by (auto simp: m_def)
    have "\<not> n - 1 \<le> n - 2" using big by linarith
    then have "\<not> nat (int ?p - - 4) + nat (int n - int ?p - 1 + - 4) \<le> length ?zl" unfolding e .
    then show ?thesis unfolding memmove_def rdn_def by (simp only: if_False rbind_simps)
  qed
  moreover have "ZIPLIST_BYTES zl = Inr n" using bytes_ok [OF assms(1)] by (simp add: n_def)
  ultimately show ?thesis
    unfolding ziplistInsert_def insert_unfold using b q r bd Y(1)
    by (simp add: Let_def shift_tail_def)
qed

text \<open>Such a block is reached by pushing three texts and deleting the first.\<close>

definition narrow_ops :: "zop list" where
  "narrow_ops = [ZPush (replicate 300 97) 1, ZPush (replicate 250 98) 1, ZPush [120] 1, ZDeleteAt 0]"

lemma long_text: "32 \<le> n \<Longrightarrow> zipTryEncoding (replicate n b) = None"
  by (simp add: zipTryEncoding_def)

lemma long_payload:
  "length (payload (replicate 300 97)) = 302" "length (payload (replicate 250 98)) = 252"
  by (simp_all add: payload_def long_text sdata_str zipEncodeLength_def ZIP_IS_STR_iff)

lemma narrow_reachable:
  "admissible zspec zpre [] narrow_ops \<and>
   fst (spec_fold zspec [] narrow_ops) = [(False, replicate 250 98)] @ (True, [120]) # []"
  by (simp add: narrow_ops_def can_insert_def room_kept_def ent_insert_def ent_delete_def in_range_def pos_def elen_def
      payload_simps long_payload Let_def)

theorem ziplistInsert_narrow_faults_witness:
  "\<exists>zl rs. run (zl_step (\<lambda>_. 0)) ziplistNew narrow_ops = Inr (zl, rs) \<and>
     ziplistInsert (\<lambda>_. 0) zl 263 [49] = Inl OutOfBlock"
proof -
  obtain zl where zl: "run (zl_step (\<lambda>_. 0)) ziplistNew narrow_ops = Inr (zl, snd (spec_fold zspec [] narrow_ops))"
    "zl_ok zl ([(False, replicate 250 98)] @ (True, [120]) # [])"
    using ziplist.run_law [OF ziplistNew_ok, of narrow_ops "\<lambda>_. 0"] narrow_reachable by auto
  have "ziplistInsert (\<lambda>_. 0) zl (10 + total [(False, replicate 250 98)]) [49] = Inl OutOfBlock"
    using ziplistInsert_narrow_faults [OF zl(2), of "[49]" "\<lambda>_. 0"] by (simp add: elen_def long_payload payload_simps)
  then show ?thesis using zl(1) by (simp add: elen_def long_payload)
qed

end
