(* ===== verification/Object.thy ===== *)
theory Object
  imports Sds Refine "HOL-Library.Multiset"
begin

text \<open>
  \<open>object.c\<close>: the reference-counted objects, for the type \<open>REDIS_STRING\<close> with its raw and integer encodings.
  Objects live in a store and are shared by address; every access to a released object is an error. The
  \<open>ptr\<close> field is a tagged value, as the encoding says how the code reads it: a dynamic string, a \<open>long\<close>
  or NULL; the containers of the other types are opaque here. Freshly allocated bytes are the argument \<open>g\<close>, as for the strings.
\<close>

section \<open>Objects and their store\<close>

datatype optr = PNull | PSds sdshdr | PLong int | POther

record robj =
  otype :: int
  oencoding :: int
  lru :: int
  refcount :: int
  optr :: optr

record ostore =
  objs :: "nat \<Rightarrow> robj option"
  nextobj :: nat                  \<comment> \<open>the identity of the next object \<open>zmalloc\<close> gives\<close>
  lruclock :: int
  maxmemory :: int
  shared_integers :: "nat list"   \<comment> \<open>\<open>shared.integers\<close>\<close>

datatype obj_error =
    Panic                         \<comment> \<open>\<open>redisPanic\<close>\<close>
  | Assertion                     \<comment> \<open>\<open>redisAssert\<close>\<close>
  | Dangling nat                  \<comment> \<open>a released object is used\<close>
  | WrongPtr                      \<comment> \<open>\<open>ptr\<close> is read as something it is not\<close>
  | ArrayBounds                   \<comment> \<open>an access outside a C array\<close>
  | Unfinished                    \<comment> \<open>the rounds given to a loop are used up\<close>
  | SdsFault sds_error

definition REDIS_STRING :: int where "REDIS_STRING = 0"
definition REDIS_LIST :: int where "REDIS_LIST = 1"
definition REDIS_SET :: int where "REDIS_SET = 2"
definition REDIS_ZSET :: int where "REDIS_ZSET = 3"
definition REDIS_HASH :: int where "REDIS_HASH = 4"
definition REDIS_ENCODING_RAW :: int where "REDIS_ENCODING_RAW = 0"
definition REDIS_ENCODING_INT :: int where "REDIS_ENCODING_INT = 1"
definition REDIS_SHARED_INTEGERS :: int where "REDIS_SHARED_INTEGERS = 10000"

lemmas obj_consts = REDIS_STRING_def REDIS_LIST_def REDIS_SET_def REDIS_ZSET_def REDIS_HASH_def
  REDIS_ENCODING_RAW_def REDIS_ENCODING_INT_def REDIS_SHARED_INTEGERS_def

definition sds_lift :: "(sds_error, 'a) result \<Rightarrow> (obj_error, 'a) result" where
  "sds_lift r = (case r of Inl e \<Rightarrow> Inl (SdsFault e) | Inr x \<Rightarrow> Inr x)"

definition obj_at :: "ostore \<Rightarrow> nat \<Rightarrow> (obj_error, robj) result" where
  "obj_at h a = opt_or (Dangling a) (objs h a)"

definition store :: "ostore \<Rightarrow> nat \<Rightarrow> robj \<Rightarrow> ostore" where
  "store h a ob = h\<lparr>objs := (objs h)(a \<mapsto> ob)\<rparr>"

definition ptr_sds :: "robj \<Rightarrow> (obj_error, sdshdr) result" where
  "ptr_sds ob = (case optr ob of PSds s \<Rightarrow> Inr s | _ \<Rightarrow> Inl WrongPtr)"

definition ptr_long :: "robj \<Rightarrow> (obj_error, int) result" where
  "ptr_long ob = (case optr ob of PLong n \<Rightarrow> Inr n | _ \<Rightarrow> Inl WrongPtr)"

section \<open>Creation and reference counting\<close>

definition createObject :: "int \<Rightarrow> optr \<Rightarrow> ostore \<Rightarrow> nat \<times> ostore" where
  "createObject type p h =
     (let a = nextobj h;
          ob = \<lparr>otype = type, oencoding = REDIS_ENCODING_RAW, lru = lruclock h, refcount = 1, optr = p\<rparr>
      in (a, (store h a ob)\<lparr>nextobj := a + 1\<rparr>))"

definition createStringObject ::
    "(nat \<Rightarrow> char) \<Rightarrow> char list \<Rightarrow> int \<Rightarrow> ostore \<Rightarrow> (obj_error, nat \<times> ostore) result" where
  "createStringObject g p len h =
     rbind (sds_lift (sdsnewlen g (Some p) len)) (\<lambda>s. Inr (createObject REDIS_STRING (PSds s) h))"

definition incrRefCount :: "nat \<Rightarrow> ostore \<Rightarrow> (obj_error, ostore) result" where
  "incrRefCount a h = rbind (obj_at h a) (\<lambda>ob. Inr (store h a (ob\<lparr>refcount := to_i32 (refcount ob + 1)\<rparr>)))"

definition decrRefCount :: "nat \<Rightarrow> ostore \<Rightarrow> (obj_error, ostore) result" where
  "decrRefCount a h =
     rbind (obj_at h a) (\<lambda>ob.
       if refcount ob \<le> 0 then Inl Panic
       else if refcount ob = 1 then
         if otype ob \<in> {REDIS_STRING, REDIS_LIST, REDIS_SET, REDIS_ZSET, REDIS_HASH}
         then Inr (h\<lparr>objs := (objs h)(a := None)\<rparr>)
         else Inl Panic
       else Inr (store h a (ob\<lparr>refcount := refcount ob - 1\<rparr>)))"

definition resetRefCount :: "nat \<Rightarrow> ostore \<Rightarrow> (obj_error, ostore) result" where
  "resetRefCount a h = rbind (obj_at h a) (\<lambda>ob. Inr (store h a (ob\<lparr>refcount := 0\<rparr>)))"

definition shared_integer :: "ostore \<Rightarrow> int \<Rightarrow> (obj_error, nat) result" where
  "shared_integer h v =
     (if 0 \<le> v \<and> v < int (length (shared_integers h)) then Inr (shared_integers h ! nat v) else Inl ArrayBounds)"

definition createStringObjectFromLongLong ::
    "(nat \<Rightarrow> char) \<Rightarrow> int \<Rightarrow> ostore \<Rightarrow> (obj_error, nat \<times> ostore) result" where
  "createStringObjectFromLongLong g value h =
     (if 0 \<le> value \<and> value < REDIS_SHARED_INTEGERS then
        rbind (shared_integer h value) (\<lambda>a. rbind (incrRefCount a h) (\<lambda>h. Inr (a, h)))
      else if LLONG_MIN \<le> value \<and> value \<le> LLONG_MAX then
        (let (a, h) = createObject REDIS_STRING PNull h in
         rbind (obj_at h a) (\<lambda>ob.
           Inr (a, store h a (ob\<lparr>oencoding := REDIS_ENCODING_INT, optr := PLong value\<rparr>))))
      else rbind (sds_lift (sdsfromlonglong g value)) (\<lambda>s. Inr (createObject REDIS_STRING (PSds s) h)))"

definition dupStringObject :: "(nat \<Rightarrow> char) \<Rightarrow> nat \<Rightarrow> ostore \<Rightarrow> (obj_error, nat \<times> ostore) result" where
  "dupStringObject g a h =
     rbind (obj_at h a) (\<lambda>ob.
       if oencoding ob \<noteq> REDIS_ENCODING_RAW then Inl Assertion
       else rbind (ptr_sds ob) (\<lambda>s. createStringObject g (sh_buf s) (sdslen s) h))"

section \<open>Encodings\<close>

definition isObjectRepresentableAsLongLong :: "nat \<Rightarrow> ostore \<Rightarrow> (obj_error, int option) result" where
  "isObjectRepresentableAsLongLong a h =
     rbind (obj_at h a) (\<lambda>ob.
       if otype ob \<noteq> REDIS_STRING then Inl Assertion
       else if oencoding ob = REDIS_ENCODING_INT then rbind (ptr_long ob) (\<lambda>n. Inr (Some n))
       else rbind (ptr_sds ob) (\<lambda>s.
            rbind (sds_lift (region (sh_buf s) (sdslen s))) (\<lambda>t. Inr (string2ll t))))"

definition tryObjectEncoding :: "(nat \<Rightarrow> char) \<Rightarrow> nat \<Rightarrow> ostore \<Rightarrow> (obj_error, nat \<times> ostore) result" where
  "tryObjectEncoding g a h =
     rbind (obj_at h a) (\<lambda>ob.
       if oencoding ob \<noteq> REDIS_ENCODING_RAW then Inr (a, h)
       else if refcount ob > 1 then Inr (a, h)
       else if otype ob \<noteq> REDIS_STRING then Inl Assertion
       else rbind (ptr_sds ob) (\<lambda>s.
         let len = sdslen s in
         rbind (if len > 21 then Inr None
                else rbind (sds_lift (region (sh_buf s) len)) (\<lambda>t. Inr (string2l t))) (\<lambda>value.
         case value of
           None \<Rightarrow>
             if len > 32 \<and> sdsavail s > len div 10
             then Inr (a, store h a (ob\<lparr>optr := PSds (sdsRemoveFreeSpace g s)\<rparr>))
             else Inr (a, h)
         | Some value \<Rightarrow>
             if maxmemory h = 0 \<and> 0 \<le> value \<and> value < REDIS_SHARED_INTEGERS then
               rbind (decrRefCount a h) (\<lambda>h.
               rbind (shared_integer h value) (\<lambda>b.
               rbind (incrRefCount b h) (\<lambda>h. Inr (b, h))))
             else Inr (a, store h a (ob\<lparr>oencoding := REDIS_ENCODING_INT, optr := PLong value\<rparr>)))))"

definition getDecodedObject :: "(nat \<Rightarrow> char) \<Rightarrow> nat \<Rightarrow> ostore \<Rightarrow> (obj_error, nat \<times> ostore) result" where
  "getDecodedObject g a h =
     rbind (obj_at h a) (\<lambda>ob.
       if oencoding ob = REDIS_ENCODING_RAW then rbind (incrRefCount a h) (\<lambda>h. Inr (a, h))
       else if otype ob = REDIS_STRING \<and> oencoding ob = REDIS_ENCODING_INT then
         rbind (ptr_long ob) (\<lambda>n.
         let buf = fst (ll2string 32 n) in
         rbind (sds_lift (strlen buf)) (\<lambda>len. createStringObject g buf len h))
       else Inl Panic)"

section \<open>Comparison\<close>

text \<open>\<open>strcmp\<close> on two terminated buffers.\<close>

fun strcmp :: "char list \<Rightarrow> char list \<Rightarrow> (obj_error, int) result" where
  "strcmp [] ys = Inl (SdsFault ReadOverflow)"
| "strcmp (x # xs) [] = Inl (SdsFault ReadOverflow)"
| "strcmp (x # xs) (y # ys) =
     (if x \<noteq> y then Inr (uchar x - uchar y) else if x = NUL then Inr 0 else strcmp xs ys)"

text \<open>The string an object stands for on the stack of \<open>compareStringObjects\<close>: its own buffer, or the buffer that
  \<open>ll2string\<close> filled.\<close>

definition obj_chars :: "robj \<Rightarrow> (obj_error, char list \<times> sdshdr option) result" where
  "obj_chars ob =
     (if oencoding ob \<noteq> REDIS_ENCODING_RAW
      then rbind (ptr_long ob) (\<lambda>n. Inr (fst (ll2string 128 n), None))
      else rbind (ptr_sds ob) (\<lambda>s. Inr (sh_buf s, Some s)))"

definition compareStringObjects :: "nat \<Rightarrow> nat \<Rightarrow> ostore \<Rightarrow> (obj_error, int) result" where
  "compareStringObjects a b h =
     rbind (obj_at h a) (\<lambda>oa. rbind (obj_at h b) (\<lambda>ob.
       if otype oa \<noteq> REDIS_STRING \<or> otype ob \<noteq> REDIS_STRING then Inl Assertion
       else if a = b then Inr 0
       else rbind (obj_chars oa) (\<lambda>(astr, asds). rbind (obj_chars ob) (\<lambda>(bstr, bsds).
         case (asds, bsds) of (Some s, Some t) \<Rightarrow> Inr (sdscmp s t) | _ \<Rightarrow> strcmp astr bstr))))"

definition equalStringObjects :: "nat \<Rightarrow> nat \<Rightarrow> ostore \<Rightarrow> (obj_error, bool) result" where
  "equalStringObjects a b h =
     rbind (obj_at h a) (\<lambda>oa. rbind (obj_at h b) (\<lambda>ob.
       if oencoding oa \<noteq> REDIS_ENCODING_RAW \<and> oencoding ob \<noteq> REDIS_ENCODING_RAW
       then Inr (optr oa = optr ob)
       else rbind (compareStringObjects a b h) (\<lambda>c. Inr (c = 0))))"

definition stringObjectLen :: "nat \<Rightarrow> ostore \<Rightarrow> (obj_error, int) result" where
  "stringObjectLen a h =
     rbind (obj_at h a) (\<lambda>ob.
       if otype ob \<noteq> REDIS_STRING then Inl Assertion
       else if oencoding ob = REDIS_ENCODING_RAW then rbind (ptr_sds ob) (\<lambda>s. Inr (sdslen s))
       else rbind (ptr_long ob) (\<lambda>n. Inr (int (snd (ll2string 32 n)))))"

text \<open>\<open>strtoll\<close> in base 10 on a terminated buffer: the value, whether \<open>errno\<close> is \<open>ERANGE\<close>, and the text behind
  the number (the whole text when there are no digits).\<close>

definition strtoll :: "char list \<Rightarrow> (obj_error, int \<times> bool \<times> char list) result" where
  "strtoll buf =
     (if NUL \<notin> set buf then Inl (SdsFault ReadOverflow)
      else let s = cstr buf;
               p = dropWhile isspace s;
               neg = (p \<noteq> [] \<and> hd p = CHR ''-'');
               p = (if p \<noteq> [] \<and> (hd p = CHR ''-'' \<or> hd p = CHR ''+'') then tl p else p);
               ds = takeWhile isdigit p;
               v = (if neg then - dec_value 0 ds else dec_value 0 ds)
           in if ds = [] then Inr (0, False, s)
              else if v < LLONG_MIN then Inr (LLONG_MIN, True, dropWhile isdigit p)
              else if v > LLONG_MAX then Inr (LLONG_MAX, True, dropWhile isdigit p)
              else Inr (v, False, dropWhile isdigit p))"

definition getLongLongFromObject :: "nat option \<Rightarrow> ostore \<Rightarrow> (obj_error, int option) result" where
  "getLongLongFromObject ao h =
     (case ao of None \<Rightarrow> Inr (Some 0)
      | Some a \<Rightarrow>
          rbind (obj_at h a) (\<lambda>ob.
            if otype ob \<noteq> REDIS_STRING then Inl Assertion
            else if oencoding ob = REDIS_ENCODING_RAW then
              rbind (ptr_sds ob) (\<lambda>s.
              rbind (strtoll (sh_buf s)) (\<lambda>(value, erange, eptr).
                if isspace (hd (sh_buf s)) \<or> eptr \<noteq> [] \<or> erange then Inr None else Inr (Some value)))
            else if oencoding ob = REDIS_ENCODING_INT then rbind (ptr_long ob) (\<lambda>n. Inr (Some n))
            else Inl Panic))"

section \<open>Well-formed stores\<close>

text \<open>
  The encoding tag agrees with \<open>ptr\<close>, and every count is the number of references: those in the list
  \<open>held\<close>, one for each object the rest of the program owns, and the one of the table of shared integers.
\<close>

definition str_ok :: "robj \<Rightarrow> bool" where
  "str_ok ob \<longleftrightarrow> otype ob = REDIS_STRING \<and>
     (oencoding ob = REDIS_ENCODING_RAW \<and> (\<exists>s. optr ob = PSds s \<and> sds_ok s) \<or>
      oencoding ob = REDIS_ENCODING_INT \<and> (\<exists>n. optr ob = PLong n \<and> is_ll n))"

text \<open>An object whose \<open>ptr\<close> is still NULL: the placeholder of a multi bulk length.\<close>

definition cell_ok :: "robj \<Rightarrow> bool" where
  "cell_ok ob \<longleftrightarrow> str_ok ob \<or> otype ob = REDIS_STRING \<and> oencoding ob = REDIS_ENCODING_RAW \<and> optr ob = PNull"

definition solid :: "ostore \<Rightarrow> nat \<Rightarrow> bool" where
  "solid h a \<longleftrightarrow> (\<exists>ob. objs h a = Some ob \<and> optr ob \<noteq> PNull)"

definition obj_text :: "robj \<Rightarrow> char list" where
  "obj_text ob = (case optr ob of PSds s \<Rightarrow> sds_str s | PLong n \<Rightarrow> ll_text n | _ \<Rightarrow> [])"

definition text_at :: "ostore \<Rightarrow> nat \<Rightarrow> char list" where
  "text_at h a = (case objs h a of Some ob \<Rightarrow> obj_text ob | None \<Rightarrow> [])"

definition refs :: "ostore \<Rightarrow> nat list \<Rightarrow> nat \<Rightarrow> nat" where
  "refs h held a = count_list held a + count_list (shared_integers h) a"

definition shared_ok :: "ostore \<Rightarrow> bool" where
  "shared_ok h \<longleftrightarrow> length (shared_integers h) = 10000 \<and> distinct (shared_integers h) \<and>
     (\<forall>i < 10000. \<exists>ob. objs h (shared_integers h ! i) = Some ob \<and> optr ob = PLong (int i))"

definition REF_LIMIT :: nat where "REF_LIMIT = 2 ^ 30"

definition store_ok :: "ostore \<Rightarrow> nat list \<Rightarrow> bool" where
  "store_ok h held \<longleftrightarrow>
     (\<forall>a ob. objs h a = Some ob \<longrightarrow> cell_ok ob \<and> a < nextobj h \<and> refcount ob = int (refs h held a) \<and> 0 < refs h held a) \<and>
     (\<forall>a\<in>set held. objs h a \<noteq> None) \<and> shared_ok h \<and> length held \<le> REF_LIMIT"

lemma str_ok_cases:
  assumes "str_ok ob"
  obtains s where "otype ob = REDIS_STRING" "oencoding ob = REDIS_ENCODING_RAW" "optr ob = PSds s" "sds_ok s" "obj_text ob = sds_str s"
  | n where "otype ob = REDIS_STRING" "oencoding ob = REDIS_ENCODING_INT" "optr ob = PLong n" "is_ll n" "obj_text ob = ll_text n"
  using assms by (auto simp: str_ok_def obj_text_def)

lemma encodings_differ [simp]: "REDIS_ENCODING_INT \<noteq> REDIS_ENCODING_RAW" "REDIS_ENCODING_RAW \<noteq> REDIS_ENCODING_INT"
  by (simp_all add: obj_consts)

lemma ptr_simps [simp]:
  "optr ob = PSds s \<Longrightarrow> ptr_sds ob = Inr s" "optr ob = PLong n \<Longrightarrow> ptr_long ob = Inr n"
  by (simp_all add: ptr_sds_def ptr_long_def)

lemma obj_at_simps [simp]: "objs h a = Some ob \<Longrightarrow> obj_at h a = Inr ob"
  by (simp add: obj_at_def)

lemma sds_lift_simps [simp]: "sds_lift (Inr x) = Inr x" "sds_lift (Inl e) = Inl (SdsFault e)"
  by (simp_all add: sds_lift_def)

lemma store_simps [simp]:
  "objs (store h a ob) = (objs h)(a \<mapsto> ob)" "nextobj (store h a ob) = nextobj h"
  "shared_integers (store h a ob) = shared_integers h" "maxmemory (store h a ob) = maxmemory h"
  by (simp_all add: store_def)

lemma held_live:
  assumes "store_ok h held" and "a \<in> set held \<or> a \<in> set (shared_integers h)"
  obtains ob where "objs h a = Some ob" "cell_ok ob" "refcount ob = int (refs h held a)" "0 < refs h held a" "text_at h a = obj_text ob"
proof -
  have "objs h a \<noteq> None"
    using assms by (fastforce simp: store_ok_def shared_ok_def in_set_conv_nth)
  then show thesis using assms(1) that by (fastforce simp: store_ok_def text_at_def)
qed

lemma held_str:
  assumes "store_ok h held" and "solid h a"
  obtains ob where "objs h a = Some ob" "str_ok ob" "text_at h a = obj_text ob"
  using assms by (auto simp: solid_def store_ok_def cell_ok_def text_at_def)

lemma refs_app: "refs h (xs @ ys) a = refs h xs a + count_list ys a"
  by (simp add: refs_def)

lemma count_le: "distinct xs \<Longrightarrow> count_list xs a \<le> 1"
  by (induction xs) (auto simp: count_list_0_iff)

lemma refs_bound: "store_ok h held \<Longrightarrow> refs h held a \<le> REF_LIMIT + 1"
  using count_le [of "shared_integers h" a] count_le_length [of held a]
  by (fastforce simp: store_ok_def shared_ok_def refs_def)

lemma recount [simp]: "str_ok (ob\<lparr>refcount := n\<rparr>) = str_ok ob" "cell_ok (ob\<lparr>refcount := n\<rparr>) = cell_ok ob" "obj_text (ob\<lparr>refcount := n\<rparr>) = obj_text ob"
  by (simp_all add: str_ok_def cell_ok_def obj_text_def)

lemma refs_store [simp]: "refs (store h a ob) held = refs h held"
  by (simp add: refs_def fun_eq_iff)

section \<open>The operations on well-formed stores\<close>

text \<open>An operation keeps the texts of the objects in use.\<close>

definition keeps :: "ostore \<Rightarrow> ostore \<Rightarrow> nat set \<Rightarrow> bool" where
  "keeps h h' A \<longleftrightarrow> (\<forall>a\<in>A. text_at h' a = text_at h a \<and> solid h' a = solid h a)"

text \<open>Most operations keep more: what the objects hold.\<close>

definition payload :: "ostore \<Rightarrow> nat \<Rightarrow> (int \<times> optr) option" where
  "payload h a = map_option (\<lambda>ob. (oencoding ob, optr ob)) (objs h a)"

definition same :: "ostore \<Rightarrow> ostore \<Rightarrow> nat set \<Rightarrow> bool" where
  "same h h' A \<longleftrightarrow> (\<forall>a\<in>A. payload h' a = payload h a)"

lemma payload_eq: "payload h' a = payload h a \<Longrightarrow> text_at h' a = text_at h a \<and> solid h' a = solid h a"
  by (cases "objs h a"; cases "objs h' a") (auto simp: payload_def text_at_def solid_def obj_text_def)

lemma same_keeps: "same h h' A \<Longrightarrow> keeps h h' A"
  by (auto simp: same_def keeps_def dest: payload_eq)

lemma same_UNIV: "same h h' UNIV \<Longrightarrow> text_at h' a = text_at h a \<and> solid h' a = solid h a \<and> same h h' A"
  using payload_eq [of h' a h] by (simp add: same_def)

text \<open>An object in the raw encoding.\<close>

definition is_raw :: "ostore \<Rightarrow> nat \<Rightarrow> bool" where
  "is_raw h a \<longleftrightarrow> map_option fst (payload h a) = Some REDIS_ENCODING_RAW"

lemma is_raw_eq: "payload h' a = payload h a \<Longrightarrow> is_raw h' a = is_raw h a"
  by (simp add: is_raw_def)

lemma same_refl [simp]: "same h h A"
  by (simp add: same_def)

lemma same_mono: "same h h' A \<Longrightarrow> B \<subseteq> A \<Longrightarrow> same h h' B"
  by (auto simp: same_def)

lemma same_trans: "same h h' A \<Longrightarrow> same h' h'' B \<Longrightarrow> same h h'' (A \<inter> B)"
  by (simp add: same_def)

lemma create_ok:
  assumes "store_ok h held" and "length held < REF_LIMIT" and "cell_ok ob" and "refcount ob = 1"
  shows "store_ok ((store h (nextobj h) ob)\<lparr>nextobj := nextobj h + 1\<rparr>) (held @ [nextobj h]) \<and>
    same h ((store h (nextobj h) ob)\<lparr>nextobj := nextobj h + 1\<rparr>) (set held) \<and>
    text_at ((store h (nextobj h) ob)\<lparr>nextobj := nextobj h + 1\<rparr>) (nextobj h) = obj_text ob"
proof -
  let ?n = "nextobj h"
  have none: "objs h ?n = None" using assms(1) by (cases "objs h ?n") (auto simp: store_ok_def)
  have sh: "?n \<notin> set (shared_integers h)" "?n \<notin> set held"
    using held_live [OF assms(1), of ?n] none by auto
  have "refs h (held @ [?n]) ?n = 1" using sh by (simp add: refs_def count_list_0_iff)
  moreover have "refs h (held @ [?n]) a = refs h held a" if "a \<noteq> ?n" for a using that by (simp add: refs_def)
  moreover have "\<forall>i<10000. shared_integers h ! i \<noteq> ?n"
    using sh assms(1) by (metis nth_mem shared_ok_def store_ok_def)
  ultimately show ?thesis
    using assms none sh unfolding store_ok_def shared_ok_def same_def
    by (auto simp: refs_def text_at_def payload_def less_Suc_eq)
qed

lemma createStringObject_ok:
  assumes "store_ok h held" and "length held < REF_LIMIT" and "n \<le> length t" and "n < 2147483648"
  shows "\<exists>a h'. createStringObject g t (int n) h = Inr (a, h') \<and> store_ok h' (held @ [a]) \<and> same h h' (set held) \<and>
    text_at h' a = take n t \<and> solid h' a \<and> is_raw h' a"
  using create_ok [OF assms(1,2), of "\<lparr>otype = REDIS_STRING, oencoding = REDIS_ENCODING_RAW, lru = lruclock h, refcount = 1,
      optr = PSds (mk_sds (take n t) [])\<rparr>"] assms(3,4)
  by (auto simp: createStringObject_def sdsnewlen_Some createObject_def Let_def cell_ok_def str_ok_def obj_text_def solid_def is_raw_def payload_def)

lemma incr_ok:
  assumes "store_ok h held" and "length held < REF_LIMIT" and "a \<in> set held \<or> a \<in> set (shared_integers h)"
  shows "\<exists>h'. incrRefCount a h = Inr h' \<and> store_ok h' (held @ [a]) \<and> same h h' UNIV"
proof -
  obtain ob where ob: "objs h a = Some ob" "cell_ok ob" "refcount ob = int (refs h held a)"
    using held_live [OF assms(1,3)] by metis
  let ?ob = "ob\<lparr>refcount := refcount ob + 1\<rparr>"
  have "to_i32 (refcount ob + 1) = refcount ob + 1"
    using ob(3) refs_bound [OF assms(1), of a] by (simp add: REF_LIMIT_def cint)
  then have "incrRefCount a h = Inr (store h a ?ob)" using ob(1) by (simp add: incrRefCount_def)
  moreover have "store_ok (store h a ?ob) (held @ [a])"
    using assms ob unfolding store_ok_def shared_ok_def by (auto simp: refs_app)
  moreover have "same h (store h a ?ob) UNIV" using ob(1) by (auto simp: same_def payload_def)
  ultimately show ?thesis by blast
qed

lemma decr_ok:
  assumes "store_ok h held" and "mset held = add_mset a (mset held')"
  shows "\<exists>h'. decrRefCount a h = Inr h' \<and> store_ok h' held' \<and> same h h' (set held' \<union> set (shared_integers h)) \<and>
    (shared_integers h' = shared_integers h \<and> maxmemory h' = maxmemory h)"
proof -
  have set: "set held = insert a (set held')" using assms(2) by (metis set_mset_add_mset_insert set_mset_mset)
  have len: "length held = length held' + 1" using assms(2) by (metis add.commute plus_1_eq_Suc size_add_mset size_mset)
  have cnt: "count_list held b = count_list held' b + (if b = a then 1 else 0)" for b
    using arg_cong [OF assms(2), of "\<lambda>M. count M b"] by (simp add: count_mset)
  obtain ob where ob: "objs h a = Some ob" "cell_ok ob" "refcount ob = int (refs h held a)"
    using held_live [OF assms(1), of a] set by auto
  show ?thesis
  proof (cases "refs h held' a = 0")
    case True
    let ?h = "h\<lparr>objs := (objs h)(a := None)\<rparr>"
    have one: "refcount ob = 1" "a \<notin> set held'" "a \<notin> set (shared_integers h)"
      using True ob(3) by (auto simp: refs_def cnt count_list_0_iff)
    have d: "decrRefCount a h = Inr ?h" using ob(1,2) one by (auto simp: decrRefCount_def cell_ok_def str_ok_def)
    have "\<forall>i<10000. shared_integers h ! i \<noteq> a"
      using one(3) assms(1) by (metis nth_mem shared_ok_def store_ok_def)
    moreover have "refs ?h held' b = refs h held b" if "b \<noteq> a" for b using that by (simp add: refs_def cnt)
    ultimately have "store_ok ?h held'"
      using assms(1) set len one unfolding store_ok_def shared_ok_def by auto
    moreover have "same h ?h (set held' \<union> set (shared_integers h))" using one by (auto simp: same_def payload_def)
    ultimately show ?thesis using d by (intro exI [of _ ?h]) simp
  next
    case False
    let ?h = "store h a (ob\<lparr>refcount := refcount ob - 1\<rparr>)"
    have rc: "1 < refcount ob" "refcount ob - 1 = int (refs h held' a)" using False ob(3) by (auto simp: refs_def cnt)
    have "decrRefCount a h = Inr ?h" using ob(1) rc by (simp add: decrRefCount_def)
    moreover have "refs h held' b = refs h held b" if "b \<noteq> a" for b using that by (simp add: refs_def cnt)
    then have "store_ok ?h held'"
      using assms(1) set len rc ob False unfolding store_ok_def shared_ok_def by auto
    moreover have "same h ?h (set held' \<union> set (shared_integers h))" using ob(1) by (auto simp: same_def payload_def)
    ultimately show ?thesis by (intro exI [of _ ?h]) simp
  qed
qed

lemma update_ok:
  assumes "store_ok h held" and "objs h a = Some ob" and "cell_ok ob'" and "refcount ob' = refcount ob"
    and "obj_text ob' = obj_text ob" and "optr ob' = PNull \<longleftrightarrow> optr ob = PNull" and "a \<notin> set (shared_integers h)"
  shows "store_ok (store h a ob') held \<and> keeps h (store h a ob') UNIV"
proof -
  have "\<forall>i<10000. shared_integers h ! i \<noteq> a" using assms(1,7) by (metis nth_mem shared_ok_def store_ok_def)
  then show ?thesis using assms unfolding store_ok_def shared_ok_def by (auto simp: keeps_def text_at_def solid_def)
qed

lemma store_ok_mset: "mset held = mset held' \<Longrightarrow> store_ok h held \<Longrightarrow> store_ok h held'"
proof -
  assume m: "mset held = mset held'"
  have "count_list held = count_list held'" using m by (metis count_mset ext)
  moreover have "set held = set held'" "length held = length held'" using m by (metis set_mset_mset, metis size_mset)
  ultimately show "store_ok h held \<Longrightarrow> store_ok h held'" unfolding store_ok_def refs_def by simp
qed

lemma keeps_trans: "keeps h h' A \<Longrightarrow> keeps h' h'' B \<Longrightarrow> keeps h h'' (A \<inter> B)"
  by (simp add: keeps_def)

lemma keeps_mono: "keeps h h' A \<Longrightarrow> B \<subseteq> A \<Longrightarrow> keeps h h' B"
  by (auto simp: keeps_def)

lemma keeps_refl [simp]: "keeps h h A"
  by (simp add: keeps_def)

lemma string2l_Some: "string2l t = Some v \<Longrightarrow> is_ll v \<and> t = ll_text v"
  by (auto simp: string2l_def string2ll_iff split: option.splits if_splits)

lemma sds_region: "sds_ok s \<Longrightarrow> region (sh_buf s) (sdslen s) = Inr (sds_str s)"
  by (auto elim!: sds_okE simp: region_def)

lemma shared_is_int: "store_ok h held \<Longrightarrow> a \<in> set (shared_integers h) \<Longrightarrow> objs h a = Some ob \<Longrightarrow> \<exists>n. optr ob = PLong n"
  by (fastforce simp: store_ok_def shared_ok_def in_set_conv_nth)

lemma shared_integer_ok:
  assumes "shared_ok h" and "0 \<le> v" and "v < REDIS_SHARED_INTEGERS"
  shows "\<exists>b. shared_integer h v = Inr b \<and> b \<in> set (shared_integers h) \<and> text_at h b = ll_text v \<and> solid h b"
proof -
  let ?b = "shared_integers h ! nat v"
  have v: "nat v < 10000" using assms(2,3) by (simp add: REDIS_SHARED_INTEGERS_def)
  then obtain ob where "objs h ?b = Some ob" "optr ob = PLong v" using assms(1,2) by (fastforce simp: shared_ok_def)
  then show ?thesis using v assms by (auto simp: shared_integer_def shared_ok_def text_at_def obj_text_def solid_def)
qed

lemma encode_shared:
  assumes "store_ok h (xs @ a # ys)" and "0 \<le> v" and "v < REDIS_SHARED_INTEGERS"
  shows "\<exists>b h'. rbind (decrRefCount a h) (\<lambda>h. rbind (shared_integer h v) (\<lambda>b. rbind (incrRefCount b h) (\<lambda>h. Inr (b, h)))) =
      Inr (b, h') \<and> store_ok h' (xs @ b # ys) \<and> keeps h h' (set (xs @ ys)) \<and> text_at h' b = ll_text v \<and> solid h' b"
proof -
  obtain h1 where h1: "decrRefCount a h = Inr h1" "store_ok h1 (xs @ ys)" "keeps h h1 (set (xs @ ys) \<union> set (shared_integers h))"
    using decr_ok [OF assms(1), of a "xs @ ys"] by (auto dest: same_keeps)
  have "shared_ok h1" using h1(2) by (simp add: store_ok_def)
  then obtain b where b: "shared_integer h1 v = Inr b" "b \<in> set (shared_integers h1)" "text_at h1 b = ll_text v" "solid h1 b"
    using shared_integer_ok assms(2,3) by blast
  have "length (xs @ ys) < REF_LIMIT" using assms(1) by (simp add: store_ok_def)
  then obtain h2 where h2: "incrRefCount b h1 = Inr h2" "store_ok h2 ((xs @ ys) @ [b])" "keeps h1 h2 UNIV"
    using incr_ok [OF h1(2)] b(2) same_keeps by blast
  have "store_ok h2 (xs @ b # ys)" using h2(2) store_ok_mset [of "(xs @ ys) @ [b]" "xs @ b # ys" h2] by simp
  moreover have "keeps h h2 (set (xs @ ys))" using keeps_trans [OF h1(3) h2(3)] by (rule keeps_mono) simp
  moreover have "text_at h2 b = ll_text v" "solid h2 b" using h2(3) b(3,4) by (simp_all add: keeps_def)
  ultimately show ?thesis using h1(1) b(1) h2(1) by simp
qed

lemma tryObjectEncoding_ok:
  assumes ok: "store_ok h (xs @ a # ys)" and so: "solid h a"
  shows "\<exists>b h'. tryObjectEncoding g a h = Inr (b, h') \<and> store_ok h' (xs @ b # ys) \<and> keeps h h' (set (xs @ ys)) \<and>
    text_at h' b = text_at h a \<and> solid h' b"
proof -
  obtain ob where ob: "objs h a = Some ob" "str_ok ob" "text_at h a = obj_text ob" using held_str [OF ok so] by auto
  from ob(2) show ?thesis
  proof (cases rule: str_ok_cases)
    case (1 s)
    have ns: "a \<notin> set (shared_integers h)" using shared_is_int [OF ok _ ob(1)] 1 by auto
    define r where "r = (if sdslen s > 21 then Inr None else rbind (sds_lift (region (sh_buf s) (sdslen s))) (\<lambda>t. Inr (string2l t)))"
    have keep: "\<exists>b h'. Inr (a, store h a ob') = (Inr (b, h') :: (obj_error, nat \<times> ostore) result) \<and> store_ok h' (xs @ b # ys) \<and> keeps h h' (set (xs @ ys)) \<and> text_at h' b = text_at h a \<and> solid h' b"
      if "str_ok ob'" "refcount ob' = refcount ob" "obj_text ob' = obj_text ob" for ob'
    proof -
      have "optr ob' \<noteq> PNull" using that(1) by (auto simp: str_ok_def)
      moreover have "optr ob \<noteq> PNull" "cell_ok ob'" using 1(3) that(1) by (auto simp: cell_ok_def)
      ultimately show ?thesis using update_ok [OF ok ob(1) _ that(2,3) _ ns] so by (auto simp: keeps_def)
    qed
    obtain val where val: "r = Inr val" "\<And>v. val = Some v \<Longrightarrow> is_ll v \<and> sds_str s = ll_text v"
    proof (rule that)
      show "r = Inr (if sdslen s > 21 then None else string2l (sds_str s))" using 1(4) by (simp add: r_def sds_region)
    qed (auto simp: string2l_Some split: if_splits)
    have unf: "tryObjectEncoding g a h = (if refcount ob > 1 then Inr (a, h)
        else case val of
           None \<Rightarrow> if sdslen s > 32 \<and> sdsavail s > sdslen s div 10
             then Inr (a, store h a (ob\<lparr>optr := PSds (sdsRemoveFreeSpace g s)\<rparr>)) else Inr (a, h)
         | Some value \<Rightarrow>
             if maxmemory h = 0 \<and> 0 \<le> value \<and> value < REDIS_SHARED_INTEGERS then
               rbind (decrRefCount a h) (\<lambda>h. rbind (shared_integer h value) (\<lambda>b. rbind (incrRefCount b h) (\<lambda>h. Inr (b, h))))
             else Inr (a, store h a (ob\<lparr>oencoding := REDIS_ENCODING_INT, optr := PLong value\<rparr>)))"
      using 1 ob(1) val(1) by (simp add: tryObjectEncoding_def Let_def r_def)
    have same: "\<exists>b h'. Inr (a, h) = (Inr (b, h') :: (obj_error, nat \<times> ostore) result) \<and> store_ok h' (xs @ b # ys) \<and> keeps h h' (set (xs @ ys)) \<and> text_at h' b = text_at h a \<and> solid h' b"
      using ok so by simp
    obtain t fr where s: "s = mk_sds t fr" "length t + length fr < 2147483648" using 1(4) by (rule sds_okE)
    have fit: "str_ok (ob\<lparr>optr := PSds (sdsRemoveFreeSpace g s)\<rparr>)" "obj_text (ob\<lparr>optr := PSds (sdsRemoveFreeSpace g s)\<rparr>) = obj_text ob"
      using 1 s by (simp_all add: str_ok_def sdsRemoveFreeSpace_mk obj_text_def)
    show ?thesis
    proof (cases val)
      case None
      then show ?thesis unfolding unf using same keep [OF fit(1) _ fit(2)] by simp
    next
      case (Some v)
      have "str_ok (ob\<lparr>oencoding := REDIS_ENCODING_INT, optr := PLong v\<rparr>)"
        "obj_text (ob\<lparr>oencoding := REDIS_ENCODING_INT, optr := PLong v\<rparr>) = obj_text ob"
        using 1 val(2) [OF Some] by (auto simp: str_ok_def obj_text_def)
      then show ?thesis
        unfolding unf using Some same keep [of "ob\<lparr>oencoding := REDIS_ENCODING_INT, optr := PLong v\<rparr>"]
          encode_shared [OF ok, of v] val(2) [OF Some] ob(3) 1 by simp
    qed
  next
    case (2 n)
    then show ?thesis using ob ok so by (auto simp: tryObjectEncoding_def)
  qed
qed

lemma ll2string_text: "is_ll n \<Longrightarrow> 21 \<le> len \<Longrightarrow> ll2string len n = (ll_text n @ [NUL], length (ll_text n))"
  using ll_text_length [of n] by (auto simp: ll2string_def Let_def)

lemma ll_text_no_NUL: "is_ll n \<Longrightarrow> NUL \<notin> set (ll_text n)"
proof (cases "n = 0")
  case False
  assume "is_ll n"
  from ll_text_nonzero [OF this False] obtain c ds where t: "ll_text n = (if n < 0 then ''-'' else []) @ c # ds"
    "isdigit c" "\<forall>c\<in>set ds. isdigit c" by metis
  have "\<not> isdigit NUL" by (simp add: isdigit_def uchar_def)
  then have "NUL \<noteq> c" "NUL \<notin> set ds" using t(2,3) by auto
  then show ?thesis unfolding t(1) by simp
qed (simp add: ll_text_zero)

lemma getDecodedObject_ok:
  assumes ok: "store_ok h held" and a: "a \<in> set held" "solid h a" and "length held < REF_LIMIT"
  shows "\<exists>b h'. getDecodedObject g a h = Inr (b, h') \<and> store_ok h' (held @ [b]) \<and> same h h' (set held) \<and> text_at h' b = text_at h a \<and> solid h' b \<and> is_raw h' b"
proof -
  obtain ob where ob: "objs h a = Some ob" "str_ok ob" "text_at h a = obj_text ob" using held_str [OF ok a(2)] by auto
  from ob(2) show ?thesis
  proof (cases rule: str_ok_cases)
    case (1 s)
    then have "is_raw h a" using ob by (simp add: is_raw_def payload_def)
    obtain h' where h': "incrRefCount a h = Inr h'" "store_ok h' (held @ [a])" "same h h' UNIV"
      using incr_ok [OF ok assms(4), of a] a by blast
    have "is_raw h' a" using h'(3) \<open>is_raw h a\<close> is_raw_eq [of h' a h] by (simp add: same_def)
    then show ?thesis using h' same_UNIV [OF h'(3), of a "set held"] 1 a ob by (auto simp: getDecodedObject_def)
  next
    case (2 n)
    let ?t = "ll_text n"
    have "strlen (?t @ [NUL]) = Inr (int (length ?t))" using ll_text_no_NUL [OF 2(4)] by simp
    moreover have "length ?t < 2147483648" using ll_text_length [OF 2(4)] by simp
    ultimately show ?thesis
      using createStringObject_ok [OF ok assms(4), of "length ?t" "?t @ [NUL]" g] 2 ob
      by (auto simp: getDecodedObject_def ll2string_text Let_def)
  qed
qed

lemma createStringObjectFromLongLong_ok:
  assumes ok: "store_ok h held" and "is_ll v" and "length held < REF_LIMIT"
  shows "\<exists>a h'. createStringObjectFromLongLong g v h = Inr (a, h') \<and> store_ok h' (held @ [a]) \<and> same h h' (set held) \<and>
    text_at h' a = ll_text v \<and> solid h' a"
proof (cases "0 \<le> v \<and> v < REDIS_SHARED_INTEGERS")
  case True
  have "shared_ok h" using ok by (simp add: store_ok_def)
  then obtain b where b: "shared_integer h v = Inr b" "b \<in> set (shared_integers h)" "text_at h b = ll_text v" "solid h b"
    using shared_integer_ok True by blast
  from incr_ok [OF ok assms(3), of b] b(2) obtain h' where h': "incrRefCount b h = Inr h'" "store_ok h' (held @ [b])" "same h h' UNIV"
    by blast
  then show ?thesis using b True same_UNIV [OF h'(3), of b "set held"] by (auto simp: createStringObjectFromLongLong_def)
next
  case False
  let ?ob = "\<lparr>otype = REDIS_STRING, oencoding = REDIS_ENCODING_INT, lru = lruclock h, refcount = 1, optr = PLong v\<rparr>"
  have "LLONG_MIN \<le> v \<and> v \<le> LLONG_MAX" using assms(2) by (simp add: ll_bounds)
  then have "createStringObjectFromLongLong g v h = Inr (nextobj h, (store h (nextobj h) ?ob)\<lparr>nextobj := nextobj h + 1\<rparr>)"
    using False by (auto simp: createStringObjectFromLongLong_def createObject_def Let_def obj_at_def store_def)
  moreover have "cell_ok ?ob" "obj_text ?ob = ll_text v" using assms(2) by (simp_all add: cell_ok_def str_ok_def obj_text_def)
  ultimately show ?thesis using create_ok [OF ok assms(3), of ?ob] by (auto simp: solid_def)
qed

lemma stringObjectLen_ok: "store_ok h held \<Longrightarrow> solid h a \<Longrightarrow> stringObjectLen a h = Inr (int (length (text_at h a)))"
proof -
  assume "store_ok h held" "solid h a"
  then obtain ob where ob: "objs h a = Some ob" "str_ok ob" "text_at h a = obj_text ob" using held_str [of h held a] by auto
  from ob(2) show ?thesis
    by (cases rule: str_ok_cases) (use ob in \<open>auto simp: stringObjectLen_def ll2string_text elim!: sds_okE\<close>)
qed

lemma representable_ok:
  "store_ok h held \<Longrightarrow> solid h a \<Longrightarrow> isObjectRepresentableAsLongLong a h = Inr (string2ll (text_at h a))"
proof -
  assume "store_ok h held" "solid h a"
  then obtain ob where ob: "objs h a = Some ob" "str_ok ob" "text_at h a = obj_text ob" using held_str [of h held a] by auto
  from ob(2) show ?thesis
    by (cases rule: str_ok_cases) (use ob in \<open>auto simp: isObjectRepresentableAsLongLong_def sds_region string2ll_ll_text\<close>)
qed

text \<open>\<open>strcmp\<close> compares up to the first terminator.\<close>

lemma strcmp_terminated:
  "NUL \<in> set xs \<Longrightarrow> NUL \<in> set ys \<Longrightarrow> \<exists>c. strcmp xs ys = Inr c \<and> (c = 0 \<longleftrightarrow> cstr xs = cstr ys)"
proof (induction xs ys rule: strcmp.induct)
  case (3 x xs y ys)
  then show ?case by (cases "x = y") (auto simp: cstr_def)
qed auto

lemma cstr_buf: "sds_ok s \<Longrightarrow> NUL \<in> set (sh_buf s) \<and> cstr (sh_buf s) = cstr (sds_str s)"
proof -
  assume "sds_ok s"
  then obtain xs fr where s: "s = mk_sds xs fr" by (rule sds_okE)
  show ?thesis unfolding s by (induction xs) (auto simp: cstr_def)
qed

text \<open>A text that compares faithfully with integers: no integer is cut out of it by a NUL byte.\<close>

definition plain :: "char list \<Rightarrow> bool" where
  "plain t \<longleftrightarrow> (NUL \<in> set t \<longrightarrow> string2ll (cstr t) = None)"

lemma plain_eq: "is_ll n \<Longrightarrow> plain t \<Longrightarrow> cstr t = ll_text n \<longleftrightarrow> t = ll_text n"
  unfolding plain_def using ll_text_no_NUL [of n] string2ll_ll_text [of n] by (metis cstr_id option.distinct(1))

lemma equalStringObjects_ok:
  assumes "store_ok h held" and "solid h a" and "solid h b" and "plain (text_at h a)" and "plain (text_at h b)"
  shows "equalStringObjects a b h = Inr (text_at h a = text_at h b)"
proof -
  obtain oa where oa: "objs h a = Some oa" "str_ok oa" "text_at h a = obj_text oa" using held_str [OF assms(1,2)] by auto
  obtain ob where ob: "objs h b = Some ob" "str_ok ob" "text_at h b = obj_text ob" using held_str [OF assms(1,3)] by auto
  note defs = equalStringObjects_def compareStringObjects_def obj_chars_def
  from oa(2) show ?thesis
  proof (cases rule: str_ok_cases)
    case A: (1 s)
    from ob(2) show ?thesis
    proof (cases rule: str_ok_cases)
      case (1 t)
      then show ?thesis using A oa ob sdscmp_law [OF A(4) 1(4)] by (auto simp: defs)
    next
      case (2 n)
      let ?t = "ll_text n @ [NUL]"
      have "cstr ?t = ll_text n" using ll_text_no_NUL [OF 2(4)] by simp
      then obtain c where c: "strcmp (sh_buf s) ?t = Inr c" "c = 0 \<longleftrightarrow> cstr (sds_str s) = ll_text n"
        using strcmp_terminated [of "sh_buf s" ?t] cstr_buf [OF A(4)] by auto
      have "cstr (sds_str s) = ll_text n \<longleftrightarrow> sds_str s = ll_text n" using plain_eq [OF 2(4)] assms(4) oa(3) A(5) by simp
      moreover have "a \<noteq> b" using A 2 oa ob by auto
      ultimately show ?thesis using A 2 oa ob c by (simp add: defs ll2string_text)
    qed
  next
    case A: (2 m)
    from ob(2) show ?thesis
    proof (cases rule: str_ok_cases)
      case (1 s)
      let ?t = "ll_text m @ [NUL]"
      have "cstr ?t = ll_text m" using ll_text_no_NUL [OF A(4)] by simp
      then obtain c where c: "strcmp ?t (sh_buf s) = Inr c" "c = 0 \<longleftrightarrow> ll_text m = cstr (sds_str s)"
        using strcmp_terminated [of ?t "sh_buf s"] cstr_buf [OF 1(4)] by auto
      have "plain (sds_str s)" using assms(5) ob(3) 1(5) by simp
      from plain_eq [OF A(4) this] have "ll_text m = cstr (sds_str s) \<longleftrightarrow> ll_text m = sds_str s" by metis
      moreover have "a \<noteq> b" using A 1 oa ob by auto
      ultimately show ?thesis using A 1 oa ob c by (simp add: defs ll2string_text)
    next
      case (2 n)
      have "m = n \<longleftrightarrow> ll_text m = ll_text n" using string2ll_ll_text [OF A(4)] string2ll_ll_text [OF 2(4)] by (metis option.inject)
      then show ?thesis using A 2 oa ob by (simp add: defs)
    qed
  qed
qed

lemma digit_not_space: "isdigit c \<Longrightarrow> \<not> isspace c \<and> c \<noteq> CHR ''-'' \<and> c \<noteq> CHR ''+''"
  by (auto simp: isdigit_def isspace_def uchar_def)

lemma strtoll_digits:
  assumes "NUL \<in> set buf" and "cstr buf = (if neg then ''-'' else []) @ c # ds" and "\<forall>x\<in>set (c # ds). isdigit x"
    and "v = (if neg then - dec_value 0 (c # ds) else dec_value 0 (c # ds))" and "is_ll v"
  shows "strtoll buf = Inr (v, False, [])"
proof -
  have c: "isdigit c" "\<not> isspace c" "c \<noteq> CHR ''-''" "c \<noteq> CHR ''+''" "\<not> isspace (CHR ''-'')"
    using assms(3) digit_not_space [of c] by (auto simp: isspace_def uchar_def)
  have ds: "takeWhile isdigit ds = ds" "dropWhile isdigit ds = []"
    using assms(3) by (simp_all add: takeWhile_eq_all_conv)
  have v: "\<not> v < LLONG_MIN" "\<not> v > LLONG_MAX" using assms(5) by (simp_all add: ll_bounds)
  have p: "dropWhile isspace (cstr buf) = cstr buf" using c assms(2) by (cases neg) simp_all
  show ?thesis
    unfolding strtoll_def Let_def p using assms(1,2,4) c v by (cases neg) (simp_all add: ds)
qed

lemma strtoll_ll_text:
  assumes v: "is_ll v" and buf: "NUL \<in> set buf" "cstr buf = ll_text v"
  shows "strtoll buf = Inr (v, False, [])" and "\<not> isspace (hd buf)"
proof -
  obtain neg c ds where d: "ll_text v = (if neg then ''-'' else []) @ c # ds" "\<forall>x\<in>set (c # ds). isdigit x"
    "v = (if neg then - dec_value 0 (c # ds) else dec_value 0 (c # ds))"
  proof (cases "v = 0")
    case True
    then show thesis using that [of False "CHR ''0''" "[]"] by (simp add: ll_text_zero isdigit_def uchar_def)
  next
    case False
    from ll_text_nonzero [OF v False] show thesis using that by (metis (no_types, lifting) abs_if add_0 dec_value_simps(2)
      minus_minus mult_zero_left set_ConsD)
  qed
  show "strtoll buf = Inr (v, False, [])" by (rule strtoll_digits [OF buf(1) _ d(2,3) v]) (use buf(2) d(1) in simp)
  have "hd buf = hd (cstr buf)" using buf(2) d(1) by (cases buf) (auto simp: cstr_def split: if_splits)
  then show "\<not> isspace (hd buf)"
    using buf(2) d(1,2) digit_not_space [of c] by (cases neg) (simp_all add: isspace_def uchar_def)
qed

text \<open>The reading of an integer argument agrees with the encoding: a text that \<open>string2ll\<close> accepts gives the same value
  in both encodings.\<close>

lemma getLongLongFromObject_ok:
  assumes "store_ok h held" and "solid h a" and "string2ll (text_at h a) = Some v"
  shows "getLongLongFromObject (Some a) h = Inr (Some v)"
proof -
  have v: "is_ll v" "text_at h a = ll_text v" using assms(3) by (simp_all add: string2ll_iff)
  obtain ob where ob: "objs h a = Some ob" "str_ok ob" "text_at h a = obj_text ob" using held_str [OF assms(1,2)] by auto
  from ob(2) show ?thesis
  proof (cases rule: str_ok_cases)
    case (1 s)
    obtain xs fr where s: "s = mk_sds xs fr" using 1(4) by (rule sds_okE)
    have cs: "NUL \<in> set (sh_buf s)" "cstr (sh_buf s) = ll_text v" using 1 v ob s ll_text_no_NUL [OF v(1)] by simp_all
    show ?thesis using 1 ob strtoll_ll_text [OF v(1) cs] by (simp add: getLongLongFromObject_def)
  next
    case (2 n)
    have "ll_text n = ll_text v" using 2(5) v(2) ob(3) by metis
    then have "n = v" using string2ll_ll_text [OF v(1)] string2ll_ll_text [OF 2(4)] by (metis option.inject)
    then show ?thesis using 2 ob by (simp add: getLongLongFromObject_def)
  qed
qed

section \<open>Objects as values\<close>

text \<open>
  A program that uses the objects through the references it owns: each operation names references by their
  position in its list; creating, sharing and decoding add a reference, releasing drops one, and encoding
  trades one for another.
\<close>

datatype obj_op = ONew "char list" | OFromLL int | OShare nat | ODrop nat | OEncode nat | ODecode nat
  | OLen nat | OEqual nat nat | OAsLL nat

datatype obj_reply = ODone | ONum int | OBool bool | OLL "int option"

fun obj_step :: "(nat \<Rightarrow> char) \<Rightarrow> ostore \<times> nat list \<Rightarrow> obj_op \<Rightarrow> (obj_error, (ostore \<times> nat list) \<times> obj_reply) result" where
  "obj_step g (h, rs) (ONew t) = rbind (createStringObject g t (int (length t)) h) (\<lambda>(a, h). Inr ((h, rs @ [a]), ODone))"
| "obj_step g (h, rs) (OFromLL v) = rbind (createStringObjectFromLongLong g v h) (\<lambda>(a, h). Inr ((h, rs @ [a]), ODone))"
| "obj_step g (h, rs) (OShare i) = rbind (incrRefCount (rs ! i) h) (\<lambda>h. Inr ((h, rs @ [rs ! i]), ODone))"
| "obj_step g (h, rs) (ODrop i) = rbind (decrRefCount (rs ! i) h) (\<lambda>h. Inr ((h, take i rs @ drop (i + 1) rs), ODone))"
| "obj_step g (h, rs) (OEncode i) = rbind (tryObjectEncoding g (rs ! i) h) (\<lambda>(b, h). Inr ((h, rs[i := b]), ODone))"
| "obj_step g (h, rs) (ODecode i) = rbind (getDecodedObject g (rs ! i) h) (\<lambda>(b, h). Inr ((h, rs @ [b]), ODone))"
| "obj_step g (h, rs) (OLen i) = rbind (stringObjectLen (rs ! i) h) (\<lambda>n. Inr ((h, rs), ONum n))"
| "obj_step g (h, rs) (OEqual i j) = rbind (equalStringObjects (rs ! i) (rs ! j) h) (\<lambda>b. Inr ((h, rs), OBool b))"
| "obj_step g (h, rs) (OAsLL i) = rbind (isObjectRepresentableAsLongLong (rs ! i) h) (\<lambda>v. Inr ((h, rs), OLL v))"

text \<open>The specification: a list of texts, without sharing and without encodings.\<close>

fun obj_spec :: "char list list \<Rightarrow> obj_op \<Rightarrow> char list list \<times> obj_reply" where
  "obj_spec ts (ONew t) = (ts @ [t], ODone)"
| "obj_spec ts (OFromLL v) = (ts @ [ll_text v], ODone)"
| "obj_spec ts (OShare i) = (ts @ [ts ! i], ODone)"
| "obj_spec ts (ODrop i) = (take i ts @ drop (i + 1) ts, ODone)"
| "obj_spec ts (OEncode i) = (ts, ODone)"
| "obj_spec ts (ODecode i) = (ts @ [ts ! i], ODone)"
| "obj_spec ts (OLen i) = (ts, ONum (int (length (ts ! i))))"
| "obj_spec ts (OEqual i j) = (ts, OBool (ts ! i = ts ! j))"
| "obj_spec ts (OAsLL i) = (ts, OLL (string2ll (ts ! i)))"

fun obj_pre :: "char list list \<Rightarrow> obj_op \<Rightarrow> bool" where
  "obj_pre ts (ONew t) = (length t < 2147483648 \<and> length ts < REF_LIMIT)"
| "obj_pre ts (OFromLL v) = (is_ll v \<and> length ts < REF_LIMIT)"
| "obj_pre ts (OShare i) = (i < length ts \<and> length ts < REF_LIMIT)"
| "obj_pre ts (ODecode i) = (i < length ts \<and> length ts < REF_LIMIT)"
| "obj_pre ts (ODrop i) = (i < length ts)"
| "obj_pre ts (OEncode i) = (i < length ts)"
| "obj_pre ts (OLen i) = (i < length ts)"
| "obj_pre ts (OEqual i j) = (i < length ts \<and> j < length ts \<and> plain (ts ! i) \<and> plain (ts ! j))"
| "obj_pre ts (OAsLL i) = (i < length ts)"

definition obj_repr :: "ostore \<times> nat list \<Rightarrow> char list list \<Rightarrow> bool" where
  "obj_repr = (\<lambda>(h, rs) ts. store_ok h rs \<and> (\<forall>a\<in>set rs. solid h a) \<and> map (text_at h) rs = ts)"

lemma keeps_map: "keeps h h' A \<Longrightarrow> set xs \<subseteq> A \<Longrightarrow> map (text_at h') xs = map (text_at h) xs"
  by (auto simp: keeps_def)

lemma add_repr:
  assumes "store_ok h' (rs @ [a])" and "same h h' (set rs)" and "text_at h' a = t" and "\<forall>a\<in>set rs. solid h a" and "solid h' a"
  shows "obj_repr (h', rs @ [a]) (map (text_at h) rs @ [t])"
  using assms same_keeps [OF assms(2)] keeps_map [OF same_keeps [OF assms(2)] order_refl] by (auto simp: obj_repr_def keeps_def)

interpretation objects: simulation "obj_step g" obj_repr obj_spec obj_pre
proof (unfold_locales, goal_cases)
  case (1 s ts p)
  obtain h rs where s: "s = (h, rs)" by (cases s)
  have ok: "store_ok h rs" and ts: "ts = map (text_at h) rs" and so: "\<forall>a\<in>set rs. solid h a" using 1(1) s by (auto simp: obj_repr_def)
  have live: "i < length rs \<Longrightarrow> rs ! i \<in> set rs \<and> ts ! i = text_at h (rs ! i) \<and> solid h (rs ! i)" for i using ts so by simp
  have split: "i < length rs \<Longrightarrow> rs = take i rs @ rs ! i # drop (i + 1) rs" for i by (simp add: id_take_nth_drop)
  show ?case
  proof (cases p)
    case (ONew t)
    then show ?thesis using createStringObject_ok [OF ok, of "length t" t g] 1(2) s ts so by (auto intro!: add_repr)
  next
    case (OFromLL v)
    then show ?thesis using createStringObjectFromLongLong_ok [OF ok, of v g] 1(2) s ts so by (auto intro!: add_repr)
  next
    case (OShare i)
    then obtain h' where "incrRefCount (rs ! i) h = Inr h'" "store_ok h' (rs @ [rs ! i])" "same h h' UNIV"
      using incr_ok [OF ok, of "rs ! i"] 1(2) ts live [of i] by auto
    then show ?thesis using OShare 1(2) s ts so live [of i] same_UNIV [of h h' "rs ! i" "set rs"] by (auto intro!: add_repr)
  next
    case (ODrop i)
    then have i: "i < length rs" using 1(2) ts by simp
    let ?rs = "take i rs @ drop (i + 1) rs"
    have "mset rs = add_mset (rs ! i) (mset ?rs)" by (subst (1) split [OF i]) simp
    have sub: "\<forall>a\<in>set ?rs. solid h a" using so by (auto dest: in_set_takeD in_set_dropD)
    from decr_ok [OF ok \<open>mset rs = _\<close>] obtain h' where "decrRefCount (rs ! i) h = Inr h'" "store_ok h' ?rs" "keeps h h' (set ?rs)"
      by (auto intro: keeps_mono dest: same_keeps)
    then show ?thesis using ODrop s ts keeps_map [of h h' "set ?rs" ?rs] sub by (auto simp: obj_repr_def take_map drop_map keeps_def)
  next
    case (OEncode i)
    then have i: "i < length rs" using 1(2) ts by simp
    obtain b h' where b: "tryObjectEncoding g (rs ! i) h = Inr (b, h')" "store_ok h' (take i rs @ b # drop (i + 1) rs)"
      "keeps h h' (set (take i rs @ drop (i + 1) rs))" "text_at h' b = text_at h (rs ! i)" "solid h' b"
      using tryObjectEncoding_ok [of h "take i rs" "rs ! i" "drop (i + 1) rs" g] ok split [OF i] live [OF i] by auto
    have "\<forall>a\<in>set (take i rs @ drop (i + 1) rs). solid h a" using so by (auto dest: in_set_takeD in_set_dropD)
    then have so': "\<forall>a\<in>set (rs[i := b]). solid h' a" using b(3,5) i by (auto simp: upd_conv_take_nth_drop keeps_def)
    have "map (text_at h') (take i rs @ b # drop (i + 1) rs) = map (text_at h) (take i rs @ rs ! i # drop (i + 1) rs)"
      using keeps_map [OF b(3), of "take i rs"] keeps_map [OF b(3), of "drop (i + 1) rs"] b(4) by simp
    then have "map (text_at h') (rs[i := b]) = map (text_at h) rs"
      unfolding split [OF i, symmetric] using i by (simp add: upd_conv_take_nth_drop)
    then show ?thesis using OEncode s ts b(1,2) i so' by (simp add: obj_repr_def upd_conv_take_nth_drop)
  next
    case (ODecode i)
    then show ?thesis using getDecodedObject_ok [OF ok, of "rs ! i" g] 1(2) s ts so live [of i] by (auto intro!: add_repr)
  next
    case (OLen i)
    then show ?thesis using stringObjectLen_ok [OF ok, of "rs ! i"] 1 s ts live [of i] by simp
  next
    case (OEqual i j)
    then have ij: "i < length rs" "j < length rs" "solid h (rs ! i)" "solid h (rs ! j)" "plain (text_at h (rs ! i))" "plain (text_at h (rs ! j))"
      using 1(2) live [of i] live [of j] ts by auto
    then show ?thesis using OEqual equalStringObjects_ok [OF ok, of "rs ! i" "rs ! j"] 1(1) s ts by simp
  next
    case (OAsLL i)
    then show ?thesis using representable_ok [OF ok, of "rs ! i"] 1 s ts live [of i] by simp
  qed
qed

section \<open>The shared integers and the properties of the objects\<close>

text \<open>The loop of \<open>createSharedObjects\<close> that fills \<open>shared.integers\<close>.\<close>

fun shared_integers_loop :: "nat \<Rightarrow> ostore \<Rightarrow> ostore" where
  "shared_integers_loop 0 h = h"
| "shared_integers_loop (Suc n) h =
     (let h = shared_integers_loop n h;
          (a, h) = createObject REDIS_STRING (PLong (int n)) h
      in h\<lparr>objs := (objs h)(a := map_option (oencoding_update (\<lambda>_. REDIS_ENCODING_INT)) (objs h a)),
           shared_integers := shared_integers h @ [a]\<rparr>)"

definition initial_store :: "int \<Rightarrow> int \<Rightarrow> ostore" where
  "initial_store clock mem =
     shared_integers_loop (nat REDIS_SHARED_INTEGERS)
       \<lparr>objs = Map.empty, nextobj = 0, lruclock = clock, maxmemory = mem, shared_integers = []\<rparr>"

lemma shared_integers_loop_eq:
  "shared_integers_loop n \<lparr>objs = Map.empty, nextobj = 0, lruclock = clock, maxmemory = mem, shared_integers = []\<rparr> =
     \<lparr>objs = (\<lambda>a. if a < n then Some \<lparr>otype = REDIS_STRING, oencoding = REDIS_ENCODING_INT, lru = clock, refcount = 1,
               optr = PLong (int a)\<rparr> else None),
      nextobj = n, lruclock = clock, maxmemory = mem, shared_integers = [0..<n]\<rparr>"
  by (induction n) (auto simp: createObject_def store_def Let_def fun_eq_iff)

lemma initial_store_ok: "store_ok (initial_store clock mem) []"
proof -
  have "count_list [0..<10000] a = (if a < 10000 then 1 else 0)" for a :: nat
    using distinct_count_atmost_1 [of "[0..<10000::nat]"] by (simp add: count_mset [symmetric])
  then show ?thesis
    unfolding initial_store_def REDIS_SHARED_INTEGERS_def
    by (auto simp: shared_integers_loop_eq store_ok_def cell_ok_def shared_ok_def refs_def str_ok_def REF_LIMIT_def ll_bounds)
qed

lemma obj_repr_initial: "obj_repr (initial_store clock mem, []) []"
  by (simp add: obj_repr_def initial_store_ok)

lemma live_iff: "store_ok h rs \<Longrightarrow> dom (objs h) = set rs \<union> set (shared_integers h)"
proof -
  assume ok: "store_ok h rs"
  have "objs h a \<noteq> None \<longleftrightarrow> a \<in> set rs \<or> a \<in> set (shared_integers h)" for a
  proof
    assume "objs h a \<noteq> None"
    then obtain ob where "objs h a = Some ob" by blast
    then have "0 < refs h rs a" using ok by (simp add: store_ok_def)
    then show "a \<in> set rs \<or> a \<in> set (shared_integers h)" using count_notin by (fastforce simp: refs_def)
  next
    assume "a \<in> set rs \<or> a \<in> set (shared_integers h)"
    then show "objs h a \<noteq> None" using held_live [OF ok] by (metis option.distinct(1))
  qed
  then show ?thesis by auto
qed



text \<open>
  C31. The encoding tag is a type: in every state a run reaches, each live object is a string whose encoding
  agrees with what \<open>ptr\<close> holds (a well-formed dynamic string, or a \<open>long\<close>), with a positive count.
\<close>

theorem objects_well_typed:
  assumes "admissible obj_spec obj_pre [] ops" and "run (obj_step g) (initial_store clock mem, []) ops = Inr ((h, rs), replies)"
    and "objs h a = Some ob"
  shows "otype ob = REDIS_STRING \<and> 0 < refcount ob \<and>
    (if oencoding ob = REDIS_ENCODING_INT then \<exists>n. optr ob = PLong n \<and> is_ll n
     else oencoding ob = REDIS_ENCODING_RAW \<and> (\<exists>s. optr ob = PSds s \<and> sds_ok s))"
proof -
  have ok: "store_ok h rs" "\<forall>a\<in>set rs. solid h a"
    using objects.run_law [OF obj_repr_initial assms(1), of g clock mem] assms(2) by (auto simp: obj_repr_def)
  have "a \<in> set rs \<union> set (shared_integers h)" using live_iff [OF ok(1)] assms(3) by blast
  then have "solid h a" using ok assms(3) shared_is_int [OF ok(1) _ assms(3)] by (auto simp: solid_def)
  then have "str_ok ob" "0 < refcount ob" using ok(1) assms(3) by (auto simp: store_ok_def cell_ok_def solid_def)
  then show ?thesis by (auto simp: str_ok_def)
qed

theorem objects_well_typed_witness:
  "\<exists>h a replies ob. run (obj_step (\<lambda>_. NUL)) (initial_store 7 1, []) [ONew ''12'', OEncode 0] = Inr ((h, [a]), replies) \<and>
     objs h a = Some ob \<and> otype ob = REDIS_STRING \<and> 0 < refcount ob"
proof -
  let ?ops = "[ONew ''12'', OEncode 0]"
  have adm: "admissible obj_spec obj_pre [] ?ops" by (simp add: REF_LIMIT_def)
  obtain h rs where r: "run (obj_step (\<lambda>_. NUL)) (initial_store 7 1, []) ?ops = Inr ((h, rs), [ODone, ODone])"
    "obj_repr (h, rs) [''12'']"
    using objects.run_law [OF obj_repr_initial adm, of "\<lambda>_. NUL" 7 1] by auto
  then obtain a where a: "rs = [a]" by (auto simp: obj_repr_def)
  have "store_ok h [a]" using r(2) a by (simp add: obj_repr_def)
  then obtain ob where "objs h a = Some ob" using held_live [of h "[a]" a] by auto
  then show ?thesis using objects_well_typed [OF adm r(1)] r(1) a by blast
qed

text \<open>
  C32. Comparison is not binary safe across encodings: a raw string holding the text of an integer, a NUL byte
  and more bytes is reported equal to the integer-encoded object.
\<close>

theorem equalStringObjects_cut:
  assumes "objs h a = Some oa" and "otype oa = REDIS_STRING" and "oencoding oa = REDIS_ENCODING_INT"
    and "optr oa = PLong n" and "is_ll n"
    and "objs h b = Some ob" and "otype ob = REDIS_STRING" and "oencoding ob = REDIS_ENCODING_RAW"
    and "optr ob = PSds s" and "sds_ok s" and "sds_str s = ll_text n @ NUL # t"
  shows "equalStringObjects a b h = Inr True \<and> text_at h a \<noteq> text_at h b"
proof -
  have c: "cstr (ll_text n @ [NUL]) = ll_text n" "cstr (sds_str s) = ll_text n"
    using ll_text_no_NUL [OF assms(5)] assms(11) by simp_all
  then obtain c where "strcmp (ll_text n @ [NUL]) (sh_buf s) = Inr c" "c = 0"
    using strcmp_terminated [of "ll_text n @ [NUL]" "sh_buf s"] cstr_buf [OF assms(10)] by auto
  moreover have "a \<noteq> b" using assms by auto
  ultimately show ?thesis
    using assms by (simp add: equalStringObjects_def compareStringObjects_def obj_chars_def ll2string_text text_at_def obj_text_def)
qed

definition cut_store :: ostore where
  "cut_store = \<lparr>objs = [0 \<mapsto> \<lparr>otype = 0, oencoding = 1, lru = 0, refcount = 1, optr = PLong 7\<rparr>,
      1 \<mapsto> \<lparr>otype = 0, oencoding = 0, lru = 0, refcount = 1, optr = PSds (mk_sds [CHR ''7'', NUL, CHR ''x''] [])\<rparr>],
    nextobj = 2, lruclock = 0, maxmemory = 0, shared_integers = []\<rparr>"

theorem equalStringObjects_cut_witness: "equalStringObjects 0 1 cut_store = Inr True \<and> text_at cut_store 0 \<noteq> text_at cut_store 1"
proof -
  have "ll_text 7 = [CHR ''7'']" by code_simp
  then show ?thesis
    using equalStringObjects_cut [of cut_store 0 _ 7 1 _ "mk_sds [CHR ''7'', NUL, CHR ''x''] []" "[CHR ''x'']"]
    by (simp add: cut_store_def obj_consts ll_bounds)
qed

end
