(* ===== verification/Networking_Reply.thy ===== *)
theory Networking_Reply
  imports Object
begin

text \<open>
  \<open>networking.c\<close>, output side: replies are appended to the static buffer of the client and, once that is full, to a
  list of string objects, and \<open>sendReplyToClient\<close> writes both to the socket. The state of a client holds the
  fields these functions use, the world the object store, the shared objects, the limits and the bytes the
  socket has accepted. What comes from outside is an argument: the fresh bytes and the usable size of a block
  (the allocator), the answer of \<open>aeCreateFileEvent\<close>, the memory in use, and the answers of \<open>write\<close>. The PAPI counters and
  the log lines have no effect on this state and are left out.
\<close>

section \<open>Clients and the world\<close>

definition REDIS_REPLY_CHUNK_BYTES :: int where "REDIS_REPLY_CHUNK_BYTES = 16 * 1024"
definition REDIS_MAX_WRITE_PER_EVENT :: int where "REDIS_MAX_WRITE_PER_EVENT = 1024 * 64"
definition REDIS_SHARED_BULKHDR_LEN :: int where "REDIS_SHARED_BULKHDR_LEN = 32"
definition REDIS_SLAVE :: int where "REDIS_SLAVE = 1"
definition REDIS_MASTER :: int where "REDIS_MASTER = 2"
definition REDIS_CLOSE_AFTER_REPLY :: int where "REDIS_CLOSE_AFTER_REPLY = 64"
definition REDIS_LUA_CLIENT :: int where "REDIS_LUA_CLIENT = 256"
definition REDIS_CLOSE_ASAP :: int where "REDIS_CLOSE_ASAP = 1024"
definition REDIS_REPL_NONE :: int where "REDIS_REPL_NONE = 0"
definition REDIS_REPL_ONLINE :: int where "REDIS_REPL_ONLINE = 6"

lemmas net_consts = REDIS_REPLY_CHUNK_BYTES_def REDIS_MAX_WRITE_PER_EVENT_def REDIS_SHARED_BULKHDR_LEN_def
  REDIS_SLAVE_def REDIS_MASTER_def REDIS_CLOSE_AFTER_REPLY_def REDIS_LUA_CLIENT_def REDIS_CLOSE_ASAP_def
  REDIS_REPL_NONE_def REDIS_REPL_ONLINE_def

record redisClient =
  cid :: nat                      \<comment> \<open>the identity of the client\<close>
  fd :: int
  cflags :: int
  replstate :: int
  bufpos :: nat
  buf :: "char list"
  reply :: "nat list"             \<comment> \<open>the objects of the reply list\<close>
  reply_bytes :: int
  sentlen :: nat
  obuf_soft_limit_reached_time :: int
  subscriptions :: nat            \<comment> \<open>\<open>dictSize(c->pubsub_channels) + listLength(c->pubsub_patterns)\<close>\<close>

text \<open>The shared integers are a field of the object store.\<close>

record shared_objects =
  crlf :: nat
  ok_obj :: nat
  err_obj :: nat
  emptybulk :: nat
  czero :: nat
  cone :: nat
  cnegone :: nat
  pong :: nat
  space_obj :: nat
  colon_obj :: nat
  nullbulk :: nat
  nullmultibulk :: nat
  queued :: nat
  emptymultibulk :: nat
  wrongtypeerr :: nat
  nokeyerr :: nat
  syntaxerr :: nat
  sameobjecterr :: nat
  outofrangeerr :: nat
  noscripterr :: nat
  loadingerr :: nat
  slowscripterr :: nat
  bgsaveerr :: nat
  masterdownerr :: nat
  roslaveerr :: nat
  execaborterr :: nat
  oomerr :: nat
  plus_obj :: nat
  messagebulk :: nat
  pmessagebulk :: nat
  subscribebulk :: nat
  unsubscribebulk :: nat
  psubscribebulk :: nat
  punsubscribebulk :: nat
  del_obj :: nat
  rpop_obj :: nat
  lpop_obj :: nat
  lpush_obj :: nat
  select_cmds :: "nat list"
  mbulkhdr :: "nat list"
  bulkhdr :: "nat list"

record obuf_limit =
  hard_limit_bytes :: int
  soft_limit_bytes :: int
  soft_limit_seconds :: int

record nworld =
  heap :: ostore
  shared :: shared_objects
  unixtime :: int
  client_obuf_limits :: "obuf_limit list"
  clients_to_close :: "nat list"
  sock :: "char list"             \<comment> \<open>the bytes \<open>write\<close> has accepted\<close>

record nenv =
  fresh :: "nat \<Rightarrow> char"
  zmalloc_size_sds :: "sdshdr \<Rightarrow> int"
  write_event :: bool             \<comment> \<open>\<open>aeCreateFileEvent\<close> succeeds\<close>
  used_memory :: int

definition has_flag :: "('a redisClient_scheme) \<Rightarrow> int \<Rightarrow> bool" where
  "has_flag c f \<longleftrightarrow> cflags c AND f \<noteq> 0"

section \<open>Output limits\<close>

definition getClientOutputBufferMemoryUsage :: "('a redisClient_scheme) \<Rightarrow> int" where
  "getClientOutputBufferMemoryUsage c = to_u64 (reply_bytes c + (24 + 16) * int (length (reply c)))"

definition getClientLimitClass :: "('a redisClient_scheme) \<Rightarrow> nat" where
  "getClientLimitClass c = (if has_flag c REDIS_SLAVE then 1 else if subscriptions c \<noteq> 0 then 2 else 0)"

definition checkClientOutputBufferLimits ::
    "('a redisClient_scheme) \<Rightarrow> nworld \<Rightarrow> (obj_error, bool \<times> ('a redisClient_scheme)) result" where
  "checkClientOutputBufferLimits c w =
     (let used_mem = getClientOutputBufferMemoryUsage c; class = getClientLimitClass c in
      if length (client_obuf_limits w) \<le> class then Inl ArrayBounds
      else let l = client_obuf_limits w ! class;
               hard = (hard_limit_bytes l \<noteq> 0 \<and> used_mem \<ge> hard_limit_bytes l);
               soft = (soft_limit_bytes l \<noteq> 0 \<and> used_mem \<ge> soft_limit_bytes l)
           in if soft then
                if obuf_soft_limit_reached_time c = 0
                then Inr (hard, c\<lparr>obuf_soft_limit_reached_time := unixtime w\<rparr>)
                else let elapsed = unixtime w - obuf_soft_limit_reached_time c
                     in Inr (\<not> elapsed \<le> soft_limit_seconds l \<or> hard, c)
              else Inr (hard, c\<lparr>obuf_soft_limit_reached_time := 0\<rparr>))"

definition freeClientAsync :: "('a redisClient_scheme) \<Rightarrow> nworld \<Rightarrow> ('a redisClient_scheme) \<times> nworld" where
  "freeClientAsync c w =
     (if has_flag c REDIS_CLOSE_ASAP then (c, w)
      else (c\<lparr>cflags := cflags c OR REDIS_CLOSE_ASAP\<rparr>, w\<lparr>clients_to_close := clients_to_close w @ [cid c]\<rparr>))"

definition asyncCloseClientOnOutputBufferLimitReached ::
    "('a redisClient_scheme) \<Rightarrow> nworld \<Rightarrow> (obj_error, ('a redisClient_scheme) \<times> nworld) result" where
  "asyncCloseClientOnOutputBufferLimitReached c w =
     (if \<not> reply_bytes c < ULLONG_MAX - 1024 * 64 then Inl Assertion
      else if reply_bytes c = 0 \<or> has_flag c REDIS_CLOSE_ASAP then Inr (c, w)
      else rbind (checkClientOutputBufferLimits c w) (\<lambda>(over, c). Inr (if over then freeClientAsync c w else (c, w))))"

section \<open>Appending to the output\<close>

definition prepareClientToWrite :: "nenv \<Rightarrow> ('a redisClient_scheme) \<Rightarrow> bool" where
  "prepareClientToWrite e c \<longleftrightarrow>
     has_flag c REDIS_LUA_CLIENT \<or>
     \<not> fd c \<le> 0 \<and>
     \<not> (bufpos c = 0 \<and> reply c = [] \<and> (replstate c = REDIS_REPL_NONE \<or> replstate c = REDIS_REPL_ONLINE) \<and> \<not> write_event e)"

text \<open>The status is true for \<open>REDIS_OK\<close>.\<close>

definition addReplyToBuffer ::
    "('a redisClient_scheme) \<Rightarrow> char list \<Rightarrow> int \<Rightarrow> (obj_error, bool \<times> ('a redisClient_scheme)) result" where
  "addReplyToBuffer c s len =
     (let available = to_u64 (int (length (buf c)) - int (bufpos c)) in
      if has_flag c REDIS_CLOSE_AFTER_REPLY then Inr (True, c)
      else if reply c \<noteq> [] then Inr (False, c)
      else if len > available then Inr (False, c)
      else rbind (sds_lift (region s len)) (\<lambda>src.
             Inr (True, c\<lparr>buf := write_at (buf c) (bufpos c) src, bufpos := bufpos c + nat len\<rparr>)))"

definition dupLastObjectIfNeeded ::
    "nenv \<Rightarrow> ('a redisClient_scheme) \<Rightarrow> nworld \<Rightarrow> (obj_error, nat \<times> ('a redisClient_scheme) \<times> nworld) result" where
  "dupLastObjectIfNeeded e c w =
     (if reply c = [] then Inl Assertion
      else let cur = last (reply c) in
        rbind (obj_at (heap w) cur) (\<lambda>ob.
        if refcount ob > 1 then
          rbind (dupStringObject (fresh e) cur (heap w)) (\<lambda>(new, h).
          rbind (decrRefCount cur h) (\<lambda>h.
            Inr (new, c\<lparr>reply := butlast (reply c) @ [new]\<rparr>, w\<lparr>heap := h\<rparr>)))
        else Inr (cur, c, w)))"

definition tail_room :: "('a redisClient_scheme) \<Rightarrow> nworld \<Rightarrow> int \<Rightarrow> (obj_error, bool) result" where
  "tail_room c w len =
     rbind (obj_at (heap w) (last (reply c))) (\<lambda>tl.
       case optr tl of
         PNull \<Rightarrow> Inr False
       | PSds t \<Rightarrow> Inr (to_u64 (sdslen t + len) \<le> REDIS_REPLY_CHUNK_BYTES)
       | _ \<Rightarrow> Inl WrongPtr)"

text \<open>The branch the three functions below share: the bytes are appended to the last object.\<close>

definition glue_tail ::
    "nenv \<Rightarrow> char list \<Rightarrow> int \<Rightarrow> ('a redisClient_scheme) \<Rightarrow> nworld \<Rightarrow> (obj_error, ('a redisClient_scheme) \<times> nworld) result" where
  "glue_tail e s len c w =
     rbind (obj_at (heap w) (last (reply c))) (\<lambda>tl. rbind (ptr_sds tl) (\<lambda>t.
     let c = c\<lparr>reply_bytes := to_u64 (reply_bytes c - zmalloc_size_sds e t)\<rparr> in
     rbind (dupLastObjectIfNeeded e c w) (\<lambda>(a, c, w).
     rbind (obj_at (heap w) a) (\<lambda>tl. rbind (ptr_sds tl) (\<lambda>t.
     rbind (sds_lift (sdscatlen (fresh e) t s len)) (\<lambda>t.
       Inr (c\<lparr>reply_bytes := to_u64 (reply_bytes c + zmalloc_size_sds e t)\<rparr>,
            w\<lparr>heap := store (heap w) a (tl\<lparr>optr := PSds t\<rparr>)\<rparr>)))))))"

definition add_node ::
    "nenv \<Rightarrow> nat \<Rightarrow> ('a redisClient_scheme) \<Rightarrow> nworld \<Rightarrow> (obj_error, ('a redisClient_scheme) \<times> nworld) result" where
  "add_node e a c w =
     rbind (obj_at (heap w) a) (\<lambda>ob. rbind (ptr_sds ob) (\<lambda>s.
       Inr (c\<lparr>reply := reply c @ [a], reply_bytes := to_u64 (reply_bytes c + zmalloc_size_sds e s)\<rparr>, w)))"

definition addReplyObjectToList ::
    "nenv \<Rightarrow> nat \<Rightarrow> ('a redisClient_scheme) \<Rightarrow> nworld \<Rightarrow> (obj_error, ('a redisClient_scheme) \<times> nworld) result" where
  "addReplyObjectToList e a c w =
     (if has_flag c REDIS_CLOSE_AFTER_REPLY then Inr (c, w)
      else rbind (obj_at (heap w) a) (\<lambda>ob. rbind (ptr_sds ob) (\<lambda>s.
        rbind (if reply c = [] then Inr False else tail_room c w (sdslen s)) (\<lambda>glue.
        rbind (if glue then glue_tail e (sh_buf s) (sdslen s) c w
               else rbind (incrRefCount a (heap w)) (\<lambda>h. add_node e a c (w\<lparr>heap := h\<rparr>)))
          (\<lambda>(c, w). asyncCloseClientOnOutputBufferLimitReached c w)))))"

definition addReplySdsToList ::
    "nenv \<Rightarrow> sdshdr \<Rightarrow> ('a redisClient_scheme) \<Rightarrow> nworld \<Rightarrow> (obj_error, ('a redisClient_scheme) \<times> nworld) result" where
  "addReplySdsToList e s c w =
     (if has_flag c REDIS_CLOSE_AFTER_REPLY then Inr (c, w)
      else rbind (if reply c = [] then Inr False else tail_room c w (sdslen s)) (\<lambda>glue.
        rbind (if glue then glue_tail e (sh_buf s) (sdslen s) c w
               else let (a, h) = createObject REDIS_STRING (PSds s) (heap w) in add_node e a c (w\<lparr>heap := h\<rparr>))
          (\<lambda>(c, w). asyncCloseClientOnOutputBufferLimitReached c w)))"

definition addReplyStringToList ::
    "nenv \<Rightarrow> char list \<Rightarrow> int \<Rightarrow> ('a redisClient_scheme) \<Rightarrow> nworld \<Rightarrow> (obj_error, ('a redisClient_scheme) \<times> nworld) result" where
  "addReplyStringToList e s len c w =
     (if has_flag c REDIS_CLOSE_AFTER_REPLY then Inr (c, w)
      else rbind (if reply c = [] then Inr False else tail_room c w len) (\<lambda>glue.
        rbind (if glue then glue_tail e s len c w
               else rbind (createStringObject (fresh e) s len (heap w)) (\<lambda>(a, h). add_node e a c (w\<lparr>heap := h\<rparr>)))
          (\<lambda>(c, w). asyncCloseClientOnOutputBufferLimitReached c w)))"

section \<open>The functions the commands call\<close>

definition addReply ::
    "nenv \<Rightarrow> nat \<Rightarrow> ('a redisClient_scheme) \<Rightarrow> nworld \<Rightarrow> (obj_error, ('a redisClient_scheme) \<times> nworld) result" where
  "addReply e a c w =
     (if \<not> prepareClientToWrite e c then Inr (c, w)
      else rbind (obj_at (heap w) a) (\<lambda>ob.
        if oencoding ob = REDIS_ENCODING_RAW then
          rbind (ptr_sds ob) (\<lambda>s. rbind (addReplyToBuffer c (sh_buf s) (sdslen s)) (\<lambda>(done, c).
            if done then Inr (c, w) else addReplyObjectToList e a c w))
        else if oencoding ob = REDIS_ENCODING_INT then
          rbind (if reply c = [] \<and> to_u64 (int (length (buf c)) - int (bufpos c)) \<ge> 32
                 then rbind (ptr_long ob) (\<lambda>n. let (b, len) = ll2string 32 n in addReplyToBuffer c b (int len))
                 else Inr (False, c)) (\<lambda>(done, c).
          if done then Inr (c, w)
          else rbind (getDecodedObject (fresh e) a (heap w)) (\<lambda>(d, h).
               rbind (obj_at h d) (\<lambda>ob. rbind (ptr_sds ob) (\<lambda>s.
               rbind (addReplyToBuffer c (sh_buf s) (sdslen s)) (\<lambda>(done, c).
               rbind (if done then Inr (c, w\<lparr>heap := h\<rparr>) else addReplyObjectToList e d c (w\<lparr>heap := h\<rparr>)) (\<lambda>(c, w).
               rbind (decrRefCount d (heap w)) (\<lambda>h. Inr (c, w\<lparr>heap := h\<rparr>))))))))
        else Inl Panic))"

definition addReplySds ::
    "nenv \<Rightarrow> sdshdr \<Rightarrow> ('a redisClient_scheme) \<Rightarrow> nworld \<Rightarrow> (obj_error, ('a redisClient_scheme) \<times> nworld) result" where
  "addReplySds e s c w =
     (if \<not> prepareClientToWrite e c then Inr (c, w)
      else rbind (addReplyToBuffer c (sh_buf s) (sdslen s)) (\<lambda>(done, c).
        if done then Inr (c, w) else addReplySdsToList e s c w))"

definition addReplyString ::
    "nenv \<Rightarrow> char list \<Rightarrow> int \<Rightarrow> ('a redisClient_scheme) \<Rightarrow> nworld \<Rightarrow> (obj_error, ('a redisClient_scheme) \<times> nworld) result" where
  "addReplyString e s len c w =
     (if \<not> prepareClientToWrite e c then Inr (c, w)
      else rbind (addReplyToBuffer c s len) (\<lambda>(done, c).
        if done then Inr (c, w) else addReplyStringToList e s len c w))"

definition CRLF :: "char list" where "CRLF = [CHR 0x0D, CHR 0x0A]"

text \<open>Sequencing of operations on a client and the world.\<close>

definition andthen :: "('c \<Rightarrow> nworld \<Rightarrow> (obj_error, 'c \<times> nworld) result) \<Rightarrow> ('c \<Rightarrow> nworld \<Rightarrow> (obj_error, 'c \<times> nworld) result) \<Rightarrow>
    'c \<Rightarrow> nworld \<Rightarrow> (obj_error, 'c \<times> nworld) result" where
  "andthen f f' c w = rbind (f c w) (\<lambda>(c, w). f' c w)"

definition addReplyErrorLength ::
    "nenv \<Rightarrow> char list \<Rightarrow> int \<Rightarrow> ('a redisClient_scheme) \<Rightarrow> nworld \<Rightarrow> (obj_error, ('a redisClient_scheme) \<times> nworld) result" where
  "addReplyErrorLength e s len =
     andthen (addReplyString e ''-ERR '' 5) (andthen (addReplyString e s len) (addReplyString e CRLF 2))"

definition addReplyError ::
    "nenv \<Rightarrow> char list \<Rightarrow> ('a redisClient_scheme) \<Rightarrow> nworld \<Rightarrow> (obj_error, ('a redisClient_scheme) \<times> nworld) result" where
  "addReplyError e err c w = rbind (sds_lift (strlen err)) (\<lambda>len. addReplyErrorLength e err len c w)"

text \<open>\<open>out\<close> is the text \<open>vsnprintf\<close> would print.\<close>

definition addReplyErrorFormat ::
    "nenv \<Rightarrow> char list \<Rightarrow> ('a redisClient_scheme) \<Rightarrow> nworld \<Rightarrow> (obj_error, ('a redisClient_scheme) \<times> nworld) result" where
  "addReplyErrorFormat e out c w =
     rbind (sds_lift (sdsempty (fresh e))) (\<lambda>s. rbind (sds_lift (sdscatvprintf (fresh e) s out)) (\<lambda>s.
     let l = nat (sdslen s);
         s = s\<lparr>sh_buf := map (\<lambda>ch. if ch = CHR 0x0D \<or> ch = CHR 0x0A then CHR '' '' else ch) (take l (sh_buf s)) @ drop l (sh_buf s)\<rparr>
     in addReplyErrorLength e (sh_buf s) (sdslen s) c w))"

definition addReplyStatusLength ::
    "nenv \<Rightarrow> char list \<Rightarrow> int \<Rightarrow> ('a redisClient_scheme) \<Rightarrow> nworld \<Rightarrow> (obj_error, ('a redisClient_scheme) \<times> nworld) result" where
  "addReplyStatusLength e s len =
     andthen (addReplyString e ''+'' 1) (andthen (addReplyString e s len) (addReplyString e CRLF 2))"

definition addReplyStatus ::
    "nenv \<Rightarrow> char list \<Rightarrow> ('a redisClient_scheme) \<Rightarrow> nworld \<Rightarrow> (obj_error, ('a redisClient_scheme) \<times> nworld) result" where
  "addReplyStatus e status c w = rbind (sds_lift (strlen status)) (\<lambda>len. addReplyStatusLength e status len c w)"

definition addReplyStatusFormat ::
    "nenv \<Rightarrow> char list \<Rightarrow> ('a redisClient_scheme) \<Rightarrow> nworld \<Rightarrow> (obj_error, ('a redisClient_scheme) \<times> nworld) result" where
  "addReplyStatusFormat e out c w =
     rbind (sds_lift (sdsempty (fresh e))) (\<lambda>s. rbind (sds_lift (sdscatvprintf (fresh e) s out)) (\<lambda>s.
       addReplyStatusLength e (sh_buf s) (sdslen s) c w))"

text \<open>The handle is the length object; NULL (\<open>None\<close>) when the client gets no output.\<close>

definition addDeferredMultiBulkLength ::
    "nenv \<Rightarrow> ('a redisClient_scheme) \<Rightarrow> nworld \<Rightarrow> nat option \<times> ('a redisClient_scheme) \<times> nworld" where
  "addDeferredMultiBulkLength e c w =
     (if \<not> prepareClientToWrite e c then (None, c, w)
      else let (a, h) = createObject REDIS_STRING PNull (heap w)
           in (Some a, c\<lparr>reply := reply c @ [a]\<rparr>, w\<lparr>heap := h\<rparr>))"

definition glue_next ::
    "nenv \<Rightarrow> nat \<Rightarrow> sdshdr \<Rightarrow> ('a redisClient_scheme) \<Rightarrow> nworld \<Rightarrow> (obj_error, ('a redisClient_scheme) \<times> nworld) result" where
  "glue_next e len s c w =
     (case dropWhile (\<lambda>b. b \<noteq> len) (reply c) of
        _ # next # _ \<Rightarrow>
          rbind (obj_at (heap w) next) (\<lambda>nob.
          case optr nob of
            PNull \<Rightarrow> Inr (c, w)
          | PSds t \<Rightarrow>
              let bytes = to_u64 (to_u64 (reply_bytes c - zmalloc_size_sds e s) - zmalloc_size_sds e t) in
              rbind (sds_lift (sdscatlen (fresh e) s (sh_buf t) (sdslen t))) (\<lambda>s.
              rbind (obj_at (heap w) len) (\<lambda>lob.
              let h = store (heap w) len (lob\<lparr>optr := PSds s\<rparr>);
                  before = takeWhile (\<lambda>b. b \<noteq> len) (reply c) @ [len] in
              rbind (decrRefCount next h) (\<lambda>h.
                Inr (c\<lparr>reply_bytes := to_u64 (bytes + zmalloc_size_sds e s),
                       reply := before @ drop (length before + 1) (reply c)\<rparr>, w\<lparr>heap := h\<rparr>))))
          | _ \<Rightarrow> Inl WrongPtr)
      | _ \<Rightarrow> Inr (c, w))"

definition setDeferredMultiBulkLength ::
    "nenv \<Rightarrow> nat option \<Rightarrow> int \<Rightarrow> ('a redisClient_scheme) \<Rightarrow> nworld \<Rightarrow> (obj_error, ('a redisClient_scheme) \<times> nworld) result" where
  "setDeferredMultiBulkLength e node n c w =
     (case node of
        None \<Rightarrow> Inr (c, w)
      | Some len \<Rightarrow>
          rbind (sds_lift (sdsempty (fresh e))) (\<lambda>s.
          rbind (sds_lift (sdscatprintf (fresh e) s (CHR ''*'' # ll_text n @ CRLF))) (\<lambda>s.
          rbind (obj_at (heap w) len) (\<lambda>ob.
          let w = w\<lparr>heap := store (heap w) len (ob\<lparr>optr := PSds s\<rparr>)\<rparr>;
              c = c\<lparr>reply_bytes := to_u64 (reply_bytes c + zmalloc_size_sds e s)\<rparr> in
          rbind (glue_next e len s c w) (\<lambda>(c, w). asyncCloseClientOnOutputBufferLimitReached c w)))))"

text \<open>\<open>shared.mbulkhdr[ll]\<close> and \<open>shared.bulkhdr[ll]\<close>; the guard of the source has no lower bound.\<close>

definition header_at :: "nat list \<Rightarrow> int \<Rightarrow> (obj_error, nat) result" where
  "header_at xs ll = (if 0 \<le> ll \<and> ll < int (length xs) then Inr (xs ! nat ll) else Inl ArrayBounds)"

definition addReplyLongLongWithPrefix ::
    "nenv \<Rightarrow> int \<Rightarrow> char \<Rightarrow> ('a redisClient_scheme) \<Rightarrow> nworld \<Rightarrow> (obj_error, ('a redisClient_scheme) \<times> nworld) result" where
  "addReplyLongLongWithPrefix e ll pfx c w =
     (if pfx = CHR ''*'' \<and> ll < REDIS_SHARED_BULKHDR_LEN
      then rbind (header_at (mbulkhdr (shared w)) ll) (\<lambda>a. addReply e a c w)
      else if pfx = CHR ''$'' \<and> ll < REDIS_SHARED_BULKHDR_LEN
      then rbind (header_at (bulkhdr (shared w)) ll) (\<lambda>a. addReply e a c w)
      else let (b, len) = ll2string 127 ll in
           addReplyString e (pfx # take len b @ CRLF) (int len + 3) c w)"

definition addReplyLongLong ::
    "nenv \<Rightarrow> int \<Rightarrow> ('a redisClient_scheme) \<Rightarrow> nworld \<Rightarrow> (obj_error, ('a redisClient_scheme) \<times> nworld) result" where
  "addReplyLongLong e ll c w =
     (if ll = 0 then addReply e (czero (shared w)) c w
      else if ll = 1 then addReply e (cone (shared w)) c w
      else addReplyLongLongWithPrefix e ll (CHR '':'') c w)"

definition addReplyMultiBulkLen ::
    "nenv \<Rightarrow> int \<Rightarrow> ('a redisClient_scheme) \<Rightarrow> nworld \<Rightarrow> (obj_error, ('a redisClient_scheme) \<times> nworld) result" where
  "addReplyMultiBulkLen e n = addReplyLongLongWithPrefix e n (CHR ''*'')"

text \<open>The digits of a \<open>long\<close>, counted by dividing towards zero.\<close>

function count_digits :: "int \<Rightarrow> int \<Rightarrow> int" where
  "count_digits n len = (let n = (if n < 0 then - (- n div 10) else n div 10) in if n \<noteq> 0 then count_digits n (len + 1) else len)"
  by pat_completeness auto
termination
  by (relation "measure (\<lambda>(n, len). nat \<bar>n\<bar>)") (auto split: if_splits)

declare count_digits.simps [simp del]

definition addReplyBulkLen ::
    "nenv \<Rightarrow> nat \<Rightarrow> ('a redisClient_scheme) \<Rightarrow> nworld \<Rightarrow> (obj_error, ('a redisClient_scheme) \<times> nworld) result" where
  "addReplyBulkLen e a c w =
     rbind (obj_at (heap w) a) (\<lambda>ob.
     rbind (if oencoding ob = REDIS_ENCODING_RAW then rbind (ptr_sds ob) (\<lambda>s. Inr (sdslen s))
            else rbind (ptr_long ob) (\<lambda>n.
              Inr (count_digits (if n < 0 then to_i64 (- n) else n) (if n < 0 then 2 else 1)))) (\<lambda>len.
       addReplyLongLongWithPrefix e len (CHR ''$'') c w))"

definition addReplyBulk ::
    "nenv \<Rightarrow> nat \<Rightarrow> ('a redisClient_scheme) \<Rightarrow> nworld \<Rightarrow> (obj_error, ('a redisClient_scheme) \<times> nworld) result" where
  "addReplyBulk e a =
     andthen (addReplyBulkLen e a) (andthen (addReply e a) (\<lambda>c w. addReply e (crlf (shared w)) c w))"

definition addReplyBulkCBuffer ::
    "nenv \<Rightarrow> char list \<Rightarrow> int \<Rightarrow> ('a redisClient_scheme) \<Rightarrow> nworld \<Rightarrow> (obj_error, ('a redisClient_scheme) \<times> nworld) result" where
  "addReplyBulkCBuffer e p len =
     andthen (addReplyLongLongWithPrefix e len (CHR ''$''))
       (andthen (addReplyString e p len) (\<lambda>c w. addReply e (crlf (shared w)) c w))"

definition addReplyBulkCString ::
    "nenv \<Rightarrow> char list option \<Rightarrow> ('a redisClient_scheme) \<Rightarrow> nworld \<Rightarrow> (obj_error, ('a redisClient_scheme) \<times> nworld) result" where
  "addReplyBulkCString e s c w =
     (case s of None \<Rightarrow> addReply e (nullbulk (shared w)) c w
      | Some s \<Rightarrow> rbind (sds_lift (strlen s)) (\<lambda>len. addReplyBulkCBuffer e s len c w))"

definition addReplyBulkLongLong ::
    "nenv \<Rightarrow> int \<Rightarrow> ('a redisClient_scheme) \<Rightarrow> nworld \<Rightarrow> (obj_error, ('a redisClient_scheme) \<times> nworld) result" where
  "addReplyBulkLongLong e ll c w = (let (b, len) = ll2string 64 ll in addReplyBulkCBuffer e b (int len) c w)"

section \<open>Writing to the socket\<close>

text \<open>The answers of \<open>write\<close>: so many bytes accepted, \<open>EAGAIN\<close>, or another error. A master gets no replies; the bytes
  count as written.\<close>

datatype write_answer = Accept nat | WouldBlock | Broken

definition do_write ::
    "('a redisClient_scheme) \<Rightarrow> char list \<Rightarrow> int \<Rightarrow> write_answer list \<Rightarrow> nworld \<Rightarrow> (bool, int) result \<times> write_answer list \<times> nworld" where
  "do_write c chunk left answers w =
     (if has_flag c REDIS_MASTER then (Inr left, answers, w)
      else case answers of
        [] \<Rightarrow> (Inl True, [], w)
      | Accept k # answers \<Rightarrow> let n = min k (length chunk) in (Inr (int n), answers, w\<lparr>sock := sock w @ take n chunk\<rparr>)
      | WouldBlock # answers \<Rightarrow> (Inl True, answers, w)
      | Broken # answers \<Rightarrow> (Inl False, answers, w))"

text \<open>Leaving the loop: all is well (or \<open>EAGAIN\<close>), or the connection is broken.\<close>

definition enough_written :: "nenv \<Rightarrow> nworld \<Rightarrow> int \<Rightarrow> bool" where
  "enough_written e w tot \<longleftrightarrow>
     tot > REDIS_MAX_WRITE_PER_EVENT \<and> (maxmemory (heap w) = 0 \<or> used_memory e < maxmemory (heap w))"

lemma do_write_answers:
  "do_write c chunk left answers w = (Inr n, answers', w') \<Longrightarrow> \<not> (n \<le> 0 \<and> \<not> has_flag c REDIS_MASTER) \<Longrightarrow>
     has_flag c REDIS_MASTER \<and> n = left \<and> answers' = answers \<and> w' = w \<or> length answers' < length answers"
  by (auto simp: do_write_def Let_def split: list.splits write_answer.splits if_splits)

function send_loop ::
    "nenv \<Rightarrow> write_answer list \<Rightarrow> int \<Rightarrow> ('a redisClient_scheme) \<Rightarrow> nworld \<Rightarrow>
     (obj_error, bool \<times> ('a redisClient_scheme) \<times> nworld) result"
where
  "send_loop e answers tot c w =
     (if bufpos c > 0 then
        (case do_write c (drop (sentlen c) (take (bufpos c) (buf c))) (int (bufpos c) - int (sentlen c)) answers w of
           (Inl again, answers', w') \<Rightarrow> Inr (again, c, w')
         | (Inr n, answers', w') \<Rightarrow>
             if n \<le> 0 \<and> \<not> has_flag c REDIS_MASTER then Inr (True, c, w')
             else let s = nat (int (sentlen c) + n); tot = tot + n;
                      c' = (if s = bufpos c then c\<lparr>bufpos := 0, sentlen := 0\<rparr> else c\<lparr>sentlen := s\<rparr>)
                  in if enough_written e w' tot then Inr (True, c', w') else send_loop e answers' tot c' w')
      else case reply c of
        [] \<Rightarrow> Inr (True, c, w)
      | a # rest \<Rightarrow>
          rbind (obj_at (heap w) a) (\<lambda>ob. rbind (ptr_sds ob) (\<lambda>sd.
          let objlen = sdslen sd; objmem = zmalloc_size_sds e sd in
          if objlen = 0 then
            rbind (decrRefCount a (heap w)) (\<lambda>h. send_loop e answers tot (c\<lparr>reply := rest\<rparr>) (w\<lparr>heap := h\<rparr>))
          else
            (case do_write c (drop (sentlen c) (take (nat objlen) (sh_buf sd))) (objlen - int (sentlen c)) answers w of
               (Inl again, answers', w') \<Rightarrow> Inr (again, c, w')
             | (Inr n, answers', w') \<Rightarrow>
                 if n \<le> 0 \<and> \<not> has_flag c REDIS_MASTER then Inr (True, c, w')
                 else let s = nat (int (sentlen c) + n); tot = tot + n in
                   if s = nat objlen then
                     rbind (decrRefCount a (heap w')) (\<lambda>h.
                     let c' = c\<lparr>reply := rest, sentlen := 0, reply_bytes := to_u64 (reply_bytes c - objmem)\<rparr>;
                         w'' = w'\<lparr>heap := h\<rparr>
                     in if enough_written e w'' tot then Inr (True, c', w'') else send_loop e answers' tot c' w'')
                   else
                     let c' = c\<lparr>sentlen := s\<rparr>
                     in if enough_written e w' tot then Inr (True, c', w') else send_loop e answers' tot c' w'))))"
  by pat_completeness auto
termination
proof (relation "measure (\<lambda>(e, answers, tot, c, w). length answers + length (reply c) + (if bufpos c > 0 then 1 else 0))", goal_cases)
  case 1
  show ?case by simp
qed (auto dest!: do_write_answers [OF sym] simp: Let_def split: if_splits)

declare send_loop.simps [simp del]

text \<open>The flag says that \<open>freeClient\<close> is called on the client.\<close>

definition sendReplyToClient ::
    "nenv \<Rightarrow> write_answer list \<Rightarrow> ('a redisClient_scheme) \<Rightarrow> nworld \<Rightarrow>
     (obj_error, bool \<times> ('a redisClient_scheme) \<times> nworld) result" where
  "sendReplyToClient e answers c w =
     rbind (send_loop e answers 0 c w) (\<lambda>(ok, c, w).
       if \<not> ok then Inr (True, c, w)
       else if bufpos c = 0 \<and> reply c = [] then Inr (has_flag c REDIS_CLOSE_AFTER_REPLY, c\<lparr>sentlen := 0\<rparr>, w)
       else Inr (False, c, w))"

section \<open>The state of the output\<close>

text \<open>
  What is still to be sent, with a mark (the object) for each multi bulk length that is not yet known; the invariant of a client and the world for the references \<open>held\<close> by the rest
  of the program; and the budget: after at most \<open>k\<close> pieces of output, lengths and \<open>reply_bytes\<close> are bounded by it. Blocks
  are smaller than 4 GB.
\<close>

definition cell :: "ostore \<Rightarrow> nat \<Rightarrow> (char + nat) list" where
  "cell h a = (if solid h a then map Inl (text_at h a) else [Inr a])"

definition out :: "('a redisClient_scheme) \<Rightarrow> nworld \<Rightarrow> (char + nat) list" where
  "out c w = drop (sentlen c) (map Inl (take (bufpos c) (buf c)) @ concat (map (cell (heap w)) (reply c)))"

definition usable_ok :: "nenv \<Rightarrow> bool" where
  "usable_ok e \<longleftrightarrow> (\<forall>s. 0 \<le> zmalloc_size_sds e s \<and> zmalloc_size_sds e s < 2 ^ 32)"

fun ptr_bytes :: "nenv \<Rightarrow> (int \<times> optr) option \<Rightarrow> int" where
  "ptr_bytes e (Some (_, PSds s)) = zmalloc_size_sds e s"
| "ptr_bytes e _ = 0"

definition list_bytes :: "nenv \<Rightarrow> ostore \<Rightarrow> nat list \<Rightarrow> int" where
  "list_bytes e h as = sum_list (map (\<lambda>a. ptr_bytes e (payload h a)) as)"

definition OUT_LIMIT :: nat where "OUT_LIMIT = 2 ^ 28"

definition sent_ok :: "('a redisClient_scheme) \<Rightarrow> nworld \<Rightarrow> bool" where
  "sent_ok c w \<longleftrightarrow>
     (if bufpos c > 0 then sentlen c < bufpos c
      else sentlen c = 0 \<or> reply c \<noteq> [] \<and> sentlen c < length (text_at (heap w) (hd (reply c))))"

definition client_ok :: "nenv \<Rightarrow> nat list \<Rightarrow> nat \<Rightarrow> ('a redisClient_scheme) \<Rightarrow> nworld \<Rightarrow> bool" where
  "client_ok e held k c w \<longleftrightarrow>
     store_ok (heap w) (held @ reply c) \<and> (\<forall>a\<in>set (reply c). is_raw (heap w) a) \<and>
     length (buf c) = 16384 \<and> bufpos c \<le> 16384 \<and> sent_ok c w \<and> length (client_obuf_limits w) = 3 \<and>
     list_bytes e (heap w) (reply c) \<le> reply_bytes c \<and> reply_bytes c \<le> int k * 2 ^ 32 \<and>
     length held \<le> OUT_LIMIT \<and> length (reply c) \<le> k \<and> k \<le> OUT_LIMIT"

text \<open>A connected client that takes replies, with a working event loop.\<close>

definition open_client :: "nenv \<Rightarrow> ('a redisClient_scheme) \<Rightarrow> bool" where
  "open_client e c \<longleftrightarrow> 0 < fd c \<and> write_event e \<and> usable_ok e \<and>
     \<not> has_flag c REDIS_CLOSE_AFTER_REPLY \<and> \<not> has_flag c REDIS_MASTER"

definition frame :: "nat list \<Rightarrow> nworld \<Rightarrow> nworld \<Rightarrow> bool" where
  "frame held w w' \<longleftrightarrow> same (heap w) (heap w') (set held) \<and> shared w' = shared w \<and> sock w' = sock w"

text \<open>\<open>f\<close> appends \<open>t\<close> to the output, in at most \<open>n\<close> pieces, in every world that agrees with \<open>w0\<close> on the held objects.\<close>

definition appends ::
    "nenv \<Rightarrow> nat list \<Rightarrow> nworld \<Rightarrow>
     (('a redisClient_scheme) \<Rightarrow> nworld \<Rightarrow> (obj_error, ('a redisClient_scheme) \<times> nworld) result) \<Rightarrow> char list \<Rightarrow> nat \<Rightarrow> bool" where
  "appends e held w0 f t n \<longleftrightarrow>
     (\<forall>k c w. client_ok e held k c w \<and> open_client e c \<and> frame held w0 w \<and> k + n \<le> OUT_LIMIT \<longrightarrow>
        (\<exists>c' w'. f c w = Inr (c', w') \<and> client_ok e held (k + n) c' w' \<and> open_client e c' \<and> frame held w0 w' \<and>
           out c' w' = out c w @ map Inl t))"

lemma frame_refl [simp]: "frame held w w"
  by (simp add: frame_def)

lemma frame_trans: "frame held w w' \<Longrightarrow> frame held w' w'' \<Longrightarrow> frame held w w''"
  by (auto simp: frame_def same_def)

lemma appendsE:
  assumes "appends e held w0 f t n" and "client_ok e held k c w" and "open_client e c" and "frame held w0 w" and "k + n \<le> OUT_LIMIT"
  obtains c' w' where "f c w = Inr (c', w')" "client_ok e held (k + n) c' w'" "open_client e c'" "frame held w0 w'" "out c' w' = out c w @ map Inl t"
  using assms unfolding appends_def by blast

lemma andthen_appends:
  assumes "appends e held w0 f t n" and "appends e held w0 f' t' n'"
  shows "appends e held w0 (andthen f f') (t @ t') (n + n')"
  unfolding appends_def
proof (intro allI impI)
  fix k and c :: "'a redisClient_scheme" and w
  assume a: "client_ok e held k c w \<and> open_client e c \<and> frame held w0 w \<and> k + (n + n') \<le> OUT_LIMIT"
  obtain c1 w1 where 1: "f c w = Inr (c1, w1)" "client_ok e held (k + n) c1 w1" "open_client e c1" "frame held w0 w1"
    "out c1 w1 = out c w @ map Inl t"
    by (rule appendsE [OF assms(1), of k c w]) (use a in auto)
  obtain c2 w2 where 2: "f' c1 w1 = Inr (c2, w2)" "client_ok e held (k + n + n') c2 w2" "open_client e c2" "frame held w0 w2"
    "out c2 w2 = out c1 w1 @ map Inl t'"
    by (rule appendsE [OF assms(2) 1(2,3,4)]) (use a in auto)
  show "\<exists>c' w'. andthen f f' c w = Inr (c', w') \<and> client_ok e held (k + (n + n')) c' w' \<and> open_client e c' \<and> frame held w0 w' \<and>
      out c' w' = out c w @ map Inl (t @ t')"
    using 1 2 by (simp add: andthen_def add.assoc)
qed

lemma and_or_flag: "g AND f = 0 \<Longrightarrow> (x OR g) AND f = x AND (f :: int)"
  by (simp add: bit.conj_disj_distrib2)

lemma check_ok:
  assumes "length (client_obuf_limits w) = 3"
  shows "\<exists>over t. checkClientOutputBufferLimits c w = Inr (over, c\<lparr>obuf_soft_limit_reached_time := t\<rparr>)"
proof -
  have cl: "\<not> length (client_obuf_limits w) \<le> getClientLimitClass c" using assms by (simp add: getClientLimitClass_def)
  have id: "\<exists>t. c = c\<lparr>obuf_soft_limit_reached_time := t\<rparr>" by (rule exI [of _ "obuf_soft_limit_reached_time c"]) simp
  show ?thesis
    unfolding checkClientOutputBufferLimits_def Let_def if_not_P [OF cl] using id by (simp split: if_split) blast
qed

text \<open>The check of the limits changes neither the output nor the invariant.\<close>

lemma passive_update:
  assumes "client_ok e held k c w" and "open_client e c" and "f AND 64 = cflags c AND 64" and "f AND 2 = cflags c AND 2"
  shows "client_ok e held k (c\<lparr>obuf_soft_limit_reached_time := t, cflags := f\<rparr>) (w\<lparr>clients_to_close := l\<rparr>) \<and>
    open_client e (c\<lparr>obuf_soft_limit_reached_time := t, cflags := f\<rparr>) \<and> frame held w (w\<lparr>clients_to_close := l\<rparr>) \<and>
    out (c\<lparr>obuf_soft_limit_reached_time := t, cflags := f\<rparr>) (w\<lparr>clients_to_close := l\<rparr>) = out c w"
  using assms by (simp add: client_ok_def sent_ok_def open_client_def has_flag_def frame_def out_def net_consts)

lemma async_form:
  assumes "length (client_obuf_limits w) = 3" and "reply_bytes c < ULLONG_MAX - 1024 * 64"
  shows "\<exists>t f l. asyncCloseClientOnOutputBufferLimitReached c w =
      Inr (c\<lparr>obuf_soft_limit_reached_time := t, cflags := f\<rparr>, w\<lparr>clients_to_close := l\<rparr>) \<and>
    f AND 64 = cflags c AND 64 \<and> f AND 2 = cflags c AND 2"
proof (cases "reply_bytes c = 0 \<or> has_flag c REDIS_CLOSE_ASAP")
  case True
  then have "asyncCloseClientOnOutputBufferLimitReached c w =
      Inr (c\<lparr>obuf_soft_limit_reached_time := obuf_soft_limit_reached_time c, cflags := cflags c\<rparr>,
           w\<lparr>clients_to_close := clients_to_close w\<rparr>)"
    using assms(2) by (simp add: asyncCloseClientOnOutputBufferLimitReached_def)
  then show ?thesis by blast
next
  case False
  obtain over t where chk: "checkClientOutputBufferLimits c w = Inr (over, c\<lparr>obuf_soft_limit_reached_time := t\<rparr>)"
    using check_ok [OF assms(1)] by blast
  let ?f = "if over then cflags c OR 1024 else cflags c"
    and ?l = "if over then clients_to_close w @ [cid c] else clients_to_close w"
  have "asyncCloseClientOnOutputBufferLimitReached c w =
      Inr (c\<lparr>obuf_soft_limit_reached_time := t, cflags := ?f\<rparr>, w\<lparr>clients_to_close := ?l\<rparr>)"
    using False assms(2) unfolding asyncCloseClientOnOutputBufferLimitReached_def
    by (simp add: chk freeClientAsync_def has_flag_def REDIS_CLOSE_ASAP_def)
  moreover have "?f AND 64 = cflags c AND 64" "?f AND 2 = cflags c AND 2" by (simp_all add: and_or_flag)
  ultimately show ?thesis by blast
qed

lemma async_ok:
  assumes "client_ok e held k c w" and "open_client e c"
  shows "\<exists>c' w'. asyncCloseClientOnOutputBufferLimitReached c w = Inr (c', w') \<and> client_ok e held k c' w' \<and> open_client e c' \<and>
    frame held w w' \<and> out c' w' = out c w"
proof -
  have lim: "length (client_obuf_limits w) = 3" "reply_bytes c \<le> int k * 2 ^ 32" "k \<le> OUT_LIMIT"
    using assms(1) by (simp_all add: client_ok_def)
  have "int k * 2 ^ 32 \<le> 2 ^ 28 * 2 ^ 32" using lim(3) by (simp add: OUT_LIMIT_def)
  then have as: "reply_bytes c < ULLONG_MAX - 1024 * 64" using lim(2) by (simp add: ll_bounds)
  from async_form [OF lim(1) as] passive_update [OF assms] show ?thesis by metis
qed

section \<open>The appending functions\<close>

lemma raw_sds:
  assumes "store_ok h held" and "is_raw h a" and "solid h a"
  obtains ob s where "objs h a = Some ob" "oencoding ob = REDIS_ENCODING_RAW" "optr ob = PSds s" "sds_ok s" "text_at h a = sds_str s"
    "payload h a = Some (REDIS_ENCODING_RAW, PSds s)"
  using assms by (auto elim!: held_str str_ok_cases simp: is_raw_def payload_def)

lemma client_okD:
  assumes "client_ok e held k c w"
  shows "store_ok (heap w) (held @ reply c)" "\<forall>a\<in>set (reply c). is_raw (heap w) a" "length (buf c) = 16384" "bufpos c \<le> 16384"
    "length (client_obuf_limits w) = 3" "list_bytes e (heap w) (reply c) \<le> reply_bytes c" "reply_bytes c \<le> int k * 2 ^ 32"
    "length held \<le> OUT_LIMIT" "length (reply c) \<le> k" "k \<le> OUT_LIMIT" "sent_ok c w"
  using assms by (simp_all add: client_ok_def)

lemma hole_text: "\<not> solid h a \<Longrightarrow> text_at h a = []"
  by (auto simp: text_at_def obj_text_def solid_def split: option.splits)

lemma cell_solid [simp]: "solid h a \<Longrightarrow> cell h a = map Inl (text_at h a)"
  by (simp add: cell_def)

lemma sent_le: "sent_ok c w \<Longrightarrow> length (buf c) = 16384 \<Longrightarrow> bufpos c \<le> 16384 \<Longrightarrow>
    sentlen c \<le> length (map Inl (take (bufpos c) (buf c)) @ concat (map (cell (heap w)) (reply c)))"
  by (cases "reply c") (auto simp: sent_ok_def cell_def hole_text split: if_splits)

lemma same_map: "same h h' A \<Longrightarrow> set xs \<subseteq> A \<Longrightarrow> map (text_at h') xs = map (text_at h) xs"
  by (rule keeps_map [OF same_keeps])

lemma same_cells: "same h h' A \<Longrightarrow> set xs \<subseteq> A \<Longrightarrow> map (cell h') xs = map (cell h) xs"
  using payload_eq [of h' _ h] by (auto simp: same_def cell_def)

lemma same_bytes: "same h h' A \<Longrightarrow> set xs \<subseteq> A \<Longrightarrow> list_bytes e h' xs = list_bytes e h xs"
  by (induction xs) (auto simp: list_bytes_def same_def)

lemma list_bytes_app [simp]: "list_bytes e h (xs @ ys) = list_bytes e h xs + list_bytes e h ys" "list_bytes e h [] = 0"
    "list_bytes e h [a] = ptr_bytes e (payload h a)"
  by (simp_all add: list_bytes_def)

lemma ptr_bytes_bounds: "usable_ok e \<Longrightarrow> 0 \<le> ptr_bytes e p \<and> ptr_bytes e p < 2 ^ 32"
  by (cases "(e, p)" rule: ptr_bytes.cases) (auto simp: usable_ok_def)

lemma list_bytes_nonneg: "usable_ok e \<Longrightarrow> 0 \<le> list_bytes e h xs"
  unfolding list_bytes_def using ptr_bytes_bounds [of e] by (intro sum_list_nonneg) auto

lemma budget_bound: "k \<le> OUT_LIMIT \<Longrightarrow> int k * 2 ^ 32 \<le> 2 ^ 60"
  by (simp add: OUT_LIMIT_def)

lemma addReplyToBuffer_ok:
  assumes "client_ok e held k c w" and "open_client e c" and "n \<le> length s"
  shows "addReplyToBuffer c s (int n) = Inr (False, c) \<or>
    (\<exists>c'. addReplyToBuffer c s (int n) = Inr (True, c') \<and> client_ok e held k c' w \<and> open_client e c' \<and> out c' w = out c w @ map Inl (take n s))"
proof (cases "reply c \<noteq> [] \<or> int n > 16384 - int (bufpos c)")
  case True
  then show ?thesis using client_okD [OF assms(1)] assms(2) by (auto simp: addReplyToBuffer_def open_client_def Let_def cint)
next
  case False
  note ok = client_okD [OF assms(1)]
  let ?c = "c\<lparr>buf := write_at (buf c) (bufpos c) (take n s), bufpos := bufpos c + n\<rparr>"
  have r: "reply c = []" "bufpos c + n \<le> 16384" using False ok(4) by auto
  have "addReplyToBuffer c s (int n) = Inr (True, ?c)"
    using r ok assms by (simp add: addReplyToBuffer_def open_client_def Let_def cint)
  moreover have "take (bufpos c + n) (write_at (buf c) (bufpos c) (take n s)) = take (bufpos c) (buf c) @ take n s"
    using ok(3,4) assms(3) by (subst take_write_at_exact) auto
  then have "out ?c w = out c w @ map Inl (take n s)"
    using sent_le [OF ok(11,3,4)] r(1) by (simp add: out_def)
  moreover have "client_ok e held k ?c w" "open_client e ?c"
    using assms r ok(3,4) by (auto simp: client_ok_def sent_ok_def open_client_def has_flag_def split: if_splits)
  ultimately show ?thesis by blast
qed

lemma add_node_ok:
  assumes c: "client_ok e held k c w" and o: "open_client e c" and fr: "same (heap w) h (set (held @ reply c))"
    and st: "store_ok h ((held @ reply c) @ [a])" and raw: "is_raw h a" "solid h a" and k: "k + 1 \<le> OUT_LIMIT"
  shows "\<exists>c'. add_node e a c (w\<lparr>heap := h\<rparr>) = Inr (c', w\<lparr>heap := h\<rparr>) \<and> client_ok e held (k + 1) c' (w\<lparr>heap := h\<rparr>) \<and>
    open_client e c' \<and> frame held w (w\<lparr>heap := h\<rparr>) \<and> out c' (w\<lparr>heap := h\<rparr>) = out c w @ map Inl (text_at h a)"
proof -
  note ok = client_okD [OF c]
  have u: "usable_ok e" using o by (simp add: open_client_def)
  obtain ob s where ob: "objs h a = Some ob" "optr ob = PSds s" "payload h a = Some (REDIS_ENCODING_RAW, PSds s)"
    using raw_sds [OF st raw] by metis
  have sz: "0 \<le> zmalloc_size_sds e s" "zmalloc_size_sds e s < 2 ^ 32" using u by (simp_all add: usable_ok_def)
  have b0: "0 \<le> reply_bytes c" using list_bytes_nonneg [OF u, of "heap w" "reply c"] ok(6) by linarith
  have "to_u64 (reply_bytes c + zmalloc_size_sds e s) = reply_bytes c + zmalloc_size_sds e s"
    using b0 sz ok(7) budget_bound [OF ok(10)] by (simp add: cint)
  then have step: "add_node e a c (w\<lparr>heap := h\<rparr>) =
      Inr (c\<lparr>reply := reply c @ [a], reply_bytes := reply_bytes c + zmalloc_size_sds e s\<rparr>, w\<lparr>heap := h\<rparr>)" (is "_ = Inr (?c, ?w)")
    using ob by (simp add: add_node_def)
  have m: "map (text_at h) (reply c) = map (text_at (heap w)) (reply c)" using same_map [OF fr, of "reply c"] by simp
  have cl: "map (cell h) (reply c) = map (cell (heap w)) (reply c)" using same_cells [OF fr, of "reply c"] by simp
  have "out ?c ?w = out c w @ map Inl (text_at h a)" using sent_le [OF ok(11,3,4)] raw(2) by (simp add: out_def cl)
  moreover have "list_bytes e h (reply c) = list_bytes e (heap w) (reply c)" using same_bytes [OF fr, of "reply c" e] by simp
  moreover have "\<forall>b\<in>set (reply c). is_raw h b" using ok(2) fr is_raw_eq [of h _ "heap w"] by (auto simp: same_def)
  moreover have "sent_ok ?c ?w"
    using ok(11) m by (cases "reply c") (auto simp: sent_ok_def split: if_splits)
  ultimately have "client_ok e held (k + 1) ?c ?w" "out ?c ?w = out c w @ map Inl (text_at h a)"
    using ok st raw k sz ob(3) by (simp_all add: client_ok_def)
  moreover have "open_client e ?c" using o by (simp add: open_client_def has_flag_def)
  moreover have "frame held w ?w" using fr by (auto simp: frame_def same_def)
  ultimately show ?thesis using step by blast
qed

lemma createStringObject_fresh:
  assumes "store_ok h held" and "createStringObject g p n h = Inr (a, h')"
  shows "a \<notin> set held \<and> a \<notin> set (shared_integers h)"
proof -
  have "a = nextobj h" using assms(2) by (auto simp: createStringObject_def createObject_def Let_def rbind_eq_Inr)
  moreover have "objs h (nextobj h) = None" using assms(1) by (cases "objs h (nextobj h)") (auto simp: store_ok_def)
  ultimately show ?thesis using held_live [OF assms(1), of a] by auto
qed

text \<open>Changing the string of an object with a single reference.\<close>

lemma set_text_ok:
  assumes "store_ok h (xs @ [z])" and "z \<notin> set xs" and "objs h z = Some ob" and "oencoding ob = REDIS_ENCODING_RAW" and "sds_ok t"
  shows "store_ok (store h z (ob\<lparr>optr := PSds t\<rparr>)) (xs @ [z]) \<and> same h (store h z (ob\<lparr>optr := PSds t\<rparr>)) (set xs) \<and>
    payload (store h z (ob\<lparr>optr := PSds t\<rparr>)) z = Some (REDIS_ENCODING_RAW, PSds t) \<and>
    text_at (store h z (ob\<lparr>optr := PSds t\<rparr>)) z = sds_str t"
proof -
  have cell: "cell_ok ob" "z < nextobj h" "refcount ob = int (refs h (xs @ [z]) z)" using assms(1,3) by (auto simp: store_ok_def)
  have "\<nexists>n. optr ob = PLong n" using cell(1) assms(4) by (auto simp: cell_ok_def str_ok_def)
  then have "z \<notin> set (shared_integers h)" using shared_is_int [OF assms(1) _ assms(3)] by auto
  then have "\<forall>i<10000. shared_integers h ! i \<noteq> z" using assms(1) by (metis nth_mem shared_ok_def store_ok_def)
  moreover have "cell_ok (ob\<lparr>optr := PSds t\<rparr>)" using cell(1) assms(4,5) by (auto simp: cell_ok_def str_ok_def)
  ultimately have "store_ok (store h z (ob\<lparr>optr := PSds t\<rparr>)) (xs @ [z])"
    using assms(1,3) cell(2,3) unfolding store_ok_def shared_ok_def by auto
  then show ?thesis using assms(2,4) by (auto simp: same_def payload_def text_at_def obj_text_def)
qed

text \<open>After \<open>dupLastObjectIfNeeded\<close> the last object is referenced by the list alone and holds the same text.\<close>

lemma dupLast_ok:
  assumes st: "store_ok (heap w) ((held @ rs) @ [z])" and rs: "reply c = rs @ [z]" and raw: "is_raw (heap w) z" and so: "solid (heap w) z"
    and len: "length ((held @ rs) @ [z]) < REF_LIMIT"
  shows "\<exists>z' h. dupLastObjectIfNeeded e c w = Inr (z', c\<lparr>reply := rs @ [z']\<rparr>, w\<lparr>heap := h\<rparr>) \<and>
    store_ok h ((held @ rs) @ [z']) \<and> z' \<notin> set (held @ rs) \<and> same (heap w) h (set (held @ rs)) \<and>
    text_at h z' = text_at (heap w) z \<and> is_raw h z' \<and> solid h z'"
proof -
  obtain ob s where ob: "objs (heap w) z = Some ob" "oencoding ob = REDIS_ENCODING_RAW" "optr ob = PSds s" "sds_ok s"
    "text_at (heap w) z = sds_str s" using raw_sds [OF st raw so] by metis
  have rc: "refcount ob = int (refs (heap w) ((held @ rs) @ [z]) z)" using st ob(1) by (simp add: store_ok_def)
  show ?thesis
  proof (cases "refcount ob > 1")
    case False
    then have "count_list (held @ rs) z = 0" using rc by (simp add: refs_def)
    then have "z \<notin> set (held @ rs)" by (simp only: count_list_0_iff not_False_eq_True)
    then show ?thesis
      using False ob(1) rs st raw so
      by (intro exI [of _ z] exI [of _ "heap w"]) (simp add: dupLastObjectIfNeeded_def)
  next
    case True
    obtain xs fr where s: "s = mk_sds xs fr" "length xs + length fr < 2147483648" using ob(4) by (rule sds_okE)
    obtain a h1 where h1: "createStringObject (fresh e) (sh_buf s) (sdslen s) (heap w) = Inr (a, h1)"
      "store_ok h1 (((held @ rs) @ [z]) @ [a])" "same (heap w) h1 (set ((held @ rs) @ [z]))" "text_at h1 a = xs" "solid h1 a" "is_raw h1 a"
      using createStringObject_ok [OF st len, of "length xs" "sh_buf s" "fresh e"] s by auto
    have a: "a \<notin> set (held @ rs)" "a \<noteq> z" using createStringObject_fresh [OF st h1(1)] by auto
    have "mset (((held @ rs) @ [z]) @ [a]) = add_mset z (mset ((held @ rs) @ [a]))" by simp
    from decr_ok [OF h1(2) this] obtain h2 where h2: "decrRefCount z h1 = Inr h2" "store_ok h2 ((held @ rs) @ [a])"
      "same h1 h2 (set ((held @ rs) @ [a]))" by (auto intro: same_mono)
    have a2: "text_at h2 a = xs" "solid h2 a" "is_raw h2 a"
      using h1(4-6) h2(3) payload_eq [of h2 a h1] is_raw_eq [of h2 a h1] by (simp_all add: same_def)
    have "same (heap w) h2 (set (held @ rs))" using same_trans [OF h1(3) h2(3)] by (rule same_mono) auto
    moreover have "dupLastObjectIfNeeded e c w = Inr (a, c\<lparr>reply := rs @ [a]\<rparr>, w\<lparr>heap := h2\<rparr>)"
      using True ob h1(1) h2(1) rs by (simp add: dupLastObjectIfNeeded_def dupStringObject_def)
    ultimately show ?thesis using h2(2) a a2 ob(5) s(1) by auto
  qed
qed

lemma glue_tail_ok:
  assumes c: "client_ok e held k c w" and o: "open_client e c" and ne: "reply c \<noteq> []" and so: "solid (heap w) (last (reply c))"
    and n: "n \<le> length s" and room: "int (length (text_at (heap w) (last (reply c))) + n) \<le> 16384" and k: "k + 1 \<le> OUT_LIMIT"
  shows "\<exists>c' w'. glue_tail e s (int n) c w = Inr (c', w') \<and> client_ok e held (k + 1) c' w' \<and> open_client e c' \<and>
    frame held w w' \<and> out c' w' = out c w @ map Inl (take n s)"
proof -
  note ok = client_okD [OF c]
  have u: "usable_ok e" using o by (simp add: open_client_def)
  obtain rs z where rs: "reply c = rs @ [z]" using ne by (metis append_butlast_last_id)
  have st: "store_ok (heap w) ((held @ rs) @ [z])" and raw: "is_raw (heap w) z" and so': "solid (heap w) z"
    using ok(1,2) rs so by simp_all
  obtain ob t where ob: "objs (heap w) z = Some ob" "optr ob = PSds t" "text_at (heap w) z = sds_str t"
    "payload (heap w) z = Some (REDIS_ENCODING_RAW, PSds t)" using raw_sds [OF st raw so'] by metis
  define B where "B = reply_bytes c - zmalloc_size_sds e t"
  have lb: "list_bytes e (heap w) rs \<le> B" "0 \<le> list_bytes e (heap w) rs" "B \<le> int k * 2 ^ 32" "0 \<le> zmalloc_size_sds e t"
    using ok(6,7) rs ob(4) list_bytes_nonneg [OF u, of "heap w" rs] u by (auto simp: B_def usable_ok_def) (smt (verit))
  have B: "to_u64 B = B" using lb budget_bound [OF ok(10)] by (simp add: cint)
  let ?c1 = "c\<lparr>reply_bytes := B\<rparr>"
  have len: "length ((held @ rs) @ [z]) < REF_LIMIT" using ok(8,9,10) rs by (simp add: OUT_LIMIT_def REF_LIMIT_def)
  obtain z' h where d1: "dupLastObjectIfNeeded e ?c1 w = Inr (z', ?c1\<lparr>reply := rs @ [z']\<rparr>, w\<lparr>heap := h\<rparr>)"
    and d: "store_ok h ((held @ rs) @ [z'])" "z' \<notin> set (held @ rs)" "same (heap w) h (set (held @ rs))"
    "text_at h z' = text_at (heap w) z" "is_raw h z'" "solid h z'"
    using dupLast_ok [OF st _ raw so' len, of ?c1 e] rs by auto
  obtain ob' t' where ob': "objs h z' = Some ob'" "oencoding ob' = REDIS_ENCODING_RAW" "optr ob' = PSds t'" "sds_ok t'" "text_at h z' = sds_str t'"
    using raw_sds [OF d(1,5,6)] by metis
  have len: "length (sds_str t') + n \<le> 16384" using room rs ob(3) d(4) ob'(5) by simp
  then obtain t2 where t2: "sdscatlen (fresh e) t' s (int n) = Inr t2" "sds_ok t2" "sds_str t2 = sds_str t' @ take n s"
    using sdscatlen_ok [OF ob'(4) n, of "fresh e"] by (auto simp: yields_iff SDS_LIMIT_def)
  let ?h = "store h z' (ob'\<lparr>optr := PSds t2\<rparr>)"
  have h: "store_ok ?h ((held @ rs) @ [z'])" "same h ?h (set (held @ rs))" "payload ?h z' = Some (REDIS_ENCODING_RAW, PSds t2)"
    "text_at ?h z' = sds_str t' @ take n s"
    using set_text_ok [OF d(1,2) ob'(1,2) t2(2)] t2(3) by simp_all
  have sz: "0 \<le> zmalloc_size_sds e t2" "zmalloc_size_sds e t2 < 2 ^ 32" using u by (simp_all add: usable_ok_def)
  have B2: "to_u64 (B + zmalloc_size_sds e t2) = B + zmalloc_size_sds e t2"
    using lb sz budget_bound [OF ok(10)] by (simp add: cint)
  let ?c = "?c1\<lparr>reply := rs @ [z'], reply_bytes := B + zmalloc_size_sds e t2\<rparr>" and ?w = "w\<lparr>heap := ?h\<rparr>"
  have step: "glue_tail e s (int n) c w = Inr (?c, ?w)"
    unfolding glue_tail_def Let_def using rs ob(1,2) ob'(1,3) d1 t2(1) B B2 by (simp add: B_def)
  have fr: "same (heap w) ?h (set (held @ rs))" using same_trans [OF d(3) h(2)] by (rule same_mono) auto
  have m: "map (text_at ?h) rs = map (text_at (heap w)) rs" using same_map [OF fr, of rs] by simp
  have t: "text_at (heap w) z = sds_str t'" using d(4) ob'(5) by simp
  let ?A = "map Inl (take (bufpos c) (buf c)) @ concat (map (cell (heap w)) (reply c))"
  have cl: "map (cell ?h) rs = map (cell (heap w)) rs" using same_cells [OF fr, of rs] by simp
  have "solid ?h z'" by (simp add: solid_def)
  then have "map Inl (take (bufpos c) (buf c)) @ concat (map (cell ?h) (rs @ [z'])) = ?A @ map Inl (take n s)"
    using so' by (simp add: rs h(4) t cl)
  then have "out ?c ?w = drop (sentlen c) (?A @ map Inl (take n s))" by (simp add: out_def)
  then have "out ?c ?w = out c w @ map Inl (take n s)"
    using sent_le [OF ok(11,3,4)] by (simp only: out_def drop_append) simp
  moreover have "list_bytes e ?h rs = list_bytes e (heap w) rs" using same_bytes [OF fr, of rs e] by simp
  moreover have "\<forall>b\<in>set rs. is_raw ?h b" using ok(2) rs fr is_raw_eq [of ?h _ "heap w"] by (auto simp: same_def)
  moreover have "is_raw ?h z'" using h(3) by (simp add: is_raw_def)
  moreover have "sent_ok ?c ?w"
    using ok(11) m rs h(4) t by (cases rs) (auto simp: sent_ok_def split: if_splits)
  ultimately have "client_ok e held (k + 1) ?c ?w" "out ?c ?w = out c w @ map Inl (take n s)"
    using ok h lb sz rs k by (simp_all add: client_ok_def)
  moreover have "open_client e ?c" using o by (simp add: open_client_def has_flag_def)
  moreover have "frame held w ?w" using fr by (auto simp: frame_def same_def)
  ultimately show ?thesis using step by blast
qed

text \<open>The outcome of one appended piece.\<close>

definition added ::
    "nenv \<Rightarrow> nat list \<Rightarrow> nat \<Rightarrow> ('a redisClient_scheme) \<Rightarrow> nworld \<Rightarrow> char list \<Rightarrow> (obj_error, ('a redisClient_scheme) \<times> nworld) result \<Rightarrow> bool" where
  "added e held k c w t r \<longleftrightarrow>
     (\<exists>c' w'. r = Inr (c', w') \<and> client_ok e held (k + 1) c' w' \<and> open_client e c' \<and> frame held w w' \<and> out c' w' = out c w @ map Inl t)"

lemma tail_room_ok:
  assumes "client_ok e held k c w" and "reply c \<noteq> []" and "n < 2147483648"
  shows "\<exists>b. tail_room c w (int n) = Inr b \<and>
    (b \<longrightarrow> solid (heap w) (last (reply c)) \<and> int (length (text_at (heap w) (last (reply c))) + n) \<le> 16384)"
proof -
  note ok = client_okD [OF assms(1)]
  let ?z = "last (reply c)"
  have z: "?z \<in> set (held @ reply c)" "is_raw (heap w) ?z" using assms(2) ok(2) by auto
  show ?thesis
  proof (cases "solid (heap w) ?z")
    case True
    obtain ob s where ob: "objs (heap w) ?z = Some ob" "optr ob = PSds s" "sds_ok s" "text_at (heap w) ?z = sds_str s"
      using raw_sds [OF ok(1) z(2) True] by metis
    obtain xs fr where s: "s = mk_sds xs fr" "length xs + length fr < 2147483648" using ob(3) by (rule sds_okE)
    have "to_u64 (sdslen s + int n) = int (length xs + n)" using s assms(3) by (simp add: cint)
    then show ?thesis using ob s True by (simp add: tail_room_def REDIS_REPLY_CHUNK_BYTES_def)
  next
    case False
    obtain ob where "objs (heap w) ?z = Some ob" using held_live [OF ok(1), of ?z] z(1) by blast
    then have "tail_room c w (int n) = Inr False" using False by (simp add: tail_room_def solid_def)
    then show ?thesis by blast
  qed
qed

lemma added_async: "added e held k c w t r \<Longrightarrow>
    added e held k c w t (rbind r (\<lambda>(c, w). asyncCloseClientOnOutputBufferLimitReached c w))"
proof -
  assume "added e held k c w t r"
  then obtain c' w' where 1: "r = Inr (c', w')" "client_ok e held (k + 1) c' w'" "open_client e c'" "frame held w w'" "out c' w' = out c w @ map Inl t"
    unfolding added_def by blast
  obtain c2 w2 where 2: "asyncCloseClientOnOutputBufferLimitReached c' w' = Inr (c2, w2)" "client_ok e held (k + 1) c2 w2"
    "open_client e c2" "frame held w' w2" "out c2 w2 = out c' w'" using async_ok [OF 1(2,3)] by blast
  have "frame held w w2" using 1(4) 2(4) by (rule frame_trans)
  then show ?thesis using 1 2 by (auto simp: added_def)
qed

lemma list_add_ok:
  assumes "client_ok e held k c w" and "open_client e c" and "n \<le> length s" and "n < 2147483648" and "k + 1 \<le> OUT_LIMIT"
    and new: "added e held k c w (take n s) new"
  shows "added e held k c w (take n s)
    (rbind (if reply c = [] then Inr False else tail_room c w (int n)) (\<lambda>glue.
     rbind (if glue then glue_tail e s (int n) c w else new) (\<lambda>(c, w). asyncCloseClientOnOutputBufferLimitReached c w)))"
proof (cases "reply c = []")
  case True
  then show ?thesis using added_async [OF new] by simp
next
  case False
  obtain b where b: "tail_room c w (int n) = Inr b"
    "b \<longrightarrow> solid (heap w) (last (reply c)) \<and> int (length (text_at (heap w) (last (reply c))) + n) \<le> 16384"
    using tail_room_ok [OF assms(1) False assms(4)] by blast
  have "added e held k c w (take n s) (if b then glue_tail e s (int n) c w else new)"
    using new glue_tail_ok [OF assms(1,2) False _ assms(3) _ assms(5)] b(2) by (auto simp: added_def)
  from added_async [OF this] show ?thesis using False b(1) by simp
qed

lemma prepare_open: "open_client e c \<Longrightarrow> prepareClientToWrite e c"
  by (auto simp: prepareClientToWrite_def open_client_def)

text \<open>First the buffer, then the list.\<close>

lemma buffer_or_list:
  assumes "client_ok e held k c w" and "open_client e c" and "n \<le> length s" and "k + 1 \<le> OUT_LIMIT"
    and "added e held k c w (take n s) (f c)"
  shows "added e held k c w (take n s)
    (rbind (addReplyToBuffer c s (int n)) (\<lambda>(done, c'). if done then Inr (c', w) else f c'))"
  using addReplyToBuffer_ok [OF assms(1-3)]
proof
  assume "\<exists>c'. addReplyToBuffer c s (int n) = Inr (True, c') \<and> client_ok e held k c' w \<and> open_client e c' \<and> out c' w = out c w @ map Inl (take n s)"
  then show ?thesis using assms(4) by (auto simp: added_def client_ok_def)
qed (use assms(5) in simp)

lemma appendsI:
  assumes "\<And>k c w. client_ok e held k c w \<Longrightarrow> open_client e c \<Longrightarrow> frame held w0 w \<Longrightarrow> k + 1 \<le> OUT_LIMIT \<Longrightarrow> added e held k c w t (f c w)"
  shows "appends e held w0 f t 1"
  unfolding appends_def
proof (intro allI impI, elim conjE)
  fix k and c :: "'a redisClient_scheme" and w
  assume a: "client_ok e held k c w" "open_client e c" "frame held w0 w" "k + 1 \<le> OUT_LIMIT"
  obtain c' w' where "f c w = Inr (c', w')" "client_ok e held (k + 1) c' w'" "open_client e c'" "frame held w w'" "out c' w' = out c w @ map Inl t"
    using assms [OF a] unfolding added_def by blast
  then show "\<exists>c' w'. f c w = Inr (c', w') \<and> client_ok e held (k + 1) c' w' \<and> open_client e c' \<and> frame held w0 w' \<and> out c' w' = out c w @ map Inl t"
    using frame_trans [OF a(3)] by blast
qed

lemma held_room: "client_ok e held k c w \<Longrightarrow> length (held @ reply c) < REF_LIMIT"
  using client_okD(8-10) [of e held k c w] by (simp add: OUT_LIMIT_def REF_LIMIT_def)

lemma added_node:
  assumes "client_ok e held k c w" and "open_client e c" and "same (heap w) h (set (held @ reply c))"
    and "store_ok h ((held @ reply c) @ [a])" and "is_raw h a" and "solid h a" and "k + 1 \<le> OUT_LIMIT" and "text_at h a = t"
  shows "added e held k c w t (add_node e a c (w\<lparr>heap := h\<rparr>))"
  using add_node_ok [OF assms(1-7)] assms(8) by (auto simp: added_def)

lemma addReplyString_appends:
  assumes "n \<le> length s" and "n < 2147483648"
  shows "appends e held w0 (addReplyString e s (int n)) (take n s) 1"
proof (rule appendsI)
  fix k and c :: "'a redisClient_scheme" and w
  assume c: "client_ok e held k c w" and o: "open_client e c" and k: "k + 1 \<le> OUT_LIMIT"
  note ok = client_okD [OF c]
  have nf: "\<not> has_flag c REDIS_CLOSE_AFTER_REPLY" using o by (simp add: open_client_def)
  obtain a h where h: "createStringObject (fresh e) s (int n) (heap w) = Inr (a, h)" "store_ok h ((held @ reply c) @ [a])"
    "same (heap w) h (set (held @ reply c))" "text_at h a = take n s" "solid h a" "is_raw h a"
    using createStringObject_ok [OF ok(1) held_room [OF c] assms] by blast
  have "added e held k c w (take n s) (rbind (createStringObject (fresh e) s (int n) (heap w)) (\<lambda>(a, h). add_node e a c (w\<lparr>heap := h\<rparr>)))"
    using added_node [OF c o h(3,2,6,5) k h(4)] h(1) by simp
  from list_add_ok [OF c o assms k this] nf
  have "added e held k c w (take n s) (addReplyStringToList e s (int n) c w)" by (simp add: addReplyStringToList_def)
  from buffer_or_list [where f = "\<lambda>c. addReplyStringToList e s (int n) c w", OF c o assms(1) k this]
  show "added e held k c w (take n s) (addReplyString e s (int n) c w)"
    using prepare_open [OF o] by (simp add: addReplyString_def)
qed

lemma addReplySds_appends:
  assumes "sds_ok s"
  shows "appends e held w0 (addReplySds e s) (sds_str s) 1"
proof (rule appendsI)
  fix k and c :: "'a redisClient_scheme" and w
  assume c: "client_ok e held k c w" and o: "open_client e c" and k: "k + 1 \<le> OUT_LIMIT"
  note ok = client_okD [OF c]
  obtain xs fr where s: "s = mk_sds xs fr" "length xs + length fr < 2147483648" using assms by (rule sds_okE)
  have len: "sdslen s = int (length xs)" "take (length xs) (sh_buf s) = xs" "length xs \<le> length (sh_buf s)" "length xs < 2147483648"
    using s by simp_all
  have nf: "\<not> has_flag c REDIS_CLOSE_AFTER_REPLY" using o by (simp add: open_client_def)
  let ?ob = "\<lparr>otype = REDIS_STRING, oencoding = REDIS_ENCODING_RAW, lru = lruclock (heap w), refcount = 1, optr = PSds s\<rparr>"
    and ?a = "nextobj (heap w)"
  let ?h = "(store (heap w) ?a ?ob)\<lparr>nextobj := ?a + 1\<rparr>"
  have h: "store_ok ?h ((held @ reply c) @ [?a])" "same (heap w) ?h (set (held @ reply c))" "text_at ?h ?a = xs"
    using create_ok [OF ok(1) held_room [OF c], of ?ob] assms s(1) by (auto simp: cell_ok_def str_ok_def obj_text_def)
  have "solid ?h ?a" "is_raw ?h ?a" by (simp_all add: solid_def is_raw_def payload_def)
  from added_node [OF c o h(2,1) this(2,1) k h(3)]
  have "added e held k c w xs (let (a, h) = createObject REDIS_STRING (PSds s) (heap w) in add_node e a c (w\<lparr>heap := h\<rparr>))"
    by (simp add: createObject_def Let_def)
  note L = list_add_ok [OF c o len(3,4) k, unfolded len(2), OF this]
  have "added e held k c w xs (addReplySdsToList e s c w)"
    unfolding addReplySdsToList_def if_not_P [OF nf] len(1) using L by simp
  note B = buffer_or_list [where f = "\<lambda>c. addReplySdsToList e s c w", OF c o len(3) k, unfolded len(2), OF this]
  have "sds_str s = xs" "prepareClientToWrite e c" using s prepare_open [OF o] by simp_all
  then show "added e held k c w (sds_str s) (addReplySds e s c w)"
    unfolding addReplySds_def len(1) using B by simp
qed

lemma addReplyObjectToList_ok:
  assumes c: "client_ok e held k c w" and o: "open_client e c" and k: "k + 1 \<le> OUT_LIMIT"
    and a: "a \<in> set held" "solid (heap w) a" "is_raw (heap w) a"
  shows "added e held k c w (text_at (heap w) a) (addReplyObjectToList e a c w)"
proof -
  note ok = client_okD [OF c]
  obtain ob s where ob: "objs (heap w) a = Some ob" "optr ob = PSds s" "sds_ok s" "text_at (heap w) a = sds_str s"
    using raw_sds [OF ok(1) a(3,2)] by metis
  obtain xs fr where s: "s = mk_sds xs fr" "length xs + length fr < 2147483648" using ob(3) by (rule sds_okE)
  have len: "sdslen s = int (length xs)" "take (length xs) (sh_buf s) = xs" "length xs \<le> length (sh_buf s)" "length xs < 2147483648"
    using s by simp_all
  have nf: "\<not> has_flag c REDIS_CLOSE_AFTER_REPLY" using o by (simp add: open_client_def)
  obtain h where h: "incrRefCount a (heap w) = Inr h" "store_ok h ((held @ reply c) @ [a])" "same (heap w) h UNIV"
    using incr_ok [OF ok(1) held_room [OF c], of a] a(1) by auto
  have ha: "is_raw h a" "solid h a" "text_at h a = xs" "same (heap w) h (set (held @ reply c))"
    using same_UNIV [OF h(3), of a "set (held @ reply c)"] is_raw_eq [of h a "heap w"] h(3) a ob(4) s(1) by (simp_all add: same_def)
  have "added e held k c w xs (rbind (incrRefCount a (heap w)) (\<lambda>h. add_node e a c (w\<lparr>heap := h\<rparr>)))"
    using added_node [OF c o ha(4) h(2) ha(1,2) k ha(3)] h(1) by simp
  note L = list_add_ok [OF c o len(3,4) k, unfolded len(2), OF this]
  have "obj_at (heap w) a = Inr ob" "ptr_sds ob = Inr s" "text_at (heap w) a = xs" using ob s(1) by simp_all
  then show ?thesis
    unfolding addReplyObjectToList_def if_not_P [OF nf] by (simp only: rbind_simps len(1) L)
qed

text \<open>Exchanging the store for one that agrees on the list.\<close>

lemma rebase:
  assumes "client_ok e held k c w" and "store_ok h (held' @ reply c)" and "same (heap w) h (set (reply c))" and "length held' \<le> OUT_LIMIT"
  shows "client_ok e held' k c (w\<lparr>heap := h\<rparr>) \<and> out c (w\<lparr>heap := h\<rparr>) = out c w"
proof -
  note ok = client_okD [OF assms(1)]
  have m: "map (text_at h) (reply c) = map (text_at (heap w)) (reply c)" using same_map [OF assms(3) order_refl] .
  have "\<forall>b\<in>set (reply c). is_raw h b" using ok(2) assms(3) is_raw_eq [of h _ "heap w"] by (auto simp: same_def)
  moreover have "list_bytes e h (reply c) = list_bytes e (heap w) (reply c)" using same_bytes [OF assms(3) order_refl] .
  moreover have "sent_ok c (w\<lparr>heap := h\<rparr>)" using ok(11) m by (cases "reply c") (auto simp: sent_ok_def split: if_splits)
  moreover have "out c (w\<lparr>heap := h\<rparr>) = out c w" by (simp add: out_def same_cells [OF assms(3) order_refl])
  ultimately show ?thesis using ok assms(2,4) by (simp add: client_ok_def)
qed

lemma acquire:
  assumes "client_ok e held k c w" and "store_ok h ((held @ reply c) @ [d])" and "same (heap w) h (set (held @ reply c))"
    and "length held < OUT_LIMIT"
  shows "client_ok e (held @ [d]) k c (w\<lparr>heap := h\<rparr>) \<and> out c (w\<lparr>heap := h\<rparr>) = out c w"
proof -
  have "store_ok h ((held @ [d]) @ reply c)" using store_ok_mset [OF _ assms(2), of "(held @ [d]) @ reply c"] by simp
  then show ?thesis using rebase [OF assms(1), of h "held @ [d]"] same_mono [OF assms(3), of "set (reply c)"] assms(4) by simp
qed

lemma release:
  assumes "client_ok e (held @ [d]) k c w"
  shows "\<exists>h. decrRefCount d (heap w) = Inr h \<and> client_ok e held k c (w\<lparr>heap := h\<rparr>) \<and> out c (w\<lparr>heap := h\<rparr>) = out c w \<and>
    same (heap w) h (set held)"
proof -
  note ok = client_okD [OF assms]
  have "mset ((held @ [d]) @ reply c) = add_mset d (mset (held @ reply c))" by simp
  from decr_ok [OF ok(1) this] obtain h where h: "decrRefCount d (heap w) = Inr h" "store_ok h (held @ reply c)"
    "same (heap w) h (set (held @ reply c))" by (auto intro: same_mono)
  then show ?thesis
    using rebase [OF assms h(2)] same_mono [OF h(3), of "set (reply c)"] same_mono [OF h(3), of "set held"] ok(8) by auto
qed

lemma frame_obj: "frame held w0 w \<Longrightarrow> a \<in> set held \<Longrightarrow>
    text_at (heap w) a = text_at (heap w0) a \<and> solid (heap w) a = solid (heap w0) a \<and> is_raw (heap w) a = is_raw (heap w0) a"
  using payload_eq [of "heap w" a "heap w0"] is_raw_eq [of "heap w" a "heap w0"] by (simp add: frame_def same_def)

text \<open>An integer-encoded object is decoded into a temporary one.\<close>

lemma addReply_decoded:
  assumes c: "client_ok e held k c w" and o: "open_client e c" and k: "k + 1 \<le> OUT_LIMIT" and l: "length held < OUT_LIMIT"
    and a: "a \<in> set held" "solid (heap w) a"
  shows "added e held k c w (text_at (heap w) a)
    (rbind (getDecodedObject (fresh e) a (heap w)) (\<lambda>(d, h).
     rbind (obj_at h d) (\<lambda>ob. rbind (ptr_sds ob) (\<lambda>s.
     rbind (addReplyToBuffer c (sh_buf s) (sdslen s)) (\<lambda>(done, c).
     rbind (if done then Inr (c, w\<lparr>heap := h\<rparr>) else addReplyObjectToList e d c (w\<lparr>heap := h\<rparr>)) (\<lambda>(c, w).
     rbind (decrRefCount d (heap w)) (\<lambda>h. Inr (c, w\<lparr>heap := h\<rparr>))))))))"
proof -
  note ok = client_okD [OF c]
  obtain d h where d: "getDecodedObject (fresh e) a (heap w) = Inr (d, h)" "store_ok h ((held @ reply c) @ [d])"
    "same (heap w) h (set (held @ reply c))" "text_at h d = text_at (heap w) a" "solid h d" "is_raw h d"
    using getDecodedObject_ok [OF ok(1) _ a(2) held_room [OF c], of "fresh e"] a(1) by auto
  let ?w = "w\<lparr>heap := h\<rparr>"
  obtain ob s where ob: "objs h d = Some ob" "optr ob = PSds s" "sds_ok s" "text_at h d = sds_str s"
    using raw_sds [OF d(2,6,5)] by metis
  obtain xs fr where s: "s = mk_sds xs fr" "length xs + length fr < 2147483648" using ob(3) by (rule sds_okE)
  have len: "sdslen s = int (length xs)" "take (length xs) (sh_buf s) = xs" "length xs \<le> length (sh_buf s)" using s by simp_all
  have acq: "client_ok e (held @ [d]) k c ?w" "out c ?w = out c w" using acquire [OF c d(2,3) l] by simp_all
  have "added e (held @ [d]) k c ?w xs (addReplyObjectToList e d c ?w)"
    using addReplyObjectToList_ok [OF acq(1) o k, of d] d(5,6) ob(4) s by simp
  note B = buffer_or_list [where f = "\<lambda>c. addReplyObjectToList e d c ?w", OF acq(1) o len(3) k, unfolded len(2), OF this]
  obtain c1 w1 where 1: "rbind (addReplyToBuffer c (sh_buf s) (int (length xs))) (\<lambda>(done, c').
      if done then Inr (c', ?w) else addReplyObjectToList e d c' ?w) = Inr (c1, w1)"
    "client_ok e (held @ [d]) (k + 1) c1 w1" "open_client e c1" "frame (held @ [d]) ?w w1" "out c1 w1 = out c ?w @ map Inl xs"
    using B unfolding added_def by blast
  obtain h2 where h2: "decrRefCount d (heap w1) = Inr h2" "client_ok e held (k + 1) c1 (w1\<lparr>heap := h2\<rparr>)"
    "out c1 (w1\<lparr>heap := h2\<rparr>) = out c1 w1" "same (heap w1) h2 (set held)" using release [OF 1(2)] by blast
  have "frame held w (w1\<lparr>heap := h2\<rparr>)" using 1(4) h2(4) d(3) by (auto simp: frame_def same_def)
  moreover have "xs = text_at (heap w) a" using d(4) ob(4) s by simp
  moreover obtain b c0 where b: "addReplyToBuffer c (sh_buf s) (int (length xs)) = Inr (b, c0)"
    "(if b then Inr (c0, ?w) else addReplyObjectToList e d c0 ?w) = Inr (c1, w1)"
    using 1(1) by (auto simp: rbind_eq_Inr)
  ultimately show ?thesis
    unfolding added_def using 1(3,5) h2 acq(2) d(1) ob(1,2) len(1) b by (intro exI [of _ c1] exI [of _ "w1\<lparr>heap := h2\<rparr>"]) simp
qed

lemma addReply_appends:
  assumes a: "a \<in> set held" "solid (heap w0) a" and l: "length held < OUT_LIMIT"
  shows "appends e held w0 (addReply e a) (text_at (heap w0) a) 1"
proof (rule appendsI)
  fix k and c :: "'a redisClient_scheme" and w
  assume c: "client_ok e held k c w" and o: "open_client e c" and fr: "frame held w0 w" and k: "k + 1 \<le> OUT_LIMIT"
  note ok = client_okD [OF c]
  have w: "text_at (heap w0) a = text_at (heap w) a" "solid (heap w) a" using frame_obj [OF fr a(1)] a(2) by simp_all
  have p: "prepareClientToWrite e c" using o by (rule prepare_open)
  obtain ob where ob: "objs (heap w) a = Some ob" "str_ok ob" "text_at (heap w) a = obj_text ob" using held_str [OF ok(1) w(2)] by blast
  from ob(2) show "added e held k c w (text_at (heap w0) a) (addReply e a c w)"
  proof (cases rule: str_ok_cases)
    case (1 s)
    obtain xs fr where s: "s = mk_sds xs fr" "length xs + length fr < 2147483648" using 1(4) by (rule sds_okE)
    have len: "sdslen s = int (length xs)" "take (length xs) (sh_buf s) = xs" "length xs \<le> length (sh_buf s)" using s by simp_all
    have "is_raw (heap w) a" using ob(1) 1(2) by (simp add: is_raw_def payload_def)
    then have "added e held k c w xs (addReplyObjectToList e a c w)"
      using addReplyObjectToList_ok [OF c o k a(1) w(2)] ob(3) 1(5) s by simp
    note B = buffer_or_list [where f = "\<lambda>c. addReplyObjectToList e a c w", OF c o len(3) k, unfolded len(2), OF this]
    have "text_at (heap w0) a = xs" using w(1) ob(3) 1(5) s by simp
    then show ?thesis using B p ob(1) 1(2,3) len(1) by (simp add: addReply_def)
  next
    case (2 n)
    let ?rest = "rbind (getDecodedObject (fresh e) a (heap w)) (\<lambda>(d, h).
     rbind (obj_at h d) (\<lambda>ob. rbind (ptr_sds ob) (\<lambda>s.
     rbind (addReplyToBuffer c (sh_buf s) (sdslen s)) (\<lambda>(done, c).
     rbind (if done then Inr (c, w\<lparr>heap := h\<rparr>) else addReplyObjectToList e d c (w\<lparr>heap := h\<rparr>)) (\<lambda>(c, w).
     rbind (decrRefCount d (heap w)) (\<lambda>h. Inr (c, w\<lparr>heap := h\<rparr>)))))))"
    have rest: "added e held k c w (text_at (heap w) a) ?rest" by (rule addReply_decoded [OF c o k l a(1) w(2)])
    have ll: "ll2string 32 n = (ll_text n @ [NUL], length (ll_text n))" using ll2string_text [OF 2(4)] by simp
    have t: "text_at (heap w) a = ll_text n" using ob(3) 2(5) by simp
    show ?thesis
    proof (cases "reply c = [] \<and> to_u64 (int (length (buf c)) - int (bufpos c)) \<ge> 32")
      case False
      have "addReply e a c w = ?rest" unfolding addReply_def if_not_P [OF False] using p ob(1) 2(2) by simp
      then show ?thesis using rest w(1) by simp
    next
      case True
      consider "addReplyToBuffer c (ll_text n @ [NUL]) (int (length (ll_text n))) = Inr (False, c)"
        | c' where "addReplyToBuffer c (ll_text n @ [NUL]) (int (length (ll_text n))) = Inr (True, c')" "client_ok e held k c' w"
          "open_client e c'" "out c' w = out c w @ map Inl (ll_text n)"
        using addReplyToBuffer_ok [OF c o, of "length (ll_text n)" "ll_text n @ [NUL]"] by auto
      then show ?thesis
      proof cases
        case 1
        have "addReply e a c w = ?rest" unfolding addReply_def if_P [OF True] using 1 p ob(1) 2(2,3) ll by simp
        then show ?thesis using rest w(1) by simp
      next
        case (2 c')
        have "addReply e a c w = Inr (c', w)"
          unfolding addReply_def if_P [OF True]
          using 2(1) p ob(1) \<open>oencoding ob = REDIS_ENCODING_INT\<close> \<open>optr ob = PLong n\<close> ll by simp
        moreover have "client_ok e held (k + 1) c' w" using 2(2) k by (auto simp: client_ok_def)
        ultimately show ?thesis using 2(3,4) t w(1) by (simp add: added_def)
      qed
    qed
  qed
qed

end
