(* ===== verification/Networking_Request.thy ===== *)
theory Networking_Request
  imports Networking_Reply
begin

text \<open>
  \<open>networking.c\<close>, input side: bytes read from the socket are collected in the query buffer of the client and cut into
  commands, in the inline form or as multi bulk requests; complete commands are executed one by one. \<open>processCommand\<close>
  is an argument (\<open>exec\<close>) that works on a state of its own next to the client and the world, and so are the bytes
  waiting in the socket and the answers of \<open>read\<close>.
\<close>

section \<open>Clients with requests\<close>

definition REDIS_IOBUF_LEN :: int where "REDIS_IOBUF_LEN = 1024 * 16"
definition REDIS_INLINE_MAX_SIZE :: int where "REDIS_INLINE_MAX_SIZE = 1024 * 64"
definition REDIS_MBULK_BIG_ARG :: int where "REDIS_MBULK_BIG_ARG = 1024 * 32"
definition REDIS_REQ_INLINE :: int where "REDIS_REQ_INLINE = 1"
definition REDIS_REQ_MULTIBULK :: int where "REDIS_REQ_MULTIBULK = 2"
definition REDIS_MULTI :: int where "REDIS_MULTI = 8"
definition REDIS_BLOCKED :: int where "REDIS_BLOCKED = 16"
definition REDIS_ASKING :: int where "REDIS_ASKING = 512"

lemmas req_consts = REDIS_IOBUF_LEN_def REDIS_INLINE_MAX_SIZE_def REDIS_MBULK_BIG_ARG_def REDIS_REQ_INLINE_def
  REDIS_REQ_MULTIBULK_def REDIS_MULTI_def REDIS_BLOCKED_def REDIS_ASKING_def

text \<open>
  The commands the code compares \<open>proc\<close> with, and those whose functions are modelled; the others by the name of their
  function. The fields about the keys of a command and its statistics are not used here.
\<close>

datatype command_proc = AuthCommand | PingCommand | EchoCommand | TimeCommand | MultiCommand | ExecCommand | DiscardCommand
  | WatchCommand | UnwatchCommand | SubscribeCommand | UnsubscribeCommand | PsubscribeCommand | PunsubscribeCommand
  | ShutdownCommand | ScriptCommand | OtherCommand "char list"

record redisCommand =
  cmd_name :: "char list"
  cmd_proc :: command_proc
  arity :: int
  sflags :: "char list"
  cmd_flags :: int

text \<open>\<open>argc\<close> is the length of \<open>argv\<close>; \<open>argv_room\<close> is the number of slots of the array.\<close>

record request_client = redisClient +
  querybuf :: sdshdr
  querybuf_peak :: int
  argv :: "nat list"
  argv_room :: int
  cmd :: "redisCommand option"
  reqtype :: int
  multibulklen :: int
  bulklen :: int
  lastinteraction :: int

definition push_arg :: "nat \<Rightarrow> ('a request_client_scheme) \<Rightarrow> (obj_error, 'a request_client_scheme) result" where
  "push_arg a c = (if int (length (argv c)) < argv_room c then Inr (c\<lparr>argv := argv c @ [a]\<rparr>) else Inl ArrayBounds)"

text \<open>The string functions of C: they read up to the terminator, which has to be there.\<close>

fun find_sub :: "char list \<Rightarrow> char list \<Rightarrow> nat option" where
  "find_sub pat [] = (if pat = [] then Some 0 else None)"
| "find_sub pat (x # xs) = (if take (length pat) (x # xs) = pat then Some 0 else map_option Suc (find_sub pat xs))"

definition strstr :: "char list \<Rightarrow> char list \<Rightarrow> (obj_error, nat option) result" where
  "strstr s pat = (if NUL \<in> set s then Inr (find_sub pat (cstr s)) else Inl (SdsFault ReadOverflow))"

definition strchr :: "char list \<Rightarrow> char \<Rightarrow> (obj_error, nat option) result" where
  "strchr s ch = strstr s [ch]"

section \<open>Resetting the client\<close>

fun decr_all :: "nat list \<Rightarrow> ostore \<Rightarrow> (obj_error, ostore) result" where
  "decr_all [] h = Inr h"
| "decr_all (a # as) h = rbind (decrRefCount a h) (decr_all as)"

definition freeClientArgv ::
    "('a request_client_scheme) \<Rightarrow> nworld \<Rightarrow> (obj_error, ('a request_client_scheme) \<times> nworld) result" where
  "freeClientArgv c w = rbind (decr_all (argv c) (heap w)) (\<lambda>h. Inr (c\<lparr>argv := [], cmd := None\<rparr>, w\<lparr>heap := h\<rparr>))"

definition resetClient ::
    "('a request_client_scheme) \<Rightarrow> nworld \<Rightarrow> (obj_error, ('a request_client_scheme) \<times> nworld) result" where
  "resetClient c w =
     rbind (freeClientArgv c w) (\<lambda>(c, w).
       let c = c\<lparr>reqtype := 0, multibulklen := 0, bulklen := -1\<rparr>
       in Inr (if has_flag c REDIS_MULTI then c else c\<lparr>cflags := cflags c AND NOT REDIS_ASKING\<rparr>, w))"

section \<open>Parsing requests\<close>

definition setProtocolError :: "int \<Rightarrow> ('a request_client_scheme) \<Rightarrow> (obj_error, 'a request_client_scheme) result" where
  "setProtocolError off c =
     rbind (sds_lift (sdsrange (querybuf c) off (-1))) (\<lambda>q.
       Inr (c\<lparr>cflags := cflags c OR REDIS_CLOSE_AFTER_REPLY, querybuf := q\<rparr>))"

definition protocol_error ::
    "nenv \<Rightarrow> char list \<Rightarrow> int \<Rightarrow> ('a request_client_scheme) \<Rightarrow> nworld \<Rightarrow>
     (obj_error, ('a request_client_scheme) \<times> nworld) result" where
  "protocol_error e msg off c w =
     rbind (addReplyError e (''Protocol error: '' @ msg @ [NUL]) c w) (\<lambda>(c, w).
     rbind (setProtocolError off c) (\<lambda>c. Inr (c, w)))"

fun inline_args ::
    "sdshdr list \<Rightarrow> ('a request_client_scheme) \<Rightarrow> nworld \<Rightarrow> (obj_error, ('a request_client_scheme) \<times> nworld) result" where
  "inline_args [] c w = Inr (c, w)"
| "inline_args (t # ts) c w =
     (if sdslen t \<noteq> 0
      then let (a, h) = createObject REDIS_STRING (PSds t) (heap w)
           in rbind (push_arg a c) (\<lambda>c. inline_args ts c (w\<lparr>heap := h\<rparr>))
      else inline_args ts c w)"

text \<open>The status is true for \<open>REDIS_OK\<close>.\<close>

definition processInlineBuffer ::
    "nenv \<Rightarrow> ('a request_client_scheme) \<Rightarrow> nworld \<Rightarrow> (obj_error, bool \<times> ('a request_client_scheme) \<times> nworld) result" where
  "processInlineBuffer e c w =
     rbind (strstr (sh_buf (querybuf c)) CRLF) (\<lambda>newline.
       case newline of
         None \<Rightarrow>
           if sdslen (querybuf c) > REDIS_INLINE_MAX_SIZE
           then rbind (protocol_error e ''too big inline request'' 0 c w) (\<lambda>(c, w). Inr (False, c, w))
           else Inr (False, c, w)
       | Some querylen \<Rightarrow>
           rbind (sds_lift (sdssplitlen (fresh e) (sh_buf (querybuf c)) (int querylen) '' '' 1)) (\<lambda>args.
           rbind (sds_lift (sdsrange (querybuf c) (int querylen + 2) (-1))) (\<lambda>q.
             case args of
               None \<Rightarrow> Inl WrongPtr
             | Some args \<Rightarrow>
                 rbind (inline_args args (c\<lparr>querybuf := q, argv := [], argv_room := int (length args)\<rparr>) w) (\<lambda>(c, w).
                   Inr (True, c, w)))))"

text \<open>
  How a part of \<open>processMultibulkBuffer\<close> ends: the function returns, the loop is left at a position of the buffer, or
  parsing goes on there.
\<close>

datatype parse_next = Return bool | Break int | Go int

definition read_count ::
    "nenv \<Rightarrow> ('a request_client_scheme) \<Rightarrow> nworld \<Rightarrow> (obj_error, parse_next \<times> ('a request_client_scheme) \<times> nworld) result" where
  "read_count e c w =
     (if argv c \<noteq> [] then Inl Assertion
      else rbind (strchr (sh_buf (querybuf c)) (CHR 0x0D)) (\<lambda>newline.
        case newline of
          None \<Rightarrow>
            if sdslen (querybuf c) > REDIS_INLINE_MAX_SIZE
            then rbind (protocol_error e ''too big mbulk count string'' 0 c w) (\<lambda>(c, w). Inr (Return False, c, w))
            else Inr (Return False, c, w)
        | Some n \<Rightarrow>
            if int n > to_i32 (sdslen (querybuf c)) - 2 then Inr (Return False, c, w)
            else if hd (sh_buf (querybuf c)) \<noteq> CHR ''*'' then Inl Assertion
            else case string2ll (take (n - 1) (drop 1 (sh_buf (querybuf c)))) of
                None \<Rightarrow> rbind (protocol_error e ''invalid multibulk length'' 0 c w) (\<lambda>(c, w). Inr (Return False, c, w))
              | Some ll \<Rightarrow>
                  if ll > 1024 * 1024
                  then rbind (protocol_error e ''invalid multibulk length'' 0 c w) (\<lambda>(c, w). Inr (Return False, c, w))
                  else let off = int n + 2 in
                    if ll \<le> 0
                    then rbind (sds_lift (sdsrange (querybuf c) off (-1))) (\<lambda>q. Inr (Return True, c\<lparr>querybuf := q\<rparr>, w))
                    else Inr (Go off, c\<lparr>multibulklen := to_i32 ll, argv := [], argv_room := to_i32 ll\<rparr>, w)))"

definition read_bulk_len ::
    "nenv \<Rightarrow> int \<Rightarrow> ('a request_client_scheme) \<Rightarrow> nworld \<Rightarrow> (obj_error, parse_next \<times> ('a request_client_scheme) \<times> nworld) result" where
  "read_bulk_len e off c w =
     (if bulklen c \<noteq> -1 then Inr (Go off, c, w)
      else let p = drop (nat off) (sh_buf (querybuf c)) in
        rbind (strchr p (CHR 0x0D)) (\<lambda>newline.
        case newline of
          None \<Rightarrow>
            if sdslen (querybuf c) > REDIS_INLINE_MAX_SIZE
            then rbind (protocol_error e ''too big bulk count string'' 0 c w) (\<lambda>(c, w). Inr (Break off, c, w))
            else Inr (Break off, c, w)
        | Some n \<Rightarrow>
            if off + int n > to_i32 (sdslen (querybuf c)) - 2 then Inr (Break off, c, w)
            else if hd p \<noteq> CHR ''$''
            then rbind (addReplyErrorFormat e (''Protocol error: expected '' @ [CHR 0x27] @ ''$'' @ [CHR 0x27] @ '', got '' @
                          [CHR 0x27, hd p, CHR 0x27]) c w) (\<lambda>(c, w).
                 rbind (setProtocolError off c) (\<lambda>c. Inr (Return False, c, w)))
            else case string2ll (take (n - 1) (drop 1 p)) of
                None \<Rightarrow> rbind (protocol_error e ''invalid bulk length'' off c w) (\<lambda>(c, w). Inr (Return False, c, w))
              | Some ll \<Rightarrow>
                  if ll < 0 \<or> ll > 512 * 1024 * 1024
                  then rbind (protocol_error e ''invalid bulk length'' off c w) (\<lambda>(c, w). Inr (Return False, c, w))
                  else let off = off + (int n + 2) in
                    if ll \<ge> REDIS_MBULK_BIG_ARG
                    then rbind (sds_lift (sdsrange (querybuf c) off (-1))) (\<lambda>q.
                         let qblen = sdslen q;
                             q = (if qblen < ll + 2 then sdsMakeRoomFor (fresh e) q (ll + 2 - qblen) else q)
                         in Inr (Go 0, c\<lparr>querybuf := q, bulklen := ll\<rparr>, w))
                    else Inr (Go off, c\<lparr>bulklen := ll\<rparr>, w)))"

text \<open>
  The argument itself. When the buffer holds just the argument it becomes the object: the same string, shortened by
  the line end, so the object is modelled with the shortened string.
\<close>

definition read_bulk ::
    "nenv \<Rightarrow> int \<Rightarrow> ('a request_client_scheme) \<Rightarrow> nworld \<Rightarrow> (obj_error, parse_next \<times> ('a request_client_scheme) \<times> nworld) result" where
  "read_bulk e off c w =
     (let q = querybuf c in
      if to_u64 (sdslen q - off) < to_u32 (bulklen c + 2) then Inr (Break off, c, w)
      else rbind
        (if off = 0 \<and> bulklen c \<ge> REDIS_MBULK_BIG_ARG \<and> to_i32 (sdslen q) = bulklen c + 2
         then rbind (sds_lift (sdsIncrLen q (-2))) (\<lambda>s.
              let (a, h) = createObject REDIS_STRING (PSds s) (heap w) in
              rbind (push_arg a c) (\<lambda>c.
              rbind (sds_lift (sdsempty (fresh e))) (\<lambda>q.
                Inr (0, c\<lparr>querybuf := sdsMakeRoomFor (fresh e) q (bulklen c + 2)\<rparr>, w\<lparr>heap := h\<rparr>))))
         else rbind (createStringObject (fresh e) (drop (nat off) (sh_buf q)) (bulklen c) (heap w)) (\<lambda>(a, h).
              rbind (push_arg a c) (\<lambda>c. Inr (to_i32 (off + (bulklen c + 2)), c, w\<lparr>heap := h\<rparr>)))) (\<lambda>(off, c, w).
        Inr (Go off, c\<lparr>bulklen := -1, multibulklen := multibulklen c - 1\<rparr>, w)))"

lemma rbindE: "rbind r f = Inr x \<Longrightarrow> (\<And>y. r = Inr y \<Longrightarrow> f y = Inr x \<Longrightarrow> P) \<Longrightarrow> P"
  by (auto simp: rbind_eq_Inr)

lemma read_bulk_len_Go: "read_bulk_len e off c w = Inr (Go p, c', w') \<Longrightarrow> multibulklen c' = multibulklen c"
  by (auto simp: read_bulk_len_def Let_def elim!: rbindE split: if_splits option.split_asm)

lemma read_bulk_Go: "read_bulk e off c w = Inr (Go p, c', w') \<Longrightarrow> multibulklen c' = multibulklen c - 1"
  by (auto simp: read_bulk_def Let_def push_arg_def elim!: rbindE split: if_splits prod.split_asm)

text \<open>\<open>multibulklen\<close> is positive when the loop is entered and goes down by one.\<close>

function bulk_loop ::
    "nenv \<Rightarrow> int \<Rightarrow> ('a request_client_scheme) \<Rightarrow> nworld \<Rightarrow> (obj_error, parse_next \<times> ('a request_client_scheme) \<times> nworld) result"
where
  "bulk_loop e off c w =
     (if multibulklen c \<le> 0 then Inr (Break off, c, w)
      else case read_bulk_len e off c w of
        Inr (Go off, c, w) \<Rightarrow>
          (case read_bulk e off c w of
             Inr (Go off, c, w) \<Rightarrow> bulk_loop e off c w
           | r \<Rightarrow> r)
      | r \<Rightarrow> r)"
  by pat_completeness auto
termination
  by (relation "measure (\<lambda>(e, off, c, w). nat (multibulklen c))") (auto dest!: read_bulk_len_Go [OF sym] read_bulk_Go [OF sym] read_bulk_len_Go read_bulk_Go)

declare bulk_loop.simps [simp del]

definition processMultibulkBuffer ::
    "nenv \<Rightarrow> ('a request_client_scheme) \<Rightarrow> nworld \<Rightarrow> (obj_error, bool \<times> ('a request_client_scheme) \<times> nworld) result" where
  "processMultibulkBuffer e c w =
     rbind (if multibulklen c = 0 then read_count e c w else Inr (Go 0, c, w)) (\<lambda>(n, c, w).
       case n of
         Go off \<Rightarrow>
           if \<not> multibulklen c > 0 then Inl Assertion
           else rbind (bulk_loop e off c w) (\<lambda>(n, c, w).
             case n of
               Break off \<Rightarrow>
                 rbind (if off \<noteq> 0 then sds_lift (sdsrange (querybuf c) off (-1)) else Inr (querybuf c)) (\<lambda>q.
                   Inr (multibulklen c = 0, c\<lparr>querybuf := q\<rparr>, w))
             | Return b \<Rightarrow> Inr (b, c, w)
             | Go _ \<Rightarrow> Inl Unfinished)
       | Return b \<Rightarrow> Inr (b, c, w)
       | Break _ \<Rightarrow> Inl Unfinished)"

section \<open>Executing what has been read\<close>

text \<open>\<open>exec\<close> stands for \<open>processCommand\<close>; its flag is true for \<open>REDIS_OK\<close>.\<close>

type_synonym ('s, 'a) executor =
  "'s \<Rightarrow> ('a request_client_scheme) \<Rightarrow> nworld \<Rightarrow> (obj_error, bool \<times> 's \<times> ('a request_client_scheme) \<times> nworld) result"

definition request_type :: "('a request_client_scheme) \<Rightarrow> ('a request_client_scheme)" where
  "request_type c =
     (if reqtype c = 0
      then c\<lparr>reqtype := (if hd (sh_buf (querybuf c)) = CHR ''*'' then REDIS_REQ_MULTIBULK else REDIS_REQ_INLINE)\<rparr>
      else c)"

definition parse_request ::
    "nenv \<Rightarrow> ('a request_client_scheme) \<Rightarrow> nworld \<Rightarrow> (obj_error, bool \<times> ('a request_client_scheme) \<times> nworld) result" where
  "parse_request e c w =
     (if reqtype c = REDIS_REQ_INLINE then processInlineBuffer e c w
      else if reqtype c = REDIS_REQ_MULTIBULK then processMultibulkBuffer e c w
      else Inl Panic)"

text \<open>Each round of the loop takes a byte at least from the buffer.\<close>

fun input_rounds ::
    "nat \<Rightarrow> nenv \<Rightarrow> ('s, 'a) executor \<Rightarrow> 's \<Rightarrow> ('a request_client_scheme) \<Rightarrow> nworld \<Rightarrow>
     (obj_error, 's \<times> ('a request_client_scheme) \<times> nworld) result"
where
  "input_rounds 0 e exec s c w = Inl Unfinished"
| "input_rounds (Suc n) e exec s c w =
     (if sdslen (querybuf c) = 0 then Inr (s, c, w)
      else if has_flag c REDIS_BLOCKED then Inr (s, c, w)
      else if has_flag c REDIS_CLOSE_AFTER_REPLY then Inr (s, c, w)
      else rbind (parse_request e (request_type c) w) (\<lambda>(parsed, c, w).
        if \<not> parsed then Inr (s, c, w)
        else if argv c = [] then rbind (resetClient c w) (\<lambda>(c, w). input_rounds n e exec s c w)
        else rbind (exec s c w) (\<lambda>(executed, s, c, w).
          if executed then rbind (resetClient c w) (\<lambda>(c, w). input_rounds n e exec s c w)
          else input_rounds n e exec s c w)))"

definition processInputBuffer ::
    "nenv \<Rightarrow> ('s, 'a) executor \<Rightarrow> 's \<Rightarrow> ('a request_client_scheme) \<Rightarrow> nworld \<Rightarrow>
     (obj_error, 's \<times> ('a request_client_scheme) \<times> nworld) result" where
  "processInputBuffer e exec s c w = input_rounds (nat (sdslen (querybuf c)) + 2) e exec s c w"

section \<open>Reading from the socket\<close>

text \<open>The answers of \<open>read\<close>: at most so many of the waiting bytes (none at the end of the stream), \<open>EAGAIN\<close>, another error.\<close>

datatype read_answer = Got nat | Again | ReadError

definition read_length :: "('a request_client_scheme) \<Rightarrow> int" where
  "read_length c =
     (if reqtype c = REDIS_REQ_MULTIBULK \<and> multibulklen c \<noteq> 0 \<and> bulklen c \<noteq> -1 \<and> bulklen c \<ge> REDIS_MBULK_BIG_ARG
      then let remaining = to_i32 (to_u64 (to_u32 (bulklen c + 2) - sdslen (querybuf c)))
           in if remaining < REDIS_IOBUF_LEN then remaining else REDIS_IOBUF_LEN
      else REDIS_IOBUF_LEN)"

text \<open>The flag says that the client is freed.\<close>

definition readQueryFromClient ::
    "nenv \<Rightarrow> ('s, 'a) executor \<Rightarrow> int \<Rightarrow> read_answer \<Rightarrow> char list \<Rightarrow> 's \<Rightarrow> ('a request_client_scheme) \<Rightarrow> nworld \<Rightarrow>
     (obj_error, bool \<times> char list \<times> 's \<times> ('a request_client_scheme) \<times> nworld) result" where
  "readQueryFromClient e exec client_max_querybuf_len answer waiting s c w =
     (let readlen = read_length c;
          qblen = sdslen (querybuf c);
          c = (if querybuf_peak c < qblen then c\<lparr>querybuf_peak := qblen\<rparr> else c);
          q = sdsMakeRoomFor (fresh e) (querybuf c) readlen;
          c = c\<lparr>querybuf := q\<rparr>
      in case answer of
           Again \<Rightarrow> Inr (False, waiting, s, c, w)
         | ReadError \<Rightarrow> Inr (True, waiting, s, c, w)
         | Got k \<Rightarrow>
             let nread = min k (min (nat (to_u64 readlen)) (length waiting)) in
             if nread = 0 then Inr (True, waiting, s, c, w)
             else rbind (sds_lift (put q qblen (take nread waiting))) (\<lambda>q.
                  rbind (sds_lift (sdsIncrLen q (int nread))) (\<lambda>q.
                  let c = c\<lparr>querybuf := q, lastinteraction := unixtime w\<rparr>; waiting = drop nread waiting in
                  if sdslen q > client_max_querybuf_len then Inr (True, waiting, s, c, w)
                  else rbind (processInputBuffer e exec s c w) (\<lambda>(s, c, w). Inr (False, waiting, s, c, w)))))"

section \<open>New clients\<close>

text \<open>
  \<open>None\<close> when the event of a connected client cannot be installed. The buffer of the new block is not initialised;
  the database and transaction state is added in \<open>Commands\<close> (\<open>command_fields\<close>), blocking is not part of this model.
\<close>

definition createClient :: "nenv \<Rightarrow> bool \<Rightarrow> nat \<Rightarrow> int \<Rightarrow> int \<Rightarrow> (obj_error, request_client option) result" where
  "createClient e read_event i fd' now =
     (if fd' \<noteq> -1 \<and> \<not> read_event then Inr None
      else rbind (sds_lift (sdsempty (fresh e))) (\<lambda>q.
        Inr (Some \<lparr>cid = i, fd = fd', cflags = 0, replstate = REDIS_REPL_NONE, bufpos = 0,
          buf = map (fresh e) [0..<nat REDIS_REPLY_CHUNK_BYTES], reply = [], reply_bytes = 0, sentlen = 0,
          obuf_soft_limit_reached_time = 0, subscriptions = 0,
          querybuf = q, querybuf_peak = 0, argv = [], argv_room = 0, cmd = None, reqtype = 0, multibulklen = 0, bulklen = -1,
          lastinteraction = now\<rparr>)))"

end
