(* ===== verification/Command_Table.thy ===== *)
theory Command_Table
  imports Networking_Request
begin

text \<open>
  The command table of \<open>redis.c\<close>: the entries, the flags their letters stand for, the dictionary of commands and
  the lookup by name.
\<close>

section \<open>Flags and entries\<close>

definition REDIS_CMD_WRITE :: int where "REDIS_CMD_WRITE = 1"
definition REDIS_CMD_READONLY :: int where "REDIS_CMD_READONLY = 2"
definition REDIS_CMD_DENYOOM :: int where "REDIS_CMD_DENYOOM = 4"
definition REDIS_CMD_FORCE_REPLICATION :: int where "REDIS_CMD_FORCE_REPLICATION = 8"
definition REDIS_CMD_ADMIN :: int where "REDIS_CMD_ADMIN = 16"
definition REDIS_CMD_PUBSUB :: int where "REDIS_CMD_PUBSUB = 32"
definition REDIS_CMD_NOSCRIPT :: int where "REDIS_CMD_NOSCRIPT = 64"
definition REDIS_CMD_RANDOM :: int where "REDIS_CMD_RANDOM = 128"
definition REDIS_CMD_SORT_FOR_SCRIPT :: int where "REDIS_CMD_SORT_FOR_SCRIPT = 256"
definition REDIS_CMD_LOADING :: int where "REDIS_CMD_LOADING = 512"
definition REDIS_CMD_STALE :: int where "REDIS_CMD_STALE = 1024"
definition REDIS_CMD_SKIP_MONITOR :: int where "REDIS_CMD_SKIP_MONITOR = 2048"

lemmas cmd_consts = REDIS_CMD_WRITE_def REDIS_CMD_READONLY_def REDIS_CMD_DENYOOM_def REDIS_CMD_FORCE_REPLICATION_def
  REDIS_CMD_ADMIN_def REDIS_CMD_PUBSUB_def REDIS_CMD_NOSCRIPT_def REDIS_CMD_RANDOM_def REDIS_CMD_SORT_FOR_SCRIPT_def
  REDIS_CMD_LOADING_def REDIS_CMD_STALE_def REDIS_CMD_SKIP_MONITOR_def

definition command :: "char list \<Rightarrow> command_proc \<Rightarrow> int \<Rightarrow> char list \<Rightarrow> redisCommand" where
  "command name p n f = \<lparr>cmd_name = name, cmd_proc = p, arity = n, sflags = f, cmd_flags = 0\<rparr>"

definition redisCommandTable :: "redisCommand list" where
  "redisCommandTable =
    [command ''get'' (OtherCommand ''getCommand'') 2 ''r'',
     command ''set'' (OtherCommand ''setCommand'') (-3) ''wm'',
     command ''setnx'' (OtherCommand ''setnxCommand'') 3 ''wm'',
     command ''setex'' (OtherCommand ''setexCommand'') 4 ''wm'',
     command ''psetex'' (OtherCommand ''psetexCommand'') 4 ''wm'',
     command ''append'' (OtherCommand ''appendCommand'') 3 ''wm'',
     command ''strlen'' (OtherCommand ''strlenCommand'') 2 ''r'',
     command ''del'' (OtherCommand ''delCommand'') (-2) ''w'',
     command ''exists'' (OtherCommand ''existsCommand'') 2 ''r'',
     command ''setbit'' (OtherCommand ''setbitCommand'') 4 ''wm'',
     command ''getbit'' (OtherCommand ''getbitCommand'') 3 ''r'',
     command ''setrange'' (OtherCommand ''setrangeCommand'') 4 ''wm'',
     command ''getrange'' (OtherCommand ''getrangeCommand'') 4 ''r'',
     command ''substr'' (OtherCommand ''getrangeCommand'') 4 ''r'',
     command ''incr'' (OtherCommand ''incrCommand'') 2 ''wm'',
     command ''decr'' (OtherCommand ''decrCommand'') 2 ''wm'',
     command ''mget'' (OtherCommand ''mgetCommand'') (-2) ''r'',
     command ''rpush'' (OtherCommand ''rpushCommand'') (-3) ''wm'',
     command ''lpush'' (OtherCommand ''lpushCommand'') (-3) ''wm'',
     command ''rpushx'' (OtherCommand ''rpushxCommand'') 3 ''wm'',
     command ''lpushx'' (OtherCommand ''lpushxCommand'') 3 ''wm'',
     command ''linsert'' (OtherCommand ''linsertCommand'') 5 ''wm'',
     command ''rpop'' (OtherCommand ''rpopCommand'') 2 ''w'',
     command ''lpop'' (OtherCommand ''lpopCommand'') 2 ''w'',
     command ''brpop'' (OtherCommand ''brpopCommand'') (-3) ''ws'',
     command ''brpoplpush'' (OtherCommand ''brpoplpushCommand'') 4 ''wms'',
     command ''blpop'' (OtherCommand ''blpopCommand'') (-3) ''ws'',
     command ''llen'' (OtherCommand ''llenCommand'') 2 ''r'',
     command ''lindex'' (OtherCommand ''lindexCommand'') 3 ''r'',
     command ''lset'' (OtherCommand ''lsetCommand'') 4 ''wm'',
     command ''lrange'' (OtherCommand ''lrangeCommand'') 4 ''r'',
     command ''ltrim'' (OtherCommand ''ltrimCommand'') 4 ''w'',
     command ''lrem'' (OtherCommand ''lremCommand'') 4 ''w'',
     command ''rpoplpush'' (OtherCommand ''rpoplpushCommand'') 3 ''wm'',
     command ''sadd'' (OtherCommand ''saddCommand'') (-3) ''wm'',
     command ''srem'' (OtherCommand ''sremCommand'') (-3) ''w'',
     command ''smove'' (OtherCommand ''smoveCommand'') 4 ''w'',
     command ''sismember'' (OtherCommand ''sismemberCommand'') 3 ''r'',
     command ''scard'' (OtherCommand ''scardCommand'') 2 ''r'',
     command ''spop'' (OtherCommand ''spopCommand'') 2 ''wRs'',
     command ''srandmember'' (OtherCommand ''srandmemberCommand'') (-2) ''rR'',
     command ''sinter'' (OtherCommand ''sinterCommand'') (-2) ''rS'',
     command ''sinterstore'' (OtherCommand ''sinterstoreCommand'') (-3) ''wm'',
     command ''sunion'' (OtherCommand ''sunionCommand'') (-2) ''rS'',
     command ''sunionstore'' (OtherCommand ''sunionstoreCommand'') (-3) ''wm'',
     command ''sdiff'' (OtherCommand ''sdiffCommand'') (-2) ''rS'',
     command ''sdiffstore'' (OtherCommand ''sdiffstoreCommand'') (-3) ''wm'',
     command ''smembers'' (OtherCommand ''sinterCommand'') 2 ''rS'',
     command ''zadd'' (OtherCommand ''zaddCommand'') (-4) ''wm'',
     command ''zincrby'' (OtherCommand ''zincrbyCommand'') 4 ''wm'',
     command ''zrem'' (OtherCommand ''zremCommand'') (-3) ''w'',
     command ''zremrangebyscore'' (OtherCommand ''zremrangebyscoreCommand'') 4 ''w'',
     command ''zremrangebyrank'' (OtherCommand ''zremrangebyrankCommand'') 4 ''w'',
     command ''zunionstore'' (OtherCommand ''zunionstoreCommand'') (-4) ''wm'',
     command ''zinterstore'' (OtherCommand ''zinterstoreCommand'') (-4) ''wm'',
     command ''zrange'' (OtherCommand ''zrangeCommand'') (-4) ''r'',
     command ''zrangebyscore'' (OtherCommand ''zrangebyscoreCommand'') (-4) ''r'',
     command ''zrevrangebyscore'' (OtherCommand ''zrevrangebyscoreCommand'') (-4) ''r'',
     command ''zcount'' (OtherCommand ''zcountCommand'') 4 ''r'',
     command ''zrevrange'' (OtherCommand ''zrevrangeCommand'') (-4) ''r'',
     command ''zcard'' (OtherCommand ''zcardCommand'') 2 ''r'',
     command ''zscore'' (OtherCommand ''zscoreCommand'') 3 ''r'',
     command ''zrank'' (OtherCommand ''zrankCommand'') 3 ''r'',
     command ''zrevrank'' (OtherCommand ''zrevrankCommand'') 3 ''r'',
     command ''hset'' (OtherCommand ''hsetCommand'') 4 ''wm'',
     command ''hsetnx'' (OtherCommand ''hsetnxCommand'') 4 ''wm'',
     command ''hget'' (OtherCommand ''hgetCommand'') 3 ''r'',
     command ''hmset'' (OtherCommand ''hmsetCommand'') (-4) ''wm'',
     command ''hmget'' (OtherCommand ''hmgetCommand'') (-3) ''r'',
     command ''hincrby'' (OtherCommand ''hincrbyCommand'') 4 ''wm'',
     command ''hincrbyfloat'' (OtherCommand ''hincrbyfloatCommand'') 4 ''wm'',
     command ''hdel'' (OtherCommand ''hdelCommand'') (-3) ''w'',
     command ''hlen'' (OtherCommand ''hlenCommand'') 2 ''r'',
     command ''hkeys'' (OtherCommand ''hkeysCommand'') 2 ''rS'',
     command ''hvals'' (OtherCommand ''hvalsCommand'') 2 ''rS'',
     command ''hgetall'' (OtherCommand ''hgetallCommand'') 2 ''r'',
     command ''hexists'' (OtherCommand ''hexistsCommand'') 3 ''r'',
     command ''incrby'' (OtherCommand ''incrbyCommand'') 3 ''wm'',
     command ''decrby'' (OtherCommand ''decrbyCommand'') 3 ''wm'',
     command ''incrbyfloat'' (OtherCommand ''incrbyfloatCommand'') 3 ''wm'',
     command ''getset'' (OtherCommand ''getsetCommand'') 3 ''wm'',
     command ''mset'' (OtherCommand ''msetCommand'') (-3) ''wm'',
     command ''msetnx'' (OtherCommand ''msetnxCommand'') (-3) ''wm'',
     command ''randomkey'' (OtherCommand ''randomkeyCommand'') 1 ''rR'',
     command ''select'' (OtherCommand ''selectCommand'') 2 ''rl'',
     command ''move'' (OtherCommand ''moveCommand'') 3 ''w'',
     command ''rename'' (OtherCommand ''renameCommand'') 3 ''w'',
     command ''renamenx'' (OtherCommand ''renamenxCommand'') 3 ''w'',
     command ''expire'' (OtherCommand ''expireCommand'') 3 ''w'',
     command ''expireat'' (OtherCommand ''expireatCommand'') 3 ''w'',
     command ''pexpire'' (OtherCommand ''pexpireCommand'') 3 ''w'',
     command ''pexpireat'' (OtherCommand ''pexpireatCommand'') 3 ''w'',
     command ''keys'' (OtherCommand ''keysCommand'') 2 ''rS'',
     command ''dbsize'' (OtherCommand ''dbsizeCommand'') 1 ''r'',
     command ''auth'' AuthCommand 2 ''rsl'',
     command ''ping'' PingCommand 1 ''r'',
     command ''echo'' EchoCommand 2 ''r'',
     command ''save'' (OtherCommand ''saveCommand'') 1 ''ars'',
     command ''bgsave'' (OtherCommand ''bgsaveCommand'') 1 ''ar'',
     command ''bgrewriteaof'' (OtherCommand ''bgrewriteaofCommand'') 1 ''ar'',
     command ''shutdown'' ShutdownCommand (-1) ''ar'',
     command ''lastsave'' (OtherCommand ''lastsaveCommand'') 1 ''rR'',
     command ''type'' (OtherCommand ''typeCommand'') 2 ''r'',
     command ''multi'' MultiCommand 1 ''rs'',
     command ''exec'' ExecCommand 1 ''sM'',
     command ''discard'' DiscardCommand 1 ''rs'',
     command ''sync'' (OtherCommand ''syncCommand'') 1 ''ars'',
     command ''replconf'' (OtherCommand ''replconfCommand'') (-1) ''ars'',
     command ''flushdb'' (OtherCommand ''flushdbCommand'') 1 ''w'',
     command ''flushall'' (OtherCommand ''flushallCommand'') 1 ''w'',
     command ''sort'' (OtherCommand ''sortCommand'') (-2) ''wm'',
     command ''info'' (OtherCommand ''infoCommand'') (-1) ''rlt'',
     command ''monitor'' (OtherCommand ''monitorCommand'') 1 ''ars'',
     command ''ttl'' (OtherCommand ''ttlCommand'') 2 ''r'',
     command ''pttl'' (OtherCommand ''pttlCommand'') 2 ''r'',
     command ''persist'' (OtherCommand ''persistCommand'') 2 ''w'',
     command ''slaveof'' (OtherCommand ''slaveofCommand'') 3 ''ast'',
     command ''debug'' (OtherCommand ''debugCommand'') (-2) ''as'',
     command ''config'' (OtherCommand ''configCommand'') (-2) ''ar'',
     command ''subscribe'' SubscribeCommand (-2) ''rpslt'',
     command ''unsubscribe'' UnsubscribeCommand (-1) ''rpslt'',
     command ''psubscribe'' PsubscribeCommand (-2) ''rpslt'',
     command ''punsubscribe'' PunsubscribeCommand (-1) ''rpslt'',
     command ''publish'' (OtherCommand ''publishCommand'') 3 ''pfltr'',
     command ''watch'' WatchCommand (-2) ''rs'',
     command ''unwatch'' UnwatchCommand 1 ''rs'',
     command ''restore'' (OtherCommand ''restoreCommand'') 4 ''awm'',
     command ''migrate'' (OtherCommand ''migrateCommand'') 6 ''aw'',
     command ''dump'' (OtherCommand ''dumpCommand'') 2 ''ar'',
     command ''object'' (OtherCommand ''objectCommand'') (-2) ''r'',
     command ''client'' (OtherCommand ''clientCommand'') (-2) ''ar'',
     command ''eval'' (OtherCommand ''evalCommand'') (-3) ''s'',
     command ''evalsha'' (OtherCommand ''evalShaCommand'') (-3) ''s'',
     command ''slowlog'' (OtherCommand ''slowlogCommand'') (-2) ''r'',
     command ''script'' ScriptCommand (-2) ''ras'',
     command ''time'' TimeCommand 1 ''rR'',
     command ''bitop'' (OtherCommand ''bitopCommand'') (-4) ''wm'',
     command ''bitcount'' (OtherCommand ''bitcountCommand'') (-2) ''r'']"

section \<open>The dictionary of commands\<close>

text \<open>
  The dictionaries \<open>server.commands\<close> and \<open>server.orig_commands\<close> as association lists; their keys are compared with
  \<open>strcasecmp\<close>.
\<close>

type_synonym command_dict = "(char list \<times> redisCommand) list"

fun find_command :: "command_dict \<Rightarrow> char list \<Rightarrow> redisCommand option" where
  "find_command [] name = None"
| "find_command ((k, cm) # ks) name = (if strcasecmp_eq k name then Some cm else find_command ks name)"

text \<open>\<open>dictAdd\<close>; \<open>None\<close> is \<open>DICT_ERR\<close>.\<close>

definition add_command :: "command_dict \<Rightarrow> char list \<Rightarrow> redisCommand \<Rightarrow> command_dict option" where
  "add_command ks name cm = (if find_command ks name = None then Some (ks @ [(name, cm)]) else None)"

definition flag_of :: "char \<Rightarrow> int option" where
  "flag_of f =
     (if f = CHR ''w'' then Some REDIS_CMD_WRITE
      else if f = CHR ''r'' then Some REDIS_CMD_READONLY
      else if f = CHR ''m'' then Some REDIS_CMD_DENYOOM
      else if f = CHR ''a'' then Some REDIS_CMD_ADMIN
      else if f = CHR ''p'' then Some REDIS_CMD_PUBSUB
      else if f = CHR ''f'' then Some REDIS_CMD_FORCE_REPLICATION
      else if f = CHR ''s'' then Some REDIS_CMD_NOSCRIPT
      else if f = CHR ''R'' then Some REDIS_CMD_RANDOM
      else if f = CHR ''S'' then Some REDIS_CMD_SORT_FOR_SCRIPT
      else if f = CHR ''l'' then Some REDIS_CMD_LOADING
      else if f = CHR ''t'' then Some REDIS_CMD_STALE
      else if f = CHR ''M'' then Some REDIS_CMD_SKIP_MONITOR
      else None)"

fun or_flags :: "char list \<Rightarrow> int \<Rightarrow> (obj_error, int) result" where
  "or_flags [] v = Inr v"
| "or_flags (f # fs) v = (case flag_of f of None \<Rightarrow> Inl Panic | Some x \<Rightarrow> or_flags fs (v OR x))"

fun populate_loop :: "redisCommand list \<Rightarrow> command_dict \<times> command_dict \<Rightarrow> (obj_error, command_dict \<times> command_dict) result" where
  "populate_loop [] ds = Inr ds"
| "populate_loop (cm # cms) (commands, orig_commands) =
     rbind (or_flags (sflags cm) (cmd_flags cm)) (\<lambda>v.
     let cm = cm\<lparr>cmd_flags := v\<rparr> in
     case (add_command commands (cmd_name cm) cm, add_command orig_commands (cmd_name cm) cm) of
       (Some commands, Some orig_commands) \<Rightarrow> populate_loop cms (commands, orig_commands)
     | _ \<Rightarrow> Inl Assertion)"

definition populateCommandTable :: "command_dict \<times> command_dict \<Rightarrow> (obj_error, command_dict \<times> command_dict) result" where
  "populateCommandTable = populate_loop redisCommandTable"

section \<open>Lookup\<close>

text \<open>
  The hash function takes all bytes of a name, the comparison stops at the first NUL. A name with a NUL inside is
  compared with a command only if it falls into the bucket of the command, which depends on the random seed of the
  hash function: \<open>same_bucket\<close> says whether it does.
\<close>

definition fetch_command :: "(char list \<Rightarrow> bool) \<Rightarrow> command_dict \<Rightarrow> sdshdr \<Rightarrow> redisCommand option" where
  "fetch_command same_bucket commands name =
     (let n = cstr (sh_buf name) in
      if int (length n) < sdslen name \<and> \<not> same_bucket (sh_buf name) then None else find_command commands n)"

definition lookupCommand :: "(char list \<Rightarrow> bool) \<Rightarrow> command_dict \<Rightarrow> sdshdr \<Rightarrow> redisCommand option" where
  "lookupCommand same_bucket commands name = fetch_command same_bucket commands name"

definition lookupCommandByCString ::
    "(nat \<Rightarrow> char) \<Rightarrow> (char list \<Rightarrow> bool) \<Rightarrow> command_dict \<Rightarrow> char list \<Rightarrow> (obj_error, redisCommand option) result" where
  "lookupCommandByCString g same_bucket commands s =
     rbind (sds_lift (sdsnew g (Some s))) (\<lambda>name. Inr (fetch_command same_bucket commands name))"

definition lookupCommandOrOriginal ::
    "(char list \<Rightarrow> bool) \<Rightarrow> command_dict \<Rightarrow> command_dict \<Rightarrow> sdshdr \<Rightarrow> redisCommand option" where
  "lookupCommandOrOriginal same_bucket commands orig_commands name =
     (case fetch_command same_bucket commands name of
        Some cm \<Rightarrow> Some cm
      | None \<Rightarrow> fetch_command same_bucket orig_commands name)"

section \<open>The table is complete\<close>

lemma names_distinct: "distinct (map cmd_name redisCommandTable)"
  unfolding redisCommandTable_def command_def by simp

lemma lower_letters: "list_all (\<lambda>c. tolower c = c) ''abcdefghijklmnopqrstuvwxyz''"
  by code_simp

lemma names_lower: "list_all (\<lambda>cm. map tolower (cmd_name cm) = cmd_name cm) redisCommandTable"
  unfolding redisCommandTable_def command_def by (simp add: lower_letters [simplified])

lemma names_no_NUL: "list_all (\<lambda>cm. NUL \<notin> set (cmd_name cm)) redisCommandTable"
  unfolding redisCommandTable_def command_def by simp

lemma flags_known: "list_all (\<lambda>cm. cmd_flags cm = 0 \<and> list_all (\<lambda>f. flag_of f \<noteq> None) (sflags cm)) redisCommandTable"
  unfolding redisCommandTable_def command_def by (simp add: flag_of_def)

lemma find_command_map: "find_command ks name = map_of (map (\<lambda>(k, cm). (map tolower k, cm)) ks) (map tolower name)"
  by (induction ks) (auto simp: strcasecmp_eq_def)

text \<open>The flags a string of known letters stands for.\<close>

definition letters :: "char list \<Rightarrow> int" where
  "letters fs = foldl (\<lambda>v f. v OR the (flag_of f)) 0 fs"

lemma or_flags_known: "list_all (\<lambda>f. flag_of f \<noteq> None) fs \<Longrightarrow> or_flags fs v = Inr (foldl (\<lambda>v f. v OR the (flag_of f)) v fs)"
  by (induction fs arbitrary: v) auto

definition filled_entry :: "redisCommand \<Rightarrow> char list \<times> redisCommand" where
  "filled_entry cm = (cmd_name cm, cm\<lparr>cmd_flags := letters (sflags cm)\<rparr>)"

lemma populate_loop_ok:
  assumes "list_all (\<lambda>cm. cmd_flags cm = 0 \<and> list_all (\<lambda>f. flag_of f \<noteq> None) (sflags cm)) cms"
    and "distinct (map (map tolower \<circ> fst) ks @ map (map tolower \<circ> cmd_name) cms)"
  shows "populate_loop cms (ks, ks) = Inr (ks @ map filled_entry cms, ks @ map filled_entry cms)"
  using assms
proof (induction cms arbitrary: ks)
  case (Cons cm cms)
  have "map tolower (cmd_name cm) \<notin> fst ` set (map (\<lambda>(k, cm). (map tolower k, cm)) ks)"
    using Cons.prems(2) by (auto simp: image_iff)
  then have "find_command ks (cmd_name cm) = None" by (simp add: find_command_map map_of_eq_None_iff)
  moreover have "or_flags (sflags cm) (cmd_flags cm) = Inr (letters (sflags cm))"
    using Cons.prems(1) by (simp add: or_flags_known letters_def)
  moreover have "populate_loop cms (ks @ [filled_entry cm], ks @ [filled_entry cm]) =
      Inr ((ks @ [filled_entry cm]) @ map filled_entry cms, (ks @ [filled_entry cm]) @ map filled_entry cms)"
    by (rule Cons.IH) (use Cons.prems in \<open>auto simp: filled_entry_def\<close>)
  ultimately show ?case by (simp add: add_command_def filled_entry_def Let_def)
qed simp

lemma map_lower_names: "map (map tolower \<circ> cmd_name) redisCommandTable = map cmd_name redisCommandTable"
  using names_lower by (simp add: list_all_iff)

lemma populated: "populateCommandTable ([], []) = Inr (map filled_entry redisCommandTable, map filled_entry redisCommandTable)"
  using populate_loop_ok [OF flags_known, of "[]"] names_distinct map_lower_names by (simp add: populateCommandTable_def)

lemma find_filled:
  assumes "distinct (map (map tolower \<circ> cmd_name) cms)" and "cm \<in> set cms" and "strcasecmp_eq (cmd_name cm) name"
  shows "find_command (map filled_entry cms) name = Some (snd (filled_entry cm))"
  using assms by (induction cms) (auto simp: filled_entry_def strcasecmp_eq_def image_iff)

lemma find_unknown: "(\<And>cm. cm \<in> set cms \<Longrightarrow> \<not> strcasecmp_eq (cmd_name cm) name) \<Longrightarrow> find_command (map filled_entry cms) name = None"
  by (induction cms) (auto simp: filled_entry_def)

lemma fetch_plain: "sds_ok s \<Longrightarrow> NUL \<notin> set (sds_str s) \<Longrightarrow> fetch_command sb ks s = find_command ks (sds_str s)"
proof -
  assume a: "sds_ok s" "NUL \<notin> set (sds_str s)"
  then obtain xs fr where s: "s = mk_sds xs fr" "length xs + length fr < 2147483648" by (auto elim: sds_okE)
  have "cstr (sh_buf s) = xs" using cstr_buf [OF a(1)] cstr_id [OF a(2)] s by simp
  then show ?thesis using s by (simp add: fetch_command_def)
qed

text \<open>
  C35. \<open>populateCommandTable\<close> accepts every entry of the table: no letter is unknown and no name occurs twice. Afterwards
  the lookup of a name, in any mixture of upper and lower case, returns the entry of that name with the flags its
  letters stand for, and names of no entry are not found.
\<close>

theorem populateCommandTable_complete:
  "\<exists>cs. populateCommandTable ([], []) = Inr (cs, cs) \<and> map fst cs = map cmd_name redisCommandTable \<and>
    (\<forall>s cm. sds_ok s \<and> NUL \<notin> set (sds_str s) \<and> cm \<in> set redisCommandTable \<and> strcasecmp_eq (cmd_name cm) (sds_str s) \<longrightarrow>
       lookupCommand same_bucket cs s = Some (cm\<lparr>cmd_flags := letters (sflags cm)\<rparr>)) \<and>
    (\<forall>s. sds_ok s \<and> NUL \<notin> set (sds_str s) \<and> (\<forall>cm\<in>set redisCommandTable. \<not> strcasecmp_eq (cmd_name cm) (sds_str s)) \<longrightarrow>
       lookupCommand same_bucket cs s = None)"
proof (intro exI conjI allI impI)
  show "populateCommandTable ([], []) = Inr (map filled_entry redisCommandTable, map filled_entry redisCommandTable)" by (rule populated)
  show "map fst (map filled_entry redisCommandTable) = map cmd_name redisCommandTable" by (simp add: filled_entry_def)
  fix s
  show "lookupCommand same_bucket (map filled_entry redisCommandTable) s = Some (cm\<lparr>cmd_flags := letters (sflags cm)\<rparr>)"
    if "sds_ok s \<and> NUL \<notin> set (sds_str s) \<and> cm \<in> set redisCommandTable \<and> strcasecmp_eq (cmd_name cm) (sds_str s)" for cm
    using that find_filled [of redisCommandTable cm "sds_str s"] names_distinct map_lower_names
    by (simp add: lookupCommand_def fetch_plain filled_entry_def)
  show "lookupCommand same_bucket (map filled_entry redisCommandTable) s = None"
    if "sds_ok s \<and> NUL \<notin> set (sds_str s) \<and> (\<forall>cm\<in>set redisCommandTable. \<not> strcasecmp_eq (cmd_name cm) (sds_str s))"
    using that find_unknown [of redisCommandTable "sds_str s"] by (simp add: lookupCommand_def fetch_plain)
qed

theorem populateCommandTable_complete_witness:
  "\<exists>cs. populateCommandTable ([], []) = Inr (cs, cs) \<and>
    lookupCommand (\<lambda>_. False) cs (mk_sds ''GeT'' []) = Some \<lparr>cmd_name = ''get'', cmd_proc = OtherCommand ''getCommand'', arity = 2, sflags = ''r'', cmd_flags = 2\<rparr>"
proof -
  obtain cs where cs: "populateCommandTable ([], []) = Inr (cs, cs)"
    "\<And>s cm. sds_ok s \<and> NUL \<notin> set (sds_str s) \<and> cm \<in> set redisCommandTable \<and> strcasecmp_eq (cmd_name cm) (sds_str s) \<Longrightarrow>
       lookupCommand (\<lambda>_. False) cs s = Some (cm\<lparr>cmd_flags := letters (sflags cm)\<rparr>)"
    using populateCommandTable_complete [of "\<lambda>_. False"] by blast
  have "command ''get'' (OtherCommand ''getCommand'') 2 ''r'' \<in> set redisCommandTable"
    unfolding redisCommandTable_def by (rule list.set_intros(1))
  moreover have "strcasecmp_eq ''get'' ''GeT''" by code_simp
  moreover have "letters ''r'' = 2" by (simp add: letters_def flag_of_def cmd_consts)
  ultimately show ?thesis using cs(1) cs(2) [of "mk_sds ''GeT'' []" "command ''get'' (OtherCommand ''getCommand'') 2 ''r''"]
    by (simp add: command_def)
qed

end
