(* ===== verification/Commands.thy ===== *)
theory Commands
  imports Command_Table
begin

text \<open>
  Execution of commands: \<open>processCommand\<close> and \<open>call\<close> with the propagation of \<open>redis.c\<close>, its small commands, and \<open>multi.c\<close>.
  The server state holds what these functions read and write; the bytes fed to monitors, slaves, the append only file
  and the slow log, and the statistics of commands, are recorded as events. The functions of the other commands,
  \<open>freeMemoryIfNeeded\<close> and \<open>handleClientsBlockedOnLists\<close> are arguments.
\<close>

section \<open>Server and client\<close>

definition REDIS_DIRTY_CAS :: int where "REDIS_DIRTY_CAS = 32"
definition REDIS_DIRTY_EXEC :: int where "REDIS_DIRTY_EXEC = 4096"
definition REDIS_CALL_SLOWLOG :: int where "REDIS_CALL_SLOWLOG = 1"
definition REDIS_CALL_STATS :: int where "REDIS_CALL_STATS = 2"
definition REDIS_CALL_PROPAGATE :: int where "REDIS_CALL_PROPAGATE = 4"
definition REDIS_CALL_FULL :: int where "REDIS_CALL_FULL = REDIS_CALL_SLOWLOG OR REDIS_CALL_STATS OR REDIS_CALL_PROPAGATE"
definition REDIS_PROPAGATE_NONE :: int where "REDIS_PROPAGATE_NONE = 0"
definition REDIS_PROPAGATE_AOF :: int where "REDIS_PROPAGATE_AOF = 1"
definition REDIS_PROPAGATE_REPL :: int where "REDIS_PROPAGATE_REPL = 2"
definition REDIS_AUTHPASS_MAX_LEN :: nat where "REDIS_AUTHPASS_MAX_LEN = 512"

lemmas call_consts = REDIS_CALL_SLOWLOG_def REDIS_CALL_STATS_def REDIS_CALL_PROPAGATE_def REDIS_CALL_FULL_def
  REDIS_PROPAGATE_NONE_def REDIS_PROPAGATE_AOF_def REDIS_PROPAGATE_REPL_def

record multiCmd =
  mc_argv :: "nat list"
  mc_cmd :: "redisCommand option"

text \<open>\<open>db\<close> is the index of the selected database; a watched key is a key object with the index of its database.\<close>

record command_client = request_client +
  authenticated :: bool
  lastcmd :: "redisCommand option"
  mstate :: "multiCmd list"
  dbid :: nat
  watched_keys :: "(nat \<times> nat) list"

text \<open>What \<open>createClient\<close> puts into these fields.\<close>

definition command_fields :: "request_client \<Rightarrow> command_client" where
  "command_fields c = request_client.extend c
     (command_client.fields False None [] 0 [])"

record redisOp =
  op_cmd :: redisCommand
  op_dbid :: nat
  op_argv :: "nat list"
  op_target :: int

datatype server_event = FeedMonitors nat "char list list" | FeedAppendOnlyFile redisCommand nat "char list list"
  | FeedSlaves nat "char list list" | SlowlogEntry "char list list" int | CallStats redisCommand int

text \<open>
  \<open>db_watched\<close> holds for each database the keys watched there with the clients that watch them. \<open>times\<close> are the answers
  of \<open>ustime\<close> and \<open>gettimeofday\<close>, in microseconds, of which \<open>ticks\<close> have been used.
\<close>

record redisServer =
  commands :: command_dict
  same_bucket :: "char list \<Rightarrow> bool"
  multi_command :: redisCommand
  requirepass :: "char list option"
  stop_writes_on_bgsave_err :: bool
  saveparamslen :: int
  lastbgsave_ok :: bool
  is_slave :: bool                \<comment> \<open>\<open>masterhost\<close> is set\<close>
  repl_slave_ro :: bool
  repl_connected :: bool
  repl_serve_stale_data :: bool
  loading :: bool
  lua_timedout :: bool
  aof_on :: bool
  monitors :: nat
  slaves :: nat
  ready_keys :: nat
  db_watched :: "(nat \<times> nat list) list list"
  also_propagate :: "redisOp list"
  dirty :: int
  stat_numcommands :: int
  times :: "nat \<Rightarrow> int"
  ticks :: nat
  events :: "server_event list"

type_synonym cstate = "redisServer \<times> command_client \<times> nworld"
type_synonym cstep = "redisServer \<Rightarrow> command_client \<Rightarrow> nworld \<Rightarrow> (obj_error, cstate) result"

record cenv =
  net :: nenv
  other_command :: "char list \<Rightarrow> cstep"
  freeMemoryIfNeeded :: "redisServer \<Rightarrow> nworld \<Rightarrow> (obj_error, bool \<times> redisServer \<times> nworld) result"
  handleClientsBlockedOnLists :: cstep

definition event :: "server_event \<Rightarrow> redisServer \<Rightarrow> redisServer" where
  "event v sv = sv\<lparr>events := events sv @ [v]\<rparr>"

definition ustime :: "redisServer \<Rightarrow> int \<times> redisServer" where
  "ustime sv = (times sv (ticks sv), sv\<lparr>ticks := ticks sv + 1\<rparr>)"

text \<open>A function on the client and the world.\<close>

definition with_client :: "(command_client \<Rightarrow> nworld \<Rightarrow> (obj_error, command_client \<times> nworld) result) \<Rightarrow> cstep" where
  "with_client f sv c w = rbind (f c w) (\<lambda>(c, w). Inr (sv, c, w))"

definition arg_at :: "command_client \<Rightarrow> nat \<Rightarrow> (obj_error, nat) result" where
  "arg_at c i = (if i < length (argv c) then Inr (argv c ! i) else Inl ArrayBounds)"

text \<open>\<open>argv[i]->ptr\<close> read as a string.\<close>

definition arg_sds :: "command_client \<Rightarrow> nworld \<Rightarrow> nat \<Rightarrow> (obj_error, sdshdr) result" where
  "arg_sds c w i = rbind (arg_at c i) (\<lambda>a. rbind (obj_at (heap w) a) ptr_sds)"

definition arg_texts :: "nworld \<Rightarrow> nat list \<Rightarrow> char list list" where
  "arg_texts w as = map (text_at (heap w)) as"

definition the_cmd :: "command_client \<Rightarrow> (obj_error, redisCommand) result" where
  "the_cmd c = opt_or WrongPtr (cmd c)"

definition cmd_flag :: "redisCommand \<Rightarrow> int \<Rightarrow> bool" where
  "cmd_flag cm f \<longleftrightarrow> cmd_flags cm AND f \<noteq> 0"

section \<open>Transactions\<close>

definition initClientMultiState :: "command_client \<Rightarrow> command_client" where
  "initClientMultiState c = c\<lparr>mstate := []\<rparr>"

fun release_queue :: "multiCmd list \<Rightarrow> ostore \<Rightarrow> (obj_error, ostore) result" where
  "release_queue [] h = Inr h"
| "release_queue (mc # mcs) h = rbind (decr_all (mc_argv mc) h) (release_queue mcs)"

definition freeClientMultiState :: "command_client \<Rightarrow> nworld \<Rightarrow> (obj_error, nworld) result" where
  "freeClientMultiState c w = rbind (release_queue (mstate c) (heap w)) (\<lambda>h. Inr (w\<lparr>heap := h\<rparr>))"

fun incr_all :: "nat list \<Rightarrow> ostore \<Rightarrow> (obj_error, ostore) result" where
  "incr_all [] h = Inr h"
| "incr_all (a # as) h = rbind (incrRefCount a h) (incr_all as)"

definition queueMultiCommand :: "command_client \<Rightarrow> nworld \<Rightarrow> (obj_error, command_client \<times> nworld) result" where
  "queueMultiCommand c w =
     rbind (incr_all (argv c) (heap w)) (\<lambda>h.
       Inr (c\<lparr>mstate := mstate c @ [\<lparr>mc_argv = argv c, mc_cmd = cmd c\<rparr>]\<rparr>, w\<lparr>heap := h\<rparr>))"

definition flagTransaction :: "command_client \<Rightarrow> command_client" where
  "flagTransaction c = (if has_flag c REDIS_MULTI then c\<lparr>cflags := cflags c OR REDIS_DIRTY_EXEC\<rparr> else c)"

section \<open>Watched keys\<close>

text \<open>The dictionary of a database maps keys, compared as strings, to the clients that watch them.\<close>

definition key_text :: "nworld \<Rightarrow> nat \<Rightarrow> (obj_error, char list) result" where
  "key_text w a = rbind (obj_at (heap w) a) (\<lambda>ob. rbind (ptr_sds ob) (\<lambda>s. sds_lift (region (sh_buf s) (sdslen s))))"

fun watchers :: "nworld \<Rightarrow> char list \<Rightarrow> (nat \<times> nat list) list \<Rightarrow> (obj_error, nat list option) result" where
  "watchers w key [] = Inr None"
| "watchers w key ((k, clients) # ks) =
     rbind (key_text w k) (\<lambda>t. if t = key then Inr (Some clients) else watchers w key ks)"

text \<open>The entry of a key is updated by \<open>f\<close>; an entry without clients is deleted, and its key released.\<close>

fun update_watchers ::
    "nworld \<Rightarrow> char list \<Rightarrow> (nat list \<Rightarrow> nat list) \<Rightarrow> (nat \<times> nat list) list \<Rightarrow> (obj_error, (nat \<times> nat list) list \<times> nworld) result"
where
  "update_watchers w key f [] = Inr ([], w)"
| "update_watchers w key f ((k, clients) # ks) =
     rbind (key_text w k) (\<lambda>t.
       if t = key then
         if f clients = [] then rbind (decrRefCount k (heap w)) (\<lambda>h. Inr (ks, w\<lparr>heap := h\<rparr>))
         else Inr ((k, f clients) # ks, w)
       else rbind (update_watchers w key f ks) (\<lambda>(ks, w). Inr ((k, clients) # ks, w)))"

definition db_at :: "redisServer \<Rightarrow> nat \<Rightarrow> (obj_error, (nat \<times> nat list) list) result" where
  "db_at sv d = (if d < length (db_watched sv) then Inr (db_watched sv ! d) else Inl ArrayBounds)"

fun already_watched :: "nat \<Rightarrow> nat \<Rightarrow> (nat \<times> nat) list \<Rightarrow> ostore \<Rightarrow> (obj_error, bool) result" where
  "already_watched d key [] h = Inr False"
| "already_watched d key ((k, d') # ks) h =
     (if d' = d then
        rbind (equalStringObjects key k h) (\<lambda>eq. if eq then Inr True else already_watched d key ks h)
      else already_watched d key ks h)"

definition watchForKey :: "nat \<Rightarrow> cstep" where
  "watchForKey key sv c w =
     rbind (already_watched (dbid c) key (watched_keys c) (heap w)) (\<lambda>found.
     if found then Inr (sv, c, w)
     else rbind (db_at sv (dbid c)) (\<lambda>db. rbind (key_text w key) (\<lambda>t. rbind (watchers w t db) (\<lambda>r.
     rbind (case r of
          None \<Rightarrow> rbind (incrRefCount key (heap w)) (\<lambda>h. Inr (db @ [(key, [cid c])], w\<lparr>heap := h\<rparr>))
        | Some _ \<Rightarrow> update_watchers w t (\<lambda>clients. clients @ [cid c]) db) (\<lambda>(db, w).
     rbind (incrRefCount key (heap w)) (\<lambda>h.
       Inr (sv\<lparr>db_watched := (db_watched sv)[dbid c := db]\<rparr>, c\<lparr>watched_keys := watched_keys c @ [(key, dbid c)]\<rparr>, w\<lparr>heap := h\<rparr>)))))))"

text \<open>The loop takes the first of the keys that are left and removes it.\<close>

fun unwatch_loop :: "nat \<Rightarrow> (nat \<times> nat) list \<Rightarrow> redisServer \<Rightarrow> nworld \<Rightarrow> (obj_error, redisServer \<times> nworld) result" where
  "unwatch_loop i [] sv w = Inr (sv, w)"
| "unwatch_loop i ((key, d) # ks) sv w =
     rbind (db_at sv d) (\<lambda>db. rbind (key_text w key) (\<lambda>t. rbind (watchers w t db) (\<lambda>r.
       case r of
         None \<Rightarrow> Inl Assertion
       | Some clients \<Rightarrow>
           if i \<notin> set clients then Inl WrongPtr
           else rbind (update_watchers w t (remove1 i) db) (\<lambda>(db, w).
                rbind (decrRefCount key (heap w)) (\<lambda>h.
                  unwatch_loop i ks (sv\<lparr>db_watched := (db_watched sv)[d := db]\<rparr>) (w\<lparr>heap := h\<rparr>))))))"

definition unwatchAllKeys :: cstep where
  "unwatchAllKeys sv c w =
     rbind (unwatch_loop (cid c) (watched_keys c) sv w) (\<lambda>(sv, w). Inr (sv, c\<lparr>watched_keys := []\<rparr>, w))"

text \<open>The clients that get the flag \<open>REDIS_DIRTY_CAS\<close>.\<close>

definition touchWatchedKey :: "nat \<Rightarrow> nat \<Rightarrow> redisServer \<Rightarrow> nworld \<Rightarrow> (obj_error, nat list) result" where
  "touchWatchedKey d key sv w =
     rbind (db_at sv d) (\<lambda>db.
       if db = [] then Inr []
       else rbind (key_text w key) (\<lambda>t. rbind (watchers w t db) (\<lambda>r. Inr (case r of None \<Rightarrow> [] | Some clients \<Rightarrow> clients))))"

section \<open>Commands on transactions\<close>

definition discardTransaction :: cstep where
  "discardTransaction sv c w =
     rbind (freeClientMultiState c w) (\<lambda>w.
       let c = initClientMultiState c;
           c = c\<lparr>cflags := cflags c AND NOT (REDIS_MULTI OR REDIS_DIRTY_CAS OR REDIS_DIRTY_EXEC)\<rparr>
       in unwatchAllKeys sv c w)"

definition multiCommand :: "nenv \<Rightarrow> cstep" where
  "multiCommand e sv c w =
     (if has_flag c REDIS_MULTI then with_client (addReplyError e (''MULTI calls can not be nested'' @ [NUL])) sv c w
      else let c = c\<lparr>cflags := cflags c OR REDIS_MULTI\<rparr> in with_client (addReply e (ok_obj (shared w))) sv c w)"

definition discardCommand :: "nenv \<Rightarrow> cstep" where
  "discardCommand e sv c w =
     (if \<not> has_flag c REDIS_MULTI then with_client (addReplyError e (''DISCARD without MULTI'' @ [NUL])) sv c w
      else rbind (discardTransaction sv c w) (\<lambda>(sv, c, w). with_client (addReply e (ok_obj (shared w))) sv c w))"

fun watch_args :: "nat list \<Rightarrow> cstep" where
  "watch_args [] sv c w = Inr (sv, c, w)"
| "watch_args (a # as) sv c w = rbind (watchForKey a sv c w) (\<lambda>(sv, c, w). watch_args as sv c w)"

definition watchCommand :: "nenv \<Rightarrow> cstep" where
  "watchCommand e sv c w =
     (if has_flag c REDIS_MULTI then with_client (addReplyError e (''WATCH inside MULTI is not allowed'' @ [NUL])) sv c w
      else rbind (watch_args (drop 1 (argv c)) sv c w) (\<lambda>(sv, c, w). with_client (addReply e (ok_obj (shared w))) sv c w))"

definition unwatchCommand :: "nenv \<Rightarrow> cstep" where
  "unwatchCommand e sv c w =
     rbind (unwatchAllKeys sv c w) (\<lambda>(sv, c, w).
       with_client (addReply e (ok_obj (shared w))) sv (c\<lparr>cflags := cflags c AND NOT REDIS_DIRTY_CAS\<rparr>) w)"

section \<open>Small commands\<close>

text \<open>The bytes of a buffer of \<open>REDIS_AUTHPASS_MAX_LEN\<close> zeros the string is copied to, read as signed characters.\<close>

definition padded :: "char list \<Rightarrow> char list" where
  "padded s = s @ replicate (REDIS_AUTHPASS_MAX_LEN - length s) NUL"

definition schar :: "char \<Rightarrow> int" where
  "schar ch = signed_take_bit 7 (uchar ch)"

definition time_independent_strcmp :: "char list \<Rightarrow> char list \<Rightarrow> (obj_error, int) result" where
  "time_independent_strcmp a b =
     rbind (sds_lift (strlen a)) (\<lambda>alen. rbind (sds_lift (strlen b)) (\<lambda>blen.
       if to_u64 alen > int REDIS_AUTHPASS_MAX_LEN \<or> to_u64 blen > int REDIS_AUTHPASS_MAX_LEN then Inr 1
       else let bufa = padded (take (nat alen) a); bufb = padded (take (nat blen) b);
                diff = foldl (\<lambda>d j. d OR (schar (bufa ! j) XOR schar (bufb ! j))) 0 [0..<REDIS_AUTHPASS_MAX_LEN]
            in Inr (diff OR (alen XOR blen))))"

definition authCommand :: "nenv \<Rightarrow> cstep" where
  "authCommand e sv c w =
     (case requirepass sv of
        None \<Rightarrow> with_client (addReplyError e (''Client sent AUTH, but no password is set'' @ [NUL])) sv c w
      | Some pass \<Rightarrow>
          rbind (arg_sds c w 1) (\<lambda>s.
          rbind (time_independent_strcmp (sh_buf s) (pass @ [NUL])) (\<lambda>diff.
            if diff = 0 then with_client (addReply e (ok_obj (shared w))) sv (c\<lparr>authenticated := True\<rparr>) w
            else with_client (addReplyError e (''invalid password'' @ [NUL])) sv (c\<lparr>authenticated := False\<rparr>) w)))"

definition pingCommand :: "nenv \<Rightarrow> cstep" where
  "pingCommand e sv c w = with_client (addReply e (pong (shared w))) sv c w"

definition echoCommand :: "nenv \<Rightarrow> cstep" where
  "echoCommand e sv c w = rbind (arg_at c 1) (\<lambda>a. with_client (addReplyBulk e a) sv c w)"

definition timeCommand :: "nenv \<Rightarrow> cstep" where
  "timeCommand e sv c w =
     (let (t, sv) = ustime sv in
      with_client (andthen (addReplyMultiBulkLen e 2)
        (andthen (addReplyBulkLongLong e (t div 1000000)) (addReplyBulkLongLong e (t mod 1000000)))) sv c w)"

section \<open>Propagation\<close>

definition propagate :: "redisCommand \<Rightarrow> nat \<Rightarrow> char list list \<Rightarrow> int \<Rightarrow> redisServer \<Rightarrow> redisServer" where
  "propagate cm d args flags sv =
     (let sv = (if aof_on sv \<and> flags AND REDIS_PROPAGATE_AOF \<noteq> 0 then event (FeedAppendOnlyFile cm d args) sv else sv)
      in if flags AND REDIS_PROPAGATE_REPL \<noteq> 0 \<and> slaves sv \<noteq> 0 then event (FeedSlaves d args) sv else sv)"

definition redisOpArrayInit :: "redisOp list" where "redisOpArrayInit = []"

definition redisOpArrayAppend :: "redisOp list \<Rightarrow> redisCommand \<Rightarrow> nat \<Rightarrow> nat list \<Rightarrow> int \<Rightarrow> redisOp list" where
  "redisOpArrayAppend oa cm d args target = oa @ [\<lparr>op_cmd = cm, op_dbid = d, op_argv = args, op_target = target\<rparr>]"

definition redisOpArrayFree :: "redisOp list \<Rightarrow> ostore \<Rightarrow> (obj_error, ostore) result" where
  "redisOpArrayFree oa = decr_all (concat (map op_argv (rev oa)))"

definition alsoPropagate :: "redisCommand \<Rightarrow> nat \<Rightarrow> nat list \<Rightarrow> int \<Rightarrow> redisServer \<Rightarrow> redisServer" where
  "alsoPropagate cm d args target sv = sv\<lparr>also_propagate := redisOpArrayAppend (also_propagate sv) cm d args target\<rparr>"

definition propagate_ops :: "nworld \<Rightarrow> redisServer \<Rightarrow> redisServer" where
  "propagate_ops w sv =
     foldl (\<lambda>sv rop. propagate (op_cmd rop) (op_dbid rop) (arg_texts w (op_argv rop)) (op_target rop) sv) sv (also_propagate sv)"

section \<open>Calling a command\<close>

text \<open>\<open>prc\<close> runs the function of a command.\<close>

definition call_with :: "(command_proc \<Rightarrow> cstep) \<Rightarrow> int \<Rightarrow> cstep" where
  "call_with prc flags sv c w =
     (let (start, sv) = ustime sv in
      rbind (the_cmd c) (\<lambda>cm.
      let sv = (if monitors sv \<noteq> 0 \<and> \<not> loading sv \<and> \<not> cmd_flag cm REDIS_CMD_SKIP_MONITOR
                then event (FeedMonitors (dbid c) (arg_texts w (argv c))) sv else sv);
          sv = sv\<lparr>also_propagate := redisOpArrayInit\<rparr>;
          dirty0 = dirty sv
      in rbind (prc (cmd_proc cm) sv c w) (\<lambda>(sv, c, w).
      let dirtied = dirty sv - dirty0;
          (stop, sv) = ustime sv;
          flags = (if loading sv \<and> has_flag c REDIS_LUA_CLIENT
                   then flags AND NOT (REDIS_CALL_SLOWLOG OR REDIS_CALL_STATS) else flags)
      in rbind (the_cmd c) (\<lambda>cm.
      let args = arg_texts w (argv c);
          sv = (if flags AND REDIS_CALL_SLOWLOG \<noteq> 0 \<and> cmd_proc cm \<noteq> ExecCommand then event (SlowlogEntry args (stop - start)) sv else sv);
          sv = (if flags AND REDIS_CALL_STATS \<noteq> 0 then event (CallStats cm (stop - start)) sv else sv);
          target = (if cmd_flag cm REDIS_CMD_FORCE_REPLICATION then REDIS_PROPAGATE_REPL else REDIS_PROPAGATE_NONE);
          target = (if dirtied \<noteq> 0 then target OR (REDIS_PROPAGATE_REPL OR REDIS_PROPAGATE_AOF) else target);
          sv = (if flags AND REDIS_CALL_PROPAGATE \<noteq> 0 \<and> target \<noteq> REDIS_PROPAGATE_NONE then propagate cm (dbid c) args target sv else sv)
      in rbind
          (if also_propagate sv \<noteq> [] then
             rbind (redisOpArrayFree (also_propagate sv) (heap w)) (\<lambda>h.
               Inr ((propagate_ops w sv)\<lparr>also_propagate := []\<rparr>, w\<lparr>heap := h\<rparr>))
           else Inr (sv, w)) (\<lambda>(sv, w).
          Inr (sv\<lparr>stat_numcommands := stat_numcommands sv + 1\<rparr>, c, w))))))"

definition execCommandPropagateMulti :: "nenv \<Rightarrow> cstep" where
  "execCommandPropagateMulti e sv c w =
     rbind (createStringObject (fresh e) (''MULTI'' @ [NUL]) 5 (heap w)) (\<lambda>(a, h).
     let w = w\<lparr>heap := h\<rparr>;
         sv = propagate (multi_command sv) (dbid c) (arg_texts w [a]) (REDIS_PROPAGATE_AOF OR REDIS_PROPAGATE_REPL) sv
     in rbind (decrRefCount a h) (\<lambda>h. Inr (sv, c, w\<lparr>heap := h\<rparr>)))"

text \<open>
  The loop of EXEC from command \<open>j\<close> on; the flag is \<open>must_propagate\<close>. The first argument is the number of commands that
  were queued when the loop began: no command adds to the queue while it runs.
\<close>

fun exec_loop :: "nat \<Rightarrow> nenv \<Rightarrow> (int \<Rightarrow> cstep) \<Rightarrow> nat \<Rightarrow> bool \<Rightarrow> redisServer \<Rightarrow> command_client \<Rightarrow> nworld \<Rightarrow>
    (obj_error, bool \<times> cstate) result" where
  "exec_loop 0 e callf j must sv c w = (if j < length (mstate c) then Inl Unfinished else Inr (must, sv, c, w))"
| "exec_loop (Suc n) e callf j must sv c w =
     (if \<not> j < length (mstate c) then Inr (must, sv, c, w)
      else let mc = mstate c ! j; c = c\<lparr>argv := mc_argv mc, cmd := mc_cmd mc\<rparr> in
        rbind (the_cmd c) (\<lambda>cm.
        let first_write = (\<not> must \<and> \<not> cmd_flag cm REDIS_CMD_READONLY) in
        rbind (if first_write then execCommandPropagateMulti e sv c w else Inr (sv, c, w)) (\<lambda>(sv, c, w).
        rbind (callf REDIS_CALL_FULL sv c w) (\<lambda>(sv, c, w).
          if j < length (mstate c)
          then exec_loop n e callf (j + 1) (must \<or> first_write) sv
                 (c\<lparr>mstate := (mstate c)[j := \<lparr>mc_argv = argv c, mc_cmd = cmd c\<rparr>]\<rparr>) w
          else Inl ArrayBounds))))"

definition monitor_exec :: cstep where
  "monitor_exec sv c w =
     Inr (if monitors sv \<noteq> 0 \<and> \<not> loading sv then event (FeedMonitors (dbid c) (arg_texts w (argv c))) sv else sv, c, w)"

definition execCommand :: "nenv \<Rightarrow> (int \<Rightarrow> cstep) \<Rightarrow> cstep" where
  "execCommand e callf sv c w =
     (if \<not> has_flag c REDIS_MULTI then with_client (addReplyError e (''EXEC without MULTI'' @ [NUL])) sv c w
      else if has_flag c (REDIS_DIRTY_CAS OR REDIS_DIRTY_EXEC) then
        rbind (with_client (addReply e (if has_flag c REDIS_DIRTY_EXEC then execaborterr (shared w) else nullmultibulk (shared w))) sv c w) (\<lambda>(sv, c, w).
        rbind (discardTransaction sv c w) (\<lambda>(sv, c, w). monitor_exec sv c w))
      else
        rbind (unwatchAllKeys sv c w) (\<lambda>(sv, c, w).
        let orig_argv = argv c; orig_cmd = cmd c in
        rbind (with_client (addReplyMultiBulkLen e (int (length (mstate c)))) sv c w) (\<lambda>(sv, c, w).
        rbind (exec_loop (length (mstate c)) e callf 0 False sv c w) (\<lambda>(must, sv, c, w).
        rbind (discardTransaction sv (c\<lparr>argv := orig_argv, cmd := orig_cmd\<rparr>) w) (\<lambda>(sv, c, w).
        let sv = (if must then sv\<lparr>dirty := dirty sv + 1\<rparr> else sv) in monitor_exec sv c w)))))"

fun run_command :: "cenv \<Rightarrow> (int \<Rightarrow> cstep) \<Rightarrow> command_proc \<Rightarrow> cstep" where
  "run_command e callf AuthCommand = authCommand (net e)"
| "run_command e callf PingCommand = pingCommand (net e)"
| "run_command e callf EchoCommand = echoCommand (net e)"
| "run_command e callf TimeCommand = timeCommand (net e)"
| "run_command e callf MultiCommand = multiCommand (net e)"
| "run_command e callf ExecCommand = execCommand (net e) callf"
| "run_command e callf DiscardCommand = discardCommand (net e)"
| "run_command e callf WatchCommand = watchCommand (net e)"
| "run_command e callf UnwatchCommand = unwatchCommand (net e)"
| "run_command e callf SubscribeCommand = other_command e ''subscribeCommand''"
| "run_command e callf UnsubscribeCommand = other_command e ''unsubscribeCommand''"
| "run_command e callf PsubscribeCommand = other_command e ''psubscribeCommand''"
| "run_command e callf PunsubscribeCommand = other_command e ''punsubscribeCommand''"
| "run_command e callf ShutdownCommand = other_command e ''shutdownCommand''"
| "run_command e callf ScriptCommand = other_command e ''scriptCommand''"
| "run_command e callf (OtherCommand f) = other_command e f"

text \<open>EXEC calls the queued commands, which are never EXEC again: two levels of calls are enough.\<close>

fun call :: "nat \<Rightarrow> cenv \<Rightarrow> int \<Rightarrow> cstep" where
  "call 0 e flags sv c w = Inl Unfinished"
| "call (Suc n) e flags sv c w = call_with (run_command e (call n e)) flags sv c w"

section \<open>Processing a command line\<close>

definition lua_allows :: "redisCommand \<Rightarrow> command_client \<Rightarrow> nworld \<Rightarrow> (obj_error, bool) result" where
  "lua_allows cm c w =
     (if cmd_proc cm = AuthCommand then Inr True
      else if cmd_proc cm = ShutdownCommand \<and> length (argv c) = 2
      then rbind (arg_sds c w 1) (\<lambda>s. Inr (tolower (hd (sh_buf s)) = CHR ''n''))
      else if cmd_proc cm = ScriptCommand \<and> length (argv c) = 2
      then rbind (arg_sds c w 1) (\<lambda>s. Inr (tolower (hd (sh_buf s)) = CHR ''k''))
      else Inr False)"

text \<open>A reply instead of the execution; the status \<open>True\<close> is \<open>REDIS_OK\<close>.\<close>

definition refuse :: "(command_client \<Rightarrow> nworld \<Rightarrow> (obj_error, command_client \<times> nworld) result) \<Rightarrow>
    redisServer \<Rightarrow> command_client \<Rightarrow> nworld \<Rightarrow> (obj_error, bool \<times> cstate) result" where
  "refuse f sv c w = rbind (f c w) (\<lambda>(c, w). Inr (True, sv, c, w))"

definition execute :: "cenv \<Rightarrow> redisCommand \<Rightarrow> redisServer \<Rightarrow> command_client \<Rightarrow> nworld \<Rightarrow> (obj_error, bool \<times> cstate) result" where
  "execute e cm sv c w =
     (if has_flag c REDIS_MULTI \<and> cmd_proc cm \<noteq> ExecCommand \<and> cmd_proc cm \<noteq> DiscardCommand \<and>
         cmd_proc cm \<noteq> MultiCommand \<and> cmd_proc cm \<noteq> WatchCommand
      then rbind (queueMultiCommand c w) (\<lambda>(c, w). refuse (addReply (net e) (queued (shared w))) sv c w)
      else rbind (call 2 e REDIS_CALL_FULL sv c w) (\<lambda>(sv, c, w).
           rbind (if ready_keys sv \<noteq> 0 then handleClientsBlockedOnLists e sv c w else Inr (sv, c, w)) (\<lambda>s. Inr (True, s))))"

definition check_and_execute :: "cenv \<Rightarrow> redisCommand \<Rightarrow> redisServer \<Rightarrow> command_client \<Rightarrow> nworld \<Rightarrow> (obj_error, bool \<times> cstate) result" where
  "check_and_execute e cm sv c w =
     (if stop_writes_on_bgsave_err sv \<and> saveparamslen sv > 0 \<and> \<not> lastbgsave_ok sv \<and> cmd_flag cm REDIS_CMD_WRITE
      then refuse (addReply (net e) (bgsaveerr (shared w))) sv (flagTransaction c) w
      else if is_slave sv \<and> repl_slave_ro sv \<and> \<not> has_flag c REDIS_MASTER \<and> cmd_flag cm REDIS_CMD_WRITE
      then refuse (addReply (net e) (roslaveerr (shared w))) sv c w
      else if subscriptions c > 0 \<and> cmd_proc cm \<noteq> SubscribeCommand \<and> cmd_proc cm \<noteq> UnsubscribeCommand \<and>
        cmd_proc cm \<noteq> PsubscribeCommand \<and> cmd_proc cm \<noteq> PunsubscribeCommand
      then refuse (addReplyError (net e) (''only (P)SUBSCRIBE / (P)UNSUBSCRIBE / QUIT allowed in this context'' @ [NUL])) sv c w
      else if is_slave sv \<and> \<not> repl_connected sv \<and> \<not> repl_serve_stale_data sv \<and> \<not> cmd_flag cm REDIS_CMD_STALE
      then refuse (addReply (net e) (masterdownerr (shared w))) sv (flagTransaction c) w
      else if loading sv \<and> \<not> cmd_flag cm REDIS_CMD_LOADING
      then refuse (addReply (net e) (loadingerr (shared w))) sv c w
      else rbind (if lua_timedout sv then lua_allows cm c w else Inr True) (\<lambda>allowed.
        if \<not> allowed then refuse (addReply (net e) (slowscripterr (shared w))) sv (flagTransaction c) w
        else execute e cm sv c w))"

definition processCommand :: "cenv \<Rightarrow> redisServer \<Rightarrow> command_client \<Rightarrow> nworld \<Rightarrow> (obj_error, bool \<times> cstate) result" where
  "processCommand e sv c w =
     rbind (arg_sds c w 0) (\<lambda>name.
       if strcasecmp_eq (cstr (sh_buf name)) ''quit'' then
         rbind (addReply (net e) (ok_obj (shared w)) c w) (\<lambda>(c, w).
           Inr (False, sv, c\<lparr>cflags := cflags c OR REDIS_CLOSE_AFTER_REPLY\<rparr>, w))
       else let found = lookupCommand (same_bucket sv) (commands sv) name; c = c\<lparr>cmd := found, lastcmd := found\<rparr> in
         case found of
           None \<Rightarrow>
             refuse (addReplyErrorFormat (net e) (''unknown command '' @ [CHR 0x27] @ cstr (sh_buf name) @ [CHR 0x27])) sv (flagTransaction c) w
         | Some cm \<Rightarrow>
             if arity cm > 0 \<and> arity cm \<noteq> int (length (argv c)) \<or> int (length (argv c)) < - arity cm
             then refuse (addReplyErrorFormat (net e) (''wrong number of arguments for '' @ [CHR 0x27] @ cmd_name cm @ [CHR 0x27] @ '' command''))
                    sv (flagTransaction c) w
             else if requirepass sv \<noteq> None \<and> \<not> authenticated c \<and> cmd_proc cm \<noteq> AuthCommand
             then refuse (addReplyError (net e) (''operation not permitted'' @ [NUL])) sv (flagTransaction c) w
             else rbind (if maxmemory (heap w) \<noteq> 0 then freeMemoryIfNeeded e sv w else Inr (True, sv, w)) (\<lambda>(freed, sv, w).
               if cmd_flag cm REDIS_CMD_DENYOOM \<and> \<not> freed
               then refuse (addReply (net e) (oomerr (shared w))) sv (flagTransaction c) w
               else check_and_execute e cm sv c w))"

end
