(* ===== verification/Reply_Frame.thy ===== *)
theory Reply_Frame
  imports Networking_Reply
begin

text \<open>
  The functions that build replies touch only the output fields of the client: its identity, the fields of the later
  layers (requests, transactions) and all flags but \<open>REDIS_CLOSE_ASAP\<close> keep their values.
\<close>

lemma has_flag_bit: "has_flag c (2 ^ n) \<longleftrightarrow> bit (cflags c) n"
  by (simp add: has_flag_def and_exp_eq_0_iff_not_bit)

definition outside :: "('a redisClient_scheme) \<Rightarrow> ('a redisClient_scheme) \<Rightarrow> bool" where
  "outside c c' \<longleftrightarrow> redisClient.more c' = redisClient.more c \<and> cid c' = cid c \<and> fd c' = fd c \<and> subscriptions c' = subscriptions c \<and>
     (\<forall>n. n \<noteq> 10 \<longrightarrow> bit (cflags c') n = bit (cflags c) n)"

lemma outside_refl [simp]: "outside c c"
  by (simp add: outside_def)

lemma outside_trans: "outside c c1 \<Longrightarrow> outside c1 c2 \<Longrightarrow> outside c c2"
  by (simp add: outside_def)

lemma outside_output [simp]:
  "outside c (c'\<lparr>buf := x, bufpos := i\<rparr>) = outside c c'" "outside c (c'\<lparr>reply := rs\<rparr>) = outside c c'"
  "outside c (c'\<lparr>reply_bytes := n\<rparr>) = outside c c'" "outside c (c'\<lparr>reply := rs, reply_bytes := n\<rparr>) = outside c c'"
  "outside c (c'\<lparr>obuf_soft_limit_reached_time := n\<rparr>) = outside c c'"
  "outside (c\<lparr>reply_bytes := n\<rparr>) c' = outside c c'"
  by (simp_all add: outside_def)

lemma outside_asap [simp]: "outside c (c\<lparr>cflags := cflags c OR REDIS_CLOSE_ASAP\<rparr>)"
proof -
  have "bit (2 ^ 10 :: int) n \<longleftrightarrow> n = 10" for n unfolding bit_exp_iff by simp
  then have "bit REDIS_CLOSE_ASAP n \<longleftrightarrow> n = 10" for n by (simp add: net_consts)
  then show ?thesis by (simp add: outside_def bit_or_iff)
qed

lemma outside_async: "freeClientAsync c w = (c', w') \<Longrightarrow> outside c c'"
  by (auto simp: freeClientAsync_def split: if_splits)

lemma outside_limits: "checkClientOutputBufferLimits c w = Inr (b, c') \<Longrightarrow> outside c c'"
  by (auto simp: checkClientOutputBufferLimits_def Let_def split: if_splits)

text \<open>Functions that keep the rest of the client.\<close>

definition confined :: "(('a redisClient_scheme) \<Rightarrow> nworld \<Rightarrow> (obj_error, ('a redisClient_scheme) \<times> nworld) result) \<Rightarrow> bool" where
  "confined f \<longleftrightarrow> (\<forall>c w c' w'. f c w = Inr (c', w') \<longrightarrow> outside c c')"

lemma confinedD: "confined f \<Longrightarrow> f c w = Inr (c', w') \<Longrightarrow> outside c c'"
  by (auto simp: confined_def)

named_theorems confined_intros

lemma confined_async [confined_intros]: "confined asyncCloseClientOnOutputBufferLimitReached"
  unfolding confined_def asyncCloseClientOnOutputBufferLimitReached_def
  by (fastforce simp: rbind_eq_Inr split: if_splits dest: outside_limits outside_async intro: outside_trans)

lemma outside_dup: "dupLastObjectIfNeeded e c w = Inr (a, c', w') \<Longrightarrow> outside c c'"
  by (auto simp: dupLastObjectIfNeeded_def Let_def rbind_eq_Inr split: if_splits)

lemma confined_glue: "confined (glue_tail e s len)"
  unfolding confined_def glue_tail_def by (auto simp: rbind_eq_Inr Let_def dest!: outside_dup)

lemma confined_node: "confined (add_node e a)"
  unfolding confined_def add_node_def by (auto simp: rbind_eq_Inr)

lemma outside_buffer: "addReplyToBuffer c s len = Inr (b, c') \<Longrightarrow> outside c c'"
  by (auto simp: addReplyToBuffer_def Let_def rbind_eq_Inr split: if_splits)

lemma outside_next: "confined f \<Longrightarrow> outside c c1 \<Longrightarrow> f c1 w1 = Inr (c2, w2) \<Longrightarrow> outside c c2"
  by (blast intro: outside_trans dest: confinedD)

lemma confined_list [confined_intros]: "confined (addReplyObjectToList e a)" "confined (addReplySdsToList e s)" "confined (addReplyStringToList e x len)"
  unfolding confined_def addReplyObjectToList_def addReplySdsToList_def addReplyStringToList_def
  by (fastforce simp: rbind_eq_Inr split: if_splits prod.splits
      dest: confinedD [OF confined_glue] confinedD [OF confined_node] intro: outside_next [OF confined_async])+

lemma buffer_then:
  assumes "confined f" and "rbind (addReplyToBuffer c s len) (\<lambda>(filled, c). if filled then Inr (c, w) else f c w) = Inr (c', w')"
  shows "outside c c'"
proof -
  obtain b c1 where 1: "addReplyToBuffer c s len = Inr (b, c1)" "(if b then Inr (c1, w) else f c1 w) = Inr (c', w')"
    using assms(2) by (auto simp: rbind_eq_Inr)
  then have "b \<and> c' = c1 \<or> f c1 w = Inr (c', w')" by (auto split: if_splits)
  then show ?thesis using outside_buffer [OF 1(1)] outside_next [OF assms(1) outside_buffer [OF 1(1)]] by blast
qed

lemma confinedI: "(\<And>c w c' w'. f c w = Inr (c', w') \<Longrightarrow> outside c c') \<Longrightarrow> confined f"
  by (auto simp: confined_def)

lemma confined_addReply [confined_intros]: "confined (addReply e a)"
proof (rule confinedI)
  fix c :: "'a redisClient_scheme" and w c' w'
  assume r: "addReply e a c w = Inr (c', w')"
  show "outside c c'"
  proof (cases "prepareClientToWrite e c")
    case False
    then show ?thesis using r by (simp add: addReply_def)
  next
    case True
    then obtain ob where "obj_at (heap w) a = Inr ob" using r by (auto simp: addReply_def rbind_eq_Inr)
    note r1 = r [unfolded addReply_def, simplified this rbind_simps True if_False not_True_eq_False]
    consider "oencoding ob = REDIS_ENCODING_RAW" | "oencoding ob \<noteq> REDIS_ENCODING_RAW" "oencoding ob = REDIS_ENCODING_INT"
      using r1 by (auto split: if_splits)
    then show ?thesis
    proof cases
      case 1
      then obtain s where "rbind (addReplyToBuffer c (sh_buf s) (sdslen s)) (\<lambda>(filled, c). if filled then Inr (c, w) else addReplyObjectToList e a c w) = Inr (c', w')"
        using r1 by (auto simp: rbind_eq_Inr)
      then show ?thesis by (rule buffer_then [OF confined_list(1)])
    next
      case 2
      define rest where "rest = (\<lambda>c1 :: 'a redisClient_scheme. rbind (getDecodedObject (fresh e) a (heap w)) (\<lambda>(d, h).
               rbind (obj_at h d) (\<lambda>ob. rbind (ptr_sds ob) (\<lambda>s.
               rbind (addReplyToBuffer c1 (sh_buf s) (sdslen s)) (\<lambda>(filled, c).
               rbind (if filled then Inr (c, w\<lparr>heap := h\<rparr>) else addReplyObjectToList e d c (w\<lparr>heap := h\<rparr>)) (\<lambda>(c, w).
               rbind (decrRefCount d (heap w)) (\<lambda>h. Inr (c, w\<lparr>heap := h\<rparr>))))))))"
      define first where "first = (if reply c = [] \<and> to_u64 (int (length (buf c)) - int (bufpos c)) \<ge> 32
          then rbind (ptr_long ob) (\<lambda>n. let (b, len) = ll2string 32 n in addReplyToBuffer c b (int len)) else Inr (False, c))"
      have "rbind first (\<lambda>(filled, c). if filled then Inr (c, w) else rest c) = Inr (c', w')"
        unfolding first_def rest_def using r1 [simplified if_not_P [OF 2(1)] if_P [OF 2(2)]] .
      then obtain b c1 where f: "first = Inr (b, c1)" "(if b then Inr (c1, w) else rest c1) = Inr (c', w')" by (auto simp: rbind_eq_Inr)
      have o1: "outside c c1" using f(1) by (auto simp: first_def rbind_eq_Inr split_beta split: if_splits dest: outside_buffer)
      have b: "b \<Longrightarrow> c' = c1" "\<not> b \<Longrightarrow> rest c1 = Inr (c', w')" using f(2) by (auto split: if_splits)
      show ?thesis
      proof (cases b)
        case False
        from b(2) [OF False] obtain d h s b2 c2 w2 where "addReplyToBuffer c1 (sh_buf s) (sdslen s) = Inr (b2, c2)"
          "(if b2 then Inr (c2, w\<lparr>heap := h\<rparr>) else addReplyObjectToList e d c2 (w\<lparr>heap := h\<rparr>)) = Inr (c', w2)"
          by (auto simp: rbind_eq_Inr rest_def)
        then show ?thesis using outside_trans [OF o1] outside_buffer outside_next [OF confined_list(1)] by (metis sum.inject(2) prod.inject)
      qed (use b o1 in simp)
    qed
  qed
qed

lemma confined_sds [confined_intros]: "confined (addReplySds e s)"
  using buffer_then [OF confined_list(2)] by (auto intro!: confinedI simp: addReplySds_def split: if_splits)

lemma confined_string [confined_intros]: "confined (addReplyString e x len)"
  using buffer_then [OF confined_list(3)] by (auto intro!: confinedI simp: addReplyString_def split: if_splits)

lemma confined_andthen [confined_intros]: "confined f \<Longrightarrow> confined f' \<Longrightarrow> confined (andthen f f')"
  unfolding confined_def andthen_def by (fastforce simp: rbind_eq_Inr intro: outside_trans)

lemma confined_shared [confined_intros]: "confined (\<lambda>c w. addReply e (f w) c w)"
  by (rule confinedI) (rule confinedD [OF confined_addReply])

lemma confined_rbind: "(\<And>x. confined (f x)) \<Longrightarrow> confined (\<lambda>c w. rbind (m c w) (\<lambda>x. f x c w))"
  by (rule confinedI) (auto simp: rbind_eq_Inr intro: confinedD)

lemma confined_errorLength [confined_intros]: "confined (addReplyErrorLength e s len)"
  unfolding addReplyErrorLength_def by (intro confined_intros)

lemma confined_error [confined_intros]: "confined (addReplyError e s)"
  unfolding addReplyError_def by (intro confined_rbind confined_intros)

lemma confined_format [confined_intros]: "confined (addReplyErrorFormat e s)"
  unfolding addReplyErrorFormat_def Let_def by (intro confined_rbind confined_intros)

lemma confined_prefix [confined_intros]: "confined (addReplyLongLongWithPrefix e ll p)"
  by (rule confinedI) (auto simp: addReplyLongLongWithPrefix_def rbind_eq_Inr Let_def split: if_splits prod.splits
      dest: confinedD [OF confined_addReply] confinedD [OF confined_string])

lemma confined_multi [confined_intros]: "confined (addReplyMultiBulkLen e n)"
  unfolding addReplyMultiBulkLen_def by (rule confined_prefix)

lemma confined_bulkLen [confined_intros]: "confined (addReplyBulkLen e a)"
  unfolding addReplyBulkLen_def by (intro confined_rbind confined_prefix)

lemma confined_bulk [confined_intros]: "confined (addReplyBulk e a)"
  unfolding addReplyBulk_def by (intro confined_intros)

lemma confined_cbuffer [confined_intros]: "confined (addReplyBulkCBuffer e p len)"
  unfolding addReplyBulkCBuffer_def by (intro confined_intros)

end
