(* ===== verification/Reply_Stream.thy ===== *)
theory Reply_Stream
  imports Networking_Reply
begin

text \<open>
  What the reply functions of \<open>networking.c\<close> put on the wire: the texts of the protocol, one lemma per function, and the
  writing of the output to the socket.
\<close>

section \<open>Protocol texts\<close>

text \<open>\<open>resp p s\<close> is a line with the type byte \<open>p\<close>; \<open>bulk s\<close> a length-prefixed string.\<close>

definition resp :: "char \<Rightarrow> char list \<Rightarrow> char list" where
  "resp p s = p # s @ CRLF"

definition bulk :: "char list \<Rightarrow> char list" where
  "bulk s = resp (CHR ''$'') (ll_text (int (length s))) @ s @ CRLF"

text \<open>The shared objects hold their texts and the rest of the program keeps them alive.\<close>

definition shared_text :: "nat list \<Rightarrow> nworld \<Rightarrow> nat \<Rightarrow> char list \<Rightarrow> bool" where
  "shared_text held w a t \<longleftrightarrow> a \<in> set held \<and> solid (heap w) a \<and> text_at (heap w) a = t"

definition shared_strings_ok :: "nat list \<Rightarrow> nworld \<Rightarrow> bool" where
  "shared_strings_ok held w \<longleftrightarrow>
     length held < OUT_LIMIT \<and>
     shared_text held w (crlf (shared w)) CRLF \<and>
     shared_text held w (czero (shared w)) (resp (CHR '':'') ''0'') \<and>
     shared_text held w (cone (shared w)) (resp (CHR '':'') ''1'') \<and>
     shared_text held w (nullbulk (shared w)) (resp (CHR ''$'') ''-1'') \<and>
     length (mbulkhdr (shared w)) = 32 \<and> length (bulkhdr (shared w)) = 32 \<and>
     (\<forall>j<32. shared_text held w (mbulkhdr (shared w) ! j) (resp (CHR ''*'') (ll_text (int j))) \<and>
             shared_text held w (bulkhdr (shared w) ! j) (resp (CHR ''$'') (ll_text (int j))))"

lemma shared_text_frame: "frame held w0 w \<Longrightarrow> shared_text held w0 a t \<Longrightarrow> shared_text held w a t"
  using frame_obj [of held w0 w a] by (simp add: shared_text_def)

lemma shared_strings_frame: "frame held w0 w \<Longrightarrow> shared_strings_ok held w0 \<Longrightarrow> shared_strings_ok held w"
  using shared_text_frame [of held w0 w] by (simp add: shared_strings_ok_def frame_def)

lemma addReply_shared:
  assumes "shared_strings_ok held w0" and "shared_text held w0 a t"
  shows "appends e held w0 (addReply e a) t 1"
  using addReply_appends [of a held w0 e] assms by (auto simp: shared_strings_ok_def shared_text_def)

lemma appends_cong:
  assumes "appends e held w0 f t n" and "\<And>c w. frame held w0 w \<Longrightarrow> f' c w = f c w"
  shows "appends e held w0 f' t n"
  using assms unfolding appends_def by metis

text \<open>A piece or more, within a larger budget.\<close>

lemma crlf_appends:
  assumes "shared_strings_ok held w0"
  shows "appends e held w0 (\<lambda>c w. addReply e (crlf (shared w)) c w) CRLF 1"
proof (rule appends_cong)
  show "appends e held w0 (addReply e (crlf (shared w0))) CRLF 1"
    by (rule addReply_shared [OF assms]) (use assms in \<open>simp add: shared_strings_ok_def\<close>)
qed (simp add: frame_def)

lemma header_at_ok: "0 \<le> ll \<Longrightarrow> ll < 32 \<Longrightarrow> length xs = 32 \<Longrightarrow> header_at xs ll = Inr (xs ! nat ll)"
  by (simp add: header_at_def)

lemma addReplyLongLongWithPrefix_appends:
  assumes sh: "shared_strings_ok held w0" and ll: "is_ll ll" and p: "p = CHR ''*'' \<or> p = CHR ''$'' \<Longrightarrow> 0 \<le> ll"
  shows "appends e held w0 (addReplyLongLongWithPrefix e ll p) (resp p (ll_text ll)) 1"
proof (cases "(p = CHR ''*'' \<or> p = CHR ''$'') \<and> ll < 32")
  case True
  with p have j: "0 \<le> ll" "ll < 32" "nat ll < 32" by auto
  note s = sh [unfolded shared_strings_ok_def]
  consider "p = CHR ''*''" | "p = CHR ''$''" using True by blast
  then show ?thesis
  proof cases
    case 1
    have "shared_text held w0 (mbulkhdr (shared w0) ! nat ll) (resp p (ll_text ll))" using s j 1 by force
    then have "appends e held w0 (addReply e (mbulkhdr (shared w0) ! nat ll)) (resp p (ll_text ll)) 1" by (rule addReply_shared [OF sh])
    then show ?thesis
      by (rule appends_cong) (use 1 j s in \<open>simp add: addReplyLongLongWithPrefix_def REDIS_SHARED_BULKHDR_LEN_def header_at_ok frame_def\<close>)
  next
    case 2
    have "shared_text held w0 (bulkhdr (shared w0) ! nat ll) (resp p (ll_text ll))" using s j 2 by force
    then have "appends e held w0 (addReply e (bulkhdr (shared w0) ! nat ll)) (resp p (ll_text ll)) 1" by (rule addReply_shared [OF sh])
    then show ?thesis
      by (rule appends_cong) (use 2 j s in \<open>simp add: addReplyLongLongWithPrefix_def REDIS_SHARED_BULKHDR_LEN_def header_at_ok frame_def\<close>)
  qed
next
  case False
  let ?s = "resp p (ll_text ll)"
  have len: "length (ll_text ll) \<le> 20" using ll by (rule ll_text_length)
  have "appends e held w0 (addReplyString e ?s (int (length ?s))) (take (length ?s) ?s) 1"
    by (rule addReplyString_appends) (use len in \<open>simp_all add: resp_def CRLF_def\<close>)
  then have "appends e held w0 (addReplyString e ?s (int (length ?s))) ?s 1" by simp
  then show ?thesis
    by (rule appends_cong)
      (use False ll in \<open>auto simp: addReplyLongLongWithPrefix_def REDIS_SHARED_BULKHDR_LEN_def ll2string_text resp_def CRLF_def add.commute\<close>)
qed

lemma addReplyLongLong_appends:
  assumes sh: "shared_strings_ok held w0" and "is_ll ll"
  shows "appends e held w0 (addReplyLongLong e ll) (resp (CHR '':'') (ll_text ll)) 1"
proof -
  have t: "ll_text 0 = ''0''" "ll_text 1 = ''1''" by (simp add: ll_text_zero, code_simp)
  consider "ll = 0" | "ll = 1" | "ll \<noteq> 0" "ll \<noteq> 1" by blast
  then show ?thesis
  proof cases
    case 1
    have "appends e held w0 (addReply e (czero (shared w0))) (resp (CHR '':'') (ll_text ll)) 1"
      by (rule addReply_shared [OF sh]) (use sh 1 t in \<open>simp add: shared_strings_ok_def\<close>)
    then show ?thesis by (rule appends_cong) (simp add: addReplyLongLong_def 1 frame_def)
  next
    case 2
    have "appends e held w0 (addReply e (cone (shared w0))) (resp (CHR '':'') (ll_text ll)) 1"
      by (rule addReply_shared [OF sh]) (use sh 2 t in \<open>simp add: shared_strings_ok_def\<close>)
    then show ?thesis by (rule appends_cong) (simp add: addReplyLongLong_def 2 frame_def)
  next
    case 3
    have "appends e held w0 (addReplyLongLongWithPrefix e ll (CHR '':'')) (resp (CHR '':'') (ll_text ll)) 1"
      by (rule addReplyLongLongWithPrefix_appends [OF sh assms(2)]) simp
    then show ?thesis by (rule appends_cong) (simp add: addReplyLongLong_def 3)
  qed
qed

lemma digits_loop_acc: "length (digits_loop v acc) = length (digits_loop v []) + length acc"
proof (induction v arbitrary: acc rule: less_induct)
  case (less v)
  let ?c = "mkchar (48 + int (v mod 10))"
  show ?case
  proof (cases "v div 10 = 0")
    case True
    then show ?thesis by (simp add: digits_loop.simps [of v] Let_def)
  next
    case False
    then have lt: "v div 10 < v" by simp
    show ?thesis
      using less [OF lt, of "?c # acc"] less [OF lt, of "[?c]"] False by (simp add: digits_loop.simps [of v] Let_def)
  qed
qed

lemma digits_loop_Suc: "length (digits_loop v []) = (if v div 10 = 0 then 1 else length (digits_loop (v div 10) []) + 1)"
  using digits_loop_acc [of "v div 10" "[mkchar (48 + int (v mod 10))]"] by (simp add: digits_loop.simps [of v] Let_def)

lemma count_digits_step:
  "count_digits (int v) len = (if v div 10 \<noteq> 0 then count_digits (int (v div 10)) (len + 1) else len)"
  "count_digits (- int v) len = (if v div 10 \<noteq> 0 then count_digits (- int (v div 10)) (len + 1) else len)"
proof -
  have q: "int v div 10 = int (v div 10)" by (simp add: zdiv_int)
  have z: "int (v div 10) = 0 \<longleftrightarrow> v div 10 = 0" "- int (v div 10) = 0 \<longleftrightarrow> v div 10 = 0" by (simp_all only: of_nat_eq_0_iff neg_equal_0_iff_equal)
  have n: "(if - int v < 0 then - (- (- int v) div 10) else - int v div 10) = - int (v div 10)"
  proof (cases "v = 0")
    case False
    then have "- int v < 0" by simp
    then show ?thesis by (simp only: if_P minus_minus q)
  qed simp
  show "count_digits (int v) len = (if v div 10 \<noteq> 0 then count_digits (int (v div 10)) (len + 1) else len)"
    by (subst count_digits.simps) (simp only: Let_def q z(1) if_False of_nat_less_0_iff not_False_eq_True)
  show "count_digits (- int v) len = (if v div 10 \<noteq> 0 then count_digits (- int (v div 10)) (len + 1) else len)"
    by (subst count_digits.simps) (simp only: Let_def n z(2))
qed

lemma count_digits_loop:
  "count_digits (int v) len = len + int (length (digits_loop v [])) - 1 \<and>
   count_digits (- int v) len = len + int (length (digits_loop v [])) - 1"
proof (induction v arbitrary: len rule: less_induct)
  case (less v)
  show ?case
  proof (cases "v div 10 = 0")
    case True
    then show ?thesis unfolding count_digits_step [of v] digits_loop_Suc [of v] by simp
  next
    case False
    then have "v div 10 < v" by simp
    from less [OF this, of "len + 1"] False show ?thesis
      unfolding count_digits_step [of v] digits_loop_Suc [of v] by simp
  qed
qed

lemma count_digits_ll_text:
  assumes "is_ll n"
  shows "count_digits (if n < 0 then to_i64 (- n) else n) (if n < 0 then 2 else 1) = int (length (ll_text n))"
proof -
  define v where "v = nat \<bar>n\<bar>"
  have n: "n = (if n < 0 then - int v else int v)" "to_u64 (if n < 0 then - n else n) = int v"
    using to_u64_abs [OF assms] by (auto simp: v_def)
  have "to_i64 (- n) = int v \<or> to_i64 (- n) = - int v" if "n < 0"
  proof (cases "n = - 9223372036854775808")
    case True
    have "to_i64 9223372036854775808 = - 9223372036854775808" by code_simp
    then show ?thesis using True by (simp add: v_def)
  next
    case False
    then have "to_i64 (- n) = - n" using that assms by (simp add: ll_bounds cint)
    then show ?thesis using that by (simp add: v_def)
  qed
  then have "(if n < 0 then to_i64 (- n) else n) = int v \<or> (if n < 0 then to_i64 (- n) else n) = - int v" using n(1) by auto
  moreover have "int (length (ll_text n)) = (if n < 0 then 2 else 1) + int (length (digits_loop v [])) - 1"
    using n(2) by (cases "n < 0") (simp_all add: ll_text_def Let_def)
  ultimately show ?thesis using count_digits_loop [of v] by metis
qed

lemma addReplyBulkLen_appends:
  assumes sh: "shared_strings_ok held w0" and a: "a \<in> set held" "solid (heap w0) a" and st: "store_ok (heap w0) (held @ rs)"
  shows "appends e held w0 (addReplyBulkLen e a) (resp (CHR ''$'') (ll_text (int (length (text_at (heap w0) a))))) 1"
proof -
  let ?n = "int (length (text_at (heap w0) a))"
  obtain ob where ob: "objs (heap w0) a = Some ob" "str_ok ob" "text_at (heap w0) a = obj_text ob" using held_str [OF st a(2)] by blast
  have n: "is_ll ?n" and len: "rbind (obj_at (heap w0) a) (\<lambda>ob.
      if oencoding ob = REDIS_ENCODING_RAW then rbind (ptr_sds ob) (\<lambda>s. Inr (sdslen s))
      else rbind (ptr_long ob) (\<lambda>n. Inr (count_digits (if n < 0 then to_i64 (- n) else n) (if n < 0 then 2 else 1)))) = Inr ?n"
    using ob(2)
  proof (atomize (full), cases rule: str_ok_cases)
    case (1 s)
    obtain xs fr where s: "s = mk_sds xs fr" "length xs + length fr < 2147483648" using 1(4) by (rule sds_okE)
    then show "is_ll ?n \<and> rbind (obj_at (heap w0) a) (\<lambda>ob.
      if oencoding ob = REDIS_ENCODING_RAW then rbind (ptr_sds ob) (\<lambda>s. Inr (sdslen s))
      else rbind (ptr_long ob) (\<lambda>n. Inr (count_digits (if n < 0 then to_i64 (- n) else n) (if n < 0 then 2 else 1)))) = Inr ?n"
      using 1 ob by (simp add: ll_bounds)
  next
    case (2 m)
    have "?n = int (length (ll_text m))" using 2 ob by simp
    then show "is_ll ?n \<and> rbind (obj_at (heap w0) a) (\<lambda>ob.
      if oencoding ob = REDIS_ENCODING_RAW then rbind (ptr_sds ob) (\<lambda>s. Inr (sdslen s))
      else rbind (ptr_long ob) (\<lambda>n. Inr (count_digits (if n < 0 then to_i64 (- n) else n) (if n < 0 then 2 else 1)))) = Inr ?n"
      using 2 ob count_digits_ll_text [OF 2(4)] ll_text_length [OF 2(4)] by (simp add: ll_bounds)
  qed
  have "appends e held w0 (addReplyLongLongWithPrefix e ?n (CHR ''$'')) (resp (CHR ''$'') (ll_text ?n)) 1"
    by (rule addReplyLongLongWithPrefix_appends [OF sh n]) simp
  then show ?thesis
  proof (rule appends_cong)
    fix c :: "'a redisClient_scheme" and w
    assume fr: "frame held w0 w"
    then have "payload (heap w) a = payload (heap w0) a" using a(1) by (simp add: frame_def same_def)
    then obtain ob' where "objs (heap w) a = Some ob'" "oencoding ob' = oencoding ob" "optr ob' = optr ob"
      using ob(1) by (cases "objs (heap w) a") (auto simp: payload_def)
    then show "addReplyBulkLen e a c w = addReplyLongLongWithPrefix e ?n (CHR ''$'') c w"
      using len ob(1) by (cases "oencoding ob = REDIS_ENCODING_RAW") (auto simp: addReplyBulkLen_def ptr_sds_def ptr_long_def split: optr.splits)
  qed
qed

lemma addReplyBulk_appends:
  assumes sh: "shared_strings_ok held w0" and a: "a \<in> set held" "solid (heap w0) a" and st: "store_ok (heap w0) (held @ rs)"
  shows "appends e held w0 (addReplyBulk e a) (bulk (text_at (heap w0) a)) 3"
proof -
  have l: "length held < OUT_LIMIT" using sh by (simp add: shared_strings_ok_def)
  have "appends e held w0 (addReplyBulk e a)
      (resp (CHR ''$'') (ll_text (int (length (text_at (heap w0) a)))) @ text_at (heap w0) a @ CRLF) (1 + (1 + 1))"
    unfolding addReplyBulk_def
    by (intro andthen_appends addReplyBulkLen_appends [OF sh a st] addReply_appends [OF a l] crlf_appends [OF sh])
  then show ?thesis by (simp add: bulk_def numeral_3_eq_3)
qed

lemma addReplyText_appends: "length s < 2147483648 \<Longrightarrow> appends e held w0 (addReplyString e s (int (length s))) s 1"
  using addReplyString_appends [of "length s" s] by simp

lemma addReplyBulkCBuffer_appends:
  assumes sh: "shared_strings_ok held w0" and "n \<le> length p" and "n < 2147483648"
  shows "appends e held w0 (addReplyBulkCBuffer e p (int n)) (bulk (take n p)) 3"
proof -
  have "is_ll (int n)" using assms(3) by (simp add: ll_bounds)
  then have "appends e held w0 (addReplyBulkCBuffer e p (int n)) (resp (CHR ''$'') (ll_text (int n)) @ take n p @ CRLF) (1 + (1 + 1))"
    unfolding addReplyBulkCBuffer_def
    by (intro andthen_appends addReplyLongLongWithPrefix_appends [OF sh] addReplyString_appends assms(2,3) crlf_appends [OF sh]) simp_all
  then show ?thesis using assms(2) by (simp add: bulk_def numeral_3_eq_3 min_absorb2)
qed

text \<open>A terminated C string.\<close>

lemma strlen_cstr: "NUL \<in> set s \<Longrightarrow> strlen s = Inr (int (length (cstr s)))"
  by (simp add: strlen_def)

lemma take_cstr [simp]: "take (length (cstr s)) s = cstr s"
  unfolding cstr_def by (rule takeWhile_eq_take [symmetric])

lemma length_cstr: "length (cstr s) \<le> length s"
  by (simp add: cstr_def length_takeWhile_le)

definition null_bulk :: "char list" where
  "null_bulk = resp (CHR ''$'') ''-1''"

lemma addReplyBulkCString_appends:
  assumes sh: "shared_strings_ok held w0" and "case s of None \<Rightarrow> True | Some s \<Rightarrow> NUL \<in> set s \<and> length (cstr s) < 2147483648"
  shows "appends e held w0 (addReplyBulkCString e s) (case s of None \<Rightarrow> null_bulk | Some s \<Rightarrow> bulk (cstr s)) (case s of None \<Rightarrow> 1 | Some s \<Rightarrow> 3)"
proof (cases s)
  case None
  have "appends e held w0 (addReply e (nullbulk (shared w0))) null_bulk 1"
    by (rule addReply_shared [OF sh]) (use sh in \<open>simp add: shared_strings_ok_def null_bulk_def\<close>)
  then show ?thesis using None by (auto intro: appends_cong simp: addReplyBulkCString_def frame_def)
next
  case (Some t)
  have "appends e held w0 (addReplyBulkCBuffer e t (int (length (cstr t)))) (bulk (cstr t)) 3"
    using addReplyBulkCBuffer_appends [OF sh, of "length (cstr t)" t] assms(2) Some by (simp add: length_cstr)
  then have "appends e held w0 (addReplyBulkCString e s) (bulk (cstr t)) 3"
    by (rule appends_cong) (use Some assms(2) in \<open>simp add: addReplyBulkCString_def strlen_cstr\<close>)
  then show ?thesis using Some by simp
qed

lemma addReplyBulkLongLong_appends:
  assumes sh: "shared_strings_ok held w0" and "is_ll v"
  shows "appends e held w0 (addReplyBulkLongLong e v) (bulk (ll_text v)) 3"
proof -
  have "appends e held w0 (addReplyBulkCBuffer e (ll_text v @ [NUL]) (int (length (ll_text v)))) (bulk (ll_text v)) 3"
    using addReplyBulkCBuffer_appends [OF sh, of "length (ll_text v)" "ll_text v @ [NUL]"] ll_text_length [OF assms(2)] by simp
  then show ?thesis by (rule appends_cong) (use assms(2) in \<open>simp add: addReplyBulkLongLong_def ll2string_text\<close>)
qed

text \<open>Status and error lines.\<close>

lemma addReplyErrorLength_appends:
  assumes "n \<le> length s" and "n < 2147483648"
  shows "appends e held w0 (addReplyErrorLength e s (int n)) (resp (CHR ''-'') (''ERR '' @ take n s)) 3"
proof -
  have "appends e held w0 (addReplyString e ''-ERR '' 5) ''-ERR '' 1" "appends e held w0 (addReplyString e CRLF 2) CRLF 1"
    using addReplyText_appends [of "''-ERR ''" e held w0] addReplyText_appends [of CRLF e held w0] by (simp_all add: CRLF_def)
  from andthen_appends [OF this(1) andthen_appends [OF addReplyString_appends [OF assms] this(2)]]
  show ?thesis by (simp add: addReplyErrorLength_def resp_def numeral_3_eq_3)
qed

lemma addReplyError_appends:
  assumes "NUL \<in> set s" and "length (cstr s) < 2147483648"
  shows "appends e held w0 (addReplyError e s) (resp (CHR ''-'') (''ERR '' @ cstr s)) 3"
proof (rule appends_cong)
  show "appends e held w0 (addReplyErrorLength e s (int (length (cstr s)))) (resp (CHR ''-'') (''ERR '' @ cstr s)) 3"
    using addReplyErrorLength_appends [of "length (cstr s)" s e held w0] assms(2) by (simp add: length_cstr)
qed (use assms in \<open>simp add: addReplyError_def strlen_cstr\<close>)

lemma addReplyStatusLength_appends:
  assumes "n \<le> length s" and "n < 2147483648"
  shows "appends e held w0 (addReplyStatusLength e s (int n)) (resp (CHR ''+'') (take n s)) 3"
proof -
  have "appends e held w0 (addReplyString e ''+'' 1) ''+'' 1" "appends e held w0 (addReplyString e CRLF 2) CRLF 1"
    using addReplyText_appends [of "''+''" e held w0] addReplyText_appends [of CRLF e held w0] by (simp_all add: CRLF_def)
  from andthen_appends [OF this(1) andthen_appends [OF addReplyString_appends [OF assms] this(2)]]
  show ?thesis by (simp add: addReplyStatusLength_def resp_def numeral_3_eq_3)
qed

lemma addReplyStatus_appends:
  assumes "NUL \<in> set s" and "length (cstr s) < 2147483648"
  shows "appends e held w0 (addReplyStatus e s) (resp (CHR ''+'') (cstr s)) 3"
proof (rule appends_cong)
  show "appends e held w0 (addReplyStatusLength e s (int (length (cstr s)))) (resp (CHR ''+'') (cstr s)) 3"
    using addReplyStatusLength_appends [of "length (cstr s)" s e held w0] assms(2) by (simp add: length_cstr)
qed (use assms in \<open>simp add: addReplyStatus_def strlen_cstr\<close>)

text \<open>The formatted variants; line breaks in an error message become spaces.\<close>

definition one_line :: "char list \<Rightarrow> char list" where
  "one_line s = map (\<lambda>ch. if ch = CHR 0x0D \<or> ch = CHR 0x0A then CHR '' '' else ch) s"

lemma sdscatvprintf_empty:
  assumes "int (length (cstr t)) < SDS_LIMIT"
  obtains fr where "sdscatvprintf g (mk_sds [] []) t = Inr (mk_sds (cstr t) fr)" "length (cstr t) + length fr < 2147483648"
proof -
  have "yields (sdscatvprintf g (mk_sds [] []) t) (cstr t)"
    using sdscatprintf_ok [of "mk_sds [] []" t g] assms by (simp add: sdscatprintf_def)
  then obtain s where "sdscatvprintf g (mk_sds [] []) t = Inr s" "sds_ok s" "sds_str s = cstr t" by (auto simp: yields_iff)
  then show thesis using that by (auto elim!: sds_okE)
qed

lemma addReplyErrorFormat_appends:
  assumes "int (length (cstr t)) < SDS_LIMIT"
  shows "appends e held w0 (addReplyErrorFormat e t) (resp (CHR ''-'') (''ERR '' @ one_line (cstr t))) 3"
proof -
  obtain fr where s: "sdscatvprintf (fresh e) (mk_sds [] []) t = Inr (mk_sds (cstr t) fr)" "length (cstr t) + length fr < 2147483648"
    using sdscatvprintf_empty [OF assms] .
  let ?b = "one_line (cstr t) @ NUL # fr"
  have "appends e held w0 (addReplyErrorLength e ?b (int (length (cstr t)))) (resp (CHR ''-'') (''ERR '' @ take (length (cstr t)) ?b)) 3"
    by (rule addReplyErrorLength_appends) (use s(2) in \<open>simp_all add: one_line_def\<close>)
  moreover have "take (length (cstr t)) ?b = one_line (cstr t)" by (simp add: one_line_def)
  ultimately have "appends e held w0 (addReplyErrorLength e ?b (int (length (cstr t)))) (resp (CHR ''-'') (''ERR '' @ one_line (cstr t))) 3" by simp
  then show ?thesis
    by (rule appends_cong) (use s in \<open>simp add: addReplyErrorFormat_def sdsempty_ok Let_def one_line_def sdslen_def cint\<close>)
qed

lemma addReplyStatusFormat_appends:
  assumes "int (length (cstr t)) < SDS_LIMIT"
  shows "appends e held w0 (addReplyStatusFormat e t) (resp (CHR ''+'') (cstr t)) 3"
proof -
  obtain fr where s: "sdscatvprintf (fresh e) (mk_sds [] []) t = Inr (mk_sds (cstr t) fr)" "length (cstr t) + length fr < 2147483648"
    using sdscatvprintf_empty [OF assms] .
  have "appends e held w0 (addReplyStatusLength e (cstr t @ NUL # fr) (int (length (cstr t)))) (resp (CHR ''+'') (cstr t)) 3"
    using addReplyStatusLength_appends [of "length (cstr t)" "cstr t @ NUL # fr"] s(2) by simp
  then show ?thesis
    by (rule appends_cong) (use s in \<open>simp add: addReplyStatusFormat_def sdsempty_ok\<close>)
qed

section \<open>Writing to the socket\<close>

text \<open>No length is pending while the event loop writes.\<close>

definition sending :: "nenv \<Rightarrow> nat list \<Rightarrow> nat \<Rightarrow> ('a redisClient_scheme) \<Rightarrow> nworld \<Rightarrow> bool" where
  "sending e held k c w \<longleftrightarrow> client_ok e held k c w \<and> open_client e c \<and> (\<forall>a\<in>set (reply c). solid (heap w) a)"

text \<open>Bytes move from the output to the socket, and nothing else happens.\<close>

definition flushed :: "nenv \<Rightarrow> nat list \<Rightarrow> nat \<Rightarrow> ('a redisClient_scheme) \<times> nworld \<Rightarrow> ('a redisClient_scheme) \<Rightarrow> nworld \<Rightarrow> bool" where
  "flushed e held k = (\<lambda>(c, w) c' w'. sending e held k c' w' \<and> same (heap w) (heap w') (set held) \<and> shared w' = shared w \<and>
     map Inl (sock w') @ out c' w' = map Inl (sock w) @ out c w)"

lemma flushed_trans: "flushed e held k (c, w) c1 w1 \<Longrightarrow> flushed e held k (c1, w1) c2 w2 \<Longrightarrow> flushed e held k (c, w) c2 w2"
  by (auto simp: flushed_def same_def)

lemma flushed_refl: "sending e held k c w \<Longrightarrow> flushed e held k (c, w) c w"
  by (simp add: flushed_def)

lemma client_sock [simp]: "client_ok e held k c (w\<lparr>sock := x\<rparr>) = client_ok e held k c w"
  by (simp add: client_ok_def sent_ok_def)

lemma flush_buffer:
  assumes s: "sending e held k c w" and b: "bufpos c > 0" and n: "n \<le> bufpos c - sentlen c" "0 < n"
  shows "flushed e held k (c, w) (if sentlen c + n = bufpos c then c\<lparr>bufpos := 0, sentlen := 0\<rparr> else c\<lparr>sentlen := sentlen c + n\<rparr>)
    (w\<lparr>sock := sock w @ take n (drop (sentlen c) (take (bufpos c) (buf c)))\<rparr>)"
proof -
  have c: "client_ok e held k c w" and o: "open_client e c" and so: "\<forall>a\<in>set (reply c). solid (heap w) a"
    using s by (simp_all add: sending_def)
  note ok = client_okD [OF c]
  define B where "B = take (bufpos c) (buf c)"
  define R where "R = concat (map (cell (heap w)) (reply c))"
  have len: "length B = bufpos c" "sentlen c < bufpos c" using ok(3,4,11) b by (simp_all add: B_def sent_ok_def)
  have out: "out c w = map Inl (drop (sentlen c) B) @ R" using len by (simp add: out_def B_def [symmetric] R_def drop_map)
  have split: "drop (sentlen c) B = take n (drop (sentlen c) B) @ drop (sentlen c + n) B"
    by (metis add.commute append_take_drop_id drop_drop)
  show ?thesis
  proof (cases "sentlen c + n = bufpos c")
    case True
    then have "out c w = map Inl (take n (drop (sentlen c) B)) @ R" using out split len by simp
    then show ?thesis
      using True c o so by (simp add: flushed_def sending_def B_def [symmetric] client_ok_def sent_ok_def open_client_def has_flag_def)
        (simp add: out_def R_def)
  next
    case False
    have "map Inl (take n (drop (sentlen c) B)) @ map Inl (drop (sentlen c + n) B) @ R = out c w"
      using split by (metis append.assoc map_append out)
    moreover have "out (c\<lparr>sentlen := sentlen c + n\<rparr>) w' = map Inl (drop (sentlen c + n) B) @ R" if "heap w' = heap w" for w'
      using n len that by (simp add: out_def B_def [symmetric] R_def drop_map)
    ultimately show ?thesis
      using False c o so n b by (simp add: flushed_def sending_def B_def [symmetric] client_ok_def sent_ok_def open_client_def has_flag_def)
  qed
qed

lemma pop_object:
  assumes s: "sending e held k c w" and b: "bufpos c = 0" and r: "reply c = a # rest"
  shows "\<exists>h. decrRefCount a (heap w) = Inr h \<and> same (heap w) h (set held) \<and>
    (\<forall>B. list_bytes e (heap w) rest \<le> B \<and> B \<le> reply_bytes c \<longrightarrow>
       sending e held k (c\<lparr>reply := rest, sentlen := 0, reply_bytes := B\<rparr>) (w\<lparr>heap := h\<rparr>) \<and>
       out (c\<lparr>reply := rest, sentlen := 0, reply_bytes := B\<rparr>) (w\<lparr>heap := h\<rparr>) = concat (map (cell (heap w)) rest))"
proof -
  have c: "client_ok e held k c w" and o: "open_client e c" and so: "\<forall>a\<in>set (reply c). solid (heap w) a"
    using s by (simp_all add: sending_def)
  note ok = client_okD [OF c]
  have "mset (held @ reply c) = add_mset a (mset (held @ rest))" using r by simp
  from decr_ok [OF ok(1) this] obtain h where h: "decrRefCount a (heap w) = Inr h" "store_ok h (held @ rest)"
    "same (heap w) h (set (held @ rest))" by (auto intro: same_mono)
  have rest: "same (heap w) h (set rest)" "same (heap w) h (set held)" using same_mono [OF h(3)] by auto
  have "\<forall>x\<in>set rest. is_raw h x \<and> solid h x"
    using ok(2) so r rest(1) is_raw_eq [of h _ "heap w"] payload_eq [of h _ "heap w"] by (auto simp: same_def)
  then show ?thesis
    using h(1,2) ok o b r rest same_bytes [OF rest(1) order_refl, of e]
    by (intro exI [of _ h]) (auto simp: sending_def client_ok_def sent_ok_def open_client_def has_flag_def out_def same_cells [OF rest(1) order_refl])
qed

lemma head_object:
  assumes s: "sending e held k c w" and b: "bufpos c = 0" and r: "reply c = a # rest"
  obtains ob sd where "obj_at (heap w) a = Inr ob" "ptr_sds ob = Inr sd" "sdslen sd = int (length (text_at (heap w) a))"
    "take (nat (sdslen sd)) (sh_buf sd) = text_at (heap w) a" "payload (heap w) a = Some (REDIS_ENCODING_RAW, PSds sd)"
    "out c w = map Inl (drop (sentlen c) (text_at (heap w) a)) @ concat (map (cell (heap w)) rest)"
    "sentlen c < length (text_at (heap w) a) \<or> sentlen c = 0"
proof -
  have c: "client_ok e held k c w" and so: "solid (heap w) a" using s r by (simp_all add: sending_def)
  note ok = client_okD [OF c]
  have raw: "is_raw (heap w) a" using ok(2) r by simp
  obtain ob sd where ob: "objs (heap w) a = Some ob" "optr ob = PSds sd" "sds_ok sd" "text_at (heap w) a = sds_str sd"
    "payload (heap w) a = Some (REDIS_ENCODING_RAW, PSds sd)" using raw_sds [OF ok(1) raw so] by metis
  obtain xs fr where sd: "sd = mk_sds xs fr" "length xs + length fr < 2147483648" using ob(3) by (rule sds_okE)
  have sl: "sentlen c < length (text_at (heap w) a) \<or> sentlen c = 0" using ok(11) b r by (auto simp: sent_ok_def)
  then have "out c w = map Inl (drop (sentlen c) (text_at (heap w) a)) @ concat (map (cell (heap w)) rest)"
    using b r so by (auto simp: out_def drop_map)
  then show thesis using that ob sd sl by simp
qed

lemma do_write_cases:
  assumes "\<not> has_flag c REDIS_MASTER"
  obtains ans' again where "do_write c chunk left ans w = (Inl again, ans', w)" "again \<or> Broken \<in> set ans"
  | n ans' where "do_write c chunk left ans w = (Inr (int n), ans', w\<lparr>sock := sock w @ take n chunk\<rparr>)" "n \<le> length chunk"
      "set ans' \<subseteq> set ans" "length ans' < length ans"
proof (cases ans)
  case (Cons x xs)
  then show thesis
  proof (cases x)
    case (Accept j)
    then show thesis using that(2) [of "min j (length chunk)" xs] assms Cons by (auto simp: do_write_def Let_def)
  qed (use that(1) assms Cons in \<open>auto simp: do_write_def\<close>)
qed (use that(1) assms in \<open>auto simp: do_write_def\<close>)

lemma flush_object:
  assumes s: "sending e held k c w" and b: "bufpos c = 0" and r: "reply c = a # rest"
    and n: "n \<le> length (text_at (heap w) a) - sentlen c" "0 < n" "sentlen c + n \<noteq> length (text_at (heap w) a)"
  shows "flushed e held k (c, w) (c\<lparr>sentlen := sentlen c + n\<rparr>)
    (w\<lparr>sock := sock w @ take n (drop (sentlen c) (text_at (heap w) a))\<rparr>)"
proof -
  define T where "T = text_at (heap w) a"
  have c: "client_ok e held k c w" and o: "open_client e c" and so: "\<forall>a\<in>set (reply c). solid (heap w) a"
    using s by (simp_all add: sending_def)
  have sl: "sentlen c + n < length T" using n by (simp add: T_def)
  have sa: "solid (heap w) a" using so r by simp
  have "drop (sentlen c) T = take n (drop (sentlen c) T) @ drop (sentlen c + n) T"
    by (metis add.commute append_take_drop_id drop_drop)
  then have "map Inl (drop (sentlen c) T) = (map Inl (take n (drop (sentlen c) T)) :: (char + nat) list) @ map Inl (drop (sentlen c + n) T)"
    by (metis map_append)
  then show ?thesis
    using c o so b r sl sa unfolding flushed_def sending_def
    by (simp add: client_ok_def sent_ok_def open_client_def has_flag_def out_def T_def drop_map)
qed

lemma drop_all_bytes: "sending e held k c w \<Longrightarrow> bufpos c = 0 \<Longrightarrow> reply c = a # rest \<Longrightarrow>
    payload (heap w) a = Some (REDIS_ENCODING_RAW, PSds sd) \<Longrightarrow>
    list_bytes e (heap w) rest \<le> reply_bytes c - zmalloc_size_sds e sd \<and> to_u64 (reply_bytes c - zmalloc_size_sds e sd) =
      reply_bytes c - zmalloc_size_sds e sd \<and> reply_bytes c - zmalloc_size_sds e sd \<le> reply_bytes c \<and> list_bytes e (heap w) rest \<le> reply_bytes c"
proof -
  assume s: "sending e held k c w" "reply c = a # rest" and p: "payload (heap w) a = Some (REDIS_ENCODING_RAW, PSds sd)"
  have u: "usable_ok e" using s(1) by (simp add: sending_def open_client_def)
  have ok: "list_bytes e (heap w) (reply c) \<le> reply_bytes c" "reply_bytes c \<le> int k * 2 ^ 32" "k \<le> OUT_LIMIT"
    using s(1) by (simp_all add: sending_def client_ok_def)
  have "zmalloc_size_sds e sd + list_bytes e (heap w) rest \<le> reply_bytes c" using ok(1) s(2) p by (simp add: list_bytes_def)
  moreover have "0 \<le> zmalloc_size_sds e sd" using u by (simp add: usable_ok_def)
  ultimately show ?thesis using list_bytes_nonneg [OF u, of "heap w" rest] ok(2) budget_bound [OF ok(3)] by (simp add: cint)
qed

lemma send_loop_ok:
  "sending e held k c w \<Longrightarrow> \<exists>ok c' w'. send_loop e ans tot c w = Inr (ok, c', w') \<and> flushed e held k (c, w) c' w' \<and> (ok \<or> Broken \<in> set ans)"
proof (induction "length ans + length (reply c) + (if bufpos c > 0 then 1 else 0)" arbitrary: ans tot c w rule: less_induct)
  case less
  note s = less.prems
  have nm: "\<not> has_flag c REDIS_MASTER" using s by (simp add: sending_def open_client_def)
  have go: "\<exists>ok c2 w2. (if enough_written e w1 tot' then Inr (True, c1, w1) else send_loop e ans' tot' c1 w1) = Inr (ok, c2, w2) \<and>
      flushed e held k (c, w) c2 w2 \<and> (ok \<or> Broken \<in> set ans)"
    if fl: "flushed e held k (c, w) c1 w1" and m: "length ans' + length (reply c1) + (if bufpos c1 > 0 then 1 else 0) <
        length ans + length (reply c) + (if bufpos c > 0 then 1 else (0::nat))" and sub: "set ans' \<subseteq> set ans" for c1 w1 ans' tot'
  proof (cases "enough_written e w1 tot'")
    case True
    then show ?thesis using fl by auto
  next
    case False
    have "sending e held k c1 w1" using fl by (simp add: flushed_def)
    from less.hyps [OF m this, of tot'] obtain ok c2 w2 where "send_loop e ans' tot' c1 w1 = Inr (ok, c2, w2)"
      "flushed e held k (c1, w1) c2 w2" "ok \<or> Broken \<in> set ans'" by blast
    then show ?thesis using False flushed_trans [OF fl] sub by auto
  qed
  show ?case
  proof (cases "bufpos c > 0")
    case b: True
    let ?chunk = "drop (sentlen c) (take (bufpos c) (buf c))" and ?left = "int (bufpos c) - int (sentlen c)"
    show ?thesis
    proof (cases rule: do_write_cases [OF nm, where chunk = ?chunk and left = ?left and ans = ans and w = w])
      case (1 ans' again)
      then show ?thesis using b s by (subst send_loop.simps) (auto simp: flushed_refl)
    next
      case (2 n ans')
      show ?thesis
      proof (cases "n = 0")
        case True
        then show ?thesis using 2 b s nm by (subst send_loop.simps) (auto simp: flushed_refl)
      next
        case False
        let ?w = "w\<lparr>sock := sock w @ take n ?chunk\<rparr>"
        let ?c = "if sentlen c + n = bufpos c then c\<lparr>bufpos := 0, sentlen := 0\<rparr> else c\<lparr>sentlen := sentlen c + n\<rparr>"
        have n: "n \<le> bufpos c - sentlen c" "0 < n" using 2(2) False by auto
        have st: "nat (int (sentlen c) + int n) = sentlen c + n" by simp
        have "send_loop e ans tot c w =
          (if enough_written e ?w (tot + int n) then Inr (True, ?c, ?w) else send_loop e ans' (tot + int n) ?c ?w)"
          using False nm unfolding send_loop.simps [of e ans tot c w] if_P [OF b] 2(1) by (simp add: Let_def st)
        then show ?thesis using go [OF flush_buffer [OF s b n], of ans' "tot + int n"] 2(3,4) b by auto
      qed
    qed
  next
    case nb: False
    then have b: "bufpos c = 0" by simp
    show ?thesis
    proof (cases "reply c")
      case Nil
      then show ?thesis using b s by (subst send_loop.simps) (auto simp: flushed_refl)
    next
      case (Cons a rest)
      obtain ob sd where ob: "obj_at (heap w) a = Inr ob" "ptr_sds ob = Inr sd" "sdslen sd = int (length (text_at (heap w) a))"
        "take (nat (sdslen sd)) (sh_buf sd) = text_at (heap w) a" "payload (heap w) a = Some (REDIS_ENCODING_RAW, PSds sd)"
        "out c w = map Inl (drop (sentlen c) (text_at (heap w) a)) @ concat (map (cell (heap w)) rest)"
        "sentlen c < length (text_at (heap w) a) \<or> sentlen c = 0"
        using head_object [OF s b Cons] .
      define T where "T = text_at (heap w) a"
      note ob = ob [folded T_def]
      obtain h where h: "decrRefCount a (heap w) = Inr h" "same (heap w) h (set held)"
        "\<And>B. list_bytes e (heap w) rest \<le> B \<Longrightarrow> B \<le> reply_bytes c \<Longrightarrow>
           sending e held k (c\<lparr>reply := rest, sentlen := 0, reply_bytes := B\<rparr>) (w\<lparr>heap := h\<rparr>) \<and>
           out (c\<lparr>reply := rest, sentlen := 0, reply_bytes := B\<rparr>) (w\<lparr>heap := h\<rparr>) = concat (map (cell (heap w)) rest)"
        using pop_object [OF s b Cons] by blast
      note bb = drop_all_bytes [OF s b Cons ob(5)]
      show ?thesis
      proof (cases "T = []")
        case True
        let ?c = "c\<lparr>reply := rest\<rparr>" and ?w = "w\<lparr>heap := h\<rparr>"
        have "sentlen c = 0" using ob(7) True by simp
        then have cc: "c\<lparr>reply := rest, sentlen := 0, reply_bytes := reply_bytes c\<rparr> = ?c" by simp
        have "flushed e held k (c, w) ?c ?w"
          using h(3) [of "reply_bytes c", unfolded cc] bb ob(6) True h(2) by (simp add: flushed_def)
        moreover have "send_loop e ans tot c w = send_loop e ans tot ?c ?w"
          using True ob Cons b h(1) by (subst send_loop.simps) (simp add: Let_def)
        ultimately show ?thesis using less.hyps [of ans ?c ?w tot] Cons b flushed_trans [of e held k c w ?c ?w] by (auto simp: flushed_def)
      next
        case ne: False
        let ?chunk = "drop (sentlen c) T" and ?left = "sdslen sd - int (sentlen c)"
        have ne': "sdslen sd \<noteq> 0" using ne ob(3) by simp
        show ?thesis
        proof (cases rule: do_write_cases [OF nm, where chunk = ?chunk and left = ?left and ans = ans and w = w])
          case (1 ans' again)
          then show ?thesis using b s Cons ob(1,2,4) ne' by (subst send_loop.simps) (simp add: flushed_refl Let_def)
        next
          case (2 n ans')
          show ?thesis
          proof (cases "n = 0")
            case True
            then show ?thesis using 2 b s nm Cons ob(1,2,4) ne' by (subst send_loop.simps) (auto simp: flushed_refl Let_def)
          next
            case n0: False
            let ?w = "w\<lparr>sock := sock w @ take n ?chunk\<rparr>"
            have st: "nat (int (sentlen c) + int n) = sentlen c + n" by simp
            show ?thesis
            proof (cases "sentlen c + n = length T")
              case True
              let ?B = "reply_bytes c - zmalloc_size_sds e sd"
              let ?c = "c\<lparr>reply := rest, sentlen := 0, reply_bytes := ?B\<rparr>" and ?w1 = "?w\<lparr>heap := h\<rparr>"
              have "send_loop e ans tot c w =
                (if enough_written e ?w1 (tot + int n) then Inr (True, ?c, ?w1) else send_loop e ans' (tot + int n) ?c ?w1)"
                using b nm Cons ob(1-4) ne' 2(1) n0 h(1) True bb by (subst send_loop.simps) (simp add: Let_def st)
              moreover have "sending e held k ?c (w\<lparr>heap := h\<rparr>)" "out ?c (w\<lparr>heap := h\<rparr>) = concat (map (cell (heap w)) rest)"
                using h(3) [of ?B] bb by simp_all
              then have "flushed e held k (c, w) ?c ?w1"
                using h(2) ob(6) True by (simp add: flushed_def sending_def out_def client_ok_def sent_ok_def)
              ultimately show ?thesis using go [of ?c ?w1 ans' "tot + int n"] 2(3,4) Cons b by auto
            next
              case False
              let ?c = "c\<lparr>sentlen := sentlen c + n\<rparr>"
              have "send_loop e ans tot c w =
                (if enough_written e ?w (tot + int n) then Inr (True, ?c, ?w) else send_loop e ans' (tot + int n) ?c ?w)"
                using b nm Cons ob(1-4) ne' 2(1) n0 False by (subst send_loop.simps) (simp add: Let_def st)
              moreover have "flushed e held k (c, w) ?c ?w"
                using flush_object [OF s b Cons, of n] 2(2) n0 False by (simp add: T_def)
              ultimately show ?thesis using go [of ?c ?w ans' "tot + int n"] 2(3,4) Cons b by auto
            qed
          qed
        qed
      qed
    qed
  qed
qed

lemma sendReplyToClient_ok:
  assumes "sending e held k c w"
  shows "\<exists>closed c' w'. sendReplyToClient e ans c w = Inr (closed, c', w') \<and> flushed e held k (c, w) c' w' \<and> (closed \<longrightarrow> Broken \<in> set ans)"
proof -
  obtain ok c' w' where r: "send_loop e ans 0 c w = Inr (ok, c', w')" "flushed e held k (c, w) c' w'" "ok \<or> Broken \<in> set ans"
    using send_loop_ok [OF assms, of ans 0] by blast
  have s: "sending e held k c' w'" using r(2) by (simp add: flushed_def)
  then have nf: "\<not> has_flag c' REDIS_CLOSE_AFTER_REPLY" by (simp add: sending_def open_client_def)
  show ?thesis
  proof (cases "ok \<and> bufpos c' = 0 \<and> reply c' = []")
    case True
    then have "sentlen c' = 0" using s by (auto simp: sending_def client_ok_def sent_ok_def)
    then have "c'\<lparr>sentlen := 0\<rparr> = c'" by simp
    then have "sendReplyToClient e ans c w = Inr (False, c', w')" using True r(1) nf by (simp add: sendReplyToClient_def)
    then show ?thesis using r(2) by blast
  next
    case False
    then have "sendReplyToClient e ans c w = Inr (\<not> ok, c', w')" using r(1) by (auto simp: sendReplyToClient_def)
    then show ?thesis using r(2,3) by blast
  qed
qed

section \<open>Lengths that are known later\<close>

lemma addDeferred_ok:
  assumes c: "client_ok e held k c w" and o: "open_client e c" and k: "k + 1 \<le> OUT_LIMIT"
  obtains d c' w' where "addDeferredMultiBulkLength e c w = (Some d, c', w')" "client_ok e held (k + 1) c' w'" "open_client e c'"
    "frame held w w'" "out c' w' = out c w @ [Inr d]" "d \<notin> set held" "Inr d \<notin> set (out c w)"
proof -
  note ok = client_okD [OF c]
  let ?ob = "\<lparr>otype = REDIS_STRING, oencoding = REDIS_ENCODING_RAW, lru = lruclock (heap w), refcount = 1, optr = PNull\<rparr>"
  define d where "d = nextobj (heap w)"
  define h where "h = (store (heap w) d ?ob)\<lparr>nextobj := d + 1\<rparr>"
  let ?c = "c\<lparr>reply := reply c @ [d]\<rparr>" and ?w = "w\<lparr>heap := h\<rparr>"
  have h: "store_ok h ((held @ reply c) @ [d])" "same (heap w) h (set (held @ reply c))"
    using create_ok [OF ok(1) held_room [OF c], of ?ob] by (auto simp: cell_ok_def h_def d_def)
  have new: "createObject REDIS_STRING PNull (heap w) = (d, h)" by (simp add: createObject_def Let_def h_def d_def)
  have fresh: "d \<notin> set (held @ reply c)"
  proof
    assume "d \<in> set (held @ reply c)"
    then obtain ob where "objs (heap w) d = Some ob" using held_live [OF ok(1), of d] by blast
    then show False using ok(1) by (auto simp: store_ok_def d_def)
  qed
  have hole: "cell h d = [Inr d]" "is_raw h d" "ptr_bytes e (payload h d) = 0"
    by (simp_all add: cell_def solid_def is_raw_def payload_def h_def)
  have r: "same (heap w) h (set (reply c))" "same (heap w) h (set held)" using same_mono [OF h(2)] by auto
  let ?A = "map Inl (take (bufpos c) (buf c)) @ concat (map (cell (heap w)) (reply c))"
  have "map Inl (take (bufpos c) (buf c)) @ concat (map (cell h) (reply c @ [d])) = ?A @ [Inr d]"
    using hole(1) by (simp add: same_cells [OF r(1) order_refl])
  then have "out ?c ?w = drop (sentlen c) (?A @ [Inr d])" by (simp add: out_def)
  then have out: "out ?c ?w = out c w @ [Inr d]" using sent_le [OF ok(11,3,4)] by (simp only: out_def drop_append) simp
  have "\<forall>b\<in>set (reply c). is_raw h b" using ok(2) r(1) is_raw_eq [of h _ "heap w"] by (auto simp: same_def)
  moreover have "sent_ok ?c ?w"
    using ok(11) same_map [OF r(1) order_refl] by (cases "reply c") (auto simp: sent_ok_def split: if_splits)
  ultimately have "client_ok e held (k + 1) ?c ?w"
    using ok h(1) hole(2,3) k same_bytes [OF r(1) order_refl, of e] by (simp add: client_ok_def)
  moreover have "addDeferredMultiBulkLength e c w = (Some d, ?c, ?w)"
    using prepare_open [OF o] by (simp add: addDeferredMultiBulkLength_def new)
  moreover have "Inr d \<notin> set (out c w)"
  proof
    assume "Inr d \<in> set (out c w)"
    then have "Inr d \<in> set ?A" unfolding out_def by (rule in_set_dropD)
    then show False using fresh by (auto simp: cell_def split: if_splits)
  qed
  ultimately show thesis using that [of d ?c ?w] out r(2) fresh o by (simp add: frame_def open_client_def has_flag_def)
qed

lemma set_hole_ok:
  assumes st: "store_ok h (xs @ [d])" and d: "d \<notin> set xs" "is_raw h d" "\<not> solid h d" and t: "sds_ok t"
  obtains ob where "objs h d = Some ob" "oencoding ob = REDIS_ENCODING_RAW" "store_ok (store h d (ob\<lparr>optr := PSds t\<rparr>)) (xs @ [d])"
    "same h (store h d (ob\<lparr>optr := PSds t\<rparr>)) (set xs)" "payload (store h d (ob\<lparr>optr := PSds t\<rparr>)) d = Some (REDIS_ENCODING_RAW, PSds t)"
    "text_at (store h d (ob\<lparr>optr := PSds t\<rparr>)) d = sds_str t" "optr ob = PNull"
proof -
  obtain ob where ob: "objs h d = Some ob" using held_live [OF st, of d] by auto
  then have "oencoding ob = REDIS_ENCODING_RAW" "optr ob = PNull" using d(2,3) by (simp_all add: is_raw_def payload_def solid_def)
  then show thesis using that [OF ob] set_text_ok [OF st d(1) ob _ t] by simp
qed

lemma cells_text: "concat (map (cell h) ys) = map Inl t \<Longrightarrow> (\<forall>y\<in>set ys. solid h y) \<and> concat (map (text_at h) ys) = t"
proof (induction ys arbitrary: t)
  case (Cons y ys)
  then obtain t1 t2 where t: "t = t1 @ t2" "cell h y = map Inl t1" "concat (map (cell h) ys) = map Inl t2"
    by (auto simp: append_eq_map_conv)
  have "solid h y" using t(2) by (cases t1) (auto simp: cell_def split: if_splits)
  moreover have "text_at h y = t1" using t(2) \<open>solid h y\<close> by (simp add: inj_map_eq_map)
  ultimately show ?case using Cons.IH [OF t(3)] t(1) by simp
qed simp

lemma locate_hole:
  assumes c: "client_ok e held k c w" and out: "out c w = A @ Inr d # map Inl t" and d: "Inr d \<notin> set A"
  obtains xs ys where "reply c = xs @ d # ys" "d \<notin> set xs" "d \<notin> set ys" "\<not> solid (heap w) d" "\<forall>y\<in>set ys. solid (heap w) y"
    "concat (map (text_at (heap w)) ys) = t" "drop (sentlen c) (map Inl (take (bufpos c) (buf c)) @ concat (map (cell (heap w)) xs)) = A"
    "sentlen c \<le> length (map Inl (take (bufpos c) (buf c)) @ concat (map (cell (heap w)) xs))"
proof -
  note ok = client_okD [OF c]
  let ?B = "map Inl (take (bufpos c) (buf c)) :: (char + nat) list"
  have "Inr d \<in> set (?B @ concat (map (cell (heap w)) (reply c)))"
    using out unfolding out_def by (metis in_set_conv_decomp in_set_dropD)
  then have in': "d \<in> set (reply c)" "\<not> solid (heap w) d" by (auto simp: cell_def split: if_splits)
  then obtain xs ys where r: "reply c = xs @ d # ys" "d \<notin> set xs" by (meson split_list_first)
  let ?P = "?B @ concat (map (cell (heap w)) xs)"
  have sl: "sentlen c \<le> length ?P"
  proof (cases "bufpos c > 0 \<or> sentlen c = 0")
    case True
    then show ?thesis using ok(3,4,11) by (auto simp: sent_ok_def)
  next
    case False
    then have s: "sentlen c < length (text_at (heap w) (hd (reply c)))" using ok(11) by (auto simp: sent_ok_def split: if_splits)
    then have "hd (reply c) \<noteq> d" using hole_text [OF in'(2)] by auto
    then obtain x xs' where xs: "xs = x # xs'" using r by (cases xs) auto
    have "text_at (heap w) x \<noteq> []" using s r xs by auto
    then have "solid (heap w) x" using hole_text [of "heap w" x] by blast
    then show ?thesis using s xs r by simp
  qed
  have P: "Inr d \<notin> set ?P" using r(2) by (auto simp: cell_def split: if_splits)
  have "?B @ concat (map (cell (heap w)) (reply c)) = ?P @ Inr d # concat (map (cell (heap w)) ys)" using r in'(2) by (simp add: cell_def)
  then have "out c w = drop (sentlen c) ?P @ Inr d # concat (map (cell (heap w)) ys)" using sl by (simp add: out_def)
  then have "A @ Inr d # map Inl t = drop (sentlen c) ?P @ Inr d # concat (map (cell (heap w)) ys)" using out by simp
  moreover have "Inr d \<notin> set (map Inl t)" by auto
  ultimately have "A = drop (sentlen c) ?P \<and> map Inl t = concat (map (cell (heap w)) ys)"
    using append_Cons_eq_iff [OF d] by blast
  then have eq: "A = drop (sentlen c) ?P" "map Inl t = concat (map (cell (heap w)) ys)" by blast+
  have ys: "\<forall>y\<in>set ys. solid (heap w) y" "concat (map (text_at (heap w)) ys) = t" using cells_text [OF eq(2) [symmetric]] by auto
  then have "d \<notin> set ys" using in'(2) by auto
  then show thesis using that r in'(2) ys eq(1) sl by metis
qed

lemma list_bytes_Cons: "list_bytes e h (a # as) = ptr_bytes e (payload h a) + list_bytes e h as"
  by (simp add: list_bytes_def)

text \<open>The length object takes over the text of the next one.\<close>

lemma glue_next_ok:
  assumes st: "store_ok h (held @ xs @ d # ys)" and r: "reply c = xs @ d # ys" and d: "d \<notin> set xs" "d \<notin> set ys" "d \<notin> set held"
    and raw: "\<forall>b\<in>set ys. is_raw h b \<and> solid h b" and s: "payload h d = Some (REDIS_ENCODING_RAW, PSds s)" "sds_ok s"
    and len: "int (length (sds_str s) + length (concat (map (text_at h) ys))) < SDS_LIMIT"
    and b: "list_bytes e h (xs @ d # ys) \<le> reply_bytes c" "reply_bytes c \<le> M" "M \<le> 2 ^ 61" and u: "usable_ok e"
  shows "\<exists>h' zs B. glue_next e d s c (w\<lparr>heap := h\<rparr>) = Inr (c\<lparr>reply := xs @ d # zs, reply_bytes := B\<rparr>, w\<lparr>heap := h'\<rparr>) \<and>
    store_ok h' (held @ xs @ d # zs) \<and> set zs \<subseteq> set ys \<and> length zs \<le> length ys \<and> same h h' (set (held @ xs @ zs)) \<and>
    list_bytes e h' (xs @ d # zs) \<le> B \<and> B \<le> M + 2 ^ 32 \<and> is_raw h' d \<and> solid h' d \<and>
    text_at h' d @ concat (map (text_at h') zs) = sds_str s @ concat (map (text_at h) ys)"
proof (cases ys)
  have sd: "is_raw h d" "solid h d" "text_at h d = sds_str s"
    using s(1) by (auto simp: is_raw_def payload_def solid_def text_at_def obj_text_def)
  have dw: "dropWhile (\<lambda>b. b \<noteq> d) (xs @ d # ys) = d # ys" "takeWhile (\<lambda>b. b \<noteq> d) (xs @ d # ys) = xs" for ys
    using d(1) by (induction xs) auto
  {
    case Nil
    have "glue_next e d s c (w\<lparr>heap := h\<rparr>) = Inr (c, w\<lparr>heap := h\<rparr>)" using Nil r dw by (simp add: glue_next_def)
    moreover have "c\<lparr>reply := xs @ [d], reply_bytes := reply_bytes c\<rparr> = c" using r Nil by simp
    ultimately show ?thesis using Nil st sd b u
      by (intro exI [of _ h] exI [of _ "[]"] exI [of _ "reply_bytes c"]) (simp only: append_Nil2 same_refl, simp)
  }
  case (Cons nx zs)
  have nx: "is_raw h nx" "solid h nx" using raw Cons by auto
  obtain nob t where n: "objs h nx = Some nob" "optr nob = PSds t" "sds_ok t" "text_at h nx = sds_str t"
    "payload h nx = Some (REDIS_ENCODING_RAW, PSds t)" using raw_sds [OF st nx] by metis
  obtain tx fr where tx: "t = mk_sds tx fr" "length tx + length fr < 2147483648" using n(3) by (rule sds_okE)
  have "length tx \<le> length (concat (map (text_at h) ys))" using Cons n(4) tx by simp
  then have l2: "int (length (sds_str s) + length tx) < SDS_LIMIT" using len by linarith
  obtain s2 where s2: "sdscatlen (fresh e) s (sh_buf t) (sdslen t) = Inr s2" "sds_ok s2" "sds_str s2 = sds_str s @ tx"
    using sdscatlen_ok [OF s(2), of "length tx" "sh_buf t" "fresh e"] tx l2 by (auto simp: yields_iff)
  obtain dob where dob: "objs h d = Some dob" "oencoding dob = REDIS_ENCODING_RAW" "optr dob = PSds s"
    using s(1) by (auto simp: payload_def)
  have st2: "store_ok h ((held @ xs @ nx # zs) @ [d])" by (rule store_ok_mset [OF _ st]) (simp add: Cons)
  define h1 where "h1 = store h d (dob\<lparr>optr := PSds s2\<rparr>)"
  have h1: "store_ok h1 ((held @ xs @ nx # zs) @ [d])" "same h h1 (set (held @ xs @ nx # zs))"
    "payload h1 d = Some (REDIS_ENCODING_RAW, PSds s2)" "text_at h1 d = sds_str s2"
    using set_text_ok [OF st2 _ dob(1,2) s2(2)] d Cons unfolding h1_def by auto
  obtain h2 where h2: "decrRefCount nx h1 = Inr h2" "store_ok h2 (held @ xs @ d # zs)" "same h1 h2 (set (held @ xs @ d # zs))"
    using decr_ok [OF h1(1), of nx "held @ xs @ d # zs"] by (auto intro: same_mono)
  have pd: "payload h2 d = Some (REDIS_ENCODING_RAW, PSds s2)" "text_at h2 d = sds_str s2" "is_raw h2 d" "solid h2 d"
    using h2(3) h1(3,4) payload_eq [of h2 d h1] by (auto simp: same_def is_raw_def payload_def solid_def)
  have fr: "same h h2 (set (held @ xs @ zs))" using same_trans [OF h1(2) h2(3)] by (rule same_mono) auto
  let ?z = "zmalloc_size_sds e"
  have z: "0 \<le> ?z s" "0 \<le> ?z t" "0 \<le> ?z s2" "?z s2 < 2 ^ 32" using u by (auto simp: usable_ok_def)
  have lb: "list_bytes e h xs + ?z s + ?z t + list_bytes e h zs \<le> reply_bytes c"
    using b(1) Cons s(1) n(5) by (simp add: list_bytes_def)
  have nn: "0 \<le> list_bytes e h xs" "0 \<le> list_bytes e h zs" by (rule list_bytes_nonneg [OF u])+
  let ?B = "reply_bytes c - ?z s - ?z t + ?z s2"
  have wrap: "to_u64 (reply_bytes c - ?z s) = reply_bytes c - ?z s" "to_u64 (reply_bytes c - ?z s - ?z t) = reply_bytes c - ?z s - ?z t"
    "to_u64 ?B = ?B" using lb nn z b by (simp_all add: cint)
  have bs: "list_bytes e h2 xs = list_bytes e h xs" "list_bytes e h2 zs = list_bytes e h zs"
    using same_bytes [OF fr, of xs e] same_bytes [OF fr, of zs e] by auto
  have "glue_next e d s c (w\<lparr>heap := h\<rparr>) = Inr (c\<lparr>reply := xs @ d # zs, reply_bytes := ?B\<rparr>, w\<lparr>heap := h2\<rparr>)"
    using r Cons dw n(1,2) s2(1) dob(1) h2(1) wrap by (simp add: glue_next_def Let_def h1_def)
  moreover have "list_bytes e h2 (xs @ d # zs) \<le> ?B" using lb bs pd(1) by (simp add: list_bytes_def)
  moreover have "?B \<le> M + 2 ^ 32" using z b(2) by simp
  moreover have "set zs \<subseteq> set (held @ xs @ zs)" by auto
  then have "text_at h2 d @ concat (map (text_at h2) zs) = sds_str s @ concat (map (text_at h) ys)"
    using pd(2) s2(3) Cons n(4) tx by (simp add: same_map [OF fr])
  ultimately show ?thesis using h2(2) fr pd(3,4) Cons by (intro exI [of _ h2] exI [of _ zs] exI [of _ ?B]) auto
qed

lemma setDeferred_ok:
  assumes c: "client_ok e held k c w" and o: "open_client e c" and k: "k + 2 \<le> OUT_LIMIT" and dh: "d \<notin> set held"
    and out: "out c w = A @ Inr d # map Inl t" and dA: "Inr d \<notin> set A" and n: "is_ll n"
    and len: "int (length t) + 32 < SDS_LIMIT"
  obtains c' w' where "setDeferredMultiBulkLength e (Some d) n c w = Inr (c', w')" "client_ok e held (k + 2) c' w'" "open_client e c'"
    "frame held w w'" "out c' w' = A @ map Inl (resp (CHR ''*'') (ll_text n) @ t)"
proof -
  note ok = client_okD [OF c]
  have u: "usable_ok e" using o by (simp add: open_client_def)
  obtain xs ys where x: "reply c = xs @ d # ys" "d \<notin> set xs" "d \<notin> set ys" "\<not> solid (heap w) d" "\<forall>y\<in>set ys. solid (heap w) y"
    "concat (map (text_at (heap w)) ys) = t" "drop (sentlen c) (map Inl (take (bufpos c) (buf c)) @ concat (map (cell (heap w)) xs)) = A"
    "sentlen c \<le> length (map Inl (take (bufpos c) (buf c)) @ concat (map (cell (heap w)) xs))"
    using locate_hole [OF c out dA] .
  let ?t = "CHR ''*'' # ll_text n @ CRLF"
  have tl: "length ?t \<le> 23" "NUL \<notin> set ?t" using ll_text_length [OF n] ll_text_no_NUL [OF n] by (simp_all add: CRLF_def)
  obtain s where s: "sdscatprintf (fresh e) (mk_sds [] []) ?t = Inr s" "sds_ok s" "sds_str s = ?t"
    using sdscatprintf_ok [of "mk_sds [] []" ?t "fresh e"] tl by (auto simp: yields_iff cstr_id SDS_LIMIT_def)
  have raw: "is_raw (heap w) d" "\<forall>y\<in>set ys. is_raw (heap w) y" using ok(2) x(1) by auto
  have st: "store_ok (heap w) ((held @ xs @ ys) @ [d])" by (rule store_ok_mset [OF _ ok(1)]) (simp add: x(1))
  have dn: "d \<notin> set (held @ xs @ ys)" using dh x(2,3) by simp
  obtain ob where ob: "objs (heap w) d = Some ob" "store_ok (store (heap w) d (ob\<lparr>optr := PSds s\<rparr>)) ((held @ xs @ ys) @ [d])"
    "same (heap w) (store (heap w) d (ob\<lparr>optr := PSds s\<rparr>)) (set (held @ xs @ ys))"
    "payload (store (heap w) d (ob\<lparr>optr := PSds s\<rparr>)) d = Some (REDIS_ENCODING_RAW, PSds s)" "optr ob = PNull"
    using set_hole_ok [OF st dn raw(1) x(4) s(2)] by metis
  define h1 where "h1 = store (heap w) d (ob\<lparr>optr := PSds s\<rparr>)"
  note ob = ob [folded h1_def]
  have z: "0 \<le> zmalloc_size_sds e s" "zmalloc_size_sds e s < 2 ^ 32" using u by (simp_all add: usable_ok_def)
  let ?c1 = "c\<lparr>reply_bytes := reply_bytes c + zmalloc_size_sds e s\<rparr>"
  have b0: "0 \<le> reply_bytes c" using list_bytes_nonneg [OF u, of "heap w" "reply c"] ok(6) by linarith
  have b1: "to_u64 (reply_bytes c + zmalloc_size_sds e s) = reply_bytes c + zmalloc_size_sds e s"
    using b0 z ok(7) budget_bound [OF ok(10)] by (simp add: cint)
  have p0: "ptr_bytes e (payload (heap w) d) = 0" using ob(1,5) by (simp add: payload_def)
  have s1: "same (heap w) h1 (set (held @ xs @ ys))" by (rule ob(3))
  have lb1: "list_bytes e h1 (xs @ d # ys) \<le> reply_bytes ?c1"
  proof -
    have "set xs \<subseteq> set (held @ xs @ ys)" "set ys \<subseteq> set (held @ xs @ ys)" by auto
    then have "list_bytes e h1 xs = list_bytes e (heap w) xs" "list_bytes e h1 ys = list_bytes e (heap w) ys"
      by (simp_all only: same_bytes [OF s1])
    then show ?thesis using ok(6) x(1) p0 ob(4) by (simp add: list_bytes_Cons)
  qed
  have st1: "store_ok h1 (held @ xs @ d # ys)" by (rule store_ok_mset [OF _ ob(2)]) simp
  have ty: "map (text_at h1) ys = map (text_at (heap w)) ys" using same_map [OF s1, of ys] by auto
  have raw1: "\<forall>b\<in>set ys. is_raw h1 b \<and> solid h1 b"
    using raw(2) x(5) s1 is_raw_eq [of h1 _ "heap w"] payload_eq [of h1 _ "heap w"] by (auto simp: same_def)
  have len1: "int (length (sds_str s) + length (concat (map (text_at h1) ys))) < SDS_LIMIT" using len tl(1) s(3) x(6) by (simp add: ty)
  have M: "reply_bytes ?c1 \<le> int (k + 1) * 2 ^ 32" "int (k + 1) * 2 ^ 32 \<le> 2 ^ 61"
    using z ok(7) budget_bound [of "k + 1"] k by (simp_all add: algebra_simps)
  have r1: "reply ?c1 = xs @ d # ys" using x(1) by simp
  obtain h2 zs B where g: "glue_next e d s ?c1 (w\<lparr>heap := h1\<rparr>) = Inr (?c1\<lparr>reply := xs @ d # zs, reply_bytes := B\<rparr>, w\<lparr>heap := h2\<rparr>)"
    "store_ok h2 (held @ xs @ d # zs)" "set zs \<subseteq> set ys" "length zs \<le> length ys" "same h1 h2 (set (held @ xs @ zs))"
    "list_bytes e h2 (xs @ d # zs) \<le> B" "B \<le> int (k + 1) * 2 ^ 32 + 2 ^ 32" "is_raw h2 d" "solid h2 d"
    "text_at h2 d @ concat (map (text_at h2) zs) = sds_str s @ concat (map (text_at h1) ys)"
    using glue_next_ok [OF st1 r1 x(2,3) dh raw1 ob(4) s(2) len1 lb1 M u] by blast
  let ?c = "?c1\<lparr>reply := xs @ d # zs, reply_bytes := B\<rparr>" and ?w = "w\<lparr>heap := h2\<rparr>"
  have fr: "same (heap w) h2 (set (held @ xs @ zs))" using same_trans [OF s1 g(5)] by (rule same_mono) (use g(3) in auto)
  have rz: "\<forall>b\<in>set (xs @ d # zs). is_raw h2 b" "\<forall>b\<in>set zs. solid h2 b"
    using ok(2) x(1,5) g(3,8) fr is_raw_eq [of h2 _ "heap w"] payload_eq [of h2 _ "heap w"] by (auto simp: same_def)
  have cz: "concat (map (cell h2) zs) = map Inl (concat (map (text_at h2) zs))" using rz(2) by (induction zs) auto
  have cx: "map (cell h2) xs = map (cell (heap w)) xs" using same_cells [OF fr, of xs] by auto
  let ?P = "map Inl (take (bufpos c) (buf c)) @ concat (map (cell (heap w)) xs)"
  have "map Inl (take (bufpos c) (buf c)) @ concat (map (cell h2) (xs @ d # zs)) =
      ?P @ map Inl (text_at h2 d @ concat (map (text_at h2) zs))" using g(9) by (simp add: cz cx)
  also have "text_at h2 d @ concat (map (text_at h2) zs) = ?t @ t" using g(10) s(3) x(6) by (simp add: ty)
  finally have "out ?c ?w = drop (sentlen c) (?P @ map Inl (?t @ t))" by (simp add: out_def)
  also have "\<dots> = drop (sentlen c) ?P @ map Inl (?t @ t)" using x(8) by (simp only: drop_append) simp
  finally have o2: "out ?c ?w = A @ map Inl (resp (CHR ''*'') (ll_text n) @ t)" using x(7) by (simp add: resp_def)
  have "sent_ok ?c ?w"
  proof (cases xs)
    case Nil
    then show ?thesis using ok(11) x(1) hole_text [OF x(4)] by (auto simp: sent_ok_def split: if_splits)
  next
    case (Cons x' xs')
    then have "text_at h2 x' = text_at (heap w) x'" using fr payload_eq [of h2 x' "heap w"] by (simp add: same_def)
    then show ?thesis using ok(11) x(1) Cons by (auto simp: sent_ok_def split: if_splits)
  qed
  then have c2: "client_ok e held (k + 2) ?c ?w"
    using ok g(2,4,6,7) rz(1) x(1) k by (simp add: client_ok_def algebra_simps)
  have o3: "open_client e ?c" using o by (simp add: open_client_def has_flag_def)
  have f2: "frame held w ?w" using fr by (auto simp: frame_def same_def)
  obtain c3 w3 where a: "asyncCloseClientOnOutputBufferLimitReached ?c ?w = Inr (c3, w3)" "client_ok e held (k + 2) c3 w3"
    "open_client e c3" "frame held ?w w3" "out c3 w3 = out ?c ?w" using async_ok [OF c2 o3] by blast
  have "setDeferredMultiBulkLength e (Some d) n c w = Inr (c3, w3)"
    using s(1) ob(1) b1 g(1) a(1) by (simp add: setDeferredMultiBulkLength_def sdsempty_ok Let_def h1_def)
  then show thesis using that a(2,3) frame_trans [OF f2 a(4)] a(5) o2 by metis
qed

section \<open>Replies and writes in any order\<close>

text \<open>
  The operations a command performs on its client, and the writes of the event loop. Objects are named by
  their address; texts given to the formatted functions are what the format prints.
\<close>

datatype reply_op = RObject nat | RSds "char list" | RString "char list" | RError "char list" | RErrorFormat "char list"
  | RStatus "char list" | RStatusFormat "char list" | RInteger int | RMultiLen int | RBulk nat | RBulkBuffer "char list"
  | RBulkCString "char list option" | RBulkLong int | RWrite "write_answer list"

fun reply_fun :: "nenv \<Rightarrow> reply_op \<Rightarrow> redisClient \<Rightarrow> nworld \<Rightarrow> (obj_error, redisClient \<times> nworld) result" where
  "reply_fun e (RObject a) = addReply e a"
| "reply_fun e (RSds s) = addReplySds e (mk_sds s [])"
| "reply_fun e (RString s) = addReplyString e s (int (length s))"
| "reply_fun e (RError s) = addReplyError e (s @ [NUL])"
| "reply_fun e (RErrorFormat s) = addReplyErrorFormat e s"
| "reply_fun e (RStatus s) = addReplyStatus e (s @ [NUL])"
| "reply_fun e (RStatusFormat s) = addReplyStatusFormat e s"
| "reply_fun e (RInteger v) = addReplyLongLong e v"
| "reply_fun e (RMultiLen n) = addReplyMultiBulkLen e n"
| "reply_fun e (RBulk a) = addReplyBulk e a"
| "reply_fun e (RBulkBuffer s) = addReplyBulkCBuffer e s (int (length s))"
| "reply_fun e (RBulkCString s) = addReplyBulkCString e (map_option (\<lambda>s. s @ [NUL]) s)"
| "reply_fun e (RBulkLong v) = addReplyBulkLongLong e v"
| "reply_fun e (RWrite ans) = (\<lambda>c w. rbind (sendReplyToClient e ans c w) (\<lambda>(closed, c, w). Inr (c, w)))"

text \<open>What each puts on the wire, given the texts of the objects.\<close>

fun wire :: "(nat \<Rightarrow> char list) \<Rightarrow> reply_op \<Rightarrow> char list" where
  "wire txt (RObject a) = txt a"
| "wire txt (RSds s) = s"
| "wire txt (RString s) = s"
| "wire txt (RError s) = resp (CHR ''-'') (''ERR '' @ s)"
| "wire txt (RErrorFormat s) = resp (CHR ''-'') (''ERR '' @ one_line s)"
| "wire txt (RStatus s) = resp (CHR ''+'') s"
| "wire txt (RStatusFormat s) = resp (CHR ''+'') s"
| "wire txt (RInteger v) = resp (CHR '':'') (ll_text v)"
| "wire txt (RMultiLen n) = resp (CHR ''*'') (ll_text n)"
| "wire txt (RBulk a) = bulk (txt a)"
| "wire txt (RBulkBuffer s) = bulk s"
| "wire txt (RBulkCString s) = (case s of None \<Rightarrow> null_bulk | Some s \<Rightarrow> bulk s)"
| "wire txt (RBulkLong v) = bulk (ll_text v)"
| "wire txt (RWrite ans) = []"

definition TEXT_LIMIT :: nat where "TEXT_LIMIT = 2 ^ 30"

fun reply_pre :: "nat set \<Rightarrow> reply_op \<Rightarrow> bool" where
  "reply_pre A (RObject a) = (a \<in> A)"
| "reply_pre A (RBulk a) = (a \<in> A)"
| "reply_pre A (RInteger v) = is_ll v"
| "reply_pre A (RBulkLong v) = is_ll v"
| "reply_pre A (RMultiLen n) = (is_ll n \<and> 0 \<le> n)"
| "reply_pre A (RWrite ans) = (Broken \<notin> set ans)"
| "reply_pre A (RSds s) = (length s < TEXT_LIMIT)"
| "reply_pre A (RString s) = (length s < TEXT_LIMIT)"
| "reply_pre A (RBulkBuffer s) = (length s < TEXT_LIMIT)"
| "reply_pre A (RBulkCString s) = (case s of None \<Rightarrow> True | Some s \<Rightarrow> NUL \<notin> set s \<and> length s < TEXT_LIMIT)"
| "reply_pre A (RError s) = (NUL \<notin> set s \<and> length s < TEXT_LIMIT)"
| "reply_pre A (RErrorFormat s) = (NUL \<notin> set s \<and> length s < TEXT_LIMIT)"
| "reply_pre A (RStatus s) = (NUL \<notin> set s \<and> length s < TEXT_LIMIT)"
| "reply_pre A (RStatusFormat s) = (NUL \<notin> set s \<and> length s < TEXT_LIMIT)"

lemma reply_appends:
  assumes sh: "shared_strings_ok held w0" and st: "store_ok (heap w0) (held @ rs)"
    and live: "\<forall>a\<in>A. a \<in> set held \<and> solid (heap w0) a" and pre: "reply_pre A p" and nw: "\<And>ans. p \<noteq> RWrite ans"
  obtains n where "n \<le> 3" "appends e held w0 (reply_fun e p) (wire (text_at (heap w0)) p) n"
proof -
  have l: "length held < OUT_LIMIT" using sh by (simp add: shared_strings_ok_def)
  note [simp] = TEXT_LIMIT_def SDS_LIMIT_def
  show thesis
  proof (cases p)
    case (RObject a)
    then show ?thesis using that [of 1] addReply_appends [of a held w0 e] l live pre by simp
  next
    case (RSds s)
    then show ?thesis using that [of 1] addReplySds_appends [of "mk_sds s []" e held w0] pre by simp
  next
    case (RString s)
    then show ?thesis using that [of 1] addReplyText_appends [of s e held w0] pre by simp
  next
    case (RError s)
    then show ?thesis using that [of 3] addReplyError_appends [of "s @ [NUL]" e held w0] pre by simp
  next
    case (RErrorFormat s)
    then show ?thesis using that [of 3] addReplyErrorFormat_appends [of s e held w0] pre by (simp add: cstr_id)
  next
    case (RStatus s)
    then show ?thesis using that [of 3] addReplyStatus_appends [of "s @ [NUL]" e held w0] pre by simp
  next
    case (RStatusFormat s)
    then show ?thesis using that [of 3] addReplyStatusFormat_appends [of s e held w0] pre by (simp add: cstr_id)
  next
    case (RInteger v)
    then show ?thesis using that [of 1] addReplyLongLong_appends [OF sh, of v e] pre by simp
  next
    case (RMultiLen n)
    then show ?thesis
      using that [of 1] addReplyLongLongWithPrefix_appends [OF sh, of n "CHR ''*''" e] pre by (simp add: addReplyMultiBulkLen_def)
  next
    case (RBulk a)
    then show ?thesis using that [of 3] addReplyBulk_appends [OF sh _ _ st, of a e] live pre by simp
  next
    case (RBulkBuffer s)
    then show ?thesis using that [of 3] addReplyBulkCBuffer_appends [OF sh, of "length s" s e] pre by simp
  next
    case (RBulkCString s)
    then show ?thesis
      using that [of "case s of None \<Rightarrow> 1 | Some s \<Rightarrow> 3"] addReplyBulkCString_appends [OF sh, of "map_option (\<lambda>s. s @ [NUL]) s" e] pre
      by (cases s) simp_all
  next
    case (RBulkLong v)
    then show ?thesis using that [of 3] addReplyBulkLongLong_appends [OF sh, of v e] pre by simp
  qed (use nw in simp)
qed

end
