(* ===== verification/Request_Stream.thy ===== *)
theory Request_Stream
  imports Networking_Request Reply_Stream
begin

text \<open>
  The request protocol: what \<open>networking.c\<close> reads from a stream of encoded requests does not depend on how the stream
  is cut into reads.
\<close>

section \<open>Finding line ends\<close>

abbreviation CR :: char where "CR \<equiv> CHR 0x0D"
abbreviation LF :: char where "LF \<equiv> CHR 0x0A"

lemma find_sub_none: "c \<notin> set xs \<Longrightarrow> find_sub [c] xs = None"
  by (induction xs) auto

lemma find_sub_first: "c \<notin> set xs \<Longrightarrow> find_sub [c] (xs @ c # ys) = Some (length xs)"
  by (induction xs) auto

lemma find_crlf_none: "CR \<notin> set xs \<Longrightarrow> find_sub CRLF xs = None"
  by (induction xs) (auto simp: CRLF_def)

lemma find_crlf_cut: "CR \<notin> set xs \<Longrightarrow> find_sub CRLF (xs @ [CR]) = None"
  by (induction xs) (auto simp: CRLF_def)

lemma find_crlf_first: "CR \<notin> set xs \<Longrightarrow> find_sub CRLF (xs @ CR # LF # ys) = Some (length xs)"
  by (induction xs) (auto simp: CRLF_def)

lemma cstr_app: "NUL \<notin> set xs \<Longrightarrow> cstr (xs @ ys) = xs @ cstr ys"
  by (induction xs) (auto simp: cstr_def)

lemma cstr_simps [simp]: "cstr (NUL # xs) = []" "c \<noteq> NUL \<Longrightarrow> cstr (c # xs) = c # cstr xs"
  by (simp_all add: cstr_def)

lemma strchr_eq: "strchr (xs @ NUL # fr) c = Inr (find_sub [c] (cstr (xs @ NUL # fr)))" "strstr (xs @ NUL # fr) p = Inr (find_sub p (cstr (xs @ NUL # fr)))"
  by (simp_all add: strchr_def strstr_def)

text \<open>Where a line of the stream ends within the part of it that has been read.\<close>

lemma line_cases:
  assumes "P @ fut = L @ CRLF @ rest"
  obtains (part) "length P \<le> length L" "P = take (length P) L"
  | (cr) "P = L @ [CR]" "fut = LF # rest"
  | (full) P' where "P = L @ CRLF @ P'" "P' @ fut = rest"
proof -
  consider "length P \<le> length L" | "length P = length L + 1" | "length L + 2 \<le> length P" by linarith
  then show thesis
  proof cases
    case 1
    moreover have "P = take (length P) (L @ CRLF @ rest)" using assms [symmetric] by simp
    ultimately show thesis using part by simp
  next
    case 2
    have "P = take (length L + 1) (L @ CRLF @ rest)" "fut = drop (length L + 1) (L @ CRLF @ rest)"
      unfolding assms [symmetric] using 2 by simp_all
    then show thesis using cr by (simp add: CRLF_def)
  next
    case 3
    have P: "take (length L + 2) P = L @ CRLF"
      using arg_cong [OF assms, of "take (length L + 2)"] 3 by (simp add: CRLF_def)
    have "P = L @ CRLF @ drop (length L + 2) P" by (metis append_take_drop_id P append.assoc)
    moreover have "drop (length L + 2) P @ fut = rest" using arg_cong [OF assms, of "drop (length L + 2)"] 3 by (simp add: CRLF_def)
    ultimately show thesis by (rule full)
  qed
qed

lemma scan_cr:
  assumes "P @ fut = L @ CRLF @ rest" and "CR \<notin> set L" and "NUL \<notin> set L"
  obtains (part) "length P \<le> length L" "strchr (P @ NUL # fr) CR = Inr None"
  | (cr) "P = L @ [CR]" "fut = LF # rest" "strchr (P @ NUL # fr) CR = Inr (Some (length L))"
  | (full) P' where "P = L @ CRLF @ P'" "P' @ fut = rest" "strchr (P @ NUL # fr) CR = Inr (Some (length L))"
  using assms(1)
proof (cases rule: line_cases)
  case part
  then have sub: "set P \<subseteq> set L" by (metis set_take_subset)
  then have "NUL \<notin> set P" "CR \<notin> set P" using assms(2,3) by auto
  then have "cstr (P @ NUL # fr) = P" "CR \<notin> set P" by (simp_all add: cstr_app)
  then show thesis using that(1) part by (simp add: strchr_eq find_sub_none)
next
  case cr
  then have "cstr (P @ NUL # fr) = L @ [CR]" using assms(3) by (simp add: cstr_app)
  then show thesis using that(2) cr assms(2) find_sub_first [of CR L "[]"] unfolding strchr_eq by simp
next
  case (full P')
  have "strchr (P @ NUL # fr) CR = Inr (Some (length L))"
    using full(1) assms(2,3) unfolding strchr_eq by (simp add: cstr_app CRLF_def find_sub_first)
  then show thesis using that(3) full by blast
qed

lemma scan_crlf:
  assumes "P @ fut = L @ CRLF @ rest" and "CR \<notin> set L" and "NUL \<notin> set L"
  obtains (part) "length P \<le> length L + 1" "strstr (P @ NUL # fr) CRLF = Inr None"
  | (full) P' where "P = L @ CRLF @ P'" "P' @ fut = rest" "strstr (P @ NUL # fr) CRLF = Inr (Some (length L))"
  using assms(1)
proof (cases rule: line_cases)
  case part
  then have sub: "set P \<subseteq> set L" by (metis set_take_subset)
  then have "NUL \<notin> set P" "CR \<notin> set P" using assms(2,3) by auto
  then have "cstr (P @ NUL # fr) = P" "CR \<notin> set P" by (simp_all add: cstr_app)
  then show thesis using that(1) part by (simp add: strchr_eq find_crlf_none)
next
  case cr
  then have "cstr (P @ NUL # fr) = L @ [CR]" using assms(3) by (simp add: cstr_app)
  then show thesis using that(1) cr assms(2) find_crlf_cut [of L] unfolding strchr_eq by simp
next
  case (full P')
  have "strstr (P @ NUL # fr) CRLF = Inr (Some (length L))"
    using full(1) assms(2,3) find_crlf_first [of L] unfolding strchr_eq by (simp add: cstr_app CRLF_def)
  then show thesis using that(2) full by blast
qed

section \<open>The arguments of a request\<close>

text \<open>
  A request being read: the arguments \<open>don\<close> are objects, \<open>todo\<close> is still to come, \<open>D\<close> are the bytes that are left,
  from the length of the next argument or, when \<open>bulklen\<close> is known, from the argument itself. \<open>R\<close> are the references of
  the rest of the program.
\<close>

definition args_at :: "ostore \<Rightarrow> nat list \<Rightarrow> char list list \<Rightarrow> bool" where
  "args_at h as xs \<longleftrightarrow> map (text_at h) as = xs \<and> (\<forall>a\<in>set as. solid h a \<and> is_raw h a)"

definition arg_state ::
    "nat list \<Rightarrow> ('a request_client_scheme) \<Rightarrow> nworld \<Rightarrow> char list list \<Rightarrow> char list list \<Rightarrow> char list \<Rightarrow> char list \<Rightarrow> bool" where
  "arg_state R c w don todo beyond D \<longleftrightarrow>
     sds_ok (querybuf c) \<and> store_ok (heap w) (R @ argv c) \<and> args_at (heap w) (argv c) don \<and>
     multibulklen c = int (length todo) \<and> argv_room c = int (length don + length todo) \<and> length don + length todo \<le> 1048576 \<and>
     length R \<le> OUT_LIMIT \<and> (\<forall>x\<in>set todo. length x \<le> 536870912) \<and>
     (if bulklen c = -1 then D = concat (map bulk todo) @ beyond
      else todo \<noteq> [] \<and> bulklen c = int (length (hd todo)) \<and> D = hd todo @ CRLF @ concat (map bulk (tl todo)) @ beyond)"

text \<open>Parsing changes nothing of the output side, nor an object of the rest.\<close>

definition parsed :: "nat list \<Rightarrow> ('a request_client_scheme) \<times> nworld \<Rightarrow> ('a request_client_scheme) \<Rightarrow> nworld \<Rightarrow> bool" where
  "parsed R = (\<lambda>(c, w) c' w'. redisClient.truncate c' = redisClient.truncate c \<and> request_client.more c' = request_client.more c \<and> reqtype c' = reqtype c \<and>
     same (heap w) (heap w') (set R) \<and> w' = w\<lparr>heap := heap w'\<rparr>)"

lemma parsed_trans: "parsed R (c, w) c1 w1 \<Longrightarrow> parsed R (c1, w1) c2 w2 \<Longrightarrow> parsed R (c, w) c2 w2"
  by (cases w; cases w1; cases w2) (auto simp: parsed_def same_def)

lemma parsed_refl [simp]: "parsed R (c, w) c w"
  by (simp add: parsed_def)

lemma bulk_eq: "bulk x = (CHR ''$'' # ll_text (int (length x))) @ CRLF @ x @ CRLF"
  by (simp add: bulk_def resp_def)

lemma ll_text_clean:
  assumes "is_ll n"
  shows "CR \<notin> set (ll_text n)" "NUL \<notin> set (ll_text n)" "length (ll_text n) \<le> 20"
proof -
  show "CR \<notin> set (ll_text n)"
  proof (cases "n = 0")
    case False
    from ll_text_nonzero [OF assms this] obtain c ds where t: "ll_text n = (if n < 0 then ''-'' else []) @ c # ds"
      "isdigit c" "\<forall>c\<in>set ds. isdigit c" by metis
    have "\<not> isdigit CR" by (simp add: isdigit_def uchar_def)
    then have "CR \<noteq> c" "CR \<notin> set ds" using t(2,3) by auto
    then show ?thesis unfolding t(1) by simp
  qed (simp add: ll_text_zero)
  show "NUL \<notin> set (ll_text n)" "length (ll_text n) \<le> 20" using ll_text_no_NUL ll_text_length assms by auto
qed

lemma sdsrange_drop:
  assumes "sds_ok q" and "sds_str q = U @ P"
  obtains q' where "sdsrange q (int (length U)) (-1) = Inr q'" "sds_ok q'" "sds_str q' = P"
proof -
  obtain fr where q: "q = mk_sds (U @ P) fr" "length (U @ P) + length fr < 2147483648" using assms by (auto elim!: sds_okE)
  have "range_spec (U @ P) (int (length U)) (-1) = P" by (cases P) (auto simp: range_spec_def clip_def Let_def)
  then have "yields (sdsrange q (int (length U)) (-1)) P" using sdsrange_ok [OF assms(1), of "int (length U)" "-1"] q assms(2) by simp
  then show thesis using that by (auto simp: yields_iff)
qed

lemma room_for:
  assumes "sds_ok q" and "0 \<le> n" and "int (length (sds_str q)) + n < SDS_LIMIT"
  shows "sds_ok (sdsMakeRoomFor g q n) \<and> sds_str (sdsMakeRoomFor g q n) = sds_str q"
proof -
  obtain xs fr where q: "q = mk_sds xs fr" "length xs + length fr < 2147483648" using assms(1) by (rule sds_okE)
  then obtain fr' where "sdsMakeRoomFor g q n = mk_sds xs fr'" "length xs + length fr' < 2147483648"
    using sdsMakeRoomFor_mk [OF q(2) assms(2), of g] assms(3) by auto
  then show ?thesis using q(1) by simp
qed

text \<open>One step for the length of an argument, one for its bytes. The buffer is \<open>U @ P\<close>, parsed up to \<open>P\<close>.\<close>

lemma read_bulk_len_ok:
  assumes s: "arg_state R c w don (x # xs) beyond D" and b: "bulklen c = -1"
    and q: "sds_str (querybuf c) = U @ P" "P @ fut = D" "length (U @ P) \<le> 65536"
  obtains (wait) "read_bulk_len e (int (length U)) c w = Inr (Break (int (length U)), c, w)" "length P \<le> 22" "fut \<noteq> []"
  | (go) U' P' c' where "read_bulk_len e (int (length U)) c w = Inr (Go (int (length U')), c', w)"
      "arg_state R c' w don (x # xs) beyond (P' @ fut)" "bulklen c' = int (length x)" "sds_str (querybuf c') = U' @ P'"
      "length (U' @ P') \<le> 65536" "parsed R (c, w) c' w"
proof -
  let ?n = "int (length x)" and ?L = "CHR ''$'' # ll_text (int (length x))"
  have ok: "sds_ok (querybuf c)" "length x \<le> 536870912" using s by (simp_all add: arg_state_def)
  then have ll: "is_ll ?n" by (simp add: ll_bounds)
  note clean = ll_text_clean [OF ll]
  obtain fr where qb: "querybuf c = mk_sds (U @ P) fr" "length (U @ P) + length fr < 2147483648"
    using ok(1) q(1) by (auto elim!: sds_okE)
  have buf: "drop (nat (int (length U))) (sh_buf (querybuf c)) = P @ NUL # fr" using qb(1) by simp
  have len: "sdslen (querybuf c) = int (length U + length P)" "to_i32 (int (length U + length P)) = int (length U + length P)"
    using qb by (simp_all add: cint)
  have D: "P @ fut = ?L @ CRLF @ x @ CRLF @ concat (map bulk xs) @ beyond" using s b q(2) by (simp add: arg_state_def bulk_eq)
  have L: "CR \<notin> set ?L" "NUL \<notin> set ?L" using clean by auto
  show thesis
  proof (rule scan_cr [OF D L, of fr])
    assume p: "length P \<le> length ?L" "strchr (P @ NUL # fr) CR = Inr None"
    have "fut \<noteq> []" using D p(1) by (auto simp: CRLF_def)
    moreover have "\<not> sdslen (querybuf c) > REDIS_INLINE_MAX_SIZE" using len q(3) by (simp add: REDIS_INLINE_MAX_SIZE_def)
    ultimately show thesis using wait p b buf clean(3) by (simp add: read_bulk_len_def Let_def)
  next
    assume p: "P = ?L @ [CR]" "fut = LF # x @ CRLF @ concat (map bulk xs) @ beyond" "strchr (P @ NUL # fr) CR = Inr (Some (length ?L))"
    have "int (length U) + int (length ?L) > to_i32 (sdslen (querybuf c)) - 2" using len p(1) by simp
    then show thesis using wait p b buf clean(3) by (simp add: read_bulk_len_def Let_def)
  next
    fix P' assume p: "P = ?L @ CRLF @ P'" "P' @ fut = x @ CRLF @ concat (map bulk xs) @ beyond"
      "strchr (P @ NUL # fr) CR = Inr (Some (length ?L))"
    have en: "\<not> int (length U) + int (length ?L) > to_i32 (sdslen (querybuf c)) - 2" using len p(1) by (simp add: CRLF_def)
    have hd: "hd (P @ NUL # fr) = CHR ''$''" using p(1) by simp
    have "string2ll (ll_text ?n) = Some ?n" using ll by (simp add: string2ll_iff)
    then have num: "string2ll (take (length ?L - 1) (drop 1 (P @ NUL # fr))) = Some ?n" using p(1) by simp
    let ?U = "U @ ?L @ CRLF"
    have off: "int (length U) + (int (length ?L) + 2) = int (length ?U)" by (simp add: CRLF_def)
    have q2: "sds_str (querybuf c) = ?U @ P'" using q(1) p(1) by simp
    show thesis
    proof (cases "?n \<ge> REDIS_MBULK_BIG_ARG")
      case False
      let ?c = "c\<lparr>bulklen := ?n\<rparr>"
      have "read_bulk_len e (int (length U)) c w = Inr (Go (int (length ?U)), ?c, w)"
        unfolding read_bulk_len_def buf Let_def using b p(3) en hd num off False ok(2) by simp
      moreover have "arg_state R ?c w don (x # xs) beyond (P' @ fut)" using s p(2) by (simp add: arg_state_def)
      moreover have "length (?U @ P') \<le> 65536" using q(1,3) q2 by simp
      moreover have "parsed R (c, w) ?c w" by (simp add: parsed_def redisClient.truncate_def)
      ultimately show thesis using go [of ?U ?c P'] q2 by simp
    next
      case True
      obtain q' where q': "sdsrange (querybuf c) (int (length ?U)) (-1) = Inr q'" "sds_ok q'" "sds_str q' = P'"
        using sdsrange_drop [OF ok(1) q2] .
      let ?q = "if sdslen q' < ?n + 2 then sdsMakeRoomFor (fresh e) q' (?n + 2 - sdslen q') else q'"
      have pl: "length P' \<le> 65536" using q(3) p(1) by simp
      have "sdslen q' = int (length P')" using q'(2,3) pl by (auto elim!: sds_okE)
      then have rq: "sds_ok ?q" "sds_str ?q = P'"
        using room_for [OF q'(2), of "?n + 2 - sdslen q'" "fresh e"] q'(2,3) ok(2) by (auto simp: SDS_LIMIT_def)
      let ?c = "c\<lparr>querybuf := ?q, bulklen := ?n\<rparr>"
      have "read_bulk_len e (int (length U)) c w = Inr (Go 0, ?c, w)"
        unfolding read_bulk_len_def buf Let_def using b p(3) en hd num True ok(2) q'(1) [folded off] by simp
      moreover have "arg_state R ?c w don (x # xs) beyond (P' @ fut)" using s rq p(2) by (simp add: arg_state_def)
      moreover have "parsed R (c, w) ?c w" by (simp add: parsed_def redisClient.truncate_def)
      ultimately show thesis using go [of "[]" ?c P'] rq(2) pl by simp
    qed
  qed
qed

lemma push_arg_ok: "int (length (argv c)) < argv_room c \<Longrightarrow> push_arg a c = Inr (c\<lparr>argv := argv c @ [a]\<rparr>)"
  by (simp add: push_arg_def)

lemma args_at_snoc:
  assumes "args_at h as xs" and "same h h' (set (R @ as))" and "text_at h' a = x" and "solid h' a" and "is_raw h' a"
  shows "args_at h' (as @ [a]) (xs @ [x])"
proof -
  have "map (text_at h') as = map (text_at h) as" by (rule same_map [OF assms(2)]) auto
  moreover have "\<forall>b\<in>set as. solid h' b \<and> is_raw h' b"
    using assms(1,2) payload_eq [of h' _ h] is_raw_eq [of h' _ h] by (auto simp: args_at_def same_def)
  ultimately show ?thesis using assms by (auto simp: args_at_def)
qed

lemma arg_state_push:
  assumes s: "arg_state R c w don (x # xs) beyond D" and st: "store_ok h ((R @ argv c) @ [a])" and sm: "same (heap w) h (set (R @ argv c))"
    and a: "text_at h a = x" "solid h a" "is_raw h a" and q: "sds_ok q"
  shows "arg_state R (c\<lparr>argv := argv c @ [a], querybuf := q, bulklen := -1, multibulklen := multibulklen c - 1\<rparr>) (w\<lparr>heap := h\<rparr>)
      (don @ [x]) xs beyond (concat (map bulk xs) @ beyond) \<and>
    parsed R (c, w) (c\<lparr>argv := argv c @ [a], querybuf := q, bulklen := -1, multibulklen := multibulklen c - 1\<rparr>) (w\<lparr>heap := h\<rparr>)"
proof -
  have "args_at h (argv c @ [a]) (don @ [x])" using s args_at_snoc [OF _ sm a] by (simp add: arg_state_def)
  moreover have "same (heap w) h (set R)" by (rule same_mono [OF sm]) auto
  ultimately show ?thesis using s st q by (simp add: arg_state_def parsed_def redisClient.truncate_def)
qed

lemma sds_object_ok:
  assumes "store_ok h held" and "length held < REF_LIMIT" and "sds_ok t"
  obtains a h' where "createObject REDIS_STRING (PSds t) h = (a, h')" "store_ok h' (held @ [a])" "same h h' (set held)"
    "text_at h' a = sds_str t" "solid h' a" "is_raw h' a"
proof -
  let ?ob = "\<lparr>otype = REDIS_STRING, oencoding = REDIS_ENCODING_RAW, lru = lruclock h, refcount = 1, optr = PSds t\<rparr>"
  let ?h = "(store h (nextobj h) ?ob)\<lparr>nextobj := nextobj h + 1\<rparr>"
  have "createObject REDIS_STRING (PSds t) h = (nextobj h, ?h)" by (simp add: createObject_def Let_def)
  moreover have "store_ok ?h (held @ [nextobj h])" "same h ?h (set held)" "text_at ?h (nextobj h) = sds_str t"
    using create_ok [OF assms(1,2), of ?ob] assms(3) by (auto simp: cell_ok_def str_ok_def obj_text_def)
  moreover have "solid ?h (nextobj h)" "is_raw ?h (nextobj h)" by (simp_all add: solid_def is_raw_def payload_def)
  ultimately show thesis using that by blast
qed

lemma arg_room:
  assumes "arg_state R c w don (x # xs) beyond D"
  shows "int (length (argv c)) < argv_room c" "length (R @ argv c) < REF_LIMIT"
proof -
  have l: "length (argv c) = length don" using assms by (auto simp: arg_state_def args_at_def)
  then show "int (length (argv c)) < argv_room c" using assms by (simp add: arg_state_def)
  have "length R \<le> 268435456" "length don \<le> 1048576" using assms by (simp_all add: arg_state_def OUT_LIMIT_def)
  then show "length (R @ argv c) < REF_LIMIT" using l by (simp add: REF_LIMIT_def)
qed

lemma read_bulk_ok:
  assumes s: "arg_state R c w don (x # xs) beyond (P @ fut)" and b: "bulklen c = int (length x)" and q: "sds_str (querybuf c) = U @ P"
    and size: "length (U @ P) \<le> 65536 \<or> U = [] \<and> 32768 \<le> length x \<and> length P \<le> length x + 2"
  obtains (wait) "read_bulk e (int (length U)) c w = Inr (Break (int (length U)), c, w)" "length P < length x + 2" "fut \<noteq> []"
  | (go) U' P' c' w' where "read_bulk e (int (length U)) c w = Inr (Go (int (length U')), c', w')"
      "arg_state R c' w' (don @ [x]) xs beyond (P' @ fut)" "bulklen c' = -1" "sds_str (querybuf c') = U' @ P'"
      "length (U' @ P') \<le> 65536" "parsed R (c, w) c' w'"
proof -
  have ok: "sds_ok (querybuf c)" "length x \<le> 536870912" "store_ok (heap w) (R @ argv c)" using s by (simp_all add: arg_state_def)
  have D: "P @ fut = x @ CRLF @ concat (map bulk xs) @ beyond" using s b by (simp add: arg_state_def)
  obtain fr where qb: "querybuf c = mk_sds (U @ P) fr" "length (U @ P) + length fr < 2147483648"
    using ok(1) q by (auto elim!: sds_okE)
  have len: "sdslen (querybuf c) = int (length U + length P)" "to_i32 (int (length U + length P)) = int (length U + length P)"
    "to_u64 (int (length U + length P) - int (length U)) = int (length P)" "to_u32 (bulklen c + 2) = int (length x) + 2"
    using qb ok(2) b by (simp_all add: cint)
  note room = arg_room [OF s]
  show thesis
  proof (cases "length P < length x + 2")
    case True
    then have "fut \<noteq> []" using D by (auto simp: CRLF_def)
    moreover have "read_bulk e (int (length U)) c w = Inr (Break (int (length U)), c, w)"
      using True len by (simp add: read_bulk_def Let_def)
    ultimately show thesis using wait True by simp
  next
    case False
    have tk: "take (length x) P = x" and dr: "drop (length x + 2) P @ fut = concat (map bulk xs) @ beyond"
      using arg_cong [OF D, of "take (length x)"] arg_cong [OF D, of "drop (length x + 2)"] False by (simp_all add: CRLF_def)
    have nb: "\<not> to_u64 (sdslen (querybuf c) - int (length U)) < to_u32 (bulklen c + 2)" using False len by simp
    show thesis
    proof (cases "int (length U) = 0 \<and> bulklen c \<ge> REDIS_MBULK_BIG_ARG \<and> to_i32 (sdslen (querybuf c)) = bulklen c + 2")
      case True
      then have "int (length U) = 0" "int (length U + length P) = int (length x) + 2" using True [unfolded len(1) len(2) b] by blast+
      then have PL: "U = []" "length P = length x + 2" by simp_all
      have il: "- sh_len (querybuf c) \<le> - 2" "- 2 \<le> sh_free (querybuf c)" "nat (sh_len (querybuf c) + - 2) = length x"
        "take (length x) (sh_buf (querybuf c)) = x" using qb(1) PL tk by simp_all
      obtain t where t: "sdsIncrLen (querybuf c) (- 2) = Inr t" "sds_ok t" "sds_str t = x"
        using sdsIncrLen_ok [OF ok(1) il(1,2)] unfolding il(3,4) yields_iff by blast
      obtain a h where a: "createObject REDIS_STRING (PSds t) (heap w) = (a, h)" "store_ok h ((R @ argv c) @ [a])"
        "same (heap w) h (set (R @ argv c))" "text_at h a = sds_str t" "solid h a" "is_raw h a"
        using sds_object_ok [OF ok(3) room(2) t(2)] by metis
      let ?q = "sdsMakeRoomFor (fresh e) (mk_sds [] []) (bulklen c + 2)"
      have rq: "sds_ok ?q" "sds_str ?q = []" using room_for [of "mk_sds [] []" "bulklen c + 2" "fresh e"] b ok(2) by (simp_all add: SDS_LIMIT_def)
      let ?c = "c\<lparr>argv := argv c @ [a], querybuf := ?q, bulklen := -1, multibulklen := multibulklen c - 1\<rparr>" and ?w = "w\<lparr>heap := h\<rparr>"
      have "read_bulk e (int (length U)) c w = Inr (Go 0, ?c, ?w)"
        unfolding read_bulk_def Let_def if_not_P [OF nb] if_P [OF True] by (simp add: t(1) a(1) push_arg_ok [OF room(1)] sdsempty_ok)
      moreover have "arg_state R ?c ?w (don @ [x]) xs beyond (concat (map bulk xs) @ beyond)" "parsed R (c, w) ?c ?w"
        using arg_state_push [OF s a(2,3) _ a(5,6) rq(1)] a(4) t(3) by simp_all
      ultimately show thesis using go [of "[]" ?c ?w "[]"] rq(2) dr PL(2) by simp
    next
      case nf: False
      have size': "length (U @ P) \<le> 65536"
        using size nf False len b by (auto simp: REDIS_MBULK_BIG_ARG_def)
      have src: "drop (nat (int (length U))) (sh_buf (querybuf c)) = P @ NUL # fr" using qb(1) by simp
      obtain a h where a: "createStringObject (fresh e) (P @ NUL # fr) (int (length x)) (heap w) = Inr (a, h)" "store_ok h ((R @ argv c) @ [a])"
        "same (heap w) h (set (R @ argv c))" "text_at h a = x" "solid h a" "is_raw h a"
        using createStringObject_ok [OF ok(3) room(2), of "length x" "P @ NUL # fr" "fresh e"] False ok(2) tk by auto
      let ?U = "U @ take (length x + 2) P" and ?P = "drop (length x + 2) P"
      have off: "to_i32 (int (length U) + (bulklen c + 2)) = int (length ?U)" using size' False b by (simp add: cint)
      let ?c = "c\<lparr>argv := argv c @ [a], querybuf := querybuf c, bulklen := -1, multibulklen := multibulklen c - 1\<rparr>" and ?w = "w\<lparr>heap := h\<rparr>"
      have "read_bulk e (int (length U)) c w = Inr (Go (int (length ?U)), ?c, ?w)"
        unfolding read_bulk_def Let_def if_not_P [OF nb] if_not_P [OF nf] src
        using a(1) off by (simp add: b push_arg_ok [OF room(1)])
      moreover have "arg_state R ?c ?w (don @ [x]) xs beyond (?P @ fut)" "parsed R (c, w) ?c ?w"
        using arg_state_push [OF s a(2,3,4,5,6) ok(1)] dr by simp_all
      moreover have "sds_str (querybuf ?c) = ?U @ ?P" using q by simp
      moreover have "length (?U @ ?P) \<le> 65536" using size' by simp
      ultimately show thesis using go [of ?U ?c ?w ?P] by simp
    qed
  qed
qed

text \<open>What may be left in the buffer while more bytes are needed.\<close>

definition small :: "('a request_client_scheme) \<Rightarrow> char list \<Rightarrow> bool" where
  "small c P \<longleftrightarrow> length P \<le> 32769 \<or> 32768 \<le> bulklen c \<and> int (length P) < bulklen c + 2"

definition fits :: "('a request_client_scheme) \<Rightarrow> char list \<Rightarrow> char list \<Rightarrow> bool" where
  "fits c U P \<longleftrightarrow> length (U @ P) \<le> 65536 \<or> U = [] \<and> 32768 \<le> bulklen c \<and> int (length P) \<le> bulklen c + 2"

lemma bulk_loop_ok:
  assumes "arg_state R c w don todo beyond (P @ fut)" and "sds_str (querybuf c) = U @ P" and "fits c U P"
  shows "\<exists>U' P' c' w' don' todo'. bulk_loop e (int (length U)) c w = Inr (Break (int (length U')), c', w') \<and>
    arg_state R c' w' don' todo' beyond (P' @ fut) \<and> sds_str (querybuf c') = U' @ P' \<and> don' @ todo' = don @ todo \<and>
    parsed R (c, w) c' w' \<and> (todo' \<noteq> [] \<longrightarrow> fut \<noteq> [] \<and> small c' P')"
  using assms
proof (induction todo arbitrary: U P c w don)
  case Nil
  then have "bulk_loop e (int (length U)) c w = Inr (Break (int (length U)), c, w)"
    by (simp add: bulk_loop.simps [of e "int (length U)" c w] arg_state_def)
  then show ?case using Nil by (intro exI [of _ U] exI [of _ P] exI [of _ c] exI [of _ w] exI [of _ don] exI [of _ "[]"]) simp
next
  case (Cons x xs)
  note s = Cons.prems(1) and q = Cons.prems(2) and f = Cons.prems(3)
  have m: "\<not> multibulklen c \<le> 0" using s by (simp add: arg_state_def)
  have body: "\<exists>U' P' c' w' don' todo'.
      (case read_bulk e (int (length U1)) c1 w of Inr (Go off, c, w) \<Rightarrow> bulk_loop e off c w | r \<Rightarrow> r) = Inr (Break (int (length U')), c', w') \<and>
      arg_state R c' w' don' todo' beyond (P' @ fut) \<and> sds_str (querybuf c') = U' @ P' \<and> don' @ todo' = don @ x # xs \<and>
      parsed R (c, w) c' w' \<and> (todo' \<noteq> [] \<longrightarrow> fut \<noteq> [] \<and> small c' P')"
    if s1: "arg_state R c1 w don (x # xs) beyond (P1 @ fut)" and b1: "bulklen c1 = int (length x)" and q1: "sds_str (querybuf c1) = U1 @ P1"
      and f1: "fits c1 U1 P1" and p1: "parsed R (c, w) c1 w" for U1 P1 c1
  proof (rule read_bulk_ok [OF s1 b1 q1])
    show "length (U1 @ P1) \<le> 65536 \<or> U1 = [] \<and> 32768 \<le> length x \<and> length P1 \<le> length x + 2" using f1 b1 by (auto simp: fits_def)
  next
    assume r: "read_bulk e (int (length U1)) c1 w = Inr (Break (int (length U1)), c1, w)" "length P1 < length x + 2" "fut \<noteq> []"
    have "small c1 P1" using r(2) b1 by (auto simp: small_def)
    then show ?thesis using r s1 q1 p1 by (intro exI [of _ U1] exI [of _ P1] exI [of _ c1] exI [of _ w] exI [of _ don] exI [of _ "x # xs"]) simp
  next
    fix U2 P2 c2 w2
    assume r: "read_bulk e (int (length U1)) c1 w = Inr (Go (int (length U2)), c2, w2)" "arg_state R c2 w2 (don @ [x]) xs beyond (P2 @ fut)"
      "bulklen c2 = -1" "sds_str (querybuf c2) = U2 @ P2" "length (U2 @ P2) \<le> 65536" "parsed R (c1, w) c2 w2"
    have "fits c2 U2 P2" using r(5) by (simp add: fits_def)
    from Cons.IH [OF r(2,4) this] show ?thesis using r(1) parsed_trans [OF parsed_trans [OF p1 r(6)]] by simp blast
  qed
  show ?case
  proof (cases "bulklen c = -1")
    case False
    then have b: "bulklen c = int (length x)" using s by (simp add: arg_state_def)
    have "read_bulk_len e (int (length U)) c w = Inr (Go (int (length U)), c, w)" using False by (simp add: read_bulk_len_def)
    then show ?thesis using body [OF s b q f] m by (subst bulk_loop.simps) simp
  next
    case True
    have sz: "length (U @ P) \<le> 65536" using f True by (auto simp: fits_def)
    show ?thesis
    proof (rule read_bulk_len_ok [OF s True q refl sz])
      assume r: "read_bulk_len e (int (length U)) c w = Inr (Break (int (length U)), c, w)" "length P \<le> 22" "fut \<noteq> []"
      have "bulk_loop e (int (length U)) c w = Inr (Break (int (length U)), c, w)" using m r(1) by (subst bulk_loop.simps) simp
      moreover have "small c P" using r(2) by (simp add: small_def)
      ultimately show ?thesis using s q r(3) by (intro exI [of _ U] exI [of _ P] exI [of _ c] exI [of _ w] exI [of _ don] exI [of _ "x # xs"]) simp
    next
      fix U1 P1 c1
      assume r: "read_bulk_len e (int (length U)) c w = Inr (Go (int (length U1)), c1, w)" "arg_state R c1 w don (x # xs) beyond (P1 @ fut)"
        "bulklen c1 = int (length x)" "sds_str (querybuf c1) = U1 @ P1" "length (U1 @ P1) \<le> 65536" "parsed R (c, w) c1 w"
      have "fits c1 U1 P1" using r(5) by (simp add: fits_def)
      from body [OF r(2-4) this r(6)] show ?thesis using m r(1) by (subst bulk_loop.simps) simp
    qed
  qed
qed

section \<open>Requests\<close>

text \<open>
  A request in the multi bulk form, or on a line: the arguments of a line are its words. Sizes are bounded by what the
  server accepts; a line is at most 32767 bytes long, so that it fits the buffer with the bytes of one more read.
\<close>

datatype request = Multi "char list list" | Line "char list"

fun encode :: "request \<Rightarrow> char list" where
  "encode (Multi xs) = resp (CHR ''*'') (ll_text (int (length xs))) @ concat (map bulk xs)"
| "encode (Line l) = l @ CRLF"

fun split_sp :: "char list \<Rightarrow> char list list" where
  "split_sp [] = [[]]"
| "split_sp (c # cs) = (if c = CHR '' '' then [] # split_sp cs else (c # hd (split_sp cs)) # tl (split_sp cs))"

definition line_words :: "char list \<Rightarrow> char list list" where
  "line_words l = filter (\<lambda>t. t \<noteq> []) (split_sp l)"

fun args_of :: "request \<Rightarrow> char list list" where
  "args_of (Multi xs) = xs"
| "args_of (Line l) = line_words l"

fun request_ok :: "request \<Rightarrow> bool" where
  "request_ok (Multi xs) = (length xs \<le> 1048576 \<and> (\<forall>x\<in>set xs. length x \<le> 536870912))"
| "request_ok (Line l) = (length l \<le> 32767 \<and> CR \<notin> set l \<and> NUL \<notin> set l \<and> (l \<noteq> [] \<longrightarrow> hd l \<noteq> CHR ''*''))"

definition idle_state :: "nat list \<Rightarrow> ('a request_client_scheme) \<Rightarrow> nworld \<Rightarrow> request list \<Rightarrow> char list \<Rightarrow> bool" where
  "idle_state R c w reqs D \<longleftrightarrow>
     sds_ok (querybuf c) \<and> store_ok (heap w) R \<and> length R \<le> OUT_LIMIT \<and> argv c = [] \<and> multibulklen c = 0 \<and> bulklen c = -1 \<and>
     D = concat (map encode reqs) \<and> list_all request_ok reqs \<and>
     (reqtype c = 0 \<or> (case reqs of Multi _ # _ \<Rightarrow> reqtype c = REDIS_REQ_MULTIBULK | Line _ # _ \<Rightarrow> reqtype c = REDIS_REQ_INLINE | [] \<Rightarrow> False))"

definition busy_state :: "nat list \<Rightarrow> ('a request_client_scheme) \<Rightarrow> nworld \<Rightarrow> request list \<Rightarrow> char list \<Rightarrow> bool" where
  "busy_state R c w reqs D \<longleftrightarrow>
     (\<exists>don todo rs. reqs = Multi (don @ todo) # rs \<and> todo \<noteq> [] \<and> arg_state R c w don todo (concat (map encode rs)) D \<and>
       reqtype c = REDIS_REQ_MULTIBULK \<and> list_all request_ok reqs)"

lemma idle_sds: "idle_state R c w reqs D \<Longrightarrow> sds_ok (querybuf c)"
  by (simp add: idle_state_def)

lemma read_count_ok:
  assumes s: "idle_state R c w (Multi xs # rs) (Q @ fut)" and q: "sds_str (querybuf c) = Q" "length Q \<le> 65536"
  obtains (wait) "read_count e c w = Inr (Return False, c, w)" "length Q \<le> 22" "fut \<noteq> []"
  | (none) q' where "xs = []" "read_count e c w = Inr (Return True, c\<lparr>querybuf := q'\<rparr>, w)" "sds_ok q'" "length (sds_str q') < length Q"
      "sds_str q' @ fut = concat (map encode rs)"
  | (go) U P c' where "read_count e c w = Inr (Go (int (length U)), c', w)" "Q = U @ P" "U \<noteq> []" "xs \<noteq> []" "querybuf c' = querybuf c"
      "arg_state R c' w [] xs (concat (map encode rs)) (P @ fut)" "parsed R (c, w) c' w" "bulklen c' = -1"
proof -
  let ?n = "int (length xs)" and ?L = "CHR ''*'' # ll_text (int (length xs))"
  have ok: "sds_ok (querybuf c)" "length xs \<le> 1048576" using s by (simp_all add: idle_state_def)
  then have ll: "is_ll ?n" by (simp add: ll_bounds)
  note clean = ll_text_clean [OF ll]
  obtain fr where qb: "querybuf c = mk_sds Q fr" "length Q + length fr < 2147483648" using ok(1) q(1) by (auto elim!: sds_okE)
  have buf: "sh_buf (querybuf c) = Q @ NUL # fr" using qb(1) by simp
  have len: "sdslen (querybuf c) = int (length Q)" "to_i32 (int (length Q)) = int (length Q)" using qb by (simp_all add: cint)
  have D: "Q @ fut = ?L @ CRLF @ concat (map bulk xs) @ concat (map encode rs)" using s by (simp add: idle_state_def resp_def)
  have L: "CR \<notin> set ?L" "NUL \<notin> set ?L" using clean by auto
  have na: "\<not> argv c \<noteq> []" using s by (simp add: idle_state_def)
  show thesis
  proof (rule scan_cr [OF D L, of fr])
    assume p: "length Q \<le> length ?L" "strchr (Q @ NUL # fr) CR = Inr None"
    have "fut \<noteq> []" using D p(1) by (auto simp: CRLF_def)
    moreover have "\<not> sdslen (querybuf c) > REDIS_INLINE_MAX_SIZE" using len q(2) by (simp add: REDIS_INLINE_MAX_SIZE_def)
    ultimately show thesis using wait p na buf clean(3) by (simp add: read_count_def)
  next
    assume p: "Q = ?L @ [CR]" "fut = LF # concat (map bulk xs) @ concat (map encode rs)" "strchr (Q @ NUL # fr) CR = Inr (Some (length ?L))"
    have "int (length ?L) > to_i32 (sdslen (querybuf c)) - 2" using len p(1) by simp
    then show thesis using wait p na buf clean(3) by (simp add: read_count_def)
  next
    fix P assume p: "Q = ?L @ CRLF @ P" "P @ fut = concat (map bulk xs) @ concat (map encode rs)"
      "strchr (Q @ NUL # fr) CR = Inr (Some (length ?L))"
    have en: "\<not> int (length ?L) > to_i32 (sdslen (querybuf c)) - 2" using len p(1) by (simp add: CRLF_def)
    have hd: "\<not> hd (Q @ NUL # fr) \<noteq> CHR ''*''" using p(1) by simp
    have "string2ll (ll_text ?n) = Some ?n" using ll by (simp add: string2ll_iff)
    then have num: "string2ll (take (length ?L - 1) (drop 1 (Q @ NUL # fr))) = Some ?n" using p(1) by simp
    let ?U = "?L @ CRLF"
    have off: "int (length ?L) + 2 = int (length ?U)" by (simp add: CRLF_def)
    have q2: "sds_str (querybuf c) = ?U @ P" using q(1) p(1) by simp
    have small_n: "\<not> ?n > 1024 * 1024" "to_i32 ?n = ?n" using ok(2) by (simp_all add: cint)
    note unf = read_count_def if_not_P [OF na] buf p(3) rbind_simps option.case if_not_P [OF en] if_not_P [OF hd] num if_not_P [OF small_n(1)] Let_def off
    show thesis
    proof (cases "xs = []")
      case True
      obtain q' where q': "sdsrange (querybuf c) (int (length ?U)) (-1) = Inr q'" "sds_ok q'" "sds_str q' = P"
        using sdsrange_drop [OF ok(1) q2] .
      have "?n \<le> 0" using True by simp
      then have "read_count e c w = Inr (Return True, c\<lparr>querybuf := q'\<rparr>, w)"
        unfolding unf using q'(1) by simp
      then show thesis using none [of q'] True q'(2,3) p(1,2) by simp
    next
      case False
      let ?c = "c\<lparr>multibulklen := ?n, argv := [], argv_room := ?n\<rparr>"
      have "\<not> ?n \<le> 0" using False by simp
      then have "read_count e c w = Inr (Go (int (length ?U)), ?c, w)" unfolding unf small_n(2) by simp
      moreover have "arg_state R ?c w [] xs (concat (map encode rs)) (P @ fut)"
        using s p(2) ok(2) by (simp add: arg_state_def idle_state_def args_at_def)
      moreover have "parsed R (c, w) ?c w" by (simp add: parsed_def redisClient.truncate_def)
      moreover have "bulklen ?c = -1" using s by (simp add: idle_state_def)
      ultimately show thesis using go [of ?U ?c P] p(1) False by simp
    qed
  qed
qed

text \<open>The loop and what follows it.\<close>

lemma parsed_querybuf [simp]: "parsed R s (c\<lparr>querybuf := q\<rparr>) w = parsed R s c w"
  by (cases s) (simp add: parsed_def redisClient.truncate_def)

lemma arg_state_querybuf: "arg_state R c w don todo beyond D \<Longrightarrow> sds_ok q \<Longrightarrow> arg_state R (c\<lparr>querybuf := q\<rparr>) w don todo beyond D"
  by (simp add: arg_state_def)

definition after_loop ::
    "(obj_error, parse_next \<times> ('a request_client_scheme) \<times> nworld) result \<Rightarrow> (obj_error, bool \<times> ('a request_client_scheme) \<times> nworld) result" where
  "after_loop r = rbind r (\<lambda>(n, c, w).
     case n of
       Break off \<Rightarrow>
         rbind (if off \<noteq> 0 then sds_lift (sdsrange (querybuf c) off (-1)) else Inr (querybuf c)) (\<lambda>q.
           Inr (multibulklen c = 0, c\<lparr>querybuf := q\<rparr>, w))
     | Return b \<Rightarrow> Inr (b, c, w)
     | Go _ \<Rightarrow> Inl Unfinished)"

lemma after_loop_ok:
  assumes "arg_state R c w don todo beyond (P @ fut)" and "sds_str (querybuf c) = U @ P" and "fits c U P"
  obtains (wait) c' w' don' todo' where "after_loop (bulk_loop e (int (length U)) c w) = Inr (False, c', w')"
      "arg_state R c' w' don' todo' beyond (sds_str (querybuf c') @ fut)" "todo' \<noteq> []" "don' @ todo' = don @ todo" "parsed R (c, w) c' w'"
      "fut \<noteq> []" "small c' (sds_str (querybuf c'))"
  | (complete) c' w' where "after_loop (bulk_loop e (int (length U)) c w) = Inr (True, c', w')"
      "args_at (heap w') (argv c') (don @ todo)" "store_ok (heap w') (R @ argv c')" "sds_ok (querybuf c')" "sds_str (querybuf c') @ fut = beyond"
      "parsed R (c, w) c' w'"
proof -
  obtain U' P' c' w' don' todo' where l: "bulk_loop e (int (length U)) c w = Inr (Break (int (length U')), c', w')"
    "arg_state R c' w' don' todo' beyond (P' @ fut)" "sds_str (querybuf c') = U' @ P'" "don' @ todo' = don @ todo"
    "parsed R (c, w) c' w'" "todo' \<noteq> [] \<longrightarrow> fut \<noteq> [] \<and> small c' P'"
    using bulk_loop_ok [OF assms] by metis
  have ok: "sds_ok (querybuf c')" using l(2) by (simp add: arg_state_def)
  obtain q where q: "(if int (length U') \<noteq> 0 then sds_lift (sdsrange (querybuf c') (int (length U')) (-1)) else Inr (querybuf c')) = Inr q"
    "sds_ok q" "sds_str q = P'"
  proof (cases "U' = []")
    case False
    obtain q where "sdsrange (querybuf c') (int (length U')) (-1) = Inr q" "sds_ok q" "sds_str q = P'"
      using sdsrange_drop [OF ok l(3)] .
    then show thesis using that [of q] False by simp
  qed (use that [of "querybuf c'"] ok l(3) in simp)
  let ?c = "c'\<lparr>querybuf := q\<rparr>"
  have r: "after_loop (bulk_loop e (int (length U)) c w) = Inr (multibulklen c' = 0, ?c, w')"
    unfolding after_loop_def l(1) rbind_simps prod.case parse_next.case q(1) by simp
  have st: "arg_state R ?c w' don' todo' beyond (sds_str (querybuf ?c) @ fut)" using arg_state_querybuf [OF l(2) q(2)] q(3) by simp
  have fr: "parsed R (c, w) ?c w'" using l(5) by simp
  show thesis
  proof (cases "todo' = []")
    case True
    then have "multibulklen c' = 0" "bulklen ?c = -1" using l(2) by (auto simp: arg_state_def split: if_splits)
    then show thesis using complete [of ?c w'] r fr st l(4) True by (simp add: arg_state_def)
  next
    case False
    then have "multibulklen c' \<noteq> 0" using l(2) by (simp add: arg_state_def)
    moreover have "small ?c (sds_str (querybuf ?c))" using l(6) False q(3) by (simp add: small_def)
    ultimately show thesis using wait [of ?c w' don' todo'] r fr st l(4,6) False by simp
  qed
qed

lemma processMultibulk_eq:
  "processMultibulkBuffer e c w =
     rbind (if multibulklen c = 0 then read_count e c w else Inr (Go 0, c, w)) (\<lambda>(n, c, w).
       case n of
         Go off \<Rightarrow> if \<not> multibulklen c > 0 then Inl Assertion else after_loop (bulk_loop e off c w)
       | Return b \<Rightarrow> Inr (b, c, w)
       | Break _ \<Rightarrow> Inl Unfinished)"
  unfolding processMultibulkBuffer_def after_loop_def ..

text \<open>
  One request, from any point of it: either it is complete, the command line is in \<open>argv\<close> and the buffer starts with
  the next one, or bytes are missing and what is kept is small.
\<close>

definition request_state :: "nat list \<Rightarrow> ('a request_client_scheme) \<Rightarrow> nworld \<Rightarrow> request list \<Rightarrow> char list \<Rightarrow> bool" where
  "request_state R c w reqs D \<longleftrightarrow> idle_state R c w reqs D \<or> busy_state R c w reqs D"

lemma multibulk_idle:
  assumes s: "idle_state R c w (Multi xs # rs) (sds_str (querybuf c) @ fut)" and q: "length (sds_str (querybuf c)) \<le> 65536"
    and t: "reqtype c = REDIS_REQ_MULTIBULK"
  obtains (wait) c' w' where "processMultibulkBuffer e c w = Inr (False, c', w')"
      "request_state R c' w' (Multi xs # rs) (sds_str (querybuf c') @ fut)" "parsed R (c, w) c' w'" "fut \<noteq> []" "small c' (sds_str (querybuf c'))"
  | (complete) c' w' where "processMultibulkBuffer e c w = Inr (True, c', w')"
      "args_at (heap w') (argv c') xs" "store_ok (heap w') (R @ argv c')" "sds_ok (querybuf c')"
      "sds_str (querybuf c') @ fut = concat (map encode rs)" "parsed R (c, w) c' w'"
proof -
  have z: "multibulklen c = 0" and rk: "list_all request_ok (Multi xs # rs)" using s by (simp_all add: idle_state_def)
  show thesis
  proof (rule read_count_ok [OF s refl q, of e])
    assume r: "read_count e c w = Inr (Return False, c, w)" "length (sds_str (querybuf c)) \<le> 22" "fut \<noteq> []"
    have "processMultibulkBuffer e c w = Inr (False, c, w)" unfolding processMultibulk_eq if_P [OF z] r(1) by simp
    moreover have "small c (sds_str (querybuf c))" using r(2) by (simp add: small_def)
    ultimately show thesis using wait [of c w] s r(3) by (simp add: request_state_def)
  next
    fix q' assume r: "xs = []" "read_count e c w = Inr (Return True, c\<lparr>querybuf := q'\<rparr>, w)" "sds_ok q'"
      "length (sds_str q') < length (sds_str (querybuf c))" "sds_str q' @ fut = concat (map encode rs)"
    have "processMultibulkBuffer e c w = Inr (True, c\<lparr>querybuf := q'\<rparr>, w)" unfolding processMultibulk_eq if_P [OF z] r(2) by simp
    then show thesis using complete [of "c\<lparr>querybuf := q'\<rparr>" w] s r by (simp add: idle_state_def args_at_def)
  next
    fix U P c1
    assume r: "read_count e c w = Inr (Go (int (length U)), c1, w)" "sds_str (querybuf c) = U @ P" "U \<noteq> []" "xs \<noteq> []" "querybuf c1 = querybuf c"
      "arg_state R c1 w [] xs (concat (map encode rs)) (P @ fut)" "parsed R (c, w) c1 w" "bulklen c1 = -1"
    have m: "\<not> \<not> multibulklen c1 > 0" using r(4,6) by (simp add: arg_state_def)
    have e: "processMultibulkBuffer e c w = after_loop (bulk_loop e (int (length U)) c1 w)"
      unfolding processMultibulk_eq if_P [OF z] r(1) rbind_simps prod.case parse_next.case if_not_P [OF m] ..
    have f: "fits c1 U P" using q r(2) by (simp add: fits_def)
    show thesis
    proof (rule after_loop_ok [OF r(6) _ f, of e])
      show "sds_str (querybuf c1) = U @ P" using r(2,5) by simp
    next
      fix c' w' don' todo'
      assume a: "after_loop (bulk_loop e (int (length U)) c1 w) = Inr (False, c', w')"
        "arg_state R c' w' don' todo' (concat (map encode rs)) (sds_str (querybuf c') @ fut)" "todo' \<noteq> []" "don' @ todo' = [] @ xs"
        "parsed R (c1, w) c' w'" "fut \<noteq> []" "small c' (sds_str (querybuf c'))"
      have p: "parsed R (c, w) c' w'" by (rule parsed_trans [OF r(7) a(5)])
      then have "reqtype c' = REDIS_REQ_MULTIBULK" using t by (simp add: parsed_def)
      then have "busy_state R c' w' (Multi xs # rs) (sds_str (querybuf c') @ fut)"
        using a(2-4) rk unfolding busy_state_def by (intro exI [of _ don'] exI [of _ todo'] exI [of _ rs]) simp
      then show thesis using wait [of c' w'] a(1,6,7) e p by (simp add: request_state_def)
    next
      fix c' w'
      assume a: "after_loop (bulk_loop e (int (length U)) c1 w) = Inr (True, c', w')" "args_at (heap w') (argv c') ([] @ xs)"
        "store_ok (heap w') (R @ argv c')" "sds_ok (querybuf c')" "sds_str (querybuf c') @ fut = concat (map encode rs)" "parsed R (c1, w) c' w'"
      then show thesis using complete [of c' w'] e parsed_trans [OF r(7) a(6)] by simp
    qed
  qed
qed

lemma multibulk_busy:
  assumes s: "busy_state R c w (r # rs) (sds_str (querybuf c) @ fut)" and f: "fits c [] (sds_str (querybuf c))"
  obtains (wait) c' w' where "processMultibulkBuffer e c w = Inr (False, c', w')"
      "request_state R c' w' (r # rs) (sds_str (querybuf c') @ fut)" "parsed R (c, w) c' w'" "fut \<noteq> []" "small c' (sds_str (querybuf c'))"
  | (complete) c' w' where "processMultibulkBuffer e c w = Inr (True, c', w')"
      "args_at (heap w') (argv c') (args_of r)" "store_ok (heap w') (R @ argv c')" "sds_ok (querybuf c')"
      "sds_str (querybuf c') @ fut = concat (map encode rs)" "parsed R (c, w) c' w'"
proof -
  obtain don todo where d: "r = Multi (don @ todo)" "todo \<noteq> []"
    "arg_state R c w don todo (concat (map encode rs)) (sds_str (querybuf c) @ fut)" "reqtype c = REDIS_REQ_MULTIBULK" "list_all request_ok (r # rs)"
    using s by (auto simp: busy_state_def)
  have m: "multibulklen c \<noteq> 0" "\<not> \<not> multibulklen c > 0" using d(2,3) by (simp_all add: arg_state_def)
  have e: "processMultibulkBuffer e c w = after_loop (bulk_loop e (int (length ([] :: char list))) c w)"
    unfolding processMultibulk_eq if_not_P [OF m(1)] rbind_simps prod.case parse_next.case if_not_P [OF m(2)] by simp
  show thesis
  proof (rule after_loop_ok [OF d(3) _ f, of e])
    show "sds_str (querybuf c) = [] @ sds_str (querybuf c)" by simp
  next
    fix c' w' don' todo'
    assume a: "after_loop (bulk_loop e (int (length ([] :: char list))) c w) = Inr (False, c', w')"
      "arg_state R c' w' don' todo' (concat (map encode rs)) (sds_str (querybuf c') @ fut)" "todo' \<noteq> []" "don' @ todo' = don @ todo"
      "parsed R (c, w) c' w'" "fut \<noteq> []" "small c' (sds_str (querybuf c'))"
    have "reqtype c' = REDIS_REQ_MULTIBULK" using d(4) a(5) by (simp add: parsed_def)
    then have "busy_state R c' w' (r # rs) (sds_str (querybuf c') @ fut)"
      using a(2-4) d(1,5) unfolding busy_state_def by (intro exI [of _ don'] exI [of _ todo'] exI [of _ rs]) simp
    then show thesis using wait [of c' w'] a(1,5,6,7) e by (simp add: request_state_def)
  next
    fix c' w'
    assume a: "after_loop (bulk_loop e (int (length ([] :: char list))) c w) = Inr (True, c', w')" "args_at (heap w') (argv c') (don @ todo)"
      "store_ok (heap w') (R @ argv c')" "sds_ok (querybuf c')" "sds_str (querybuf c') @ fut = concat (map encode rs)" "parsed R (c, w) c' w'"
    then show thesis using complete [of c' w'] e d(1) by simp
  qed
qed

section \<open>Inline requests\<close>

lemma split_sp_not_Nil [simp]: "split_sp l \<noteq> []"
  by (cases l) auto

lemma split_sp_word: "CHR '' '' \<notin> set t \<Longrightarrow> split_sp t = [t]"
  by (induction t) auto

lemma split_sp_app: "CHR '' '' \<notin> set t \<Longrightarrow> split_sp (t @ CHR '' '' # s) = t # split_sp s"
  by (induction t) auto

lemma split_sp_unique:
  assumes "ts \<noteq> []" and "\<forall>t\<in>set ts. CHR '' '' \<notin> set t"
  shows "split_sp (join_with '' '' ts) = ts"
  using assms
proof (induction ts)
  case (Cons t ts)
  then show ?case by (cases ts) (simp_all add: split_sp_word split_sp_app)
qed simp

lemma split_sp_length: "length (split_sp l) \<le> length l + 1"
  by (induction l) auto

lemma sdssplitlen_prefix:
  assumes "0 < n" and "n \<le> length s"
  shows "sdssplitlen g s (int n) sep k = sdssplitlen g (take n s) (int n) sep k"
  using assms by (simp add: sdssplitlen_def region_def)

lemma split_line:
  assumes "length l \<le> 32767"
  obtains ts where "sdssplitlen g (l @ rest) (int (length l)) '' '' 1 = Inr (Some ts)" "\<forall>t\<in>set ts. sds_ok t"
    "filter (\<lambda>t. t \<noteq> []) (map sds_str ts) = line_words l" "length ts \<le> length l + 1"
proof (cases "l = []")
  case True
  then show thesis using that [of "[]"] by (simp add: sdssplitlen_def line_words_def)
next
  case False
  have sep: "'' '' \<noteq> []" "length '' '' < 2147483648" by simp_all
  have len: "length l < 536870912" using assms by simp
  obtain ts where t: "sdssplitlen g l (int (length l)) '' '' (int (length '' '')) = Inr (Some ts)"
    "\<forall>t\<in>set ts. sds_ok t \<and> \<not> sublist '' '' (sds_str t)" "join_with '' '' (map sds_str ts) = l"
    using sdssplitlen_law [OF False len sep, of g] by blast
  have ns: "\<forall>u\<in>set (map sds_str ts). CHR '' '' \<notin> set u"
    using t(2) by (auto simp: sublist_def in_set_conv_decomp)
  have "map sds_str ts \<noteq> []" using t(3) False by auto
  then have "split_sp l = map sds_str ts" using split_sp_unique [OF _ ns] t(3) by simp
  moreover from this have "length ts \<le> length l + 1" using split_sp_length [of l] by simp
  ultimately show thesis using that [of ts] t(1,2) sdssplitlen_prefix [of "length l" "l @ rest" g "'' ''" 1] False by (simp add: line_words_def)
qed

lemma inline_args_ok:
  assumes "store_ok (heap w) (R @ argv c)" and "args_at (heap w) (argv c) xs" and "int (length (argv c) + length ts) \<le> argv_room c"
    and "length (argv c) + length ts \<le> 1048576" and "length R \<le> OUT_LIMIT" and "\<forall>t\<in>set ts. sds_ok t"
  shows "\<exists>as w'. inline_args ts c w = Inr (c\<lparr>argv := as\<rparr>, w') \<and> store_ok (heap w') (R @ as) \<and>
    args_at (heap w') as (xs @ filter (\<lambda>t. t \<noteq> []) (map sds_str ts)) \<and> same (heap w) (heap w') (set R) \<and> w' = w\<lparr>heap := heap w'\<rparr>"
  using assms
proof (induction ts arbitrary: c w xs)
  case Nil
  then show ?case by (intro exI [of _ "argv c"] exI [of _ w]) simp
next
  case (Cons t ts)
  have t: "sds_ok t" using Cons.prems by simp
  have empty: "sdslen t \<noteq> 0 \<longleftrightarrow> sds_str t \<noteq> []" using t by (auto elim!: sds_okE)
  show ?case
  proof (cases "sds_str t = []")
    case True
    have "inline_args (t # ts) c w = inline_args ts c w" using True empty by simp
    then show ?thesis using Cons.IH [of w c xs] Cons.prems True by simp
  next
    case False
    have room: "length (R @ argv c) < REF_LIMIT" using Cons.prems(4,5) by (simp add: REF_LIMIT_def OUT_LIMIT_def)
    obtain a h where a: "createObject REDIS_STRING (PSds t) (heap w) = (a, h)" "store_ok h ((R @ argv c) @ [a])"
      "same (heap w) h (set (R @ argv c))" "text_at h a = sds_str t" "solid h a" "is_raw h a"
      using sds_object_ok [OF Cons.prems(1) room t] by metis
    let ?c = "c\<lparr>argv := argv c @ [a]\<rparr>" and ?w = "w\<lparr>heap := h\<rparr>"
    have "push_arg a c = Inr ?c" by (rule push_arg_ok) (use Cons.prems(3) in simp)
    then have step: "inline_args (t # ts) c w = inline_args ts ?c ?w" using False empty a(1) by simp
    have "args_at h (argv ?c) (xs @ [sds_str t])" using args_at_snoc [OF Cons.prems(2) a(3-6)] by simp
    then obtain as w' where r: "inline_args ts ?c ?w = Inr (?c\<lparr>argv := as\<rparr>, w')" "store_ok (heap w') (R @ as)"
      "args_at (heap w') as ((xs @ [sds_str t]) @ filter (\<lambda>t. t \<noteq> []) (map sds_str ts))" "same h (heap w') (set R)" "w' = ?w\<lparr>heap := heap w'\<rparr>"
      using Cons.IH [of ?w ?c "xs @ [sds_str t]"] a(2) Cons.prems by auto
    have "same (heap w) h (set R)" by (rule same_mono [OF a(3)]) auto
    then have "same (heap w) (heap w') (set R)" using r(4) by (simp add: same_def)
    moreover have "w' = w\<lparr>heap := heap w'\<rparr>" by (subst r(5)) simp
    ultimately show ?thesis using step r False by (intro exI [of _ as] exI [of _ w']) simp
  qed
qed

lemma inline_ok:
  assumes s: "idle_state R c w (Line l # rs) (sds_str (querybuf c) @ fut)" and t: "reqtype c = REDIS_REQ_INLINE"
  obtains (wait) "processInlineBuffer e c w = Inr (False, c, w)" "fut \<noteq> []" "small c (sds_str (querybuf c))"
  | (complete) c' w' where "processInlineBuffer e c w = Inr (True, c', w')"
      "args_at (heap w') (argv c') (line_words l)" "store_ok (heap w') (R @ argv c')" "sds_ok (querybuf c')"
      "sds_str (querybuf c') @ fut = concat (map encode rs)" "parsed R (c, w) c' w'"
proof -
  let ?Q = "sds_str (querybuf c)"
  have ok: "sds_ok (querybuf c)" and l: "length l \<le> 32767" "CR \<notin> set l" "NUL \<notin> set l" using s by (simp_all add: idle_state_def)
  obtain fr where qb: "querybuf c = mk_sds ?Q fr" "length ?Q + length fr < 2147483648" using ok by (auto elim!: sds_okE)
  have buf: "sh_buf (querybuf c) = ?Q @ NUL # fr" by (subst qb(1)) simp
  have len: "sdslen (querybuf c) = int (length ?Q)" by (subst qb(1)) (use qb(2) in simp)
  have D: "?Q @ fut = l @ CRLF @ concat (map encode rs)" using s by (simp add: idle_state_def)
  show thesis
  proof (rule scan_crlf [OF D l(2,3), of fr])
    assume p: "length ?Q \<le> length l + 1" "strstr (?Q @ NUL # fr) CRLF = Inr None"
    have "fut \<noteq> []" using D p(1) by (auto simp: CRLF_def)
    moreover have "\<not> sdslen (querybuf c) > REDIS_INLINE_MAX_SIZE" using len p(1) l(1) by (simp add: REDIS_INLINE_MAX_SIZE_def)
    moreover have "small c ?Q" using p(1) l(1) by (simp add: small_def)
    ultimately show thesis using wait p buf by (simp add: processInlineBuffer_def)
  next
    fix P assume p: "?Q = l @ CRLF @ P" "P @ fut = concat (map encode rs)" "strstr (?Q @ NUL # fr) CRLF = Inr (Some (length l))"
    obtain ts where ts: "sdssplitlen (fresh e) (l @ CRLF @ P @ NUL # fr) (int (length l)) '' '' 1 = Inr (Some ts)" "\<forall>t\<in>set ts. sds_ok t"
      "filter (\<lambda>t. t \<noteq> []) (map sds_str ts) = line_words l" "length ts \<le> length l + 1" using split_line [OF l(1)] .
    have q2: "?Q = (l @ CRLF) @ P" using p(1) by simp
    obtain q where q: "sdsrange (querybuf c) (int (length (l @ CRLF))) (-1) = Inr q" "sds_ok q" "sds_str q = P"
      using sdsrange_drop [OF ok q2] .
    have off: "int (length l) + 2 = int (length (l @ CRLF))" by (simp add: CRLF_def)
    have tn: "length ts \<le> 1048576" using ts(4) l(1) by simp
    let ?c = "c\<lparr>querybuf := q, argv := [], argv_room := int (length ts)\<rparr>"
    have st: "store_ok (heap w) (R @ argv ?c)" "length R \<le> OUT_LIMIT" using s by (simp_all add: idle_state_def)
    obtain as w' where r: "inline_args ts ?c w = Inr (?c\<lparr>argv := as\<rparr>, w')" "store_ok (heap w') (R @ as)"
      "args_at (heap w') as ([] @ filter (\<lambda>t. t \<noteq> []) (map sds_str ts))" "same (heap w) (heap w') (set R)" "w' = w\<lparr>heap := heap w'\<rparr>"
      using inline_args_ok [OF st(1), of "[]" ts] st(2) tn ts(2) by (auto simp: args_at_def)
    let ?c' = "?c\<lparr>argv := as\<rparr>"
    have "processInlineBuffer e c w = Inr (True, ?c', w')"
      unfolding processInlineBuffer_def buf p(3) rbind_simps option.case using ts(1) p(1) q(1) r(1) by (simp add: off)
    moreover have "parsed R (c, w) ?c' w'" using r(4,5) by (simp add: parsed_def redisClient.truncate_def)
    ultimately show thesis using complete [of ?c' w'] r(2,3) ts(3) q(2,3) p(2) by simp
  qed
qed

section \<open>One round\<close>

definition kept :: "nat list \<Rightarrow> ('a request_client_scheme) \<times> nworld \<Rightarrow> ('a request_client_scheme) \<Rightarrow> nworld \<Rightarrow> bool" where
  "kept R = (\<lambda>(c, w) c' w'. redisClient.truncate c' = redisClient.truncate c \<and> request_client.more c' = request_client.more c \<and>
     same (heap w) (heap w') (set R) \<and> w' = w\<lparr>heap := heap w'\<rparr>)"

lemma parsed_kept: "parsed R (request_type c, w) c' w' \<Longrightarrow> kept R (c, w) c' w'"
  by (simp add: parsed_def kept_def request_type_def redisClient.truncate_def)

lemma encode_longer: "0 < length (encode r)"
  by (cases r) (simp_all add: resp_def CRLF_def)

text \<open>The bytes of a request are gone when it is complete.\<close>

lemma state_longer:
  assumes "request_state R c w (r # rs) D"
  shows "length (concat (map encode rs)) < length D"
    and "32768 \<le> bulklen c \<Longrightarrow> int (length (concat (map encode rs))) + bulklen c + 2 \<le> int (length D)"
proof -
  have "length (concat (map encode rs)) < length D \<and> (32768 \<le> bulklen c \<longrightarrow> int (length (concat (map encode rs))) + bulklen c + 2 \<le> int (length D))"
    using assms unfolding request_state_def
  proof
    assume "idle_state R c w (r # rs) D"
    then show ?thesis using encode_longer [of r] by (simp add: idle_state_def)
  next
    assume "busy_state R c w (r # rs) D"
    then obtain don todo where d: "todo \<noteq> []" "arg_state R c w don todo (concat (map encode rs)) D" by (auto simp: busy_state_def)
    obtain x xs where x: "todo = x # xs" using d(1) by (cases todo) auto
    have "0 < length (bulk x)" by (simp add: bulk_eq)
    then show ?thesis using d(2) x by (cases "bulklen c = -1") (simp_all add: arg_state_def CRLF_def)
  qed
  then show "length (concat (map encode rs)) < length D"
    "32768 \<le> bulklen c \<Longrightarrow> int (length (concat (map encode rs))) + bulklen c + 2 \<le> int (length D)" by blast+
qed

lemma parse_ok:
  assumes s: "request_state R c w reqs (sds_str (querybuf c) @ fut)" and ne: "sds_str (querybuf c) \<noteq> []"
    and f: "fits c [] (sds_str (querybuf c))"
  obtains (wait) c' w' where "parse_request e (request_type c) w = Inr (False, c', w')"
      "request_state R c' w' reqs (sds_str (querybuf c') @ fut)" "kept R (c, w) c' w'" "fut \<noteq> []" "small c' (sds_str (querybuf c'))"
  | (complete) c' w' r rs where "reqs = r # rs" "parse_request e (request_type c) w = Inr (True, c', w')"
      "args_at (heap w') (argv c') (args_of r)" "store_ok (heap w') (R @ argv c')" "sds_ok (querybuf c')"
      "sds_str (querybuf c') @ fut = concat (map encode rs)" "kept R (c, w) c' w'"
proof -
  let ?Q = "sds_str (querybuf c)"
  have neq: "REDIS_REQ_MULTIBULK \<noteq> REDIS_REQ_INLINE" "REDIS_REQ_MULTIBULK \<noteq> 0" "REDIS_REQ_INLINE \<noteq> 0" by (simp_all add: req_consts)
  consider (busy) "busy_state R c w reqs (?Q @ fut)" | (idle) "idle_state R c w reqs (?Q @ fut)" using s by (auto simp: request_state_def)
  then show thesis
  proof cases
    case busy
    then obtain r rs where r: "reqs = r # rs" "reqtype c = REDIS_REQ_MULTIBULK" by (auto simp: busy_state_def)
    have t: "request_type c = c" using r(2) neq by (simp add: request_type_def)
    have e: "parse_request e (request_type c) w = processMultibulkBuffer e c w" using r(2) neq t by (simp add: parse_request_def)
    show thesis
    proof (rule multibulk_busy [OF busy [unfolded r(1)] f, of e])
      fix c' w' assume "processMultibulkBuffer e c w = Inr (False, c', w')" "request_state R c' w' (r # rs) (sds_str (querybuf c') @ fut)"
        "parsed R (c, w) c' w'" "fut \<noteq> []" "small c' (sds_str (querybuf c'))"
      then show thesis using wait [of c' w'] e r(1) parsed_kept [of R c w c' w'] t by simp
    next
      fix c' w' assume "processMultibulkBuffer e c w = Inr (True, c', w')" "args_at (heap w') (argv c') (args_of r)"
        "store_ok (heap w') (R @ argv c')" "sds_ok (querybuf c')" "sds_str (querybuf c') @ fut = concat (map encode rs)" "parsed R (c, w) c' w'"
      then show thesis using complete [of r rs c' w'] e r(1) parsed_kept [of R c w c' w'] t by simp
    qed
  next
    case idle
    have D: "?Q @ fut = concat (map encode reqs)" and ok: "sds_ok (querybuf c)" and rk: "list_all request_ok reqs"
      using idle by (simp_all add: idle_state_def)
    obtain r rs where r: "reqs = r # rs" using D ne by (cases reqs) auto
    obtain fr where qb: "querybuf c = mk_sds ?Q fr" using ok by (auto elim!: sds_okE)
    have "hd (sh_buf (querybuf c)) = hd ?Q" by (subst qb) (use ne in simp)
    also have "\<dots> = hd (?Q @ fut)" using ne by simp
    also have "\<dots> = hd (encode r)" using D r encode_longer [of r] by simp
    finally have h: "hd (sh_buf (querybuf c)) = hd (encode r)" .
    have sz: "length ?Q \<le> 65536" using f idle by (simp add: fits_def idle_state_def)
    let ?c = "request_type c"
    have qs: "querybuf ?c = querybuf c" by (simp add: request_type_def)
    show thesis
    proof (cases r)
      case (Multi xs)
      have t: "reqtype ?c = REDIS_REQ_MULTIBULK"
        using idle r Multi h by (auto simp: request_type_def idle_state_def resp_def)
      have i: "idle_state R ?c w (Multi xs # rs) (sds_str (querybuf ?c) @ fut)"
        using idle r Multi t qs by (simp add: idle_state_def request_type_def)
      have e: "parse_request e ?c w = processMultibulkBuffer e ?c w" using t neq by (simp add: parse_request_def)
      show thesis
      proof (rule multibulk_idle [OF i _ t, of e])
        show "length (sds_str (querybuf ?c)) \<le> 65536" using sz qs by simp
      next
        fix c' w' assume "processMultibulkBuffer e ?c w = Inr (False, c', w')" "request_state R c' w' (Multi xs # rs) (sds_str (querybuf c') @ fut)"
          "parsed R (?c, w) c' w'" "fut \<noteq> []" "small c' (sds_str (querybuf c'))"
        then show thesis using wait [of c' w'] e r Multi parsed_kept [of R c w c' w'] by simp
      next
        fix c' w' assume "processMultibulkBuffer e ?c w = Inr (True, c', w')" "args_at (heap w') (argv c') xs"
          "store_ok (heap w') (R @ argv c')" "sds_ok (querybuf c')" "sds_str (querybuf c') @ fut = concat (map encode rs)" "parsed R (?c, w) c' w'"
        then show thesis using complete [of r rs c' w'] e r Multi parsed_kept [of R c w c' w'] by simp
      qed
    next
      case (Line l)
      have "hd (encode r) \<noteq> CHR ''*''" using rk r Line by (cases l) (simp_all add: CRLF_def)
      then have t: "reqtype ?c = REDIS_REQ_INLINE"
        using idle r Line h by (auto simp: request_type_def idle_state_def)
      have i: "idle_state R ?c w (Line l # rs) (sds_str (querybuf ?c) @ fut)"
        using idle r Line t qs by (simp add: idle_state_def request_type_def)
      have e: "parse_request e ?c w = processInlineBuffer e ?c w" using t by (simp add: parse_request_def)
      show thesis
      proof (rule inline_ok [OF i t, of e])
        assume "processInlineBuffer e ?c w = Inr (False, ?c, w)" "fut \<noteq> []" "small ?c (sds_str (querybuf ?c))"
        then show thesis using wait [of ?c w] e i r Line parsed_kept [of R c w ?c w] by (simp add: request_state_def)
      next
        fix c' w' assume "processInlineBuffer e ?c w = Inr (True, c', w')" "args_at (heap w') (argv c') (line_words l)"
          "store_ok (heap w') (R @ argv c')" "sds_ok (querybuf c')" "sds_str (querybuf c') @ fut = concat (map encode rs)" "parsed R (?c, w) c' w'"
        then show thesis using complete [of r rs c' w'] e r Line parsed_kept [of R c w c' w'] by simp
      qed
    qed
  qed
qed

end
