(* ===== verification/Request_Executor.thy ===== *)
theory Request_Executor
  imports Request_Stream
begin

text \<open>
  The interface between the request parser and the execution of commands, and the parser as its client: whatever
  executes complete command lines sees exactly the requests of the stream, in order, however the stream was read.
\<close>

section \<open>The effect of a list of requests\<close>

text \<open>A request without arguments is skipped. \<open>effect\<close> is what a command line does to the state of the executor.\<close>

definition perform :: "('s \<Rightarrow> char list list \<Rightarrow> 's) \<Rightarrow> 's \<Rightarrow> request \<Rightarrow> 's" where
  "perform effect s r = (if args_of r = [] then s else effect s (args_of r))"

definition perform_all :: "('s \<Rightarrow> char list list \<Rightarrow> 's) \<Rightarrow> 's \<Rightarrow> request list \<Rightarrow> 's" where
  "perform_all effect s rs = foldl (perform effect) s rs"

fun feasible :: "('s \<Rightarrow> char list list \<Rightarrow> bool) \<Rightarrow> ('s \<Rightarrow> char list list \<Rightarrow> 's) \<Rightarrow> 's \<Rightarrow> request list \<Rightarrow> bool" where
  "feasible can effect s [] = True"
| "feasible can effect s (r # rs) =
     ((args_of r \<noteq> [] \<longrightarrow> can s (args_of r)) \<and> feasible can effect (perform effect s r) rs)"

lemma perform_all_simps [simp]: "perform_all effect s [] = s" "perform_all effect s (r # rs) = perform_all effect (perform effect s r) rs"
  by (simp_all add: perform_all_def)

lemma perform_all_append: "perform_all effect s (xs @ ys) = perform_all effect (perform_all effect s xs) ys"
  by (simp add: perform_all_def)

lemma feasible_append: "feasible can effect s (xs @ ys) \<longleftrightarrow> feasible can effect s xs \<and> feasible can effect (perform_all effect s xs) ys"
  by (induction xs arbitrary: s) auto

section \<open>Strings and arguments\<close>

lemma sdslen_str: "sds_ok q \<Longrightarrow> sdslen q = int (length (sds_str q))"
proof -
  assume "sds_ok q"
  then obtain xs fr where "q = mk_sds xs fr" "length xs + length fr < 2147483648" by (rule sds_okE)
  then show ?thesis by simp
qed

lemma decr_all_ok:
  assumes "store_ok h (R @ as)"
  obtains h' where "decr_all as h = Inr h'" "store_ok h' R" "same h h' (set R)"
  using assms
proof (induction as arbitrary: h thesis)
  case Nil
  then show ?case by simp
next
  case (Cons a as)
  have "mset (R @ a # as) = add_mset a (mset (R @ as))" by simp
  from decr_ok [OF Cons.prems(2) this] obtain h1 where h1: "decrRefCount a h = Inr h1" "store_ok h1 (R @ as)" "same h h1 (set (R @ as))"
    by (auto intro: same_mono)
  obtain h2 where h2: "decr_all as h1 = Inr h2" "store_ok h2 R" "same h1 h2 (set R)" using Cons.IH [OF _ h1(2)] by blast
  have "same h h2 (set R)" using h1(3) h2(3) by (simp add: same_def)
  then show ?case using Cons.prems(1) h1(1) h2(1,2) by simp
qed

section \<open>Bytes from the socket\<close>

text \<open>\<open>read\<close> stores the bytes behind the string, \<open>sdsIncrLen\<close> makes them part of it.\<close>

lemma append_chunk:
  assumes "sds_ok q" and "length (sds_str q) \<le> 536870914" and "0 \<le> m" and "m \<le> 16384" and "int (length chunk) \<le> m"
  obtains q1 q2 where "put (sdsMakeRoomFor g q m) (sdslen q) chunk = Inr q1" "sdsIncrLen q1 (int (length chunk)) = Inr q2" "sds_ok q2"
    "sds_str q2 = sds_str q @ chunk"
proof -
  obtain xs fr where q: "q = mk_sds xs fr" "length xs + length fr < 2147483648" using assms(1) by (rule sds_okE)
  have lim: "int (length xs) + m < SDS_LIMIT" using assms(2,4) q(1) by (simp add: SDS_LIMIT_def)
  obtain fr' where r: "sdsMakeRoomFor g q m = mk_sds xs fr'" "m \<le> int (length fr')" "length xs + length fr' < 2147483648"
    using sdsMakeRoomFor_mk [OF q(2) assms(3) lim, of g] q(1) by blast
  let ?n = "length chunk"
  have n: "?n \<le> length fr'" using assms(5) r(2) by simp
  have sl: "sdslen q = int (length xs)" using q by simp
  let ?tail = "drop ?n (NUL # fr')"
  have tl: "?tail = hd ?tail # drop ?n fr'" 
  proof -
    have "?tail \<noteq> []" using n by simp
    then have "?tail = hd ?tail # tl ?tail" by (rule list.collapse [symmetric])
    then show ?thesis by (simp add: tl_drop)
  qed
  let ?q1 = "(mk_sds xs fr')\<lparr>sh_buf := xs @ chunk @ ?tail\<rparr>"
  have p1: "put (sdsMakeRoomFor g q m) (sdslen q) chunk = Inr ?q1"
    unfolding r(1) sl using n by (simp add: put_def write_at_def)
  have "sdsIncrLen ?q1 (int ?n) = Inr (mk_sds (xs @ chunk) (drop ?n fr'))"
  proof -
    have w: "write_at (xs @ chunk @ ?tail) (length xs + ?n) [NUL] = (xs @ chunk) @ NUL # drop ?n fr'"
      by (subst tl) (simp add: write_at_def)
    have i: "to_i32 (int (length xs) + int ?n) = int (length xs + ?n)" "to_i32 (int (length fr') - int ?n) = int (length fr' - ?n)"
      using n r(3) by (simp_all add: cint of_nat_diff)
    show ?thesis
      unfolding sdsIncrLen_def using n i w by (simp add: Let_def put_def mk_sds_def nat_add_distrib)
  qed
  moreover have "sds_ok (mk_sds (xs @ chunk) (drop ?n fr'))" using n r(3) by simp
  ultimately show thesis using that p1 q(1) by simp
qed

lemma bulklen_max: "request_state R c w reqs D \<Longrightarrow> bulklen c \<le> 536870912"
proof -
  have "bulklen c \<le> 536870912" if "arg_state R c w don todo beyond D" for don todo beyond
    using that by (cases todo) (auto simp: arg_state_def split: if_splits)
  then show "request_state R c w reqs D \<Longrightarrow> bulklen c \<le> 536870912"
    by (auto simp: request_state_def idle_state_def busy_state_def)
qed

lemma request_state_read:
  assumes "request_state R c w reqs D" and "sds_ok q"
  shows "request_state R (c\<lparr>querybuf_peak := x, querybuf := q, lastinteraction := t\<rparr>) w reqs D"
proof -
  let ?c = "c\<lparr>querybuf_peak := x, querybuf := q, lastinteraction := t\<rparr>"
  have "arg_state R c w don todo beyond D \<Longrightarrow> arg_state R ?c w don todo beyond D" for don todo beyond
    using assms(2) by (simp add: arg_state_def)
  then have "busy_state R c w reqs D \<Longrightarrow> busy_state R ?c w reqs D" unfolding busy_state_def by simp blast
  moreover have "idle_state R c w reqs D \<Longrightarrow> idle_state R ?c w reqs D" using assms(2) by (auto simp: idle_state_def split: list.split request.split)
  ultimately show ?thesis using assms(1) unfolding request_state_def by blast
qed

text \<open>The event loop calls the handler while bytes are waiting; each read gives at most so many of them.\<close>

fun serve ::
    "nenv \<Rightarrow> ('s, 'a) executor \<Rightarrow> int \<Rightarrow> nat list \<Rightarrow> char list \<Rightarrow> 's \<Rightarrow> ('a request_client_scheme) \<Rightarrow> nworld \<Rightarrow>
     (obj_error, bool \<times> char list \<times> 's \<times> ('a request_client_scheme) \<times> nworld) result"
where
  "serve e exec max_len [] waiting s c w = Inr (False, waiting, s, c, w)"
| "serve e exec max_len (k # ks) waiting s c w =
     (if waiting = [] then Inr (False, waiting, s, c, w)
      else rbind (readQueryFromClient e exec max_len (Got k) waiting s c w) (\<lambda>(closed, waiting, s, c, w).
        if closed then Inr (True, waiting, s, c, w) else serve e exec max_len ks waiting s c w))"

section \<open>The interface\<close>

text \<open>
  The executor runs command lines on its state \<open>s\<close>, the client and the world. Its invariant \<open>inv s b R c w\<close> speaks of the
  references \<open>R\<close> of the program other than those in \<open>argv\<close>; it does not depend on the input side of the client.
\<close>

locale command_executor =
  fixes exec :: "('s, 'a) executor"
    and effect :: "'b \<Rightarrow> char list list \<Rightarrow> 'b"
    and can :: "'b \<Rightarrow> char list list \<Rightarrow> bool"
    and inv :: "'s \<Rightarrow> 'b \<Rightarrow> nat list \<Rightarrow> ('a request_client_scheme) \<Rightarrow> nworld \<Rightarrow> bool"
  assumes ready: "inv s b R c w \<Longrightarrow> store_ok (heap w) (R @ argv c) \<and> length R \<le> OUT_LIMIT \<and>
      \<not> has_flag c REDIS_BLOCKED \<and> \<not> has_flag c REDIS_CLOSE_AFTER_REPLY"
    and reads: "inv s b R c w \<Longrightarrow> redisClient.truncate c' = (redisClient.truncate c)\<lparr>cflags := f\<rparr> \<Longrightarrow>
      request_client.more c' = request_client.more c \<Longrightarrow> f = cflags c \<or> f = cflags c AND NOT REDIS_ASKING \<Longrightarrow> store_ok h (R @ argv c') \<Longrightarrow> same (heap w) h (set R) \<Longrightarrow>
      inv s b R c' (w\<lparr>heap := h\<rparr>)"
    and runs: "inv s b R c w \<Longrightarrow> args_at (heap w) (argv c) xs \<Longrightarrow> xs \<noteq> [] \<Longrightarrow> can b xs \<Longrightarrow>
      \<exists>s' R' c' w'. exec s c w = Inr (True, s', c', w') \<and> inv s' (effect b xs) R' c' w' \<and> querybuf c' = querybuf c"
begin

lemma reads_kept: "inv s b R c w \<Longrightarrow> kept R (c, w) c' w' \<Longrightarrow> store_ok (heap w') (R @ argv c') \<Longrightarrow> inv s b R c' w'"
proof -
  assume i: "inv s b R c w" and k: "kept R (c, w) c' w'" and st: "store_ok (heap w') (R @ argv c')"
  have t: "redisClient.truncate c' = (redisClient.truncate c)\<lparr>cflags := cflags c\<rparr>" using k by (simp add: kept_def redisClient.truncate_def)
  have m: "request_client.more c' = request_client.more c" "same (heap w) (heap w') (set R)" "w\<lparr>heap := heap w'\<rparr> = w'"
    using k by (simp_all add: kept_def)
  show ?thesis using reads [OF i t m(1) _ st m(2)] m(3) by simp
qed

lemma reset_ok:
  assumes i: "inv s b R c w"
  obtains c' w' where "resetClient c w = Inr (c', w')" "inv s b R c' w'" "querybuf c' = querybuf c" "argv c' = []" "reqtype c' = 0"
    "multibulklen c' = 0" "bulklen c' = -1"
proof -
  have "store_ok (heap w) (R @ argv c)" using ready [OF i] by simp
  then obtain h where h: "decr_all (argv c) (heap w) = Inr h" "store_ok h R" "same (heap w) h (set R)" by (rule decr_all_ok)
  define f where "f = (if has_flag c REDIS_MULTI then cflags c else cflags c AND NOT REDIS_ASKING)"
  let ?c = "c\<lparr>argv := [], cmd := None, reqtype := 0, multibulklen := 0, bulklen := -1, cflags := f\<rparr>" and ?w = "w\<lparr>heap := h\<rparr>"
  have "resetClient c w = Inr (?c, ?w)"
    by (simp add: resetClient_def freeClientArgv_def h(1) Let_def has_flag_def f_def)
  moreover have "inv s b R ?c ?w"
    by (rule reads [OF i, of _ f]) (use h in \<open>auto simp: f_def redisClient.truncate_def\<close>)
  ultimately show thesis using that [of ?c ?w] by simp
qed

text \<open>The loop of \<open>processInputBuffer\<close>.\<close>

definition consumed where
  "consumed b reqs fut s' b' R' c' w' \<longleftrightarrow>
     (\<exists>pre post. reqs = pre @ post \<and> b' = perform_all effect b pre \<and> inv s' b' R' c' w' \<and>
        request_state R' c' w' post (sds_str (querybuf c') @ fut) \<and> small c' (sds_str (querybuf c')) \<and> (fut = [] \<longrightarrow> post = []))"

lemma rounds_ok:
  assumes "inv s b R c w" and "request_state R c w reqs (sds_str (querybuf c) @ fut)" and "fits c [] (sds_str (querybuf c))"
    and "feasible can effect b reqs" and "length (sds_str (querybuf c)) < n"
  shows "\<exists>s' b' R' c' w'. input_rounds n e exec s c w = Inr (s', c', w') \<and> consumed b reqs fut s' b' R' c' w'"
  using assms
proof (induction n arbitrary: s b R c w reqs)
  case 0
  then show ?case by simp
next
  case (Suc n)
  note i = Suc.prems(1) and st = Suc.prems(2) and f = Suc.prems(3) and fe = Suc.prems(4) and n = Suc.prems(5)
  let ?Q = "sds_str (querybuf c)"
  have ok: "sds_ok (querybuf c)" using st by (auto simp: request_state_def idle_state_def busy_state_def arg_state_def)
  have len: "sdslen (querybuf c) = int (length ?Q)" by (rule sdslen_str [OF ok])
  have nf: "\<not> has_flag c REDIS_BLOCKED" "\<not> has_flag c REDIS_CLOSE_AFTER_REPLY" using ready [OF i] by simp_all
  show ?case
  proof (cases "?Q = []")
    case True
    have "reqs = []" if "fut = []"
    proof (rule ccontr)
      assume "reqs \<noteq> []"
      then obtain r rs where r: "reqs = r # rs" by (cases reqs) auto
      show False using state_longer(1) [OF st [unfolded r]] True that by simp
    qed
    moreover have "small c ?Q" using True by (simp add: small_def)
    ultimately have "consumed b reqs fut s b R c w" unfolding consumed_def using i st by (intro exI [of _ "[]"] exI [of _ reqs]) simp
    moreover have "input_rounds (Suc n) e exec s c w = Inr (s, c, w)" using len True by simp
    ultimately show ?thesis by blast
  next
    case False
    let ?p = "parse_request e (request_type c) w"
    have step: "input_rounds (Suc n) e exec s c w = rbind ?p (\<lambda>(parsed, c, w).
        if \<not> parsed then Inr (s, c, w)
        else if argv c = [] then rbind (resetClient c w) (\<lambda>(c, w). input_rounds n e exec s c w)
        else rbind (exec s c w) (\<lambda>(executed, s, c, w).
          if executed then rbind (resetClient c w) (\<lambda>(c, w). input_rounds n e exec s c w)
          else input_rounds n e exec s c w))"
      using len False nf by simp
    show ?thesis
    proof (rule parse_ok [OF st False f, of e])
      fix c1 w1
      assume p: "?p = Inr (False, c1, w1)" "request_state R c1 w1 reqs (sds_str (querybuf c1) @ fut)" "kept R (c, w) c1 w1" "fut \<noteq> []"
        "small c1 (sds_str (querybuf c1))"
      have "store_ok (heap w1) (R @ argv c1)" using p(2) by (auto simp: request_state_def idle_state_def busy_state_def arg_state_def)
      then have "inv s b R c1 w1" by (rule reads_kept [OF i p(3)])
      then have "consumed b reqs fut s b R c1 w1" unfolding consumed_def using p by (intro exI [of _ "[]"] exI [of _ reqs]) simp
      then show ?thesis using step p(1) by auto
    next
      fix c1 w1 r rs
      assume p: "reqs = r # rs" "?p = Inr (True, c1, w1)" "args_at (heap w1) (argv c1) (args_of r)" "store_ok (heap w1) (R @ argv c1)"
        "sds_ok (querybuf c1)" "sds_str (querybuf c1) @ fut = concat (map encode rs)" "kept R (c, w) c1 w1"
      have i1: "inv s b R c1 w1" by (rule reads_kept [OF i p(7,4)])
      have shrink: "length (sds_str (querybuf c1)) < length ?Q"
        "32768 \<le> bulklen c \<Longrightarrow> int (length (sds_str (querybuf c1))) + bulklen c + 2 \<le> int (length ?Q)"
        using state_longer [OF st [unfolded p(1)]] arg_cong [OF p(6), of length] by simp_all
      have sz: "length (sds_str (querybuf c1)) \<le> 65536" using f shrink by (auto simp: fits_def)
      have rk: "list_all request_ok rs" using st p(1) by (auto simp: request_state_def idle_state_def busy_state_def)
      have go: "\<exists>s' b' R' c' w'. rbind (resetClient c2 w2) (\<lambda>(c, w). input_rounds n e exec s2 c w) = Inr (s', c', w') \<and> consumed b reqs fut s' b' R' c' w'"
        if i2: "inv s2 b2 R2 c2 w2" and q2: "querybuf c2 = querybuf c1" and s2: "b2 = perform effect b r" for s2 b2 R2 c2 w2
      proof -
        obtain c3 w3 where r3: "resetClient c2 w2 = Inr (c3, w3)" "inv s2 b2 R2 c3 w3" "querybuf c3 = querybuf c2" "argv c3 = []" "reqtype c3 = 0"
          "multibulklen c3 = 0" "bulklen c3 = -1" using reset_ok [OF i2] .
        have q3: "querybuf c3 = querybuf c1" using r3(3) q2 by simp
        have "idle_state R2 c3 w3 rs (sds_str (querybuf c3) @ fut)"
          using ready [OF r3(2)] r3(4-7) p(5,6) q3 rk by (simp add: idle_state_def)
        then have st3: "request_state R2 c3 w3 rs (sds_str (querybuf c3) @ fut)" by (simp add: request_state_def)
        have "\<exists>s' b' R' c' w'. input_rounds n e exec s2 c3 w3 = Inr (s', c', w') \<and> consumed b2 rs fut s' b' R' c' w'"
        proof (rule Suc.IH [OF r3(2) st3])
          show "fits c3 [] (sds_str (querybuf c3))" using sz q3 by (simp add: fits_def)
          show "feasible can effect b2 rs" using fe p(1) s2 by simp
          show "length (sds_str (querybuf c3)) < n" using shrink(1) n q3 by simp
        qed
        then obtain s' b' R' c' w' where res: "input_rounds n e exec s2 c3 w3 = Inr (s', c', w')" "consumed b2 rs fut s' b' R' c' w'" by blast
        from res(2) obtain pre post where "rs = pre @ post" "b' = perform_all effect b2 pre" "inv s' b' R' c' w'"
          "request_state R' c' w' post (sds_str (querybuf c') @ fut)" "small c' (sds_str (querybuf c'))" "fut = [] \<longrightarrow> post = []"
          unfolding consumed_def by blast
        then have "consumed b reqs fut s' b' R' c' w'"
          unfolding consumed_def using p(1) s2 by (intro exI [of _ "r # pre"] exI [of _ post]) simp
        then show ?thesis using res(1) r3(1) by auto
      qed
      show ?thesis
      proof (cases "args_of r = []")
        case True
        then have a: "argv c1 = []" using p(3) by (simp add: args_at_def)
        have "perform effect b r = b" using True by (simp add: perform_def)
        from go [OF i1 refl this [symmetric]] show ?thesis using step p(2) a by simp
      next
        case ne: False
        then have a: "argv c1 \<noteq> []" using p(3) by (auto simp: args_at_def)
        have "can b (args_of r)" using fe p(1) ne by simp
        from runs [OF i1 p(3) ne this] obtain s2 R2 c2 w2 where x: "exec s c1 w1 = Inr (True, s2, c2, w2)"
          "inv s2 (effect b (args_of r)) R2 c2 w2" "querybuf c2 = querybuf c1" by blast
        have "effect b (args_of r) = perform effect b r" using ne by (simp add: perform_def)
        from go [OF x(2,3) this] show ?thesis using step p(2) a x(1) by simp
      qed
    qed
  qed
qed

text \<open>A read of one byte or more, and with it everything that has become complete.\<close>

lemma read_ok:
  assumes i: "inv s b R c w" and st: "request_state R c w reqs (sds_str (querybuf c) @ fut)" and sm: "small c (sds_str (querybuf c))"
    and fe: "feasible can effect b reqs" and k: "0 < k" and fut: "fut \<noteq> []" and max: "536870914 \<le> max_len"
  shows "\<exists>n s' b' R' c' w'. readQueryFromClient e exec max_len (Got k) fut s c w = Inr (False, drop n fut, s', c', w') \<and>
    0 < n \<and> consumed b reqs (drop n fut) s' b' R' c' w'"
proof -
  let ?Q = "sds_str (querybuf c)"
  have ok: "sds_ok (querybuf c)" using st by (auto simp: request_state_def idle_state_def busy_state_def arg_state_def)
  note len = sdslen_str [OF ok]
  have bl: "bulklen c \<le> 536870912" using st by (rule bulklen_max)
  have big: "reqtype c = REDIS_REQ_MULTIBULK \<and> multibulklen c \<noteq> 0" if "32768 \<le> bulklen c"
    using st that by (auto simp: request_state_def idle_state_def busy_state_def arg_state_def)
  have Q: "length ?Q \<le> 536870913" "32768 \<le> bulklen c \<Longrightarrow> int (length ?Q) < bulklen c + 2"
    using sm bl by (auto simp: small_def)
  have rl: "0 < read_length c" "read_length c \<le> 16384" "32768 \<le> bulklen c \<Longrightarrow> int (length ?Q) + read_length c \<le> bulklen c + 2"
  proof -
    have "to_i32 (to_u64 (to_u32 (bulklen c + 2) - sdslen (querybuf c))) = bulklen c + 2 - int (length ?Q)" if "32768 \<le> bulklen c"
      using Q(2) [OF that] bl that by (simp add: len cint)
    then show "0 < read_length c" "read_length c \<le> 16384" "32768 \<le> bulklen c \<Longrightarrow> int (length ?Q) + read_length c \<le> bulklen c + 2"
      using Q(2) big by (auto simp: read_length_def Let_def req_consts)
  qed
  let ?n = "min k (min (nat (to_u64 (read_length c))) (length fut))"
  let ?chunk = "take ?n fut"
  have u: "to_u64 (read_length c) = read_length c" using rl(1,2) by (simp add: cint)
  have n: "0 < ?n" "int ?n \<le> read_length c" "length ?chunk = ?n" using k fut rl(1) unfolding u by auto
  have m: "0 \<le> read_length c" "length ?Q \<le> 536870914" "int (length ?chunk) \<le> read_length c" using rl(1) Q(1) n by simp_all
  obtain q1 q2 where q: "put (sdsMakeRoomFor (fresh e) (querybuf c) (read_length c)) (sdslen (querybuf c)) ?chunk = Inr q1"
    "sdsIncrLen q1 (int (length ?chunk)) = Inr q2" "sds_ok q2" "sds_str q2 = ?Q @ ?chunk"
    using append_chunk [OF ok m(2,1) rl(2) m(3)] .
  let ?peak = "if querybuf_peak c < sdslen (querybuf c) then sdslen (querybuf c) else querybuf_peak c"
  let ?c = "c\<lparr>querybuf_peak := ?peak, querybuf := q2, lastinteraction := unixtime w\<rparr>"
  have size: "length ?Q + ?n \<le> 65536 \<or> 32768 \<le> bulklen c \<and> int (length ?Q + ?n) \<le> bulklen c + 2"
    using sm rl(2,3) n(2) by (auto simp: small_def)
  then have "sdslen q2 \<le> 536870914" using sdslen_str [OF q(3)] q(4) n(3) bl by auto
  then have over: "\<not> sdslen q2 > max_len" using max by simp
  have i1: "inv s b R ?c w"
  proof -
    have "redisClient.truncate ?c = (redisClient.truncate c)\<lparr>cflags := cflags c\<rparr>" by (simp add: redisClient.truncate_def)
    moreover have "store_ok (heap w) (R @ argv ?c)" using ready [OF i] by simp
    ultimately have "inv s b R ?c (w\<lparr>heap := heap w\<rparr>)" using reads [OF i, of ?c "cflags c" "heap w"] by simp
    then show ?thesis by simp
  qed
  have "?Q @ fut = sds_str (querybuf ?c) @ drop ?n fut" using q(4) by simp
  then have st1: "request_state R ?c w reqs (sds_str (querybuf ?c) @ drop ?n fut)"
    using request_state_read [OF st q(3)] by simp
  have f1: "fits ?c [] (sds_str (querybuf ?c))" using size q(4) n(3) by (simp add: fits_def)
  have rounds: "length (sds_str (querybuf ?c)) < nat (sdslen (querybuf ?c)) + 2" using sdslen_str [OF q(3)] by simp
  obtain s' b' R' c' w' where r: "input_rounds (nat (sdslen (querybuf ?c)) + 2) e exec s ?c w = Inr (s', c', w')"
    "consumed b reqs (drop ?n fut) s' b' R' c' w'"
    using rounds_ok [OF i1 st1 f1 fe rounds] by blast
  have "readQueryFromClient e exec max_len (Got k) fut s c w = Inr (False, drop ?n fut, s', c', w')"
  proof -
    define n where "n = ?n"
    have nz: "n \<noteq> 0" and q': "put (sdsMakeRoomFor (fresh e) (querybuf c) (read_length c)) (sdslen (querybuf c)) (take n fut) = Inr q1"
      "sdsIncrLen q1 (int n) = Inr q2" using n(1,3) q(1,2) by (simp_all add: n_def)
    have "readQueryFromClient e exec max_len (Got k) fut s c w = Inr (False, drop n fut, s', c', w')"
      unfolding readQueryFromClient_def Let_def read_answer.case n_def [symmetric] if_not_P [OF nz]
      using q' over r(1) by (cases "querybuf_peak c < sdslen (querybuf c)") (simp_all add: processInputBuffer_def)
    then show ?thesis by (simp add: n_def)
  qed
  then show ?thesis using r(2) n(1) by blast
qed

text \<open>
  However the stream of requests is cut into reads: what has been executed is a prefix of the requests, all of them
  once the bytes are read, and the client is ready for more.
\<close>

lemma serve_ok:
  assumes "inv s b R c w" and "request_state R c w reqs (sds_str (querybuf c) @ fut)" and "small c (sds_str (querybuf c))"
    and "feasible can effect b reqs" and "\<forall>k\<in>set ks. 0 < k" and "536870914 \<le> max_len" and "fut = [] \<longrightarrow> reqs = []"
  shows "\<exists>rest s' b' R' c' w'. serve e exec max_len ks fut s c w = Inr (False, rest, s', c', w') \<and>
    consumed b reqs rest s' b' R' c' w' \<and> (length fut \<le> length ks \<longrightarrow> rest = [])"
  using assms
proof (induction ks arbitrary: s b R c w reqs fut)
  case Nil
  then have "consumed b reqs fut s b R c w" unfolding consumed_def by (intro exI [of _ "[]"] exI [of _ reqs]) simp
  then show ?case by auto
next
  case (Cons k ks)
  show ?case
  proof (cases "fut = []")
    case True
    then have "consumed b reqs fut s b R c w" unfolding consumed_def using Cons.prems by (intro exI [of _ "[]"] exI [of _ reqs]) simp
    then show ?thesis using True by auto
  next
    case False
    have "0 < k" using Cons.prems(5) by simp
    from read_ok [OF Cons.prems(1-4) this False Cons.prems(6)] obtain n s1 b1 R1 c1 w1 where
      1: "readQueryFromClient e exec max_len (Got k) fut s c w = Inr (False, drop n fut, s1, c1, w1)" "0 < n"
      "consumed b reqs (drop n fut) s1 b1 R1 c1 w1" by blast
    from 1(3) obtain pre post where c: "reqs = pre @ post" "b1 = perform_all effect b pre" "inv s1 b1 R1 c1 w1"
      "request_state R1 c1 w1 post (sds_str (querybuf c1) @ drop n fut)" "small c1 (sds_str (querybuf c1))" "drop n fut = [] \<longrightarrow> post = []"
      unfolding consumed_def by blast
    have fe: "feasible can effect b1 post" using Cons.prems(4) c(1,2) by (simp add: feasible_append)
    obtain rest s' b' R' c' w' where 2: "serve e exec max_len ks (drop n fut) s1 c1 w1 = Inr (False, rest, s', c', w')"
      "consumed b1 post rest s' b' R' c' w'" "length (drop n fut) \<le> length ks \<longrightarrow> rest = []"
      using Cons.IH [OF c(3-5) fe _ Cons.prems(6) c(6)] Cons.prems(5) by auto
    from 2(2) obtain pre2 post2 where "post = pre2 @ post2" "b' = perform_all effect b1 pre2" "inv s' b' R' c' w'"
      "request_state R' c' w' post2 (sds_str (querybuf c') @ rest)" "small c' (sds_str (querybuf c'))" "rest = [] \<longrightarrow> post2 = []"
      unfolding consumed_def by blast
    then have "consumed b reqs rest s' b' R' c' w'" unfolding consumed_def using c(1,2)
      by (intro exI [of _ "pre @ pre2"] exI [of _ post2]) (simp add: perform_all_append)
    moreover have "length fut \<le> length (k # ks) \<longrightarrow> rest = []" using 2(3) 1(2) by auto
    moreover have "serve e exec max_len (k # ks) fut s c w = Inr (False, rest, s', c', w')" using False 1(1) 2(1) by simp
    ultimately show ?thesis by blast
  qed
qed

lemma stream_ok:
  assumes i: "inv s b R c w" and idle: "idle_state R c w reqs (concat (map encode reqs))" and q: "sds_str (querybuf c) = []"
    and fe: "feasible can effect b reqs" and ks: "\<forall>k\<in>set ks. 0 < k" and max: "536870914 \<le> max_len"
  shows "\<exists>rest s' b' R' c' w' n. serve e exec max_len ks (concat (map encode reqs)) s c w = Inr (False, rest, s', c', w') \<and>
    inv s' b' R' c' w' \<and> b' = perform_all effect b (take n reqs) \<and>
    (rest = [] \<longrightarrow> n = length reqs \<and> argv c' = [] \<and> sds_str (querybuf c') = []) \<and>
    (length (concat (map encode reqs)) \<le> length ks \<longrightarrow> rest = [])"
proof -
  let ?D = "concat (map encode reqs)"
  have st: "request_state R c w reqs (sds_str (querybuf c) @ ?D)" using idle q by (simp add: request_state_def)
  have sm: "small c (sds_str (querybuf c))" using q by (simp add: small_def)
  have e: "?D = [] \<longrightarrow> reqs = []"
  proof
    assume "?D = []"
    then show "reqs = []" using encode_longer by (cases reqs) (fastforce simp del: encode.simps)+
  qed
  obtain rest s' b' R' c' w' where 1: "serve e exec max_len ks ?D s c w = Inr (False, rest, s', c', w')" "consumed b reqs rest s' b' R' c' w'"
    "length ?D \<le> length ks \<longrightarrow> rest = []"
    using serve_ok [OF i st sm fe ks max e] by blast
  from 1(2) obtain pre post where c: "reqs = pre @ post" "b' = perform_all effect b pre" "inv s' b' R' c' w'"
    "request_state R' c' w' post (sds_str (querybuf c') @ rest)" "rest = [] \<longrightarrow> post = []"
    unfolding consumed_def by blast
  have "argv c' = [] \<and> sds_str (querybuf c') = []" if "rest = []"
    using c(4) c(5) that by (auto simp: request_state_def idle_state_def busy_state_def)
  then have fin: "rest = [] \<longrightarrow> length pre = length reqs \<and> argv c' = [] \<and> sds_str (querybuf c') = []" using c(1,5) by simp
  have "b' = perform_all effect b (take (length pre) reqs)" using c(1,2) by simp
  with 1(1,3) c(3) fin show ?thesis by blast
qed

end

end
