(* ===== verification/Reply_Run.thy ===== *)
theory Reply_Run
  imports Reply_Stream Refine
begin

text \<open>
  Whole programs of replies: sequences of the functions of \<open>networking.c\<close>, multi bulk replies whose length is set
  at the end included, and the writes of the event loop between them, refine one growing stream of bytes.
\<close>

section \<open>Sequences of replies\<close>

fun in_order :: "('c \<Rightarrow> nworld \<Rightarrow> (obj_error, 'c \<times> nworld) result) list \<Rightarrow> 'c \<Rightarrow> nworld \<Rightarrow> (obj_error, 'c \<times> nworld) result" where
  "in_order [] c w = Inr (c, w)"
| "in_order (f # fs) c w = andthen f (in_order fs) c w"

lemma client_ok_budget: "client_ok e held k c w \<Longrightarrow> k \<le> k' \<Longrightarrow> k' \<le> OUT_LIMIT \<Longrightarrow> client_ok e held k' c w"
proof -
  assume a: "client_ok e held k c w" "k \<le> k'" "k' \<le> OUT_LIMIT"
  then have "int k * 2 ^ 32 \<le> int k' * 2 ^ 32" by simp
  with a show ?thesis by (auto simp: client_ok_def)
qed

lemma appends_budget:
  assumes "appends e held w0 f t n" and "n \<le> m"
  shows "appends e held w0 f t m"
  unfolding appends_def
proof (intro allI impI, elim conjE)
  fix k and c :: "'a redisClient_scheme" and w
  assume a: "client_ok e held k c w" "open_client e c" "frame held w0 w" "k + m \<le> OUT_LIMIT"
  have "k + n \<le> OUT_LIMIT" using a(4) assms(2) by simp
  from appendsE [OF assms(1) a(1-3) this] obtain c' w' where r: "f c w = Inr (c', w')" "client_ok e held (k + n) c' w'"
    "open_client e c'" "frame held w0 w'" "out c' w' = out c w @ map Inl t" by metis
  have "client_ok e held (k + m) c' w'" using client_ok_budget [OF r(2)] a(4) assms(2) by simp
  then show "\<exists>c' w'. f c w = Inr (c', w') \<and> client_ok e held (k + m) c' w' \<and> open_client e c' \<and> frame held w0 w' \<and>
      out c' w' = out c w @ map Inl t" using r by blast
qed

lemma in_order_appends:
  assumes "\<And>r. r \<in> set rs \<Longrightarrow> appends e held w0 (f r) (t r) (n r)"
  shows "appends e held w0 (in_order (map f rs)) (concat (map t rs)) (sum_list (map n rs))"
  using assms
proof (induction rs)
  case Nil
  show ?case by (auto simp: appends_def)
next
  case (Cons r rs)
  have "in_order (map f (r # rs)) = andthen (f r) (in_order (map f rs))" by (simp add: fun_eq_iff)
  then show ?case using andthen_appends [OF Cons.prems [of r] Cons.IH] Cons.prems by simp
qed

text \<open>A reply whose length is set after its elements: the length object is reserved, the elements follow.\<close>

definition with_length ::
    "nenv \<Rightarrow> int \<Rightarrow> (redisClient \<Rightarrow> nworld \<Rightarrow> (obj_error, redisClient \<times> nworld) result) \<Rightarrow>
     redisClient \<Rightarrow> nworld \<Rightarrow> (obj_error, redisClient \<times> nworld) result" where
  "with_length e n f c w =
     (let (node, c, w) = addDeferredMultiBulkLength e c w in
      rbind (f c w) (\<lambda>(c, w). setDeferredMultiBulkLength e node n c w))"

lemma with_length_appends:
  assumes f: "appends e held w0 f t m" and n: "is_ll n" and t: "int (length t) + 32 < SDS_LIMIT"
  shows "appends e held w0 (with_length e n f) (resp (CHR ''*'') (ll_text n) @ t) (m + 3)"
  unfolding appends_def
proof (intro allI impI, elim conjE)
  fix k and c :: redisClient and w
  assume a: "client_ok e held k c w" "open_client e c" "frame held w0 w" "k + (m + 3) \<le> OUT_LIMIT"
  obtain d c1 w1 where 1: "addDeferredMultiBulkLength e c w = (Some d, c1, w1)" "client_ok e held (k + 1) c1 w1" "open_client e c1"
    "frame held w w1" "out c1 w1 = out c w @ [Inr d]" "d \<notin> set held" "Inr d \<notin> set (out c w)"
    by (rule addDeferred_ok [OF a(1,2)]) (use a(4) in auto)
  obtain c2 w2 where 2: "f c1 w1 = Inr (c2, w2)" "client_ok e held (k + 1 + m) c2 w2" "open_client e c2" "frame held w0 w2"
    "out c2 w2 = out c1 w1 @ map Inl t"
    by (rule appendsE [OF f 1(2,3) frame_trans [OF a(3) 1(4)]]) (use a(4) in auto)
  have o2: "out c2 w2 = out c w @ Inr d # map Inl t" using 1(5) 2(5) by simp
  obtain c3 w3 where 3: "setDeferredMultiBulkLength e (Some d) n c2 w2 = Inr (c3, w3)" "client_ok e held (k + 1 + m + 2) c3 w3"
    "open_client e c3" "frame held w2 w3" "out c3 w3 = out c w @ map Inl (resp (CHR ''*'') (ll_text n) @ t)"
    by (rule setDeferred_ok [OF 2(2,3) _ 1(6) o2 1(7) n t]) (use a(4) in auto)
  have "k + 1 + m + 2 = k + (m + 3)" by simp
  then have "client_ok e held (k + (m + 3)) c3 w3" using 3(2) by (simp only:)
  then show "\<exists>c' w'. with_length e n f c w = Inr (c', w') \<and> client_ok e held (k + (m + 3)) c' w' \<and> open_client e c' \<and>
      frame held w0 w' \<and> out c' w' = out c w @ map Inl (resp (CHR ''*'') (ll_text n) @ t)"
    using 1(1) 2(1) 3 frame_trans [OF 2(4) 3(4)] by (simp add: with_length_def)
qed

section \<open>Reply programs\<close>

datatype reply = Simple reply_op | Deferred int "reply list"

fun reply_cmd :: "nenv \<Rightarrow> reply \<Rightarrow> redisClient \<Rightarrow> nworld \<Rightarrow> (obj_error, redisClient \<times> nworld) result" where
  "reply_cmd e (Simple p) = reply_fun e p"
| "reply_cmd e (Deferred n rs) = with_length e n (in_order (map (reply_cmd e) rs))"

fun reply_text :: "(nat \<Rightarrow> char list) \<Rightarrow> reply \<Rightarrow> char list" where
  "reply_text txt (Simple p) = wire txt p"
| "reply_text txt (Deferred n rs) = resp (CHR ''*'') (ll_text n) @ concat (map (reply_text txt) rs)"

fun pieces :: "reply \<Rightarrow> nat" where
  "pieces (Simple p) = 3"
| "pieces (Deferred n rs) = sum_list (map pieces rs) + 3"

fun is_write :: "reply_op \<Rightarrow> bool" where
  "is_write (RWrite ans) = True"
| "is_write _ = False"

text \<open>Inside a reply of pending length nothing is written to the socket, and the text fits a string.\<close>

fun inner_ok :: "(nat \<Rightarrow> char list) \<Rightarrow> nat set \<Rightarrow> reply \<Rightarrow> bool" where
  "inner_ok txt A (Simple p) = (reply_pre A p \<and> \<not> is_write p)"
| "inner_ok txt A (Deferred n rs) =
     (is_ll n \<and> list_all (inner_ok txt A) rs \<and> int (length (concat (map (reply_text txt) rs))) + 32 < SDS_LIMIT)"

lemma wire_cong: "reply_pre A p \<Longrightarrow> (\<And>a. a \<in> A \<Longrightarrow> txt a = txt' a) \<Longrightarrow> wire txt p = wire txt' p"
  by (cases p) simp_all

lemma reply_cmd_appends:
  assumes sh: "shared_strings_ok held w0" and st: "store_ok (heap w0) (held @ rs)"
    and live: "\<forall>a\<in>A. a \<in> set held \<and> solid (heap w0) a \<and> text_at (heap w0) a = txt a"
  shows "inner_ok txt A r \<Longrightarrow> appends e held w0 (reply_cmd e r) (reply_text txt r) (pieces r)"
proof (induction r)
  case (Simple p)
  have live': "\<forall>a\<in>A. a \<in> set held \<and> solid (heap w0) a" using live by simp
  have p: "reply_pre A p" "p \<noteq> RWrite ans" for ans using Simple by auto
  obtain n where "n \<le> 3" "appends e held w0 (reply_fun e p) (wire (text_at (heap w0)) p) n"
    using reply_appends [OF sh st live' p] .
  moreover have "wire (text_at (heap w0)) p = wire txt p" using wire_cong [of A p "text_at (heap w0)" "txt"] Simple live by simp
  ultimately have "appends e held w0 (reply_fun e p) (wire txt p) 3" by (auto intro: appends_budget)
  then show ?case by simp
next
  case (Deferred n rs)
  have "appends e held w0 (in_order (map (reply_cmd e) rs)) (concat (map (reply_text txt) rs)) (sum_list (map pieces rs))"
    by (rule in_order_appends) (use Deferred in \<open>simp add: list_all_iff\<close>)
  from with_length_appends [OF this] Deferred.prems show ?case by simp
qed

section \<open>The stream a client sees\<close>

definition reply_step :: "nenv \<Rightarrow> redisClient \<times> nworld \<Rightarrow> reply \<Rightarrow> (obj_error, (redisClient \<times> nworld) \<times> unit) result" where
  "reply_step e s r = rbind (reply_cmd e r (fst s) (snd s)) (\<lambda>s. Inr (s, ()))"

definition reply_spec :: "(nat \<Rightarrow> char list) \<Rightarrow> char list \<times> nat \<Rightarrow> reply \<Rightarrow> (char list \<times> nat) \<times> unit" where
  "reply_spec txt a r = ((fst a @ reply_text txt r, snd a + pieces r), ())"

fun reply_ok :: "(nat \<Rightarrow> char list) \<Rightarrow> nat set \<Rightarrow> reply \<Rightarrow> bool" where
  "reply_ok txt A (Simple p) = reply_pre A p"
| "reply_ok txt A (Deferred n rs) = inner_ok txt A (Deferred n rs)"

definition reply_room :: "(nat \<Rightarrow> char list) \<Rightarrow> nat set \<Rightarrow> char list \<times> nat \<Rightarrow> reply \<Rightarrow> bool" where
  "reply_room txt A a r \<longleftrightarrow> reply_ok txt A r \<and> snd a + pieces r \<le> OUT_LIMIT"

definition live_texts :: "nat list \<Rightarrow> (nat \<Rightarrow> char list) \<Rightarrow> nat set \<Rightarrow> nworld \<Rightarrow> bool" where
  "live_texts held txt A w \<longleftrightarrow> (\<forall>a\<in>A. a \<in> set held \<and> solid (heap w) a \<and> text_at (heap w) a = txt a)"

definition stream_repr :: "nenv \<Rightarrow> nat list \<Rightarrow> (nat \<Rightarrow> char list) \<Rightarrow> nat set \<Rightarrow> redisClient \<times> nworld \<Rightarrow> char list \<times> nat \<Rightarrow> bool" where
  "stream_repr e held txt A s a \<longleftrightarrow>
     sending e held (snd a) (fst s) (snd s) \<and> shared_strings_ok held (snd s) \<and> live_texts held txt A (snd s) \<and>
     map Inl (sock (snd s)) @ out (fst s) (snd s) = map Inl (fst a)"

lemma cells_solid: "Inr ` UNIV \<inter> set (concat (map (cell h) rs)) = {} \<Longrightarrow> \<forall>r\<in>set rs. solid h r"
  by (fastforce simp: cell_def split: if_splits)

text \<open>With no pending length in the output every object of the list has its text.\<close>

lemma sending_again:
  assumes c: "client_ok e held k c w" and o: "open_client e c" and out: "out c w = map Inl t"
  shows "sending e held k c w"
proof -
  note ok = client_okD [OF c]
  have none: "Inr d \<notin> set (out c w)" for d using out by auto
  let ?B = "map Inl (take (bufpos c) (buf c)) :: (char + nat) list"
  have "\<forall>a\<in>set (reply c). solid (heap w) a"
  proof (rule ccontr)
    assume "\<not> (\<forall>a\<in>set (reply c). solid (heap w) a)"
    then obtain d where d: "d \<in> set (reply c)" "\<not> solid (heap w) d" by blast
    then obtain xs ys where x: "reply c = xs @ d # ys" "d \<notin> set xs" by (meson split_list_first)
    have "sentlen c \<le> length (?B @ concat (map (cell (heap w)) xs))"
    proof (cases "bufpos c > 0 \<or> sentlen c = 0")
      case True
      then show ?thesis using ok(3,4,11) by (auto simp: sent_ok_def)
    next
      case False
      then have s: "sentlen c < length (text_at (heap w) (hd (reply c)))" using ok(11) by (auto simp: sent_ok_def split: if_splits)
      then obtain y ys' where "xs = y # ys'" using x hole_text [OF d(2)] by (cases xs) auto
      moreover have "solid (heap w) (hd (reply c))" using s hole_text [of "heap w" "hd (reply c)"] by (metis list.size(3) not_less0)
      ultimately show ?thesis using s x by simp
    qed
    then have "Inr d \<in> set (out c w)" using d(2) x by (auto simp: out_def cell_def)
    then show False using none by blast
  qed
  then show ?thesis using c o by (simp add: sending_def)
qed

lemma live_texts_same: "live_texts held txt A w \<Longrightarrow> same (heap w) (heap w') (set held) \<Longrightarrow> live_texts held txt A w'"
  using payload_eq [of "heap w'" _ "heap w"] by (auto simp: live_texts_def same_def)

lemma shared_strings_same:
  assumes "shared_strings_ok held w" and "same (heap w) (heap w') (set held)" and "shared w' = shared w"
  shows "shared_strings_ok held w'"
proof -
  have "shared_text held w a t \<Longrightarrow> shared_text held w' a t" for a t
    using payload_eq [of "heap w'" a "heap w"] assms(2) by (auto simp: shared_text_def same_def)
  then show ?thesis using assms(1,3) by (simp add: shared_strings_ok_def)
qed

lemma reply_step_ok:
  assumes r: "stream_repr e held txt A s a" and p: "reply_room txt A a q"
  shows "\<exists>s'. reply_step e s q = Inr (s', snd (reply_spec txt a q)) \<and> stream_repr e held txt A s' (fst (reply_spec txt a q))"
proof -
  obtain c w t k where s: "s = (c, w)" "a = (t, k)" by (cases s, cases a) auto
  have R: "sending e held k c w" "shared_strings_ok held w" "live_texts held txt A w" "map Inl (sock w) @ out c w = map Inl t"
    using r s by (simp_all add: stream_repr_def)
  have C: "client_ok e held k c w" "open_client e c" using R(1) by (simp_all add: sending_def)
  have q: "reply_ok txt A q" "k + pieces q \<le> OUT_LIMIT" using p s by (simp_all add: reply_room_def)
  show ?thesis
  proof (cases "\<exists>ans. q = Simple (RWrite ans)")
    case True
    then obtain ans where qa: "q = Simple (RWrite ans)" by blast
    obtain closed c' w' where S: "sendReplyToClient e ans c w = Inr (closed, c', w')" "flushed e held k (c, w) c' w'"
      using sendReplyToClient_ok [OF R(1)] by blast
    have F: "sending e held k c' w'" "same (heap w) (heap w') (set held)" "shared w' = shared w"
      "map Inl (sock w') @ out c' w' = map Inl t" using S(2) R(4) by (simp_all add: flushed_def)
    have "sending e held (k + 3) c' w'" using F(1) q(2) qa client_ok_budget [of e held k c' w' "k + 3"] by (simp add: sending_def)
    then show ?thesis
      using S(1) F live_texts_same [OF R(3) F(2)] shared_strings_same [OF R(2) F(2,3)] s qa
      by (simp add: reply_step_def reply_spec_def stream_repr_def)
  next
    case False
    have i: "inner_ok txt A q"
    proof (cases q)
      case (Simple p)
      then show ?thesis using q(1) False by (cases p) auto
    qed (use q(1) in simp)
    have st: "store_ok (heap w) (held @ reply c)" using C(1) by (simp add: client_ok_def)
    have "appends e held w (reply_cmd e q) (reply_text txt q) (pieces q)"
      by (rule reply_cmd_appends [OF R(2) st _ i]) (use R(3) in \<open>simp add: live_texts_def\<close>)
    from appendsE [OF this C frame_refl q(2)] obtain c' w' where S: "reply_cmd e q c w = Inr (c', w')"
      "client_ok e held (k + pieces q) c' w'" "open_client e c'" "frame held w w'" "out c' w' = out c w @ map Inl (reply_text txt q)"
      by metis
    have F: "same (heap w) (heap w') (set held)" "shared w' = shared w" "sock w' = sock w" using S(4) by (simp_all add: frame_def)
    obtain t' where t': "out c w = map Inl t'" using R(4) by (auto simp: append_eq_map_conv)
    have "sending e held (k + pieces q) c' w'" by (rule sending_again [OF S(2,3)]) (simp add: S(5) t' flip: map_append)
    moreover have "map Inl (sock w') @ out c' w' = map Inl (t @ reply_text txt q)" using R(4) S(5) F(3) by simp
    ultimately show ?thesis
      using S(1) live_texts_same [OF R(3) F(1)] shared_strings_same [OF R(2) F(1,2)] s
      by (simp add: reply_step_def reply_spec_def stream_repr_def)
  qed
qed

interpretation stream: simulation "reply_step e" "stream_repr e held txts A" "reply_spec txts" "reply_room txts A" for e held txts A
  by unfold_locales (rule reply_step_ok)

end
