(* ===== verification/Command_Session.thy ===== *)
theory Command_Session
  imports Commands Reply_Frame Request_Executor Reply_Run
begin

text \<open>
  What a client of the command layer sees, as an abstract machine: the state of its transaction and the text of all
  replies so far. The commands of the machine are AUTH, PING, ECHO, MULTI, EXEC, DISCARD and UNWATCH, with unknown
  commands, wrong numbers of arguments and all refusals of \<open>processCommand\<close>. The invariant that relates client,
  server and world to it is kept by each function of the command layer.
\<close>

section \<open>The abstract machine\<close>

record session =
  authed :: bool
  in_multi :: bool
  aborting :: bool
  queue :: "(redisCommand \<times> char list list) list"
  sent :: "char list"             \<comment> \<open>the text of all replies\<close>
  budget :: nat                   \<comment> \<open>the pieces of output they are made of, at most\<close>

definition say :: "char list \<Rightarrow> session \<Rightarrow> session" where
  "say t s = s\<lparr>sent := sent s @ t, budget := budget s + 3\<rparr>"

definition error_text :: "char list \<Rightarrow> char list" where
  "error_text t = resp (CHR ''-'') (''ERR '' @ t)"

definition ok_text :: "char list" where
  "ok_text = ''+OK'' @ CRLF"

definition flag_abort :: "session \<Rightarrow> session" where
  "flag_abort s = (if in_multi s then s\<lparr>aborting := True\<rparr> else s)"

definition end_transaction :: "session \<Rightarrow> session" where
  "end_transaction s = s\<lparr>in_multi := False, aborting := False, queue := []\<rparr>"

definition password_matches :: "char list \<Rightarrow> char list \<Rightarrow> bool" where
  "password_matches pass t \<longleftrightarrow> cstr t = pass \<and> length pass \<le> REDIS_AUTHPASS_MAX_LEN"

fun basic :: "command_proc \<Rightarrow> bool" where
  "basic AuthCommand = True"
| "basic PingCommand = True"
| "basic EchoCommand = True"
| "basic UnwatchCommand = True"
| "basic _ = False"

definition transactional :: "command_proc \<Rightarrow> bool" where
  "transactional p \<longleftrightarrow> p = MultiCommand \<or> p = ExecCommand \<or> p = DiscardCommand"

fun basic_effect :: "char list option \<Rightarrow> command_proc \<Rightarrow> char list list \<Rightarrow> session \<Rightarrow> session" where
  "basic_effect pass PingCommand xs s = say (''+PONG'' @ CRLF) s"
| "basic_effect pass EchoCommand xs s = say (bulk (xs ! 1)) s"
| "basic_effect pass UnwatchCommand xs s = say ok_text s"
| "basic_effect pass AuthCommand xs s =
     (case pass of
        None \<Rightarrow> say (error_text ''Client sent AUTH, but no password is set'') s
      | Some p \<Rightarrow>
          if password_matches p (xs ! 1) then say ok_text (s\<lparr>authed := True\<rparr>)
          else say (error_text ''invalid password'') (s\<lparr>authed := False\<rparr>))"
| "basic_effect pass _ xs s = s"

definition run_queue :: "char list option \<Rightarrow> session \<Rightarrow> session" where
  "run_queue pass s =
     foldl (\<lambda>s (cm, xs). basic_effect pass (cmd_proc cm) xs s) (say (resp (CHR ''*'') (ll_text (int (length (queue s))))) s) (queue s)"

fun proc_effect :: "char list option \<Rightarrow> command_proc \<Rightarrow> char list list \<Rightarrow> session \<Rightarrow> session" where
  "proc_effect pass MultiCommand xs s =
     (if in_multi s then say (error_text ''MULTI calls can not be nested'') s else say ok_text (s\<lparr>in_multi := True\<rparr>))"
| "proc_effect pass DiscardCommand xs s =
     (if in_multi s then say ok_text (end_transaction s) else say (error_text ''DISCARD without MULTI'') s)"
| "proc_effect pass ExecCommand xs s =
     (if \<not> in_multi s then say (error_text ''EXEC without MULTI'') s
      else if aborting s
      then end_transaction (say (''-EXECABORT Transaction discarded because of previous errors.'' @ CRLF) s)
      else end_transaction (run_queue pass s))"
| "proc_effect pass p xs s = basic_effect pass p xs s"

text \<open>
  The reply that refuses a command, and whether a transaction is flagged to fail; \<open>n\<close> is the number of subscriptions
  of the client.
\<close>

definition refusal :: "redisServer \<Rightarrow> nat \<Rightarrow> session \<Rightarrow> redisCommand \<Rightarrow> (bool \<times> char list) option" where
  "refusal sv n s cm =
     (if requirepass sv \<noteq> None \<and> \<not> authed s \<and> cmd_proc cm \<noteq> AuthCommand
      then Some (True, error_text ''operation not permitted'')
      else if stop_writes_on_bgsave_err sv \<and> saveparamslen sv > 0 \<and> \<not> lastbgsave_ok sv \<and> cmd_flag cm REDIS_CMD_WRITE
      then Some (True, ''-MISCONF Redis is configured to save RDB snapshots, but is currently not able to persist on disk. Commands that may modify the data set are disabled. Please check Redis logs for details about the error.'' @ CRLF)
      else if is_slave sv \<and> repl_slave_ro sv \<and> cmd_flag cm REDIS_CMD_WRITE
      then Some (False, ''-READONLY You can't write against a read only slave.'' @ CRLF)
      else if n > 0
      then Some (False, error_text ''only (P)SUBSCRIBE / (P)UNSUBSCRIBE / QUIT allowed in this context'')
      else if is_slave sv \<and> \<not> repl_connected sv \<and> \<not> repl_serve_stale_data sv \<and> \<not> cmd_flag cm REDIS_CMD_STALE
      then Some (True, ''-MASTERDOWN Link with MASTER is down and slave-serve-stale-data is set to 'no'.'' @ CRLF)
      else if loading sv \<and> \<not> cmd_flag cm REDIS_CMD_LOADING
      then Some (False, ''-LOADING Redis is loading the dataset in memory'' @ CRLF)
      else if lua_timedout sv \<and> cmd_proc cm \<noteq> AuthCommand
      then Some (True, ''-BUSY Redis is busy running a script. You can only call SCRIPT KILL or SHUTDOWN NOSAVE.'' @ CRLF)
      else None)"

definition wrong_arity :: "redisCommand \<Rightarrow> char list list \<Rightarrow> bool" where
  "wrong_arity cm xs \<longleftrightarrow> arity cm > 0 \<and> arity cm \<noteq> int (length xs) \<or> int (length xs) < - arity cm"

definition in_quotes :: "char list \<Rightarrow> char list" where
  "in_quotes t = [CHR 0x27] @ t @ [CHR 0x27]"

definition session_effect :: "redisServer \<Rightarrow> nat \<Rightarrow> session \<Rightarrow> char list list \<Rightarrow> session" where
  "session_effect sv n s xs =
     (case find_command (commands sv) (hd xs) of
        None \<Rightarrow> say (error_text (one_line (''unknown command '' @ in_quotes (hd xs)))) (flag_abort s)
      | Some cm \<Rightarrow>
          if wrong_arity cm xs
          then say (error_text (one_line (''wrong number of arguments for '' @ in_quotes (cmd_name cm) @ '' command''))) (flag_abort s)
          else case refusal sv n s cm of
            Some (fl, t) \<Rightarrow> say t (if fl then flag_abort s else s)
          | None \<Rightarrow>
              if in_multi s \<and> \<not> transactional (cmd_proc cm)
              then say (''+QUEUED'' @ CRLF) (s\<lparr>queue := queue s @ [(cm, xs)]\<rparr>)
              else proc_effect (requirepass sv) (cmd_proc cm) xs s)"

text \<open>
  The command lines of the machine: no NUL in the name, not QUIT, not a command outside the machine; and there is room
  in the bounds on references (\<open>H\<close> of them held by the rest of the program) and output for it and the queue.
\<close>

definition queued_refs :: "session \<Rightarrow> nat" where
  "queued_refs s = sum_list (map (\<lambda>(cm, xs). length xs) (queue s))"

definition session_can :: "redisServer \<Rightarrow> nat \<Rightarrow> session \<Rightarrow> char list list \<Rightarrow> bool" where
  "session_can sv H s xs \<longleftrightarrow>
     NUL \<notin> set (hd xs) \<and> length (hd xs) \<le> 536870912 \<and> \<not> strcasecmp_eq (hd xs) ''quit'' \<and>
     (case find_command (commands sv) (hd xs) of None \<Rightarrow> True | Some cm \<Rightarrow> basic (cmd_proc cm) \<or> transactional (cmd_proc cm)) \<and>
     H + queued_refs s + 2 * length xs + budget s + 3 * length (queue s) + 10 \<le> OUT_LIMIT"

section \<open>Flags\<close>

lemma bit_pow: "bit (2 ^ m :: int) n \<longleftrightarrow> n = m"
  unfolding bit_exp_iff by auto

lemma flag_bits:
  "bit REDIS_MULTI n \<longleftrightarrow> n = 3" "bit REDIS_BLOCKED n \<longleftrightarrow> n = 4" "bit REDIS_DIRTY_CAS n \<longleftrightarrow> n = 5"
  "bit REDIS_CLOSE_AFTER_REPLY n \<longleftrightarrow> n = 6" "bit REDIS_ASKING n \<longleftrightarrow> n = 9" "bit REDIS_DIRTY_EXEC n \<longleftrightarrow> n = 12"
  using bit_pow [of 3 n] bit_pow [of 4 n] bit_pow [of 5 n] bit_pow [of 6 n] bit_pow [of 9 n] bit_pow [of 12 n]
  by (simp_all add: req_consts net_consts REDIS_DIRTY_CAS_def REDIS_DIRTY_EXEC_def)

lemma flag_is_bit:
  "has_flag c REDIS_MULTI = bit (cflags c) 3" "has_flag c REDIS_BLOCKED = bit (cflags c) 4" "has_flag c REDIS_DIRTY_CAS = bit (cflags c) 5"
  "has_flag c REDIS_CLOSE_AFTER_REPLY = bit (cflags c) 6" "has_flag c REDIS_DIRTY_EXEC = bit (cflags c) 12"
  "has_flag c REDIS_MASTER = bit (cflags c) 1"
  using has_flag_bit [of c 3] has_flag_bit [of c 4] has_flag_bit [of c 5] has_flag_bit [of c 6] has_flag_bit [of c 12] has_flag_bit [of c 1]
  by (simp_all add: req_consts net_consts REDIS_DIRTY_CAS_def REDIS_DIRTY_EXEC_def)

lemma dirty_flags: "has_flag c (REDIS_DIRTY_CAS OR REDIS_DIRTY_EXEC) \<longleftrightarrow> has_flag c REDIS_DIRTY_CAS \<or> has_flag c REDIS_DIRTY_EXEC"
  by (simp add: has_flag_def bit.conj_disj_distrib or_eq_0_iff)

lemma flag_ops:
  "bit (f OR REDIS_MULTI) n \<longleftrightarrow> bit f n \<or> n = 3" "bit (f OR REDIS_DIRTY_EXEC) n \<longleftrightarrow> bit f n \<or> n = 12"
  "bit (f AND NOT REDIS_DIRTY_CAS) n \<longleftrightarrow> bit f n \<and> n \<noteq> 5" "bit (f AND NOT REDIS_ASKING) n \<longleftrightarrow> bit f n \<and> n \<noteq> 9"
  "bit (f AND NOT (REDIS_MULTI OR REDIS_DIRTY_CAS OR REDIS_DIRTY_EXEC)) n \<longleftrightarrow> bit f n \<and> n \<noteq> 3 \<and> n \<noteq> 5 \<and> n \<noteq> 12"
  by (auto simp: bit_or_iff bit_and_iff bit_not_iff flag_bits)

lemma outside_fields:
  assumes "outside (c :: command_client) c'"
  shows "argv c' = argv c" "cmd c' = cmd c" "authenticated c' = authenticated c" "mstate c' = mstate c" "dbid c' = dbid c"
    "watched_keys c' = watched_keys c" "querybuf c' = querybuf c" "subscriptions c' = subscriptions c" "cid c' = cid c"
    "n \<noteq> 10 \<Longrightarrow> bit (cflags c') n = bit (cflags c) n"
  using assms by (cases c; cases c'; simp add: outside_def)+

section \<open>The invariant\<close>

text \<open>The part of the server state that commands of the machine do not change.\<close>

definition config :: "redisServer \<Rightarrow> redisServer" where
  "config sv = sv\<lparr>also_propagate := [], dirty := 0, stat_numcommands := 0, ticks := 0, events := []\<rparr>"

definition same_config :: "redisServer \<Rightarrow> redisServer \<Rightarrow> bool" where
  "same_config sv sv' \<longleftrightarrow> config sv' = config sv"

text \<open>Entries of commands of the machine have the number of arguments their functions read, and are read-only.\<close>

definition entry_ok :: "redisCommand \<Rightarrow> bool" where
  "entry_ok cm \<longleftrightarrow> NUL \<notin> set (cmd_name cm) \<and> length (cmd_name cm) \<le> 536870912 \<and>
     (cmd_proc cm = EchoCommand \<or> cmd_proc cm = AuthCommand \<longrightarrow> arity cm = 2) \<and>
     (basic (cmd_proc cm) \<longrightarrow> cmd_flag cm REDIS_CMD_READONLY)"

definition server_ok :: "cenv \<Rightarrow> redisServer \<Rightarrow> bool" where
  "server_ok e sv \<longleftrightarrow> list_all (\<lambda>(k, cm). entry_ok cm) (commands sv) \<and> ready_keys sv = 0 \<and>
     (\<forall>p. requirepass sv = Some p \<longrightarrow> NUL \<notin> set p \<and> length p < 2147483648) \<and> (\<forall>sv' w. freeMemoryIfNeeded e sv' w = Inr (True, sv', w))"

text \<open>The other shared objects the command layer replies with.\<close>

definition command_strings_ok :: "nat list \<Rightarrow> nworld \<Rightarrow> bool" where
  "command_strings_ok held w \<longleftrightarrow> shared_strings_ok held w \<and>
     shared_text held w (ok_obj (shared w)) ok_text \<and>
     shared_text held w (pong (shared w)) (''+PONG'' @ CRLF) \<and>
     shared_text held w (queued (shared w)) (''+QUEUED'' @ CRLF) \<and>
     shared_text held w (execaborterr (shared w)) (''-EXECABORT Transaction discarded because of previous errors.'' @ CRLF) \<and>
     shared_text held w (bgsaveerr (shared w)) (''-MISCONF Redis is configured to save RDB snapshots, but is currently not able to persist on disk. Commands that may modify the data set are disabled. Please check Redis logs for details about the error.'' @ CRLF) \<and>
     shared_text held w (roslaveerr (shared w)) (''-READONLY You can't write against a read only slave.'' @ CRLF) \<and>
     shared_text held w (masterdownerr (shared w)) (''-MASTERDOWN Link with MASTER is down and slave-serve-stale-data is set to 'no'.'' @ CRLF) \<and>
     shared_text held w (loadingerr (shared w)) (''-LOADING Redis is loading the dataset in memory'' @ CRLF) \<and>
     shared_text held w (slowscripterr (shared w)) (''-BUSY Redis is busy running a script. You can only call SCRIPT KILL or SHUTDOWN NOSAVE.'' @ CRLF)"

definition queue_refs :: "multiCmd list \<Rightarrow> nat list" where
  "queue_refs q = concat (map mc_argv q)"

definition queued_as :: "redisServer \<Rightarrow> ostore \<Rightarrow> multiCmd \<Rightarrow> redisCommand \<times> char list list \<Rightarrow> bool" where
  "queued_as sv h mc q \<longleftrightarrow> mc_cmd mc = Some (fst q) \<and> args_at h (mc_argv mc) (snd q) \<and> basic (cmd_proc (fst q)) \<and> entry_ok (fst q) \<and>
     \<not> wrong_arity (fst q) (snd q)"

text \<open>\<open>extra\<close> are the references in the argument vector of the command line that is executed.\<close>

definition view_ok :: "cenv \<Rightarrow> redisServer \<Rightarrow> nat \<Rightarrow> redisServer \<Rightarrow> session \<Rightarrow> command_client \<Rightarrow> nworld \<Rightarrow> bool" where
  "view_ok e sv0 n sv s c w \<longleftrightarrow> same_config sv0 sv \<and> also_propagate sv = [] \<and> map Inl (sock w) @ out c w = map Inl (sent s) \<and>
     authenticated c = authed s \<and> has_flag c REDIS_MULTI = in_multi s \<and> has_flag c REDIS_DIRTY_EXEC = aborting s \<and>
     \<not> has_flag c REDIS_DIRTY_CAS \<and> \<not> has_flag c REDIS_BLOCKED \<and> watched_keys c = [] \<and> subscriptions c = n \<and>
     list_all2 (queued_as sv0 (heap w)) (mstate c) (queue s)"

definition session_ok ::
    "cenv \<Rightarrow> redisServer \<Rightarrow> nat \<Rightarrow> nat list \<Rightarrow> nat list \<Rightarrow> redisServer \<Rightarrow> session \<Rightarrow> command_client \<Rightarrow> nworld \<Rightarrow> bool" where
  "session_ok e sv0 n held extra sv s c w \<longleftrightarrow>
     client_ok (net e) (held @ queue_refs (mstate c) @ extra) (budget s) c w \<and> open_client (net e) c \<and>
     command_strings_ok held w \<and> view_ok e sv0 n sv s c w"

lemma args_at_same: "args_at h as xs \<Longrightarrow> same h h' A \<Longrightarrow> set as \<subseteq> A \<Longrightarrow> args_at h' as xs"
  using same_map [of h h' A as] payload_eq [of h' _ h] is_raw_eq [of h' _ h] by (auto simp: args_at_def same_def)

lemma queue_same:
  assumes "list_all2 (queued_as sv h) q xs" and "same h h' A" and "set (queue_refs q) \<subseteq> A"
  shows "list_all2 (queued_as sv h') q xs"
  using assms(1,3)
proof (induction rule: list_all2_induct)
  case (Cons x xs y ys)
  then show ?case using args_at_same [OF _ assms(2)] by (auto simp: queued_as_def queue_refs_def)
qed simp

lemma shared_strings_mono: "shared_strings_ok held w \<Longrightarrow> set held \<subseteq> set H \<Longrightarrow> length H < OUT_LIMIT \<Longrightarrow> shared_strings_ok H w"
  by (auto simp: shared_strings_ok_def shared_text_def)

lemma command_strings_same:
  assumes "command_strings_ok held w" and "same (heap w) (heap w') (set held)" and "shared w' = shared w"
  shows "command_strings_ok held w'"
proof -
  have "shared_text held w a t \<Longrightarrow> shared_text held w' a t" for a t
    using payload_eq [of "heap w'" a "heap w"] assms(2) by (auto simp: shared_text_def same_def)
  then show ?thesis using assms(1,3) by (simp add: command_strings_ok_def shared_strings_ok_def)
qed

section \<open>Replies\<close>

lemma sessionD:
  assumes "session_ok e sv0 n held extra sv s c w"
  shows "client_ok (net e) (held @ queue_refs (mstate c) @ extra) (budget s) c w" "open_client (net e) c" "command_strings_ok held w"
    "view_ok e sv0 n sv s c w" "shared_strings_ok held w" "store_ok (heap w) ((held @ queue_refs (mstate c) @ extra) @ reply c)"
  using assms by (simp_all add: session_ok_def command_strings_ok_def client_ok_def)

lemma say_simps [simp]:
  "sent (say t s) = sent s @ t" "budget (say t s) = budget s + 3" "queue (say t s) = queue s" "authed (say t s) = authed s"
  "in_multi (say t s) = in_multi s" "aborting (say t s) = aborting s"
  by (simp_all add: say_def)

lemma session_reply:
  assumes S: "session_ok e sv0 n held extra sv s c w"
    and f: "shared_strings_ok (held @ queue_refs (mstate c) @ extra) w \<Longrightarrow> appends (net e) (held @ queue_refs (mstate c) @ extra) w f t k"
    and k: "k \<le> 3" and cf: "confined f" and b: "budget s + 3 \<le> OUT_LIMIT" "length (held @ queue_refs (mstate c) @ extra) < OUT_LIMIT"
  obtains c' w' where "f c w = Inr (c', w')" "session_ok e sv0 n held extra sv (say t s) c' w'" "outside c c'"
    "frame (held @ queue_refs (mstate c) @ extra) w w'"
proof -
  let ?H = "held @ queue_refs (mstate c) @ extra"
  note D = sessionD [OF S]
  have "shared_strings_ok ?H w" by (rule shared_strings_mono [OF D(5)]) (use b in auto)
  then have A: "appends (net e) ?H w f t 3" using appends_budget [OF f k] by blast
  from appendsE [OF A D(1,2) frame_refl b(1)] obtain c' w' where 1: "f c w = Inr (c', w')" "client_ok (net e) ?H (budget s + 3) c' w'"
    "open_client (net e) c'" "frame ?H w w'" "out c' w' = out c w @ map Inl t" by metis
  have o: "outside c c'" by (rule confinedD [OF cf 1(1)])
  note of = outside_fields [OF o]
  have sm: "same (heap w) (heap w') (set ?H)" "shared w' = shared w" "sock w' = sock w" using 1(4) by (simp_all add: frame_def)
  have "command_strings_ok held w'" by (rule command_strings_same [OF D(3) _ sm(2)]) (use sm(1) in \<open>auto simp: same_def\<close>)
  moreover have "view_ok e sv0 n sv (say t s) c' w'"
  proof -
    have q: "list_all2 (queued_as sv0 (heap w')) (mstate c) (queue s)"
      using D(4) by (intro queue_same [OF _ sm(1)]) (auto simp: view_ok_def)
    have o1: "map Inl (sock w') @ out c' w' = map Inl (sent (say t s))" using D(4) 1(5) sm(3) by (simp add: view_ok_def)
    show ?thesis using D(4) q o1 of unfolding view_ok_def flag_is_bit by simp
  qed
  ultimately have "session_ok e sv0 n held extra sv (say t s) c' w'" using 1(2,3) of(4) by (simp add: session_ok_def)
  then show thesis using that 1(1,4) o by blast
qed

text \<open>The replies of the command layer.\<close>

lemma reply_object:
  assumes S: "session_ok e sv0 n held extra sv s c w" and a: "shared_text held w a t"
    and b: "budget s + 3 \<le> OUT_LIMIT" "length (held @ queue_refs (mstate c) @ extra) < OUT_LIMIT"
  obtains c' w' where "addReply (net e) a c w = Inr (c', w')" "session_ok e sv0 n held extra sv (say t s) c' w'" "outside c c'"
    "frame (held @ queue_refs (mstate c) @ extra) w w'"
proof (rule session_reply [OF S _ _ confined_addReply b])
  show "appends (net e) (held @ queue_refs (mstate c) @ extra) w (addReply (net e) a) t 1" if "shared_strings_ok (held @ queue_refs (mstate c) @ extra) w"
    by (rule addReply_shared [OF that]) (use a in \<open>simp add: shared_text_def\<close>)
qed (use that in simp_all)

lemma reply_error:
  assumes S: "session_ok e sv0 n held extra sv s c w" and a: "NUL \<notin> set t" "length t < 2147483648"
    and b: "budget s + 3 \<le> OUT_LIMIT" "length (held @ queue_refs (mstate c) @ extra) < OUT_LIMIT"
  obtains c' w' where "addReplyError (net e) (t @ [NUL]) c w = Inr (c', w')" "session_ok e sv0 n held extra sv (say (error_text t) s) c' w'"
    "outside c c'" "frame (held @ queue_refs (mstate c) @ extra) w w'"
proof (rule session_reply [OF S _ _ confined_error b])
  show "appends (net e) (held @ queue_refs (mstate c) @ extra) w (addReplyError (net e) (t @ [NUL])) (error_text t) 3"
    using addReplyError_appends [of "t @ [NUL]" "net e" "held @ queue_refs (mstate c) @ extra" w] a by (simp add: error_text_def)
qed (use that in simp_all)

lemma reply_format:
  assumes S: "session_ok e sv0 n held extra sv s c w" and a: "NUL \<notin> set t" "int (length t) < SDS_LIMIT"
    and b: "budget s + 3 \<le> OUT_LIMIT" "length (held @ queue_refs (mstate c) @ extra) < OUT_LIMIT"
  obtains c' w' where "addReplyErrorFormat (net e) t c w = Inr (c', w')" "session_ok e sv0 n held extra sv (say (error_text (one_line t)) s) c' w'"
    "outside c c'" "frame (held @ queue_refs (mstate c) @ extra) w w'"
proof (rule session_reply [OF S _ _ confined_format b])
  show "appends (net e) (held @ queue_refs (mstate c) @ extra) w (addReplyErrorFormat (net e) t) (error_text (one_line t)) 3"
    using addReplyErrorFormat_appends [of t "net e" "held @ queue_refs (mstate c) @ extra" w] a by (simp add: error_text_def cstr_id)
qed (use that in simp_all)

lemma reply_bulk:
  assumes S: "session_ok e sv0 n held extra sv s c w" and a: "a \<in> set (held @ queue_refs (mstate c) @ extra)" "solid (heap w) a"
    and b: "budget s + 3 \<le> OUT_LIMIT" "length (held @ queue_refs (mstate c) @ extra) < OUT_LIMIT"
  obtains c' w' where "addReplyBulk (net e) a c w = Inr (c', w')" "session_ok e sv0 n held extra sv (say (bulk (text_at (heap w) a)) s) c' w'"
    "outside c c'" "frame (held @ queue_refs (mstate c) @ extra) w w'"
proof (rule session_reply [OF S _ _ confined_bulk b])
  show "appends (net e) (held @ queue_refs (mstate c) @ extra) w (addReplyBulk (net e) a) (bulk (text_at (heap w) a)) 3"
    if "shared_strings_ok (held @ queue_refs (mstate c) @ extra) w"
    by (rule addReplyBulk_appends [OF that a sessionD(6) [OF S]])
qed (use that in simp_all)

lemma reply_length:
  assumes S: "session_ok e sv0 n held extra sv s c w" and a: "is_ll (int m)"
    and b: "budget s + 3 \<le> OUT_LIMIT" "length (held @ queue_refs (mstate c) @ extra) < OUT_LIMIT"
  obtains c' w' where "addReplyMultiBulkLen (net e) (int m) c w = Inr (c', w')"
    "session_ok e sv0 n held extra sv (say (resp (CHR ''*'') (ll_text (int m))) s) c' w'"
    "outside c c'" "frame (held @ queue_refs (mstate c) @ extra) w w'"
proof (rule session_reply [OF S _ _ confined_multi b])
  show "appends (net e) (held @ queue_refs (mstate c) @ extra) w (addReplyMultiBulkLen (net e) (int m)) (resp (CHR ''*'') (ll_text (int m))) 1"
    if "shared_strings_ok (held @ queue_refs (mstate c) @ extra) w"
    unfolding addReplyMultiBulkLen_def by (rule addReplyLongLongWithPrefix_appends [OF that a]) simp
qed (use that in simp_all)

section \<open>Passwords\<close>

lemma xor_zero: "x XOR y = 0 \<longleftrightarrow> x = (y :: int)"
  by (auto simp: bit_eq_iff bit_xor_iff)

lemma schar_inject: "schar a = schar b \<longleftrightarrow> a = b"
proof
  assume "schar a = schar b"
  then have "take_bit 8 (uchar a) = take_bit 8 (uchar b)" by (simp add: schar_def signed_take_bit_eq_iff_take_bit_eq)
  then have "uchar a = uchar b" by (simp add: take_bit_eq_mod)
  then show "a = b" by simp
qed simp

lemma foldl_or_zero: "foldl (\<lambda>d j. d OR f j) (d :: int) js = 0 \<longleftrightarrow> d = 0 \<and> (\<forall>j\<in>set js. f j = 0)"
  by (induction js arbitrary: d) (auto simp: or_eq_0_iff)

lemma padded_length: "length s \<le> REDIS_AUTHPASS_MAX_LEN \<Longrightarrow> length (padded s) = REDIS_AUTHPASS_MAX_LEN"
  by (simp add: padded_def)

lemma strcmp_law:
  assumes "NUL \<in> set a" and "NUL \<in> set b" and l: "length (cstr a) < 2147483648" "length (cstr b) < 2147483648"
  obtains d where "time_independent_strcmp a b = Inr d"
    "d = 0 \<longleftrightarrow> cstr a = cstr b \<and> length (cstr a) \<le> REDIS_AUTHPASS_MAX_LEN"
proof -
  let ?x = "cstr a" and ?y = "cstr b" and ?M = "REDIS_AUTHPASS_MAX_LEN"
  from l have u: "to_u64 (int (length ?x)) = int (length ?x)" "to_u64 (int (length ?y)) = int (length ?y)" by (simp_all add: cint)
  define diff where "diff = foldl (\<lambda>d j. d OR (schar (padded ?x ! j) XOR schar (padded ?y ! j))) 0 [0..<?M]"
  have r: "time_independent_strcmp a b =
      (if length ?x > ?M \<or> length ?y > ?M then Inr 1 else Inr (diff OR (int (length ?x) XOR int (length ?y))))"
    using assms(1,2) u by (simp add: time_independent_strcmp_def strlen_cstr Let_def diff_def)
  show thesis
  proof (cases "length ?x > ?M \<or> length ?y > ?M")
    case True
    then have "\<not> (?x = ?y \<and> length ?x \<le> ?M)" by auto
    then show thesis using that [of 1] r True by simp
  next
    case False
    have "diff OR (int (length ?x) XOR int (length ?y)) = 0 \<longleftrightarrow> length ?x = length ?y \<and> (\<forall>j<?M. padded ?x ! j = padded ?y ! j)"
      by (auto simp: or_eq_0_iff diff_def foldl_or_zero xor_zero schar_inject)
    also have "\<dots> \<longleftrightarrow> length ?x = length ?y \<and> padded ?x = padded ?y"
      using False by (auto simp: padded_length intro: nth_equalityI)
    also have "\<dots> \<longleftrightarrow> ?x = ?y" by (auto simp: padded_def)
    finally show thesis using that [of "diff OR (int (length ?x) XOR int (length ?y))"] r False by simp
  qed
qed

section \<open>Reading arguments\<close>

text \<open>Arguments come from the parser or from the queue: they are strings in the raw encoding.\<close>

section \<open>Reading arguments\<close>

lemma arg_sds_ok:
  assumes "store_ok (heap w) held" and "args_at (heap w) (argv c) xs" and "i < length xs"
  obtains d where "arg_sds c w i = Inr d" "sds_ok d" "sds_str d = xs ! i"
proof -
  have i: "i < length (argv c)" using assms(2,3) by (auto simp: args_at_def)
  then have a: "solid (heap w) (argv c ! i)" "is_raw (heap w) (argv c ! i)" "text_at (heap w) (argv c ! i) = xs ! i"
    using assms(2) by (auto simp: args_at_def)
  obtain ob d where "objs (heap w) (argv c ! i) = Some ob" "optr ob = PSds d" "sds_ok d" "text_at (heap w) (argv c ! i) = sds_str d"
    using raw_sds [OF assms(1) a(2,1)] by metis
  then show thesis using that [of d] a(3) i by (simp add: arg_sds_def arg_at_def)
qed

section \<open>The simple commands\<close>

text \<open>What a command leaves alone, for the references \<open>H\<close>.\<close>

definition passes :: "nat list \<Rightarrow> command_client \<times> nworld \<Rightarrow> command_client \<Rightarrow> nworld \<Rightarrow> bool" where
  "passes H = (\<lambda>(c, w) c' w'. same (heap w) (heap w') (set H) \<and> argv c' = argv c \<and> cmd c' = cmd c \<and> mstate c' = mstate c \<and> querybuf c' = querybuf c)"

lemma passes_outside: "outside c c' \<Longrightarrow> frame H w w' \<Longrightarrow> passes H (c, w) c' w'"
  by (simp add: passes_def frame_def outside_fields)

lemma passes_refl [simp]: "passes H (c, w) c w"
  by (simp add: passes_def)

lemma passes_trans: "passes H (c, w) c1 w1 \<Longrightarrow> passes H (c1, w1) c2 w2 \<Longrightarrow> passes H (c, w) c2 w2"
  by (simp add: passes_def same_def)

lemma session_server:
  "session_ok e sv0 n held extra sv s c w \<Longrightarrow> same_config sv0 sv' \<Longrightarrow> also_propagate sv' = [] \<Longrightarrow> session_ok e sv0 n held extra sv' s c w"
  by (simp add: session_ok_def view_ok_def)

text \<open>The output side does not depend on the fields of the later layers.\<close>

lemma command_updates [simp]:
  "client_ok e' H k (c\<lparr>authenticated := b\<rparr>) w = client_ok e' H k c w" "out (c\<lparr>authenticated := b\<rparr>) w = out c w"
  "client_ok e' H k (c\<lparr>mstate := q\<rparr>) w = client_ok e' H k c w" "out (c\<lparr>mstate := q\<rparr>) w = out c w"
  "client_ok e' H k (c\<lparr>cflags := f\<rparr>) w = client_ok e' H k c w" "out (c\<lparr>cflags := f\<rparr>) w = out c w"
  "client_ok e' H k (c\<lparr>argv := as\<rparr>) w = client_ok e' H k c w" "out (c\<lparr>argv := as\<rparr>) w = out c w"
  "client_ok e' H k (c\<lparr>cmd := x\<rparr>) w = client_ok e' H k c w" "out (c\<lparr>cmd := x\<rparr>) w = out c w"
  "client_ok e' H k (c\<lparr>lastcmd := x\<rparr>) w = client_ok e' H k c w" "out (c\<lparr>lastcmd := x\<rparr>) w = out c w"
  "open_client e' (c\<lparr>authenticated := b\<rparr>) = open_client e' c" "open_client e' (c\<lparr>mstate := q\<rparr>) = open_client e' c"
  "open_client e' (c\<lparr>argv := as\<rparr>) = open_client e' c" "open_client e' (c\<lparr>cmd := x\<rparr>) = open_client e' c"
  "open_client e' (c\<lparr>lastcmd := x\<rparr>) = open_client e' c"
  by (simp_all add: client_ok_def sent_ok_def out_def open_client_def has_flag_def)

lemma session_authed: "session_ok e sv0 n held extra sv s c w \<Longrightarrow> session_ok e sv0 n held extra sv (s\<lparr>authed := b\<rparr>) (c\<lparr>authenticated := b\<rparr>) w"
  by (simp add: session_ok_def view_ok_def has_flag_def)

lemma unwatch_none: "watched_keys c = [] \<Longrightarrow> unwatchAllKeys sv c w = Inr (sv, c, w)"
  by (simp add: unwatchAllKeys_def)

lemma session_config:
  assumes "session_ok e sv0 n held extra sv s c w"
  shows "requirepass sv = requirepass sv0" "commands sv = commands sv0" "ready_keys sv = ready_keys sv0"
proof -
  have "config sv = config sv0" using assms by (simp add: session_ok_def view_ok_def same_config_def)
  note eq = arg_cong [OF this]
  show "requirepass sv = requirepass sv0" "commands sv = commands sv0" "ready_keys sv = ready_keys sv0"
    using eq [of requirepass] eq [of commands] eq [of ready_keys] by (simp_all add: config_def)
qed

text \<open>The bounds a step of the machine needs.\<close>

definition room :: "nat list \<Rightarrow> session \<Rightarrow> bool" where
  "room H s \<longleftrightarrow> budget s + 3 \<le> OUT_LIMIT \<and> length H < OUT_LIMIT"

lemma command_strings:
  assumes "session_ok e sv0 n held extra sv s c w"
  shows "shared_text held w (ok_obj (shared w)) ok_text" "shared_text held w (pong (shared w)) (''+PONG'' @ CRLF)"
    "shared_text held w (queued (shared w)) (''+QUEUED'' @ CRLF)"
    "shared_text held w (execaborterr (shared w)) (''-EXECABORT Transaction discarded because of previous errors.'' @ CRLF)"
  using sessionD(3) [OF assms] by (simp_all add: command_strings_ok_def)

lemma with_client_ok: "f c w = Inr (c', w') \<Longrightarrow> with_client f sv c w = Inr (sv, c', w')"
  by (simp add: with_client_def)

lemma basic_ok:
  assumes S: "session_ok e sv0 n held extra sv s c w" and ar: "args_at (heap w) (argv c) xs"
    and sub: "set (argv c) \<subseteq> set (held @ queue_refs (mstate c) @ extra)" and p: "basic p"
    and len: "p = EchoCommand \<or> p = AuthCommand \<Longrightarrow> length xs = 2"
    and r: "room (held @ queue_refs (mstate c) @ extra) s" and so: "server_ok e sv0"
  shows "\<exists>c' w'. run_command e callf p sv c w = Inr (sv, c', w') \<and>
    session_ok e sv0 n held extra sv (basic_effect (requirepass sv0) p xs s) c' w' \<and>
    passes (held @ queue_refs (mstate c) @ extra) (c, w) c' w'"
proof -
  let ?H = "held @ queue_refs (mstate c) @ extra"
  note rm = r [unfolded room_def, THEN conjunct1] r [unfolded room_def, THEN conjunct2]
  have alen: "length (argv c) = length xs" using ar by (auto simp: args_at_def)
  note cfg = session_config [OF S]
  from p consider "p = PingCommand" | "p = EchoCommand" | "p = UnwatchCommand" | "p = AuthCommand" by (cases p) auto
  then show ?thesis
  proof cases
    case 1
    from reply_object [OF S command_strings(2) [OF S] rm] obtain c' w' where "addReply (net e) (pong (shared w)) c w = Inr (c', w')"
      "session_ok e sv0 n held extra sv (say (''+PONG'' @ CRLF) s) c' w'" "outside c c'" "frame ?H w w'" .
    then show ?thesis using 1 by (auto simp: pingCommand_def with_client_ok intro: passes_outside)
  next
    case 2
    then have l: "length xs = 2" using len by simp
    then have a1: "argv c ! 1 \<in> set (argv c)" using alen by simp
    then have a: "argv c ! 1 \<in> set (argv c)" "argv c ! 1 \<in> set ?H" using subsetD [OF sub] by blast+
    then have so': "solid (heap w) (argv c ! 1)" "text_at (heap w) (argv c ! 1) = xs ! 1" using ar l alen by (auto simp: args_at_def)
    from reply_bulk [OF S a(2) so'(1) rm] obtain c' w' where "addReplyBulk (net e) (argv c ! 1) c w = Inr (c', w')"
      "session_ok e sv0 n held extra sv (say (bulk (xs ! 1)) s) c' w'" "outside c c'" "frame ?H w w'" unfolding so'(2) .
    then show ?thesis using 2 l alen by (auto simp: echoCommand_def arg_at_def with_client_ok intro: passes_outside)
  next
    case 3
    let ?c = "c\<lparr>cflags := cflags c AND NOT REDIS_DIRTY_CAS\<rparr>"
    have w0: "watched_keys c = []" using S by (simp add: session_ok_def view_ok_def)
    have S1: "session_ok e sv0 n held extra sv s ?c w"
      using S unfolding session_ok_def view_ok_def open_client_def flag_is_bit by (simp add: flag_ops)
    have rm': "length (held @ queue_refs (mstate ?c) @ extra) < OUT_LIMIT" using rm(2) by simp
    from reply_object [OF S1 command_strings(1) [OF S1] rm(1) rm'] obtain c' w' where "addReply (net e) (ok_obj (shared w)) ?c w = Inr (c', w')"
      "session_ok e sv0 n held extra sv (say ok_text s) c' w'" "outside ?c c'" "frame ?H w w'" by auto
    moreover have "passes ?H (c, w) c' w'" using passes_outside [OF calculation(3,4)] by (simp add: passes_def)
    ultimately show ?thesis using 3 by (auto simp: unwatchCommand_def unwatch_none [OF w0] with_client_ok)
  next
    case 4
    then have l: "length xs = 2" using len by simp
    obtain d where d: "arg_sds c w 1 = Inr d" "sds_ok d" "sds_str d = xs ! 1"
      using arg_sds_ok [OF sessionD(6) [OF S] ar, of 1] l by auto
    show ?thesis
    proof (cases "requirepass sv0")
      case None
      from reply_error [OF S _ _ rm, of "''Client sent AUTH, but no password is set''"] obtain c' w' where
        "addReplyError (net e) (''Client sent AUTH, but no password is set'' @ [NUL]) c w = Inr (c', w')"
        "session_ok e sv0 n held extra sv (say (error_text ''Client sent AUTH, but no password is set'') s) c' w'" "outside c c'" "frame ?H w w'"
        by auto
      then show ?thesis using 4 None cfg(1) by (auto simp: authCommand_def with_client_ok intro: passes_outside)
    next
      case (Some pw)
      have pw: "NUL \<notin> set pw" "length pw < 2147483648" using so Some by (auto simp: server_ok_def)
      then have pwc: "NUL \<in> set (pw @ [NUL])" "cstr (pw @ [NUL]) = pw" by simp_all
      obtain fr where fr: "d = mk_sds (xs ! 1) fr" "length (xs ! 1) + length fr < 2147483648" using d(2,3) by (auto elim: sds_okE)
      have buf: "NUL \<in> set (sh_buf d)" "cstr (sh_buf d) = cstr (xs ! 1)" using cstr_buf [OF d(2)] d(3) by simp_all
      have ln: "length (cstr (sh_buf d)) < 2147483648" "length (cstr (pw @ [NUL])) < 2147483648"
        using fr(2) length_cstr [of "xs ! 1"] buf(2) pwc(2) pw(2) by simp_all
      obtain x where x: "time_independent_strcmp (sh_buf d) (pw @ [NUL]) = Inr x" "x = 0 \<longleftrightarrow> password_matches pw (xs ! 1)"
        using strcmp_law [OF buf(1) pwc(1) ln] unfolding buf(2) pwc(2) password_matches_def by metis
      show ?thesis
      proof (cases "password_matches pw (xs ! 1)")
        case True
        let ?c = "c\<lparr>authenticated := True\<rparr>" and ?s = "s\<lparr>authed := True\<rparr>"
        have S1: "session_ok e sv0 n held extra sv ?s ?c w" by (rule session_authed [OF S])
        have rm1: "budget ?s + 3 \<le> OUT_LIMIT" "length (held @ queue_refs (mstate ?c) @ extra) < OUT_LIMIT" using rm by simp_all
        from reply_object [OF S1 command_strings(1) [OF S1] rm1] obtain c' w' where "addReply (net e) (ok_obj (shared w)) ?c w = Inr (c', w')"
          "session_ok e sv0 n held extra sv (say ok_text ?s) c' w'" "outside ?c c'" "frame ?H w w'" by auto
        moreover have "passes ?H (c, w) c' w'" using passes_outside [OF calculation(3,4)] by (simp add: passes_def)
        ultimately show ?thesis using 4 Some True cfg(1) d(1) x by (auto simp: authCommand_def with_client_ok)
      next
        case False
        let ?c = "c\<lparr>authenticated := False\<rparr>" and ?s = "s\<lparr>authed := False\<rparr>"
        have S1: "session_ok e sv0 n held extra sv ?s ?c w" by (rule session_authed [OF S])
        have rm1: "budget ?s + 3 \<le> OUT_LIMIT" "length (held @ queue_refs (mstate ?c) @ extra) < OUT_LIMIT" using rm by simp_all
        from reply_error [OF S1 _ _ rm1, of "''invalid password''"] obtain c' w' where
          "addReplyError (net e) (''invalid password'' @ [NUL]) ?c w = Inr (c', w')"
          "session_ok e sv0 n held extra sv (say (error_text ''invalid password'') ?s) c' w'" "outside ?c c'" "frame ?H w w'" by auto
        moreover have "passes ?H (c, w) c' w'" using passes_outside [OF calculation(3,4)] by (simp add: passes_def)
        ultimately show ?thesis using 4 Some False cfg(1) d(1) x by (auto simp: authCommand_def with_client_ok)
      qed
    qed
  qed
qed

section \<open>Calls\<close>

lemma config_keep [simp]:
  "same_config sv0 (event v sv) = same_config sv0 sv" "same_config sv0 (sv\<lparr>ticks := k\<rparr>) = same_config sv0 sv"
  "same_config sv0 (sv\<lparr>stat_numcommands := x\<rparr>) = same_config sv0 sv" "same_config sv0 (sv\<lparr>dirty := x\<rparr>) = same_config sv0 sv"
  "same_config sv0 (sv\<lparr>also_propagate := ops\<rparr>) = same_config sv0 sv" "same_config sv0 (propagate cm d args fl sv) = same_config sv0 sv"
  by (simp_all add: same_config_def config_def event_def propagate_def Let_def)

lemma propagate_keep [simp]: "also_propagate (event v sv) = also_propagate sv" "also_propagate (propagate cm d args fl sv) = also_propagate sv"
  by (simp_all add: event_def propagate_def Let_def)

lemma call_with_ok:
  assumes S: "session_ok e sv0 n held extra sv s c w" and cm: "cmd c = Some cm"
    and prc: "\<And>sv1. session_ok e sv0 n held extra sv1 s c w \<Longrightarrow>
      \<exists>sv2 c' w'. prc (cmd_proc cm) sv1 c w = Inr (sv2, c', w') \<and> session_ok e sv0 n held extra' sv2 s' c' w' \<and> passes' c' w' \<and> cmd c' = cmd c"
  shows "\<exists>sv' c' w'. call_with prc flags sv c w = Inr (sv', c', w') \<and> session_ok e sv0 n held extra' sv' s' c' w' \<and> passes' c' w'"
proof -
  have V: "same_config sv0 sv" "also_propagate sv = []" using S by (simp_all add: session_ok_def view_ok_def)
  define sv1 where "sv1 = (let (start, sv) = ustime sv;
      sv = (if monitors sv \<noteq> 0 \<and> \<not> loading sv \<and> \<not> cmd_flag cm REDIS_CMD_SKIP_MONITOR
            then event (FeedMonitors (dbid c) (arg_texts w (argv c))) sv else sv) in sv\<lparr>also_propagate := redisOpArrayInit\<rparr>)"
  have "same_config sv0 sv1" "also_propagate sv1 = []"
    using V by (simp_all add: sv1_def ustime_def redisOpArrayInit_def Let_def)
  then have "session_ok e sv0 n held extra sv1 s c w" by (rule session_server [OF S])
  from prc [OF this] obtain sv2 c' w' where 2: "prc (cmd_proc cm) sv1 c w = Inr (sv2, c', w')" "session_ok e sv0 n held extra' sv2 s' c' w'"
    "passes' c' w'" "cmd c' = cmd c" by blast
  have V2: "same_config sv0 sv2" "also_propagate sv2 = []" using 2(2) by (simp_all add: session_ok_def view_ok_def)
  have "\<exists>sv'. call_with prc flags sv c w = Inr (sv', c', w') \<and> same_config sv0 sv' \<and> also_propagate sv' = []"
    using 2(1,4) cm V2
    by (simp add: call_with_def sv1_def the_cmd_def ustime_def Let_def opt_or_def if_distrib [of "same_config sv0"]
        if_distrib [of also_propagate] cong: if_cong split del: if_split)
  then show ?thesis using 2(2,3) session_server by blast
qed

section \<open>Transactions\<close>

lemma release_queue_ok:
  assumes "store_ok h (R @ queue_refs q)"
  obtains h' where "release_queue q h = Inr h'" "store_ok h' R" "same h h' (set R)"
  using assms
proof (induction q arbitrary: h thesis)
  case Nil
  then show ?case by (simp add: queue_refs_def)
next
  case (Cons mc q)
  have "store_ok h ((R @ queue_refs q) @ mc_argv mc)"
    by (rule store_ok_mset [OF _ Cons.prems(2)]) (simp add: queue_refs_def)
  then obtain h1 where h1: "decr_all (mc_argv mc) h = Inr h1" "store_ok h1 (R @ queue_refs q)" "same h h1 (set (R @ queue_refs q))"
    by (rule decr_all_ok)
  obtain h2 where h2: "release_queue q h1 = Inr h2" "store_ok h2 R" "same h1 h2 (set R)" using Cons.IH [OF _ h1(2)] .
  have "same h h2 (set R)" using h1(3) h2(3) by (simp add: same_def)
  then show ?case using Cons.prems(1) h1(1) h2(1,2) by simp
qed

lemma end_transaction_simps [simp]:
  "in_multi (end_transaction s) = False" "aborting (end_transaction s) = False" "queue (end_transaction s) = []"
  "sent (end_transaction s) = sent s" "budget (end_transaction s) = budget s" "authed (end_transaction s) = authed s"
  by (simp_all add: end_transaction_def)

lemma discard_ok:
  assumes S: "session_ok e sv0 n held extra sv s c w"
  obtains c' w' where "discardTransaction sv c w = Inr (sv, c', w')" "session_ok e sv0 n held extra sv (end_transaction s) c' w'"
    "argv c' = argv c" "cmd c' = cmd c" "querybuf c' = querybuf c" "mstate c' = []" "same (heap w) (heap w') (set (held @ extra))" "shared w' = shared w"
proof -
  note D = sessionD [OF S]
  have "store_ok (heap w) ((held @ extra @ reply c) @ queue_refs (mstate c))" by (rule store_ok_mset [OF _ D(6)]) simp
  then obtain h where h: "release_queue (mstate c) (heap w) = Inr h" "store_ok h (held @ extra @ reply c)"
    "same (heap w) h (set (held @ extra @ reply c))" by (rule release_queue_ok)
  let ?w = "w\<lparr>heap := h\<rparr>"
  let ?c = "c\<lparr>mstate := [], cflags := cflags c AND NOT (REDIS_MULTI OR REDIS_DIRTY_CAS OR REDIS_DIRTY_EXEC)\<rparr>"
  have "watched_keys ?c = []" using D(4) by (simp add: view_ok_def)
  then have r: "discardTransaction sv c w = Inr (sv, ?c, ?w)"
    by (simp add: discardTransaction_def freeClientMultiState_def h(1) initClientMultiState_def unwatch_none)
  have st: "store_ok h ((held @ extra) @ reply c)" using h(2) by simp
  have sm: "same (heap w) h (set (reply c))" "same (heap w) h (set (held @ extra))" "same (heap w) h (set held)" using h(3) by (auto simp: same_def)
  have "length (held @ extra) \<le> OUT_LIMIT" using D(1) by (simp add: client_ok_def)
  from rebase [OF D(1) st sm(1) this] have c1: "client_ok (net e) (held @ queue_refs (mstate ?c) @ extra) (budget s) ?c ?w" "out ?c ?w = out c w"
    by (simp_all add: queue_refs_def)
  moreover have "open_client (net e) ?c" using D(2) unfolding open_client_def flag_is_bit by (simp add: bit_and_iff bit_not_iff flag_bits)
  moreover have "command_strings_ok held ?w" by (rule command_strings_same [OF D(3)]) (use sm(3) in simp_all)
  moreover have "view_ok e sv0 n sv (end_transaction s) ?c ?w"
    using D(4) c1(2) unfolding view_ok_def flag_is_bit by (simp add: bit_and_iff bit_not_iff flag_bits)
  ultimately have "session_ok e sv0 n held extra sv (end_transaction s) ?c ?w" by (simp add: session_ok_def)
  then show thesis using that [OF r] sm(2) by simp
qed

lemma session_argv: "session_ok e sv0 n held extra sv s (c\<lparr>argv := as, cmd := x\<rparr>) w = session_ok e sv0 n held extra sv s c w"
  by (simp add: session_ok_def view_ok_def has_flag_def)

lemma basic_effect_fields:
  assumes "basic p"
  shows "queue (basic_effect pass p xs s) = queue s" "budget (basic_effect pass p xs s) = budget s + 3"
    "in_multi (basic_effect pass p xs s) = in_multi s" "aborting (basic_effect pass p xs s) = aborting s"
  using assms by (cases p; simp split: option.split)+

lemma arity_two: "entry_ok cm \<Longrightarrow> \<not> wrong_arity cm xs \<Longrightarrow> cmd_proc cm = EchoCommand \<or> cmd_proc cm = AuthCommand \<Longrightarrow> length xs = 2"
  by (auto simp: entry_ok_def wrong_arity_def)

text \<open>A call of a simple command.\<close>

lemma call_basic_ok:
  assumes S: "session_ok e sv0 n held extra sv s c w" and ar: "args_at (heap w) (argv c) xs"
    and sub: "set (argv c) \<subseteq> set (held @ queue_refs (mstate c) @ extra)" and cm: "cmd c = Some cm" "basic (cmd_proc cm)"
    and len: "cmd_proc cm = EchoCommand \<or> cmd_proc cm = AuthCommand \<Longrightarrow> length xs = 2"
    and r: "room (held @ queue_refs (mstate c) @ extra) s" and so: "server_ok e sv0"
  shows "\<exists>sv' c' w'. call (Suc m) e flags sv c w = Inr (sv', c', w') \<and>
    session_ok e sv0 n held extra sv' (basic_effect (requirepass sv0) (cmd_proc cm) xs s) c' w' \<and>
    passes (held @ queue_refs (mstate c) @ extra) (c, w) c' w'"
  unfolding call.simps
proof (rule call_with_ok [OF S cm(1)])
  fix sv1
  assume S1: "session_ok e sv0 n held extra sv1 s c w"
  from basic_ok [OF S1 ar sub cm(2) len r so] obtain c' w' where "run_command e (call m e) (cmd_proc cm) sv1 c w = Inr (sv1, c', w')"
    "session_ok e sv0 n held extra sv1 (basic_effect (requirepass sv0) (cmd_proc cm) xs s) c' w'"
    "passes (held @ queue_refs (mstate c) @ extra) (c, w) c' w'" by blast
  then show "\<exists>sv2 c' w'. run_command e (call m e) (cmd_proc cm) sv1 c w = Inr (sv2, c', w') \<and>
      session_ok e sv0 n held extra sv2 (basic_effect (requirepass sv0) (cmd_proc cm) xs s) c' w' \<and>
      passes (held @ queue_refs (mstate c) @ extra) (c, w) c' w' \<and> cmd c' = cmd c" by (auto simp: passes_def)
qed

lemma exec_loop_ok:
  assumes "session_ok e sv0 n held extra sv s c w" and "j \<le> length (mstate c)" and "length (mstate c) - j \<le> k"
    and "budget s + 3 * (length (mstate c) - j) \<le> OUT_LIMIT" and "length (held @ queue_refs (mstate c) @ extra) < OUT_LIMIT"
    and so: "server_ok e sv0"
  shows "\<exists>sv' c' w'. exec_loop k (net e) (call (Suc m) e) j False sv c w = Inr (False, sv', c', w') \<and>
    session_ok e sv0 n held extra sv' (foldl (\<lambda>s (cm, xs). basic_effect (requirepass sv0) (cmd_proc cm) xs s) s (drop j (queue s))) c' w' \<and>
    mstate c' = mstate c \<and> querybuf c' = querybuf c \<and> same (heap w) (heap w') (set (held @ queue_refs (mstate c) @ extra))"
  using assms(1-5)
proof (induction k arbitrary: sv s c w j)
  case 0
  have "length (mstate c) = length (queue s)" using 0(1) by (auto simp: session_ok_def view_ok_def dest: list_all2_lengthD)
  then show ?case using 0 by simp
next
  case (Suc k)
  have Q: "list_all2 (queued_as sv0 (heap w)) (mstate c) (queue s)" using Suc.prems(1) by (simp add: session_ok_def view_ok_def)
  have ql: "length (mstate c) = length (queue s)" using Q by (rule list_all2_lengthD)
  show ?case
  proof (cases "j < length (mstate c)")
    case False
    then show ?thesis using Suc.prems ql by simp
  next
    case True
    let ?mc = "mstate c ! j" and ?H = "held @ queue_refs (mstate c) @ extra"
    obtain cm xs where q: "queue s ! j = (cm, xs)" by (cases "queue s ! j")
    have qa: "mc_cmd ?mc = Some cm" "args_at (heap w) (mc_argv ?mc) xs" "basic (cmd_proc cm)" "entry_ok cm" "\<not> wrong_arity cm xs"
      using list_all2_nthD [OF Q True] q by (simp_all add: queued_as_def)
    let ?c = "c\<lparr>argv := mc_argv ?mc, cmd := mc_cmd ?mc\<rparr>"
    have S1: "session_ok e sv0 n held extra sv s ?c w" using Suc.prems(1) by (simp add: session_argv)
    have "set (mc_argv ?mc) \<subseteq> set (queue_refs (mstate c))" using nth_mem [OF True] by (auto simp: queue_refs_def)
    then have sub: "set (argv ?c) \<subseteq> set (held @ queue_refs (mstate ?c) @ extra)" by auto
    have rm: "room (held @ queue_refs (mstate ?c) @ extra) s" using Suc.prems(4,5) True by (simp add: room_def)
    obtain sv1 c1 w1 where 1: "call (Suc m) e REDIS_CALL_FULL sv ?c w = Inr (sv1, c1, w1)"
      "session_ok e sv0 n held extra sv1 (basic_effect (requirepass sv0) (cmd_proc cm) xs s) c1 w1"
      "passes (held @ queue_refs (mstate ?c) @ extra) (?c, w) c1 w1"
      using call_basic_ok [where m = m and flags = REDIS_CALL_FULL, OF S1 _ sub _ qa(3) arity_two [OF qa(4,5)] rm so] qa(1,2) by auto
    have p1: "argv c1 = mc_argv ?mc" "cmd c1 = mc_cmd ?mc" "mstate c1 = mstate c" "querybuf c1 = querybuf c" "same (heap w) (heap w1) (set ?H)"
      using 1(3) by (simp_all add: passes_def)
    have upd: "c1\<lparr>mstate := (mstate c1)[j := \<lparr>mc_argv = argv c1, mc_cmd = cmd c1\<rparr>]\<rparr> = c1"
      using p1 list_update_id [of "mstate c" j] by (cases "mstate c ! j") simp
    let ?s = "basic_effect (requirepass sv0) (cmd_proc cm) xs s"
    note bf = basic_effect_fields [OF qa(3), of "requirepass sv0" xs s]
    have "\<exists>sv' c' w'. exec_loop k (net e) (call (Suc m) e) (j + 1) False sv1 c1 w1 = Inr (False, sv', c', w') \<and>
      session_ok e sv0 n held extra sv' (foldl (\<lambda>s (cm, xs). basic_effect (requirepass sv0) (cmd_proc cm) xs s) ?s (drop (j + 1) (queue ?s))) c' w' \<and>
      mstate c' = mstate c1 \<and> querybuf c' = querybuf c1 \<and> same (heap w1) (heap w') (set (held @ queue_refs (mstate c1) @ extra))"
      by (rule Suc.IH [OF 1(2)]) (use Suc.prems True p1(3) bf in auto)
    then obtain sv2 c2 w2 where 2: "exec_loop k (net e) (call (Suc m) e) (j + 1) False sv1 c1 w1 = Inr (False, sv2, c2, w2)"
      "session_ok e sv0 n held extra sv2 (foldl (\<lambda>s (cm, xs). basic_effect (requirepass sv0) (cmd_proc cm) xs s) ?s (drop (j + 1) (queue s))) c2 w2"
      "mstate c2 = mstate c" "querybuf c2 = querybuf c" "same (heap w1) (heap w2) (set ?H)"
      unfolding bf(1) p1(3,4) by blast
    have ro: "cmd_flag cm REDIS_CMD_READONLY" using qa(3,4) by (simp add: entry_ok_def)
    have "exec_loop (Suc k) (net e) (call (Suc m) e) j False sv c w = Inr (False, sv2, c2, w2)"
      using True 1(1) 2(1) upd p1(3) qa(1) ro by (simp add: the_cmd_def opt_or_def Let_def del: call.simps)
    moreover have d: "drop j (queue s) = (cm, xs) # drop (j + 1) (queue s)" using True ql q by (simp add: Cons_nth_drop_Suc [symmetric])
    moreover have "same (heap w) (heap w2) (set ?H)" using p1(5) 2(5) by (simp add: same_def)
    ultimately show ?thesis using 2(2-4) unfolding d list.map foldl_Cons prod.case by blast
  qed
qed

text \<open>What EXEC and DISCARD leave alone: the queue is released.\<close>

definition keeps_line :: "nat list \<Rightarrow> command_client \<times> nworld \<Rightarrow> command_client \<Rightarrow> nworld \<Rightarrow> bool" where
  "keeps_line H = (\<lambda>(c, w) c' w'. same (heap w) (heap w') (set H) \<and> argv c' = argv c \<and> cmd c' = cmd c \<and> querybuf c' = querybuf c)"

lemma passes_keeps: "passes (held @ q @ extra) (c, w) c' w' \<Longrightarrow> keeps_line (held @ extra) (c, w) c' w'"
  by (auto simp: passes_def keeps_line_def same_def)

lemma outside_keeps: "outside c c' \<Longrightarrow> frame (held @ q @ extra) w w' \<Longrightarrow> keeps_line (held @ extra) (c, w) c' w'"
  by (rule passes_keeps [OF passes_outside])

lemma monitor_exec_ok:
  assumes "session_ok e sv0 n held extra sv s c w"
  obtains sv' where "monitor_exec sv c w = Inr (sv', c, w)" "session_ok e sv0 n held extra sv' s c w"
proof -
  let ?sv = "if monitors sv \<noteq> 0 \<and> \<not> loading sv then event (FeedMonitors (dbid c) (arg_texts w (argv c))) sv else sv"
  have "same_config sv0 ?sv" "also_propagate ?sv = []" using assms by (auto simp: session_ok_def view_ok_def)
  then have "session_ok e sv0 n held extra ?sv s c w" by (rule session_server [OF assms])
  then show thesis using that [of ?sv] by (simp add: monitor_exec_def)
qed

lemma multi_ok:
  assumes S: "session_ok e sv0 n held extra sv s c w" and r: "room (held @ queue_refs (mstate c) @ extra) s"
  shows "\<exists>c' w'. multiCommand (net e) sv c w = Inr (sv, c', w') \<and>
    session_ok e sv0 n held extra sv (proc_effect pass MultiCommand xs s) c' w' \<and> keeps_line (held @ extra) (c, w) c' w'"
proof (cases "in_multi s")
  case True
  have m: "has_flag c REDIS_MULTI" using S True by (simp add: session_ok_def view_ok_def)
  from reply_error [OF S, of "''MULTI calls can not be nested''"] r obtain c' w' where
    "addReplyError (net e) (''MULTI calls can not be nested'' @ [NUL]) c w = Inr (c', w')"
    "session_ok e sv0 n held extra sv (say (error_text ''MULTI calls can not be nested'') s) c' w'" "outside c c'"
    "frame (held @ queue_refs (mstate c) @ extra) w w'" by (auto simp: room_def)
  then show ?thesis using True m by (auto simp: multiCommand_def with_client_ok intro: outside_keeps)
next
  case False
  have m: "\<not> has_flag c REDIS_MULTI" using S False by (simp add: session_ok_def view_ok_def)
  let ?c = "c\<lparr>cflags := cflags c OR REDIS_MULTI\<rparr>" and ?s = "s\<lparr>in_multi := True\<rparr>"
  have S1: "session_ok e sv0 n held extra sv ?s ?c w"
    using S unfolding session_ok_def view_ok_def open_client_def flag_is_bit by (simp add: flag_ops)
  from reply_object [OF S1 command_strings(1) [OF S1]] r obtain c' w' where "addReply (net e) (ok_obj (shared w)) ?c w = Inr (c', w')"
    "session_ok e sv0 n held extra sv (say ok_text ?s) c' w'" "outside ?c c'" "frame (held @ queue_refs (mstate c) @ extra) w w'"
    by (auto simp: room_def)
  moreover have "keeps_line (held @ extra) (c, w) c' w'" using outside_keeps [OF calculation(3,4)] by (simp add: keeps_line_def)
  ultimately show ?thesis using False m by (auto simp: multiCommand_def with_client_ok)
qed

lemma discardCommand_ok:
  assumes S: "session_ok e sv0 n held extra sv s c w" and r: "room (held @ queue_refs (mstate c) @ extra) s"
  shows "\<exists>c' w'. discardCommand (net e) sv c w = Inr (sv, c', w') \<and>
    session_ok e sv0 n held extra sv (proc_effect pass DiscardCommand xs s) c' w' \<and> keeps_line (held @ extra) (c, w) c' w'"
proof (cases "in_multi s")
  case False
  have m: "\<not> has_flag c REDIS_MULTI" using S False by (simp add: session_ok_def view_ok_def)
  from reply_error [OF S, of "''DISCARD without MULTI''"] r obtain c' w' where
    "addReplyError (net e) (''DISCARD without MULTI'' @ [NUL]) c w = Inr (c', w')"
    "session_ok e sv0 n held extra sv (say (error_text ''DISCARD without MULTI'') s) c' w'" "outside c c'"
    "frame (held @ queue_refs (mstate c) @ extra) w w'" by (auto simp: room_def)
  then show ?thesis using False m by (auto simp: discardCommand_def with_client_ok intro: outside_keeps)
next
  case True
  have m: "has_flag c REDIS_MULTI" using S True by (simp add: session_ok_def view_ok_def)
  obtain c1 w1 where 1: "discardTransaction sv c w = Inr (sv, c1, w1)" "session_ok e sv0 n held extra sv (end_transaction s) c1 w1"
    "argv c1 = argv c" "cmd c1 = cmd c" "querybuf c1 = querybuf c" "mstate c1 = []" "same (heap w) (heap w1) (set (held @ extra))"
    using discard_ok [OF S] by metis
  have b: "budget (end_transaction s) + 3 \<le> OUT_LIMIT" "length (held @ queue_refs (mstate c1) @ extra) < OUT_LIMIT"
    using r by (simp_all add: room_def 1(6) queue_refs_def)
  from reply_object [OF 1(2) command_strings(1) [OF 1(2)] b] obtain c2 w2 where 2: "addReply (net e) (ok_obj (shared w1)) c1 w1 = Inr (c2, w2)"
    "session_ok e sv0 n held extra sv (say ok_text (end_transaction s)) c2 w2" "outside c1 c2" "frame (held @ queue_refs (mstate c1) @ extra) w1 w2" .
  have "keeps_line (held @ extra) (c1, w1) c2 w2" by (rule outside_keeps [OF 2(3,4)])
  then have "keeps_line (held @ extra) (c, w) c2 w2" using 1(3-5,7) by (auto simp: keeps_line_def same_def)
  then show ?thesis using True m 1(1) 2(1,2) by (auto simp: discardCommand_def with_client_ok)
qed

lemma foldl_basic_fields:
  "list_all (\<lambda>(cm, xs). basic (cmd_proc cm)) q \<Longrightarrow>
     budget (foldl (\<lambda>s (cm, xs). basic_effect pass (cmd_proc cm) xs s) s q) = budget s + 3 * length q"
  by (induction q arbitrary: s) (auto simp: basic_effect_fields)

lemma exec_ok:
  assumes S: "session_ok e sv0 n held extra sv s c w" and r: "room (held @ queue_refs (mstate c) @ extra) s"
    and b: "budget s + 3 * length (queue s) + 6 \<le> OUT_LIMIT" and so: "server_ok e sv0"
  shows "\<exists>sv' c' w'. execCommand (net e) (call (Suc m) e) sv c w = Inr (sv', c', w') \<and>
    session_ok e sv0 n held extra sv' (proc_effect (requirepass sv0) ExecCommand xs s) c' w' \<and> keeps_line (held @ extra) (c, w) c' w'"
proof -
  let ?H = "held @ queue_refs (mstate c) @ extra"
  have V: "has_flag c REDIS_MULTI = in_multi s" "has_flag c REDIS_DIRTY_EXEC = aborting s" "\<not> has_flag c REDIS_DIRTY_CAS" "watched_keys c = []"
    "list_all2 (queued_as sv0 (heap w)) (mstate c) (queue s)" using S by (simp_all add: session_ok_def view_ok_def)
  have ql: "length (mstate c) = length (queue s)" using V(5) by (rule list_all2_lengthD)
  note rm = r [unfolded room_def, THEN conjunct1] r [unfolded room_def, THEN conjunct2]
  consider (out) "\<not> in_multi s" | (abort) "in_multi s" "aborting s" | (run) "in_multi s" "\<not> aborting s" by blast
  then show ?thesis
  proof cases
    case out
    from reply_error [OF S _ _ rm, of "''EXEC without MULTI''"] obtain c' w' where
      "addReplyError (net e) (''EXEC without MULTI'' @ [NUL]) c w = Inr (c', w')"
      "session_ok e sv0 n held extra sv (say (error_text ''EXEC without MULTI'') s) c' w'" "outside c c'" "frame ?H w w'" by auto
    then show ?thesis using out V(1) by (auto simp: execCommand_def with_client_ok intro: outside_keeps)
  next
    case abort
    let ?t = "''-EXECABORT Transaction discarded because of previous errors.'' @ CRLF"
    from reply_object [OF S command_strings(4) [OF S] rm] obtain c1 w1 where 1: "addReply (net e) (execaborterr (shared w)) c w = Inr (c1, w1)"
      "session_ok e sv0 n held extra sv (say ?t s) c1 w1" "outside c c1" "frame ?H w w1" .
    obtain c2 w2 where 2: "discardTransaction sv c1 w1 = Inr (sv, c2, w2)" "session_ok e sv0 n held extra sv (end_transaction (say ?t s)) c2 w2"
      "argv c2 = argv c1" "cmd c2 = cmd c1" "querybuf c2 = querybuf c1" "same (heap w1) (heap w2) (set (held @ extra))"
      using discard_ok [OF 1(2)] by metis
    obtain sv' where 3: "monitor_exec sv c2 w2 = Inr (sv', c2, w2)" "session_ok e sv0 n held extra sv' (end_transaction (say ?t s)) c2 w2"
      by (rule monitor_exec_ok [OF 2(2)])
    have "keeps_line (held @ extra) (c, w) c1 w1" by (rule outside_keeps [OF 1(3,4)])
    then have "keeps_line (held @ extra) (c, w) c2 w2" using 2(3-6) by (auto simp: keeps_line_def same_def)
    moreover have "execCommand (net e) (call (Suc m) e) sv c w = Inr (sv', c2, w2)"
      using abort V(1-3) 1(1) 2(1) 3(1) by (simp add: execCommand_def dirty_flags with_client_ok)
    ultimately show ?thesis using 3(2) abort by auto
  next
    case run
    let ?m = "length (queue s)"
    have "int ?m < 2 ^ 63" using b by (simp add: OUT_LIMIT_def)
    then have ll: "is_ll (int ?m)" by (simp add: ll_bounds)
    define s1 where "s1 = say (resp (CHR ''*'') (ll_text (int ?m))) s"
    from reply_length [OF S ll rm] obtain c1 w1 where 1: "addReplyMultiBulkLen (net e) (int ?m) c w = Inr (c1, w1)"
      "session_ok e sv0 n held extra sv s1 c1 w1" "outside c c1" "frame ?H w w1" unfolding s1_def .
    have m1: "mstate c1 = mstate c" "argv c1 = argv c" "cmd c1 = cmd c" "querybuf c1 = querybuf c" using outside_fields [OF 1(3)] by simp_all
    define s2 where "s2 = foldl (\<lambda>s (cm, xs). basic_effect (requirepass sv0) (cmd_proc cm) xs s) s1 (queue s)"
    have "\<exists>sv' c' w'. exec_loop (length (mstate c)) (net e) (call (Suc m) e) 0 False sv c1 w1 = Inr (False, sv', c', w') \<and>
      session_ok e sv0 n held extra sv' (foldl (\<lambda>s (cm, xs). basic_effect (requirepass sv0) (cmd_proc cm) xs s) s1 (drop 0 (queue s1))) c' w' \<and>
      mstate c' = mstate c1 \<and> querybuf c' = querybuf c1 \<and> same (heap w1) (heap w') (set (held @ queue_refs (mstate c1) @ extra))"
      by (rule exec_loop_ok [OF 1(2) _ _ _ _ so]) (use b ql m1(1) rm(2) in \<open>simp_all add: s1_def\<close>)
    then obtain sv2 c2 w2 where 2: "exec_loop ?m (net e) (call (Suc m) e) 0 False sv c1 w1 = Inr (False, sv2, c2, w2)"
      "session_ok e sv0 n held extra sv2 s2 c2 w2" "querybuf c2 = querybuf c" "same (heap w1) (heap w2) (set ?H)"
      unfolding m1 ql s2_def by (auto simp: s1_def)
    let ?c2 = "c2\<lparr>argv := argv c, cmd := cmd c\<rparr>"
    have S2: "session_ok e sv0 n held extra sv2 s2 ?c2 w2" using 2(2) by (simp add: session_argv)
    obtain c3 w3 where 3: "discardTransaction sv2 ?c2 w2 = Inr (sv2, c3, w3)" "session_ok e sv0 n held extra sv2 (end_transaction s2) c3 w3"
      "argv c3 = argv ?c2" "cmd c3 = cmd ?c2" "querybuf c3 = querybuf ?c2" "same (heap w2) (heap w3) (set (held @ extra))"
      using discard_ok [OF S2] by metis
    obtain sv' where 4: "monitor_exec sv2 c3 w3 = Inr (sv', c3, w3)" "session_ok e sv0 n held extra sv' (end_transaction s2) c3 w3"
      by (rule monitor_exec_ok [OF 3(2)])
    have "same (heap w) (heap w1) (set ?H)" using 1(4) by (simp add: frame_def)
    then have "keeps_line (held @ extra) (c, w) c3 w3" using 2(3,4) 3(3-6) by (auto simp: keeps_line_def same_def)
    moreover have "execCommand (net e) (call (Suc m) e) sv c w = Inr (sv', c3, w3)"
      using run V(1-4) 1(1) 2(1) 3(1) 4(1) m1(1) ql
      by (simp add: execCommand_def dirty_flags with_client_ok unwatch_none Let_def del: call.simps)
    moreover have "proc_effect (requirepass sv0) ExecCommand xs s = end_transaction s2"
      using run by (simp add: run_queue_def s2_def s1_def)
    ultimately show ?thesis using 4(2) by auto
  qed
qed

end
