(* ===== verification/Command_Props.thy ===== *)
theory Command_Props
  imports Command_Session
begin

text \<open>
  \<open>processCommand\<close> refines the machine of \<open>Command_Session\<close>, and with the parser a stream of requests is answered by the
  replies of the machine.
\<close>

section \<open>One command line\<close>

lemma call_ok:
  assumes S: "session_ok e sv0 n held (argv c) sv s c w" and ar: "args_at (heap w) (argv c) xs" and cm: "cmd c = Some cm"
    and p: "basic (cmd_proc cm) \<or> transactional (cmd_proc cm)" and len: "entry_ok cm" "\<not> wrong_arity cm xs"
    and r: "room (held @ queue_refs (mstate c) @ argv c) s" and b: "budget s + 3 * length (queue s) + 6 \<le> OUT_LIMIT" and so: "server_ok e sv0"
  shows "\<exists>sv' c' w'. call (Suc (Suc m)) e flags sv c w = Inr (sv', c', w') \<and>
    session_ok e sv0 n held (argv c) sv' (proc_effect (requirepass sv0) (cmd_proc cm) xs s) c' w' \<and>
    keeps_line (held @ argv c) (c, w) c' w'"
  unfolding call.simps(2) [of "Suc m"]
proof (rule call_with_ok [OF S cm])
  fix sv1
  assume S1: "session_ok e sv0 n held (argv c) sv1 s c w"
  have "\<exists>sv2 c' w'. run_command e (call (Suc m) e) (cmd_proc cm) sv1 c w = Inr (sv2, c', w') \<and>
      session_ok e sv0 n held (argv c) sv2 (proc_effect (requirepass sv0) (cmd_proc cm) xs s) c' w' \<and> keeps_line (held @ argv c) (c, w) c' w'"
  proof (cases "basic (cmd_proc cm)")
    case True
    have sub: "set (argv c) \<subseteq> set (held @ queue_refs (mstate c) @ argv c)" by auto
    have "proc_effect (requirepass sv0) (cmd_proc cm) xs s = basic_effect (requirepass sv0) (cmd_proc cm) xs s"
      using True by (cases "cmd_proc cm") auto
    then show ?thesis using basic_ok [OF S1 ar sub True arity_two [OF len] r so, of "call (Suc m) e"] passes_keeps by metis
  next
    case False
    then have "cmd_proc cm = MultiCommand \<or> cmd_proc cm = ExecCommand \<or> cmd_proc cm = DiscardCommand" using p by (simp add: transactional_def)
    then show ?thesis
    proof (elim disjE)
      assume "cmd_proc cm = MultiCommand"
      then show ?thesis using multi_ok [OF S1 r] by auto
    next
      assume x: "cmd_proc cm = ExecCommand"
      then show ?thesis using exec_ok [OF S1 r b so, of m xs] by (simp del: call.simps)
    next
      assume "cmd_proc cm = DiscardCommand"
      then show ?thesis using discardCommand_ok [OF S1 r] by auto
    qed
  qed
  then show "\<exists>sv2 c' w'. run_command e (call (Suc m) e) (cmd_proc cm) sv1 c w = Inr (sv2, c', w') \<and>
      session_ok e sv0 n held (argv c) sv2 (proc_effect (requirepass sv0) (cmd_proc cm) xs s) c' w' \<and> keeps_line (held @ argv c) (c, w) c' w' \<and> cmd c' = cmd c"
    by (auto simp: keeps_line_def)
qed

text \<open>Queueing takes a reference more to each argument.\<close>

lemma incr_all_ok:
  assumes "store_ok h held" and "length held + length as \<le> REF_LIMIT" and "set as \<subseteq> set held"
  obtains h' where "incr_all as h = Inr h'" "store_ok h' (held @ as)" "same h h' UNIV"
  using assms
proof (induction as arbitrary: h held thesis)
  case Nil
  then show ?case by simp
next
  case (Cons a as)
  obtain h1 where h1: "incrRefCount a h = Inr h1" "store_ok h1 (held @ [a])" "same h h1 UNIV"
    using incr_ok [OF Cons.prems(2), of a] Cons.prems(3,4) by auto
  obtain h2 where h2: "incr_all as h1 = Inr h2" "store_ok h2 ((held @ [a]) @ as)" "same h1 h2 UNIV"
    by (rule Cons.IH [OF _ h1(2)]) (use Cons.prems in auto)
  have "same h h2 UNIV" using h1(3) h2(3) by (simp add: same_def)
  then show ?case using Cons.prems(1) h1(1) h2(1,2) by simp
qed

lemma queue_ok:
  assumes S: "session_ok e sv0 n held (argv c) sv s c w" and ar: "args_at (heap w) (argv c) xs" and cm: "cmd c = Some cm"
    and p: "basic (cmd_proc cm)" "entry_ok cm" "\<not> wrong_arity cm xs"
    and r: "length (held @ queue_refs (mstate c) @ argv c @ argv c) < OUT_LIMIT"
  obtains c' w' where "queueMultiCommand c w = Inr (c', w')" "session_ok e sv0 n held (argv c) sv (s\<lparr>queue := queue s @ [(cm, xs)]\<rparr>) c' w'"
    "argv c' = argv c" "cmd c' = cmd c" "querybuf c' = querybuf c" "same (heap w) (heap w') UNIV"
    "length (held @ queue_refs (mstate c') @ argv c) < OUT_LIMIT" "shared w' = shared w"
proof -
  note D = sessionD [OF S]
  have rl: "length (reply c) \<le> OUT_LIMIT" using D(1) by (simp add: client_ok_def)
  obtain h where h: "incr_all (argv c) (heap w) = Inr h" "store_ok h (((held @ queue_refs (mstate c) @ argv c) @ reply c) @ argv c)" "same (heap w) h UNIV"
    by (rule incr_all_ok [OF D(6), of "argv c"]) (use r rl in \<open>auto simp: REF_LIMIT_def OUT_LIMIT_def\<close>)
  let ?c = "c\<lparr>mstate := mstate c @ [\<lparr>mc_argv = argv c, mc_cmd = cmd c\<rparr>]\<rparr>" and ?w = "w\<lparr>heap := h\<rparr>"
  have qr: "queue_refs (mstate ?c) = queue_refs (mstate c) @ argv c" by (simp add: queue_refs_def)
  have st: "store_ok h ((held @ queue_refs (mstate ?c) @ argv c) @ reply c)"
    by (rule store_ok_mset [OF _ h(2)]) (simp add: queue_refs_def)
  have len: "length (held @ queue_refs (mstate ?c) @ argv c) \<le> OUT_LIMIT" using r qr by simp
  have sm: "same (heap w) h A" for A using h(3) by (simp add: same_def)
  from rebase [OF D(1) st sm len] have c1: "client_ok (net e) (held @ queue_refs (mstate ?c) @ argv c) (budget s) ?c ?w" "out ?c ?w = out c w"
    by simp_all
  moreover have "open_client (net e) ?c" using D(2) by simp
  moreover have "command_strings_ok held ?w" by (rule command_strings_same [OF D(3)]) (use sm in simp_all)
  moreover have "view_ok e sv0 n sv (s\<lparr>queue := queue s @ [(cm, xs)]\<rparr>) ?c ?w"
  proof -
    have "list_all2 (queued_as sv0 h) (mstate c) (queue s)"
      by (rule queue_same [OF _ h(3)]) (use D(4) in \<open>simp_all add: view_ok_def\<close>)
    moreover have "queued_as sv0 h \<lparr>mc_argv = argv c, mc_cmd = cmd c\<rparr> (cm, xs)"
      using args_at_same [OF ar h(3)] cm p by (simp add: queued_as_def)
    ultimately show ?thesis using D(4) c1(2) by (simp add: view_ok_def has_flag_def list_all2_appendI)
  qed
  ultimately have "session_ok e sv0 n held (argv c) sv (s\<lparr>queue := queue s @ [(cm, xs)]\<rparr>) ?c ?w" by (simp add: session_ok_def)
  moreover have "queueMultiCommand c w = Inr (?c, ?w)" by (simp add: queueMultiCommand_def h(1))
  ultimately show thesis using that [of ?c ?w] h(3) r qr by simp
qed

lemma flag_ok:
  assumes "session_ok e sv0 n held extra sv s c w"
  shows "session_ok e sv0 n held extra sv (flag_abort s) (flagTransaction c) w"
proof (cases "in_multi s")
  case True
  have "has_flag c REDIS_MULTI" using assms True by (simp add: session_ok_def view_ok_def)
  then show ?thesis using assms True unfolding session_ok_def view_ok_def open_client_def flag_is_bit
    by (simp add: flagTransaction_def flag_abort_def flag_is_bit flag_ops)
next
  case False
  have "\<not> has_flag c REDIS_MULTI" using assms False by (simp add: session_ok_def view_ok_def)
  then show ?thesis using assms False by (simp add: flagTransaction_def flag_abort_def)
qed

lemma flag_fields [simp]:
  "argv (flagTransaction c) = argv c" "cmd (flagTransaction c) = cmd c" "querybuf (flagTransaction c) = querybuf c"
  "mstate (flagTransaction c) = mstate c" "budget (flag_abort s) = budget s" "sent (flag_abort s) = sent s" "queue (flag_abort s) = queue s"
  by (simp_all add: flagTransaction_def flag_abort_def)

lemma session_conditions:
  assumes "session_ok e sv0 n held extra sv s c w"
  shows "stop_writes_on_bgsave_err sv = stop_writes_on_bgsave_err sv0" "saveparamslen sv = saveparamslen sv0" "lastbgsave_ok sv = lastbgsave_ok sv0"
    "is_slave sv = is_slave sv0" "repl_slave_ro sv = repl_slave_ro sv0" "repl_connected sv = repl_connected sv0"
    "repl_serve_stale_data sv = repl_serve_stale_data sv0" "loading sv = loading sv0" "lua_timedout sv = lua_timedout sv0"
    "same_bucket sv = same_bucket sv0"
proof -
  have "config sv = config sv0" using assms by (simp add: session_ok_def view_ok_def same_config_def)
  note eq = arg_cong [OF this]
  show "stop_writes_on_bgsave_err sv = stop_writes_on_bgsave_err sv0" "saveparamslen sv = saveparamslen sv0" "lastbgsave_ok sv = lastbgsave_ok sv0"
    "is_slave sv = is_slave sv0" "repl_slave_ro sv = repl_slave_ro sv0" "repl_connected sv = repl_connected sv0"
    "repl_serve_stale_data sv = repl_serve_stale_data sv0" "loading sv = loading sv0" "lua_timedout sv = lua_timedout sv0"
    "same_bucket sv = same_bucket sv0"
    using eq [of stop_writes_on_bgsave_err] eq [of saveparamslen] eq [of lastbgsave_ok] eq [of is_slave] eq [of repl_slave_ro]
      eq [of repl_connected] eq [of repl_serve_stale_data] eq [of loading] eq [of lua_timedout] eq [of same_bucket]
    by (simp_all add: config_def)
qed

lemma refusal_strings:
  assumes "session_ok e sv0 n held extra sv s c w"
  shows "shared_text held w (bgsaveerr (shared w)) (''-MISCONF Redis is configured to save RDB snapshots, but is currently not able to persist on disk. Commands that may modify the data set are disabled. Please check Redis logs for details about the error.'' @ CRLF)"
    "shared_text held w (roslaveerr (shared w)) (''-READONLY You can't write against a read only slave.'' @ CRLF)"
    "shared_text held w (masterdownerr (shared w)) (''-MASTERDOWN Link with MASTER is down and slave-serve-stale-data is set to 'no'.'' @ CRLF)"
    "shared_text held w (loadingerr (shared w)) (''-LOADING Redis is loading the dataset in memory'' @ CRLF)"
    "shared_text held w (slowscripterr (shared w)) (''-BUSY Redis is busy running a script. You can only call SCRIPT KILL or SHUTDOWN NOSAVE.'' @ CRLF)"
  using sessionD(3) [OF assms] by (simp_all add: command_strings_ok_def)

text \<open>A refusal is a reply of the machine; \<open>c1\<close> is the client, flagged or not.\<close>

lemma refuse_object:
  assumes S: "session_ok e sv0 n held (argv c) sv s c w" and a: "shared_text held w a t" and r: "room (held @ queue_refs (mstate c) @ argv c) s"
  shows "\<exists>c' w'. refuse (addReply (net e) a) sv c w = Inr (True, sv, c', w') \<and> session_ok e sv0 n held (argv c) sv (say t s) c' w' \<and>
    keeps_line (held @ argv c) (c, w) c' w'"
proof (rule reply_object [OF S a])
  fix c' w'
  assume 1: "addReply (net e) a c w = Inr (c', w')" "session_ok e sv0 n held (argv c) sv (say t s) c' w'" "outside c c'"
    "frame (held @ queue_refs (mstate c) @ argv c) w w'"
  show ?thesis using 1(1,2) outside_keeps [OF 1(3,4)] by (auto simp: refuse_def)
qed (use r in \<open>simp_all add: room_def\<close>)

lemma refuse_error:
  assumes S: "session_ok e sv0 n held (argv c) sv s c w" and a: "NUL \<notin> set t" "length t < 2147483648" and r: "room (held @ queue_refs (mstate c) @ argv c) s"
  shows "\<exists>c' w'. refuse (addReplyError (net e) (t @ [NUL])) sv c w = Inr (True, sv, c', w') \<and> session_ok e sv0 n held (argv c) sv (say (error_text t) s) c' w' \<and>
    keeps_line (held @ argv c) (c, w) c' w'"
proof (rule reply_error [OF S a])
  fix c' w'
  assume 1: "addReplyError (net e) (t @ [NUL]) c w = Inr (c', w')" "session_ok e sv0 n held (argv c) sv (say (error_text t) s) c' w'" "outside c c'"
    "frame (held @ queue_refs (mstate c) @ argv c) w w'"
  show ?thesis using 1(1,2) outside_keeps [OF 1(3,4)] by (auto simp: refuse_def)
qed (use r in \<open>simp_all add: room_def\<close>)

lemma refuse_format:
  assumes S: "session_ok e sv0 n held (argv c) sv s c w" and a: "NUL \<notin> set t" "int (length t) < SDS_LIMIT" and r: "room (held @ queue_refs (mstate c) @ argv c) s"
  shows "\<exists>c' w'. refuse (addReplyErrorFormat (net e) t) sv c w = Inr (True, sv, c', w') \<and> session_ok e sv0 n held (argv c) sv (say (error_text (one_line t)) s) c' w' \<and>
    keeps_line (held @ argv c) (c, w) c' w'"
proof (rule reply_format [OF S a])
  fix c' w'
  assume 1: "addReplyErrorFormat (net e) t c w = Inr (c', w')" "session_ok e sv0 n held (argv c) sv (say (error_text (one_line t)) s) c' w'" "outside c c'"
    "frame (held @ queue_refs (mstate c) @ argv c) w w'"
  show ?thesis using 1(1,2) outside_keeps [OF 1(3,4)] by (auto simp: refuse_def)
qed (use r in \<open>simp_all add: room_def\<close>)

lemma flag_keeps: "keeps_line H (flagTransaction c, w) c' w' = keeps_line H (c, w) c' w'"
  by (simp add: keeps_line_def)

text \<open>The conditions the steps below share.\<close>

definition line_ok :: "cenv \<Rightarrow> redisServer \<Rightarrow> nat \<Rightarrow> nat list \<Rightarrow> redisServer \<Rightarrow> session \<Rightarrow> command_client \<Rightarrow> nworld \<Rightarrow> char list list \<Rightarrow> bool" where
  "line_ok e sv0 n held sv s c w xs \<longleftrightarrow> session_ok e sv0 n held (argv c) sv s c w \<and> args_at (heap w) (argv c) xs \<and> server_ok e sv0 \<and>
     length (held @ queue_refs (mstate c) @ argv c @ argv c) < OUT_LIMIT \<and> budget s + 3 * length (queue s) + 6 \<le> OUT_LIMIT"

definition answered where
  "answered e sv0 n held c w s r \<longleftrightarrow> (\<exists>sv' c' w'. r = Inr (True, sv', c', w') \<and> session_ok e sv0 n held (argv c) sv' s c' w' \<and>
     same (heap w) (heap w') (set (held @ argv c)) \<and> argv c' = argv c \<and> querybuf c' = querybuf c)"

lemma answered_refuse:
  assumes "\<exists>c' w'. refuse f sv c w = Inr (True, sv, c', w') \<and> session_ok e sv0 n held (argv c) sv s c' w' \<and> keeps_line (held @ argv c) (c, w) c' w'"
  shows "answered e sv0 n held c w s (refuse f sv c w)"
  using assms by (auto simp: answered_def keeps_line_def)

lemma line_room: "line_ok e sv0 n held sv s c w xs \<Longrightarrow> room (held @ queue_refs (mstate c) @ argv c) s"
  by (auto simp: line_ok_def room_def)

lemma answered_flag: "answered e sv0 n held (flagTransaction c) w s r = answered e sv0 n held c w s r"
  by (simp add: answered_def)

lemma execute_ok:
  assumes L: "line_ok e sv0 n held sv s c w xs" and cm: "cmd c = Some cm" "entry_ok cm" "\<not> wrong_arity cm xs"
    and p: "basic (cmd_proc cm) \<or> transactional (cmd_proc cm)"
  shows "answered e sv0 n held c w
    (if in_multi s \<and> \<not> transactional (cmd_proc cm) then say (''+QUEUED'' @ CRLF) (s\<lparr>queue := queue s @ [(cm, xs)]\<rparr>)
     else proc_effect (requirepass sv0) (cmd_proc cm) xs s) (execute e cm sv c w)"
proof -
  have S: "session_ok e sv0 n held (argv c) sv s c w" and ar: "args_at (heap w) (argv c) xs" and so: "server_ok e sv0"
    and r: "length (held @ queue_refs (mstate c) @ argv c @ argv c) < OUT_LIMIT" and b: "budget s + 3 * length (queue s) + 6 \<le> OUT_LIMIT"
    using L by (simp_all add: line_ok_def)
  have m: "has_flag c REDIS_MULTI = in_multi s" using S by (simp add: session_ok_def view_ok_def)
  have t: "transactional (cmd_proc cm) \<longleftrightarrow> \<not> (cmd_proc cm \<noteq> ExecCommand \<and> cmd_proc cm \<noteq> DiscardCommand \<and> cmd_proc cm \<noteq> MultiCommand \<and> cmd_proc cm \<noteq> WatchCommand)"
    using p by (auto simp: transactional_def)
  show ?thesis
  proof (cases "in_multi s \<and> \<not> transactional (cmd_proc cm)")
    case True
    then have bp: "basic (cmd_proc cm)" using p by simp
    obtain c1 w1 where 1: "queueMultiCommand c w = Inr (c1, w1)" "session_ok e sv0 n held (argv c) sv (s\<lparr>queue := queue s @ [(cm, xs)]\<rparr>) c1 w1"
      "argv c1 = argv c" "cmd c1 = cmd c" "querybuf c1 = querybuf c" "same (heap w) (heap w1) UNIV"
      "length (held @ queue_refs (mstate c1) @ argv c) < OUT_LIMIT" "shared w1 = shared w"
      using queue_ok [OF S ar cm(1) bp cm(2,3) r] by metis
    have S1: "session_ok e sv0 n held (argv c1) sv (s\<lparr>queue := queue s @ [(cm, xs)]\<rparr>) c1 w1" using 1(2,3) by simp
    have rm: "room (held @ queue_refs (mstate c1) @ argv c1) (s\<lparr>queue := queue s @ [(cm, xs)]\<rparr>)" using 1(3,7) b by (simp add: room_def)
    obtain c2 w2 where 2: "refuse (addReply (net e) (queued (shared w1))) sv c1 w1 = Inr (True, sv, c2, w2)"
      "session_ok e sv0 n held (argv c1) sv (say (''+QUEUED'' @ CRLF) (s\<lparr>queue := queue s @ [(cm, xs)]\<rparr>)) c2 w2"
      "keeps_line (held @ argv c1) (c1, w1) c2 w2"
      using refuse_object [OF S1 command_strings(3) [OF S1] rm] by blast
    have "execute e cm sv c w = Inr (True, sv, c2, w2)" using True m t 1(1) 2(1) by (simp add: execute_def)
    moreover have "same (heap w) (heap w2) (set (held @ argv c))" using 1(6) 2(3) 1(3) by (simp add: keeps_line_def same_def)
    ultimately show ?thesis using True 2(2,3) 1(3,5) by (simp add: answered_def keeps_line_def)
  next
    case False
    obtain sv' c' w' where 1: "call 2 e REDIS_CALL_FULL sv c w = Inr (sv', c', w')"
      "session_ok e sv0 n held (argv c) sv' (proc_effect (requirepass sv0) (cmd_proc cm) xs s) c' w'" "keeps_line (held @ argv c) (c, w) c' w'"
      using call_ok [where m = 0 and flags = REDIS_CALL_FULL, OF S ar cm(1) p cm(2,3) line_room [OF L] b so] unfolding numeral_2_eq_2 by blast
    have "ready_keys sv' = 0" using session_config(3) [OF 1(2)] so by (simp add: server_ok_def)
    then have "execute e cm sv c w = Inr (True, sv', c', w')" using False m t 1(1) by (auto simp: execute_def simp del: call.simps)
    then show ?thesis using False 1(2,3) by (auto simp: answered_def keeps_line_def)
  qed
qed

lemma line_flag: "line_ok e sv0 n held sv s c w xs \<Longrightarrow> line_ok e sv0 n held sv (flag_abort s) (flagTransaction c) w xs"
  using flag_ok by (simp add: line_ok_def)

lemma line_session: "line_ok e sv0 n held sv s c w xs \<Longrightarrow> session_ok e sv0 n held (argv c) sv s c w"
  by (simp add: line_ok_def)

text \<open>The replies that refuse, with the transaction flagged or not.\<close>

lemma refuse_line:
  assumes L: "line_ok e sv0 n held sv s c w xs"
  shows "shared_text held w a t \<Longrightarrow> answered e sv0 n held c w (say t s) (refuse (addReply (net e) a) sv c w)"
    and "NUL \<notin> set t \<Longrightarrow> length t < 2147483648 \<Longrightarrow>
      answered e sv0 n held c w (say (error_text t) s) (refuse (addReplyError (net e) (t @ [NUL])) sv c w)"
    and "NUL \<notin> set t \<Longrightarrow> int (length t) < SDS_LIMIT \<Longrightarrow>
      answered e sv0 n held c w (say (error_text (one_line t)) s) (refuse (addReplyErrorFormat (net e) t) sv c w)"
  using refuse_object [OF line_session [OF L] _ line_room [OF L]] refuse_error [OF line_session [OF L] _ _ line_room [OF L]]
    refuse_format [OF line_session [OF L] _ _ line_room [OF L]] by (blast intro: answered_refuse)+

lemma refuse_flagged:
  assumes L: "line_ok e sv0 n held sv s c w xs"
  shows "shared_text held w a t \<Longrightarrow> answered e sv0 n held c w (say t (flag_abort s)) (refuse (addReply (net e) a) sv (flagTransaction c) w)"
    and "NUL \<notin> set t \<Longrightarrow> length t < 2147483648 \<Longrightarrow>
      answered e sv0 n held c w (say (error_text t) (flag_abort s)) (refuse (addReplyError (net e) (t @ [NUL])) sv (flagTransaction c) w)"
    and "NUL \<notin> set t \<Longrightarrow> int (length t) < SDS_LIMIT \<Longrightarrow>
      answered e sv0 n held c w (say (error_text (one_line t)) (flag_abort s)) (refuse (addReplyErrorFormat (net e) t) sv (flagTransaction c) w)"
  using refuse_line [OF line_flag [OF L]] by (simp_all add: answered_flag)

lemma lua_allows_ok: "basic (cmd_proc cm) \<or> transactional (cmd_proc cm) \<Longrightarrow> lua_allows cm c w = Inr (cmd_proc cm = AuthCommand)"
  by (auto simp: lua_allows_def transactional_def)

lemma check_and_execute_ok:
  assumes L: "line_ok e sv0 n held sv s c w xs" and cm: "cmd c = Some cm" "entry_ok cm" "\<not> wrong_arity cm xs"
    and p: "basic (cmd_proc cm) \<or> transactional (cmd_proc cm)" and au: "\<not> (requirepass sv0 \<noteq> None \<and> \<not> authed s \<and> cmd_proc cm \<noteq> AuthCommand)"
  shows "answered e sv0 n held c w
    (case refusal sv0 n s cm of
       Some (fl, t) \<Rightarrow> say t (if fl then flag_abort s else s)
     | None \<Rightarrow>
         if in_multi s \<and> \<not> transactional (cmd_proc cm) then say (''+QUEUED'' @ CRLF) (s\<lparr>queue := queue s @ [(cm, xs)]\<rparr>)
         else proc_effect (requirepass sv0) (cmd_proc cm) xs s) (check_and_execute e cm sv c w)"
proof -
  note S = line_session [OF L]
  have nm: "\<not> has_flag c REDIS_MASTER" using sessionD(2) [OF S] by (simp add: open_client_def)
  have n: "subscriptions c = n" using S by (simp add: session_ok_def view_ok_def)
  have su: "cmd_proc cm \<noteq> SubscribeCommand" "cmd_proc cm \<noteq> UnsubscribeCommand" "cmd_proc cm \<noteq> PsubscribeCommand" "cmd_proc cm \<noteq> PunsubscribeCommand"
    using p by (auto simp: transactional_def)
  note t = refusal_strings [OF S]
  note fl = refuse_flagged(1) [OF L] and ob = refuse_line(1) [OF L]
  define A where "A = (stop_writes_on_bgsave_err sv0 \<and> saveparamslen sv0 > 0 \<and> \<not> lastbgsave_ok sv0 \<and> cmd_flag cm REDIS_CMD_WRITE)"
  define B where "B = (is_slave sv0 \<and> repl_slave_ro sv0 \<and> cmd_flag cm REDIS_CMD_WRITE)"
  define C where "C = (n > 0)"
  define D where "D = (is_slave sv0 \<and> \<not> repl_connected sv0 \<and> \<not> repl_serve_stale_data sv0 \<and> \<not> cmd_flag cm REDIS_CMD_STALE)"
  define E where "E = (loading sv0 \<and> \<not> cmd_flag cm REDIS_CMD_LOADING)"
  define F where "F = (lua_timedout sv0 \<and> cmd_proc cm \<noteq> AuthCommand)"
  have code: "check_and_execute e cm sv c w =
     (if A then refuse (addReply (net e) (bgsaveerr (shared w))) sv (flagTransaction c) w
      else if B then refuse (addReply (net e) (roslaveerr (shared w))) sv c w
      else if C then refuse (addReplyError (net e) (''only (P)SUBSCRIBE / (P)UNSUBSCRIBE / QUIT allowed in this context'' @ [NUL])) sv c w
      else if D then refuse (addReply (net e) (masterdownerr (shared w))) sv (flagTransaction c) w
      else if E then refuse (addReply (net e) (loadingerr (shared w))) sv c w
      else if F then refuse (addReply (net e) (slowscripterr (shared w))) sv (flagTransaction c) w
      else execute e cm sv c w)"
  proof -
    have "(is_slave sv0 \<and> repl_slave_ro sv0 \<and> \<not> has_flag c REDIS_MASTER \<and> cmd_flag cm REDIS_CMD_WRITE) = B" using nm by (simp add: B_def)
    moreover have "(n > 0 \<and> cmd_proc cm \<noteq> SubscribeCommand \<and> cmd_proc cm \<noteq> UnsubscribeCommand \<and>
        cmd_proc cm \<noteq> PsubscribeCommand \<and> cmd_proc cm \<noteq> PunsubscribeCommand) = C" using su by (simp add: C_def)
    moreover have "rbind (if lua_timedout sv0 then Inr (cmd_proc cm = AuthCommand) else Inr True) (\<lambda>allowed. if \<not> allowed then x else y) =
        (if F then x else y)" for x y :: "(obj_error, bool \<times> cstate) result" by (simp add: F_def)
    ultimately show ?thesis
      unfolding check_and_execute_def session_conditions [OF S] n lua_allows_ok [OF p] A_def [symmetric] D_def [symmetric] E_def [symmetric] by (simp only:)
  qed
  have spec: "refusal sv0 n s cm =
     (if A then Some (True, ''-MISCONF Redis is configured to save RDB snapshots, but is currently not able to persist on disk. Commands that may modify the data set are disabled. Please check Redis logs for details about the error.'' @ CRLF)
      else if B then Some (False, ''-READONLY You can't write against a read only slave.'' @ CRLF)
      else if C then Some (False, error_text ''only (P)SUBSCRIBE / (P)UNSUBSCRIBE / QUIT allowed in this context'')
      else if D then Some (True, ''-MASTERDOWN Link with MASTER is down and slave-serve-stale-data is set to 'no'.'' @ CRLF)
      else if E then Some (False, ''-LOADING Redis is loading the dataset in memory'' @ CRLF)
      else if F then Some (True, ''-BUSY Redis is busy running a script. You can only call SCRIPT KILL or SHUTDOWN NOSAVE.'' @ CRLF)
      else None)"
    unfolding refusal_def if_not_P [OF au] A_def B_def C_def D_def E_def F_def by (rule refl)
  consider "A" | "\<not> A" "B" | "\<not> A" "\<not> B" "C" | "\<not> A" "\<not> B" "\<not> C" "D" | "\<not> A" "\<not> B" "\<not> C" "\<not> D" "E"
    | "\<not> A" "\<not> B" "\<not> C" "\<not> D" "\<not> E" "F" | "\<not> A" "\<not> B" "\<not> C" "\<not> D" "\<not> E" "\<not> F" by blast
  then show ?thesis
  proof cases
    case 1
    then show ?thesis using fl [OF t(1)] unfolding code spec by simp
  next
    case 2
    then show ?thesis using ob [OF t(2)] unfolding code spec by simp
  next
    case 3
    then show ?thesis using refuse_line(2) [OF L, of "''only (P)SUBSCRIBE / (P)UNSUBSCRIBE / QUIT allowed in this context''"]
      unfolding code spec by simp
  next
    case 4
    then show ?thesis using fl [OF t(3)] unfolding code spec by simp
  next
    case 5
    then show ?thesis using ob [OF t(4)] unfolding code spec by simp
  next
    case 6
    then show ?thesis using fl [OF t(5)] unfolding code spec by simp
  next
    case 7
    then show ?thesis using execute_ok [OF L cm p] unfolding code spec by simp
  qed
qed

lemma find_command_entry: "find_command ks name = Some cm \<Longrightarrow> list_all (\<lambda>(k, cm). P cm) ks \<Longrightarrow> P cm"
  by (induction ks) (auto split: if_splits)

lemma processCommand_ok:
  assumes S: "session_ok e sv0 n held (argv c) sv s c w" and ar: "args_at (heap w) (argv c) xs" and ne: "xs \<noteq> []"
    and can: "session_can sv0 (length held) s xs" and so: "server_ok e sv0"
  shows "answered e sv0 n held c w (session_effect sv0 n s xs) (processCommand e sv c w)"
proof -
  obtain d where d: "arg_sds c w 0 = Inr d" "sds_ok d" "sds_str d = hd xs"
    using arg_sds_ok [OF sessionD(6) [OF S] ar, of 0] ne by (auto simp: hd_conv_nth)
  have nm: "NUL \<notin> set (hd xs)" "length (hd xs) \<le> 536870912" "\<not> strcasecmp_eq (hd xs) ''quit''"
    and room: "length held + queued_refs s + 2 * length xs + budget s + 3 * length (queue s) + 10 \<le> OUT_LIMIT"
    and mach: "case find_command (commands sv0) (hd xs) of None \<Rightarrow> True | Some cm \<Rightarrow> basic (cmd_proc cm) \<or> transactional (cmd_proc cm)"
    using can by (simp_all add: session_can_def)
  have cs: "cstr (sh_buf d) = hd xs" using cstr_buf [OF d(2)] d(3) nm(1) by (simp add: cstr_id)
  have lk: "lookupCommand (same_bucket sv) (commands sv) d = find_command (commands sv0) (hd xs)"
    using fetch_plain [OF d(2)] d(3) nm(1) session_config(2) [OF S] by (simp add: lookupCommand_def)
  have qr: "length (queue_refs (mstate c)) = queued_refs s"
  proof -
    have "list_all2 (queued_as sv0 (heap w)) (mstate c) (queue s)" using S by (simp add: session_ok_def view_ok_def)
    then show ?thesis unfolding queue_refs_def queued_refs_def
      by (induction rule: list_all2_induct) (auto simp: queued_as_def args_at_def)
  qed
  let ?found = "find_command (commands sv0) (hd xs)"
  let ?c = "c\<lparr>cmd := ?found, lastcmd := ?found\<rparr>"
  have S1: "session_ok e sv0 n held (argv ?c) sv s ?c w" using S by (simp add: session_ok_def view_ok_def has_flag_def)
  have L: "line_ok e sv0 n held sv s ?c w xs"
  proof -
    have "length (argv c) = length xs" using ar by (auto simp: args_at_def)
    then have "length (held @ queue_refs (mstate c) @ argv c @ argv c) < OUT_LIMIT" "budget s + 3 * length (queue s) + 6 \<le> OUT_LIMIT"
      using room qr by simp_all
    then show ?thesis using S1 ar so by (simp add: line_ok_def)
  qed
  have ans: "answered e sv0 n held (c\<lparr>cmd := x, lastcmd := y\<rparr>) w = answered e sv0 n held c w" for x y
    by (simp add: answered_def fun_eq_iff)
  show ?thesis
  proof (cases ?found)
    case None
    have "answered e sv0 n held ?c w (say (error_text (one_line (''unknown command '' @ in_quotes (hd xs)))) (flag_abort s))
        (refuse (addReplyErrorFormat (net e) (''unknown command '' @ in_quotes (hd xs))) sv (flagTransaction ?c) w)"
      by (rule refuse_flagged(3) [OF L]) (use nm in \<open>auto simp: in_quotes_def SDS_LIMIT_def\<close>)
    then show ?thesis using None d(1) cs nm(3) lk
      by (simp add: ans processCommand_def session_effect_def in_quotes_def Let_def)
  next
    case (Some cm)
    have en: "entry_ok cm" using find_command_entry [OF Some, of entry_ok] so by (simp add: server_ok_def)
    have p: "basic (cmd_proc cm) \<or> transactional (cmd_proc cm)" using mach Some by simp
    have al: "length (argv c) = length xs" using ar by (auto simp: args_at_def)
    have ca: "arity cm > 0 \<and> arity cm \<noteq> int (length (argv c)) \<or> int (length (argv c)) < - arity cm \<longleftrightarrow> wrong_arity cm xs"
      by (simp add: wrong_arity_def al)
    have av: "authenticated c = authed s" using S by (simp add: session_ok_def view_ok_def)
    have found: "processCommand e sv c w =
       (if wrong_arity cm xs
        then refuse (addReplyErrorFormat (net e) (''wrong number of arguments for '' @ in_quotes (cmd_name cm) @ '' command'')) sv (flagTransaction ?c) w
        else if requirepass sv0 \<noteq> None \<and> \<not> authed s \<and> cmd_proc cm \<noteq> AuthCommand
        then refuse (addReplyError (net e) (''operation not permitted'' @ [NUL])) sv (flagTransaction ?c) w
        else check_and_execute e cm sv ?c w)"
    proof -
      have free: "(if maxmemory (heap w) \<noteq> 0 then freeMemoryIfNeeded e sv w else Inr (True, sv, w)) = Inr (True, sv, w)"
        using so by (simp add: server_ok_def)
      have c: "argv (c\<lparr>cmd := Some cm, lastcmd := Some cm\<rparr>) = argv c" "authenticated (c\<lparr>cmd := Some cm, lastcmd := Some cm\<rparr>) = authed s"
        using av by simp_all
      show ?thesis
        unfolding processCommand_def d(1) rbind_simps cs if_not_P [OF nm(3)] lk Some Let_def option.case in_quotes_def
          c ca session_config(1) [OF S] free prod.case
        by (simp only: simp_thms append_assoc if_False)
    qed
    consider "wrong_arity cm xs" | "\<not> wrong_arity cm xs" "requirepass sv0 \<noteq> None \<and> \<not> authed s \<and> cmd_proc cm \<noteq> AuthCommand"
      | "\<not> wrong_arity cm xs" "\<not> (requirepass sv0 \<noteq> None \<and> \<not> authed s \<and> cmd_proc cm \<noteq> AuthCommand)" by blast
    then show ?thesis
    proof cases
      case 1
      have "answered e sv0 n held ?c w (say (error_text (one_line (''wrong number of arguments for '' @ in_quotes (cmd_name cm) @ '' command''))) (flag_abort s))
          (refuse (addReplyErrorFormat (net e) (''wrong number of arguments for '' @ in_quotes (cmd_name cm) @ '' command'')) sv (flagTransaction ?c) w)"
        by (rule refuse_flagged(3) [OF L]) (use en in \<open>auto simp: entry_ok_def in_quotes_def SDS_LIMIT_def\<close>)
      then show ?thesis using 1 Some unfolding found ans by (simp add: session_effect_def)
    next
      case 2
      have "refusal sv0 n s cm = Some (True, error_text ''operation not permitted'')" using 2(2) by (simp add: refusal_def)
      then show ?thesis using 2 Some refuse_flagged(2) [OF L, of "''operation not permitted''"] unfolding found ans
        by (simp add: session_effect_def)
    next
      case 3
      have "cmd ?c = Some cm" using Some by simp
      from check_and_execute_ok [OF L this en 3(1) p 3(2)] show ?thesis
        unfolding found ans session_effect_def Some option.case if_not_P [OF 3(1)] if_not_P [OF 3(2)] .
    qed
  qed
qed

section \<open>The executor\<close>

text \<open>\<open>R\<close> are the references outside the argument vector: of the rest of the program, the queue and the pending output.\<close>

definition output_ok :: "nenv \<Rightarrow> nat \<Rightarrow> command_client \<Rightarrow> nworld \<Rightarrow> bool" where
  "output_ok e k c w \<longleftrightarrow> (\<forall>a\<in>set (reply c). is_raw (heap w) a) \<and>
     length (buf c) = 16384 \<and> bufpos c \<le> 16384 \<and> sent_ok c w \<and> length (client_obuf_limits w) = 3 \<and>
     list_bytes e (heap w) (reply c) \<le> reply_bytes c \<and> reply_bytes c \<le> int k * 2 ^ 32 \<and> length (reply c) \<le> k \<and> k \<le> OUT_LIMIT"

definition session_inv ::
    "cenv \<Rightarrow> redisServer \<Rightarrow> nat \<Rightarrow> nat list \<Rightarrow> redisServer \<Rightarrow> session \<Rightarrow> nat list \<Rightarrow> command_client \<Rightarrow> nworld \<Rightarrow> bool" where
  "session_inv e sv0 n held sv s R c w \<longleftrightarrow>
     R = held @ queue_refs (mstate c) @ reply c \<and> length R \<le> OUT_LIMIT \<and> store_ok (heap w) (R @ argv c) \<and>
     output_ok (net e) (budget s) c w \<and> open_client (net e) c \<and> command_strings_ok held w \<and> view_ok e sv0 n sv s c w \<and> server_ok e sv0"

lemma client_output: "client_ok e H k c w \<longleftrightarrow> store_ok (heap w) (H @ reply c) \<and> length H \<le> OUT_LIMIT \<and> output_ok e k c w"
  by (auto simp: client_ok_def output_ok_def)

lemma inv_session:
  assumes "session_inv e sv0 n held sv s R c w" and "length (held @ queue_refs (mstate c) @ argv c) \<le> OUT_LIMIT"
  shows "session_ok e sv0 n held (argv c) sv s c w"
proof -
  have R: "R = held @ queue_refs (mstate c) @ reply c" "store_ok (heap w) (R @ argv c)" using assms(1) unfolding session_inv_def by blast+
  have "store_ok (heap w) ((held @ queue_refs (mstate c) @ argv c) @ reply c)"
    by (rule store_ok_mset [OF _ R(2)]) (simp add: R(1))
  then show ?thesis using assms by (simp add: session_inv_def session_ok_def client_output)
qed

lemma session_inv:
  assumes "session_ok e sv0 n held (argv c) sv s c w" and "length (held @ queue_refs (mstate c) @ reply c) \<le> OUT_LIMIT" and "server_ok e sv0"
  shows "session_inv e sv0 n held sv s (held @ queue_refs (mstate c) @ reply c) c w"
proof -
  have "store_ok (heap w) ((held @ queue_refs (mstate c) @ reply c) @ argv c)"
    by (rule store_ok_mset [of "(held @ queue_refs (mstate c) @ argv c) @ reply c"]) (use assms(1) in \<open>simp_all add: session_ok_def client_output\<close>)
  then show ?thesis using assms by (simp add: session_inv_def session_ok_def client_output)
qed

lemma queue_length:
  assumes "view_ok e sv0 n sv s c w"
  shows "length (queue_refs (mstate c)) = queued_refs s"
proof -
  have "list_all2 (queued_as sv0 (heap w)) (mstate c) (queue s)" using assms by (simp add: view_ok_def)
  then show ?thesis unfolding queue_refs_def queued_refs_def by (induction rule: list_all2_induct) (auto simp: queued_as_def args_at_def)
qed

lemma basic_queue: "queue (basic_effect pass p xs s) = queue s" "budget (basic_effect pass p xs s) \<le> budget s + 3"
  by (cases p; simp split: option.split)+

lemma foldl_basic_bound:
  "budget (foldl (\<lambda>s (cm, xs). basic_effect pass (cmd_proc cm) xs s) s q) \<le> budget s + 3 * length q"
proof (induction q arbitrary: s)
  case (Cons a q)
  obtain cm xs where a: "a = (cm, xs)" by (cases a)
  show ?case using Cons.IH [of "basic_effect pass (cmd_proc cm) xs s"] basic_queue(2) [of pass "cmd_proc cm" xs s] a by simp
qed simp

lemma proc_effect_bound: "queued_refs (proc_effect pass p xs s) \<le> queued_refs s" "budget (proc_effect pass p xs s) \<le> budget s + 3 * length (queue s) + 6"
proof -
  have r: "budget (run_queue pass s) \<le> budget s + 3 + 3 * length (queue s)"
    using foldl_basic_bound [of pass "say (resp (CHR ''*'') (ll_text (int (length (queue s))))) s" "queue s"] by (simp add: run_queue_def)
  have b: "queued_refs (basic_effect pass p xs s) \<le> queued_refs s" "budget (basic_effect pass p xs s) \<le> budget s + 3 * length (queue s) + 6"
    using basic_queue [of pass p xs s] by (simp_all add: queued_refs_def)
  show "queued_refs (proc_effect pass p xs s) \<le> queued_refs s" using b(1) by (cases p) (auto simp: queued_refs_def)
  show "budget (proc_effect pass p xs s) \<le> budget s + 3 * length (queue s) + 6" using b(2) r by (cases p) auto
qed

lemma effect_bound:
  "queued_refs (session_effect sv n s xs) + budget (session_effect sv n s xs) \<le> queued_refs s + length xs + budget s + 3 * length (queue s) + 6"
proof -
  have 1: "queued_refs (proc_effect pass p xs s) + budget (proc_effect pass p xs s) \<le> queued_refs s + length xs + budget s + 3 * length (queue s) + 6" for pass p
    using proc_effect_bound [of pass p xs s] by linarith
  have 2: "queued_refs (s\<lparr>queue := queue s @ [(cm, xs)]\<rparr>) = queued_refs s + length xs" for cm by (simp add: queued_refs_def)
  have 3: "queued_refs (say t s) = queued_refs s" "queued_refs (flag_abort s) = queued_refs s" "queued_refs (say t (flag_abort s)) = queued_refs s"
    "budget (say t s) = budget s + 3" "budget (say t (flag_abort s)) = budget s + 3"
    for t :: "char list" and s :: session
    by (simp_all add: queued_refs_def say_def)
  show ?thesis unfolding session_effect_def
    by (cases "find_command (commands sv) (hd xs)") (auto simp: 1 2 3 simp del: sum_list.Cons split: option.split if_split)
qed

lemma fields_kept:
  assumes "redisClient.truncate c' = (redisClient.truncate c)\<lparr>cflags := f\<rparr>" and "request_client.more c' = request_client.more (c :: command_client)"
  shows "reply c' = reply c" "buf c' = buf c" "bufpos c' = bufpos c" "sentlen c' = sentlen c" "reply_bytes c' = reply_bytes c" "fd c' = fd c"
    "subscriptions c' = subscriptions c" "cflags c' = f" "authenticated c' = authenticated c" "mstate c' = mstate c" "watched_keys c' = watched_keys c"
  using assms by (cases c; cases c'; simp add: redisClient.truncate_def)+

lemma inv_reads:
  assumes i: "session_inv e sv0 n held sv s R c w" and t: "redisClient.truncate c' = (redisClient.truncate c)\<lparr>cflags := f\<rparr>"
    and m: "request_client.more c' = request_client.more c" and f: "f = cflags c \<or> f = cflags c AND NOT REDIS_ASKING"
    and st: "store_ok h (R @ argv c')" and sm: "same (heap w) h (set R)"
  shows "session_inv e sv0 n held sv s R c' (w\<lparr>heap := h\<rparr>)"
proof -
  note k = fields_kept [OF t m]
  have R: "R = held @ queue_refs (mstate c) @ reply c" using i by (simp add: session_inv_def)
  have rs: "set (reply c) \<subseteq> set R" "set (queue_refs (mstate c)) \<subseteq> set R" "set held \<subseteq> set R" by (auto simp: R)
  have fb: "bit f x = bit (cflags c) x" if "x \<noteq> 9" for x using f that by (auto simp: flag_ops)
  have out: "out c' (w\<lparr>heap := h\<rparr>) = out c w" by (simp add: out_def k same_cells [OF sm rs(1)])
  have tx: "map (text_at h) (reply c) = map (text_at (heap w)) (reply c)" by (rule same_map [OF sm rs(1)])
  have "output_ok (net e) (budget s) c' (w\<lparr>heap := h\<rparr>)"
  proof -
    have o: "output_ok (net e) (budget s) c w" using i by (simp add: session_inv_def)
    have "\<forall>a\<in>set (reply c). is_raw h a" using o sm rs(1) is_raw_eq [of h _ "heap w"] by (auto simp: output_ok_def same_def)
    moreover have "sent_ok c' (w\<lparr>heap := h\<rparr>)" using o tx by (cases "reply c") (auto simp: output_ok_def sent_ok_def k split: if_splits)
    ultimately show ?thesis using o by (simp add: output_ok_def k same_bytes [OF sm rs(1)])
  qed
  moreover have "open_client (net e) c'" using i unfolding session_inv_def open_client_def flag_is_bit k by (simp add: fb)
  moreover have "command_strings_ok held (w\<lparr>heap := h\<rparr>)"
    by (rule command_strings_same [of held w]) (use i same_mono [OF sm rs(3)] in \<open>simp_all add: session_inv_def\<close>)
  moreover have "view_ok e sv0 n sv s c' (w\<lparr>heap := h\<rparr>)"
  proof -
    have v: "view_ok e sv0 n sv s c w" using i by (simp add: session_inv_def)
    have "list_all2 (queued_as sv0 h) (mstate c) (queue s)" by (rule queue_same [OF _ sm rs(2)]) (use v in \<open>simp add: view_ok_def\<close>)
    then show ?thesis using v unfolding view_ok_def flag_is_bit k out by (simp add: fb)
  qed
  ultimately show ?thesis using i st R by (simp add: session_inv_def k)
qed

lemma inv_runs:
  assumes i: "session_inv e sv0 n held sv s R c w" and ar: "args_at (heap w) (argv c) xs" and ne: "xs \<noteq> []"
    and can: "session_can sv0 (length held) s xs"
  shows "\<exists>sv' R' c' w'. processCommand e sv c w = Inr (True, sv', c', w') \<and>
    session_inv e sv0 n held sv' (session_effect sv0 n s xs) R' c' w' \<and> querybuf c' = querybuf c"
proof -
  have v: "view_ok e sv0 n sv s c w" and so: "server_ok e sv0" using i by (simp_all add: session_inv_def)
  have al: "length (argv c) = length xs" using ar by (auto simp: args_at_def)
  have room: "length held + queued_refs s + 2 * length xs + budget s + 3 * length (queue s) + 10 \<le> OUT_LIMIT" using can by (simp add: session_can_def)
  have S: "session_ok e sv0 n held (argv c) sv s c w" by (rule inv_session [OF i]) (use room al queue_length [OF v] in simp)
  obtain sv' c' w' where 1: "processCommand e sv c w = Inr (True, sv', c', w')" "session_ok e sv0 n held (argv c) sv' (session_effect sv0 n s xs) c' w'"
    "argv c' = argv c" "querybuf c' = querybuf c"
    using processCommand_ok [OF S ar ne can so] by (auto simp: answered_def)
  have S': "session_ok e sv0 n held (argv c') sv' (session_effect sv0 n s xs) c' w'" using 1(2,3) by simp
  have "length (reply c') \<le> budget (session_effect sv0 n s xs)" using sessionD(1) [OF S'] by (simp add: client_ok_def)
  then have "length (held @ queue_refs (mstate c') @ reply c') \<le> OUT_LIMIT"
    using effect_bound [of sv0 n s xs] room queue_length [OF sessionD(4) [OF S']] by simp
  from session_inv [OF S' this so] show ?thesis using 1(1,4) by blast
qed

interpretation redis: command_executor "processCommand e" "session_effect sv0 n" "session_can sv0 (length held)" "session_inv e sv0 n held"
  for e sv0 n held
proof unfold_locales
  fix s b R w and c :: command_client
  assume i: "session_inv e sv0 n held s b R c w"
  then have "\<not> has_flag c REDIS_BLOCKED" "\<not> has_flag c REDIS_CLOSE_AFTER_REPLY" by (simp_all add: session_inv_def view_ok_def open_client_def)
  moreover have "store_ok (heap w) (R @ argv c)" "length R \<le> OUT_LIMIT" using i unfolding session_inv_def by blast+
  ultimately show "store_ok (heap w) (R @ argv c) \<and> length R \<le> OUT_LIMIT \<and> \<not> has_flag c REDIS_BLOCKED \<and> \<not> has_flag c REDIS_CLOSE_AFTER_REPLY"
    by blast
qed (rule inv_reads; assumption | rule inv_runs; assumption)+

end
