(* ===== verification/Shared_Objects.thy ===== *)
theory Shared_Objects
  imports Reply_Run
begin

text \<open>
  \<open>createSharedObjects\<close> of \<open>redis.c\<close>: the shared protocol strings, the shared integers and the headers of bulk
  and multi bulk replies. It establishes what the reply functions assume of them.
\<close>

section \<open>Creating the objects\<close>

declare upt_rec_numeral [simp del]

definition REDIS_SHARED_SELECT_CMDS :: nat where "REDIS_SHARED_SELECT_CMDS = 10"

definition new_sds :: "(nat \<Rightarrow> char) \<Rightarrow> char list \<Rightarrow> ostore \<Rightarrow> (obj_error, nat \<times> ostore) result" where
  "new_sds g s h = rbind (sds_lift (sdsnew g (Some (s @ [NUL])))) (\<lambda>t. Inr (createObject REDIS_STRING (PSds t) h))"

definition new_printed :: "(nat \<Rightarrow> char) \<Rightarrow> char list \<Rightarrow> ostore \<Rightarrow> (obj_error, nat \<times> ostore) result" where
  "new_printed g s h =
     rbind (sds_lift (sdsempty g)) (\<lambda>t. rbind (sds_lift (sdscatprintf g t s)) (\<lambda>t. Inr (createObject REDIS_STRING (PSds t) h)))"

text \<open>Assignments of new objects to fields, one after the other.\<close>

fun share_all ::
    "((ostore \<Rightarrow> (obj_error, nat \<times> ostore) result) \<times> (nat \<Rightarrow> 's \<Rightarrow> 's)) list \<Rightarrow> ostore \<times> 's \<Rightarrow> (obj_error, ostore \<times> 's) result"
where
  "share_all [] (h, s) = Inr (h, s)"
| "share_all ((f, upd) # rest) (h, s) = rbind (f h) (\<lambda>(a, h). share_all rest (h, upd a s))"

definition shared_literals :: "(char list \<times> (nat \<Rightarrow> shared_objects \<Rightarrow> shared_objects)) list" where
  "shared_literals =
     [(CRLF, \<lambda>a s. s\<lparr>crlf := a\<rparr>),
      (''+OK'' @ CRLF, \<lambda>a s. s\<lparr>ok_obj := a\<rparr>),
      (''-ERR'' @ CRLF, \<lambda>a s. s\<lparr>err_obj := a\<rparr>),
      (''$0'' @ CRLF @ CRLF, \<lambda>a s. s\<lparr>emptybulk := a\<rparr>),
      ('':0'' @ CRLF, \<lambda>a s. s\<lparr>czero := a\<rparr>),
      ('':1'' @ CRLF, \<lambda>a s. s\<lparr>cone := a\<rparr>),
      ('':-1'' @ CRLF, \<lambda>a s. s\<lparr>cnegone := a\<rparr>),
      (''$-1'' @ CRLF, \<lambda>a s. s\<lparr>nullbulk := a\<rparr>),
      (''*-1'' @ CRLF, \<lambda>a s. s\<lparr>nullmultibulk := a\<rparr>),
      (''*0'' @ CRLF, \<lambda>a s. s\<lparr>emptymultibulk := a\<rparr>),
      (''+PONG'' @ CRLF, \<lambda>a s. s\<lparr>pong := a\<rparr>),
      (''+QUEUED'' @ CRLF, \<lambda>a s. s\<lparr>queued := a\<rparr>),
      (''-ERR Operation against a key holding the wrong kind of value'' @ CRLF, \<lambda>a s. s\<lparr>wrongtypeerr := a\<rparr>),
      (''-ERR no such key'' @ CRLF, \<lambda>a s. s\<lparr>nokeyerr := a\<rparr>),
      (''-ERR syntax error'' @ CRLF, \<lambda>a s. s\<lparr>syntaxerr := a\<rparr>),
      (''-ERR source and destination objects are the same'' @ CRLF, \<lambda>a s. s\<lparr>sameobjecterr := a\<rparr>),
      (''-ERR index out of range'' @ CRLF, \<lambda>a s. s\<lparr>outofrangeerr := a\<rparr>),
      (''-NOSCRIPT No matching script. Please use EVAL.'' @ CRLF, \<lambda>a s. s\<lparr>noscripterr := a\<rparr>),
      (''-LOADING Redis is loading the dataset in memory'' @ CRLF, \<lambda>a s. s\<lparr>loadingerr := a\<rparr>),
      (''-BUSY Redis is busy running a script. You can only call SCRIPT KILL or SHUTDOWN NOSAVE.'' @ CRLF, \<lambda>a s. s\<lparr>slowscripterr := a\<rparr>),
      (''-MASTERDOWN Link with MASTER is down and slave-serve-stale-data is set to 'no'.'' @ CRLF, \<lambda>a s. s\<lparr>masterdownerr := a\<rparr>),
      (''-MISCONF Redis is configured to save RDB snapshots, but is currently not able to persist on disk. Commands that may modify the data set are disabled. Please check Redis logs for details about the error.'' @ CRLF, \<lambda>a s. s\<lparr>bgsaveerr := a\<rparr>),
      (''-READONLY You can't write against a read only slave.'' @ CRLF, \<lambda>a s. s\<lparr>roslaveerr := a\<rparr>),
      (''-OOM command not allowed when used memory > 'maxmemory'.'' @ CRLF, \<lambda>a s. s\<lparr>oomerr := a\<rparr>),
      (''-EXECABORT Transaction discarded because of previous errors.'' @ CRLF, \<lambda>a s. s\<lparr>execaborterr := a\<rparr>),
      ('' '', \<lambda>a s. s\<lparr>space_obj := a\<rparr>),
      ('':'', \<lambda>a s. s\<lparr>colon_obj := a\<rparr>),
      (''+'', \<lambda>a s. s\<lparr>plus_obj := a\<rparr>)]"

definition shared_selects ::
    "(nat \<Rightarrow> char) \<Rightarrow> ((ostore \<Rightarrow> (obj_error, nat \<times> ostore) result) \<times> (nat \<Rightarrow> shared_objects \<Rightarrow> shared_objects)) list" where
  "shared_selects g =
     map (\<lambda>j. (new_printed g (''select '' @ ll_text (int j) @ CRLF), \<lambda>a s. s\<lparr>select_cmds := select_cmds s @ [a]\<rparr>))
       [0..<REDIS_SHARED_SELECT_CMDS]"

definition shared_buffers :: "(char list \<times> int \<times> (nat \<Rightarrow> shared_objects \<Rightarrow> shared_objects)) list" where
  "shared_buffers =
     [(''$7'' @ CRLF @ ''message'' @ CRLF, 13, \<lambda>a s. s\<lparr>messagebulk := a\<rparr>),
      (''$8'' @ CRLF @ ''pmessage'' @ CRLF, 14, \<lambda>a s. s\<lparr>pmessagebulk := a\<rparr>),
      (''$9'' @ CRLF @ ''subscribe'' @ CRLF, 15, \<lambda>a s. s\<lparr>subscribebulk := a\<rparr>),
      (''$11'' @ CRLF @ ''unsubscribe'' @ CRLF, 18, \<lambda>a s. s\<lparr>unsubscribebulk := a\<rparr>),
      (''$10'' @ CRLF @ ''psubscribe'' @ CRLF, 17, \<lambda>a s. s\<lparr>psubscribebulk := a\<rparr>),
      (''$12'' @ CRLF @ ''punsubscribe'' @ CRLF, 19, \<lambda>a s. s\<lparr>punsubscribebulk := a\<rparr>),
      (''DEL'', 3, \<lambda>a s. s\<lparr>del_obj := a\<rparr>),
      (''RPOP'', 4, \<lambda>a s. s\<lparr>rpop_obj := a\<rparr>),
      (''LPOP'', 4, \<lambda>a s. s\<lparr>lpop_obj := a\<rparr>),
      (''LPUSH'', 5, \<lambda>a s. s\<lparr>lpush_obj := a\<rparr>)]"

definition shared_headers ::
    "(nat \<Rightarrow> char) \<Rightarrow> ((ostore \<Rightarrow> (obj_error, nat \<times> ostore) result) \<times> (nat \<Rightarrow> shared_objects \<Rightarrow> shared_objects)) list" where
  "shared_headers g =
     concat (map (\<lambda>j.
       [(new_printed g (''*'' @ ll_text (int j) @ CRLF), \<lambda>a s. s\<lparr>mbulkhdr := mbulkhdr s @ [a]\<rparr>),
        (new_printed g (''$'' @ ll_text (int j) @ CRLF), \<lambda>a s. s\<lparr>bulkhdr := bulkhdr s @ [a]\<rparr>)])
       [0..<nat REDIS_SHARED_BULKHDR_LEN])"

text \<open>The arrays start empty; the struct is otherwise overwritten.\<close>

definition createSharedObjects ::
    "(nat \<Rightarrow> char) \<Rightarrow> ostore \<times> shared_objects \<Rightarrow> (obj_error, ostore \<times> shared_objects) result" where
  "createSharedObjects g s =
     rbind (share_all (map (\<lambda>(t, upd). (new_sds g t, upd)) shared_literals @ shared_selects g @
         map (\<lambda>(t, n, upd). (createStringObject g (t @ [NUL]) n, upd)) shared_buffers) s) (\<lambda>(h, s).
       share_all (shared_headers g) (shared_integers_loop (nat REDIS_SHARED_INTEGERS) h, s))"

section \<open>The store it builds\<close>

text \<open>The objects are at the addresses from 0 on: strings, or integers.\<close>

fun holds :: "robj option \<Rightarrow> char list + int \<Rightarrow> bool" where
  "holds (Some ob) (Inl s) = (otype ob = REDIS_STRING \<and> oencoding ob = REDIS_ENCODING_RAW \<and> refcount ob = 1 \<and>
     (\<exists>t. optr ob = PSds t \<and> sds_ok t \<and> sds_str t = s))"
| "holds (Some ob) (Inr n) = (otype ob = REDIS_STRING \<and> oencoding ob = REDIS_ENCODING_INT \<and> refcount ob = 1 \<and> optr ob = PLong n)"
| "holds None _ = False"

definition filled :: "ostore \<Rightarrow> (char list + int) list \<Rightarrow> nat list \<Rightarrow> bool" where
  "filled h xs ints \<longleftrightarrow> nextobj h = length xs \<and> shared_integers h = ints \<and>
     (\<forall>a\<ge>length xs. objs h a = None) \<and> (\<forall>a<length xs. holds (objs h a) (xs ! a))"

definition creates :: "(ostore \<Rightarrow> (obj_error, nat \<times> ostore) result) \<Rightarrow> char list \<Rightarrow> bool" where
  "creates f s \<longleftrightarrow> (\<forall>h xs ints. filled h xs ints \<longrightarrow> (\<exists>h'. f h = Inr (length xs, h') \<and> filled h' (xs @ [Inl s]) ints))"

lemma filled_createObject:
  assumes "filled h xs ints" and "sds_ok t" and "sds_str t = s"
  shows "\<exists>h'. createObject REDIS_STRING (PSds t) h = (length xs, h') \<and> filled h' (xs @ [Inl s]) ints"
  using assms by (auto simp: createObject_def filled_def Let_def nth_append less_Suc_eq)

lemma new_sds_creates: "NUL \<notin> set s \<Longrightarrow> length s < 2147483648 \<Longrightarrow> creates (new_sds g s) s"
proof -
  assume s: "NUL \<notin> set s" "length s < 2147483648"
  have "sdsnewlen g (Some (s @ [NUL])) (int (length s)) = Inr (mk_sds s [])" using sdsnewlen_Some [of "length s" "s @ [NUL]" g] s by simp
  then have "sdsnew g (Some (s @ [NUL])) = Inr (mk_sds s [])" using s by (simp add: sdsnew_def strlen_cstr cstr_id)
  then show ?thesis
    using filled_createObject [where t = "mk_sds s []" and s = s] s by (auto simp: creates_def new_sds_def)
qed

lemma new_printed_creates: "NUL \<notin> set s \<Longrightarrow> length s < 1000000 \<Longrightarrow> creates (new_printed g s) s"
proof -
  assume s: "NUL \<notin> set s" "length s < 1000000"
  then obtain t where t: "sdscatprintf g (mk_sds [] []) s = Inr t" "sds_ok t" "sds_str t = s"
    using sdscatprintf_ok [of "mk_sds [] []" s g] by (auto simp: yields_iff cstr_id SDS_LIMIT_def)
  show ?thesis
    using filled_createObject [OF _ t(2,3)] t(1) by (auto simp: creates_def new_printed_def sdsempty_ok)
qed

lemma createStringObject_creates: "n = int (length s) \<Longrightarrow> length s < 2147483648 \<Longrightarrow> creates (createStringObject g (s @ [NUL]) n) s"
  using sdsnewlen_Some [of "length s" "s @ [NUL]" g] filled_createObject [where t = "mk_sds s []" and s = s]
  by (auto simp: creates_def createStringObject_def)

text \<open>The assignments: fields get the addresses in order.\<close>

fun assign :: "nat \<Rightarrow> ('f \<times> (nat \<Rightarrow> 's \<Rightarrow> 's)) list \<Rightarrow> 's \<Rightarrow> 's" where
  "assign n [] s = s"
| "assign n ((f, upd) # rest) s = assign (n + 1) rest (upd n s)"

lemma assign_append: "assign n (xs @ ys) s = assign (n + length xs) ys (assign n xs s)"
  by (induction n xs s rule: assign.induct) simp_all

lemma share_all_ok:
  assumes "list_all2 (\<lambda>(f, upd) t. creates f t) fs ts" and "filled h xs ints"
  shows "\<exists>h'. share_all fs (h, s) = Inr (h', assign (length xs) fs s) \<and> filled h' (xs @ map Inl ts) ints"
  using assms
proof (induction fs ts arbitrary: h xs s rule: list_all2_induct)
  case (Cons p fs t ts)
  obtain f upd where p: "p = (f, upd)" by (cases p)
  then obtain h1 where 1: "f h = Inr (length xs, h1)" "filled h1 (xs @ [Inl t]) ints"
    using Cons(1) Cons.prems unfolding creates_def by fast
  show ?case using Cons.IH [OF 1(2), of "upd (length xs) s"] 1(1) p by auto
qed simp

lemma filled_add:
  assumes "filled h xs ints" and "holds (Some ob) x" and "objs h' = (objs h)(length xs \<mapsto> ob)"
    and "nextobj h' = length xs + 1" and "shared_integers h' = ints'"
  shows "filled h' (xs @ [x]) ints'"
  using assms by (auto simp: filled_def nth_append less_Suc_eq)

lemma filled_loop:
  assumes "filled h xs ints"
  shows "filled (shared_integers_loop n h) (xs @ map (\<lambda>i. Inr (int i)) [0..<n]) (ints @ [length xs..<length xs + n])"
proof (induction n)
  case (Suc n)
  let ?h = "shared_integers_loop n h" and ?ys = "xs @ map (\<lambda>i. Inr (int i)) [0..<n]"
  have n: "nextobj ?h = length xs + n" "shared_integers ?h = ints @ [length xs..<length xs + n]" using Suc by (simp_all add: filled_def)
  have "filled (shared_integers_loop (Suc n) h) (?ys @ [Inr (int n)]) (ints @ [length xs..<length xs + n] @ [length xs + n])"
    by (rule filled_add [OF Suc, where ob = "\<lparr>otype = REDIS_STRING, oencoding = REDIS_ENCODING_INT, lru = lruclock ?h, refcount = 1,
          optr = PLong (int n)\<rparr>"]) (simp_all add: createObject_def Let_def n)
  then show ?case by simp
qed (use assms in simp)

text \<open>The texts of the objects, and where the fields point.\<close>

lemma list_all2_map_text: "list_all2 R (map f xs) (map t xs) \<longleftrightarrow> (\<forall>x\<in>set xs. R (f x) (t x))"
  by (induction xs) auto

definition shared_texts :: "char list list" where
  "shared_texts =
     map fst shared_literals @ map (\<lambda>j. ''select '' @ ll_text (int j) @ CRLF) [0..<REDIS_SHARED_SELECT_CMDS] @ map fst shared_buffers"

definition header_texts :: "char list list" where
  "header_texts = concat (map (\<lambda>j. [''*'' @ ll_text (int j) @ CRLF, ''$'' @ ll_text (int j) @ CRLF]) [0..<32])"

lemma printed_short: "c \<noteq> NUL \<Longrightarrow> NUL \<notin> set (c # s @ ll_text (int j) @ CRLF) \<and> length (c # s @ ll_text (int j) @ CRLF) < 1000000"
  if "j < 100" "NUL \<notin> set s" "length s < 100"
proof -
  have "is_ll (int j)" using that(1) by (simp add: ll_bounds)
  then show "NUL \<notin> set (c # s @ ll_text (int j) @ CRLF) \<and> length (c # s @ ll_text (int j) @ CRLF) < 1000000" if "c \<noteq> NUL"
    using ll_text_length [of "int j"] ll_text_no_NUL [of "int j"] that \<open>NUL \<notin> set s\<close> \<open>length s < 100\<close> by (simp add: CRLF_def)
qed

lemma literals_create: "\<forall>p\<in>set shared_literals. NUL \<notin> set (fst p) \<and> length (fst p) < 2147483648"
  by (simp add: shared_literals_def CRLF_def)

lemma buffers_create: "\<forall>p\<in>set shared_buffers. fst (snd p) = int (length (fst p)) \<and> length (fst p) < 2147483648"
  by (simp add: shared_buffers_def CRLF_def)

lemma select_creates: "j < 100 \<Longrightarrow> creates (new_printed g (''select '' @ ll_text (int j) @ CRLF)) (''select '' @ ll_text (int j) @ CRLF)"
  using printed_short [of j "''elect ''" "CHR ''s''"] by (intro new_printed_creates) simp_all

lemma first_part_creates:
  "list_all2 (\<lambda>(f, upd) t. creates f t)
     (map (\<lambda>(t, upd). (new_sds g t, upd)) shared_literals @ shared_selects g @
      map (\<lambda>(t, n, upd). (createStringObject g (t @ [NUL]) n, upd)) shared_buffers) shared_texts"
  unfolding shared_texts_def shared_selects_def
proof (intro list_all2_appendI)
  show "list_all2 (\<lambda>(f, upd) t. creates f t) (map (\<lambda>(t, upd). (new_sds g t, upd)) shared_literals) (map fst shared_literals)"
    unfolding list_all2_map_text using literals_create new_sds_creates by (auto simp: case_prod_beta)
  show "list_all2 (\<lambda>(f, upd) t. creates f t)
     (map (\<lambda>(t, n, upd). (createStringObject g (t @ [NUL]) n, upd)) shared_buffers) (map fst shared_buffers)"
    unfolding list_all2_map_text using buffers_create createStringObject_creates by (auto simp: case_prod_beta)
  show "list_all2 (\<lambda>(f, upd) t. creates f t)
     (map (\<lambda>j. (new_printed g (''select '' @ ll_text (int j) @ CRLF), \<lambda>a s. s\<lparr>select_cmds := select_cmds s @ [a]\<rparr>)) [0..<REDIS_SHARED_SELECT_CMDS])
     (map (\<lambda>j. ''select '' @ ll_text (int j) @ CRLF) [0..<REDIS_SHARED_SELECT_CMDS])"
    unfolding list_all2_map_text using select_creates by (simp add: REDIS_SHARED_SELECT_CMDS_def)
qed

lemma headers_create: "list_all2 (\<lambda>(f, upd) t. creates f t) (shared_headers g) header_texts"
proof -
  have L: "list_all2 (\<lambda>(f, upd) t. creates f t)
     (concat (map (\<lambda>j. [(new_printed g (''*'' @ ll_text (int j) @ CRLF), \<lambda>a s. s\<lparr>mbulkhdr := mbulkhdr s @ [a]\<rparr>),
        (new_printed g (''$'' @ ll_text (int j) @ CRLF), \<lambda>a s. s\<lparr>bulkhdr := bulkhdr s @ [a]\<rparr>)]) js))
     (concat (map (\<lambda>j. [''*'' @ ll_text (int j) @ CRLF, ''$'' @ ll_text (int j) @ CRLF]) js))" if "\<forall>j\<in>set js. j < 100" for js :: "nat list"
    using that
  proof (induction js)
    case (Cons j js)
    then show ?case
      using printed_short [of j "[]" "CHR ''*''"] printed_short [of j "[]" "CHR ''$''"] by (auto intro!: new_printed_creates)
  qed simp
  have "nat REDIS_SHARED_BULKHDR_LEN = 32" by (simp add: REDIS_SHARED_BULKHDR_LEN_def)
  then show ?thesis unfolding shared_headers_def header_texts_def by (simp only:) (rule L, simp)
qed

section \<open>What the reply functions assume\<close>

definition empty_store :: "int \<Rightarrow> int \<Rightarrow> ostore" where
  "empty_store clock mem = \<lparr>objs = Map.empty, nextobj = 0, lruclock = clock, maxmemory = mem, shared_integers = []\<rparr>"

text \<open>The references of the struct to strings.\<close>

definition shared_refs :: "nat list" where
  "shared_refs = [0..<48] @ [10048..<10112]"

lemma lengths: "length shared_texts = 48" "length header_texts = 64"
proof -
  show "length shared_texts = 48" by (simp add: shared_texts_def shared_literals_def shared_buffers_def REDIS_SHARED_SELECT_CMDS_def)
  have "length (concat (map (\<lambda>j. [f j, f' j]) js)) = 2 * length js" for f f' :: "nat \<Rightarrow> char list" and js by (induction js) simp_all
  then show "length header_texts = 64" by (simp add: header_texts_def)
qed

lemma assign_headers:
  "assign n (concat (map (\<lambda>j. [(F j, \<lambda>a s. s\<lparr>mbulkhdr := mbulkhdr s @ [a]\<rparr>), (F' j, \<lambda>a s. s\<lparr>bulkhdr := bulkhdr s @ [a]\<rparr>)]) js)) s =
     s\<lparr>mbulkhdr := mbulkhdr s @ map (\<lambda>i. n + 2 * i) [0..<length js], bulkhdr := bulkhdr s @ map (\<lambda>i. n + 2 * i + 1) [0..<length js]\<rparr>"
  for s :: shared_objects
proof (induction js arbitrary: n s)
  case (Cons j js)
  have "[0..<length (j # js)] = 0 # map Suc [0..<length js]" by (simp add: upt_conv_Cons map_Suc_upt del: upt_Suc)
  then show ?case by (simp add: Cons del: upt_Suc)
qed simp

lemma header_texts_nth: "j < 32 \<Longrightarrow> header_texts ! (2 * j) = resp (CHR ''*'') (ll_text (int j)) \<and>
    header_texts ! (2 * j + 1) = resp (CHR ''$'') (ll_text (int j))"
proof -
  have "j < length js \<Longrightarrow> concat (map (\<lambda>j. [f j, f' j]) js) ! (2 * j) = f (js ! j) \<and> concat (map (\<lambda>j. [f j, f' j]) js) ! (2 * j + 1) = f' (js ! j)"
    for f f' :: "nat \<Rightarrow> char list" and js
    by (induction js arbitrary: j) (auto simp: less_Suc_eq_0_disj)
  from this [of "[0..<32]" "\<lambda>j. ''*'' @ ll_text (int j) @ CRLF" "\<lambda>j. ''$'' @ ll_text (int j) @ CRLF"] show "j < 32 \<Longrightarrow> ?thesis"
    by (simp add: header_texts_def resp_def)
qed

definition shared_first :: "(nat \<Rightarrow> char) \<Rightarrow> ((ostore \<Rightarrow> (obj_error, nat \<times> ostore) result) \<times> (nat \<Rightarrow> shared_objects \<Rightarrow> shared_objects)) list" where
  "shared_first g = map (\<lambda>(t, upd). (new_sds g t, upd)) shared_literals @ shared_selects g @
      map (\<lambda>(t, n, upd). (createStringObject g (t @ [NUL]) n, upd)) shared_buffers"

lemma createSharedObjects_assigns:
  "\<exists>h. createSharedObjects g (empty_store clock mem, s0) = Inr (h, assign 10048 (shared_headers g) (assign 0 (shared_first g) s0)) \<and>
    filled h (map Inl shared_texts @ map (\<lambda>i. Inr (int i)) [0..<10000] @ map Inl header_texts) [48..<10048]"
proof -
  define s1 where "s1 = assign 0 (shared_first g) s0"
  have "filled (empty_store clock mem) [] []" by (simp add: filled_def empty_store_def)
  from share_all_ok [OF first_part_creates this, of g s0] obtain h1 where
    1: "share_all (shared_first g) (empty_store clock mem, s0) = Inr (h1, s1)" "filled h1 (map Inl shared_texts) []"
    by (auto simp: s1_def shared_first_def)
  have n: "nat REDIS_SHARED_INTEGERS = 10000" by (simp add: REDIS_SHARED_INTEGERS_def)
  let ?xs = "map Inl shared_texts @ map (\<lambda>i. Inr (int i)) [0..<10000]"
  have 2: "filled (shared_integers_loop 10000 h1) ?xs [48..<10048]" using filled_loop [OF 1(2), of 10000] lengths(1) by simp
  from share_all_ok [OF headers_create this, of g s1] obtain h2 where
    3: "share_all (shared_headers g) (shared_integers_loop 10000 h1, s1) = Inr (h2, assign (length ?xs) (shared_headers g) s1)"
    "filled h2 (?xs @ map Inl header_texts) [48..<10048]" by blast
  have len: "length ?xs = 10048" using lengths(1) by simp
  have "createSharedObjects g (empty_store clock mem, s0) = Inr (h2, assign 10048 (shared_headers g) s1)"
    unfolding createSharedObjects_def 1(1) [unfolded shared_first_def] n using 3(1) unfolding len by simp
  then show ?thesis using 3(2) by (intro exI [of _ h2]) (simp add: s1_def)
qed

lemma assigned_headers:
  "assign 10048 (shared_headers g) s1 =
    s1\<lparr>mbulkhdr := mbulkhdr s1 @ map (\<lambda>i. 10048 + 2 * i) [0..<32], bulkhdr := bulkhdr s1 @ map (\<lambda>i. 10048 + 2 * i + 1) [0..<32]\<rparr>"
  unfolding shared_headers_def assign_headers by (simp add: REDIS_SHARED_BULKHDR_LEN_def)

lemmas shared_first_defs = shared_first_def shared_literals_def shared_selects_def shared_buffers_def REDIS_SHARED_SELECT_CMDS_def

lemma assigned_first:
  assumes "select_cmds s0 = []" and "mbulkhdr s0 = []" and "bulkhdr s0 = []"
  shows "crlf (assign 0 (shared_first g) s0) = 0" "czero (assign 0 (shared_first g) s0) = 4" "cone (assign 0 (shared_first g) s0) = 5"
    "nullbulk (assign 0 (shared_first g) s0) = 7" "mbulkhdr (assign 0 (shared_first g) s0) = []" "bulkhdr (assign 0 (shared_first g) s0) = []"
  using assms by (simp_all add: shared_first_defs upt_conv_Cons del: upt_Suc)

lemma createSharedObjects_filled:
  assumes "select_cmds s0 = []" and "mbulkhdr s0 = []" and "bulkhdr s0 = []"
  shows "\<exists>h s. createSharedObjects g (empty_store clock mem, s0) = Inr (h, s) \<and>
    filled h (map Inl shared_texts @ map (\<lambda>i. Inr (int i)) [0..<10000] @ map Inl header_texts) [48..<10048] \<and>
    crlf s = 0 \<and> czero s = 4 \<and> cone s = 5 \<and> nullbulk s = 7 \<and>
    mbulkhdr s = map (\<lambda>i. 10048 + 2 * i) [0..<32] \<and> bulkhdr s = map (\<lambda>i. 10049 + 2 * i) [0..<32]"
proof -
  let ?s = "assign 10048 (shared_headers g) (assign 0 (shared_first g) s0)"
  obtain h where h: "createSharedObjects g (empty_store clock mem, s0) = Inr (h, ?s)"
    "filled h (map Inl shared_texts @ map (\<lambda>i. Inr (int i)) [0..<10000] @ map Inl header_texts) [48..<10048]"
    using createSharedObjects_assigns by blast
  have "crlf ?s = 0 \<and> czero ?s = 4 \<and> cone ?s = 5 \<and> nullbulk ?s = 7 \<and>
    mbulkhdr ?s = map (\<lambda>i. 10048 + 2 * i) [0..<32] \<and> bulkhdr ?s = map (\<lambda>i. 10049 + 2 * i) [0..<32]"
    unfolding assigned_headers by (simp add: assigned_first [OF assms])
  then show ?thesis using h by blast
qed

text \<open>The fields the command layer replies with.\<close>

lemma assigned_replies:
  "ok_obj (assign 0 (shared_first g) s0) = 1" "nullmultibulk (assign 0 (shared_first g) s0) = 8"
  "pong (assign 0 (shared_first g) s0) = 10" "queued (assign 0 (shared_first g) s0) = 11"
  "loadingerr (assign 0 (shared_first g) s0) = 18" "slowscripterr (assign 0 (shared_first g) s0) = 19"
  "masterdownerr (assign 0 (shared_first g) s0) = 20" "bgsaveerr (assign 0 (shared_first g) s0) = 21"
  "roslaveerr (assign 0 (shared_first g) s0) = 22" "execaborterr (assign 0 (shared_first g) s0) = 24"
  by (simp_all add: shared_first_defs upt_conv_Cons del: upt_Suc)

lemma count_upt: "count_list [i..<j] a = (if i \<le> a \<and> a < j then 1 else 0)"
  using distinct_count_atmost_1 [of "[i..<j]"] by (simp add: count_mset [symmetric])

lemma holds_str: "holds c x \<Longrightarrow> \<exists>ob. c = Some ob \<and> str_ok ob \<and> refcount ob = 1 \<and> optr ob \<noteq> PNull \<and>
    obj_text ob = (case x of Inl s \<Rightarrow> s | Inr n \<Rightarrow> ll_text n)"
  if "case x of Inl s \<Rightarrow> True | Inr n \<Rightarrow> is_ll n"
  using that by (cases "(c, x)" rule: holds.cases) (auto simp: str_ok_def obj_text_def)

definition shared_items :: "(char list + int) list" where
  "shared_items = map Inl shared_texts @ map (\<lambda>i. Inr (int i)) [0..<10000] @ map Inl header_texts"

lemma shared_items_nth:
  "length shared_items = 10112"
  "a < 48 \<Longrightarrow> shared_items ! a = Inl (shared_texts ! a)"
  "i < 10000 \<Longrightarrow> shared_items ! (48 + i) = Inr (int i)"
  "j < 64 \<Longrightarrow> shared_items ! (10048 + j) = Inl (header_texts ! j)"
  using lengths by (simp_all add: shared_items_def nth_append)

lemma shared_items_ll: "a < 10112 \<Longrightarrow> case shared_items ! a of Inl s \<Rightarrow> True | Inr n \<Rightarrow> is_ll n"
proof -
  assume a: "a < 10112"
  consider "a < 48" | i where "a = 48 + i" "i < 10000" | j where "a = 10048 + j" "j < 64"
  proof -
    have "a = 48 + (a - 48) \<and> a - 48 < 10000" if "\<not> a < 48" "a < 10048" using that by simp
    moreover have "a = 10048 + (a - 10048) \<and> a - 10048 < 64" if "\<not> a < 10048" using that a by simp
    ultimately show thesis using that by blast
  qed
  then show ?thesis
  proof cases
    case (2 i)
    then show ?thesis using shared_items_nth(3) [of i] by (simp add: ll_bounds)
  qed (use shared_items_nth(2,4) in simp_all)
qed

lemma filled_store:
  assumes "filled h shared_items [48..<10048]"
  shows "store_ok h shared_refs" and "a < 10112 \<Longrightarrow> solid h a \<and> text_at h a = (case shared_items ! a of Inl s \<Rightarrow> s | Inr n \<Rightarrow> ll_text n)"
proof -
  have live: "\<exists>ob. objs h a = Some ob \<and> str_ok ob \<and> refcount ob = 1 \<and> optr ob \<noteq> PNull \<and>
    obj_text ob = (case shared_items ! a of Inl s \<Rightarrow> s | Inr n \<Rightarrow> ll_text n)" if "a < 10112" for a
    using holds_str [OF shared_items_ll [OF that]] assms that by (simp add: filled_def shared_items_nth(1))
  have dead: "objs h a = None" if "\<not> a < 10112" for a using assms that by (simp add: filled_def shared_items_nth(1))
  have ints: "shared_integers h = [48..<10048]" "nextobj h = 10112" using assms by (simp_all add: filled_def shared_items_nth(1))
  have refs: "refs h shared_refs a = (if a < 10112 then 1 else 0)" for a by (simp add: refs_def shared_refs_def ints(1) count_upt)
  have "\<exists>ob. objs h (48 + i) = Some ob \<and> optr ob = PLong (int i)" if "i < 10000" for i
  proof -
    have "holds (objs h (48 + i)) (shared_items ! (48 + i))" using assms that by (simp add: filled_def shared_items_nth(1))
    then have "holds (objs h (48 + i)) (Inr (int i))" using shared_items_nth(3) [OF that] by simp
    then show ?thesis by (cases "objs h (48 + i)") auto
  qed
  then have "shared_ok h" by (simp add: shared_ok_def ints(1))
  moreover have "objs h a \<noteq> None" if "a \<in> set shared_refs" for a using live [of a] that by (auto simp: shared_refs_def)
  moreover have "cell_ok ob \<and> a < nextobj h \<and> refcount ob = int (refs h shared_refs a) \<and> 0 < refs h shared_refs a" if "objs h a = Some ob" for a ob
    using that live [of a] dead [of a] by (cases "a < 10112") (auto simp: refs ints(2) cell_ok_def)
  moreover have "length shared_refs \<le> REF_LIMIT" by (simp add: shared_refs_def REF_LIMIT_def)
  ultimately show "store_ok h shared_refs" by (simp add: store_ok_def)
  show "a < 10112 \<Longrightarrow> solid h a \<and> text_at h a = (case shared_items ! a of Inl s \<Rightarrow> s | Inr n \<Rightarrow> ll_text n)"
    using live [of a] by (auto simp: solid_def text_at_def)
qed

lemma shared_text_items:
  assumes "filled h shared_items [48..<10048]" and "heap w = h" and "a \<in> set shared_refs"
  shows "shared_text shared_refs w a (case shared_items ! a of Inl s \<Rightarrow> s | Inr n \<Rightarrow> ll_text n)"
  using filled_store(2) [OF assms(1), of a] assms(2,3) by (auto simp: shared_text_def shared_refs_def)

lemma shared_strings_filled:
  assumes f: "filled h shared_items [48..<10048]" and w: "heap w = h" "shared w = s"
    and s: "crlf s = 0" "czero s = 4" "cone s = 5" "nullbulk s = 7"
    "mbulkhdr s = map (\<lambda>i. 10048 + 2 * i) [0..<32]" "bulkhdr s = map (\<lambda>i. 10049 + 2 * i) [0..<32]"
  shows "shared_strings_ok shared_refs w"
proof -
  note tx = shared_text_items [OF f w(1)]
  have t: "shared_texts ! 0 = CRLF" "shared_texts ! 4 = resp (CHR '':'') ''0''" "shared_texts ! 5 = resp (CHR '':'') ''1''"
    "shared_texts ! 7 = resp (CHR ''$'') ''-1''"
    by (simp_all add: shared_texts_def shared_literals_def resp_def nth_append)
  have "shared_text shared_refs w (10048 + 2 * j) (resp (CHR ''*'') (ll_text (int j)))"
    "shared_text shared_refs w (10049 + 2 * j) (resp (CHR ''$'') (ll_text (int j)))" if "j < 32" for j
    using tx [of "10048 + 2 * j"] tx [of "10049 + 2 * j"] that
      shared_items_nth(4) [of "2 * j"] shared_items_nth(4) [of "2 * j + 1"] header_texts_nth [of j] by (simp_all add: shared_refs_def)
  then show ?thesis
    using tx [of 0] tx [of 4] tx [of 5] tx [of 7] w(2) s shared_items_nth(2) t
    by (simp add: shared_strings_ok_def shared_refs_def OUT_LIMIT_def)
qed


end
