(* ===== verification/Reply_Props.thy ===== *)
theory Reply_Props
  imports Shared_Objects
begin

text \<open>The properties of the reply side of \<open>networking.c\<close>.\<close>

section \<open>A client nothing has been sent to\<close>

definition idle_client :: "('a redisClient_scheme) \<Rightarrow> bool" where
  "idle_client c \<longleftrightarrow> bufpos c = 0 \<and> reply c = [] \<and> sentlen c = 0 \<and> reply_bytes c = 0 \<and> length (buf c) = 16384"

lemma idle_sending:
  assumes "idle_client c" and "open_client e c" and "store_ok (heap w) held" and "length held \<le> OUT_LIMIT"
    and "length (client_obuf_limits w) = 3"
  shows "sending e held 0 c w \<and> out c w = []"
  using assms by (simp add: idle_client_def sending_def client_ok_def sent_ok_def out_def)

lemma stream_spec_fold:
  "spec_fold (reply_spec txts) a rs = ((fst a @ concat (map (reply_text txts) rs), snd a + sum_list (map pieces rs)), map (\<lambda>_. ()) rs)"
  by (induction rs arbitrary: a) (auto simp: reply_spec_def)

lemma stream_admissible:
  "admissible (reply_spec txts) (reply_room txts A) a rs" if "list_all (reply_ok txts A) rs" "snd a + sum_list (map pieces rs) \<le> OUT_LIMIT"
  using that by (induction rs arbitrary: a) (auto simp: reply_spec_def reply_room_def)

lemma stream_from_idle:
  assumes "idle_client c" and "open_client e c" and "store_ok (heap w) held" and "shared_strings_ok held w"
    and "length (client_obuf_limits w) = 3" and "sock w = []"
    and "list_all (reply_ok (text_at (heap w)) {a \<in> set held. solid (heap w) a}) rs" and "sum_list (map pieces rs) \<le> OUT_LIMIT"
  obtains c' w' where "run (reply_step e) (c, w) rs = Inr ((c', w'), map (\<lambda>_. ()) rs)"
    "sending e held (sum_list (map pieces rs)) c' w'"
    "map Inl (sock w') @ out c' w' = map Inl (concat (map (reply_text (text_at (heap w))) rs))"
    "live_texts held (text_at (heap w)) {a \<in> set held. solid (heap w) a} w'"
proof -
  let ?A = "{a \<in> set held. solid (heap w) a}" and ?t = "text_at (heap w)"
  have "length held \<le> OUT_LIMIT" using assms(4) by (simp add: shared_strings_ok_def)
  then have "sending e held 0 c w" "out c w = []" using idle_sending [OF assms(1-3) _ assms(5)] by simp_all
  then have r: "stream_repr e held ?t ?A (c, w) ([], 0)" using assms(4,6) by (simp add: stream_repr_def live_texts_def)
  have a: "admissible (reply_spec ?t) (reply_room ?t ?A) ([], 0) rs" using stream_admissible [OF assms(7)] assms(8) by simp
  obtain s' where s': "run (reply_step e) (c, w) rs = Inr (s', map (\<lambda>_. ()) rs)"
    "stream_repr e held ?t ?A s' (concat (map (reply_text ?t) rs), sum_list (map pieces rs))"
    using stream.run_law [OF r a] unfolding stream_spec_fold by auto
  obtain c' w' where "s' = (c', w')" by (cases s')
  then show thesis using that [of c' w'] s' by (simp add: stream_repr_def)
qed

text \<open>
  C33. Any sequence of reply functions and socket writes on a fresh client, replies with deferred lengths nested in each
  other included, runs without a fault; the bytes the socket has accepted followed by the pending output are the
  protocol texts of the replies, in order; once nothing is pending the socket has received exactly them. The objects
  the program holds keep their texts although the list of replies shares and edits objects.
\<close>

theorem replies_reach_socket:
  assumes "idle_client c" and "open_client e c" and "store_ok (heap w) held" and "shared_strings_ok held w"
    and "length (client_obuf_limits w) = 3" and "sock w = []"
    and "list_all (reply_ok (text_at (heap w)) {a \<in> set held. solid (heap w) a}) rs" and "sum_list (map pieces rs) \<le> OUT_LIMIT"
  shows "\<exists>c' w'. run (reply_step e) (c, w) rs = Inr ((c', w'), map (\<lambda>_. ()) rs) \<and>
    map Inl (sock w') @ out c' w' = map Inl (concat (map (reply_text (text_at (heap w))) rs)) \<and>
    (bufpos c' = 0 \<and> reply c' = [] \<longrightarrow> sock w' = concat (map (reply_text (text_at (heap w))) rs)) \<and>
    store_ok (heap w') (held @ reply c') \<and>
    (\<forall>a\<in>set held. solid (heap w) a \<longrightarrow> text_at (heap w') a = text_at (heap w) a)"
proof -
  obtain c' w' where 1: "run (reply_step e) (c, w) rs = Inr ((c', w'), map (\<lambda>_. ()) rs)"
    "sending e held (sum_list (map pieces rs)) c' w'"
    "map Inl (sock w') @ out c' w' = map Inl (concat (map (reply_text (text_at (heap w))) rs))"
    "live_texts held (text_at (heap w)) {a \<in> set held. solid (heap w) a} w'"
    using stream_from_idle [OF assms] .
  have "sock w' = concat (map (reply_text (text_at (heap w))) rs)" if "bufpos c' = 0" "reply c' = []"
    using 1(3) that by (simp add: out_def inj_map_eq_map)
  then show ?thesis using 1 by (auto simp: live_texts_def sending_def client_ok_def)
qed

definition demo_client :: redisClient where
  "demo_client = \<lparr>cid = 0, fd = 5, cflags = 0, replstate = REDIS_REPL_NONE, bufpos = 0, buf = replicate 16384 NUL, reply = [],
     reply_bytes = 0, sentlen = 0, obuf_soft_limit_reached_time = 0, subscriptions = 0\<rparr>"

definition demo_env :: nenv where
  "demo_env = \<lparr>fresh = (\<lambda>_. NUL), zmalloc_size_sds = (\<lambda>s. int (length (sh_buf s)) mod 2 ^ 32), write_event = True, used_memory = 0\<rparr>"

definition demo_world :: "ostore \<times> shared_objects \<Rightarrow> nworld" where
  "demo_world hs = \<lparr>heap = fst hs, shared = snd hs, unixtime = 0, client_obuf_limits = replicate 3 \<lparr>hard_limit_bytes = 0,
     soft_limit_bytes = 0, soft_limit_seconds = 0\<rparr>, clients_to_close = [], sock = []\<rparr>"

lemma demo_ok: "idle_client demo_client" "open_client demo_env demo_client" "length (client_obuf_limits (demo_world hs)) = 3"
  "sock (demo_world hs) = []" "heap (demo_world hs) = fst hs" "shared (demo_world hs) = snd hs"
  by (simp_all add: demo_client_def demo_env_def demo_world_def idle_client_def open_client_def usable_ok_def has_flag_def net_consts)

definition zero_shared :: shared_objects where
  "zero_shared = \<lparr>crlf = 0, ok_obj = 0, err_obj = 0, emptybulk = 0, czero = 0, cone = 0, cnegone = 0, pong = 0, space_obj = 0,
     colon_obj = 0, nullbulk = 0, nullmultibulk = 0, queued = 0, emptymultibulk = 0, wrongtypeerr = 0, nokeyerr =
     0, syntaxerr = 0, sameobjecterr = 0, outofrangeerr = 0, noscripterr = 0, loadingerr = 0, slowscripterr = 0,
     bgsaveerr = 0, masterdownerr = 0, roslaveerr = 0, execaborterr = 0, oomerr = 0, plus_obj = 0, messagebulk = 0,
     pmessagebulk = 0, subscribebulk = 0, unsubscribebulk = 0, psubscribebulk = 0, punsubscribebulk = 0, del_obj =
     0, rpop_obj = 0, lpop_obj = 0, lpush_obj = 0, select_cmds = [], mbulkhdr = [], bulkhdr = []\<rparr>"

lemma small_texts: "ll_text 7 = ''7''" "ll_text 2 = ''2''" "ll_text 1 = ''1''"
  by code_simp+


definition demo_replies :: "reply list" where
  "demo_replies = [Simple (RInteger 7), Deferred 2 [Simple (RBulkBuffer ''ab''), Simple (RObject 5)], Simple (RWrite [Accept 3])]"

lemma demo_world_exists:
  obtains h s where "createSharedObjects (\<lambda>_. NUL) (empty_store 7 0, zero_shared) = Inr (h, s)" "store_ok h shared_refs"
    "shared_strings_ok shared_refs (demo_world (h, s))" "solid h 5" "text_at h 5 = resp (CHR '':'') ''1''" "5 \<in> set shared_refs"
proof -
  obtain h s where f: "createSharedObjects (\<lambda>_. NUL) (empty_store 7 0, zero_shared) = Inr (h, s)" "filled h shared_items [48..<10048]"
    "crlf s = 0" "czero s = 4" "cone s = 5" "nullbulk s = 7"
    "mbulkhdr s = map (\<lambda>i. 10048 + 2 * i) [0..<32]" "bulkhdr s = map (\<lambda>i. 10049 + 2 * i) [0..<32]"
    using createSharedObjects_filled [of zero_shared "\<lambda>_. NUL" 7 0] unfolding shared_items_def by (auto simp: zero_shared_def)
  have sh: "shared_strings_ok shared_refs (demo_world (h, s))" by (rule shared_strings_filled) (use f demo_ok(5,6) in simp_all)
  then have "shared_text shared_refs (demo_world (h, s)) 5 (resp (CHR '':'') ''1'')"
    using f(5) demo_ok(6) by (simp add: shared_strings_ok_def)
  then show thesis using that f(1) filled_store(1) [OF f(2)] sh demo_ok(5) by (simp add: shared_text_def)
qed

theorem replies_reach_socket_witness:
  "\<exists>h s c' w'. createSharedObjects (\<lambda>_. NUL) (empty_store 7 0, zero_shared) = Inr (h, s) \<and>
    run (reply_step demo_env) (demo_client, demo_world (h, s)) demo_replies = Inr ((c', w'), [(), (), ()]) \<and>
    map Inl (sock w') @ out c' w' = map Inl ('':7'' @ CRLF @ ''*2'' @ CRLF @ ''$2'' @ CRLF @ ''ab'' @ CRLF @ '':1'' @ CRLF)"
proof -
  obtain h s where 1: "createSharedObjects (\<lambda>_. NUL) (empty_store 7 0, zero_shared) = Inr (h, s)" "store_ok h shared_refs"
    "shared_strings_ok shared_refs (demo_world (h, s))" "solid h 5" "text_at h 5 = resp (CHR '':'') ''1''" "5 \<in> set shared_refs"
    using demo_world_exists .
  have "list_all (reply_ok (text_at h) {a \<in> set shared_refs. solid h a}) demo_replies" "sum_list (map pieces demo_replies) \<le> OUT_LIMIT"
    using 1(4-6) by (simp_all add: demo_replies_def TEXT_LIMIT_def ll_bounds resp_def bulk_def small_texts CRLF_def SDS_LIMIT_def OUT_LIMIT_def)
  moreover have "concat (map (reply_text (text_at h)) demo_replies) =
      '':7'' @ CRLF @ ''*2'' @ CRLF @ ''$2'' @ CRLF @ ''ab'' @ CRLF @ '':1'' @ CRLF"
    using 1(5) by (simp add: demo_replies_def resp_def bulk_def small_texts)
  moreover have "map (\<lambda>_. ()) demo_replies = [(), (), ()]" by (simp add: demo_replies_def)
  ultimately show ?thesis
    using replies_reach_socket [of demo_client demo_env "demo_world (h, s)" shared_refs demo_replies, unfolded demo_ok(5) fst_conv,
      OF demo_ok(1,2) 1(2,3) demo_ok(3,4)] 1(1) by metis
qed

text \<open>The guard on the shared headers has no lower bound: a negative length indexes the table from below.\<close>

lemma negative_header_faults:
  assumes "ll < 0" and "pfx = CHR ''*'' \<or> pfx = CHR ''$''"
  shows "addReplyLongLongWithPrefix e ll pfx c w = Inl ArrayBounds"
  using assms by (auto simp: addReplyLongLongWithPrefix_def header_at_def net_consts)

end
