(* ===== verification/Session_Props.thy ===== *)
theory Session_Props
  imports Command_Props Reply_Props
begin

text \<open>The properties of the request side and of the command layer, from a fresh connection to the bytes of its replies.\<close>

section \<open>A fresh connection\<close>

definition new_session :: session where
  "new_session = \<lparr>authed = False, in_multi = False, aborting = False, queue = [], sent = [], budget = 0\<rparr>"

lemma fresh_client:
  assumes "createClient (net e) re i f now = Inr (Some c)" and "0 < f"
  obtains q where "sdsempty (fresh (net e)) = Inr q" "sds_ok q" "sds_str q = []"
    "c = \<lparr>cid = i, fd = f, cflags = 0, replstate = REDIS_REPL_NONE, bufpos = 0,
       buf = map (fresh (net e)) [0..<16384], reply = [], reply_bytes = 0, sentlen = 0,
       obuf_soft_limit_reached_time = 0, subscriptions = 0,
       querybuf = q, querybuf_peak = 0, argv = [], argv_room = 0, cmd = None, reqtype = 0, multibulklen = 0, bulklen = -1,
       lastinteraction = now\<rparr>"
proof -
  have "sdsempty (fresh (net e)) = Inr (mk_sds [] [])" by (rule sdsempty_ok)
  then show thesis using assms by (intro that [of "mk_sds [] []"]) (auto simp: createClient_def net_consts split: if_splits)
qed

lemma fresh_session:
  assumes c: "createClient (net e) re i f now = Inr (Some c)" and f: "0 < f" and e: "write_event (net e)" "usable_ok (net e)"
    and w: "store_ok (heap w) held" "command_strings_ok held w" "length (client_obuf_limits w) = 3" "sock w = []"
    and sv: "server_ok e sv" "also_propagate sv = []" and reqs: "list_all request_ok reqs"
  shows "session_inv e sv 0 held sv new_session held (command_fields c) w" "idle_state held (command_fields c) w reqs (concat (map encode reqs))"
    "sds_str (querybuf (command_fields c)) = []"
proof -
  from fresh_client [OF c f] obtain q where q: "sds_ok q" "sds_str q = []" and c': "c = \<lparr>cid = i, fd = f, cflags = 0, replstate = REDIS_REPL_NONE, bufpos = 0,
       buf = map (fresh (net e)) [0..<16384], reply = [], reply_bytes = 0, sentlen = 0,
       obuf_soft_limit_reached_time = 0, subscriptions = 0,
       querybuf = q, querybuf_peak = 0, argv = [], argv_room = 0, cmd = None, reqtype = 0, multibulklen = 0, bulklen = -1,
       lastinteraction = now\<rparr>" by blast
  note fields = c' command_fields_def request_client.extend_def command_client.fields_def
  have l: "length held \<le> OUT_LIMIT" using w(2) by (simp add: command_strings_ok_def shared_strings_ok_def)
  have "output_ok (net e) (budget new_session) (command_fields c) w"
    using w(3) by (simp add: output_ok_def new_session_def fields sent_ok_def list_bytes_def)
  moreover have "open_client (net e) (command_fields c)" using f e by (simp add: open_client_def fields has_flag_def)
  moreover have "view_ok e sv 0 sv new_session (command_fields c) w"
    using sv(2) w(4) by (simp add: view_ok_def same_config_def new_session_def fields has_flag_def out_def)
  ultimately show "session_inv e sv 0 held sv new_session held (command_fields c) w"
    using w l sv(1) by (simp add: session_inv_def queue_refs_def fields)
  show "idle_state held (command_fields c) w reqs (concat (map encode reqs))"
    using q(1) w(1) l reqs by (simp add: idle_state_def fields)
  show "sds_str (querybuf (command_fields c)) = []" using q(2) by (simp add: fields)
qed

text \<open>
  C36. The bytes of any list of requests (in both protocol forms) arrive at a fresh connection in reads of any positive
  sizes. The handler never faults and never closes the connection; what has been sent or is pending is, at every
  moment, the text the abstract session gives as the replies to the requests read so far, in order: AUTH, PING, ECHO,
  MULTI, EXEC, DISCARD and UNWATCH, queued or executed, unknown commands, wrong numbers of arguments, and the refusals
  that the state of the server calls for. With as many reads as bytes every request is answered.
\<close>

theorem connection_answers_requests:
  assumes "createClient (net e) re i f now = Inr (Some c)" and "0 < f" and "write_event (net e)" and "usable_ok (net e)"
    and "store_ok (heap w) held" and "command_strings_ok held w" and "length (client_obuf_limits w) = 3" and "sock w = []"
    and "server_ok e sv" and "also_propagate sv = []" and "list_all request_ok reqs"
    and "feasible (session_can sv (length held)) (session_effect sv 0) new_session reqs"
    and "\<forall>k\<in>set ks. 0 < k" and "536870914 \<le> max_len"
  shows "\<exists>rest sv' c' w' n.
    serve (net e) (processCommand e) max_len ks (concat (map encode reqs)) sv (command_fields c) w = Inr (False, rest, sv', c', w') \<and>
    map Inl (sock w') @ out c' w' = map Inl (sent (perform_all (session_effect sv 0) new_session (take n reqs))) \<and>
    (rest = [] \<longrightarrow> n = length reqs) \<and> (length (concat (map encode reqs)) \<le> length ks \<longrightarrow> rest = [])"
proof -
  note f = fresh_session [OF assms(1-11)]
  obtain rest sv' b' R' c' w' n where r: "serve (net e) (processCommand e) max_len ks (concat (map encode reqs)) sv (command_fields c) w = Inr (False, rest, sv', c', w')"
    "session_inv e sv 0 held sv' b' R' c' w'" "b' = perform_all (session_effect sv 0) new_session (take n reqs)" "rest = [] \<longrightarrow> n = length reqs"
    "length (concat (map encode reqs)) \<le> length ks \<longrightarrow> rest = []"
    using redis.stream_ok [OF f assms(12-14)] by blast
  have "map Inl (sock w') @ out c' w' = map Inl (sent b')" using r(2) by (simp add: session_inv_def view_ok_def)
  then show ?thesis using r(1,3-5) by blast
qed

section \<open>A connection to a server with the command table\<close>

lemma table_entries:
  "list_all (\<lambda>cm. length (cmd_name cm) \<le> 32 \<and> (cmd_proc cm = EchoCommand \<or> cmd_proc cm = AuthCommand \<longrightarrow> arity cm = 2) \<and>
     (basic (cmd_proc cm) \<longrightarrow> letters (sflags cm) AND REDIS_CMD_READONLY \<noteq> 0)) redisCommandTable"
  unfolding redisCommandTable_def command_def by (simp add: letters_def flag_of_def cmd_consts)

lemma table_ok: "list_all (\<lambda>(k, cm). entry_ok cm) (map filled_entry redisCommandTable)"
proof -
  have "entry_ok (cm\<lparr>cmd_flags := letters (sflags cm)\<rparr>)" if "cm \<in> set redisCommandTable" for cm
  proof -
    have "length (cmd_name cm) \<le> 32" "cmd_proc cm = EchoCommand \<or> cmd_proc cm = AuthCommand \<longrightarrow> arity cm = 2"
      "basic (cmd_proc cm) \<longrightarrow> letters (sflags cm) AND REDIS_CMD_READONLY \<noteq> 0" "NUL \<notin> set (cmd_name cm)"
      using table_entries names_no_NUL that by (auto simp: list_all_iff)
    then show ?thesis by (simp add: entry_ok_def cmd_flag_def)
  qed
  then show ?thesis by (simp add: list_all_iff filled_entry_def)
qed

definition demo_server :: redisServer where
  "demo_server = \<lparr>commands = map filled_entry redisCommandTable, same_bucket = (\<lambda>_. False),
     multi_command = snd (filled_entry (command ''multi'' MultiCommand 1 ''rs'')), requirepass = None, stop_writes_on_bgsave_err = False,
     saveparamslen = 0, lastbgsave_ok = True, is_slave = False, repl_slave_ro = False, repl_connected = True,
     repl_serve_stale_data = True, loading = False, lua_timedout = False, aof_on = False, monitors = 0, slaves = 0, ready_keys = 0,
     db_watched = [[]], also_propagate = [], dirty = 0, stat_numcommands = 0, times = int, ticks = 0, events = []\<rparr>"

definition demo_cenv :: cenv where
  "demo_cenv = \<lparr>net = demo_env, other_command = (\<lambda>_ sv c w. Inr (sv, c, w)), freeMemoryIfNeeded = (\<lambda>sv w. Inr (True, sv, w)),
     handleClientsBlockedOnLists = (\<lambda>sv c w. Inr (sv, c, w))\<rparr>"

lemma demo_server_ok: "server_ok demo_cenv demo_server" "also_propagate demo_server = []"
  using table_ok by (simp_all add: server_ok_def demo_server_def demo_cenv_def)

lemma demo_find:
  assumes "cm \<in> set redisCommandTable" and "strcasecmp_eq (cmd_name cm) name"
  shows "find_command (commands demo_server) name = Some (cm\<lparr>cmd_flags := letters (sflags cm)\<rparr>)"
  using find_filled [of redisCommandTable cm name] assms names_distinct map_lower_names by (simp add: demo_server_def filled_entry_def)

lemma demo_entries:
  "command ''multi'' MultiCommand 1 ''rs'' \<in> set redisCommandTable" "command ''ping'' PingCommand 1 ''r'' \<in> set redisCommandTable"
  "command ''exec'' ExecCommand 1 ''sM'' \<in> set redisCommandTable"
  unfolding redisCommandTable_def command_def by simp_all

lemma demo_world_full:
  obtains h s where "createSharedObjects (\<lambda>_. NUL) (empty_store 7 0, zero_shared) = Inr (h, s)" "store_ok h shared_refs"
    "command_strings_ok shared_refs (demo_world (h, s))"
proof -
  define s1 where "s1 = assign 0 (shared_first (\<lambda>_. NUL)) zero_shared"
  let ?s = "assign 10048 (shared_headers (\<lambda>_. NUL)) s1"
  obtain h where f: "createSharedObjects (\<lambda>_. NUL) (empty_store 7 0, zero_shared) = Inr (h, ?s)" "filled h shared_items [48..<10048]"
    using createSharedObjects_assigns [of "\<lambda>_. NUL" 7 0 zero_shared] unfolding shared_items_def s1_def by blast
  have z: "select_cmds zero_shared = []" "mbulkhdr zero_shared = []" "bulkhdr zero_shared = []" by (simp_all add: zero_shared_def)
  let ?w = "demo_world (h, ?s)"
  note tx = shared_text_items [OF f(2) demo_ok(5) [of "(h, ?s)", unfolded fst_conv]]
  have st: "shared_strings_ok shared_refs ?w"
    by (rule shared_strings_filled [OF f(2), where s = ?s]) (simp_all add: demo_ok(5,6) assigned_headers assigned_first [OF z, of "\<lambda>_. NUL", folded s1_def])
  have t: "shared_texts ! 1 = ok_text" "shared_texts ! 10 = ''+PONG'' @ CRLF" "shared_texts ! 11 = ''+QUEUED'' @ CRLF"
    "shared_texts ! 18 = ''-LOADING Redis is loading the dataset in memory'' @ CRLF"
    "shared_texts ! 19 = ''-BUSY Redis is busy running a script. You can only call SCRIPT KILL or SHUTDOWN NOSAVE.'' @ CRLF"
    "shared_texts ! 20 = ''-MASTERDOWN Link with MASTER is down and slave-serve-stale-data is set to 'no'.'' @ CRLF"
    "shared_texts ! 21 = ''-MISCONF Redis is configured to save RDB snapshots, but is currently not able to persist on disk. Commands that may modify the data set are disabled. Please check Redis logs for details about the error.'' @ CRLF"
    "shared_texts ! 22 = ''-READONLY You can't write against a read only slave.'' @ CRLF"
    "shared_texts ! 24 = ''-EXECABORT Transaction discarded because of previous errors.'' @ CRLF"
    by (simp_all add: shared_texts_def shared_literals_def nth_append ok_text_def)
  have T: "shared_text shared_refs ?w i (shared_texts ! i)" if "i < 48" for i
    using tx [of i] that shared_items_nth(2) [OF that] by (simp add: shared_refs_def)
  have w: "shared ?w = ?s" by (simp only: demo_ok(6) snd_conv)
  have a: "ok_obj ?s = 1" "pong ?s = 10" "queued ?s = 11" "loadingerr ?s = 18" "slowscripterr ?s = 19" "masterdownerr ?s = 20"
    "bgsaveerr ?s = 21" "roslaveerr ?s = 22" "execaborterr ?s = 24"
    by (simp_all add: assigned_headers assigned_replies [of "\<lambda>_. NUL" zero_shared, folded s1_def])
  have "command_strings_ok shared_refs ?w"
    unfolding command_strings_ok_def w a t [symmetric] by (intro conjI st T) simp_all
  then show thesis using that f(1) filled_store(1) [OF f(2)] by blast
qed

definition demo_requests :: "request list" where
  "demo_requests = [Multi [''MULTI''], Line ''PING'', Multi [''exec'']]"

lemma more_texts: "ll_text 4 = ''4''" "ll_text 5 = ''5''"
  by code_simp+

lemma demo_run:
  shows "feasible (session_can demo_server (length shared_refs)) (session_effect demo_server 0) new_session demo_requests"
    and "sent (perform_all (session_effect demo_server 0) new_session demo_requests) =
      ''+OK'' @ CRLF @ ''+QUEUED'' @ CRLF @ ''*1'' @ CRLF @ ''+PONG'' @ CRLF"
proof -
  have lc: "strcasecmp_eq ''multi'' ''MULTI''" "strcasecmp_eq ''ping'' ''PING''" "strcasecmp_eq ''exec'' ''exec''"
    "\<not> strcasecmp_eq ''MULTI'' ''quit''" "\<not> strcasecmp_eq ''PING'' ''quit''" "\<not> strcasecmp_eq ''exec'' ''quit''"
    by code_simp+
  have n: "cmd_name (command n p a f) = n" "cmd_proc (command n p a f) = p" "arity (command n p a f) = a" for n p a f by (simp_all add: command_def)
  note fd = demo_find [OF demo_entries(1), unfolded n, OF lc(1)] demo_find [OF demo_entries(2), unfolded n, OF lc(2)]
    demo_find [OF demo_entries(3), unfolded n, OF lc(3)]
  have sv: "requirepass demo_server = None" "\<not> stop_writes_on_bgsave_err demo_server" "\<not> is_slave demo_server" "\<not> loading demo_server"
    "\<not> lua_timedout demo_server" by (simp_all add: demo_server_def)
  have w: "args_of (Line ''PING'') = [''PING'']" by (simp add: line_words_def)
  have rf: "refusal demo_server 0 s cm = None" for s cm using sv by (simp add: refusal_def)
  have len: "length shared_refs = 112" by (simp add: shared_refs_def)
  let ?e = "session_effect demo_server 0"
  define s1 where "s1 = say ok_text (new_session\<lparr>in_multi := True\<rparr>)"
  have 1: "?e new_session [''MULTI''] = s1" using fd(1) by (simp add: session_effect_def rf wrong_arity_def n new_session_def s1_def transactional_def)
  define ping where "ping = (command ''ping'' PingCommand 1 ''r'')\<lparr>cmd_flags := letters (sflags (command ''ping'' PingCommand 1 ''r''))\<rparr>"
  define s2 where "s2 = say (''+QUEUED'' @ CRLF) (s1\<lparr>queue := queue s1 @ [(ping, [''PING''])]\<rparr>)"
  have 2: "?e s1 [''PING''] = s2" using fd(2)
    by (simp add: session_effect_def rf wrong_arity_def n s2_def ping_def transactional_def) (simp add: s1_def new_session_def)
  have q: "queue s2 = [(ping, [''PING''])]" "in_multi s2" "\<not> aborting s2" "sent s2 = ''+OK'' @ CRLF @ ''+QUEUED'' @ CRLF" "budget s2 = 6"
    "queue s1 = []" "budget s1 = 3"
    by (simp_all add: s2_def s1_def new_session_def ok_text_def)
  have p: "cmd_proc ping = PingCommand" by (simp add: ping_def n)
  have 3: "sent (?e s2 [''exec'']) = ''+OK'' @ CRLF @ ''+QUEUED'' @ CRLF @ ''*1'' @ CRLF @ ''+PONG'' @ CRLF"
    using fd(3) by (simp add: session_effect_def rf wrong_arity_def n transactional_def q run_queue_def p end_transaction_def small_texts resp_def)
  show "feasible (session_can demo_server (length shared_refs)) ?e new_session demo_requests"
    unfolding demo_requests_def using w 1 2
    by (simp add: perform_def session_can_def lc fd n transactional_def len q queued_refs_def new_session_def [THEN arg_cong [where f = queue]]
      new_session_def [THEN arg_cong [where f = budget]] OUT_LIMIT_def)
  show "sent (perform_all ?e new_session demo_requests) = ''+OK'' @ CRLF @ ''+QUEUED'' @ CRLF @ ''*1'' @ CRLF @ ''+PONG'' @ CRLF"
    unfolding demo_requests_def using w 1 2 3 by (simp add: perform_def)
qed

theorem connection_answers_requests_witness:
  "\<exists>h s c sv' c' w'. createSharedObjects (\<lambda>_. NUL) (empty_store 7 0, zero_shared) = Inr (h, s) \<and>
    createClient demo_env True 1 5 0 = Inr (Some c) \<and>
    serve demo_env (processCommand demo_cenv) 1073741824 (replicate 40 7) (concat (map encode demo_requests)) demo_server
      (command_fields c) (demo_world (h, s)) = Inr (False, [], sv', c', w') \<and>
    map Inl (sock w') @ out c' w' = map Inl (''+OK'' @ CRLF @ ''+QUEUED'' @ CRLF @ ''*1'' @ CRLF @ ''+PONG'' @ CRLF)"
proof -
  obtain h s where w: "createSharedObjects (\<lambda>_. NUL) (empty_store 7 0, zero_shared) = Inr (h, s)" "store_ok h shared_refs"
    "command_strings_ok shared_refs (demo_world (h, s))" using demo_world_full .
  obtain c where c: "createClient demo_env True 1 5 0 = Inr (Some c)" by (simp add: createClient_def sdsempty_ok)
  have n: "net demo_cenv = demo_env" by (simp add: demo_cenv_def)
  have o: "write_event demo_env" "usable_ok demo_env" using demo_ok(2) by (simp_all add: open_client_def)
  have r: "list_all request_ok demo_requests" by (simp add: demo_requests_def)
  have l: "length (concat (map encode demo_requests)) \<le> length (replicate 40 (7::nat))"
    by (simp add: demo_requests_def resp_def bulk_def CRLF_def small_texts more_texts)
  have "\<exists>rest sv' c' w' n.
    serve demo_env (processCommand demo_cenv) 1073741824 (replicate 40 7) (concat (map encode demo_requests)) demo_server (command_fields c) (demo_world (h, s)) =
      Inr (False, rest, sv', c', w') \<and>
    map Inl (sock w') @ out c' w' = map Inl (sent (perform_all (session_effect demo_server 0) new_session (take n demo_requests))) \<and>
    (rest = [] \<longrightarrow> n = length demo_requests) \<and> (length (concat (map encode demo_requests)) \<le> length (replicate 40 (7::nat)) \<longrightarrow> rest = [])"
    by (rule connection_answers_requests [of demo_cenv True 1 5 0 c "demo_world (h, s)" shared_refs demo_server demo_requests "replicate 40 7" 1073741824, unfolded n,
        OF c _ o _ w(3) demo_ok(3,4) demo_server_ok r demo_run(1)])
      (use w(2) demo_ok(5) in simp_all)
  then obtain rest sv' c' w' k where 1:
    "serve demo_env (processCommand demo_cenv) 1073741824 (replicate 40 7) (concat (map encode demo_requests)) demo_server (command_fields c) (demo_world (h, s)) =
      Inr (False, rest, sv', c', w')"
    "map Inl (sock w') @ out c' w' = map Inl (sent (perform_all (session_effect demo_server 0) new_session (take k demo_requests)))"
    "rest = [] \<longrightarrow> k = length demo_requests" "rest = []"
    using l by blast
  then have "take k demo_requests = demo_requests" by simp
  then show ?thesis using 1(1,2,4) w(1) c demo_run(2) by (metis (no_types))
qed

text \<open>
  C38. The password test of AUTH, which looks at all 512 bytes whatever they are, tells whether the two C strings are
  equal; strings longer than 512 bytes are never accepted, even when they are equal.
\<close>

theorem time_independent_strcmp_compares:
  assumes "NUL \<in> set a" and "NUL \<in> set b" and "length (cstr a) < 2147483648" and "length (cstr b) < 2147483648"
  shows "\<exists>d. time_independent_strcmp a b = Inr d \<and> (d = 0 \<longleftrightarrow> cstr a = cstr b \<and> length (cstr a) \<le> REDIS_AUTHPASS_MAX_LEN)"
  using strcmp_law [OF assms] by blast

theorem time_independent_strcmp_compares_witness:
  "time_independent_strcmp (''secret'' @ [NUL]) (''secret'' @ [NUL]) = Inr 0 \<and>
   (\<exists>d. time_independent_strcmp (''secret'' @ [NUL]) (''Secret'' @ [NUL]) = Inr d \<and> d \<noteq> 0)"
proof -
  have c: "cstr (''secret'' @ [NUL]) = ''secret''" "cstr (''Secret'' @ [NUL]) = ''Secret''" by simp_all
  show ?thesis
    using time_independent_strcmp_compares [of "''secret'' @ [NUL]" "''secret'' @ [NUL]", unfolded c]
      time_independent_strcmp_compares [of "''secret'' @ [NUL]" "''Secret'' @ [NUL]", unfolded c]
    by (auto simp: REDIS_AUTHPASS_MAX_LEN_def)
qed

end
