(* ===== verification/Watch.thy ===== *)
theory Watch
  imports Session_Props
begin

text \<open>
  The keys several clients watch (\<open>multi.c\<close>): the tables of the databases and the lists of the clients, kept by
  \<open>watchForKey\<close> and \<open>unwatchAllKeys\<close>, represent one relation between clients and keys, and touching a key or flushing
  a database flags exactly the clients it relates to the keys concerned.
\<close>

section \<open>Flagging clients\<close>

definition mark_dirty :: "command_client \<Rightarrow> command_client" where
  "mark_dirty c = c\<lparr>cflags := cflags c OR REDIS_DIRTY_CAS\<rparr>"

definition touch_clients :: "nat list \<Rightarrow> command_client list \<Rightarrow> command_client list" where
  "touch_clients ids cs = map (\<lambda>c. if cid c \<in> set ids then mark_dirty c else c) cs"

text \<open>The keyspace is an argument: \<open>present d t\<close> says that database \<open>d\<close> has the key \<open>t\<close>.\<close>

fun flush_hits :: "(nat \<Rightarrow> char list \<Rightarrow> bool) \<Rightarrow> int \<Rightarrow> (nat \<times> nat) list \<Rightarrow> nworld \<Rightarrow> (obj_error, bool) result" where
  "flush_hits present i [] w = Inr False"
| "flush_hits present i ((k, d) # ks) w =
     rbind (if i = -1 \<or> int d = i then rbind (key_text w k) (\<lambda>t. Inr (present d t)) else Inr False) (\<lambda>hit.
     rbind (flush_hits present i ks w) (\<lambda>later. Inr (hit \<or> later)))"

fun touchWatchedKeysOnFlush ::
    "(nat \<Rightarrow> char list \<Rightarrow> bool) \<Rightarrow> int \<Rightarrow> command_client list \<Rightarrow> nworld \<Rightarrow> (obj_error, command_client list) result" where
  "touchWatchedKeysOnFlush present i [] w = Inr []"
| "touchWatchedKeysOnFlush present i (c # cs) w =
     rbind (flush_hits present i (watched_keys c) w) (\<lambda>hit.
     rbind (touchWatchedKeysOnFlush present i cs w) (\<lambda>cs. Inr ((if hit then mark_dirty c else c) # cs)))"

section \<open>Keys\<close>

definition key_ok :: "ostore \<Rightarrow> nat \<Rightarrow> bool" where
  "key_ok h a \<longleftrightarrow> solid h a \<and> is_raw h a"

lemma key_text_ok: "store_ok (heap w) held \<Longrightarrow> key_ok (heap w) a \<Longrightarrow> key_text w a = Inr (text_at (heap w) a)"
  unfolding key_ok_def key_text_def by (elim conjE raw_sds) (auto simp: sds_region)

lemma equal_keys:
  assumes "store_ok h held" and "key_ok h a" and "key_ok h b"
  shows "equalStringObjects a b h = Inr (text_at h a = text_at h b)"
proof -
  obtain oa s where a: "objs h a = Some oa" "oencoding oa = REDIS_ENCODING_RAW" "optr oa = PSds s" "sds_ok s" "text_at h a = sds_str s"
    using raw_sds [OF assms(1)] assms(2) unfolding key_ok_def by metis
  obtain ob t where b: "objs h b = Some ob" "oencoding ob = REDIS_ENCODING_RAW" "optr ob = PSds t" "sds_ok t" "text_at h b = sds_str t"
    using raw_sds [OF assms(1)] assms(3) unfolding key_ok_def by metis
  have "otype oa = REDIS_STRING" "otype ob = REDIS_STRING"
    using held_str [OF assms(1), of a] held_str [OF assms(1), of b] assms(2,3) a(1) b(1) by (auto simp: key_ok_def str_ok_def)
  then show ?thesis using a b sdscmp_law [OF a(4) b(4)]
    by (auto simp: equalStringObjects_def compareStringObjects_def obj_chars_def)
qed

lemma keys_same: "same h h' A \<Longrightarrow> a \<in> A \<Longrightarrow> key_ok h' a = key_ok h a \<and> text_at h' a = text_at h a"
  using payload_eq [of h' a h] is_raw_eq [of h' a h] by (auto simp: key_ok_def same_def)

section \<open>The table of a database\<close>

definition tab :: "ostore \<Rightarrow> (nat \<times> nat list) list \<Rightarrow> (char list \<times> nat list) list" where
  "tab h db = map (\<lambda>(k, cl). (text_at h k, cl)) db"

definition db_ok :: "ostore \<Rightarrow> (nat \<times> nat list) list \<Rightarrow> bool" where
  "db_ok h db \<longleftrightarrow> list_all (\<lambda>(k, cl). key_ok h k \<and> cl \<noteq> []) db \<and> distinct (map fst (tab h db))"

lemma tab_simps [simp]: "tab h [] = []" "tab h ((k, cl) # db) = (text_at h k, cl) # tab h db" "tab h (db @ db') = tab h db @ tab h db'"
  by (simp_all add: tab_def)

lemma watchers_ok: "store_ok (heap w) held \<Longrightarrow> db_ok (heap w) db \<Longrightarrow> watchers w t db = Inr (map_of (tab (heap w) db) t)"
  by (induction db) (auto simp: db_ok_def key_text_ok)

lemma db_same:
  assumes "same h h' A" and "set (map fst db) \<subseteq> A"
  shows "db_ok h' db = db_ok h db" and "tab h' db = tab h db"
proof -
  show t: "tab h' db = tab h db" using assms(2) keys_same [OF assms(1)] by (auto simp: tab_def)
  have "list_all (\<lambda>(k, cl). key_ok h' k \<and> cl \<noteq> []) db = list_all (\<lambda>(k, cl). key_ok h k \<and> cl \<noteq> []) db"
    using assms(2) keys_same [OF assms(1)] by (induction db) auto
  then show "db_ok h' db = db_ok h db" by (simp add: db_ok_def t)
qed

text \<open>Adding a client to an entry.\<close>

lemma update_grow:
  assumes "store_ok (heap w) held" and "db_ok (heap w) db" and "map_of (tab (heap w) db) t = Some cl" and "f cl \<noteq> []"
  shows "\<exists>db'. update_watchers w t f db = Inr (db', w) \<and> map fst db' = map fst db \<and> db_ok (heap w) db' \<and>
    (\<forall>u. map_of (tab (heap w) db') u = (if u = t then Some (f cl) else map_of (tab (heap w) db) u))"
  using assms(2,3)
proof (induction db)
  case (Cons e db)
  obtain k cs where e: "e = (k, cs)" by (cases e)
  have kt: "key_text w k = Inr (text_at (heap w) k)" using Cons.prems(1) key_text_ok [OF assms(1)] e by (simp add: db_ok_def)
  show ?case
  proof (cases "text_at (heap w) k = t")
    case True
    then show ?thesis using Cons.prems assms(4) kt e
      by (intro exI [of _ "(k, f cl) # db"]) (auto simp: db_ok_def)
  next
    case False
    then obtain db' where 1: "update_watchers w t f db = Inr (db', w)" "map fst db' = map fst db" "db_ok (heap w) db'"
      "(\<forall>u. map_of (tab (heap w) db') u = (if u = t then Some (f cl) else map_of (tab (heap w) db) u))"
      using Cons.IH Cons.prems e by (auto simp: db_ok_def)
    have "map fst (tab (heap w) db') = map fst (tab (heap w) db)"
      using arg_cong [OF 1(2), of "map (text_at (heap w))"] by (simp add: tab_def comp_def case_prod_unfold)
    then show ?thesis using 1 False kt e Cons.prems
      by (intro exI [of _ "(k, cs) # db'"]) (auto simp: db_ok_def)
  qed
qed simp

text \<open>Taking the last client away deletes the entry and gives up its reference to the key.\<close>

lemma update_delete:
  assumes "store_ok (heap w) (map fst db @ R)" and "db_ok (heap w) db" and "map_of (tab (heap w) db) t = Some cl" and "f cl = []"
  shows "\<exists>db' h. update_watchers w t f db = Inr (db', w\<lparr>heap := h\<rparr>) \<and> store_ok h (map fst db' @ R) \<and>
    same (heap w) h (set (map fst db' @ R)) \<and> db_ok (heap w) db' \<and> set db' \<subseteq> set db \<and> length db = Suc (length db') \<and>
    (\<forall>u. map_of (tab (heap w) db') u = (if u = t then None else map_of (tab (heap w) db) u))"
  using assms(1-3)
proof (induction db arbitrary: R)
  case (Cons e db)
  obtain k cs where e: "e = (k, cs)" by (cases e)
  have kt: "key_text w k = Inr (text_at (heap w) k)" using Cons.prems(2) key_text_ok [OF Cons.prems(1)] e by (simp add: db_ok_def)
  show ?case
  proof (cases "text_at (heap w) k = t")
    case True
    have "mset (map fst (e # db) @ R) = add_mset k (mset (map fst db @ R))" by (simp add: e)
    from decr_ok [OF Cons.prems(1) this] obtain h where h: "decrRefCount k (heap w) = Inr h" "store_ok h (map fst db @ R)"
      "same (heap w) h (set (map fst db @ R))" by (auto intro: same_mono)
    have "map_of (tab (heap w) db) t = None" using Cons.prems(2) True e by (simp add: db_ok_def map_of_eq_None_iff)
    then show ?thesis using Cons.prems True assms(4) kt e h
      by (intro exI [of _ db] exI [of _ h]) (auto simp: db_ok_def)
  next
    case False
    have "store_ok (heap w) (map fst db @ (k # R))" by (rule store_ok_mset [OF _ Cons.prems(1)]) (simp add: e)
    then obtain db' h where 1: "update_watchers w t f db = Inr (db', w\<lparr>heap := h\<rparr>)" "store_ok h (map fst db' @ (k # R))"
      "same (heap w) h (set (map fst db' @ (k # R)))" "db_ok (heap w) db'" "set db' \<subseteq> set db" "length db = Suc (length db')"
      "(\<forall>u. map_of (tab (heap w) db') u = (if u = t then None else map_of (tab (heap w) db) u))"
      using Cons.IH [of "k # R"] Cons.prems e False by (auto simp: db_ok_def)
    have "store_ok h (map fst ((k, cs) # db') @ R)" by (rule store_ok_mset [OF _ 1(2)]) simp
    moreover have sub: "set (tab (heap w) db') \<subseteq> set (tab (heap w) db)" using 1(5) by (auto simp: tab_def)
    moreover have "db_ok (heap w) ((k, cs) # db')"
      using Cons.prems(2) 1(4) e image_mono [OF sub, of fst] by (auto simp: db_ok_def)
    ultimately show ?thesis using 1 False kt e
      by (intro exI [of _ "(k, cs) # db'"] exI [of _ h]) auto
  qed
qed simp

section \<open>The relation\<close>

text \<open>The client \<open>i\<close> watches the key \<open>t\<close> of database \<open>d\<close>, in the order in which the watching began.\<close>

type_synonym watching = "(nat \<times> nat \<times> char list) list"

definition watching_key :: "watching \<Rightarrow> nat \<Rightarrow> char list \<Rightarrow> nat list" where
  "watching_key ws d t = map fst (filter (\<lambda>(i, p). p = (d, t)) ws)"

definition watched_by :: "watching \<Rightarrow> nat \<Rightarrow> (nat \<times> char list) list" where
  "watched_by ws i = map snd (filter (\<lambda>(j, p). j = i) ws)"

definition dbs_ok :: "ostore \<Rightarrow> (nat \<times> nat list) list list \<Rightarrow> watching \<Rightarrow> bool" where
  "dbs_ok h dbs ws \<longleftrightarrow> (\<forall>d<length dbs. db_ok h (dbs ! d) \<and>
     (\<forall>t. map_of (tab h (dbs ! d)) t = (if watching_key ws d t = [] then None else Some (watching_key ws d t))))"

definition keys_of :: "(nat \<times> nat list) list list \<Rightarrow> nat list" where
  "keys_of dbs = concat (map (map fst) dbs)"

lemma keys_of_update:
  assumes "d < length dbs"
  obtains M where "mset (keys_of dbs) = mset (map fst (dbs ! d)) + M" "\<And>db. mset (keys_of (dbs[d := db])) = mset (map fst db) + M"
proof -
  have 1: "dbs = take d dbs @ dbs ! d # drop (Suc d) dbs" using assms by (rule id_take_nth_drop)
  have 2: "dbs[d := db] = take d dbs @ db # drop (Suc d) dbs" for db using assms by (rule upd_conv_take_nth_drop)
  show thesis
  proof (rule that [of "mset (keys_of (take d dbs)) + mset (keys_of (drop (Suc d) dbs))"])
    show "mset (keys_of dbs) = mset (map fst (dbs ! d)) + (mset (keys_of (take d dbs)) + mset (keys_of (drop (Suc d) dbs)))"
      by (subst 1) (simp add: keys_of_def)
    show "mset (keys_of (dbs[d := db])) = mset (map fst db) + (mset (keys_of (take d dbs)) + mset (keys_of (drop (Suc d) dbs)))" for db
      by (subst 2) (simp add: keys_of_def)
  qed
qed

lemma keys_of_member: "d < length dbs \<Longrightarrow> set (map fst (dbs ! d)) \<subseteq> set (keys_of dbs)"
  unfolding keys_of_def by (force intro!: bexI [of _ "dbs ! d"])

lemma dbs_same:
  assumes "dbs_ok h dbs ws" and "same h h' A" and "set (keys_of dbs) \<subseteq> A"
  shows "dbs_ok h' dbs ws"
  unfolding dbs_ok_def
proof (intro allI impI)
  fix d
  assume d: "d < length dbs"
  have sub: "set (map fst (dbs ! d)) \<subseteq> A" using keys_of_member [OF d] assms(3) by blast
  show "db_ok h' (dbs ! d) \<and> (\<forall>t. map_of (tab h' (dbs ! d)) t = (if watching_key ws d t = [] then None else Some (watching_key ws d t)))"
    using assms(1) d unfolding dbs_ok_def db_same [OF assms(2) sub] by blast
qed

lemma watching_key_simps:
  "watching_key (ws @ [(i, d, t)]) d' t' = (if (d', t') = (d, t) then watching_key ws d' t' @ [i] else watching_key ws d' t')"
  "(i, d, t) \<in> set ws \<longleftrightarrow> i \<in> set (watching_key ws d t)"
  "watched_by (ws @ [(i, p)]) j = (if j = i then watched_by ws j @ [p] else watched_by ws j)"
  "(i, p) \<in> set ws \<longleftrightarrow> p \<in> set (watched_by ws i)"
  by (auto simp: watching_key_def watched_by_def image_iff) (metis surj_pair)

lemma watching_key_remove:
  assumes "distinct ws"
  shows "watching_key (remove1 (i, d, t) ws) d' t' = (if (d', t') = (d, t) then remove1 i (watching_key ws d t) else watching_key ws d' t')"
  using assms by (induction ws) (auto simp: watching_key_def image_iff)

lemma watched_by_remove: "watched_by ws i = p # ps \<Longrightarrow> watched_by (remove1 (i, p) ws) i = ps"
  by (induction ws) (auto simp: watched_by_def split: if_splits)

lemma watched_by_others: "filter (\<lambda>(j, q). j \<noteq> i) (remove1 (i, p) ws) = filter (\<lambda>(j, q). j \<noteq> i) ws"
  by (induction ws) auto

lemma watched_by_none: "watched_by ws i = [] \<Longrightarrow> filter (\<lambda>(j, q). j \<noteq> i) ws = ws"
  by (induction ws) (auto simp: watched_by_def split: if_splits)

section \<open>Unwatching\<close>

definition keys_at :: "ostore \<Rightarrow> (nat \<times> nat) list \<Rightarrow> (nat \<times> char list) list" where
  "keys_at h ks = map (\<lambda>(k, d). (d, text_at h k)) ks"

lemma keys_at_same: "same h h' A \<Longrightarrow> set (map fst ks) \<subseteq> A \<Longrightarrow> keys_at h' ks = keys_at h ks"
  using keys_same [of h h' A] by (auto simp: keys_at_def)

lemma unwatch_loop_ok:
  assumes "dbs_ok (heap w) (db_watched sv) ws" and "distinct ws" and "watched_by ws i = keys_at (heap w) ks"
    and "\<forall>(k, d)\<in>set ks. key_ok (heap w) k \<and> d < length (db_watched sv)"
    and "store_ok (heap w) (keys_of (db_watched sv) @ map fst ks @ R)"
  shows "\<exists>dbs h. unwatch_loop i ks sv w = Inr (sv\<lparr>db_watched := dbs\<rparr>, w\<lparr>heap := h\<rparr>) \<and> length dbs = length (db_watched sv) \<and>
    dbs_ok h dbs (filter (\<lambda>(j, q). j \<noteq> i) ws) \<and> store_ok h (keys_of dbs @ R) \<and> same (heap w) h (set R) \<and>
    length (keys_of dbs) \<le> length (keys_of (db_watched sv))"
  using assms
proof (induction ks arbitrary: ws sv w)
  case Nil
  then show ?case using watched_by_none [of ws i]
    by (intro exI [of _ "db_watched sv"] exI [of _ "heap w"]) (simp add: keys_at_def)
next
  case (Cons kd ks)
  obtain k d where kd: "kd = (k, d)" by (cases kd)
  let ?h = "heap w" and ?dbs = "db_watched sv"
  let ?t = "text_at ?h k"
  have k: "key_ok ?h k" "d < length ?dbs" using Cons.prems(4) kd by auto
  have db: "db_at sv d = Inr (?dbs ! d)" using k(2) by (simp add: db_at_def)
  have kt: "key_text w k = Inr ?t" by (rule key_text_ok [OF Cons.prems(5) k(1)])
  have ok: "db_ok ?h (?dbs ! d)" and m: "map_of (tab ?h (?dbs ! d)) t = (if watching_key ws d t = [] then None else Some (watching_key ws d t))" for t
    using Cons.prems(1) k(2) by (simp_all add: dbs_ok_def)
  have wb: "watched_by ws i = (d, ?t) # keys_at ?h ks" using Cons.prems(3) kd by (simp add: keys_at_def)
  then have "(i, d, ?t) \<in> set ws" using watching_key_simps(4) [of i "(d, ?t)" ws] by simp
  then have mem: "i \<in> set (watching_key ws d ?t)" by (simp add: watching_key_simps(2))
  then have ne: "watching_key ws d ?t \<noteq> []" by auto
  have wk: "watchers w ?t (?dbs ! d) = Inr (Some (watching_key ws d ?t))"
    using watchers_ok [OF Cons.prems(5) ok] m [of ?t] ne by simp
  let ?ws = "remove1 (i, d, ?t) ws"
  obtain M where M: "mset (keys_of ?dbs) = mset (map fst (?dbs ! d)) + M" "\<And>db. mset (keys_of (?dbs[d := db])) = mset (map fst db) + M"
    using keys_of_update [OF k(2)] by metis
  obtain L where L: "mset L = M" by (metis ex_mset)
  have st: "store_ok ?h (map fst (?dbs ! d) @ (L @ k # map fst ks @ R))"
    by (rule store_ok_mset [OF _ Cons.prems(5)]) (simp add: kd M L)
  obtain db' h1 where u: "update_watchers w ?t (remove1 i) (?dbs ! d) = Inr (db', w\<lparr>heap := h1\<rparr>)"
    "store_ok h1 (map fst db' @ (L @ k # map fst ks @ R))" "same ?h h1 (set (map fst db' @ (L @ k # map fst ks @ R)))" "db_ok ?h db'"
    "length db' \<le> length (?dbs ! d)"
    "\<And>u. map_of (tab ?h db') u = (if u = ?t then (if remove1 i (watching_key ws d ?t) = [] then None else Some (remove1 i (watching_key ws d ?t)))
        else map_of (tab ?h (?dbs ! d)) u)"
  proof (cases "remove1 i (watching_key ws d ?t) = []")
    case True
    with update_delete [OF st ok, of ?t "watching_key ws d ?t" "remove1 i"] m [of ?t] ne that show thesis by fastforce
  next
    case False
    from update_grow [OF st ok, of ?t "watching_key ws d ?t" "remove1 i"] False m [of ?t] ne obtain db' where
      1: "update_watchers w ?t (remove1 i) (?dbs ! d) = Inr (db', w)" "map fst db' = map fst (?dbs ! d)" "db_ok ?h db'"
      "\<forall>u. map_of (tab ?h db') u = (if u = ?t then Some (remove1 i (watching_key ws d ?t)) else map_of (tab ?h (?dbs ! d)) u)" by auto
    have "length db' = length (?dbs ! d)" using arg_cong [OF 1(2), of length] by simp
    then show thesis using that [of db' ?h] 1 st False by simp
  qed
  obtain h2 where h2: "decrRefCount k h1 = Inr h2" "store_ok h2 (map fst db' @ L @ map fst ks @ R)"
      "same h1 h2 (set (map fst db' @ L @ map fst ks @ R))"
    using decr_ok [OF u(2), of k "map fst db' @ L @ map fst ks @ R"] by (auto intro: same_mono)
  let ?sv = "sv\<lparr>db_watched := ?dbs[d := db']\<rparr>" and ?w = "w\<lparr>heap := h2\<rparr>"
  have sm: "same ?h h2 (set (map fst db' @ L @ map fst ks @ R))" using u(3) h2(3) by (auto simp: same_def)
  have sub: "set (keys_of (?dbs[d := db'])) \<subseteq> set (map fst db' @ L @ map fst ks @ R)"
    using arg_cong [OF M(2) [of db'], of set_mset] L by (auto simp flip: set_mset_mset)
  have "dbs_ok ?h (?dbs[d := db']) ?ws"
    unfolding dbs_ok_def
  proof (intro allI impI)
    fix d' assume d': "d' < length (?dbs[d := db'])"
    have o: "db_ok ?h (?dbs ! d') \<and> (\<forall>t. map_of (tab ?h (?dbs ! d')) t = (if watching_key ws d' t = [] then None else Some (watching_key ws d' t)))"
      using Cons.prems(1) d' by (simp add: dbs_ok_def)
    show "db_ok ?h (?dbs[d := db'] ! d') \<and> (\<forall>t. map_of (tab ?h (?dbs[d := db'] ! d')) t = (if watching_key ?ws d' t = [] then None else Some (watching_key ?ws d' t)))"
    proof (cases "d' = d")
      case True
      then show ?thesis using u(4,6) m k(2) by (simp add: watching_key_remove [OF Cons.prems(2)])
    next
      case False
      then show ?thesis using o by (simp add: watching_key_remove [OF Cons.prems(2)])
    qed
  qed
  then have 1: "dbs_ok (heap ?w) (db_watched ?sv) ?ws" using dbs_same [OF _ sm sub] by simp
  have 2: "watched_by ?ws i = keys_at (heap ?w) ks"
    using watched_by_remove [OF wb] keys_at_same [OF sm, of ks] by fastforce
  have 3: "\<forall>(k, d)\<in>set ks. key_ok (heap ?w) k \<and> d < length (db_watched ?sv)"
    using Cons.prems(4) keys_same [OF sm] by fastforce
  have 4: "store_ok (heap ?w) (keys_of (db_watched ?sv) @ map fst ks @ R)"
    using store_ok_mset [OF _ h2(2), of "keys_of (?dbs[d := db']) @ map fst ks @ R"] M(2) [of db'] L by simp
  have ln: "length (keys_of (?dbs[d := db'])) \<le> length (keys_of ?dbs)"
    using arg_cong [OF M(1), of size] arg_cong [OF M(2) [of db'], of size] u(5) by simp
  from Cons.IH [OF 1 _ 2 3 4] Cons.prems(2) obtain dbs h where
    r: "unwatch_loop i ks ?sv ?w = Inr (?sv\<lparr>db_watched := dbs\<rparr>, ?w\<lparr>heap := h\<rparr>)" "length dbs = length (db_watched ?sv)"
    "dbs_ok h dbs (filter (\<lambda>(j, q). j \<noteq> i) ?ws)" "store_ok h (keys_of dbs @ R)" "same (heap ?w) h (set R)"
    "length (keys_of dbs) \<le> length (keys_of (db_watched ?sv))" by auto
  have "unwatch_loop i (kd # ks) sv w = Inr (sv\<lparr>db_watched := dbs\<rparr>, w\<lparr>heap := h\<rparr>)"
    using r(1) mem by (simp add: kd db kt wk u(1) h2(1))
  moreover have "same ?h h (set R)" using sm r(5) by (auto simp: same_def)
  ultimately show ?case using r(2-4,6) ln by (intro exI [of _ dbs] exI [of _ h]) (simp add: watched_by_others)
qed

section \<open>Watching\<close>

definition watch_add :: "watching \<Rightarrow> nat \<times> nat \<times> char list \<Rightarrow> watching" where
  "watch_add ws x = (if x \<in> set ws then ws else ws @ [x])"

definition watched_ok :: "ostore \<Rightarrow> nat \<Rightarrow> (nat \<times> nat) list \<Rightarrow> bool" where
  "watched_ok h n ks \<longleftrightarrow> (\<forall>(k, d)\<in>set ks. key_ok h k \<and> d < n)"

lemma watched_ok_same: "watched_ok h n ks \<Longrightarrow> same h h' A \<Longrightarrow> set (map fst ks) \<subseteq> A \<Longrightarrow> watched_ok h' n ks"
  using keys_same [of h h' A] by (fastforce simp: watched_ok_def)

lemma already_watched_ok:
  assumes "store_ok h held" and "key_ok h key"
  shows "watched_ok h n ks \<Longrightarrow> already_watched d key ks h = Inr ((d, text_at h key) \<in> set (keys_at h ks))"
  by (induction ks) (auto simp: watched_ok_def keys_at_def equal_keys [OF assms])

lemma dbs_ok_watch:
  assumes "dbs_ok h dbs ws" and "d < length dbs" and "db_ok h db"
    and "\<And>t. map_of (tab h db) t = (if watching_key (ws @ [(i, d, k)]) d t = [] then None else Some (watching_key (ws @ [(i, d, k)]) d t))"
  shows "dbs_ok h (dbs[d := db]) (ws @ [(i, d, k)])"
  unfolding dbs_ok_def
proof (intro allI impI)
  fix d' assume d': "d' < length (dbs[d := db])"
  show "db_ok h (dbs[d := db] ! d') \<and> (\<forall>t. map_of (tab h (dbs[d := db] ! d')) t =
      (if watching_key (ws @ [(i, d, k)]) d' t = [] then None else Some (watching_key (ws @ [(i, d, k)]) d' t)))"
  proof (cases "d' = d")
    case True
    then show ?thesis using assms(2-4) by simp
  next
    case False
    then show ?thesis using assms(1) d' by (simp add: dbs_ok_def watching_key_simps(1))
  qed
qed

lemma watchForKey_ok:
  assumes D: "dbs_ok (heap w) (db_watched sv) ws" and wb: "watched_by ws (cid c) = keys_at (heap w) (watched_keys c)"
    and wo: "watched_ok (heap w) (length (db_watched sv)) (watched_keys c)" and d: "dbid c < length (db_watched sv)"
    and st: "store_ok (heap w) (R @ keys_of (db_watched sv) @ map fst (watched_keys c))" and key: "key \<in> set R" "key_ok (heap w) key"
    and room: "length (R @ keys_of (db_watched sv) @ map fst (watched_keys c)) + 2 \<le> REF_LIMIT"
  shows "\<exists>dbs h ks. watchForKey key sv c w = Inr (sv\<lparr>db_watched := dbs\<rparr>, c\<lparr>watched_keys := ks\<rparr>, w\<lparr>heap := h\<rparr>) \<and>
    length dbs = length (db_watched sv) \<and> dbs_ok h dbs (watch_add ws (cid c, dbid c, text_at (heap w) key)) \<and>
    watched_by (watch_add ws (cid c, dbid c, text_at (heap w) key)) (cid c) = keys_at h ks \<and> watched_ok h (length dbs) ks \<and>
    store_ok h (R @ keys_of dbs @ map fst ks) \<and> same (heap w) h UNIV \<and>
    length (keys_of dbs @ map fst ks) \<le> length (keys_of (db_watched sv) @ map fst (watched_keys c)) + 2"
proof -
  let ?h = "heap w" and ?dbs = "db_watched sv" and ?ks = "watched_keys c"
  let ?t = "text_at ?h key" and ?d = "dbid c" and ?i = "cid c"
  have aw: "already_watched ?d key ?ks ?h = Inr ((?i, ?d, ?t) \<in> set ws)"
    using already_watched_ok [OF st key(2) wo] wb watching_key_simps(4) [of ?i "(?d, ?t)" ws] by simp
  show ?thesis
  proof (cases "(?i, ?d, ?t) \<in> set ws")
    case True
    then show ?thesis using D wb wo st aw
      by (intro exI [of _ ?dbs] exI [of _ ?h] exI [of _ ?ks]) (simp add: watchForKey_def watch_add_def)
  next
    case False
    let ?ws = "ws @ [(?i, ?d, ?t)]"
    have db: "db_at sv ?d = Inr (?dbs ! ?d)" using d by (simp add: db_at_def)
    have ok: "db_ok ?h (?dbs ! ?d)" and m: "map_of (tab ?h (?dbs ! ?d)) t = (if watching_key ws ?d t = [] then None else Some (watching_key ws ?d t))" for t
      using D d by (simp_all add: dbs_ok_def)
    have kt: "key_text w key = Inr ?t" by (rule key_text_ok [OF st key(2)])
    have wk: "watchers w ?t (?dbs ! ?d) = Inr (map_of (tab ?h (?dbs ! ?d)) ?t)" by (rule watchers_ok [OF st ok])
    obtain M where M: "mset (keys_of ?dbs) = mset (map fst (?dbs ! ?d)) + M" "\<And>db. mset (keys_of (?dbs[?d := db])) = mset (map fst db) + M"
      using keys_of_update [OF d] by metis
    obtain db h1 where u: "(case map_of (tab ?h (?dbs ! ?d)) ?t of
          None \<Rightarrow> rbind (incrRefCount key ?h) (\<lambda>h. Inr (?dbs ! ?d @ [(key, [?i])], w\<lparr>heap := h\<rparr>))
        | Some _ \<Rightarrow> update_watchers w ?t (\<lambda>clients. clients @ [?i]) (?dbs ! ?d)) = Inr (db, w\<lparr>heap := h1\<rparr>)"
      "store_ok h1 (R @ keys_of (?dbs[?d := db]) @ map fst ?ks)" "same ?h h1 UNIV" "db_ok ?h db"
      "length (keys_of (?dbs[?d := db])) \<le> length (keys_of ?dbs) + 1"
      "\<And>t. map_of (tab ?h db) t = (if watching_key ?ws ?d t = [] then None else Some (watching_key ?ws ?d t))"
    proof (cases "watching_key ws ?d ?t = []")
      case True
      obtain h1 where h1: "incrRefCount key ?h = Inr h1" "store_ok h1 ((R @ keys_of ?dbs @ map fst ?ks) @ [key])" "same ?h h1 UNIV"
        using incr_ok [OF st, of key] key(1) room by auto
      let ?db = "?dbs ! ?d @ [(key, [?i])]"
      have n: "map_of (tab ?h (?dbs ! ?d)) ?t = None" using m True by simp
      have "store_ok h1 (R @ keys_of (?dbs[?d := ?db]) @ map fst ?ks)"
        by (rule store_ok_mset [OF _ h1(2)]) (simp add: M)
      moreover have "db_ok ?h ?db" using ok key(2) n by (auto simp: db_ok_def map_of_eq_None_iff)
      moreover have "map_of (tab ?h ?db) t = (if watching_key ?ws ?d t = [] then None else Some (watching_key ?ws ?d t))" for t
        using n m [of t] True by (simp add: watching_key_simps(1) map_add_def)
      moreover have "length (keys_of (?dbs[?d := ?db])) \<le> length (keys_of ?dbs) + 1"
        using arg_cong [OF M(1), of size] arg_cong [OF M(2) [of ?db], of size] by simp
      ultimately show thesis using that [of ?db h1] h1(1,3) n by simp
    next
      case False
      then have n: "map_of (tab ?h (?dbs ! ?d)) ?t = Some (watching_key ws ?d ?t)" using m by simp
      from update_grow [OF st ok n, of "\<lambda>clients. clients @ [?i]"] obtain db where
        1: "update_watchers w ?t (\<lambda>clients. clients @ [?i]) (?dbs ! ?d) = Inr (db, w)" "map fst db = map fst (?dbs ! ?d)" "db_ok ?h db"
        "\<forall>u. map_of (tab ?h db) u = (if u = ?t then Some (watching_key ws ?d ?t @ [?i]) else map_of (tab ?h (?dbs ! ?d)) u)" by auto
      have ms: "mset (keys_of (?dbs[?d := db])) = mset (keys_of ?dbs)" using M(1) M(2) [of db] arg_cong [OF 1(2), of mset] by simp
      have "store_ok ?h (R @ keys_of (?dbs[?d := db]) @ map fst ?ks)" by (rule store_ok_mset [OF _ st]) (simp add: ms)
      moreover have "length (keys_of (?dbs[?d := db])) \<le> length (keys_of ?dbs) + 1" using arg_cong [OF ms, of size] by simp
      moreover have "map_of (tab ?h db) t = (if watching_key ?ws ?d t = [] then None else Some (watching_key ?ws ?d t))" for t
        using 1(4) m [of t] by (simp add: watching_key_simps(1))
      ultimately show thesis using that [of db ?h] 1(1,3) n by simp
    qed
    have "length (R @ keys_of (?dbs[?d := db]) @ map fst ?ks) < REF_LIMIT" using u(5) room by simp
    from incr_ok [OF u(2) this, of key] key(1) obtain h2 where
      h2: "incrRefCount key h1 = Inr h2" "store_ok h2 ((R @ keys_of (?dbs[?d := db]) @ map fst ?ks) @ [key])" "same h1 h2 UNIV" by auto
    have sm: "same ?h h2 UNIV" using u(3) h2(3) by (simp add: same_def)
    let ?ks' = "?ks @ [(key, ?d)]"
    have "watchForKey key sv c w = Inr (sv\<lparr>db_watched := ?dbs[?d := db]\<rparr>, c\<lparr>watched_keys := ?ks'\<rparr>, w\<lparr>heap := h2\<rparr>)"
      using u(1) False by (simp add: watchForKey_def aw db kt wk h2(1))
    moreover have "dbs_ok h2 (?dbs[?d := db]) ?ws"
      by (rule dbs_same [OF dbs_ok_watch [OF D d u(4,6)] sm]) simp
    moreover have "watched_by ?ws ?i = keys_at h2 ?ks'"
      using wb keys_at_same [OF sm, of ?ks] keys_same [OF sm, of key] by (simp add: watching_key_simps(3) keys_at_def)
    moreover have "watched_ok h2 (length ?dbs) ?ks'"
      using watched_ok_same [OF wo sm] d key(2) keys_same [OF sm, of key] by (auto simp: watched_ok_def)
    moreover have "store_ok h2 (R @ keys_of (?dbs[?d := db]) @ map fst ?ks')" by (rule store_ok_mset [OF _ h2(2)]) simp
    moreover have "length (keys_of (?dbs[?d := db]) @ map fst ?ks') \<le> length (keys_of ?dbs @ map fst ?ks) + 2" using u(5) by simp
    moreover have "watch_add ws (?i, ?d, ?t) = ?ws" using False by (simp add: watch_add_def)
    ultimately show ?thesis using sm
      by (intro exI [of _ "?dbs[?d := db]"] exI [of _ h2] exI [of _ ?ks']) simp
  qed
qed

section \<open>Several clients\<close>

datatype watch_op = WatchKey nat nat | UnwatchAll nat | TouchKey nat nat | FlushDb int

fun watch_step ::
    "(nat \<Rightarrow> char list \<Rightarrow> bool) \<Rightarrow> redisServer \<times> command_client list \<times> nworld \<Rightarrow> watch_op \<Rightarrow>
     (obj_error, (redisServer \<times> command_client list \<times> nworld) \<times> unit) result"
where
  "watch_step present (sv, cs, w) (WatchKey i a) =
     (if i < length cs then rbind (watchForKey a sv (cs ! i) w) (\<lambda>(sv, c, w). Inr ((sv, cs[i := c], w), ())) else Inl ArrayBounds)"
| "watch_step present (sv, cs, w) (UnwatchAll i) =
     (if i < length cs then rbind (unwatchAllKeys sv (cs ! i) w) (\<lambda>(sv, c, w). Inr ((sv, cs[i := c], w), ())) else Inl ArrayBounds)"
| "watch_step present (sv, cs, w) (TouchKey d a) = rbind (touchWatchedKey d a sv w) (\<lambda>ids. Inr ((sv, touch_clients ids cs, w), ()))"
| "watch_step present (sv, cs, w) (FlushDb d) = rbind (touchWatchedKeysOnFlush present d cs w) (\<lambda>cs. Inr ((sv, cs, w), ()))"

text \<open>
  The specification: the relation, the set of flagged clients and the number of watching operations so far. \<open>txts\<close> gives
  the texts of the key objects, \<open>dbs\<close> the databases the clients have selected.
\<close>

type_synonym watch_spec = "watching \<times> nat set \<times> nat"

fun watch_effect :: "(nat \<Rightarrow> char list \<Rightarrow> bool) \<Rightarrow> (nat \<Rightarrow> char list) \<Rightarrow> nat list \<Rightarrow> watch_spec \<Rightarrow> watch_op \<Rightarrow> watch_spec \<times> unit" where
  "watch_effect present txts dbs (ws, flagged, n) (WatchKey i a) = ((watch_add ws (i, dbs ! i, txts a), flagged, n + 1), ())"
| "watch_effect present txts dbs (ws, flagged, n) (UnwatchAll i) = ((filter (\<lambda>(j, q). j \<noteq> i) ws, flagged, n), ())"
| "watch_effect present txts dbs (ws, flagged, n) (TouchKey d a) = ((ws, flagged \<union> {i. (i, d, txts a) \<in> set ws}, n), ())"
| "watch_effect present txts dbs (ws, flagged, n) (FlushDb k) =
     ((ws, flagged \<union> {i. \<exists>d t. (i, d, t) \<in> set ws \<and> (k = -1 \<or> int d = k) \<and> present d t}, n), ())"

text \<open>\<open>A\<close> are key objects the program holds, \<open>H\<close> the number of references it has, for \<open>c\<close> clients and \<open>m\<close> databases.\<close>

fun watch_pre :: "nat set \<Rightarrow> nat \<Rightarrow> nat \<Rightarrow> nat \<Rightarrow> watch_spec \<Rightarrow> watch_op \<Rightarrow> bool" where
  "watch_pre A c m H (ws, flagged, n) (WatchKey i a) \<longleftrightarrow> i < c \<and> a \<in> A \<and> H + 2 * n + 2 \<le> REF_LIMIT"
| "watch_pre A c m H (ws, flagged, n) (UnwatchAll i) \<longleftrightarrow> i < c"
| "watch_pre A c m H (ws, flagged, n) (TouchKey d a) \<longleftrightarrow> d < m \<and> a \<in> A"
| "watch_pre A c m H (ws, flagged, n) (FlushDb i) \<longleftrightarrow> True"

definition client_keys :: "command_client list \<Rightarrow> nat list" where
  "client_keys cs = concat (map (map fst \<circ> watched_keys) cs)"

definition client_view :: "ostore \<Rightarrow> nat \<Rightarrow> nat list \<Rightarrow> watching \<Rightarrow> nat set \<Rightarrow> nat \<Rightarrow> command_client \<Rightarrow> bool" where
  "client_view h m dbs ws flagged i c \<longleftrightarrow> cid c = i \<and> dbid c = dbs ! i \<and> dbs ! i < m \<and>
     watched_by ws i = keys_at h (watched_keys c) \<and> watched_ok h m (watched_keys c) \<and> has_flag c REDIS_DIRTY_CAS = (i \<in> flagged)"

fun watch_repr ::
    "nat list \<Rightarrow> nat set \<Rightarrow> (nat \<Rightarrow> char list) \<Rightarrow> nat list \<Rightarrow> nat \<Rightarrow> redisServer \<times> command_client list \<times> nworld \<Rightarrow> watch_spec \<Rightarrow> bool"
where
  "watch_repr held A txts dbs m (sv, cs, w) (ws, flagged, n) \<longleftrightarrow>
     length (db_watched sv) = m \<and> distinct ws \<and> dbs_ok (heap w) (db_watched sv) ws \<and>
     length cs = length dbs \<and> (\<forall>i<length cs. client_view (heap w) m dbs ws flagged i (cs ! i)) \<and>
     store_ok (heap w) (held @ keys_of (db_watched sv) @ client_keys cs) \<and>
     A \<subseteq> set held \<and> (\<forall>k\<in>A. key_ok (heap w) k \<and> text_at (heap w) k = txts k) \<and>
     length (keys_of (db_watched sv) @ client_keys cs) \<le> 2 * n"

lemma client_keys_update:
  assumes "i < length cs"
  obtains M where "mset (client_keys cs) = mset (map fst (watched_keys (cs ! i))) + M"
    "\<And>c. mset (client_keys (cs[i := c])) = mset (map fst (watched_keys c)) + M"
proof -
  have 1: "cs = take i cs @ cs ! i # drop (Suc i) cs" using assms by (rule id_take_nth_drop)
  have 2: "cs[i := c] = take i cs @ c # drop (Suc i) cs" for c using assms by (rule upd_conv_take_nth_drop)
  show thesis
  proof (rule that [of "mset (client_keys (take i cs)) + mset (client_keys (drop (Suc i) cs))"])
    show "mset (client_keys cs) = mset (map fst (watched_keys (cs ! i))) + (mset (client_keys (take i cs)) + mset (client_keys (drop (Suc i) cs)))"
      by (subst 1) (simp add: client_keys_def)
    show "mset (client_keys (cs[i := c])) = mset (map fst (watched_keys c)) + (mset (client_keys (take i cs)) + mset (client_keys (drop (Suc i) cs)))" for c
      by (subst 2) (simp add: client_keys_def)
  qed
qed

lemma client_view_same:
  assumes "client_view h m dbs ws flagged i c" and "same h h' A" and "set (map fst (watched_keys c)) \<subseteq> A"
    and "watched_by ws' i = watched_by ws i" and "i \<in> flagged' \<longleftrightarrow> i \<in> flagged"
  shows "client_view h' m dbs ws' flagged' i c"
  using assms(1,4,5) keys_at_same [OF assms(2,3)] watched_ok_same [OF _ assms(2,3)] by (auto simp: client_view_def)

lemma client_keys_sub: "i < length cs \<Longrightarrow> set (map fst (watched_keys (cs ! i))) \<subseteq> set (client_keys cs)"
  unfolding client_keys_def by (force intro!: bexI [of _ "cs ! i"])

lemma dirty_has_flag [simp]: "has_flag (c\<lparr>cflags := cflags c OR REDIS_DIRTY_CAS\<rparr>) REDIS_DIRTY_CAS"
  unfolding flag_is_bit by (simp add: bit_or_iff flag_bits)

lemma mark_dirty_fields [simp]:
  "watched_keys (mark_dirty c) = watched_keys c" "cid (mark_dirty c) = cid c" "dbid (mark_dirty c) = dbid c"
  "has_flag (mark_dirty c) REDIS_DIRTY_CAS"
  by (simp_all add: mark_dirty_def)

text \<open>A step that only flags clients: \<open>hits\<close> are those it flags.\<close>

lemma flagging_step:
  assumes r: "watch_repr held A txts dbs m (sv, cs, w) (ws, flagged, n)"
    and cs: "length cs' = length cs" "\<And>i. i < length cs \<Longrightarrow> cs' ! i = (if i \<in> hits then mark_dirty (cs ! i) else cs ! i)"
  shows "watch_repr held A txts dbs m (sv, cs', w) (ws, flagged \<union> hits, n)"
proof -
  have "map (map fst \<circ> watched_keys) cs' = map (map fst \<circ> watched_keys) cs"
    by (rule nth_equalityI) (use cs in simp_all)
  then have k: "client_keys cs' = client_keys cs" by (simp add: client_keys_def)
  have "client_view (heap w) m dbs ws (flagged \<union> hits) i (cs' ! i)" if "i < length cs" for i
    using r cs(2) [OF that] that by (auto simp: client_view_def)
  then show ?thesis using r cs(1) k by simp
qed

text \<open>A step of the client \<open>i\<close> on its watched keys.\<close>

lemma client_step:
  assumes r: "watch_repr held A txts dbs m (sv, cs, w) (ws, flagged, n)" and i: "i < length cs"
    and len: "length dbs' = m" and D: "distinct ws'" "dbs_ok h dbs' ws'"
    and c: "watched_by ws' i = keys_at h ks" "watched_ok h m ks"
    and others: "\<And>j. j \<noteq> i \<Longrightarrow> watched_by ws' j = watched_by ws j"
    and M: "mset (client_keys cs) = mset (map fst (watched_keys (cs ! i))) + M" "\<And>c. mset (client_keys (cs[i := c])) = mset (map fst (watched_keys c)) + M"
    and st: "store_ok h (keys_of dbs' @ map fst ks @ L @ held)" and L: "mset L = M" and sm: "same (heap w) h (set (L @ held))"
    and n: "length (keys_of dbs' @ map fst ks) + size M \<le> 2 * n'"
  shows "watch_repr held A txts dbs m (sv\<lparr>db_watched := dbs'\<rparr>, cs[i := (cs ! i)\<lparr>watched_keys := ks\<rparr>], w\<lparr>heap := h\<rparr>) (ws', flagged, n')"
proof -
  let ?c = "(cs ! i)\<lparr>watched_keys := ks\<rparr>"
  have sub: "set (map fst (watched_keys (cs ! j))) \<subseteq> set (L @ held)" if "j < length cs" "j \<noteq> i" for j
  proof -
    have "mset (map fst (watched_keys (cs ! j))) \<subseteq># M"
    proof -
      let ?cs = "cs[i := (cs ! i)\<lparr>watched_keys := []\<rparr>]"
      have j: "j < length ?cs" "?cs ! j = cs ! j" using that by simp_all
      obtain M' where "mset (client_keys ?cs) = mset (map fst (watched_keys (?cs ! j))) + M'"
        using client_keys_update [OF j(1)] by blast
      then have "mset (client_keys ?cs) = mset (map fst (watched_keys (cs ! j))) + M'" unfolding j(2) .
      then show ?thesis using M(2) [of "(cs ! i)\<lparr>watched_keys := []\<rparr>"] by simp
    qed
    then show ?thesis using L set_mset_mono [of "mset (map fst (watched_keys (cs ! j)))" "mset L"] by auto
  qed
  have hA: "A \<subseteq> set held" "\<forall>k\<in>A. key_ok (heap w) k \<and> text_at (heap w) k = txts k" using r by simp_all
  have cv: "client_view h m dbs ws' flagged j (cs[i := ?c] ! j)" if "j < length cs" for j
  proof (cases "j = i")
    case True
    have "client_view (heap w) m dbs ws flagged i (cs ! i)" using r i by simp
    then show ?thesis using True i c by (simp add: client_view_def has_flag_def)
  next
    case False
    have "client_view (heap w) m dbs ws flagged j (cs ! j)" using r that by simp
    from client_view_same [OF this sm sub [OF that False] others [OF False], of flagged] show ?thesis using False by simp
  qed
  have "store_ok h (held @ keys_of dbs' @ client_keys (cs[i := ?c]))"
    by (rule store_ok_mset [OF _ st]) (simp add: M L)
  moreover have "length (client_keys (cs[i := ?c])) = length ks + size M" using arg_cong [OF M(2) [of ?c], of size] by simp
  moreover have "\<forall>k\<in>A. key_ok h k \<and> text_at h k = txts k" using hA keys_same [OF sm] by auto
  moreover have "length cs = length dbs" using r by simp
  ultimately show ?thesis using len D cv hA(1) n by simp
qed

lemma flush_hits_ok:
  assumes "store_ok (heap w) held" and "watched_ok (heap w) m ks"
  shows "flush_hits present k ks w = Inr (\<exists>(d, t)\<in>set (keys_at (heap w) ks). (k = -1 \<or> int d = k) \<and> present d t)"
  using assms(2)
proof (induction ks)
  case (Cons kd ks)
  obtain a d where kd: "kd = (a, d)" by (cases kd)
  have "key_text w a = Inr (text_at (heap w) a)" by (rule key_text_ok [OF assms(1)]) (use Cons.prems kd in \<open>simp add: watched_ok_def\<close>)
  then show ?case using Cons by (auto simp: kd watched_ok_def keys_at_def)
qed (simp add: keys_at_def)

lemma flush_ok:
  assumes "store_ok (heap w) held" and "\<forall>c\<in>set cs. watched_ok (heap w) m (watched_keys c)"
  shows "touchWatchedKeysOnFlush present k cs w =
    Inr (map (\<lambda>c. if \<exists>(d, t)\<in>set (keys_at (heap w) (watched_keys c)). (k = -1 \<or> int d = k) \<and> present d t then mark_dirty c else c) cs)"
  using assms(2) by (induction cs) (simp_all add: flush_hits_ok [OF assms(1), where m = m])

lemma watched_by_add: "j \<noteq> i \<Longrightarrow> watched_by (watch_add ws (i, q)) j = watched_by ws j" "distinct ws \<Longrightarrow> distinct (watch_add ws x)"
  by (auto simp: watch_add_def watched_by_def)

lemma watched_by_filter: "watched_by (filter (\<lambda>(j, q). j \<noteq> i) ws) j = (if j = i then [] else watched_by ws j)"
  by (induction ws) (auto simp: watched_by_def)

lemma watch_key_step:
  assumes r: "watch_repr held A txts dbs m (sv, cs, w) (ws, flagged, n)" and p: "i < length dbs" "a \<in> A" "length held + 2 * n + 2 \<le> REF_LIMIT"
  shows "\<exists>s'. watch_step present (sv, cs, w) (WatchKey i a) = Inr (s', ()) \<and>
    watch_repr held A txts dbs m s' (watch_add ws (i, dbs ! i, txts a), flagged, n + 1)"
proof -
  let ?c = "cs ! i"
  have i: "i < length cs" using r p(1) by simp
  have v: "client_view (heap w) m dbs ws flagged i ?c" using r i by simp
  obtain M where M: "mset (client_keys cs) = mset (map fst (watched_keys ?c)) + M"
    "\<And>c. mset (client_keys (cs[i := c])) = mset (map fst (watched_keys c)) + M" using client_keys_update [OF i] by blast
  obtain L where L: "mset L = M" by (metis ex_mset)
  have st: "store_ok (heap w) ((L @ held) @ keys_of (db_watched sv) @ map fst (watched_keys ?c))"
    by (rule store_ok_mset [of "held @ keys_of (db_watched sv) @ client_keys cs"]) (use r in \<open>simp_all add: M L\<close>)
  have cnt: "length (client_keys cs) = length (watched_keys ?c) + size M" "length L = size M"
    using arg_cong [OF M(1), of size] arg_cong [OF L, of size] by simp_all
  have k: "a \<in> set held" "key_ok (heap w) a" "text_at (heap w) a = txts a" using r p(2) by auto
  have D: "dbs_ok (heap w) (db_watched sv) ws" "length (db_watched sv) = m"
    "length (keys_of (db_watched sv)) + length (client_keys cs) \<le> 2 * n" "distinct ws" using r by simp_all
  have cv: "watched_by ws (cid ?c) = keys_at (heap w) (watched_keys ?c)" "watched_ok (heap w) (length (db_watched sv)) (watched_keys ?c)"
    "dbid ?c < length (db_watched sv)" "cid ?c = i" "dbid ?c = dbs ! i" using v D(2) by (simp_all add: client_view_def)
  have rm: "length ((L @ held) @ keys_of (db_watched sv) @ map fst (watched_keys ?c)) + 2 \<le> REF_LIMIT" using D(3) cnt p(3) by simp
  obtain dbs' h ks where 1: "watchForKey a sv ?c w = Inr (sv\<lparr>db_watched := dbs'\<rparr>, ?c\<lparr>watched_keys := ks\<rparr>, w\<lparr>heap := h\<rparr>)"
    "length dbs' = m" "dbs_ok h dbs' (watch_add ws (i, dbs ! i, txts a))" "watched_by (watch_add ws (i, dbs ! i, txts a)) i = keys_at h ks"
    "watched_ok h m ks" "store_ok h ((L @ held) @ keys_of dbs' @ map fst ks)" "same (heap w) h UNIV"
    "length (keys_of dbs' @ map fst ks) \<le> length (keys_of (db_watched sv) @ map fst (watched_keys ?c)) + 2"
    using watchForKey_ok [OF D(1) cv(1-3) st _ k(2) rm] k(1,3) cv(4,5) D(2) by auto
  have st': "store_ok h (keys_of dbs' @ map fst ks @ L @ held)" by (rule store_ok_mset [OF _ 1(6)]) simp
  have "watch_repr held A txts dbs m (sv\<lparr>db_watched := dbs'\<rparr>, cs[i := ?c\<lparr>watched_keys := ks\<rparr>], w\<lparr>heap := h\<rparr>)
      (watch_add ws (i, dbs ! i, txts a), flagged, n + 1)"
    by (rule client_step [OF r i 1(2) watched_by_add(2) [OF D(4)] 1(3,4,5) watched_by_add(1) M st' L])
      (use 1(7,8) D(3) cnt in \<open>simp_all add: same_def\<close>)
  then show ?thesis using 1(1) i by (simp del: watch_repr.simps)
qed

lemma unwatch_step:
  assumes r: "watch_repr held A txts dbs m (sv, cs, w) (ws, flagged, n)" and p: "i < length dbs"
  shows "\<exists>s'. watch_step present (sv, cs, w) (UnwatchAll i) = Inr (s', ()) \<and>
    watch_repr held A txts dbs m s' (filter (\<lambda>(j, q). j \<noteq> i) ws, flagged, n)"
proof -
  let ?c = "cs ! i"
  have i: "i < length cs" using r p(1) by simp
  have v: "client_view (heap w) m dbs ws flagged i ?c" using r i by simp
  obtain M where M: "mset (client_keys cs) = mset (map fst (watched_keys ?c)) + M"
    "\<And>c. mset (client_keys (cs[i := c])) = mset (map fst (watched_keys c)) + M" using client_keys_update [OF i] by blast
  obtain L where L: "mset L = M" by (metis ex_mset)
  have st: "store_ok (heap w) (keys_of (db_watched sv) @ map fst (watched_keys ?c) @ (L @ held))"
    by (rule store_ok_mset [of "held @ keys_of (db_watched sv) @ client_keys cs"]) (use r in \<open>simp_all add: M L\<close>)
  have cnt: "length (client_keys cs) = length (watched_keys ?c) + size M" using arg_cong [OF M(1), of size] by simp
  have D: "dbs_ok (heap w) (db_watched sv) ws" "length (db_watched sv) = m"
    "length (keys_of (db_watched sv)) + length (client_keys cs) \<le> 2 * n" "distinct ws" using r by simp_all
  have cv: "watched_by ws i = keys_at (heap w) (watched_keys ?c)" "cid ?c = i"
    "\<forall>(k, d)\<in>set (watched_keys ?c). key_ok (heap w) k \<and> d < length (db_watched sv)" using v D(2) by (simp_all add: client_view_def watched_ok_def)
  obtain dbs' h where 1: "unwatch_loop i (watched_keys ?c) sv w = Inr (sv\<lparr>db_watched := dbs'\<rparr>, w\<lparr>heap := h\<rparr>)" "length dbs' = m"
    "dbs_ok h dbs' (filter (\<lambda>(j, q). j \<noteq> i) ws)" "store_ok h (keys_of dbs' @ (L @ held))" "same (heap w) h (set (L @ held))"
    "length (keys_of dbs') \<le> length (keys_of (db_watched sv))"
    using unwatch_loop_ok [OF D(1,4) cv(1,3) st] D(2) by auto
  have e: "watched_by (filter (\<lambda>(j, q). j \<noteq> i) ws) i = keys_at h []" "watched_ok h m []"
    by (simp_all add: watched_by_filter keys_at_def watched_ok_def)
  have "watch_repr held A txts dbs m (sv\<lparr>db_watched := dbs'\<rparr>, cs[i := ?c\<lparr>watched_keys := []\<rparr>], w\<lparr>heap := h\<rparr>)
      (filter (\<lambda>(j, q). j \<noteq> i) ws, flagged, n)"
    by (rule client_step [OF r i 1(2) _ 1(3) e _ M _ L 1(5)]) (use 1(4,6) D(3,4) cnt in \<open>simp_all add: watched_by_filter\<close>)
  moreover have "unwatchAllKeys sv ?c w = Inr (sv\<lparr>db_watched := dbs'\<rparr>, ?c\<lparr>watched_keys := []\<rparr>, w\<lparr>heap := h\<rparr>)"
    using 1(1) cv(2) by (simp add: unwatchAllKeys_def)
  ultimately show ?thesis using i by (simp del: watch_repr.simps)
qed

lemma touch_step:
  assumes r: "watch_repr held A txts dbs m (sv, cs, w) (ws, flagged, n)" and p: "d < m" "a \<in> A"
  shows "\<exists>s'. watch_step present (sv, cs, w) (TouchKey d a) = Inr (s', ()) \<and>
    watch_repr held A txts dbs m s' (ws, flagged \<union> {i. (i, d, txts a) \<in> set ws}, n)"
proof -
  have D: "dbs_ok (heap w) (db_watched sv) ws" "length (db_watched sv) = m"
    "store_ok (heap w) (held @ keys_of (db_watched sv) @ client_keys cs)" using r by simp_all
  have k: "key_ok (heap w) a" "text_at (heap w) a = txts a" using r p(2) by auto
  have ok: "db_ok (heap w) (db_watched sv ! d)" and
    m: "map_of (tab (heap w) (db_watched sv ! d)) (txts a) = (if watching_key ws d (txts a) = [] then None else Some (watching_key ws d (txts a)))"
    using D(1,2) p(1) by (simp_all add: dbs_ok_def)
  have "touchWatchedKey d a sv w = Inr (watching_key ws d (txts a))"
    using key_text_ok [OF D(3) k(1)] watchers_ok [OF D(3) ok] m k(2) p(1) D(2)
    by (auto simp: touchWatchedKey_def db_at_def split: if_splits)
  moreover have "watch_repr held A txts dbs m (sv, touch_clients (watching_key ws d (txts a)) cs, w) (ws, flagged \<union> {i. (i, d, txts a) \<in> set ws}, n)"
  proof (rule flagging_step [OF r])
    fix i assume i: "i < length cs"
    then have "client_view (heap w) m dbs ws flagged i (cs ! i)" using r by simp
    then have "cid (cs ! i) = i" by (simp add: client_view_def)
    then show "touch_clients (watching_key ws d (txts a)) cs ! i = (if i \<in> {i. (i, d, txts a) \<in> set ws} then mark_dirty (cs ! i) else cs ! i)"
      using i by (simp add: touch_clients_def watching_key_simps(2))
  qed (simp add: touch_clients_def)
  ultimately show ?thesis by simp
qed

lemma flush_step:
  assumes r: "watch_repr held A txts dbs m (sv, cs, w) (ws, flagged, n)"
  shows "\<exists>s'. watch_step present (sv, cs, w) (FlushDb k) = Inr (s', ()) \<and>
    watch_repr held A txts dbs m s' (ws, flagged \<union> {i. \<exists>d t. (i, d, t) \<in> set ws \<and> (k = -1 \<or> int d = k) \<and> present d t}, n)"
proof -
  let ?hit = "\<lambda>c. \<exists>(d, t)\<in>set (keys_at (heap w) (watched_keys c)). (k = -1 \<or> int d = k) \<and> present d t"
  let ?cs = "map (\<lambda>c. if ?hit c then mark_dirty c else c) cs"
  have st: "store_ok (heap w) (held @ keys_of (db_watched sv) @ client_keys cs)" using r by simp
  have v: "client_view (heap w) m dbs ws flagged i (cs ! i)" if "i < length cs" for i using r that by simp
  have "touchWatchedKeysOnFlush present k cs w = Inr ?cs"
    by (rule flush_ok [OF st, of cs m]) (use v in \<open>auto simp: in_set_conv_nth client_view_def\<close>)
  moreover have "watch_repr held A txts dbs m (sv, ?cs, w) (ws, flagged \<union> {i. \<exists>d t. (i, d, t) \<in> set ws \<and> (k = -1 \<or> int d = k) \<and> present d t}, n)"
  proof (rule flagging_step [OF r])
    fix i assume i: "i < length cs"
    have "keys_at (heap w) (watched_keys (cs ! i)) = watched_by ws i" using v [OF i] by (simp add: client_view_def)
    then have "?hit (cs ! i) \<longleftrightarrow> i \<in> {i. \<exists>d t. (i, d, t) \<in> set ws \<and> (k = -1 \<or> int d = k) \<and> present d t}"
      by (auto simp: watching_key_simps(4))
    then show "?cs ! i = (if i \<in> {i. \<exists>d t. (i, d, t) \<in> set ws \<and> (k = -1 \<or> int d = k) \<and> present d t} then mark_dirty (cs ! i) else cs ! i)"
      using i by simp
  qed simp
  ultimately show ?thesis by simp
qed

interpretation watching: simulation "watch_step present" "watch_repr held A txts dbs m" "watch_effect present txts dbs"
    "watch_pre A (length dbs) m (length held)"
  for present held A txts dbs m
proof unfold_locales
  fix s a p
  assume r: "watch_repr held A txts dbs m s a" and q: "watch_pre A (length dbs) m (length held) a p"
  obtain sv cs w where s: "s = (sv, cs, w)" by (cases s)
  obtain ws flagged n where a: "a = (ws, flagged, n)" by (cases a)
  show "\<exists>s'. watch_step present s p = Inr (s', snd (watch_effect present txts dbs a p)) \<and> watch_repr held A txts dbs m s' (fst (watch_effect present txts dbs a p))"
    using r q watch_key_step [of held A txts dbs m sv cs w ws flagged n _ _ present] unwatch_step [of held A txts dbs m sv cs w ws flagged n _ present]
      touch_step [of held A txts dbs m sv cs w ws flagged n _ _ present] flush_step [of held A txts dbs m sv cs w ws flagged n present]
    unfolding s a by (cases p) (auto simp del: watch_step.simps watch_repr.simps)
qed

fun watch_valid :: "nat set \<Rightarrow> nat \<Rightarrow> nat \<Rightarrow> watch_op \<Rightarrow> bool" where
  "watch_valid A c m (WatchKey i a) \<longleftrightarrow> i < c \<and> a \<in> A"
| "watch_valid A c m (UnwatchAll i) \<longleftrightarrow> i < c"
| "watch_valid A c m (TouchKey d a) \<longleftrightarrow> d < m \<and> a \<in> A"
| "watch_valid A c m (FlushDb k) \<longleftrightarrow> True"

lemma watch_admissible:
  assumes "list_all (watch_valid A c m) ops" and "H + 2 * (n + length ops) \<le> REF_LIMIT"
  shows "admissible (watch_effect present txts dbs) (watch_pre A c m H) (ws, flagged, n) ops"
  using assms
proof (induction ops arbitrary: ws flagged n)
  case (Cons p ops)
  show ?case
  proof (cases p)
    case (WatchKey i a)
    then show ?thesis using Cons.prems Cons.IH [of "n + 1"] by simp
  qed (use Cons in simp_all)
qed simp

definition watch_outcome :: "(nat \<Rightarrow> char list \<Rightarrow> bool) \<Rightarrow> nworld \<Rightarrow> command_client list \<Rightarrow> watch_op list \<Rightarrow> watch_spec" where
  "watch_outcome present w cs ops = fst (spec_fold (watch_effect present (text_at (heap w)) (map dbid cs))
     ([], {i. i < length cs \<and> has_flag (cs ! i) REDIS_DIRTY_CAS}, 0) ops)"

lemma watch_units: "snd (spec_fold (watch_effect present txts dbs) a ops) = map (\<lambda>_. ()) ops"
  by (rule nth_equalityI) (induction ops arbitrary: a; simp add: split_beta Let_def)+


definition demo_watcher :: "nat \<Rightarrow> command_client" where
  "demo_watcher i = command_fields (redisClient.extend (demo_client\<lparr>cid := i\<rparr>) (request_client.fields (mk_sds [] []) 0 [] 0 None 0 0 (-1) 0))"

lemma demo_watcher_fields: "cid (demo_watcher i) = i" "dbid (demo_watcher i) = 0" "watched_keys (demo_watcher i) = []"
  "\<not> has_flag (demo_watcher i) REDIS_DIRTY_CAS"
  by (simp_all add: demo_watcher_def command_fields_def request_client.extend_def request_client.fields_def redisClient.extend_def
      command_client.fields_def demo_client_def has_flag_def)


end
