(* ===== verification/Request_Errors.thy ===== *)
theory Request_Errors
  imports Session_Props
begin

text \<open>
  Requests that break the protocol: a count or a length that is no number or out of range, or an argument without its
  mark. The client gets the error and is closed once it is sent; nothing is executed.
\<close>

section \<open>The error reply\<close>

definition closes :: "nat list \<Rightarrow> ('a request_client_scheme) \<Rightarrow> nworld \<Rightarrow> char list \<Rightarrow> ('a request_client_scheme) \<times> nworld \<Rightarrow> bool" where
  "closes held c w t = (\<lambda>(c', w'). out c' w' = out c w @ map Inl t \<and> sock w' = sock w \<and> has_flag c' REDIS_CLOSE_AFTER_REPLY \<and>
     store_ok (heap w') (held @ reply c') \<and> same (heap w) (heap w') (set held))"

lemma close_flag: "has_flag (c\<lparr>cflags := f OR REDIS_CLOSE_AFTER_REPLY\<rparr>) REDIS_CLOSE_AFTER_REPLY"
  unfolding flag_is_bit by (simp add: bit_or_iff flag_bits)

lemma outside_querybuf: "outside c c' \<Longrightarrow> querybuf (c' :: 'a request_client_scheme) = querybuf c"
  by (cases c; cases c') (simp add: outside_def)

text \<open>A reply followed by \<open>setProtocolError\<close>, which drops what has been parsed (\<open>U\<close>).\<close>

lemma error_closes:
  fixes c :: "'a request_client_scheme"
  assumes ap: "appends e held w f t 3" and f: "confined f" and ok: "client_ok e held k c w" "open_client e c" "k + 3 \<le> OUT_LIMIT"
    and q: "sds_ok (querybuf c)" "sds_str (querybuf c) = U @ P"
  shows "\<exists>c' w'. rbind (f c w) (\<lambda>(c, w). rbind (setProtocolError (int (length U)) c) (\<lambda>c. Inr (c, w))) = Inr (c', w') \<and> closes held c w t (c', w')"
proof -
  obtain c1 w1 where 1: "f c w = Inr (c1, w1)" "client_ok e held (k + 3) c1 w1" "frame held w w1" "out c1 w1 = out c w @ map Inl t"
    using appendsE [OF ap ok(1,2) frame_refl ok(3)] by metis
  have "querybuf c1 = querybuf c" using outside_querybuf [OF confinedD [OF f 1(1)]] .
  then obtain q' where q': "sdsrange (querybuf c1) (int (length U)) (-1) = Inr q'" using sdsrange_drop [OF q] by metis
  let ?c = "c1\<lparr>cflags := cflags c1 OR REDIS_CLOSE_AFTER_REPLY, querybuf := q'\<rparr>"
  have "has_flag ?c REDIS_CLOSE_AFTER_REPLY" using close_flag [of "cflags c1" c1] by (simp add: has_flag_def)
  moreover have "out ?c w1 = out c1 w1" by (simp add: out_def)
  ultimately have "closes held c w t (?c, w1)" using 1(2-4) by (simp add: closes_def frame_def client_ok_def)
  then show ?thesis using 1(1) q' by (simp add: setProtocolError_def)
qed

lemma protocol_error_closes:
  fixes c :: "'a request_client_scheme"
  assumes "client_ok e held k c w" and "open_client e c" and "k + 3 \<le> OUT_LIMIT" and "sds_ok (querybuf c)" and "sds_str (querybuf c) = U @ P"
    and "NUL \<notin> set msg" and "length msg < 1000"
  shows "\<exists>c' w'. protocol_error e msg (int (length U)) c w = Inr (c', w') \<and> closes held c w (error_text (''Protocol error: '' @ msg)) (c', w')"
proof -
  let ?m = "''Protocol error: '' @ msg @ [NUL]"
  have c: "cstr ?m = ''Protocol error: '' @ msg" using assms(6) by (simp add: cstr_app)
  have "appends e held w (addReplyError e ?m) (resp (CHR ''-'') (''ERR '' @ cstr ?m)) 3"
    by (rule addReplyError_appends) (use c assms(7) in simp_all)
  then have ap: "appends e held w (addReplyError e ?m) (error_text (''Protocol error: '' @ msg)) 3" unfolding c by (simp add: error_text_def)
  show ?thesis unfolding protocol_error_def by (rule error_closes [OF ap confined_error assms(1-5)])
qed

section \<open>Malformed requests\<close>

text \<open>A bad count; a bad length of the first of \<open>n\<close> arguments; another byte in the place of its mark.\<close>

datatype malformed = BadCount "char list" | BadLength nat "char list" | BadMark nat char "char list"

fun malformed_bytes :: "malformed \<Rightarrow> char list" where
  "malformed_bytes (BadCount t) = ''*'' @ t @ CRLF"
| "malformed_bytes (BadLength n t) = ''*'' @ ll_text (int n) @ CRLF @ ''$'' @ t @ CRLF"
| "malformed_bytes (BadMark n ch t) = ''*'' @ ll_text (int n) @ CRLF @ ch # t @ CRLF"

definition clean :: "char list \<Rightarrow> bool" where
  "clean t \<longleftrightarrow> CR \<notin> set t \<and> NUL \<notin> set t"

fun is_malformed :: "malformed \<Rightarrow> bool" where
  "is_malformed (BadCount t) \<longleftrightarrow> clean t \<and> (case string2ll t of None \<Rightarrow> True | Some v \<Rightarrow> v > 1048576)"
| "is_malformed (BadLength n t) \<longleftrightarrow> 1 \<le> n \<and> n \<le> 1048576 \<and> clean t \<and> (case string2ll t of None \<Rightarrow> True | Some v \<Rightarrow> v < 0 \<or> v > 536870912)"
| "is_malformed (BadMark n ch t) \<longleftrightarrow> 1 \<le> n \<and> n \<le> 1048576 \<and> clean (ch # t) \<and> ch \<noteq> CHR ''$''"

fun malformed_reply :: "malformed \<Rightarrow> char list" where
  "malformed_reply (BadCount t) = error_text ''Protocol error: invalid multibulk length''"
| "malformed_reply (BadLength n t) = error_text ''Protocol error: invalid bulk length''"
| "malformed_reply (BadMark n ch t) = error_text (one_line (''Protocol error: expected '' @ in_quotes ''$'' @ '', got '' @ in_quotes [ch]))"

text \<open>The first line of the buffer.\<close>

lemma strchr_line: "clean t \<Longrightarrow> strchr (t @ CRLF @ rest @ NUL # fr) CR = Inr (Some (length t))"
  using scan_cr [of "t @ CRLF @ rest" "[]" t rest fr] by (auto simp: clean_def CRLF_def elim!: scan_cr)

lemma line_buffer:
  assumes "sds_ok q" and "sds_str q = U @ t @ CRLF @ rest"
  shows "\<exists>fr. sh_buf q = U @ t @ CRLF @ rest @ NUL # fr \<and> to_i32 (sdslen q) = int (length (U @ t @ CRLF @ rest))"
proof -
  obtain xs fr where q: "q = mk_sds xs fr" "length xs + length fr < 2147483648" using assms(1) by (rule sds_okE)
  then have "to_i32 (sdslen q) = int (length xs)" by (simp add: cint)
  then show ?thesis using q assms(2) by simp
qed

lemma read_count_bad:
  fixes c :: "'a request_client_scheme"
  assumes ok: "client_ok e held k c w" "open_client e c" "k + 3 \<le> OUT_LIMIT" and q: "sds_ok (querybuf c)" "sds_str (querybuf c) = ''*'' @ t @ CRLF @ rest"
    and a: "argv c = []" and t: "is_malformed (BadCount t)"
  shows "\<exists>c' w'. read_count e c w = Inr (Return False, c', w') \<and> closes held c w (malformed_reply (BadCount t)) (c', w')"
proof -
  have q2: "sds_str (querybuf c) = [] @ (''*'' @ t) @ CRLF @ rest" using q(2) by simp
  obtain fr where b: "sh_buf (querybuf c) = (''*'' @ t) @ CRLF @ rest @ NUL # fr" "to_i32 (sdslen (querybuf c)) = int (length ((''*'' @ t) @ CRLF @ rest))"
    using line_buffer [OF q(1) q2] unfolding append.append_Nil by blast
  have "clean (''*'' @ t)" using t by (simp add: clean_def)
  note line = strchr_line [OF this, of rest fr, folded b(1)]
  obtain c' w' where r: "protocol_error e ''invalid multibulk length'' 0 c w = Inr (c', w')"
    "closes held c w (error_text (''Protocol error: '' @ ''invalid multibulk length'')) (c', w')"
    using protocol_error_closes [OF ok q(1), of "[]" "sds_str (querybuf c)" "''invalid multibulk length''"] by auto
  have n: "\<not> int (length (''*'' @ t)) > to_i32 (sdslen (querybuf c)) - 2" using b(2) by (simp add: CRLF_def)
  have h: "hd (sh_buf (querybuf c)) = CHR ''*''" "take (length (''*'' @ t) - 1) (drop 1 (sh_buf (querybuf c))) = t" using b(1) by simp_all
  have "read_count e c w = Inr (Return False, c', w')"
    using t unfolding read_count_def line rbind_simps option.case h(2) if_not_P [OF n]
    by (auto simp: a h(1) r(1) split: option.splits)
  then show ?thesis using r(2) by simp
qed

lemma read_bulk_len_bad:
  fixes c :: "'a request_client_scheme"
  assumes ok: "client_ok e held k c w" "open_client e c" "k + 3 \<le> OUT_LIMIT" and q: "sds_ok (querybuf c)" "sds_str (querybuf c) = U @ ''$'' @ t @ CRLF @ rest"
    and b: "bulklen c = -1" and t: "is_malformed (BadLength n t)"
  shows "\<exists>c' w'. read_bulk_len e (int (length U)) c w = Inr (Return False, c', w') \<and> closes held c w (malformed_reply (BadLength n t)) (c', w')"
proof -
  have q2: "sds_str (querybuf c) = U @ (''$'' @ t) @ CRLF @ rest" using q(2) by simp
  obtain fr where b': "sh_buf (querybuf c) = U @ (''$'' @ t) @ CRLF @ rest @ NUL # fr" "to_i32 (sdslen (querybuf c)) = int (length (U @ (''$'' @ t) @ CRLF @ rest))"
    using line_buffer [OF q(1) q2] by blast
  have p: "drop (nat (int (length U))) (sh_buf (querybuf c)) = (''$'' @ t) @ CRLF @ rest @ NUL # fr" using b'(1) by simp
  have "clean (''$'' @ t)" using t by (simp add: clean_def)
  note line = strchr_line [OF this, of rest fr, folded p]
  obtain c' w' where r: "protocol_error e ''invalid bulk length'' (int (length U)) c w = Inr (c', w')"
    "closes held c w (error_text (''Protocol error: '' @ ''invalid bulk length'')) (c', w')"
    using protocol_error_closes [OF ok q, of "''invalid bulk length''"] by auto
  have n: "\<not> int (length U) + int (length (''$'' @ t)) > to_i32 (sdslen (querybuf c)) - 2" using b'(2) by (simp add: CRLF_def)
  have h: "\<not> hd (drop (nat (int (length U))) (sh_buf (querybuf c))) \<noteq> CHR ''$''"
    "take (length (''$'' @ t) - 1) (drop 1 (drop (nat (int (length U))) (sh_buf (querybuf c)))) = t" unfolding p by simp_all
  have nb: "\<not> bulklen c \<noteq> -1" using b by simp
  have "read_bulk_len e (int (length U)) c w = Inr (Return False, c', w')"
    using t unfolding read_bulk_len_def if_not_P [OF nb] Let_def line rbind_simps option.case h(2) if_not_P [OF n] if_not_P [OF h(1)]
    by (auto simp: r(1) split: option.splits)
  then show ?thesis using r(2) by simp
qed

lemma read_bulk_mark_bad:
  fixes c :: "'a request_client_scheme"
  assumes ok: "client_ok e held k c w" "open_client e c" "k + 3 \<le> OUT_LIMIT" and q: "sds_ok (querybuf c)" "sds_str (querybuf c) = U @ (ch # t) @ CRLF @ rest"
    and b: "bulklen c = -1" and t: "is_malformed (BadMark n ch t)"
  shows "\<exists>c' w'. read_bulk_len e (int (length U)) c w = Inr (Return False, c', w') \<and> closes held c w (malformed_reply (BadMark n ch t)) (c', w')"
proof -
  obtain fr where b': "sh_buf (querybuf c) = U @ (ch # t) @ CRLF @ rest @ NUL # fr" "to_i32 (sdslen (querybuf c)) = int (length (U @ (ch # t) @ CRLF @ rest))"
    using line_buffer [OF q] by blast
  have p: "drop (nat (int (length U))) (sh_buf (querybuf c)) = (ch # t) @ CRLF @ rest @ NUL # fr" using b'(1) by simp
  have cl: "clean (ch # t)" using t by simp
  note line = strchr_line [OF cl, of rest fr, folded p]
  let ?m = "''Protocol error: expected '' @ [CHR 0x27] @ ''$'' @ [CHR 0x27] @ '', got '' @ [CHR 0x27, ch, CHR 0x27]"
  have m: "cstr ?m = ''Protocol error: expected '' @ in_quotes ''$'' @ '', got '' @ in_quotes [ch]"
    using cl by (simp add: clean_def in_quotes_def cstr_id)
  have "appends e held w (addReplyErrorFormat e ?m) (resp (CHR ''-'') (''ERR '' @ one_line (cstr ?m))) 3"
    by (rule addReplyErrorFormat_appends) (unfold m, simp add: in_quotes_def SDS_LIMIT_def)
  then have ap: "appends e held w (addReplyErrorFormat e ?m) (malformed_reply (BadMark n ch t)) 3" unfolding m by (simp add: error_text_def)
  obtain c' w' where r: "rbind (addReplyErrorFormat e ?m c w) (\<lambda>(c, w). rbind (setProtocolError (int (length U)) c) (\<lambda>c. Inr (c, w))) = Inr (c', w')"
    "closes held c w (malformed_reply (BadMark n ch t)) (c', w')" using error_closes [OF ap confined_format ok q] by metis
  obtain c1 w1 where r1: "addReplyErrorFormat e ?m c w = Inr (c1, w1)" "setProtocolError (int (length U)) c1 = Inr c'" "w' = w1"
    using r(1) by (auto simp: rbind_eq_Inr)
  have n: "\<not> int (length U) + int (length (ch # t)) > to_i32 (sdslen (querybuf c)) - 2" using b'(2) by (simp add: CRLF_def)
  have h: "hd (drop (nat (int (length U))) (sh_buf (querybuf c))) = ch" unfolding p by simp
  have nb: "\<not> bulklen c \<noteq> -1" using b by simp
  have nd: "ch \<noteq> CHR ''$''" using t by simp
  have "read_bulk_len e (int (length U)) c w = Inr (Return False, c', w')"
    unfolding read_bulk_len_def if_not_P [OF nb] Let_def line rbind_simps option.case if_not_P [OF n] h if_P [OF nd] r1(1) prod.case r1(2)
    by (simp add: r1(3))
  then show ?thesis using r(2) by blast
qed

lemma malformed_parse:
  fixes c :: "'a request_client_scheme"
  assumes ok: "client_ok e held k c w" "open_client e c" "k + 3 \<le> OUT_LIMIT" and q: "sds_ok (querybuf c)" "sds_str (querybuf c) = malformed_bytes m @ rest"
    and m: "is_malformed m" and st: "argv c = []" "multibulklen c = 0" "bulklen c = -1"
  shows "\<exists>c' w'. processMultibulkBuffer e c w = Inr (False, c', w') \<and> closes held c w (malformed_reply m) (c', w')"
proof (cases "\<exists>t. m = BadCount t")
  case True
  then obtain t where t: "m = BadCount t" by blast
  obtain c' w' where "read_count e c w = Inr (Return False, c', w')" "closes held c w (malformed_reply m) (c', w')"
    using read_count_bad [OF ok q(1) _ st(1), of t rest] q(2) m t by auto
  then show ?thesis using st(2) by (simp add: processMultibulkBuffer_def)
next
  case False
  obtain n z where z: "malformed_bytes m = ''*'' @ ll_text (int n) @ CRLF @ z" "1 \<le> n" "n \<le> 1048576"
    and shape: "(\<exists>t. m = BadLength n t \<and> z = ''$'' @ t @ CRLF) \<or> (\<exists>ch t. m = BadMark n ch t \<and> z = (ch # t) @ CRLF)"
    using False m by (cases m) auto
  have ll: "is_ll (int n)" using z(3) by (simp add: ll_bounds)
  note cl = ll_text_clean [OF ll]
  let ?L = "''*'' @ ll_text (int n)"
  have q2: "sds_str (querybuf c) = [] @ ?L @ CRLF @ (z @ rest)" using q(2) z(1) by simp
  obtain fr where b: "sh_buf (querybuf c) = ?L @ CRLF @ (z @ rest) @ NUL # fr" "to_i32 (sdslen (querybuf c)) = int (length (?L @ CRLF @ (z @ rest)))"
    using line_buffer [OF q(1) q2] unfolding append.append_Nil by blast
  have "clean ?L" using cl by (auto simp: clean_def)
  note line = strchr_line [OF this, of "z @ rest" fr, folded b(1)]
  have nn: "\<not> int (length ?L) > to_i32 (sdslen (querybuf c)) - 2" using b(2) by (simp add: CRLF_def)
  have h: "\<not> hd (sh_buf (querybuf c)) \<noteq> CHR ''*''" "take (length ?L - 1) (drop 1 (sh_buf (querybuf c))) = ll_text (int n)" using b(1) by simp_all
  have num: "string2ll (ll_text (int n)) = Some (int n)" using ll by (simp add: string2ll_iff)
  have rng: "\<not> int n > 1024 * 1024" "\<not> int n \<le> 0" "to_i32 (int n) = int n" using z(2,3) by (simp_all add: cint)
  have na: "\<not> argv c \<noteq> []" using st(1) by simp
  let ?c = "c\<lparr>multibulklen := int n, argv := [], argv_room := int n\<rparr>" and ?U = "?L @ CRLF"
  have off: "int (length ?L) + 2 = int (length ?U)" by (simp add: CRLF_def)
  have rc: "read_count e c w = Inr (Go (int (length ?U)), ?c, w)"
    unfolding read_count_def if_not_P [OF na] line rbind_simps option.case if_not_P [OF nn] if_not_P [OF h(1)] h(2) num if_not_P [OF rng(1)]
      Let_def if_not_P [OF rng(2)] rng(3) off ..
  have ok': "client_ok e held k ?c w" "open_client e ?c" using ok(1,2) by (simp_all add: client_ok_def sent_ok_def open_client_def has_flag_def)
  have out: "closes held ?c w t r = closes held c w t r" for t r by (cases r) (simp add: closes_def out_def)
  have "\<exists>c' w'. read_bulk_len e (int (length ?U)) ?c w = Inr (Return False, c', w') \<and> closes held c w (malformed_reply m) (c', w')"
    using shape
  proof (elim disjE exE conjE)
    fix t assume t: "m = BadLength n t" "z = ''$'' @ t @ CRLF"
    have "sds_str (querybuf ?c) = ?U @ ''$'' @ t @ CRLF @ rest" using q(2) z(1) t(2) by simp
    from read_bulk_len_bad [OF ok' ok(3) _ this, of n] show ?thesis using q(1) st(3) m t(1) unfolding out by simp
  next
    fix ch t assume t: "m = BadMark n ch t" "z = (ch # t) @ CRLF"
    have "sds_str (querybuf ?c) = ?U @ (ch # t) @ CRLF @ rest" using q(2) z(1) t(2) by simp
    from read_bulk_mark_bad [OF ok' ok(3) _ this, of n] show ?thesis using q(1) st(3) m t(1) unfolding out by simp
  qed
  then obtain c' w' where r: "read_bulk_len e (int (length ?U)) ?c w = Inr (Return False, c', w')" "closes held c w (malformed_reply m) (c', w')" by blast
  have "bulk_loop e (int (length ?U)) ?c w = Inr (Return False, c', w')"
    using r(1) z(2) by (subst bulk_loop.simps) simp
  then have "processMultibulkBuffer e c w = Inr (False, c', w')"
    unfolding processMultibulkBuffer_def if_P [OF st(2)] rc rbind_simps prod.case parse_next.case using z(2) by simp
  then show ?thesis using r(2) by blast
qed

text \<open>
  C40. When the query buffer of an idle client begins with a malformed request - a multibulk count that is no 64-bit
  decimal or more than \<open>2^20\<close>, a first bulk length that is none, negative or over 512 MB, or an argument that does not
  begin with a dollar sign - the input loop ends at once: the pending output grows by exactly the error line for it,
  the client is to be closed once that is sent, no command has been executed, nothing leaks, and no input that is
  there or comes later is parsed any more.
\<close>

theorem malformed_requests_close:
  fixes c :: "'a request_client_scheme"
  assumes "client_ok e held k c w" and "open_client e c" and "k + 3 \<le> OUT_LIMIT" and "\<not> has_flag c REDIS_BLOCKED"
    and "sds_ok (querybuf c)" and "sds_str (querybuf c) = malformed_bytes m @ rest" and "is_malformed m"
    and "argv c = []" and "reqtype c = 0" and "multibulklen c = 0" and "bulklen c = -1"
  shows "\<exists>c' w'. processInputBuffer e exec s c w = Inr (s, c', w') \<and> out c' w' = out c w @ map Inl (malformed_reply m) \<and> sock w' = sock w \<and>
    has_flag c' REDIS_CLOSE_AFTER_REPLY \<and> store_ok (heap w') (held @ reply c') \<and>
    (\<forall>q. processInputBuffer e exec s (c'\<lparr>querybuf := q\<rparr>) w' = Inr (s, c'\<lparr>querybuf := q\<rparr>, w'))"
proof -
  have star: "\<exists>y. malformed_bytes m = CHR ''*'' # y" by (cases m) simp_all
  obtain xs fr where b: "querybuf c = mk_sds xs fr" "length xs + length fr < 2147483648" using assms(5) by (rule sds_okE)
  have hd: "hd (sh_buf (querybuf c)) = CHR ''*''" and ne: "sdslen (querybuf c) \<noteq> 0" using star b assms(6) by auto
  let ?c = "c\<lparr>reqtype := REDIS_REQ_MULTIBULK\<rparr>"
  have ty: "request_type c = ?c" using assms(9) hd by (simp add: request_type_def)
  have ok: "client_ok e held k ?c w" "open_client e ?c" using assms(1,2) by (simp_all add: client_ok_def sent_ok_def open_client_def has_flag_def)
  obtain c' w' where r: "processMultibulkBuffer e ?c w = Inr (False, c', w')" "closes held ?c w (malformed_reply m) (c', w')"
    using malformed_parse [OF ok assms(3) _ _ assms(7), of rest] assms(5,6,8,10,11) by auto
  have out: "closes held c w (malformed_reply m) (c', w')" using r(2) by (simp add: closes_def out_def)
  have neq: "REDIS_REQ_MULTIBULK \<noteq> REDIS_REQ_INLINE" by (simp add: req_consts)
  have nc: "\<not> has_flag c REDIS_CLOSE_AFTER_REPLY" using assms(2) by (simp add: open_client_def)
  have "processInputBuffer e exec s c w = Inr (s, c', w')"
    using ne assms(4) nc neq r(1) by (simp add: processInputBuffer_def add_2_eq_Suc' ty parse_request_def)
  moreover have "processInputBuffer e exec s (c'\<lparr>querybuf := q\<rparr>) w' = Inr (s, c'\<lparr>querybuf := q\<rparr>, w')" for q
  proof -
    have "has_flag (c'\<lparr>querybuf := q\<rparr>) REDIS_CLOSE_AFTER_REPLY" using out by (simp add: closes_def has_flag_def)
    then show ?thesis by (simp add: processInputBuffer_def add_2_eq_Suc')
  qed
  ultimately show ?thesis using out by (auto simp: closes_def)
qed

definition demo_input :: "char list \<Rightarrow> request_client" where
  "demo_input t = redisClient.extend demo_client (request_client.fields (mk_sds t []) 0 [] 0 None 0 0 (-1) 0)"

theorem malformed_requests_close_witness:
  "\<exists>h s c' w'. createSharedObjects (\<lambda>_. NUL) (empty_store 7 0, zero_shared) = Inr (h, s) \<and>
    processInputBuffer demo_env (\<lambda>n c w. Inr (True, n + 1, c, w)) (0::nat) (demo_input (''*2'' @ CRLF @ ''$-3'' @ CRLF @ ''PING'')) (demo_world (h, s)) = Inr (0, c', w') \<and>
    out c' w' = map Inl (''-ERR Protocol error: invalid bulk length'' @ CRLF) \<and> has_flag c' REDIS_CLOSE_AFTER_REPLY"
proof -
  obtain h s where w: "createSharedObjects (\<lambda>_. NUL) (empty_store 7 0, zero_shared) = Inr (h, s)" "store_ok h shared_refs"
    "shared_strings_ok shared_refs (demo_world (h, s))" using demo_world_exists by metis
  let ?t = "''*2'' @ CRLF @ ''$-3'' @ CRLF @ ''PING''" and ?w = "demo_world (h, s)" and ?m = "BadLength 2 ''-3''"
  let ?c = "demo_input ?t"
  note fields = demo_input_def redisClient.extend_def request_client.fields_def demo_client_def
  have "idle_client ?c" "open_client demo_env ?c"
    using demo_ok(2) by (simp_all add: idle_client_def open_client_def fields has_flag_def net_consts)
  moreover have "store_ok (heap ?w) shared_refs" using w(2) demo_ok(5) by simp
  moreover have "length shared_refs \<le> OUT_LIMIT" by (simp add: shared_refs_def OUT_LIMIT_def)
  ultimately have ok: "client_ok demo_env shared_refs 0 ?c ?w" "open_client demo_env ?c" "out ?c ?w = []"
    using idle_sending [of ?c demo_env ?w shared_refs] demo_ok(3) by (simp_all add: sending_def)
  have num: "string2ll ''-3'' = Some (- 3)" by code_simp
  have q: "sds_ok (querybuf ?c)" "sds_str (querybuf ?c) = malformed_bytes ?m @ ''PING''" "is_malformed ?m"
    using num by (simp_all add: fields small_texts clean_def CRLF_def)
  have f: "argv ?c = []" "reqtype ?c = 0" "multibulklen ?c = 0" "bulklen ?c = -1" "\<not> has_flag ?c REDIS_BLOCKED"
    by (simp_all add: fields has_flag_def)
  have rep: "malformed_reply ?m = ''-ERR Protocol error: invalid bulk length'' @ CRLF" by (simp add: error_text_def resp_def)
  obtain c' w' where r: "processInputBuffer demo_env (\<lambda>n c w. Inr (True, n + 1, c, w)) (0::nat) ?c ?w = Inr (0, c', w')"
    "out c' w' = out ?c ?w @ map Inl (malformed_reply ?m)" "has_flag c' REDIS_CLOSE_AFTER_REPLY"
    using malformed_requests_close [OF ok(1,2) _ f(5) q f(1-4), of "\<lambda>n c w. Inr (True, n + 1, c, w)" "0::nat"] by (auto simp: OUT_LIMIT_def)
  then have "out c' w' = map Inl (''-ERR Protocol error: invalid bulk length'' @ CRLF)" unfolding ok(3) rep by (simp only: append.append_Nil)
  then show ?thesis using w(1) r(1,3) by blast
qed

end
