(* ===== verification/Keyspace.thy ===== *)
theory Keyspace
  imports Commands Dict_Map
begin

text \<open>
  \<open>db.c\<close>: the keyspace. A database is a dictionary from keys to objects and a dictionary from keys to expire times, which
  shares the key strings of the first. The dictionaries take turns with the page pool and the resize flag of the
  process; the objects their destructors release are released in the object store when a call returns. The clients that
  get the flag \<open>REDIS_DIRTY_CAS\<close> are recorded in \<open>touched\<close>. The performance counters of the functions are left out.
\<close>

section \<open>Databases\<close>

text \<open>A key is a dynamic string and where it lives: in an object of a command, or as a copy \<open>dbAdd\<close> made.\<close>

datatype key_home = InObject nat | Copied nat

record dbkey =
  home :: key_home
  kname :: sdshdr

record redisDb =
  db_dict :: "(dbkey, nat) dict"
  db_expires :: "(dbkey, int) dict"

record keyspace_server = redisServer +
  dbs :: "redisDb list"
  page_pool :: agg
  can_resize :: bool
  next_copy :: nat                \<comment> \<open>the identity of the next key \<open>sdsdup\<close> makes\<close>
  hash_seed :: u32
  child_active :: bool            \<comment> \<open>a saving or rewriting child runs\<close>
  stat_keyspace_hits :: int
  stat_keyspace_misses :: int
  stat_expiredkeys :: int
  touched :: "nat list"
  del_command :: redisCommand
  orig_commands :: command_dict

datatype db_error = DbObject obj_error | DbDict dict_error

type_synonym 'r dstep = "keyspace_server \<Rightarrow> nworld \<Rightarrow> (db_error, 'r \<times> keyspace_server \<times> nworld) result"

definition obj_lift :: "(obj_error, 'a) result \<Rightarrow> (db_error, 'a) result" where
  "obj_lift r = (case r of Inl e \<Rightarrow> Inl (DbObject e) | Inr x \<Rightarrow> Inr x)"

definition dict_lift :: "(dict_error, 'a) result \<Rightarrow> (db_error, 'a) result" where
  "dict_lift r = (case r of Inl e \<Rightarrow> Inl (DbDict e) | Inr x \<Rightarrow> Inr x)"

section \<open>Dictionary types of \<open>redis.c\<close>\<close>

text \<open>The bytes \<open>dictGenHashFunction\<close> and \<open>memcmp\<close> read of a key; both take an \<open>int\<close> length.\<close>

definition key_bytes :: "dbkey \<Rightarrow> char list" where
  "key_bytes k = take (nat (to_i32 (sdslen (kname k)))) (sh_buf (kname k))"

definition dictSdsHash :: "u32 \<Rightarrow> dbkey \<Rightarrow> u32" where
  "dictSdsHash seed k = dictGenHashFunction seed (map (\<lambda>c. word_of_int (uchar c)) (key_bytes k))"

definition dictSdsKeyCompare :: "dbkey \<Rightarrow> dbkey \<Rightarrow> bool" where
  "dictSdsKeyCompare key1 key2 \<longleftrightarrow>
     (let l1 = to_i32 (sdslen (kname key1)); l2 = to_i32 (sdslen (kname key2))
      in l1 = l2 \<and> key_bytes key1 = key_bytes key2)"

definition dbDictType :: "u32 \<Rightarrow> (dbkey, nat) dictType" where
  "dbDictType seed = \<lparr>hashFunction = dictSdsHash seed, keyDup = None, valDup = None, keyCompare = Some dictSdsKeyCompare,
     keyDestructor = True, valDestructor = True\<rparr>"

definition keyptrDictType :: "u32 \<Rightarrow> (dbkey, int) dictType" where
  "keyptrDictType seed = \<lparr>hashFunction = dictSdsHash seed, keyDup = None, valDup = None, keyCompare = Some dictSdsKeyCompare,
     keyDestructor = False, valDestructor = False\<rparr>"

text \<open>\<open>dictRedisObjectDestructor\<close> on the values a call destroyed, in order.\<close>

fun destroy_values :: "(dbkey, nat) event list \<Rightarrow> ostore \<Rightarrow> (obj_error, ostore) result" where
  "destroy_values [] h = Inr h"
| "destroy_values (ValDestroyed (Some a) # evs) h = rbind (decrRefCount a h) (destroy_values evs)"
| "destroy_values (_ # evs) h = destroy_values evs h"

definition redis_db :: "keyspace_server \<Rightarrow> nat \<Rightarrow> (db_error, redisDb) result" where
  "redis_db sv i = (if i < length (dbs sv) then Inr (dbs sv ! i) else Inl (DbObject ArrayBounds))"

text \<open>A call on the main dictionary, or on the dictionary of expire times, of database \<open>i\<close>.\<close>

definition on_dict ::
    "nat \<Rightarrow> ((dbkey, nat) dictType \<Rightarrow> (dbkey, nat) dict \<Rightarrow> (dict_error, (dbkey, nat) dict \<times> 'r) result) \<Rightarrow> 'r dstep" where
  "on_dict i f sv w =
     rbind (redis_db sv i) (\<lambda>db.
     rbind (dict_lift (f (dbDictType (hash_seed sv))
        ((db_dict db)\<lparr>pool := page_pool sv, dict_can_resize := can_resize sv, dict.events := []\<rparr>))) (\<lambda>(d, r).
     rbind (obj_lift (destroy_values (dict.events d) (heap w))) (\<lambda>h.
       Inr (r, sv\<lparr>dbs := (dbs sv)[i := db\<lparr>db_dict := d\<rparr>], page_pool := pool d\<rparr>, w\<lparr>heap := h\<rparr>))))"

definition on_expires ::
    "nat \<Rightarrow> ((dbkey, int) dictType \<Rightarrow> (dbkey, int) dict \<Rightarrow> (dict_error, (dbkey, int) dict \<times> 'r) result) \<Rightarrow> 'r dstep" where
  "on_expires i f sv w =
     rbind (redis_db sv i) (\<lambda>db.
     rbind (dict_lift (f (keyptrDictType (hash_seed sv))
        ((db_expires db)\<lparr>pool := page_pool sv, dict_can_resize := can_resize sv, dict.events := []\<rparr>))) (\<lambda>(d, r).
       Inr (r, sv\<lparr>dbs := (dbs sv)[i := db\<lparr>db_expires := d\<rparr>], page_pool := pool d\<rparr>, w)))"

text \<open>\<open>key->ptr\<close>\<close>

definition key_of :: "nworld \<Rightarrow> nat \<Rightarrow> (db_error, dbkey) result" where
  "key_of w key = obj_lift (rbind (obj_at (heap w) key) (\<lambda>ob. rbind (ptr_sds ob) (\<lambda>s. Inr \<lparr>home = InObject key, kname = s\<rparr>)))"

text \<open>A value that was never stored is no pointer.\<close>

definition dictGetVal :: "('k, 'v) dictEntry \<Rightarrow> (db_error, 'v) result" where
  "dictGetVal e = opt_or (DbObject WrongPtr) (de_val e)"

text \<open>\<open>mstime\<close>, on times that are not negative.\<close>

definition mstime :: "keyspace_server \<Rightarrow> int \<times> keyspace_server" where
  "mstime sv = (times sv (ticks sv) div 1000, sv\<lparr>ticks := ticks sv + 1\<rparr>)"

section \<open>Expire times\<close>

definition find_key :: "nat \<Rightarrow> nat \<Rightarrow> (dbkey, nat) dictEntry option dstep" where
  "find_key i key sv w = rbind (key_of w key) (\<lambda>k. on_dict i (\<lambda>T d. dictFind T d k) sv w)"

definition assert_present :: "nat \<Rightarrow> nat \<Rightarrow> (dbkey, nat) dictEntry dstep" where
  "assert_present i key sv w =
     rbind (find_key i key sv w) (\<lambda>(de, sv, w). case de of None \<Rightarrow> Inl (DbObject Assertion) | Some de \<Rightarrow> Inr (de, sv, w))"

definition removeExpire :: "nat \<Rightarrow> nat \<Rightarrow> bool dstep" where
  "removeExpire i key sv w =
     rbind (assert_present i key sv w) (\<lambda>(_, sv, w).
     rbind (key_of w key) (\<lambda>k. on_expires i (\<lambda>T d. dictDelete T d k) sv w))"

definition setExpire :: "nat \<Rightarrow> nat \<Rightarrow> int \<Rightarrow> unit dstep" where
  "setExpire i key time sv w =
     rbind (assert_present i key sv w) (\<lambda>(kde, sv, w).
       on_expires i (\<lambda>T d. rbind (dictReplaceRaw T d (de_key kde)) (\<lambda>(d, de).
         case de of None \<Rightarrow> Inl NullEntry | Some de \<Rightarrow> Inr (dictSetVal T (de_addr de) time d, ()))) sv w)"

definition getExpire :: "nat \<Rightarrow> nat \<Rightarrow> int dstep" where
  "getExpire i key sv w =
     rbind (redis_db sv i) (\<lambda>db.
       if dictSize (db_expires db) = 0 then Inr (- 1, sv, w)
       else rbind (key_of w key) (\<lambda>k.
            rbind (on_expires i (\<lambda>T d. dictFind T d k) sv w) (\<lambda>(de, sv, w).
              case de of
                None \<Rightarrow> Inr (- 1, sv, w)
              | Some de \<Rightarrow>
                  rbind (assert_present i key sv w) (\<lambda>(_, sv, w).
                  rbind (dictGetVal de) (\<lambda>t. Inr (t, sv, w))))))"

definition propagateExpire :: "nat \<Rightarrow> nat \<Rightarrow> unit dstep" where
  "propagateExpire i key sv w =
     obj_lift (rbind (incrRefCount (del_obj (shared w)) (heap w)) (\<lambda>h.
     rbind (incrRefCount key h) (\<lambda>h.
     let args = map (text_at h) [del_obj (shared w), key];
         sv = (if aof_on sv then sv\<lparr>redisServer.events := redisServer.events sv @ [FeedAppendOnlyFile (del_command sv) i args]\<rparr> else sv);
         sv = (if slaves sv \<noteq> 0 then sv\<lparr>redisServer.events := redisServer.events sv @ [FeedSlaves i args]\<rparr> else sv)
     in rbind (decrRefCount (del_obj (shared w)) h) (\<lambda>h.
        rbind (decrRefCount key h) (\<lambda>h. Inr ((), sv, w\<lparr>heap := h\<rparr>))))))"

definition dbDelete :: "nat \<Rightarrow> nat \<Rightarrow> bool dstep" where
  "dbDelete i key sv w =
     rbind (key_of w key) (\<lambda>k.
     rbind (redis_db sv i) (\<lambda>db.
     rbind (if dictSize (db_expires db) > 0 then on_expires i (\<lambda>T d. dictDelete T d k) sv w else Inr (False, sv, w)) (\<lambda>(_, sv, w).
       on_dict i (\<lambda>T d. dictDelete T d k) sv w)))"

definition expireIfNeeded :: "nat \<Rightarrow> nat \<Rightarrow> bool dstep" where
  "expireIfNeeded i key sv w =
     rbind (getExpire i key sv w) (\<lambda>(time, sv, w).
       if time < 0 then Inr (False, sv, w)
       else if loading sv then Inr (False, sv, w)
       else if is_slave sv then let (now, sv) = mstime sv in Inr (now > time, sv, w)
       else let (now, sv) = mstime sv in
         if now \<le> time then Inr (False, sv, w)
         else let sv = sv\<lparr>stat_expiredkeys := stat_expiredkeys sv + 1\<rparr> in
           rbind (propagateExpire i key sv w) (\<lambda>(_, sv, w). dbDelete i key sv w))"

section \<open>Lookup and update\<close>

definition lookupKey :: "nat \<Rightarrow> nat \<Rightarrow> nat option dstep" where
  "lookupKey i key sv w =
     rbind (find_key i key sv w) (\<lambda>(de, sv, w).
       case de of
         None \<Rightarrow> Inr (None, sv, w)
       | Some de \<Rightarrow>
           rbind (dictGetVal de) (\<lambda>val.
             if child_active sv then Inr (Some val, sv, w)
             else rbind (obj_lift (obj_at (heap w) val)) (\<lambda>ob.
                  Inr (Some val, sv, w\<lparr>heap := store (heap w) val (ob\<lparr>lru := lruclock (heap w)\<rparr>)\<rparr>))))"

definition lookupKeyRead :: "nat \<Rightarrow> nat \<Rightarrow> nat option dstep" where
  "lookupKeyRead i key sv w =
     rbind (expireIfNeeded i key sv w) (\<lambda>(_, sv, w).
     rbind (lookupKey i key sv w) (\<lambda>(val, sv, w).
       Inr (val, if val = None then sv\<lparr>stat_keyspace_misses := stat_keyspace_misses sv + 1\<rparr>
                 else sv\<lparr>stat_keyspace_hits := stat_keyspace_hits sv + 1\<rparr>, w)))"

definition lookupKeyWrite :: "nat \<Rightarrow> nat \<Rightarrow> nat option dstep" where
  "lookupKeyWrite i key sv w = rbind (expireIfNeeded i key sv w) (\<lambda>(_, sv, w). lookupKey i key sv w)"

text \<open>\<open>g\<close> gives the bytes of fresh allocations.\<close>

definition dbAdd :: "(nat \<Rightarrow> char) \<Rightarrow> nat \<Rightarrow> nat \<Rightarrow> nat \<Rightarrow> unit dstep" where
  "dbAdd g i key val sv w =
     rbind (key_of w key) (\<lambda>k.
     rbind (obj_lift (sds_lift (sdsdup g (kname k)))) (\<lambda>s.
     let copy = \<lparr>home = Copied (next_copy sv), kname = s\<rparr>; sv = sv\<lparr>next_copy := next_copy sv + 1\<rparr> in
     rbind (on_dict i (\<lambda>T d. dictAdd T d copy val) sv w) (\<lambda>(retval, sv, w).
       if retval then Inr ((), sv, w) else Inl (DbObject Assertion))))"

definition dbOverwrite :: "nat \<Rightarrow> nat \<Rightarrow> nat \<Rightarrow> unit dstep" where
  "dbOverwrite i key val sv w =
     rbind (assert_present i key sv w) (\<lambda>(_, sv, w).
     rbind (key_of w key) (\<lambda>k.
     rbind (on_dict i (\<lambda>T d. dictReplace T d k val) sv w) (\<lambda>(_, sv, w). Inr ((), sv, w))))"

definition signalModifiedKey :: "nat \<Rightarrow> nat \<Rightarrow> unit dstep" where
  "signalModifiedKey i key sv w =
     rbind (obj_lift (touchWatchedKey i key (redisServer.truncate sv) w)) (\<lambda>clients.
       Inr ((), sv\<lparr>touched := touched sv @ clients\<rparr>, w))"

definition setKey :: "(nat \<Rightarrow> char) \<Rightarrow> nat \<Rightarrow> nat \<Rightarrow> nat \<Rightarrow> unit dstep" where
  "setKey g i key val sv w =
     rbind (lookupKeyWrite i key sv w) (\<lambda>(old, sv, w).
     rbind (if old = None then dbAdd g i key val sv w else dbOverwrite i key val sv w) (\<lambda>(_, sv, w).
     rbind (obj_lift (incrRefCount val (heap w))) (\<lambda>h.
     rbind (removeExpire i key sv (w\<lparr>heap := h\<rparr>)) (\<lambda>(_, sv, w). signalModifiedKey i key sv w))))"

definition dbExists :: "nat \<Rightarrow> nat \<Rightarrow> bool dstep" where
  "dbExists i key sv w = rbind (find_key i key sv w) (\<lambda>(de, sv, w). Inr (de \<noteq> None, sv, w))"

end
