(* ===== verification/Dict_Entries.thy ===== *)
theory Dict_Entries
  imports Dict_Map
begin

text \<open>
  The dictionary as a set of entries: what each operation does to the multiset of entries, to the page pool and to
  the values handed to the destructor. The map of the entries alone (\<open>Dict_Map\<close>) does not show which key pointers
  a dictionary keeps, nor which values it releases.
\<close>

section \<open>Destroyed values\<close>

fun destroyed :: "('k, 'v) event list \<Rightarrow> 'v option list" where
  "destroyed [] = []"
| "destroyed (ValDestroyed v # evs) = v # destroyed evs"
| "destroyed (KeyDestroyed k # evs) = destroyed evs"
| "destroyed (EntryFreed a # evs) = destroyed evs"
| "destroyed (TableFreed # evs) = destroyed evs"

lemma destroyed_append [simp]: "destroyed (xs @ ys) = destroyed xs @ destroyed ys"
  by (induction xs rule: destroyed.induct) auto

definition delete_values :: "('k, 'v) dictType \<Rightarrow> ('k, 'v) dictEntry \<Rightarrow> 'v option list" where
  "delete_values T e = (if valDestructor T then [de_val e] else [])"

lemma destroyed_FreeVal [simp]: "destroyed (dictFreeVal T e) = delete_values T e"
  by (simp add: dictFreeVal_def delete_values_def)

lemma destroyed_delete [simp]: "destroyed (delete_events T False e) = delete_values T e"
  by (simp add: delete_events_def dictFreeKey_def dictFreeVal_def delete_values_def)

lemma move_entries_events: "move_entries T c d = Inr d' \<Longrightarrow> events d' = events d"
  by (induction c arbitrary: d) (auto simp: rbind_eq_Inr Let_def)

lemma rehash_if_destroyed: "rehash_if T d = Inr d' \<Longrightarrow> destroyed (events d') = destroyed (events d)"
  by (auto simp: rehash_if_def dictRehashStep_def dictRehash_def rehash_round_def rbind_eq_Inr One_nat_def
      dest!: move_entries_events split: if_splits)

lemma dictExpand_events: "events (fst (dictExpand d sz)) = events d"
  by (simp add: dictExpand_def Let_def)

lemma dictExpandIfNeeded_events: "dictExpandIfNeeded d = (d', ok) \<Longrightarrow> events d' = events d"
  using dictExpand_events [of d] by (auto simp: dictExpandIfNeeded_def split: if_splits) (metis fst_conv)+

lemma dictKeyIndex_events: "dictKeyIndex T d key = Inr (d', i) \<Longrightarrow> events d' = events d"
  by (auto simp: dictKeyIndex_def rbind_eq_Inr split: prod.splits option.splits if_splits dest!: dictExpandIfNeeded_events)

lemma dictFind_destroyed: "dictFind T d key = Inr (d', he) \<Longrightarrow> destroyed (events d') = destroyed (events d)"
  by (auto simp: dictFind_def rbind_eq_Inr split: if_splits dest!: rehash_if_destroyed)

lemma dictAddRaw_destroyed: "dictAddRaw T d key = Inr (d', he) \<Longrightarrow> destroyed (events d') = destroyed (events d)"
proof -
  assume "dictAddRaw T d key = Inr (d', he)"
  then obtain d1 d2 i where r: "rehash_if T d = Inr d1" "dictKeyIndex T d1 key = Inr (d2, i)"
    and rest: "events d' = events d2"
    unfolding dictAddRaw_def rbind_eq_Inr
    by (fastforce simp: rbind_eq_Inr Let_def split: option.splits sum.splits if_splits)
  show ?thesis using rehash_if_destroyed [OF r(1)] dictKeyIndex_events [OF r(2)] rest by simp
qed

lemma dictSetVal_sel [simp]: "events (dictSetVal T a v d) = events d" "pool (dictSetVal T a v d) = pool d"
  "dict_can_resize (dictSetVal T a v d) = dict_can_resize d"
  by (simp_all add: dictSetVal_def Let_def)

section \<open>The operations on entries\<close>

text \<open>\<open>becomes T d d' es vs ag\<close>: a well-formed dictionary with the entries \<open>es\<close>, after the values \<open>vs\<close> have been destroyed.\<close>

definition becomes :: "('k, 'v) dictType \<Rightarrow> ('k, 'v) dict \<Rightarrow> ('k, 'v) dict \<Rightarrow> ('k, 'v) dictEntry multiset \<Rightarrow>
    'v option list \<Rightarrow> agg \<Rightarrow> bool" where
  "becomes T d d' es vs ag \<longleftrightarrow> dict_ok T d' \<and> mset (entries d') = es \<and> destroyed (events d') = destroyed (events d) @ vs \<and> pool d' = ag"

abbreviation ents :: "('k, 'v) dict \<Rightarrow> ('k, 'v) dictEntry multiset" where
  "ents d \<equiv> mset (entries d)"

lemma dictFind_becomes:
  assumes "type_ok T" and "dict_ok T d"
  shows "\<exists>d'. dictFind T d key = Inr (d', lookup T d key) \<and> becomes T d d' (ents d) [] (pool d)"
  using dictFind_ok [OF assms, of key] dictFind_destroyed [of T d key]
  unfolding becomes_def same_entries_def by fastforce

text \<open>\<open>gets_entry\<close>: the pool gives the address \<open>a\<close>, which no entry has, and there is room for one more entry.\<close>

definition gets_entry :: "('k, 'v) dict \<Rightarrow> addr \<Rightarrow> agg \<Rightarrow> bool" where
  "gets_entry d a ag \<longleftrightarrow> pool_gives d a ag \<and> length (entries d) + 1 < DICT_LIMIT"

lemma dictAddRaw_becomes:
  assumes "type_ok T" and "dict_ok T d" and "lookup T d key = None" and "gets_entry d a ag"
  shows "\<exists>d'. dictAddRaw T d key = Inr (d', Some (new_entry T a key)) \<and>
    becomes T d d' (add_mset (new_entry T a key) (ents d)) [] ag"
  using dictAddRaw_new [OF assms(1-3), of a ag] dictAddRaw_destroyed [of T d key] assms(4)
  unfolding becomes_def gets_entry_def by fastforce

lemma put_val_other: "a \<notin> de_addr ` set es \<Longrightarrow> map (put_val T a v) es = es"
  by (induction es) (auto simp: put_val_def)

text \<open>A store through the address of one entry.\<close>

lemma dictSetVal_becomes:
  assumes "becomes T d d1 (add_mset e (mset es)) vs ag" and "de_addr e = a" and "a \<notin> de_addr ` set es"
  shows "becomes T d (dictSetVal T a v d1) (add_mset (e\<lparr>de_val := Some (dup_val T v)\<rparr>) (mset es)) vs ag"
proof -
  have "mset (entries (dictSetVal T a v d1)) = image_mset (put_val T a v) (ents d1)" by (simp add: entries_SetVal)
  also have "\<dots> = add_mset (put_val T a v e) (mset (map (put_val T a v) es))" using assms(1) by (simp add: becomes_def)
  finally show ?thesis
    using assms dictSetVal_ok [of T d1 a v] by (simp add: becomes_def put_val_other put_val_def)
qed

lemma dictAdd_becomes:
  assumes "type_ok T" and "dict_ok T d" and "lookup T d key = None" and "gets_entry d a ag"
  shows "\<exists>d'. dictAdd T d key val = Inr (d', True) \<and>
    becomes T d d' (add_mset \<lparr>de_addr = a, de_key = dup_key T key, de_val = Some (dup_val T val)\<rparr> (ents d)) [] ag"
proof -
  obtain d1 where 1: "dictAddRaw T d key = Inr (d1, Some (new_entry T a key))"
    "becomes T d d1 (add_mset (new_entry T a key) (ents d)) [] ag"
    using dictAddRaw_becomes [OF assms] by blast
  have "a \<notin> de_addr ` set (entries d)" using assms(4) by (simp add: gets_entry_def pool_gives_def)
  from dictSetVal_becomes [OF 1(2) _ this, of val] 1(1) show ?thesis by (simp add: dictAdd_def)
qed

text \<open>The entry a lookup gives is one of the entries, and the only one at its address.\<close>

lemma lookup_entry:
  assumes "dict_ok T d" and "lookup T d key = Some e"
  obtains es where "ents d = add_mset e (mset es)" "de_addr e \<notin> de_addr ` set es" "has_key T key e"
proof -
  have e: "e \<in> set (entries d)" "has_key T key e" using assms(2) by (auto simp: lookup_def find_Some_iff)
  from split_list [OF e(1)] obtain xs ys where s: "entries d = xs @ e # ys" by blast
  have "distinct (map de_addr (entries d))" using dict_ok_uniq [OF assms(1)] by (simp add: uniq_def)
  then have "de_addr e \<notin> de_addr ` set (xs @ ys)" unfolding s by auto
  then show thesis using that [of "xs @ ys"] e(2) s by simp
qed

lemma lookup_becomes:
  assumes "type_ok T" and "dict_ok T d" and "becomes T d d' (ents d) vs ag"
  shows "lookup T d' = lookup T d"
proof
  fix k
  have "set (entries d') = set (entries d)" using assms(3) unfolding becomes_def by (metis set_mset_mset)
  then show "lookup T d' k = lookup T d k"
    using assms unfolding becomes_def lookup_def by (intro find_cong_set dict_ok_uniq) auto
qed

lemma becomes_trans:
  "becomes T d d1 es vs ag \<Longrightarrow> becomes T d1 d2 es' vs' ag' \<Longrightarrow> becomes T d d2 es' (vs @ vs') ag'"
  by (simp add: becomes_def)

lemma dictReplace_becomes:
  assumes "type_ok T" and "dict_ok T d" and "lookup T d key = Some e"
  shows "\<exists>d'. dictReplace T d key val = Inr (d', False) \<and>
    becomes T d d' (add_mset (e\<lparr>de_val := Some (dup_val T val)\<rparr>) (ents d - {#e#})) (delete_values T e) (pool d)"
proof -
  obtain d1 where 1: "dictAddRaw T d key = Inr (d1, None)" "dict_ok T d1" "same_entries d d1"
    using dictAddRaw_exists [OF assms(1,2)] assms(3) by auto
  have b1: "becomes T d d1 (ents d) [] (pool d)"
    using 1 dictAddRaw_destroyed [OF 1(1)] by (simp add: becomes_def same_entries_def)
  have l1: "lookup T d1 key = Some e" using lookup_becomes [OF assms(1,2) b1] assms(3) by simp
  obtain d2 where 2: "dictFind T d1 key = Inr (d2, Some e)" "becomes T d1 d2 (ents d1) [] (pool d1)"
    using dictFind_becomes [OF assms(1) 1(2), of key] l1 by auto
  obtain es where es: "ents d = add_mset e (mset es)" "de_addr e \<notin> de_addr ` set es" using lookup_entry [OF assms(2,3)] .
  have "becomes T d d2 (add_mset e (mset es)) [] (pool d)"
    using becomes_trans [OF b1 2(2)] b1 es(1) by (simp add: becomes_def)
  from dictSetVal_becomes [OF this refl es(2), of val] show ?thesis
    using 1(1) 2(1) es(1) by (auto simp: dictReplace_def dictAdd_def Let_def becomes_def)
qed

lemma dictDelete_becomes:
  assumes "type_ok T" and "dict_ok T d"
  shows "\<exists>d'. dictDelete T d key = Inr (d', lookup T d key \<noteq> None) \<and>
    (case lookup T d key of None \<Rightarrow> becomes T d d' (ents d) [] (pool d)
     | Some e \<Rightarrow> becomes T d d' (ents d - {#e#}) (delete_values T e) (pool d))"
proof (cases "ht_size (ht0 d) = 0")
  case True
  then have "lookup T d key = None" using size_zero_empty [OF assms(2)] by (simp add: lookup_def)
  then show ?thesis using True assms(2) by (simp add: dictDelete_def dictGenericDelete_body becomes_def)
next
  case False
  obtain d1 where 1: "rehash_if T d = Inr d1" "dict_ok T d1" "same_entries d d1" using rehash_if_ok [OF assms] by blast
  have sz: "ht_size (ht0 d1) \<noteq> 0" using 1(3) False by (simp add: same_entries_def)
  have lk: "lookup T d1 key = lookup T d key" using lookup_same [OF assms 1(3)] .
  obtain d2 where 2: "delete_body T d1 key False = Inr (d2, lookup T d1 key \<noteq> None)" "dict_ok T d2"
    "case lookup T d1 key of None \<Rightarrow> d2 = d1
     | Some e \<Rightarrow> mset (entries d1) = add_mset e (mset (entries d2)) \<and> has_key T key e \<and>
         events d2 = events d1 @ delete_events T False e"
    using delete_body_ok [OF assms(1) 1(2) sz, of key False] by blast
  have "pool d2 = pool d1"
    using 2(1) by (auto simp: delete_body_def Let_def rbind_eq_Inr split: option.splits if_splits)
  moreover have "ents d2 = ents d - {#e#}" if "lookup T d key = Some e" for e
    using 1(3) 2(3) lk that by (simp add: same_entries_def)
  ultimately show ?thesis
    using 1 2 False lk rehash_if_destroyed [OF 1(1)]
    by (simp add: dictDelete_def dictGenericDelete_body becomes_def same_entries_def split: option.splits)
qed

lemma dictSize_count:
  assumes "dict_ok T d"
  shows "dictSize d = int (length (entries d))"
proof -
  have "used (ht0 d) + used (ht1 d) = int (length (entries d))"
    using assms by (auto simp: dict_ok_def tab_def entries_def chains_def dictReset_def split: if_splits)
  then show ?thesis using assms by (simp add: dictSize_def dict_ok_def DICT_LIMIT_def cint)
qed

lemma dictEmpty_pool [simp]: "pool (dictEmpty T d) = pool d"
  by (simp add: dictEmpty_def dictClear_def)

end
