(* ===== verification/Keyspace_State.thy ===== *)
theory Keyspace_State
  imports Keyspace Dict_Entries Watch
begin

text \<open>
  The invariant of the databases and their abstraction: every database is a map from strings to the string of the value
  and an optional expire time. The invariant counts the reference every entry holds on its value, keeps the copies of the
  keys apart, and says that the dictionary of expire times holds only keys that are alive in the main dictionary.
\<close>

section \<open>Keys\<close>

lemma db_type_ok: "type_ok (dbDictType seed)" "type_ok (keyptrDictType seed)"
  by (auto simp: type_ok_def dictCompareKeys_def dbDictType_def keyptrDictType_def dictSdsKeyCompare_def Let_def dictSdsHash_def dup_key_def)

lemma key_bytes_sds: "sds_ok (kname k) \<Longrightarrow> key_bytes k = sds_str (kname k)"
  by (auto simp: key_bytes_def sds_str_def sdslen_def sds_ok_def cint)

lemma db_has_key:
  assumes "sds_ok (kname k)" and "sds_ok (kname (de_key e))"
  shows "has_key (dbDictType seed) k e \<longleftrightarrow> key_bytes (de_key e) = key_bytes k"
    and "has_key (keyptrDictType seed) k e' \<longleftrightarrow> dictSdsKeyCompare k (de_key e')"
proof -
  have "dictSdsKeyCompare k (de_key e) \<longleftrightarrow> key_bytes (de_key e) = key_bytes k"
    using assms key_bytes_sds [of k] key_bytes_sds [of "de_key e"]
    by (auto simp: dictSdsKeyCompare_def sdslen_def sds_ok_def sds_str_def cint dest: arg_cong [of _ _ length])
  then show "has_key (dbDictType seed) k e \<longleftrightarrow> key_bytes (de_key e) = key_bytes k"
    by (simp add: has_key_def dictCompareKeys_def dbDictType_def)
qed (simp add: has_key_def dictCompareKeys_def keyptrDictType_def)

lemma compare_bytes: "sds_ok (kname k) \<Longrightarrow> sds_ok (kname k') \<Longrightarrow> dictSdsKeyCompare k k' \<longleftrightarrow> key_bytes k' = key_bytes k"
  using db_has_key(1) [of k "\<lparr>de_addr = 0, de_key = k', de_val = None\<rparr>"] by (simp add: has_key_def dictCompareKeys_def dbDictType_def)

text \<open>The entry of a string in a list of entries.\<close>

definition kfind :: "(dbkey, 'v) dictEntry list \<Rightarrow> char list \<Rightarrow> (dbkey, 'v) dictEntry option" where
  "kfind es t = find (\<lambda>e. key_bytes (de_key e) = t) es"

definition names_ok :: "(dbkey, 'v) dictEntry list \<Rightarrow> bool" where
  "names_ok es \<longleftrightarrow> (\<forall>e\<in>set es. sds_ok (kname (de_key e)))"

definition kuniq :: "(dbkey, 'v) dictEntry list \<Rightarrow> bool" where
  "kuniq es \<longleftrightarrow> distinct es \<and> (\<forall>e\<in>set es. \<forall>e'\<in>set es. key_bytes (de_key e) = key_bytes (de_key e') \<longrightarrow> e = e')"

lemma kfind_iff:
  assumes u: "kuniq es"
  shows "kfind es t = Some e \<longleftrightarrow> e \<in> set es \<and> key_bytes (de_key e) = t"
proof
  show "kfind es t = Some e \<Longrightarrow> e \<in> set es \<and> key_bytes (de_key e) = t"
    by (auto simp: kfind_def find_Some_iff)
  assume e: "e \<in> set es \<and> key_bytes (de_key e) = t"
  then have "kfind es t \<noteq> None" by (auto simp: kfind_def find_None_iff)
  then obtain x where x: "kfind es t = Some x" by blast
  then have "x \<in> set es" "key_bytes (de_key x) = t" by (auto simp: kfind_def find_Some_iff)
  with e u x show "kfind es t = Some e" by (auto simp: kuniq_def)
qed

lemma kfind_None: "kfind es t = None \<longleftrightarrow> (\<forall>e\<in>set es. key_bytes (de_key e) \<noteq> t)"
  by (auto simp: kfind_def find_None_iff)

lemma kuniq_mset: "mset es' = mset es \<Longrightarrow> kuniq es' = kuniq es"
  using mset_eq_imp_distinct_iff mset_eq_setD unfolding kuniq_def by metis

lemma kfind_mset:
  assumes "kuniq es" and "mset es' = mset es"
  shows "kfind es' = kfind es"
proof
  fix t
  have "kfind es' t = Some e \<longleftrightarrow> kfind es t = Some e" for e
    using assms kuniq_mset [OF assms(2)] mset_eq_setD [OF assms(2)] by (simp add: kfind_iff)
  then show "kfind es' t = kfind es t" by (metis not_None_eq)
qed

lemma kfind_add:
  assumes "kuniq es'" and "mset es' = add_mset e (mset es)"
  shows "kfind es' = (kfind es)(key_bytes (de_key e) \<mapsto> e)" and "kfind es (key_bytes (de_key e)) = None" and "kuniq es"
proof -
  have m: "mset es' = mset (e # es)" using assms(2) by simp
  have u: "kuniq (e # es)" using kuniq_mset [OF m] assms(1) by simp
  then show "kuniq es" by (simp add: kuniq_def)
  show "kfind es (key_bytes (de_key e)) = None" using u by (auto simp: kfind_None kuniq_def)
  show "kfind es' = (kfind es)(key_bytes (de_key e) \<mapsto> e)"
    unfolding kfind_mset [OF u m] by (auto simp: kfind_def fun_eq_iff)
qed

lemma kfind_del:
  assumes "kuniq es" and "e \<in> set es" and "mset es' = mset es - {#e#}"
  shows "kfind es' = (kfind es)(key_bytes (de_key e) := None)" and "kuniq es'"
proof -
  have m: "mset es = add_mset e (mset es')" using assms(2,3) by simp
  note add = kfind_add [OF assms(1) m]
  then show "kfind es' = (kfind es)(key_bytes (de_key e) := None)" by (auto simp: fun_eq_iff)
  show "kuniq es'" using add(3) .
qed

lemma lookup_kfind:
  assumes "names_ok (entries d)" and "sds_ok (kname k)"
  shows "T = dbDictType seed \<Longrightarrow> lookup T d k = kfind (entries d) (key_bytes k)"
  unfolding lookup_def kfind_def
  using assms(1) by (auto intro!: find_cong simp: names_ok_def db_has_key(1) [OF assms(2)])

lemma lookup_kfind_exp:
  assumes "names_ok (entries d)" and "sds_ok (kname k)"
  shows "lookup (keyptrDictType seed) d k = kfind (entries d) (key_bytes k)"
  unfolding lookup_def kfind_def
  using assms(1) by (auto intro!: find_cong simp: names_ok_def has_key_def dictCompareKeys_def keyptrDictType_def compare_bytes [OF assms(2)])

lemma uniq_kuniq:
  assumes "uniq T es" and "\<And>a b. sds_ok (kname a) \<Longrightarrow> sds_ok (kname b) \<Longrightarrow> key_bytes a = key_bytes b \<Longrightarrow> dictCompareKeys T a b"
    and "names_ok es"
  shows "kuniq es"
  using assms unfolding uniq_def kuniq_def names_ok_def by (auto simp: distinct_map)

lemma db_kuniq:
  "uniq (dbDictType seed) es \<Longrightarrow> names_ok es \<Longrightarrow> kuniq es"
  "uniq (keyptrDictType seed) es' \<Longrightarrow> names_ok es' \<Longrightarrow> kuniq es'"
  by (erule uniq_kuniq; simp add: dictCompareKeys_def dbDictType_def keyptrDictType_def compare_bytes)+

section \<open>The invariant\<close>

definition all_entries :: "keyspace_server \<Rightarrow> (dbkey, nat) dictEntry list" where
  "all_entries sv = concat (map (\<lambda>db. entries (db_dict db)) (dbs sv))"

definition entry_obj :: "(dbkey, nat) dictEntry \<Rightarrow> nat" where
  "entry_obj e = the (de_val e)"

definition vals :: "keyspace_server \<Rightarrow> nat list" where
  "vals sv = map entry_obj (all_entries sv)"

definition redis_db_ok :: "u32 \<Rightarrow> redisDb \<Rightarrow> bool" where
  "redis_db_ok seed db \<longleftrightarrow> dict_ok (dbDictType seed) (db_dict db) \<and> dict_ok (keyptrDictType seed) (db_expires db) \<and>
     names_ok (entries (db_dict db)) \<and> (\<forall>e\<in>set (entries (db_dict db)). de_val e \<noteq> None) \<and>
     (\<forall>x\<in>set (entries (db_expires db)). de_val x \<noteq> None \<and> de_key x \<in> de_key ` set (entries (db_dict db)))"

definition copies_ok :: "keyspace_server \<Rightarrow> bool" where
  "copies_ok sv \<longleftrightarrow> distinct (map (home \<circ> de_key) (all_entries sv)) \<and>
     (\<forall>e\<in>set (all_entries sv). \<exists>n<next_copy sv. home (de_key e) = Copied n)"

text \<open>\<open>base\<close> are the references of the rest of the program, \<open>del_obj\<close> and the watched keys among them; \<open>held\<close> are those of
  the command that runs.\<close>

definition base_ok :: "nat list \<Rightarrow> keyspace_server \<Rightarrow> nworld \<Rightarrow> bool" where
  "base_ok base sv w \<longleftrightarrow> del_obj (shared w) \<in> set base \<and> length (db_watched sv) = length (dbs sv) \<and>
     (\<forall>d<length (dbs sv). Watch.db_ok (heap w) (db_watched sv ! d) \<and> set (map fst (db_watched sv ! d)) \<subseteq> set base)"

definition dbs_ok :: "keyspace_server \<Rightarrow> bool" where
  "dbs_ok sv \<longleftrightarrow> (\<forall>db\<in>set (dbs sv). redis_db_ok (hash_seed sv) db) \<and> copies_ok sv"

text \<open>References the command holds are fewer than half of those a reference count allows.\<close>

definition HELD_LIMIT :: nat where "HELD_LIMIT = 2 ^ 29"

definition ks_ok :: "nat list \<Rightarrow> nat list \<Rightarrow> keyspace_server \<Rightarrow> nworld \<Rightarrow> bool" where
  "ks_ok base held sv w \<longleftrightarrow> dbs_ok sv \<and> base_ok base sv w \<and> store_ok (heap w) (base @ held @ vals sv) \<and>
     (\<forall>a\<in>set (vals sv). solid (heap w) a) \<and> length (base @ held) \<le> HELD_LIMIT"

text \<open>The page pool gives \<open>n\<close> more entries, at addresses outside \<open>A\<close>.\<close>

fun pool_room :: "nat \<Rightarrow> agg \<Rightarrow> addr set \<Rightarrow> bool" where
  "pool_room 0 ag A = True"
| "pool_room (Suc n) ag A = (\<exists>a ag'. alloc_entry_random sizeof_dictEntry ag = Inr (a, ag') \<and> a \<notin> A \<and> pool_room n ag' (insert a A))"

definition db_addrs :: "redisDb \<Rightarrow> addr set" where
  "db_addrs db = de_addr ` set (entries (db_dict db)) \<union> de_addr ` set (entries (db_expires db))"

definition KEY_LIMIT :: nat where "KEY_LIMIT = 2 ^ 27"

definition ks_room :: "nat \<Rightarrow> keyspace_server \<Rightarrow> bool" where
  "ks_room n sv \<longleftrightarrow> pool_room n (page_pool sv) (\<Union> (db_addrs ` set (dbs sv))) \<and> length (vals sv) + n \<le> KEY_LIMIT \<and>
     (\<forall>db\<in>set (dbs sv). length (entries (db_expires db)) + n \<le> KEY_LIMIT)"

section \<open>The abstraction\<close>

text \<open>\<open>keys i t\<close>: the string of the value of key \<open>t\<close> in database \<open>i\<close>, and its expire time.\<close>

record kstate =
  keys :: "nat \<Rightarrow> char list \<Rightarrow> (char list \<times> int option) option"
  reads :: nat                    \<comment> \<open>how often the clock has been read\<close>
  flagged :: "nat list"
  fed :: "server_event list"
  hits :: int
  misses :: int
  expired :: int

definition db_view :: "ostore \<Rightarrow> redisDb \<Rightarrow> char list \<Rightarrow> (char list \<times> int option) option" where
  "db_view h db t = (case kfind (entries (db_dict db)) t of None \<Rightarrow> None
     | Some e \<Rightarrow> Some (text_at h (entry_obj e), Option.bind (kfind (entries (db_expires db)) t) de_val))"

definition ks_abs :: "keyspace_server \<Rightarrow> nworld \<Rightarrow> kstate" where
  "ks_abs sv w = \<lparr>keys = (\<lambda>i t. if i < length (dbs sv) then db_view (heap w) (dbs sv ! i) t else None),
     reads = ticks sv, flagged = touched sv, fed = redisServer.events sv,
     hits = stat_keyspace_hits sv, misses = stat_keyspace_misses sv, expired = stat_expiredkeys sv\<rparr>"

text \<open>The parts no operation of the keyspace changes.\<close>

definition fixed :: "keyspace_server \<Rightarrow> keyspace_server" where
  "fixed sv = sv\<lparr>dbs := [], page_pool := undefined, next_copy := 0, stat_keyspace_hits := 0, stat_keyspace_misses := 0,
     stat_expiredkeys := 0, touched := [], ticks := 0, redisServer.events := [], dirty := 0\<rparr>"

definition kframe :: "nat list \<Rightarrow> keyspace_server \<Rightarrow> nworld \<Rightarrow> keyspace_server \<Rightarrow> nworld \<Rightarrow> bool" where
  "kframe A sv w sv' w' \<longleftrightarrow> fixed sv' = fixed sv \<and> dirty sv' = dirty sv \<and> length (dbs sv') = length (dbs sv) \<and> same (heap w) (heap w') (set A) \<and>
     w' = w\<lparr>heap := heap w'\<rparr> \<and> shared_integers (heap w') = shared_integers (heap w) \<and> maxmemory (heap w') = maxmemory (heap w)"

definition kstep :: "nat \<Rightarrow> nat list \<Rightarrow> nat list \<Rightarrow> keyspace_server \<Rightarrow> nworld \<Rightarrow> keyspace_server \<Rightarrow> nworld \<Rightarrow> kstate \<Rightarrow> bool" where
  "kstep k base held sv w sv' w' s \<longleftrightarrow> ks_ok base held sv' w' \<and> kframe (base @ held) sv w sv' w' \<and> ks_abs sv' w' = s \<and>
     (\<forall>n. ks_room (n + k) sv \<longrightarrow> ks_room n sv')"

lemma kframe_refl [simp]: "kframe A sv w sv w"
  by (simp add: kframe_def)

lemma kframe_trans: "kframe A sv w sv1 w1 \<Longrightarrow> kframe A sv1 w1 sv2 w2 \<Longrightarrow> kframe A sv w sv2 w2"
  by (auto simp: kframe_def same_def) (metis nworld.update_convs(1) nworld.select_convs(1) nworld.surjective)

lemma kframe_mono: "kframe A sv w sv' w' \<Longrightarrow> set B \<subseteq> set A \<Longrightarrow> kframe B sv w sv' w'"
  by (auto simp: kframe_def same_def)

lemma kstep_trans:
  "kstep k base held sv w sv1 w1 s1 \<Longrightarrow> kstep k' base held sv1 w1 sv2 w2 s2 \<Longrightarrow> kstep (k + k') base held sv w sv2 w2 s2"
  unfolding kstep_def using kframe_trans by (metis add.assoc add.commute)

lemma fixed_sel:
  assumes "fixed sv' = fixed sv"
  shows "loading sv' = loading sv" "is_slave sv' = is_slave sv" "aof_on sv' = aof_on sv" "slaves sv' = slaves sv" "times sv' = times sv"
    "hash_seed sv' = hash_seed sv" "child_active sv' = child_active sv" "del_command sv' = del_command sv" "db_watched sv' = db_watched sv"
    "can_resize sv' = can_resize sv" "redisServer.truncate sv' = (redisServer.truncate sv)\<lparr>ticks := ticks sv', redisServer.events := redisServer.events sv', dirty := dirty sv'\<rparr>"
  using arg_cong [OF assms, of loading] arg_cong [OF assms, of is_slave] arg_cong [OF assms, of aof_on] arg_cong [OF assms, of slaves]
    arg_cong [OF assms, of times] arg_cong [OF assms, of hash_seed] arg_cong [OF assms, of child_active] arg_cong [OF assms, of del_command]
    arg_cong [OF assms, of db_watched] arg_cong [OF assms, of can_resize]
    arg_cong [OF assms, of "\<lambda>x. (redisServer.truncate x)\<lparr>ticks := ticks sv', redisServer.events := redisServer.events sv', dirty := dirty sv'\<rparr>"]
  by (simp_all add: fixed_def redisServer.truncate_def)

section \<open>Steps that only move entries\<close>

lemma dict_upd_simps [simp]:
  "entries (d\<lparr>dict_can_resize := b\<rparr>) = entries d" "dict_ok T (d\<lparr>dict_can_resize := b\<rparr>) = dict_ok T d"
  "lookup T (d\<lparr>dict_can_resize := b\<rparr>) k = lookup T d k"
  by (simp_all add: entries_def dict_ok_def dictIsRehashing_def lookup_def)

lemma redis_db_kuniq:
  assumes "redis_db_ok seed db"
  shows "kuniq (entries (db_dict db))" "kuniq (entries (db_expires db))" "names_ok (entries (db_expires db))"
proof -
  show n: "names_ok (entries (db_expires db))" using assms by (fastforce simp: redis_db_ok_def names_ok_def)
  show "kuniq (entries (db_dict db))" "kuniq (entries (db_expires db))"
    using assms db_kuniq [of seed] n dict_ok_uniq unfolding redis_db_ok_def by blast+
qed

definition db_eq :: "u32 \<Rightarrow> redisDb \<Rightarrow> redisDb \<Rightarrow> bool" where
  "db_eq seed db db' \<longleftrightarrow> ents (db_dict db') = ents (db_dict db) \<and> ents (db_expires db') = ents (db_expires db) \<and>
     dict_ok (dbDictType seed) (db_dict db') \<and> dict_ok (keyptrDictType seed) (db_expires db')"

lemma db_eq_props:
  assumes "redis_db_ok seed db" and "db_eq seed db db'"
  shows "redis_db_ok seed db'" "db_view h db' = db_view h db" "db_addrs db' = db_addrs db"
proof -
  have s: "set (entries (db_dict db')) = set (entries (db_dict db))" "set (entries (db_expires db')) = set (entries (db_expires db))"
    using assms(2) by (auto simp: db_eq_def dest: mset_eq_setD)
  show "redis_db_ok seed db'" using assms s by (simp add: redis_db_ok_def db_eq_def names_ok_def)
  show "db_view h db' = db_view h db"
    using kfind_mset [OF redis_db_kuniq(1) [OF assms(1)], of "entries (db_dict db')"]
      kfind_mset [OF redis_db_kuniq(2) [OF assms(1)], of "entries (db_expires db')"] assms(2) by (simp add: db_view_def fun_eq_iff db_eq_def split: option.split)
  show "db_addrs db' = db_addrs db" using s by (simp add: db_addrs_def)
qed

lemma ks_ok_store_mset: "mset (vals sv') = mset (vals sv) \<Longrightarrow> store_ok h (A @ held @ vals sv) \<Longrightarrow> store_ok h (A @ held @ vals sv')"
  using store_ok_mset [of "A @ held @ vals sv" "A @ held @ vals sv'"] by simp

lemma same_dbs:
  assumes "ks_ok base held sv w" and "length L = length (dbs sv)"
    and eq: "\<And>i. i < length L \<Longrightarrow> db_eq (hash_seed sv) (dbs sv ! i) (L ! i)" and sv': "sv' = sv\<lparr>dbs := L, page_pool := page_pool sv\<rparr>"
  shows "kstep 0 base held sv w sv' w (ks_abs sv w)"
proof -
  have old: "redis_db_ok (hash_seed sv) (dbs sv ! i)" if "i < length L" for i
    using assms(1,2) that by (simp add: ks_ok_def dbs_ok_def)
  note eqp = db_eq_props [OF old eq]
  have "map (\<lambda>db. ents (db_dict db)) L = map (\<lambda>db. ents (db_dict db)) (dbs sv)"
    using assms(2) eq by (auto simp: list_eq_iff_nth_eq db_eq_def)
  then have m: "mset (all_entries sv') = mset (all_entries sv)"
    by (simp add: all_entries_def sv' mset_concat comp_def)
  then have v: "mset (vals sv') = mset (vals sv)" by (simp add: vals_def)
  have "mset (map (home \<circ> de_key) (all_entries sv')) = mset (map (home \<circ> de_key) (all_entries sv))" using m by simp
  then have d: "distinct (map (home \<circ> de_key) (all_entries sv')) = distinct (map (home \<circ> de_key) (all_entries sv))"
    by (rule mset_eq_imp_distinct_iff)
  have all: "\<forall>db\<in>set L. redis_db_ok (hash_seed sv) db" using eqp(1) by (auto simp: in_set_conv_nth)
  have ok: "ks_ok base held sv' w"
    using assms(1,2) m v d all mset_eq_setD [OF m] mset_eq_setD [OF v] ks_ok_store_mset [OF v]
    unfolding ks_ok_def dbs_ok_def copies_ok_def base_ok_def by (simp add: sv')
  have "map db_addrs L = map db_addrs (dbs sv)" "map (\<lambda>db. length (entries (db_expires db))) L = map (\<lambda>db. length (entries (db_expires db))) (dbs sv)"
    using assms(2) eqp(3) eq by (auto simp: list_eq_iff_nth_eq db_eq_def dest: mset_eq_length)
  then have "db_addrs ` set L = db_addrs ` set (dbs sv)"
    "(\<lambda>db. length (entries (db_expires db))) ` set L = (\<lambda>db. length (entries (db_expires db))) ` set (dbs sv)" by (metis set_map)+
  then have r: "ks_room n sv' = ks_room n sv" for n
    using mset_eq_length [OF v] unfolding ks_room_def by (simp add: sv') (metis (mono_tags, lifting) image_iff)
  have "ks_abs sv' w = ks_abs sv w"
    using assms(2) eqp(2) by (auto simp: ks_abs_def sv' fun_eq_iff)
  then show ?thesis using ok r assms(2) by (simp add: kstep_def kframe_def sv' fixed_def)
qed

end
