(* ===== verification/Keyspace_Steps.thy ===== *)
theory Keyspace_Steps
  imports Keyspace_State
begin

text \<open>
  The calls on the dictionaries of a database as steps of the abstract keyspace: a lookup changes nothing, adding,
  replacing and deleting an entry of the main dictionary moves one reference, and so on.
\<close>

lemma db_type_simps [simp]:
  "dup_key (dbDictType seed) k = k" "dup_val (dbDictType seed) v = v" "dup_key (keyptrDictType seed) k = k" "dup_val (keyptrDictType seed) t = t"
  "delete_values (dbDictType seed) e = [de_val e]" "delete_values (keyptrDictType seed) x = []"
  by (simp_all add: dbDictType_def keyptrDictType_def dup_key_def dup_val_def delete_values_def)

section \<open>Lookups\<close>

definition mkey :: "keyspace_server \<Rightarrow> nat \<Rightarrow> char list \<Rightarrow> (dbkey, nat) dictEntry option" where
  "mkey sv i = kfind (entries (db_dict (dbs sv ! i)))"

definition xkey :: "keyspace_server \<Rightarrow> nat \<Rightarrow> char list \<Rightarrow> (dbkey, int) dictEntry option" where
  "xkey sv i = kfind (entries (db_expires (dbs sv ! i)))"

text \<open>Nothing but the places of the entries has changed.\<close>

definition kquiet :: "nat list \<Rightarrow> nat list \<Rightarrow> keyspace_server \<Rightarrow> nworld \<Rightarrow> keyspace_server \<Rightarrow> bool" where
  "kquiet base held sv w sv' \<longleftrightarrow> kstep 0 base held sv w sv' w (ks_abs sv w) \<and> next_copy sv' = next_copy sv \<and>
     (\<forall>i<length (dbs sv). mkey sv' i = mkey sv i \<and> xkey sv' i = xkey sv i)"

lemma kquiet_trans: "kquiet base held sv w sv1 \<Longrightarrow> kquiet base held sv1 w sv2 \<Longrightarrow> kquiet base held sv w sv2"
  using kstep_trans [of 0 base held sv w sv1 w "ks_abs sv w" 0 sv2 w "ks_abs sv1 w"]
  by (auto simp: kquiet_def kstep_def kframe_def)

lemma kstep_refl: "ks_ok base held sv w \<Longrightarrow> kstep 0 base held sv w sv w (ks_abs sv w)"
  by (simp add: kstep_def)

lemma kquiet_refl: "ks_ok base held sv w \<Longrightarrow> kquiet base held sv w sv"
  by (simp add: kquiet_def kstep_refl)

lemma kquiet_ok: "kquiet base held sv w sv' \<Longrightarrow> ks_ok base held sv' w \<and> ks_abs sv' w = ks_abs sv w \<and> length (dbs sv') = length (dbs sv) \<and>
    fixed sv' = fixed sv \<and> (ks_room n sv \<longrightarrow> ks_room n sv')"
  by (auto simp: kquiet_def kstep_def kframe_def)

lemma kquiet_step: "kquiet base held sv w sv1 \<Longrightarrow> kstep k base held sv1 w sv2 w2 s \<Longrightarrow> kstep k base held sv w sv2 w2 s"
  using kstep_trans [of 0 base held sv w sv1 w "ks_abs sv w" k sv2 w2 s] by (simp add: kquiet_def)

lemma quiet_dbs:
  assumes "ks_ok base held sv w" and "i < length (dbs sv)" and "db_eq (hash_seed sv) (dbs sv ! i) db"
    and sv': "sv' = sv\<lparr>dbs := (dbs sv)[i := db], page_pool := page_pool sv\<rparr>"
  shows "kquiet base held sv w sv'"
proof -
  have o: "redis_db_ok (hash_seed sv) (dbs sv ! j)" if "j < length (dbs sv)" for j
    using assms(1) that by (simp add: ks_ok_def dbs_ok_def)
  have refl: "db_eq (hash_seed sv) (dbs sv ! j) (dbs sv ! j)" if "j < length (dbs sv)" for j
    using o [OF that] by (simp add: db_eq_def redis_db_ok_def)
  have "kstep 0 base held sv w sv' w (ks_abs sv w)"
    using refl assms(2,3) by (intro same_dbs [OF assms(1) _ _ sv']) (auto simp: nth_list_update)
  moreover have "kfind (entries (db_dict db)) = mkey sv i" "kfind (entries (db_expires db)) = xkey sv i"
    using kfind_mset [OF redis_db_kuniq(1) [OF o [OF assms(2)]], of "entries (db_dict db)"]
      kfind_mset [OF redis_db_kuniq(2) [OF o [OF assms(2)]], of "entries (db_expires db)"] assms(3)
    by (simp_all add: mkey_def xkey_def db_eq_def)
  ultimately show ?thesis using assms(2) by (auto simp: kquiet_def mkey_def xkey_def sv' nth_list_update)
qed

text \<open>A database prepared for a call.\<close>

abbreviation prep :: "keyspace_server \<Rightarrow> ('k, 'v) dict \<Rightarrow> ('k, 'v) dict" where
  "prep sv d \<equiv> d\<lparr>pool := page_pool sv, dict_can_resize := can_resize sv, dict.events := []\<rparr>"

lemma destroy_values_none: "destroyed evs = [] \<Longrightarrow> destroy_values evs h = Inr h"
  by (induction evs h rule: destroy_values.induct) auto

lemma destroy_values_one: "destroyed evs = [Some a] \<Longrightarrow> destroy_values evs h = decrRefCount a h"
proof (induction evs h rule: destroy_values.induct)
  case (2 a' evs h)
  then have "destroyed evs = []" "a' = a" by auto
  then have "destroy_values evs h' = Inr h'" for h' by (simp add: destroy_values_none)
  then show ?case using \<open>a' = a\<close> by (cases "decrRefCount a h") (simp_all add: rbind_def)
qed auto

lemma lift_simps [simp]:
  "obj_lift (Inr x) = Inr x" "obj_lift (Inl e) = Inl (DbObject e)" "dict_lift (Inr x) = Inr x" "dict_lift (Inl e') = Inl (DbDict e')"
  by (simp_all add: obj_lift_def dict_lift_def)

lemma redis_db_simp [simp]: "i < length (dbs sv) \<Longrightarrow> redis_db sv i = Inr (dbs sv ! i)"
  by (simp add: redis_db_def)

lemma ks_db: "ks_ok base held sv w \<Longrightarrow> i < length (dbs sv) \<Longrightarrow> redis_db_ok (hash_seed sv) (dbs sv ! i)"
  by (simp add: ks_ok_def dbs_ok_def)

lemma main_lookup:
  assumes "ks_ok base held sv w" and "i < length (dbs sv)" and "sds_ok (kname k)"
  shows "lookup (dbDictType (hash_seed sv)) (db_dict (dbs sv ! i)) k = mkey sv i (key_bytes k)"
    and "lookup (keyptrDictType (hash_seed sv)) (db_expires (dbs sv ! i)) k = xkey sv i (key_bytes k)"
  using lookup_kfind [OF _ assms(3) refl] lookup_kfind_exp [OF _ assms(3)] ks_db [OF assms(1,2)] redis_db_kuniq(3) [OF ks_db [OF assms(1,2)]]
  by (simp_all add: mkey_def xkey_def redis_db_ok_def)

lemma on_dict_find:
  assumes "ks_ok base held sv w" and "i < length (dbs sv)" and "sds_ok (kname k)"
  shows "\<exists>sv'. on_dict i (\<lambda>T d. dictFind T d k) sv w = Inr (mkey sv i (key_bytes k), sv', w) \<and> kquiet base held sv w sv'"
proof -
  let ?T = "dbDictType (hash_seed sv)" and ?d = "prep sv (db_dict (dbs sv ! i))"
  have ok: "dict_ok ?T ?d" using ks_db [OF assms(1,2)] by (simp add: redis_db_ok_def)
  obtain d' where d': "dictFind ?T ?d k = Inr (d', lookup ?T ?d k)" "becomes ?T ?d d' (ents ?d) [] (pool ?d)"
    using dictFind_becomes [OF db_type_ok(1) ok] by blast
  let ?db = "(dbs sv ! i)\<lparr>db_dict := d'\<rparr>"
  have "db_eq (hash_seed sv) (dbs sv ! i) ?db"
    using d'(2) ks_db [OF assms(1,2)] by (simp add: db_eq_def becomes_def redis_db_ok_def)
  from quiet_dbs [OF assms(1,2) this refl] show ?thesis
    using d' main_lookup(1) [OF assms] assms(2) by (simp add: on_dict_def becomes_def destroy_values_none)
qed

lemma on_expires_find:
  assumes "ks_ok base held sv w" and "i < length (dbs sv)" and "sds_ok (kname k)"
  shows "\<exists>sv'. on_expires i (\<lambda>T d. dictFind T d k) sv w = Inr (xkey sv i (key_bytes k), sv', w) \<and> kquiet base held sv w sv'"
proof -
  let ?T = "keyptrDictType (hash_seed sv)" and ?d = "prep sv (db_expires (dbs sv ! i))"
  have ok: "dict_ok ?T ?d" using ks_db [OF assms(1,2)] by (simp add: redis_db_ok_def)
  obtain d' where d': "dictFind ?T ?d k = Inr (d', lookup ?T ?d k)" "becomes ?T ?d d' (ents ?d) [] (pool ?d)"
    using dictFind_becomes [OF db_type_ok(2) ok] by blast
  let ?db = "(dbs sv ! i)\<lparr>db_expires := d'\<rparr>"
  have "db_eq (hash_seed sv) (dbs sv ! i) ?db"
    using d'(2) ks_db [OF assms(1,2)] by (simp add: db_eq_def becomes_def redis_db_ok_def)
  from quiet_dbs [OF assms(1,2) this refl] show ?thesis
    using d' main_lookup(2) [OF assms] assms(2) by (simp add: on_expires_def becomes_def)
qed

lemma key_of_ok:
  assumes "store_ok (heap w) H" and "key_ok (heap w) key"
  shows "\<exists>k. key_of w key = Inr k \<and> sds_ok (kname k) \<and> key_bytes k = text_at (heap w) key"
proof -
  obtain ob s where "objs (heap w) key = Some ob" "optr ob = PSds s" "sds_ok s" "text_at (heap w) key = sds_str s"
    using raw_sds [OF assms(1)] assms(2) unfolding key_ok_def by metis
  then show ?thesis using key_bytes_sds [of "\<lparr>home = InObject key, kname = s\<rparr>"] by (simp add: key_of_def)
qed

lemma ks_store: "ks_ok base held sv w \<Longrightarrow> store_ok (heap w) (base @ held @ vals sv)"
  by (simp add: ks_ok_def)

lemma find_key_ok:
  assumes "ks_ok base held sv w" and "i < length (dbs sv)" and "key_ok (heap w) key"
  shows "\<exists>sv'. find_key i key sv w = Inr (mkey sv i (text_at (heap w) key), sv', w) \<and> kquiet base held sv w sv'"
proof -
  obtain k where "key_of w key = Inr k" "sds_ok (kname k)" "key_bytes k = text_at (heap w) key"
    using key_of_ok [OF ks_store [OF assms(1)] assms(3)] by blast
  with on_dict_find [OF assms(1,2), of k] show ?thesis by (simp add: find_key_def)
qed

lemma assert_present_ok:
  assumes "ks_ok base held sv w" and "i < length (dbs sv)" and "key_ok (heap w) key" and "mkey sv i (text_at (heap w) key) = Some e"
  shows "\<exists>sv'. assert_present i key sv w = Inr (e, sv', w) \<and> kquiet base held sv w sv'"
  using find_key_ok [OF assms(1-3)] assms(4) by (auto simp: assert_present_def)

text \<open>The object a lookup gives: that of the entry of the key.\<close>

definition found :: "keyspace_server \<Rightarrow> nat \<Rightarrow> char list \<Rightarrow> nat option \<Rightarrow> bool" where
  "found sv i t r \<longleftrightarrow> r = map_option entry_obj (mkey sv i t)"

section \<open>Changing a database\<close>

lemma set_entries:
  assumes "dbs sv' = (dbs sv)[i := db]" and "i < length (dbs sv)"
  shows "mset (all_entries sv') + ents (db_dict (dbs sv ! i)) = mset (all_entries sv) + ents (db_dict db)"
  using mset_concat_update [of i "map (\<lambda>db. entries (db_dict db)) (dbs sv)" "entries (db_dict db)"] assms
  by (simp add: all_entries_def map_update)

lemma entries_vals: "db \<in> set (dbs sv) \<Longrightarrow> e \<in> set (entries (db_dict db)) \<Longrightarrow> entry_obj e \<in> set (vals sv)"
  by (auto simp: vals_def all_entries_def)

lemma text_same: "same h h' A \<Longrightarrow> a \<in> A \<Longrightarrow> text_at h' a = text_at h a"
  using payload_eq [of h' a h] by (simp add: same_def)

lemma solid_same: "same h h' A \<Longrightarrow> a \<in> A \<Longrightarrow> solid h' a = solid h a"
  using payload_eq [of h' a h] by (simp add: same_def)

lemma db_view_same:
  assumes "same h h' A" and "entry_obj ` set (entries (db_dict db)) \<subseteq> A"
  shows "db_view h' db = db_view h db"
proof
  fix t
  have "text_at h' (entry_obj e) = text_at h (entry_obj e)" if "kfind (entries (db_dict db)) t = Some e" for e
  proof -
    have "e \<in> set (entries (db_dict db))" using that by (auto simp: kfind_def find_Some_iff)
    then show ?thesis using text_same [OF assms(1)] assms(2) by blast
  qed
  then show "db_view h' db t = db_view h db t" by (auto simp: db_view_def split: option.split)
qed

lemma base_same:
  assumes "base_ok base sv w" and "same (heap w) h' (set base)" and "fixed sv' = fixed sv" and "length (dbs sv') = length (dbs sv)"
  shows "base_ok base sv' (w\<lparr>heap := h'\<rparr>)"
  using assms db_same(1) [OF assms(2)] fixed_sel(9) [OF assms(3)] by (auto simp: base_ok_def)

lemma kchange:
  assumes ks: "dbs_ok sv" "base_ok base sv w" and i: "i < length (dbs sv)"
    and sv': "sv' = sv\<lparr>dbs := (dbs sv)[i := db], page_pool := ag, next_copy := nc\<rparr>" and w': "w' = w\<lparr>heap := h'\<rparr>"
    and ok: "redis_db_ok (hash_seed sv) db" "copies_ok sv'" "store_ok h' (base @ held @ vals sv')" "\<forall>a\<in>set (vals sv'). solid h' a"
    and fr: "same (heap w) h' (set (base @ held @ vals sv'))" "shared_integers h' = shared_integers (heap w)" "maxmemory h' = maxmemory (heap w)"
    and len: "length (base @ held) \<le> HELD_LIMIT"
  shows "ks_ok base held sv' w' \<and> kframe (base @ held) sv w sv' w' \<and>
    ks_abs sv' w' = (ks_abs sv w)\<lparr>keys := (keys (ks_abs sv w))(i := db_view (heap w) db)\<rparr>"
proof (intro conjI)
  have f: "fixed sv' = fixed sv" by (simp add: sv' fixed_def)
  have l: "length (dbs sv') = length (dbs sv)" by (simp add: sv')
  have dok: "redis_db_ok (hash_seed sv) db'" if "db' \<in> set ((dbs sv)[i := db])" for db'
    using that ok(1) ks(1) set_update_subset_insert [of "dbs sv" i db] by (auto simp: dbs_ok_def)
  have "same (heap w) h' (set base)" using fr(1) by (auto simp: same_def)
  from base_same [OF ks(2) this f l] show "ks_ok base held sv' w'"
    using ok dok ks(1) len by (simp add: ks_ok_def dbs_ok_def sv' w')
  show "kframe (base @ held) sv w sv' w'" using f l fr by (auto simp: kframe_def w' sv' same_def)
  have v: "db_view h' (dbs sv' ! j) = db_view (heap w) (dbs sv' ! j)" if "j < length (dbs sv')" for j
    using entries_vals [of "dbs sv' ! j" sv'] that fr(1) by (intro db_view_same) auto
  have "db_view h' db = db_view (heap w) db" "\<And>j. j \<noteq> i \<Longrightarrow> j < length (dbs sv) \<Longrightarrow> db_view h' (dbs sv ! j) = db_view (heap w) (dbs sv ! j)"
    using v [of i] v i by (simp_all add: sv') (metis nth_list_update_neq)
  then show "ks_abs sv' w' = (ks_abs sv w)\<lparr>keys := (keys (ks_abs sv w))(i := db_view (heap w) db)\<rparr>"
    using i by (auto simp: ks_abs_def sv' w' fun_eq_iff nth_list_update)
qed

section \<open>Room\<close>

lemma pool_room_mono: "pool_room n ag A \<Longrightarrow> m \<le> n \<Longrightarrow> B \<subseteq> A \<Longrightarrow> pool_room m ag B"
proof (induction n arbitrary: m ag A B)
  case (Suc n)
  then obtain a ag' where a: "alloc_entry_random sizeof_dictEntry ag = Inr (a, ag')" "a \<notin> A" "pool_room n ag' (insert a A)" by auto
  show ?case
  proof (cases m)
    case (Suc m')
    then have "pool_room m' ag' (insert a B)" using Suc.IH [OF a(3), of m' "insert a B"] \<open>m \<le> Suc n\<close> \<open>B \<subseteq> A\<close> by auto
    then show ?thesis using a \<open>B \<subseteq> A\<close> \<open>m = Suc m'\<close> by auto
  qed simp
qed simp

lemma ks_room_mono: "ks_room n sv \<Longrightarrow> m \<le> n \<Longrightarrow> ks_room m sv"
  using pool_room_mono [of n "page_pool sv" "\<Union> (db_addrs ` set (dbs sv))" m] by (fastforce simp: ks_room_def)

text \<open>A step that takes at most one entry from the pool and adds at most one to each list.\<close>

lemma ks_room_step:
  assumes "ks_room (n + k) sv" and i: "i < length (dbs sv)" and dbs: "dbs sv' = (dbs sv)[i := db]"
    and pool: "k = 0 \<and> page_pool sv' = page_pool sv \<and> db_addrs db \<subseteq> db_addrs (dbs sv ! i) \<or>
      k = 1 \<and> alloc_entry_random sizeof_dictEntry (page_pool sv) = Inr (a, page_pool sv') \<and> db_addrs db \<subseteq> insert a (db_addrs (dbs sv ! i))"
    and len: "length (vals sv') \<le> length (vals sv) + k" "length (entries (db_expires db)) \<le> length (entries (db_expires (dbs sv ! i))) + k"
  shows "ks_room n sv'"
proof -
  let ?A = "\<Union> (db_addrs ` set (dbs sv))" and ?B = "\<Union> (db_addrs ` set (dbs sv'))"
  have mem: "dbs sv ! i \<in> set (dbs sv)" using i by simp
  have sub: "set (dbs sv') \<subseteq> insert db (set (dbs sv))" unfolding dbs by (rule set_update_subset_insert)
  have p: "pool_room n (page_pool sv') ?B"
    using pool
  proof
    assume "k = 0 \<and> page_pool sv' = page_pool sv \<and> db_addrs db \<subseteq> db_addrs (dbs sv ! i)"
    then have "?B \<subseteq> ?A" using sub mem by blast
    then show ?thesis using assms(1) \<open>k = 0 \<and> _\<close> pool_room_mono [of n "page_pool sv" ?A n ?B] by (simp add: ks_room_def)
  next
    assume a: "k = 1 \<and> alloc_entry_random sizeof_dictEntry (page_pool sv) = Inr (a, page_pool sv') \<and> db_addrs db \<subseteq> insert a (db_addrs (dbs sv ! i))"
    then have "?B \<subseteq> insert a ?A" using sub mem by blast
    then show ?thesis using assms(1) a pool_room_mono [of n "page_pool sv'" "insert a ?A" n ?B] by (simp add: ks_room_def)
  qed
  have "length (entries (db_expires d)) + n \<le> KEY_LIMIT" if "d \<in> set (dbs sv')" for d
    using that sub assms(1) mem len(2) unfolding ks_room_def by fastforce
  then show ?thesis using p assms(1) len(1) by (simp add: ks_room_def)
qed

section \<open>Adding, replacing and deleting a key\<close>

definition put_key :: "nat \<Rightarrow> char list \<Rightarrow> (char list \<times> int option) option \<Rightarrow> kstate \<Rightarrow> kstate" where
  "put_key i t v s = s\<lparr>keys := (keys s)(i := (keys s i)(t := v))\<rparr>"

lemma keys_abs: "i < length (dbs sv) \<Longrightarrow> keys (ks_abs sv w) i = db_view (heap w) (dbs sv ! i)"
  by (simp add: ks_abs_def fun_eq_iff)

lemma put_key_view:
  assumes "i < length (dbs sv)" and "s = (ks_abs sv w)\<lparr>keys := (keys (ks_abs sv w))(i := db_view (heap w) db)\<rparr>"
    and "db_view (heap w) db = (db_view (heap w) (dbs sv ! i))(t := v)"
  shows "s = put_key i t v (ks_abs sv w)"
  using assms by (simp add: put_key_def keys_abs)

lemma set_add_mset: "mset xs = add_mset e (mset ys) \<Longrightarrow> set xs = insert e (set ys)"
  by (metis set_mset_add_mset_insert set_mset_mset)

lemma xkey_None:
  assumes "redis_db_ok seed db" and "kfind (entries (db_dict db)) t = None"
  shows "kfind (entries (db_expires db)) t = None"
  using assms by (fastforce simp: redis_db_ok_def kfind_None)

lemma length_main: "db \<in> set (dbs sv) \<Longrightarrow> length (entries (db_dict db)) \<le> length (vals sv)"
  unfolding vals_def all_entries_def by (auto simp: length_concat intro!: member_le_sum_list)

lemma room_entry:
  assumes "ks_room 1 sv" and "db \<in> set (dbs sv)"
  obtains a ag where "alloc_entry_random sizeof_dictEntry (page_pool sv) = Inr (a, ag)"
    "gets_entry (prep sv (db_dict db)) a ag" "gets_entry (prep sv (db_expires db)) a ag"
proof -
  obtain a ag where a: "alloc_entry_random sizeof_dictEntry (page_pool sv) = Inr (a, ag)" "a \<notin> \<Union> (db_addrs ` set (dbs sv))"
    using assms(1) by (auto simp: ks_room_def)
  have "a \<notin> db_addrs db" using a(2) assms(2) by blast
  then have "gets_entry (prep sv (db_dict db)) a ag" "gets_entry (prep sv (db_expires db)) a ag"
    using a(1) assms length_main [OF assms(2)]
    by (auto simp: gets_entry_def pool_gives_def db_addrs_def ks_room_def KEY_LIMIT_def DICT_LIMIT_def)
  then show thesis using that a(1) by blast
qed

lemma copies_add:
  assumes c: "copies_ok sv" and m: "mset (all_entries sv') = add_mset e (mset (all_entries sv))"
    and n: "next_copy sv' = next_copy sv + 1" "home (de_key e) = Copied (next_copy sv)"
  shows "copies_ok sv'"
proof -
  have "Copied (next_copy sv) \<notin> (home \<circ> de_key) ` set (all_entries sv)" using c by (auto simp: copies_ok_def)
  moreover have "distinct (map (home \<circ> de_key) (all_entries sv')) = distinct (map (home \<circ> de_key) (e # all_entries sv))"
    by (rule mset_eq_imp_distinct_iff) (simp add: m)
  ultimately have "distinct (map (home \<circ> de_key) (all_entries sv'))" using c n(2) by (auto simp: copies_ok_def)
  moreover have "\<exists>j<next_copy sv'. home (de_key x) = Copied j" if "x \<in> set (all_entries sv')" for x
    using that c n unfolding set_add_mset [OF m] by (auto simp: copies_ok_def less_Suc_eq)
  ultimately show ?thesis by (simp add: copies_ok_def)
qed

lemma add_main:
  assumes ks: "ks_ok base held sv w" and i: "i < length (dbs sv)" and m: "mset held = add_mset a (mset held')" and sol: "solid (heap w) a"
    and k: "sds_ok (kname k)" "home k = Copied (next_copy sv)" and new: "mkey sv i (key_bytes k) = None" and room: "ks_room 1 sv"
  shows "\<exists>sv'. on_dict i (\<lambda>T d. dictAdd T d k a) (sv\<lparr>next_copy := next_copy sv + 1\<rparr>) w = Inr (True, sv', w) \<and>
    kstep 1 base held' sv w sv' w (put_key i (key_bytes k) (Some (text_at (heap w) a, None)) (ks_abs sv w)) \<and>
    found sv' i (key_bytes k) (Some a)"
proof -
  let ?T = "dbDictType (hash_seed sv)" and ?db = "dbs sv ! i" let ?d = "prep sv (db_dict ?db)"
  have ok: "redis_db_ok (hash_seed sv) ?db" and mem: "?db \<in> set (dbs sv)" using ks_db [OF ks i] i by simp_all
  have dk: "dict_ok ?T ?d" using ok by (simp add: redis_db_ok_def)
  obtain ad ag where ad: "alloc_entry_random sizeof_dictEntry (page_pool sv) = Inr (ad, ag)" "gets_entry ?d ad ag"
    using room_entry [OF room mem] by metis
  let ?e = "\<lparr>de_addr = ad, de_key = k, de_val = Some a\<rparr>"
  have "lookup ?T ?d k = None" using main_lookup(1) [OF ks i k(1)] new by simp
  from dictAdd_becomes [OF db_type_ok(1) dk this ad(2), of a] obtain d' where d': "dictAdd ?T ?d k a = Inr (d', True)"
    "becomes ?T ?d d' (add_mset ?e (ents ?d)) [] ag"
    by auto
  have en: "ents d' = add_mset ?e (ents (db_dict ?db))" using d'(2) by (simp add: becomes_def)
  let ?db' = "?db\<lparr>db_dict := d'\<rparr>" let ?sv = "sv\<lparr>dbs := (dbs sv)[i := ?db'], page_pool := ag, next_copy := next_copy sv + 1\<rparr>"
  have ok': "redis_db_ok (hash_seed sv) ?db'"
    using ok d'(2) k(1) set_add_mset [OF en] by (auto simp: redis_db_ok_def becomes_def names_ok_def)
  have ae: "mset (all_entries ?sv) = add_mset ?e (mset (all_entries sv))"
    using set_entries [of ?sv sv i ?db'] i en by simp
  have copies: "copies_ok ?sv" using copies_add [OF _ ae] ks k(2) by (simp add: ks_ok_def dbs_ok_def)
  have va: "mset (vals ?sv) = add_mset a (mset (vals sv))" using ae by (simp add: vals_def entry_obj_def)
  have "store_ok (heap w) (base @ held' @ vals ?sv)"
    using store_ok_mset [OF _ ks_store [OF ks], of "base @ held' @ vals ?sv"] va m by simp
  moreover have "\<forall>b\<in>set (vals ?sv). solid (heap w) b" using ks sol set_add_mset [OF va] by (simp add: ks_ok_def)
  ultimately have ch: "ks_ok base held' ?sv w \<and> kframe (base @ held') sv w ?sv w \<and>
      ks_abs ?sv w = (ks_abs sv w)\<lparr>keys := (keys (ks_abs sv w))(i := db_view (heap w) ?db')\<rparr>"
    using ks mset_eq_length [of held "a # held'"] m by (intro kchange [OF _ _ i refl _ ok' copies, where h' = "heap w"]) (simp_all add: ks_ok_def)
  have kf: "kfind (entries d') = (kfind (entries (db_dict ?db)))(key_bytes k \<mapsto> ?e)"
    using kfind_add(1) [OF redis_db_kuniq(1) [OF ok']] en by simp
  have "kfind (entries (db_expires ?db)) (key_bytes k) = None" using xkey_None [OF ok] new by (simp add: mkey_def)
  then have "db_view (heap w) ?db' = (db_view (heap w) ?db)(key_bytes k := Some (text_at (heap w) a, None))"
    by (auto simp: db_view_def kf fun_eq_iff entry_obj_def split: option.split)
  with put_key_view [OF i] ch have ab: "ks_abs ?sv w = put_key i (key_bytes k) (Some (text_at (heap w) a, None)) (ks_abs sv w)" by blast
  have "ks_room n ?sv" if "ks_room (n + 1) sv" for n
    using ks_room_step [OF that i, where db = ?db' and a = ad] ad(1) va set_add_mset [OF en] mset_eq_length [of "vals ?sv" "a # vals sv"]
    by (simp add: db_addrs_def)
  moreover have "found ?sv i (key_bytes k) (Some a)" using i kf by (simp add: found_def mkey_def entry_obj_def)
  ultimately show ?thesis
    using ch ab d' i by (intro exI [of _ ?sv]) (simp add: on_dict_def kstep_def becomes_def destroy_values_none)
qed

lemma distinct_sub:
  assumes "mset xs \<subseteq># mset ys" and "distinct ys"
  shows "distinct xs"
proof -
  obtain M where "mset ys = mset xs + M" using assms(1) by (metis mset_subset_eq_exists_conv)
  moreover obtain zs where "mset zs = M" using ex_mset by blast
  ultimately have "mset ys = mset (xs @ zs)" by simp
  from mset_eq_imp_distinct_iff [OF this] assms(2) show ?thesis by simp
qed

lemma copies_less:
  assumes c: "copies_ok sv" and m: "mset (map de_key (all_entries sv')) \<subseteq># mset (map de_key (all_entries sv))" and n: "next_copy sv' = next_copy sv"
  shows "copies_ok sv'"
proof -
  have "mset (map home (map de_key (all_entries sv'))) \<subseteq># mset (map home (map de_key (all_entries sv)))"
    using image_mset_subseteq_mono [OF m, of home] unfolding mset_map .
  moreover have "distinct (map home (map de_key (all_entries sv)))" using c by (simp add: copies_ok_def comp_def)
  ultimately have "distinct (map home (map de_key (all_entries sv')))" by (rule distinct_sub)
  moreover have "\<exists>j<next_copy sv. home (de_key x) = Copied j" if "x \<in> set (all_entries sv')" for x
  proof -
    have "de_key x \<in> de_key ` set (all_entries sv)" using set_mset_mono [OF m] that by auto
    then obtain y where "y \<in> set (all_entries sv)" "de_key x = de_key y" by blast
    then show ?thesis using c by (simp add: copies_ok_def)
  qed
  ultimately show ?thesis using n by (simp add: copies_ok_def comp_def)
qed

lemma mkeyD:
  assumes "ks_ok base held sv w" and "i < length (dbs sv)" and "mkey sv i t = Some e"
  shows "e \<in> set (entries (db_dict (dbs sv ! i)))" "key_bytes (de_key e) = t" "e \<in> set (all_entries sv)"
    "\<exists>a. de_val e = Some a \<and> entry_obj e = a \<and> a \<in> set (vals sv)" "sds_ok (kname (de_key e))"
proof -
  show e: "e \<in> set (entries (db_dict (dbs sv ! i)))" "key_bytes (de_key e) = t"
    using assms(3) kfind_iff [OF redis_db_kuniq(1) [OF ks_db [OF assms(1,2)]]] by (simp_all add: mkey_def)
  show "e \<in> set (all_entries sv)" using e(1) assms(2) by (auto simp: all_entries_def)
  have ok: "redis_db_ok (hash_seed sv) (dbs sv ! i)" using ks_db [OF assms(1,2)] .
  then show "sds_ok (kname (de_key e))" using e(1) by (simp add: redis_db_ok_def names_ok_def)
  show "\<exists>a. de_val e = Some a \<and> entry_obj e = a \<and> a \<in> set (vals sv)"
    using ok e(1) entries_vals [of "dbs sv ! i" sv e] assms(2) by (auto simp: redis_db_ok_def entry_obj_def)
qed

text \<open>The object store after the reference of an entry is gone.\<close>

lemma release_value:
  assumes "store_ok h H" and "mset H = add_mset b (mset H')"
  shows "\<exists>h'. decrRefCount b h = Inr h' \<and> store_ok h' H' \<and> same h h' (set H') \<and> shared_integers h' = shared_integers h \<and> maxmemory h' = maxmemory h"
  using decr_ok [OF assms] by (auto simp: same_def)

lemma del_main:
  assumes ks: "ks_ok base held sv w" and i: "i < length (dbs sv)" and k: "sds_ok (kname k)" "mkey sv i (key_bytes k) = Some e"
    and x: "xkey sv i (key_bytes k) = None"
  shows "\<exists>sv' w'. on_dict i (\<lambda>T d. dictDelete T d k) sv w = Inr (True, sv', w') \<and>
    kstep 0 base held sv w sv' w' (put_key i (key_bytes k) None (ks_abs sv w))"
proof -
  let ?T = "dbDictType (hash_seed sv)" and ?db = "dbs sv ! i" let ?d = "prep sv (db_dict ?db)" and ?t = "key_bytes k"
  have ok: "redis_db_ok (hash_seed sv) ?db" using ks_db [OF ks i] .
  have dk: "dict_ok ?T ?d" using ok by (simp add: redis_db_ok_def)
  have l: "lookup ?T ?d k = Some e" using main_lookup(1) [OF ks i k(1)] k(2) by simp
  note e = mkeyD [OF ks i k(2)]
  obtain b where b: "de_val e = Some b" "entry_obj e = b" using e(4) by blast
  obtain d' where d': "dictDelete ?T ?d k = Inr (d', True)" "becomes ?T ?d d' (ents ?d - {#e#}) [Some b] (page_pool sv)"
    using dictDelete_becomes [OF db_type_ok(1) dk, of k] l b(1) by auto
  have en: "ents d' = ents (db_dict ?db) - {#e#}" using d'(2) by (simp add: becomes_def)
  then have en': "ents (db_dict ?db) = add_mset e (ents d')" using e(1) by simp
  note kd = kfind_del [OF redis_db_kuniq(1) [OF ok] e(1) en]
  let ?db' = "?db\<lparr>db_dict := d'\<rparr>" let ?sv = "sv\<lparr>dbs := (dbs sv)[i := ?db'], page_pool := page_pool sv, next_copy := next_copy sv\<rparr>"
  have xk: "de_key y \<noteq> de_key e" if "y \<in> set (entries (db_expires ?db))" for y
    using x that e(2) by (auto simp: xkey_def kfind_None)
  have sub: "set (entries d') \<subseteq> set (entries (db_dict ?db))" using set_add_mset [OF en'] by blast
  have ok': "redis_db_ok (hash_seed sv) ?db'"
    using ok d'(2) sub xk set_add_mset [OF en'] by (fastforce simp: redis_db_ok_def becomes_def names_ok_def)
  have ae: "mset (all_entries sv) = add_mset e (mset (all_entries ?sv))"
    using set_entries [of ?sv sv i ?db'] i en' by simp
  then have copies: "copies_ok ?sv"
    using copies_less [of sv ?sv] ks by (simp add: ks_ok_def dbs_ok_def)
  have va: "mset (vals sv) = add_mset b (mset (vals ?sv))" using ae b(2) by (simp add: vals_def)
  obtain h' where h': "decrRefCount b (heap w) = Inr h'" "store_ok h' (base @ held @ vals ?sv)"
    "same (heap w) h' (set (base @ held @ vals ?sv))" "shared_integers h' = shared_integers (heap w)" "maxmemory h' = maxmemory (heap w)"
    using release_value [OF ks_store [OF ks], of b "base @ held @ vals ?sv"] va by auto
  have "\<forall>c\<in>set (vals ?sv). solid h' c"
    using ks set_add_mset [OF va] solid_same [OF h'(3)] by (auto simp: ks_ok_def)
  then have ch: "ks_ok base held ?sv (w\<lparr>heap := h'\<rparr>) \<and> kframe (base @ held) sv w ?sv (w\<lparr>heap := h'\<rparr>) \<and>
      ks_abs ?sv (w\<lparr>heap := h'\<rparr>) = (ks_abs sv w)\<lparr>keys := (keys (ks_abs sv w))(i := db_view (heap w) ?db')\<rparr>"
    using ks h' by (intro kchange [OF _ _ i refl refl ok' copies]) (simp_all add: ks_ok_def)
  have "db_view (heap w) ?db' = (db_view (heap w) ?db)(?t := None)"
    using e(2) by (auto simp: db_view_def kd(1) fun_eq_iff split: option.split)
  with put_key_view [OF i] ch have ab: "ks_abs ?sv (w\<lparr>heap := h'\<rparr>) = put_key i ?t None (ks_abs sv w)" by blast
  have "ks_room n ?sv" if "ks_room (n + 0) sv" for n
    by (rule ks_room_step [OF that i, where db = ?db'])
      (use sub mset_eq_length [of "vals sv" "b # vals ?sv"] va in \<open>auto simp: db_addrs_def\<close>)
  then show ?thesis
    using ch ab d' h'(1) i destroy_values_one [of "dict.events d'" b] by (intro exI [of _ ?sv] exI [of _ "w\<lparr>heap := h'\<rparr>"])
      (simp add: on_dict_def kstep_def becomes_def)
qed

lemma on_dict_delete_none:
  assumes ks: "ks_ok base held sv w" and i: "i < length (dbs sv)" and k: "sds_ok (kname k)" and none: "mkey sv i (key_bytes k) = None"
  shows "\<exists>sv'. on_dict i (\<lambda>T d. dictDelete T d k) sv w = Inr (False, sv', w) \<and> kquiet base held sv w sv'"
proof -
  let ?T = "dbDictType (hash_seed sv)" and ?d = "prep sv (db_dict (dbs sv ! i))"
  have ok: "dict_ok ?T ?d" using ks_db [OF ks i] by (simp add: redis_db_ok_def)
  have l: "lookup ?T ?d k = None" using main_lookup(1) [OF ks i k] none by simp
  obtain d' where d': "dictDelete ?T ?d k = Inr (d', False)" "becomes ?T ?d d' (ents ?d) [] (pool ?d)"
    using dictDelete_becomes [OF db_type_ok(1) ok, of k] l by auto
  let ?db = "(dbs sv ! i)\<lparr>db_dict := d'\<rparr>"
  have "db_eq (hash_seed sv) (dbs sv ! i) ?db"
    using d'(2) ks_db [OF ks i] by (simp add: db_eq_def becomes_def redis_db_ok_def)
  from quiet_dbs [OF ks i this refl] show ?thesis
    using d' i by (simp add: on_dict_def becomes_def destroy_values_none)
qed

lemma replace_main:
  assumes ks: "ks_ok base held sv w" and i: "i < length (dbs sv)" and m: "mset held = add_mset a (mset held')" and sol: "solid (heap w) a"
    and k: "sds_ok (kname k)" "mkey sv i (key_bytes k) = Some e"
  shows "\<exists>sv' w'. on_dict i (\<lambda>T d. dictReplace T d k a) sv w = Inr (False, sv', w') \<and>
    kstep 0 base held' sv w sv' w' (put_key i (key_bytes k)
      (Some (text_at (heap w) a, Option.bind (xkey sv i (key_bytes k)) de_val)) (ks_abs sv w)) \<and>
    found sv' i (key_bytes k) (Some a) \<and> payload (heap w') a = payload (heap w) a"
proof -
  let ?T = "dbDictType (hash_seed sv)" and ?db = "dbs sv ! i" let ?d = "prep sv (db_dict ?db)" and ?t = "key_bytes k"
  have ok: "redis_db_ok (hash_seed sv) ?db" using ks_db [OF ks i] .
  have dk: "dict_ok ?T ?d" using ok by (simp add: redis_db_ok_def)
  have l: "lookup ?T ?d k = Some e" using main_lookup(1) [OF ks i k(1)] k(2) by simp
  note e = mkeyD [OF ks i k(2)]
  obtain b where b: "de_val e = Some b" "entry_obj e = b" using e(4) by blast
  let ?e = "e\<lparr>de_val := Some a\<rparr>"
  obtain d' where d': "dictReplace ?T ?d k a = Inr (d', False)" "becomes ?T ?d d' (add_mset ?e (ents ?d - {#e#})) [Some b] (page_pool sv)"
    using dictReplace_becomes [OF db_type_ok(1) dk l, of a] b(1) by auto
  obtain ys where ys: "ents (db_dict ?db) = add_mset e (mset ys)" using e(1) by (metis mset_remove1 in_multiset_in_set insert_DiffM)
  have en: "ents d' = add_mset ?e (mset ys)" using d'(2) ys by (simp add: becomes_def)
  let ?db' = "?db\<lparr>db_dict := d'\<rparr>" let ?sv = "sv\<lparr>dbs := (dbs sv)[i := ?db'], page_pool := page_pool sv, next_copy := next_copy sv\<rparr>"
  have ok': "redis_db_ok (hash_seed sv) ?db'"
    using ok d'(2) set_add_mset [OF en] set_add_mset [OF ys] by (auto simp: redis_db_ok_def becomes_def names_ok_def)
  have ae: "mset (all_entries ?sv) + {#e#} = mset (all_entries sv) + {#?e#}"
    using set_entries [of ?sv sv i ?db'] i en ys by simp
  have "mset (map de_key (all_entries ?sv)) = mset (map de_key (all_entries sv))"
    using arg_cong [OF ae, of "image_mset de_key"] by simp
  then have copies: "copies_ok ?sv"
    using copies_less [of sv ?sv] ks by (simp add: ks_ok_def dbs_ok_def)
  have va: "add_mset b (mset (vals ?sv)) = add_mset a (mset (vals sv))"
    using arg_cong [OF ae, of "image_mset entry_obj"] b(2) by (simp add: vals_def entry_obj_def)
  have st: "mset (base @ held @ vals sv) = add_mset b (mset (base @ held' @ vals ?sv))" using m va by simp
  obtain h' where h': "decrRefCount b (heap w) = Inr h'" "store_ok h' (base @ held' @ vals ?sv)"
    "same (heap w) h' (set (base @ held' @ vals ?sv))" "shared_integers h' = shared_integers (heap w)" "maxmemory h' = maxmemory (heap w)"
    using release_value [OF ks_store [OF ks] st] by auto
  have "length held = Suc (length held')" using mset_eq_length [of held "a # held'"] m by simp
  moreover have "set (vals ?sv) \<subseteq> insert a (set (vals sv))" using arg_cong [OF va, of set_mset] by auto
  then have "\<forall>c\<in>set (vals ?sv). solid h' c"
    using ks sol solid_same [OF h'(3)] by (auto simp: ks_ok_def)
  ultimately have ch: "ks_ok base held' ?sv (w\<lparr>heap := h'\<rparr>) \<and> kframe (base @ held') sv w ?sv (w\<lparr>heap := h'\<rparr>) \<and>
      ks_abs ?sv (w\<lparr>heap := h'\<rparr>) = (ks_abs sv w)\<lparr>keys := (keys (ks_abs sv w))(i := db_view (heap w) ?db')\<rparr>"
    using ks h' by (intro kchange [OF _ _ i refl refl ok' copies]) (simp_all add: ks_ok_def)
  have u: "kuniq ys" "kfind (entries (db_dict ?db)) = (kfind ys)(?t \<mapsto> e)"
    using kfind_add [OF redis_db_kuniq(1) [OF ok] ys] e(2) by auto
  have "kfind (entries d') = (kfind ys)(?t \<mapsto> ?e)" using kfind_add(1) [of "entries d'" ?e ys] redis_db_kuniq(1) [OF ok'] en e(2) by simp
  with u(2) have kf: "kfind (entries d') = (kfind (entries (db_dict ?db)))(?t \<mapsto> ?e)" by simp
  then have "db_view (heap w) ?db' = (db_view (heap w) ?db)(?t := Some (text_at (heap w) a, Option.bind (xkey sv i ?t) de_val))"
    by (auto simp: db_view_def xkey_def fun_eq_iff entry_obj_def split: option.split)
  with put_key_view [OF i] ch have ab: "ks_abs ?sv (w\<lparr>heap := h'\<rparr>) =
      put_key i ?t (Some (text_at (heap w) a, Option.bind (xkey sv i ?t) de_val)) (ks_abs sv w)" by blast
  have "ks_room n ?sv" if "ks_room (n + 0) sv" for n
    by (rule ks_room_step [OF that i, where db = ?db'])
      (use set_add_mset [OF en] set_add_mset [OF ys] mset_eq_length [of "b # vals ?sv" "a # vals sv"] va in \<open>auto simp: db_addrs_def\<close>)
  moreover have "found ?sv i ?t (Some a)" using i kf by (simp add: found_def mkey_def entry_obj_def)
  moreover have "a \<in> set (vals ?sv)" using va e(4) b(2) mset_eq_setD [of "b # vals ?sv" "a # vals sv"] set_add_mset [of "b # vals ?sv" a "vals sv"] entries_vals [of ?db' ?sv ?e] i set_add_mset [OF en]
    by (simp add: set_update_memI entry_obj_def)
  then have "payload h' a = payload (heap w) a" using h'(3) by (simp add: same_def)
  ultimately show ?thesis
    using ch ab d' h'(1) i destroy_values_one [of "dict.events d'" b] by (intro exI [of _ ?sv] exI [of _ "w\<lparr>heap := h'\<rparr>"])
      (simp add: on_dict_def kstep_def becomes_def)
qed

section \<open>Expire times\<close>

text \<open>A change of the expire times of a database, for keys of the main dictionary.\<close>

lemma exp_change:
  assumes ks: "ks_ok base held sv w" and i: "i < length (dbs sv)" and d': "dict_ok (keyptrDictType (hash_seed sv)) d'"
    and keys: "\<forall>x\<in>set (entries d'). de_val x \<noteq> None \<and> de_key x \<in> de_key ` set (entries (db_dict (dbs sv ! i)))"
    and kf: "kfind (entries d') = (xkey sv i)(t := y)"
    and pool: "k = 0 \<and> pool d' = page_pool sv \<and> de_addr ` set (entries d') \<subseteq> de_addr ` set (entries (db_expires (dbs sv ! i))) \<or>
      k = 1 \<and> alloc_entry_random sizeof_dictEntry (page_pool sv) = Inr (a, pool d') \<and>
        de_addr ` set (entries d') \<subseteq> insert a (de_addr ` set (entries (db_expires (dbs sv ! i))))"
    and len: "length (entries d') \<le> length (entries (db_expires (dbs sv ! i))) + k"
    and sv': "sv' = sv\<lparr>dbs := (dbs sv)[i := (dbs sv ! i)\<lparr>db_expires := d'\<rparr>], page_pool := pool d'\<rparr>"
  shows "kstep k base held sv w sv' w (put_key i t (case mkey sv i t of None \<Rightarrow> None
      | Some e \<Rightarrow> Some (text_at (heap w) (entry_obj e), Option.bind y de_val)) (ks_abs sv w)) \<and>
    mkey sv' i = mkey sv i \<and> xkey sv' i = (xkey sv i)(t := y) \<and> next_copy sv' = next_copy sv"
proof -
  let ?db = "dbs sv ! i" let ?db' = "?db\<lparr>db_expires := d'\<rparr>"
  have ok: "redis_db_ok (hash_seed sv) ?db" using ks_db [OF ks i] .
  then have ok': "redis_db_ok (hash_seed sv) ?db'" using d' keys by (simp add: redis_db_ok_def)
  have e: "sv' = sv\<lparr>dbs := (dbs sv)[i := ?db'], page_pool := pool d', next_copy := next_copy sv\<rparr>" by (simp add: sv')
  have ae: "mset (all_entries sv') = mset (all_entries sv)" using set_entries [of sv' sv i ?db'] i by (simp add: sv')
  then have copies: "copies_ok sv'" using copies_less [of sv sv'] ks by (simp add: ks_ok_def dbs_ok_def sv')
  have va: "mset (vals sv') = mset (vals sv)" using ae by (simp add: vals_def)
  have st: "store_ok (heap w) (base @ held @ vals sv')" using ks_ok_store_mset [OF va] ks by (simp add: ks_ok_def)
  have sol: "\<forall>a\<in>set (vals sv'). solid (heap w) a" using ks mset_eq_setD [OF va] by (simp add: ks_ok_def)
  have ch: "ks_ok base held sv' w \<and> kframe (base @ held) sv w sv' w \<and>
      ks_abs sv' w = (ks_abs sv w)\<lparr>keys := (keys (ks_abs sv w))(i := db_view (heap w) ?db')\<rparr>"
    using ks by (intro kchange [OF _ _ i e _ ok' copies st sol]) (simp_all add: ks_ok_def)
  have "db_view (heap w) ?db' = (db_view (heap w) ?db)(t := (case mkey sv i t of None \<Rightarrow> None
      | Some e \<Rightarrow> Some (text_at (heap w) (entry_obj e), Option.bind y de_val)))"
    using kf by (auto simp: db_view_def mkey_def xkey_def fun_eq_iff split: option.split)
  with put_key_view [OF i] ch have "ks_abs sv' w = put_key i t (case mkey sv i t of None \<Rightarrow> None
      | Some e \<Rightarrow> Some (text_at (heap w) (entry_obj e), Option.bind y de_val)) (ks_abs sv w)" by blast
  moreover have "ks_room n sv'" if "ks_room (n + k) sv" for n
    by (rule ks_room_step [OF that i, where db = ?db' and a = a])
      (use pool len mset_eq_length [OF va] in \<open>auto simp: db_addrs_def sv'\<close>)
  moreover have "mkey sv' i = mkey sv i" "xkey sv' i = (xkey sv i)(t := y)" using i kf by (simp_all add: mkey_def xkey_def sv')
  ultimately show ?thesis using ch by (simp add: kstep_def sv')
qed

definition expire_at :: "nat \<Rightarrow> char list \<Rightarrow> int option \<Rightarrow> kstate \<Rightarrow> kstate" where
  "expire_at i t x s = put_key i t (map_option (\<lambda>(v, _). (v, x)) (keys s i t)) s"

lemma expire_at_abs:
  assumes "i < length (dbs sv)"
  shows "expire_at i t (Option.bind y de_val) (ks_abs sv w) = put_key i t (case mkey sv i t of None \<Rightarrow> None
      | Some e \<Rightarrow> Some (text_at (heap w) (entry_obj e), Option.bind y de_val)) (ks_abs sv w)"
  using assms by (simp add: expire_at_def keys_abs db_view_def mkey_def split: option.split)

lemma del_exp:
  assumes ks: "ks_ok base held sv w" and i: "i < length (dbs sv)" and k: "sds_ok (kname k)"
  shows "\<exists>sv'. on_expires i (\<lambda>T d. dictDelete T d k) sv w = Inr (xkey sv i (key_bytes k) \<noteq> None, sv', w) \<and>
    kstep 0 base held sv w sv' w (expire_at i (key_bytes k) None (ks_abs sv w)) \<and>
    mkey sv' i = mkey sv i \<and> xkey sv' i = (xkey sv i)(key_bytes k := None) \<and> next_copy sv' = next_copy sv"
proof -
  let ?T = "keyptrDictType (hash_seed sv)" and ?db = "dbs sv ! i" let ?d = "prep sv (db_expires ?db)" and ?t = "key_bytes k"
  have ok: "redis_db_ok (hash_seed sv) ?db" using ks_db [OF ks i] .
  have dk: "dict_ok ?T ?d" using ok by (simp add: redis_db_ok_def)
  have l: "lookup ?T ?d k = xkey sv i ?t" using main_lookup(2) [OF ks i k] by simp
  obtain d' where d': "dictDelete ?T ?d k = Inr (d', xkey sv i ?t \<noteq> None)" "dict_ok ?T d'" "pool d' = page_pool sv"
    "case xkey sv i ?t of None \<Rightarrow> ents d' = ents ?d | Some e \<Rightarrow> ents d' = ents ?d - {#e#}"
    using dictDelete_becomes [OF db_type_ok(2) dk, of k] l by (auto simp: becomes_def split: option.splits)
  note u = redis_db_kuniq(2) [OF ok]
  have "kfind (entries d') = (xkey sv i)(?t := None) \<and> set (entries d') \<subseteq> set (entries (db_expires ?db)) \<and> length (entries d') \<le> length (entries (db_expires ?db))"
  proof (cases "xkey sv i ?t")
    case None
    then have m: "mset (entries d') = mset (entries (db_expires ?db))" using d'(4) by simp
    show ?thesis using kfind_mset [OF u m] mset_eq_setD [OF m] mset_eq_length [OF m] None by (simp add: xkey_def fun_upd_idem)
  next
    case (Some x)
    then have x: "x \<in> set (entries (db_expires ?db))" "key_bytes (de_key x) = ?t" using kfind_iff [OF u] by (simp_all add: xkey_def)
    have m: "mset (entries d') = mset (entries (db_expires ?db)) - {#x#}" using d'(4) Some by simp
    have "mset (entries (db_expires ?db)) = mset (x # entries d')" using m x(1) by simp
    from mset_eq_setD [OF this] mset_eq_length [OF this] show ?thesis using kfind_del(1) [OF u x(1) m] x(2) by (auto simp: xkey_def)
  qed
  then have e: "kfind (entries d') = (xkey sv i)(?t := None)" "set (entries d') \<subseteq> set (entries (db_expires ?db))"
    "length (entries d') \<le> length (entries (db_expires ?db))" by simp_all
  let ?sv = "sv\<lparr>dbs := (dbs sv)[i := ?db\<lparr>db_expires := d'\<rparr>], page_pool := pool d'\<rparr>"
  have "kstep 0 base held sv w ?sv w (put_key i ?t (case mkey sv i ?t of None \<Rightarrow> None
      | Some e \<Rightarrow> Some (text_at (heap w) (entry_obj e), Option.bind (None :: (dbkey, int) dictEntry option) de_val)) (ks_abs sv w)) \<and>
    mkey ?sv i = mkey sv i \<and> xkey ?sv i = (xkey sv i)(?t := None) \<and> next_copy ?sv = next_copy sv"
    using ok e(2,3) d'(3) by (intro exp_change [OF ks i d'(2) _ e(1), where k = 0]) (auto simp: redis_db_ok_def)
  then show ?thesis
    using d'(1) i expire_at_abs [OF i, of ?t "None :: (dbkey, int) dictEntry option"] by (intro exI [of _ ?sv]) (simp add: on_expires_def)
qed

text \<open>The store of \<open>setExpire\<close>.\<close>

lemma replaceRaw_becomes:
  assumes "type_ok T" and "dict_ok T d" and "lookup T d key = None \<Longrightarrow> gets_entry d a ag"
  shows "\<exists>d'. rbind (dictReplaceRaw T d key) (\<lambda>(d, de). case de of None \<Rightarrow> Inl NullEntry | Some de \<Rightarrow> Inr (dictSetVal T (de_addr de) v d, ())) =
      Inr (d', ()) \<and> (case lookup T d key of
        None \<Rightarrow> becomes T d d' (add_mset \<lparr>de_addr = a, de_key = dup_key T key, de_val = Some (dup_val T v)\<rparr> (ents d)) [] ag
      | Some e \<Rightarrow> becomes T d d' (add_mset (e\<lparr>de_val := Some (dup_val T v)\<rparr>) (ents d - {#e#})) [] (pool d))"
proof (cases "lookup T d key")
  case None
  obtain d1 where 1: "dictFind T d key = Inr (d1, None)" "becomes T d d1 (ents d) [] (pool d)"
    using dictFind_becomes [OF assms(1,2), of key] None by auto
  have ok1: "dict_ok T d1" using 1(2) by (simp add: becomes_def)
  have l1: "lookup T d1 key = None" using lookup_becomes [OF assms(1,2) 1(2)] None by simp
  have "ents d1 = ents d" using 1(2) by (simp add: becomes_def)
  from mset_eq_setD [OF this] mset_eq_length [OF this]
  have ent: "set (entries d1) = set (entries d)" "length (entries d1) = length (entries d)" by simp_all
  have g: "gets_entry d1 a ag" using assms(3) [OF None] 1(2) ent by (simp add: gets_entry_def pool_gives_def becomes_def)
  obtain d2 where 2: "dictAddRaw T d1 key = Inr (d2, Some (new_entry T a key))"
    "becomes T d1 d2 (add_mset (new_entry T a key) (ents d1)) [] ag"
    using dictAddRaw_becomes [OF assms(1) ok1 l1 g] by blast
  have "becomes T d d2 (add_mset (new_entry T a key) (mset (entries d))) [] ag" using 1(2) 2(2) by (simp add: becomes_def)
  moreover have "a \<notin> de_addr ` set (entries d)" using assms(3) [OF None] by (simp add: gets_entry_def pool_gives_def)
  ultimately show ?thesis using dictSetVal_becomes [of T d d2 "new_entry T a key" "entries d" "[]" ag a v] 1(1) 2(1) None
    by (simp add: dictReplaceRaw_def)
next
  case (Some e)
  obtain d1 where 1: "dictFind T d key = Inr (d1, Some e)" "becomes T d d1 (ents d) [] (pool d)"
    using dictFind_becomes [OF assms(1,2), of key] Some by auto
  obtain es where es: "ents d = add_mset e (mset es)" "de_addr e \<notin> de_addr ` set es" using lookup_entry [OF assms(2) Some] .
  have "becomes T d d1 (add_mset e (mset es)) [] (pool d)" using 1(2) es(1) by simp
  from dictSetVal_becomes [OF this refl es(2), of v] show ?thesis using 1(1) Some es(1) by (simp add: dictReplaceRaw_def)
qed

lemma set_exp:
  assumes ks: "ks_ok base held sv w" and i: "i < length (dbs sv)" and mk: "mkey sv i t = Some kde" and room: "ks_room 1 sv"
  shows "\<exists>sv' y. on_expires i (\<lambda>T d. rbind (dictReplaceRaw T d (de_key kde)) (\<lambda>(d, de).
         case de of None \<Rightarrow> Inl NullEntry | Some de \<Rightarrow> Inr (dictSetVal T (de_addr de) time d, ()))) sv w = Inr ((), sv', w) \<and>
    kstep 1 base held sv w sv' w (expire_at i t (Some time) (ks_abs sv w)) \<and>
    mkey sv' i = mkey sv i \<and> xkey sv' i = (xkey sv i)(t \<mapsto> y) \<and> de_val y = Some time \<and> next_copy sv' = next_copy sv"
proof -
  let ?T = "keyptrDictType (hash_seed sv)" and ?db = "dbs sv ! i" let ?d = "prep sv (db_expires ?db)" and ?k = "de_key kde"
  have ok: "redis_db_ok (hash_seed sv) ?db" and mem: "?db \<in> set (dbs sv)" using ks_db [OF ks i] i by simp_all
  have dk: "dict_ok ?T ?d" using ok by (simp add: redis_db_ok_def)
  note kd = mkeyD [OF ks i mk]
  have l: "lookup ?T ?d ?k = xkey sv i t" using main_lookup(2) [OF ks i kd(5)] kd(2) by simp
  obtain a ag where a: "alloc_entry_random sizeof_dictEntry (page_pool sv) = Inr (a, ag)" "gets_entry ?d a ag"
    using room_entry [OF room mem] by metis
  obtain d' where d': "rbind (dictReplaceRaw ?T ?d ?k) (\<lambda>(d, de). case de of None \<Rightarrow> Inl NullEntry
      | Some de \<Rightarrow> Inr (dictSetVal ?T (de_addr de) time d, ())) = Inr (d', ())" "case xkey sv i t of
        None \<Rightarrow> becomes ?T ?d d' (add_mset \<lparr>de_addr = a, de_key = ?k, de_val = Some time\<rparr> (ents ?d)) [] ag
      | Some e \<Rightarrow> becomes ?T ?d d' (add_mset (e\<lparr>de_val := Some time\<rparr>) (ents ?d - {#e#})) [] (page_pool sv)"
    using replaceRaw_becomes [OF db_type_ok(2) dk, of ?k a ag time] a(2) l by (cases "xkey sv i t") auto
  note u = redis_db_kuniq(2,3) [OF ok]
  define y where "y = (case xkey sv i t of None \<Rightarrow> \<lparr>de_addr = a, de_key = ?k, de_val = Some time\<rparr> | Some e \<Rightarrow> e\<lparr>de_val := Some time\<rparr>)"
  have yv: "de_val y = Some time" by (simp add: y_def split: option.split)
  have dk': "dict_ok ?T d'" using d'(2) by (auto simp: becomes_def split: option.splits)
  have "\<exists>ys. ents d' = add_mset y (mset ys) \<and> set ys \<subseteq> set (entries (db_expires ?db)) \<and> key_bytes (de_key y) = t \<and>
      de_key y \<in> de_key ` set (entries (db_dict ?db)) \<and> (xkey sv i)(t \<mapsto> y) = (kfind ys)(t \<mapsto> y) \<and>
      (case xkey sv i t of None \<Rightarrow> pool d' = ag \<and> de_addr y = a \<and> length ys = length (entries (db_expires ?db))
       | Some x \<Rightarrow> pool d' = page_pool sv \<and> de_addr y \<in> de_addr ` set (entries (db_expires ?db)) \<and> Suc (length ys) = length (entries (db_expires ?db)))"
  proof (cases "xkey sv i t")
    case None
    then show ?thesis using d'(2) kd(1,2) by (intro exI [of _ "entries (db_expires ?db)"]) (auto simp: becomes_def y_def xkey_def)
  next
    case (Some x)
    then have x: "x \<in> set (entries (db_expires ?db))" "key_bytes (de_key x) = t" using kfind_iff [OF u(1)] by (simp_all add: xkey_def)
    then obtain ys where ys: "ents (db_expires ?db) = add_mset x (mset ys)" by (metis mset_remove1 in_multiset_in_set insert_DiffM)
    have "de_key x \<in> de_key ` set (entries (db_dict ?db))" using ok x(1) by (simp add: redis_db_ok_def)
    moreover have "xkey sv i = (kfind ys)(t \<mapsto> x)" using kfind_add(1) [OF u(1) ys] x(2) by (simp add: xkey_def)
    ultimately show ?thesis
      using d'(2) Some ys x set_add_mset [OF ys] mset_eq_length [of "entries (db_expires ?db)" "x # ys"]
      by (intro exI [of _ ys]) (auto simp: becomes_def y_def)
  qed
  then obtain ys where ys: "ents d' = add_mset y (mset ys)" "set ys \<subseteq> set (entries (db_expires ?db))" "key_bytes (de_key y) = t"
    "de_key y \<in> de_key ` set (entries (db_dict ?db))" "(xkey sv i)(t \<mapsto> y) = (kfind ys)(t \<mapsto> y)"
    "case xkey sv i t of None \<Rightarrow> pool d' = ag \<and> de_addr y = a \<and> length ys = length (entries (db_expires ?db))
       | Some x \<Rightarrow> pool d' = page_pool sv \<and> de_addr y \<in> de_addr ` set (entries (db_expires ?db)) \<and> Suc (length ys) = length (entries (db_expires ?db))" by blast
  have keys: "\<forall>x\<in>set (entries d'). de_val x \<noteq> None \<and> de_key x \<in> de_key ` set (entries (db_dict ?db))"
    using ok ys(2,4) yv set_add_mset [OF ys(1)] by (auto simp: redis_db_ok_def)
  have "names_ok (entries d')" using keys ok by (fastforce simp: names_ok_def redis_db_ok_def)
  then have "kuniq (entries d')" using db_kuniq(2) dict_ok_uniq [OF dk'] by blast
  then have kf: "kfind (entries d') = (xkey sv i)(t := Some y)" using kfind_add(1) [OF _ ys(1)] ys(3,5) by simp
  have pl: "0 = (1::nat) \<and> pool d' = page_pool sv \<and> de_addr ` set (entries d') \<subseteq> de_addr ` set (entries (db_expires ?db)) \<or>
      1 = (1::nat) \<and> alloc_entry_random sizeof_dictEntry (page_pool sv) = Inr (a, pool d') \<and>
        de_addr ` set (entries d') \<subseteq> insert a (de_addr ` set (entries (db_expires ?db)))" if "xkey sv i t = None"
    using ys(2,6) a(1) that set_add_mset [OF ys(1)] by auto
  have len: "length (entries d') \<le> length (entries (db_expires ?db)) + (if xkey sv i t = None then 1 else 0)"
    using ys(6) mset_eq_length [of "entries d'" "y # ys"] ys(1) by (auto split: option.splits)
  let ?sv = "sv\<lparr>dbs := (dbs sv)[i := ?db\<lparr>db_expires := d'\<rparr>], page_pool := pool d'\<rparr>" and ?k = "if xkey sv i t = None then 1 else 0 :: nat"
  have "kstep ?k base held sv w ?sv w (put_key i t (case mkey sv i t of None \<Rightarrow> None
      | Some e \<Rightarrow> Some (text_at (heap w) (entry_obj e), Option.bind (Some y) de_val)) (ks_abs sv w)) \<and>
    mkey ?sv i = mkey sv i \<and> xkey ?sv i = (xkey sv i)(t := Some y) \<and> next_copy ?sv = next_copy sv"
    using ys(2,6) a(1) set_add_mset [OF ys(1)]
    by (intro exp_change [OF ks i dk' keys kf _ len refl, where a = a]) (auto split: option.splits)
  moreover have "kstep 1 base held sv w ?sv w s" if "kstep ?k base held sv w ?sv w s" for s
    using that ks_room_mono by (auto simp: kstep_def)
  ultimately show ?thesis
    using d'(1) i yv expire_at_abs [OF i, of t "Some y"] by (intro exI [of _ ?sv] exI [of _ y]) (simp add: on_expires_def)
qed

end
