(* ===== verification/Keyspace_Map.thy ===== *)
theory Keyspace_Map
  imports Keyspace_Steps
begin

text \<open>
  The functions of \<open>db.c\<close> as operations of the abstract keyspace: keys that have expired vanish when they are looked up,
  a new value takes the place of the old one with its expire time, and every deletion by expiry is fed to the append
  only file and the slaves.
\<close>

section \<open>The abstract operations\<close>

record kconf =
  kc_loading :: bool
  kc_slave :: bool
  kc_times :: "nat \<Rightarrow> int"
  kc_del :: "nat \<Rightarrow> char list \<Rightarrow> server_event list"   \<comment> \<open>what the deletion of a key feeds\<close>
  kc_watch :: "nat \<Rightarrow> char list \<Rightarrow> nat list"           \<comment> \<open>the clients that watch a key\<close>

definition kconf_of :: "keyspace_server \<Rightarrow> nworld \<Rightarrow> kconf" where
  "kconf_of sv w = \<lparr>kc_loading = loading sv, kc_slave = is_slave sv, kc_times = times sv,
     kc_del = (\<lambda>i t. let args = [text_at (heap w) (del_obj (shared w)), t] in
       (if aof_on sv then [FeedAppendOnlyFile (del_command sv) i args] else []) @ (if slaves sv \<noteq> 0 then [FeedSlaves i args] else [])),
     kc_watch = (\<lambda>i t. if i < length (db_watched sv)
       then (case map_of (Watch.tab (heap w) (db_watched sv ! i)) t of None \<Rightarrow> [] | Some clients \<Rightarrow> clients) else [])\<rparr>"

definition sp_getExpire :: "nat \<Rightarrow> char list \<Rightarrow> kstate \<Rightarrow> int" where
  "sp_getExpire i t s = (case keys s i t of Some (_, Some x) \<Rightarrow> x | _ \<Rightarrow> - 1)"

text \<open>Expiry on access. The flag is what \<open>expireIfNeeded\<close> answers.\<close>

definition sp_expire :: "kconf \<Rightarrow> nat \<Rightarrow> char list \<Rightarrow> kstate \<Rightarrow> bool \<times> kstate" where
  "sp_expire cf i t s =
     (let x = sp_getExpire i t s in
      if x < 0 \<or> kc_loading cf then (False, s)
      else let now = kc_times cf (reads s) div 1000; s = s\<lparr>reads := reads s + 1\<rparr> in
        if kc_slave cf then (now > x, s)
        else if now \<le> x then (False, s)
        else (True, put_key i t None (s\<lparr>expired := expired s + 1, fed := fed s @ kc_del cf i t\<rparr>)))"

definition sp_lookup :: "nat \<Rightarrow> char list \<Rightarrow> kstate \<Rightarrow> char list option" where
  "sp_lookup i t s = map_option fst (keys s i t)"

definition sp_lookupRead :: "kconf \<Rightarrow> nat \<Rightarrow> char list \<Rightarrow> kstate \<Rightarrow> char list option \<times> kstate" where
  "sp_lookupRead cf i t s =
     (let s = snd (sp_expire cf i t s); v = sp_lookup i t s
      in (v, if v = None then s\<lparr>misses := misses s + 1\<rparr> else s\<lparr>hits := hits s + 1\<rparr>))"

definition sp_lookupWrite :: "kconf \<Rightarrow> nat \<Rightarrow> char list \<Rightarrow> kstate \<Rightarrow> char list option \<times> kstate" where
  "sp_lookupWrite cf i t s = (let s = snd (sp_expire cf i t s) in (sp_lookup i t s, s))"

definition sp_signal :: "kconf \<Rightarrow> nat \<Rightarrow> char list \<Rightarrow> kstate \<Rightarrow> kstate" where
  "sp_signal cf i t s = s\<lparr>flagged := flagged s @ kc_watch cf i t\<rparr>"

definition sp_setKey :: "kconf \<Rightarrow> nat \<Rightarrow> char list \<Rightarrow> char list \<Rightarrow> kstate \<Rightarrow> kstate" where
  "sp_setKey cf i t v s = sp_signal cf i t (put_key i t (Some (v, None)) (snd (sp_expire cf i t s)))"

section \<open>Steps of the server and of the object store\<close>

lemma misc_step:
  assumes "ks_ok base held sv w"
    and "sv' = sv\<lparr>ticks := t, redisServer.events := ev, stat_keyspace_hits := a, stat_keyspace_misses := b, stat_expiredkeys := c, touched := tc\<rparr>"
  shows "kstep 0 base held sv w sv' w ((ks_abs sv w)\<lparr>reads := t, fed := ev, hits := a, misses := b, expired := c, flagged := tc\<rparr>)"
    and "mkey sv' = mkey sv" "xkey sv' = xkey sv"
proof -
  have v: "vals sv' = vals sv" "all_entries sv' = all_entries sv" by (simp_all add: vals_def all_entries_def assms(2))
  have "ks_ok base held sv' w" using assms(1) v unfolding ks_ok_def dbs_ok_def copies_ok_def base_ok_def by (simp add: assms(2))
  moreover have "ks_room n sv' = ks_room n sv" for n using v by (simp add: ks_room_def assms(2))
  ultimately show "kstep 0 base held sv w sv' w ((ks_abs sv w)\<lparr>reads := t, fed := ev, hits := a, misses := b, expired := c, flagged := tc\<rparr>)"
    by (simp add: kstep_def kframe_def fixed_def ks_abs_def assms(2) cong: if_cong)
  show "mkey sv' = mkey sv" "xkey sv' = xkey sv" by (simp_all add: mkey_def xkey_def assms(2) fun_eq_iff)
qed

lemma field_steps:
  assumes ks: "ks_ok base held sv w"
  shows "kstep 0 base held sv w (sv\<lparr>ticks := t\<rparr>) w ((ks_abs sv w)\<lparr>reads := t\<rparr>)"
    and "kstep 0 base held sv w (sv\<lparr>redisServer.events := ev\<rparr>) w ((ks_abs sv w)\<lparr>fed := ev\<rparr>)"
    and "kstep 0 base held sv w (sv\<lparr>stat_keyspace_hits := n\<rparr>) w ((ks_abs sv w)\<lparr>hits := n\<rparr>)"
    and "kstep 0 base held sv w (sv\<lparr>stat_keyspace_misses := n\<rparr>) w ((ks_abs sv w)\<lparr>misses := n\<rparr>)"
    and "kstep 0 base held sv w (sv\<lparr>stat_expiredkeys := n\<rparr>) w ((ks_abs sv w)\<lparr>expired := n\<rparr>)"
    and "kstep 0 base held sv w (sv\<lparr>touched := tc\<rparr>) w ((ks_abs sv w)\<lparr>flagged := tc\<rparr>)"
proof -
  note m = misc_step(1) [OF ks refl, where ev = "redisServer.events sv" and a = "stat_keyspace_hits sv" and b = "stat_keyspace_misses sv" and c = "stat_expiredkeys sv" and tc = "touched sv"]
    misc_step(1) [OF ks refl, where t = "ticks sv" and a = "stat_keyspace_hits sv" and b = "stat_keyspace_misses sv" and c = "stat_expiredkeys sv" and tc = "touched sv"]
    misc_step(1) [OF ks refl, where t = "ticks sv" and ev = "redisServer.events sv" and b = "stat_keyspace_misses sv" and c = "stat_expiredkeys sv" and tc = "touched sv"]
    misc_step(1) [OF ks refl, where t = "ticks sv" and ev = "redisServer.events sv" and a = "stat_keyspace_hits sv" and c = "stat_expiredkeys sv" and tc = "touched sv"]
    misc_step(1) [OF ks refl, where t = "ticks sv" and ev = "redisServer.events sv" and a = "stat_keyspace_hits sv" and b = "stat_keyspace_misses sv" and tc = "touched sv"]
    misc_step(1) [OF ks refl, where t = "ticks sv" and ev = "redisServer.events sv" and a = "stat_keyspace_hits sv" and b = "stat_keyspace_misses sv" and c = "stat_expiredkeys sv"]
  show "kstep 0 base held sv w (sv\<lparr>ticks := t\<rparr>) w ((ks_abs sv w)\<lparr>reads := t\<rparr>)" using m(1) [of t] by (simp add: ks_abs_def)
  show "kstep 0 base held sv w (sv\<lparr>redisServer.events := ev\<rparr>) w ((ks_abs sv w)\<lparr>fed := ev\<rparr>)" using m(2) [of ev] by (simp add: ks_abs_def)
  show "kstep 0 base held sv w (sv\<lparr>stat_keyspace_hits := n\<rparr>) w ((ks_abs sv w)\<lparr>hits := n\<rparr>)" using m(3) [of n] by (simp add: ks_abs_def)
  show "kstep 0 base held sv w (sv\<lparr>stat_keyspace_misses := n\<rparr>) w ((ks_abs sv w)\<lparr>misses := n\<rparr>)" using m(4) [of n] by (simp add: ks_abs_def)
  show "kstep 0 base held sv w (sv\<lparr>stat_expiredkeys := n\<rparr>) w ((ks_abs sv w)\<lparr>expired := n\<rparr>)" using m(5) [of n] by (simp add: ks_abs_def)
  show "kstep 0 base held sv w (sv\<lparr>touched := tc\<rparr>) w ((ks_abs sv w)\<lparr>flagged := tc\<rparr>)" using m(6) [of tc] by (simp add: ks_abs_def)
qed

lemma field_keys [simp]:
  "mkey (sv\<lparr>ticks := t\<rparr>) = mkey sv" "mkey (sv\<lparr>redisServer.events := ev\<rparr>) = mkey sv" "mkey (sv\<lparr>stat_keyspace_hits := n\<rparr>) = mkey sv"
  "mkey (sv\<lparr>stat_keyspace_misses := n\<rparr>) = mkey sv" "mkey (sv\<lparr>stat_expiredkeys := n\<rparr>) = mkey sv" "mkey (sv\<lparr>touched := tc\<rparr>) = mkey sv"
  by (simp_all add: mkey_def fun_eq_iff)

lemma heap_step:
  assumes ks: "ks_ok base held sv w" and st: "store_ok h' (base @ held' @ vals sv)" and sm: "same (heap w) h' (set (base @ held' @ vals sv))"
    and hf: "shared_integers h' = shared_integers (heap w)" "maxmemory h' = maxmemory (heap w)" and len: "length (base @ held') \<le> HELD_LIMIT"
  shows "kstep 0 base held' sv w sv (w\<lparr>heap := h'\<rparr>) (ks_abs sv w)"
proof -
  have "base_ok base sv (w\<lparr>heap := h'\<rparr>)" using base_same [of base sv w h' sv] ks sm by (auto simp: ks_ok_def same_def)
  then have "ks_ok base held' sv (w\<lparr>heap := h'\<rparr>)" using ks st len solid_same [OF sm] by (auto simp: ks_ok_def)
  moreover have "db_view h' db = db_view (heap w) db" if "db \<in> set (dbs sv)" for db
    using entries_vals [OF that] by (intro db_view_same [OF sm]) auto
  then have "ks_abs sv (w\<lparr>heap := h'\<rparr>) = ks_abs sv w" by (simp add: ks_abs_def cong: if_cong)
  moreover have "kframe (base @ held') sv w sv (w\<lparr>heap := h'\<rparr>)" using sm hf by (auto simp: kframe_def same_def)
  ultimately show ?thesis by (simp add: kstep_def)
qed

lemma kframe_fields: "kframe A sv w sv' w' \<Longrightarrow> shared w' = shared w \<and> sock w' = sock w \<and> client_obuf_limits w' = client_obuf_limits w \<and>
    unixtime w' = unixtime w \<and> clients_to_close w' = clients_to_close w"
  unfolding kframe_def by (metis nworld.simps(8-12) nworld.select_convs nworld.update_convs(1) nworld.surjective)

lemma conf_eq:
  assumes "kframe A sv w sv' w'" and "set base \<subseteq> set A" and "base_ok base sv w"
  shows "kconf_of sv' w' = kconf_of sv w"
proof -
  have f: "fixed sv' = fixed sv" and sm: "same (heap w) (heap w') (set base)"
    using assms(1,2) by (auto simp: kframe_def same_def)
  note fs = fixed_sel [OF f] and sh = conjunct1 [OF kframe_fields [OF assms(1)]]
  have t: "Watch.tab (heap w') (db_watched sv ! i) = Watch.tab (heap w) (db_watched sv ! i)" if "i < length (db_watched sv)" for i
    using db_same(2) [OF sm] assms(3) that by (simp add: base_ok_def)
  have "text_at (heap w') (del_obj (shared w)) = text_at (heap w) (del_obj (shared w))"
    using assms(3) by (intro text_same [OF sm]) (simp add: base_ok_def)
  then show ?thesis using t by (simp add: kconf_of_def fs sh Let_def cong: if_cong)
qed

lemma kstep_conf: "ks_ok base held sv w \<Longrightarrow> kstep k base held' sv w sv' w' s \<Longrightarrow> kconf_of sv' w' = kconf_of sv w"
  using conf_eq [of "base @ held'" sv w sv' w' base] by (simp add: kstep_def ks_ok_def)

section \<open>The functions of \<open>db.c\<close>\<close>

lemma view_abs: "i < length (dbs sv) \<Longrightarrow> keys (ks_abs sv w) i t = (case mkey sv i t of None \<Rightarrow> None
    | Some e \<Rightarrow> Some (text_at (heap w) (entry_obj e), Option.bind (xkey sv i t) de_val))"
  by (simp add: keys_abs db_view_def mkey_def xkey_def split: option.split)

lemma xkeyD:
  assumes "ks_ok base held sv w" and "i < length (dbs sv)" and "xkey sv i t = Some x"
  shows "mkey sv i t \<noteq> None" "de_val x \<noteq> None" "key_bytes (de_key x) = t"
proof -
  have ok: "redis_db_ok (hash_seed sv) (dbs sv ! i)" using ks_db [OF assms(1,2)] .
  have x: "x \<in> set (entries (db_expires (dbs sv ! i)))" "key_bytes (de_key x) = t"
    using assms(3) kfind_iff [OF redis_db_kuniq(2) [OF ok]] by (simp_all add: xkey_def)
  then show "de_val x \<noteq> None" "key_bytes (de_key x) = t" using ok by (simp_all add: redis_db_ok_def)
  have "de_key x \<in> de_key ` set (entries (db_dict (dbs sv ! i)))" using ok x(1) by (simp add: redis_db_ok_def)
  then show "mkey sv i t \<noteq> None" using x(2) by (auto simp: mkey_def kfind_None)
qed

lemma getExpire_ok:
  assumes ks: "ks_ok base held sv w" and i: "i < length (dbs sv)" and key: "key_ok (heap w) key"
  shows "\<exists>sv'. getExpire i key sv w = Inr (sp_getExpire i (text_at (heap w) key) (ks_abs sv w), sv', w) \<and> kquiet base held sv w sv'"
proof (cases "dictSize (db_expires (dbs sv ! i)) = 0")
  case True
  have "dict_ok (keyptrDictType (hash_seed sv)) (db_expires (dbs sv ! i))" using ks_db [OF ks i] by (simp add: redis_db_ok_def)
  from dictSize_count [OF this] True have "xkey sv i t = None" for t by (simp add: xkey_def kfind_def)
  then have "sp_getExpire i t (ks_abs sv w) = - 1" for t using i by (simp add: sp_getExpire_def view_abs split: option.split)
  then show ?thesis using True i kquiet_refl [OF ks] by (simp add: getExpire_def)
next
  case False
  let ?t = "text_at (heap w) key"
  obtain k where k: "key_of w key = Inr k" "sds_ok (kname k)" "key_bytes k = ?t" using key_of_ok [OF ks_store [OF ks] key] by blast
  obtain sv1 where 1: "on_expires i (\<lambda>T d. dictFind T d k) sv w = Inr (xkey sv i ?t, sv1, w)" "kquiet base held sv w sv1"
    using on_expires_find [OF ks i k(2)] k(3) by auto
  note q1 = kquiet_ok [OF 1(2)]
  show ?thesis
  proof (cases "xkey sv i ?t")
    case None
    then have "sp_getExpire i ?t (ks_abs sv w) = - 1" using i by (simp add: sp_getExpire_def view_abs split: option.split)
    then show ?thesis using 1 k(1) None False i by (simp add: getExpire_def)
  next
    case (Some x)
    note x = xkeyD [OF ks i Some]
    obtain y where y: "de_val x = Some y" using x(2) by blast
    obtain e where e: "mkey sv i ?t = Some e" using x(1) by blast
    then have e1: "mkey sv1 i ?t = Some e" using 1(2) i by (simp add: kquiet_def)
    obtain sv2 where 2: "assert_present i key sv1 w = Inr (e, sv2, w)" "kquiet base held sv1 w sv2"
      using assert_present_ok [of base held sv1 w i key e] q1 i key e1 by auto
    have "sp_getExpire i ?t (ks_abs sv w) = y" using i e Some y by (simp add: sp_getExpire_def view_abs)
    then show ?thesis using 1 2 k(1) Some False i y kquiet_trans [OF 1(2) 2(2)] by (simp add: getExpire_def dictGetVal_def)
  qed
qed

lemma put_same: "keys s i t = v \<Longrightarrow> put_key i t v s = s"
  by (auto simp: put_key_def)

lemma put_expire: "put_key i t None (expire_at i t x s) = put_key i t None s"
  by (simp add: put_key_def expire_at_def)

lemma expire_at_None: "keys s i t = None \<Longrightarrow> expire_at i t x s = s"
  by (simp add: expire_at_def put_same)

lemma mkey_view: "i < length (dbs sv) \<Longrightarrow> mkey sv i t = None \<longleftrightarrow> keys (ks_abs sv w) i t = None"
  by (simp add: view_abs split: option.split)

lemma xkey_view: "ks_ok base held sv w \<Longrightarrow> i < length (dbs sv) \<Longrightarrow> mkey sv i t = None \<Longrightarrow> xkey sv i t = None"
  using xkeyD(1) by fastforce

lemma kstep_ok: "kstep k base held sv w sv' w' s \<Longrightarrow> ks_ok base held sv' w' \<and> ks_abs sv' w' = s \<and> length (dbs sv') = length (dbs sv)"
  by (simp add: kstep_def kframe_def)

lemma kstep_key:
  assumes "kstep k base held sv w sv' w' s" and "key \<in> set (base @ held)"
  shows "key_ok (heap w') key = key_ok (heap w) key" "text_at (heap w') key = text_at (heap w) key"
  using keys_same [of "heap w" "heap w'" "set (base @ held)" key] assms by (auto simp: kstep_def kframe_def)

lemma dbDelete_ok:
  assumes ks: "ks_ok base held sv w" and i: "i < length (dbs sv)" and key: "key_ok (heap w) key"
  defines "t \<equiv> text_at (heap w) key"
  shows "\<exists>sv' w'. dbDelete i key sv w = Inr (keys (ks_abs sv w) i t \<noteq> None, sv', w') \<and>
    kstep 0 base held sv w sv' w' (put_key i t None (ks_abs sv w))"
proof -
  obtain k where k: "key_of w key = Inr k" "sds_ok (kname k)" "key_bytes k = t"
    using key_of_ok [OF ks_store [OF ks] key] by (auto simp: t_def)
  obtain b sv1 where 1: "(if dictSize (db_expires (dbs sv ! i)) > 0 then on_expires i (\<lambda>T d. dictDelete T d k) sv w else Inr (False, sv, w)) =
      Inr (b, sv1, w)" "kstep 0 base held sv w sv1 w (expire_at i t None (ks_abs sv w))" "mkey sv1 i = mkey sv i" "xkey sv1 i t = None"
  proof (cases "dictSize (db_expires (dbs sv ! i)) > 0")
    case True
    with del_exp [OF ks i k(2)] k(3) that show thesis by auto
  next
    case False
    have "dict_ok (keyptrDictType (hash_seed sv)) (db_expires (dbs sv ! i))" using ks_db [OF ks i] by (simp add: redis_db_ok_def)
    from dictSize_count [OF this] False have n: "xkey sv i t = None" by (simp add: xkey_def kfind_def)
    then have "expire_at i t None (ks_abs sv w) = ks_abs sv w"
      using i by (auto simp: expire_at_def view_abs intro!: put_same split: option.split)
    with kstep_refl [OF ks] n False that [of False sv] show thesis by simp
  qed
  note s1 = kstep_ok [OF 1(2)]
  have i1: "i < length (dbs sv1)" using i s1 by simp
  show ?thesis
  proof (cases "mkey sv i t")
    case None
    then have e: "keys (ks_abs sv w) i t = None" using mkey_view [OF i] by blast
    have m1: "mkey sv1 i t = None" using None 1(3) by simp
    from k(3) m1 on_dict_delete_none [OF _ i1 k(2), of base held w] s1 obtain sv2 where
      2: "on_dict i (\<lambda>T d. dictDelete T d k) sv1 w = Inr (False, sv2, w)" "kquiet base held sv1 w sv2" by auto
    have "kstep 0 base held sv w sv2 w (ks_abs sv w)"
      using kstep_trans [OF 1(2), of 0 sv2 w "ks_abs sv1 w"] 2(2) s1 e by (simp add: kquiet_def expire_at_None)
    then show ?thesis using k(1) 1(1) 2(1) i e by (auto simp: dbDelete_def put_same)
  next
    case (Some e)
    then have p: "keys (ks_abs sv w) i t \<noteq> None" using mkey_view [OF i, of t w] by simp
    obtain sv2 w2 where 2: "on_dict i (\<lambda>T d. dictDelete T d k) sv1 w = Inr (True, sv2, w2)"
      "kstep 0 base held sv1 w sv2 w2 (put_key i t None (ks_abs sv1 w))"
      using del_main [of base held sv1 w i k e] s1 i1 k(2,3) Some 1(3,4) by auto
    have "kstep 0 base held sv w sv2 w2 (put_key i t None (ks_abs sv w))"
      using kstep_trans [OF 1(2) 2(2)] s1 by (simp add: put_expire)
    then show ?thesis using k(1) 1(1) 2(1) i p by (auto simp: dbDelete_def)
  qed
qed

definition has_expire :: "nat \<Rightarrow> char list \<Rightarrow> kstate \<Rightarrow> bool" where
  "has_expire i t s \<longleftrightarrow> (case keys s i t of Some (_, Some _) \<Rightarrow> True | _ \<Rightarrow> False)"

lemma has_expire_abs:
  assumes "ks_ok base held sv w" and "i < length (dbs sv)"
  shows "has_expire i t (ks_abs sv w) \<longleftrightarrow> xkey sv i t \<noteq> None"
  using xkeyD [OF assms, of t] assms(2) by (cases "xkey sv i t") (auto simp: has_expire_def view_abs split: option.split)

lemma removeExpire_ok:
  assumes ks: "ks_ok base held sv w" and i: "i < length (dbs sv)" and key: "key_ok (heap w) key"
    and p: "keys (ks_abs sv w) i (text_at (heap w) key) \<noteq> None"
  shows "\<exists>sv'. removeExpire i key sv w = Inr (has_expire i (text_at (heap w) key) (ks_abs sv w), sv', w) \<and>
    kstep 0 base held sv w sv' w (expire_at i (text_at (heap w) key) None (ks_abs sv w))"
proof -
  let ?t = "text_at (heap w) key"
  obtain e where e: "mkey sv i ?t = Some e" using p i by (auto simp: view_abs split: option.splits)
  obtain sv1 where 1: "assert_present i key sv w = Inr (e, sv1, w)" "kquiet base held sv w sv1"
    using assert_present_ok [OF ks i key e] by blast
  note q = kquiet_ok [OF 1(2)]
  obtain k where k: "key_of w key = Inr k" "sds_ok (kname k)" "key_bytes k = ?t" using key_of_ok [OF ks_store [OF ks] key] by blast
  obtain sv2 where 2: "on_expires i (\<lambda>T d. dictDelete T d k) sv1 w = Inr (xkey sv1 i ?t \<noteq> None, sv2, w)"
    "kstep 0 base held sv1 w sv2 w (expire_at i ?t None (ks_abs sv1 w))"
    using del_exp [of base held sv1 w i k] q i k(2,3) by auto
  have "kstep 0 base held sv w sv2 w (expire_at i ?t None (ks_abs sv w))" using kquiet_step [OF 1(2)] 2(2) q by simp
  moreover have "xkey sv1 i ?t = xkey sv i ?t" using 1(2) i by (simp add: kquiet_def)
  ultimately show ?thesis using 1(1) 2(1) k(1) has_expire_abs [OF ks i] by (simp add: removeExpire_def)
qed

lemma setExpire_ok:
  assumes ks: "ks_ok base held sv w" and i: "i < length (dbs sv)" and key: "key_ok (heap w) key"
    and p: "keys (ks_abs sv w) i (text_at (heap w) key) \<noteq> None" and room: "ks_room 1 sv"
  shows "\<exists>sv'. setExpire i key time sv w = Inr ((), sv', w) \<and>
    kstep 1 base held sv w sv' w (expire_at i (text_at (heap w) key) (Some time) (ks_abs sv w))"
proof -
  let ?t = "text_at (heap w) key"
  obtain e where e: "mkey sv i ?t = Some e" using p i by (auto simp: view_abs split: option.splits)
  obtain sv1 where 1: "assert_present i key sv w = Inr (e, sv1, w)" "kquiet base held sv w sv1"
    using assert_present_ok [OF ks i key e] by blast
  note q = kquiet_ok [OF 1(2)]
  have "mkey sv1 i ?t = Some e" using 1(2) i e by (simp add: kquiet_def)
  then obtain sv2 where 2: "on_expires i (\<lambda>T d. rbind (dictReplaceRaw T d (de_key e)) (\<lambda>(d, de).
         case de of None \<Rightarrow> Inl NullEntry | Some de \<Rightarrow> Inr (dictSetVal T (de_addr de) time d, ()))) sv1 w = Inr ((), sv2, w)"
    "kstep 1 base held sv1 w sv2 w (expire_at i ?t (Some time) (ks_abs sv1 w))"
    using set_exp [of base held sv1 w i ?t e time] q i room by auto
  have "kstep 1 base held sv w sv2 w (expire_at i ?t (Some time) (ks_abs sv w))" using kquiet_step [OF 1(2)] 2(2) q by simp
  then show ?thesis using 1(1) 2(1) by (auto simp: setExpire_def)
qed

lemma kstep_heap:
  assumes "kstep k base held sv w sv' w' s"
  shows "same (heap w) (heap w') (set (base @ held))"
  using assms by (simp add: kstep_def kframe_def)

lemma ks_room_refs: "ks_ok base held sv w \<Longrightarrow> ks_room 0 sv \<Longrightarrow> length (base @ held @ vals sv) + 2 < REF_LIMIT"
  by (simp add: ks_ok_def ks_room_def HELD_LIMIT_def KEY_LIMIT_def REF_LIMIT_def)

lemma incr_hfix: "incrRefCount a h = Inr h' \<Longrightarrow> shared_integers h' = shared_integers h \<and> maxmemory h' = maxmemory h"
  by (auto simp: incrRefCount_def rbind_eq_Inr)

lemma propagateExpire_ok:
  assumes ks: "ks_ok base held sv w" and key: "key \<in> set (base @ held)" and room: "ks_room 0 sv"
  shows "\<exists>sv' w'. propagateExpire i key sv w = Inr ((), sv', w') \<and>
    kstep 0 base held sv w sv' w' ((ks_abs sv w)\<lparr>fed := fed (ks_abs sv w) @ kc_del (kconf_of sv w) i (text_at (heap w) key)\<rparr>)"
proof -
  let ?H = "base @ held @ vals sv" and ?d = "del_obj (shared w)"
  have st: "store_ok (heap w) ?H" using ks_store [OF ks] .
  have d: "?d \<in> set base" using ks by (simp add: ks_ok_def base_ok_def)
  note lim = ks_room_refs [OF ks room]
  obtain h1 where 1: "incrRefCount ?d (heap w) = Inr h1" "store_ok h1 (?H @ [?d])" "same (heap w) h1 UNIV"
    using incr_ok [OF st, of ?d] d lim by auto
  obtain h2 where 2: "incrRefCount key h1 = Inr h2" "store_ok h2 ((?H @ [?d]) @ [key])" "same h1 h2 UNIV"
    using incr_ok [OF 1(2), of key] key lim by auto
  obtain h3 where 3: "decrRefCount ?d h2 = Inr h3" "store_ok h3 (?H @ [key])" "same h2 h3 (set (?H @ [key]))"
    "shared_integers h3 = shared_integers h2" "maxmemory h3 = maxmemory h2"
    using release_value [OF 2(2), of ?d "?H @ [key]"] by auto
  obtain h4 where 4: "decrRefCount key h3 = Inr h4" "store_ok h4 ?H" "same h3 h4 (set ?H)"
    "shared_integers h4 = shared_integers h3" "maxmemory h4 = maxmemory h3"
    using release_value [OF 3(2), of key ?H] by auto
  have sm: "same (heap w) h4 (set ?H)" using 1(3) 2(3) 3(3) 4(3) by (auto simp: same_def)
  have hf: "shared_integers h4 = shared_integers (heap w)" "maxmemory h4 = maxmemory (heap w)"
    using 3(4,5) 4(4,5) incr_hfix [OF 1(1)] incr_hfix [OF 2(1)] by simp_all
  have tx: "text_at h2 a = text_at (heap w) a" for a using text_same [OF 1(3), of a] text_same [OF 2(3), of a] by simp
  let ?ev = "redisServer.events sv @ kc_del (kconf_of sv w) i (text_at (heap w) key)"
  let ?sv = "sv\<lparr>redisServer.events := ?ev\<rparr>"
  have a: "kstep 0 base held sv w sv (w\<lparr>heap := h4\<rparr>) (ks_abs sv w)"
    using heap_step [OF ks 4(2) sm hf] ks by (simp add: ks_ok_def)
  have b: "kstep 0 base held sv (w\<lparr>heap := h4\<rparr>) ?sv (w\<lparr>heap := h4\<rparr>) ((ks_abs sv w)\<lparr>fed := ?ev\<rparr>)"
    using field_steps(2) [of base held sv "w\<lparr>heap := h4\<rparr>" ?ev] kstep_ok [OF a] by simp
  have "propagateExpire i key sv w = Inr ((), ?sv, w\<lparr>heap := h4\<rparr>)"
    using 1(1) 2(1) 3(1) 4(1) tx by (auto simp: propagateExpire_def kconf_of_def Let_def)
  moreover have "fed (ks_abs sv w) = redisServer.events sv" by (simp add: ks_abs_def)
  ultimately show ?thesis using kstep_trans [OF a b] by auto
qed

lemma ks_abs_sel:
  "reads (ks_abs sv w) = ticks sv" "flagged (ks_abs sv w) = touched sv" "fed (ks_abs sv w) = redisServer.events sv"
  "expired (ks_abs sv w) = stat_expiredkeys sv" "hits (ks_abs sv w) = stat_keyspace_hits sv" "misses (ks_abs sv w) = stat_keyspace_misses sv"
  by (simp_all add: ks_abs_def)

lemma expireIfNeeded_ok:
  assumes ks: "ks_ok base held sv w" and i: "i < length (dbs sv)" and key: "key_ok (heap w) key" "key \<in> set (base @ held)" and room: "ks_room 0 sv"
  shows "\<exists>sv' w'. expireIfNeeded i key sv w = Inr (fst (sp_expire (kconf_of sv w) i (text_at (heap w) key) (ks_abs sv w)), sv', w') \<and>
    kstep 0 base held sv w sv' w' (snd (sp_expire (kconf_of sv w) i (text_at (heap w) key) (ks_abs sv w)))"
proof -
  let ?t = "text_at (heap w) key" and ?s = "ks_abs sv w" and ?cf = "kconf_of sv w" let ?x = "sp_getExpire i ?t ?s"
  obtain sv1 where 1: "getExpire i key sv w = Inr (?x, sv1, w)" "kquiet base held sv w sv1" using getExpire_ok [OF ks i key(1)] by blast
  note q = kquiet_ok [OF 1(2)]
  have f: "loading sv1 = loading sv" "is_slave sv1 = is_slave sv" "times sv1 = times sv" using fixed_sel [of sv1 sv] q by simp_all
  have tk: "ticks sv1 = ticks sv" "stat_expiredkeys sv1 = stat_expiredkeys sv" using arg_cong [of "ks_abs sv1 w" "ks_abs sv w" reads]
      arg_cong [of "ks_abs sv1 w" "ks_abs sv w" expired] q by (simp_all add: ks_abs_def)
  have rd: "reads ?s = ticks sv" "expired ?s = stat_expiredkeys sv" by (simp_all add: ks_abs_def)
  have cf: "kc_loading ?cf = loading sv" "kc_slave ?cf = is_slave sv" "kc_times ?cf = times sv" by (simp_all add: kconf_of_def)
  have quiet: "kstep 0 base held sv w sv1 w ?s" using 1(2) by (simp add: kquiet_def)
  consider "?x < 0 \<or> loading sv" | "\<not> (?x < 0 \<or> loading sv)" by blast
  then show ?thesis
  proof cases
    case 1
    then show ?thesis using \<open>getExpire i key sv w = _\<close> quiet f(1) cf(1) by (auto simp: expireIfNeeded_def sp_expire_def Let_def)
  next
    case 2
    let ?sv = "sv1\<lparr>ticks := ticks sv + 1\<rparr>" and ?now = "times sv (ticks sv) div 1000"
    have t1: "kstep 0 base held sv w ?sv w (?s\<lparr>reads := ticks sv + 1\<rparr>)"
      using kquiet_step [OF \<open>kquiet base held sv w sv1\<close>] field_steps(1) [of base held sv1 w] q by simp
    show ?thesis
    proof (cases "is_slave sv \<or> ?now \<le> ?x")
      case True
      then show ?thesis using 2 \<open>getExpire i key sv w = _\<close> t1 f cf tk rd
        by (auto simp: expireIfNeeded_def sp_expire_def Let_def mstime_def)
    next
      case False
      let ?sv2 = "?sv\<lparr>stat_expiredkeys := stat_expiredkeys sv + 1\<rparr>" and ?s2 = "?s\<lparr>reads := ticks sv + 1, expired := expired ?s + 1\<rparr>"
      have t2: "kstep 0 base held sv w ?sv2 w ?s2"
        using kstep_trans [OF t1] field_steps(5) [of base held ?sv w] kstep_ok [OF t1] rd by (metis add.right_neutral)
      note o2 = kstep_ok [OF t2]
      have r2: "ks_room 0 ?sv2" using t2 room by (simp add: kstep_def)
      obtain sv3 w3 where 3: "propagateExpire i key ?sv2 w = Inr ((), sv3, w3)"
        "kstep 0 base held ?sv2 w sv3 w3 (?s2\<lparr>fed := fed ?s2 @ kc_del (kconf_of ?sv2 w) i ?t\<rparr>)"
        using propagateExpire_ok [of base held ?sv2 w key i] o2 key(2) r2 by auto
      have cf2: "kconf_of ?sv2 w = ?cf" using kstep_conf [OF ks t2] .
      let ?s3 = "?s2\<lparr>fed := fed ?s2 @ kc_del ?cf i ?t\<rparr>"
      note o3 = kstep_ok [OF 3(2)]
      have k3: "key_ok (heap w3) key" "text_at (heap w3) key = ?t" using kstep_key [OF 3(2) key(2)] key(1) by simp_all
      obtain sv4 w4 where 4: "dbDelete i key sv3 w3 = Inr (keys ?s3 i ?t \<noteq> None, sv4, w4)"
        "kstep 0 base held sv3 w3 sv4 w4 (put_key i ?t None ?s3)"
        using dbDelete_ok [of base held sv3 w3 i key] o3 o2 i k3 q cf2 by auto
      have "keys ?s i ?t \<noteq> None" using 2 by (auto simp: sp_getExpire_def split: option.splits)
      moreover have "kstep 0 base held sv w sv4 w4 (put_key i ?t None ?s3)"
        using kstep_trans [OF kstep_trans [OF t2 3(2)] 4(2)] by simp
      ultimately show ?thesis using 2 False \<open>getExpire i key sv w = _\<close> 3(1) 4(1) f cf tk rd
        by (auto simp: expireIfNeeded_def sp_expire_def Let_def mstime_def)
    qed
  qed
qed

section \<open>Lookups\<close>

lemma lru_ok:
  assumes "store_ok h H" and "objs h a = Some ob"
  shows "store_ok (store h a (ob\<lparr>lru := x\<rparr>)) H" "same h (store h a (ob\<lparr>lru := x\<rparr>)) A"
proof -
  have c: "cell_ok (ob\<lparr>lru := x\<rparr>) = cell_ok ob" by (simp add: cell_ok_def str_ok_def)
  have "shared_ok (store h a (ob\<lparr>lru := x\<rparr>))"
    using assms unfolding store_ok_def shared_ok_def by fastforce
  then show "store_ok (store h a (ob\<lparr>lru := x\<rparr>)) H"
    using assms c unfolding store_ok_def by (auto simp: refs_def)
  show "same h (store h a (ob\<lparr>lru := x\<rparr>)) A" using assms(2) by (auto simp: same_def payload_def)
qed

lemma found_abs: "i < length (dbs sv) \<Longrightarrow> found sv i t r \<Longrightarrow> sp_lookup i t (ks_abs sv w) = map_option (text_at (heap w)) r"
  by (simp add: found_def sp_lookup_def view_abs split: option.split)

lemma found_val: "ks_ok base held sv w \<Longrightarrow> i < length (dbs sv) \<Longrightarrow> found sv i t (Some a) \<Longrightarrow> a \<in> set (vals sv)"
proof -
  assume a: "ks_ok base held sv w" "i < length (dbs sv)" "found sv i t (Some a)"
  then obtain e where "mkey sv i t = Some e" "entry_obj e = a" by (cases "mkey sv i t") (auto simp: found_def)
  with mkeyD(4) [OF a(1,2)] show "a \<in> set (vals sv)" by auto
qed

lemma lookupKey_ok:
  assumes ks: "ks_ok base held sv w" and i: "i < length (dbs sv)" and key: "key_ok (heap w) key"
  shows "\<exists>r sv' w'. lookupKey i key sv w = Inr (r, sv', w') \<and> kstep 0 base held sv w sv' w' (ks_abs sv w) \<and>
    found sv' i (text_at (heap w) key) r"
proof -
  let ?t = "text_at (heap w) key"
  obtain sv1 where 1: "find_key i key sv w = Inr (mkey sv i ?t, sv1, w)" "kquiet base held sv w sv1" using find_key_ok [OF ks i key] by blast
  have m: "mkey sv1 i ?t = mkey sv i ?t" using 1(2) i by (simp add: kquiet_def)
  have q: "kstep 0 base held sv w sv1 w (ks_abs sv w)" using 1(2) by (simp add: kquiet_def)
  note o1 = kstep_ok [OF q]
  show ?thesis
  proof (cases "mkey sv i ?t")
    case None
    then show ?thesis using 1(1) q m by (auto simp: lookupKey_def found_def)
  next
    case (Some e)
    then obtain a where a: "de_val e = Some a" "entry_obj e = a" "a \<in> set (vals sv1)"
      using mkeyD(4) [of base held sv1 w i ?t e] o1 i m by auto
    show ?thesis
    proof (cases "child_active sv1")
      case True
      then show ?thesis using 1(1) q m Some a by (auto simp: lookupKey_def found_def dictGetVal_def)
    next
      case False
      have st: "store_ok (heap w) (base @ held @ vals sv1)" using o1 by (simp add: ks_ok_def)
      then obtain ob where ob: "objs (heap w) a = Some ob" using a(3) held_live [OF st, of a] by auto
      let ?h = "store (heap w) a (ob\<lparr>lru := lruclock (heap w)\<rparr>)"
      have "kstep 0 base held sv1 w sv1 (w\<lparr>heap := ?h\<rparr>) (ks_abs sv1 w)"
        using lru_ok [OF st ob] o1 by (intro heap_step) (auto simp: ks_ok_def)
      then have "kstep 0 base held sv w sv1 (w\<lparr>heap := ?h\<rparr>) (ks_abs sv w)" using kstep_trans [OF q] o1 by fastforce
      then show ?thesis using 1(1) m Some a ob False by (auto simp: lookupKey_def found_def dictGetVal_def)
    qed
  qed
qed

lemma lookupKeyWrite_ok:
  assumes ks: "ks_ok base held sv w" and i: "i < length (dbs sv)" and key: "key_ok (heap w) key" "key \<in> set (base @ held)" and room: "ks_room 0 sv"
  shows "\<exists>r sv' w'. lookupKeyWrite i key sv w = Inr (r, sv', w') \<and>
    kstep 0 base held sv w sv' w' (snd (sp_expire (kconf_of sv w) i (text_at (heap w) key) (ks_abs sv w))) \<and>
    found sv' i (text_at (heap w) key) r"
proof -
  obtain b sv1 w1 where 1: "expireIfNeeded i key sv w = Inr (b, sv1, w1)"
    "kstep 0 base held sv w sv1 w1 (snd (sp_expire (kconf_of sv w) i (text_at (heap w) key) (ks_abs sv w)))"
    using expireIfNeeded_ok [OF assms] by blast
  note o1 = kstep_ok [OF 1(2)]
  obtain r sv2 w2 where 2: "lookupKey i key sv1 w1 = Inr (r, sv2, w2)" "kstep 0 base held sv1 w1 sv2 w2 (ks_abs sv1 w1)"
    "found sv2 i (text_at (heap w) key) r"
    using lookupKey_ok [of base held sv1 w1 i key] o1 i kstep_key [OF 1(2) key(2)] key(1) by auto
  show ?thesis using 1(1) 2 kstep_trans [OF 1(2) 2(2)] o1 by (auto simp: lookupKeyWrite_def)
qed

lemma lookupKeyRead_ok:
  assumes ks: "ks_ok base held sv w" and i: "i < length (dbs sv)" and key: "key_ok (heap w) key" "key \<in> set (base @ held)" and room: "ks_room 0 sv"
  shows "\<exists>r sv' w'. lookupKeyRead i key sv w = Inr (r, sv', w') \<and>
    kstep 0 base held sv w sv' w' (snd (sp_lookupRead (kconf_of sv w) i (text_at (heap w) key) (ks_abs sv w))) \<and>
    found sv' i (text_at (heap w) key) r"
proof -
  let ?s = "snd (sp_expire (kconf_of sv w) i (text_at (heap w) key) (ks_abs sv w))"
  obtain b sv1 w1 where 1: "expireIfNeeded i key sv w = Inr (b, sv1, w1)" "kstep 0 base held sv w sv1 w1 ?s"
    using expireIfNeeded_ok [OF assms] by blast
  note o1 = kstep_ok [OF 1(2)]
  obtain r sv2 w2 where 2: "lookupKey i key sv1 w1 = Inr (r, sv2, w2)" "kstep 0 base held sv1 w1 sv2 w2 ?s"
    "found sv2 i (text_at (heap w) key) r"
    using lookupKey_ok [of base held sv1 w1 i key] o1 i kstep_key [OF 1(2) key(2)] key(1) by auto
  note o2 = kstep_ok [OF 2(2)]
  have i2: "i < length (dbs sv2)" using i o1 o2 by simp
  have v: "sp_lookup i (text_at (heap w) key) ?s = map_option (text_at (heap w2)) r" using found_abs [OF i2 2(3), of w2] o2 by simp
  have st: "hits ?s = stat_keyspace_hits sv2" "misses ?s = stat_keyspace_misses sv2"
    using o2 ks_abs_sel(5,6) [of sv2 w2] by metis+
  have t: "kstep 0 base held sv w sv2 w2 ?s" using kstep_trans [OF 1(2) 2(2)] by simp
  show ?thesis
    using 1(1) 2(1,3) v st kstep_trans [OF t field_steps(3) [of base held sv2 w2]] kstep_trans [OF t field_steps(4) [of base held sv2 w2]] o2
    by (cases r) (auto simp: lookupKeyRead_def sp_lookupRead_def Let_def found_def)
qed

section \<open>Updates\<close>

text \<open>A value that gets into a database takes one reference from those the command holds.\<close>

lemma dbAdd_ok:
  assumes ks: "ks_ok base held sv w" and i: "i < length (dbs sv)" and key: "key_ok (heap w) key"
    and m: "mset held = add_mset a (mset held')" and sol: "solid (heap w) a"
    and new: "keys (ks_abs sv w) i (text_at (heap w) key) = None" and room: "ks_room 1 sv"
  shows "\<exists>sv'. dbAdd g i key a sv w = Inr ((), sv', w) \<and>
    kstep 1 base held' sv w sv' w (put_key i (text_at (heap w) key) (Some (text_at (heap w) a, None)) (ks_abs sv w)) \<and>
    found sv' i (text_at (heap w) key) (Some a)"
proof -
  obtain k where k: "key_of w key = Inr k" "sds_ok (kname k)" "key_bytes k = text_at (heap w) key"
    using key_of_ok [OF ks_store [OF ks] key] by blast
  obtain xs fr where xs: "kname k = mk_sds xs fr" "length xs + length fr < 2147483648" using k(2) by (rule sds_okE)
  have d: "sdsdup g (kname k) = Inr (mk_sds xs [])"
    using sdsnewlen_Some [of "length xs" "sh_buf (mk_sds xs fr)" g] xs by (simp add: sdsdup_def)
  let ?k = "\<lparr>home = Copied (next_copy sv), kname = mk_sds xs []\<rparr>"
  have k': "sds_ok (kname ?k)" using xs(2) by simp
  have b: "key_bytes ?k = text_at (heap w) key" using key_bytes_sds [OF k'] key_bytes_sds [OF k(2)] k(3) xs by simp
  have n: "mkey sv i (key_bytes ?k) = None" using new b mkey_view [OF i] by simp
  obtain sv1 where 1: "on_dict i (\<lambda>T d. dictAdd T d ?k a) (sv\<lparr>next_copy := next_copy sv + 1\<rparr>) w = Inr (True, sv1, w)"
    "kstep 1 base held' sv w sv1 w (put_key i (key_bytes ?k) (Some (text_at (heap w) a, None)) (ks_abs sv w))"
    "found sv1 i (key_bytes ?k) (Some a)"
    using add_main [OF ks i m sol k' _ n room] by auto
  then show ?thesis using k(1) d b by (simp add: dbAdd_def Let_def)
qed

lemma dbOverwrite_ok:
  assumes ks: "ks_ok base held sv w" and i: "i < length (dbs sv)" and key: "key_ok (heap w) key"
    and m: "mset held = add_mset a (mset held')" and sol: "solid (heap w) a"
    and old: "keys (ks_abs sv w) i (text_at (heap w) key) = Some (v, x)"
  shows "\<exists>sv' w'. dbOverwrite i key a sv w = Inr ((), sv', w') \<and>
    kstep 0 base held' sv w sv' w' (put_key i (text_at (heap w) key) (Some (text_at (heap w) a, x)) (ks_abs sv w)) \<and>
    found sv' i (text_at (heap w) key) (Some a) \<and> payload (heap w') a = payload (heap w) a"
proof -
  let ?t = "text_at (heap w) key"
  obtain e where e: "mkey sv i ?t = Some e" and x: "Option.bind (xkey sv i ?t) de_val = x"
    using old i by (auto simp: view_abs split: option.splits)
  obtain sv1 where 1: "assert_present i key sv w = Inr (e, sv1, w)" "kquiet base held sv w sv1"
    using assert_present_ok [OF ks i key e] by blast
  note q = kquiet_ok [OF 1(2)]
  obtain k where k: "key_of w key = Inr k" "sds_ok (kname k)" "key_bytes k = ?t" using key_of_ok [OF ks_store [OF ks] key] by blast
  have m1: "mkey sv1 i (key_bytes k) = Some e" "Option.bind (xkey sv1 i (key_bytes k)) de_val = x"
    using 1(2) i e k(3) x by (simp_all add: kquiet_def)
  obtain sv2 w2 where 2: "on_dict i (\<lambda>T d. dictReplace T d k a) sv1 w = Inr (False, sv2, w2)"
    "kstep 0 base held' sv1 w sv2 w2 (put_key i ?t (Some (text_at (heap w) a, x)) (ks_abs sv w))" "found sv2 i ?t (Some a)" "payload (heap w2) a = payload (heap w) a"
    using replace_main [of base held sv1 w i a held' k e] q i m sol k(2,3) m1 by auto
  have "fixed sv1 = fixed sv" "length (dbs sv1) = length (dbs sv)" "dirty sv1 = dirty sv" "\<forall>n. ks_room n sv \<longrightarrow> ks_room n sv1"
    using 1(2) by (auto simp: kquiet_def kstep_def kframe_def)
  then have "kstep 0 base held' sv w sv2 w2 (put_key i ?t (Some (text_at (heap w) a, x)) (ks_abs sv w))"
    using 2(2) by (simp add: kstep_def kframe_def)
  then show ?thesis using 1(1) 2(1,3,4) k(1) by (simp add: dbOverwrite_def)
qed

lemma signal_cong: "kc_watch cf' = kc_watch cf \<Longrightarrow> sp_signal cf' i t s = sp_signal cf i t s"
  by (simp add: sp_signal_def)

lemma signalModifiedKey_ok:
  assumes ks: "ks_ok base held sv w" and i: "i < length (dbs sv)" and key: "key_ok (heap w) key"
  shows "\<exists>sv'. signalModifiedKey i key sv w = Inr ((), sv', w) \<and>
    kstep 0 base held sv w sv' w (sp_signal (kconf_of sv w) i (text_at (heap w) key) (ks_abs sv w))"
proof -
  let ?t = "text_at (heap w) key" and ?db = "db_watched sv ! i"
  have b: "length (db_watched sv) = length (dbs sv)" "Watch.db_ok (heap w) ?db" using ks i by (simp_all add: ks_ok_def base_ok_def)
  have kt: "key_text w key = Inr ?t" using key_text_ok [OF ks_store [OF ks] key] .
  have wt: "watchers w ?t ?db = Inr (map_of (Watch.tab (heap w) ?db) ?t)" using watchers_ok [OF ks_store [OF ks] b(2)] .
  have tr: "db_watched (redisServer.truncate sv) = db_watched sv" by (simp add: redisServer.truncate_def)
  have "touchWatchedKey i key (redisServer.truncate sv) w = Inr (kc_watch (kconf_of sv w) i ?t)"
    using i b(1) kt wt by (auto simp: touchWatchedKey_def Commands.db_at_def tr kconf_of_def split: option.split)
  then show ?thesis
    using field_steps(6) [OF ks, of "touched sv @ kc_watch (kconf_of sv w) i ?t"]
    by (auto simp: signalModifiedKey_def sp_signal_def ks_abs_sel)
qed

lemma put_put: "put_key i t v (put_key i t v' s) = put_key i t v s"
  by (simp add: put_key_def)

lemma keys_put [simp]: "keys (put_key i t v s) i t = v"
  by (simp add: put_key_def)

lemma heap_upd: "w2 = w1\<lparr>heap := h\<rparr> \<Longrightarrow> w2\<lparr>heap := h'\<rparr> = w1\<lparr>heap := h'\<rparr>"
  by simp

lemma setKey_ok:
  assumes ks: "ks_ok base held sv w" and i: "i < length (dbs sv)" and key: "key_ok (heap w) key" "key \<in> set (base @ held')"
    and m: "mset held = add_mset a (mset held')" and sol: "solid (heap w) a" and room: "ks_room 1 sv"
  shows "\<exists>sv' w'. setKey g i key a sv w = Inr ((), sv', w') \<and>
    kstep 1 base held sv w sv' w' (sp_setKey (kconf_of sv w) i (text_at (heap w) key) (text_at (heap w) a) (ks_abs sv w))"
proof -
  let ?t = "text_at (heap w) key" and ?v = "text_at (heap w) a" and ?cf = "kconf_of sv w" let ?s = "snd (sp_expire ?cf i ?t (ks_abs sv w))"
  have kh: "key \<in> set (base @ held)" "a \<in> set (base @ held)" using key(2) m mset_eq_setD [of held "a # held'"] by auto
  obtain r sv1 w1 where 1: "lookupKeyWrite i key sv w = Inr (r, sv1, w1)" "kstep 0 base held sv w sv1 w1 ?s" "found sv1 i ?t r"
    using lookupKeyWrite_ok [OF ks i key(1) kh(1) ks_room_mono [OF room]] by auto
  note o1 = kstep_ok [OF 1(2)]
  have i1: "i < length (dbs sv1)" using i o1 by simp
  have k1: "key_ok (heap w1) key" "text_at (heap w1) key = ?t" using kstep_key [OF 1(2) kh(1)] key(1) by simp_all
  have a1: "solid (heap w1) a" "text_at (heap w1) a = ?v" using solid_same [OF kstep_heap [OF 1(2)] kh(2)] kstep_key(2) [OF 1(2) kh(2)] sol by simp_all
  have r1: "ks_room 1 sv1" using 1(2) room by (simp add: kstep_def)
  obtain sv2 w2 x where 2: "(if r = None then dbAdd g i key a sv1 w1 else dbOverwrite i key a sv1 w1) = Inr ((), sv2, w2)"
    "kstep 1 base held' sv1 w1 sv2 w2 (put_key i ?t (Some (?v, x)) ?s)" "found sv2 i ?t (Some a)" "payload (heap w2) a = payload (heap w1) a"
  proof (cases "mkey sv1 i ?t")
    case None
    then have "keys (ks_abs sv1 w1) i (text_at (heap w1) key) = None" using mkey_view [OF i1] k1(2) by simp
    from dbAdd_ok [OF _ i1 k1(1) m a1(1) this r1, of base g] o1 k1(2) a1(2) that 1(3) None show thesis by (auto simp: found_def)
  next
    case (Some e)
    then have "keys (ks_abs sv1 w1) i ?t \<noteq> None" using mkey_view [OF i1, of ?t w1] by simp
    then obtain v x where vx: "keys (ks_abs sv1 w1) i (text_at (heap w1) key) = Some (v, x)" using k1(2) by auto
    obtain sv2 w2 where "dbOverwrite i key a sv1 w1 = Inr ((), sv2, w2)"
      "kstep 0 base held' sv1 w1 sv2 w2 (put_key i ?t (Some (?v, x)) ?s)" "found sv2 i ?t (Some a)" "payload (heap w2) a = payload (heap w1) a"
      using dbOverwrite_ok [OF _ i1 k1(1) m a1(1) vx, of base] o1 k1(2) a1(2) by auto
    moreover from this(2) have "kstep 1 base held' sv1 w1 sv2 w2 (put_key i ?t (Some (?v, x)) ?s)"
      using ks_room_mono by (auto simp: kstep_def)
    ultimately show thesis using that 1(3) Some by (auto simp: found_def)
  qed
  note o2 = kstep_ok [OF 2(2)]
  have i2: "i < length (dbs sv2)" using i1 o2 by simp
  have k2: "key_ok (heap w2) key" "text_at (heap w2) key = ?t" using kstep_key [OF 2(2) key(2)] k1 by simp_all
  have r2: "ks_room 0 sv2" using 2(2) r1 by (simp add: kstep_def)
  have av: "a \<in> set (vals sv2)" using found_val [OF conjunct1 [OF o2] i2 2(3)] .
  obtain h3 where 3: "incrRefCount a (heap w2) = Inr h3" "store_ok h3 ((base @ held' @ vals sv2) @ [a])" "same (heap w2) h3 UNIV"
    using incr_ok [OF ks_store [OF conjunct1 [OF o2]], of a] av ks_room_refs [OF conjunct1 [OF o2] r2] by auto
  have st3: "store_ok h3 (base @ held @ vals sv2)" using store_ok_mset [OF _ 3(2), of "base @ held @ vals sv2"] m by simp
  let ?w3 = "w2\<lparr>heap := h3\<rparr>"
  have t3: "kstep 0 base held sv2 w2 sv2 ?w3 (put_key i ?t (Some (?v, x)) ?s)"
    using heap_step [OF conjunct1 [OF o2] st3] 3(3) incr_hfix [OF 3(1)] ks o2 by (simp add: same_def ks_ok_def)
  note o3 = kstep_ok [OF t3]
  have k3: "key_ok (heap ?w3) key" "text_at (heap ?w3) key = ?t" using k2 keys_same [OF 3(3), of key] by simp_all
  obtain sv4 where 4: "removeExpire i key sv2 ?w3 = Inr (has_expire i ?t (ks_abs sv2 ?w3), sv4, ?w3)"
    "kstep 0 base held sv2 ?w3 sv4 ?w3 (expire_at i ?t None (put_key i ?t (Some (?v, x)) ?s))"
    using removeExpire_ok [OF conjunct1 [OF o3] i2 k3(1)] k3(2) o3 by auto
  note o4 = kstep_ok [OF 4(2)]
  have i4: "i < length (dbs sv4)" using i2 o4 by simp
  have st: "expire_at i ?t None (put_key i ?t (Some (?v, x)) ?s) = put_key i ?t (Some (?v, None)) ?s"
    by (simp add: expire_at_def put_put)
  obtain sv5 where 5: "signalModifiedKey i key sv4 ?w3 = Inr ((), sv5, ?w3)"
    "kstep 0 base held sv4 ?w3 sv5 ?w3 (sp_signal (kconf_of sv4 ?w3) i ?t (put_key i ?t (Some (?v, None)) ?s))"
    using signalModifiedKey_ok [OF conjunct1 [OF o4] i4 k3(1)] k3(2) o4 st by auto
  have "set held = insert a (set held')" using set_add_mset [OF m] .
  then have "same (heap w1) h3 (set (base @ held))"
    using 2(4) kstep_heap [OF 2(2)] 3(3) by (auto simp: same_def)
  then have "kframe (base @ held) sv1 w1 sv2 ?w3"
    using 2(2) incr_hfix [OF 3(1)] heap_upd [of w2 "heap w2" w1 h3] by (simp add: kstep_def kframe_def)
  then have "kstep 1 base held sv1 w1 sv2 ?w3 (put_key i ?t (Some (?v, x)) ?s)" using t3 2(2) by (simp add: kstep_def)
  from kstep_trans [OF 1(2) this] have f3: "kstep 1 base held sv w sv2 ?w3 (put_key i ?t (Some (?v, x)) ?s)" by simp
  have cf: "kconf_of sv4 ?w3 = ?cf" using kstep_conf [OF ks kstep_trans [OF f3 4(2)]] .
  have "kstep 1 base held sv w sv5 ?w3 (sp_signal ?cf i ?t (put_key i ?t (Some (?v, None)) ?s))"
    using kstep_trans [OF kstep_trans [OF f3 4(2)] 5(2)] cf by simp
  then show ?thesis using 1(1) 2(1) 3(1) 4(1) 5(1) by (auto simp: setKey_def sp_setKey_def)
qed

end
