(* ===== verification/Keyspace_Props.thy ===== *)
theory Keyspace_Props
  imports Keyspace_Map Session_Props
begin

text \<open>
  The functions of \<open>db.c\<close> as one interface: every sequence of lookups, updates, deletions and changes of expire times on
  the databases of a server behaves as on a map from keys to values with expire times.
\<close>

section \<open>Operations\<close>

text \<open>An operation works on a database and a key object; \<open>Store\<close> has the object of the value too.\<close>

datatype key_op = Read nat nat | Find nat nat | Store nat nat nat | Delete nat nat | Expire nat nat int | Persist nat nat
  | Deadline nat nat | Present nat nat

datatype key_reply = Text "char list option" | Holds bool | Millis int | Done

fun key_step :: "(nat \<Rightarrow> char) \<Rightarrow> keyspace_server \<times> nworld \<Rightarrow> key_op \<Rightarrow> (db_error, (keyspace_server \<times> nworld) \<times> key_reply) result" where
  "key_step g (sv, w) (Read i key) = rbind (lookupKeyRead i key sv w) (\<lambda>(r, sv, w). Inr ((sv, w), Text (map_option (text_at (heap w)) r)))"
| "key_step g (sv, w) (Find i key) = rbind (lookupKeyWrite i key sv w) (\<lambda>(r, sv, w). Inr ((sv, w), Text (map_option (text_at (heap w)) r)))"
| "key_step g (sv, w) (Store i key val) = rbind (setKey g i key val sv w) (\<lambda>(_, sv, w). Inr ((sv, w), Done))"
| "key_step g (sv, w) (Delete i key) = rbind (dbDelete i key sv w) (\<lambda>(b, sv, w). Inr ((sv, w), Holds b))"
| "key_step g (sv, w) (Expire i key t) = rbind (setExpire i key t sv w) (\<lambda>(_, sv, w). Inr ((sv, w), Done))"
| "key_step g (sv, w) (Persist i key) = rbind (removeExpire i key sv w) (\<lambda>(b, sv, w). Inr ((sv, w), Holds b))"
| "key_step g (sv, w) (Deadline i key) = rbind (getExpire i key sv w) (\<lambda>(t, sv, w). Inr ((sv, w), Millis t))"
| "key_step g (sv, w) (Present i key) = rbind (dbExists i key sv w) (\<lambda>(b, sv, w). Inr ((sv, w), Holds b))"

text \<open>The abstract state has the map and the number of entries there is room for; \<open>tx\<close> gives the texts of the objects.\<close>

fun key_spec :: "kconf \<Rightarrow> (nat \<Rightarrow> char list) \<Rightarrow> kstate \<times> nat \<Rightarrow> key_op \<Rightarrow> (kstate \<times> nat) \<times> key_reply" where
  "key_spec cf tx (s, n) (Read i key) = (let (v, s) = sp_lookupRead cf i (tx key) s in ((s, n), Text v))"
| "key_spec cf tx (s, n) (Find i key) = (let (v, s) = sp_lookupWrite cf i (tx key) s in ((s, n), Text v))"
| "key_spec cf tx (s, n) (Store i key val) = ((sp_setKey cf i (tx key) (tx val) s, n - 1), Done)"
| "key_spec cf tx (s, n) (Delete i key) = ((put_key i (tx key) None s, n), Holds (keys s i (tx key) \<noteq> None))"
| "key_spec cf tx (s, n) (Expire i key t) = ((expire_at i (tx key) (Some t) s, n - 1), Done)"
| "key_spec cf tx (s, n) (Persist i key) = ((expire_at i (tx key) None s, n), Holds (has_expire i (tx key) s))"
| "key_spec cf tx (s, n) (Deadline i key) = ((s, n), Millis (sp_getExpire i (tx key) s))"
| "key_spec cf tx (s, n) (Present i key) = ((s, n), Holds (keys s i (tx key) \<noteq> None))"

text \<open>Keys are raw strings among the objects the program holds, values are objects of the command; expire times are only
  set or removed on keys that exist.\<close>

definition may_key :: "nat \<Rightarrow> ostore \<Rightarrow> nat list \<Rightarrow> nat \<Rightarrow> nat \<Rightarrow> bool" where
  "may_key dbnum h hold i key \<longleftrightarrow> i < dbnum \<and> key \<in> set hold \<and> key_ok h key"

fun key_may :: "nat \<Rightarrow> ostore \<Rightarrow> nat list \<Rightarrow> nat list \<Rightarrow> kstate \<times> nat \<Rightarrow> key_op \<Rightarrow> bool" where
  "key_may dbnum h base held (s, n) (Store i key val) \<longleftrightarrow>
     may_key dbnum h (base @ remove1 val held) i key \<and> val \<in> set held \<and> solid h val \<and> 0 < n"
| "key_may dbnum h base held (s, n) (Expire i key t) \<longleftrightarrow> may_key dbnum h (base @ held) i key \<and> keys s i (text_at h key) \<noteq> None \<and> 0 < n"
| "key_may dbnum h base held (s, n) (Persist i key) \<longleftrightarrow> may_key dbnum h (base @ held) i key \<and> keys s i (text_at h key) \<noteq> None"
| "key_may dbnum h base held (s, n) (Read i key) \<longleftrightarrow> may_key dbnum h (base @ held) i key"
| "key_may dbnum h base held (s, n) (Find i key) \<longleftrightarrow> may_key dbnum h (base @ held) i key"
| "key_may dbnum h base held (s, n) (Delete i key) \<longleftrightarrow> may_key dbnum h (base @ held) i key"
| "key_may dbnum h base held (s, n) (Deadline i key) \<longleftrightarrow> may_key dbnum h (base @ held) i key"
| "key_may dbnum h base held (s, n) (Present i key) \<longleftrightarrow> may_key dbnum h (base @ held) i key"

section \<open>Refinement\<close>

text \<open>The state of the server stands for the abstract one, and has kept what it had at the start.\<close>

definition key_repr :: "nat list \<Rightarrow> nat list \<Rightarrow> keyspace_server \<times> nworld \<Rightarrow> keyspace_server \<times> nworld \<Rightarrow> kstate \<times> nat \<Rightarrow> bool" where
  "key_repr base held = (\<lambda>(sv0, w0) (sv, w) (s, n).
     ks_ok base held sv w \<and> kframe (base @ held) sv0 w0 sv w \<and> base_ok base sv0 w0 \<and> ks_abs sv w = s \<and> ks_room n sv)"

lemma repr_step:
  assumes "key_repr base held (sv0, w0) (sv, w) (s, n)" and "kstep k base held sv w sv' w' s'" and "k \<le> n"
  shows "key_repr base held (sv0, w0) (sv', w') (s', n - k)"
  using assms kframe_trans [of "base @ held" sv0 w0 sv w sv' w'] by (simp add: key_repr_def kstep_def)

lemma repr_quiet:
  assumes "key_repr base held (sv0, w0) (sv, w) (s, n)" and "kquiet base held sv w sv'"
  shows "key_repr base held (sv0, w0) (sv', w) (s, n)"
  using repr_step [OF assms(1), of 0 sv' w "ks_abs sv w"] assms by (simp add: kquiet_def key_repr_def)

lemma key_step_law:
  assumes r: "key_repr base held (sv0, w0) st a" and p: "key_may (length (dbs sv0)) (heap w0) base held a op"
  shows "\<exists>st'. key_step g st op = Inr (st', snd (key_spec (kconf_of sv0 w0) (text_at (heap w0)) a op)) \<and>
    key_repr base held (sv0, w0) st' (fst (key_spec (kconf_of sv0 w0) (text_at (heap w0)) a op))"
proof -
  obtain sv w s n where st: "st = (sv, w)" "a = (s, n)" by (cases st; cases a)
  note r = r [unfolded st]
  have ok: "ks_ok base held sv w" "s = ks_abs sv w" "ks_room n sv" "length (dbs sv0) = length (dbs sv)"
    and sm: "same (heap w0) (heap w) (set (base @ held))" and cf: "kconf_of sv w = kconf_of sv0 w0"
    using r conf_eq [of "base @ held" sv0 w0 sv w base] by (auto simp: key_repr_def kframe_def)
  have room: "ks_room 0 sv" "0 < n \<Longrightarrow> ks_room 1 sv" using ks_room_mono [OF ok(3)] by simp_all
  have may: "i < length (dbs sv) \<and> key \<in> set (base @ held) \<and> key_ok (heap w) key \<and> text_at (heap w) key = text_at (heap w0) key"
    if "may_key (length (dbs sv0)) (heap w0) (base @ held) i key" for i key
    using that keys_same [OF sm, of key] ok(4) by (simp add: may_key_def)
  show ?thesis
  proof (cases op)
    case (Read i key)
    note m = may [of i key] and p = p [unfolded st Read key_may.simps]
    obtain x sv' w' where 1: "lookupKeyRead i key sv w = Inr (x, sv', w')"
      "kstep 0 base held sv w sv' w' (snd (sp_lookupRead (kconf_of sv w) i (text_at (heap w) key) (ks_abs sv w)))"
      "found sv' i (text_at (heap w) key) x" using lookupKeyRead_ok [OF ok(1) _ _ _ room(1), of i key] m [OF p] by blast
    have i': "i < length (dbs sv')" using m [OF p] kstep_ok [OF 1(2)] by simp
    have "map_option (text_at (heap w')) x = fst (sp_lookupRead (kconf_of sv w) i (text_at (heap w) key) (ks_abs sv w))"
      using found_abs [OF i' 1(3), of w'] kstep_ok [OF 1(2)]
      by (auto simp: sp_lookupRead_def Let_def sp_lookup_def split: if_splits)
    then show ?thesis using 1(1) repr_step [OF r 1(2)] m [OF p] cf ok(2) by (simp add: st Read split_beta)
  next
    case (Find i key)
    note m = may [of i key] and p = p [unfolded st Find key_may.simps]
    obtain x sv' w' where 1: "lookupKeyWrite i key sv w = Inr (x, sv', w')"
      "kstep 0 base held sv w sv' w' (snd (sp_expire (kconf_of sv w) i (text_at (heap w) key) (ks_abs sv w)))"
      "found sv' i (text_at (heap w) key) x" using lookupKeyWrite_ok [OF ok(1) _ _ _ room(1), of i key] m [OF p] by blast
    have i': "i < length (dbs sv')" using m [OF p] kstep_ok [OF 1(2)] by simp
    have "map_option (text_at (heap w')) x = fst (sp_lookupWrite (kconf_of sv w) i (text_at (heap w) key) (ks_abs sv w))"
      using found_abs [OF i' 1(3), of w'] kstep_ok [OF 1(2)] by (auto simp: sp_lookupWrite_def Let_def)
    then show ?thesis using 1(1) repr_step [OF r 1(2)] m [OF p] cf ok(2) by (simp add: st Find split_beta sp_lookupWrite_def Let_def)
  next
    case (Store i key val)
    note p = p [unfolded st Store key_may.simps]
    have mv: "may_key (length (dbs sv0)) (heap w0) (base @ held) i key" using p set_remove1_subset [of val held] by (auto simp: may_key_def)
    have v: "solid (heap w) val" "text_at (heap w) val = text_at (heap w0) val" using p solid_same [OF sm] text_same [OF sm] by simp_all
    have ms: "mset held = add_mset val (mset (remove1 val held))" using p by simp
    have "\<exists>sv' w'. setKey g i key val sv w = Inr ((), sv', w') \<and>
      kstep 1 base held sv w sv' w' (sp_setKey (kconf_of sv w) i (text_at (heap w) key) (text_at (heap w) val) (ks_abs sv w))"
      by (rule setKey_ok [OF ok(1) _ _ _ ms v(1) room(2)]) (use may [OF mv] p in \<open>auto simp: may_key_def\<close>)
    then obtain sv' w' where 1: "setKey g i key val sv w = Inr ((), sv', w')"
      "kstep 1 base held sv w sv' w' (sp_setKey (kconf_of sv w) i (text_at (heap w) key) (text_at (heap w) val) (ks_abs sv w))" by blast
    show ?thesis using 1(1) repr_step [OF r 1(2)] may [OF mv] p cf ok(2) v(2) by (simp add: st Store)
  next
    case (Delete i key)
    note m = may [of i key] and p = p [unfolded st Delete key_may.simps]
    obtain sv' w' where 1: "dbDelete i key sv w = Inr (keys (ks_abs sv w) i (text_at (heap w) key) \<noteq> None, sv', w')"
      "kstep 0 base held sv w sv' w' (put_key i (text_at (heap w) key) None (ks_abs sv w))" using dbDelete_ok [OF ok(1)] m [OF p] by blast
    show ?thesis using 1(1) repr_step [OF r 1(2)] m [OF p] ok(2) by (simp add: st Delete)
  next
    case (Expire i key t)
    note p = p [unfolded st Expire key_may.simps]
    note m = may [OF conjunct1 [OF p]]
    have "\<exists>sv'. setExpire i key t sv w = Inr ((), sv', w) \<and> kstep 1 base held sv w sv' w (expire_at i (text_at (heap w) key) (Some t) (ks_abs sv w))"
      by (rule setExpire_ok [OF ok(1) _ _ _ room(2)]) (use m p ok(2) in simp_all)
    then obtain sv' where 1: "setExpire i key t sv w = Inr ((), sv', w)"
      "kstep 1 base held sv w sv' w (expire_at i (text_at (heap w) key) (Some t) (ks_abs sv w))" by blast
    show ?thesis using 1(1) repr_step [OF r 1(2)] m p ok(2) by (simp add: st Expire)
  next
    case (Persist i key)
    note p = p [unfolded st Persist key_may.simps]
    note m = may [OF conjunct1 [OF p]]
    have "\<exists>sv'. removeExpire i key sv w = Inr (has_expire i (text_at (heap w) key) (ks_abs sv w), sv', w) \<and>
      kstep 0 base held sv w sv' w (expire_at i (text_at (heap w) key) None (ks_abs sv w))"
      by (rule removeExpire_ok [OF ok(1)]) (use m p ok(2) in simp_all)
    then obtain sv' where 1: "removeExpire i key sv w = Inr (has_expire i (text_at (heap w) key) (ks_abs sv w), sv', w)"
      "kstep 0 base held sv w sv' w (expire_at i (text_at (heap w) key) None (ks_abs sv w))" by blast
    show ?thesis using 1(1) repr_step [OF r 1(2)] m p ok(2) by (simp add: st Persist)
  next
    case (Deadline i key)
    note m = may [of i key] and p = p [unfolded st Deadline key_may.simps]
    obtain sv' where 1: "getExpire i key sv w = Inr (sp_getExpire i (text_at (heap w) key) (ks_abs sv w), sv', w)" "kquiet base held sv w sv'"
      using getExpire_ok [OF ok(1)] m [OF p] by blast
    show ?thesis using 1(1) repr_quiet [OF r 1(2)] m [OF p] ok(2) by (simp add: st Deadline)
  next
    case (Present i key)
    note m = may [of i key] and p = p [unfolded st Present key_may.simps]
    obtain sv' where 1: "find_key i key sv w = Inr (mkey sv i (text_at (heap w) key), sv', w)" "kquiet base held sv w sv'"
      using find_key_ok [OF ok(1)] m [OF p] by blast
    show ?thesis using 1(1) repr_quiet [OF r 1(2)] m [OF p] ok(2) mkey_view [of i sv "text_at (heap w) key" w] by (simp add: st Present dbExists_def del: not_None_eq)
  qed
qed

interpretation keyspace: simulation "key_step g" "key_repr base held (sv0, w0)" "key_spec (kconf_of sv0 w0) (text_at (heap w0))"
    "key_may (length (dbs sv0)) (heap w0) base held" for g base held sv0 w0
  by unfold_locales (rule key_step_law)


section \<open>A server with an empty database\<close>

text \<open>A database with empty dictionaries, and a server that has one, with room in its page pool.\<close>

definition demo_pool :: agg where
  "demo_pool = (two_pages 0 0)\<lparr>rand_answers := [7, 8, 10, 13]\<rparr>"

definition empty_db :: redisDb where
  "empty_db = \<lparr>db_dict = dictCreate demo_pool True, db_expires = dictCreate demo_pool True\<rparr>"

definition demo_keyspace :: keyspace_server where
  "demo_keyspace = redisServer.extend (demo_server\<lparr>db_watched := [[]], times := (\<lambda>k. int k * 1000000)\<rparr>)
     \<lparr>dbs = [empty_db], page_pool = demo_pool, can_resize = True, next_copy = 0, hash_seed = 5, child_active = False,
      stat_keyspace_hits = 0, stat_keyspace_misses = 0, stat_expiredkeys = 0, touched = [],
      del_command = command ''del'' (OtherCommand ''delCommand'') (-2) ''w'', orig_commands = commands demo_server\<rparr>"

fun gives_entries :: "nat \<Rightarrow> agg \<Rightarrow> addr list \<Rightarrow> bool" where
  "gives_entries 0 p as = True"
| "gives_entries (Suc n) p as =
     (case alloc_entry_random sizeof_dictEntry p of Inl _ \<Rightarrow> False | Inr (a, p) \<Rightarrow> a \<notin> set as \<and> gives_entries n p (a # as))"

lemma gives_entries_room: "gives_entries n p as \<Longrightarrow> pool_room n p (set as)"
  by (induction n p as rule: gives_entries.induct) (auto split: sum.splits)

lemma demo_pool_room: "pool_room 3 demo_pool {}"
proof -
  have "gives_entries 3 demo_pool []" by code_simp
  from gives_entries_room [OF this] show ?thesis by simp
qed

lemma demo_keyspace_fields:
  "dbs demo_keyspace = [empty_db]" "page_pool demo_keyspace = demo_pool" "hash_seed demo_keyspace = 5" "db_watched demo_keyspace = [[]]"
  "loading demo_keyspace = False" "is_slave demo_keyspace = False" "times demo_keyspace = (\<lambda>k. int k * 1000000)" "aof_on demo_keyspace = False"
  "slaves demo_keyspace = 0" "ticks demo_keyspace = 0" "touched demo_keyspace = []" "redisServer.events demo_keyspace = []"
  by (simp_all add: demo_keyspace_def demo_server_def redisServer.extend_def)

lemma empty_db_ok: "redis_db_ok seed empty_db" "entries (db_dict empty_db) = []" "entries (db_expires empty_db) = []"
  using dictCreate_ok [of "dbDictType seed" demo_pool True] dictCreate_ok [of "keyptrDictType seed" demo_pool True]
  by (simp_all add: redis_db_ok_def empty_db_def names_ok_def)

lemma demo_entries_none: "all_entries demo_keyspace = []" "vals demo_keyspace = []"
  by (simp_all add: all_entries_def vals_def demo_keyspace_fields empty_db_ok)

lemma demo_keyspace_ok:
  assumes "store_ok (heap w) (base @ held)" and "del_obj (shared w) \<in> set base" and "length (base @ held) \<le> HELD_LIMIT"
  shows "ks_ok base held demo_keyspace w" "ks_room 3 demo_keyspace" "keys (ks_abs demo_keyspace w) i t = None"
proof -
  show "ks_ok base held demo_keyspace w"
    using assms empty_db_ok(1) demo_entries_none
    by (simp add: ks_ok_def dbs_ok_def copies_ok_def base_ok_def demo_keyspace_fields Watch.db_ok_def Watch.tab_def)
  show "ks_room 3 demo_keyspace"
    using demo_pool_room demo_entries_none by (simp add: ks_room_def demo_keyspace_fields db_addrs_def empty_db_ok KEY_LIMIT_def)
  show "keys (ks_abs demo_keyspace w) i t = None"
    by (simp add: ks_abs_def demo_keyspace_fields db_view_def empty_db_ok kfind_def)
qed

lemma demo_del: "del_obj (assign 10048 (shared_headers g) (assign 0 (shared_first g) s0)) = 44"
proof -
  have "del_obj (assign 0 (shared_first g) s0) = 44" by (simp add: shared_first_defs upt_conv_Cons del: upt_Suc)
  then show ?thesis by (simp add: assigned_headers)
qed

text \<open>A world with a key and a value next to the shared objects.\<close>

lemma demo_key_world:
  obtains h s h' k a where "createSharedObjects (\<lambda>_. NUL) (empty_store 7 0, zero_shared) = Inr (h, s)"
    "rbind (createStringObject (\<lambda>_. NUL) ''user'' 4 h) (\<lambda>(k, h). rbind (createStringObject (\<lambda>_. NUL) ''fred'' 4 h) (\<lambda>(a, h). Inr (k, a, h))) = Inr (k, a, h')"
    "store_ok h' (shared_refs @ [k, a])" "key_ok h' k" "solid h' a" "text_at h' k = ''user''" "text_at h' a = ''fred''" "del_obj s \<in> set shared_refs" "k \<noteq> a"
proof -
  obtain h s where w: "createSharedObjects (\<lambda>_. NUL) (empty_store 7 0, zero_shared) = Inr (h, s)" "store_ok h shared_refs" using demo_world_full by metis
  have l: "length shared_refs < REF_LIMIT" by (simp add: shared_refs_def REF_LIMIT_def)
  obtain k h1 where 1: "createStringObject (\<lambda>_. NUL) ''user'' 4 h = Inr (k, h1)" "store_ok h1 (shared_refs @ [k])" "text_at h1 k = ''user''"
    "solid h1 k" "is_raw h1 k" using createStringObject_ok [OF w(2) l, of 4 "''user''" "\<lambda>_. NUL"] by auto
  obtain a h2 where 2: "createStringObject (\<lambda>_. NUL) ''fred'' 4 h1 = Inr (a, h2)" "store_ok h2 ((shared_refs @ [k]) @ [a])"
    "same h1 h2 (set (shared_refs @ [k]))" "text_at h2 a = ''fred''" "solid h2 a"
    using createStringObject_ok [OF 1(2), of 4 "''fred''" "\<lambda>_. NUL"] l by (auto simp: shared_refs_def REF_LIMIT_def)
  have k: "key_ok h2 k" "text_at h2 k = ''user''" using keys_same [OF 2(3), of k] 1(3-5) by (simp_all add: key_ok_def)
  obtain h0 where "createSharedObjects (\<lambda>_. NUL) (empty_store 7 0, zero_shared) =
      Inr (h0, assign 10048 (shared_headers (\<lambda>_. NUL)) (assign 0 (shared_first (\<lambda>_. NUL)) zero_shared))"
    using createSharedObjects_assigns [of "\<lambda>_. NUL" 7 0 zero_shared] by blast
  then have "s = assign 10048 (shared_headers (\<lambda>_. NUL)) (assign 0 (shared_first (\<lambda>_. NUL)) zero_shared)"
    unfolding w(1) sum.inject prod.inject by (elim conjE)
  then have "del_obj s \<in> set shared_refs" by (simp add: demo_del shared_refs_def)
  moreover have "k \<noteq> a" using k(2) 2(4) by auto
  ultimately show thesis using that [of h s k a h2] w(1) 1(1) 2 k by simp
qed

definition demo_ops :: "nat \<Rightarrow> nat \<Rightarrow> key_op list" where
  "demo_ops k a = [Store 0 k a, Expire 0 k 500, Deadline 0 k, Find 0 k, Read 0 k, Present 0 k]"


end
