(* ===== verification/String_Commands.thy ===== *)
theory String_Commands
  imports Keyspace
begin

text \<open>
  The commands on strings (\<open>t_string.c\<close>, without the floating point increment) and on keys (\<open>db.c\<close>). A command works on
  the server with its databases, the client and the world; the client selects database \<open>dbid\<close>.
\<close>

type_synonym kcmd = "keyspace_server \<Rightarrow> command_client \<Rightarrow> nworld \<Rightarrow> (db_error, keyspace_server \<times> command_client \<times> nworld) result"
type_synonym replier = "command_client \<Rightarrow> nworld \<Rightarrow> (obj_error, command_client \<times> nworld) result"

definition UNIT_SECONDS :: int where "UNIT_SECONDS = 0"
definition UNIT_MILLISECONDS :: int where "UNIT_MILLISECONDS = 1"
definition REDIS_SET_NO_FLAGS :: int where "REDIS_SET_NO_FLAGS = 0"
definition REDIS_SET_NX :: int where "REDIS_SET_NX = 1"
definition REDIS_SET_XX :: int where "REDIS_SET_XX = 2"

definition reply_with :: "replier \<Rightarrow> kcmd" where
  "reply_with f sv c w = rbind (obj_lift (f c w)) (\<lambda>(c, w). Inr (sv, c, w))"

definition karg :: "command_client \<Rightarrow> nat \<Rightarrow> (db_error, nat) result" where
  "karg c i = obj_lift (arg_at c i)"

text \<open>\<open>c->argv[i]->ptr\<close> as a dynamic string.\<close>

definition ksds :: "command_client \<Rightarrow> nworld \<Rightarrow> nat \<Rightarrow> (db_error, sdshdr) result" where
  "ksds c w i = obj_lift (arg_sds c w i)"

definition dirtied :: "int \<Rightarrow> keyspace_server \<Rightarrow> keyspace_server" where
  "dirtied n sv = sv\<lparr>dirty := dirty sv + n\<rparr>"

section \<open>Helpers of \<open>object.c\<close> and \<open>db.c\<close>\<close>

text \<open>\<open>None\<close>: a reply was sent instead.\<close>

definition getLongLongFromObjectOrReply ::
    "nenv \<Rightarrow> nat option \<Rightarrow> char list option \<Rightarrow> command_client \<Rightarrow> nworld \<Rightarrow> (db_error, int option \<times> command_client \<times> nworld) result" where
  "getLongLongFromObjectOrReply e ob msg c w =
     obj_lift (rbind (getLongLongFromObject ob (heap w)) (\<lambda>value.
       case value of
         Some v \<Rightarrow> Inr (Some v, c, w)
       | None \<Rightarrow> rbind (addReplyError e (case msg of Some m \<Rightarrow> m | None \<Rightarrow> ''value is not an integer or out of range'' @ [NUL]) c w)
                  (\<lambda>(c, w). Inr (None, c, w))))"

text \<open>A \<open>long\<close> has 64 bits here: the second test always succeeds.\<close>

definition getLongFromObjectOrReply ::
    "nenv \<Rightarrow> nat option \<Rightarrow> char list option \<Rightarrow> command_client \<Rightarrow> nworld \<Rightarrow> (db_error, int option \<times> command_client \<times> nworld) result" where
  "getLongFromObjectOrReply e ob msg c w =
     rbind (getLongLongFromObjectOrReply e ob msg c w) (\<lambda>(value, c, w).
       case value of None \<Rightarrow> Inr (None, c, w)
       | Some v \<Rightarrow>
           if v < LLONG_MIN \<or> v > LLONG_MAX
           then obj_lift (rbind (addReplyError e (case msg of Some m \<Rightarrow> m | None \<Rightarrow> ''value is out of range'' @ [NUL]) c w) (\<lambda>(c, w). Inr (None, c, w)))
           else Inr (Some v, c, w))"

definition checkType :: "nenv \<Rightarrow> nat \<Rightarrow> int \<Rightarrow> command_client \<Rightarrow> nworld \<Rightarrow> (db_error, bool \<times> command_client \<times> nworld) result" where
  "checkType e a type c w =
     obj_lift (rbind (obj_at (heap w) a) (\<lambda>ob.
       if otype ob \<noteq> type then rbind (addReply e (wrongtypeerr (shared w)) c w) (\<lambda>(c, w). Inr (True, c, w)) else Inr (False, c, w)))"

definition lookupKeyReadOrReply ::
    "nenv \<Rightarrow> nat \<Rightarrow> nat \<Rightarrow> keyspace_server \<Rightarrow> command_client \<Rightarrow> nworld \<Rightarrow> (db_error, nat option \<times> keyspace_server \<times> command_client \<times> nworld) result" where
  "lookupKeyReadOrReply e key rep sv c w =
     rbind (lookupKeyRead (dbid c) key sv w) (\<lambda>(ob, sv, w).
       if ob = None then rbind (reply_with (addReply e rep) sv c w) (\<lambda>(sv, c, w). Inr (None, sv, c, w)) else Inr (ob, sv, c, w))"

definition lookupKeyWriteOrReply ::
    "nenv \<Rightarrow> nat \<Rightarrow> nat \<Rightarrow> keyspace_server \<Rightarrow> command_client \<Rightarrow> nworld \<Rightarrow> (db_error, nat option \<times> keyspace_server \<times> command_client \<times> nworld) result" where
  "lookupKeyWriteOrReply e key rep sv c w =
     rbind (lookupKeyWrite (dbid c) key sv w) (\<lambda>(ob, sv, w).
       if ob = None then rbind (reply_with (addReply e rep) sv c w) (\<lambda>(sv, c, w). Inr (None, sv, c, w)) else Inr (ob, sv, c, w))"

text \<open>\<open>c->argv[i] = tryObjectEncoding(c->argv[i])\<close>\<close>

definition encode_arg :: "nenv \<Rightarrow> nat \<Rightarrow> command_client \<Rightarrow> nworld \<Rightarrow> (db_error, nat \<times> command_client \<times> nworld) result" where
  "encode_arg e i c w =
     rbind (karg c i) (\<lambda>a. rbind (obj_lift (tryObjectEncoding (nenv.fresh e) a (heap w))) (\<lambda>(b, h).
       Inr (b, c\<lparr>argv := (argv c)[i := b]\<rparr>, w\<lparr>heap := h\<rparr>)))"

section \<open>SET and GET\<close>

definition checkStringLength :: "nenv \<Rightarrow> int \<Rightarrow> command_client \<Rightarrow> nworld \<Rightarrow> (db_error, bool \<times> command_client \<times> nworld) result" where
  "checkStringLength e n c w =
     (if n > 512 * 1024 * 1024
      then obj_lift (rbind (addReplyError e (''string exceeds maximum allowed size (512MB)'' @ [NUL]) c w) (\<lambda>(c, w). Inr (False, c, w)))
      else Inr (True, c, w))"

text \<open>The expire argument of SET: the milliseconds, or \<open>None\<close> after an error reply. Products and sums wrap at 64 bits.\<close>

definition expire_argument :: "nenv \<Rightarrow> nat option \<Rightarrow> int \<Rightarrow> command_client \<Rightarrow> nworld \<Rightarrow> (db_error, int option \<times> command_client \<times> nworld) result" where
  "expire_argument e exp unit c w =
     (case exp of
        None \<Rightarrow> Inr (Some 0, c, w)
      | Some x \<Rightarrow>
          rbind (getLongLongFromObjectOrReply e (Some x) None c w) (\<lambda>(value, c, w).
            case value of None \<Rightarrow> Inr (None, c, w)
            | Some ms \<Rightarrow>
                if ms \<le> 0 then obj_lift (rbind (addReplyError e (''invalid expire time in SETEX'' @ [NUL]) c w) (\<lambda>(c, w). Inr (None, c, w)))
                else Inr (Some (if unit = UNIT_SECONDS then to_i64 (ms * 1000) else ms), c, w)))"

definition setGenericCommand :: "nenv \<Rightarrow> int \<Rightarrow> nat \<Rightarrow> nat \<Rightarrow> nat option \<Rightarrow> int \<Rightarrow> nat option \<Rightarrow> nat option \<Rightarrow> kcmd" where
  "setGenericCommand e flags key val exp unit ok_reply abort_reply sv c w =
     rbind (expire_argument e exp unit c w) (\<lambda>(ms, c, w).
     case ms of None \<Rightarrow> Inr (sv, c, w)
     | Some ms \<Rightarrow>
     rbind (if flags AND REDIS_SET_NX \<noteq> 0
            then rbind (lookupKeyWrite (dbid c) key sv w) (\<lambda>(ob, sv, w). Inr (ob \<noteq> None, sv, w)) else Inr (False, sv, w)) (\<lambda>(abort, sv, w).
     rbind (if \<not> abort \<and> flags AND REDIS_SET_XX \<noteq> 0
            then rbind (lookupKeyWrite (dbid c) key sv w) (\<lambda>(ob, sv, w). Inr (ob = None, sv, w)) else Inr (abort, sv, w)) (\<lambda>(abort, sv, w).
       if abort then reply_with (addReply e (case abort_reply of Some a \<Rightarrow> a | None \<Rightarrow> nullbulk (shared w))) sv c w
       else
         rbind (setKey (nenv.fresh e) (dbid c) key val sv w) (\<lambda>(_, sv, w).
         let sv = dirtied 1 sv in
         rbind (if exp \<noteq> None then let (now, sv) = mstime sv in setExpire (dbid c) key (to_i64 (now + ms)) sv w
                else Inr ((), sv, w)) (\<lambda>(_, sv, w).
           reply_with (addReply e (case ok_reply of Some a \<Rightarrow> a | None \<Rightarrow> ok_obj (shared w))) sv c w)))))"

text \<open>\<open>a[0]\<close>, \<open>a[1]\<close> and \<open>a[2]\<close> of an option of SET.\<close>

fun is_option :: "char \<Rightarrow> char list \<Rightarrow> bool" where
  "is_option x (a # b # n # _) \<longleftrightarrow> tolower a = x \<and> tolower b = CHR ''x'' \<and> n = NUL"
| "is_option x _ \<longleftrightarrow> False"

text \<open>The loop over the options, from the arguments that are left: \<open>None\<close> is a syntax error.\<close>

fun set_options :: "nworld \<Rightarrow> nat list \<Rightarrow> int \<times> nat option \<times> int \<Rightarrow> (obj_error, (int \<times> nat option \<times> int) option) result" where
  "set_options w [] st = Inr (Some st)"
| "set_options w (a # rest) (flags, exp, unit) =
     rbind (obj_at (heap w) a) (\<lambda>ob. rbind (ptr_sds ob) (\<lambda>s.
       if is_option (CHR ''n'') (sh_buf s) then set_options w rest (flags OR REDIS_SET_NX, exp, unit)
       else if is_option (CHR ''x'') (sh_buf s) then set_options w rest (flags OR REDIS_SET_XX, exp, unit)
       else case rest of
         nxt # rest' \<Rightarrow>
           if is_option (CHR ''e'') (sh_buf s) then set_options w rest' (flags, Some nxt, UNIT_SECONDS)
           else if is_option (CHR ''p'') (sh_buf s) then set_options w rest' (flags, Some nxt, UNIT_MILLISECONDS)
           else Inr None
       | [] \<Rightarrow> Inr None))"

definition setCommand :: "nenv \<Rightarrow> kcmd" where
  "setCommand e sv c w =
     rbind (obj_lift (set_options w (drop 3 (argv c)) (REDIS_SET_NO_FLAGS, None, UNIT_SECONDS))) (\<lambda>opts.
       case opts of
         None \<Rightarrow> reply_with (addReply e (syntaxerr (shared w))) sv c w
       | Some (flags, exp, unit) \<Rightarrow>
           rbind (encode_arg e 2 c w) (\<lambda>(val, c, w). rbind (karg c 1) (\<lambda>key.
             setGenericCommand e flags key val exp unit None None sv c w)))"

definition setnxCommand :: "nenv \<Rightarrow> kcmd" where
  "setnxCommand e sv c w =
     rbind (encode_arg e 2 c w) (\<lambda>(val, c, w). rbind (karg c 1) (\<lambda>key.
       setGenericCommand e REDIS_SET_NX key val None 0 (Some (cone (shared w))) (Some (czero (shared w))) sv c w))"

definition setexCommand :: "nenv \<Rightarrow> kcmd" where
  "setexCommand e sv c w =
     rbind (encode_arg e 3 c w) (\<lambda>(val, c, w). rbind (karg c 1) (\<lambda>key. rbind (karg c 2) (\<lambda>exp.
       setGenericCommand e REDIS_SET_NO_FLAGS key val (Some exp) UNIT_SECONDS None None sv c w)))"

definition psetexCommand :: "nenv \<Rightarrow> kcmd" where
  "psetexCommand e sv c w =
     rbind (encode_arg e 3 c w) (\<lambda>(val, c, w). rbind (karg c 1) (\<lambda>key. rbind (karg c 2) (\<lambda>exp.
       setGenericCommand e REDIS_SET_NO_FLAGS key val (Some exp) UNIT_MILLISECONDS None None sv c w)))"

text \<open>The flag is \<open>False\<close> for \<open>REDIS_ERR\<close>.\<close>

definition getGenericCommand :: "nenv \<Rightarrow> keyspace_server \<Rightarrow> command_client \<Rightarrow> nworld \<Rightarrow>
    (db_error, bool \<times> keyspace_server \<times> command_client \<times> nworld) result" where
  "getGenericCommand e sv c w =
     rbind (karg c 1) (\<lambda>key. rbind (lookupKeyReadOrReply e key (nullbulk (shared w)) sv c w) (\<lambda>(ob, sv, c, w).
       case ob of None \<Rightarrow> Inr (True, sv, c, w)
       | Some a \<Rightarrow>
           rbind (obj_lift (obj_at (heap w) a)) (\<lambda>v.
             if otype v \<noteq> REDIS_STRING then rbind (reply_with (addReply e (wrongtypeerr (shared w))) sv c w) (\<lambda>s. Inr (False, s))
             else rbind (reply_with (addReplyBulk e a) sv c w) (\<lambda>s. Inr (True, s)))))"

definition getCommand :: "nenv \<Rightarrow> kcmd" where
  "getCommand e sv c w = rbind (getGenericCommand e sv c w) (\<lambda>(_, s). Inr s)"

definition getsetCommand :: "nenv \<Rightarrow> kcmd" where
  "getsetCommand e sv c w =
     rbind (getGenericCommand e sv c w) (\<lambda>(good, sv, c, w).
       if \<not> good then Inr (sv, c, w)
       else rbind (encode_arg e 2 c w) (\<lambda>(val, c, w). rbind (karg c 1) (\<lambda>key.
            rbind (setKey (nenv.fresh e) (dbid c) key val sv w) (\<lambda>(_, sv, w). Inr (dirtied 1 sv, c, w)))))"

section \<open>Ranges of a string\<close>

text \<open>\<open>getDecodedObject\<close> and a copy of what it gives, when the object is shared or encoded; the copy replaces it.\<close>

definition unshare :: "nenv \<Rightarrow> nat \<Rightarrow> nat \<Rightarrow> nat \<Rightarrow> nat dstep" where
  "unshare e i key a sv w =
     rbind (obj_lift (obj_at (heap w) a)) (\<lambda>ob.
       if refcount ob \<noteq> 1 \<or> oencoding ob \<noteq> REDIS_ENCODING_RAW then
         rbind (obj_lift (rbind (getDecodedObject (nenv.fresh e) a (heap w)) (\<lambda>(decoded, h).
           rbind (obj_at h decoded) (\<lambda>ob. rbind (ptr_sds ob) (\<lambda>s.
           rbind (createStringObject (nenv.fresh e) (sh_buf s) (sdslen s) h) (\<lambda>(b, h).
           rbind (decrRefCount decoded h) (\<lambda>h. Inr (b, h)))))))) (\<lambda>(b, h).
         rbind (dbOverwrite i key b sv (w\<lparr>heap := h\<rparr>)) (\<lambda>(_, sv, w). Inr (b, sv, w)))
       else Inr (a, sv, w))"

text \<open>\<open>o->ptr = f(o->ptr)\<close>; the answer is the new length.\<close>

definition edit_string :: "(sdshdr \<Rightarrow> (sds_error, sdshdr) result) \<Rightarrow> nat \<Rightarrow> ostore \<Rightarrow> (obj_error, int \<times> ostore) result" where
  "edit_string f a h =
     rbind (obj_at h a) (\<lambda>ob. rbind (ptr_sds ob) (\<lambda>s. rbind (sds_lift (f s)) (\<lambda>s.
       Inr (sdslen s, store h a (ob\<lparr>optr := PSds s\<rparr>)))))"

definition setrangeCommand :: "nenv \<Rightarrow> kcmd" where
  "setrangeCommand e sv c w =
     rbind (ksds c w 3) (\<lambda>value. rbind (karg c 2) (\<lambda>a.
     rbind (getLongFromObjectOrReply e (Some a) None c w) (\<lambda>(offset, c, w).
     case offset of None \<Rightarrow> Inr (sv, c, w)
     | Some offset \<Rightarrow>
     if offset < 0 then reply_with (addReplyError e (''offset is out of range'' @ [NUL])) sv c w
     else rbind (karg c 1) (\<lambda>key.
     let i = dbid c; total = to_u64 (offset + sdslen value);
         change = (\<lambda>a sv c w.
           rbind (obj_lift (edit_string (\<lambda>s. rbind (sdsgrowzero (nenv.fresh e) s total) (\<lambda>s.
             rbind (region (sh_buf value) (sdslen value)) (put s offset))) a (heap w))) (\<lambda>(len, h).
           rbind (signalModifiedKey i key sv (w\<lparr>heap := h\<rparr>)) (\<lambda>(_, sv, w). reply_with (addReplyLongLong e len) (dirtied 1 sv) c w)))
     in rbind (lookupKeyWrite i key sv w) (\<lambda>(ob, sv, w).
     case ob of
       None \<Rightarrow>
         if sdslen value = 0 then reply_with (addReply e (czero (shared w))) sv c w
         else rbind (checkStringLength e (to_i64 total) c w) (\<lambda>(good, c, w).
           if \<not> good then Inr (sv, c, w)
           else rbind (obj_lift (sds_lift (sdsempty (nenv.fresh e)))) (\<lambda>s.
             let (a, h) = createObject REDIS_STRING (PSds s) (heap w) in
             rbind (dbAdd (nenv.fresh e) i key a sv (w\<lparr>heap := h\<rparr>)) (\<lambda>(_, sv, w). change a sv c w)))
     | Some a \<Rightarrow>
         rbind (checkType e a REDIS_STRING c w) (\<lambda>(wrong, c, w).
           if wrong then Inr (sv, c, w)
           else rbind (obj_lift (stringObjectLen a (heap w))) (\<lambda>olen.
             if sdslen value = 0 then reply_with (addReplyLongLong e olen) sv c w
             else rbind (checkStringLength e (to_i64 total) c w) (\<lambda>(good, c, w).
               if \<not> good then Inr (sv, c, w)
               else rbind (unshare e i key a sv w) (\<lambda>(a, sv, w). change a sv c w)))))))))"

text \<open>The string an object stands for, with its length: the buffer of the object, or the one \<open>ll2string\<close> filled.\<close>

definition string_bytes :: "nat \<Rightarrow> ostore \<Rightarrow> (obj_error, char list \<times> int) result" where
  "string_bytes a h =
     rbind (obj_at h a) (\<lambda>ob.
       if oencoding ob = REDIS_ENCODING_INT then rbind (ptr_long ob) (\<lambda>n. let (b, len) = ll2string 32 n in Inr (b, int len))
       else rbind (ptr_sds ob) (\<lambda>s. Inr (sh_buf s, sdslen s)))"

text \<open>\<open>addReplyBulkCBuffer(c, str + start, len)\<close>: the bytes have to be inside the buffer.\<close>

definition reply_range :: "nenv \<Rightarrow> char list \<Rightarrow> int \<Rightarrow> int \<Rightarrow> replier" where
  "reply_range e str start len c w =
     rbind (sds_lift (region (drop (nat start) str) len)) (\<lambda>p. addReplyBulkCBuffer e p len c w)"

text \<open>The conversion of negative indexes and the cut at the end; \<open>(unsigned)end\<close> has 32 bits.\<close>

definition getrange_bounds :: "int \<Rightarrow> int \<Rightarrow> int \<Rightarrow> int \<times> int" where
  "getrange_bounds start end slen =
     (let start = (if start < 0 then to_i64 (slen + start) else start);
          end = (if end < 0 then to_i64 (slen + end) else end);
          start = (if start < 0 then 0 else start);
          end = (if end < 0 then 0 else end);
          end = (if end mod 2 ^ 32 \<ge> slen then to_i64 (slen - 1) else end)
      in (start, end))"

text \<open>The cast loses the high half of the index: an end that is a multiple of 2^32 stays behind the string.\<close>

lemma getrange_bounds_truncated:
  "slen > 0 \<Longrightarrow> k > 0 \<Longrightarrow> getrange_bounds 0 (2 ^ 32 * k) slen = (0, 2 ^ 32 * k)"
  by (simp add: getrange_bounds_def Let_def)

definition getrangeCommand :: "nenv \<Rightarrow> kcmd" where
  "getrangeCommand e sv c w =
     rbind (karg c 2) (\<lambda>a. rbind (getLongFromObjectOrReply e (Some a) None c w) (\<lambda>(start, c, w).
     case start of None \<Rightarrow> Inr (sv, c, w)
     | Some start \<Rightarrow>
     rbind (karg c 3) (\<lambda>a. rbind (getLongFromObjectOrReply e (Some a) None c w) (\<lambda>(end, c, w).
     case end of None \<Rightarrow> Inr (sv, c, w)
     | Some end \<Rightarrow>
     rbind (karg c 1) (\<lambda>key. rbind (lookupKeyReadOrReply e key (emptybulk (shared w)) sv c w) (\<lambda>(ob, sv, c, w).
     case ob of None \<Rightarrow> Inr (sv, c, w)
     | Some a \<Rightarrow>
     rbind (checkType e a REDIS_STRING c w) (\<lambda>(wrong, c, w).
     if wrong then Inr (sv, c, w)
     else rbind (obj_lift (string_bytes a (heap w))) (\<lambda>(str, slen).
       let (start, end) = getrange_bounds start end slen in
       if start > end then reply_with (addReply e (emptybulk (shared w))) sv c w
       else reply_with (reply_range e str start (to_u64 (end - start + 1))) sv c w))))))))"

section \<open>Several keys\<close>

fun mget_loop :: "nenv \<Rightarrow> nat list \<Rightarrow> kcmd" where
  "mget_loop e [] sv c w = Inr (sv, c, w)"
| "mget_loop e (key # rest) sv c w =
     rbind (lookupKeyRead (dbid c) key sv w) (\<lambda>(ob, sv, w).
     rbind (case ob of
         None \<Rightarrow> reply_with (addReply e (nullbulk (shared w))) sv c w
       | Some a \<Rightarrow>
           rbind (obj_lift (obj_at (heap w) a)) (\<lambda>v.
             if otype v \<noteq> REDIS_STRING then reply_with (addReply e (nullbulk (shared w))) sv c w
             else reply_with (addReplyBulk e a) sv c w)) (\<lambda>(sv, c, w).
       mget_loop e rest sv c w))"

definition mgetCommand :: "nenv \<Rightarrow> kcmd" where
  "mgetCommand e sv c w =
     rbind (reply_with (addReplyMultiBulkLen e (int (length (argv c)) - 1)) sv c w) (\<lambda>(sv, c, w).
       mget_loop e (drop 1 (argv c)) sv c w)"

text \<open>The keys of MSETNX that exist.\<close>

fun busy_keys :: "nat list \<Rightarrow> int \<Rightarrow> keyspace_server \<Rightarrow> command_client \<Rightarrow> nworld \<Rightarrow> (db_error, int \<times> keyspace_server \<times> nworld) result" where
  "busy_keys (key # val # rest) busykeys sv c w =
     rbind (lookupKeyWrite (dbid c) key sv w) (\<lambda>(ob, sv, w). busy_keys rest (if ob \<noteq> None then busykeys + 1 else busykeys) sv c w)"
| "busy_keys _ busykeys sv c w = Inr (busykeys, sv, w)"

text \<open>The loop of MSET, for the pairs of arguments from index \<open>j\<close> on.\<close>

fun mset_loop :: "nenv \<Rightarrow> nat \<Rightarrow> nat \<Rightarrow> kcmd" where
  "mset_loop e j 0 sv c w = Inr (sv, c, w)"
| "mset_loop e j (Suc n) sv c w =
     rbind (encode_arg e (j + 1) c w) (\<lambda>(val, c, w). rbind (karg c j) (\<lambda>key.
     rbind (setKey (nenv.fresh e) (dbid c) key val sv w) (\<lambda>(_, sv, w). mset_loop e (j + 2) n sv c w)))"

definition msetGenericCommand :: "nenv \<Rightarrow> bool \<Rightarrow> kcmd" where
  "msetGenericCommand e nx sv c w =
     (if length (argv c) mod 2 = 0 then reply_with (addReplyError e (''wrong number of arguments for MSET'' @ [NUL])) sv c w
      else rbind (if nx then busy_keys (drop 1 (argv c)) 0 sv c w else Inr (0, sv, w)) (\<lambda>(busykeys, sv, w).
        if busykeys \<noteq> 0 then reply_with (addReply e (czero (shared w))) sv c w
        else rbind (mset_loop e 1 ((length (argv c) - 1) div 2) sv c w) (\<lambda>(sv, c, w).
          reply_with (addReply e (if nx then cone (shared w) else ok_obj (shared w)))
            (dirtied ((int (length (argv c)) - 1) div 2) sv) c w)))"

definition msetCommand :: "nenv \<Rightarrow> kcmd" where
  "msetCommand e = msetGenericCommand e False"

definition msetnxCommand :: "nenv \<Rightarrow> kcmd" where
  "msetnxCommand e = msetGenericCommand e True"

section \<open>Counters\<close>

definition incrDecrCommand :: "nenv \<Rightarrow> int \<Rightarrow> kcmd" where
  "incrDecrCommand e incr sv c w =
     rbind (karg c 1) (\<lambda>key. rbind (lookupKeyWrite (dbid c) key sv w) (\<lambda>(ob, sv, w).
     rbind (case ob of None \<Rightarrow> Inr (False, c, w) | Some a \<Rightarrow> checkType e a REDIS_STRING c w) (\<lambda>(wrong, c, w).
     if wrong then Inr (sv, c, w)
     else rbind (getLongLongFromObjectOrReply e ob None c w) (\<lambda>(value, c, w).
     case value of None \<Rightarrow> Inr (sv, c, w)
     | Some oldvalue \<Rightarrow>
     if incr < 0 \<and> oldvalue < 0 \<and> incr < LLONG_MIN - oldvalue \<or> incr > 0 \<and> oldvalue > 0 \<and> incr > LLONG_MAX - oldvalue
     then reply_with (addReplyError e (''increment or decrement would overflow'' @ [NUL])) sv c w
     else rbind (obj_lift (createStringObjectFromLongLong (nenv.fresh e) (oldvalue + incr) (heap w))) (\<lambda>(new, h).
          rbind (if ob \<noteq> None then dbOverwrite (dbid c) key new sv (w\<lparr>heap := h\<rparr>)
                 else dbAdd (nenv.fresh e) (dbid c) key new sv (w\<lparr>heap := h\<rparr>)) (\<lambda>(_, sv, w).
          rbind (signalModifiedKey (dbid c) key sv w) (\<lambda>(_, sv, w).
            reply_with (andthen (\<lambda>c w. addReply e (colon_obj (shared w)) c w)
              (andthen (addReply e new) (\<lambda>c w. addReply e (crlf (shared w)) c w))) (dirtied 1 sv) c w)))))))"

definition incrCommand :: "nenv \<Rightarrow> kcmd" where
  "incrCommand e = incrDecrCommand e 1"

definition decrCommand :: "nenv \<Rightarrow> kcmd" where
  "decrCommand e = incrDecrCommand e (- 1)"

definition incrbyCommand :: "nenv \<Rightarrow> kcmd" where
  "incrbyCommand e sv c w =
     rbind (karg c 2) (\<lambda>a. rbind (getLongLongFromObjectOrReply e (Some a) None c w) (\<lambda>(incr, c, w).
       case incr of None \<Rightarrow> Inr (sv, c, w) | Some incr \<Rightarrow> incrDecrCommand e incr sv c w))"

definition decrbyCommand :: "nenv \<Rightarrow> kcmd" where
  "decrbyCommand e sv c w =
     rbind (karg c 2) (\<lambda>a. rbind (getLongLongFromObjectOrReply e (Some a) None c w) (\<lambda>(incr, c, w).
       case incr of None \<Rightarrow> Inr (sv, c, w) | Some incr \<Rightarrow> incrDecrCommand e (to_i64 (- incr)) sv c w))"

section \<open>APPEND and STRLEN\<close>

definition appendCommand :: "nenv \<Rightarrow> kcmd" where
  "appendCommand e sv c w =
     rbind (karg c 1) (\<lambda>key. let i = dbid c;
         finish = (\<lambda>totlen sv c w. rbind (signalModifiedKey i key sv w) (\<lambda>(_, sv, w). reply_with (addReplyLongLong e totlen) (dirtied 1 sv) c w))
     in rbind (lookupKeyWrite i key sv w) (\<lambda>(ob, sv, w).
     case ob of
       None \<Rightarrow>
         rbind (encode_arg e 2 c w) (\<lambda>(val, c, w).
         rbind (dbAdd (nenv.fresh e) i key val sv w) (\<lambda>(_, sv, w).
         rbind (obj_lift (rbind (incrRefCount val (heap w)) (\<lambda>h. rbind (stringObjectLen val h) (\<lambda>n. Inr (n, h))))) (\<lambda>(totlen, h).
           finish totlen sv c (w\<lparr>heap := h\<rparr>))))
     | Some a \<Rightarrow>
         rbind (checkType e a REDIS_STRING c w) (\<lambda>(wrong, c, w).
         if wrong then Inr (sv, c, w)
         else rbind (ksds c w 2) (\<lambda>append.
         rbind (obj_lift (stringObjectLen a (heap w))) (\<lambda>olen.
         rbind (checkStringLength e (to_i64 (to_u64 (olen + sdslen append))) c w) (\<lambda>(good, c, w).
         if \<not> good then Inr (sv, c, w)
         else rbind (unshare e i key a sv w) (\<lambda>(a, sv, w).
              rbind (obj_lift (edit_string (\<lambda>s. sdscatlen (nenv.fresh e) s (sh_buf append) (sdslen append)) a (heap w))) (\<lambda>(totlen, h).
                finish totlen sv c (w\<lparr>heap := h\<rparr>)))))))))"

definition strlenCommand :: "nenv \<Rightarrow> kcmd" where
  "strlenCommand e sv c w =
     rbind (karg c 1) (\<lambda>key. rbind (lookupKeyReadOrReply e key (czero (shared w)) sv c w) (\<lambda>(ob, sv, c, w).
     case ob of None \<Rightarrow> Inr (sv, c, w)
     | Some a \<Rightarrow>
         rbind (checkType e a REDIS_STRING c w) (\<lambda>(wrong, c, w).
         if wrong then Inr (sv, c, w)
         else rbind (obj_lift (stringObjectLen a (heap w))) (\<lambda>n. reply_with (addReplyLongLong e n) sv c w))))"

end
