(* ===== verification/Key_Commands.thy ===== *)
theory Key_Commands
  imports String_Commands
begin

text \<open>
  The commands of \<open>db.c\<close> on keys and expire times, and the dispatch to the commands of this theory and of
  \<open>String_Commands\<close> by the name of their function in the command table.
\<close>

section \<open>Rewriting the command line\<close>

text \<open>The new vector is what the append only file and the slaves get to see.\<close>

definition rewriteClientCommandVector :: "nat list \<Rightarrow> kcmd" where
  "rewriteClientCommandVector as sv c w =
     obj_lift (rbind (incr_all as (heap w)) (\<lambda>h. rbind (decr_all (argv c) h) (\<lambda>h.
       let c = c\<lparr>argv := as, argv_room := int (length as)\<rparr>; w = w\<lparr>heap := h\<rparr> in
       rbind (arg_sds c w 0) (\<lambda>name.
         case lookupCommandOrOriginal (same_bucket sv) (commands sv) (orig_commands sv) name of
           None \<Rightarrow> Inl Assertion
         | Some cm \<Rightarrow> Inr (sv, c\<lparr>cmd := Some cm\<rparr>, w)))))"

section \<open>Keys\<close>

fun del_loop :: "nat list \<Rightarrow> int \<Rightarrow> nat \<Rightarrow> int dstep" where
  "del_loop [] deleted i sv w = Inr (deleted, sv, w)"
| "del_loop (key # rest) deleted i sv w =
     rbind (dbDelete i key sv w) (\<lambda>(gone, sv, w).
       if gone then rbind (signalModifiedKey i key sv w) (\<lambda>(_, sv, w). del_loop rest (deleted + 1) i (dirtied 1 sv) w)
       else del_loop rest deleted i sv w)"

definition delCommand :: "nenv \<Rightarrow> kcmd" where
  "delCommand e sv c w =
     rbind (del_loop (drop 1 (argv c)) 0 (dbid c) sv w) (\<lambda>(deleted, sv, w). reply_with (addReplyLongLong e deleted) sv c w)"

definition existsCommand :: "nenv \<Rightarrow> kcmd" where
  "existsCommand e sv c w =
     rbind (karg c 1) (\<lambda>key. rbind (expireIfNeeded (dbid c) key sv w) (\<lambda>(_, sv, w).
     rbind (dbExists (dbid c) key sv w) (\<lambda>(there, sv, w).
       reply_with (addReply e (if there then cone (shared w) else czero (shared w))) sv c w)))"

text \<open>The index is passed as an \<open>int\<close>; \<open>None\<close> is \<open>REDIS_ERR\<close>.\<close>

definition selectDb :: "keyspace_server \<Rightarrow> command_client \<Rightarrow> int \<Rightarrow> command_client option" where
  "selectDb sv c i = (if i < 0 \<or> i \<ge> int (length (dbs sv)) then None else Some (c\<lparr>dbid := nat i\<rparr>))"

definition selectCommand :: "nenv \<Rightarrow> kcmd" where
  "selectCommand e sv c w =
     rbind (karg c 1) (\<lambda>a. rbind (getLongFromObjectOrReply e (Some a) (Some (''invalid DB index'' @ [NUL])) c w) (\<lambda>(i, c, w).
     case i of None \<Rightarrow> Inr (sv, c, w)
     | Some i \<Rightarrow>
         case selectDb sv c (to_i32 i) of
           None \<Rightarrow> reply_with (addReplyError e (''invalid DB index'' @ [NUL])) sv c w
         | Some c \<Rightarrow> reply_with (addReply e (ok_obj (shared w))) sv c w))"

definition dbsizeCommand :: "nenv \<Rightarrow> kcmd" where
  "dbsizeCommand e sv c w =
     rbind (redis_db sv (dbid c)) (\<lambda>db. reply_with (addReplyLongLong e (dictSize (db_dict db))) sv c w)"

definition type_name :: "int \<Rightarrow> char list" where
  "type_name t =
     (if t = REDIS_STRING then ''string'' else if t = REDIS_LIST then ''list'' else if t = REDIS_SET then ''set''
      else if t = REDIS_ZSET then ''zset'' else if t = REDIS_HASH then ''hash'' else ''unknown'')"

definition typeCommand :: "nenv \<Rightarrow> kcmd" where
  "typeCommand e sv c w =
     rbind (karg c 1) (\<lambda>key. rbind (lookupKeyRead (dbid c) key sv w) (\<lambda>(ob, sv, w).
     rbind (case ob of None \<Rightarrow> Inr ''none'' | Some a \<Rightarrow> rbind (obj_lift (obj_at (heap w) a)) (\<lambda>v. Inr (type_name (otype v)))) (\<lambda>type.
       reply_with (addReplyStatus e (type @ [NUL])) sv c w)))"

definition renameGenericCommand :: "nenv \<Rightarrow> bool \<Rightarrow> kcmd" where
  "renameGenericCommand e nx sv c w =
     rbind (ksds c w 1) (\<lambda>s1. rbind (ksds c w 2) (\<lambda>s2.
     if sdscmp s1 s2 = 0 then reply_with (addReply e (sameobjecterr (shared w))) sv c w
     else rbind (karg c 1) (\<lambda>src. rbind (karg c 2) (\<lambda>dst. let i = dbid c in
     rbind (lookupKeyWriteOrReply e src (nokeyerr (shared w)) sv c w) (\<lambda>(ob, sv, c, w).
     case ob of None \<Rightarrow> Inr (sv, c, w)
     | Some a \<Rightarrow>
     rbind (obj_lift (incrRefCount a (heap w))) (\<lambda>h. let w = w\<lparr>heap := h\<rparr> in
     rbind (getExpire i src sv w) (\<lambda>(expire, sv, w).
     rbind (lookupKeyWrite i dst sv w) (\<lambda>(old, sv, w).
     if old \<noteq> None \<and> nx then
       rbind (obj_lift (decrRefCount a (heap w))) (\<lambda>h. reply_with (addReply e (czero (shared w))) sv c (w\<lparr>heap := h\<rparr>))
     else
       rbind (if old \<noteq> None then dbDelete i dst sv w else Inr (False, sv, w)) (\<lambda>(_, sv, w).
       rbind (dbAdd (nenv.fresh e) i dst a sv w) (\<lambda>(_, sv, w).
       rbind (if expire \<noteq> - 1 then setExpire i dst expire sv w else Inr ((), sv, w)) (\<lambda>(_, sv, w).
       rbind (dbDelete i src sv w) (\<lambda>(_, sv, w).
       rbind (signalModifiedKey i src sv w) (\<lambda>(_, sv, w).
       rbind (signalModifiedKey i dst sv w) (\<lambda>(_, sv, w).
         reply_with (addReply e (if nx then cone (shared w) else ok_obj (shared w))) (dirtied 1 sv) c w))))))))))))))"

definition renameCommand :: "nenv \<Rightarrow> kcmd" where
  "renameCommand e = renameGenericCommand e False"

definition renamenxCommand :: "nenv \<Rightarrow> kcmd" where
  "renamenxCommand e = renameGenericCommand e True"

text \<open>The value moves without its expire time.\<close>

definition moveCommand :: "nenv \<Rightarrow> kcmd" where
  "moveCommand e sv c w =
     rbind (ksds c w 2) (\<lambda>s. rbind (obj_lift (strtoll (sh_buf s))) (\<lambda>(v, _).
     case selectDb sv c (to_i32 v) of
       None \<Rightarrow> reply_with (addReply e (outofrangeerr (shared w))) sv c w
     | Some c' \<Rightarrow>
         let src = dbid c; dst = dbid c' in
         if src = dst then reply_with (addReply e (sameobjecterr (shared w))) sv c w
         else rbind (karg c 1) (\<lambda>key. rbind (lookupKeyWrite src key sv w) (\<lambda>(ob, sv, w).
         case ob of None \<Rightarrow> reply_with (addReply e (czero (shared w))) sv c w
         | Some a \<Rightarrow>
         rbind (lookupKeyWrite dst key sv w) (\<lambda>(old, sv, w).
         if old \<noteq> None then reply_with (addReply e (czero (shared w))) sv c w
         else
           rbind (dbAdd (nenv.fresh e) dst key a sv w) (\<lambda>(_, sv, w).
           rbind (obj_lift (incrRefCount a (heap w))) (\<lambda>h.
           rbind (dbDelete src key sv (w\<lparr>heap := h\<rparr>)) (\<lambda>(_, sv, w).
             reply_with (addReply e (cone (shared w))) (dirtied 1 sv) c w))))))))"

section \<open>Expire times\<close>

text \<open>Products and sums of times wrap at 64 bits.\<close>

definition expireGenericCommand :: "nenv \<Rightarrow> int \<Rightarrow> int \<Rightarrow> kcmd" where
  "expireGenericCommand e basetime unit sv c w =
     rbind (karg c 1) (\<lambda>key. rbind (karg c 2) (\<lambda>param.
     rbind (getLongLongFromObjectOrReply e (Some param) None c w) (\<lambda>(value, c, w).
     case value of None \<Rightarrow> Inr (sv, c, w)
     | Some v \<Rightarrow>
     let i = dbid c; when = to_i64 ((if unit = UNIT_SECONDS then to_i64 (v * 1000) else v) + basetime) in
     rbind (lookupKeyRead i key sv w) (\<lambda>(ob, sv, w).
     if ob = None then reply_with (addReply e (czero (shared w))) sv c w
     else let (now, sv) = mstime sv in
       if when \<le> now \<and> \<not> loading sv \<and> \<not> is_slave sv then
         rbind (dbDelete i key sv w) (\<lambda>(gone, sv, w).
         if \<not> gone then Inl (DbObject Assertion)
         else rbind (obj_lift (createStringObject (nenv.fresh e) (''DEL'' @ [NUL]) 3 (heap w))) (\<lambda>(aux, h).
           rbind (rewriteClientCommandVector [aux, key] (dirtied 1 sv) c (w\<lparr>heap := h\<rparr>)) (\<lambda>(sv, c, w).
           rbind (obj_lift (decrRefCount aux (heap w))) (\<lambda>h.
           rbind (signalModifiedKey i key sv (w\<lparr>heap := h\<rparr>)) (\<lambda>(_, sv, w).
             reply_with (addReply e (cone (shared w))) sv c w)))))
       else
         rbind (setExpire i key when sv w) (\<lambda>(_, sv, w).
         rbind (reply_with (addReply e (cone (shared w))) sv c w) (\<lambda>(sv, c, w).
         rbind (signalModifiedKey i key sv w) (\<lambda>(_, sv, w). Inr (dirtied 1 sv, c, w))))))))"

definition expireCommand :: "nenv \<Rightarrow> kcmd" where
  "expireCommand e sv c w = (let (now, sv) = mstime sv in expireGenericCommand e now UNIT_SECONDS sv c w)"

definition expireatCommand :: "nenv \<Rightarrow> kcmd" where
  "expireatCommand e = expireGenericCommand e 0 UNIT_SECONDS"

definition pexpireCommand :: "nenv \<Rightarrow> kcmd" where
  "pexpireCommand e sv c w = (let (now, sv) = mstime sv in expireGenericCommand e now UNIT_MILLISECONDS sv c w)"

definition pexpireatCommand :: "nenv \<Rightarrow> kcmd" where
  "pexpireatCommand e = expireGenericCommand e 0 UNIT_MILLISECONDS"

text \<open>Division rounds towards zero.\<close>

definition ttl_seconds :: "int \<Rightarrow> int" where
  "ttl_seconds ttl = (let n = to_i64 (ttl + 500) in if n < 0 then - (- n div 1000) else n div 1000)"

definition ttlGenericCommand :: "nenv \<Rightarrow> bool \<Rightarrow> kcmd" where
  "ttlGenericCommand e output_ms sv c w =
     rbind (karg c 1) (\<lambda>key. rbind (getExpire (dbid c) key sv w) (\<lambda>(expire, sv, w).
     let (ttl, sv) = (if expire \<noteq> - 1
           then let (now, sv) = mstime sv; ttl = to_i64 (expire - now) in (if ttl < 0 then - 1 else ttl, sv)
           else (- 1, sv))
     in if ttl = - 1 then reply_with (addReplyLongLong e (- 1)) sv c w
        else reply_with (addReplyLongLong e (if output_ms then ttl else ttl_seconds ttl)) sv c w))"

definition ttlCommand :: "nenv \<Rightarrow> kcmd" where
  "ttlCommand e = ttlGenericCommand e False"

definition pttlCommand :: "nenv \<Rightarrow> kcmd" where
  "pttlCommand e = ttlGenericCommand e True"

definition persistCommand :: "nenv \<Rightarrow> kcmd" where
  "persistCommand e sv c w =
     rbind (karg c 1) (\<lambda>key. rbind (find_key (dbid c) key sv w) (\<lambda>(de, sv, w).
     if de = None then reply_with (addReply e (czero (shared w))) sv c w
     else rbind (removeExpire (dbid c) key sv w) (\<lambda>(gone, sv, w).
       if gone then rbind (reply_with (addReply e (cone (shared w))) sv c w) (\<lambda>(sv, c, w). Inr (dirtied 1 sv, c, w))
       else reply_with (addReply e (czero (shared w))) sv c w)))"

section \<open>Dispatch\<close>

definition key_commands :: "nenv \<Rightarrow> (char list \<times> kcmd) list" where
  "key_commands e =
     [(''getCommand'', getCommand e), (''setCommand'', setCommand e), (''setnxCommand'', setnxCommand e),
      (''setexCommand'', setexCommand e), (''psetexCommand'', psetexCommand e), (''appendCommand'', appendCommand e),
      (''strlenCommand'', strlenCommand e), (''delCommand'', delCommand e), (''existsCommand'', existsCommand e),
      (''setrangeCommand'', setrangeCommand e), (''getrangeCommand'', getrangeCommand e), (''incrCommand'', incrCommand e),
      (''decrCommand'', decrCommand e), (''mgetCommand'', mgetCommand e), (''incrbyCommand'', incrbyCommand e),
      (''decrbyCommand'', decrbyCommand e), (''getsetCommand'', getsetCommand e), (''msetCommand'', msetCommand e),
      (''msetnxCommand'', msetnxCommand e), (''selectCommand'', selectCommand e), (''moveCommand'', moveCommand e),
      (''renameCommand'', renameCommand e), (''renamenxCommand'', renamenxCommand e), (''expireCommand'', expireCommand e),
      (''expireatCommand'', expireatCommand e), (''pexpireCommand'', pexpireCommand e), (''pexpireatCommand'', pexpireatCommand e),
      (''dbsizeCommand'', dbsizeCommand e), (''typeCommand'', typeCommand e), (''ttlCommand'', ttlCommand e),
      (''pttlCommand'', pttlCommand e), (''persistCommand'', persistCommand e)]"

end
