(* ===== verification/Spec2Isabelle.thy ===== *)
theory Spec2Isabelle
  imports Zmalloc Memory_Aggregator Util Sds Intset Dict_Props Adlist Ziplist_Map Object Session_Props Watch Request_Errors Keyspace_Props Key_Commands
begin

text \<open>
  A verification library for the C code of the Redis 2.6.16 server in \<open>src/redis-2.6.16/src\<close>, with the page pool that
  this repository adds for its memory access experiments.

  The program and its parts. Redis keeps strings, lists, sets and hashes in memory and serves clients over sockets.
  \<open>zmalloc.c\<close> wraps the allocator and counts the memory in use; \<open>memory_aggregator.c\<close> packs hash table entries into pages.
  \<open>sds.c\<close> (strings), \<open>dict.c\<close> (hash tables), \<open>adlist.c\<close> (linked lists), \<open>intset.c\<close> and \<open>ziplist.c\<close> (packed sets and lists)
  are the data structures; \<open>util.c\<close> converts numbers and matches patterns. \<open>object.c\<close> puts strings into reference-counted
  objects. \<open>networking.c\<close> reads requests of clients into argument vectors of objects and sends replies made of bytes and
  shared objects, which \<open>createSharedObjects\<close> of \<open>redis.c\<close> builds at the start. \<open>processCommand\<close> of \<open>redis.c\<close> looks the command
  up in the table of commands and refuses, queues or calls it; \<open>multi.c\<close> runs queued commands and watches keys.

  The theories.
  \<^item> \<open>Prelude\<close>: results (\<open>Inl\<close> an error, \<open>Inr\<close> a value), the C integer conversions, byte lists and checked accesses, list
    lemmas. \<open>Refine\<close>: the locale \<open>simulation\<close> (a step function refines an abstract one) with its lemma on runs; it is
    interpreted on the strings, lists, packed lists, objects, replies, watched keys and the keyspace of the program.
  \<^item> \<open>Zmalloc\<close> (\<open>zmalloc.c\<close>): \<open>zstate\<close> holds \<open>used_memory\<close>; both builds, with a size header and with sizes reported by
    the allocator. \<open>used_memory\<close> is exact after any calls.
  \<^item> \<open>Memory_Aggregator\<close> (\<open>memory_aggregator.c\<close>): the pool is a doubly linked list of page structs in a store; \<open>mmap\<close>
    and \<open>rand\<close> are scripts. Entries are disjoint while pages have room; two lemmas show what happens when a page is full.
  \<^item> \<open>Util\<close> (\<open>util.c\<close>): integer parsing and printing are inverse to each other; the glob matcher against the language of
    the pattern.
  \<^item> \<open>Sds\<close> (\<open>sds.c\<close>): \<open>sdshdr\<close> is the header with the bytes of the block; every access is checked. Runs of operations
    refine byte sequences; splitting, quoting and comparing are correct.
  \<^item> \<open>Intset\<close> (\<open>intset.c\<close>): the packed array of little-endian integers refines a set across upgrades of the width.
  \<^item> \<open>Dict\<close>, \<open>Dict_Map\<close>, \<open>Dict_Props\<close> (\<open>dict.c\<close>): two tables of chains with incremental rehashing; runs refine a finite map;
    iterators, random keys, rehashing to the end, sizes and hash functions.
  \<^item> \<open>Adlist\<close> (\<open>adlist.c\<close>): nodes in a store with all links; runs refine sequences; iteration with removal, copying, search.
  \<^item> \<open>Ziplist\<close>, \<open>Ziplist_Entry\<close>, \<open>Ziplist_Layout\<close>, \<open>Ziplist_Ops\<close>, \<open>Ziplist_Map\<close> (\<open>ziplist.c\<close>): the bytes of the packed list,
    the encodings of an entry, the layout of a well-formed block, each operation with its cascading update, and the
    refinement of lists of texts.
  \<^item> \<open>Object\<close> (\<open>object.c\<close>): a store of objects with counts; \<open>store_ok h rs\<close> says that \<open>rs\<close> are exactly the references the
    program owns. Programs on objects behave as on plain values.
  \<^item> \<open>Networking_Reply\<close> (\<open>networking.c\<close>, output): \<open>redisClient\<close> with the static buffer and the list of objects, \<open>nworld\<close> with
    the object store, the shared objects, the limits and the bytes the socket accepted. \<open>Reply_Stream\<close> describes the
    pending output as a sequence of bytes and holes (lengths not yet known) and gives the effect of each function;
    \<open>Reply_Run\<close> lifts it to programs of replies, \<open>Shared_Objects\<close> (\<open>redis.c\<close>) builds the shared objects and \<open>Reply_Props\<close>
    concludes that the socket gets the protocol text of the replies.
  \<^item> \<open>Networking_Request\<close> (\<open>networking.c\<close>, input): \<open>request_client\<close> adds the query buffer and the argument vector. Parsing of
    the inline and the multi bulk form, the loop over complete requests, the reads. \<open>Request_Stream\<close> relates a partly
    read request to the bytes that are still to come (\<open>request_state\<close>) and shows that parsing keeps the relation.
    \<open>Request_Executor\<close> states what the parser needs from the execution of commands as the locale \<open>command_executor\<close> and
    proves for all of them that the command lines of the stream are executed in order, however it was cut into reads
    (\<open>serve\<close> is the event loop calling \<open>readQueryFromClient\<close> while bytes wait).
  \<^item> \<open>Command_Table\<close> (\<open>redis.c\<close>): the table of the 138 commands, \<open>populateCommandTable\<close> and the lookups. The dictionary of
    commands is a list of names and entries searched without regard to case; a name with a NUL byte is also compared by
    its bucket, an argument (\<open>same_bucket\<close>), since its hash and its comparison disagree there.
  \<^item> \<open>Commands\<close> (\<open>redis.c\<close>, \<open>multi.c\<close>): \<open>command_client\<close> and \<open>redisServer\<close> hold what \<open>processCommand\<close>, \<open>call\<close>, the propagation
    and the functions of \<open>multi.c\<close> read and write; what goes to monitors, slaves, the append only file, the slow log and
    the statistics is a list of events. The functions of the keyspace commands, \<open>freeMemoryIfNeeded\<close> and
    \<open>handleClientsBlockedOnLists\<close> are the fields of \<open>cenv\<close>.
  \<^item> \<open>Reply_Frame\<close> shows which fields of the client the reply functions leave alone. \<open>Command_Session\<close> has the abstract
    machine of one client (logged in, in a transaction, aborting, queue, text of all replies) and the invariant that
    relates client, server and world to it; \<open>Command_Props\<close> shows that \<open>processCommand\<close> refines its step
    (\<open>session_effect\<close>) and interprets \<open>command_executor\<close>; \<open>Session_Props\<close> goes from a new connection to the bytes of the
    replies. The machine has AUTH, PING, ECHO, MULTI, EXEC, DISCARD, UNWATCH, unknown commands, wrong numbers of
    arguments and the refusals; it assumes that memory is never short (\<open>server_ok\<close>) and that nothing is watched.
  \<^item> \<open>Watch\<close> (\<open>multi.c\<close>): the watched keys of several clients that share the tables of the databases represent one relation,
    and touching a key or flushing a database flags exactly the clients it relates to the keys concerned.
  \<^item> \<open>Request_Errors\<close>: malformed requests get their protocol error and close the client.
  \<^item> \<open>Keyspace\<close> (\<open>db.c\<close>, the dictionary types of \<open>redis.c\<close>): \<open>keyspace_server\<close> adds the databases to the server; a database is
    a dictionary from keys to objects and one from keys to expire times, and all dictionaries take turns with the page
    pool. \<open>Dict_Entries\<close> gives each dictionary operation as a change of the multiset of its entries. \<open>Keyspace_State\<close> has
    the invariant (\<open>ks_ok\<close>: one reference per entry, keys shared by the two dictionaries) and the abstraction to a map from
    keys to values with expire times, \<open>Keyspace_Steps\<close> the changes of one dictionary, \<open>Keyspace_Map\<close> one lemma per function
    of \<open>db.c\<close>, and \<open>Keyspace_Props\<close> interprets \<open>simulation\<close> on them.
  \<^item> \<open>String_Commands\<close> (\<open>t_string.c\<close>) and \<open>Key_Commands\<close> (\<open>db.c\<close>): the commands on strings and keys on top of the keyspace,
    with their replies, and the dispatch to them by the name of their function.

  Bounds and fuel. Sizes are integers with the wrap-around of their C type. \<open>SDS_LIMIT\<close> (2146435072) keeps \<open>sdsMakeRoomFor\<close>
  below \<open>INT_MAX\<close> after doubling; intsets have fewer than \<open>2^29\<close> elements; dictionaries \<open>DICT_LIMIT = 2^30\<close> entries, lists
  \<open>LIST_LIMIT = 2^63\<close> nodes and ziplists less than \<open>2^32\<close> bytes, the limits of their counters. \<open>REF_LIMIT\<close> and
  \<open>OUT_LIMIT\<close> bound reference counts and pieces of pending output so that the 32-bit counts and \<open>reply_bytes\<close> do not wrap.
  \<open>KEY_LIMIT\<close> and \<open>HELD_LIMIT\<close> bound the keys of the databases and the references of a command likewise; \<open>ks_room n\<close> says that
  the page pool gives \<open>n\<close> more entries.
  Requests have at most \<open>2^20\<close> arguments of at most 512 MB, as the parser demands, and inline lines up to 32767 bytes.
  Loops over lists are structural or have measures. Fuel occurs where the source loops over bytes: the entries of a
  ziplist (its length in bytes, which every entry shortens), the rounds of the input loop (the length of the query
  buffer plus two, each round consumes a byte), the rounds of a rehash (given by the caller), the commands EXEC runs
  (the length of the queue) and the depth of calls of commands (two: EXEC calls queued commands, which are never EXEC);
  the theorems show that the runs end with a result, never out of fuel.

  Not modelled. Event loop, sockets, files, timers and the answers of the allocator are arguments of the definitions
  that use them. Lists, sets, hashes and sorted sets with their commands (\<open>t_*.c\<close> but strings), scripting,
  replication, persistence, sentinel, configuration, the slow log and the command line tools have no definitions here;
  nor have the libraries under \<open>deps\<close> (jemalloc, Lua, hiredis, linenoise), the PAPI wrappers and the kernel module.
  Floating-point printing and parsing (\<open>d2string\<close>, \<open>addReplyDouble\<close>, \<open>getDoubleFromObject\<close>) is left out.
\<close>

end
